(* ===== verification/Prelude.thy ===== *)
theory Prelude
  imports Main "HOL-Library.Word" "HOL-Library.List_Lexorder" "HOL-Library.Multiset"
begin

text \<open>
  Shared vocabulary of the flushdb development: the machine integers and byte strings of the Rust
  code, its result type, the byte-order conversions of \<^verbatim>\<open>u16/u32/u64::to_le_bytes\<close> and
  \<^verbatim>\<open>to_be_bytes\<close>, slices, the standard library's \<^verbatim>\<open>binary_search_by\<close> and
  \<^verbatim>\<open>partition_point\<close>, and the lemmas the components share about them.

  Byte strings are ordered by \<open>HOL-Library.List_Lexorder\<close>, which is the order Rust gives
  \<^verbatim>\<open>[u8]\<close>: compare the first differing byte, a proper prefix is smaller.
\<close>

unbundle bit_operations_syntax

section \<open>Types\<close>

type_synonym u8 = "8 word"
type_synonym u16 = "16 word"
type_synonym u32 = "32 word"
type_synonym u64 = "64 word"
type_synonym bytes = "u8 list"

text \<open>\<^verbatim>\<open>std::cmp::Ordering\<close> and \<^verbatim>\<open>Ord::cmp\<close>.\<close>

datatype ordering = Less | Equal | Greater

definition cmp :: "'a::linorder \<Rightarrow> 'a \<Rightarrow> ordering" where
  "cmp a b = (if a < b then Less else if a = b then Equal else Greater)"

named_theorems codec_simps \<open>rewriting rules for encoders and decoders\<close>
named_theorems rec_defs \<open>definitions of small record operations\<close>

lemma cmp_simps [simp]:
  "cmp a b = Less \<longleftrightarrow> a < b"
  "cmp a b = Equal \<longleftrightarrow> a = b"
  "cmp a b = Greater \<longleftrightarrow> b < a"
  by (auto simp: cmp_def)

section \<open>Results\<close>

text \<open>The \<^verbatim>\<open>?\<close> operator of Rust: stop at the first error.\<close>

fun bind_res :: "'e + 'a \<Rightarrow> ('a \<Rightarrow> 'e + 'b) \<Rightarrow> 'e + 'b" where
  "bind_res (Inl e) f = Inl e"
| "bind_res (Inr a) f = f a"

lemma bind_res_eq_Inr [simp]: "bind_res m f = Inr b \<longleftrightarrow> (\<exists>a. m = Inr a \<and> f a = Inr b)"
  by (cases m) auto

lemma bind_res_eq_Inl: "bind_res m f = Inl e \<longleftrightarrow> m = Inl e \<or> (\<exists>a. m = Inr a \<and> f a = Inl e)"
  by (cases m) auto

section \<open>Slices\<close>

text \<open>\<^verbatim>\<open>data[a..b]\<close> for \<open>a \<le> b \<le> len\<close>; every use in the model stands under the guard the
  code has, so the out-of-range panic is not reached.\<close>

definition slice_of :: "nat \<Rightarrow> nat \<Rightarrow> 'a list \<Rightarrow> 'a list" where
  "slice_of a b xs = take (b - a) (drop a xs)"

lemma length_slice [simp]: "b \<le> length xs \<Longrightarrow> length (slice_of a b xs) = b - a"
  by (simp add: slice_of_def)

lemma slice_append_skip [simp]:
  "length xs \<le> a \<Longrightarrow> slice_of a b (xs @ ys) = slice_of (a - length xs) (b - length xs) ys"
  by (simp add: slice_of_def)

lemma slice_append_hit [simp]: "b = length xs \<Longrightarrow> slice_of 0 b (xs @ ys) = xs"
  by (simp add: slice_of_def)

lemma slice_all [simp]: "b = length xs \<Longrightarrow> slice_of 0 b xs = xs"
  by (simp add: slice_of_def)

section \<open>Little and big endian bytes\<close>

definition to_le_bytes :: "nat \<Rightarrow> 'a::len word \<Rightarrow> bytes" where
  "to_le_bytes n w = map (\<lambda>i. ucast (drop_bit (8 * i) w)) [0..<n]"

fun from_le_bytes :: "bytes \<Rightarrow> 'a::len word" where
  "from_le_bytes [] = 0"
| "from_le_bytes (b # bs) = ucast b OR push_bit 8 (from_le_bytes bs)"

definition to_be_bytes :: "nat \<Rightarrow> 'a::len word \<Rightarrow> bytes" where
  "to_be_bytes n w = rev (to_le_bytes n w)"

definition from_be_bytes :: "bytes \<Rightarrow> 'a::len word" where
  "from_be_bytes bs = from_le_bytes (rev bs)"

lemma length_to_le_bytes [simp]: "length (to_le_bytes n w) = n"
  by (simp add: to_le_bytes_def)

lemma length_to_be_bytes [simp]: "length (to_be_bytes n w) = n"
  by (simp add: to_be_bytes_def)

lemma bit_from_le_bytes:
  "bit (from_le_bytes bs :: 'a::len word) i \<longleftrightarrow>
     i < LENGTH('a) \<and> i div 8 < length bs \<and> bit (bs ! (i div 8)) (i mod 8)"
proof (induction bs arbitrary: i)
  case Nil
  then show ?case by simp
next
  case (Cons b bs)
  show ?case
  proof (cases "i < 8")
    case True
    then show ?thesis
      by (auto simp: bit_or_iff bit_push_bit_iff bit_ucast_iff)
  next
    case False
    then obtain j where "i = 8 + j" using le_Suc_ex by (metis not_less)
    moreover have "(8 + j) div 8 = Suc (j div 8)" "(8 + j) mod 8 = j mod 8" by auto
    ultimately show ?thesis
      using Cons.IH [of j] bit_imp_le_length [of b "8 + j"]
      by (auto simp: bit_or_iff bit_push_bit_iff bit_ucast_iff)
  qed
qed

lemma from_to_le_bytes [codec_simps]:
  assumes "8 * n = LENGTH('a)"
  shows "from_le_bytes (to_le_bytes n w) = (w :: 'a::len word)"
proof (rule bit_word_eqI)
  fix i assume "i < LENGTH('a)"
  moreover from this assms have "i div 8 < n" by simp
  moreover have "8 * (i div 8) + i mod 8 = i" by simp
  ultimately show "bit (from_le_bytes (to_le_bytes n w) :: 'a word) i = bit w i"
    by (simp add: bit_from_le_bytes to_le_bytes_def bit_ucast_iff bit_drop_bit_eq)
qed

lemma to_from_le_bytes [codec_simps]:
  assumes "length bs = n" and "8 * n \<le> LENGTH('a)"
  shows "to_le_bytes n (from_le_bytes bs :: 'a::len word) = bs"
proof (rule nth_equalityI)
  show "length (to_le_bytes n (from_le_bytes bs :: 'a word)) = length bs"
    using assms by simp
  fix i assume "i < length (to_le_bytes n (from_le_bytes bs :: 'a word))"
  then have i: "i < n" by simp
  show "to_le_bytes n (from_le_bytes bs :: 'a word) ! i = bs ! i"
  proof (rule bit_word_eqI)
    fix k assume "k < LENGTH(8)"
    then have "k < 8" by simp
    moreover from this i assms have "8 * i + k < LENGTH('a)" by linarith
    ultimately show "bit (to_le_bytes n (from_le_bytes bs :: 'a word) ! i) k = bit (bs ! i) k"
      using i assms
      by (simp add: to_le_bytes_def bit_ucast_iff bit_drop_bit_eq bit_from_le_bytes)
  qed
qed

lemma from_to_be_bytes [codec_simps]:
  "8 * n = LENGTH('a) \<Longrightarrow> from_be_bytes (to_be_bytes n w) = (w :: 'a::len word)"
  by (simp add: from_be_bytes_def to_be_bytes_def from_to_le_bytes)

lemma to_from_be_bytes [codec_simps]:
  "length bs = n \<Longrightarrow> 8 * n \<le> LENGTH('a) \<Longrightarrow>
     to_be_bytes n (from_be_bytes bs :: 'a::len word) = bs"
  by (simp add: from_be_bytes_def to_be_bytes_def to_from_le_bytes)

lemma to_be_bytes_inject:
  assumes "8 * n = LENGTH('a)" and "to_be_bytes n v = to_be_bytes n w"
  shows "v = (w :: 'a::len word)"
  using assms from_to_be_bytes by metis

lemma to_le_bytes_Suc:
  "to_le_bytes (Suc n) w = to_le_bytes n w @ [ucast (drop_bit (8 * n) w)]"
  by (simp add: to_le_bytes_def)

lemma to_be_bytes_Suc:
  "to_be_bytes (Suc n) w = ucast (drop_bit (8 * n) w) # to_be_bytes n w"
  by (simp add: to_be_bytes_def to_le_bytes_Suc)

text \<open>Big endian encodings of equal width compare as the numbers do; this is why keys and
  versions are stored big endian.\<close>

lemma to_be_bytes_unat:
  "to_be_bytes n v < to_be_bytes n w \<longleftrightarrow>
     unat (v :: 'a::len word) mod 2 ^ (8 * n) < unat (w :: 'a word) mod 2 ^ (8 * n)"
proof (induction n)
  case 0
  then show ?case by (simp add: to_be_bytes_def to_le_bytes_def)
next
  case (Suc n)
  have split: "unat x mod 2 ^ (8 * Suc n) =
      unat x div 2 ^ (8 * n) mod 256 * 2 ^ (8 * n) + unat x mod 2 ^ (8 * n)" for x :: "'a word"
    using mod_mult2_eq [of "unat x" "2 ^ (8 * n)" 256] by (simp add: power_add mult.commute)
  have top: "unat (ucast (drop_bit (8 * n) x) :: u8) = unat x div 2 ^ (8 * n) mod 256" for x :: "'a word"
  proof -
    have "unat (drop_bit (8 * n) x) = unat x div 2 ^ (8 * n)"
      by (simp only: unat_drop_bit_eq) (simp only: drop_bit_eq_div)
    then show ?thesis by (simp only: unsigned_ucast_eq take_bit_eq_mod) simp
  qed
  have digit: "p * B + r < q * B + s \<longleftrightarrow> p < q \<or> p = q \<and> r < s"
    if "r < B" and "s < B" for p q r s B :: nat
  proof -
    have less: "p * B + r < q * B + s" if "p < q" "r < B" for p q r s :: nat
    proof -
      from that have "Suc p * B \<le> q * B" by (simp add: Suc_leI del: mult_Suc)
      with that show ?thesis by simp
    qed
    show ?thesis using less [of p q r s] less [of q p s r] that
      by (cases "p < q"; cases "q < p") auto
  qed
  show ?case
    by (simp add: to_be_bytes_Suc word_less_nat_alt word_unat_eq_iff top Suc.IH split digit
        del: mult_Suc_right)
qed

lemma to_be_bytes_less:
  assumes "8 * n = LENGTH('a)"
  shows "to_be_bytes n v < to_be_bytes n w \<longleftrightarrow> v < (w :: 'a::len word)"
proof -
  have "unat x < 2 ^ (8 * n)" for x :: "'a word" using assms by (simp add: unsigned_less)
  then show ?thesis by (simp add: to_be_bytes_unat word_less_nat_alt)
qed

section \<open>Byte strings in lexicographic order\<close>

lemma append_less_append [simp]: "(xs @ ys < xs @ zs) = (ys < (zs :: 'a::linorder list))"
  by (induction xs) auto

lemma append_le_append [simp]: "(xs @ ys \<le> xs @ zs) = (ys \<le> (zs :: 'a::linorder list))"
  by (auto simp: list_le_def)

lemma Nil_le [simp]: "([] :: 'a::linorder list) \<le> xs"
  by (cases xs) (auto simp: list_le_def)

lemma less_append_iff_equal_length:
  "length xs = length ys \<Longrightarrow>
     (xs @ us < ys @ vs) = (xs < ys \<or> xs = ys \<and> us < (vs :: 'a::linorder list))"
  by (induction xs ys rule: list_induct2) auto

text \<open>The byte strings with a common prefix are an interval: whatever lies between two of them
  has the prefix too.\<close>

lemma prefix_interval:
  "p @ xs \<le> k \<Longrightarrow> k \<le> p @ ys \<Longrightarrow> \<exists>zs. k = p @ (zs :: 'a::linorder list)"
proof (induction p arbitrary: k)
  case Nil
  then show ?case by simp
next
  case (Cons a p)
  then obtain b k' where "k = b # k'" by (cases k) auto
  with Cons show ?case by (auto simp: list_le_def)
qed

section \<open>Binary search\<close>

text \<open>
  \<^verbatim>\<open>slice::binary_search_by\<close>: the loop halves \<open>sz\<close> and moves \<open>base\<close> to the middle unless the
  middle compares greater. The comparison is given by index.
\<close>

function bs_loop :: "(nat \<Rightarrow> ordering) \<Rightarrow> nat \<Rightarrow> nat \<Rightarrow> nat" where
  "bs_loop f base sz =
     (if sz > 1
      then let half = sz div 2; mid = base + half
           in bs_loop f (if f mid = Greater then base else mid) (sz - half)
      else base)"
  by pat_completeness auto
termination
  by (relation "measure (\<lambda>(f, base, sz). sz)") auto

declare bs_loop.simps [simp del]

definition binary_search_by :: "('a \<Rightarrow> ordering) \<Rightarrow> 'a list \<Rightarrow> nat + nat" where
  "binary_search_by f xs =
     (if xs = [] then Inl 0
      else let base = bs_loop (\<lambda>i. f (xs ! i)) 0 (length xs)
           in case f (xs ! base) of
                Equal \<Rightarrow> Inr base
              | Less \<Rightarrow> Inl (base + 1)
              | Greater \<Rightarrow> Inl base)"

definition partition_point :: "('a \<Rightarrow> bool) \<Rightarrow> 'a list \<Rightarrow> nat" where
  "partition_point p xs =
     (case binary_search_by (\<lambda>x. if p x then Less else Greater) xs of Inl i \<Rightarrow> i | Inr i \<Rightarrow> i)"

text \<open>The precondition of a binary search: the comparison goes from \<open>Less\<close> over \<open>Equal\<close> to
  \<open>Greater\<close> along the list.\<close>

definition cmp_sorted :: "('a \<Rightarrow> ordering) \<Rightarrow> 'a list \<Rightarrow> bool" where
  "cmp_sorted f xs \<longleftrightarrow>
     (\<forall>i j. i < j \<longrightarrow> j < length xs \<longrightarrow>
        (f (xs ! j) = Less \<longrightarrow> f (xs ! i) = Less) \<and>
        (f (xs ! i) = Greater \<longrightarrow> f (xs ! j) = Greater))"

lemma cmp_sortedI:
  assumes "sorted_wrt R xs"
    and "\<And>a b. R a b \<Longrightarrow> f b = Less \<Longrightarrow> f a = Less"
    and "\<And>a b. R a b \<Longrightarrow> f a = Greater \<Longrightarrow> f b = Greater"
  shows "cmp_sorted f xs"
  using assms unfolding cmp_sorted_def sorted_wrt_iff_nth_less by blast

lemma bs_loop_spec:
  assumes "0 < sz" and "base = 0 \<or> f base \<noteq> Greater" and "\<forall>i. base + sz \<le> i \<and> i < n \<longrightarrow> f i = Greater"
    and "base + sz \<le> n"
    and "\<forall>i j. i < j \<and> j < n \<and> f i = Greater \<longrightarrow> f j = Greater"
  shows "bs_loop f base sz < n
    \<and> (bs_loop f base sz = 0 \<or> f (bs_loop f base sz) \<noteq> Greater)
    \<and> (\<forall>i. bs_loop f base sz < i \<and> i < n \<longrightarrow> f i = Greater)"
  using assms
proof (induction f base sz rule: bs_loop.induct)
  case (1 f base sz)
  show ?case
  proof (cases "sz > 1")
    case False
    with 1 have "sz = 1" by simp
    with 1 show ?thesis by (simp add: bs_loop.simps Suc_le_eq)
  next
    case True
    let ?half = "sz div 2" and ?mid = "base + sz div 2"
    let ?base = "if f ?mid = Greater then base else ?mid"
    from True have half: "0 < ?half" "?half < sz" by auto
    have gr: "\<forall>i. ?base + (sz - ?half) \<le> i \<and> i < n \<longrightarrow> f i = Greater"
    proof (intro allI impI)
      fix i assume i: "?base + (sz - ?half) \<le> i \<and> i < n"
      show "f i = Greater"
      proof (cases "f ?mid = Greater")
        case True
        with i have "base + (sz - ?half) \<le> i" by simp
        then have "?mid \<le> i" by linarith
        then consider "i = ?mid" | "?mid < i" by linarith
        then show ?thesis using True i "1.prems"(5) by cases blast+
      next
        case False
        with i half have "base + sz \<le> i" by simp
        with i "1.prems" show ?thesis by blast
      qed
    qed
    have rec: "bs_loop f ?base (sz - ?half) < n \<and>
      (bs_loop f ?base (sz - ?half) = 0 \<or> f (bs_loop f ?base (sz - ?half)) \<noteq> Greater) \<and>
      (\<forall>i. bs_loop f ?base (sz - ?half) < i \<and> i < n \<longrightarrow> f i = Greater)"
    proof (rule "1.IH" [OF True refl refl])
      show "0 < sz - ?half" using half by simp
      show "?base = 0 \<or> f ?base \<noteq> Greater" using "1.prems"(2) by simp
      show "\<forall>i. ?base + (sz - ?half) \<le> i \<and> i < n \<longrightarrow> f i = Greater" by (rule gr)
      show "?base + (sz - ?half) \<le> n" using half "1.prems"(4) by (cases "f ?mid = Greater") auto
      show "\<forall>i j. i < j \<and> j < n \<and> f i = Greater \<longrightarrow> f j = Greater" by (rule "1.prems"(5))
    qed
    have "bs_loop f base sz = bs_loop f ?base (sz - ?half)"
      using True by (subst bs_loop.simps) (simp only: Let_def if_True)
    from ssubst [OF this, of "\<lambda>r. r < n \<and> (r = 0 \<or> f r \<noteq> Greater) \<and> (\<forall>i. r < i \<and> i < n \<longrightarrow> f i = Greater)", OF rec]
    show ?thesis .
  qed
qed

theorem binary_search_by_spec:
  assumes "cmp_sorted f xs"
  shows "case binary_search_by f xs of
      Inr i \<Rightarrow> i < length xs \<and> f (xs ! i) = Equal
    | Inl i \<Rightarrow> i \<le> length xs \<and> (\<forall>j < i. f (xs ! j) = Less) \<and>
               (\<forall>j. i \<le> j \<and> j < length xs \<longrightarrow> f (xs ! j) = Greater)"
proof (cases "xs = []")
  case True
  then show ?thesis by (simp add: binary_search_by_def)
next
  case False
  define g where "g = (\<lambda>i. f (xs ! i))"
  define b where "b = bs_loop g 0 (length xs)"
  have mono: "\<forall>i j. i < j \<and> j < length xs \<and> g i = Greater \<longrightarrow> g j = Greater"
    and lmono: "\<forall>i j. i < j \<and> j < length xs \<and> g j = Less \<longrightarrow> g i = Less"
    using assms unfolding cmp_sorted_def g_def by blast+
  have b: "b < length xs" "b = 0 \<or> g b \<noteq> Greater" "\<forall>i. b < i \<and> i < length xs \<longrightarrow> g i = Greater"
  proof -
    have "b < length xs \<and> (b = 0 \<or> g b \<noteq> Greater) \<and> (\<forall>i. b < i \<and> i < length xs \<longrightarrow> g i = Greater)"
      unfolding b_def by (rule bs_loop_spec [OF _ _ _ _ mono]) (use False in auto)
    then show "b < length xs" "b = 0 \<or> g b \<noteq> Greater" "\<forall>i. b < i \<and> i < length xs \<longrightarrow> g i = Greater"
      by blast+
  qed
  show ?thesis
  proof (cases "g b")
    case Less
    have "g j = Less" if "j \<le> b" for j
    proof -
      from that consider "j = b" | "j < b" by linarith
      then show ?thesis using Less b(1) lmono by cases blast+
    qed
    then show ?thesis using False Less b
      by (simp add: binary_search_by_def Let_def g_def [symmetric] b_def [symmetric] fun_cong [OF g_def, symmetric]
          Suc_le_eq less_Suc_eq_le)
  next
    case Equal
    then show ?thesis using False b
      by (simp add: binary_search_by_def Let_def g_def [symmetric] b_def [symmetric] fun_cong [OF g_def, symmetric])
  next
    case Greater
    with b have "b = 0" by simp
    moreover have "\<forall>j. j < length xs \<longrightarrow> g j = Greater"
    proof (intro allI impI)
      fix j assume "j < length xs"
      then show "g j = Greater" using Greater b(3) \<open>b = 0\<close> by (cases "j = 0") auto
    qed
    ultimately show ?thesis using False Greater b
      by (simp add: binary_search_by_def Let_def g_def [symmetric] b_def [symmetric] fun_cong [OF g_def, symmetric])
  qed
qed

theorem partition_point_spec:
  assumes "\<And>i j. i < j \<Longrightarrow> j < length xs \<Longrightarrow> p (xs ! j) \<Longrightarrow> p (xs ! i)"
  shows "partition_point p xs = length (takeWhile p xs)"
proof -
  let ?f = "\<lambda>x. if p x then Less else Greater"
  have "cmp_sorted ?f xs" using assms by (auto simp: cmp_sorted_def)
  from binary_search_by_spec [OF this]
  obtain i where i: "binary_search_by ?f xs = Inl i" "i \<le> length xs"
    "\<forall>j < i. p (xs ! j)" "\<forall>j. i \<le> j \<and> j < length xs \<longrightarrow> \<not> p (xs ! j)"
    by (cases "binary_search_by ?f xs") (auto split: if_splits)
  have "takeWhile p xs = take i xs"
    by (rule takeWhile_eq_take_P_nth) (use i in auto)
  with i show ?thesis by (simp add: partition_point_def)
qed

lemma partition_point_sorted:
  assumes "sorted_wrt R xs" and "\<And>a b. R a b \<Longrightarrow> p b \<Longrightarrow> p a"
  shows "partition_point p xs = length (takeWhile p xs)"
  using assms by (intro partition_point_spec) (auto simp: sorted_wrt_iff_nth_less)

section \<open>Lists\<close>

lemma sorted_wrt_takeWhile_filter:
  assumes "sorted_wrt R xs" and "\<And>a b. R a b \<Longrightarrow> p b \<Longrightarrow> p a"
  shows "takeWhile p xs = filter p xs" and "dropWhile p xs = filter (\<lambda>x. \<not> p x) xs"
proof -
  have "takeWhile p xs = filter p xs \<and> dropWhile p xs = filter (\<lambda>x. \<not> p x) xs"
    using assms(1)
  proof (induction xs)
    case (Cons x xs)
    show ?case
    proof (cases "p x")
      case True
      with Cons show ?thesis by simp
    next
      case False
      with Cons.prems assms(2) have "\<forall>y \<in> set xs. \<not> p y" by auto
      with False show ?thesis by (simp add: filter_empty_conv filter_id_conv eq_commute)
    qed
  qed simp
  then show "takeWhile p xs = filter p xs" "dropWhile p xs = filter (\<lambda>x. \<not> p x) xs" by auto
qed

lemma sorted_wrt_insert_mid:
  assumes "sorted_wrt R xs" and "sorted_wrt R ys" and "\<forall>x \<in> set xs. R x e" and "\<forall>y \<in> set ys. R e y"
    and "\<forall>x \<in> set xs. \<forall>y \<in> set ys. R x y"
  shows "sorted_wrt R (xs @ e # ys)"
  using assms by (simp add: sorted_wrt_append)

text \<open>\<^verbatim>\<open>Vec::insert\<close> at an index within the list.\<close>

definition insert_at :: "nat \<Rightarrow> 'a \<Rightarrow> 'a list \<Rightarrow> 'a list" where
  "insert_at i x xs = take i xs @ x # drop i xs"

lemma set_insert_at [simp]: "set (insert_at i x xs) = insert x (set xs)"
  using set_append [of "take i xs" "drop i xs"] by (auto simp: insert_at_def)

lemma length_insert_at [simp]: "length (insert_at i x xs) = Suc (length xs)"
  by (simp add: insert_at_def)

lemma sorted_wrt_insert_at:
  assumes "sorted_wrt R xs" and "i \<le> length xs"
    and "\<And>j. j < i \<Longrightarrow> R (xs ! j) x" and "\<And>j. i \<le> j \<Longrightarrow> j < length xs \<Longrightarrow> R x (xs ! j)"
  shows "sorted_wrt R (insert_at i x xs)"
proof -
  have "sorted_wrt R (take i xs) \<and> sorted_wrt R (drop i xs) \<and>
    (\<forall>a \<in> set (take i xs). \<forall>b \<in> set (drop i xs). R a b)"
    using assms(1) sorted_wrt_append [of R "take i xs" "drop i xs"] by simp
  moreover have "\<forall>a \<in> set (take i xs). R a x"
    using assms(2,3) by (auto simp: in_set_conv_nth)
  moreover have "\<forall>b \<in> set (drop i xs). R x b"
    using assms(2,4) by (auto simp: in_set_conv_nth)
  ultimately show ?thesis by (simp add: insert_at_def sorted_wrt_append)
qed

end
