(* ===== verification/Flush_Types.thy ===== *)
theory Flush_Types
  imports Prelude
begin

text \<open>
  The crate \<^verbatim>\<open>flushdb-types\<close>: the unified error type, entry kinds and values, the composite key
  \<open>[record_id][0x00][item_key]\<close> with its byte order, the 24-byte idempotency token, the 12-byte
  version key and the memtable entry. Error messages keep the literal text of the source; the
  values Rust interpolates into a message are left out.
\<close>

section \<open>Errors (error.rs)\<close>

datatype flush_error =
    Io string
  | KeyTooLong string nat nat
  | InvalidKey string
  | NotFound string
  | PreconditionFailed string
  | CrcMismatch u32 u32
  | CorruptedData string
  | DuplicateToken string
  | ResourceExhausted string string
  | EpochFenced u64 u64
  | InvalidArgument string

type_synonym 'a flush_result = "flush_error + 'a"

section \<open>Entry kinds and values (entry\_type.rs, entry\_value.rs)\<close>

datatype entry_type = Put | Delete | RangeDelete

definition entry_type_from_u8 :: "u8 \<Rightarrow> entry_type flush_result" where
  "entry_type_from_u8 v =
     (if v = 0 then Inr Put else if v = 1 then Inr Delete else if v = 2 then Inr RangeDelete
      else Inl (CorruptedData ''unknown EntryType discriminant''))"

fun entry_type_as_u8 :: "entry_type \<Rightarrow> u8" where
  "entry_type_as_u8 Put = 0"
| "entry_type_as_u8 Delete = 1"
| "entry_type_as_u8 RangeDelete = 2"

datatype entry_value = Inline bytes | BlobRef (blob_id: bytes) (blob_offset: u64) (blob_size: u32)

definition INLINE_TAG :: u8 where "INLINE_TAG = 0"
definition BLOB_REF_TAG :: u8 where "BLOB_REF_TAG = 1"

fun inline_value :: "entry_value \<Rightarrow> bytes option" where
  "inline_value (Inline v) = Some v"
| "inline_value (BlobRef _ _ _) = None"

fun inline_size :: "entry_value \<Rightarrow> nat" where
  "inline_size (Inline v) = length v"
| "inline_size (BlobRef _ _ _) = 0"

lemma entry_type_from_as_u8 [simp, codec_simps]: "entry_type_from_u8 (entry_type_as_u8 t) = Inr t"
  by (cases t) (simp_all add: entry_type_from_u8_def)

lemma entry_type_from_u8_Inr:
  "entry_type_from_u8 v = Inr t \<Longrightarrow> entry_type_as_u8 t = v"
  by (auto simp: entry_type_from_u8_def split: if_splits)

section \<open>Composite keys (composite\_key.rs)\<close>

definition MAX_RECORD_ID_LEN :: nat where "MAX_RECORD_ID_LEN = 256"
definition MAX_ITEM_KEY_LEN :: nat where "MAX_ITEM_KEY_LEN = 4096"
definition MAX_COMPOSITE_KEY_LEN :: nat where "MAX_COMPOSITE_KEY_LEN = 4353"
definition SEPARATOR :: u8 where "SEPARATOR = 0"
definition RANGE_TOMBSTONE_PREFIX :: u8 where "RANGE_TOMBSTONE_PREFIX = 255"

datatype composite_key = CompositeKey (as_bytes: bytes)

instantiation composite_key :: linorder
begin

definition less_eq_composite_key :: "composite_key \<Rightarrow> composite_key \<Rightarrow> bool" where
  "less_eq_composite_key a b \<longleftrightarrow> as_bytes a \<le> as_bytes b"

definition less_composite_key :: "composite_key \<Rightarrow> composite_key \<Rightarrow> bool" where
  "less_composite_key a b \<longleftrightarrow> as_bytes a < as_bytes b"

instance
  by intro_classes
    (auto simp: less_eq_composite_key_def less_composite_key_def intro: composite_key.expand)

end

definition validate_record_id :: "bytes \<Rightarrow> unit flush_result" where
  "validate_record_id rid =
     (if rid = [] then Inl (InvalidKey ''record_id must not be empty'')
      else if SEPARATOR \<in> set rid then Inl (InvalidKey ''record_id must not contain null bytes'')
      else if length rid > MAX_RECORD_ID_LEN
      then Inl (KeyTooLong ''record_id'' (length rid) MAX_RECORD_ID_LEN)
      else Inr ())"

definition validate_item_key :: "bytes \<Rightarrow> unit flush_result" where
  "validate_item_key ik =
     (if length ik > MAX_ITEM_KEY_LEN
      then Inl (KeyTooLong ''item_key'' (length ik) MAX_ITEM_KEY_LEN) else Inr ())"

definition ck_encode :: "bytes \<Rightarrow> bytes \<Rightarrow> bytes" where
  "ck_encode rid ik = rid @ [SEPARATOR] @ ik"

definition ck_new :: "bytes \<Rightarrow> bytes \<Rightarrow> composite_key flush_result" where
  "ck_new rid ik =
     bind_res (validate_record_id rid) (\<lambda>_.
     bind_res (validate_item_key ik) (\<lambda>_. Inr (CompositeKey (ck_encode rid ik))))"

definition from_record_only :: "bytes \<Rightarrow> composite_key flush_result" where
  "from_record_only rid = ck_new rid []"

definition range_tombstone_key :: "bytes \<Rightarrow> bytes \<Rightarrow> composite_key flush_result" where
  "range_tombstone_key rid start =
     bind_res (validate_record_id rid) (\<lambda>_.
       let item_len = 1 + length start in
       if item_len > MAX_ITEM_KEY_LEN
       then Inl (KeyTooLong ''item_key'' item_len MAX_ITEM_KEY_LEN)
       else Inr (CompositeKey (rid @ [SEPARATOR] @ [RANGE_TOMBSTONE_PREFIX] @ start)))"

definition min_key_for_record :: "bytes \<Rightarrow> composite_key flush_result" where
  "min_key_for_record rid = from_record_only rid"

definition max_key_for_record :: "bytes \<Rightarrow> composite_key flush_result" where
  "max_key_for_record rid =
     bind_res (validate_record_id rid) (\<lambda>_.
       Inr (CompositeKey (rid @ [SEPARATOR] @ [RANGE_TOMBSTONE_PREFIX])))"

definition ck_from_bytes :: "bytes \<Rightarrow> composite_key flush_result" where
  "ck_from_bytes bs =
     (if SEPARATOR \<notin> set bs
      then Inl (InvalidKey ''composite key must contain at least one 0x00 separator'')
      else Inr (CompositeKey bs))"

text \<open>\<^verbatim>\<open>Iterator::position\<close>.\<close>

fun position :: "('a \<Rightarrow> bool) \<Rightarrow> 'a list \<Rightarrow> nat option" where
  "position p [] = None"
| "position p (x # xs) = (if p x then Some 0 else map_option Suc (position p xs))"

text \<open>Both accessors \<^verbatim>\<open>expect\<close> a separator; \<open>ck_ok\<close> is the invariant the message names.\<close>

definition ck_ok :: "composite_key \<Rightarrow> bool" where
  "ck_ok k \<longleftrightarrow> SEPARATOR \<in> set (as_bytes k)"

definition record_id :: "composite_key \<Rightarrow> bytes" where
  "record_id k = take (the (position (\<lambda>b. b = SEPARATOR) (as_bytes k))) (as_bytes k)"

definition item_key :: "composite_key \<Rightarrow> bytes" where
  "item_key k = drop (the (position (\<lambda>b. b = SEPARATOR) (as_bytes k)) + 1) (as_bytes k)"

definition is_range_tombstone :: "composite_key \<Rightarrow> bool" where
  "is_range_tombstone k = (case item_key k of [] \<Rightarrow> False | b # _ \<Rightarrow> b = RANGE_TOMBSTONE_PREFIX)"

definition is_empty_item_key :: "composite_key \<Rightarrow> bool" where
  "is_empty_item_key k \<longleftrightarrow> item_key k = []"

lemma position_append_hit [simp]:
  "\<forall>x \<in> set xs. \<not> p x \<Longrightarrow> p y \<Longrightarrow> position p (xs @ y # ys) = Some (length xs)"
  by (induction xs) auto

lemma ck_parts [simp]:
  assumes "SEPARATOR \<notin> set rid"
  shows "record_id (CompositeKey (rid @ SEPARATOR # ik)) = rid"
    and "item_key (CompositeKey (rid @ SEPARATOR # ik)) = ik"
proof -
  have "position (\<lambda>b. b = SEPARATOR) (rid @ SEPARATOR # ik) = Some (length rid)"
    by (rule position_append_hit) (use assms in auto)
  then show "record_id (CompositeKey (rid @ SEPARATOR # ik)) = rid"
    "item_key (CompositeKey (rid @ SEPARATOR # ik)) = ik"
    by (simp_all add: record_id_def item_key_def)
qed

lemma ck_okE:
  assumes "ck_ok k"
  obtains rid ik where "k = CompositeKey (rid @ SEPARATOR # ik)" "SEPARATOR \<notin> set rid"
    "record_id k = rid" "item_key k = ik"
proof -
  from assms obtain rid ik where "as_bytes k = rid @ SEPARATOR # ik" "SEPARATOR \<notin> set rid"
    unfolding ck_ok_def by (metis split_list_first)
  then show ?thesis using that [of rid ik] ck_parts [of rid ik] by (metis composite_key.collapse)
qed

lemma ck_collapse: "ck_ok k \<Longrightarrow> CompositeKey (record_id k @ SEPARATOR # item_key k) = k"
  by (erule ck_okE) simp

lemma record_id_no_sep: "ck_ok k \<Longrightarrow> SEPARATOR \<notin> set (record_id k)"
  by (erule ck_okE) simp

lemma validate_record_id_ok [simp]:
  "validate_record_id rid = Inr u \<longleftrightarrow>
     rid \<noteq> [] \<and> SEPARATOR \<notin> set rid \<and> length rid \<le> MAX_RECORD_ID_LEN"
  by (auto simp: validate_record_id_def)

lemma validate_item_key_ok [simp]:
  "validate_item_key ik = Inr u \<longleftrightarrow> length ik \<le> MAX_ITEM_KEY_LEN"
  by (auto simp: validate_item_key_def)

definition rid_ok :: "bytes \<Rightarrow> bool" where
  "rid_ok rid \<longleftrightarrow> rid \<noteq> [] \<and> SEPARATOR \<notin> set rid \<and> length rid \<le> MAX_RECORD_ID_LEN"

lemma ck_new_eq_Inr:
  "ck_new rid ik = Inr k \<longleftrightarrow>
     rid_ok rid \<and> length ik \<le> MAX_ITEM_KEY_LEN \<and> k = CompositeKey (rid @ SEPARATOR # ik)"
  by (auto simp: ck_new_def ck_encode_def rid_ok_def)

lemma range_tombstone_key_eq_Inr:
  "range_tombstone_key rid s = Inr k \<longleftrightarrow>
     rid_ok rid \<and> length s < MAX_ITEM_KEY_LEN \<and>
     k = CompositeKey (rid @ SEPARATOR # RANGE_TOMBSTONE_PREFIX # s)"
  by (auto simp: range_tombstone_key_def rid_ok_def Let_def split: if_splits)

lemma min_key_eq_Inr:
  "min_key_for_record rid = Inr k \<longleftrightarrow> rid_ok rid \<and> k = CompositeKey (rid @ [SEPARATOR])"
  by (auto simp: min_key_for_record_def from_record_only_def ck_new_eq_Inr)

lemma max_key_eq_Inr:
  "max_key_for_record rid = Inr k \<longleftrightarrow>
     rid_ok rid \<and> k = CompositeKey (rid @ [SEPARATOR, RANGE_TOMBSTONE_PREFIX])"
  by (auto simp: max_key_for_record_def rid_ok_def)

lemma ck_ok_encode [simp]: "ck_ok (CompositeKey (rid @ SEPARATOR # ik))"
  by (simp add: ck_ok_def)

lemma ck_ok_constructors [simp]:
  "ck_new rid ik = Inr k \<Longrightarrow> ck_ok k"
  "range_tombstone_key rid s = Inr k \<Longrightarrow> ck_ok k"
  "min_key_for_record rid = Inr k \<Longrightarrow> ck_ok k"
  "max_key_for_record rid = Inr k \<Longrightarrow> ck_ok k"
  "ck_from_bytes bs = Inr k \<Longrightarrow> ck_ok k"
  by (auto simp: ck_new_eq_Inr range_tombstone_key_eq_Inr min_key_eq_Inr max_key_eq_Inr
      ck_from_bytes_def ck_ok_def split: if_splits)

lemma rid_ok_sep: "rid_ok rid \<Longrightarrow> SEPARATOR \<notin> set rid"
  by (simp add: rid_ok_def)

text \<open>\<open>CompositeKey::new\<close> accepts exactly the record ids that are non-empty, free of null bytes
  and at most 256 bytes long with item keys of at most 4096 bytes; from the key it builds, the
  accessors give both parts back, the key is at most 4353 bytes long, and \<open>from_bytes\<close> parses its
  bytes into the same key.\<close>

lemma composite_key_roundtrip:
  "((\<exists>k. ck_new rid ik = Inr k) \<longleftrightarrow> rid_ok rid \<and> length ik \<le> MAX_ITEM_KEY_LEN)
   \<and> (\<forall>k. ck_new rid ik = Inr k \<longrightarrow>
        record_id k = rid \<and> item_key k = ik \<and> length (as_bytes k) \<le> MAX_COMPOSITE_KEY_LEN
        \<and> ck_from_bytes (as_bytes k) = Inr k)"
  by (auto simp: ck_new_eq_Inr rid_ok_sep rid_ok_def ck_from_bytes_def MAX_COMPOSITE_KEY_LEN_def
      MAX_RECORD_ID_LEN_def MAX_ITEM_KEY_LEN_def)

section \<open>The order of composite keys\<close>

lemma ck_less_same_record:
  assumes "ck_ok a" and "ck_ok b" and "record_id a = record_id b"
  shows "a < b \<longleftrightarrow> item_key a < item_key b" and "a \<le> b \<longleftrightarrow> item_key a \<le> item_key b"
  using assms by (auto elim!: ck_okE simp: less_composite_key_def less_eq_composite_key_def)

lemma ck_eq_iff: "ck_ok a \<Longrightarrow> ck_ok b \<Longrightarrow> a = b \<longleftrightarrow> record_id a = record_id b \<and> item_key a = item_key b"
  by (metis ck_collapse)

text \<open>A key has record id \<open>rid\<close> exactly when its bytes start with \<open>rid\<close> and a separator.\<close>

lemma record_id_prefix:
  assumes "SEPARATOR \<notin> set rid"
  shows "ck_ok k \<and> record_id k = rid \<longleftrightarrow> (\<exists>ik. k = CompositeKey ((rid @ [SEPARATOR]) @ ik))"
proof
  assume "ck_ok k \<and> record_id k = rid"
  then show "\<exists>ik. k = CompositeKey ((rid @ [SEPARATOR]) @ ik)" by (auto elim: ck_okE)
next
  assume "\<exists>ik. k = CompositeKey ((rid @ [SEPARATOR]) @ ik)"
  then show "ck_ok k \<and> record_id k = rid" using assms by auto
qed

lemma record_interval:
  assumes "ck_ok a" and "ck_ok c" and "record_id a = rid" and "record_id c = rid"
    and "a \<le> b" and "b \<le> c"
  shows "ck_ok b" and "record_id b = rid"
proof -
  obtain ai where a: "a = CompositeKey (rid @ SEPARATOR # ai)" "SEPARATOR \<notin> set rid"
    using assms(1,3) by (auto elim!: ck_okE)
  obtain ci where c: "c = CompositeKey (rid @ SEPARATOR # ci)"
    using assms(2,4) by (auto elim!: ck_okE)
  have "(rid @ [SEPARATOR]) @ ai \<le> as_bytes b" "as_bytes b \<le> (rid @ [SEPARATOR]) @ ci"
    using assms(5,6) a c by (simp_all add: less_eq_composite_key_def)
  from prefix_interval [OF this] obtain zs where "as_bytes b = (rid @ [SEPARATOR]) @ zs" by blast
  then have "\<exists>ik. b = CompositeKey ((rid @ [SEPARATOR]) @ ik)" by (metis composite_key.collapse)
  with record_id_prefix [OF a(2), of b] show "ck_ok b" "record_id b = rid" by blast+
qed

text \<open>Keys of one record are contiguous in the byte order and sort by item key inside it: the
  record's minimum key is below all of them, a key between two keys of the record belongs to the
  record, the record's maximum boundary lies above every item key that does not start with
  \<open>0xFF\<close> and at or below every range tombstone key.\<close>

lemma record_keys_contiguous:
  assumes "min_key_for_record rid = Inr lo" and "max_key_for_record rid = Inr hi"
    and "ck_ok k" and "record_id k = rid"
  shows "lo \<le> k
    \<and> (\<forall>k'. lo \<le> k' \<and> k' \<le> k \<longrightarrow> ck_ok k' \<and> record_id k' = rid)
    \<and> (\<forall>k'. ck_ok k' \<and> record_id k' = rid \<longrightarrow> (k < k' \<longleftrightarrow> item_key k < item_key k'))
    \<and> (k < hi \<longleftrightarrow> \<not> is_range_tombstone k)"
proof (intro conjI)
  obtain ik where k: "k = CompositeKey (rid @ SEPARATOR # ik)" "SEPARATOR \<notin> set rid" "item_key k = ik"
    using assms(3,4) by (auto elim!: ck_okE)
  have lo: "lo = CompositeKey (rid @ [SEPARATOR])" "ck_ok lo" "record_id lo = rid"
    using assms(1) k(2) by (auto simp: min_key_eq_Inr)
  have hi: "hi = CompositeKey (rid @ [SEPARATOR, RANGE_TOMBSTONE_PREFIX])"
    using assms(2) by (simp add: max_key_eq_Inr)
  show "lo \<le> k" by (simp add: lo k less_eq_composite_key_def)
  show "\<forall>k'. lo \<le> k' \<and> k' \<le> k \<longrightarrow> ck_ok k' \<and> record_id k' = rid"
    using record_interval [OF lo(2) assms(3) lo(3) assms(4)] by blast
  show "\<forall>k'. ck_ok k' \<and> record_id k' = rid \<longrightarrow> (k < k' \<longleftrightarrow> item_key k < item_key k')"
    using ck_less_same_record(1) [OF assms(3)] assms(4) by metis
  have "(255 :: u8) = - 1" by simp
  then have "b < 255 \<longleftrightarrow> b \<noteq> 255" for b :: u8
    using word_order.not_eq_extremum [of b] by metis
  then show "k < hi \<longleftrightarrow> \<not> is_range_tombstone k"
    by (cases ik) (auto simp: k hi less_composite_key_def is_range_tombstone_def RANGE_TOMBSTONE_PREFIX_def)
qed

section \<open>Idempotency tokens (idempotency\_token.rs)\<close>

definition IDEMPOTENCY_TOKEN_SIZE :: nat where "IDEMPOTENCY_TOKEN_SIZE = 24"
definition GENERATION_TIME_SIZE :: nat where "GENERATION_TIME_SIZE = 8"

text \<open>The array \<^verbatim>\<open>[u8; 24]\<close> is a byte list; \<open>token_ok\<close> is its length.\<close>

datatype idempotency_token = IdempotencyToken (token_data: bytes)

definition token_ok :: "idempotency_token \<Rightarrow> bool" where
  "token_ok t \<longleftrightarrow> length (token_data t) = IDEMPOTENCY_TOKEN_SIZE"

definition token_from_parts :: "u64 \<Rightarrow> bytes \<Rightarrow> idempotency_token" where
  "token_from_parts generation_time token = IdempotencyToken (to_be_bytes 8 generation_time @ token)"

text \<open>\<^verbatim>\<open>new\<close>: the 16 bytes of \<^verbatim>\<open>Uuid::now_v7()\<close> are an argument.\<close>

definition token_new :: "bytes \<Rightarrow> u64 \<Rightarrow> idempotency_token" where
  "token_new uuid generation_time = token_from_parts generation_time uuid"

definition token_none :: idempotency_token where
  "token_none = IdempotencyToken (replicate IDEMPOTENCY_TOKEN_SIZE 0)"

definition token_from_bytes :: "bytes \<Rightarrow> idempotency_token flush_result" where
  "token_from_bytes bs =
     (if length bs \<noteq> IDEMPOTENCY_TOKEN_SIZE
      then Inl (InvalidArgument ''IdempotencyToken requires exactly 24 bytes'')
      else Inr (IdempotencyToken bs))"

definition generation_time :: "idempotency_token \<Rightarrow> u64" where
  "generation_time t = from_be_bytes (take GENERATION_TIME_SIZE (token_data t))"

definition token_bytes :: "idempotency_token \<Rightarrow> bytes" where
  "token_bytes t = drop GENERATION_TIME_SIZE (token_data t)"

definition token_is_none :: "idempotency_token \<Rightarrow> bool" where
  "token_is_none t \<longleftrightarrow> token_data t = replicate IDEMPOTENCY_TOKEN_SIZE 0"

definition derive_for_index :: "idempotency_token \<Rightarrow> u32 \<Rightarrow> idempotency_token" where
  "derive_for_index t index =
     (if token_is_none t \<or> index = 0 then t
      else let d = token_data t; idx = to_le_bytes 4 index in
        IdempotencyToken
          (d[8 := d ! 8 XOR idx ! 0, 9 := d ! 9 XOR idx ! 1,
             10 := d ! 10 XOR idx ! 2, 11 := d ! 11 XOR idx ! 3]))"

definition saturating_sub :: "'a::len word \<Rightarrow> 'a word \<Rightarrow> 'a word" where
  "saturating_sub a b = (if b \<le> a then a - b else 0)"

definition is_within_drift :: "idempotency_token \<Rightarrow> u64 \<Rightarrow> u64 \<Rightarrow> bool" where
  "is_within_drift t now_ms max_drift_ms =
     (if token_is_none t then True
      else let gen = generation_time t;
               diff = (if gen \<ge> now_ms then saturating_sub gen now_ms else saturating_sub now_ms gen)
           in diff \<le> max_drift_ms)"

lemma token_none_ok [simp]: "token_ok token_none" "token_is_none token_none"
  by (simp_all add: token_ok_def token_none_def token_is_none_def)

lemma token_is_none_iff: "token_is_none t \<longleftrightarrow> t = token_none"
  by (cases t) (simp add: token_is_none_def token_none_def)

lemma token_from_bytes_ok [simp, codec_simps]: "token_ok t \<Longrightarrow> token_from_bytes (token_data t) = Inr t"
  by (simp add: token_from_bytes_def token_ok_def)

lemma token_from_parts_inv:
  "length u = 16 \<Longrightarrow> token_ok (token_from_parts g u) \<and>
     generation_time (token_from_parts g u) = g \<and> token_bytes (token_from_parts g u) = u"
  by (simp add: token_ok_def token_from_parts_def generation_time_def token_bytes_def
      GENERATION_TIME_SIZE_def IDEMPOTENCY_TOKEN_SIZE_def from_to_be_bytes)

lemma list4_of_length: "length xs = 4 \<Longrightarrow> xs = [xs ! 0, xs ! 1, xs ! 2, xs ! 3]"
  by (rule nth_equalityI) (auto simp: less_Suc_eq numeral_eq_Suc)

lemma xor_cancel_left: "a XOR b = a XOR c \<longleftrightarrow> b = (c :: 'a::len word)"
  by (metis xor.assoc xor_self_eq xor.left_neutral)

lemma xor_eq_self: "a XOR b = a \<longleftrightarrow> b = (0 :: 'a::len word)"
  using xor_cancel_left [of a b 0] by simp

text \<open>Deriving is one formula on all indices: XOR with the bytes of index 0 changes nothing.\<close>

lemma derive_for_index_data:
  assumes "token_ok t" and "\<not> token_is_none t"
  shows "token_data (derive_for_index t index) =
    (let d = token_data t; idx = to_le_bytes 4 index in
       d[8 := d ! 8 XOR idx ! 0, 9 := d ! 9 XOR idx ! 1,
         10 := d ! 10 XOR idx ! 2, 11 := d ! 11 XOR idx ! 3])"
  using assms by (simp add: derive_for_index_def Let_def to_le_bytes_def)

text \<open>The tokens derived for the items of a batch keep the request's generation time and are
  pairwise different, so the items of one request never shadow each other in the dedup set; the
  token of index 0 is the request's own token.\<close>

lemma derive_for_index_injective:
  assumes "token_ok t" and "\<not> token_is_none t"
  shows "(derive_for_index t i = derive_for_index t j \<longleftrightarrow> i = j)
    \<and> derive_for_index t 0 = t
    \<and> token_ok (derive_for_index t i)
    \<and> generation_time (derive_for_index t i) = generation_time t"
proof (intro conjI)
  have len: "length (token_data t) = 24" using assms(1) by (simp add: token_ok_def IDEMPOTENCY_TOKEN_SIZE_def)
  show "derive_for_index t i = derive_for_index t j \<longleftrightarrow> i = j"
  proof
    assume eq: "derive_for_index t i = derive_for_index t j"
    have data: "token_data (derive_for_index t x) ! (8 + n) = token_data t ! (8 + n) XOR to_le_bytes 4 x ! n"
      if "n < 4" for x n
      using that len by (auto simp: derive_for_index_data [OF assms] Let_def nth_list_update less_Suc_eq numeral_eq_Suc)
    have "to_le_bytes 4 i = to_le_bytes 4 j"
    proof (rule nth_equalityI)
      fix n assume "n < length (to_le_bytes 4 i)"
      then have "n < 4" by simp
      from data [OF this, of i] data [OF this, of j] eq
      show "to_le_bytes 4 i ! n = to_le_bytes 4 j ! n" by (simp add: xor_cancel_left)
    qed simp
    then have "(from_le_bytes (to_le_bytes 4 i) :: u32) = from_le_bytes (to_le_bytes 4 j)" by simp
    then show "i = j" by (simp add: from_to_le_bytes)
  qed simp
  show "derive_for_index t 0 = t" by (simp add: derive_for_index_def)
  show "token_ok (derive_for_index t i)"
    using assms(1) by (simp add: token_ok_def derive_for_index_data [OF assms] Let_def)
  show "generation_time (derive_for_index t i) = generation_time t"
    by (simp add: generation_time_def derive_for_index_data [OF assms] Let_def GENERATION_TIME_SIZE_def)
qed

section \<open>Version keys (ordered\_key.rs)\<close>

definition ORDERED_KEY_SIZE :: nat where "ORDERED_KEY_SIZE = 12"

datatype ordered_key = OrderedKey (timestamp_ms: u64) (ok_node_id: u16) (ok_sequence: u16)

text \<open>The derived \<^verbatim>\<open>Ord\<close> compares the fields in declaration order.\<close>

instantiation ordered_key :: linorder
begin

definition less_ordered_key :: "ordered_key \<Rightarrow> ordered_key \<Rightarrow> bool" where
  "less_ordered_key a b \<longleftrightarrow>
     timestamp_ms a < timestamp_ms b \<or> timestamp_ms a = timestamp_ms b \<and>
       (ok_node_id a < ok_node_id b \<or> ok_node_id a = ok_node_id b \<and> ok_sequence a < ok_sequence b)"

definition less_eq_ordered_key :: "ordered_key \<Rightarrow> ordered_key \<Rightarrow> bool" where
  "less_eq_ordered_key a b \<longleftrightarrow> a < b \<or> a = b"

instance
  by intro_classes
    (auto simp: less_eq_ordered_key_def less_ordered_key_def intro: ordered_key.expand)

end

definition ordered_key_to_bytes :: "ordered_key \<Rightarrow> bytes" where
  "ordered_key_to_bytes k =
     to_be_bytes 8 (timestamp_ms k) @ to_be_bytes 2 (ok_node_id k) @ to_be_bytes 2 (ok_sequence k)"

definition ordered_key_from_bytes :: "bytes \<Rightarrow> ordered_key flush_result" where
  "ordered_key_from_bytes bs =
     (if length bs \<noteq> ORDERED_KEY_SIZE
      then Inl (InvalidArgument ''OrderedKey requires exactly 12 bytes'')
      else Inr (OrderedKey (from_be_bytes (slice_of 0 8 bs)) (from_be_bytes (slice_of 8 10 bs))
                  (from_be_bytes (slice_of 10 12 bs))))"

text \<open>A version key survives its 12-byte wire format, and the byte order of the encodings is
  the order of the versions, so versions compare correctly wherever they are stored as bytes.\<close>

lemma ordered_key_bytes_order:
  "ordered_key_from_bytes (ordered_key_to_bytes a) = Inr a
   \<and> (ordered_key_to_bytes a < ordered_key_to_bytes b \<longleftrightarrow> a < b)"
proof
  show "ordered_key_from_bytes (ordered_key_to_bytes a) = Inr a"
    by (simp add: ordered_key_from_bytes_def ordered_key_to_bytes_def ORDERED_KEY_SIZE_def from_to_be_bytes)
  have inj: "to_be_bytes 8 (timestamp_ms a) = to_be_bytes 8 (timestamp_ms b) \<longleftrightarrow> timestamp_ms a = timestamp_ms b"
    "to_be_bytes 2 (ok_node_id a) = to_be_bytes 2 (ok_node_id b) \<longleftrightarrow> ok_node_id a = ok_node_id b"
    using to_be_bytes_inject [of 8 "timestamp_ms a" "timestamp_ms b"]
      to_be_bytes_inject [of 2 "ok_node_id a" "ok_node_id b"] by auto
  show "ordered_key_to_bytes a < ordered_key_to_bytes b \<longleftrightarrow> a < b"
    by (simp add: ordered_key_to_bytes_def less_append_iff_equal_length to_be_bytes_less inj less_ordered_key_def)
qed

section \<open>Items and memtable entries (item.rs, memtable\_entry.rs)\<close>

record item =
  it_key :: bytes
  it_value :: bytes
  it_metadata :: bytes
  it_chunk :: u32

definition item_with_all :: "bytes \<Rightarrow> bytes \<Rightarrow> bytes \<Rightarrow> u32 \<Rightarrow> item" where
  "item_with_all k v m c = \<lparr>it_key = k, it_value = v, it_metadata = m, it_chunk = c\<rparr>"

definition item_with_metadata :: "bytes \<Rightarrow> bytes \<Rightarrow> bytes \<Rightarrow> item" where
  "item_with_metadata k v m = \<lparr>it_key = k, it_value = v, it_metadata = m, it_chunk = 0\<rparr>"

definition item_new :: "bytes \<Rightarrow> bytes \<Rightarrow> item" where
  "item_new k v = \<lparr>it_key = k, it_value = v, it_metadata = [], it_chunk = 0\<rparr>"

record memtable_entry =
  me_composite_key :: composite_key
  me_value :: bytes
  me_metadata :: bytes
  me_idempotency_key :: idempotency_token
  me_sequence_number :: u64
  me_entry_type :: entry_type

definition me_with_sequence ::
  "composite_key \<Rightarrow> bytes \<Rightarrow> bytes \<Rightarrow> idempotency_token \<Rightarrow> u64 \<Rightarrow> entry_type \<Rightarrow> memtable_entry" where
  "me_with_sequence k v m t s ty =
     \<lparr>me_composite_key = k, me_value = v, me_metadata = m, me_idempotency_key = t,
      me_sequence_number = s, me_entry_type = ty\<rparr>"

definition me_new ::
  "composite_key \<Rightarrow> bytes \<Rightarrow> bytes \<Rightarrow> idempotency_token \<Rightarrow> entry_type \<Rightarrow> memtable_entry" where
  "me_new k v m t ty = me_with_sequence k v m t 0 ty"

definition tombstone_type :: "entry_type \<Rightarrow> bool" where
  "tombstone_type ty \<longleftrightarrow> ty = Delete \<or> ty = RangeDelete"

definition me_is_tombstone :: "memtable_entry \<Rightarrow> bool" where
  "me_is_tombstone e \<longleftrightarrow> tombstone_type (me_entry_type e)"

definition me_is_put :: "memtable_entry \<Rightarrow> bool" where
  "me_is_put e \<longleftrightarrow> me_entry_type e = Put"

lemma me_is_put_iff: "me_is_put e \<longleftrightarrow> \<not> me_is_tombstone e"
  by (cases "me_entry_type e") (simp_all add: me_is_put_def me_is_tombstone_def tombstone_type_def)

lemma me_with_sequence_sel [simp]:
  "me_composite_key (me_with_sequence k v m t s ty) = k"
  "me_value (me_with_sequence k v m t s ty) = v"
  "me_metadata (me_with_sequence k v m t s ty) = m"
  "me_idempotency_key (me_with_sequence k v m t s ty) = t"
  "me_sequence_number (me_with_sequence k v m t s ty) = s"
  "me_entry_type (me_with_sequence k v m t s ty) = ty"
  by (simp_all add: me_with_sequence_def)

end
