(* ===== verification/Varint.thy ===== *)
theory Varint
  imports Flush_Types
begin

text \<open>
  \<^verbatim>\<open>sstable/varint.rs\<close>: the LEB128 variable-length integers in which the lengths and sequence numbers
  of an SSTable are written, seven bits per byte with the continuation in the top bit, and the two
  helpers every block format repeats, a length-prefixed byte string and its bounds-checked read.
\<close>

lemma unat_drop_7: "unat (drop_bit 7 (v :: u64)) = unat v div 128"
proof -
  have "unat (drop_bit 7 v) = drop_bit 7 (unat v)" by (rule unat_drop_bit_eq)
  then show ?thesis by (simp only: drop_bit_eq_div) simp
qed

lemma drop_7_less: "drop_bit 7 (v :: u64) \<noteq> 0 \<Longrightarrow> unat (drop_bit 7 v) < unat v"
  unfolding unat_drop_7 by (rule div_less_dividend) (auto intro: Suc_lessI simp: unat_eq_0 simp flip: neq0_conv)

function encode_varint :: "u64 \<Rightarrow> bytes" where
  "encode_varint v =
     (let byte = (ucast (v AND 0x7F) :: u8); v' = drop_bit 7 v
      in if v' \<noteq> 0 then (byte OR 0x80) # encode_varint v' else [byte])"
  by pat_completeness auto
termination
  by (relation "measure unat") (simp_all add: drop_7_less)

declare encode_varint.simps [simp del]

fun decode_varint_from :: "nat \<Rightarrow> u64 \<Rightarrow> nat \<Rightarrow> bytes \<Rightarrow> (u64 \<times> nat) flush_result" where
  "decode_varint_from i v shift [] = Inl (CorruptedData ''varint is truncated'')"
| "decode_varint_from i v shift (byte # rest) =
     (if i \<ge> 10 then Inl (CorruptedData ''varint exceeds 10 bytes'')
      else let v' = v OR push_bit shift (ucast (byte AND 0x7F))
           in if byte AND 0x80 = 0 then Inr (v', i + 1) else decode_varint_from (i + 1) v' (shift + 7) rest)"

definition decode_varint :: "bytes \<Rightarrow> (u64 \<times> nat) flush_result" where
  "decode_varint buf =
     (if buf = [] then Inl (CorruptedData ''varint buffer is empty'') else decode_varint_from 0 0 0 buf)"

definition leading_zeros :: "u64 \<Rightarrow> nat" where
  "leading_zeros w = length (takeWhile (\<lambda>i. \<not> bit w i) (rev [0..<64]))"

definition varint_len :: "u64 \<Rightarrow> nat" where
  "varint_len v = (if v = 0 then 1 else (64 - leading_zeros v + 6) div 7)"

section \<open>Round trip\<close>

text \<open>The simplifier reads a bit of a numeral word off the integer.\<close>

lemma bit_0x80: "bit (0x80 :: int) n \<longleftrightarrow> n = 7"
proof -
  have "(0x80 :: int) = 2 ^ 7" by simp
  then show ?thesis by (simp only: bit_exp_iff) auto
qed

lemma bit_0x7F: "bit (0x7F :: int) n \<longleftrightarrow> n < 7"
proof -
  have "(0x7F :: int) = mask 7" by (simp add: mask_eq_exp_minus_1)
  then show ?thesis by (simp only: bit_mask_iff) auto
qed

lemma cont_bit:
  "(ucast (v AND 0x7F :: u64) :: u8) AND 0x80 = 0"
  "((ucast (v AND 0x7F :: u64) :: u8) OR 0x80) AND 0x80 \<noteq> 0"
  "((ucast (v AND 0x7F :: u64) :: u8) OR 0x80) AND 0x7F = ucast (v AND 0x7F)"
  "(ucast (v AND 0x7F :: u64) :: u8) AND 0x7F = ucast (v AND 0x7F)"
proof -
  show "(ucast (v AND 0x7F :: u64) :: u8) AND 0x80 = 0"
    by (rule bit_eqI) (auto simp: bit_and_iff bit_ucast_iff bit_0x80 bit_0x7F)
  have "bit (((ucast (v AND 0x7F :: u64) :: u8) OR 0x80) AND 0x80) 7"
    by (simp add: bit_and_iff bit_or_iff bit_0x80)
  then show "((ucast (v AND 0x7F :: u64) :: u8) OR 0x80) AND 0x80 \<noteq> 0" by auto
  show "((ucast (v AND 0x7F :: u64) :: u8) OR 0x80) AND 0x7F = ucast (v AND 0x7F)"
    by (rule bit_eqI) (auto simp: bit_and_iff bit_or_iff bit_ucast_iff bit_0x80 bit_0x7F)
  show "(ucast (v AND 0x7F :: u64) :: u8) AND 0x7F = ucast (v AND 0x7F)"
    by (rule bit_eqI) (auto simp: bit_and_iff bit_ucast_iff bit_0x7F)
qed

lemma low_high_7:
  "push_bit s (ucast (ucast (v AND 0x7F) :: u8)) OR push_bit (s + 7) (drop_bit 7 v) = push_bit s (v :: u64)"
proof (rule bit_eqI)
  fix n assume "possible_bit TYPE(u64) n"
  then have "n < 64" by simp
  consider "n < s" | "s \<le> n" "n < s + 7" | k where "n = s + 7 + k" using le_Suc_ex by (metis not_less)
  then show "bit (push_bit s (ucast (ucast (v AND 0x7F) :: u8)) OR push_bit (s + 7) (drop_bit 7 v)) n
      = bit (push_bit s v) n"
    using \<open>n < 64\<close> by cases (auto simp: bit_or_iff bit_push_bit_iff bit_ucast_iff bit_and_iff bit_0x7F bit_drop_bit_eq)
qed

lemma low_only_7: "drop_bit 7 v = 0 \<Longrightarrow> push_bit s (ucast (ucast (v AND 0x7F) :: u8)) = push_bit s (v :: u64)"
  using low_high_7 [of s v] by simp

lemma decode_varint_from_encode:
  "i + length (encode_varint v) \<le> 10 \<Longrightarrow>
   decode_varint_from i acc s (encode_varint v @ rest) = Inr (acc OR push_bit s v, i + length (encode_varint v))"
proof (induction v arbitrary: i acc s rule: encode_varint.induct)
  case (1 v)
  show ?case
  proof (cases "drop_bit 7 v = 0")
    case True
    then show ?thesis using "1.prems"
      by (simp add: encode_varint.simps [of v] Let_def cont_bit low_only_7)
  next
    case False
    have "i + 1 + length (encode_varint (drop_bit 7 v)) \<le> 10"
      using False "1.prems" by (simp add: encode_varint.simps [of v] Let_def)
    from "1.IH" [OF refl refl False this]
    show ?thesis using False "1.prems"
      by (simp add: encode_varint.simps [of v] Let_def cont_bit or.assoc low_high_7)
  qed
qed

lemma length_encode_varint_le: "unat v < 2 ^ (7 * Suc n) \<Longrightarrow> length (encode_varint v) \<le> Suc n"
proof (induction n arbitrary: v)
  case 0
  then have "unat (drop_bit 7 v) = 0" unfolding unat_drop_7 by simp
  then have "drop_bit 7 v = 0" by (simp only: unat_eq_0)
  then show ?case by (simp add: encode_varint.simps [of v])
next
  case (Suc n)
  have "unat (drop_bit 7 v) < 2 ^ (7 * Suc n)"
    unfolding unat_drop_7 using Suc.prems by (simp add: less_mult_imp_div_less power_add mult.commute)
  from Suc.IH [OF this] show ?case by (simp add: encode_varint.simps [of v] Let_def)
qed

lemma length_encode_varint_10: "length (encode_varint v) \<le> 10"
proof -
  have "unat v < 2 ^ 64" using unsigned_less [of v] by simp
  also have "(2 :: nat) ^ 64 \<le> 2 ^ (7 * Suc 9)" by (rule power_increasing) simp_all
  finally show ?thesis using length_encode_varint_le [of v 9] by simp
qed

lemma encode_varint_nonempty [simp]: "encode_varint v \<noteq> []"
  by (subst encode_varint.simps) (simp add: Let_def)

lemma decode_encode_varint [codec_simps]:
  "decode_varint (encode_varint v @ rest) = Inr (v, length (encode_varint v))"
  using decode_varint_from_encode [of 0 v 0 0 rest] length_encode_varint_10 [of v] by (simp add: decode_varint_def)

lemma decode_varint_from_bound:
  "decode_varint_from i v s buf = Inr (w, n) \<Longrightarrow> i < n \<and> n \<le> i + length buf \<and> n \<le> 10"
  by (induction i v s buf rule: decode_varint_from.induct) (auto simp: Let_def split: if_splits)

lemma decode_varint_bound: "decode_varint buf = Inr (w, n) \<Longrightarrow> 0 < n \<and> n \<le> length buf \<and> n \<le> 10"
  using decode_varint_from_bound [of 0 0 0 buf w n] by (auto simp: decode_varint_def split: if_splits)

section \<open>Length\<close>

lemma bit_len_eq:
  assumes "bit w k" and "\<And>j. k < j \<Longrightarrow> \<not> bit w j"
  shows "64 - leading_zeros (w :: u64) = Suc k"
proof -
  have k: "k < 64" using bit_imp_le_length [OF assms(1)] by simp
  have "[0..<64] = [0..<k] @ k # [Suc k..<64]"
    using k upt_add_eq_append [of 0 k "64 - k"] by (simp add: upt_conv_Cons)
  then have "rev [0..<64] = rev [Suc k..<64] @ k # rev [0..<k]" by (simp only: rev_append) simp
  then have "takeWhile (\<lambda>i. \<not> bit w i) (rev [0..<64]) = rev [Suc k..<64]"
    using assms by (simp add: takeWhile_append)
  then show ?thesis using k by (simp add: leading_zeros_def)
qed

lemma top_bit_exists: "(w :: u64) \<noteq> 0 \<Longrightarrow> \<exists>k. bit w k \<and> (\<forall>j > k. \<not> bit w j)"
proof -
  assume "w \<noteq> 0"
  then obtain n where n: "bit w n" using bit_eq_iff [of w 0] by auto
  have fin: "finite {n. bit w n}" by (rule finite_subset [of _ "{..<64}"]) (auto dest: bit_imp_le_length)
  have "bit w (Max {n. bit w n})" using Max_in [OF fin] n by blast
  moreover have "\<forall>j > Max {n. bit w n}. \<not> bit w j" using Max_ge [OF fin] by (metis mem_Collect_eq not_less)
  ultimately show ?thesis by blast
qed

lemma length_encode_varint_top:
  assumes "bit v k" and "\<And>j. k < j \<Longrightarrow> \<not> bit v j"
  shows "length (encode_varint v) = Suc (k div 7)"
  using assms
proof (induction v arbitrary: k rule: encode_varint.induct)
  case (1 v)
  show ?case
  proof (cases "k < 7")
    case True
    then have "drop_bit 7 v = 0" using "1.prems"(2) by (intro bit_eqI) (auto simp: bit_drop_bit_eq)
    then show ?thesis using True by (simp add: encode_varint.simps [of v])
  next
    case False
    then obtain m where m: "k = 7 + m" using le_Suc_ex by (metis not_less)
    then have d: "bit (drop_bit 7 v) m" "\<And>j. m < j \<Longrightarrow> \<not> bit (drop_bit 7 v) j"
      using "1.prems" by (auto simp: bit_drop_bit_eq)
    then have nz: "drop_bit 7 v \<noteq> 0" by auto
    show ?thesis using "1.IH" [OF refl refl nz d] nz m by (simp add: encode_varint.simps [of v] Let_def)
  qed
qed

lemma length_encode_varint: "length (encode_varint v) = varint_len v"
proof (cases "v = 0")
  case True
  then show ?thesis by (simp add: encode_varint.simps [of 0] varint_len_def)
next
  case False
  then obtain k where k: "bit v k" "\<And>j. k < j \<Longrightarrow> \<not> bit v j" using top_bit_exists by blast
  then show ?thesis using False length_encode_varint_top [OF k] bit_len_eq [OF k] by (simp add: varint_len_def)
qed

text \<open>Variable-length integers. Decoding what \<open>encode_varint\<close> wrote gives the value and the number of
  bytes back whatever follows, that number is what \<open>varint_len\<close> predicts and at most ten; a
  successful decode of any input consumes at least one and at most ten of its bytes, so no input
  makes a reader loop or read past its end.\<close>

lemma varint_roundtrip:
  "decode_varint (encode_varint v @ rest) = Inr (v, varint_len v)
    \<and> length (encode_varint v) = varint_len v \<and> varint_len v \<le> 10
    \<and> (\<forall>w n. decode_varint buf = Inr (w, n) \<longrightarrow> 0 < n \<and> n \<le> length buf \<and> n \<le> 10)"
  using length_encode_varint_10 [of v] decode_varint_bound [of buf]
  by (auto simp: decode_encode_varint length_encode_varint)

lemma encode_varint_300: "encode_varint 300 = [0xAC, 0x02]"
proof -
  have "drop_bit 7 (300 :: u64) = 2" "drop_bit 7 (2 :: u64) = 0" by (simp_all add: drop_bit_eq_div)
  then show ?thesis by (simp add: encode_varint.simps [of 300] encode_varint.simps [of 2] Let_def)
qed

end
