(* ===== verification/Sst_Block.thy ===== *)
theory Sst_Block
  imports Varint
begin

text \<open>
  \<^verbatim>\<open>sstable/types.rs\<close>, \<^verbatim>\<open>sstable/block_builder.rs\<close> and \<^verbatim>\<open>sstable/block_reader.rs\<close>: the data blocks of an
  SSTable. A block is a sequence of entries in which a record id equal to that of the entry before
  is written as length 0, followed by a checksum, the whole compressed.

  The checksum and the two compressors belong to the crates \<^verbatim>\<open>crc32fast\<close>, \<^verbatim>\<open>snap\<close> and \<^verbatim>\<open>zstd\<close>: they are
  the fields of the argument \<open>E\<close>, a failing compressor returns \<open>None\<close>. What the code relies on is
  \<open>codecs_ok\<close>: what a compressor produced, its decompressor restores. A \<^verbatim>\<open>HashSet\<close> is a set; the entry
  counters are unbounded numbers.
\<close>

section \<open>Types and configuration (types.rs)\<close>

definition SSTABLE_MAGIC :: u32 where "SSTABLE_MAGIC = 0x464C4442"
definition FORMAT_VERSION :: u16 where "FORMAT_VERSION = 1"
definition SST_DEFAULT_BLOCK_SIZE :: nat where "SST_DEFAULT_BLOCK_SIZE = 4096"
definition FOOTER_SIZE :: nat where "FOOTER_SIZE = 80"
definition HEADER_SIZE :: nat where "HEADER_SIZE = 16"
definition MIN_MAX_KEY_TRUNCATION_LEN :: nat where "MIN_MAX_KEY_TRUNCATION_LEN = 16"
definition DEFAULT_BLOOM_BITS_PER_KEY :: u32 where "DEFAULT_BLOOM_BITS_PER_KEY = 10"
definition DEDUP_HASH_SIZE :: nat where "DEDUP_HASH_SIZE = 16"

datatype compression_type = NoCompression | Snappy | Zstd

definition compression_from_u8 :: "u8 \<Rightarrow> compression_type flush_result" where
  "compression_from_u8 v =
     (if v = 0 then Inr NoCompression else if v = 1 then Inr Snappy else if v = 2 then Inr Zstd
      else Inl (CorruptedData ''unknown compression type''))"

fun compression_as_u8 :: "compression_type \<Rightarrow> u8" where
  "compression_as_u8 NoCompression = 0"
| "compression_as_u8 Snappy = 1"
| "compression_as_u8 Zstd = 2"

record sst_config =
  block_size_target :: nat
  sst_compression :: compression_type
  bloom_bits_per_key :: u32

definition sst_config_default :: sst_config where
  "sst_config_default = \<lparr>block_size_target = SST_DEFAULT_BLOCK_SIZE, sst_compression = Snappy,
     bloom_bits_per_key = DEFAULT_BLOOM_BITS_PER_KEY\<rparr>"

lemma compression_from_as_u8 [simp, codec_simps]: "compression_from_u8 (compression_as_u8 c) = Inr c"
  by (cases c) (simp_all add: compression_from_u8_def)

record codecs =
  crc32 :: "bytes \<Rightarrow> u32"
  snappy_compress :: "bytes \<Rightarrow> bytes option"
  snappy_decompress :: "bytes \<Rightarrow> bytes option"
  zstd_compress :: "bytes \<Rightarrow> bytes option"
  zstd_decompress :: "bytes \<Rightarrow> bytes option"

definition codecs_ok :: "codecs \<Rightarrow> bool" where
  "codecs_ok E \<longleftrightarrow> (\<forall>b d. snappy_compress E b = Some d \<longrightarrow> snappy_decompress E d = Some b)
     \<and> (\<forall>b d. zstd_compress E b = Some d \<longrightarrow> zstd_decompress E d = Some b)"

section \<open>Building a block (block\_builder.rs)\<close>

record finished_block =
  fb_data :: bytes
  fb_first_key :: composite_key
  fb_last_key :: composite_key
  fb_entry_count :: nat
  fb_uncompressed_size :: u32
  fb_record_ids :: "bytes set"
  fb_idempotency_tokens :: "idempotency_token list"

record block_builder =
  bb_buffer :: bytes
  bb_entry_count :: nat
  bb_block_size_target :: nat
  bb_first_key :: "composite_key option"
  bb_last_key :: "composite_key option"
  bb_record_ids_seen :: "bytes set"
  bb_idempotency_tokens :: "idempotency_token list"
  bb_last_record_id :: "bytes option"

definition bb_new :: "nat \<Rightarrow> block_builder" where
  "bb_new target = \<lparr>bb_buffer = [], bb_entry_count = 0, bb_block_size_target = target, bb_first_key = None,
     bb_last_key = None, bb_record_ids_seen = {}, bb_idempotency_tokens = [], bb_last_record_id = None\<rparr>"

text \<open>A varint length and the bytes.\<close>

definition put_var :: "bytes \<Rightarrow> bytes" where
  "put_var bs = encode_varint (of_nat (length bs)) @ bs"

definition bb_add_entry ::
  "composite_key \<Rightarrow> bytes \<Rightarrow> bytes \<Rightarrow> entry_type \<Rightarrow> u64 \<Rightarrow> idempotency_token \<Rightarrow> block_builder \<Rightarrow> block_builder" where
  "bb_add_entry key val metadata ty seqno token bb =
     (let rid = record_id key; ik = item_key key;
          dedup = bb_entry_count bb > 0 \<and> bb_last_record_id bb = Some rid
      in bb\<lparr>bb_buffer := bb_buffer bb @ (if dedup then encode_varint 0 else put_var rid) @ put_var ik
              @ [INLINE_TAG] @ put_var val @ put_var metadata @ [entry_type_as_u8 ty] @ encode_varint seqno,
            bb_record_ids_seen := insert rid (bb_record_ids_seen bb),
            bb_idempotency_tokens := bb_idempotency_tokens bb @ (if token_is_none token then [] else [token]),
            bb_first_key := (case bb_first_key bb of None \<Rightarrow> Some key | Some k \<Rightarrow> Some k),
            bb_last_key := Some key,
            bb_last_record_id := Some rid,
            bb_entry_count := bb_entry_count bb + 1\<rparr>)"

definition bb_is_full :: "block_builder \<Rightarrow> bool" where
  "bb_is_full bb \<longleftrightarrow> length (bb_buffer bb) \<ge> bb_block_size_target bb"

definition bb_is_empty :: "block_builder \<Rightarrow> bool" where
  "bb_is_empty bb \<longleftrightarrow> bb_entry_count bb = 0"

definition from_option :: "flush_error \<Rightarrow> 'a option \<Rightarrow> 'a flush_result" where
  "from_option e r = (case r of None \<Rightarrow> Inl e | Some x \<Rightarrow> Inr x)"

definition compress_block :: "codecs \<Rightarrow> compression_type \<Rightarrow> bytes \<Rightarrow> bytes flush_result" where
  "compress_block E c buf =
     (case c of NoCompression \<Rightarrow> Inr buf
      | Snappy \<Rightarrow> from_option (Io ''compress'') (snappy_compress E buf)
      | Zstd \<Rightarrow> from_option (Io ''compress'') (zstd_compress E buf))"

definition bb_finish :: "codecs \<Rightarrow> compression_type \<Rightarrow> block_builder \<Rightarrow> finished_block flush_result" where
  "bb_finish E c bb =
     (if bb_entry_count bb = 0 then Inl (InvalidArgument ''cannot finish empty block'')
      else let buf = bb_buffer bb @ to_le_bytes 4 (crc32 E (bb_buffer bb));
               uncompressed = of_nat (length buf)
           in bind_res (compress_block E c buf) (\<lambda>compressed.
              Inr \<lparr>fb_data = compressed, fb_first_key = the (bb_first_key bb), fb_last_key = the (bb_last_key bb),
                   fb_entry_count = bb_entry_count bb, fb_uncompressed_size = uncompressed,
                   fb_record_ids = bb_record_ids_seen bb, fb_idempotency_tokens = bb_idempotency_tokens bb\<rparr>))"

definition bb_reset :: "block_builder \<Rightarrow> block_builder" where
  "bb_reset bb = bb\<lparr>bb_buffer := [], bb_entry_count := 0, bb_first_key := None, bb_last_key := None,
     bb_record_ids_seen := {}, bb_idempotency_tokens := [], bb_last_record_id := None\<rparr>"

section \<open>Reading a block (block\_reader.rs)\<close>

record block_entry =
  be_composite_key :: composite_key
  be_value :: entry_value
  be_metadata :: bytes
  be_entry_type :: entry_type
  be_sequence_number :: u64

record block_iter =
  bi_data :: bytes
  bi_offset :: nat
  bi_last_record_id :: "bytes option"

definition decompress :: "codecs \<Rightarrow> compression_type \<Rightarrow> bytes \<Rightarrow> bytes flush_result" where
  "decompress E c data =
     (case c of NoCompression \<Rightarrow> Inr data
      | Snappy \<Rightarrow> from_option (CorruptedData ''decompression failed'') (snappy_decompress E data)
      | Zstd \<Rightarrow> from_option (CorruptedData ''decompression failed'') (zstd_decompress E data))"

definition block_iter_new :: "codecs \<Rightarrow> bytes \<Rightarrow> compression_type \<Rightarrow> block_iter flush_result" where
  "block_iter_new E raw_block c =
     bind_res (decompress E c raw_block) (\<lambda>d.
       if length d < 4 then Inl (CorruptedData ''block too short for CRC'')
       else let payload_len = length d - 4; stored = from_le_bytes (drop payload_len d);
                computed = crc32 E (take payload_len d)
            in if stored \<noteq> computed then Inl (CrcMismatch stored computed)
               else Inr \<lparr>bi_data = take payload_len d, bi_offset = 0, bi_last_record_id = None\<rparr>)"

text \<open>The read the decoder repeats: a varint length at \<open>pos\<close>, a bounds check, the bytes.\<close>

definition read_exact :: "string \<Rightarrow> nat \<Rightarrow> bytes \<Rightarrow> nat \<Rightarrow> (bytes \<times> nat) flush_result" where
  "read_exact msg len buf pos =
     (if pos + len > length buf then Inl (CorruptedData msg) else Inr (slice_of pos (pos + len) buf, pos + len))"

definition read_var :: "string \<Rightarrow> bytes \<Rightarrow> nat \<Rightarrow> (bytes \<times> nat) flush_result" where
  "read_var msg buf pos =
     bind_res (decode_varint (drop pos buf)) (\<lambda>(len, n). read_exact msg (unat len) buf (pos + n))"

definition read_byte :: "string \<Rightarrow> bytes \<Rightarrow> nat \<Rightarrow> (u8 \<times> nat) flush_result" where
  "read_byte msg buf pos = (if pos \<ge> length buf then Inl (CorruptedData msg) else Inr (buf ! pos, pos + 1))"

definition decode_blob_ref :: "bytes \<Rightarrow> entry_value flush_result" where
  "decode_blob_ref d =
     (if length d < 2 then Inl (CorruptedData ''blob_ref data too short'')
      else let id_len = unat (from_le_bytes (slice_of 0 2 d) :: u16)
           in if length d < 2 + id_len + 8 + 4 then Inl (CorruptedData ''blob_ref fields truncated'')
              else Inr (BlobRef (slice_of 2 (2 + id_len) d)
                         (from_le_bytes (slice_of (2 + id_len) (2 + id_len + 8) d))
                         (from_le_bytes (slice_of (2 + id_len + 8) (2 + id_len + 12) d))))"

definition decode_value :: "u8 \<Rightarrow> bytes \<Rightarrow> entry_value flush_result" where
  "decode_value tag d =
     (if tag = INLINE_TAG then Inr (Inline d) else if tag = BLOB_REF_TAG then decode_blob_ref d
      else Inl (CorruptedData ''unknown entry value tag''))"

definition decode_record_id :: "bytes option \<Rightarrow> bytes \<Rightarrow> (bytes \<times> nat) flush_result" where
  "decode_record_id last_rid buf =
     bind_res (decode_varint buf) (\<lambda>(len, n).
       if len = 0
       then (case last_rid of Some rid \<Rightarrow> Inr (rid, n)
             | None \<Rightarrow> Inl (CorruptedData ''first entry in block has record_id_len=0''))
       else read_exact ''record_id truncated'' (unat len) buf n)"

definition decode_next :: "block_iter \<Rightarrow> (block_entry \<times> block_iter) flush_result" where
  "decode_next it =
     (let buf = drop (bi_offset it) (bi_data it) in
      bind_res (decode_record_id (bi_last_record_id it) buf) (\<lambda>(rid, pos).
      bind_res (read_var ''item_key truncated'' buf pos) (\<lambda>(ik, pos).
      bind_res (ck_from_bytes (rid @ [0] @ ik)) (\<lambda>key.
      bind_res (read_byte ''value tag missing'' buf pos) (\<lambda>(tag, pos).
      bind_res (read_var ''value data truncated'' buf pos) (\<lambda>(vd, pos).
      bind_res (decode_value tag vd) (\<lambda>val.
      bind_res (read_var ''metadata truncated'' buf pos) (\<lambda>(metadata, pos).
      bind_res (read_byte ''entry_type missing'' buf pos) (\<lambda>(t, pos).
      bind_res (entry_type_from_u8 t) (\<lambda>ty.
      bind_res (decode_varint (drop pos buf)) (\<lambda>(seqno, n).
      Inr (\<lparr>be_composite_key = key, be_value = val, be_metadata = metadata, be_entry_type = ty,
             be_sequence_number = seqno\<rparr>,
           it\<lparr>bi_offset := bi_offset it + (pos + n), bi_last_record_id := Some rid\<rparr>))))))))))))"

lemma decode_record_id_bound: "decode_record_id l buf = Inr (rid, pos) \<Longrightarrow> 0 < pos"
  by (auto simp: decode_record_id_def read_exact_def dest!: decode_varint_bound split: if_splits option.splits prod.splits)

lemma decode_next_progress:
  assumes "decode_next it = Inr (e, it')"
  shows "bi_offset it < bi_offset it' \<and> bi_data it' = bi_data it"
proof -
  have "\<exists>a p n. it' = it\<lparr>bi_offset := bi_offset it + (p + n), bi_last_record_id := Some a\<rparr> \<and> 0 < n"
    using assms unfolding decode_next_def Let_def
    by (auto dest!: decode_varint_bound split: prod.splits)
  then show ?thesis by auto
qed

text \<open>Collecting the iterator: \<open>next\<close> until the data is used up, the first error ends the collection.\<close>

function block_collect :: "block_iter \<Rightarrow> block_entry list flush_result" where
  "block_collect it =
     (if bi_offset it \<ge> length (bi_data it) then Inr []
      else case decode_next it of
             Inl e \<Rightarrow> Inl e
           | Inr (b, it') \<Rightarrow> bind_res (block_collect it') (\<lambda>bs. Inr (b # bs)))"
  by pat_completeness auto
termination
proof (relation "measure (\<lambda>it. length (bi_data it) - bi_offset it)")
  fix it p b it'
  assume "\<not> length (bi_data it) \<le> bi_offset it" "decode_next it = Inr p" "(b, it') = p"
  then show "(it', it) \<in> measure (\<lambda>it. length (bi_data it) - bi_offset it)"
    using decode_next_progress [of it b it'] by auto
qed simp

declare block_collect.simps [simp del]

definition decode_block :: "codecs \<Rightarrow> bytes \<Rightarrow> compression_type \<Rightarrow> block_entry list flush_result" where
  "decode_block E data c = bind_res (block_iter_new E data c) block_collect"

section \<open>What a builder holds\<close>

definition entry_ok :: "memtable_entry \<Rightarrow> bool" where
  "entry_ok e \<longleftrightarrow> ck_ok (me_composite_key e) \<and> record_id (me_composite_key e) \<noteq> []
     \<and> length (as_bytes (me_composite_key e)) < 2 ^ 64 \<and> length (me_value e) < 2 ^ 64 \<and> length (me_metadata e) < 2 ^ 64"

definition be_of :: "memtable_entry \<Rightarrow> block_entry" where
  "be_of e = \<lparr>be_composite_key = me_composite_key e, be_value = Inline (me_value e), be_metadata = me_metadata e,
     be_entry_type = me_entry_type e, be_sequence_number = me_sequence_number e\<rparr>"

definition bb_add :: "memtable_entry \<Rightarrow> block_builder \<Rightarrow> block_builder" where
  "bb_add e bb = bb_add_entry (me_composite_key e) (me_value e) (me_metadata e) (me_entry_type e)
     (me_sequence_number e) (me_idempotency_key e) bb"

abbreviation me_rid :: "memtable_entry \<Rightarrow> bytes" where
  "me_rid e \<equiv> record_id (me_composite_key e)"

definition last_rid :: "bytes option \<Rightarrow> memtable_entry list \<Rightarrow> bytes option" where
  "last_rid prev es = (if es = [] then prev else Some (me_rid (last es)))"

definition encode_entry :: "bytes option \<Rightarrow> memtable_entry \<Rightarrow> bytes" where
  "encode_entry prev e =
     (if prev = Some (me_rid e) then encode_varint 0 else put_var (me_rid e)) @ put_var (item_key (me_composite_key e))
       @ [INLINE_TAG] @ put_var (me_value e) @ put_var (me_metadata e) @ [entry_type_as_u8 (me_entry_type e)]
       @ encode_varint (me_sequence_number e)"

fun encode_entries :: "bytes option \<Rightarrow> memtable_entry list \<Rightarrow> bytes" where
  "encode_entries prev [] = []"
| "encode_entries prev (e # es) = encode_entry prev e @ encode_entries (Some (me_rid e)) es"

lemma encode_entries_snoc:
  "encode_entries prev (es @ [e]) = encode_entries prev es @ encode_entry (last_rid prev es) e"
  by (induction es arbitrary: prev) (auto simp: last_rid_def)

definition bb_repr :: "block_builder \<Rightarrow> memtable_entry list \<Rightarrow> bool" where
  "bb_repr bb es \<longleftrightarrow> bb_buffer bb = encode_entries None es \<and> bb_entry_count bb = length es
     \<and> bb_first_key bb = (if es = [] then None else Some (me_composite_key (hd es)))
     \<and> bb_last_key bb = (if es = [] then None else Some (me_composite_key (last es)))
     \<and> bb_record_ids_seen bb = me_rid ` set es
     \<and> bb_idempotency_tokens bb = filter (\<lambda>t. \<not> token_is_none t) (map me_idempotency_key es)
     \<and> bb_last_record_id bb = last_rid None es"

lemma bb_new_repr: "bb_repr (bb_new n) []"
  by (simp add: bb_repr_def bb_new_def last_rid_def)

lemma bb_add_repr: "bb_repr bb es \<Longrightarrow> bb_repr (bb_add e bb) (es @ [e])"
  by (auto simp: bb_repr_def bb_add_def bb_add_entry_def Let_def encode_entries_snoc encode_entry_def last_rid_def)

lemma bb_add_target [simp]: "bb_block_size_target (bb_add e bb) = bb_block_size_target bb"
  by (simp add: bb_add_def bb_add_entry_def Let_def)

section \<open>Reading back\<close>

lemma drop_step: "drop pos buf = xs @ ys \<Longrightarrow> drop (pos + length xs) buf = ys"
  by (metis add.commute append_eq_conv_conj drop_drop)

lemma drop_length: "drop pos buf = xs @ ys \<Longrightarrow> xs \<noteq> [] \<Longrightarrow> pos + length xs \<le> length buf"
proof -
  assume "drop pos buf = xs @ ys" "xs \<noteq> []"
  then have "length buf - pos = length xs + length ys" "pos < length buf"
    by (metis length_drop length_append) (metis \<open>drop pos buf = xs @ ys\<close> \<open>xs \<noteq> []\<close> append_is_Nil_conv drop_all not_le)
  then show ?thesis by simp
qed

lemma read_exact_drop:
  "drop pos buf = xs @ ys \<Longrightarrow> pos \<le> length buf \<Longrightarrow> n = length xs \<Longrightarrow> read_exact msg n buf pos = Inr (xs, pos + length xs)"
  using drop_length [of pos buf xs ys] by (cases "xs = []") (auto simp: read_exact_def slice_of_def)

lemma read_var_drop:
  assumes "drop pos buf = put_var bs @ ys" and "length bs < 2 ^ 64"
  shows "read_var msg buf pos = Inr (bs, pos + length (put_var bs))"
proof -
  let ?v = "encode_varint (of_nat (length bs))"
  have d: "drop pos buf = ?v @ bs @ ys" using assms(1) by (simp add: put_var_def)
  from drop_step [OF d] have "drop (pos + length ?v) buf = bs @ ys" .
  moreover have "pos + length ?v \<le> length buf" using drop_length [OF d] by simp
  moreover have "unat (of_nat (length bs) :: u64) = length bs" using assms(2) by (simp add: unat_of_nat take_bit_eq_mod)
  ultimately show ?thesis
    using read_exact_drop [of "pos + length ?v" buf bs ys "length bs" msg]
    by (simp add: read_var_def d decode_encode_varint put_var_def add.assoc)
qed

lemma read_byte_drop: "drop pos buf = [b] @ ys \<Longrightarrow> read_byte msg buf pos = Inr (b, pos + 1)"
  using drop_length [of pos buf "[b]" ys] nth_via_drop [of pos buf b ys] by (simp add: read_byte_def)

lemma of_nat_u64_eq_0: "n < 2 ^ 64 \<Longrightarrow> (of_nat n :: u64) = 0 \<longleftrightarrow> n = 0"
  by (simp add: word_unat_eq_iff unat_of_nat take_bit_eq_mod)

lemma decode_record_id_encode:
  assumes "buf = (if prev = Some rid then encode_varint 0 else put_var rid) @ ys" and "rid \<noteq> []" and "length rid < 2 ^ 64"
  shows "decode_record_id prev buf = Inr (rid, length (if prev = Some rid then encode_varint 0 else put_var rid))"
proof (cases "prev = Some rid")
  case True
  then show ?thesis using assms(1) by (simp add: decode_record_id_def decode_encode_varint)
next
  case False
  have nz: "(of_nat (length rid) :: u64) \<noteq> 0" using of_nat_u64_eq_0 [OF assms(3)] assms(2) by simp
  have d: "drop 0 buf = encode_varint (of_nat (length rid)) @ rid @ ys" using assms(1) False by (simp add: put_var_def)
  have u: "unat (of_nat (length rid) :: u64) = length rid" using assms(3) by (simp add: unat_of_nat take_bit_eq_mod)
  have "drop (length (encode_varint (of_nat (length rid)))) buf = rid @ ys" using drop_step [OF d] by simp
  from read_exact_drop [OF this, of "length rid"]
  show ?thesis using False nz d u by (simp add: decode_record_id_def decode_encode_varint put_var_def)
qed

lemma decode_next_encode:
  assumes d: "drop (bi_offset it) (bi_data it) = encode_entry (bi_last_record_id it) e @ rest" and ok: "entry_ok e"
  shows "decode_next it = Inr (be_of e, it\<lparr>bi_offset := bi_offset it + length (encode_entry (bi_last_record_id it) e),
    bi_last_record_id := Some (me_rid e)\<rparr>)"
proof -
  let ?buf = "drop (bi_offset it) (bi_data it)" and ?k = "me_composite_key e"
  let ?r = "if bi_last_record_id it = Some (me_rid e) then encode_varint 0 else put_var (me_rid e)"
  have parts: "CompositeKey (record_id ?k @ 0 # item_key ?k) = ?k" "record_id ?k \<noteq> []"
    using ok ck_collapse [of ?k] by (auto simp: entry_ok_def SEPARATOR_def)
  have len: "length (record_id ?k) < 2 ^ 64" "length (item_key ?k) < 2 ^ 64" "length (me_value e) < 2 ^ 64" "length (me_metadata e) < 2 ^ 64"
    using ok arg_cong [OF parts(1), of "\<lambda>k. length (as_bytes k)"] by (auto simp: entry_ok_def)
  note b0 = d [unfolded encode_entry_def append_assoc]
  have d0: "drop 0 ?buf = ?r @ put_var (item_key ?k) @ [INLINE_TAG] @ put_var (me_value e) @ put_var (me_metadata e)
      @ [entry_type_as_u8 (me_entry_type e)] @ encode_varint (me_sequence_number e) @ rest" using b0 by simp
  note d1 = drop_step [OF d0] note d2 = drop_step [OF d1] note d3 = drop_step [OF d2]
  note d4 = drop_step [OF d3] note d5 = drop_step [OF d4] note d6 = drop_step [OF d5]
  have r0: "decode_record_id (bi_last_record_id it) ?buf = Inr (me_rid e, length ?r)"
    by (rule decode_record_id_encode [OF b0 parts(2) len(1)])
  have key: "ck_from_bytes (record_id ?k @ [0] @ item_key ?k) = Inr ?k"
    using parts(1) by (simp add: ck_from_bytes_def SEPARATOR_def)
  show ?thesis
    unfolding decode_next_def Let_def r0 bind_res.simps prod.case
      read_var_drop [OF d1 len(2), unfolded add_0] key
      read_byte_drop [OF d2, unfolded add_0] read_var_drop [OF d3 len(3), unfolded add_0 list.size One_nat_def [symmetric]]
    using read_var_drop [OF d4 len(4)] read_byte_drop [OF d5] d6
    by (simp add: decode_value_def decode_encode_varint be_of_def encode_entry_def add.assoc)
qed

lemma block_collect_encode:
  "\<lbrakk>drop (bi_offset it) (bi_data it) = encode_entries (bi_last_record_id it) es; \<forall>e \<in> set es. entry_ok e\<rbrakk>
   \<Longrightarrow> block_collect it = Inr (map be_of es)"
proof (induction es arbitrary: it)
  case Nil
  then show ?case by (simp add: block_collect.simps [of it])
next
  case (Cons e es)
  let ?it = "it\<lparr>bi_offset := bi_offset it + length (encode_entry (bi_last_record_id it) e), bi_last_record_id := Some (me_rid e)\<rparr>"
  have d: "drop (bi_offset it) (bi_data it) = encode_entry (bi_last_record_id it) e @ encode_entries (Some (me_rid e)) es"
    using Cons.prems by simp
  have "encode_entry (bi_last_record_id it) e \<noteq> []" by (simp add: encode_entry_def)
  then have "bi_offset it < length (bi_data it)" using drop_length [OF d] by (cases "encode_entry (bi_last_record_id it) e") auto
  moreover have "block_collect ?it = Inr (map be_of es)"
    using Cons drop_step [OF d] by simp
  ultimately show ?case using decode_next_encode [OF d] Cons.prems by (simp add: block_collect.simps [of it])
qed

lemma decompress_compress:
  "codecs_ok E \<Longrightarrow> compress_block E c buf = Inr d \<Longrightarrow> decompress E c d = Inr buf"
  by (cases c) (auto simp: compress_block_def decompress_def codecs_ok_def from_option_def split: option.splits)

lemma decode_finished_block:
  assumes "codecs_ok E" and "bb_repr bb es" and "\<forall>e \<in> set es. entry_ok e" and "bb_finish E c bb = Inr fb"
  shows "decode_block E (fb_data fb) c = Inr (map be_of es)"
proof -
  let ?p = "bb_buffer bb"
  have "compress_block E c (?p @ to_le_bytes 4 (crc32 E ?p)) = Inr (fb_data fb)"
    using assms(4) by (auto simp: bb_finish_def Let_def split: if_splits)
  from decompress_compress [OF assms(1) this]
  have "block_iter_new E (fb_data fb) c = Inr \<lparr>bi_data = ?p, bi_offset = 0, bi_last_record_id = None\<rparr>"
    by (simp add: block_iter_new_def Let_def from_to_le_bytes)
  moreover have "block_collect \<lparr>bi_data = ?p, bi_offset = 0, bi_last_record_id = None\<rparr> = Inr (map be_of es)"
    by (rule block_collect_encode) (use assms(2,3) in \<open>simp_all add: bb_repr_def\<close>)
  ultimately show ?thesis by (simp add: decode_block_def)
qed

lemma fold_bb_add_repr: "bb_repr bb xs \<Longrightarrow> bb_repr (fold bb_add es bb) (xs @ es)"
proof (induction es arbitrary: bb xs)
  case (Cons e es)
  from Cons.IH [OF bb_add_repr [OF Cons.prems]] show ?case by simp
qed simp

text \<open>A data block reads back as what was added. Whatever the compression, decoding a finished block
  gives the added entries in order, with every record id restored that the builder left out; the
  summary the writer indexes the block by names its first and last key, its record ids and exactly the
  tokens that are not empty. An empty builder refuses to finish, and without compression a non-empty one
  never does.\<close>

lemma block_roundtrip:
  assumes "codecs_ok E" and "\<forall>e \<in> set es. entry_ok e"
  shows "(bb_finish E c (fold bb_add es (bb_new n)) = Inr fb \<longrightarrow>
      decode_block E (fb_data fb) c = Inr (map be_of es)
      \<and> fb_first_key fb = me_composite_key (hd es) \<and> fb_last_key fb = me_composite_key (last es)
      \<and> fb_record_ids fb = me_rid ` set es
      \<and> fb_idempotency_tokens fb = filter (\<lambda>t. \<not> token_is_none t) (map me_idempotency_key es))
    \<and> ((\<exists>fb. bb_finish E NoCompression (fold bb_add es (bb_new n)) = Inr fb) \<longleftrightarrow> es \<noteq> [])"
proof -
  have r: "bb_repr (fold bb_add es (bb_new n)) es" using fold_bb_add_repr [OF bb_new_repr] by simp
  then show ?thesis
    using decode_finished_block [OF assms(1) r assms(2), of c fb]
    by (auto simp: bb_finish_def bb_repr_def Let_def compress_block_def split: if_splits)
qed

definition sample_codecs :: codecs where
  "sample_codecs = \<lparr>crc32 = (\<lambda>bs. of_nat (length bs)), snappy_compress = Some, snappy_decompress = Some,
     zstd_compress = Some, zstd_decompress = Some\<rparr>"

definition sample_entry :: "bytes \<Rightarrow> bytes \<Rightarrow> u64 \<Rightarrow> memtable_entry" where
  "sample_entry ik v s = me_with_sequence (CompositeKey ([1, 0] @ ik)) v [] token_none s Put"

lemma sample_codecs_ok: "codecs_ok sample_codecs"
  by (simp add: codecs_ok_def sample_codecs_def)

lemma sample_key: "record_id (CompositeKey (1 # 0 # ik)) = [1]" "item_key (CompositeKey (1 # 0 # ik)) = ik"
  using ck_parts [of "[1]" ik] by (simp_all add: SEPARATOR_def)

lemma sample_entry_ok: "length ik < 2 ^ 63 \<Longrightarrow> length v < 2 ^ 63 \<Longrightarrow> entry_ok (sample_entry ik v s)"
  by (simp add: entry_ok_def sample_entry_def me_with_sequence_def sample_key ck_ok_def SEPARATOR_def)

end
