(* ===== verification/Sst_Filter.thy ===== *)
theory Sst_Filter
  imports Sst_Block "HOL-Library.Product_Lexorder"
begin

text \<open>
  \<^verbatim>\<open>sstable/hash.rs\<close>, \<^verbatim>\<open>sstable/bloom_filter.rs\<close> and \<^verbatim>\<open>sstable/dedup_block.rs\<close>: MurmurHash3 (x64, 128 bits),
  the Bloom filter over the record ids of an SSTable and the sorted block of token hashes. Arithmetic is
  on 64-bit words, which wrap as the code's \<^verbatim>\<open>wrapping_\<close> operations do; the one floating point
  expression, the number of hash functions, is computed with its rounding. The builders' hash sets are
  sets; building walks them in ascending order, the outcome does not depend on it.
\<close>

section \<open>MurmurHash3 (hash.rs)\<close>

definition rotate_left :: "nat \<Rightarrow> u64 \<Rightarrow> u64" where
  "rotate_left n w = push_bit n w OR drop_bit (64 - n) w"

definition fmix64 :: "u64 \<Rightarrow> u64" where
  "fmix64 k =
     (let k = k XOR drop_bit 33 k; k = k * 0xff51afd7ed558ccd; k = k XOR drop_bit 33 k;
          k = k * 0xc4ceb9fe1a85ec53
      in k XOR drop_bit 33 k)"

definition murmur_c1 :: u64 where "murmur_c1 = 0x87c37b91114253d5"
definition murmur_c2 :: u64 where "murmur_c2 = 0x4cf5ad432745937f"

definition murmur_mix1 :: "u64 \<Rightarrow> u64" where
  "murmur_mix1 k1 = rotate_left 31 (k1 * murmur_c1) * murmur_c2"

definition murmur_mix2 :: "u64 \<Rightarrow> u64" where
  "murmur_mix2 k2 = rotate_left 33 (k2 * murmur_c2) * murmur_c1"

text \<open>One 16-byte block of the input.\<close>

definition murmur_block :: "bytes \<Rightarrow> nat \<Rightarrow> u64 \<times> u64 \<Rightarrow> u64 \<times> u64" where
  "murmur_block data i = (\<lambda>(h1, h2).
     let offset = i * 16;
         k1 = from_le_bytes (slice_of offset (offset + 8) data);
         k2 = from_le_bytes (slice_of (offset + 8) (offset + 16) data);
         h1 = h1 XOR murmur_mix1 k1; h1 = rotate_left 27 h1; h1 = h1 + h2; h1 = h1 * 5 + 0x52dce729;
         h2 = h2 XOR murmur_mix2 k2; h2 = rotate_left 31 h2; h2 = h2 + h1; h2 = h2 * 5 + 0x38495ab5
     in (h1, h2))"

text \<open>The bytes \<open>tail[hi - 1]\<close> down to \<open>tail[lo]\<close>, each XORed in at its place.\<close>

definition tail_word :: "bytes \<Rightarrow> nat \<Rightarrow> nat \<Rightarrow> u64" where
  "tail_word tail lo hi = fold (\<lambda>i k. k XOR push_bit (8 * (i - lo)) (ucast (tail ! i))) (rev [lo..<hi]) 0"

text \<open>The arms 15 to 9 of the match on the tail, then the arms 8 to 1.\<close>

definition murmur_tail_long :: "bytes \<Rightarrow> u64 \<times> u64 \<Rightarrow> u64 \<times> u64" where
  "murmur_tail_long tail = (\<lambda>(h1, h2).
     let h2 = h2 XOR murmur_mix2 (tail_word tail 8 (length tail));
         h1 = h1 XOR murmur_mix1 (tail_word tail 0 8)
     in (h1, h2))"

definition murmur_tail_short :: "bytes \<Rightarrow> u64 \<times> u64 \<Rightarrow> u64 \<times> u64" where
  "murmur_tail_short tail = (\<lambda>(h1, h2). (h1 XOR murmur_mix1 (tail_word tail 0 (length tail)), h2))"

definition murmurhash3_x64_128 :: "bytes \<Rightarrow> u32 \<Rightarrow> u64 \<times> u64" where
  "murmurhash3_x64_128 data seed =
     (let nblocks = length data div 16;
          h = fold (murmur_block data) [0..<nblocks] (ucast seed, ucast seed);
          tail = drop (nblocks * 16) data;
          (h1, h2) = (if length tail \<ge> 9 then murmur_tail_long tail h
                      else if length tail \<ge> 1 then murmur_tail_short tail h else h);
          h1 = h1 XOR of_nat (length data); h2 = h2 XOR of_nat (length data);
          h1 = h1 + h2; h2 = h2 + h1;
          h1 = fmix64 h1; h2 = fmix64 h2;
          h1 = h1 + h2; h2 = h2 + h1
      in (h1, h2))"

section \<open>Bloom filter (bloom\_filter.rs)\<close>

record bloom_filter =
  bf_bits :: bytes
  bf_num_bits :: u64
  bf_num_hash_functions :: u32
  bf_num_keys :: u64

datatype filter_block = Bloom bloom_filter

record bloom_builder =
  bl_record_ids :: "bytes set"
  bl_bits_per_key :: u32

definition bl_new :: "u32 \<Rightarrow> bloom_builder" where
  "bl_new bits = \<lparr>bl_record_ids = {}, bl_bits_per_key = bits\<rparr>"

definition bl_add :: "bytes \<Rightarrow> bloom_builder \<Rightarrow> bloom_builder" where
  "bl_add rid b = b\<lparr>bl_record_ids := insert rid (bl_record_ids b)\<rparr>"

definition bl_add_all :: "bytes set \<Rightarrow> bloom_builder \<Rightarrow> bloom_builder" where
  "bl_add_all rids b = b\<lparr>bl_record_ids := bl_record_ids b \<union> rids\<rparr>"

text \<open>
  \<^verbatim>\<open>(q as f64 * LN_2) as u32\<close> for \<open>q < 2 ^ 53\<close>: \<^verbatim>\<open>LN_2\<close> is the double \<open>6243314768165359 / 2 ^ 53\<close>, the product
  is rounded to 53 significant bits, ties to even, and the conversion truncates and saturates.
\<close>

function bit_length :: "int \<Rightarrow> nat" where
  "bit_length p = (if p \<le> 0 then 0 else Suc (bit_length (p div 2)))"
  by pat_completeness auto
termination
  by (relation "measure nat") auto

declare bit_length.simps [simp del]

definition round_53 :: "int \<Rightarrow> int" where
  "round_53 p =
     (let e = bit_length p - 53; m = p div 2 ^ e; r = p mod 2 ^ e
      in (if 2 * r > 2 ^ e \<or> (2 * r = 2 ^ e \<and> odd m) then m + 1 else m) * 2 ^ e)"

definition times_ln2 :: "u64 \<Rightarrow> u32" where
  "times_ln2 q = of_int (min 0xFFFFFFFF (round_53 (uint q * 6243314768165359) div 2 ^ 53))"

definition bloom_index :: "u64 \<times> u64 \<Rightarrow> u64 \<Rightarrow> nat \<Rightarrow> nat" where
  "bloom_index h num_bits k = unat ((fst h + of_nat k * snd h) mod num_bits)"

definition set_bloom_bit :: "u64 \<times> u64 \<Rightarrow> u64 \<Rightarrow> nat \<Rightarrow> bytes \<Rightarrow> bytes" where
  "set_bloom_bit h num_bits k bits =
     (let i = bloom_index h num_bits k in bits[i div 8 := bits ! (i div 8) OR push_bit (i mod 8) 1])"

definition set_bloom_bits :: "u64 \<Rightarrow> nat \<Rightarrow> bytes \<Rightarrow> bytes \<Rightarrow> bytes" where
  "set_bloom_bits num_bits hashes rid bits =
     (let h = murmurhash3_x64_128 rid 0 in fold (set_bloom_bit h num_bits) [0..<hashes] bits)"

definition bl_build :: "bloom_builder \<Rightarrow> bloom_filter" where
  "bl_build b =
     (let n = (of_nat (card (bl_record_ids b)) :: u64)
      in if n = 0 then \<lparr>bf_bits = replicate 8 0, bf_num_bits = 64, bf_num_hash_functions = 1, bf_num_keys = 0\<rparr>
         else let num_bits = max (n * ucast (bl_bits_per_key b)) 64;
                  num_bits = (num_bits + 7) AND NOT 7;
                  hashes = max (times_ln2 (num_bits div n)) 1;
                  bits = fold (set_bloom_bits num_bits (unat hashes)) (sorted_list_of_set (bl_record_ids b))
                           (replicate (unat num_bits div 8) 0)
              in \<lparr>bf_bits = bits, bf_num_bits = num_bits, bf_num_hash_functions = hashes, bf_num_keys = n\<rparr>)"

fun bloom_probe :: "bloom_filter \<Rightarrow> u64 \<times> u64 \<Rightarrow> nat list \<Rightarrow> bool" where
  "bloom_probe bf h [] = True"
| "bloom_probe bf h (k # ks) =
     (let i = bloom_index h (bf_num_bits bf) k
      in if (bf_bits bf ! (i div 8)) AND push_bit (i mod 8) 1 = 0 then False else bloom_probe bf h ks)"

definition bf_maybe_contains :: "bloom_filter \<Rightarrow> bytes \<Rightarrow> bool" where
  "bf_maybe_contains bf rid =
     (if bf_num_keys bf = 0 then False
      else bloom_probe bf (murmurhash3_x64_128 rid 0) [0..<unat (bf_num_hash_functions bf)])"

definition bf_serialize :: "bloom_filter \<Rightarrow> bytes" where
  "bf_serialize bf = to_le_bytes 8 (bf_num_bits bf) @ to_le_bytes 4 (bf_num_hash_functions bf)
     @ to_le_bytes 8 (bf_num_keys bf) @ bf_bits bf"

definition bf_deserialize :: "bytes \<Rightarrow> bloom_filter flush_result" where
  "bf_deserialize data =
     (if length data < 20 then Inl (CorruptedData ''bloom filter data too short for header'')
      else let num_bits = from_le_bytes (slice_of 0 8 data); bits = drop 20 data
           in if length bits * 8 < unat num_bits then Inl (CorruptedData ''bloom filter bit array too short'')
              else Inr \<lparr>bf_bits = bits, bf_num_bits = num_bits,
                        bf_num_hash_functions = from_le_bytes (slice_of 8 12 data),
                        bf_num_keys = from_le_bytes (slice_of 12 20 data)\<rparr>)"

fun fb_maybe_contains :: "filter_block \<Rightarrow> bytes \<Rightarrow> bool" where
  "fb_maybe_contains (Bloom bf) rid = bf_maybe_contains bf rid"

fun fb_serialize :: "filter_block \<Rightarrow> bytes" where
  "fb_serialize (Bloom bf) = 0 # bf_serialize bf"

fun fb_deserialize :: "bytes \<Rightarrow> filter_block flush_result" where
  "fb_deserialize [] = Inl (CorruptedData ''filter block is empty'')"
| "fb_deserialize (tag # data) =
     (if tag = 0 then bind_res (bf_deserialize data) (\<lambda>bf. Inr (Bloom bf))
      else Inl (CorruptedData ''unknown filter block type''))"

section \<open>Dedup block (dedup\_block.rs)\<close>

definition hash_token :: "idempotency_token \<Rightarrow> bytes" where
  "hash_token t = (let (h1, h2) = murmurhash3_x64_128 (token_data t) 0x42 in to_le_bytes 8 h1 @ to_le_bytes 8 h2)"

type_synonym dedup_builder = "bytes set"

definition db_add :: "idempotency_token \<Rightarrow> dedup_builder \<Rightarrow> dedup_builder" where
  "db_add t b = (if token_is_none t then b else insert (hash_token t) b)"

definition db_add_all :: "idempotency_token list \<Rightarrow> dedup_builder \<Rightarrow> dedup_builder" where
  "db_add_all ts b = fold db_add ts b"

record dedup_block =
  dedup_hashes :: "bytes list"

definition db_build :: "dedup_builder \<Rightarrow> dedup_block" where
  "db_build b = \<lparr>dedup_hashes = sorted_list_of_set b\<rparr>"

definition dedup_contains_token :: "dedup_block \<Rightarrow> idempotency_token \<Rightarrow> bool" where
  "dedup_contains_token d t =
     (if token_is_none t then False
      else case binary_search_by (\<lambda>h. cmp h (hash_token t)) (dedup_hashes d) of Inr _ \<Rightarrow> True | Inl _ \<Rightarrow> False)"

definition dedup_serialize :: "dedup_block \<Rightarrow> bytes" where
  "dedup_serialize d = to_le_bytes 4 (of_nat (length (dedup_hashes d)) :: u32) @ concat (dedup_hashes d)"

definition dedup_deserialize :: "bytes \<Rightarrow> dedup_block flush_result" where
  "dedup_deserialize data =
     (if length data < 4 then Inl (CorruptedData ''dedup block too short'')
      else let cnt = unat (from_le_bytes (slice_of 0 4 data) :: u32); hash_data = drop 4 data
           in if length hash_data mod 16 \<noteq> 0 then Inl (CorruptedData ''dedup block size not aligned to 16-byte hashes'')
              else if length hash_data div 16 \<noteq> cnt then Inl (CorruptedData ''dedup block count mismatch'')
              else Inr \<lparr>dedup_hashes = map (\<lambda>i. slice_of (i * 16) (i * 16 + 16) hash_data) [0..<cnt]\<rparr>)"

section \<open>The filter has no false negatives\<close>

definition bloom_set :: "bytes \<Rightarrow> nat \<Rightarrow> bool" where
  "bloom_set bits i \<longleftrightarrow> bit (bits ! (i div 8)) (i mod 8)"

lemma and_push_bit_1: "n < 8 \<Longrightarrow> (b :: u8) AND push_bit n 1 = 0 \<longleftrightarrow> \<not> bit b n"
proof -
  assume n: "n < 8"
  have "bit (b AND push_bit n 1) i \<longleftrightarrow> i = n \<and> bit b n" for i
    using n by (auto simp: bit_and_iff bit_exp_iff)
  then show ?thesis by (metis bit_0_eq bit_eqI bot_apply bot_bool_def)
qed

lemmas and_exp = and_push_bit_1 [simplified]

lemma bloom_probe_iff:
  "bloom_probe bf h ks \<longleftrightarrow> (\<forall>k \<in> set ks. bloom_set (bf_bits bf) (bloom_index h (bf_num_bits bf) k))"
  by (induction ks) (auto simp: Let_def bloom_set_def and_exp)

lemma set_bloom_bit_spec:
  assumes "bloom_index h nb k < 8 * length bits"
  shows "length (set_bloom_bit h nb k bits) = length bits"
    and "bloom_set (set_bloom_bit h nb k bits) i \<longleftrightarrow> bloom_set bits i \<or> i = bloom_index h nb k"
proof -
  let ?j = "bloom_index h nb k"
  have j: "?j div 8 < length bits" using assms by simp
  show "length (set_bloom_bit h nb k bits) = length bits" by (simp add: set_bloom_bit_def Let_def)
  have same: "i mod 8 = ?j mod 8 \<longleftrightarrow> i = ?j" if "i div 8 = ?j div 8" using that by (metis div_mult_mod_eq)
  show "bloom_set (set_bloom_bit h nb k bits) i \<longleftrightarrow> bloom_set bits i \<or> i = ?j"
  proof (cases "i div 8 = ?j div 8")
    case True
    have "i mod 8 < 8" by simp
    then show ?thesis using j True same [OF True] by (auto simp: set_bloom_bit_def Let_def bloom_set_def bit_or_iff bit_exp_iff)
  next
    case False
    then have "i \<noteq> ?j" by auto
    with False j show ?thesis by (simp add: set_bloom_bit_def Let_def bloom_set_def)
  qed
qed

lemma fold_set_bloom_bit:
  assumes "\<And>k. bloom_index h nb k < 8 * length bits"
  shows "length (fold (set_bloom_bit h nb) ks bits) = length bits
    \<and> (\<forall>i. bloom_set (fold (set_bloom_bit h nb) ks bits) i \<longleftrightarrow> bloom_set bits i \<or> i \<in> bloom_index h nb ` set ks)"
  using assms
proof (induction ks arbitrary: bits)
  case (Cons k ks)
  note s = set_bloom_bit_spec [OF Cons.prems [of k]]
  have "\<And>k'. bloom_index h nb k' < 8 * length (set_bloom_bit h nb k bits)" using Cons.prems s(1) by simp
  from Cons.IH [OF this] s show ?case by auto
qed simp

lemma fold_set_bloom_bits:
  assumes "\<And>h k. bloom_index h nb k < 8 * length bits"
  shows "length (fold (set_bloom_bits nb m) rids bits) = length bits
    \<and> (\<forall>i. bloom_set (fold (set_bloom_bits nb m) rids bits) i \<longleftrightarrow>
          bloom_set bits i \<or> (\<exists>rid \<in> set rids. \<exists>k < m. i = bloom_index (murmurhash3_x64_128 rid 0) nb k))"
  using assms
proof (induction rids arbitrary: bits)
  case (Cons rid rids)
  have s: "length (set_bloom_bits nb m rid bits) = length bits
    \<and> (\<forall>i. bloom_set (set_bloom_bits nb m rid bits) i \<longleftrightarrow>
          bloom_set bits i \<or> (\<exists>k < m. i = bloom_index (murmurhash3_x64_128 rid 0) nb k))"
    using fold_set_bloom_bit [OF Cons.prems, of "murmurhash3_x64_128 rid 0" "[0..<m]"] by (auto simp: set_bloom_bits_def)
  have "\<And>h k. bloom_index h nb k < 8 * length (set_bloom_bits nb m rid bits)" using Cons.prems s by simp
  from Cons.IH [OF this] s show ?case by auto
qed simp

lemma unat_and_not_7: "unat ((x :: u64) AND NOT 7) = unat x div 8 * 8"
proof -
  have m: "(7 :: u64) = mask 3" by (simp add: mask_eq_exp_minus_1)
  have "(x AND NOT 7) + take_bit 3 x = x" unfolding m take_bit_eq_mask
    by (subst disjunctive_add) (auto simp: bit_eq_iff bit_and_iff bit_or_iff bit_not_iff)
  moreover have "unat (take_bit 3 x) = unat x mod 8"
    using unsigned_take_bit_eq [of 3 x, where 'a = nat] by (simp only: take_bit_eq_mod) simp
  moreover have "take_bit 3 x \<le> x" using calculation(2) by (simp add: word_le_nat_alt)
  ultimately have "unat (x AND NOT 7) = unat x - unat x mod 8"
    by (metis add_diff_cancel_right' unat_sub)
  then show ?thesis by (simp add: minus_mod_eq_div_mult)
qed

lemma unat_of_nat_u64: "n < 2 ^ 64 \<Longrightarrow> unat (of_nat n :: u64) = n"
  by (simp add: unat_of_nat take_bit_eq_mod)

lemma bloom_num_bits:
  assumes "n < 2 ^ 32"
  shows "unat ((max (of_nat n * ucast (b :: u32)) 64 + 7 :: u64) AND NOT 7) = (max (n * unat b) 64 + 7) div 8 * 8"
proof -
  have "unat b < 2 ^ 32" using unsigned_less [of b] by simp
  then have b: "unat b \<le> 2 ^ 32 - 1" by simp
  have "n * unat b \<le> (2 ^ 32 - 1) * (2 ^ 32 - 1)" by (rule mult_le_mono) (use assms b in simp_all)
  then have p: "n * unat b + 7 < 2 ^ 64" by simp
  have un: "unat (of_nat n :: u64) = n" using assms by (simp add: unat_of_nat_u64)
  have ub: "unat (ucast b :: u64) = unat b" by (simp add: unsigned_ucast_eq take_bit_nat_eq_self order_less_le_trans [OF unsigned_less])
  have m: "unat (of_nat n * ucast b :: u64) = n * unat b"
    by (subst unat_mult_lem [THEN iffD1]) (use p in \<open>simp_all add: un ub\<close>)
  have mx: "unat (max (of_nat n * ucast b) 64 :: u64) = max (n * unat b) 64"
    by (simp add: max_def word_le_nat_alt m)
  have "unat (max (of_nat n * ucast b) 64 + 7 :: u64) = max (n * unat b) 64 + 7"
  proof (subst unat_add_lem [THEN iffD1])
    have "max (n * unat b) 64 + 7 < 2 ^ 64" using p by (simp add: max_def)
    then show "unat (max (of_nat n * ucast b) 64 :: u64) + unat (7 :: u64) < 2 ^ LENGTH(64)"
      unfolding mx by simp
    show "unat (max (of_nat n * ucast b) 64 :: u64) + unat (7 :: u64) = max (n * unat b) 64 + 7" unfolding mx by simp
  qed
  then show ?thesis by (simp only: unat_and_not_7)
qed

text \<open>What a filter answers: a record is reported when each of its probe positions is a probe position
  of a record that was added.\<close>

definition bloom_hit :: "bloom_filter \<Rightarrow> bytes set \<Rightarrow> bytes \<Rightarrow> bool" where
  "bloom_hit bf rids rid \<longleftrightarrow>
     (\<forall>k < unat (bf_num_hash_functions bf). \<exists>r \<in> rids. \<exists>j < unat (bf_num_hash_functions bf).
        bloom_index (murmurhash3_x64_128 rid 0) (bf_num_bits bf) k = bloom_index (murmurhash3_x64_128 r 0) (bf_num_bits bf) j)"

lemma bloom_hit_added: "rid \<in> rids \<Longrightarrow> bloom_hit bf rids rid"
  by (auto simp: bloom_hit_def)

lemma bl_build_exact:
  assumes "finite (bl_record_ids b)" and "card (bl_record_ids b) < 2 ^ 32" and "bl_record_ids b \<noteq> {}"
  shows "bf_maybe_contains (bl_build b) rid \<longleftrightarrow> bloom_hit (bl_build b) (bl_record_ids b) rid"
    and "unat (bf_num_bits (bl_build b)) = length (bf_bits (bl_build b)) * 8"
    and "0 < unat (bf_num_hash_functions (bl_build b))"
proof -
  let ?n = "card (bl_record_ids b)" and ?rids = "sorted_list_of_set (bl_record_ids b)"
  define nb where "nb = ((max (of_nat ?n * ucast (bl_bits_per_key b)) 64 + 7 :: u64) AND NOT 7)"
  define m where "m = max (times_ln2 (nb div of_nat ?n)) 1"
  define bits where "bits = fold (set_bloom_bits nb (unat m)) ?rids (replicate (unat nb div 8) 0)"
  have nz: "(of_nat ?n :: u64) \<noteq> 0" using of_nat_u64_eq_0 [of ?n] assms by simp
  have bld: "bl_build b = \<lparr>bf_bits = bits, bf_num_bits = nb, bf_num_hash_functions = m, bf_num_keys = of_nat ?n\<rparr>"
    using nz by (simp only: bl_build_def Let_def if_False nb_def m_def bits_def)
  have u: "unat nb = (max (?n * unat (bl_bits_per_key b)) 64 + 7) div 8 * 8"
    unfolding nb_def using assms(2) by (rule bloom_num_bits)
  then have nb8: "unat nb div 8 * 8 = unat nb" "0 < unat nb" by auto
  have idx: "bloom_index h nb k < unat nb" for h k
    unfolding bloom_index_def unat_mod_distrib using nb8(2) by simp
  then have idx8: "bloom_index h nb k < 8 * length (replicate (unat nb div 8) (0 :: u8))" for h k
    using nb8(1) by (simp add: mult.commute)
  note f = fold_set_bloom_bits [OF idx8, of "unat m" ?rids, folded bits_def]
  have "\<not> bloom_set (replicate (unat nb div 8) 0) (bloom_index h nb k)" for h k
    using idx8 [of h k] by (simp add: bloom_set_def)
  then have "bloom_set bits (bloom_index h nb k) \<longleftrightarrow>
      (\<exists>r \<in> bl_record_ids b. \<exists>j < unat m. bloom_index h nb k = bloom_index (murmurhash3_x64_128 r 0) nb j)" for h k
    using f assms(1) by simp
  then show "bf_maybe_contains (bl_build b) rid \<longleftrightarrow> bloom_hit (bl_build b) (bl_record_ids b) rid"
    using nz by (simp add: bld bf_maybe_contains_def bloom_probe_iff bloom_hit_def Ball_def)
  show "unat (bf_num_bits (bl_build b)) = length (bf_bits (bl_build b)) * 8" using f nb8(1) by (simp add: bld)
  have "1 \<le> m" by (simp add: m_def)
  then show "0 < unat (bf_num_hash_functions (bl_build b))" by (simp add: bld word_le_nat_alt)
qed

lemma bl_build_contains:
  assumes "finite (bl_record_ids b)" and "card (bl_record_ids b) < 2 ^ 32"
  shows "bf_maybe_contains (bl_build b) rid \<or> rid \<notin> bl_record_ids b"
    and "unat (bf_num_bits (bl_build b)) \<le> length (bf_bits (bl_build b)) * 8"
  using bl_build_exact [OF assms] bloom_hit_added
  by (cases "bl_record_ids b = {}"; auto simp: bl_build_def)+

lemma bl_build_empty: "bl_record_ids b = {} \<Longrightarrow> \<not> bf_maybe_contains (bl_build b) rid"
  by (simp add: bf_maybe_contains_def bl_build_def)

lemma bf_deserialize_serialize:
  "unat (bf_num_bits bf) \<le> length (bf_bits bf) * 8 \<Longrightarrow> bf_deserialize (bf_serialize bf) = Inr bf"
  by (simp add: bf_deserialize_def bf_serialize_def Let_def from_to_le_bytes not_less slice_of_def drop_append)

text \<open>The Bloom filter never hides a record. A filter built over fewer than \<open>2 ^ 32\<close> record ids, whatever
  the bits per key, and read back from its serialized form answers \<open>maybe_contains\<close> for each of them, and
  answers no for every record when it was built from none; a lookup never leaves the bit array.\<close>

lemma bloom_no_false_negatives:
  assumes "finite (bl_record_ids b)" and "card (bl_record_ids b) < 2 ^ 32"
  shows "\<exists>f. fb_deserialize (fb_serialize (Bloom (bl_build b))) = Inr f
     \<and> (\<forall>rid \<in> bl_record_ids b. fb_maybe_contains f rid)
     \<and> (bl_record_ids b = {} \<longrightarrow> (\<forall>rid. \<not> fb_maybe_contains f rid))
     \<and> unat (bf_num_bits (bl_build b)) \<le> 8 * length (bf_bits (bl_build b))"
  using bl_build_contains [OF assms] bf_deserialize_serialize [of "bl_build b"]
    bl_build_empty [of b] by (auto simp: mult.commute)

section \<open>The dedup block answers exactly by hash\<close>

lemma length_hash_token [simp]: "length (hash_token t) = 16"
  by (simp add: hash_token_def case_prod_beta)

lemma db_add_all_eq: "db_add_all ts b = hash_token ` {t \<in> set ts. \<not> token_is_none t} \<union> b"
  unfolding db_add_all_def by (induction ts arbitrary: b) (auto simp: db_add_def)

lemma slices_concat:
  "\<forall>x \<in> set xs. length x = n \<Longrightarrow> map (\<lambda>i. slice_of (i * n) (i * n + n) (concat xs)) [0..<length xs] = xs"
proof (induction xs)
  case (Cons x xs)
  have "map (\<lambda>i. slice_of (i * n) (i * n + n) (concat (x # xs))) [0..<length (x # xs)]
    = slice_of 0 n (x @ concat xs) # map (\<lambda>i. slice_of (Suc i * n) (Suc i * n + n) (x @ concat xs)) [0..<length xs]"
    by (simp only: length_Cons upt_conv_Cons zero_less_Suc map_Suc_upt [symmetric] list.map map_map o_def concat.simps) simp
  then show ?case using Cons by (simp add: slice_of_def)
qed simp

lemma length_concat_const: "\<forall>x \<in> set xs. length x = n \<Longrightarrow> length (concat xs) = length xs * n"
  by (induction xs) auto

lemma dedup_deserialize_serialize:
  assumes "\<forall>h \<in> set (dedup_hashes d). length h = 16" and "length (dedup_hashes d) < 2 ^ 32"
  shows "dedup_deserialize (dedup_serialize d) = Inr d"
proof -
  have "unat (of_nat (length (dedup_hashes d)) :: u32) = length (dedup_hashes d)"
    using assms(2) by (simp add: unat_of_nat take_bit_eq_mod)
  then show ?thesis
    using slices_concat [OF assms(1)] length_concat_const [OF assms(1)]
    by (simp add: dedup_deserialize_def dedup_serialize_def from_to_le_bytes Let_def)
qed

lemma dedup_contains_build:
  "finite b \<Longrightarrow> dedup_contains_token (db_build b) t \<longleftrightarrow> \<not> token_is_none t \<and> hash_token t \<in> b"
proof -
  assume fin: "finite b"
  let ?f = "\<lambda>h. cmp h (hash_token t)" and ?hs = "sorted_list_of_set b"
  have "cmp_sorted ?f ?hs"
    by (rule cmp_sortedI [of "(<)"]) (auto intro: less_trans)
  from binary_search_by_spec [OF this]
  have "(\<exists>i. binary_search_by ?f ?hs = Inr i) \<longleftrightarrow> hash_token t \<in> set ?hs"
    by (cases "binary_search_by ?f ?hs") (auto simp: in_set_conv_nth, metis less_irrefl not_le_imp_less)
  then show ?thesis using fin
    by (auto simp: dedup_contains_token_def db_build_def split: sum.splits)
qed

text \<open>Duplicate detection in SSTables. A dedup block built from the tokens of the entries and read back
  from its bytes reports exactly the non-empty tokens whose hash is the hash of one of them: every written
  token is found, the empty token never, and anything else only on a collision of the 128-bit hash.\<close>

lemma dedup_block_exact:
  assumes "length ts < 2 ^ 32"
  shows "\<exists>d. dedup_deserialize (dedup_serialize (db_build (db_add_all ts {}))) = Inr d
    \<and> (\<forall>t. dedup_contains_token d t \<longleftrightarrow>
        \<not> token_is_none t \<and> hash_token t \<in> hash_token ` {u \<in> set ts. \<not> token_is_none u})"
proof -
  let ?b = "hash_token ` {u \<in> set ts. \<not> token_is_none u}"
  have e: "db_add_all ts {} = ?b" by (simp add: db_add_all_eq)
  have fin: "finite ?b" by simp
  have "card ?b \<le> card (set ts)" by (rule order_trans [OF card_image_le]) (auto intro: card_mono)
  then have "card ?b < 2 ^ 32" using card_length [of ts] assms by linarith
  then have "dedup_deserialize (dedup_serialize (db_build ?b)) = Inr (db_build ?b)"
    using fin by (intro dedup_deserialize_serialize) (auto simp: db_build_def)
  then show ?thesis unfolding e using dedup_contains_build [OF fin] by blast
qed

end
