(* ===== verification/Sst_Index.thy ===== *)
theory Sst_Index
  imports Sst_Block
begin

text \<open>
  \<^verbatim>\<open>sstable/index_block.rs\<close> and \<^verbatim>\<open>sstable/footer.rs\<close>: the index of the data blocks by their first keys, the
  80-byte footer that locates the other parts of the file and summarises its key range, and the 16-byte
  header.
\<close>

section \<open>Index block (index\_block.rs)\<close>

record index_entry =
  ie_first_key :: composite_key
  ie_block_offset :: u64
  ie_block_size :: u32
  ie_uncompressed_size :: u32

record index_block =
  ib_entries :: "index_entry list"

type_synonym index_builder = "index_entry list"

definition ixb_add :: "composite_key \<Rightarrow> u64 \<Rightarrow> u32 \<Rightarrow> u32 \<Rightarrow> index_builder \<Rightarrow> index_builder" where
  "ixb_add first_key offset sz usz b =
     b @ [\<lparr>ie_first_key = first_key, ie_block_offset = offset, ie_block_size = sz, ie_uncompressed_size = usz\<rparr>]"

definition ixb_build :: "index_builder \<Rightarrow> index_block" where
  "ixb_build b = \<lparr>ib_entries = b\<rparr>"

definition find_block_index :: "index_block \<Rightarrow> composite_key \<Rightarrow> nat option" where
  "find_block_index ib key =
     (let pp = partition_point (\<lambda>e. as_bytes (ie_first_key e) \<le> as_bytes key) (ib_entries ib)
      in if pp = 0 then None else Some (pp - 1))"

definition find_block :: "index_block \<Rightarrow> composite_key \<Rightarrow> index_entry option" where
  "find_block ib key = map_option (\<lambda>i. ib_entries ib ! i) (find_block_index ib key)"

definition ib_get :: "index_block \<Rightarrow> nat \<Rightarrow> index_entry option" where
  "ib_get ib i = (if i < length (ib_entries ib) then Some (ib_entries ib ! i) else None)"

definition ib_block_count :: "index_block \<Rightarrow> nat" where
  "ib_block_count ib = length (ib_entries ib)"

definition ib_key_range :: "index_block \<Rightarrow> (composite_key \<times> composite_key) option" where
  "ib_key_range ib =
     (if ib_entries ib = [] then None
      else Some (ie_first_key (hd (ib_entries ib)), ie_first_key (last (ib_entries ib))))"

definition ib_overlaps :: "index_block \<Rightarrow> composite_key \<Rightarrow> composite_key \<Rightarrow> bool" where
  "ib_overlaps ib a b =
     (case ib_key_range ib of None \<Rightarrow> False
      | Some (index_min, index_max) \<Rightarrow>
          if as_bytes index_max < as_bytes a then False else if as_bytes b < as_bytes index_min then False else True)"

definition index_entry_bytes :: "index_entry \<Rightarrow> bytes" where
  "index_entry_bytes e = put_var (as_bytes (ie_first_key e)) @ to_le_bytes 8 (ie_block_offset e)
     @ to_le_bytes 4 (ie_block_size e) @ to_le_bytes 4 (ie_uncompressed_size e)"

definition ib_serialize :: "index_block \<Rightarrow> bytes" where
  "ib_serialize ib = to_le_bytes 4 (of_nat (length (ib_entries ib)) :: u32) @ concat (map index_entry_bytes (ib_entries ib))"

fun index_entries_from :: "nat \<Rightarrow> bytes \<Rightarrow> nat \<Rightarrow> index_entry list flush_result" where
  "index_entries_from 0 data pos = Inr []"
| "index_entries_from (Suc n) data pos =
     (if pos \<ge> length data then Inl (CorruptedData ''index block entry truncated'')
      else bind_res (decode_varint (drop pos data)) (\<lambda>(key_len, k).
        let pos = pos + k; kl = unat key_len
        in if pos + kl + 16 > length data then Inl (CorruptedData ''index block entry truncated'')
           else bind_res (ck_from_bytes (slice_of pos (pos + kl) data)) (\<lambda>first_key.
             let pos = pos + kl;
                 e = \<lparr>ie_first_key = first_key, ie_block_offset = from_le_bytes (slice_of pos (pos + 8) data),
                      ie_block_size = from_le_bytes (slice_of (pos + 8) (pos + 12) data),
                      ie_uncompressed_size = from_le_bytes (slice_of (pos + 12) (pos + 16) data)\<rparr>
             in bind_res (index_entries_from n data (pos + 16)) (\<lambda>es. Inr (e # es)))))"

definition ib_deserialize :: "bytes \<Rightarrow> index_block flush_result" where
  "ib_deserialize data =
     (if length data < 4 then Inl (CorruptedData ''index block too short'')
      else bind_res (index_entries_from (unat (from_le_bytes (slice_of 0 4 data) :: u32)) data 4) (\<lambda>es.
        Inr \<lparr>ib_entries = es\<rparr>))"

section \<open>Footer and header (footer.rs)\<close>

record sst_footer =
  ft_bloom_filter_offset :: u64
  ft_bloom_filter_size :: u32
  ft_index_block_offset :: u64
  ft_index_block_size :: u32
  ft_entry_count :: u64
  ft_min_key :: bytes
  ft_max_key :: bytes
  ft_compression_type :: compression_type
  ft_format_version :: u16
  ft_dedup_block_size :: u32

text \<open>The bytes 0 to 67, which the checksum covers.\<close>

definition footer_body :: "sst_footer \<Rightarrow> bytes" where
  "footer_body f = to_le_bytes 8 (ft_bloom_filter_offset f) @ to_le_bytes 4 (ft_bloom_filter_size f)
     @ to_le_bytes 8 (ft_index_block_offset f) @ to_le_bytes 4 (ft_index_block_size f)
     @ to_le_bytes 8 (ft_entry_count f) @ ft_min_key f @ ft_max_key f
     @ [compression_as_u8 (ft_compression_type f)] @ [0] @ to_le_bytes 2 (ft_format_version f)"

definition footer_encode :: "codecs \<Rightarrow> sst_footer \<Rightarrow> bytes" where
  "footer_encode E f = footer_body f @ to_le_bytes 4 (crc32 E (footer_body f)) @ to_le_bytes 4 SSTABLE_MAGIC
     @ to_le_bytes 4 (ft_dedup_block_size f)"

definition footer_decode :: "codecs \<Rightarrow> bytes \<Rightarrow> sst_footer flush_result" where
  "footer_decode E bs =
     (if length bs \<noteq> FOOTER_SIZE then Inl (CorruptedData ''footer must be exactly 80 bytes'')
      else if from_le_bytes (slice_of 72 76 bs) \<noteq> SSTABLE_MAGIC then Inl (CorruptedData ''invalid SSTable magic'')
      else let stored = from_le_bytes (slice_of 68 72 bs); computed = crc32 E (slice_of 0 68 bs)
           in if stored \<noteq> computed then Inl (CrcMismatch stored computed)
              else bind_res (compression_from_u8 (bs ! 64)) (\<lambda>c.
                Inr \<lparr>ft_bloom_filter_offset = from_le_bytes (slice_of 0 8 bs),
                     ft_bloom_filter_size = from_le_bytes (slice_of 8 12 bs),
                     ft_index_block_offset = from_le_bytes (slice_of 12 20 bs),
                     ft_index_block_size = from_le_bytes (slice_of 20 24 bs),
                     ft_entry_count = from_le_bytes (slice_of 24 32 bs),
                     ft_min_key = slice_of 32 48 bs, ft_max_key = slice_of 48 64 bs,
                     ft_compression_type = c, ft_format_version = from_le_bytes (slice_of 66 68 bs),
                     ft_dedup_block_size = from_le_bytes (slice_of 76 80 bs)\<rparr>))"

definition dedup_block_offset :: "sst_footer \<Rightarrow> u64" where
  "dedup_block_offset f = ft_bloom_filter_offset f - ucast (ft_dedup_block_size f)"

definition truncate_key :: "composite_key \<Rightarrow> bytes" where
  "truncate_key key =
     (let kb = as_bytes key; copy_len = min (length kb) MIN_MAX_KEY_TRUNCATION_LEN
      in take copy_len kb @ replicate (MIN_MAX_KEY_TRUNCATION_LEN - copy_len) 0)"

definition may_contain_key :: "sst_footer \<Rightarrow> composite_key \<Rightarrow> bool" where
  "may_contain_key f key =
     (let truncated = truncate_key key in truncated \<ge> ft_min_key f \<and> truncated \<le> ft_max_key f)"

record sst_header =
  hd_compression :: compression_type
  hd_entry_count :: u64

definition header_encode :: "sst_header \<Rightarrow> bytes" where
  "header_encode h = to_le_bytes 4 SSTABLE_MAGIC @ to_le_bytes 2 FORMAT_VERSION @ [compression_as_u8 (hd_compression h)]
     @ [0] @ to_le_bytes 8 (hd_entry_count h)"

definition header_decode :: "bytes \<Rightarrow> sst_header flush_result" where
  "header_decode bs =
     (if length bs \<noteq> HEADER_SIZE then Inl (CorruptedData ''header must be exactly 16 bytes'')
      else if from_le_bytes (slice_of 0 4 bs) \<noteq> SSTABLE_MAGIC then Inl (CorruptedData ''invalid SSTable header magic'')
      else bind_res (compression_from_u8 (bs ! 6)) (\<lambda>c.
        Inr \<lparr>hd_compression = c, hd_entry_count = from_le_bytes (slice_of 8 16 bs)\<rparr>))"

section \<open>Finding the block of a key\<close>

text \<open>Blocks in file order: first keys ascend, as the writer adds them.\<close>

definition index_sorted :: "index_block \<Rightarrow> bool" where
  "index_sorted ib \<longleftrightarrow> sorted (map ie_first_key (ib_entries ib))"

lemma find_block_index_sorted:
  assumes "index_sorted ib"
  shows "find_block_index ib key =
    (let n = length (filter (\<lambda>e. ie_first_key e \<le> key) (ib_entries ib)) in if n = 0 then None else Some (n - 1))"
proof -
  let ?p = "\<lambda>e. ie_first_key e \<le> key"
  have s: "sorted_wrt (\<lambda>a b. ie_first_key a \<le> ie_first_key b) (ib_entries ib)"
    using assms by (simp add: index_sorted_def sorted_wrt_map)
  have "partition_point ?p (ib_entries ib) = length (takeWhile ?p (ib_entries ib))"
    by (rule partition_point_sorted [OF s]) simp
  moreover have "takeWhile ?p (ib_entries ib) = filter ?p (ib_entries ib)"
    by (rule sorted_wrt_takeWhile_filter [OF s]) simp
  ultimately show ?thesis by (simp add: find_block_index_def less_eq_composite_key_def Let_def)
qed

lemma sorted_filter_le_nth:
  assumes "sorted ks" and "i < length ks"
  shows "ks ! i \<le> k \<longleftrightarrow> i < length (filter (\<lambda>x. x \<le> k) ks)"
proof -
  have s: "sorted_wrt (\<le>) ks" using assms(1) by simp
  have t: "takeWhile (\<lambda>x. x \<le> k) ks = filter (\<lambda>x. x \<le> k) ks"
    by (rule sorted_wrt_takeWhile_filter [OF s]) (rule order_trans)
  show ?thesis
  proof
    assume le: "ks ! i \<le> k"
    have "\<forall>j \<le> i. ks ! j \<le> k" using assms le by (auto simp: sorted_iff_nth_mono intro: order_trans)
    then have "\<not> length (takeWhile (\<lambda>x. x \<le> k) ks) \<le> i"
      using nth_length_takeWhile [of "\<lambda>x. x \<le> k" ks] assms(2) by (metis order_le_less_trans)
    then show "i < length (filter (\<lambda>x. x \<le> k) ks)" by (simp add: t)
  next
    assume "i < length (filter (\<lambda>x. x \<le> k) ks)"
    then show "ks ! i \<le> k" using nth_mem takeWhile_nth set_takeWhileD unfolding t [symmetric] by metis
  qed
qed

lemma find_block_index_iff:
  assumes "index_sorted ib"
  shows "find_block_index ib key = Some i \<longleftrightarrow>
     i < length (ib_entries ib) \<and> ie_first_key (ib_entries ib ! i) \<le> key
     \<and> (\<forall>j. i < j \<and> j < length (ib_entries ib) \<longrightarrow> key < ie_first_key (ib_entries ib ! j))"
proof -
  let ?ks = "map ie_first_key (ib_entries ib)" and ?n = "length (filter (\<lambda>e. ie_first_key e \<le> key) (ib_entries ib))"
  have n: "length (filter (\<lambda>x. x \<le> key) ?ks) = ?n" by (simp add: filter_map o_def)
  have nth: "ie_first_key (ib_entries ib ! j) \<le> key \<longleftrightarrow> j < ?n" if "j < length (ib_entries ib)" for j
    using sorted_filter_le_nth [of ?ks j key] assms that by (simp add: index_sorted_def n [symmetric])
  have le: "?n \<le> length (ib_entries ib)" by simp
  have "(i < length (ib_entries ib) \<and> ie_first_key (ib_entries ib ! i) \<le> key
      \<and> (\<forall>j. i < j \<and> j < length (ib_entries ib) \<longrightarrow> key < ie_first_key (ib_entries ib ! j))) \<longleftrightarrow> ?n = Suc i"
  proof
    assume *: "i < length (ib_entries ib) \<and> ie_first_key (ib_entries ib ! i) \<le> key
      \<and> (\<forall>j. i < j \<and> j < length (ib_entries ib) \<longrightarrow> key < ie_first_key (ib_entries ib ! j))"
    then have "i < ?n" using nth by blast
    moreover have "\<not> Suc i < ?n"
    proof
      assume "Suc i < ?n"
      then have l: "Suc i < length (ib_entries ib)" using le by linarith
      with \<open>Suc i < ?n\<close> nth have "ie_first_key (ib_entries ib ! Suc i) \<le> key" by blast
      moreover have "key < ie_first_key (ib_entries ib ! Suc i)" using * l by blast
      ultimately show False by simp
    qed
    ultimately show "?n = Suc i" by linarith
  next
    assume n1: "?n = Suc i"
    then have "i < length (ib_entries ib)" using le by linarith
    then show "i < length (ib_entries ib) \<and> ie_first_key (ib_entries ib ! i) \<le> key
      \<and> (\<forall>j. i < j \<and> j < length (ib_entries ib) \<longrightarrow> key < ie_first_key (ib_entries ib ! j))"
      using nth n1 by (auto simp: not_le [symmetric])
  qed
  then show ?thesis unfolding find_block_index_sorted [OF assms] Let_def by auto
qed

text \<open>The first key of each block of an index whose blocks hold the listed entries.\<close>

definition blocks_of :: "index_block \<Rightarrow> memtable_entry list list \<Rightarrow> bool" where
  "blocks_of ib bss \<longleftrightarrow> [] \<notin> set bss \<and> map ie_first_key (ib_entries ib) = map (\<lambda>bs. me_composite_key (hd bs)) bss"

lemma sorted_concat_blocks:
  assumes "sorted (map me_composite_key (concat bss))" and "i < j" and "j < length bss"
    and "a \<in> set (bss ! i)" and "b \<in> set (bss ! j)"
  shows "me_composite_key a \<le> me_composite_key b"
  using assms
proof (induction bss arbitrary: i j)
  case (Cons bs bss)
  obtain j' where j: "j = Suc j'" using Cons.prems(2) by (cases j) auto
  show ?case
  proof (cases i)
    case 0
    have "b \<in> set (concat bss)" using Cons.prems(3,5) j by (auto intro: nth_mem)
    then show ?thesis using Cons.prems(1,4) 0 by (auto simp: sorted_append)
  next
    case (Suc i')
    then show ?thesis using Cons.IH [of i' j'] Cons.prems j by (simp add: sorted_append)
  qed
qed simp

lemma blocks_index_sorted:
  assumes "blocks_of ib bss" and "sorted (map me_composite_key (concat bss))"
  shows "index_sorted ib"
  unfolding index_sorted_def sorted_wrt_iff_nth_less
proof (intro allI impI)
  fix i j assume ij: "i < j" "j < length (map ie_first_key (ib_entries ib))"
  have l: "map ie_first_key (ib_entries ib) = map (\<lambda>bs. me_composite_key (hd bs)) bss" using assms(1) by (simp add: blocks_of_def)
  then have j: "j < length bss" using ij(2) by (metis length_map)
  have "bss ! i \<noteq> []" "bss ! j \<noteq> []" using assms(1) ij(1) j unfolding blocks_of_def by (metis less_trans nth_mem)+
  then have "me_composite_key (hd (bss ! i)) \<le> me_composite_key (hd (bss ! j))"
    using sorted_concat_blocks [OF assms(2) ij(1) j] by simp
  then show "map ie_first_key (ib_entries ib) ! i \<le> map ie_first_key (ib_entries ib) ! j"
    unfolding l using ij(1) j by simp
qed

section \<open>Round trips\<close>

lemma index_entries_from_bytes:
  assumes "\<forall>e \<in> set es. ck_ok (ie_first_key e) \<and> length (as_bytes (ie_first_key e)) < 2 ^ 64"
    and "drop pos data = concat (map index_entry_bytes es) @ rest"
  shows "index_entries_from (length es) data pos = Inr es"
  using assms
proof (induction es arbitrary: pos)
  case (Cons e es)
  let ?k = "as_bytes (ie_first_key e)" and ?v = "encode_varint (of_nat (length (as_bytes (ie_first_key e))))"
  let ?t = "to_le_bytes 8 (ie_block_offset e) @ to_le_bytes 4 (ie_block_size e) @ to_le_bytes 4 (ie_uncompressed_size e)"
  have u: "unat (of_nat (length ?k) :: u64) = length ?k" using Cons.prems(1) by (simp add: unat_of_nat take_bit_eq_mod)
  have d0: "drop pos data = ?v @ ?k @ ?t @ concat (map index_entry_bytes es) @ rest"
    using Cons.prems(2) by (simp add: index_entry_bytes_def [of e] put_var_def)
  note d1 = drop_step [OF d0] note d2 = drop_step [OF d1] note d3 = drop_step [OF d2]
  have lt: "pos < length data" using drop_length [OF d0] by (cases ?v) auto
  have "?t \<noteq> []" by (simp add: to_le_bytes_def)
  then have bound: "pos + length ?v + length ?k + 16 \<le> length data" using drop_length [OF d2] by simp
  have key: "slice_of (pos + length ?v) (pos + length ?v + length ?k) data = ?k" using d1 by (simp add: slice_of_def)
  have sl: "slice_of (pos + length ?v + length ?k + a) (pos + length ?v + length ?k + b) data = slice_of a b ?t" if "a \<le> b" "b \<le> 16" for a b
  proof -
    have "drop (pos + length ?v + length ?k + a) data = drop a (?t @ concat (map index_entry_bytes es) @ rest)"
      using arg_cong [OF d2, of "drop a"] by (simp add: add.commute drop_drop)
    moreover have "length ?t = 16" by simp
    ultimately show ?thesis using that by (simp only: slice_of_def) (simp add: take_append del: append_assoc)
  qed
  have ok: "ck_from_bytes ?k = Inr (ie_first_key e)" using Cons.prems(1) by (simp add: ck_from_bytes_def ck_ok_def)
  have IH: "index_entries_from (length es) data (pos + length ?v + length ?k + 16) = Inr es"
    using Cons.IH [of "pos + length ?v + length ?k + 16"] Cons.prems(1) d3 by simp
  have "slice_of 0 8 ?t = to_le_bytes 8 (ie_block_offset e)" "slice_of 8 12 ?t = to_le_bytes 4 (ie_block_size e)"
    "slice_of 12 16 ?t = to_le_bytes 4 (ie_uncompressed_size e)" by simp_all
  then show ?case
    using lt bound sl [of 0 8] sl [of 8 12] sl [of 12 16] IH
    by (simp add: d0 decode_encode_varint Let_def u key ok from_to_le_bytes)
qed simp

lemma ib_deserialize_serialize:
  assumes "\<forall>e \<in> set (ib_entries ib). ck_ok (ie_first_key e) \<and> length (as_bytes (ie_first_key e)) < 2 ^ 64"
    and "length (ib_entries ib) < 2 ^ 32"
  shows "ib_deserialize (ib_serialize ib) = Inr ib"
proof -
  have "unat (of_nat (length (ib_entries ib)) :: u32) = length (ib_entries ib)"
    using assms(2) by (simp add: unat_of_nat take_bit_eq_mod)
  moreover have "index_entries_from (length (ib_entries ib)) (ib_serialize ib) 4 = Inr (ib_entries ib)"
    by (rule index_entries_from_bytes [OF assms(1), of _ _ "[]"]) (simp add: ib_serialize_def)
  ultimately show ?thesis by (simp add: ib_deserialize_def) (simp add: ib_serialize_def from_to_le_bytes)
qed

definition footer_ok :: "sst_footer \<Rightarrow> bool" where
  "footer_ok f \<longleftrightarrow> length (ft_min_key f) = 16 \<and> length (ft_max_key f) = 16"

lemma length_footer_body: "footer_ok f \<Longrightarrow> length (footer_body f) = 68"
  by (simp add: footer_body_def footer_ok_def)

lemma length_footer_encode: "footer_ok f \<Longrightarrow> length (footer_encode E f) = FOOTER_SIZE"
  by (simp add: footer_encode_def length_footer_body FOOTER_SIZE_def)

lemma slice_within: "b \<le> length xs \<Longrightarrow> slice_of a b (xs @ ys) = slice_of a b xs"
  by (simp add: slice_of_def)

lemma footer_fields:
  assumes "footer_ok f"
  shows "slice_of 0 8 (footer_body f) = to_le_bytes 8 (ft_bloom_filter_offset f)"
    "slice_of 8 12 (footer_body f) = to_le_bytes 4 (ft_bloom_filter_size f)"
    "slice_of 12 20 (footer_body f) = to_le_bytes 8 (ft_index_block_offset f)"
    "slice_of 20 24 (footer_body f) = to_le_bytes 4 (ft_index_block_size f)"
    "slice_of 24 32 (footer_body f) = to_le_bytes 8 (ft_entry_count f)"
    "slice_of 32 48 (footer_body f) = ft_min_key f"
    "slice_of 48 64 (footer_body f) = ft_max_key f"
    "slice_of 66 68 (footer_body f) = to_le_bytes 2 (ft_format_version f)"
    "footer_body f ! 64 = compression_as_u8 (ft_compression_type f)"
  using assms by (simp_all add: footer_body_def footer_ok_def nth_append slice_of_def)

lemma footer_decode_encode:
  assumes "footer_ok f"
  shows "footer_decode E (footer_encode E f) = Inr f"
proof -
  note l = length_footer_body [OF assms]
  have w: "b \<le> 68 \<Longrightarrow> slice_of a b (footer_encode E f) = slice_of a b (footer_body f)" for a b
    unfolding footer_encode_def by (rule slice_within) (simp add: l)
  have n: "footer_encode E f ! 64 = footer_body f ! 64" by (simp add: footer_encode_def nth_append l)
  have a: "slice_of 0 68 (footer_body f) = footer_body f" by (simp add: l)
  have t: "slice_of 68 72 (footer_encode E f) = to_le_bytes 4 (crc32 E (footer_body f))"
    "slice_of 72 76 (footer_encode E f) = to_le_bytes 4 SSTABLE_MAGIC"
    "slice_of 76 80 (footer_encode E f) = to_le_bytes 4 (ft_dedup_block_size f)"
    by (simp_all add: footer_encode_def l slice_append_skip)
  show ?thesis
    by (simp add: footer_decode_def length_footer_encode [OF assms] Let_def w n t a footer_fields [OF assms] from_to_le_bytes)
qed

lemma header_decode_encode: "header_decode (header_encode h) = Inr h"
  by (simp add: header_decode_def header_encode_def HEADER_SIZE_def from_to_le_bytes nth_append slice_of_def)

lemma length_header_encode: "length (header_encode h) = HEADER_SIZE"
  by (simp add: header_encode_def HEADER_SIZE_def)

section \<open>Truncated keys\<close>

definition pad_to :: "nat \<Rightarrow> bytes \<Rightarrow> bytes" where
  "pad_to n xs = take n xs @ replicate (n - length xs) 0"

lemma truncate_key_pad: "truncate_key k = pad_to 16 (as_bytes k)"
  by (simp add: truncate_key_def pad_to_def Let_def MIN_MAX_KEY_TRUNCATION_LEN_def min_def)

lemma length_truncate_key [simp]: "length (truncate_key k) = 16"
  by (simp add: truncate_key_pad pad_to_def)

lemma pad_to_simps [simp]: "pad_to 0 xs = []" "pad_to (Suc n) [] = 0 # pad_to n []" "pad_to (Suc n) (x # xs) = x # pad_to n xs"
  by (simp_all add: pad_to_def)

lemma pad_to_mono: "xs \<le> ys \<Longrightarrow> pad_to n xs \<le> pad_to n ys"
proof (induction n arbitrary: xs ys)
  case (Suc n)
  show ?case
  proof (cases xs)
    case Nil
    then show ?thesis
    proof (cases ys)
      case (Cons y ys')
      then show ?thesis using Nil Suc.IH [of "[]" ys'] word_gt_0 [of y] by (cases "y = 0") auto
    qed simp
  next
    case (Cons x xs')
    then obtain y ys' where ys: "ys = y # ys'" using Suc.prems by (cases ys) (auto simp: list_le_def)
    then show ?thesis using Cons Suc.prems Suc.IH [of xs' ys'] by auto
  qed
qed simp

lemma truncate_key_mono: "a \<le> b \<Longrightarrow> truncate_key a \<le> truncate_key b"
  by (simp add: truncate_key_pad less_eq_composite_key_def pad_to_mono)

lemma may_contain_key_range:
  "ft_min_key f = truncate_key lo \<Longrightarrow> ft_max_key f = truncate_key hi \<Longrightarrow> lo \<le> k \<Longrightarrow> k \<le> hi \<Longrightarrow> may_contain_key f k"
  by (simp add: may_contain_key_def Let_def truncate_key_mono)

text \<open>SSTable footers. An encoded footer is 80 bytes and decodes to itself; a decode succeeds only on 80
  bytes with the magic number and a matching checksum. The truncated key range never excludes a key between
  the smallest and the largest key of the file. The checksum does not cover the size of the dedup
  block: replacing those four bytes goes unnoticed.\<close>

lemma footer_roundtrip:
  assumes "footer_ok f"
  shows "length (footer_encode E f) = FOOTER_SIZE \<and> footer_decode E (footer_encode E f) = Inr f
    \<and> (\<forall>bs g. footer_decode E bs = Inr g \<longrightarrow> length bs = FOOTER_SIZE
         \<and> from_le_bytes (slice_of 72 76 bs) = SSTABLE_MAGIC \<and> from_le_bytes (slice_of 68 72 bs) = crc32 E (slice_of 0 68 bs))
    \<and> (\<forall>lo hi k. ft_min_key f = truncate_key lo \<and> ft_max_key f = truncate_key hi \<and> lo \<le> k \<and> k \<le> hi \<longrightarrow> may_contain_key f k)
    \<and> footer_decode E (take 76 (footer_encode E f) @ to_le_bytes 4 n) = Inr (f\<lparr>ft_dedup_block_size := n\<rparr>)"
proof (intro conjI)
  show "length (footer_encode E f) = FOOTER_SIZE" by (rule length_footer_encode [OF assms])
  show "footer_decode E (footer_encode E f) = Inr f" by (rule footer_decode_encode [OF assms])
  show "\<forall>bs g. footer_decode E bs = Inr g \<longrightarrow> length bs = FOOTER_SIZE
         \<and> from_le_bytes (slice_of 72 76 bs) = SSTABLE_MAGIC \<and> from_le_bytes (slice_of 68 72 bs) = crc32 E (slice_of 0 68 bs)"
    by (auto simp: footer_decode_def Let_def split: if_splits)
  show "\<forall>lo hi k. ft_min_key f = truncate_key lo \<and> ft_max_key f = truncate_key hi \<and> lo \<le> k \<and> k \<le> hi \<longrightarrow> may_contain_key f k"
    using may_contain_key_range by blast
  have "footer_body (f\<lparr>ft_dedup_block_size := n\<rparr>) = footer_body f" by (simp add: footer_body_def)
  then have "take 76 (footer_encode E f) @ to_le_bytes 4 n = footer_encode E (f\<lparr>ft_dedup_block_size := n\<rparr>)"
    by (simp add: footer_encode_def length_footer_body [OF assms])
  then show "footer_decode E (take 76 (footer_encode E f) @ to_le_bytes 4 n) = Inr (f\<lparr>ft_dedup_block_size := n\<rparr>)"
    using footer_decode_encode [of "f\<lparr>ft_dedup_block_size := n\<rparr>"] assms by (simp add: footer_ok_def)
qed

definition sample_footer :: sst_footer where
  "sample_footer = \<lparr>ft_bloom_filter_offset = 100, ft_bloom_filter_size = 29, ft_index_block_offset = 129,
     ft_index_block_size = 40, ft_entry_count = 3, ft_min_key = truncate_key (CompositeKey [1, 0, 5]),
     ft_max_key = truncate_key (CompositeKey [1, 0, 9]), ft_compression_type = Snappy, ft_format_version = 1,
     ft_dedup_block_size = 20\<rparr>"

end
