(* ===== verification/Storage.thy ===== *)
theory Storage
  imports Flush_Types "HOL-Library.AList" "HOL-Library.Char_ord"
begin

text \<open>
  \<^verbatim>\<open>storage_backend.rs\<close> and \<^verbatim>\<open>local_fs_backend.rs\<close>: the object store under SSTables and manifests. The trait
  \<^verbatim>\<open>StorageBackend\<close> is the locale \<open>object_store\<close>, its doc comments the laws; \<^verbatim>\<open>LocalFsBackend\<close> is its
  interpretation on a directory tree given as the list of relative file paths with their contents. Writes
  are atomic (a temporary file is renamed, or created exclusively); failures of the file system other
  than a missing or an existing file are not modelled.
\<close>

type_synonym objects = "(string \<times> bytes) list"

definition fs_put :: "string \<Rightarrow> bytes \<Rightarrow> objects \<Rightarrow> objects" where
  "fs_put key val objs = AList.update key val objs"

definition fs_get :: "string \<Rightarrow> objects \<Rightarrow> bytes flush_result" where
  "fs_get key objs = (case map_of objs key of Some data \<Rightarrow> Inr data | None \<Rightarrow> Inl (NotFound key))"

definition fs_get_range :: "string \<Rightarrow> u64 \<Rightarrow> u64 \<Rightarrow> objects \<Rightarrow> bytes flush_result" where
  "fs_get_range key offset len objs =
     (case map_of objs key of
        None \<Rightarrow> Inl (NotFound key)
      | Some data \<Rightarrow>
          if len = 0 then Inr []
          else let file_size = length data
               in if unat offset \<ge> file_size then Inl (Io ''offset is at or beyond file size'')
                  else let available = file_size - unat offset; to_read = min (unat len) available
                       in Inr (take to_read (drop (unat offset) data)))"

definition fs_delete :: "string \<Rightarrow> objects \<Rightarrow> objects" where
  "fs_delete key objs = AList.delete key objs"

definition fs_conditional_put :: "string \<Rightarrow> bytes \<Rightarrow> objects \<Rightarrow> objects flush_result" where
  "fs_conditional_put key val objs =
     (case map_of objs key of
        Some _ \<Rightarrow> Inl (PreconditionFailed ''key already exists'')
      | None \<Rightarrow> Inr (AList.update key val objs))"

definition starts_with :: "'a list \<Rightarrow> 'a list \<Rightarrow> bool" where
  "starts_with p s \<longleftrightarrow> take (length p) s = p"

definition path_file_name :: "string \<Rightarrow> string" where
  "path_file_name key = rev (takeWhile (\<lambda>c. c \<noteq> CHR ''/'') (rev key))"

definition collect_keys :: "objects \<Rightarrow> string list" where
  "collect_keys objs = filter (\<lambda>k. \<not> starts_with ''.tmp.'' (path_file_name k)) (map fst objs)"

definition fs_list_prefix :: "string \<Rightarrow> objects \<Rightarrow> string list" where
  "fs_list_prefix prefix objs = sort (filter (starts_with prefix) (collect_keys objs))"

section \<open>The contract of the trait\<close>

locale object_store =
  fixes put :: "'k \<Rightarrow> bytes \<Rightarrow> 's \<Rightarrow> 's"
    and get :: "'k \<Rightarrow> 's \<Rightarrow> bytes flush_result"
    and get_range :: "'k \<Rightarrow> u64 \<Rightarrow> u64 \<Rightarrow> 's \<Rightarrow> bytes flush_result"
    and del :: "'k \<Rightarrow> 's \<Rightarrow> 's"
    and conditional_put :: "'k \<Rightarrow> bytes \<Rightarrow> 's \<Rightarrow> 's flush_result"
  assumes get_put: "get k (put k' v s) = (if k = k' then Inr v else get k s)"
    and get_delete: "k \<noteq> k' \<Longrightarrow> get k (del k' s) = get k s"
    and get_deleted: "\<exists>e. get k (del k s) = Inl e"
    and conditional_put_ok: "conditional_put k v s = Inr s' \<longleftrightarrow> (\<exists>e. get k s = Inl e) \<and> s' = put k v s"
    and get_range_found: "get k s = Inr d \<Longrightarrow> unat off < length d \<Longrightarrow>
        get_range k off len s = Inr (slice_of (unat off) (unat off + unat len) d)"
begin

lemma conditional_put_wins_once:
  "conditional_put k v s = Inr s' \<Longrightarrow> get k s' = Inr v \<and> (\<forall>w s''. conditional_put k w s' \<noteq> Inr s'')"
  by (auto simp: conditional_put_ok get_put)

lemma conditional_put_frame: "conditional_put k v s = Inr s' \<Longrightarrow> k' \<noteq> k \<Longrightarrow> get k' s' = get k' s"
  by (auto simp: conditional_put_ok get_put)

lemma get_range_put:
  "unat off + n \<le> length d \<Longrightarrow> 0 < n \<Longrightarrow> n = unat len \<Longrightarrow>
   get_range k off len (put k d s) = Inr (slice_of (unat off) (unat off + n) d)"
  by (rule get_range_found [of k _ d, THEN trans]) (simp_all add: get_put)

end

interpretation fs: object_store fs_put fs_get fs_get_range fs_delete fs_conditional_put
proof unfold_locales
  show "fs_get k (fs_put k' v s) = (if k = k' then Inr v else fs_get k s)" for k k' v s
    by (simp add: fs_get_def fs_put_def update_conv')
  show "fs_get k (fs_delete k' s) = fs_get k s" if "k \<noteq> k'" for k k' s
    using that by (simp add: fs_get_def fs_delete_def delete_conv')
  show "\<exists>e. fs_get k (fs_delete k s) = Inl e" for k s
    by (simp add: fs_get_def fs_delete_def delete_conv')
  show "fs_conditional_put k v s = Inr s' \<longleftrightarrow> (\<exists>e. fs_get k s = Inl e) \<and> s' = fs_put k v s" for k v s s'
    by (auto simp: fs_conditional_put_def fs_get_def fs_put_def split: option.splits)
  show "fs_get_range k off len s = Inr (slice_of (unat off) (unat off + unat len) d)"
    if "fs_get k s = Inr d" "unat off < length d" for k s d off len
    using that by (auto simp: fs_get_def fs_get_range_def Let_def slice_of_def min_def unat_eq_0 split: option.splits)
qed

lemma list_prefix_spec:
  "set (fs_list_prefix p s) = {k \<in> fst ` set s. starts_with p k \<and> \<not> starts_with ''.tmp.'' (path_file_name k)}
   \<and> sorted (fs_list_prefix p s)"
  by (auto simp: fs_list_prefix_def collect_keys_def)

end
