(* ===== verification/Sst_File.thy ===== *)
theory Sst_File
  imports Sst_Filter Sst_Index Storage
begin

text \<open>
  \<^verbatim>\<open>sstable/writer.rs\<close> and \<^verbatim>\<open>sstable/reader.rs\<close>: an SSTable file is a header, the data blocks, the dedup block,
  the filter, the index and the footer, written in one put to the object store and read back by ranges.
  The store is the list of objects of \<^verbatim>\<open>Storage\<close>. Lengths stored in 32 bits are truncated as the code's casts
  do.
\<close>

section \<open>Writing (writer.rs)\<close>

record sst_info =
  si_path :: string
  si_entry_count :: u64
  si_file_size :: u64
  si_min_key :: composite_key
  si_max_key :: composite_key
  si_bloom_filter_offset :: u64
  si_bloom_filter_size :: u32
  si_index_block_offset :: u64
  si_index_block_size :: u32
  si_dedup_block_size :: u32
  si_compression :: compression_type

record write_state =
  ws_output :: bytes
  ws_block_builder :: block_builder
  ws_bloom_builder :: bloom_builder
  ws_dedup_builder :: dedup_builder
  ws_index_builder :: index_builder
  ws_entry_count :: u64
  ws_min_key :: "composite_key option"
  ws_max_key :: "composite_key option"

definition ws_new :: "sst_config \<Rightarrow> write_state" where
  "ws_new config = \<lparr>ws_output = replicate HEADER_SIZE 0, ws_block_builder = bb_new (block_size_target config),
     ws_bloom_builder = bl_new (bloom_bits_per_key config), ws_dedup_builder = {}, ws_index_builder = [],
     ws_entry_count = 0, ws_min_key = None, ws_max_key = None\<rparr>"

definition ws_track_key :: "composite_key \<Rightarrow> write_state \<Rightarrow> write_state" where
  "ws_track_key key ws =
     ws\<lparr>ws_min_key := (case ws_min_key ws of None \<Rightarrow> Some key | Some k \<Rightarrow> Some k), ws_max_key := Some key,
        ws_entry_count := ws_entry_count ws + 1\<rparr>"

definition flush_block :: "codecs \<Rightarrow> sst_config \<Rightarrow> write_state \<Rightarrow> write_state flush_result" where
  "flush_block E config ws =
     (let block_offset = of_nat (length (ws_output ws))
      in bind_res (bb_finish E (sst_compression config) (ws_block_builder ws)) (\<lambda>finished.
         Inr (ws\<lparr>ws_block_builder := bb_new (block_size_target config),
                 ws_output := ws_output ws @ fb_data finished,
                 ws_index_builder := ixb_add (fb_first_key finished) block_offset
                   (of_nat (length (fb_data finished))) (fb_uncompressed_size finished) (ws_index_builder ws),
                 ws_bloom_builder := bl_add_all (fb_record_ids finished) (ws_bloom_builder ws),
                 ws_dedup_builder := db_add_all (fb_idempotency_tokens finished) (ws_dedup_builder ws)\<rparr>)))"

definition ws_add :: "codecs \<Rightarrow> sst_config \<Rightarrow> memtable_entry \<Rightarrow> write_state \<Rightarrow> write_state flush_result" where
  "ws_add E config e ws =
     (let ws = ws\<lparr>ws_block_builder := bb_add e (ws_block_builder ws)\<rparr>;
          ws = ws_track_key (me_composite_key e) ws
      in if bb_is_full (ws_block_builder ws) then flush_block E config ws else Inr ws)"

fun write_loop :: "codecs \<Rightarrow> sst_config \<Rightarrow> memtable_entry list \<Rightarrow> write_state \<Rightarrow> write_state flush_result" where
  "write_loop E config [] ws = Inr ws"
| "write_loop E config (e # es) ws = bind_res (ws_add E config e ws) (write_loop E config es)"

definition sst_footer_of :: "sst_config \<Rightarrow> write_state \<Rightarrow> bytes \<Rightarrow> bytes \<Rightarrow> bytes \<Rightarrow> sst_footer" where
  "sst_footer_of config ws dedup_bytes filter_bytes index_bytes =
     (let bloom_offset = length (ws_output ws) + length dedup_bytes; index_offset = bloom_offset + length filter_bytes
      in \<lparr>ft_bloom_filter_offset = of_nat bloom_offset, ft_bloom_filter_size = of_nat (length filter_bytes),
          ft_index_block_offset = of_nat index_offset, ft_index_block_size = of_nat (length index_bytes),
          ft_entry_count = ws_entry_count ws, ft_min_key = truncate_key (the (ws_min_key ws)),
          ft_max_key = truncate_key (the (ws_max_key ws)), ft_compression_type = sst_compression config,
          ft_format_version = FORMAT_VERSION, ft_dedup_block_size = of_nat (length dedup_bytes)\<rparr>)"

definition sst_finish ::
  "codecs \<Rightarrow> sst_config \<Rightarrow> string \<Rightarrow> write_state \<Rightarrow> objects \<Rightarrow> (sst_info \<times> objects) flush_result" where
  "sst_finish E config path ws objs =
     (if ws_entry_count ws = 0 then Inl (InvalidArgument ''cannot write empty SSTable'')
      else bind_res (if bb_is_empty (ws_block_builder ws) then Inr ws else flush_block E config ws) (\<lambda>ws.
        let dedup_bytes = dedup_serialize (db_build (ws_dedup_builder ws));
            filter_bytes = fb_serialize (Bloom (bl_build (ws_bloom_builder ws)));
            index_bytes = ib_serialize (ixb_build (ws_index_builder ws));
            footer = sst_footer_of config ws dedup_bytes filter_bytes index_bytes;
            output = ws_output ws @ dedup_bytes @ filter_bytes @ index_bytes @ footer_encode E footer;
            header = \<lparr>hd_compression = sst_compression config, hd_entry_count = ws_entry_count ws\<rparr>;
            output = header_encode header @ drop HEADER_SIZE output
        in Inr (\<lparr>si_path = path, si_entry_count = ws_entry_count ws, si_file_size = of_nat (length output),
                 si_min_key = the (ws_min_key ws), si_max_key = the (ws_max_key ws),
                 si_bloom_filter_offset = ft_bloom_filter_offset footer, si_bloom_filter_size = ft_bloom_filter_size footer,
                 si_index_block_offset = ft_index_block_offset footer, si_index_block_size = ft_index_block_size footer,
                 si_dedup_block_size = ft_dedup_block_size footer, si_compression = sst_compression config\<rparr>,
                fs_put path output objs)))"

definition sst_write ::
  "codecs \<Rightarrow> sst_config \<Rightarrow> string \<Rightarrow> memtable_entry list \<Rightarrow> objects \<Rightarrow> (sst_info \<times> objects) flush_result" where
  "sst_write E config path es objs =
     bind_res (write_loop E config es (ws_new config)) (\<lambda>ws. sst_finish E config path ws objs)"

text \<open>\<^verbatim>\<open>write_entries\<close> rewrites block entries: a blob reference becomes an empty value and the tokens are
  left out.\<close>

definition me_of_be :: "block_entry \<Rightarrow> memtable_entry" where
  "me_of_be b = me_with_sequence (be_composite_key b)
     (case be_value b of Inline v \<Rightarrow> v | BlobRef _ _ _ \<Rightarrow> []) (be_metadata b) token_none (be_sequence_number b) (be_entry_type b)"

definition sst_write_entries ::
  "codecs \<Rightarrow> sst_config \<Rightarrow> string \<Rightarrow> block_entry list \<Rightarrow> objects \<Rightarrow> (sst_info \<times> objects) flush_result" where
  "sst_write_entries E config path bes objs =
     bind_res (write_loop E config (map me_of_be bes) (ws_new config)) (\<lambda>ws. sst_finish E config path ws objs)"

section \<open>Reading (reader.rs)\<close>

record sst_reader =
  sr_path :: string
  sr_file_size :: u64
  sr_footer :: sst_footer
  sr_filter :: "filter_block option"
  sr_index :: "index_block option"
  sr_dedup :: "dedup_block option"

definition sst_open :: "codecs \<Rightarrow> string \<Rightarrow> u64 \<Rightarrow> objects \<Rightarrow> sst_reader flush_result" where
  "sst_open E path file_size objs =
     (let footer_offset = file_size - of_nat FOOTER_SIZE
      in bind_res (fs_get_range path footer_offset (of_nat FOOTER_SIZE) objs) (\<lambda>footer_bytes.
         bind_res (footer_decode E footer_bytes) (\<lambda>footer.
         Inr \<lparr>sr_path = path, sr_file_size = file_size, sr_footer = footer, sr_filter = None, sr_index = None, sr_dedup = None\<rparr>)))"

definition load_metadata :: "sst_reader \<Rightarrow> objects \<Rightarrow> sst_reader flush_result" where
  "load_metadata r objs =
     (let f = sr_footer r
      in bind_res (fs_get_range (sr_path r) (ft_bloom_filter_offset f) (ucast (ft_bloom_filter_size f)) objs) (\<lambda>filter_bytes.
         bind_res (fb_deserialize filter_bytes) (\<lambda>filt.
         bind_res (fs_get_range (sr_path r) (ft_index_block_offset f) (ucast (ft_index_block_size f)) objs) (\<lambda>index_bytes.
         bind_res (ib_deserialize index_bytes) (\<lambda>idx.
         bind_res (fs_get_range (sr_path r) (dedup_block_offset f) (ucast (ft_dedup_block_size f)) objs) (\<lambda>dedup_bytes.
         bind_res (dedup_deserialize dedup_bytes) (\<lambda>dd.
         Inr (r\<lparr>sr_filter := Some filt, sr_index := Some idx, sr_dedup := Some dd\<rparr>))))))))"

definition not_loaded :: flush_error where
  "not_loaded = InvalidArgument ''SSTable metadata not loaded''"

definition require_metadata :: "sst_reader \<Rightarrow> (filter_block \<times> index_block) flush_result" where
  "require_metadata r =
     bind_res (from_option not_loaded (sr_filter r)) (\<lambda>f.
     bind_res (from_option not_loaded (sr_index r)) (\<lambda>i. Inr (f, i)))"

definition sr_get :: "codecs \<Rightarrow> sst_reader \<Rightarrow> composite_key \<Rightarrow> objects \<Rightarrow> block_entry option flush_result" where
  "sr_get E r key objs =
     bind_res (require_metadata r) (\<lambda>(filt, idx).
       if \<not> may_contain_key (sr_footer r) key then Inr None
       else if \<not> fb_maybe_contains filt (record_id key) then Inr None
       else case find_block idx key of
              None \<Rightarrow> Inr None
            | Some e \<Rightarrow>
                bind_res (fs_get_range (sr_path r) (ie_block_offset e) (ucast (ie_block_size e)) objs) (\<lambda>raw.
                bind_res (decode_block E raw (ft_compression_type (sr_footer r))) (\<lambda>entries.
                Inr (find (\<lambda>b. be_composite_key b = key) entries))))"

definition sr_get_block :: "codecs \<Rightarrow> sst_reader \<Rightarrow> nat \<Rightarrow> objects \<Rightarrow> block_entry list flush_result" where
  "sr_get_block E r i objs =
     bind_res (from_option not_loaded (sr_index r)) (\<lambda>idx.
     bind_res (from_option (InvalidArgument ''block index out of range'') (ib_get idx i)) (\<lambda>e.
     bind_res (fs_get_range (sr_path r) (ie_block_offset e) (ucast (ie_block_size e)) objs) (\<lambda>raw.
     decode_block E raw (ft_compression_type (sr_footer r)))))"

text \<open>The two nested loops of \<^verbatim>\<open>scan\<close>. \<open>scan_entries\<close> walks one block and tells whether the end key was met;
  \<open>scan_blocks\<close> walks the block numbers, \<open>get\<close> being the read of a block and \<open>first\<close> its first key.\<close>

fun scan_entries :: "composite_key \<Rightarrow> composite_key option \<Rightarrow> block_entry list \<Rightarrow> block_entry list \<times> bool" where
  "scan_entries lo hi [] = ([], False)"
| "scan_entries lo hi (e # es) =
     (if be_composite_key e < lo then scan_entries lo hi es
      else if (case hi of None \<Rightarrow> False | Some h \<Rightarrow> h \<le> be_composite_key e) then ([], True)
      else let (r, done) = scan_entries lo hi es in (e # r, done))"

fun scan_blocks ::
  "(nat \<Rightarrow> block_entry list flush_result) \<Rightarrow> (nat \<Rightarrow> composite_key option) \<Rightarrow> nat \<Rightarrow> composite_key \<Rightarrow> composite_key option
    \<Rightarrow> nat list \<Rightarrow> block_entry list flush_result" where
  "scan_blocks get first start_idx lo hi [] = Inr []"
| "scan_blocks get first start_idx lo hi (i # is) =
     (if (case (hi, first i) of (Some h, Some k) \<Rightarrow> start_idx < i \<and> h \<le> k | _ \<Rightarrow> False) then Inr []
      else bind_res (get i) (\<lambda>entries.
        let (r, done) = scan_entries lo hi entries
        in if done then Inr r else bind_res (scan_blocks get first start_idx lo hi is) (\<lambda>rs. Inr (r @ rs))))"

definition sr_scan :: "codecs \<Rightarrow> sst_reader \<Rightarrow> composite_key \<Rightarrow> composite_key option \<Rightarrow> objects \<Rightarrow> block_entry list flush_result" where
  "sr_scan E r lo hi objs =
     bind_res (require_metadata r) (\<lambda>(filt, idx).
       let start_idx = (case find_block_index idx lo of None \<Rightarrow> 0 | Some i \<Rightarrow> i)
       in scan_blocks (\<lambda>i. sr_get_block E r i objs) (\<lambda>i. map_option ie_first_key (ib_get idx i)) start_idx lo hi
            [start_idx..<ib_block_count idx])"

definition sr_contains_record :: "sst_reader \<Rightarrow> bytes \<Rightarrow> bool flush_result" where
  "sr_contains_record r rid = bind_res (from_option not_loaded (sr_filter r)) (\<lambda>f. Inr (fb_maybe_contains f rid))"

definition sr_check_dedup :: "sst_reader \<Rightarrow> idempotency_token \<Rightarrow> bool flush_result" where
  "sr_check_dedup r t = bind_res (from_option not_loaded (sr_dedup r)) (\<lambda>d. Inr (dedup_contains_token d t))"

definition sr_key_range :: "sst_reader \<Rightarrow> (composite_key \<times> composite_key) option flush_result" where
  "sr_key_range r = bind_res (from_option not_loaded (sr_index r)) (\<lambda>idx. Inr (ib_key_range idx))"

definition sr_block_count :: "sst_reader \<Rightarrow> nat flush_result" where
  "sr_block_count r = bind_res (from_option not_loaded (sr_index r)) (\<lambda>idx. Inr (ib_block_count idx))"

text \<open>\<^verbatim>\<open>SstableIterator::next\<close>: the entries of the current block, then the next block; the loop ends because
  the block number grows up to the block count.\<close>

record sst_iter =
  it_block_idx :: nat
  it_entries :: "block_entry list"
  it_entry_idx :: nat

definition sst_iter_new :: sst_iter where
  "sst_iter_new = \<lparr>it_block_idx = 0, it_entries = [], it_entry_idx = 0\<rparr>"

function sst_iter_next :: "codecs \<Rightarrow> sst_reader \<Rightarrow> objects \<Rightarrow> sst_iter \<Rightarrow> (block_entry option \<times> sst_iter) flush_result" where
  "sst_iter_next E r objs it =
     (if it_entry_idx it < length (it_entries it)
      then Inr (Some (it_entries it ! it_entry_idx it), it\<lparr>it_entry_idx := it_entry_idx it + 1\<rparr>)
      else case sr_block_count r of
             Inl e \<Rightarrow> Inl e
           | Inr cnt \<Rightarrow>
               if it_block_idx it \<ge> cnt then Inr (None, it)
               else case sr_get_block E r (it_block_idx it) objs of
                      Inl e \<Rightarrow> Inl e
                    | Inr entries \<Rightarrow> sst_iter_next E r objs
                        (it\<lparr>it_entries := entries, it_entry_idx := 0, it_block_idx := it_block_idx it + 1\<rparr>))"
  by pat_completeness auto
termination
  by (relation "measure (\<lambda>(E, r, objs, it). (case sr_block_count r of Inr n \<Rightarrow> n | Inl _ \<Rightarrow> 0) - it_block_idx it)") auto

declare sst_iter_next.simps [simp del]

end
