(* ===== verification/Sst_Correct.thy ===== *)
theory Sst_Correct
  imports Sst_File
begin

text \<open>
  What the SSTable writer puts into a file is what the reader finds in it. \<open>sst_image\<close> describes a complete file
  by the blocks of entries it holds; the writer produces such an image for the blocks \<open>chunk\<close> cuts the
  input into, and point lookups and scans are computed from an image.
\<close>

section \<open>The writer's state\<close>

definition ix_matches :: "index_entry list \<Rightarrow> memtable_entry list list \<Rightarrow> bytes list \<Rightarrow> bool" where
  "ix_matches ix bss datas \<longleftrightarrow> length ix = length bss \<and> length datas = length bss
     \<and> (\<forall>i < length bss. ie_first_key (ix ! i) = me_composite_key (hd (bss ! i))
          \<and> ie_block_offset (ix ! i) = of_nat (16 + length (concat (take i datas)))
          \<and> ie_block_size (ix ! i) = of_nat (length (datas ! i)))"

definition datas_decode :: "codecs \<Rightarrow> compression_type \<Rightarrow> memtable_entry list list \<Rightarrow> bytes list \<Rightarrow> bool" where
  "datas_decode E c bss datas \<longleftrightarrow>
     list_all2 (\<lambda>bs d. bs \<noteq> [] \<and> decode_block E d c = Inr (map be_of bs)) bss datas"

definition token_hashes :: "memtable_entry list \<Rightarrow> bytes set" where
  "token_hashes es = hash_token ` {t \<in> me_idempotency_key ` set es. \<not> token_is_none t}"

definition bloom_of :: "sst_config \<Rightarrow> memtable_entry list \<Rightarrow> bloom_builder" where
  "bloom_of config es = \<lparr>bl_record_ids = me_rid ` set es, bl_bits_per_key = bloom_bits_per_key config\<rparr>"

definition ws_repr ::
  "codecs \<Rightarrow> sst_config \<Rightarrow> write_state \<Rightarrow> memtable_entry list list \<Rightarrow> bytes list \<Rightarrow> memtable_entry list \<Rightarrow> bool" where
  "ws_repr E config ws bss datas cur \<longleftrightarrow>
     datas_decode E (sst_compression config) bss datas
     \<and> ws_output ws = replicate 16 0 @ concat datas
     \<and> ix_matches (ws_index_builder ws) bss datas
     \<and> ws_bloom_builder ws = bloom_of config (concat bss)
     \<and> ws_dedup_builder ws = token_hashes (concat bss)
     \<and> bb_repr (ws_block_builder ws) cur \<and> bb_block_size_target (ws_block_builder ws) = block_size_target config
     \<and> ws_entry_count ws = of_nat (length (concat bss @ cur))
     \<and> ws_min_key ws = (if concat bss @ cur = [] then None else Some (me_composite_key (hd (concat bss @ cur))))
     \<and> ws_max_key ws = (if concat bss @ cur = [] then None else Some (me_composite_key (last (concat bss @ cur))))"

lemma ix_matches_snoc:
  assumes "ix_matches ix bss datas" and "fk = me_composite_key (hd bs)"
    and "off = of_nat (16 + length (concat datas))" and "sz = of_nat (length d)"
  shows "ix_matches (ixb_add fk off sz usz ix) (bss @ [bs]) (datas @ [d])"
  using assms by (auto simp: ix_matches_def ixb_add_def nth_append less_Suc_eq)

lemma token_hashes_append: "token_hashes (xs @ ys) = token_hashes xs \<union> token_hashes ys"
  by (auto simp: token_hashes_def)

lemma db_add_all_tokens:
  "db_add_all (filter (\<lambda>t. \<not> token_is_none t) (map me_idempotency_key es)) b = token_hashes es \<union> b"
proof -
  have "{t \<in> set (filter (\<lambda>t. \<not> token_is_none t) (map me_idempotency_key es)). \<not> token_is_none t}
    = {t \<in> me_idempotency_key ` set es. \<not> token_is_none t}" by auto
  then show ?thesis by (simp only: db_add_all_eq token_hashes_def)
qed

lemma ws_new_repr: "ws_repr E config (ws_new config) [] [] []"
  by (simp add: ws_repr_def ws_new_def datas_decode_def ix_matches_def bb_new_repr bl_new_def bloom_of_def token_hashes_def HEADER_SIZE_def)
     (simp add: bb_new_def)

lemma flush_block_repr:
  assumes "codecs_ok E" and "ws_repr E config ws bss datas cur" and "\<forall>e \<in> set cur. entry_ok e"
    and "flush_block E config ws = Inr ws'"
  shows "cur \<noteq> [] \<and> (\<exists>d. ws_repr E config ws' (bss @ [cur]) (datas @ [d]) [])"
proof -
  let ?bb = "ws_block_builder ws"
  have r: "bb_repr ?bb cur" using assms(2) by (simp add: ws_repr_def)
  obtain fb where fb: "bb_finish E (sst_compression config) ?bb = Inr fb"
    and ws': "ws' = ws\<lparr>ws_block_builder := bb_new (block_size_target config), ws_output := ws_output ws @ fb_data fb,
      ws_index_builder := ixb_add (fb_first_key fb) (of_nat (length (ws_output ws))) (of_nat (length (fb_data fb)))
        (fb_uncompressed_size fb) (ws_index_builder ws),
      ws_bloom_builder := bl_add_all (fb_record_ids fb) (ws_bloom_builder ws),
      ws_dedup_builder := db_add_all (fb_idempotency_tokens fb) (ws_dedup_builder ws)\<rparr>"
    using assms(4) by (auto simp: flush_block_def Let_def)
  have ne: "cur \<noteq> []" using fb r by (auto simp: bb_finish_def bb_repr_def split: if_splits)
  have parts: "fb_first_key fb = me_composite_key (hd cur)" "fb_record_ids fb = me_rid ` set cur"
    "fb_idempotency_tokens fb = filter (\<lambda>t. \<not> token_is_none t) (map me_idempotency_key cur)"
    using fb r ne by (auto simp: bb_finish_def bb_repr_def Let_def split: if_splits)
  have dec: "decode_block E (fb_data fb) (sst_compression config) = Inr (map be_of cur)"
    by (rule decode_finished_block [OF assms(1) r assms(3) fb])
  have ix: "ix_matches (ixb_add (fb_first_key fb) (of_nat (length (ws_output ws))) (of_nat (length (fb_data fb)))
      (fb_uncompressed_size fb) (ws_index_builder ws)) (bss @ [cur]) (datas @ [fb_data fb])"
    using assms(2) by (intro ix_matches_snoc) (simp_all add: ws_repr_def parts)
  have tk: "db_add_all (fb_idempotency_tokens fb) (ws_dedup_builder ws) = token_hashes (concat (bss @ [cur]))"
    using assms(2) by (simp add: ws_repr_def parts db_add_all_tokens token_hashes_append Un_commute)
  have "ws_repr E config ws' (bss @ [cur]) (datas @ [fb_data fb]) []"
    using assms(2) ix tk dec ne unfolding ws'
    by (auto simp: ws_repr_def datas_decode_def bb_new_repr bl_add_all_def bloom_of_def parts list_all2_appendI)
       (auto simp: bb_new_def)
  then show ?thesis using ne by blast
qed

section \<open>The blocks of a file\<close>

fun chunk :: "nat \<Rightarrow> memtable_entry list \<Rightarrow> memtable_entry list \<Rightarrow> memtable_entry list list" where
  "chunk target cur [] = (if cur = [] then [] else [cur])"
| "chunk target cur (e # es) =
     (if length (encode_entries None (cur @ [e])) \<ge> target then (cur @ [e]) # chunk target [] es
      else chunk target (cur @ [e]) es)"

lemma concat_chunk: "concat (chunk target cur es) = cur @ es"
  by (induction target cur es rule: chunk.induct) auto

lemma chunk_nonempty: "[] \<notin> set (chunk target cur es)"
  by (induction target cur es rule: chunk.induct) auto

lemma ws_add_repr:
  assumes "codecs_ok E" and "ws_repr E config ws bss datas cur" and "\<forall>x \<in> set (cur @ [e]). entry_ok x"
    and "ws_add E config e ws = Inr ws'"
  shows "\<exists>datas'. ws_repr E config ws'
      (if length (encode_entries None (cur @ [e])) \<ge> block_size_target config then bss @ [cur @ [e]] else bss) datas'
      (if length (encode_entries None (cur @ [e])) \<ge> block_size_target config then [] else cur @ [e])"
proof -
  let ?ws = "ws_track_key (me_composite_key e) (ws\<lparr>ws_block_builder := bb_add e (ws_block_builder ws)\<rparr>)"
  have r: "ws_repr E config ?ws bss datas (cur @ [e])"
    using assms(2) bb_add_repr [of "ws_block_builder ws" cur e]
    by (auto simp: ws_repr_def ws_track_key_def hd_append split: option.splits if_splits)
  have full: "bb_is_full (ws_block_builder ?ws) \<longleftrightarrow> length (encode_entries None (cur @ [e])) \<ge> block_size_target config"
    using r by (simp add: bb_is_full_def ws_repr_def bb_repr_def)
  show ?thesis
  proof (cases "bb_is_full (ws_block_builder ?ws)")
    case True
    then have "flush_block E config ?ws = Inr ws'" using assms(4) by (simp add: ws_add_def Let_def)
    from flush_block_repr [OF assms(1) r assms(3) this] True full show ?thesis by auto
  next
    case False
    then have "ws' = ?ws" using assms(4) by (simp add: ws_add_def Let_def)
    then show ?thesis using r False full by auto
  qed
qed

lemma write_loop_repr:
  assumes "codecs_ok E" and "ws_repr E config ws bss datas cur" and "\<forall>x \<in> set (cur @ es). entry_ok x"
    and "write_loop E config es ws = Inr ws'"
  shows "\<exists>bss' datas' cur'. ws_repr E config ws' bss' datas' cur' \<and> (\<forall>x \<in> set cur'. entry_ok x)
    \<and> bss' @ (if cur' = [] then [] else [cur']) = bss @ chunk (block_size_target config) cur es"
  using assms(2-4)
proof (induction es arbitrary: ws bss datas cur)
  case Nil
  then show ?case by auto
next
  case (Cons e es)
  let ?full = "length (encode_entries None (cur @ [e])) \<ge> block_size_target config"
  obtain ws1 where ws1: "ws_add E config e ws = Inr ws1" "write_loop E config es ws1 = Inr ws'"
    using Cons.prems(3) by auto
  obtain datas1 where r: "ws_repr E config ws1 (if ?full then bss @ [cur @ [e]] else bss) datas1 (if ?full then [] else cur @ [e])"
    using ws_add_repr [OF assms(1) Cons.prems(1) _ ws1(1)] Cons.prems(2) by auto
  from Cons.IH [OF r _ ws1(2)] Cons.prems(2) show ?case by (cases ?full) auto
qed

section \<open>Complete files\<close>

definition region :: "bytes \<Rightarrow> u64 \<Rightarrow> u32 \<Rightarrow> bytes \<Rightarrow> bool" where
  "region d off sz bs \<longleftrightarrow> unat off < length d \<and> slice_of (unat off) (unat off + unat sz) d = bs"

definition sst_image ::
  "codecs \<Rightarrow> bytes \<Rightarrow> sst_footer \<Rightarrow> filter_block \<Rightarrow> index_block \<Rightarrow> dedup_block \<Rightarrow> memtable_entry list list \<Rightarrow> bool" where
  "sst_image E d ft fb ib dd bss \<longleftrightarrow>
     80 \<le> length d \<and> length d < 2 ^ 32 \<and> bss \<noteq> [] \<and> [] \<notin> set bss
     \<and> footer_decode E (drop (length d - 80) d) = Inr ft
     \<and> ft_min_key ft = truncate_key (me_composite_key (hd (concat bss)))
     \<and> ft_max_key ft = truncate_key (me_composite_key (last (concat bss)))
     \<and> (\<exists>bs. region d (ft_bloom_filter_offset ft) (ft_bloom_filter_size ft) bs \<and> fb_deserialize bs = Inr fb)
     \<and> (\<exists>bs. region d (ft_index_block_offset ft) (ft_index_block_size ft) bs \<and> ib_deserialize bs = Inr ib)
     \<and> (\<exists>bs. region d (dedup_block_offset ft) (ft_dedup_block_size ft) bs \<and> dedup_deserialize bs = Inr dd)
     \<and> (\<forall>e \<in> set (concat bss). fb_maybe_contains fb (me_rid e))
     \<and> (\<forall>t. dedup_contains_token dd t \<longleftrightarrow> \<not> token_is_none t \<and> hash_token t \<in> token_hashes (concat bss))
     \<and> blocks_of ib bss
     \<and> (\<forall>i < length bss. \<exists>bs. region d (ie_block_offset (ib_entries ib ! i)) (ie_block_size (ib_entries ib ! i)) bs
          \<and> decode_block E bs (ft_compression_type ft) = Inr (map be_of (bss ! i)))"

lemma region_at:
  assumes "d = pre @ bs @ post" and "off = of_nat (length pre)" and "sz = of_nat (length bs)"
    and "length d < 2 ^ 32" and "post \<noteq> []"
  shows "region d off sz bs"
proof -
  have l: "length pre + length bs < 2 ^ 32" using assms(1,4) by simp
  then have "unat off = length pre" "unat sz = length bs"
    using assms(2,3) by (simp_all add: unat_of_nat take_bit_eq_mod)
  then show ?thesis using assms(1,5) by (simp add: region_def slice_of_def)
qed

lemma concat_take_nth: "i < length xs \<Longrightarrow> concat xs = concat (take i xs) @ xs ! i @ concat (drop (Suc i) xs)"
  by (metis append_take_drop_id concat.simps(2) concat_append Cons_nth_drop_Suc)

text \<open>The bytes of the finished file, part by part.\<close>

definition dedup_part :: "write_state \<Rightarrow> bytes" where
  "dedup_part ws = dedup_serialize (db_build (ws_dedup_builder ws))"

definition filter_part :: "write_state \<Rightarrow> bytes" where
  "filter_part ws = fb_serialize (Bloom (bl_build (ws_bloom_builder ws)))"

definition index_part :: "write_state \<Rightarrow> bytes" where
  "index_part ws = ib_serialize (ixb_build (ws_index_builder ws))"

definition footer_part :: "sst_config \<Rightarrow> write_state \<Rightarrow> sst_footer" where
  "footer_part config ws = sst_footer_of config ws (dedup_part ws) (filter_part ws) (index_part ws)"

definition file_bytes :: "codecs \<Rightarrow> sst_config \<Rightarrow> write_state \<Rightarrow> bytes list \<Rightarrow> bytes" where
  "file_bytes E config ws datas =
     header_encode \<lparr>hd_compression = sst_compression config, hd_entry_count = ws_entry_count ws\<rparr>
       @ concat datas @ dedup_part ws @ filter_part ws @ index_part ws @ footer_encode E (footer_part config ws)"

lemma footer_part_ok: "footer_ok (footer_part config ws)" "length (footer_encode E (footer_part config ws)) = 80"
proof -
  show ok: "footer_ok (footer_part config ws)" by (simp add: footer_part_def sst_footer_of_def footer_ok_def Let_def)
  show "length (footer_encode E (footer_part config ws)) = 80" using length_footer_encode [OF ok] by (simp add: FOOTER_SIZE_def)
qed

lemma length_hdr: "length (header_encode h) = 16"
  using length_header_encode by (simp add: HEADER_SIZE_def)

lemma sst_finish_flush:
  assumes "sst_finish E config path ws objs = Inr (info, objs')" and "\<And>ws1. F = Inr ws1 \<Longrightarrow> ws_output ws1 = replicate 16 0 @ concat (datas ws1)"
    and "F = (if bb_is_empty (ws_block_builder ws) then Inr ws else flush_block E config ws)"
  shows "ws_entry_count ws \<noteq> 0 \<and> (\<exists>ws1. F = Inr ws1 \<and> objs' = fs_put path (file_bytes E config ws1 (datas ws1)) objs
    \<and> si_file_size info = of_nat (length (file_bytes E config ws1 (datas ws1)))
    \<and> si_min_key info = the (ws_min_key ws1) \<and> si_max_key info = the (ws_max_key ws1))"
proof -
  have nz: "ws_entry_count ws \<noteq> 0" using assms(1) by (auto simp: sst_finish_def)
  obtain ws1 where ws1: "F = Inr ws1" using assms(1) unfolding sst_finish_def if_not_P [OF nz] bind_res_eq_Inr assms(3) by blast
  then show ?thesis using assms(1) nz assms(2) [OF ws1] unfolding sst_finish_def if_not_P [OF nz] assms(3) [symmetric] ws1
    by (auto simp: Let_def file_bytes_def footer_part_def dedup_part_def filter_part_def index_part_def HEADER_SIZE_def)
qed

lemma file_bytes_regions:
  assumes "length (file_bytes E config ws datas) < 2 ^ 32" and "ws_output ws = replicate 16 0 @ concat datas"
  shows "region (file_bytes E config ws datas) (ft_bloom_filter_offset (footer_part config ws))
      (ft_bloom_filter_size (footer_part config ws)) (filter_part ws)"
    and "region (file_bytes E config ws datas) (ft_index_block_offset (footer_part config ws))
      (ft_index_block_size (footer_part config ws)) (index_part ws)"
    and "region (file_bytes E config ws datas) (dedup_block_offset (footer_part config ws))
      (ft_dedup_block_size (footer_part config ws)) (dedup_part ws)"
    and "i < length datas \<Longrightarrow> region (file_bytes E config ws datas) (of_nat (16 + length (concat (take i datas))))
      (of_nat (length (datas ! i))) (datas ! i)"
proof -
  let ?d = "file_bytes E config ws datas" and ?ft = "footer_part config ws"
  let ?h = "header_encode \<lparr>hd_compression = sst_compression config, hd_entry_count = ws_entry_count ws\<rparr>"
  let ?f = "footer_encode E ?ft"
  have fne: "?f \<noteq> []" using footer_part_ok(2) [where E = E and config = config and ws = ws] by auto
  show "region ?d (ft_bloom_filter_offset ?ft) (ft_bloom_filter_size ?ft) (filter_part ws)"
    by (rule region_at [of _ "?h @ concat datas @ dedup_part ws" _ "index_part ws @ ?f"])
       (use fne assms in \<open>simp_all add: file_bytes_def footer_part_def sst_footer_of_def Let_def length_hdr\<close>)
  show "region ?d (ft_index_block_offset ?ft) (ft_index_block_size ?ft) (index_part ws)"
    by (rule region_at [of _ "?h @ concat datas @ dedup_part ws @ filter_part ws" _ ?f])
       (use fne assms in \<open>simp_all add: file_bytes_def footer_part_def sst_footer_of_def Let_def length_hdr\<close>)
  have "length (dedup_part ws) < 2 ^ 32" using assms(1) by (simp add: file_bytes_def)
  then have "(ucast (of_nat (length (dedup_part ws)) :: u32) :: u64) = of_nat (length (dedup_part ws))"
    by (simp add: word_unat_eq_iff unsigned_ucast_eq unat_of_nat take_bit_eq_mod)
  then have "dedup_block_offset ?ft = of_nat (16 + length (concat datas))"
    using assms(2) by (simp add: dedup_block_offset_def footer_part_def sst_footer_of_def Let_def)
  then show "region ?d (dedup_block_offset ?ft) (ft_dedup_block_size ?ft) (dedup_part ws)"
    by (intro region_at [of _ "?h @ concat datas" _ "filter_part ws @ index_part ws @ ?f"])
       (use fne assms in \<open>simp_all add: file_bytes_def footer_part_def sst_footer_of_def Let_def length_hdr\<close>)
  assume i: "i < length datas"
  show "region ?d (of_nat (16 + length (concat (take i datas)))) (of_nat (length (datas ! i))) (datas ! i)"
    by (rule region_at [of _ "?h @ concat (take i datas)" _ "concat (drop (Suc i) datas) @ dedup_part ws @ filter_part ws @ index_part ws @ ?f"])
       (use fne assms concat_take_nth [OF i] in \<open>simp_all add: file_bytes_def length_hdr\<close>)
qed

lemma sst_image_file_bytes:
  assumes "ws_repr E config ws bss datas []" and "\<forall>e \<in> set (concat bss). entry_ok e"
    and "length (concat bss) < 2 ^ 32" and "bss \<noteq> []" and small: "length (file_bytes E config ws datas) < 2 ^ 32"
  shows "\<exists>ib dd. sst_image E (file_bytes E config ws datas) (footer_part config ws)
    (Bloom (bl_build (bloom_of config (concat bss)))) ib dd bss"
proof -
  let ?d = "file_bytes E config ws datas" and ?ft = "footer_part config ws" and ?all = "concat bss"
  have out: "ws_output ws = replicate 16 0 @ concat datas" and ix: "ix_matches (ws_index_builder ws) bss datas"
    and dec: "datas_decode E (sst_compression config) bss datas" using assms(1) by (auto simp: ws_repr_def)
  note reg = file_bytes_regions [OF small out]
  have bne: "[] \<notin> set bss" using dec by (auto simp: datas_decode_def list_all2_conv_all_nth in_set_conv_nth)
  then have ne: "?all \<noteq> []" using assms(4) by (cases bss) auto
  have lb: "length bss \<le> length ?all" using bne
  proof (induction bss)
    case (Cons bs bss)
    then show ?case by (cases bs) auto
  qed simp
  let ?fb = "Bloom (bl_build (bloom_of config ?all))"
  have f: "fb_deserialize (filter_part ws) = Inr ?fb" "\<forall>e \<in> set ?all. fb_maybe_contains ?fb (me_rid e)"
  proof -
    have b: "ws_bloom_builder ws = bloom_of config ?all" using assms(1) by (simp add: ws_repr_def)
    have rids: "bl_record_ids (bloom_of config ?all) = me_rid ` set ?all" by (simp add: bloom_of_def)
    have "card (me_rid ` set ?all) \<le> length ?all" by (rule order_trans [OF card_image_le card_length]) simp
    then have c: "card (bl_record_ids (bloom_of config ?all)) < 2 ^ 32" unfolding rids using assms(3) by linarith
    have fin: "finite (bl_record_ids (bloom_of config ?all))" unfolding rids by simp
    note bl = bl_build_contains [OF fin c] bf_deserialize_serialize [of "bl_build (bloom_of config ?all)"]
    show "fb_deserialize (filter_part ws) = Inr ?fb" using bl(2,3) by (simp add: filter_part_def b)
    show "\<forall>e \<in> set ?all. fb_maybe_contains ?fb (me_rid e)" using bl(1) unfolding rids by auto
  qed
  have ib: "ib_deserialize (index_part ws) = Inr (ixb_build (ws_index_builder ws))"
    unfolding index_part_def
  proof (rule ib_deserialize_serialize)
    show "\<forall>e \<in> set (ib_entries (ixb_build (ws_index_builder ws))). ck_ok (ie_first_key e) \<and> length (as_bytes (ie_first_key e)) < 2 ^ 64"
    proof
      fix e assume "e \<in> set (ib_entries (ixb_build (ws_index_builder ws)))"
      then obtain i where i: "i < length bss" "ie_first_key e = me_composite_key (hd (bss ! i))"
        using ix by (auto simp: ixb_build_def ix_matches_def in_set_conv_nth)
      then have "hd (bss ! i) \<in> set ?all" using bne by (metis UN_iff hd_in_set nth_mem set_concat)
      then show "ck_ok (ie_first_key e) \<and> length (as_bytes (ie_first_key e)) < 2 ^ 64"
        using assms(2) i(2) by (auto simp: entry_ok_def)
    qed
    show "length (ib_entries (ixb_build (ws_index_builder ws))) < 2 ^ 32"
      using ix lb assms(3) by (simp add: ixb_build_def ix_matches_def)
  qed
  have dd: "\<exists>dd. dedup_deserialize (dedup_part ws) = Inr dd
      \<and> (\<forall>t. dedup_contains_token dd t \<longleftrightarrow> \<not> token_is_none t \<and> hash_token t \<in> token_hashes ?all)"
  proof -
    have b: "ws_dedup_builder ws = token_hashes ?all" using assms(1) by (simp add: ws_repr_def)
    have fin: "finite (token_hashes ?all)" by (simp add: token_hashes_def)
    have "card (token_hashes ?all) \<le> card (me_idempotency_key ` set ?all)"
      unfolding token_hashes_def by (rule order_trans [OF card_image_le]) (auto intro: card_mono)
    also have "\<dots> \<le> length ?all" by (rule order_trans [OF card_image_le card_length]) simp
    finally have c: "card (token_hashes ?all) < 2 ^ 32" using assms(3) by linarith
    have "dedup_deserialize (dedup_part ws) = Inr (db_build (token_hashes ?all))"
      unfolding dedup_part_def b using fin c
      by (intro dedup_deserialize_serialize) (auto simp: db_build_def token_hashes_def)
    then show ?thesis using dedup_contains_build [OF fin] by blast
  qed
  have ftd: "drop (length ?d - 80) ?d = footer_encode E ?ft"
    using footer_part_ok(2) [of E config ws] by (simp add: file_bytes_def)
  have blk: "region ?d (ie_block_offset (ws_index_builder ws ! i)) (ie_block_size (ws_index_builder ws ! i)) (datas ! i)
      \<and> decode_block E (datas ! i) (ft_compression_type ?ft) = Inr (map be_of (bss ! i))" if "i < length bss" for i
    using that ix reg(4) [of i] dec
    by (auto simp: ix_matches_def datas_decode_def list_all2_conv_all_nth footer_part_def sst_footer_of_def Let_def)
  have bo: "blocks_of (ixb_build (ws_index_builder ws)) bss"
    using ix bne by (auto simp: blocks_of_def ixb_build_def ix_matches_def intro: nth_equalityI)
  have keys: "ft_min_key ?ft = truncate_key (me_composite_key (hd ?all))" "ft_max_key ?ft = truncate_key (me_composite_key (last ?all))"
    using assms(1) ne by (auto simp: ws_repr_def footer_part_def sst_footer_of_def Let_def)
  have l80: "80 \<le> length ?d" using footer_part_ok(2) [of E config ws] by (simp add: file_bytes_def)
  from dd obtain dp where dp: "dedup_deserialize (dedup_part ws) = Inr dp"
    "\<forall>t. dedup_contains_token dp t \<longleftrightarrow> \<not> token_is_none t \<and> hash_token t \<in> token_hashes ?all" by blast
  have "sst_image E ?d ?ft ?fb (ixb_build (ws_index_builder ws)) dp bss"
    unfolding sst_image_def
  proof (intro conjI)
    show "footer_decode E (drop (length ?d - 80) ?d) = Inr ?ft" unfolding ftd by (rule footer_decode_encode [OF footer_part_ok(1)])
    show "\<forall>i < length bss. \<exists>bs. region ?d (ie_block_offset (ib_entries (ixb_build (ws_index_builder ws)) ! i))
        (ie_block_size (ib_entries (ixb_build (ws_index_builder ws)) ! i)) bs
        \<and> decode_block E bs (ft_compression_type ?ft) = Inr (map be_of (bss ! i))"
      using blk by (auto simp: ixb_build_def)
  qed (use small assms(4) bne keys reg(1-3) f ib dp bo l80 in blast)+
  then show ?thesis by blast
qed

lemma sst_write_image:
  assumes "codecs_ok E" and "\<forall>e \<in> set es. entry_ok e" and "length es < 2 ^ 32"
    and "sst_write E config path es objs = Inr (info, objs')"
  shows "es \<noteq> [] \<and> (\<exists>d. objs' = fs_put path d objs \<and> si_file_size info = of_nat (length d) \<and> 80 \<le> length d
    \<and> si_min_key info = me_composite_key (hd es) \<and> si_max_key info = me_composite_key (last es)
    \<and> (length d < 2 ^ 32 \<longrightarrow>
        (\<exists>ft ib dd. sst_image E d ft (Bloom (bl_build (bloom_of config es))) ib dd (chunk (block_size_target config) [] es))))"
proof -
  obtain ws where ws: "write_loop E config es (ws_new config) = Inr ws" "sst_finish E config path ws objs = Inr (info, objs')"
    using assms(4) by (auto simp: sst_write_def)
  obtain bss datas cur where r: "ws_repr E config ws bss datas cur" "\<forall>x \<in> set cur. entry_ok x"
      "bss @ (if cur = [] then [] else [cur]) = chunk (block_size_target config) [] es"
    using write_loop_repr [OF assms(1) ws_new_repr _ ws(1)] assms(2) by auto
  let ?bss = "chunk (block_size_target config) [] es"
  have es: "concat ?bss = es" by (simp add: concat_chunk)
  let ?F = "if bb_is_empty (ws_block_builder ws) then Inr ws else flush_block E config ws"
  have em: "bb_is_empty (ws_block_builder ws) \<longleftrightarrow> cur = []" using r(1) by (simp add: ws_repr_def bb_repr_def bb_is_empty_def)
  have F: "\<exists>datas. ws_repr E config ws1 ?bss datas []" if "?F = Inr ws1" for ws1
    using that em r flush_block_repr [OF assms(1) r(1,2), of ws1] by (cases "cur = []") auto
  define dt where "dt ws1 = (SOME datas. ws_repr E config ws1 ?bss datas [])" for ws1
  have dt: "ws_repr E config ws1 ?bss (dt ws1) []" if "?F = Inr ws1" for ws1 unfolding dt_def by (rule someI_ex [OF F [OF that]])
  have out: "ws_output ws1 = replicate 16 0 @ concat (dt ws1)" if "?F = Inr ws1" for ws1 using dt [OF that] by (simp add: ws_repr_def)
  from sst_finish_flush [OF ws(2) out refl] obtain ws1 where ws1: "ws_entry_count ws \<noteq> 0" "?F = Inr ws1"
      "objs' = fs_put path (file_bytes E config ws1 (dt ws1)) objs"
      "si_file_size info = of_nat (length (file_bytes E config ws1 (dt ws1)))"
      "si_min_key info = the (ws_min_key ws1)" "si_max_key info = the (ws_max_key ws1)" by blast
  note r1 = dt [OF ws1(2)]
  have ecs: "concat bss @ cur = es" using arg_cong [OF r(3), of concat] es by (simp split: if_splits)
  have ne: "es \<noteq> []" using ws1(1) r(1) unfolding ws_repr_def ecs by auto
  have bne: "?bss \<noteq> []" using ne es by (metis concat.simps(1))
  have keys: "si_min_key info = me_composite_key (hd es)" "si_max_key info = me_composite_key (last es)"
    using r1 ne ws1(5,6) unfolding ws_repr_def append_Nil2 es by simp_all
  have "80 \<le> length (file_bytes E config ws1 (dt ws1))"
    using footer_part_ok(2) [of E config ws1] by (simp add: file_bytes_def)
  then show ?thesis
    using sst_image_file_bytes [OF r1 _ _ bne] ws1 keys ne assms(2,3) unfolding es by blast
qed

section \<open>Reading an image\<close>

lemma get_range_region:
  "fs_get path objs = Inr d \<Longrightarrow> region d off sz bs \<Longrightarrow> fs_get_range path off (ucast sz) objs = Inr bs"
  using fs.get_range_found [of path objs d off "ucast sz"]
  by (simp add: region_def unsigned_ucast_eq take_bit_nat_eq_self order_less_le_trans [OF unsigned_less])

definition reader_of :: "string \<Rightarrow> bytes \<Rightarrow> sst_footer \<Rightarrow> filter_block \<Rightarrow> index_block \<Rightarrow> dedup_block \<Rightarrow> sst_reader" where
  "reader_of path d ft fb ib dd = \<lparr>sr_path = path, sr_file_size = of_nat (length d), sr_footer = ft,
     sr_filter = Some fb, sr_index = Some ib, sr_dedup = Some dd\<rparr>"

lemma footer_range:
  assumes "fs_get path objs = Inr d" and "80 \<le> length d" and "length d < 2 ^ 32"
  shows "fs_get_range path (of_nat (length d) - of_nat FOOTER_SIZE) (of_nat FOOTER_SIZE) objs = Inr (drop (length d - 80) d)"
proof -
  have "of_nat (length d) - of_nat FOOTER_SIZE = (of_nat (length d - 80) :: u64)"
    using assms(2) by (simp add: FOOTER_SIZE_def)
  moreover have "unat (of_nat (length d - 80) :: u64) = length d - 80"
    using assms(3) by (intro unat_of_nat_u64) simp
  ultimately show ?thesis
    using fs.get_range_found [OF assms(1), of "of_nat (length d) - of_nat FOOTER_SIZE" "of_nat FOOTER_SIZE"] assms(2)
    by (simp add: FOOTER_SIZE_def slice_of_def)
qed

lemma open_image:
  assumes "fs_get path objs = Inr d" and "sst_image E d ft fb ib dd bss"
  shows "\<exists>r. sst_open E path (of_nat (length d)) objs = Inr r \<and> load_metadata r objs = Inr (reader_of path d ft fb ib dd)"
proof -
  have f: "footer_decode E (drop (length d - 80) d) = Inr ft" "80 \<le> length d" "length d < 2 ^ 32"
    using assms(2) by (auto simp: sst_image_def)
  from assms(2) obtain b1 b2 b3 where
    b1: "region d (ft_bloom_filter_offset ft) (ft_bloom_filter_size ft) b1" "fb_deserialize b1 = Inr fb" and
    b2: "region d (ft_index_block_offset ft) (ft_index_block_size ft) b2" "ib_deserialize b2 = Inr ib" and
    b3: "region d (dedup_block_offset ft) (ft_dedup_block_size ft) b3" "dedup_deserialize b3 = Inr dd"
    unfolding sst_image_def by blast
  note g = get_range_region [OF assms(1) b1(1)] get_range_region [OF assms(1) b2(1)] get_range_region [OF assms(1) b3(1)]
  show ?thesis
    using footer_range [OF assms(1) f(2,3)] f(1) g b1(2) b2(2) b3(2)
    by (simp add: sst_open_def load_metadata_def reader_of_def Let_def)
qed

lemma fetch_image:
  assumes "fs_get path objs = Inr d" and "sst_image E d ft fb ib dd bss" and "i < length bss"
  shows "bind_res (fs_get_range path (ie_block_offset (ib_entries ib ! i)) (ucast (ie_block_size (ib_entries ib ! i))) objs)
      (\<lambda>raw. decode_block E raw (ft_compression_type ft)) = Inr (map be_of (bss ! i))"
proof -
  from assms(2,3) obtain bs where "region d (ie_block_offset (ib_entries ib ! i)) (ie_block_size (ib_entries ib ! i)) bs"
      "decode_block E bs (ft_compression_type ft) = Inr (map be_of (bss ! i))"
    unfolding sst_image_def by blast
  then show ?thesis using get_range_region [OF assms(1)] by simp
qed

lemma image_blocks:
  assumes "sst_image E d ft fb ib dd bss"
  shows "length (ib_entries ib) = length bss" and "[] \<notin> set bss"
    and "i < length bss \<Longrightarrow> ie_first_key (ib_entries ib ! i) = me_composite_key (hd (bss ! i)) \<and> bss ! i \<noteq> []"
proof -
  have b: "blocks_of ib bss" using assms by (simp add: sst_image_def)
  then have m: "map ie_first_key (ib_entries ib) = map (\<lambda>bs. me_composite_key (hd bs)) bss" and ne: "[] \<notin> set bss"
    by (auto simp: blocks_of_def)
  from m show l: "length (ib_entries ib) = length bss" by (metis length_map)
  show "[] \<notin> set bss" by (rule ne)
  show "ie_first_key (ib_entries ib ! i) = me_composite_key (hd (bss ! i)) \<and> bss ! i \<noteq> []" if "i < length bss"
    using arg_cong [OF m, of "\<lambda>xs. xs ! i"] that l ne by (auto dest: nth_mem)
qed

text \<open>The entry found for a key, and the entries of a range, in an SSTable whose keys are strictly
  ascending: those of the whole file.\<close>

definition strictly_sorted :: "memtable_entry list \<Rightarrow> bool" where
  "strictly_sorted es \<longleftrightarrow> sorted_wrt (\<lambda>a b. me_composite_key a < me_composite_key b) es"

lemma strictly_sorted_imp_sorted: "strictly_sorted es \<Longrightarrow> sorted (map me_composite_key es)"
  unfolding strictly_sorted_def by (auto simp: sorted_wrt_map intro: sorted_wrt_mono_rel [rotated] less_imp_le)

lemma strictly_sorted_blocks:
  assumes "strictly_sorted (concat bss)" and "i < j" and "j < length bss" and "a \<in> set (bss ! i)" and "b \<in> set (bss ! j)"
  shows "me_composite_key a < me_composite_key b"
  using assms
proof (induction bss arbitrary: i j)
  case (Cons bs bss)
  obtain j' where j: "j = Suc j'" using Cons.prems(2) by (cases j) auto
  show ?case
  proof (cases i)
    case 0
    have "b \<in> set (concat bss)" using Cons.prems(3,5) j by (auto intro: nth_mem)
    then show ?thesis using Cons.prems(1,4) 0 by (auto simp: strictly_sorted_def sorted_wrt_append)
  next
    case (Suc i')
    then show ?thesis using Cons.IH [of i' j'] Cons.prems j by (simp add: strictly_sorted_def sorted_wrt_append)
  qed
qed simp

text \<open>No key has versions in two blocks.\<close>

definition apart :: "memtable_entry list list \<Rightarrow> bool" where
  "apart bss \<longleftrightarrow> (\<forall>i j. i < j \<and> j < length bss \<longrightarrow>
     (\<forall>a \<in> set (bss ! i). \<forall>b \<in> set (bss ! j). me_composite_key a < me_composite_key b))"

lemma strictly_sorted_apart: "strictly_sorted (concat bss) \<Longrightarrow> apart bss"
  unfolding apart_def using strictly_sorted_blocks by blast

lemma in_concat_nth: "x \<in> set (concat xss) \<longleftrightarrow> (\<exists>i < length xss. x \<in> set (xss ! i))"
  by (simp add: Bex_def) (metis in_set_conv_nth)

lemma in_concat_take: "i \<le> length xss \<Longrightarrow> x \<in> set (concat (take i xss)) \<longleftrightarrow> (\<exists>j < i. x \<in> set (xss ! j))"
  unfolding in_concat_nth by auto

lemma in_concat_drop: "x \<in> set (concat (drop i xss)) \<longleftrightarrow> (\<exists>j. i \<le> j \<and> j < length xss \<and> x \<in> set (xss ! j))"
proof
  assume "x \<in> set (concat (drop i xss))"
  then obtain m where "m < length xss - i" "x \<in> set (drop i xss ! m)" unfolding in_concat_nth by auto
  then show "\<exists>j. i \<le> j \<and> j < length xss \<and> x \<in> set (xss ! j)" by (intro exI [of _ "i + m"]) simp
next
  assume "\<exists>j. i \<le> j \<and> j < length xss \<and> x \<in> set (xss ! j)"
  then obtain j where "i \<le> j" "j < length xss" "x \<in> set (xss ! j)" by blast
  then show "x \<in> set (concat (drop i xss))"
    unfolding in_concat_nth by (intro exI [of _ "j - i"]) simp
qed

lemma find_append_mid:
  "\<forall>x \<in> set xs. \<not> P x \<Longrightarrow> \<forall>x \<in> set zs. \<not> P x \<Longrightarrow> find P (xs @ ys @ zs) = find P ys"
proof -
  assume a: "\<forall>x \<in> set xs. \<not> P x" "\<forall>x \<in> set zs. \<not> P x"
  have "find P (xs @ ws) = find P ws" for ws using a(1) by (induction xs) auto
  moreover have "find P zs = None" using a(2) by (simp add: find_None_iff)
  then have "find P (ys @ zs) = find P ys" by (induction ys) auto
  ultimately show ?thesis by simp
qed

lemma block_hd_le:
  assumes "sorted (map me_composite_key (concat bss))" and "i < length bss" and "e \<in> set (bss ! i)"
  shows "me_composite_key (hd (bss ! i)) \<le> me_composite_key e"
proof -
  have "sorted (map me_composite_key (bss ! i))"
    using assms(1) concat_take_nth [OF assms(2)] by (metis map_append sorted_append)
  then show ?thesis using assms(3) by (cases "bss ! i") auto
qed

text \<open>The block the index names, in terms of the blocks: the last one whose first key is not above the
  key.\<close>

definition last_block :: "memtable_entry list list \<Rightarrow> composite_key \<Rightarrow> nat \<Rightarrow> bool" where
  "last_block bss k i \<longleftrightarrow> i < length bss \<and> me_composite_key (hd (bss ! i)) \<le> k
     \<and> (\<forall>j. i < j \<and> j < length bss \<longrightarrow> k < me_composite_key (hd (bss ! j)))"

lemma image_find_block_index:
  assumes "sst_image E d ft fb ib dd bss" and "sorted (map me_composite_key (concat bss))"
  shows "find_block_index ib k = Some i \<longleftrightarrow> last_block bss k i"
    and "find_block_index ib k = None \<longleftrightarrow> (\<forall>i < length bss. k < me_composite_key (hd (bss ! i)))"
proof -
  note b = image_blocks [OF assms(1)]
  have ixs: "index_sorted ib" using assms by (intro blocks_index_sorted [of _ bss]) (simp_all add: sst_image_def)
  show iff: "find_block_index ib k = Some i \<longleftrightarrow> last_block bss k i" for i
    unfolding find_block_index_iff [OF ixs] b(1) last_block_def using b(3) by auto
  show "find_block_index ib k = None \<longleftrightarrow> (\<forall>i < length bss. k < me_composite_key (hd (bss ! i)))"
  proof
    assume none: "find_block_index ib k = None"
    let ?S = "{i. i < length bss \<and> me_composite_key (hd (bss ! i)) \<le> k}"
    have fin: "finite ?S" by simp
    have "?S = {}"
    proof (rule ccontr)
      assume "?S \<noteq> {}"
      then have "Max ?S \<in> ?S" using Max_in [OF fin] by blast
      moreover have "k < me_composite_key (hd (bss ! j))" if "Max ?S < j \<and> j < length bss" for j
        using Max_ge [OF fin, of j] that by (auto simp: not_le [symmetric])
      ultimately have "last_block bss k (Max ?S)" by (simp add: last_block_def)
      then show False using none iff by simp
    qed
    then show "\<forall>i < length bss. k < me_composite_key (hd (bss ! i))" by (auto simp: not_le [symmetric])
  next
    assume "\<forall>i < length bss. k < me_composite_key (hd (bss ! i))"
    then have "\<not> last_block bss k i" for i by (auto simp: last_block_def)
    then show "find_block_index ib k = None" using iff by (cases "find_block_index ib k") auto
  qed
qed

lemma last_block_find:
  assumes srt: "sorted (map me_composite_key (concat bss))" and ap: "apart bss" and ne: "[] \<notin> set bss" and i: "last_block bss k i"
  shows "find (\<lambda>e. me_composite_key e = k) (concat bss) = find (\<lambda>e. me_composite_key e = k) (bss ! i)"
proof -
  have il: "i < length bss" "me_composite_key (hd (bss ! i)) \<le> k" using i by (auto simp: last_block_def)
  have bi: "bss ! i \<noteq> []" using ne nth_mem [OF il(1)] by metis
  have "\<forall>e \<in> set (concat (take i bss)). me_composite_key e \<noteq> k"
  proof
    fix e assume "e \<in> set (concat (take i bss))"
    then obtain j where "j < i" "e \<in> set (bss ! j)" using il(1) in_concat_take [of i bss e] by auto
    then have "me_composite_key e < me_composite_key (hd (bss ! i))" using ap il(1) bi by (simp add: apart_def)
    then show "me_composite_key e \<noteq> k" using il(2) by auto
  qed
  moreover have "\<forall>e \<in> set (concat (drop (Suc i) bss)). me_composite_key e \<noteq> k"
  proof
    fix e assume "e \<in> set (concat (drop (Suc i) bss))"
    then obtain j where j: "i < j" "j < length bss" "e \<in> set (bss ! j)" unfolding in_concat_drop Suc_le_eq by blast
    then have "k < me_composite_key (hd (bss ! j))" using i by (simp add: last_block_def)
    also have "\<dots> \<le> me_composite_key e" by (rule block_hd_le [OF srt j(2,3)])
    finally show "me_composite_key e \<noteq> k" by auto
  qed
  ultimately show ?thesis using concat_take_nth [OF il(1)] by (simp add: find_append_mid)
qed

lemma no_block_find:
  assumes "sorted (map me_composite_key (concat bss))" and "\<forall>i < length bss. k < me_composite_key (hd (bss ! i))"
  shows "find (\<lambda>e. me_composite_key e = k) (concat bss) = None"
  using assms block_hd_le [OF assms(1)] unfolding find_None_iff in_concat_nth by force

section \<open>Point lookups\<close>

lemma find_be_of: "find (\<lambda>b. be_composite_key b = k) (map be_of es) = map_option be_of (find (\<lambda>e. me_composite_key e = k) es)"
  by (induction es) (auto simp: be_of_def)

lemma sr_get_image:
  assumes "fs_get path objs = Inr d" and img: "sst_image E d ft fb ib dd bss" and srt: "sorted (map me_composite_key (concat bss))"
  shows "sr_get E (reader_of path d ft fb ib dd) k objs =
    Inr (if \<not> may_contain_key ft k \<or> \<not> fb_maybe_contains fb (record_id k) then None
         else case find_block_index ib k of None \<Rightarrow> None
              | Some i \<Rightarrow> map_option be_of (find (\<lambda>e. me_composite_key e = k) (bss ! i)))"
proof -
  let ?read = "\<lambda>i. fs_get_range path (ie_block_offset (ib_entries ib ! i)) (ucast (ie_block_size (ib_entries ib ! i))) objs"
  have "\<exists>raw. ?read i = Inr raw \<and> decode_block E raw (ft_compression_type ft) = Inr (map be_of (bss ! i))"
    if "find_block_index ib k = Some i" for i
  proof -
    have "i < length bss" using that image_find_block_index(1) [OF img srt] by (simp add: last_block_def)
    from fetch_image [OF assms(1) img this] show ?thesis by simp
  qed
  then show ?thesis
    by (cases "find_block_index ib k")
       (fastforce simp: sr_get_def reader_of_def require_metadata_def from_option_def find_block_def find_be_of)+
qed

lemma sorted_bounds:
  assumes "sorted (map f xs)" and "x \<in> set xs"
  shows "f (hd xs) \<le> f x" and "f x \<le> f (last xs)"
proof -
  show "f (hd xs) \<le> f x" using assms by (cases xs) auto
  show "f x \<le> f (last xs)" using assms by (cases xs rule: rev_cases) (auto simp: sorted_append)
qed

lemma sr_get_strict:
  assumes "fs_get path objs = Inr d" and img: "sst_image E d ft fb ib dd bss" and srt: "strictly_sorted (concat bss)"
  shows "sr_get E (reader_of path d ft fb ib dd) k objs = Inr (map_option be_of (find (\<lambda>e. me_composite_key e = k) (concat bss)))"
proof -
  note s = strictly_sorted_imp_sorted [OF srt]
  let ?f = "\<lambda>es. find (\<lambda>e. me_composite_key e = k) es"
  have look: "(case find_block_index ib k of None \<Rightarrow> None | Some i \<Rightarrow> ?f (bss ! i)) = ?f (concat bss)"
    using image_find_block_index [OF img s, of k] last_block_find [OF s strictly_sorted_apart [OF srt] image_blocks(2) [OF img]] no_block_find [OF s]
    by (auto split: option.splits)
  have "?f (concat bss) = None" if "\<not> may_contain_key ft k \<or> \<not> fb_maybe_contains fb (record_id k)"
  proof (rule ccontr)
    assume "?f (concat bss) \<noteq> None"
    then obtain e where e: "e \<in> set (concat bss)" "me_composite_key e = k" by (auto simp: find_None_iff)
    have "me_composite_key (hd (concat bss)) \<le> k" "k \<le> me_composite_key (last (concat bss))"
      using sorted_bounds [OF s e(1)] e(2) by simp_all
    then have "may_contain_key ft k" using img by (intro may_contain_key_range) (auto simp: sst_image_def)
    moreover have "fb_maybe_contains fb (record_id k)" using img e by (auto simp: sst_image_def)
    ultimately show False using that by blast
  qed
  then show ?thesis unfolding sr_get_image [OF assms(1) img s] using look
    by (auto simp: map_option_case split: option.splits)
qed

section \<open>Scans\<close>

definition in_range :: "composite_key \<Rightarrow> composite_key option \<Rightarrow> memtable_entry \<Rightarrow> bool" where
  "in_range lo hi e \<longleftrightarrow> lo \<le> me_composite_key e \<and> (case hi of None \<Rightarrow> True | Some h \<Rightarrow> me_composite_key e < h)"

definition past_end :: "composite_key option \<Rightarrow> composite_key \<Rightarrow> bool" where
  "past_end hi k \<longleftrightarrow> (case hi of None \<Rightarrow> False | Some h \<Rightarrow> h \<le> k)"

lemma past_end_mono: "past_end hi a \<Longrightarrow> a \<le> b \<Longrightarrow> past_end hi b"
  by (auto simp: past_end_def split: option.splits)

lemma in_range_iff: "in_range lo hi e \<longleftrightarrow> \<not> me_composite_key e < lo \<and> \<not> past_end hi (me_composite_key e)"
  by (auto simp: in_range_def past_end_def split: option.splits)

lemma scan_entries_spec:
  assumes "sorted (map me_composite_key es)"
  shows "scan_entries lo hi (map be_of es) = (map be_of (filter (in_range lo hi) es),
    \<exists>e \<in> set es. \<not> me_composite_key e < lo \<and> past_end hi (me_composite_key e))"
  using assms
proof (induction es)
  case (Cons e es)
  have k: "be_composite_key (be_of e) = me_composite_key e" by (simp add: be_of_def)
  show ?case
  proof (cases "\<not> me_composite_key e < lo \<and> past_end hi (me_composite_key e)")
    case True
    then have "filter (in_range lo hi) (e # es) = []"
      using Cons.prems past_end_mono by (auto simp: in_range_iff filter_empty_conv)
    then show ?thesis using True by (auto simp: k past_end_def split: option.splits)
  next
    case False
    then show ?thesis using Cons by (auto simp: k in_range_iff past_end_def split: option.splits)
  qed
qed simp

lemma scan_blocks_spec:
  assumes get: "\<And>i. i < length bss \<Longrightarrow> get i = Inr (map be_of (bss ! i))"
    and first: "\<And>i. i < length bss \<Longrightarrow> first i = Some (me_composite_key (hd (bss ! i)))"
    and srt: "sorted (map me_composite_key (concat bss))" and ne: "[] \<notin> set bss" and i: "start \<le> i" "i \<le> length bss"
  shows "scan_blocks get first start lo hi [i..<length bss] = Inr (map be_of (filter (in_range lo hi) (concat (drop i bss))))"
  using i
proof (induction "length bss - i" arbitrary: i)
  case 0
  then show ?case by simp
next
  case (Suc n)
  then have il: "i < length bss" by simp
  have hd_i: "hd (bss ! i) \<in> set (bss ! i)" using ne nth_mem [OF il] hd_in_set by metis
  have dr: "concat (drop i bss) = bss ! i @ concat (drop (Suc i) bss)" using il by (metis Cons_nth_drop_Suc concat.simps(2))
  have up: "[i..<length bss] = i # [Suc i..<length bss]" using il by (rule upt_conv_Cons)
  have IH: "scan_blocks get first start lo hi [Suc i..<length bss] = Inr (map be_of (filter (in_range lo hi) (concat (drop (Suc i) bss))))"
    using Suc by simp
  have sd: "sorted (map me_composite_key (concat (drop i bss)))"
    using srt append_take_drop_id [of i bss] by (metis concat_append map_append sorted_append)
  have stop: "(case (hi, first i) of (Some h, Some k) \<Rightarrow> start < i \<and> h \<le> k | _ \<Rightarrow> False) \<longleftrightarrow>
      start < i \<and> past_end hi (me_composite_key (hd (bss ! i)))"
    using first [OF il] by (auto simp: past_end_def split: option.splits)
  show ?case
  proof (cases "start < i \<and> past_end hi (me_composite_key (hd (bss ! i)))")
    case True
    have "\<not> in_range lo hi e" if "e \<in> set (concat (drop i bss))" for e
    proof -
      have "me_composite_key (hd (concat (drop i bss))) \<le> me_composite_key e"
        using sd that by (cases "concat (drop i bss)") auto
      moreover have "hd (concat (drop i bss)) = hd (bss ! i)" using hd_i unfolding dr by (metis empty_iff hd_append list.set(1))
      ultimately show ?thesis using True past_end_mono by (auto simp: in_range_iff)
    qed
    then have "filter (in_range lo hi) (concat (drop i bss)) = []" by (simp only: filter_empty_conv) blast
    then show ?thesis using True stop unfolding up by simp
  next
    case False
    have sb: "sorted (map me_composite_key (bss ! i))" using sd unfolding dr by (simp add: sorted_append)
    show ?thesis
    proof (cases "\<exists>e \<in> set (bss ! i). \<not> me_composite_key e < lo \<and> past_end hi (me_composite_key e)")
      case True
      then obtain e where e: "e \<in> set (bss ! i)" "past_end hi (me_composite_key e)" by blast
      have "\<not> in_range lo hi x" if "x \<in> set (concat (drop (Suc i) bss))" for x
      proof -
        have "me_composite_key e \<le> me_composite_key x" using sd that e(1) unfolding dr map_append sorted_append set_map by blast
        then show ?thesis using e(2) past_end_mono by (auto simp: in_range_iff)
      qed
      then have "filter (in_range lo hi) (concat (drop (Suc i) bss)) = []" by (simp only: filter_empty_conv) blast
      then have f: "filter (in_range lo hi) (concat (drop i bss)) = filter (in_range lo hi) (bss ! i)"
        unfolding dr by (simp only: filter_append append_Nil2)
      show ?thesis unfolding up f scan_blocks.simps stop if_not_P [OF False] get [OF il] bind_res.simps
        scan_entries_spec [OF sb] using True by simp
    next
      case nd: False
      show ?thesis unfolding up dr scan_blocks.simps stop if_not_P [OF False] get [OF il] bind_res.simps
        scan_entries_spec [OF sb] IH using nd by auto
    qed
  qed
qed

lemma filter_range_from_block:
  assumes ap: "apart bss" and ne: "[] \<notin> set bss" and i: "last_block bss lo i"
  shows "filter (in_range lo hi) (concat (drop i bss)) = filter (in_range lo hi) (concat bss)"
proof -
  have il: "i < length bss" "me_composite_key (hd (bss ! i)) \<le> lo" using i by (auto simp: last_block_def)
  have bi: "bss ! i \<noteq> []" using ne nth_mem [OF il(1)] by metis
  have "\<not> in_range lo hi e" if e: "e \<in> set (concat (take i bss))" for e
  proof -
    obtain j where "j < i" "e \<in> set (bss ! j)" using e il(1) in_concat_take [of i bss e] by auto
    then have "me_composite_key e < me_composite_key (hd (bss ! i))" using ap il(1) bi by (simp add: apart_def)
    then show ?thesis using il(2) by (auto simp: in_range_iff)
  qed
  then have "filter (in_range lo hi) (concat (take i bss)) = []" by (simp only: filter_empty_conv) blast
  moreover have "concat bss = concat (take i bss) @ concat (drop i bss)" by (metis append_take_drop_id concat_append)
  ultimately show ?thesis by (metis append_Nil filter_append)
qed

lemma sr_scan_strict:
  assumes get: "fs_get path objs = Inr d" and img: "sst_image E d ft fb ib dd bss" and srt: "strictly_sorted (concat bss)"
  shows "sr_scan E (reader_of path d ft fb ib dd) lo hi objs = Inr (map be_of (filter (in_range lo hi) (concat bss)))"
proof -
  note s = strictly_sorted_imp_sorted [OF srt] and b = image_blocks [OF img]
  let ?r = "reader_of path d ft fb ib dd" and ?start = "case find_block_index ib lo of None \<Rightarrow> 0 | Some i \<Rightarrow> i"
  have blk: "sr_get_block E ?r i objs = Inr (map be_of (bss ! i))" if "i < length bss" for i
    using fetch_image [OF get img that] that b(1)
    by (simp add: sr_get_block_def reader_of_def from_option_def ib_get_def)
  have frst: "map_option ie_first_key (ib_get ib i) = Some (me_composite_key (hd (bss ! i)))" if "i < length bss" for i
    using that b(1) b(3) [OF that] by (simp add: ib_get_def)
  have st: "?start \<le> length bss \<and> filter (in_range lo hi) (concat (drop ?start bss)) = filter (in_range lo hi) (concat bss)"
  proof (cases "find_block_index ib lo")
    case (Some i)
    then have "last_block bss lo i" using image_find_block_index(1) [OF img s] by blast
    then show ?thesis using Some filter_range_from_block [OF strictly_sorted_apart [OF srt] b(2)] by (simp add: last_block_def)
  qed simp
  have "scan_blocks (\<lambda>i. sr_get_block E ?r i objs) (\<lambda>i. map_option ie_first_key (ib_get ib i)) ?start lo hi [?start..<length bss]
      = Inr (map be_of (filter (in_range lo hi) (concat (drop ?start bss))))"
    by (rule scan_blocks_spec [OF blk frst s b(2) order_refl]) (use st in auto)
  then show ?thesis using st b(1)
    by (simp add: sr_scan_def require_metadata_def reader_of_def from_option_def Let_def ib_block_count_def)
qed

section \<open>Writing succeeds\<close>

definition compress_total :: "codecs \<Rightarrow> compression_type \<Rightarrow> bool" where
  "compress_total E c \<longleftrightarrow> (\<forall>b. \<exists>d. compress_block E c b = Inr d)"

lemma flush_block_total:
  assumes "compress_total E (sst_compression config)" and "\<not> bb_is_empty (ws_block_builder ws)"
  shows "\<exists>ws'. flush_block E config ws = Inr ws' \<and> ws_entry_count ws' = ws_entry_count ws"
proof -
  let ?bb = "ws_block_builder ws"
  obtain d where d: "compress_block E (sst_compression config) (bb_buffer ?bb @ to_le_bytes 4 (crc32 E (bb_buffer ?bb))) = Inr d"
    using assms(1) unfolding compress_total_def by blast
  then obtain fb where "bb_finish E (sst_compression config) ?bb = Inr fb"
    using assms(2) by (auto simp: bb_finish_def bb_is_empty_def Let_def)
  then show ?thesis by (simp add: flush_block_def Let_def)
qed

lemma write_loop_total:
  "compress_total E (sst_compression config) \<Longrightarrow>
   \<exists>ws'. write_loop E config es ws = Inr ws' \<and> ws_entry_count ws' = ws_entry_count ws + of_nat (length es)"
proof (induction es arbitrary: ws)
  case (Cons e es)
  let ?ws = "ws_track_key (me_composite_key e) (ws\<lparr>ws_block_builder := bb_add e (ws_block_builder ws)\<rparr>)"
  have ec: "ws_entry_count ?ws = ws_entry_count ws + 1" by (simp add: ws_track_key_def)
  have "\<not> bb_is_empty (ws_block_builder ?ws)"
    by (simp add: ws_track_key_def bb_is_empty_def bb_add_def bb_add_entry_def Let_def)
  from flush_block_total [OF Cons.prems this] ec
  have "\<exists>ws1. ws_add E config e ws = Inr ws1 \<and> ws_entry_count ws1 = ws_entry_count ws + 1"
    by (cases "bb_is_full (ws_block_builder ?ws)") (auto simp: ws_add_def Let_def)
  then obtain ws1 where "ws_add E config e ws = Inr ws1" "ws_entry_count ws1 = ws_entry_count ws + 1" by blast
  with Cons.IH [OF Cons.prems, of ws1] show ?case by (auto simp: algebra_simps)
qed simp

lemma sst_write_total:
  assumes "compress_total E (sst_compression config)" and "length es < 2 ^ 32"
  shows "(\<exists>x. sst_write E config path es objs = Inr x) \<longleftrightarrow> es \<noteq> []"
proof -
  obtain ws where ws: "write_loop E config es (ws_new config) = Inr ws" "ws_entry_count ws = of_nat (length es)"
    using write_loop_total [OF assms(1), of es "ws_new config"] by (auto simp: ws_new_def)
  have z: "ws_entry_count ws = 0 \<longleftrightarrow> es = []" using of_nat_u64_eq_0 [of "length es"] assms(2) ws(2) by simp
  have "\<exists>ws'. (if bb_is_empty (ws_block_builder ws) then Inr ws else flush_block E config ws) = Inr ws'"
    using flush_block_total [OF assms(1)] by auto
  then show ?thesis using z by (auto simp: sst_write_def ws(1) sst_finish_def Let_def simp del: bind_res_eq_Inr)
qed

section \<open>Small files\<close>

text \<open>For the examples: a file of a few short entries of one record stays far below 4 GiB.\<close>

definition sample_sst_config :: sst_config where
  "sample_sst_config = \<lparr>block_size_target = 1, sst_compression = NoCompression, bloom_bits_per_key = 10\<rparr>"

lemma encode_varint_small: "v < 128 \<Longrightarrow> encode_varint v = [ucast v]"
proof -
  assume v: "v < 128"
  then have "unat v div 2 ^ 7 = 0" by (simp add: word_less_nat_alt)
  then have d: "drop_bit 7 v = 0" by (simp add: unat_drop_7 flip: unat_eq_0)
  have "ucast (v AND 0x7F) = (ucast v :: u8)"
  proof (rule bit_word_eqI)
    fix n assume "n < LENGTH(8)"
    moreover have "\<not> bit v 7" using d by (simp add: bit_iff_odd_drop_bit)
    ultimately show "bit (ucast (v AND 0x7F) :: u8) n = bit (ucast v :: u8) n"
      by (cases "n = 7") (auto simp: bit_ucast_iff bit_and_iff bit_0x7F)
  qed
  then show ?thesis using d by (simp add: encode_varint.simps [of v] Let_def)
qed

definition small_state :: "write_state \<Rightarrow> bool" where
  "small_state ws \<longleftrightarrow> length (ws_output ws) < 100 \<and> length (index_part ws) < 100 \<and> bl_record_ids (ws_bloom_builder ws) = {[1]}
     \<and> ws_dedup_builder ws = {} \<and> bl_bits_per_key (ws_bloom_builder ws) = 10 \<and> bb_is_empty (ws_block_builder ws) \<and> ws_entry_count ws \<noteq> 0"

lemmas write_steps = ws_add_def ws_new_def Let_def ws_track_key_def bb_add_def bb_add_entry_def bb_new_def sample_entry_def
  me_with_sequence_def sample_key bb_is_full_def bb_is_empty_def sample_sst_config_def flush_block_def bb_finish_def compress_block_def put_var_def
  encode_varint_small ixb_add_def bl_add_all_def db_add_all_def bl_new_def index_part_def ib_serialize_def ixb_build_def index_entry_bytes_def
  HEADER_SIZE_def small_state_def

lemma length_set_bloom: "length (fold (set_bloom_bits nb m) rids bits) = length bits"
proof -
  have "length (fold (set_bloom_bit h nb) ks bits) = length bits" for h ks bits
    by (induction ks arbitrary: bits) (simp_all add: set_bloom_bit_def Let_def)
  then show ?thesis by (induction rids arbitrary: bits) (simp_all add: set_bloom_bits_def Let_def)
qed

lemma small_file:
  assumes "write_loop sample_codecs sample_sst_config es (ws_new sample_sst_config) = Inr ws \<and> small_state ws"
  shows "\<exists>info d. sst_write sample_codecs sample_sst_config path es objs = Inr (info, fs_put path d objs) \<and> length d < 2 ^ 32"
proof -
  have ws: "write_loop sample_codecs sample_sst_config es (ws_new sample_sst_config) = Inr ws"
    "length (ws_output ws) < 100" "length (index_part ws) < 100" "bl_record_ids (ws_bloom_builder ws) = {[1]}" "ws_dedup_builder ws = {}"
    "bl_bits_per_key (ws_bloom_builder ws) = 10" "bb_is_empty (ws_block_builder ws)" "ws_entry_count ws \<noteq> 0"
    using assms by (simp_all add: small_state_def)
  have "length (filter_part ws) < 100"
    unfolding filter_part_def bl_build_def ws(4,6)
    using length_set_bloom [of _ _ "[[1]]"] by (simp add: Let_def bf_serialize_def)
  moreover have "length (dedup_part ws) = 4"
    by (simp add: dedup_part_def ws(5) db_build_def dedup_serialize_def)
  moreover note footer_part_ok(2) [of sample_codecs sample_sst_config ws]
  moreover define out where "out = ws_output ws @ dedup_part ws @ filter_part ws @ index_part ws @ footer_encode sample_codecs (footer_part sample_sst_config ws)"
  ultimately have "length (header_encode h @ drop HEADER_SIZE out) < 2 ^ 32" for h
    using ws(2,3) by (simp add: length_hdr)
  moreover have "\<exists>info. sst_finish sample_codecs sample_sst_config path ws objs
      = Inr (info, fs_put path (header_encode \<lparr>hd_compression = sst_compression sample_sst_config, hd_entry_count = ws_entry_count ws\<rparr> @ drop HEADER_SIZE out) objs)"
    using ws(7,8) by (simp only: sst_finish_def out_def dedup_part_def filter_part_def index_part_def footer_part_def Let_def) simp
  ultimately show ?thesis using ws(1) unfolding sst_write_def by (simp only: bind_res.simps) blast
qed

lemma sample_loop:
  "\<exists>ws. write_loop sample_codecs sample_sst_config [sample_entry [5] [6] 1, sample_entry [7] [8] 2] (ws_new sample_sst_config) = Inr ws
     \<and> small_state ws"
  by (simp add: write_steps)

section \<open>The file answers as its entries\<close>

lemma bloom_of_answers:
  assumes "es \<noteq> []" and "length es < 2 ^ 32"
  shows "bf_maybe_contains (bl_build (bloom_of config es)) rid = bloom_hit (bl_build (bloom_of config es)) (me_rid ` set es) rid"
proof -
  have "card (me_rid ` set es) < 2 ^ 32"
    by (rule order_le_less_trans [OF order_trans [OF card_image_le card_length] assms(2)]) simp
  then show ?thesis using bl_build_exact(1) [of "bloom_of config es" rid] assms(1) by (simp add: bloom_of_def)
qed

text \<open>C22: an SSTable answers as the entries it was written from. For fewer than \<open>2 ^ 32\<close> well-formed entries in
  strictly ascending key order (so one version of each key) and a compressor that never fails, writing fails exactly
  when there are none. When the written file is shorter than 4 GiB it opens, its metadata loads, a point lookup returns
  the entry of the key or nothing, and a range scan returns exactly the entries of the range in order. The record check
  reports a record exactly when each of its probe positions is one of a written record, so it reports every written
  record and may report others; the token check reports a non-empty token exactly when its 128-bit hash is that of a
  written token. No other object of the store changes.\<close>

theorem sstable_write_read:
  assumes "codecs_ok E" and "\<forall>e \<in> set es. entry_ok e" and "length es < 2 ^ 32" and "strictly_sorted es"
    and "compress_total E (sst_compression config)"
  shows "((\<exists>x. sst_write E config path es objs = Inr x) \<longleftrightarrow> es \<noteq> [])
    \<and> (\<forall>info objs' d. sst_write E config path es objs = Inr (info, objs') \<and> fs_get path objs' = Inr d \<and> length d < 2 ^ 32 \<longrightarrow>
        (\<forall>p. p \<noteq> path \<longrightarrow> fs_get p objs' = fs_get p objs)
        \<and> (\<exists>r0 r. sst_open E path (si_file_size info) objs' = Inr r0 \<and> load_metadata r0 objs' = Inr r
          \<and> (\<forall>k. sr_get E r k objs' = Inr (map_option be_of (find (\<lambda>e. me_composite_key e = k) es)))
          \<and> (\<forall>lo hi. sr_scan E r lo hi objs' = Inr (map be_of (filter (in_range lo hi) es)))
          \<and> (\<forall>rid. sr_contains_record r rid = Inr (bloom_hit (bl_build (bloom_of config es)) (me_rid ` set es) rid))
          \<and> (\<forall>e \<in> set es. sr_contains_record r (me_rid e) = Inr True)
          \<and> (\<forall>t. sr_check_dedup r t = Inr (\<not> token_is_none t \<and> hash_token t \<in> token_hashes es))))"
proof (intro conjI allI impI)
  show "(\<exists>x. sst_write E config path es objs = Inr x) \<longleftrightarrow> es \<noteq> []" by (rule sst_write_total [OF assms(5,3)])
  fix info objs' d
  assume w: "sst_write E config path es objs = Inr (info, objs') \<and> fs_get path objs' = Inr d \<and> length d < 2 ^ 32"
  from sst_write_image [OF assms(1-3)] w obtain d' where d': "objs' = fs_put path d' objs" "si_file_size info = of_nat (length d')"
      "es \<noteq> []" "length d' < 2 ^ 32 \<longrightarrow> (\<exists>ft ib dd. sst_image E d' ft (Bloom (bl_build (bloom_of config es))) ib dd (chunk (block_size_target config) [] es))" by blast
  then have "d' = d" using w by (simp add: fs.get_put)
  define fb where "fb = Bloom (bl_build (bloom_of config es))"
  from \<open>d' = d\<close> d' w obtain ft ib dd where img: "sst_image E d ft fb ib dd (chunk (block_size_target config) [] es)" unfolding fb_def by blast
  show "fs_get p objs' = fs_get p objs" if "p \<noteq> path" for p using that by (simp add: d'(1) fs.get_put)
  have g: "fs_get path objs' = Inr d" using w by blast
  have es: "concat (chunk (block_size_target config) [] es) = es" by (simp add: concat_chunk)
  obtain r0 where r0: "sst_open E path (si_file_size info) objs' = Inr r0" "load_metadata r0 objs' = Inr (reader_of path d ft fb ib dd)"
    using open_image [OF g img] d'(2) \<open>d' = d\<close> by auto
  have f: "\<forall>e \<in> set es. fb_maybe_contains fb (me_rid e)"
    and dd: "\<forall>t. dedup_contains_token dd t \<longleftrightarrow> \<not> token_is_none t \<and> hash_token t \<in> token_hashes es"
    using img unfolding sst_image_def es by blast+
  let ?r = "reader_of path d ft fb ib dd"
  have "\<forall>k. sr_get E ?r k objs' = Inr (map_option be_of (find (\<lambda>e. me_composite_key e = k) es))"
    using sr_get_strict [OF g img] assms(4) unfolding es by blast
  moreover have "\<forall>lo hi. sr_scan E ?r lo hi objs' = Inr (map be_of (filter (in_range lo hi) es))"
    using sr_scan_strict [OF g img] assms(4) unfolding es by blast
  moreover have "\<forall>rid. sr_contains_record ?r rid = Inr (bloom_hit (bl_build (bloom_of config es)) (me_rid ` set es) rid)"
    using bloom_of_answers [OF d'(3) assms(3)] by (simp add: sr_contains_record_def reader_of_def from_option_def fb_def)
  moreover have "\<forall>e \<in> set es. sr_contains_record ?r (me_rid e) = Inr True"
    using f by (simp add: sr_contains_record_def reader_of_def from_option_def)
  moreover have "\<forall>t. sr_check_dedup ?r t = Inr (\<not> token_is_none t \<and> hash_token t \<in> token_hashes es)"
    using dd by (simp add: sr_check_dedup_def reader_of_def from_option_def)
  ultimately show "\<exists>r0 r. sst_open E path (si_file_size info) objs' = Inr r0 \<and> load_metadata r0 objs' = Inr r
      \<and> (\<forall>k. sr_get E r k objs' = Inr (map_option be_of (find (\<lambda>e. me_composite_key e = k) es)))
      \<and> (\<forall>lo hi. sr_scan E r lo hi objs' = Inr (map be_of (filter (in_range lo hi) es)))
      \<and> (\<forall>rid. sr_contains_record r rid = Inr (bloom_hit (bl_build (bloom_of config es)) (me_rid ` set es) rid))
      \<and> (\<forall>e \<in> set es. sr_contains_record r (me_rid e) = Inr True)
      \<and> (\<forall>t. sr_check_dedup r t = Inr (\<not> token_is_none t \<and> hash_token t \<in> token_hashes es))"
    using r0 by blast
qed

theorem sstable_write_read_witness:
  "\<exists>info objs' r0 r. sst_write sample_codecs sample_sst_config ''a.sst'' [sample_entry [5] [6] 1, sample_entry [7] [8] 2] [] = Inr (info, objs')
     \<and> sst_open sample_codecs ''a.sst'' (si_file_size info) objs' = Inr r0 \<and> load_metadata r0 objs' = Inr r
     \<and> sr_get sample_codecs r (CompositeKey [1, 0, 7]) objs' = Inr (Some (be_of (sample_entry [7] [8] 2)))
     \<and> sr_get sample_codecs r (CompositeKey [1, 0, 6]) objs' = Inr None
     \<and> sr_contains_record r [1] = Inr True \<and> sr_check_dedup r token_none = Inr False"
proof -
  let ?es = "[sample_entry [5] [6] 1, sample_entry [7] [8] 2]"
  have ok: "\<forall>e \<in> set ?es. entry_ok e" "length ?es < 2 ^ 32" by (simp_all add: sample_entry_ok)
  have keys: "me_composite_key (sample_entry ik v s) = CompositeKey ([1, 0] @ ik)" "me_rid (sample_entry ik v s) = [1]" for ik v s
    by (simp_all add: sample_entry_def me_with_sequence_def sample_key)
  have srt: "strictly_sorted ?es" by (simp add: strictly_sorted_def keys less_composite_key_def)
  have tot: "compress_total sample_codecs (sst_compression sample_sst_config)"
    by (simp add: compress_total_def sample_sst_config_def compress_block_def)
  obtain ws where "write_loop sample_codecs sample_sst_config ?es (ws_new sample_sst_config) = Inr ws \<and> small_state ws"
    using sample_loop by blast
  from small_file [OF this] obtain info d where
    w: "sst_write sample_codecs sample_sst_config ''a.sst'' ?es [] = Inr (info, fs_put ''a.sst'' d [])" "length d < 2 ^ 32" by blast
  have "fs_get ''a.sst'' (fs_put ''a.sst'' d []) = Inr d" by (simp add: fs.get_put)
  with sstable_write_read [OF sample_codecs_ok ok srt tot, of "''a.sst''" "[]"] w obtain r0 r where
    r: "sst_open sample_codecs ''a.sst'' (si_file_size info) (fs_put ''a.sst'' d []) = Inr r0" "load_metadata r0 (fs_put ''a.sst'' d []) = Inr r"
    "\<forall>k. sr_get sample_codecs r k (fs_put ''a.sst'' d []) = Inr (map_option be_of (find (\<lambda>e. me_composite_key e = k) ?es))"
    "\<forall>e \<in> set ?es. sr_contains_record r (me_rid e) = Inr True"
    "\<forall>t. sr_check_dedup r t = Inr (\<not> token_is_none t \<and> hash_token t \<in> token_hashes ?es)" by blast
  from r(3-5) have "sr_get sample_codecs r (CompositeKey [1, 0, 7]) (fs_put ''a.sst'' d []) = Inr (Some (be_of (sample_entry [7] [8] 2)))"
    "sr_get sample_codecs r (CompositeKey [1, 0, 6]) (fs_put ''a.sst'' d []) = Inr None"
    "sr_contains_record r [1] = Inr True" "sr_check_dedup r token_none = Inr False"
    by (simp_all add: keys sample_key)
  with w(1) r(1,2) show ?thesis by blast
qed

end
