(* ===== verification/Skip_List.thy ===== *)
theory Skip_List
  imports Flush_Types
begin

text \<open>
  \<^verbatim>\<open>arena.rs\<close> and \<^verbatim>\<open>skiplist.rs\<close>: the skip list of a memtable as the code has it, a vector of nodes
  linked by indices, with twelve next pointers per node. The random generator is the sequence of
  numbers it will draw; the size of a node in memory (Rust's \<^verbatim>\<open>size_of\<close>) is an argument. A walk
  along one level carries fuel, the number of nodes, and returns \<open>None\<close> when it runs out; the
  invariant shows that it never does.
\<close>

section \<open>The arena\<close>

definition DEFAULT_BLOCK_SIZE :: nat where "DEFAULT_BLOCK_SIZE = 1048576"

record arena_slice =
  as_block :: nat
  as_offset :: nat
  as_len :: nat

record arena =
  ar_blocks :: "bytes list"
  ar_current_offset :: nat
  ar_total_allocated :: nat
  ar_block_size :: nat

definition arena_with_block_size :: "nat \<Rightarrow> arena" where
  "arena_with_block_size n = \<lparr>ar_blocks = [replicate n 0], ar_current_offset = 0, ar_total_allocated = 0, ar_block_size = n\<rparr>"

definition arena_new :: arena where
  "arena_new = arena_with_block_size DEFAULT_BLOCK_SIZE"

definition current_block_capacity :: "arena \<Rightarrow> nat" where
  "current_block_capacity a = (if ar_blocks a = [] then 0 else length (last (ar_blocks a)))"

definition arena_allocate :: "nat \<Rightarrow> arena \<Rightarrow> arena_slice \<times> arena" where
  "arena_allocate n a =
     (if ar_current_offset a + n \<le> current_block_capacity a then
        (\<lparr>as_block = length (ar_blocks a) - 1, as_offset = ar_current_offset a, as_len = n\<rparr>,
         a\<lparr>ar_current_offset := ar_current_offset a + n, ar_total_allocated := ar_total_allocated a + n\<rparr>)
      else
        (\<lparr>as_block = length (ar_blocks a), as_offset = 0, as_len = n\<rparr>,
         a\<lparr>ar_blocks := ar_blocks a @ [replicate (max (ar_block_size a) n) 0],
           ar_current_offset := n, ar_total_allocated := ar_total_allocated a + n\<rparr>))"

text \<open>The assertion on the length, and Rust's slice bounds, are errors.\<close>

definition arena_write :: "arena_slice \<Rightarrow> bytes \<Rightarrow> arena \<Rightarrow> arena option" where
  "arena_write sl data a =
     (if length data \<le> as_len sl \<and> as_block sl < length (ar_blocks a)
         \<and> as_offset sl + length data \<le> length (ar_blocks a ! as_block sl)
      then let b = ar_blocks a ! as_block sl
           in Some (a\<lparr>ar_blocks := (ar_blocks a)[as_block sl :=
                take (as_offset sl) b @ data @ drop (as_offset sl + length data) b]\<rparr>)
      else None)"

definition arena_read :: "arena_slice \<Rightarrow> arena \<Rightarrow> bytes option" where
  "arena_read sl a =
     (if as_block sl < length (ar_blocks a) \<and> as_offset sl + as_len sl \<le> length (ar_blocks a ! as_block sl)
      then Some (slice_of (as_offset sl) (as_offset sl + as_len sl) (ar_blocks a ! as_block sl)) else None)"

definition arena_reset :: "arena \<Rightarrow> arena" where
  "arena_reset a = a\<lparr>ar_blocks := [replicate (ar_block_size a) 0], ar_current_offset := 0, ar_total_allocated := 0\<rparr>"

section \<open>Nodes and the random generator\<close>

definition MAX_HEIGHT :: nat where "MAX_HEIGHT = 12"
definition BRANCHING_FACTOR :: nat where "BRANCHING_FACTOR = 4"

record skip_node =
  sn_key :: composite_key
  sn_sequence_number :: u64
  sn_value :: bytes
  sn_metadata :: bytes
  sn_entry_type :: entry_type
  sn_idempotency_key :: idempotency_token
  sn_height :: nat
  sn_next :: "nat option list"

definition skip_node_new :: "memtable_entry \<Rightarrow> nat \<Rightarrow> skip_node" where
  "skip_node_new e h = \<lparr>sn_key = me_composite_key e, sn_sequence_number = me_sequence_number e,
     sn_value = me_value e, sn_metadata = me_metadata e, sn_entry_type = me_entry_type e,
     sn_idempotency_key = me_idempotency_key e, sn_height = h, sn_next = replicate MAX_HEIGHT None\<rparr>"

definition sentinel :: skip_node where
  "sentinel = \<lparr>sn_key = CompositeKey (map (of_nat \<circ> of_char) ''__sentinel__'' @ [SEPARATOR]), sn_sequence_number = 0,
     sn_value = [], sn_metadata = [], sn_entry_type = Put, sn_idempotency_key = token_none,
     sn_height = MAX_HEIGHT, sn_next = replicate MAX_HEIGHT None\<rparr>"

definition compare_entries :: "composite_key \<Rightarrow> u64 \<Rightarrow> composite_key \<Rightarrow> u64 \<Rightarrow> ordering" where
  "compare_entries a_key a_seq b_key b_seq =
     (case cmp a_key b_key of Equal \<Rightarrow> cmp b_seq a_seq | other \<Rightarrow> other)"

type_synonym rng = "nat \<Rightarrow> nat"

definition random_range :: "nat \<Rightarrow> rng \<Rightarrow> nat \<times> rng" where
  "random_range n r = (r 0 mod n, \<lambda>i. r (Suc i))"

function random_height_from :: "nat \<Rightarrow> rng \<Rightarrow> nat \<times> rng" where
  "random_height_from height r =
     (if height < MAX_HEIGHT then
        (case random_range BRANCHING_FACTOR r of (d, r') \<Rightarrow>
           if d = 0 then random_height_from (height + 1) r' else (height, r'))
      else (height, r))"
  by pat_completeness auto
termination
  by (relation "measure (\<lambda>(h, r). MAX_HEIGHT - h)") auto

declare random_height_from.simps [simp del]

definition random_height :: "rng \<Rightarrow> nat \<times> rng" where
  "random_height r = random_height_from 1 r"

definition approximate_entry_size :: "nat \<Rightarrow> memtable_entry \<Rightarrow> nat" where
  "approximate_entry_size node_size e =
     node_size + length (as_bytes (me_composite_key e)) + length (me_value e) + length (me_metadata e)"

section \<open>The list\<close>

record skip_list =
  sl_nodes :: "skip_node list"
  sl_head :: nat
  sl_height :: nat
  sl_len :: nat
  sl_arena :: arena
  sl_rng :: rng

definition sl_with_arena :: "arena \<Rightarrow> rng \<Rightarrow> skip_list" where
  "sl_with_arena a r = \<lparr>sl_nodes = [sentinel], sl_head = 0, sl_height = 1, sl_len = 0, sl_arena = a, sl_rng = r\<rparr>"

definition sl_new :: "rng \<Rightarrow> skip_list" where
  "sl_new r = sl_with_arena arena_new r"

definition next_of :: "skip_node list \<Rightarrow> nat \<Rightarrow> nat \<Rightarrow> nat option" where
  "next_of nodes level i = sn_next (nodes ! i) ! level"

text \<open>\<^verbatim>\<open>while let Some(next) = nodes[current].next[level] { if lt(next) { current = next } else { break } }\<close>\<close>

fun walk :: "nat \<Rightarrow> skip_node list \<Rightarrow> (skip_node \<Rightarrow> bool) \<Rightarrow> nat \<Rightarrow> nat \<Rightarrow> nat option" where
  "walk 0 nodes lt level current = None"
| "walk (Suc fuel) nodes lt level current =
     (case next_of nodes level current of
        Some next_idx \<Rightarrow> (if lt (nodes ! next_idx) then walk fuel nodes lt level next_idx else Some current)
      | None \<Rightarrow> Some current)"

text \<open>The descent: one walk per level from the top, remembering where each level was left.\<close>

fun descend :: "skip_node list \<Rightarrow> (skip_node \<Rightarrow> bool) \<Rightarrow> nat \<Rightarrow> nat \<Rightarrow> (nat \<Rightarrow> nat) \<Rightarrow> (nat \<times> (nat \<Rightarrow> nat)) option" where
  "descend nodes lt 0 current update = Some (current, update)"
| "descend nodes lt (Suc level) current update =
     Option.bind (walk (length nodes) nodes lt level current) (\<lambda>c.
       descend nodes lt level c (update(level := c)))"

definition set_next :: "nat \<Rightarrow> nat option \<Rightarrow> nat \<Rightarrow> skip_node list \<Rightarrow> skip_node list" where
  "set_next level p i nodes = nodes[i := (nodes ! i)\<lparr>sn_next := (sn_next (nodes ! i))[level := p]\<rparr>]"

definition splice :: "nat \<Rightarrow> (nat \<Rightarrow> nat) \<Rightarrow> nat \<Rightarrow> skip_node list \<Rightarrow> skip_node list" where
  "splice new_idx update level nodes =
     (let prev_idx = update level;
          nodes1 = set_next level (next_of nodes level prev_idx) new_idx nodes
      in set_next level (Some new_idx) prev_idx nodes1)"

definition entry_before :: "memtable_entry \<Rightarrow> skip_node \<Rightarrow> bool" where
  "entry_before e n \<longleftrightarrow>
     compare_entries (sn_key n) (sn_sequence_number n) (me_composite_key e) (me_sequence_number e) = Less"

definition sl_insert :: "nat \<Rightarrow> memtable_entry \<Rightarrow> skip_list \<Rightarrow> skip_list option" where
  "sl_insert node_size e s =
     (let entry_size = approximate_entry_size node_size e
      in case random_height (sl_rng s) of (height, rng) \<Rightarrow>
      let s1 = s\<lparr>sl_rng := rng, sl_height := (if height > sl_height s then height else sl_height s)\<rparr>;
          nodes = sl_nodes s1
      in Option.bind (descend nodes (entry_before e) (sl_height s1) (sl_head s1) (\<lambda>_. sl_head s1)) (\<lambda>(_, update).
           let push = (let new_idx = length nodes
                       in s1\<lparr>sl_nodes := fold (splice new_idx update) [0..<height] (nodes @ [skip_node_new e height]),
                             sl_len := sl_len s1 + 1, sl_arena := snd (arena_allocate entry_size (sl_arena s1))\<rparr>)
           in case next_of nodes 0 (update 0) of
                Some next_idx \<Rightarrow>
                  (if sn_key (nodes ! next_idx) = me_composite_key e
                      \<and> sn_sequence_number (nodes ! next_idx) = me_sequence_number e
                   then Some (s1\<lparr>sl_nodes := nodes[next_idx := (nodes ! next_idx)\<lparr>sn_value := me_value e,
                          sn_metadata := me_metadata e, sn_entry_type := me_entry_type e,
                          sn_idempotency_key := me_idempotency_key e\<rparr>]\<rparr>)
                   else Some push)
              | None \<Rightarrow> Some push))"

text \<open>The position reached by \<^verbatim>\<open>get\<close> and \<^verbatim>\<open>seek_to\<close>: \<^verbatim>\<open>nodes[current].next[0]\<close> after the descent.\<close>

definition sl_seek_to :: "composite_key \<Rightarrow> skip_list \<Rightarrow> nat option option" where
  "sl_seek_to key s =
     Option.bind (descend (sl_nodes s) (\<lambda>n. sn_key n < key) (sl_height s) (sl_head s) (\<lambda>_. sl_head s))
       (\<lambda>(current, _). Some (next_of (sl_nodes s) 0 current))"

definition sl_get :: "composite_key \<Rightarrow> skip_list \<Rightarrow> skip_node option option" where
  "sl_get key s =
     Option.bind (descend (sl_nodes s) (\<lambda>n. cmp (sn_key n) key = Less) (sl_height s) (sl_head s) (\<lambda>_. sl_head s))
       (\<lambda>(current, _). Some (case next_of (sl_nodes s) 0 current of
          Some next_idx \<Rightarrow> (if sn_key (sl_nodes s ! next_idx) = key then Some (sl_nodes s ! next_idx) else None)
        | None \<Rightarrow> None))"

datatype stop_condition = StopNone | BeforeKey composite_key | RecordBoundary bytes

fun stops :: "stop_condition \<Rightarrow> skip_node \<Rightarrow> bool" where
  "stops StopNone n = False"
| "stops (BeforeKey end_key) n = (sn_key n \<ge> end_key)"
| "stops (RecordBoundary rid) n = (record_id (sn_key n) \<noteq> rid)"

text \<open>The nodes a \<^verbatim>\<open>SkipListIterator\<close> yields from its current position.\<close>

fun sl_collect :: "nat \<Rightarrow> skip_node list \<Rightarrow> stop_condition \<Rightarrow> nat option \<Rightarrow> skip_node list option" where
  "sl_collect fuel nodes stop None = Some []"
| "sl_collect 0 nodes stop (Some idx) = None"
| "sl_collect (Suc fuel) nodes stop (Some idx) =
     (let node = nodes ! idx
      in if stops stop node then Some []
         else map_option ((#) node) (sl_collect fuel nodes stop (next_of nodes 0 idx)))"

definition sl_iter :: "skip_list \<Rightarrow> skip_node list option" where
  "sl_iter s = sl_collect (length (sl_nodes s)) (sl_nodes s) StopNone (next_of (sl_nodes s) 0 (sl_head s))"

definition sl_range :: "composite_key \<Rightarrow> composite_key \<Rightarrow> skip_list \<Rightarrow> skip_node list option" where
  "sl_range start end s =
     Option.bind (sl_seek_to start s) (sl_collect (length (sl_nodes s)) (sl_nodes s) (BeforeKey end))"

definition sl_range_from :: "composite_key \<Rightarrow> skip_list \<Rightarrow> skip_node list option" where
  "sl_range_from start s =
     Option.bind (sl_seek_to start s) (sl_collect (length (sl_nodes s)) (sl_nodes s) StopNone)"

definition sl_scan_record :: "bytes \<Rightarrow> skip_list \<Rightarrow> skip_node list option" where
  "sl_scan_record rid s =
     (case min_key_for_record rid of
        Inl _ \<Rightarrow> Some []
      | Inr min_key \<Rightarrow>
          Option.bind (sl_seek_to min_key s) (sl_collect (length (sl_nodes s)) (sl_nodes s) (RecordBoundary rid)))"

fun idx_order :: "nat \<Rightarrow> skip_node list \<Rightarrow> nat option \<Rightarrow> nat list option" where
  "idx_order fuel nodes None = Some []"
| "idx_order 0 nodes (Some idx) = None"
| "idx_order (Suc fuel) nodes (Some idx) = map_option ((#) idx) (idx_order fuel nodes (next_of nodes 0 idx))"

fun take_nodes :: "skip_node option list \<Rightarrow> nat list \<Rightarrow> skip_node list" where
  "take_nodes m [] = []"
| "take_nodes m (i # is) =
     (case m ! i of Some n \<Rightarrow> n # take_nodes (m[i := None]) is | None \<Rightarrow> take_nodes m is)"

definition sl_into_iter :: "skip_list \<Rightarrow> skip_node list option" where
  "sl_into_iter s =
     map_option (take_nodes (map Some (sl_nodes s)))
       (idx_order (length (sl_nodes s)) (sl_nodes s) (next_of (sl_nodes s) 0 (sl_head s)))"

text \<open>\<^verbatim>\<open>node_to_entry\<close> of \<^verbatim>\<open>memtable.rs\<close>.\<close>

definition node_to_entry :: "skip_node \<Rightarrow> memtable_entry" where
  "node_to_entry n = me_with_sequence (sn_key n) (sn_value n) (sn_metadata n) (sn_idempotency_key n)
     (sn_sequence_number n) (sn_entry_type n)"

end
