(* ===== verification/Skip_List_Correct.thy ===== *)
theory Skip_List_Correct
  imports Skip_List
begin

text \<open>
  The skip list implements a list of versions sorted by key and, within a key, from the newest to
  the oldest. The invariant names the level-0 order of the node indices; every level is the chain of
  those indices whose node is tall enough. All walks stay within their fuel.
\<close>

section \<open>Chains of indices\<close>

primrec chain :: "(nat \<Rightarrow> nat option) \<Rightarrow> nat \<Rightarrow> nat list \<Rightarrow> bool" where
  "chain f c [] = (f c = None)"
| "chain f c (x # xs) = (f c = Some x \<and> chain f x xs)"

lemma chain_cong: "(\<And>x. x \<in> set (c # xs) \<Longrightarrow> f x = g x) \<Longrightarrow> chain f c xs = chain g c xs"
  by (induction xs arbitrary: c) auto

lemma chain_suffix: "chain f c (A @ B) \<Longrightarrow> chain f (last (c # A)) B"
  by (induction A arbitrary: c) auto

lemma chain_splice:
  assumes "chain f c (A @ B)" and "distinct (c # A @ B)" and "n \<notin> set (c # A @ B)"
  shows "chain (f(n := f (last (c # A)), last (c # A) := Some n)) c (A @ n # B)"
  using assms
proof (induction A arbitrary: c)
  case Nil
  let ?g = "f(n := f c, c := Some n)"
  show ?case
  proof (cases B)
    case (Cons b B')
    then have "chain ?g b B' = chain f b B'" using Nil.prems by (intro chain_cong) auto
    with Cons Nil.prems show ?thesis by (simp add: fun_upd_def)
  qed (use Nil.prems in auto)
next
  case (Cons a A)
  have IH: "chain (f(n := f (last (a # A)), last (a # A) := Some n)) a (A @ n # B)"
    by (rule Cons.IH) (use Cons.prems in simp_all)
  have "last (a # A) \<noteq> c" using Cons.prems(2) by (metis append_Cons distinct.simps(2) last_in_set list.discI Un_iff set_append)
  then have "(f(n := f (last (a # A)), last (a # A) := Some n)) c = Some a" using Cons.prems by auto
  then have "chain (f(n := f (last (a # A)), last (a # A) := Some n)) c ((a # A) @ n # B)"
    using IH by (simp only: append_Cons chain.simps simp_thms)
  moreover have "last (c # a # A) = last (a # A)" by simp
  ultimately show ?case by (simp only: append_Cons)
qed

lemma walk_chain:
  "chain (next_of nodes l) c xs \<Longrightarrow> length xs < fuel \<Longrightarrow>
     walk fuel nodes lt l c = Some (last (c # takeWhile (\<lambda>i. lt (nodes ! i)) xs))"
proof (induction xs arbitrary: c fuel)
  case Nil
  then show ?case by (cases fuel) auto
next
  case (Cons x xs)
  then obtain k where "fuel = Suc k" by (cases fuel) auto
  with Cons show ?case by auto
qed

section \<open>The invariant\<close>

definition tall :: "skip_node list \<Rightarrow> nat \<Rightarrow> nat list \<Rightarrow> nat list" where
  "tall nodes l is = filter (\<lambda>i. l < sn_height (nodes ! i)) is"

definition node_less :: "skip_node \<Rightarrow> skip_node \<Rightarrow> bool" where
  "node_less a b \<longleftrightarrow> compare_entries (sn_key a) (sn_sequence_number a) (sn_key b) (sn_sequence_number b) = Less"

definition links_ok :: "skip_node list \<Rightarrow> nat list \<Rightarrow> bool" where
  "links_ok nodes ord \<longleftrightarrow> distinct ord \<and> set ord = {1..<length nodes} \<and> nodes \<noteq> []
     \<and> (\<forall>n \<in> set nodes. length (sn_next n) = MAX_HEIGHT)
     \<and> (\<forall>l < MAX_HEIGHT. chain (next_of nodes l) 0 (tall nodes l ord))"

definition sl_inv :: "skip_list \<Rightarrow> nat list \<Rightarrow> bool" where
  "sl_inv s ord \<longleftrightarrow> links_ok (sl_nodes s) ord \<and> sl_head s = 0 \<and> 1 \<le> sl_height s \<and> sl_height s \<le> MAX_HEIGHT
     \<and> (\<forall>i \<in> set ord. 1 \<le> sn_height (sl_nodes s ! i) \<and> sn_height (sl_nodes s ! i) \<le> sl_height s)
     \<and> sorted_wrt node_less (map ((!) (sl_nodes s)) ord) \<and> sl_len s = length ord"

lemma tall_append: "tall nodes l (xs @ ys) = tall nodes l xs @ tall nodes l ys"
  by (simp add: tall_def)

lemma tall_prefix: "\<exists>A1 A2. tall nodes l xs = A1 @ A2 \<and> last (c # A1) = last (c # tall nodes (Suc l) xs)"
proof (cases "tall nodes (Suc l) xs" rule: rev_cases)
  case (snoc ys x)
  then have "x \<in> set (tall nodes (Suc l) xs)" by simp
  then have "x \<in> set (tall nodes l xs)" by (auto simp: tall_def)
  then obtain A1 A2 where "tall nodes l xs = A1 @ x # A2" by (meson split_list)
  with snoc show ?thesis by (intro exI [of _ "A1 @ [x]"] exI [of _ A2]) simp
qed (auto intro: exI [of _ "[]"])

text \<open>Where the descent ends on each level, for a test that holds exactly on a prefix of the order.\<close>

definition lpos :: "skip_node list \<Rightarrow> nat list \<Rightarrow> nat \<Rightarrow> nat" where
  "lpos nodes T l = last (0 # tall nodes l T)"

lemma length_ord: "links_ok nodes ord \<Longrightarrow> length ord < length nodes"
  using distinct_card [of ord] by (auto simp: links_ok_def) (metis One_nat_def Suc_pred card_atLeastLessThan length_greater_0_conv lessI)

lemma walk_level:
  assumes links: "links_ok nodes (T @ D)" and l: "l < MAX_HEIGHT"
    and T: "\<forall>i \<in> set T. lt (nodes ! i)" and D: "\<forall>i \<in> set D. \<not> lt (nodes ! i)"
  shows "walk (length nodes) nodes lt l (lpos nodes T (Suc l)) = Some (lpos nodes T l)"
proof -
  obtain A1 A2 where A: "tall nodes l T = A1 @ A2" "last (0 # A1) = lpos nodes T (Suc l)"
    using tall_prefix unfolding lpos_def by blast
  have "chain (next_of nodes l) 0 (tall nodes l (T @ D))" using links l unfolding links_ok_def by blast
  then have "chain (next_of nodes l) 0 (A1 @ A2 @ tall nodes l D)" by (simp add: tall_append A(1))
  from chain_suffix [OF this] have ch: "chain (next_of nodes l) (lpos nodes T (Suc l)) (A2 @ tall nodes l D)"
    by (simp only: A(2))
  have "length (A2 @ tall nodes l D) \<le> length (tall nodes l (T @ D))" by (simp add: tall_append A(1))
  also have "\<dots> \<le> length (T @ D)" by (simp only: tall_def length_filter_le)
  also have "\<dots> < length nodes" by (rule length_ord [OF links])
  finally have len: "length (A2 @ tall nodes l D) < length nodes" .
  have "\<forall>i \<in> set (tall nodes l T). lt (nodes ! i)" using T by (simp add: tall_def)
  then have "\<forall>i \<in> set A2. lt (nodes ! i)" by (simp add: A(1))
  moreover have "\<forall>i \<in> set (tall nodes l D). \<not> lt (nodes ! i)" using D by (simp add: tall_def)
  ultimately have tw: "takeWhile (\<lambda>i. lt (nodes ! i)) (A2 @ tall nodes l D) = A2"
    by (cases "tall nodes l D") auto
  have "last (lpos nodes T (Suc l) # A2) = lpos nodes T l"
    by (simp only: A(2) [symmetric]) (simp add: lpos_def A(1))
  with walk_chain [OF ch len, of lt] tw show ?thesis by metis
qed

lemma descend_spec:
  assumes "links_ok nodes (T @ D)" and "l \<le> MAX_HEIGHT"
    and "\<forall>i \<in> set T. lt (nodes ! i)" and "\<forall>i \<in> set D. \<not> lt (nodes ! i)"
  shows "descend nodes lt l (lpos nodes T l) upd
    = Some (lpos nodes T 0, \<lambda>i. if i < l then lpos nodes T i else upd i)"
  using assms(2)
proof (induction l arbitrary: upd)
  case (Suc l)
  have "walk (length nodes) nodes lt l (lpos nodes T (Suc l)) = Some (lpos nodes T l)"
    by (rule walk_level [OF assms(1) _ assms(3,4)]) (use Suc.prems in simp)
  with Suc show ?case by (auto simp: fun_eq_iff less_Suc_eq)
qed simp

section \<open>Splicing a node in\<close>

definition core :: "skip_node \<Rightarrow> skip_node" where
  "core n = n\<lparr>sn_next := []\<rparr>"

definition next_ok :: "skip_node list \<Rightarrow> bool" where
  "next_ok nodes \<longleftrightarrow> (\<forall>n \<in> set nodes. length (sn_next n) = MAX_HEIGHT)"

lemma set_next_props:
  assumes "next_ok nodes" and "i < length nodes" and "l < MAX_HEIGHT"
  shows "next_ok (set_next l p i nodes)" and "map core (set_next l p i nodes) = map core nodes"
    and "j < length nodes \<Longrightarrow> next_of (set_next l p i nodes) m j = (if m = l \<and> j = i then p else next_of nodes m j)"
proof -
  have len: "length (sn_next (nodes ! i)) = MAX_HEIGHT" using assms by (simp add: next_ok_def)
  then show "next_ok (set_next l p i nodes)"
    using assms(1) by (auto simp: next_ok_def set_next_def dest!: set_update_subset_insert [THEN subsetD])
  show "map core (set_next l p i nodes) = map core nodes"
    by (simp add: set_next_def map_update core_def list_update_same_conv assms(2))
  show "next_of (set_next l p i nodes) m j = (if m = l \<and> j = i then p else next_of nodes m j)" if "j < length nodes"
    using that assms len by (auto simp: next_of_def set_next_def nth_list_update)
qed

lemma length_core: "map core xs = map core ys \<Longrightarrow> length xs = length ys"
  using map_eq_imp_length_eq by blast

lemma splice_props:
  assumes "next_ok nodes" and "ni < length nodes" and "upd l < length nodes" and "l < MAX_HEIGHT" and "upd l \<noteq> ni"
  shows "next_ok (splice ni upd l nodes)" and "map core (splice ni upd l nodes) = map core nodes"
    and "j < length nodes \<Longrightarrow> next_of (splice ni upd l nodes) m j =
      (if m = l then ((next_of nodes l)(ni := next_of nodes l (upd l), upd l := Some ni)) j else next_of nodes m j)"
proof -
  let ?n1 = "set_next l (next_of nodes l (upd l)) ni nodes"
  note s1 = set_next_props [OF assms(1,2,4), where p = "next_of nodes l (upd l)"]
  have len: "length ?n1 = length nodes" by (simp add: set_next_def)
  note s2 = set_next_props [OF s1(1), where i = "upd l" and l = l and p = "Some ni"]
  show "next_ok (splice ni upd l nodes)" "map core (splice ni upd l nodes) = map core nodes"
    using s2(1,2) s1(2) assms len by (auto simp: splice_def Let_def)
  show "next_of (splice ni upd l nodes) m j =
      (if m = l then ((next_of nodes l)(ni := next_of nodes l (upd l), upd l := Some ni)) j else next_of nodes m j)"
    if "j < length nodes"
    using s2(3) [where j = j and m = m] s1(3) [where j = j and m = m] that assms len by (auto simp: splice_def Let_def)
qed

lemma fold_splice:
  assumes "next_ok nodes" and "ni < length nodes" and "\<forall>l < h. upd l < length nodes \<and> upd l \<noteq> ni" and "h \<le> MAX_HEIGHT"
  shows "next_ok (fold (splice ni upd) [0..<h] nodes) \<and> map core (fold (splice ni upd) [0..<h] nodes) = map core nodes
    \<and> (\<forall>m j. j < length nodes \<longrightarrow> next_of (fold (splice ni upd) [0..<h] nodes) m j =
      (if m < h then ((next_of nodes m)(ni := next_of nodes m (upd m), upd m := Some ni)) j else next_of nodes m j))"
  using assms(3,4)
proof (induction h)
  case (Suc h)
  let ?n = "fold (splice ni upd) [0..<h] nodes"
  have IH: "next_ok ?n" "map core ?n = map core nodes"
    "\<And>m j. j < length nodes \<Longrightarrow> next_of ?n m j =
      (if m < h then ((next_of nodes m)(ni := next_of nodes m (upd m), upd m := Some ni)) j else next_of nodes m j)"
    using Suc by auto
  have len: "length ?n = length nodes" by (rule length_core [OF IH(2)])
  have u: "upd h < length nodes" "upd h \<noteq> ni" "h < MAX_HEIGHT" using Suc.prems by auto
  note sp = splice_props [OF IH(1), of ni upd h, unfolded len, OF assms(2) u(1,3,2)]
  have "fold (splice ni upd) [0..<Suc h] nodes = splice ni upd h ?n" by simp
  then show ?case
    using sp IH assms(2) u by (auto simp: less_Suc_eq simp del: upt_Suc fold_append)
qed (use assms in simp)

lemma core_eqD:
  assumes "core a = core b"
  shows "sn_height a = sn_height b \<and> node_to_entry a = node_to_entry b
    \<and> sn_key a = sn_key b \<and> sn_sequence_number a = sn_sequence_number b"
  using assms by (cases a; cases b) (simp add: core_def node_to_entry_def)

lemma core_nth: "map core xs = map core ys \<Longrightarrow> i < length ys \<Longrightarrow> core (xs ! i) = core (ys ! i)"
  by (metis length_map nth_map)

lemma tall_cong: "(\<And>i. i \<in> set xs \<Longrightarrow> sn_height (ns' ! i) = sn_height (ns ! i)) \<Longrightarrow> tall ns' l xs = tall ns l xs"
  by (simp add: tall_def cong: filter_cong)

lemma lpos_mem: "lpos nodes T l = 0 \<or> lpos nodes T l \<in> set T"
proof (cases "tall nodes l T = []")
  case False
  then have "last (tall nodes l T) \<in> set (tall nodes l T)" by simp
  then show ?thesis using False by (simp add: lpos_def tall_def)
qed (simp add: lpos_def)

lemma splice_links:
  assumes links: "links_ok nodes (T @ D)" and h: "1 \<le> sn_height new" "sn_height new \<le> MAX_HEIGHT"
    and new: "length (sn_next new) = MAX_HEIGHT" "\<forall>l < MAX_HEIGHT. sn_next new ! l = None"
    and upd: "\<forall>l < sn_height new. upd l = lpos nodes T l"
  defines "nodes' \<equiv> fold (splice (length nodes) upd) [0..<sn_height new] (nodes @ [new])"
  shows "links_ok nodes' (T @ length nodes # D) \<and> map core nodes' = map core (nodes @ [new])"
proof -
  let ?n = "length nodes" and ?ns = "nodes @ [new]" and ?h = "sn_height new"
  have ok: "next_ok ?ns" using links new by (auto simp: next_ok_def links_ok_def)
  have ne: "nodes \<noteq> []" and set: "set (T @ D) = {1..<?n}" and dist: "distinct (T @ D)"
    using links unfolding links_ok_def by blast+
  have u: "upd l < ?n" if "l < ?h" for l
    using that upd lpos_mem [of nodes T l] set ne by (cases "lpos nodes T l = 0") (auto simp: set_eq_iff)
  have "\<forall>l < ?h. upd l < length ?ns \<and> upd l \<noteq> ?n" using u by (metis length_append_singleton less_SucI less_irrefl_nat)
  from fold_splice [OF ok _ this h(2)] have
    fs: "next_ok nodes'" "map core nodes' = map core ?ns"
      "\<And>m j. j < length ?ns \<Longrightarrow> next_of nodes' m j =
        (if m < ?h then ((next_of ?ns m)(?n := next_of ?ns m (upd m), upd m := Some ?n)) j else next_of ?ns m j)"
    by (auto simp: nodes'_def)
  have old: "next_of ?ns m j = next_of nodes m j" if "j < ?n" for m j
    using that by (simp add: next_of_def nth_append)
  have mem: "i < ?n" if "i \<in> set (0 # T @ D)" for i using that set ne by auto
  have ht: "sn_height (nodes' ! i) = sn_height (?ns ! i)" if "i < length ?ns" for i
    using core_eqD [OF core_nth [OF fs(2) that]] by simp
  have tl: "tall nodes' l xs = tall nodes l xs" if "set xs \<subseteq> set (T @ D)" for l xs
  proof (rule tall_cong)
    fix i assume "i \<in> set xs"
    then have "i < ?n" using that mem by auto
    then show "sn_height (nodes' ! i) = sn_height (nodes ! i)" using ht [of i] by (simp add: nth_append)
  qed
  have tn: "tall nodes' l (T @ ?n # D) = tall nodes l T @ (if l < ?h then [?n] else []) @ tall nodes l D" for l
    using tl [of T l] tl [of D l] ht [of ?n] by (simp add: tall_append) (simp add: tall_def)
  have "chain (next_of nodes' l) 0 (tall nodes' l (T @ ?n # D))" if l: "l < MAX_HEIGHT" for l
  proof -
    have c0: "chain (next_of nodes l) 0 (tall nodes l T @ tall nodes l D)"
      using links l by (simp add: links_ok_def tall_append)
    have sub: "set (0 # tall nodes l T @ tall nodes l D) \<subseteq> set (0 # T @ D)" by (auto simp: tall_def)
    show ?thesis
    proof (cases "l < ?h")
      case False
      have "chain (next_of nodes' l) 0 (tall nodes l T @ tall nodes l D)
          = chain (next_of nodes l) 0 (tall nodes l T @ tall nodes l D)"
      proof (rule chain_cong)
        fix x assume "x \<in> set (0 # tall nodes l T @ tall nodes l D)"
        then have "x < ?n" using sub mem by blast
        then show "next_of nodes' l x = next_of nodes l x" using fs(3) [of x l] False old by simp
      qed
      with c0 False show ?thesis by (simp add: tn)
    next
      case True
      let ?p = "last (0 # tall nodes l T)"
      have p: "?p = upd l" using upd True by (simp add: lpos_def)
      have d: "distinct (0 # tall nodes l T @ tall nodes l D)" and n: "?n \<notin> set (0 # tall nodes l T @ tall nodes l D)"
        using dist sub mem set unfolding tall_def by (auto simp: set_eq_iff) 
      from chain_splice [OF c0 d n]
      have c1: "chain ((next_of nodes l)(?n := next_of nodes l ?p, ?p := Some ?n)) 0 (tall nodes l T @ ?n # tall nodes l D)" .
      have "chain (next_of nodes' l) 0 (tall nodes l T @ ?n # tall nodes l D)
          = chain ((next_of nodes l)(?n := next_of nodes l ?p, ?p := Some ?n)) 0 (tall nodes l T @ ?n # tall nodes l D)"
      proof (rule chain_cong)
        fix x assume "x \<in> set (0 # tall nodes l T @ ?n # tall nodes l D)"
        then have "x = ?n \<or> x < ?n" using sub mem by auto
        then show "next_of nodes' l x = ((next_of nodes l)(?n := next_of nodes l ?p, ?p := Some ?n)) x"
          using fs(3) [of x l] True old u [OF True] unfolding p by auto
      qed
      with c1 True show ?thesis by (simp add: tn)
    qed
  qed
  moreover have "set (T @ ?n # D) = {1..<length nodes'}" "nodes' \<noteq> []"
  proof -
    have l: "length nodes' = Suc ?n" using length_core [OF fs(2)] by simp
    then show "nodes' \<noteq> []" by auto
    have "set (T @ ?n # D) = insert ?n (set (T @ D))" by simp
    also have "\<dots> = {1..<Suc ?n}" unfolding set using ne by (simp add: atLeastLessThanSuc Suc_le_eq)
    finally show "set (T @ ?n # D) = {1..<length nodes'}" by (simp only: l)
  qed
  moreover have "distinct (T @ ?n # D)"
  proof -
    have "?n \<notin> set (T @ D)" unfolding set by simp
    with dist show ?thesis by simp
  qed
  ultimately show ?thesis using fs(1,2) by (simp add: links_ok_def next_ok_def)
qed

section \<open>Insertion\<close>

definition ver_less :: "memtable_entry \<Rightarrow> memtable_entry \<Rightarrow> bool" where
  "ver_less a b \<longleftrightarrow> me_composite_key a < me_composite_key b
     \<or> me_composite_key a = me_composite_key b \<and> me_sequence_number b < me_sequence_number a"

definition same_version :: "memtable_entry \<Rightarrow> memtable_entry \<Rightarrow> bool" where
  "same_version a b \<longleftrightarrow> me_composite_key a = me_composite_key b \<and> me_sequence_number a = me_sequence_number b"

text \<open>Insertion in the sorted list of versions, replacing an equal version.\<close>

definition ins_version :: "memtable_entry \<Rightarrow> memtable_entry list \<Rightarrow> memtable_entry list" where
  "ins_version e xs = takeWhile (\<lambda>x. ver_less x e) xs @ e # dropWhile (same_version e) (dropWhile (\<lambda>x. ver_less x e) xs)"

lemma compare_entries_Less:
  "compare_entries a s b t = Less \<longleftrightarrow> a < b \<or> a = b \<and> t < s"
  by (auto simp: compare_entries_def cmp_def split: ordering.splits)

lemma me_keys [simp]:
  "me_composite_key (node_to_entry n) = sn_key n" "me_sequence_number (node_to_entry n) = sn_sequence_number n"
  by (simp_all add: node_to_entry_def me_with_sequence_def)

lemma node_less_ver: "node_less a b \<longleftrightarrow> ver_less (node_to_entry a) (node_to_entry b)"
  by (simp add: node_less_def ver_less_def compare_entries_Less)

lemma entry_before_ver: "entry_before e n \<longleftrightarrow> ver_less (node_to_entry n) e"
  by (simp add: entry_before_def ver_less_def compare_entries_Less)

lemma ver_less_trans: "ver_less a b \<Longrightarrow> ver_less b c \<Longrightarrow> ver_less a c"
  by (auto simp: ver_less_def)

lemma ver_less_irrefl [simp]: "\<not> ver_less a a"
  by (simp add: ver_less_def)

lemma ver_less_total: "ver_less a b \<or> ver_less b a \<or> same_version a b"
  by (auto simp: ver_less_def same_version_def)

lemma random_height_from_bounds:
  "1 \<le> h \<Longrightarrow> h \<le> MAX_HEIGHT \<Longrightarrow> 1 \<le> fst (random_height_from h r) \<and> fst (random_height_from h r) \<le> MAX_HEIGHT"
  by (induction h r rule: random_height_from.induct)
    (subst (1 2) random_height_from.simps, auto split: prod.splits)

lemma random_height_bounds:
  "random_height r = (h, r') \<Longrightarrow> 1 \<le> h \<and> h \<le> MAX_HEIGHT"
  using random_height_from_bounds [of 1 r] by (simp add: random_height_def MAX_HEIGHT_def)

definition view :: "skip_node list \<Rightarrow> nat list \<Rightarrow> memtable_entry list" where
  "view nodes ord = map (\<lambda>i. node_to_entry (nodes ! i)) ord"

lemma sl_inv_sorted: "sl_inv s ord \<Longrightarrow> sorted_wrt ver_less (view (sl_nodes s) ord)"
  by (simp add: sl_inv_def view_def sorted_wrt_map node_less_ver)

lemma split_order:
  assumes "sl_inv s ord" and "\<And>a b. node_less a b \<Longrightarrow> lt b \<Longrightarrow> lt a"
  defines "T \<equiv> takeWhile (\<lambda>i. lt (sl_nodes s ! i)) ord" and "D \<equiv> dropWhile (\<lambda>i. lt (sl_nodes s ! i)) ord"
  shows "ord = T @ D \<and> (\<forall>i \<in> set T. lt (sl_nodes s ! i)) \<and> (\<forall>i \<in> set D. \<not> lt (sl_nodes s ! i))
    \<and> links_ok (sl_nodes s) (T @ D)"
proof -
  have "sorted_wrt (\<lambda>i j. node_less (sl_nodes s ! i) (sl_nodes s ! j)) ord"
    using assms(1) by (simp add: sl_inv_def sorted_wrt_map)
  from sorted_wrt_takeWhile_filter(2) [OF this, of "\<lambda>i. lt (sl_nodes s ! i)"] assms(2)
  have "D = filter (\<lambda>i. \<not> lt (sl_nodes s ! i)) ord" by (auto simp: D_def)
  then have "\<forall>i \<in> set D. \<not> lt (sl_nodes s ! i)" by simp
  moreover have "ord = T @ D" by (simp add: T_def D_def)
  moreover from this have "links_ok (sl_nodes s) (T @ D)" using assms(1) by (simp add: sl_inv_def)
  ultimately show ?thesis by (auto simp: T_def dest: set_takeWhileD)
qed

lemma lpos_top:
  assumes "sl_inv s ord" and "set T \<subseteq> set ord" and "sl_height s \<le> l"
  shows "lpos (sl_nodes s) T l = 0"
proof -
  have "tall (sl_nodes s) l T = []"
    using assms by (fastforce simp: tall_def filter_empty_conv sl_inv_def)
  then show ?thesis by (simp add: lpos_def)
qed

lemma chain_level0:
  assumes "sl_inv s (T @ D)"
  shows "chain (next_of (sl_nodes s) 0) (last (0 # T)) D" and "lpos (sl_nodes s) T 0 = last (0 # T)"
proof -
  have "\<forall>i \<in> set (T @ D). 0 < sn_height (sl_nodes s ! i)" using assms unfolding sl_inv_def by (auto simp: Suc_le_eq)
  then have "tall (sl_nodes s) 0 xs = xs" if "set xs \<subseteq> set (T @ D)" for xs
    unfolding tall_def filter_id_conv using that by blast
  then have t: "tall (sl_nodes s) 0 T = T" "tall (sl_nodes s) 0 (T @ D) = T @ D" by auto
  have "0 < MAX_HEIGHT" by (simp add: MAX_HEIGHT_def)
  then have "chain (next_of (sl_nodes s) 0) 0 (tall (sl_nodes s) 0 (T @ D))"
    using assms unfolding sl_inv_def links_ok_def by blast
  then show "chain (next_of (sl_nodes s) 0) (last (0 # T)) D" unfolding t(2) by (rule chain_suffix)
  show "lpos (sl_nodes s) T 0 = last (0 # T)" by (simp add: lpos_def t)
qed

lemma next_after:
  assumes "sl_inv s (T @ D)"
  shows "next_of (sl_nodes s) 0 (lpos (sl_nodes s) T 0) = (case D of [] \<Rightarrow> None | d # _ \<Rightarrow> Some d)"
  using chain_level0 [OF assms] by (cases D) simp_all

lemma descend_sl:
  assumes inv: "sl_inv s (T @ D)" and "\<forall>i \<in> set T. lt (sl_nodes s ! i)" and "\<forall>i \<in> set D. \<not> lt (sl_nodes s ! i)"
    and "sl_height s \<le> h" "h \<le> MAX_HEIGHT"
  shows "descend (sl_nodes s) lt h 0 (\<lambda>_. 0) = Some (lpos (sl_nodes s) T 0, \<lambda>i. lpos (sl_nodes s) T i)"
proof -
  have top: "lpos (sl_nodes s) T l = 0" if "h \<le> l" for l
    using lpos_top [OF inv, of T l] that assms(4) by simp
  have "links_ok (sl_nodes s) (T @ D)" using inv by (simp add: sl_inv_def)
  from descend_spec [OF this assms(5,2,3), of "\<lambda>_. 0"] top show ?thesis
    by (auto simp: fun_eq_iff)
qed

lemma view_append: "view nodes (xs @ ys) = view nodes xs @ view nodes ys"
  by (simp add: view_def)

lemma ins_version_split:
  assumes "\<forall>x \<in> set xs. ver_less x e" and "\<forall>x \<in> set ys. \<not> ver_less x e"
  shows "ins_version e (xs @ ys) = xs @ e # dropWhile (same_version e) ys"
proof -
  have "takeWhile (\<lambda>x. ver_less x e) (xs @ ys) = xs" "dropWhile (\<lambda>x. ver_less x e) (xs @ ys) = ys"
    using assms by (cases ys; simp)+
  then show ?thesis by (simp add: ins_version_def)
qed

lemma drop_same:
  assumes "sorted_wrt ver_less (y # ys)"
  shows "dropWhile (same_version e) (y # ys) = (if same_version e y then ys else y # ys)"
proof (cases ys)
  case (Cons z zs)
  then have "same_version e y \<Longrightarrow> \<not> same_version e z" using assms by (auto simp: same_version_def ver_less_def)
  with Cons show ?thesis by simp
qed simp

lemma links_ok_replace:
  assumes "links_ok nodes ord" and "i < length nodes"
    and "sn_next n = sn_next (nodes ! i)" and "sn_height n = sn_height (nodes ! i)"
  shows "links_ok (nodes[i := n]) ord"
proof -
  have h: "sn_height (nodes[i := n] ! j) = sn_height (nodes ! j)" and x: "sn_next (nodes[i := n] ! j) = sn_next (nodes ! j)" for j
    using assms(2-4) by (cases "j = i"; simp)+
  have t: "tall (nodes[i := n]) l xs = tall nodes l xs" for l xs by (rule tall_cong) (rule h)
  have nx: "next_of (nodes[i := n]) l = next_of nodes l" for l by (simp add: next_of_def x fun_eq_iff)
  have "\<forall>m \<in> set (nodes[i := n]). length (sn_next m) = MAX_HEIGHT"
    using assms by (auto simp: links_ok_def dest!: set_update_subset_insert [THEN subsetD])
  with assms(1) show ?thesis by (simp add: links_ok_def t nx)
qed

definition replace_node :: "memtable_entry \<Rightarrow> skip_node \<Rightarrow> skip_node" where
  "replace_node e n = n\<lparr>sn_value := me_value e, sn_metadata := me_metadata e, sn_entry_type := me_entry_type e,
     sn_idempotency_key := me_idempotency_key e\<rparr>"

lemma sl_replace_inv:
  assumes inv: "sl_inv s (T @ d # D)" and eq: "same_version e (node_to_entry (sl_nodes s ! d))"
  defines "nodes' \<equiv> (sl_nodes s)[d := replace_node e (sl_nodes s ! d)]"
  shows "sl_inv (s\<lparr>sl_nodes := nodes'\<rparr>) (T @ d # D)
    \<and> view nodes' (T @ d # D) = view (sl_nodes s) T @ e # view (sl_nodes s) D"
proof -
  let ?n = "replace_node e (sl_nodes s ! d)"
  have d: "d < length (sl_nodes s)" and dist: "d \<notin> set T" "d \<notin> set D"
    using inv by (auto simp: sl_inv_def links_ok_def set_eq_iff)
  have same: "sn_height ?n = sn_height (sl_nodes s ! d)" "sn_next ?n = sn_next (sl_nodes s ! d)"
    "sn_key ?n = sn_key (sl_nodes s ! d)" "sn_sequence_number ?n = sn_sequence_number (sl_nodes s ! d)"
    by (simp_all add: replace_node_def)
  have k: "sn_key (nodes' ! j) = sn_key (sl_nodes s ! j)" "sn_sequence_number (nodes' ! j) = sn_sequence_number (sl_nodes s ! j)"
    "sn_height (nodes' ! j) = sn_height (sl_nodes s ! j)" for j
    using d same by (cases "j = d"; simp add: nodes'_def)+
  have links: "links_ok nodes' (T @ d # D)"
    unfolding nodes'_def by (rule links_ok_replace) (use inv d same in \<open>auto simp: sl_inv_def\<close>)
  have "sorted_wrt (\<lambda>i j. node_less (nodes' ! i) (nodes' ! j)) (T @ d # D)"
    using inv unfolding sl_inv_def sorted_wrt_map node_less_def k by blast
  then have "sorted_wrt node_less (map ((!) nodes') (T @ d # D))" by (simp only: sorted_wrt_map)
  then have "sl_inv (s\<lparr>sl_nodes := nodes'\<rparr>) (T @ d # D)"
    using inv links by (simp add: sl_inv_def k)
  moreover have "node_to_entry (nodes' ! d) = e"
    using d eq by (simp add: nodes'_def node_to_entry_def replace_node_def me_with_sequence_def same_version_def)
  moreover have "view nodes' xs = view (sl_nodes s) xs" if "d \<notin> set xs" for xs
    using that by (auto simp: view_def nodes'_def intro!: map_cong nth_list_update_neq arg_cong [of _ _ node_to_entry])
  ultimately show ?thesis using dist by (simp add: view_append) (simp add: view_def)
qed

lemma sl_push_inv:
  assumes inv: "sl_inv s (T @ D)" and h: "1 \<le> h" "h \<le> MAX_HEIGHT" and e: "\<forall>i \<in> set T. ver_less (node_to_entry (sl_nodes s ! i)) e"
      "\<forall>i \<in> set D. ver_less e (node_to_entry (sl_nodes s ! i))"
  defines "nodes' \<equiv> fold (splice (length (sl_nodes s)) (\<lambda>i. lpos (sl_nodes s) T i)) [0..<h] (sl_nodes s @ [skip_node_new e h])"
  shows "sl_inv (s\<lparr>sl_rng := r, sl_height := max h (sl_height s), sl_nodes := nodes', sl_len := sl_len s + 1, sl_arena := a\<rparr>)
      (T @ length (sl_nodes s) # D)
    \<and> view nodes' (T @ length (sl_nodes s) # D) = view (sl_nodes s) T @ e # view (sl_nodes s) D"
proof -
  let ?new = "skip_node_new e h" and ?n = "length (sl_nodes s)"
  have links0: "links_ok (sl_nodes s) (T @ D)" using inv by (simp add: sl_inv_def)
  have hn: "sn_height ?new = h" by (simp add: skip_node_new_def)
  have "links_ok nodes' (T @ ?n # D) \<and> map core nodes' = map core (sl_nodes s @ [?new])"
    unfolding nodes'_def
    by (rule splice_links [OF links0, where new = ?new, unfolded hn]) (use h in \<open>simp_all add: skip_node_new_def\<close>)
  then have links: "links_ok nodes' (T @ ?n # D)" and cr: "map core nodes' = map core (sl_nodes s @ [?new])" by auto
  have old: "core (nodes' ! i) = core (sl_nodes s ! i)" if "i \<in> set (T @ D)" for i
  proof -
    have "i < ?n" using that links0 unfolding links_ok_def by auto
    then show ?thesis using core_nth [OF cr, of i] by (simp add: nth_append)
  qed
  have nw: "core (nodes' ! ?n) = core ?new" using core_nth [OF cr, of ?n] by (simp add: nth_append)
  have ne: "node_to_entry ?new = e" by (simp add: node_to_entry_def skip_node_new_def me_with_sequence_def)
  have v: "view nodes' xs = view (sl_nodes s) xs" if "set xs \<subseteq> set (T @ D)" for xs
    unfolding view_def by (rule map_cong) (use that old core_eqD in blast)+
  have vn: "node_to_entry (nodes' ! ?n) = e" using core_eqD [OF nw] ne by simp
  have view': "view nodes' (T @ ?n # D) = view (sl_nodes s) T @ e # view (sl_nodes s) D"
    using v [of T] v [of D] vn by (simp add: view_append) (simp add: view_def)
  have "sorted_wrt ver_less (view nodes' (T @ ?n # D))"
    unfolding view' using sl_inv_sorted [OF inv] e by (auto simp: view_def sorted_wrt_append intro: ver_less_trans)
  then have "sorted_wrt node_less (map ((!) nodes') (T @ ?n # D))"
    unfolding view_def sorted_wrt_map node_less_ver .
  moreover have "\<forall>i \<in> set (T @ ?n # D). 1 \<le> sn_height (nodes' ! i) \<and> sn_height (nodes' ! i) \<le> max h (sl_height s)"
  proof
    fix i assume "i \<in> set (T @ ?n # D)"
    then consider "i = ?n" | "i \<in> set (T @ D)" by auto
    then show "1 \<le> sn_height (nodes' ! i) \<and> sn_height (nodes' ! i) \<le> max h (sl_height s)"
    proof cases
      case 1
      then show ?thesis using core_eqD [OF nw] h hn by simp
    next
      case 2
      then show ?thesis using core_eqD [OF old] inv unfolding sl_inv_def by (auto simp: le_max_iff_disj)
    qed
  qed
  ultimately show ?thesis using inv links h view' by (simp add: sl_inv_def)
qed

lemma sl_insert_spec:
  assumes inv: "sl_inv s ord"
  shows "\<exists>s' ord'. sl_insert node_size e s = Some s' \<and> sl_inv s' ord'
    \<and> view (sl_nodes s') ord' = ins_version e (view (sl_nodes s) ord)"
proof -
  let ?nodes = "sl_nodes s"
  obtain h r where r: "random_height (sl_rng s) = (h, r)" by fastforce
  then have h: "1 \<le> h" "h \<le> MAX_HEIGHT" using random_height_bounds by auto
  have mono: "\<And>a b. node_less a b \<Longrightarrow> entry_before e b \<Longrightarrow> entry_before e a"
    by (auto simp: node_less_ver entry_before_ver intro: ver_less_trans)
  define T D where "T = takeWhile (\<lambda>i. entry_before e (?nodes ! i)) ord"
    and "D = dropWhile (\<lambda>i. entry_before e (?nodes ! i)) ord"
  note sp = split_order [OF inv, of "entry_before e", OF mono, folded T_def D_def]
  have ord: "ord = T @ D" and T: "\<forall>i \<in> set T. entry_before e (?nodes ! i)"
      and D: "\<forall>i \<in> set D. \<not> entry_before e (?nodes ! i)"
    using sp by auto
  let ?h = "if h > sl_height s then h else sl_height s"
  have hh: "sl_height s \<le> ?h" "?h \<le> MAX_HEIGHT" "?h = max h (sl_height s)"
    using h inv by (auto simp: sl_inv_def)
  have head: "sl_head s = 0" using inv by (simp add: sl_inv_def)
  note desc = descend_sl [OF inv [unfolded ord] T D hh(1,2)]
  note nxt = next_after [OF inv [unfolded ord]]
  have ins: "ins_version e (view ?nodes ord) = view ?nodes T @ e # dropWhile (same_version e) (view ?nodes D)"
    unfolding ord view_append by (rule ins_version_split) (use T D in \<open>auto simp: view_def entry_before_ver\<close>)
  have srt: "sorted_wrt ver_less (view ?nodes T @ view ?nodes D)"
    using sl_inv_sorted [OF inv] by (simp add: ord view_append)
  note unf = sl_insert_def Let_def r head prod.case
  show ?thesis
  proof (cases "\<exists>d D'. D = d # D' \<and> same_version e (node_to_entry (?nodes ! d))")
    case True
    then obtain d D' where d: "D = d # D'" and eq: "same_version e (node_to_entry (?nodes ! d))" by blast
    let ?s = "s\<lparr>sl_rng := r, sl_height := ?h, sl_nodes := ?nodes[d := replace_node e (?nodes ! d)]\<rparr>"
    have "sl_inv (s\<lparr>sl_rng := r, sl_height := ?h\<rparr>) (T @ d # D')"
      using inv hh unfolding sl_inv_def ord d by (auto simp: le_max_iff_disj)
    from sl_replace_inv [OF this] eq have
      "sl_inv ?s ord \<and> view (sl_nodes ?s) ord = view ?nodes T @ e # view ?nodes D'" by (simp add: ord d)
    moreover have "dropWhile (same_version e) (view ?nodes D) = view ?nodes D'"
      using drop_same [of "node_to_entry (?nodes ! d)" "view ?nodes D'" e] eq srt
      by (simp add: d view_def sorted_wrt_append)
    moreover have "sl_insert node_size e s = Some ?s"
      using eq nxt by (simp add: unf desc d replace_node_def same_version_def)
    ultimately show ?thesis using ins by auto
  next
    case False
    have De: "\<forall>i \<in> set D. ver_less e (node_to_entry (?nodes ! i))"
    proof (cases D)
      case (Cons d D')
      then have first: "ver_less e (node_to_entry (?nodes ! d))"
        using False D ver_less_total [of e] by (auto simp: entry_before_ver)
      moreover have "\<forall>i \<in> set D'. ver_less (node_to_entry (?nodes ! d)) (node_to_entry (?nodes ! i))"
        using srt by (auto simp: Cons view_def sorted_wrt_append)
      ultimately show ?thesis using Cons by (auto intro: ver_less_trans)
    qed simp
    have Te: "\<forall>i \<in> set T. ver_less (node_to_entry (?nodes ! i)) e" using T by (simp add: entry_before_ver)
    let ?a = "snd (arena_allocate (approximate_entry_size node_size e) (sl_arena s))"
    let ?nodes' = "fold (splice (length ?nodes) (\<lambda>i. lpos ?nodes T i)) [0..<h] (?nodes @ [skip_node_new e h])"
    let ?s = "s\<lparr>sl_rng := r, sl_height := ?h, sl_nodes := ?nodes', sl_len := sl_len s + 1, sl_arena := ?a\<rparr>"
    have "dropWhile (same_version e) (view ?nodes D) = view ?nodes D"
      using False by (cases D) (auto simp: view_def)
    moreover have "sl_inv ?s (T @ length ?nodes # D) \<and>
        view (sl_nodes ?s) (T @ length ?nodes # D) = view ?nodes T @ e # view ?nodes D"
      using sl_push_inv [OF inv [unfolded ord] h Te De, where r = r and a = ?a] unfolding hh(3) by simp
    moreover have "sl_insert node_size e s = Some ?s"
      using False nxt by (cases D) (auto simp: unf desc same_version_def)
    ultimately show ?thesis using ins by metis
  qed
qed

section \<open>Lookups and iteration\<close>

lemma collect_chain:
  "chain (next_of nodes 0) x xs \<Longrightarrow> length xs < fuel \<Longrightarrow>
     sl_collect fuel nodes stop (Some x) = Some (takeWhile (\<lambda>n. \<not> stops stop n) (map ((!) nodes) (x # xs)))"
proof (induction xs arbitrary: x fuel)
  case Nil
  then obtain k where "fuel = Suc k" by (cases fuel) auto
  with Nil show ?case by (simp add: Let_def)
next
  case (Cons y xs)
  then obtain k where "fuel = Suc k" by (cases fuel) auto
  with Cons show ?case by (simp add: Let_def)
qed

lemma idx_order_chain:
  "chain (next_of nodes 0) x xs \<Longrightarrow> length xs < fuel \<Longrightarrow> idx_order fuel nodes (Some x) = Some (x # xs)"
proof (induction xs arbitrary: x fuel)
  case Nil
  then obtain k where "fuel = Suc k" by (cases fuel) auto
  with Nil show ?case by simp
next
  case (Cons y xs)
  then obtain k where "fuel = Suc k" by (cases fuel) auto
  with Cons show ?case by simp
qed

lemma collect_suffix:
  assumes "sl_inv s (T @ D)"
  shows "sl_collect (length (sl_nodes s)) (sl_nodes s) stop (case D of [] \<Rightarrow> None | d # _ \<Rightarrow> Some d)
    = Some (takeWhile (\<lambda>n. \<not> stops stop n) (map ((!) (sl_nodes s)) D))"
proof (cases D)
  case (Cons d D')
  have "length (T @ D) < length (sl_nodes s)" by (rule length_ord) (use assms in \<open>simp add: sl_inv_def\<close>)
  moreover have "chain (next_of (sl_nodes s) 0) d D'" using chain_level0(1) [OF assms] Cons by simp
  ultimately have "sl_collect (length (sl_nodes s)) (sl_nodes s) stop (Some d)
      = Some (takeWhile (\<lambda>n. \<not> stops stop n) (map ((!) (sl_nodes s)) (d # D')))"
    by (intro collect_chain) (simp_all add: Cons)
  then show ?thesis by (simp only: Cons list.case)
qed simp

lemma sl_iter_spec:
  assumes "sl_inv s ord"
  shows "sl_iter s = Some (map ((!) (sl_nodes s)) ord)"
proof -
  have "next_of (sl_nodes s) 0 0 = (case ord of [] \<Rightarrow> None | d # _ \<Rightarrow> Some d)"
    using next_after [of s "[]" ord] assms by (simp add: lpos_def tall_def)
  with collect_suffix [of s "[]" ord StopNone] assms show ?thesis by (simp add: sl_iter_def sl_inv_def)
qed

lemma seek_spec:
  assumes "sl_inv s ord" and "\<And>a b. node_less a b \<Longrightarrow> lt b \<Longrightarrow> lt a"
  defines "T \<equiv> takeWhile (\<lambda>i. lt (sl_nodes s ! i)) ord" and "D \<equiv> dropWhile (\<lambda>i. lt (sl_nodes s ! i)) ord"
  shows "\<exists>c u. descend (sl_nodes s) lt (sl_height s) (sl_head s) (\<lambda>_. sl_head s) = Some (c, u)
    \<and> next_of (sl_nodes s) 0 c = (case D of [] \<Rightarrow> None | d # _ \<Rightarrow> Some d) \<and> sl_inv s (T @ D)"
proof -
  note sp = split_order [OF assms(1), of lt, OF assms(2), folded T_def D_def]
  have inv: "sl_inv s (T @ D)" using assms(1) by (simp add: T_def D_def)
  have "sl_head s = 0" "sl_height s \<le> MAX_HEIGHT" using inv by (auto simp: sl_inv_def)
  then show ?thesis using descend_sl [OF inv, of lt "sl_height s"] sp next_after [OF inv] inv by auto
qed

lemma node_less_key: "node_less a b \<Longrightarrow> sn_key b < k \<Longrightarrow> sn_key a < k"
  by (auto simp: node_less_def compare_entries_Less)

lemma sl_seek_to_spec:
  fixes k :: composite_key
  assumes "sl_inv s ord"
  defines "D \<equiv> dropWhile (\<lambda>i. sn_key (sl_nodes s ! i) < k) ord"
  shows "sl_seek_to k s = Some (case D of [] \<Rightarrow> None | d # _ \<Rightarrow> Some d)"
    and "sl_collect (length (sl_nodes s)) (sl_nodes s) stop (case D of [] \<Rightarrow> None | d # _ \<Rightarrow> Some d)
      = Some (takeWhile (\<lambda>n. \<not> stops stop n) (map ((!) (sl_nodes s)) D))"
  using seek_spec [OF assms(1), of "\<lambda>n. sn_key n < k"] node_less_key collect_suffix
  unfolding D_def sl_seek_to_def by fastforce+

lemma sl_get_spec:
  assumes "sl_inv s ord"
  shows "\<exists>r. sl_get k s = Some r \<and> map_option node_to_entry r
    = find (\<lambda>e. me_composite_key e = k) (view (sl_nodes s) ord)"
proof -
  let ?lt = "\<lambda>n. cmp (sn_key n) k = Less"
  have lt: "?lt n \<longleftrightarrow> sn_key n < k" for n by (simp add: cmp_def)
  define D where "D = dropWhile (\<lambda>i. ?lt (sl_nodes s ! i)) ord"
  obtain c u where c: "descend (sl_nodes s) ?lt (sl_height s) (sl_head s) (\<lambda>_. sl_head s) = Some (c, u)"
      "next_of (sl_nodes s) 0 c = (case D of [] \<Rightarrow> None | d # _ \<Rightarrow> Some d)"
    using seek_spec [OF assms, of ?lt] node_less_key unfolding lt D_def by blast
  have pre: "find (\<lambda>e. me_composite_key e = k) (view (sl_nodes s) ord)
      = find (\<lambda>e. me_composite_key e = k) (view (sl_nodes s) D)"
    unfolding D_def by (induction ord) (auto simp: view_def lt)
  have "find (\<lambda>e. me_composite_key e = k) (view (sl_nodes s) D)
      = (case D of [] \<Rightarrow> None | d # _ \<Rightarrow> if sn_key (sl_nodes s ! d) = k then Some (node_to_entry (sl_nodes s ! d)) else None)"
  proof (cases D)
    case (Cons d D')
    have "sorted_wrt ver_less (view (sl_nodes s) (takeWhile (\<lambda>i. ?lt (sl_nodes s ! i)) ord @ D))"
      using sl_inv_sorted [OF assms] by (simp add: D_def)
    then have "\<forall>e \<in> set (view (sl_nodes s) D'). sn_key (sl_nodes s ! d) \<le> me_composite_key e"
      unfolding view_append Cons by (auto simp: view_def sorted_wrt_append ver_less_def)
    moreover have "\<not> ?lt (sl_nodes s ! d)" using Cons unfolding D_def dropWhile_eq_Cons_conv by blast
    ultimately have "find (\<lambda>e. me_composite_key e = k) (view (sl_nodes s) D') = None" if "sn_key (sl_nodes s ! d) \<noteq> k"
      using that by (fastforce simp: find_None_iff lt)
    then show ?thesis by (simp add: Cons view_def)
  qed (simp add: view_def)
  then show ?thesis using c by (auto simp: sl_get_def pre split: list.splits)
qed

definition sl_ok :: "skip_list \<Rightarrow> bool" where
  "sl_ok s \<longleftrightarrow> (\<exists>ord. sl_inv s ord)"

definition sl_entries :: "skip_list \<Rightarrow> memtable_entry list" where
  "sl_entries s = map node_to_entry (the (sl_iter s))"

lemma sl_entries_view: "sl_inv s ord \<Longrightarrow> sl_entries s = view (sl_nodes s) ord"
  by (simp add: sl_entries_def sl_iter_spec view_def)

lemma sl_new_ok: "sl_ok (sl_new r) \<and> sl_entries (sl_new r) = []"
proof -
  have "sl_inv (sl_new r) []"
    by (simp add: sl_inv_def links_ok_def sl_new_def sl_with_arena_def sentinel_def tall_def next_of_def MAX_HEIGHT_def)
  then show ?thesis using sl_entries_view by (force simp: sl_ok_def view_def)
qed

lemma takeWhile_dropWhile_key:
  assumes "sorted_wrt ver_less es"
  shows "takeWhile (\<lambda>e. me_composite_key e < b) (dropWhile (\<lambda>e. me_composite_key e < a) es)
    = filter (\<lambda>e. a \<le> me_composite_key e \<and> me_composite_key e < b) es"
proof -
  have mono: "ver_less x y \<Longrightarrow> me_composite_key y < c \<Longrightarrow> me_composite_key x < c" for x y c
    by (auto simp: ver_less_def)
  have "dropWhile (\<lambda>e. me_composite_key e < a) es = filter (\<lambda>e. \<not> me_composite_key e < a) es"
    by (rule sorted_wrt_takeWhile_filter(2) [OF assms]) (rule mono)
  moreover have "takeWhile (\<lambda>e. me_composite_key e < b) (filter (\<lambda>e. \<not> me_composite_key e < a) es)
      = filter (\<lambda>e. me_composite_key e < b) (filter (\<lambda>e. \<not> me_composite_key e < a) es)"
    by (rule sorted_wrt_takeWhile_filter(1) [OF sorted_wrt_filter [OF assms]]) (rule mono)
  ultimately show ?thesis by (simp add: not_less conj_commute)
qed

lemma takeWhile_dropWhile_record:
  assumes "sorted_wrt ver_less es" and "\<forall>e \<in> set es. ck_ok (me_composite_key e)" and "rid_ok rid"
  defines "m \<equiv> CompositeKey (rid @ [SEPARATOR])"
  shows "takeWhile (\<lambda>e. record_id (me_composite_key e) = rid) (dropWhile (\<lambda>e. me_composite_key e < m) es)
    = filter (\<lambda>e. record_id (me_composite_key e) = rid) es"
proof -
  let ?P = "\<lambda>e. record_id (me_composite_key e) = rid"
  have sep: "SEPARATOR \<notin> set rid" using assms(3) by (rule rid_ok_sep)
  have m: "ck_ok m" "record_id m = rid" using sep record_id_prefix [OF sep, of m] by (auto simp: m_def)
  have dw: "dropWhile (\<lambda>e. me_composite_key e < m) es = filter (\<lambda>e. \<not> me_composite_key e < m) es"
    by (rule sorted_wrt_takeWhile_filter(2) [OF assms(1)]) (auto simp: ver_less_def)
  let ?D = "filter (\<lambda>e. \<not> me_composite_key e < m) es"
  let ?R = "\<lambda>a b. ver_less a b \<and> m \<le> me_composite_key a \<and> ck_ok (me_composite_key b)"
  have "sorted_wrt ?R ?D"
    by (rule sorted_wrt_mono_rel [OF _ sorted_wrt_filter [OF assms(1)]]) (use assms(2) in \<open>auto simp: not_less\<close>)
  then have "takeWhile ?P ?D = filter ?P ?D"
  proof (rule sorted_wrt_takeWhile_filter(1))
    fix a b assume "?R a b" and b: "?P b"
    then have "m \<le> me_composite_key a" "me_composite_key a \<le> me_composite_key b" "ck_ok (me_composite_key b)"
      by (auto simp: ver_less_def)
    from record_interval(2) [OF m(1) this(3) m(2) b this(1,2)] show "?P a" .
  qed
  moreover have "m \<le> me_composite_key e" if e: "e \<in> set es" "?P e" for e
  proof -
    obtain ik where "me_composite_key e = CompositeKey ((rid @ [SEPARATOR]) @ ik)"
      using iffD1 [OF record_id_prefix [OF sep, of "me_composite_key e"]] e assms(2) by auto
    then show ?thesis by (simp add: m_def less_eq_composite_key_def)
  qed
  then have "filter ?P ?D = filter ?P es" unfolding filter_filter by (intro filter_cong) (auto simp: not_less)
  ultimately show ?thesis by (simp only: dw)
qed

lemma take_nodes_spec:
  "distinct idx \<Longrightarrow> \<forall>i \<in> set idx. i < length m \<and> m ! i \<noteq> None \<Longrightarrow> take_nodes m idx = map (\<lambda>i. the (m ! i)) idx"
proof (induction idx arbitrary: m)
  case (Cons i idx)
  then obtain n where n: "m ! i = Some n" by auto
  have "take_nodes (m[i := None]) idx = map (\<lambda>j. the (m[i := None] ! j)) idx"
    by (rule Cons.IH) (use Cons.prems in \<open>auto simp: nth_list_update\<close>)
  also have "\<dots> = map (\<lambda>j. the (m ! j)) idx" using Cons.prems(1) by simp (metis nth_list_update_neq)
  finally show ?case using n by simp
qed simp

lemma sl_into_iter_spec:
  assumes "sl_inv s ord"
  shows "sl_into_iter s = sl_iter s"
proof -
  have len: "length ord < length (sl_nodes s)" and head: "sl_head s = 0"
    using assms length_ord unfolding sl_inv_def by blast+
  have ok: "distinct ord" "\<forall>i \<in> set ord. i < length (sl_nodes s)"
    using assms unfolding sl_inv_def links_ok_def by auto
  have "next_of (sl_nodes s) 0 0 = (case ord of [] \<Rightarrow> None | d # _ \<Rightarrow> Some d)"
    using next_after [of s "[]" ord] assms by (simp add: lpos_def tall_def)
  moreover have "chain (next_of (sl_nodes s) 0) 0 ord" using chain_level0(1) [of s "[]" ord] assms by simp
  ultimately have "idx_order (length (sl_nodes s)) (sl_nodes s) (next_of (sl_nodes s) 0 0) = Some ord"
    using len by (cases ord) (auto intro!: idx_order_chain)
  moreover have "take_nodes (map Some (sl_nodes s)) ord = map ((!) (sl_nodes s)) ord"
    using ok by (subst take_nodes_spec) auto
  ultimately show ?thesis by (simp add: sl_into_iter_def head sl_iter_spec [OF assms])
qed

section \<open>The contract of the version store\<close>

locale version_store =
  fixes ok :: "'s \<Rightarrow> bool" and entries :: "'s \<Rightarrow> memtable_entry list"
    and insert :: "nat \<Rightarrow> memtable_entry \<Rightarrow> 's \<Rightarrow> 's option"
    and get :: "composite_key \<Rightarrow> 's \<Rightarrow> skip_node option option"
    and range :: "composite_key \<Rightarrow> composite_key \<Rightarrow> 's \<Rightarrow> skip_node list option"
    and scan_record :: "bytes \<Rightarrow> 's \<Rightarrow> skip_node list option"
    and iter :: "'s \<Rightarrow> skip_node list option"
  assumes sorted: "ok s \<Longrightarrow> sorted_wrt ver_less (entries s)"
    and insert_spec: "ok s \<Longrightarrow> \<exists>s'. insert n e s = Some s' \<and> ok s' \<and> entries s' = ins_version e (entries s)"
    and get_spec: "ok s \<Longrightarrow> \<exists>r. get k s = Some r
      \<and> map_option node_to_entry r = find (\<lambda>e. me_composite_key e = k) (entries s)"
    and range_spec: "ok s \<Longrightarrow> \<exists>ns. range a b s = Some ns
      \<and> map node_to_entry ns = filter (\<lambda>e. a \<le> me_composite_key e \<and> me_composite_key e < b) (entries s)"
    and scan_record_spec: "ok s \<Longrightarrow> \<forall>e \<in> set (entries s). ck_ok (me_composite_key e) \<Longrightarrow> \<exists>ns. scan_record rid s = Some ns
      \<and> map node_to_entry ns = (if rid_ok rid then filter (\<lambda>e. record_id (me_composite_key e) = rid) (entries s) else [])"
    and iter_spec: "ok s \<Longrightarrow> \<exists>ns. iter s = Some ns \<and> map node_to_entry ns = entries s"
begin

lemma get_newest:
  assumes "ok s" and "get k s = Some (Some n)"
  shows "node_to_entry n \<in> set (entries s) \<and> sn_key n = k
    \<and> (\<forall>e \<in> set (entries s). me_composite_key e = k \<longrightarrow> me_sequence_number e \<le> sn_sequence_number n)"
proof -
  have f: "find (\<lambda>e. me_composite_key e = k) (entries s) = Some (node_to_entry n)"
    using get_spec [OF assms(1), of k] assms(2) by auto
  then obtain i where i: "i < length (entries s)" "me_composite_key (entries s ! i) = k" "node_to_entry n = entries s ! i"
      "\<forall>j < i. me_composite_key (entries s ! j) \<noteq> k"
    by (auto simp: find_Some_iff)
  have "me_sequence_number e \<le> sn_sequence_number n" if e: "e \<in> set (entries s)" "me_composite_key e = k" for e
  proof -
    obtain j where j: "j < length (entries s)" "e = entries s ! j" using e by (auto simp: in_set_conv_nth)
    then have "i \<le> j" using i e by (metis not_less)
    then show ?thesis
    proof (cases "i = j")
      case False
      then have "ver_less (entries s ! i) (entries s ! j)"
        using sorted [OF assms(1)] j \<open>i \<le> j\<close> by (simp add: sorted_wrt_iff_nth_less)
      then have "me_sequence_number (entries s ! j) < me_sequence_number (entries s ! i)"
        using i(2) e(2) j(2) by (auto simp: ver_less_def)
      then show ?thesis using j(2) i(3) by (metis less_imp_le me_keys(2))
    qed (use i(3) j(2) in \<open>metis me_keys(2) order_refl\<close>)
  qed
  moreover have "node_to_entry n \<in> set (entries s)" using i by simp
  ultimately show ?thesis using i by (metis me_keys(1))
qed

lemma get_none:
  assumes "ok s" and "get k s = Some None"
  shows "\<forall>e \<in> set (entries s). me_composite_key e \<noteq> k"
  using get_spec [OF assms(1), of k] assms(2) by (auto simp: find_None_iff dest!: sym [of None])

end

interpretation sl: version_store sl_ok sl_entries sl_insert sl_get sl_range sl_scan_record sl_iter
proof
  fix s assume "sl_ok s"
  then obtain ord where inv: "sl_inv s ord" by (auto simp: sl_ok_def)
  note ev = sl_entries_view [OF inv]
  let ?nodes = "sl_nodes s"
  have srt: "sorted_wrt ver_less (view ?nodes ord)" by (rule sl_inv_sorted [OF inv])
  have mp: "map node_to_entry (takeWhile P (map ((!) ?nodes) (dropWhile (\<lambda>i. Q (?nodes ! i)) ord))) =
      takeWhile P' (dropWhile Q' (view ?nodes ord))"
    if "\<And>n. P n = P' (node_to_entry n)" "\<And>n. Q n = Q' (node_to_entry n)" for P Q P' Q'
    by (simp add: view_def takeWhile_map dropWhile_map comp_def that)
  show "sorted_wrt ver_less (sl_entries s)" using srt by (simp add: ev)
  show "\<exists>s'. sl_insert n e s = Some s' \<and> sl_ok s' \<and> sl_entries s' = ins_version e (sl_entries s)" for n e
    using sl_insert_spec [OF inv, of n e] sl_entries_view by (force simp: ev sl_ok_def)
  show "\<exists>r. sl_get k s = Some r \<and> map_option node_to_entry r = find (\<lambda>e. me_composite_key e = k) (sl_entries s)" for k
    using sl_get_spec [OF inv] by (simp add: ev)
  show "\<exists>ns. sl_range a b s = Some ns
      \<and> map node_to_entry ns = filter (\<lambda>e. a \<le> me_composite_key e \<and> me_composite_key e < b) (sl_entries s)" for a b
    unfolding sl_range_def sl_seek_to_spec(1) [OF inv] Option.bind.simps sl_seek_to_spec(2) [OF inv] ev
      takeWhile_dropWhile_key [OF srt, symmetric]
    by (auto intro!: mp)
  show "\<exists>ns. sl_scan_record rid s = Some ns
      \<and> map node_to_entry ns = (if rid_ok rid then filter (\<lambda>e. record_id (me_composite_key e) = rid) (sl_entries s) else [])"
    if keys: "\<forall>e \<in> set (sl_entries s). ck_ok (me_composite_key e)" for rid
  proof (cases "rid_ok rid")
    case True
    then have m: "min_key_for_record rid = Inr (CompositeKey (rid @ [SEPARATOR]))" by (simp add: min_key_eq_Inr)
    show ?thesis
      unfolding sl_scan_record_def m sum.case sl_seek_to_spec(1) [OF inv] Option.bind.simps sl_seek_to_spec(2) [OF inv]
        takeWhile_dropWhile_record [OF srt keys [unfolded ev] True, symmetric] ev
      using True by (auto intro!: mp)
  next
    case False
    then obtain e where "min_key_for_record rid = Inl e" using min_key_eq_Inr by (cases "min_key_for_record rid") auto
    with False show ?thesis by (simp add: sl_scan_record_def)
  qed
  show "\<exists>ns. sl_iter s = Some ns \<and> map node_to_entry ns = sl_entries s"
    using sl_iter_spec [OF inv] by (simp add: sl_entries_def)
qed

section \<open>A skip list is a sorted list of versions\<close>

fun sl_insert_all :: "nat \<Rightarrow> memtable_entry list \<Rightarrow> skip_list \<Rightarrow> skip_list option" where
  "sl_insert_all n [] s = Some s"
| "sl_insert_all n (e # es) s = Option.bind (sl_insert n e s) (sl_insert_all n es)"

lemma sl_insert_all_spec:
  "sl_ok s \<Longrightarrow> \<exists>s'. sl_insert_all n es s = Some s' \<and> sl_ok s' \<and> sl_entries s' = fold ins_version es (sl_entries s)"
proof (induction es arbitrary: s)
  case (Cons e es)
  then obtain s1 where "sl_insert n e s = Some s1" "sl_ok s1" "sl_entries s1 = ins_version e (sl_entries s)"
    using sl.insert_spec by blast
  with Cons.IH [of s1] show ?case by auto
qed simp

text \<open>C24: the skip list refines a sorted list of versions, whatever heights the generator draws. Any
  inserts into an empty list succeed: every walk ends within its fuel. Iterating and consuming the
  list both yield the result of inserting the same entries into a plain list sorted by key and, for
  one key, from the highest sequence number down, where an equal version is overwritten; and
  \<open>get\<close> finds the first version of a key in it.\<close>

theorem skip_list_refines_versions:
  "\<exists>s ns. sl_insert_all n es (sl_new r) = Some s \<and> sl_iter s = Some ns \<and> sl_into_iter s = Some ns
     \<and> map node_to_entry ns = fold ins_version es []
     \<and> sorted_wrt ver_less (map node_to_entry ns)
     \<and> (\<forall>k. \<exists>x. sl_get k s = Some x
          \<and> map_option node_to_entry x = find (\<lambda>e. me_composite_key e = k) (fold ins_version es []))"
proof -
  obtain s where s: "sl_insert_all n es (sl_new r) = Some s" "sl_ok s" "sl_entries s = fold ins_version es []"
    using sl_insert_all_spec [of "sl_new r" n es] sl_new_ok [of r] by auto
  obtain ord where ord: "sl_inv s ord" using s(2) by (auto simp: sl_ok_def)
  obtain ns where ns: "sl_iter s = Some ns" "map node_to_entry ns = sl_entries s"
    using sl.iter_spec [OF s(2)] by blast
  show ?thesis
    using s ns sl_into_iter_spec [OF ord] sl.get_spec [OF s(2)] sl.sorted [OF s(2)] by metis
qed

end
