(* ===== verification/Range_Tombstone.thy ===== *)
theory Range_Tombstone
  imports Flush_Types
begin

text \<open>
  \<^verbatim>\<open>range_tombstone.rs\<close>: the sorted vector of range deletions of a memtable. Insertion finds its place
  with a binary search, a coverage query searches for any tombstone of the record, widens the hit to
  the record's run and scans it with an early exit. The contract is that a query answers whether any
  stored tombstone of the record covers the key with a higher sequence number.
\<close>

record range_tombstone =
  rt_record_id :: bytes
  rt_start_key :: bytes
  rt_end_key :: bytes
  rt_sequence_number :: u64

definition compare_tombstones :: "range_tombstone \<Rightarrow> range_tombstone \<Rightarrow> ordering" where
  "compare_tombstones a b =
     (case cmp (rt_record_id a) (rt_record_id b) of
        Equal \<Rightarrow> cmp (rt_start_key a) (rt_start_key b)
      | other \<Rightarrow> other)"

record range_tombstone_index =
  rti_tombstones :: "range_tombstone list"

definition rti_new :: range_tombstone_index where
  "rti_new = \<lparr>rti_tombstones = []\<rparr>"

definition rti_add :: "range_tombstone \<Rightarrow> range_tombstone_index \<Rightarrow> range_tombstone_index" where
  "rti_add tombstone idx =
     (let pos = (case binary_search_by (\<lambda>existing. compare_tombstones existing tombstone) (rti_tombstones idx) of
                   Inr i \<Rightarrow> i | Inl i \<Rightarrow> i)
      in idx\<lparr>rti_tombstones := insert_at pos tombstone (rti_tombstones idx)\<rparr>)"

fun run_start :: "bytes \<Rightarrow> range_tombstone list \<Rightarrow> nat \<Rightarrow> nat" where
  "run_start rid ts 0 = 0"
| "run_start rid ts (Suc i) = (if rt_record_id (ts ! i) = rid then run_start rid ts i else Suc i)"

function run_end :: "bytes \<Rightarrow> range_tombstone list \<Rightarrow> nat \<Rightarrow> nat" where
  "run_end rid ts i =
     (if i < length ts \<and> rt_record_id (ts ! i) = rid then run_end rid ts (i + 1) else i)"
  by pat_completeness auto
termination
  by (relation "measure (\<lambda>(rid, ts, i). length ts - i)") auto

declare run_end.simps [simp del]

definition tombstones_for_record :: "range_tombstone_index \<Rightarrow> bytes \<Rightarrow> range_tombstone list" where
  "tombstones_for_record idx rid =
     (let ts = rti_tombstones idx
      in case binary_search_by (\<lambda>t. cmp (rt_record_id t) rid) ts of
           Inl _ \<Rightarrow> []
         | Inr anchor \<Rightarrow> slice_of (run_start rid ts anchor) (run_end rid ts (anchor + 1)) ts)"

fun covers_loop :: "bytes \<Rightarrow> u64 \<Rightarrow> range_tombstone list \<Rightarrow> bool" where
  "covers_loop k s [] = False"
| "covers_loop k s (t # ts) =
     (if rt_start_key t \<le> k \<and> (rt_end_key t = [] \<or> k < rt_end_key t) \<and> rt_sequence_number t > s then True
      else if rt_start_key t > k then False
      else covers_loop k s ts)"

definition rti_covers :: "range_tombstone_index \<Rightarrow> bytes \<Rightarrow> bytes \<Rightarrow> u64 \<Rightarrow> bool" where
  "rti_covers idx rid k s = covers_loop k s (tombstones_for_record idx rid)"

section \<open>What a query answers\<close>

text \<open>The meaning of one tombstone.\<close>

definition ts_covers :: "range_tombstone \<Rightarrow> bytes \<Rightarrow> bytes \<Rightarrow> u64 \<Rightarrow> bool" where
  "ts_covers t rid k s \<longleftrightarrow> rt_record_id t = rid \<and> rt_start_key t \<le> k
     \<and> (rt_end_key t = [] \<or> k < rt_end_key t) \<and> s < rt_sequence_number t"

definition ts_le :: "range_tombstone \<Rightarrow> range_tombstone \<Rightarrow> bool" where
  "ts_le a b \<longleftrightarrow> compare_tombstones a b \<noteq> Greater"

definition rti_ok :: "range_tombstone_index \<Rightarrow> bool" where
  "rti_ok idx \<longleftrightarrow> sorted_wrt ts_le (rti_tombstones idx)"

lemma ts_le_iff:
  "ts_le a b \<longleftrightarrow> rt_record_id a < rt_record_id b
     \<or> rt_record_id a = rt_record_id b \<and> rt_start_key a \<le> rt_start_key b"
  by (auto simp: ts_le_def compare_tombstones_def cmp_def split: ordering.splits)

lemma compare_tombstones_iff:
  "compare_tombstones a b = Less \<longleftrightarrow> \<not> ts_le b a" "compare_tombstones a b = Greater \<longleftrightarrow> \<not> ts_le a b"
  by (auto simp: ts_le_iff compare_tombstones_def cmp_def split: ordering.splits)

lemma ts_le_trans: "ts_le a b \<Longrightarrow> ts_le b c \<Longrightarrow> ts_le a c"
  by (auto simp: ts_le_iff)

lemma ts_le_total: "ts_le a b \<or> ts_le b a"
  by (auto simp: ts_le_iff)

lemma rti_add_ok:
  assumes "rti_ok idx"
  shows "rti_ok (rti_add t idx)"
proof -
  let ?f = "\<lambda>x. compare_tombstones x t" and ?ts = "rti_tombstones idx"
  have s: "sorted_wrt ts_le ?ts" using assms by (simp add: rti_ok_def)
  have "cmp_sorted ?f ?ts"
    by (rule cmp_sortedI [OF s]) (auto simp: compare_tombstones_iff dest: ts_le_trans)
  note spec = binary_search_by_spec [OF this]
  define pos where "pos = (case binary_search_by ?f ?ts of Inr i \<Rightarrow> i | Inl i \<Rightarrow> i)"
  have "sorted_wrt ts_le (insert_at pos t ?ts)"
  proof (cases "binary_search_by ?f ?ts")
    case (Inl i)
    then have i: "pos = i" "i \<le> length ?ts" "\<forall>j < i. ?f (?ts ! j) = Less"
        "\<forall>j. i \<le> j \<and> j < length ?ts \<longrightarrow> ?f (?ts ! j) = Greater"
      using spec by (auto simp: pos_def)
    then show ?thesis
      by (intro sorted_wrt_insert_at s) (use ts_le_total compare_tombstones_iff in blast)+
  next
    case (Inr i)
    then have i: "pos = i" "i < length ?ts" "?f (?ts ! i) = Equal" using spec by (auto simp: pos_def)
    then have eq: "ts_le (?ts ! i) t" "ts_le t (?ts ! i)"
      using compare_tombstones_iff [of "?ts ! i" t] by auto
    show ?thesis
    proof (intro sorted_wrt_insert_at s)
      show "ts_le (?ts ! j) t" if "j < pos" for j
        using that i eq s by (auto simp: sorted_wrt_iff_nth_less intro: ts_le_trans)
      show "ts_le t (?ts ! j)" if "pos \<le> j" "j < length ?ts" for j
        using that i eq s by (cases "j = i") (auto simp: sorted_wrt_iff_nth_less intro: ts_le_trans)
    qed (use i in simp)
  qed
  then show ?thesis by (simp add: rti_ok_def rti_add_def pos_def)
qed

lemma set_rti_add: "set (rti_tombstones (rti_add t idx)) = insert t (set (rti_tombstones idx))"
  by (simp add: rti_add_def)

lemma run_start_spec:
  assumes "i \<le> length ts"
  shows "run_start rid ts i \<le> i
    \<and> (\<forall>j. run_start rid ts i \<le> j \<and> j < i \<longrightarrow> rt_record_id (ts ! j) = rid)
    \<and> (0 < run_start rid ts i \<longrightarrow> rt_record_id (ts ! (run_start rid ts i - 1)) \<noteq> rid)"
  using assms by (induction i) (auto simp: less_Suc_eq)

lemma run_end_spec:
  assumes "i \<le> length ts"
  shows "i \<le> run_end rid ts i \<and> run_end rid ts i \<le> length ts
    \<and> (\<forall>j. i \<le> j \<and> j < run_end rid ts i \<longrightarrow> rt_record_id (ts ! j) = rid)
    \<and> (run_end rid ts i < length ts \<longrightarrow> rt_record_id (ts ! run_end rid ts i) \<noteq> rid)"
  using assms
proof (induction rid ts i rule: run_end.induct)
  case (1 rid ts i)
  show ?case
  proof (cases "i < length ts \<and> rt_record_id (ts ! i) = rid")
    case True
    then have r: "run_end rid ts i = run_end rid ts (i + 1)" by (subst run_end.simps) simp
    have IH: "i + 1 \<le> run_end rid ts (i + 1) \<and> run_end rid ts (i + 1) \<le> length ts
      \<and> (\<forall>j. i + 1 \<le> j \<and> j < run_end rid ts (i + 1) \<longrightarrow> rt_record_id (ts ! j) = rid)
      \<and> (run_end rid ts (i + 1) < length ts \<longrightarrow> rt_record_id (ts ! run_end rid ts (i + 1)) \<noteq> rid)"
      using "1.IH" [OF True] True by simp
    show ?thesis unfolding r
    proof (intro conjI allI impI)
      fix j assume "i \<le> j \<and> j < run_end rid ts (i + 1)"
      then show "rt_record_id (ts ! j) = rid" using IH True by (cases "j = i") auto
    qed (use IH in auto)
  next
    case False
    then have "run_end rid ts i = i" by (subst run_end.simps) auto
    with False "1.prems" show ?thesis by auto
  qed
qed

lemma filter_slice:
  assumes "a \<le> b" "b \<le> length xs" "\<forall>j. a \<le> j \<and> j < b \<longrightarrow> P (xs ! j)"
    and "\<forall>j < a. \<not> P (xs ! j)" and "\<forall>j. b \<le> j \<and> j < length xs \<longrightarrow> \<not> P (xs ! j)"
  shows "slice_of a b xs = filter P xs"
proof -
  have "xs = take a xs @ slice_of a b xs @ drop b xs"
    using assms(1,2) by (simp add: slice_of_def) (metis append_assoc append_take_drop_id le_add_diff_inverse take_add)
  moreover have "filter P (take a xs) = []" using assms by (auto simp: filter_empty_conv in_set_conv_nth)
  moreover have "filter P (drop b xs) = []" using assms by (auto simp: filter_empty_conv in_set_conv_nth)
  moreover have "filter P (slice_of a b xs) = slice_of a b xs"
    using assms by (auto simp: filter_id_conv slice_of_def in_set_conv_nth)
  ultimately show ?thesis by (metis append_Nil append_Nil2 filter_append)
qed

lemma tombstones_for_record_filter:
  assumes "rti_ok idx"
  shows "tombstones_for_record idx rid = filter (\<lambda>t. rt_record_id t = rid) (rti_tombstones idx)"
proof -
  let ?ts = "rti_tombstones idx" and ?f = "\<lambda>t. cmp (rt_record_id t) rid"
  have s: "sorted_wrt ts_le ?ts" using assms by (simp add: rti_ok_def)
  then have le: "rt_record_id (?ts ! i) \<le> rt_record_id (?ts ! j)" if "i \<le> j" "j < length ?ts" for i j
    using that by (cases "i = j") (auto simp: sorted_wrt_iff_nth_less ts_le_iff le_less)
  have "cmp_sorted ?f ?ts"
    by (rule cmp_sortedI [OF s]) (auto simp: ts_le_iff cmp_def split: if_splits)
  note spec = binary_search_by_spec [OF this]
  show ?thesis
  proof (cases "binary_search_by ?f ?ts")
    case (Inl i)
    then have "\<forall>j < i. ?f (?ts ! j) = Less" "\<forall>j. i \<le> j \<and> j < length ?ts \<longrightarrow> ?f (?ts ! j) = Greater"
      using spec by auto
    then have "?f (?ts ! j) \<noteq> Equal" if "j < length ?ts" for j using that
      by (cases "j < i") (metis ordering.distinct(1), metis not_less ordering.distinct(5))
    moreover have "?f t = Equal" if "rt_record_id t = rid" for t using that by (simp add: cmp_def)
    ultimately have "\<forall>j < length ?ts. rt_record_id (?ts ! j) \<noteq> rid" by blast
    then show ?thesis using Inl by (auto simp: tombstones_for_record_def empty_filter_conv in_set_conv_nth)
  next
    case (Inr i)
    then have i: "i < length ?ts" "?f (?ts ! i) = Equal" using spec by auto
    then have ri: "rt_record_id (?ts ! i) = rid" by (simp add: cmp_def split: if_splits)
    let ?a = "run_start rid ?ts i" and ?b = "run_end rid ?ts (i + 1)"
    note a = run_start_spec [of i ?ts rid] and b = run_end_spec [of "i + 1" ?ts rid]
    have "slice_of ?a ?b ?ts = filter (\<lambda>t. rt_record_id t = rid) ?ts"
    proof (rule filter_slice)
      show "?a \<le> ?b" "?b \<le> length ?ts" using a b i by auto
      show "\<forall>j. ?a \<le> j \<and> j < ?b \<longrightarrow> rt_record_id (?ts ! j) = rid"
        using a b i ri by (metis Suc_eq_plus1 Suc_leI less_imp_le_nat linorder_neqE_nat)
      show "\<forall>j < ?a. rt_record_id (?ts ! j) \<noteq> rid"
      proof (intro allI impI)
        fix j assume j: "j < ?a"
        have 1: "rt_record_id (?ts ! (?a - 1)) \<noteq> rid" "?a \<le> i" using a i(1) j by simp_all
        have "rt_record_id (?ts ! (?a - 1)) \<le> rt_record_id (?ts ! i)"
          by (rule le) (use 1(2) i(1) j in simp_all)
        then have "rt_record_id (?ts ! (?a - 1)) \<le> rid" by (simp only: ri)
        moreover have "rt_record_id (?ts ! j) \<le> rt_record_id (?ts ! (?a - 1))"
          by (rule le) (use 1(2) i(1) j in simp_all)
        ultimately show "rt_record_id (?ts ! j) \<noteq> rid" using 1(1) by (metis order.antisym)
      qed
      show "\<forall>j. ?b \<le> j \<and> j < length ?ts \<longrightarrow> rt_record_id (?ts ! j) \<noteq> rid"
      proof (intro allI impI)
        fix j assume j: "?b \<le> j \<and> j < length ?ts"
        have 1: "rt_record_id (?ts ! ?b) \<noteq> rid" "i \<le> ?b" using b i(1) j by simp_all
        have "rt_record_id (?ts ! i) \<le> rt_record_id (?ts ! ?b)"
          by (rule le) (use 1(2) j in simp_all)
        then have "rid \<le> rt_record_id (?ts ! ?b)" by (simp only: ri)
        moreover have "rt_record_id (?ts ! ?b) \<le> rt_record_id (?ts ! j)" by (rule le) (use j in simp_all)
        ultimately show "rt_record_id (?ts ! j) \<noteq> rid" using 1(1) by (metis order.antisym)
      qed
    qed
    then show ?thesis using Inr by (simp add: tombstones_for_record_def)
  qed
qed

lemma covers_loop_spec:
  assumes "sorted_wrt (\<lambda>a b. rt_start_key a \<le> rt_start_key b) ts" and "\<forall>t \<in> set ts. rt_record_id t = rid"
  shows "covers_loop k s ts \<longleftrightarrow> (\<exists>t \<in> set ts. ts_covers t rid k s)"
  using assms
proof (induction k s ts rule: covers_loop.induct)
  case (2 k s t ts)
  show ?case
  proof (cases "rt_start_key t > k")
    case True
    then have "\<not> rt_start_key u \<le> k" if "u \<in> set (t # ts)" for u
      using that "2.prems"(1) by (auto simp: not_le intro: less_le_trans)
    with True show ?thesis unfolding ts_covers_def by auto
  next
    case False
    have rid: "rt_record_id t = rid" using "2.prems"(2) by simp
    show ?thesis
    proof (cases "ts_covers t rid k s")
      case True
      then show ?thesis by (auto simp: ts_covers_def)
    next
      case no: False
      then have "covers_loop k s (t # ts) = covers_loop k s ts" using False rid by (auto simp: ts_covers_def)
      moreover have "covers_loop k s ts \<longleftrightarrow> (\<exists>t \<in> set ts. ts_covers t rid k s)"
        using "2.IH" no False rid "2.prems" by (auto simp: ts_covers_def)
      ultimately show ?thesis using no by simp
    qed
  qed
qed simp

lemma rti_covers_iff:
  assumes "rti_ok idx"
  shows "rti_covers idx rid k s \<longleftrightarrow> (\<exists>t \<in> set (rti_tombstones idx). ts_covers t rid k s)"
proof -
  let ?ts = "filter (\<lambda>t. rt_record_id t = rid) (rti_tombstones idx)"
  have "sorted_wrt ts_le ?ts" using assms by (simp add: rti_ok_def sorted_wrt_filter)
  then have "sorted_wrt (\<lambda>a b. rt_start_key a \<le> rt_start_key b) ?ts"
    by (rule sorted_wrt_mono_rel [rotated]) (auto simp: ts_le_iff)
  from covers_loop_spec [OF this, of rid] show ?thesis
    by (auto simp: rti_covers_def tombstones_for_record_filter [OF assms] ts_covers_def)
qed

section \<open>The contract a memtable relies on\<close>

locale tombstone_index =
  fixes ok :: "'i \<Rightarrow> bool" and stones :: "'i \<Rightarrow> range_tombstone set"
    and new :: 'i and add :: "range_tombstone \<Rightarrow> 'i \<Rightarrow> 'i" and covers :: "'i \<Rightarrow> bytes \<Rightarrow> bytes \<Rightarrow> u64 \<Rightarrow> bool"
  assumes ok_new: "ok new" and stones_new: "stones new = {}"
    and ok_add: "ok i \<Longrightarrow> ok (add t i)" and stones_add: "stones (add t i) = insert t (stones i)"
    and covers_iff: "ok i \<Longrightarrow> covers i rid k s \<longleftrightarrow> (\<exists>t \<in> stones i. ts_covers t rid k s)"
begin

lemma covers_new: "\<not> covers new rid k s"
  by (simp add: covers_iff ok_new stones_new)

lemma covers_add: "ok i \<Longrightarrow> covers (add t i) rid k s \<longleftrightarrow> ts_covers t rid k s \<or> covers i rid k s"
  by (simp add: covers_iff ok_add stones_add)

lemma covers_fold:
  "ok i \<Longrightarrow> ok (fold add ts i) \<and> (covers (fold add ts i) rid k s \<longleftrightarrow>
     (\<exists>t \<in> set ts. ts_covers t rid k s) \<or> covers i rid k s)"
  by (induction ts arbitrary: i) (auto simp: ok_add covers_add)

lemma covers_older: "ok i \<Longrightarrow> covers i rid k s \<Longrightarrow> s' \<le> s \<Longrightarrow> covers i rid k s'"
  by (auto simp: covers_iff ts_covers_def)

end

interpretation rti: tombstone_index rti_ok "\<lambda>i. set (rti_tombstones i)" rti_new rti_add rti_covers
proof
  show "rti_ok rti_new" "set (rti_tombstones rti_new) = {}" by (simp_all add: rti_ok_def rti_new_def)
qed (simp_all add: rti_add_ok set_rti_add rti_covers_iff)

text \<open>C28: coverage queries are exact. After adding any tombstones in any order, a query for a key and
  an entry's sequence number answers true exactly when some added tombstone of the same record has
  the key in its range (an empty end means unbounded) and a higher sequence number. So the binary
  searches, the widening to the record's run and the early exit never miss or invent a tombstone.\<close>

theorem range_tombstone_covers_exact:
  "rti_covers (fold rti_add ts rti_new) rid k s \<longleftrightarrow>
     (\<exists>t \<in> set ts. rt_record_id t = rid \<and> rt_start_key t \<le> k
        \<and> (rt_end_key t = [] \<or> k < rt_end_key t) \<and> s < rt_sequence_number t)"
  using rti.covers_fold [OF rti.ok_new, of ts rid k s] by (simp add: rti.covers_new ts_covers_def)

end
