(* ===== verification/Memtable.thy ===== *)
theory Memtable
  imports Skip_List_Correct Range_Tombstone
begin

text \<open>
  \<^verbatim>\<open>memtable.rs\<close>: one memtable, a skip list of versions with an index of its range deletions and the
  set of idempotency tokens it has seen. The operations on the skip list are total here: a walk that
  did not end would leave the list as it is, and \<^verbatim>\<open>sl_ok\<close>, part of the invariant, excludes that. The
  clock, the random generator and the size of a node are arguments. The history of a memtable is the
  list of entries inserted, with the sequence numbers they got; \<open>mt_repr\<close> says what a memtable with
  a given history holds.
\<close>

record memtable_config =
  size_threshold :: nat
  max_frozen_count :: nat
  memtable_memory_limit :: nat

definition memtable_config_default :: memtable_config where
  "memtable_config_default = (let st = 67108864; mf = 3
     in \<lparr>size_threshold = st, max_frozen_count = mf, memtable_memory_limit = (mf + 1) * st\<rparr>)"

section \<open>Seen tokens\<close>

type_synonym dedup_set = "idempotency_token set"

definition dedup_contains :: "dedup_set \<Rightarrow> idempotency_token \<Rightarrow> bool" where
  "dedup_contains s t = (if token_is_none t then False else t \<in> s)"

definition dedup_insert :: "idempotency_token \<Rightarrow> dedup_set \<Rightarrow> dedup_set" where
  "dedup_insert t s = (if token_is_none t then s else insert t s)"

section \<open>The memtable\<close>

record memtable =
  mt_skiplist :: skip_list
  mt_range_tombstones :: range_tombstone_index
  mt_dedup_set :: dedup_set
  mt_next_sequence_number :: u64
  mt_config :: memtable_config
  mt_created_at :: nat
  mt_frozen :: bool

definition skip_insert :: "nat \<Rightarrow> memtable_entry \<Rightarrow> skip_list \<Rightarrow> skip_list" where
  "skip_insert n e s = (case sl_insert n e s of Some s' \<Rightarrow> s' | None \<Rightarrow> s)"

definition skip_get :: "composite_key \<Rightarrow> skip_list \<Rightarrow> skip_node option" where
  "skip_get k s = (case sl_get k s of Some r \<Rightarrow> r | None \<Rightarrow> None)"

definition nodes_of :: "skip_node list option \<Rightarrow> skip_node list" where
  "nodes_of r = (case r of Some ns \<Rightarrow> ns | None \<Rightarrow> [])"

definition filter_scan_results :: "memtable_entry list \<Rightarrow> memtable_entry list" where
  "filter_scan_results es = filter (\<lambda>e. \<not> tombstone_type (me_entry_type e)) es"

definition mt_new :: "rng \<Rightarrow> nat \<Rightarrow> memtable_config \<Rightarrow> u64 \<Rightarrow> memtable" where
  "mt_new r now config starting_sequence =
     \<lparr>mt_skiplist = sl_new r, mt_range_tombstones = rti_new, mt_dedup_set = {},
      mt_next_sequence_number = starting_sequence, mt_config = config, mt_created_at = now, mt_frozen = False\<rparr>"

definition tombstone_of :: "memtable_entry \<Rightarrow> range_tombstone" where
  "tombstone_of e =
     (let ik = item_key (me_composite_key e);
          start_key = (if ik = [] then [] else tl ik)
      in \<lparr>rt_record_id = record_id (me_composite_key e), rt_start_key = start_key,
          rt_end_key = me_value e, rt_sequence_number = me_sequence_number e\<rparr>)"

definition mt_insert_inner :: "nat \<Rightarrow> memtable_entry \<Rightarrow> memtable \<Rightarrow> memtable" where
  "mt_insert_inner n e m =
     (let m1 = (if me_entry_type e = RangeDelete
                then m\<lparr>mt_range_tombstones := rti_add (tombstone_of e) (mt_range_tombstones m)\<rparr> else m)
      in m1\<lparr>mt_dedup_set := dedup_insert (me_idempotency_key e) (mt_dedup_set m1),
            mt_skiplist := skip_insert n e (mt_skiplist m1)\<rparr>)"

definition mt_insert_prechecked :: "nat \<Rightarrow> memtable_entry \<Rightarrow> memtable \<Rightarrow> (u64 \<times> memtable) flush_result" where
  "mt_insert_prechecked n e m =
     (if mt_frozen m then Inl (ResourceExhausted ''memtable'' ''memtable is frozen'')
      else let seq = mt_next_sequence_number m;
               e1 = e\<lparr>me_sequence_number := seq\<rparr>;
               m1 = m\<lparr>mt_next_sequence_number := mt_next_sequence_number m + 1\<rparr>
           in Inr (seq, mt_insert_inner n e1 m1))"

definition mt_insert :: "nat \<Rightarrow> memtable_entry \<Rightarrow> memtable \<Rightarrow> (u64 \<times> memtable) flush_result" where
  "mt_insert n e m =
     (if mt_frozen m then Inl (ResourceExhausted ''memtable'' ''memtable is frozen'')
      else if dedup_contains (mt_dedup_set m) (me_idempotency_key e) then Inl (DuplicateToken '''')
      else mt_insert_prechecked n e m)"

definition mt_insert_with_assigned_sequence :: "nat \<Rightarrow> memtable_entry \<Rightarrow> memtable \<Rightarrow> (u64 \<times> memtable) flush_result" where
  "mt_insert_with_assigned_sequence n e m =
     (if mt_frozen m then Inl (ResourceExhausted ''memtable'' ''memtable is frozen'')
      else let seq = me_sequence_number e;
               m1 = (if seq \<ge> mt_next_sequence_number m then m\<lparr>mt_next_sequence_number := seq + 1\<rparr> else m)
           in Inr (seq, mt_insert_inner n e m1))"

definition mt_covers :: "memtable \<Rightarrow> skip_node \<Rightarrow> bool" where
  "mt_covers m node = rti_covers (mt_range_tombstones m) (record_id (sn_key node)) (item_key (sn_key node))
     (sn_sequence_number node)"

definition mt_get :: "composite_key \<Rightarrow> memtable \<Rightarrow> memtable_entry option" where
  "mt_get key m =
     (case skip_get key (mt_skiplist m) of
        None \<Rightarrow> None
      | Some node \<Rightarrow> if mt_covers m node then None else Some (node_to_entry node))"

text \<open>The loop of \<^verbatim>\<open>dedup_and_check_range_tombstones\<close> with its \<open>last_key\<close>.\<close>

fun dedup_and_check :: "memtable \<Rightarrow> composite_key option \<Rightarrow> skip_node list \<Rightarrow> memtable_entry list" where
  "dedup_and_check m last_key [] = []"
| "dedup_and_check m last_key (node # rest) =
     (if last_key = Some (sn_key node) then dedup_and_check m last_key rest
      else if mt_covers m node then dedup_and_check m (Some (sn_key node)) rest
      else node_to_entry node # dedup_and_check m (Some (sn_key node)) rest)"

definition mt_scan_with_tombstones :: "composite_key \<Rightarrow> composite_key \<Rightarrow> memtable \<Rightarrow> memtable_entry list" where
  "mt_scan_with_tombstones a b m = dedup_and_check m None (nodes_of (sl_range a b (mt_skiplist m)))"

definition mt_scan_record_with_tombstones :: "bytes \<Rightarrow> memtable \<Rightarrow> memtable_entry list" where
  "mt_scan_record_with_tombstones rid m = dedup_and_check m None (nodes_of (sl_scan_record rid (mt_skiplist m)))"

definition mt_scan :: "composite_key \<Rightarrow> composite_key \<Rightarrow> memtable \<Rightarrow> memtable_entry list" where
  "mt_scan a b m = filter_scan_results (mt_scan_with_tombstones a b m)"

definition mt_scan_record :: "bytes \<Rightarrow> memtable \<Rightarrow> memtable_entry list" where
  "mt_scan_record rid m = filter_scan_results (mt_scan_record_with_tombstones rid m)"

definition mt_approximate_memory_usage :: "memtable \<Rightarrow> nat" where
  "mt_approximate_memory_usage m = ar_total_allocated (sl_arena (mt_skiplist m))"

definition mt_should_freeze_by_size :: "memtable \<Rightarrow> bool" where
  "mt_should_freeze_by_size m = (mt_approximate_memory_usage m \<ge> size_threshold (mt_config m))"

definition mt_should_freeze_by_age :: "nat \<Rightarrow> nat \<Rightarrow> memtable \<Rightarrow> bool" where
  "mt_should_freeze_by_age now max_age m = (now - mt_created_at m \<ge> max_age)"

definition mt_entry_count :: "memtable \<Rightarrow> nat" where
  "mt_entry_count m = sl_len (mt_skiplist m)"

definition mt_freeze :: "memtable \<Rightarrow> memtable" where
  "mt_freeze m = m\<lparr>mt_frozen := True\<rparr>"

definition mt_check_dedup :: "memtable \<Rightarrow> idempotency_token \<Rightarrow> bool" where
  "mt_check_dedup m t = dedup_contains (mt_dedup_set m) t"

definition mt_into_entries :: "memtable \<Rightarrow> memtable_entry list" where
  "mt_into_entries m = map node_to_entry (nodes_of (sl_into_iter (mt_skiplist m)))"

section \<open>What a memtable holds\<close>

definition mt_repr :: "memtable \<Rightarrow> memtable_entry list \<Rightarrow> bool" where
  "mt_repr m es \<longleftrightarrow> sl_ok (mt_skiplist m) \<and> sl_entries (mt_skiplist m) = fold ins_version es []
     \<and> rti_ok (mt_range_tombstones m)
     \<and> set (rti_tombstones (mt_range_tombstones m)) = tombstone_of ` {e \<in> set es. me_entry_type e = RangeDelete}
     \<and> mt_dedup_set m = {t. \<not> token_is_none t \<and> t \<in> me_idempotency_key ` set es}
     \<and> (\<forall>e \<in> set es. ck_ok (me_composite_key e))"

text \<open>The histories the insertion operations produce.\<close>

inductive mt_built :: "memtable_config \<Rightarrow> memtable \<Rightarrow> memtable_entry list \<Rightarrow> bool" for config where
  new: "mt_built config (mt_new r now config s) []"
| insert: "\<lbrakk>mt_built config m es; ck_ok (me_composite_key e); mt_insert n e m = Inr (s, m')\<rbrakk> \<Longrightarrow>
    mt_built config m' (es @ [e\<lparr>me_sequence_number := s\<rparr>])"
| prechecked: "\<lbrakk>mt_built config m es; ck_ok (me_composite_key e); mt_insert_with_assigned_sequence n e m = Inr (s, m')\<rbrakk> \<Longrightarrow>
    mt_built config m' (es @ [e])"
| freeze: "mt_built config m es \<Longrightarrow> mt_built config (mt_freeze m) es"

lemma skip_insert_spec:
  assumes "sl_ok s"
  shows "sl_ok (skip_insert n e s) \<and> sl_entries (skip_insert n e s) = ins_version e (sl_entries s)"
  using sl.insert_spec [OF assms, of n e] by (auto simp: skip_insert_def)

lemma mt_new_repr: "mt_repr (mt_new r now config s) []"
  using sl_new_ok by (simp add: mt_repr_def mt_new_def rti_ok_def rti_new_def)

lemma mt_insert_inner_repr:
  assumes "mt_repr m es" and "ck_ok (me_composite_key e)"
  shows "mt_repr (mt_insert_inner n e m) (es @ [e])"
  using assms skip_insert_spec [of "mt_skiplist m" n e] rti_add_ok [of "mt_range_tombstones m" "tombstone_of e"]
  by (auto simp: mt_repr_def mt_insert_inner_def Let_def set_rti_add dedup_insert_def)

lemma mt_repr_cong:
  "mt_skiplist m' = mt_skiplist m \<Longrightarrow> mt_range_tombstones m' = mt_range_tombstones m \<Longrightarrow>
     mt_dedup_set m' = mt_dedup_set m \<Longrightarrow> mt_repr m' es = mt_repr m es"
  by (simp add: mt_repr_def)

lemma mt_built_repr: "mt_built config m es \<Longrightarrow> mt_repr m es"
proof (induction rule: mt_built.induct)
  case (new r now s)
  then show ?case by (rule mt_new_repr)
next
  case (insert m es e n s m')
  let ?m1 = "m\<lparr>mt_next_sequence_number := mt_next_sequence_number m + 1\<rparr>"
  have "m' = mt_insert_inner n (e\<lparr>me_sequence_number := s\<rparr>) ?m1"
    using insert.hyps by (auto simp: mt_insert_def mt_insert_prechecked_def Let_def split: if_splits)
  moreover have "mt_repr ?m1 es" using insert.IH by (subst mt_repr_cong) simp_all
  ultimately show ?case using insert.hyps by (simp add: mt_insert_inner_repr)
next
  case (prechecked m es e n s m')
  let ?m1 = "if me_sequence_number e \<ge> mt_next_sequence_number m then m\<lparr>mt_next_sequence_number := me_sequence_number e + 1\<rparr> else m"
  have "m' = mt_insert_inner n e ?m1"
    using prechecked.hyps by (auto simp: mt_insert_with_assigned_sequence_def Let_def split: if_splits)
  moreover have "mt_repr ?m1 es" using prechecked.IH by (subst mt_repr_cong) simp_all
  ultimately show ?case using prechecked.hyps by (simp add: mt_insert_inner_repr)
next
  case (freeze m es)
  then show ?case by (subst mt_repr_cong) (simp_all add: mt_freeze_def)
qed

section \<open>The list of versions of a history\<close>

abbreviation versions :: "memtable_entry list \<Rightarrow> memtable_entry list" where
  "versions es \<equiv> fold ins_version es []"

lemma same_not_less: "same_version a b \<Longrightarrow> \<not> ver_less a b"
  by (simp add: same_version_def ver_less_def)

lemma ins_version_props:
  assumes "sorted_wrt ver_less xs"
  shows "sorted_wrt ver_less (ins_version e xs)
    \<and> set (ins_version e xs) = insert e {x \<in> set xs. \<not> same_version e x}"
proof -
  let ?T = "takeWhile (\<lambda>x. ver_less x e) xs" and ?D = "dropWhile (\<lambda>x. ver_less x e) xs"
  have D: "?D = filter (\<lambda>x. \<not> ver_less x e) xs"
    by (rule sorted_wrt_takeWhile_filter(2) [OF assms]) (rule ver_less_trans)
  have T: "\<forall>x \<in> set ?T. ver_less x e" by (auto dest: set_takeWhileD)
  have srt: "sorted_wrt ver_less (?T @ ?D)" using assms by simp
  let ?D' = "dropWhile (same_version e) ?D"
  have D': "?D' = filter (\<lambda>x. \<not> same_version e x) ?D" and gt: "\<forall>x \<in> set ?D'. ver_less e x"
  proof -
    have nl: "\<forall>x \<in> set ?D. same_version e x \<or> ver_less e x" using ver_less_total unfolding D by auto
    have "sorted_wrt ver_less ?D" using srt by (simp only: sorted_wrt_append simp_thms)
    then have "sorted_wrt (\<lambda>a b. ver_less a b \<and> (same_version e a \<or> ver_less e a)) ?D"
      by (rule sorted_wrt_mono_rel [rotated]) (use nl in blast)
    then show D'': "?D' = filter (\<lambda>x. \<not> same_version e x) ?D"
      by (rule sorted_wrt_takeWhile_filter(2)) (blast dest: ver_less_trans same_not_less)
    from nl show "\<forall>x \<in> set ?D'. ver_less e x" unfolding D'' by auto
  qed
  have "sorted_wrt ver_less ?T" "sorted_wrt ver_less ?D" using srt unfolding sorted_wrt_append by blast+
  moreover from this(2) have "sorted_wrt ver_less ?D'" unfolding D' by (rule sorted_wrt_filter)
  moreover have "\<forall>x \<in> set ?T. \<forall>y \<in> set ?D'. ver_less x y" using T gt ver_less_trans by blast
  ultimately have "sorted_wrt ver_less (?T @ e # ?D')" using T gt by (intro sorted_wrt_insert_mid)
  moreover have "set (?T @ e # ?D') = insert e {x \<in> set xs. \<not> same_version e x}"
  proof -
    have "set xs = set ?T \<union> set ?D" by (simp flip: set_append)
    moreover have "\<not> same_version e x" if "x \<in> set ?T" for x
      using bspec [OF T that] by (simp add: same_version_def ver_less_def) auto
    ultimately show ?thesis unfolding D' by auto
  qed
  ultimately show ?thesis by (simp add: ins_version_def)
qed

lemma versions_sorted: "sorted_wrt ver_less (versions es)"
  by (induction es rule: rev_induct) (auto simp: ins_version_props)

lemma set_versions_snoc: "set (versions (es @ [e])) = insert e {x \<in> set (versions es). \<not> same_version e x}"
  using ins_version_props [OF versions_sorted] by simp

lemma versions_sub: "set (versions es) \<subseteq> set es"
  by (induction es rule: rev_induct) (auto simp: ins_version_props [OF versions_sorted])

lemma versions_complete: "e \<in> set es \<Longrightarrow> \<exists>x \<in> set (versions es). same_version x e"
proof (induction es rule: rev_induct)
  case (snoc a es)
  show ?case
  proof (cases "same_version a e")
    case True
    then show ?thesis by (auto simp: ins_version_props [OF versions_sorted])
  next
    case False
    then have "e \<in> set es" using snoc.prems by (auto simp: same_version_def)
    with snoc.IH obtain x where "x \<in> set (versions es)" "same_version x e" by blast
    then show ?thesis using False by (auto simp: ins_version_props [OF versions_sorted] same_version_def)
  qed
qed simp

text \<open>The newest version of a key.\<close>

definition newest :: "composite_key \<Rightarrow> memtable_entry list \<Rightarrow> memtable_entry option" where
  "newest k es = find (\<lambda>e. me_composite_key e = k) (versions es)"

lemma newest_SomeD:
  assumes "newest k es = Some e"
  shows "e \<in> set es \<and> me_composite_key e = k
    \<and> (\<forall>x \<in> set es. me_composite_key x = k \<longrightarrow> me_sequence_number x \<le> me_sequence_number e)"
proof -
  obtain i where i: "i < length (versions es)" "me_composite_key e = k" "e = versions es ! i"
      "\<forall>j < i. me_composite_key (versions es ! j) \<noteq> k"
    using assms by (auto simp: newest_def find_Some_iff)
  have "me_sequence_number x \<le> me_sequence_number e" if x: "x \<in> set es" "me_composite_key x = k" for x
  proof -
    obtain y where y: "y \<in> set (versions es)" "same_version y x" using versions_complete [OF x(1)] by blast
    then obtain j where j: "j < length (versions es)" "y = versions es ! j" by (auto simp: in_set_conv_nth)
    have yk: "me_composite_key y = k" using y x by (simp add: same_version_def)
    then have "i \<le> j" using i(4) j by (metis not_less)
    then have "i = j \<or> ver_less e y"
      using sorted_wrt_nth_less [OF versions_sorted, of i j es] i(3) j by fastforce
    then have "me_sequence_number y \<le> me_sequence_number e"
      using yk i(2,3) j(2) by (auto simp: ver_less_def)
    then show ?thesis using y by (simp add: same_version_def)
  qed
  moreover have "e \<in> set es" using i(1,3) versions_sub by (metis nth_mem subsetD)
  ultimately show ?thesis using i(2) by blast
qed

lemma newest_None: "newest k es = None \<longleftrightarrow> (\<forall>e \<in> set es. me_composite_key e \<noteq> k)"
  using versions_sub versions_complete unfolding newest_def find_None_iff same_version_def by fastforce

section \<open>Reads\<close>

definition history_covers :: "memtable_entry list \<Rightarrow> composite_key \<Rightarrow> u64 \<Rightarrow> bool" where
  "history_covers es k s \<longleftrightarrow> (\<exists>t \<in> set es. me_entry_type t = RangeDelete
     \<and> ts_covers (tombstone_of t) (record_id k) (item_key k) s)"

lemma rti_covers_history:
  assumes "mt_repr m es"
  shows "rti_covers (mt_range_tombstones m) (record_id k) (item_key k) s \<longleftrightarrow> history_covers es k s"
proof -
  have ok: "rti_ok (mt_range_tombstones m)"
    and st: "set (rti_tombstones (mt_range_tombstones m)) = tombstone_of ` {e \<in> set es. me_entry_type e = RangeDelete}"
    using assms by (auto simp: mt_repr_def)
  show ?thesis unfolding rti.covers_iff [OF ok] st history_covers_def by blast
qed

lemma mt_get_repr:
  assumes "mt_repr m es"
  shows "mt_get k m = (case newest k es of None \<Rightarrow> None
    | Some e \<Rightarrow> if history_covers es k (me_sequence_number e) then None else Some e)"
proof -
  have ok: "sl_ok (mt_skiplist m)" and ent: "sl_entries (mt_skiplist m) = versions es" using assms by (auto simp: mt_repr_def)
  obtain x where x: "sl_get k (mt_skiplist m) = Some x" "map_option node_to_entry x = newest k es"
    using sl.get_spec [OF ok, of k] by (auto simp: ent newest_def)
  show ?thesis
  proof (cases x)
    case None
    then show ?thesis using x by (auto simp: mt_get_def skip_get_def)
  next
    case (Some n)
    then have nw: "newest k es = Some (node_to_entry n)" using x by auto
    then have "sn_key n = k" using newest_SomeD by (metis me_keys(1))
    then show ?thesis
      using x Some nw rti_covers_history [OF assms, of k "sn_sequence_number n"]
      by (simp add: mt_get_def skip_get_def mt_covers_def)
  qed
qed

text \<open>C25: a point read of a memtable built by any mix of insertions returns an entry exactly when the
  key has been written and its version with the highest sequence number is not covered by a range
  deletion with a higher sequence number, and then it returns that version (deletions included).\<close>

theorem memtable_get_correct:
  assumes "mt_built config m es"
  shows "(\<forall>e. mt_get k m = Some e \<longrightarrow> e \<in> set es \<and> me_composite_key e = k
            \<and> (\<forall>x \<in> set es. me_composite_key x = k \<longrightarrow> me_sequence_number x \<le> me_sequence_number e)
            \<and> \<not> history_covers es k (me_sequence_number e))
       \<and> (mt_get k m = None \<longleftrightarrow> (\<forall>x \<in> set es. me_composite_key x \<noteq> k)
            \<or> (\<exists>e. newest k es = Some e \<and> history_covers es k (me_sequence_number e)))"
  using mt_get_repr [OF mt_built_repr [OF assms], of k] newest_SomeD [of k es] newest_None [of k es]
  by (auto split: option.splits if_splits)

definition sample_put :: "bytes \<Rightarrow> u64 \<Rightarrow> memtable_entry" where
  "sample_put v s = me_with_sequence (CompositeKey [1, 0, 5]) v [] token_none s Put"

definition sample_range_delete :: "u64 \<Rightarrow> memtable_entry" where
  "sample_range_delete s = me_with_sequence (CompositeKey [1, 0, 255]) [] [] token_none s RangeDelete"

lemma sample_ck_ok: "ck_ok (me_composite_key (sample_put v s))" "ck_ok (me_composite_key (sample_range_delete s))"
  by (simp_all add: sample_put_def sample_range_delete_def me_with_sequence_def ck_ok_def SEPARATOR_def)

definition sample_memtable :: "memtable_entry list \<Rightarrow> memtable" where
  "sample_memtable es = fold (\<lambda>e m. snd (projr (mt_insert_with_assigned_sequence 1 e m))) es
     (mt_new (\<lambda>_. 1) 0 memtable_config_default 1)"

lemma sample_memtable_built:
  "\<forall>e \<in> set es. ck_ok (me_composite_key e) \<Longrightarrow>
     mt_built memtable_config_default (sample_memtable es) es \<and> \<not> mt_frozen (sample_memtable es)"
proof (induction es rule: rev_induct)
  case Nil
  then show ?case by (auto simp: sample_memtable_def mt_new_def intro: mt_built.new [unfolded mt_new_def])
next
  case (snoc e es)
  let ?m = "sample_memtable es"
  have m: "mt_built memtable_config_default ?m es" "\<not> mt_frozen ?m" using snoc by auto
  obtain s m' where i: "mt_insert_with_assigned_sequence 1 e ?m = Inr (s, m')" and f: "\<not> mt_frozen m'"
    using m(2) by (auto simp: mt_insert_with_assigned_sequence_def mt_insert_inner_def Let_def split: if_splits)
  then have "sample_memtable (es @ [e]) = m'" by (simp add: sample_memtable_def)
  then show ?case using mt_built.prechecked [OF m(1) _ i] snoc.prems f by simp
qed

theorem memtable_get_correct_witness:
  "mt_get (CompositeKey [1, 0, 5]) (sample_memtable [sample_put [7] 1, sample_put [8] 2]) \<noteq> None
   \<and> mt_get (CompositeKey [1, 0, 5]) (sample_memtable [sample_put [7] 1, sample_range_delete 3]) = None"
proof
  have b1: "mt_built memtable_config_default (sample_memtable [sample_put [7] 1, sample_put [8] 2]) [sample_put [7] 1, sample_put [8] 2]"
    and b2: "mt_built memtable_config_default (sample_memtable [sample_put [7] 1, sample_range_delete 3]) [sample_put [7] 1, sample_range_delete 3]"
    using sample_memtable_built sample_ck_ok by simp_all
  show "mt_get (CompositeKey [1, 0, 5]) (sample_memtable [sample_put [7] 1, sample_put [8] 2]) \<noteq> None"
    using memtable_get_correct [OF b1, of "CompositeKey [1, 0, 5]", THEN conjunct2]
    by (auto simp: history_covers_def sample_put_def me_with_sequence_def)
  have n: "newest (CompositeKey [1, 0, 5]) [sample_put [7] 1, sample_range_delete 3] = Some (sample_put [7] 1)"
    by (simp add: newest_def ins_version_def sample_put_def sample_range_delete_def me_with_sequence_def ver_less_def
        same_version_def less_composite_key_def)
  have "history_covers [sample_put [7] 1, sample_range_delete 3] (CompositeKey [1, 0, 5]) (me_sequence_number (sample_put [7] 1))"
    by (simp add: history_covers_def sample_put_def sample_range_delete_def me_with_sequence_def ts_covers_def
        tombstone_of_def record_id_def item_key_def SEPARATOR_def)
  with n memtable_get_correct [OF b2, of "CompositeKey [1, 0, 5]", THEN conjunct2]
  show "mt_get (CompositeKey [1, 0, 5]) (sample_memtable [sample_put [7] 1, sample_range_delete 3]) = None" by blast
qed

section \<open>Scans\<close>

definition key_less :: "memtable_entry \<Rightarrow> memtable_entry \<Rightarrow> bool" where
  "key_less a b \<longleftrightarrow> me_composite_key a < me_composite_key b"

lemma dedup_and_check_spec:
  assumes "sorted_wrt node_less ns" and "\<forall>k. last_key = Some k \<longrightarrow> (\<forall>n \<in> set ns. k \<le> sn_key n)"
  shows "sorted_wrt key_less (dedup_and_check m last_key ns)
    \<and> (\<forall>e. e \<in> set (dedup_and_check m last_key ns) \<longleftrightarrow>
         (\<exists>n. find (\<lambda>x. sn_key x = me_composite_key e) ns = Some n \<and> e = node_to_entry n
            \<and> last_key \<noteq> Some (me_composite_key e) \<and> \<not> mt_covers m n))"
  using assms
proof (induction m last_key ns rule: dedup_and_check.induct)
  case (2 m last_key node rest)
  have rest: "sorted_wrt node_less rest" "\<forall>n \<in> set rest. sn_key node \<le> sn_key n"
    using "2.prems"(1) by (auto simp: node_less_def [of node] compare_entries_Less)
  show ?case
  proof (cases "last_key = Some (sn_key node)")
    case True
    then show ?thesis using "2.IH"(1) rest by auto
  next
    case False
    have IH: "sorted_wrt key_less (dedup_and_check m (Some (sn_key node)) rest)"
      "\<And>e. e \<in> set (dedup_and_check m (Some (sn_key node)) rest) \<longleftrightarrow>
         (\<exists>n. find (\<lambda>x. sn_key x = me_composite_key e) rest = Some n \<and> e = node_to_entry n
            \<and> sn_key node \<noteq> me_composite_key e \<and> \<not> mt_covers m n)"
      using "2.IH"(2,3) False rest by (cases "mt_covers m node"; auto)+
    have gt: "\<forall>e \<in> set (dedup_and_check m (Some (sn_key node)) rest). sn_key node < me_composite_key e"
    proof
      fix e assume "e \<in> set (dedup_and_check m (Some (sn_key node)) rest)"
      then obtain n where n: "find (\<lambda>x. sn_key x = me_composite_key e) rest = Some n" "sn_key node \<noteq> me_composite_key e"
        using IH(2) by blast
      then have "n \<in> set rest" "sn_key n = me_composite_key e" by (auto simp: find_Some_iff)
      then show "sn_key node < me_composite_key e" using rest(2) n(2) by (metis order.not_eq_order_implies_strict)
    qed
    have lst: "last_key \<noteq> Some k" if "find (\<lambda>x. sn_key x = k) rest = Some n" for k n
    proof -
      have "n \<in> set rest" "sn_key n = k" using that by (auto simp: find_Some_iff)
      then have "sn_key node \<le> k" using rest(2) by blast
      then show ?thesis using "2.prems"(2) False by force
    qed
    show ?thesis
    proof (cases "mt_covers m node")
      case True
      then show ?thesis using IH False lst by auto
    next
      case nc: False
      have "sorted_wrt key_less (dedup_and_check m last_key (node # rest))"
        using IH(1) gt False nc by (simp add: key_less_def)
      moreover have "e \<in> set (dedup_and_check m last_key (node # rest)) \<longleftrightarrow>
         (\<exists>n. find (\<lambda>x. sn_key x = me_composite_key e) (node # rest) = Some n \<and> e = node_to_entry n
            \<and> last_key \<noteq> Some (me_composite_key e) \<and> \<not> mt_covers m n)" for e
      proof (cases "sn_key node = me_composite_key e")
        case True
        then show ?thesis using IH(2) [of e] False nc by auto
      next
        case ne: False
        then have "e \<noteq> node_to_entry node" by auto
        then show ?thesis using IH(2) [of e] False nc lst [of "me_composite_key e"] ne by auto
      qed
      ultimately show ?thesis by blast
    qed
  qed
qed simp

lemma find_filter_imp: "(\<And>x. P x \<Longrightarrow> Q x) \<Longrightarrow> find P (filter Q xs) = find P xs"
  by (induction xs) auto

lemma find_filter_none: "(\<And>x. P x \<Longrightarrow> \<not> Q x) \<Longrightarrow> find P (filter Q xs) = None"
  by (induction xs) auto

lemma find_map_entry:
  "find (\<lambda>e. me_composite_key e = k) (map node_to_entry ns) = map_option node_to_entry (find (\<lambda>n. sn_key n = k) ns)"
  by (induction ns) auto

lemma scan_repr:
  assumes repr: "mt_repr m es" and ns: "map node_to_entry ns = filter (\<lambda>e. Q (me_composite_key e)) (versions es)"
  shows "sorted_wrt key_less (dedup_and_check m None ns)
    \<and> set (dedup_and_check m None ns) = {e. Q (me_composite_key e) \<and> mt_get (me_composite_key e) m = Some e}"
proof -
  have "sorted_wrt ver_less (map node_to_entry ns)" unfolding ns by (rule sorted_wrt_filter [OF versions_sorted])
  then have srt: "sorted_wrt node_less ns" by (simp add: sorted_wrt_map node_less_ver [abs_def])
  have fnd: "map_option node_to_entry (find (\<lambda>n. sn_key n = k) ns) = (if Q k then newest k es else None)" for k
    unfolding find_map_entry [symmetric] ns newest_def
    by (cases "Q k") (auto intro: find_filter_imp find_filter_none)
  have cov: "mt_covers m n \<longleftrightarrow> history_covers es (sn_key n) (sn_sequence_number n)" for n
    by (simp add: mt_covers_def rti_covers_history [OF repr])
  note spec = dedup_and_check_spec [OF srt, of None m]
  have "e \<in> set (dedup_and_check m None ns) \<longleftrightarrow> Q (me_composite_key e) \<and> mt_get (me_composite_key e) m = Some e" for e
  proof -
    have "e \<in> set (dedup_and_check m None ns) \<longleftrightarrow>
        (\<exists>n. find (\<lambda>x. sn_key x = me_composite_key e) ns = Some n \<and> e = node_to_entry n \<and> \<not> mt_covers m n)"
      using spec by simp
    also have "\<dots> \<longleftrightarrow> Q (me_composite_key e) \<and> newest (me_composite_key e) es = Some e
        \<and> \<not> history_covers es (me_composite_key e) (me_sequence_number e)"
      using fnd [of "me_composite_key e"] by (auto simp: cov split: if_splits)
    also have "\<dots> \<longleftrightarrow> Q (me_composite_key e) \<and> mt_get (me_composite_key e) m = Some e"
      using mt_get_repr [OF repr, of "me_composite_key e"] by (auto split: option.splits if_splits)
    finally show ?thesis .
  qed
  then show ?thesis using spec by auto
qed

lemma mt_scan_with_tombstones_repr:
  assumes "mt_repr m es"
  shows "sorted_wrt key_less (mt_scan_with_tombstones a b m)
    \<and> set (mt_scan_with_tombstones a b m)
        = {e. (a \<le> me_composite_key e \<and> me_composite_key e < b) \<and> mt_get (me_composite_key e) m = Some e}"
proof -
  have ok: "sl_ok (mt_skiplist m)" and ent: "sl_entries (mt_skiplist m) = versions es" using assms by (auto simp: mt_repr_def)
  obtain ns where ns: "sl_range a b (mt_skiplist m) = Some ns"
      "map node_to_entry ns = filter (\<lambda>e. a \<le> me_composite_key e \<and> me_composite_key e < b) (versions es)"
    using sl.range_spec [OF ok, of a b] by (auto simp: ent)
  from scan_repr [OF assms ns(2)] ns(1) show ?thesis by (simp add: mt_scan_with_tombstones_def nodes_of_def)
qed

lemma mt_scan_record_with_tombstones_repr:
  assumes "mt_repr m es"
  shows "sorted_wrt key_less (mt_scan_record_with_tombstones rid m)
    \<and> set (mt_scan_record_with_tombstones rid m)
        = {e. (rid_ok rid \<and> record_id (me_composite_key e) = rid) \<and> mt_get (me_composite_key e) m = Some e}"
proof -
  have ok: "sl_ok (mt_skiplist m)" and ent: "sl_entries (mt_skiplist m) = versions es" using assms by (auto simp: mt_repr_def)
  have "\<forall>e \<in> set (versions es). ck_ok (me_composite_key e)" using assms versions_sub unfolding mt_repr_def by blast
  then obtain ns where ns: "sl_scan_record rid (mt_skiplist m) = Some ns"
      "map node_to_entry ns = (if rid_ok rid then filter (\<lambda>e. record_id (me_composite_key e) = rid) (versions es) else [])"
    using sl.scan_record_spec [OF ok, of rid] by (auto simp: ent)
  then have "map node_to_entry ns = filter (\<lambda>e. rid_ok rid \<and> record_id (me_composite_key e) = rid) (versions es)" by simp
  from scan_repr [OF assms this] ns(1) show ?thesis by (simp add: mt_scan_record_with_tombstones_def nodes_of_def)
qed

text \<open>C26: scans of a memtable. The range scan and the record scan that keep tombstones return, in strictly increasing key order, exactly one entry for every key of the range or
  record that was written: its newest version, whether put or tombstone, unless a range tombstone of the memtable covers it. The scans for readers return
  of these the puts, in the same order.\<close>

theorem memtable_scan_correct:
  assumes "mt_built config m es"
  shows "sorted_wrt key_less (mt_scan_with_tombstones a b m) \<and> sorted_wrt key_less (mt_scan_record_with_tombstones rid m)
    \<and> set (mt_scan_with_tombstones a b m) = {e. a \<le> me_composite_key e \<and> me_composite_key e < b
         \<and> newest (me_composite_key e) es = Some e \<and> \<not> history_covers es (me_composite_key e) (me_sequence_number e)}
    \<and> set (mt_scan_record_with_tombstones rid m) = {e. rid_ok rid \<and> record_id (me_composite_key e) = rid
         \<and> newest (me_composite_key e) es = Some e \<and> \<not> history_covers es (me_composite_key e) (me_sequence_number e)}
    \<and> mt_scan a b m = filter (\<lambda>e. me_entry_type e = Put) (mt_scan_with_tombstones a b m)
    \<and> mt_scan_record rid m = filter (\<lambda>e. me_entry_type e = Put) (mt_scan_record_with_tombstones rid m)"
proof -
  have t: "(\<lambda>e. \<not> tombstone_type (me_entry_type e)) = (\<lambda>e. me_entry_type e = Put)"
    by (rule ext) (metis entry_type.exhaust entry_type.distinct tombstone_type_def)
  note repr = mt_built_repr [OF assms]
  have g: "mt_get (me_composite_key e) m = Some e
      \<longleftrightarrow> newest (me_composite_key e) es = Some e \<and> \<not> history_covers es (me_composite_key e) (me_sequence_number e)" for e
    unfolding mt_get_repr [OF repr] by (auto split: option.splits)
  show ?thesis
    using mt_scan_with_tombstones_repr [OF repr, of a b] mt_scan_record_with_tombstones_repr [OF repr, of rid]
    unfolding g mt_scan_def mt_scan_record_def filter_scan_results_def t by simp
qed

theorem memtable_scan_correct_witness:
  "set (mt_scan_with_tombstones (CompositeKey [1, 0]) (CompositeKey [1, 0, 255]) (sample_memtable [sample_put [7] 1, sample_put [8] 2])) = {sample_put [8] 2}"
proof -
  let ?es = "[sample_put [7] 1, sample_put [8] 2]"
  have b: "mt_built memtable_config_default (sample_memtable ?es) ?es" using sample_memtable_built sample_ck_ok by simp
  have n: "newest k ?es = (if k = CompositeKey [1, 0, 5] then Some (sample_put [8] 2) else None)" for k
    by (simp add: newest_def ins_version_def sample_put_def me_with_sequence_def ver_less_def same_version_def less_composite_key_def)
  have k: "me_composite_key (sample_put [8] 2) = CompositeKey [1, 0, 5]" by (simp add: sample_put_def me_with_sequence_def)
  have "CompositeKey [1, 0] \<le> CompositeKey [1, 0, 5]" "CompositeKey [1, 0, 5] < CompositeKey [1, 0, 255]"
    by (simp_all add: less_eq_composite_key_def less_composite_key_def)
  then show ?thesis unfolding memtable_scan_correct [OF b, THEN conjunct2, THEN conjunct2, THEN conjunct1] n
    by (auto simp: k history_covers_def sample_put_def me_with_sequence_def split: if_splits)
qed

end
