(* ===== verification/Memtable_List.thy ===== *)
theory Memtable_List
  imports Memtable "HOL-Library.Product_Lexorder"
begin

text \<open>
  \<^verbatim>\<open>memtable_list.rs\<close>: the active memtable and the frozen ones, newest first, with the generation each
  frozen memtable belongs to. Reads ask the memtables from the newest to the oldest; scans collect
  from all of them, sort by key and descending sequence number and keep the first version of a key.
\<close>

record memtable_list =
  ml_active :: memtable
  ml_frozen :: "memtable list"
  ml_frozen_generation_ids :: "u64 list"
  ml_config :: memtable_config

definition ml_new :: "rng \<Rightarrow> nat \<Rightarrow> memtable_config \<Rightarrow> u64 \<Rightarrow> memtable_list" where
  "ml_new r now config starting_sequence =
     \<lparr>ml_active = mt_new r now config starting_sequence, ml_frozen = [], ml_frozen_generation_ids = [], ml_config = config\<rparr>"

fun any_check_dedup :: "memtable list \<Rightarrow> idempotency_token \<Rightarrow> bool" where
  "any_check_dedup [] t = False"
| "any_check_dedup (m # ms) t = (if mt_check_dedup m t then True else any_check_dedup ms t)"

definition ml_check_dedup :: "memtable_list \<Rightarrow> idempotency_token \<Rightarrow> unit flush_result" where
  "ml_check_dedup l t =
     (if token_is_none t then Inr ()
      else if mt_check_dedup (ml_active l) t then Inl (DuplicateToken '''')
      else if any_check_dedup (ml_frozen l) t then Inl (DuplicateToken '''')
      else Inr ())"

definition ml_with_active :: "memtable_list \<Rightarrow> (u64 \<times> memtable) flush_result \<Rightarrow> (u64 \<times> memtable_list) flush_result" where
  "ml_with_active l r = bind_res r (\<lambda>(s, m). Inr (s, l\<lparr>ml_active := m\<rparr>))"

definition ml_insert :: "nat \<Rightarrow> memtable_entry \<Rightarrow> memtable_list \<Rightarrow> (u64 \<times> memtable_list) flush_result" where
  "ml_insert n e l =
     (let t = me_idempotency_key e
      in if \<not> token_is_none t \<and> mt_check_dedup (ml_active l) t then Inl (DuplicateToken '''')
         else if \<not> token_is_none t \<and> any_check_dedup (ml_frozen l) t then Inl (DuplicateToken '''')
         else ml_with_active l (mt_insert n e (ml_active l)))"

definition ml_insert_prechecked :: "nat \<Rightarrow> memtable_entry \<Rightarrow> memtable_list \<Rightarrow> (u64 \<times> memtable_list) flush_result" where
  "ml_insert_prechecked n e l = ml_with_active l (mt_insert_with_assigned_sequence n e (ml_active l))"

fun first_get :: "composite_key \<Rightarrow> memtable list \<Rightarrow> memtable_entry option" where
  "first_get k [] = None"
| "first_get k (m # ms) = (case mt_get k m of Some e \<Rightarrow> Some e | None \<Rightarrow> first_get k ms)"

definition ml_get :: "composite_key \<Rightarrow> memtable_list \<Rightarrow> memtable_entry option" where
  "ml_get k l =
     (case mt_get k (ml_active l) of Some e \<Rightarrow> Some e | None \<Rightarrow> first_get k (ml_frozen l))"

definition sort_versions :: "memtable_entry list \<Rightarrow> memtable_entry list" where
  "sort_versions es = sort_key (\<lambda>e. (me_composite_key e, NOT (me_sequence_number e))) es"

text \<open>\<^verbatim>\<open>dedup_by\<close> on equal keys: an element is dropped when its key is that of the last one kept.\<close>

fun dedup_after :: "composite_key option \<Rightarrow> memtable_entry list \<Rightarrow> memtable_entry list" where
  "dedup_after k [] = []"
| "dedup_after k (e # es) =
     (if k = Some (me_composite_key e) then dedup_after k es else e # dedup_after (Some (me_composite_key e)) es)"

definition dedup_keys :: "memtable_entry list \<Rightarrow> memtable_entry list" where
  "dedup_keys es = dedup_after None es"

definition merge_and_filter :: "memtable_entry list \<Rightarrow> memtable_entry list" where
  "merge_and_filter es = filter (\<lambda>e. \<not> tombstone_type (me_entry_type e)) (dedup_keys (sort_versions es))"

definition ml_scan :: "composite_key \<Rightarrow> composite_key \<Rightarrow> memtable_list \<Rightarrow> memtable_entry list" where
  "ml_scan a b l = merge_and_filter
     (mt_scan_with_tombstones a b (ml_active l) @ concat (map (mt_scan_with_tombstones a b) (ml_frozen l)))"

definition ml_scan_record :: "bytes \<Rightarrow> memtable_list \<Rightarrow> memtable_entry list" where
  "ml_scan_record rid l = merge_and_filter
     (mt_scan_record_with_tombstones rid (ml_active l) @ concat (map (mt_scan_record_with_tombstones rid) (ml_frozen l)))"

definition ml_scan_all_with_tombstones :: "composite_key \<Rightarrow> composite_key \<Rightarrow> memtable_list \<Rightarrow> memtable_entry list" where
  "ml_scan_all_with_tombstones a b l = dedup_keys (sort_versions
     (mt_scan_with_tombstones a b (ml_active l) @ concat (map (mt_scan_with_tombstones a b) (ml_frozen l))))"

definition ml_freeze_active_with_generation :: "rng \<Rightarrow> nat \<Rightarrow> u64 \<Rightarrow> memtable_list \<Rightarrow> memtable_list flush_result" where
  "ml_freeze_active_with_generation r now generation_id l =
     (if length (ml_frozen l) \<ge> max_frozen_count (ml_config l)
      then Inl (ResourceExhausted ''memtable'' ''too many frozen memtables'')
      else let next_seq = mt_next_sequence_number (ml_active l)
           in Inr (l\<lparr>ml_active := mt_new r now (ml_config l) next_seq,
                     ml_frozen := mt_freeze (ml_active l) # ml_frozen l,
                     ml_frozen_generation_ids := generation_id # ml_frozen_generation_ids l\<rparr>))"

definition ml_should_freeze :: "nat \<Rightarrow> nat \<Rightarrow> memtable_list \<Rightarrow> bool" where
  "ml_should_freeze now max_age l =
     (mt_should_freeze_by_size (ml_active l) \<or> mt_should_freeze_by_age now max_age (ml_active l))"

text \<open>The generations track the frozen memtables one to one; popping from an empty list of generations
  would panic, which the model returns as \<open>Inl\<close>.\<close>

definition ml_pop_oldest_frozen_with_generation ::
  "memtable_list \<Rightarrow> ((u64 \<times> memtable) option \<times> memtable_list) flush_result" where
  "ml_pop_oldest_frozen_with_generation l =
     (if ml_frozen l = [] then Inr (None, l)
      else if ml_frozen_generation_ids l = [] then Inl (InvalidArgument ''frozen generations must track frozen memtables'')
      else Inr (Some (last (ml_frozen_generation_ids l), last (ml_frozen l)),
                l\<lparr>ml_frozen_generation_ids := butlast (ml_frozen_generation_ids l), ml_frozen := butlast (ml_frozen l)\<rparr>))"

definition ml_is_backpressured :: "memtable_list \<Rightarrow> bool" where
  "ml_is_backpressured l = (length (ml_frozen l) \<ge> max_frozen_count (ml_config l))"

definition ml_total_memory_usage :: "memtable_list \<Rightarrow> nat" where
  "ml_total_memory_usage l = fold (\<lambda>m total. total + mt_approximate_memory_usage m) (ml_frozen l)
     (mt_approximate_memory_usage (ml_active l))"

definition ml_is_memory_backpressured :: "memtable_list \<Rightarrow> bool" where
  "ml_is_memory_backpressured l = (ml_total_memory_usage l \<ge> memtable_memory_limit (ml_config l))"

definition ml_total_entry_count :: "memtable_list \<Rightarrow> nat" where
  "ml_total_entry_count l = fold (\<lambda>m total. total + mt_entry_count m) (ml_frozen l) (mt_entry_count (ml_active l))"

fun any_covers :: "bytes \<Rightarrow> bytes \<Rightarrow> u64 \<Rightarrow> memtable list \<Rightarrow> bool" where
  "any_covers rid k s [] = False"
| "any_covers rid k s (m # ms) =
     (if rti_covers (mt_range_tombstones m) rid k s then True else any_covers rid k s ms)"

definition ml_range_tombstone_covers :: "memtable_list \<Rightarrow> bytes \<Rightarrow> bytes \<Rightarrow> u64 \<Rightarrow> bool" where
  "ml_range_tombstone_covers l rid k s =
     (if rti_covers (mt_range_tombstones (ml_active l)) rid k s then True else any_covers rid k s (ml_frozen l))"

definition ml_all_range_tombstones :: "memtable_list \<Rightarrow> range_tombstone list" where
  "ml_all_range_tombstones l = rti_tombstones (mt_range_tombstones (ml_active l))
     @ concat (map (\<lambda>m. rti_tombstones (mt_range_tombstones m)) (ml_frozen l))"

section \<open>Histories of a list\<close>

text \<open>The histories of the memtables, newest memtable first. Sequence numbers grow from the oldest
  memtable to the active one and stay below the counter.\<close>

definition ml_repr :: "memtable_list \<Rightarrow> memtable_entry list list \<Rightarrow> bool" where
  "ml_repr l hs \<longleftrightarrow> list_all2 mt_repr (ml_active l # ml_frozen l) hs
     \<and> length (ml_frozen_generation_ids l) = length (ml_frozen l)
     \<and> (\<forall>e \<in> set (concat hs). me_sequence_number e < mt_next_sequence_number (ml_active l))
     \<and> sorted_wrt (\<lambda>newer older. \<forall>a \<in> set newer. \<forall>b \<in> set older. me_sequence_number b < me_sequence_number a) hs
     \<and> \<not> mt_frozen (ml_active l)"

text \<open>Inserts go to the active memtable, the engine's own numbers are not below its counter, and the
  counter does not wrap.\<close>

inductive ml_built :: "memtable_list \<Rightarrow> memtable_entry list list \<Rightarrow> bool" where
  new: "ml_built (ml_new r now config s) [[]]"
| insert: "\<lbrakk>ml_built l (h # hs); ck_ok (me_composite_key e); mt_next_sequence_number (ml_active l) \<noteq> - 1;
    ml_insert n e l = Inr (s, l')\<rbrakk> \<Longrightarrow> ml_built l' ((h @ [e\<lparr>me_sequence_number := s\<rparr>]) # hs)"
| prechecked: "\<lbrakk>ml_built l (h # hs); ck_ok (me_composite_key e);
    mt_next_sequence_number (ml_active l) \<le> me_sequence_number e; me_sequence_number e \<noteq> - 1;
    ml_insert_prechecked n e l = Inr (s, l')\<rbrakk> \<Longrightarrow> ml_built l' ((h @ [e]) # hs)"
| freeze: "\<lbrakk>ml_built l hs; ml_freeze_active_with_generation r now g l = Inr l'\<rbrakk> \<Longrightarrow> ml_built l' ([] # hs)"
| pop: "\<lbrakk>ml_built l hs; ml_pop_oldest_frozen_with_generation l = Inr (Some p, l')\<rbrakk> \<Longrightarrow> ml_built l' (butlast hs)"

lemma plus_one_greater: "(x :: u64) \<noteq> - 1 \<Longrightarrow> x < x + 1 \<and> (y < x + 1 \<longleftrightarrow> y \<le> x)"
proof -
  assume "x \<noteq> - 1"
  then have "unat x \<noteq> unat (- 1 :: u64)" by (simp only: word_unat_eq_iff not_False_eq_True)
  moreover have "unat (- 1 :: u64) = 2 ^ 64 - 1"
    by (simp add: unsigned_minus_1_eq_mask mask_eq_exp_minus_1)
  moreover have "unat x < 2 ^ 64" using unsigned_less [of x] by simp
  ultimately have "unat x + 1 < 2 ^ 64" by simp
  then have u: "unat (x + 1) = unat x + 1" by (subst unat_add_lem [THEN iffD1]) simp_all
  then show ?thesis by (auto simp: word_less_nat_alt word_le_nat_alt)
qed

lemma mt_new_simps [simp]:
  "mt_next_sequence_number (mt_new r now config s) = s" "\<not> mt_frozen (mt_new r now config s)"
  by (simp_all add: mt_new_def)

lemma ml_built_repr: "ml_built l hs \<Longrightarrow> ml_repr l hs"
proof (induction rule: ml_built.induct)
  case (new r now config s)
  then show ?case using mt_new_repr by (simp add: ml_repr_def ml_new_def)
next
  case (insert l h hs e n s l')
  let ?m = "ml_active l" and ?e = "e\<lparr>me_sequence_number := s\<rparr>"
  obtain m' where m': "mt_insert n e ?m = Inr (s, m')" "l' = l\<lparr>ml_active := m'\<rparr>"
    using insert.hyps by (auto simp: ml_insert_def ml_with_active_def Let_def split: if_splits)
  then have s: "s = mt_next_sequence_number ?m"
    and m1: "m' = mt_insert_inner n ?e (?m\<lparr>mt_next_sequence_number := mt_next_sequence_number ?m + 1\<rparr>)"
    by (auto simp: mt_insert_def mt_insert_prechecked_def Let_def split: if_splits)
  have "mt_repr (?m\<lparr>mt_next_sequence_number := mt_next_sequence_number ?m + 1\<rparr>) h"
    using insert.IH by (subst mt_repr_cong [of _ ?m]) (simp_all add: ml_repr_def)
  then have r: "mt_repr m' (h @ [?e])" unfolding m1 using insert.hyps(2) by (intro mt_insert_inner_repr) simp_all
  have nx: "mt_next_sequence_number m' = s + 1" "mt_frozen m' = mt_frozen ?m"
    unfolding m1 by (simp_all add: mt_insert_inner_def Let_def s)
  show ?case
    using insert.IH insert.hyps(3) r nx plus_one_greater [of s] unfolding s [symmetric]
    by (auto simp: ml_repr_def m'(2) s [symmetric] less_imp_le)
next
  case (prechecked l h hs e n s l')
  let ?m = "ml_active l"
  obtain m' where m': "mt_insert_with_assigned_sequence n e ?m = Inr (s, m')" "l' = l\<lparr>ml_active := m'\<rparr>"
    using prechecked.hyps by (auto simp: ml_insert_prechecked_def ml_with_active_def)
  then have m1: "m' = mt_insert_inner n e (?m\<lparr>mt_next_sequence_number := me_sequence_number e + 1\<rparr>)"
    using prechecked.hyps(3) by (auto simp: mt_insert_with_assigned_sequence_def Let_def split: if_splits)
  have "mt_repr (?m\<lparr>mt_next_sequence_number := me_sequence_number e + 1\<rparr>) h"
    using prechecked.IH by (subst mt_repr_cong [of _ ?m]) (simp_all add: ml_repr_def)
  then have r: "mt_repr m' (h @ [e])" unfolding m1 using prechecked.hyps(2) by (intro mt_insert_inner_repr)
  have nx: "mt_next_sequence_number m' = me_sequence_number e + 1" "mt_frozen m' = mt_frozen ?m"
    unfolding m1 by (simp_all add: mt_insert_inner_def Let_def)
  have lt: "\<forall>x \<in> set (concat (h # hs)). me_sequence_number x < me_sequence_number e"
    using prechecked.IH prechecked.hyps(3) by (auto simp: ml_repr_def intro: less_le_trans)
  show ?case
    using prechecked.IH prechecked.hyps(4) r nx lt plus_one_greater [of "me_sequence_number e"]
    by (auto simp: ml_repr_def m'(2) less_imp_le)
next
  case (freeze l hs r now g l')
  then have l': "l' = l\<lparr>ml_active := mt_new r now (ml_config l) (mt_next_sequence_number (ml_active l)),
      ml_frozen := mt_freeze (ml_active l) # ml_frozen l, ml_frozen_generation_ids := g # ml_frozen_generation_ids l\<rparr>"
    by (auto simp: ml_freeze_active_with_generation_def Let_def split: if_splits)
  have "mt_repr (mt_freeze m) = mt_repr m" for m by (simp add: mt_repr_def mt_freeze_def fun_eq_iff)
  then show ?case using freeze.IH mt_new_repr unfolding l'
    by (cases hs) (auto simp: ml_repr_def)
next
  case (pop l hs p l')
  then have f: "ml_frozen l \<noteq> []"
    and l': "l' = l\<lparr>ml_frozen_generation_ids := butlast (ml_frozen_generation_ids l), ml_frozen := butlast (ml_frozen l)\<rparr>"
    by (auto simp: ml_pop_oldest_frozen_with_generation_def split: if_splits)
  obtain xs x where xs: "ml_frozen l = xs @ [x]" using f by (cases "ml_frozen l" rule: rev_cases) auto
  then have "list_all2 mt_repr ((ml_active l # xs) @ [x]) hs" using pop.IH by (simp add: ml_repr_def)
  then obtain ys y where "hs = ys @ [y]" "list_all2 mt_repr (ml_active l # xs) ys"
    unfolding list_all2_append1 list_all2_Cons1 list_all2_Nil by blast
  then show ?case using pop.IH xs unfolding l' by (auto simp: ml_repr_def sorted_wrt_append)
qed

section \<open>Duplicate tokens\<close>

lemma mt_check_dedup_repr:
  "mt_repr m es \<Longrightarrow> mt_check_dedup m t \<longleftrightarrow> \<not> token_is_none t \<and> t \<in> me_idempotency_key ` set es"
  by (auto simp: mt_check_dedup_def dedup_contains_def mt_repr_def)

lemma any_check_dedup_repr:
  "list_all2 mt_repr ms hs \<Longrightarrow> any_check_dedup ms t \<longleftrightarrow> \<not> token_is_none t \<and> t \<in> me_idempotency_key ` set (concat hs)"
  by (induction rule: list_all2_induct) (auto simp: mt_check_dedup_repr)

lemma ml_repr_Cons:
  assumes "ml_repr l hs"
  obtains h hs' where "hs = h # hs'" "mt_repr (ml_active l) h" "list_all2 mt_repr (ml_frozen l) hs'"
  using assms by (auto simp: ml_repr_def list_all2_Cons1)

text \<open>Exactly-once writes while their memtables are resident. \<open>check_dedup\<close> and \<open>insert\<close> reject a token
  exactly when some entry in the active or a frozen memtable carries it, the reserved empty token is
  never rejected, and an accepted insert is appended to the active memtable under the next sequence
  number, which is larger than every number in the list.\<close>

lemma memtable_list_dedup:
  assumes "ml_built l hs"
  shows "(ml_check_dedup l t = Inr () \<longleftrightarrow> token_is_none t \<or> t \<notin> me_idempotency_key ` set (concat hs))
    \<and> (ml_insert n e l = Inl (DuplicateToken '''') \<longleftrightarrow> ml_check_dedup l (me_idempotency_key e) \<noteq> Inr ())
    \<and> (ml_check_dedup l (me_idempotency_key e) = Inr () \<longrightarrow>
        (\<exists>l'. ml_insert n e l = Inr (mt_next_sequence_number (ml_active l), l')
           \<and> (\<forall>x \<in> set (concat hs). me_sequence_number x < mt_next_sequence_number (ml_active l))))"
proof -
  have repr: "ml_repr l hs" by (rule ml_built_repr [OF assms])
  obtain h hs' where hs: "hs = h # hs'" "mt_repr (ml_active l) h" "list_all2 mt_repr (ml_frozen l) hs'"
    using repr by (rule ml_repr_Cons)
  have a: "mt_check_dedup (ml_active l) t \<longleftrightarrow> \<not> token_is_none t \<and> t \<in> me_idempotency_key ` set h" for t
    by (rule mt_check_dedup_repr [OF hs(2)])
  have f: "any_check_dedup (ml_frozen l) t \<longleftrightarrow> \<not> token_is_none t \<and> t \<in> me_idempotency_key ` set (concat hs')" for t
    by (rule any_check_dedup_repr [OF hs(3)])
  have chk: "ml_check_dedup l t = Inr () \<longleftrightarrow> token_is_none t \<or> t \<notin> me_idempotency_key ` set (concat hs)" for t
    by (auto simp: ml_check_dedup_def a f hs(1))
  have nf: "\<not> mt_frozen (ml_active l)" and lt: "\<forall>x \<in> set (concat hs). me_sequence_number x < mt_next_sequence_number (ml_active l)"
    using repr by (simp_all add: ml_repr_def)
  have c: "dedup_contains (mt_dedup_set (ml_active l)) t = mt_check_dedup (ml_active l) t" for t
    by (simp add: mt_check_dedup_def)
  have ins: "ml_insert n e l = (if ml_check_dedup l (me_idempotency_key e) = Inr ()
      then ml_with_active l (mt_insert_prechecked n e (ml_active l)) else Inl (DuplicateToken ''''))"
    by (auto simp: ml_insert_def mt_insert_def c nf Let_def a f chk hs(1) ml_with_active_def)
  have ok: "\<exists>l'. ml_with_active l (mt_insert_prechecked n e (ml_active l)) = Inr (mt_next_sequence_number (ml_active l), l')"
    by (simp add: mt_insert_prechecked_def nf Let_def ml_with_active_def)
  then show ?thesis using chk ins lt by auto
qed

end
