(* ===== verification/Merge_Iterator.thy ===== *)
theory Merge_Iterator
  imports Sst_File Memtable_List
begin

text \<open>
  \<^verbatim>\<open>merge_iterator.rs\<close>: the k-way merge under range reads and compactions. Each source is a vector with a
  position; a binary heap holds one item per source that has entries left, the greatest item being the one
  with the smallest key, then the highest sequence number, then the lowest source id. The standard
  library's \<^verbatim>\<open>BinaryHeap\<close> is a list of items of which \<open>heap_pop\<close> takes a greatest one out. Popping an item whose
  source is exhausted would panic: the operations return \<open>None\<close> there.
\<close>

section \<open>Entries, sources, heap items\<close>

record merge_entry =
  mg_composite_key :: composite_key
  mg_value :: bytes
  mg_metadata :: bytes
  mg_entry_type :: entry_type
  mg_sequence_number :: u64

definition mg_from_memtable_entry :: "memtable_entry \<Rightarrow> merge_entry" where
  "mg_from_memtable_entry e = \<lparr>mg_composite_key = me_composite_key e, mg_value = me_value e, mg_metadata = me_metadata e,
     mg_entry_type = me_entry_type e, mg_sequence_number = me_sequence_number e\<rparr>"

definition mg_from_skip_node :: "skip_node \<Rightarrow> merge_entry" where
  "mg_from_skip_node n = \<lparr>mg_composite_key = sn_key n, mg_value = sn_value n, mg_metadata = sn_metadata n,
     mg_entry_type = sn_entry_type n, mg_sequence_number = sn_sequence_number n\<rparr>"

definition mg_from_block_entry :: "block_entry \<Rightarrow> merge_entry" where
  "mg_from_block_entry b = \<lparr>mg_composite_key = be_composite_key b,
     mg_value = (case be_value b of Inline v \<Rightarrow> v | BlobRef _ _ _ \<Rightarrow> []), mg_metadata = be_metadata b,
     mg_entry_type = be_entry_type b, mg_sequence_number = be_sequence_number b\<rparr>"

definition mg_is_tombstone :: "merge_entry \<Rightarrow> bool" where
  "mg_is_tombstone e \<longleftrightarrow> tombstone_type (mg_entry_type e)"

definition mg_is_put :: "merge_entry \<Rightarrow> bool" where
  "mg_is_put e \<longleftrightarrow> mg_entry_type e = Put"

record vec_source =
  vs_entries :: "merge_entry list"
  vs_pos :: nat
  vs_source_id :: nat

definition vs_new :: "merge_entry list \<Rightarrow> nat \<Rightarrow> vec_source" where
  "vs_new es i = \<lparr>vs_entries = es, vs_pos = 0, vs_source_id = i\<rparr>"

definition vs_peek :: "vec_source \<Rightarrow> merge_entry option" where
  "vs_peek s = (if vs_pos s < length (vs_entries s) then Some (vs_entries s ! vs_pos s) else None)"

definition vs_advance :: "vec_source \<Rightarrow> vec_source" where
  "vs_advance s = (if vs_pos s < length (vs_entries s) then s\<lparr>vs_pos := vs_pos s + 1\<rparr> else s)"

record heap_item =
  hi_key :: composite_key
  hi_seq :: u64
  hi_source_idx :: nat
  hi_source_id :: nat

definition heap_item_cmp :: "heap_item \<Rightarrow> heap_item \<Rightarrow> ordering" where
  "heap_item_cmp a b =
     (case cmp (hi_key b) (hi_key a) of
        Equal \<Rightarrow> (case cmp (hi_seq a) (hi_seq b) of Equal \<Rightarrow> cmp (hi_source_id b) (hi_source_id a) | ord \<Rightarrow> ord)
      | ord \<Rightarrow> ord)"

definition heap_push :: "heap_item \<Rightarrow> heap_item list \<Rightarrow> heap_item list" where
  "heap_push x h = x # h"

fun heap_greatest :: "heap_item \<Rightarrow> heap_item list \<Rightarrow> heap_item" where
  "heap_greatest best [] = best"
| "heap_greatest best (x # xs) = heap_greatest (if heap_item_cmp x best = Greater then x else best) xs"

fun heap_peek :: "heap_item list \<Rightarrow> heap_item option" where
  "heap_peek [] = None"
| "heap_peek (x # xs) = Some (heap_greatest x xs)"

definition heap_pop :: "heap_item list \<Rightarrow> (heap_item \<times> heap_item list) option" where
  "heap_pop h = map_option (\<lambda>m. (m, remove1 m h)) (heap_peek h)"

section \<open>The iterator\<close>

record merge_iterator =
  mi_heap :: "heap_item list"
  mi_sources :: "vec_source list"

definition item_of :: "nat \<Rightarrow> nat \<Rightarrow> merge_entry \<Rightarrow> heap_item" where
  "item_of idx sid e = \<lparr>hi_key = mg_composite_key e, hi_seq = mg_sequence_number e, hi_source_idx = idx, hi_source_id = sid\<rparr>"

definition push_head :: "vec_source list \<Rightarrow> nat \<Rightarrow> heap_item list \<Rightarrow> heap_item list" where
  "push_head sources idx h =
     (case vs_peek (sources ! idx) of None \<Rightarrow> h
      | Some e \<Rightarrow> heap_push (item_of idx (vs_source_id (sources ! idx)) e) h)"

definition mi_new :: "vec_source list \<Rightarrow> merge_iterator" where
  "mi_new sources = \<lparr>mi_heap = fold (push_head sources) [0..<length sources] [], mi_sources = sources\<rparr>"

definition mi_next_entry :: "merge_iterator \<Rightarrow> (merge_entry option \<times> merge_iterator) option" where
  "mi_next_entry it =
     (case heap_pop (mi_heap it) of
        None \<Rightarrow> Some (None, it)
      | Some (item, heap) \<Rightarrow>
          let src = mi_sources it ! hi_source_idx item
          in case vs_peek src of
               None \<Rightarrow> None
             | Some entry \<Rightarrow>
                 let src = vs_advance src;
                     sources = (mi_sources it)[hi_source_idx item := src];
                     heap = (case vs_peek src of None \<Rightarrow> heap
                             | Some nxt \<Rightarrow> heap_push (item_of (hi_source_idx item) (hi_source_id item) nxt) heap)
                 in Some (Some entry, \<lparr>mi_heap = heap, mi_sources = sources\<rparr>))"

definition mi_left :: "merge_iterator \<Rightarrow> nat" where
  "mi_left it = sum_list (map (\<lambda>s. length (vs_entries s) - vs_pos s) (mi_sources it))"

definition mi_is_exhausted :: "merge_iterator \<Rightarrow> bool" where
  "mi_is_exhausted it \<longleftrightarrow> mi_heap it = []"

text \<open>The loop of \<open>next_deduped\<close> drops entries while the top of the heap has the key just returned. Every pass
  takes an entry from a source, so as many rounds as there are entries left are enough; running out of
  rounds is \<open>None\<close>, as a panic is.\<close>

fun skip_key :: "nat \<Rightarrow> composite_key \<Rightarrow> merge_iterator \<Rightarrow> merge_iterator option" where
  "skip_key fuel key it =
     (case heap_peek (mi_heap it) of
        None \<Rightarrow> Some it
      | Some tp \<Rightarrow>
          if hi_key tp = key
          then (case fuel of 0 \<Rightarrow> None
                | Suc n \<Rightarrow> (case mi_next_entry it of None \<Rightarrow> None | Some (_, it') \<Rightarrow> skip_key n key it'))
          else Some it)"

definition next_deduped :: "merge_iterator \<Rightarrow> (merge_entry option \<times> merge_iterator) option" where
  "next_deduped it =
     (case mi_next_entry it of
        None \<Rightarrow> None
      | Some (None, it) \<Rightarrow> Some (None, it)
      | Some (Some entry, it) \<Rightarrow>
          map_option (\<lambda>it. (Some entry, it)) (skip_key (mi_left it) (mg_composite_key entry) it))"

text \<open>Draining the iterator, entry by entry and deduplicated.\<close>

fun drain_entries :: "nat \<Rightarrow> merge_iterator \<Rightarrow> merge_entry list option" where
  "drain_entries fuel it =
     (case mi_next_entry it of
        None \<Rightarrow> None
      | Some (None, it') \<Rightarrow> Some []
      | Some (Some e, it') \<Rightarrow> (case fuel of 0 \<Rightarrow> None | Suc n \<Rightarrow> map_option ((#) e) (drain_entries n it')))"

fun drain_deduped :: "nat \<Rightarrow> merge_iterator \<Rightarrow> merge_entry list option" where
  "drain_deduped fuel it =
     (case next_deduped it of
        None \<Rightarrow> None
      | Some (None, it') \<Rightarrow> Some []
      | Some (Some e, it') \<Rightarrow> (case fuel of 0 \<Rightarrow> None | Suc n \<Rightarrow> map_option ((#) e) (drain_deduped n it')))"

declare skip_key.simps [simp del] drain_entries.simps [simp del] drain_deduped.simps [simp del]

section \<open>Order\<close>

text \<open>Versions in merge order: by key, then from the newest to the oldest.\<close>

definition vk :: "merge_entry \<Rightarrow> composite_key \<times> u64" where
  "vk e = (mg_composite_key e, NOT (mg_sequence_number e))"

definition item_vk :: "heap_item \<Rightarrow> composite_key \<times> u64" where
  "item_vk x = (hi_key x, NOT (hi_seq x))"

lemma not_less_iff: "NOT (a :: u64) < NOT b \<longleftrightarrow> b < a"
proof -
  have "NOT x = - 1 - x" for x :: u64 by (simp add: not_eq_complement)
  moreover have "unat (- 1 - x) = 2 ^ 64 - 1 - unat x" for x :: u64
  proof -
    have "x \<le> - 1" by (rule word_order.extremum)
    then have "unat (- 1 - x) = unat (- 1 :: u64) - unat x" by (rule unat_sub)
    moreover have "unat (- 1 :: u64) = 2 ^ 64 - 1" by (simp add: unsigned_minus_1_eq_mask mask_eq_exp_minus_1)
    ultimately show ?thesis by simp
  qed
  ultimately have u: "unat (NOT x) = 2 ^ 64 - 1 - unat x" for x :: u64 by simp
  have "unat a < 2 ^ 64" "unat b < 2 ^ 64" using unsigned_less [of a] unsigned_less [of b] by simp_all
  then show ?thesis unfolding word_less_nat_alt u by linarith
qed

lemma not_le_iff: "NOT (a :: u64) \<le> NOT b \<longleftrightarrow> b \<le> a"
  using not_less_iff by (meson not_le)

lemma heap_item_cmp_Greater:
  "heap_item_cmp a b = Greater \<longleftrightarrow> item_vk a < item_vk b \<or> item_vk a = item_vk b \<and> hi_source_id a < hi_source_id b"
  by (auto simp: heap_item_cmp_def item_vk_def not_less_iff split: ordering.splits)

definition item_le :: "heap_item \<Rightarrow> heap_item \<Rightarrow> bool" where
  "item_le a b \<longleftrightarrow> heap_item_cmp b a \<noteq> Greater"

lemma item_le_trans: "item_le a b \<Longrightarrow> item_le b c \<Longrightarrow> item_le a c"
  unfolding item_le_def heap_item_cmp_Greater by (auto simp: not_less)

lemma item_le_total: "item_le a b \<or> item_le b a"
  unfolding item_le_def heap_item_cmp_Greater by (auto simp: not_less)

lemma item_le_vk: "item_le a b \<Longrightarrow> item_vk a \<le> item_vk b"
  unfolding item_le_def heap_item_cmp_Greater by (auto simp: not_less)

lemma heap_greatest_spec:
  "heap_greatest best xs \<in> insert best (set xs) \<and> (\<forall>y \<in> insert best (set xs). item_le (heap_greatest best xs) y)"
proof (induction xs arbitrary: best)
  case Nil
  then show ?case using item_le_total by auto
next
  case (Cons x xs)
  let ?b = "if heap_item_cmp x best = Greater then x else best"
  have b: "item_le ?b x" "item_le ?b best"
    using item_le_total [of x x] item_le_total [of best best] item_le_total [of x best] by (auto simp: item_le_def)
  note IH = Cons.IH [of ?b]
  have m: "heap_greatest ?b xs \<in> insert ?b (set xs)" "\<forall>y \<in> insert ?b (set xs). item_le (heap_greatest ?b xs) y" using IH by blast+
  have "item_le (heap_greatest ?b xs) ?b" using m(2) by blast
  then have "item_le (heap_greatest ?b xs) x" "item_le (heap_greatest ?b xs) best" using b item_le_trans by blast+
  then show ?case using m by (auto split: if_splits)
qed

lemma heap_peek_spec:
  "heap_peek h = None \<longleftrightarrow> h = []"
  "heap_peek h = Some m \<Longrightarrow> m \<in> set h \<and> (\<forall>y \<in> set h. item_le m y)"
  using heap_greatest_spec by (cases h; force)+

lemma heap_pop_spec:
  "heap_pop h = None \<longleftrightarrow> h = []"
  "heap_pop h = Some (m, h') \<Longrightarrow> mset h = add_mset m (mset h') \<and> (\<forall>y \<in> set h. item_le m y)"
  using heap_peek_spec by (auto simp: heap_pop_def)

section \<open>What is left in the sources\<close>

definition rest_of :: "vec_source \<Rightarrow> merge_entry list" where
  "rest_of s = drop (vs_pos s) (vs_entries s)"

text \<open>The contract of the trait \<^verbatim>\<open>MergeSource\<close>: the entries still to come, of which \<open>peek\<close> shows the first and
  \<open>advance\<close> drops it.\<close>

locale merge_source =
  fixes peek :: "'s \<Rightarrow> merge_entry option" and advance :: "'s \<Rightarrow> 's" and rest :: "'s \<Rightarrow> merge_entry list"
  assumes peek_rest: "peek s = (case rest s of [] \<Rightarrow> None | e # _ \<Rightarrow> Some e)"
    and rest_advance: "rest (advance s) = tl (rest s)"
begin

lemma peek_None: "peek s = None \<longleftrightarrow> rest s = []"
  by (simp add: peek_rest split: list.splits)

lemma peek_Some: "peek s = Some e \<longleftrightarrow> rest s = e # rest (advance s)"
  by (auto simp: peek_rest rest_advance split: list.splits)

end

definition all_rest :: "merge_iterator \<Rightarrow> merge_entry list" where
  "all_rest it = concat (map rest_of (mi_sources it))"

lemma vs_peek_rest: "vs_peek s = (case rest_of s of [] \<Rightarrow> None | e # _ \<Rightarrow> Some e)"
proof (cases "vs_pos s < length (vs_entries s)")
  case True
  then have "rest_of s = vs_entries s ! vs_pos s # drop (Suc (vs_pos s)) (vs_entries s)"
    by (simp add: rest_of_def Cons_nth_drop_Suc)
  then show ?thesis using True by (simp add: vs_peek_def)
qed (simp add: vs_peek_def rest_of_def)

lemma rest_of_advance: "rest_of (vs_advance s) = tl (rest_of s)"
  by (simp add: rest_of_def vs_advance_def drop_Suc drop_tl)

interpretation vs: merge_source vs_peek vs_advance rest_of
  by unfold_locales (rule vs_peek_rest, rule rest_of_advance)

lemma rest_of_new [simp]: "rest_of (vs_new es i) = es"
  by (simp add: rest_of_def vs_new_def)

lemma vs_source_id_advance [simp]: "vs_source_id (vs_advance s) = vs_source_id s"
  by (simp add: vs_advance_def)

lemma mi_left_rest: "mi_left it = length (all_rest it)"
  by (simp add: mi_left_def all_rest_def length_concat o_def rest_of_def)

definition head_item :: "nat \<Rightarrow> vec_source \<Rightarrow> heap_item list" where
  "head_item i s = (case rest_of s of [] \<Rightarrow> [] | e # _ \<Rightarrow> [item_of i (vs_source_id s) e])"

definition head_items :: "vec_source list \<Rightarrow> nat list \<Rightarrow> heap_item list" where
  "head_items ss is = concat (map (\<lambda>i. head_item i (ss ! i)) is)"

definition mi_inv :: "merge_iterator \<Rightarrow> bool" where
  "mi_inv it \<longleftrightarrow> mset (mi_heap it) = mset (head_items (mi_sources it) [0..<length (mi_sources it)])"

lemma mset_fold_push_head: "mset (fold (push_head ss) is h) = mset (head_items ss is) + mset h"
  by (induction "is" arbitrary: h)
     (auto simp: head_items_def push_head_def head_item_def vs_peek_rest heap_push_def split: list.splits)

lemma mi_new_inv: "mi_inv (mi_new ss)"
  by (simp add: mi_inv_def mi_new_def mset_fold_push_head)

lemma upt_split_at: "i < n \<Longrightarrow> [0..<n] = [0..<i] @ i # [Suc i..<n]"
  using upt_add_eq_append [of 0 i "n - i"] by (simp add: upt_conv_Cons)

lemma head_items_update:
  assumes "i < length ss"
  shows "mset (head_items (ss[i := s]) [0..<length ss]) + mset (head_item i (ss ! i))
    = mset (head_items ss [0..<length ss]) + mset (head_item i s)"
proof -
  have "head_items (ss[i := s]) [0..<i] = head_items ss [0..<i]" "head_items (ss[i := s]) [Suc i..<length ss] = head_items ss [Suc i..<length ss]"
    unfolding head_items_def by (intro arg_cong [of _ _ concat] map_cong; simp)+
  then show ?thesis using assms unfolding upt_split_at [OF assms] by (simp add: head_items_def)
qed

lemma in_head_items:
  "x \<in> set (head_items ss [0..<n]) \<longleftrightarrow> (\<exists>i < n. \<exists>e es. rest_of (ss ! i) = e # es \<and> x = item_of i (vs_source_id (ss ! i)) e)"
proof -
  have "x \<in> set (head_item i s) \<longleftrightarrow> (\<exists>e es. rest_of s = e # es \<and> x = item_of i (vs_source_id s) e)" for i s
    by (cases "rest_of s") (auto simp: head_item_def)
  then have "x \<in> set (head_items ss [0..<n]) \<longleftrightarrow> (\<exists>i \<in> {0..<n}. \<exists>e es. rest_of (ss ! i) = e # es \<and> x = item_of i (vs_source_id (ss ! i)) e)"
    by (simp add: head_items_def)
  then show ?thesis by (simp only: Bex_def atLeastLessThan_iff) blast
qed

lemma item_vk_item_of [simp]: "item_vk (item_of i d e) = vk e"
  by (simp add: item_vk_def item_of_def vk_def)

lemma mi_next_entry_cases:
  assumes "mi_inv it"
  shows "all_rest it = [] \<and> mi_next_entry it = Some (None, it) \<or>
    (\<exists>i e it'. i < length (mi_sources it) \<and> rest_of (mi_sources it ! i) = e # rest_of (vs_advance (mi_sources it ! i))
       \<and> mi_next_entry it = Some (Some e, it') \<and> mi_sources it' = (mi_sources it)[i := vs_advance (mi_sources it ! i)]
       \<and> mi_inv it' \<and> (\<forall>s \<in> set (mi_sources it). \<forall>x xs. rest_of s = x # xs \<longrightarrow> vk e \<le> vk x))"
proof (cases "heap_pop (mi_heap it)")
  case None
  then have "mset (head_items (mi_sources it) [0..<length (mi_sources it)]) = {#}"
    using assms heap_pop_spec(1) by (simp add: mi_inv_def)
  then have "head_items (mi_sources it) [0..<length (mi_sources it)] = []" by simp
  then have empty: "x \<notin> set (head_items (mi_sources it) [0..<length (mi_sources it)])" for x by simp
  have "rest_of (mi_sources it ! i) = []" if "i < length (mi_sources it)" for i
  proof (cases "rest_of (mi_sources it ! i)")
    case (Cons e es)
    then have "item_of i (vs_source_id (mi_sources it ! i)) e \<in> set (head_items (mi_sources it) [0..<length (mi_sources it)])"
      unfolding in_head_items using that by blast
    then show ?thesis using empty by blast
  qed
  then have "all_rest it = []" by (auto simp: all_rest_def in_set_conv_nth)
  then show ?thesis using None by (simp add: mi_next_entry_def)
next
  case (Some p)
  obtain m h' where p: "p = (m, h')" by (cases p)
  let ?ss = "mi_sources it" and ?n = "length (mi_sources it)"
  from heap_pop_spec(2) [OF Some [unfolded p]] have m: "mset (mi_heap it) = add_mset m (mset h')" "\<forall>y \<in> set (mi_heap it). item_le m y"
    by blast+
  have hs: "set (mi_heap it) = set (head_items ?ss [0..<?n])" using assms by (metis mi_inv_def set_mset_mset)
  have "m \<in> set (mi_heap it)" using arg_cong [OF m(1), of set_mset] by simp
  then obtain i e es where i: "i < ?n" "rest_of (?ss ! i) = e # es" "m = item_of i (vs_source_id (?ss ! i)) e"
    unfolding hs in_head_items by blast
  let ?s = "vs_advance (?ss ! i)"
  have r: "rest_of ?s = es" using i(2) by (simp add: rest_of_advance)
  have idx: "hi_source_idx m = i" "hi_source_id m = vs_source_id (?ss ! i)" using i(3) by (simp_all add: item_of_def)
  define it' where "it' = \<lparr>mi_heap = head_item i ?s @ h', mi_sources = ?ss[i := ?s]\<rparr>"
  have "mi_next_entry it = Some (Some e, it')"
    using i(2) by (simp add: mi_next_entry_def Some p idx vs_peek_rest r it'_def head_item_def heap_push_def Let_def split: list.splits)
  moreover have "mi_inv it'"
  proof -
    have "mset (head_items (?ss[i := ?s]) [0..<?n]) + {#m#} = mset (mi_heap it) + mset (head_item i ?s)"
      using head_items_update [OF i(1), of ?s] assms i(2,3) by (simp add: mi_inv_def head_item_def)
    then have "mset (head_items (?ss[i := ?s]) [0..<?n]) = mset h' + mset (head_item i ?s)" using m(1) by simp
    then show ?thesis by (simp add: mi_inv_def it'_def)
  qed
  moreover have "vk e \<le> vk x" if x: "s \<in> set ?ss" "rest_of s = x # xs" for s x xs
  proof -
    obtain j where "j < ?n" "s = ?ss ! j" using x(1) by (auto simp: in_set_conv_nth)
    then have "item_of j (vs_source_id s) x \<in> set (mi_heap it)" unfolding hs in_head_items using x(2) by blast
    then have "item_le m (item_of j (vs_source_id s) x)" using m(2) by blast
    then show ?thesis using item_le_vk i(3) by fastforce
  qed
  ultimately show ?thesis using i r by (intro disjI2 exI [of _ i] exI [of _ e] exI [of _ it']) (auto simp: it'_def)
qed

section \<open>Merging\<close>

definition sources_sorted :: "merge_iterator \<Rightarrow> bool" where
  "sources_sorted it \<longleftrightarrow> (\<forall>s \<in> set (mi_sources it). sorted (map vk (rest_of s)))"

lemma mset_concat_update:
  "i < length xs \<Longrightarrow> mset (concat (map f (xs[i := y]))) + mset (f (xs ! i)) = mset (concat (map f xs)) + mset (f y)"
proof (induction xs arbitrary: i)
  case (Cons x xs)
  then show ?case by (cases i) (auto simp: ac_simps)
qed simp

lemma mi_next_entry_sorted:
  assumes "mi_inv it" and "sources_sorted it"
  shows "all_rest it = [] \<and> mi_next_entry it = Some (None, it) \<or>
    (\<exists>e it'. mi_next_entry it = Some (Some e, it') \<and> mi_inv it' \<and> sources_sorted it'
       \<and> mset (all_rest it) = add_mset e (mset (all_rest it')) \<and> (\<forall>x \<in> set (all_rest it). vk e \<le> vk x))"
proof -
  consider "all_rest it = [] \<and> mi_next_entry it = Some (None, it)"
    | i e it' where "i < length (mi_sources it)" "rest_of (mi_sources it ! i) = e # rest_of (vs_advance (mi_sources it ! i))"
       "mi_next_entry it = Some (Some e, it')" "mi_sources it' = (mi_sources it)[i := vs_advance (mi_sources it ! i)]"
       "mi_inv it'" "\<forall>s \<in> set (mi_sources it). \<forall>x xs. rest_of s = x # xs \<longrightarrow> vk e \<le> vk x"
    using mi_next_entry_cases [OF assms(1)] by blast
  then show ?thesis
  proof cases
    case 1
    then show ?thesis by blast
  next
    case (2 i e it')
    let ?s = "mi_sources it ! i"
    have si: "?s \<in> set (mi_sources it)" using 2(1) by simp
    have "sorted (map vk (rest_of ?s))" using assms(2) si by (simp add: sources_sorted_def)
    then have "sorted (map vk (rest_of (vs_advance ?s)))" unfolding 2(2) by simp
    then have "sources_sorted it'" using assms(2) 2(4) by (auto simp: sources_sorted_def dest!: set_update_subset_insert [THEN subsetD])
    moreover have "mset (all_rest it) = add_mset e (mset (all_rest it'))"
      using mset_concat_update [OF 2(1), of rest_of "vs_advance ?s"] unfolding all_rest_def 2(4) 2(2) by simp
    moreover have "\<forall>x \<in> set (all_rest it). vk e \<le> vk x"
    proof
      fix x assume "x \<in> set (all_rest it)"
      then obtain s where s: "s \<in> set (mi_sources it)" "x \<in> set (rest_of s)" by (auto simp: all_rest_def)
      obtain y ys where y: "rest_of s = y # ys" using s(2) by (cases "rest_of s") auto
      have "vk e \<le> vk y" using 2(6) s(1) y by blast
      also have "vk y \<le> vk x" using assms(2) s y by (auto simp: sources_sorted_def)
      finally show "vk e \<le> vk x" .
    qed
    ultimately show ?thesis using 2 by blast
  qed
qed

lemma drain_entries_spec:
  assumes "mi_inv it" and "sources_sorted it" and "length (all_rest it) \<le> fuel"
  shows "\<exists>L. drain_entries fuel it = Some L \<and> sorted (map vk L) \<and> mset L = mset (all_rest it)"
  using assms
proof (induction fuel arbitrary: it)
  case 0
  then have "mi_next_entry it = Some (None, it)" using mi_next_entry_sorted [of it] by auto
  then show ?case using 0 by (simp add: drain_entries.simps)
next
  case (Suc n)
  from mi_next_entry_sorted [OF Suc.prems(1,2)] show ?case
  proof
    assume "all_rest it = [] \<and> mi_next_entry it = Some (None, it)"
    then show ?thesis by (simp add: drain_entries.simps)
  next
    assume "\<exists>e it'. mi_next_entry it = Some (Some e, it') \<and> mi_inv it' \<and> sources_sorted it'
       \<and> mset (all_rest it) = add_mset e (mset (all_rest it')) \<and> (\<forall>x \<in> set (all_rest it). vk e \<le> vk x)"
    then obtain e it' where e: "mi_next_entry it = Some (Some e, it')" "mi_inv it'" "sources_sorted it'"
       "mset (all_rest it) = add_mset e (mset (all_rest it'))" "\<forall>x \<in> set (all_rest it). vk e \<le> vk x" by blast
    have "length (all_rest it') \<le> n" using arg_cong [OF e(4), of size] Suc.prems(3) by simp
    from Suc.IH [OF e(2,3) this] obtain L where L: "drain_entries n it' = Some L" "sorted (map vk L)" "mset L = mset (all_rest it')" by blast
    have "set L \<subseteq> set (all_rest it)" using arg_cong [OF e(4), of set_mset] mset_eq_setD [OF L(3)] by auto
    then have "sorted (map vk (e # L))" using L(2) e(5) by auto
    then show ?thesis using L e by (simp add: drain_entries.simps [of "Suc n"])
  qed
qed

lemma skip_key_spec:
  assumes "mi_inv it" and "sources_sorted it" and "length (all_rest it) \<le> fuel"
    and "\<forall>x \<in> set (all_rest it). k \<le> mg_composite_key x"
  shows "\<exists>it'. skip_key fuel k it = Some it' \<and> mi_inv it' \<and> sources_sorted it'
    \<and> mset (all_rest it') = filter_mset (\<lambda>x. mg_composite_key x \<noteq> k) (mset (all_rest it))"
  using assms
proof (induction fuel arbitrary: it)
  case 0
  then have "mi_next_entry it = Some (None, it)" using mi_next_entry_sorted [of it] by auto
  then have "heap_peek (mi_heap it) = None"
    by (auto simp: mi_next_entry_def heap_pop_def Let_def split: option.splits)
  then show ?case using 0 by (simp add: skip_key.simps)
next
  case (Suc n)
  from mi_next_entry_sorted [OF Suc.prems(1,2)] show ?case
  proof
    assume a: "all_rest it = [] \<and> mi_next_entry it = Some (None, it)"
    then have "heap_peek (mi_heap it) = None"
      by (auto simp: mi_next_entry_def heap_pop_def Let_def split: option.splits)
    then show ?thesis using a Suc.prems by (simp add: skip_key.simps)
  next
    assume "\<exists>e it'. mi_next_entry it = Some (Some e, it') \<and> mi_inv it' \<and> sources_sorted it'
       \<and> mset (all_rest it) = add_mset e (mset (all_rest it')) \<and> (\<forall>x \<in> set (all_rest it). vk e \<le> vk x)"
    then obtain e it' where e: "mi_next_entry it = Some (Some e, it')" "mi_inv it'" "sources_sorted it'"
       "mset (all_rest it) = add_mset e (mset (all_rest it'))" "\<forall>x \<in> set (all_rest it). vk e \<le> vk x" by blast
    obtain tp where tp: "heap_peek (mi_heap it) = Some tp"
      using e(1) by (auto simp: mi_next_entry_def heap_pop_def split: option.splits)
    have top_key: "hi_key tp = mg_composite_key e"
    proof -
      have "tp \<in> set (mi_heap it)" using heap_peek_spec(2) [OF tp] by blast
      then have "tp \<in> set (head_items (mi_sources it) [0..<length (mi_sources it)])" using Suc.prems(1) by (metis mi_inv_def set_mset_mset)
      then obtain i x xs where x: "i < length (mi_sources it)" "rest_of (mi_sources it ! i) = x # xs"
          "tp = item_of i (vs_source_id (mi_sources it ! i)) x" unfolding in_head_items by blast
      then have "mi_next_entry it = Some (Some x, snd (the (mi_next_entry it)))"
        using e(1) tp by (auto simp: mi_next_entry_def heap_pop_def item_of_def vs_peek_rest Let_def)
      then show ?thesis using e(1) x(3) by (simp add: item_of_def)
    qed
    have st: "set (all_rest it) = insert e (set (all_rest it'))" using arg_cong [OF e(4), of set_mset] by simp
    show ?thesis
    proof (cases "mg_composite_key e = k")
      case True
      have "length (all_rest it') \<le> n" using arg_cong [OF e(4), of size] Suc.prems(3) by simp
      with Suc.IH [OF e(2,3)] Suc.prems(4) st True e(4) show ?thesis
        by (auto simp: skip_key.simps [of "Suc n"] tp top_key e(1))
    next
      case False
      have "\<forall>x \<in> set (all_rest it). mg_composite_key x \<noteq> k"
      proof
        fix x assume x: "x \<in> set (all_rest it)"
        have "k \<le> mg_composite_key e" using Suc.prems(4) st by blast
        moreover have "mg_composite_key e \<le> mg_composite_key x" using e(5) x by (auto simp: vk_def)
        ultimately show "mg_composite_key x \<noteq> k" using False by auto
      qed
      then have "filter_mset (\<lambda>x. mg_composite_key x \<noteq> k) (mset (all_rest it)) = mset (all_rest it)"
        by (simp add: filter_mset_eq_conv flip: mset_filter)
      then show ?thesis using False Suc.prems(1,2) by (auto simp: skip_key.simps tp top_key)
    qed
  qed
qed

lemma next_deduped_spec:
  assumes "mi_inv it" and "sources_sorted it"
  shows "all_rest it = [] \<and> next_deduped it = Some (None, it) \<or>
    (\<exists>e it'. next_deduped it = Some (Some e, it') \<and> mi_inv it' \<and> sources_sorted it' \<and> e \<in> set (all_rest it)
       \<and> mset (all_rest it') = filter_mset (\<lambda>x. mg_composite_key x \<noteq> mg_composite_key e) (mset (all_rest it))
       \<and> (\<forall>x \<in> set (all_rest it). vk e \<le> vk x))"
  using mi_next_entry_sorted [OF assms]
proof
  assume "all_rest it = [] \<and> mi_next_entry it = Some (None, it)"
  then show ?thesis by (simp add: next_deduped_def)
next
  assume "\<exists>e it'. mi_next_entry it = Some (Some e, it') \<and> mi_inv it' \<and> sources_sorted it'
     \<and> mset (all_rest it) = add_mset e (mset (all_rest it')) \<and> (\<forall>x \<in> set (all_rest it). vk e \<le> vk x)"
  then obtain e it1 where e: "mi_next_entry it = Some (Some e, it1)" "mi_inv it1" "sources_sorted it1"
     "mset (all_rest it) = add_mset e (mset (all_rest it1))" "\<forall>x \<in> set (all_rest it). vk e \<le> vk x" by blast
  have st: "set (all_rest it) = insert e (set (all_rest it1))" using arg_cong [OF e(4), of set_mset] by simp
  have "\<forall>x \<in> set (all_rest it1). mg_composite_key e \<le> mg_composite_key x" using e(5) st by (auto simp: vk_def)
  from skip_key_spec [OF e(2,3) _ this, of "mi_left it1"] obtain it'
    where "skip_key (mi_left it1) (mg_composite_key e) it1 = Some it'" "mi_inv it'" "sources_sorted it'"
      "mset (all_rest it') = filter_mset (\<lambda>x. mg_composite_key x \<noteq> mg_composite_key e) (mset (all_rest it1))"
    by (auto simp: mi_left_rest)
  then show ?thesis using e st by (auto simp: next_deduped_def)
qed

text \<open>The newest version of every key, in key order.\<close>

definition newest_versions :: "merge_entry multiset \<Rightarrow> merge_entry list \<Rightarrow> bool" where
  "newest_versions M L \<longleftrightarrow> sorted_wrt (\<lambda>a b. mg_composite_key a < mg_composite_key b) L
     \<and> (\<forall>e \<in> set L. e \<in># M \<and> (\<forall>x. x \<in># M \<and> mg_composite_key x = mg_composite_key e \<longrightarrow> mg_sequence_number x \<le> mg_sequence_number e))
     \<and> mg_composite_key ` set L = mg_composite_key ` set_mset M"

lemma newest_versions_Cons:
  assumes "e \<in># M" and "\<forall>x \<in># M. vk e \<le> vk x"
    and "newest_versions (filter_mset (\<lambda>x. mg_composite_key x \<noteq> mg_composite_key e) M) L"
  shows "newest_versions M (e # L)"
proof -
  have le: "mg_composite_key e \<le> mg_composite_key x" if "x \<in># M" for x using assms(2) that by (auto simp: vk_def)
  have seqs: "mg_sequence_number x \<le> mg_sequence_number e" if "x \<in># M" "mg_composite_key x = mg_composite_key e" for x
    using assms(2) that by (auto simp: vk_def not_le_iff)
  have keys: "mg_composite_key ` set L = mg_composite_key ` {x \<in> set_mset M. mg_composite_key x \<noteq> mg_composite_key e}"
    using assms(3) by (simp add: newest_versions_def)
  have L: "y \<in># M" "mg_composite_key y \<noteq> mg_composite_key e" if "y \<in> set L" for y
    using assms(3) that by (auto simp: newest_versions_def)
  have "mg_composite_key e < mg_composite_key y" if "y \<in> set L" for y
    using le [OF L(1) [OF that]] L(2) [OF that] by (metis order.not_eq_order_implies_strict)
  then have "sorted_wrt (\<lambda>a b. mg_composite_key a < mg_composite_key b) (e # L)"
    using assms(3) by (simp add: newest_versions_def)
  moreover have "mg_composite_key ` set (e # L) = mg_composite_key ` set_mset M" using keys assms(1) by auto
  ultimately show ?thesis using assms(1,3) seqs L by (auto simp: newest_versions_def)
qed

lemma drain_deduped_spec:
  assumes "mi_inv it" and "sources_sorted it" and "length (all_rest it) \<le> fuel"
  shows "\<exists>L. drain_deduped fuel it = Some L \<and> newest_versions (mset (all_rest it)) L"
  using assms
proof (induction fuel arbitrary: it)
  case 0
  then have "next_deduped it = Some (None, it)" using next_deduped_spec [of it] by auto
  then show ?case using 0 by (simp add: drain_deduped.simps newest_versions_def)
next
  case (Suc n)
  from next_deduped_spec [OF Suc.prems(1,2)] show ?case
  proof
    assume "all_rest it = [] \<and> next_deduped it = Some (None, it)"
    then show ?thesis by (simp add: drain_deduped.simps newest_versions_def)
  next
    assume "\<exists>e it'. next_deduped it = Some (Some e, it') \<and> mi_inv it' \<and> sources_sorted it' \<and> e \<in> set (all_rest it)
       \<and> mset (all_rest it') = filter_mset (\<lambda>x. mg_composite_key x \<noteq> mg_composite_key e) (mset (all_rest it))
       \<and> (\<forall>x \<in> set (all_rest it). vk e \<le> vk x)"
    then obtain e it' where e: "next_deduped it = Some (Some e, it')" "mi_inv it'" "sources_sorted it'" "e \<in> set (all_rest it)"
       "mset (all_rest it') = filter_mset (\<lambda>x. mg_composite_key x \<noteq> mg_composite_key e) (mset (all_rest it))"
       "\<forall>x \<in> set (all_rest it). vk e \<le> vk x" by blast
    have "size (mset (all_rest it')) < size (mset (all_rest it))"
      unfolding e(5) using e(4) by (intro mset_subset_size) (auto simp: subset_mset.less_le multiset_filter_subset filter_mset_eq_conv)
    then have "length (all_rest it') \<le> n" using Suc.prems(3) by simp
    from Suc.IH [OF e(2,3) this] obtain L where "drain_deduped n it' = Some L" "newest_versions (mset (all_rest it')) L" by blast
    then show ?thesis using e newest_versions_Cons [of e "mset (all_rest it)" L] by (simp add: drain_deduped.simps [of "Suc n"])
  qed
qed

lemma mi_new_rest [simp]: "all_rest (mi_new ss) = concat (map rest_of ss)"
  by (simp add: all_rest_def mi_new_def)

text \<open>C23: merging. From sources that are each sorted by key and descending sequence number, \<open>next_entry\<close> returns every
  entry of every source exactly once, in that order, and \<open>next_deduped\<close> returns exactly one entry per key, the
  one with the highest sequence number over all sources, in ascending key order; neither panics, and both end
  after as many calls as there are entries.\<close>

theorem merge_iterator_correct:
  assumes "\<forall>es \<in> set ess. sorted (map vk es)"
  shows "\<exists>L D. drain_entries (length (concat ess)) (mi_new (map2 vs_new ess [0..<length ess])) = Some L
     \<and> sorted (map vk L) \<and> mset L = mset (concat ess)
     \<and> drain_deduped (length (concat ess)) (mi_new (map2 vs_new ess [0..<length ess])) = Some D
     \<and> newest_versions (mset (concat ess)) D"
proof -
  let ?it = "mi_new (map2 vs_new ess [0..<length ess])"
  have "map (\<lambda>(x, y). rest_of (vs_new x y)) (zip ess [0..<length ess]) = ess"
    by (rule nth_equalityI) auto
  then have r: "all_rest ?it = concat ess" by (simp add: case_prod_unfold o_def)
  have "\<forall>s \<in> set (map2 vs_new ess [0..<length ess]). sorted (map vk (rest_of s))"
    using assms by (auto dest: set_zip_leftD)
  then have "sources_sorted ?it" by (simp add: sources_sorted_def mi_new_def)
  from drain_entries_spec [OF mi_new_inv this] drain_deduped_spec [OF mi_new_inv this] show ?thesis
    unfolding r by fastforce
qed

theorem merge_iterator_correct_witness:
  "\<exists>D. drain_deduped 2 (mi_new [vs_new [mg_from_memtable_entry (sample_entry [5] [6] 1)] 0, vs_new [mg_from_memtable_entry (sample_entry [5] [7] 2)] 1])
     = Some D \<and> newest_versions {#mg_from_memtable_entry (sample_entry [5] [6] 1), mg_from_memtable_entry (sample_entry [5] [7] 2)#} D"
  using merge_iterator_correct [of "[[mg_from_memtable_entry (sample_entry [5] [6] 1)], [mg_from_memtable_entry (sample_entry [5] [7] 2)]]"]
  by (auto simp: numeral_2_eq_2)

end
