(* ===== verification/Decimal.thy ===== *)
theory Decimal
  imports Prelude "HOL-Library.Char_ord"
begin

text \<open>
  Decimal numbers in names: Rust's \<^verbatim>\<open>format!("{:0>width$}")\<close> of an unsigned integer and
  \<^verbatim>\<open>str::parse::<u64>()\<close>. Segment files and manifests are named by zero-padded numbers, so the
  shared facts are that parsing undoes printing and that padded names sort as their numbers.
\<close>

definition digit_char :: "nat \<Rightarrow> char" where
  "digit_char d = char_of (48 + d)"

fun dec :: "nat \<Rightarrow> string" where
  "dec n = (if n < 10 then [digit_char n] else dec (n div 10) @ [digit_char (n mod 10)])"

declare dec.simps [simp del]

definition pad0 :: "nat \<Rightarrow> nat \<Rightarrow> string" where
  "pad0 width n = replicate (width - length (dec n)) (CHR ''0'') @ dec n"

definition digit_val :: "char \<Rightarrow> nat option" where
  "digit_val c = (let v = of_char c :: nat in if 48 \<le> v \<and> v \<le> 57 then Some (v - 48) else None)"

fun parse_digits :: "nat \<Rightarrow> string \<Rightarrow> nat option" where
  "parse_digits acc [] = Some acc"
| "parse_digits acc (c # cs) =
     (case digit_val c of None \<Rightarrow> None | Some d \<Rightarrow> parse_digits (10 * acc + d) cs)"

text \<open>An empty string and a lone sign are errors, a leading plus is skipped, overflow is an error.\<close>

definition parse_u64 :: "string \<Rightarrow> nat option" where
  "parse_u64 s =
     (let t = (case s of c # c' # cs \<Rightarrow> if c = CHR ''+'' then c' # cs else s | _ \<Rightarrow> s)
      in if t = [] then None
         else case parse_digits 0 t of
                None \<Rightarrow> None
              | Some n \<Rightarrow> if n < 2 ^ 64 then Some n else None)"

lemma digit_val_char [simp]: "d < 10 \<Longrightarrow> digit_val (digit_char d) = Some d"
  by (simp add: digit_val_def digit_char_def)

lemma digit_val_zero [simp]: "digit_val (CHR ''0'') = Some 0"
  by (simp add: digit_val_def)

lemma digit_val_plus [simp]: "digit_val (CHR ''+'') = None"
  by (simp add: digit_val_def)

lemma parse_digits_append:
  "parse_digits acc (xs @ ys) =
     (case parse_digits acc xs of None \<Rightarrow> None | Some a \<Rightarrow> parse_digits a ys)"
  by (induction acc xs rule: parse_digits.induct) (auto split: option.splits)

lemma parse_digits_zeros [simp]: "parse_digits 0 (replicate k (CHR ''0'') @ s) = parse_digits 0 s"
  by (induction k) simp_all

lemma parse_digits_dec [simp]: "parse_digits 0 (dec n) = Some n"
proof (induction n rule: dec.induct)
  case (1 n)
  show ?case
  proof (cases "n < 10")
    case True
    then show ?thesis by (simp add: dec.simps)
  next
    case False
    with 1 have "parse_digits 0 (dec (n div 10)) = Some (n div 10)" by simp
    with False show ?thesis by (subst dec.simps) (simp add: parse_digits_append)
  qed
qed

lemma dec_nonempty [simp]: "dec n \<noteq> []"
  by (subst dec.simps) simp

lemma length_dec: "n < 10 ^ w \<Longrightarrow> 0 < w \<Longrightarrow> length (dec n) \<le> w"
proof (induction n arbitrary: w rule: dec.induct)
  case (1 n)
  show ?case
  proof (cases "n < 10")
    case True
    with 1 show ?thesis by (simp add: dec.simps)
  next
    case False
    with 1 obtain v where v: "w = Suc v" "0 < v"
      by (cases w) (auto, metis gr0I power_0 mult.right_neutral not_less)
    have "n div 10 < 10 ^ v" using 1(2) v by (simp add: less_mult_imp_div_less mult.commute)
    with "1.IH" False v have "length (dec (n div 10)) \<le> v" by simp
    with False v show ?thesis by (subst dec.simps) simp
  qed
qed

lemma length_pad0: "n < 10 ^ w \<Longrightarrow> 0 < w \<Longrightarrow> length (pad0 w n) = w"
  using length_dec by (simp add: pad0_def)

lemma parse_digits_pad0 [simp]: "parse_digits 0 (pad0 w n) = Some n"
  by (simp add: pad0_def)

lemma parse_digits_no_plus: "parse_digits 0 s = Some n \<Longrightarrow> s \<noteq> CHR ''+'' # cs"
  by auto

lemma parse_u64_pad0:
  assumes "n < 2 ^ 64"
  shows "parse_u64 (pad0 w n) = Some n"
proof -
  have "pad0 w n \<noteq> []" by (simp add: pad0_def)
  moreover have "\<And>c' cs. pad0 w n \<noteq> CHR ''+'' # c' # cs"
    using parse_digits_no_plus parse_digits_pad0 by blast
  moreover from this have "(case pad0 w n of c # c' # cs \<Rightarrow> if c = CHR ''+'' then c' # cs else pad0 w n
      | _ \<Rightarrow> pad0 w n) = pad0 w n"
    by (simp split: list.split)
  ultimately show ?thesis
    using assms unfolding parse_u64_def by simp
qed

lemma pad0_inject: "pad0 w m = pad0 w n \<Longrightarrow> m = n"
  by (metis parse_digits_pad0 option.inject)

section \<open>Padded numbers sort as numbers\<close>

lemma char_less_nat: "c < d \<longleftrightarrow> (of_char c :: nat) < of_char (d :: char)"
  by (simp add: less_char_def)

lemma digit_val_mono:
  "digit_val c = Some i \<Longrightarrow> digit_val d = Some j \<Longrightarrow> (c < d \<longleftrightarrow> i < j) \<and> (c = d \<longleftrightarrow> i = j)"
proof -
  assume "digit_val c = Some i" "digit_val d = Some j"
  then have "of_char c = i + 48" "of_char d = j + 48"
    by (auto simp: digit_val_def Let_def split: if_splits)
  moreover have "c = d \<longleftrightarrow> (of_char c :: nat) = of_char d" by simp
  ultimately show ?thesis by (simp add: less_char_def)
qed

lemma digit_val_less: "digit_val c = Some i \<Longrightarrow> i < 10"
  by (auto simp: digit_val_def Let_def split: if_splits)

lemma parse_digits_bounds:
  "parse_digits acc s = Some n \<Longrightarrow> acc * 10 ^ length s \<le> n \<and> n < (acc + 1) * 10 ^ length s"
proof (induction acc s rule: parse_digits.induct)
  case (2 acc c cs)
  then obtain d where d: "digit_val c = Some d" "d < 10" "parse_digits (10 * acc + d) cs = Some n"
    by (auto split: option.splits simp: digit_val_less)
  with 2 have "(10 * acc + d) * 10 ^ length cs \<le> n" "n < (10 * acc + d + 1) * 10 ^ length cs" by auto
  moreover have "acc * 10 ^ length (c # cs) \<le> (10 * acc + d) * 10 ^ length cs" by simp
  moreover have "(10 * acc + d + 1) * 10 ^ length cs \<le> (acc + 1) * 10 ^ length (c # cs)"
  proof -
    have "(10 * acc + d + 1) * 10 ^ length cs \<le> (10 * acc + 10) * 10 ^ length cs"
      using d(2) by (intro mult_le_mono1) simp
    then show ?thesis by (simp add: algebra_simps)
  qed
  ultimately show ?case by linarith
qed simp

lemma parse_digits_less:
  assumes "length s = length t" and "parse_digits acc s = Some m" and "parse_digits acc t = Some n"
  shows "s < t \<longleftrightarrow> m < n"
  using assms
proof (induction s t arbitrary: acc rule: list_induct2)
  case Nil
  then show ?case by simp
next
  case (Cons c s d t)
  then obtain i j where ij: "digit_val c = Some i" "digit_val d = Some j"
    "parse_digits (10 * acc + i) s = Some m" "parse_digits (10 * acc + j) t = Some n"
    by (auto split: option.splits)
  have step: "p < q \<Longrightarrow> parse_digits p s = Some m \<Longrightarrow> parse_digits q t = Some n \<Longrightarrow> m < n" for p q
  proof -
    assume "p < q" "parse_digits p s = Some m" "parse_digits q t = Some n"
    then have "m < (p + 1) * 10 ^ length t" "q * 10 ^ length t \<le> n"
      using parse_digits_bounds Cons.hyps by metis+
    moreover have "(p + 1) * 10 ^ length t \<le> q * 10 ^ length t" using \<open>p < q\<close> by (intro mult_le_mono1) simp
    ultimately show "m < n" by linarith
  qed
  have step': "q < p \<Longrightarrow> parse_digits p s = Some m \<Longrightarrow> parse_digits q t = Some n \<Longrightarrow> n < m" for p q
  proof -
    assume "q < p" "parse_digits p s = Some m" "parse_digits q t = Some n"
    then have "n < (q + 1) * 10 ^ length t" "p * 10 ^ length t \<le> m"
      using parse_digits_bounds Cons.hyps by metis+
    moreover have "(q + 1) * 10 ^ length t \<le> p * 10 ^ length t" using \<open>q < p\<close> by (intro mult_le_mono1) simp
    ultimately show "n < m" by linarith
  qed
  from digit_val_mono [OF ij(1,2)]
  consider "i < j" "c < d" | "i = j" "c = d" | "j < i" "\<not> c < d" "c \<noteq> d" by fastforce
  then show ?case
  proof cases
    case 1
    with step [of "10 * acc + i" "10 * acc + j"] ij show ?thesis by simp
  next
    case 2
    with Cons.IH [of "10 * acc + i"] ij show ?thesis by simp
  next
    case 3
    with step' [of "10 * acc + j" "10 * acc + i"] ij have "n < m" by simp
    with 3 show ?thesis by simp
  qed
qed

lemma pad0_less:
  assumes "m < 10 ^ w" and "n < 10 ^ w" and "0 < w"
  shows "pad0 w m < pad0 w n \<longleftrightarrow> m < n"
  by (rule parse_digits_less [where acc = 0]) (use assms in \<open>simp_all add: length_pad0\<close>)

end
