(* ===== verification/Manifest.thy ===== *)
theory Manifest
  imports Sst_File Decimal
begin

text \<open>
  \<^verbatim>\<open>manifest/types.rs\<close>: the manifest of a namespace lists the SSTables of every level; an update removes and
  adds SSTables and yields the next manifest. A \<^verbatim>\<open>BTreeMap\<close> over the four levels is a partial map. The clock
  is an argument. The JSON form (\<^verbatim>\<open>serde_json\<close>) is a parameter, \<open>manifest_json\<close>.
\<close>

section \<open>Identifiers and levels\<close>

type_synonym manifest_id = u64

definition mid_next :: "manifest_id \<Rightarrow> manifest_id" where
  "mid_next i = i + 1"

definition mid_to_path_string :: "manifest_id \<Rightarrow> string" where
  "mid_to_path_string i = pad0 20 (unat i)"

definition mid_from_path_string :: "string \<Rightarrow> manifest_id flush_result" where
  "mid_from_path_string s =
     (if length s \<noteq> 20 then Inl (InvalidArgument ''manifest ID must be 20 digits'')
      else case parse_u64 s of
             None \<Rightarrow> Inl (InvalidArgument ''invalid manifest ID'')
           | Some n \<Rightarrow> Inr (of_nat n))"

datatype level = L0 | L1 | L2 | L3

fun level_as_str :: "level \<Rightarrow> string" where
  "level_as_str L0 = ''L0''"
| "level_as_str L1 = ''L1''"
| "level_as_str L2 = ''L2''"
| "level_as_str L3 = ''L3''"

definition level_parse :: "string \<Rightarrow> level flush_result" where
  "level_parse s =
     (if s = ''L0'' then Inr L0 else if s = ''L1'' then Inr L1 else if s = ''L2'' then Inr L2
      else if s = ''L3'' then Inr L3 else Inl (InvalidArgument ''invalid level''))"

fun level_as_u8 :: "level \<Rightarrow> u8" where
  "level_as_u8 L0 = 0"
| "level_as_u8 L1 = 1"
| "level_as_u8 L2 = 2"
| "level_as_u8 L3 = 3"

fun level_next :: "level \<Rightarrow> level option" where
  "level_next L0 = Some L1"
| "level_next L1 = Some L2"
| "level_next L2 = Some L3"
| "level_next L3 = None"

definition level_is_bottom :: "level \<Rightarrow> bool" where
  "level_is_bottom l \<longleftrightarrow> l = L3"

fun level_max_size_bytes :: "level \<Rightarrow> u64" where
  "level_max_size_bytes L0 = 0"
| "level_max_size_bytes L1 = 256 * 1024 * 1024"
| "level_max_size_bytes L2 = 2560 * 1024 * 1024"
| "level_max_size_bytes L3 = 25600 * 1024 * 1024"

definition level_is_overlapping :: "level \<Rightarrow> bool" where
  "level_is_overlapping l \<longleftrightarrow> l = L0"

definition level_all :: "level list" where
  "level_all = [L0, L1, L2, L3]"

section \<open>SSTable descriptions\<close>

record sst_meta =
  sm_id :: string
  sm_size_bytes :: u64
  sm_entry_count :: u64
  sm_min_key :: bytes
  sm_max_key :: bytes
  sm_bloom_filter_offset :: u64
  sm_bloom_filter_size :: u32
  sm_index_offset :: u64
  sm_index_size :: u32
  sm_created_at_ms :: u64
  sm_sequence_range :: "u64 \<times> u64"
  sm_record_id_count :: u64
  sm_run_id :: "string option"
  sm_fragment_index :: "u32 option"
  sm_dedup_block_size :: u32

text \<open>\<^verbatim>\<open>trim_end_matches\<close> strips the suffix as often as it occurs.\<close>

function trim_end_matches :: "'a list \<Rightarrow> 'a list \<Rightarrow> 'a list" where
  "trim_end_matches suf s =
     (if suf \<noteq> [] \<and> starts_with (rev suf) (rev s)
      then trim_end_matches suf (take (length s - length suf) s) else s)"
  by pat_completeness auto
termination
proof (relation "measure (\<lambda>(suf, s). length s)")
  fix suf s :: "'a list" assume a: "suf \<noteq> [] \<and> starts_with (rev suf) (rev s)"
  then have "s \<noteq> []" by (cases s) (auto simp: starts_with_def)
  with a show "((suf, take (length s - length suf) s), suf, s) \<in> measure (\<lambda>(suf, s). length s)" by simp
qed simp

declare trim_end_matches.simps [simp del]

definition path_parent :: "string \<Rightarrow> string option" where
  "path_parent p =
     (case dropWhile (\<lambda>c. c \<noteq> CHR ''/'') (rev p) of
        [] \<Rightarrow> None
      | _ # q \<Rightarrow> Some (rev q))"

definition sst_id_of_path :: "string \<Rightarrow> string" where
  "sst_id_of_path path =
     (let filename = trim_end_matches ''.sst'' (path_file_name path)
      in case map_option path_file_name (path_parent path) of
           Some dir \<Rightarrow> if starts_with ''run-'' dir then dir @ ''/'' @ filename else filename
         | None \<Rightarrow> filename)"

definition from_sst_info :: "sst_info \<Rightarrow> u64 \<times> u64 \<Rightarrow> u64 \<Rightarrow> u64 \<Rightarrow> sst_meta" where
  "from_sst_info info sequence_range record_id_count created_at_ms =
     \<lparr>sm_id = sst_id_of_path (si_path info), sm_size_bytes = si_file_size info, sm_entry_count = si_entry_count info,
      sm_min_key = as_bytes (si_min_key info), sm_max_key = as_bytes (si_max_key info),
      sm_bloom_filter_offset = si_bloom_filter_offset info, sm_bloom_filter_size = si_bloom_filter_size info,
      sm_index_offset = si_index_block_offset info, sm_index_size = si_index_block_size info,
      sm_created_at_ms = created_at_ms, sm_sequence_range = sequence_range, sm_record_id_count = record_id_count,
      sm_run_id = None, sm_fragment_index = None, sm_dedup_block_size = si_dedup_block_size info\<rparr>"

definition sm_contains_key :: "sst_meta \<Rightarrow> composite_key \<Rightarrow> bool" where
  "sm_contains_key m key = (as_bytes key \<ge> sm_min_key m \<and> as_bytes key \<le> sm_max_key m)"

definition sm_overlaps_range :: "sst_meta \<Rightarrow> bytes \<Rightarrow> bytes \<Rightarrow> bool" where
  "sm_overlaps_range m start stop = (\<not> (sm_max_key m < start \<or> sm_min_key m > stop))"

definition sm_overlaps :: "sst_meta \<Rightarrow> sst_meta \<Rightarrow> bool" where
  "sm_overlaps m other = sm_overlaps_range m (sm_min_key other) (sm_max_key other)"

definition sst_path :: "string \<Rightarrow> level \<Rightarrow> sst_meta \<Rightarrow> string" where
  "sst_path namespace l m =
     (case (sm_run_id m, sm_fragment_index m) of
        (Some run_id, Some frag_idx) \<Rightarrow>
          ''flushdb/'' @ namespace @ ''/sstables/'' @ level_as_str l @ ''/run-'' @ run_id @ ''/frag-''
            @ pad0 4 (unat frag_idx) @ ''.sst''
      | _ \<Rightarrow> ''flushdb/'' @ namespace @ ''/sstables/'' @ level_as_str l @ ''/'' @ sm_id m @ ''.sst'')"

record blob_file_meta =
  bf_id :: string
  bf_size_bytes :: u64
  bf_live_bytes :: u64
  bf_entry_count :: u64
  bf_referenced_by_ssts :: "string list"

section \<open>Manifests\<close>

type_synonym levels = "level \<rightharpoonup> sst_meta list"

record manifest =
  mf_format_version :: u32
  mf_manifest_id :: manifest_id
  mf_writer_epoch :: u64
  mf_compactor_epoch :: u64
  mf_namespace :: string
  mf_created_at_ms :: u64
  mf_last_flushed_sequence :: u64
  mf_levels :: levels
  mf_blob_files :: "blob_file_meta list"
  mf_tombstone_compaction_watermarks :: "level \<rightharpoonup> u64"
  mf_previous_manifest_id :: manifest_id
  mf_is_snapshot :: bool

definition mf_new_empty :: "u64 \<Rightarrow> string \<Rightarrow> manifest" where
  "mf_new_empty now namespace =
     \<lparr>mf_format_version = 1, mf_manifest_id = 0, mf_writer_epoch = 0, mf_compactor_epoch = 0, mf_namespace = namespace,
      mf_created_at_ms = now, mf_last_flushed_sequence = 0, mf_levels = (\<lambda>l. Some []), mf_blob_files = [],
      mf_tombstone_compaction_watermarks = (\<lambda>l. None), mf_previous_manifest_id = 0, mf_is_snapshot = False\<rparr>"

definition sstables_at_level :: "level \<Rightarrow> manifest \<Rightarrow> sst_meta list" where
  "sstables_at_level l m = (case mf_levels m l of Some v \<Rightarrow> v | None \<Rightarrow> [])"

definition l0_count :: "manifest \<Rightarrow> nat" where
  "l0_count m = length (sstables_at_level L0 m)"

definition level_size_bytes :: "level \<Rightarrow> manifest \<Rightarrow> u64" where
  "level_size_bytes l m = sum_list (map sm_size_bytes (sstables_at_level l m))"

definition total_sstable_count :: "manifest \<Rightarrow> nat" where
  "total_sstable_count m = sum_list (map length (map (\<lambda>l. sstables_at_level l m) level_all))"

definition all_sstable_ids :: "manifest \<Rightarrow> string list" where
  "all_sstable_ids m = concat (map (\<lambda>l. map sm_id (sstables_at_level l m)) level_all)"

definition find_overlapping :: "level \<Rightarrow> bytes \<Rightarrow> bytes \<Rightarrow> manifest \<Rightarrow> sst_meta list" where
  "find_overlapping l start stop m = filter (\<lambda>s. sm_overlaps_range s start stop) (sstables_at_level l m)"

definition find_sstable_for_key :: "level \<Rightarrow> composite_key \<Rightarrow> manifest \<Rightarrow> sst_meta option" where
  "find_sstable_for_key l key m =
     (let ssts = sstables_at_level l m
      in if ssts = [] then None
         else if level_is_overlapping l then find (\<lambda>s. sm_contains_key s key) ssts
         else let idx = partition_point (\<lambda>s. sm_max_key s < as_bytes key) ssts
              in if idx < length ssts \<and> sm_contains_key (ssts ! idx) key then Some (ssts ! idx) else None)"

record manifest_json =
  to_json :: "manifest \<Rightarrow> bytes option"
  from_json :: "bytes \<Rightarrow> manifest option"

definition mf_serialize :: "manifest_json \<Rightarrow> manifest \<Rightarrow> bytes flush_result" where
  "mf_serialize J m = (case to_json J m of Some d \<Rightarrow> Inr d | None \<Rightarrow> Inl (CorruptedData ''manifest serialization failed''))"

definition mf_deserialize :: "manifest_json \<Rightarrow> bytes \<Rightarrow> manifest flush_result" where
  "mf_deserialize J d = (case from_json J d of Some m \<Rightarrow> Inr m | None \<Rightarrow> Inl (CorruptedData ''manifest deserialization failed''))"

section \<open>Updates\<close>

datatype manifest_update_trigger = Flush | Compaction | GC

record manifest_update =
  mu_trigger :: manifest_update_trigger
  mu_add_sstables :: "(level \<times> sst_meta) list"
  mu_remove_sstables :: "(level \<times> string) list"
  mu_new_last_flushed_sequence :: "u64 option"
  mu_writer_epoch :: u64
  mu_compactor_epoch :: u64

definition level_entry :: "level \<Rightarrow> levels \<Rightarrow> sst_meta list" where
  "level_entry l ls = (case ls l of Some v \<Rightarrow> v | None \<Rightarrow> [])"

fun remove_sstables :: "(level \<times> string) list \<Rightarrow> levels \<Rightarrow> levels flush_result" where
  "remove_sstables [] ls = Inr ls"
| "remove_sstables ((l, i) # rs) ls =
     (let ssts = level_entry l ls
      in case position (\<lambda>m. sm_id m = i) ssts of
           Some idx \<Rightarrow> remove_sstables rs (ls(l \<mapsto> take idx ssts @ drop (idx + 1) ssts))
         | None \<Rightarrow> Inl (InvalidArgument ''cannot remove SSTable: not found''))"

fun add_sstables :: "(level \<times> sst_meta) list \<Rightarrow> levels \<Rightarrow> levels" where
  "add_sstables [] ls = ls"
| "add_sstables ((l, m) # as) ls =
     (let ssts = level_entry l ls @ [m]
      in add_sstables as (ls(l \<mapsto> (if level_is_overlapping l then ssts else sort_key sm_min_key ssts))))"

definition mu_apply :: "u64 \<Rightarrow> manifest_update \<Rightarrow> manifest \<Rightarrow> manifest flush_result" where
  "mu_apply now u current =
     (let m = current\<lparr>mf_previous_manifest_id := mf_manifest_id current, mf_manifest_id := mid_next (mf_manifest_id current),
                mf_created_at_ms := now\<rparr>
      in bind_res (remove_sstables (mu_remove_sstables u) (mf_levels m)) (\<lambda>ls.
         let m = m\<lparr>mf_levels := add_sstables (mu_add_sstables u) ls\<rparr>
         in bind_res (case mu_new_last_flushed_sequence u of
                        None \<Rightarrow> Inr m
                      | Some seq \<Rightarrow>
                          if seq < mf_last_flushed_sequence current
                          then Inl (InvalidArgument ''cannot decrease last_flushed_sequence'')
                          else Inr (m\<lparr>mf_last_flushed_sequence := seq\<rparr>)) (\<lambda>m.
            Inr (m\<lparr>mf_writer_epoch := mu_writer_epoch u, mf_compactor_epoch := mu_compactor_epoch u\<rparr>))))"

record manifest_config =
  snapshot_interval :: u64
  max_manifest_size :: nat
  pruning_batch_size :: nat
  base_path :: string

definition manifest_config_default :: manifest_config where
  "manifest_config_default = \<lparr>snapshot_interval = 100, max_manifest_size = 16 * 1024 * 1024, pruning_batch_size = 50,
     base_path = ''flushdb''\<rparr>"

section \<open>Paths\<close>

definition manifest_path :: "string \<Rightarrow> string \<Rightarrow> manifest_id \<Rightarrow> string" where
  "manifest_path base namespace i = base @ ''/'' @ namespace @ ''/manifests/'' @ mid_to_path_string i"

definition manifest_prefix :: "string \<Rightarrow> string \<Rightarrow> string" where
  "manifest_prefix base namespace = base @ ''/'' @ namespace @ ''/manifests/''"

definition l0_sst_path :: "string \<Rightarrow> string \<Rightarrow> string \<Rightarrow> string" where
  "l0_sst_path base namespace sst_id = base @ ''/'' @ namespace @ ''/sstables/L0/'' @ sst_id @ ''.sst''"

definition run_fragment_path :: "string \<Rightarrow> string \<Rightarrow> level \<Rightarrow> string \<Rightarrow> u32 \<Rightarrow> string" where
  "run_fragment_path base namespace l run_id fragment_index =
     base @ ''/'' @ namespace @ ''/sstables/'' @ level_as_str l @ ''/run-'' @ run_id @ ''/frag-''
       @ pad0 4 (unat fragment_index) @ ''.sst''"


section \<open>What an update does\<close>

definition ids_distinct :: "levels \<Rightarrow> bool" where
  "ids_distinct ls \<longleftrightarrow> (\<forall>l. distinct (map sm_id (level_entry l ls)))"

definition levels_sorted :: "levels \<Rightarrow> bool" where
  "levels_sorted ls \<longleftrightarrow> (\<forall>l. \<not> level_is_overlapping l \<longrightarrow> sorted (map sm_min_key (level_entry l ls)))"

lemma level_entry_update [simp]: "level_entry l (ls(k \<mapsto> v)) = (if l = k then v else level_entry l ls)"
  by (simp add: level_entry_def)

lemma sstables_level_entry: "sstables_at_level l m = level_entry l (mf_levels m)"
  by (simp add: sstables_at_level_def level_entry_def)

lemma position_None: "position p xs = None \<longleftrightarrow> (\<forall>x \<in> set xs. \<not> p x)"
  by (induction xs) auto

lemma position_remove:
  assumes "distinct (map f xs)" and "position (\<lambda>x. f x = i) xs = Some n"
  shows "take n xs @ drop (n + 1) xs = filter (\<lambda>x. f x \<noteq> i) xs"
  using assms
proof (induction xs arbitrary: n)
  case (Cons x xs)
  show ?case
  proof (cases "f x = i")
    case True
    then have "filter (\<lambda>x. f x \<noteq> i) xs = xs" using Cons.prems(1) by (auto simp: filter_id_conv image_iff)
    with True Cons.prems show ?thesis by simp
  next
    case False
    with Cons.prems obtain k where "n = Suc k" "position (\<lambda>x. f x = i) xs = Some k" by auto
    with Cons False show ?thesis by simp
  qed
qed simp

lemma remove_sstables_spec:
  assumes "ids_distinct ls"
  shows "(remove_sstables rs ls = Inr ls' \<longrightarrow>
            (\<forall>l. level_entry l ls' = filter (\<lambda>m. (l, sm_id m) \<notin> set rs) (level_entry l ls)))
       \<and> ((\<exists>x. remove_sstables rs ls = Inr x) \<longleftrightarrow>
            distinct rs \<and> (\<forall>(l, i) \<in> set rs. i \<in> sm_id ` set (level_entry l ls)))"
  using assms
proof (induction rs arbitrary: ls)
  case Nil
  then show ?case by auto
next
  case (Cons r rs)
  obtain l i where r: "r = (l, i)" by (cases r)
  let ?v = "level_entry l ls"
  show ?case
  proof (cases "position (\<lambda>m. sm_id m = i) ?v")
    case None
    then have "remove_sstables (r # rs) ls = Inl (InvalidArgument ''cannot remove SSTable: not found'')" by (simp add: r)
    moreover have "i \<notin> sm_id ` set ?v" using None by (auto simp: position_None)
    ultimately show ?thesis by (simp add: r)
  next
    case (Some n)
    let ?ls = "ls(l \<mapsto> filter (\<lambda>m. sm_id m \<noteq> i) ?v)"
    have cut: "take n ?v @ drop (n + 1) ?v = filter (\<lambda>m. sm_id m \<noteq> i) ?v"
      by (rule position_remove [OF _ Some]) (use Cons.prems in \<open>simp add: ids_distinct_def\<close>)
    have step: "remove_sstables (r # rs) ls = remove_sstables rs ?ls"
      using Some cut by (simp add: r Let_def)
    have d: "ids_distinct ?ls"
      using Cons.prems by (auto simp: ids_distinct_def distinct_map_filter)
    have mem: "i \<in> sm_id ` set ?v"
    proof (rule ccontr)
      assume "i \<notin> sm_id ` set ?v"
      then have "position (\<lambda>m. sm_id m = i) ?v = None" by (auto simp: position_None)
      with Some show False by simp
    qed
    have iff: "(\<forall>(k, j) \<in> set rs. j \<in> sm_id ` set (level_entry k ?ls)) \<longleftrightarrow>
        (l, i) \<notin> set rs \<and> (\<forall>(k, j) \<in> set rs. j \<in> sm_id ` set (level_entry k ls))"
    proof -
      have "j \<in> sm_id ` set (level_entry k ?ls) \<longleftrightarrow> j \<in> sm_id ` set (level_entry k ls) \<and> (k, j) \<noteq> (l, i)" for k j
        by auto
      then show ?thesis by (simp only:) blast
    qed
    note IH = Cons.IH [OF d]
    have "\<forall>k. level_entry k ls' = filter (\<lambda>m. (k, sm_id m) \<notin> set (r # rs)) (level_entry k ls)"
      if "remove_sstables rs ?ls = Inr ls'"
    proof
      fix k
      have "level_entry k ls' = filter (\<lambda>m. (k, sm_id m) \<notin> set rs) (level_entry k ?ls)" using IH that by blast
      then show "level_entry k ls' = filter (\<lambda>m. (k, sm_id m) \<notin> set (r # rs)) (level_entry k ls)"
        by (cases "k = l") (auto simp: r intro: filter_cong)
    qed
    moreover have "(\<exists>x. remove_sstables rs ?ls = Inr x) \<longleftrightarrow>
        distinct (r # rs) \<and> (\<forall>(k, j) \<in> set (r # rs). j \<in> sm_id ` set (level_entry k ls))"
    proof -
      have "(\<exists>x. remove_sstables rs ?ls = Inr x) \<longleftrightarrow> distinct rs \<and> (\<forall>(k, j) \<in> set rs. j \<in> sm_id ` set (level_entry k ?ls))"
        using IH by blast
      also have "\<dots> \<longleftrightarrow> distinct rs \<and> (l, i) \<notin> set rs \<and> (\<forall>(k, j) \<in> set rs. j \<in> sm_id ` set (level_entry k ls))"
        using iff by blast
      finally show ?thesis using mem by (auto simp: r)
    qed
    ultimately show ?thesis unfolding step by blast
  qed
qed

lemma add_sstables_spec:
  "mset (level_entry l (add_sstables as ls)) = mset (level_entry l ls) + mset (map snd (filter (\<lambda>a. fst a = l) as))
   \<and> (sorted (map sm_min_key (level_entry l ls)) \<or> level_is_overlapping l \<longrightarrow>
        sorted (map sm_min_key (level_entry l (add_sstables as ls))) \<or> level_is_overlapping l)"
proof (induction as arbitrary: ls)
  case (Cons a as)
  obtain k m where a: "a = (k, m)" by (cases a)
  define v where "v = (if level_is_overlapping k then level_entry k ls @ [m] else sort_key sm_min_key (level_entry k ls @ [m]))"
  have step: "add_sstables (a # as) ls = add_sstables as (ls(k \<mapsto> v))" by (simp add: a v_def Let_def)
  have v: "mset v = mset (level_entry k ls) + {#m#}" "sorted (map sm_min_key v) \<or> level_is_overlapping k"
    by (simp_all add: v_def)
  note IH = Cons [of "ls(k \<mapsto> v)", unfolded level_entry_update, folded step]
  show ?case
  proof (cases "l = k")
    case True
    then show ?thesis using IH v by (simp add: a)
  next
    case False
    then show ?thesis using IH by (simp add: a)
  qed
qed simp

text \<open>C31: a manifest update is exact. It succeeds exactly when the SSTables to remove are listed, each named once, and
  the flushed sequence number does not go back; the next manifest then has the next number, points back to its
  predecessor, and at every level lists exactly what was there, less what was removed, plus what was added; levels
  above zero stay sorted by their smallest key. Both epochs are those of the update, whatever the current ones are.\<close>
theorem manifest_apply_exact:
  assumes "ids_distinct (mf_levels m)"
  shows "((\<exists>m'. mu_apply now u m = Inr m') \<longleftrightarrow>
      distinct (mu_remove_sstables u)
      \<and> (\<forall>(l, i) \<in> set (mu_remove_sstables u). i \<in> sm_id ` set (sstables_at_level l m))
      \<and> (case mu_new_last_flushed_sequence u of None \<Rightarrow> True | Some s \<Rightarrow> mf_last_flushed_sequence m \<le> s))
    \<and> (\<forall>m'. mu_apply now u m = Inr m' \<longrightarrow>
      mf_manifest_id m' = mf_manifest_id m + 1 \<and> mf_previous_manifest_id m' = mf_manifest_id m
      \<and> mf_last_flushed_sequence m \<le> mf_last_flushed_sequence m'
      \<and> (\<forall>l. mset (sstables_at_level l m') =
            mset (filter (\<lambda>s. (l, sm_id s) \<notin> set (mu_remove_sstables u)) (sstables_at_level l m))
            + mset (map snd (filter (\<lambda>a. fst a = l) (mu_add_sstables u))))
      \<and> (levels_sorted (mf_levels m) \<longrightarrow> levels_sorted (mf_levels m'))
      \<and> mf_writer_epoch m' = mu_writer_epoch u \<and> mf_compactor_epoch m' = mu_compactor_epoch u)"
proof -
  note rm = remove_sstables_spec [OF assms, of "mu_remove_sstables u"]
  have ok: "(\<exists>m'. mu_apply now u m = Inr m') \<longleftrightarrow> (\<exists>ls. remove_sstables (mu_remove_sstables u) (mf_levels m) = Inr ls)
      \<and> (case mu_new_last_flushed_sequence u of None \<Rightarrow> True | Some s \<Rightarrow> mf_last_flushed_sequence m \<le> s)"
    by (auto simp: mu_apply_def Let_def not_less split: option.splits if_splits)
  have "mf_manifest_id m' = mf_manifest_id m + 1 \<and> mf_previous_manifest_id m' = mf_manifest_id m
      \<and> mf_last_flushed_sequence m \<le> mf_last_flushed_sequence m'
      \<and> (\<forall>l. mset (sstables_at_level l m') =
            mset (filter (\<lambda>s. (l, sm_id s) \<notin> set (mu_remove_sstables u)) (sstables_at_level l m))
            + mset (map snd (filter (\<lambda>a. fst a = l) (mu_add_sstables u))))
      \<and> (levels_sorted (mf_levels m) \<longrightarrow> levels_sorted (mf_levels m'))
      \<and> mf_writer_epoch m' = mu_writer_epoch u \<and> mf_compactor_epoch m' = mu_compactor_epoch u"
    if ap: "mu_apply now u m = Inr m'" for m'
  proof -
    obtain ls where ls: "remove_sstables (mu_remove_sstables u) (mf_levels m) = Inr ls"
        "mf_levels m' = add_sstables (mu_add_sstables u) ls"
      using ap by (auto simp: mu_apply_def Let_def split: option.splits if_splits)
    have e: "level_entry l ls = filter (\<lambda>s. (l, sm_id s) \<notin> set (mu_remove_sstables u)) (sstables_at_level l m)" for l
      using rm ls(1) by (simp add: sstables_level_entry)
    have "levels_sorted (mf_levels m')" if "levels_sorted (mf_levels m)"
      unfolding levels_sorted_def
    proof (intro allI impI)
      fix l assume l: "\<not> level_is_overlapping l"
      then have "sorted (map sm_min_key (sstables_at_level l m))" using that by (simp add: levels_sorted_def sstables_level_entry)
      then have "sorted (map sm_min_key (level_entry l ls))" unfolding e by (rule sorted_filter)
      then show "sorted (map sm_min_key (level_entry l (mf_levels m')))"
        using add_sstables_spec [of l "mu_add_sstables u" ls] l by (simp add: ls(2))
    qed
    moreover have "mset (sstables_at_level l m') = mset (level_entry l ls) + mset (map snd (filter (\<lambda>a. fst a = l) (mu_add_sstables u)))" for l
      using add_sstables_spec [of l "mu_add_sstables u" ls] by (simp add: sstables_level_entry ls(2))
    moreover have "mf_manifest_id m' = mf_manifest_id m + 1 \<and> mf_previous_manifest_id m' = mf_manifest_id m
      \<and> mf_last_flushed_sequence m \<le> mf_last_flushed_sequence m'
      \<and> mf_writer_epoch m' = mu_writer_epoch u \<and> mf_compactor_epoch m' = mu_compactor_epoch u"
      using ap by (auto simp: mu_apply_def Let_def mid_next_def split: option.splits if_splits)
    ultimately show ?thesis unfolding e by blast
  qed
  then show ?thesis unfolding ok using rm by (auto simp: sstables_level_entry)
qed

definition sample_meta :: "string \<Rightarrow> bytes \<Rightarrow> bytes \<Rightarrow> sst_meta" where
  "sample_meta i lo hi = \<lparr>sm_id = i, sm_size_bytes = 100, sm_entry_count = 1, sm_min_key = lo, sm_max_key = hi,
     sm_bloom_filter_offset = 0, sm_bloom_filter_size = 0, sm_index_offset = 0, sm_index_size = 0, sm_created_at_ms = 0,
     sm_sequence_range = (1, 1), sm_record_id_count = 1, sm_run_id = None, sm_fragment_index = None, sm_dedup_block_size = 0\<rparr>"

definition sample_flush :: "manifest_update" where
  "sample_flush = \<lparr>mu_trigger = Flush, mu_add_sstables = [(L0, sample_meta ''a'' [1] [2])], mu_remove_sstables = [],
     mu_new_last_flushed_sequence = Some 7, mu_writer_epoch = 1, mu_compactor_epoch = 0\<rparr>"

theorem manifest_apply_exact_witness:
  "\<exists>m'. mu_apply 5 sample_flush (mf_new_empty 0 ''ns'') = Inr m' \<and> mf_manifest_id m' = 1
     \<and> mset (sstables_at_level L0 m') = {#sample_meta ''a'' [1] [2]#}"
proof -
  have d: "ids_distinct (mf_levels (mf_new_empty 0 ''ns''))"
    by (simp add: ids_distinct_def level_entry_def mf_new_empty_def)
  note t = manifest_apply_exact [OF d, of 5 sample_flush]
  have "\<exists>m'. mu_apply 5 sample_flush (mf_new_empty 0 ''ns'') = Inr m'"
    unfolding t [THEN conjunct1] by (simp add: sample_flush_def mf_new_empty_def)
  then obtain m' where m': "mu_apply 5 sample_flush (mf_new_empty 0 ''ns'') = Inr m'" by blast
  then have "mf_manifest_id m' = mf_manifest_id (mf_new_empty 0 ''ns'') + 1"
    "mset (sstables_at_level L0 m') =
            mset (filter (\<lambda>s. (L0, sm_id s) \<notin> set (mu_remove_sstables sample_flush)) (sstables_at_level L0 (mf_new_empty 0 ''ns'')))
            + mset (map snd (filter (\<lambda>a. fst a = L0) (mu_add_sstables sample_flush)))"
    using t [THEN conjunct2, rule_format, OF m'] by auto
  then show ?thesis using m' by (simp add: sample_flush_def mf_new_empty_def sstables_at_level_def)
qed

end
