(* ===== verification/Sst_Handle.thy ===== *)
theory Sst_Handle
  imports Sst_Correct Merge_Iterator Manifest
begin

text \<open>
  \<^verbatim>\<open>block_fetcher.rs\<close> and \<^verbatim>\<open>sstable_handle.rs\<close>: an open SSTable keeps its footer, filter and index and reads data blocks
  through a block fetcher; a level keeps the open SSTables of one level. A fetcher is a record of its two
  operations, the direct one reading the object store. A handle is related to the entries of its file by
  \<open>handle_repr\<close>; lookups and scans return what those entries say.
\<close>

section \<open>Block fetchers\<close>

record block_fetcher =
  fetch_block :: "string \<Rightarrow> u64 \<Rightarrow> u32 \<Rightarrow> compression_type \<Rightarrow> block_entry list flush_result"
  fetch_raw_block :: "string \<Rightarrow> u64 \<Rightarrow> u32 \<Rightarrow> bytes flush_result"

definition direct_fetcher :: "codecs \<Rightarrow> objects \<Rightarrow> block_fetcher" where
  "direct_fetcher E objs =
     \<lparr>fetch_block = (\<lambda>path offset sz compression.
        bind_res (fs_get_range path offset (ucast sz) objs) (\<lambda>raw. decode_block E raw compression)),
      fetch_raw_block = (\<lambda>path offset sz. fs_get_range path offset (ucast sz) objs)\<rparr>"

section \<open>Handles\<close>

record sst_handle =
  hn_meta :: sst_meta
  hn_path :: string
  hn_footer :: sst_footer
  hn_bloom_filter :: filter_block
  hn_index_block :: index_block

definition handle_open :: "codecs \<Rightarrow> sst_meta \<Rightarrow> string \<Rightarrow> block_fetcher \<Rightarrow> sst_handle flush_result" where
  "handle_open E meta path F =
     (let footer_offset = sm_size_bytes meta - of_nat FOOTER_SIZE
      in bind_res (fetch_raw_block F path footer_offset (of_nat FOOTER_SIZE)) (\<lambda>footer_bytes.
         bind_res (footer_decode E footer_bytes) (\<lambda>footer.
         bind_res (fetch_raw_block F path (ft_bloom_filter_offset footer) (ft_bloom_filter_size footer)) (\<lambda>bloom_bytes.
         bind_res (fb_deserialize bloom_bytes) (\<lambda>bloom.
         bind_res (fetch_raw_block F path (ft_index_block_offset footer) (ft_index_block_size footer)) (\<lambda>index_bytes.
         bind_res (ib_deserialize index_bytes) (\<lambda>idx.
         Inr \<lparr>hn_meta = meta, hn_path = path, hn_footer = footer, hn_bloom_filter = bloom, hn_index_block = idx\<rparr>)))))))"

definition may_contain_record :: "sst_handle \<Rightarrow> bytes \<Rightarrow> bool" where
  "may_contain_record h rid = fb_maybe_contains (hn_bloom_filter h) rid"

definition find_block_for_key :: "sst_handle \<Rightarrow> composite_key \<Rightarrow> index_entry option" where
  "find_block_for_key h key = find_block (hn_index_block h) key"

definition handle_get_block :: "block_fetcher \<Rightarrow> sst_handle \<Rightarrow> nat \<Rightarrow> block_entry list flush_result" where
  "handle_get_block F h i =
     bind_res (from_option (InvalidArgument ''block index out of range'') (ib_get (hn_index_block h) i)) (\<lambda>e.
       fetch_block F (hn_path h) (ie_block_offset e) (ie_block_size e) (ft_compression_type (hn_footer h)))"

fun best_version :: "composite_key \<Rightarrow> block_entry option \<Rightarrow> block_entry list \<Rightarrow> block_entry option" where
  "best_version key best [] = best"
| "best_version key best (e # es) =
     best_version key
       (if be_composite_key e = key
        then (case best of
                Some b \<Rightarrow> if be_sequence_number b \<ge> be_sequence_number e then best else Some e
              | None \<Rightarrow> Some e)
        else best) es"

definition handle_get :: "block_fetcher \<Rightarrow> sst_handle \<Rightarrow> composite_key \<Rightarrow> block_entry option flush_result" where
  "handle_get F h key =
     (if \<not> may_contain_record h (record_id key) then Inr None
      else case find_block_for_key h key of
             None \<Rightarrow> Inr None
           | Some e \<Rightarrow>
               bind_res (fetch_block F (hn_path h) (ie_block_offset e) (ie_block_size e) (ft_compression_type (hn_footer h))) (\<lambda>entries.
               Inr (best_version key None entries)))"

definition handle_scan ::
  "block_fetcher \<Rightarrow> sst_handle \<Rightarrow> composite_key \<Rightarrow> composite_key option \<Rightarrow> block_entry list flush_result" where
  "handle_scan F h lo hi =
     (let idx = hn_index_block h; start_idx = (case find_block_index idx lo of None \<Rightarrow> 0 | Some i \<Rightarrow> i)
      in scan_blocks (handle_get_block F h) (\<lambda>i. map_option ie_first_key (ib_get idx i)) start_idx lo hi
           [start_idx..<ib_block_count idx])"

section \<open>Levels\<close>

record level_state =
  ls_level :: level
  ls_handles :: "sst_handle list"

fun open_handles :: "codecs \<Rightarrow> level \<Rightarrow> string \<Rightarrow> block_fetcher \<Rightarrow> sst_meta list \<Rightarrow> sst_handle list flush_result" where
  "open_handles E l namespace F [] = Inr []"
| "open_handles E l namespace F (m # ms) =
     bind_res (handle_open E m (sst_path namespace l m) F) (\<lambda>h.
     bind_res (open_handles E l namespace F ms) (\<lambda>hs. Inr (h # hs)))"

definition level_open_all :: "codecs \<Rightarrow> level \<Rightarrow> sst_meta list \<Rightarrow> string \<Rightarrow> block_fetcher \<Rightarrow> level_state flush_result" where
  "level_open_all E l metas namespace F =
     bind_res (open_handles E l namespace F metas) (\<lambda>handles.
       Inr \<lparr>ls_level = l,
            ls_handles = (if level_is_overlapping l then handles else sort_key (\<lambda>h. sm_min_key (hn_meta h)) handles)\<rparr>)"

definition find_candidates_for_key :: "composite_key \<Rightarrow> level_state \<Rightarrow> sst_handle list" where
  "find_candidates_for_key key ls =
     (let hs = ls_handles ls
      in if level_is_overlapping (ls_level ls) then filter (\<lambda>h. may_contain_record h (record_id key)) hs
         else let idx = partition_point (\<lambda>h. sm_max_key (hn_meta h) < as_bytes key) hs
              in if idx < length hs \<and> sm_contains_key (hn_meta (hs ! idx)) key then [hs ! idx] else [])"

definition find_candidates_for_range :: "composite_key \<Rightarrow> composite_key \<Rightarrow> level_state \<Rightarrow> sst_handle list" where
  "find_candidates_for_range start stop ls =
     filter (\<lambda>h. sm_overlaps_range (hn_meta h) (as_bytes start) (as_bytes stop)) (ls_handles ls)"

section \<open>What a handle holds\<close>

definition handle_image :: "codecs \<Rightarrow> objects \<Rightarrow> sst_handle \<Rightarrow> memtable_entry list list \<Rightarrow> bool" where
  "handle_image E objs h bss \<longleftrightarrow>
     (\<exists>d ft fb ib dd. fs_get (hn_path h) objs = Inr d \<and> sst_image E d ft fb ib dd bss
        \<and> hn_footer h = ft \<and> hn_bloom_filter h = fb \<and> hn_index_block h = ib)
     \<and> sorted_wrt ver_less (concat bss)
     \<and> sm_min_key (hn_meta h) = as_bytes (me_composite_key (hd (concat bss)))
     \<and> sm_max_key (hn_meta h) = as_bytes (me_composite_key (last (concat bss)))"

definition handle_repr :: "codecs \<Rightarrow> objects \<Rightarrow> sst_handle \<Rightarrow> memtable_entry list \<Rightarrow> bool" where
  "handle_repr E objs h es \<longleftrightarrow> (\<exists>bss. handle_image E objs h bss \<and> apart bss \<and> es = concat bss)"

text \<open>The two halves of it: the handle holds the entries, and no key has versions in two of its blocks. Compactions write unsplit files, since they keep one version of a key; a flush
  writes all versions and cuts the blocks by size, so that a key written often may be split.\<close>

definition handle_holds :: "codecs \<Rightarrow> objects \<Rightarrow> sst_handle \<Rightarrow> memtable_entry list \<Rightarrow> bool" where
  "handle_holds E objs h es \<longleftrightarrow> (\<exists>bss. handle_image E objs h bss \<and> es = concat bss)"

definition unsplit :: "codecs \<Rightarrow> objects \<Rightarrow> sst_handle \<Rightarrow> bool" where
  "unsplit E objs h \<longleftrightarrow> (\<exists>bss. handle_image E objs h bss \<and> apart bss)"

lemma ver_sorted_keys: "sorted_wrt ver_less es \<Longrightarrow> sorted (map me_composite_key es)"
  using sorted_wrt_mono_rel [of es ver_less "\<lambda>a b. me_composite_key a \<le> me_composite_key b"]
  by (simp add: sorted_map ver_less_def) (metis less_imp_le order_refl)

lemma be_of_simps [simp]:
  "be_composite_key (be_of e) = me_composite_key e" "be_sequence_number (be_of e) = me_sequence_number e"
  "be_entry_type (be_of e) = me_entry_type e"
  by (simp_all add: be_of_def)

lemma mg_be_of [simp]: "mg_from_block_entry (be_of e) = mg_from_memtable_entry e"
  by (simp add: mg_from_block_entry_def mg_from_memtable_entry_def be_of_def)

lemma direct_simps [simp]:
  "fetch_raw_block (direct_fetcher E objs) path off sz = fs_get_range path off (ucast sz) objs"
  "fetch_block (direct_fetcher E objs) path off sz c = bind_res (fs_get_range path off (ucast sz) objs) (\<lambda>raw. decode_block E raw c)"
  by (simp_all add: direct_fetcher_def)

lemma best_version_key:
  "best_version k b es = None \<longleftrightarrow> b = None \<and> (\<forall>e \<in> set es. be_composite_key e \<noteq> k)"
  by (induction k b es rule: best_version.induct) (auto split: option.splits)

lemma best_version_sorted:
  assumes "sorted_wrt ver_less es"
  shows "best_version k None (map be_of es) = map_option be_of (find (\<lambda>e. me_composite_key e = k) es)"
proof -
  have keep: "best_version k (Some (be_of b)) (map be_of es) = Some (be_of b)"
    if "\<forall>e \<in> set es. me_composite_key e = k \<longrightarrow> me_sequence_number e < me_sequence_number b" for b es
    using that by (induction es) auto
  show ?thesis using assms
  proof (induction es)
    case (Cons e es)
    show ?case
    proof (cases "me_composite_key e = k")
      case True
      then have "\<forall>x \<in> set es. me_composite_key x = k \<longrightarrow> me_sequence_number x < me_sequence_number e"
        using Cons.prems by (auto simp: ver_less_def)
      from keep [OF this] show ?thesis using True by simp
    next
      case False
      then show ?thesis using Cons by simp
    qed
  qed simp
qed

lemma image_keys:
  assumes "handle_image E objs h bss" and "handle_image E objs h bss'"
  shows "map (map me_composite_key) bss = map (map me_composite_key) bss'"
proof (rule nth_equalityI)
  obtain d ft fb ib dd where d: "fs_get (hn_path h) objs = Inr d" "sst_image E d ft fb ib dd bss" "hn_footer h = ft" "hn_index_block h = ib"
    using assms(1) by (auto simp: handle_image_def)
  obtain fb' dd' where d': "sst_image E d ft fb' ib dd' bss'" using assms(2) d(1,3,4) by (auto simp: handle_image_def)
  show len: "length (map (map me_composite_key) bss) = length (map (map me_composite_key) bss')"
    using image_blocks(1) [OF d(2)] image_blocks(1) [OF d'] by simp
  fix i assume i: "i < length (map (map me_composite_key) bss)"
  then have "map be_of (bss ! i) = map be_of (bss' ! i)" using fetch_image [OF d(1,2), of i] fetch_image [OF d(1) d', of i] len by auto
  then have "map be_composite_key (map be_of (bss ! i)) = map be_composite_key (map be_of (bss' ! i))" by (rule arg_cong)
  then show "map (map me_composite_key) bss ! i = map (map me_composite_key) bss' ! i" using i len by (simp add: o_def)
qed

lemma apart_keys:
  assumes "map (map me_composite_key) bss = map (map me_composite_key) bss'"
  shows "apart bss \<longleftrightarrow> apart bss'"
proof -
  have "apart cs \<longleftrightarrow> (\<forall>i j. i < j \<and> j < length (map (map me_composite_key) cs) \<longrightarrow>
      (\<forall>a \<in> set (map (map me_composite_key) cs ! i). \<forall>b \<in> set (map (map me_composite_key) cs ! j). a < b))" for cs
  proof -
    have "(\<forall>a \<in> set (map (map me_composite_key) cs ! i). \<forall>b \<in> set (map (map me_composite_key) cs ! j). a < b)
        \<longleftrightarrow> (\<forall>a \<in> set (cs ! i). \<forall>b \<in> set (cs ! j). me_composite_key a < me_composite_key b)" if "i < j" "j < length cs" for i j
      using that by simp
    then show ?thesis unfolding apart_def length_map by blast
  qed
  note this [of bss] this [of bss']
  then show ?thesis unfolding assms by (simp only:)
qed

lemma handle_repr_unsplit: "handle_repr E objs h es \<longleftrightarrow> handle_holds E objs h es \<and> unsplit E objs h"
  unfolding handle_repr_def handle_holds_def unsplit_def using image_keys apart_keys by metis

text \<open>A lookup reads one block, the last one whose first key is not above the key.\<close>

lemma handle_get_image:
  assumes "handle_image E objs h bss"
  shows "handle_get (direct_fetcher E objs) h k =
    Inr (if \<not> may_contain_record h (record_id k) then None
         else case find_block_index (hn_index_block h) k of None \<Rightarrow> None
              | Some i \<Rightarrow> map_option be_of (find (\<lambda>e. me_composite_key e = k) (bss ! i)))"
proof -
  obtain d ft fb ib dd where d: "fs_get (hn_path h) objs = Inr d" "sst_image E d ft fb ib dd bss"
      "hn_footer h = ft" "hn_bloom_filter h = fb" "hn_index_block h = ib" and srt: "sorted_wrt ver_less (concat bss)"
    using assms by (auto simp: handle_image_def)
  show ?thesis
  proof (cases "find_block_index ib k")
    case None
    then show ?thesis by (simp add: handle_get_def find_block_for_key_def find_block_def d(5))
  next
    case (Some i)
    then have i: "i < length bss"
      using image_find_block_index(1) [OF d(2) ver_sorted_keys [OF srt]] by (simp add: last_block_def)
    have "sorted_wrt ver_less (bss ! i)"
      using srt concat_take_nth [OF i] by (metis sorted_wrt_append)
    then show ?thesis using fetch_image [OF d(1,2) i] Some
      by (auto simp: handle_get_def find_block_for_key_def find_block_def d(3,5) best_version_sorted)
  qed
qed


lemma handle_get_repr:
  assumes "handle_repr E objs h es"
  shows "handle_get (direct_fetcher E objs) h k = Inr (map_option be_of (find (\<lambda>e. me_composite_key e = k) es))"
proof -
  obtain bss where im: "handle_image E objs h bss" and ap: "apart bss" and es: "es = concat bss"
    using assms by (auto simp: handle_repr_def)
  then obtain d ft fb ib dd where img: "sst_image E d ft fb ib dd bss" "hn_bloom_filter h = fb" "hn_index_block h = ib"
      and s: "sorted (map me_composite_key (concat bss))"
    by (auto simp: handle_image_def ver_sorted_keys)
  let ?f = "\<lambda>es. find (\<lambda>e. me_composite_key e = k) es"
  have look: "(case find_block_index ib k of None \<Rightarrow> None | Some i \<Rightarrow> ?f (bss ! i)) = ?f (concat bss)"
    using image_find_block_index [OF img(1) s, of k] last_block_find [OF s ap image_blocks(2) [OF img(1)]] no_block_find [OF s]
    by (auto split: option.splits)
  have "?f (concat bss) = None" if "\<not> may_contain_record h (record_id k)"
  proof (rule ccontr)
    assume "?f (concat bss) \<noteq> None"
    then obtain e where e: "e \<in> set (concat bss)" "me_composite_key e = k" unfolding find_None_iff by blast
    then have "fb_maybe_contains fb (record_id k)" using img(1) unfolding sst_image_def by blast
    then show False using that img(2) by (simp add: may_contain_record_def)
  qed
  then show ?thesis unfolding handle_get_image [OF im] img(3) es using look
    by (auto simp: map_option_case split: option.splits)
qed

text \<open>A scan reads the blocks from that one on.\<close>

lemma handle_scan_image:
  assumes "handle_image E objs h bss"
  shows "handle_scan (direct_fetcher E objs) h lo hi
    = Inr (map be_of (filter (in_range lo hi) (concat (drop (case find_block_index (hn_index_block h) lo of None \<Rightarrow> 0 | Some i \<Rightarrow> i) bss))))"
proof -
  obtain d ft fb ib dd where d: "fs_get (hn_path h) objs = Inr d" and img: "sst_image E d ft fb ib dd bss"
      and h: "hn_footer h = ft" "hn_index_block h = ib" and s: "sorted (map me_composite_key (concat bss))"
    using assms by (auto simp: handle_image_def ver_sorted_keys)
  note b = image_blocks [OF img]
  let ?start = "case find_block_index ib lo of None \<Rightarrow> 0 | Some i \<Rightarrow> i"
  have blk: "handle_get_block (direct_fetcher E objs) h i = Inr (map be_of (bss ! i))" if "i < length bss" for i
    using fetch_image [OF d img that] that b(1) by (simp add: handle_get_block_def h from_option_def ib_get_def)
  have frst: "map_option ie_first_key (ib_get ib i) = Some (me_composite_key (hd (bss ! i)))" if "i < length bss" for i
    using that b(1) b(3) [OF that] by (simp add: ib_get_def)
  have "?start \<le> length bss" using image_find_block_index(1) [OF img s, of lo] by (auto simp: last_block_def split: option.split)
  then have "scan_blocks (handle_get_block (direct_fetcher E objs) h) (\<lambda>i. map_option ie_first_key (ib_get ib i)) ?start lo hi [?start..<length bss]
      = Inr (map be_of (filter (in_range lo hi) (concat (drop ?start bss))))"
    by (intro scan_blocks_spec [OF blk frst s b(2)]) auto
  then show ?thesis unfolding handle_scan_def h Let_def ib_block_count_def b(1) by (simp only:)
qed

lemma handle_scan_repr:
  assumes "handle_repr E objs h es"
  shows "handle_scan (direct_fetcher E objs) h lo hi = Inr (map be_of (filter (in_range lo hi) es))"
proof -
  obtain bss where im: "handle_image E objs h bss" and ap: "apart bss" and es: "es = concat bss"
    using assms by (auto simp: handle_repr_def)
  then obtain d ft fb ib dd where img: "sst_image E d ft fb ib dd bss" "hn_index_block h = ib" and s: "sorted (map me_composite_key (concat bss))"
    by (auto simp: handle_image_def ver_sorted_keys)
  show ?thesis
  proof (cases "find_block_index ib lo")
    case (Some i)
    then have "last_block bss lo i" using image_find_block_index(1) [OF img(1) s] by blast
    then show ?thesis using Some filter_range_from_block [OF ap image_blocks(2) [OF img(1)]] unfolding handle_scan_image [OF im] img(2) es by simp
  qed (simp add: handle_scan_image [OF im] img(2) es)
qed

lemma findD: "find P xs = Some x \<Longrightarrow> x \<in> set xs \<and> P x"
  by (induction xs) (auto split: if_splits)

lemma find_append: "find P (xs @ ys) = (case find P xs of Some x \<Rightarrow> Some x | None \<Rightarrow> find P ys)"
  by (induction xs) auto

text \<open>A lookup in an SSTable with several versions of a key. When the versions lie in one block the newest is
  returned; when they continue into a following block, the lookup reads only the last of those blocks and returns
  its first version, which is older than the newest one. A scan that starts at such a key does not return the newest version either.\<close>
lemma handle_get_stale:
  assumes im: "handle_image E objs h bss" and k: "last_block bss k i"
    and fi: "find (\<lambda>e. me_composite_key e = k) (bss ! i) = Some e"
    and fa: "find (\<lambda>e. me_composite_key e = k) (concat bss) = Some newest_e"
  shows "handle_get (direct_fetcher E objs) h k = Inr (Some (be_of e))
    \<and> (if \<exists>j < i. k \<in> me_composite_key ` set (bss ! j) then me_sequence_number e < me_sequence_number newest_e else e = newest_e)"
proof
  obtain d ft fb ib dd where img: "sst_image E d ft fb ib dd bss" "hn_bloom_filter h = fb" "hn_index_block h = ib"
      and srt: "sorted_wrt ver_less (concat bss)"
    using im by (auto simp: handle_image_def)
  note s = ver_sorted_keys [OF srt]
  have il: "i < length bss" using k by (simp add: last_block_def)
  have e: "e \<in> set (bss ! i)" "me_composite_key e = k" using findD [OF fi] by blast+
  then have "e \<in> set (concat bss)" unfolding in_concat_nth using il by blast
  then have "may_contain_record h (record_id k)"
    using img(1,2) e(2) by (auto simp: sst_image_def may_contain_record_def)
  moreover have "find_block_index ib k = Some i" using image_find_block_index(1) [OF img(1) s] k by blast
  ultimately show "handle_get (direct_fetcher E objs) h k = Inr (Some (be_of e))"
    unfolding handle_get_image [OF im] img(3) using fi by simp
  let ?A = "concat (take i bss)" and ?B = "bss ! i" and ?C = "concat (drop (Suc i) bss)"
  have split: "concat bss = ?A @ ?B @ ?C" by (rule concat_take_nth [OF il])
  have inA: "x \<in> set ?A \<longleftrightarrow> (\<exists>j < i. x \<in> set (bss ! j))" for x using il by (intro in_concat_take) simp
  have noA: "find (\<lambda>e. me_composite_key e = k) ?A = None \<longleftrightarrow> \<not> (\<exists>j < i. k \<in> me_composite_key ` set (bss ! j))"
    unfolding find_None_iff inA by blast
  show "if \<exists>j < i. k \<in> me_composite_key ` set (bss ! j) then me_sequence_number e < me_sequence_number newest_e else e = newest_e"
  proof (cases "find (\<lambda>e. me_composite_key e = k) ?A")
    case (Some x)
    then have "x = newest_e" using fa unfolding split find_append by simp
    then have n: "newest_e \<in> set ?A" "me_composite_key newest_e = k" using findD [OF Some] by blast+
    have "ver_less newest_e e" using srt n(1) e(1) unfolding split sorted_wrt_append by auto
    then have "me_sequence_number e < me_sequence_number newest_e" using n(2) e(2) by (auto simp: ver_less_def)
    then show ?thesis using noA Some by simp
  next
    case None
    then have "e = newest_e" using fa fi unfolding split find_append by simp
    then show ?thesis using noA None by simp
  qed
qed


lemma handle_scan_stale:
  assumes im: "handle_image E objs h bss" and k: "last_block bss k i" and "j < i" "x \<in> set (bss ! j)" "me_composite_key x = k"
    and "handle_scan (direct_fetcher E objs) h k hi = Inr es"
  shows "\<forall>y \<in> set es. be_composite_key y = k \<longrightarrow> be_sequence_number y < me_sequence_number x"
proof -
  obtain d ft fb ib dd where img: "sst_image E d ft fb ib dd bss" "hn_index_block h = ib" and srt: "sorted_wrt ver_less (concat bss)"
    using im by (auto simp: handle_image_def)
  have il: "i < length bss" using k by (simp add: last_block_def)
  have "find_block_index ib k = Some i" using image_find_block_index(1) [OF img(1) ver_sorted_keys [OF srt]] k by blast
  then have es: "es = map be_of (filter (in_range k hi) (concat (drop i bss)))" using assms(6) unfolding handle_scan_image [OF im] img(2) by simp
  have "x \<in> set (concat (take i bss))" using assms(3,4) il in_concat_take [of i bss x] by auto
  moreover have "sorted_wrt ver_less (concat (take i bss) @ concat (drop i bss))" using srt by (metis append_take_drop_id concat_append)
  ultimately have "\<forall>y \<in> set (concat (drop i bss)). ver_less x y" unfolding sorted_wrt_append by blast
  then show ?thesis unfolding es using assms(5) by (fastforce simp: ver_less_def)
qed

section \<open>Opening a written file\<close>

lemma handle_open_image:
  assumes "fs_get path objs = Inr d" and "sst_image E d ft fb ib dd bss" and "sm_size_bytes meta = of_nat (length d)"
  shows "handle_open E meta path (direct_fetcher E objs)
    = Inr \<lparr>hn_meta = meta, hn_path = path, hn_footer = ft, hn_bloom_filter = fb, hn_index_block = ib\<rparr>"
proof -
  have f: "footer_decode E (drop (length d - 80) d) = Inr ft" "80 \<le> length d" "length d < 2 ^ 32"
    using assms(2) by (auto simp: sst_image_def)
  from assms(2) obtain b1 b2 where
    b1: "region d (ft_bloom_filter_offset ft) (ft_bloom_filter_size ft) b1" "fb_deserialize b1 = Inr fb" and
    b2: "region d (ft_index_block_offset ft) (ft_index_block_size ft) b2" "ib_deserialize b2 = Inr ib"
    unfolding sst_image_def by blast
  have u: "(ucast (of_nat FOOTER_SIZE :: u32) :: u64) = of_nat FOOTER_SIZE" by (simp add: FOOTER_SIZE_def)
  show ?thesis
    unfolding handle_open_def direct_simps u assms(3)
    using footer_range [OF assms(1) f(2,3)] f(1) get_range_region [OF assms(1) b1(1)] b1(2) get_range_region [OF assms(1) b2(1)] b2(2)
    by (simp add: Let_def)
qed

lemma written_handle:
  assumes "codecs_ok E" and "\<forall>e \<in> set es. entry_ok e" and "length es < 2 ^ 32"
    and w: "sst_write E config path es objs = Inr (info, objs')" and small: "\<And>d. fs_get path objs' = Inr d \<Longrightarrow> length d < 2 ^ 32"
    and srt: "sorted_wrt ver_less es"
    and meta: "sm_size_bytes meta = si_file_size info" "sm_min_key meta = as_bytes (si_min_key info)" "sm_max_key meta = as_bytes (si_max_key info)"
  shows "\<exists>h. handle_open E meta path (direct_fetcher E objs') = Inr h \<and> hn_meta h = meta \<and> hn_path h = path
    \<and> handle_image E objs' h (chunk (block_size_target config) [] es)"
proof -
  let ?bss = "chunk (block_size_target config) [] es"
  obtain d where d: "objs' = fs_put path d objs" "si_file_size info = of_nat (length d)"
      "si_min_key info = me_composite_key (hd es)" "si_max_key info = me_composite_key (last es)"
      "length d < 2 ^ 32 \<longrightarrow> (\<exists>ft fb ib dd. sst_image E d ft fb ib dd ?bss)"
    using sst_write_image [OF assms(1-3) w] by blast
  have get: "fs_get path objs' = Inr d" by (simp add: d(1) fs.get_put)
  then obtain ft fb ib dd where img: "sst_image E d ft fb ib dd ?bss" using d(5) small by blast
  have o: "handle_open E meta path (direct_fetcher E objs')
    = Inr \<lparr>hn_meta = meta, hn_path = path, hn_footer = ft, hn_bloom_filter = fb, hn_index_block = ib\<rparr>"
    by (rule handle_open_image [OF get img]) (simp add: meta d(2))
  show ?thesis
    by (intro exI conjI, rule o) (use get img srt d(3,4) meta in \<open>auto simp: handle_image_def concat_chunk\<close>)
qed

text \<open>A file with two versions of one key, for the examples: at a block size of one byte each entry has its own block.\<close>

definition two_versions :: "memtable_entry list" where
  "two_versions = [sample_entry [5] [6] 2, sample_entry [5] [7] 1]"

lemma two_versions_loop:
  "\<exists>ws. write_loop sample_codecs sample_sst_config two_versions (ws_new sample_sst_config) = Inr ws \<and> small_state ws"
  by (simp add: two_versions_def write_steps)

lemma one_version_loop:
  "\<exists>ws. write_loop sample_codecs sample_sst_config [sample_entry [5] [7] 1] (ws_new sample_sst_config) = Inr ws \<and> small_state ws"
  by (simp add: write_steps)

lemma sample_key_less: "sorted_wrt ver_less two_versions" "\<forall>e \<in> set two_versions. entry_ok e"
  by (simp_all add: two_versions_def ver_less_def sample_entry_ok) (simp add: sample_entry_def me_with_sequence_def)

lemma two_versions_blocks: "chunk 1 [] two_versions = [[sample_entry [5] [6] 2], [sample_entry [5] [7] 1]]"
proof -
  have "1 \<le> length (encode_entries None [e])" for e by (simp add: encode_entry_def put_var_def Let_def)
  then show ?thesis by (simp add: two_versions_def)
qed

end
