(* ===== verification/Page_Token.thy ===== *)
theory Page_Token
  imports Sst_Block
begin

text \<open>
  The page tokens of \<^verbatim>\<open>read_path.rs\<close> and their base64 text form, which is also that of the keys in a stored manifest
  (\<^verbatim>\<open>manifest/types.rs\<close> repeats the two functions).
\<close>

section \<open>Base64\<close>

definition BASE64_CHARS :: string where
  "BASE64_CHARS = ''ABCDEFGHIJKLMNOPQRSTUVWXYZabcdefghijklmnopqrstuvwxyz0123456789+/''"

definition base64_char :: "u32 \<Rightarrow> char" where
  "base64_char v = BASE64_CHARS ! unat (v AND 0x3F)"

definition base64_triple :: "u8 \<Rightarrow> u8 \<Rightarrow> u8 \<Rightarrow> u32" where
  "base64_triple b0 b1 b2 = push_bit 16 (ucast b0) OR push_bit 8 (ucast b1) OR ucast b2"

fun base64_encode :: "bytes \<Rightarrow> string" where
  "base64_encode [] = []"
| "base64_encode [b0] =
     (let triple = base64_triple b0 0 0
      in [base64_char (drop_bit 18 triple), base64_char (drop_bit 12 triple), CHR ''='', CHR ''=''])"
| "base64_encode [b0, b1] =
     (let triple = base64_triple b0 b1 0
      in [base64_char (drop_bit 18 triple), base64_char (drop_bit 12 triple), base64_char (drop_bit 6 triple), CHR ''=''])"
| "base64_encode (b0 # b1 # b2 # bs) =
     (let triple = base64_triple b0 b1 b2
      in [base64_char (drop_bit 18 triple), base64_char (drop_bit 12 triple), base64_char (drop_bit 6 triple), base64_char triple]
         @ base64_encode bs)"

definition char_to_val :: "char \<Rightarrow> u32 flush_result" where
  "char_to_val ch =
     (let c = (of_char ch :: nat)
      in if 65 \<le> c \<and> c \<le> 90 then Inr (of_nat (c - 65))
         else if 97 \<le> c \<and> c \<le> 122 then Inr (of_nat (c - 97 + 26))
         else if 48 \<le> c \<and> c \<le> 57 then Inr (of_nat (c - 48 + 52))
         else if ch = CHR ''+'' then Inr 62
         else if ch = CHR ''/'' then Inr 63
         else if ch = CHR ''='' then Inr 0
         else Inl (InvalidArgument ''invalid base64 char''))"

fun base64_decode_chunks :: "string \<Rightarrow> bytes flush_result" where
  "base64_decode_chunks (c0 # c1 # c2 # c3 # cs) =
     bind_res (char_to_val c0) (\<lambda>v0. bind_res (char_to_val c1) (\<lambda>v1.
     bind_res (char_to_val c2) (\<lambda>v2. bind_res (char_to_val c3) (\<lambda>v3.
       let triple = push_bit 18 v0 OR push_bit 12 v1 OR push_bit 6 v2 OR v3
       in bind_res (base64_decode_chunks cs) (\<lambda>rest.
          Inr ([ucast (drop_bit 16 triple AND 0xFF)]
            @ (if c2 \<noteq> CHR ''='' then [ucast (drop_bit 8 triple AND 0xFF)] else [])
            @ (if c3 \<noteq> CHR ''='' then [ucast (triple AND 0xFF)] else []) @ rest))))))"
| "base64_decode_chunks cs = Inr []"

definition base64_decode :: "string \<Rightarrow> bytes flush_result" where
  "base64_decode s =
     (if length s mod 4 \<noteq> 0 then Inl (InvalidArgument ''invalid base64 length'') else base64_decode_chunks s)"

section \<open>Page tokens\<close>

record page_token =
  last_composite_key :: composite_key
  last_sequence_number :: u64
  avg_item_size_bytes :: "u32 option"

definition pt_encode :: "page_token \<Rightarrow> bytes" where
  "pt_encode t =
     (let kb = as_bytes (last_composite_key t)
      in to_le_bytes 4 (of_nat (length kb) :: u32) @ kb @ to_le_bytes 8 (last_sequence_number t)
         @ (case avg_item_size_bytes t of Some avg \<Rightarrow> 1 # to_le_bytes 4 avg | None \<Rightarrow> [0]))"

definition pt_decode :: "bytes \<Rightarrow> page_token flush_result" where
  "pt_decode data =
     (if length data < 12 then Inl (InvalidArgument ''page token too short'')
      else let key_len = unat (from_le_bytes (slice_of 0 4 data) :: u32)
           in if length data < 4 + key_len + 8 then Inl (InvalidArgument ''page token truncated'')
              else bind_res (ck_from_bytes (slice_of 4 (4 + key_len) data)) (\<lambda>key.
                let avg_pos = 4 + key_len + 8
                in Inr \<lparr>last_composite_key = key,
                        last_sequence_number = from_le_bytes (slice_of (4 + key_len) (4 + key_len + 8) data),
                        avg_item_size_bytes =
                          (if avg_pos < length data \<and> data ! avg_pos = 1
                           then if avg_pos + 5 \<le> length data
                                then Some (from_le_bytes (slice_of (avg_pos + 1) (avg_pos + 5) data)) else None
                           else None)\<rparr>))"

definition pt_to_base64 :: "page_token \<Rightarrow> string" where
  "pt_to_base64 t = base64_encode (pt_encode t)"

definition pt_from_base64 :: "string \<Rightarrow> page_token flush_result" where
  "pt_from_base64 s = bind_res (base64_decode s) pt_decode"

section \<open>Base64 round trip\<close>

lemma char_to_val_chars: "map char_to_val BASE64_CHARS = map (\<lambda>i. Inr (of_nat i)) [0..<64]"
  by (simp add: BASE64_CHARS_def char_to_val_def of_char_def upt_conv_Cons)

lemma pad_not_in_chars: "CHR ''='' \<notin> set BASE64_CHARS" "length BASE64_CHARS = 64"
  by (simp_all add: BASE64_CHARS_def)

lemma base64_chars_inverse:
  assumes "i < 64"
  shows "char_to_val (BASE64_CHARS ! i) = Inr (of_nat i)" "BASE64_CHARS ! i \<noteq> CHR ''=''"
proof -
  have "map char_to_val BASE64_CHARS ! i = map (\<lambda>i. Inr (of_nat i)) [0..<64] ! i" by (simp only: char_to_val_chars)
  with assms show "char_to_val (BASE64_CHARS ! i) = Inr (of_nat i)" by (simp add: pad_not_in_chars)
  show "BASE64_CHARS ! i \<noteq> CHR ''=''" using assms nth_mem [of i BASE64_CHARS] pad_not_in_chars by metis
qed

lemma unat_and_3F: "unat ((v :: u32) AND 0x3F) < 64"
proof -
  have "(0x3F :: u32) = mask 6" by (simp add: mask_eq_exp_minus_1)
  then have "v AND 0x3F = take_bit 6 v" by (simp only: take_bit_eq_mask)
  then have "unat (v AND 0x3F) = unat v mod 64"
    using unsigned_take_bit_eq [of 6 v, where 'a = nat] by (simp only: take_bit_eq_mod) simp
  then show ?thesis by simp
qed

lemma base64_char_inverse: "char_to_val (base64_char v) = Inr (v AND 0x3F)" "base64_char v \<noteq> CHR ''=''"
  using base64_chars_inverse [OF unat_and_3F [of v]] by (simp_all add: base64_char_def)

lemma char_to_val_pad: "char_to_val (CHR ''='') = Inr 0"
  by code_simp

lemma bit_numerals: "bit (0x3F :: int) n \<longleftrightarrow> n < 6" "bit (0xFF :: int) n \<longleftrightarrow> n < 8"
proof -
  have "(0x3F :: int) = mask 6" "(0xFF :: int) = mask 8" by (simp_all add: mask_eq_exp_minus_1)
  then show "bit (0x3F :: int) n \<longleftrightarrow> n < 6" "bit (0xFF :: int) n \<longleftrightarrow> n < 8" by (simp_all only: bit_mask_iff) auto
qed

lemma and_3F: "(v :: u32) AND 0x3F = take_bit 6 v" and and_FF: "(v :: u32) AND 0xFF = take_bit 8 v"
proof -
  have "(0x3F :: u32) = mask 6" "(0xFF :: u32) = mask 8" by (simp_all add: mask_eq_exp_minus_1)
  then show "v AND 0x3F = take_bit 6 v" "v AND 0xFF = take_bit 8 v" by (simp_all only: take_bit_eq_mask)
qed

lemma base64_regroup:
  assumes "\<And>n. 24 \<le> n \<Longrightarrow> \<not> bit (t :: u32) n"
  shows "push_bit 18 (drop_bit 18 t AND 0x3F) OR push_bit 12 (drop_bit 12 t AND 0x3F)
    OR push_bit 6 (drop_bit 6 t AND 0x3F) OR (t AND 0x3F) = t"
  unfolding and_3F
proof (rule bit_word_eqI)
  fix n assume "n < LENGTH(32)"
  then have "n < 32" by simp
  consider "n < 6" | "6 \<le> n" "n < 12" | "12 \<le> n" "n < 18" | "18 \<le> n" "n < 24" | "24 \<le> n" by linarith
  then show "bit (push_bit 18 (take_bit 6 (drop_bit 18 t)) OR push_bit 12 (take_bit 6 (drop_bit 12 t))
      OR push_bit 6 (take_bit 6 (drop_bit 6 t)) OR take_bit 6 t) n = bit t n"
    using \<open>n < 32\<close> assms
    by cases (auto simp: bit_or_iff bit_take_bit_iff bit_push_bit_iff bit_drop_bit_eq)
qed

lemma bit_triple:
  "n < 8 \<Longrightarrow> bit (base64_triple b0 b1 b2) (16 + n) = bit b0 n"
  "n < 8 \<Longrightarrow> bit (base64_triple b0 b1 b2) (8 + n) = bit b1 n"
  "n < 8 \<Longrightarrow> bit (base64_triple b0 b1 b2) n = bit b2 n"
  "24 \<le> n \<Longrightarrow> \<not> bit (base64_triple b0 b1 b2) n"
  by (auto simp: base64_triple_def bit_or_iff bit_push_bit_iff bit_ucast_iff dest: bit_imp_le_length)

lemma triple_bytes:
  "ucast (drop_bit 16 (base64_triple b0 b1 b2) AND 0xFF) = b0"
  "ucast (drop_bit 8 (base64_triple b0 b1 b2) AND 0xFF) = b1"
  "ucast (base64_triple b0 b1 b2 AND 0xFF) = b2"
  by (rule bit_word_eqI, simp add: bit_ucast_iff bit_and_iff bit_drop_bit_eq bit_triple bit_numerals)+


lemma triple_padding:
  "base64_triple b0 b1 0 AND 0x3F = 0"
  "drop_bit 6 (base64_triple b0 0 0) AND 0x3F = 0"
  unfolding and_3F
  by (rule bit_word_eqI, auto simp: bit_take_bit_iff bit_drop_bit_eq base64_triple_def bit_or_iff bit_push_bit_iff bit_ucast_iff)+

lemma decode_chunk:
  assumes "char_to_val c0 = Inr (drop_bit 18 t AND 0x3F)" and "char_to_val c1 = Inr (drop_bit 12 t AND 0x3F)"
    and "char_to_val c2 = Inr (drop_bit 6 t AND 0x3F)" and "char_to_val c3 = Inr (t AND 0x3F)"
    and "base64_decode_chunks cs = Inr bs" and "t = base64_triple b0 b1 b2"
  shows "base64_decode_chunks (c0 # c1 # c2 # c3 # cs)
    = Inr (b0 # (if c2 \<noteq> CHR ''='' then [b1] else []) @ (if c3 \<noteq> CHR ''='' then [b2] else []) @ bs)"
proof -
  let ?t = "base64_triple b0 b1 b2"
  have "push_bit 18 (drop_bit 18 ?t AND 0x3F) OR push_bit 12 (drop_bit 12 ?t AND 0x3F)
      OR push_bit 6 (drop_bit 6 ?t AND 0x3F) OR (?t AND 0x3F) = ?t"
    by (rule base64_regroup) (rule bit_triple(4))
  then show ?thesis
    using assms by (simp only: base64_decode_chunks.simps bind_res.simps Let_def triple_bytes append.simps)
qed

lemma base64_chunks_roundtrip: "base64_decode_chunks (base64_encode bs) = Inr bs \<and> length (base64_encode bs) mod 4 = 0"
proof (induction bs rule: base64_encode.induct)
  case (2 b0)
  show ?case
    using decode_chunk [of _ "base64_triple b0 0 0" _ "CHR ''=''" "CHR ''=''" "[]" "[]",
        OF base64_char_inverse(1) base64_char_inverse(1)]
    by (simp add: Let_def char_to_val_pad triple_padding)
next
  case (3 b0 b1)
  show ?case
    using decode_chunk [of _ "base64_triple b0 b1 0" _ _ "CHR ''=''" "[]" "[]",
        OF base64_char_inverse(1) base64_char_inverse(1) base64_char_inverse(1)]
    by (simp add: Let_def char_to_val_pad triple_padding base64_char_inverse(2))
next
  case (4 b0 b1 b2 bs)
  then show ?case
    using decode_chunk [OF base64_char_inverse(1) base64_char_inverse(1) base64_char_inverse(1) base64_char_inverse(1), of "base64_encode bs" bs]
    by (simp add: Let_def base64_char_inverse(2))
qed simp

lemma base64_decode_encode: "base64_decode (base64_encode bs) = Inr bs"
  using base64_chunks_roundtrip [of bs] by (simp add: base64_decode_def)

section \<open>Page token round trip\<close>

lemma slice_Cons [simp]: "slice_of (Suc a) b (x # xs) = slice_of a (b - 1) xs"
  by (cases b) (simp_all add: slice_of_def)

lemma pt_decode_encode:
  assumes "ck_ok (last_composite_key t)" and "length (as_bytes (last_composite_key t)) < 2 ^ 32"
  shows "pt_decode (pt_encode t) = Inr t"
proof -
  let ?kb = "as_bytes (last_composite_key t)"
  have len: "unat (of_nat (length ?kb) :: u32) = length ?kb"
    using assms(2) by (simp add: unat_of_nat)
  have key: "ck_from_bytes ?kb = Inr (last_composite_key t)"
    using assms(1) by (cases "last_composite_key t") (simp add: ck_ok_def ck_from_bytes_def)
  show ?thesis
    by (cases "avg_item_size_bytes t")
      (simp_all add: pt_decode_def pt_encode_def Let_def len key slice_append_skip slice_append_hit from_to_le_bytes nth_append)
qed

text \<open>C39: Every page token whose key is a valid composite key survives the text form a client passes back:
  decoding its base64 encoding gives the same token, the optional average item size included. Malformed text, of a
  length that is not a multiple of four or with a foreign character, is rejected.\<close>
theorem page_token_roundtrip:
  assumes "ck_ok (last_composite_key t)" and "length (as_bytes (last_composite_key t)) < 2 ^ 32"
  shows "pt_from_base64 (pt_to_base64 t) = Inr t
    \<and> (length s mod 4 \<noteq> 0 \<longrightarrow> pt_from_base64 s = Inl (InvalidArgument ''invalid base64 length''))"
  using assms
  by (simp add: pt_from_base64_def pt_to_base64_def base64_decode_encode pt_decode_encode) (simp add: base64_decode_def)

theorem page_token_roundtrip_witness:
  "pt_from_base64 (pt_to_base64 \<lparr>last_composite_key = CompositeKey [65, 0, 66], last_sequence_number = 7, avg_item_size_bytes = Some 9\<rparr>)
     = Inr \<lparr>last_composite_key = CompositeKey [65, 0, 66], last_sequence_number = 7, avg_item_size_bytes = Some 9\<rparr>
   \<and> pt_from_base64 ''QQ'' = Inl (InvalidArgument ''invalid base64 length'')"
  using page_token_roundtrip [of "\<lparr>last_composite_key = CompositeKey [65, 0, 66], last_sequence_number = 7, avg_item_size_bytes = Some 9\<rparr>" "''QQ''"]
  by (simp add: ck_ok_def SEPARATOR_def)

end
