(* ===== verification/Read_Path.thy ===== *)
theory Read_Path
  imports Sst_Handle Page_Token
begin

text \<open>
  \<^verbatim>\<open>read_path.rs\<close>: point reads ask the memtables and then the SSTables level by level, range reads merge a scan of the
  memtables with scans of the SSTables and cut the result into pages. The reference is \<open>visible\<close>: the version with
  the highest sequence number over everything stored, when it is a put and no range deletion in the memtables
  covers it.
\<close>

section \<open>Range tombstone collector\<close>

type_synonym rt_collector = range_tombstone_index

definition rc_new :: rt_collector where
  "rc_new = rti_new"

definition rc_add_from_memtable_list :: "memtable_list \<Rightarrow> rt_collector \<Rightarrow> rt_collector" where
  "rc_add_from_memtable_list l c = fold rti_add (ml_all_range_tombstones l) c"

definition rc_add :: "bytes \<Rightarrow> bytes \<Rightarrow> bytes \<Rightarrow> u64 \<Rightarrow> rt_collector \<Rightarrow> rt_collector" where
  "rc_add rid start_key end_key seqno c =
     rti_add \<lparr>rt_record_id = rid, rt_start_key = start_key, rt_end_key = end_key, rt_sequence_number = seqno\<rparr> c"

definition rc_covers :: "rt_collector \<Rightarrow> bytes \<Rightarrow> bytes \<Rightarrow> u64 \<Rightarrow> bool" where
  "rc_covers c rid ik seqno = rti_covers c rid ik seqno"

section \<open>Point reads\<close>

record get_result =
  gr_key :: composite_key
  gr_value :: bytes
  gr_metadata :: bytes
  gr_sequence_number :: u64

definition gr_from_merge_entry :: "merge_entry \<Rightarrow> get_result" where
  "gr_from_merge_entry e = \<lparr>gr_key = mg_composite_key e, gr_value = mg_value e, gr_metadata = mg_metadata e,
     gr_sequence_number = mg_sequence_number e\<rparr>"

definition better :: "merge_entry option \<Rightarrow> merge_entry \<Rightarrow> merge_entry option" where
  "better best e =
     (case best of
        Some b \<Rightarrow> if mg_sequence_number b \<ge> mg_sequence_number e then best else Some e
      | None \<Rightarrow> Some e)"

fun probe_handles :: "block_fetcher \<Rightarrow> composite_key \<Rightarrow> merge_entry option \<Rightarrow> sst_handle list \<Rightarrow> merge_entry option flush_result" where
  "probe_handles F key best [] = Inr best"
| "probe_handles F key best (h # hs) =
     bind_res (handle_get F h key) (\<lambda>r.
       probe_handles F key (case r of None \<Rightarrow> best | Some b \<Rightarrow> better best (mg_from_block_entry b)) hs)"

fun probe_levels :: "block_fetcher \<Rightarrow> composite_key \<Rightarrow> merge_entry option \<Rightarrow> level_state list \<Rightarrow> merge_entry option flush_result" where
  "probe_levels F key best [] = Inr best"
| "probe_levels F key best (ls # lss) =
     bind_res (probe_handles F key best (find_candidates_for_key key ls)) (\<lambda>best. probe_levels F key best lss)"

definition point_read :: "block_fetcher \<Rightarrow> composite_key \<Rightarrow> memtable_list \<Rightarrow> level_state list \<Rightarrow> merge_entry option flush_result" where
  "point_read F key l levels =
     (case ml_get key l of
        Some entry \<Rightarrow>
          (let m = mg_from_memtable_entry entry
           in if mg_is_tombstone m then Inr None
              else if ml_range_tombstone_covers l (record_id key) (item_key key) (me_sequence_number entry) then Inr None
              else Inr (Some m))
      | None \<Rightarrow>
          bind_res (probe_levels F key None levels) (\<lambda>best.
            case best of
              None \<Rightarrow> Inr None
            | Some entry \<Rightarrow>
                if mg_is_tombstone entry then Inr None
                else if ml_range_tombstone_covers l (record_id key) (item_key key) (mg_sequence_number entry) then Inr None
                else Inr (Some entry)))"

fun multi_get :: "block_fetcher \<Rightarrow> bytes \<Rightarrow> bytes list \<Rightarrow> memtable_list \<Rightarrow> level_state list \<Rightarrow> merge_entry option list flush_result" where
  "multi_get F rid [] l levels = Inr []"
| "multi_get F rid (k # ks) l levels =
     bind_res (ck_new rid k) (\<lambda>key.
     bind_res (point_read F key l levels) (\<lambda>e.
     bind_res (multi_get F rid ks l levels) (\<lambda>es. Inr (e # es))))"

section \<open>Range reads\<close>

record range_read_options =
  page_size_bytes :: nat
  item_limit :: "nat option"
  resume_from :: "page_token option"

definition range_read_options_default :: range_read_options where
  "range_read_options_default = \<lparr>page_size_bytes = 2 * 1024 * 1024, item_limit = None, resume_from = None\<rparr>"

record range_read_result =
  rr_entries :: "merge_entry list"
  rr_next_page_token :: "page_token option"
  rr_total_bytes :: nat
  rr_is_partial :: bool

definition extract_range_tombstone_fields :: "merge_entry \<Rightarrow> (bytes \<times> bytes) option" where
  "extract_range_tombstone_fields e =
     (let ik = item_key (mg_composite_key e)
      in if ik = [] then Some ([], mg_value e)
         else if hd ik = 0xFF then Some (tl ik, mg_value e)
         else None)"

definition rc_track :: "bytes \<Rightarrow> merge_entry \<Rightarrow> rt_collector \<Rightarrow> rt_collector" where
  "rc_track rid e c =
     (if mg_entry_type e = RangeDelete
      then (case extract_range_tombstone_fields e of
              Some (s, t) \<Rightarrow> rc_add rid s t (mg_sequence_number e) c
            | None \<Rightarrow> c)
      else c)"

fun handle_sources :: "block_fetcher \<Rightarrow> composite_key \<Rightarrow> composite_key \<Rightarrow> nat \<Rightarrow> sst_handle list \<Rightarrow> (vec_source list \<times> nat) flush_result" where
  "handle_sources F start stop source_id [] = Inr ([], source_id)"
| "handle_sources F start stop source_id (h # hs) =
     bind_res (handle_scan F h start (Some stop)) (\<lambda>entries.
       if entries = [] then handle_sources F start stop source_id hs
       else bind_res (handle_sources F start stop (source_id + 1) hs) (\<lambda>(ss, n).
            Inr (vs_new (map mg_from_block_entry entries) source_id # ss, n)))"

fun level_sources :: "block_fetcher \<Rightarrow> composite_key \<Rightarrow> composite_key \<Rightarrow> nat \<Rightarrow> level_state list \<Rightarrow> vec_source list flush_result" where
  "level_sources F start stop source_id [] = Inr []"
| "level_sources F start stop source_id (ls # lss) =
     bind_res (handle_sources F start stop source_id (find_candidates_for_range start stop ls)) (\<lambda>(ss, n).
     bind_res (level_sources F start stop n lss) (\<lambda>ss'. Inr (ss @ ss')))"

definition memtable_sources :: "composite_key \<Rightarrow> composite_key \<Rightarrow> memtable_list \<Rightarrow> vec_source list" where
  "memtable_sources start stop l =
     (let entries = ml_scan_all_with_tombstones start stop l
      in if entries = [] then [] else [vs_new (map mg_from_memtable_entry entries) 0])"

definition entry_bytes :: "merge_entry \<Rightarrow> nat" where
  "entry_bytes e = length (as_bytes (mg_composite_key e)) + length (mg_value e) + length (mg_metadata e)"

definition page_full :: "range_read_options \<Rightarrow> nat \<Rightarrow> nat \<Rightarrow> bool" where
  "page_full opts total_bytes n =
     (total_bytes \<ge> page_size_bytes opts \<or> (case item_limit opts of Some limit \<Rightarrow> n \<ge> limit | None \<Rightarrow> False))"

text \<open>The merge loop; \<open>None\<close> is a panic of the merge iterator or too little fuel. It returns the iterator, the
  entries of the page and their bytes.\<close>

fun page_loop ::
  "nat \<Rightarrow> range_read_options \<Rightarrow> bytes \<Rightarrow> composite_key option \<Rightarrow> merge_iterator \<Rightarrow> rt_collector \<Rightarrow> merge_entry list \<Rightarrow> nat
    \<Rightarrow> (merge_iterator \<times> merge_entry list \<times> nat) option" where
  "page_loop fuel opts rid resume_key it c entries tot =
     (case next_deduped it of
        None \<Rightarrow> None
      | Some (None, it) \<Rightarrow> Some (it, entries, tot)
      | Some (Some entry, it) \<Rightarrow>
          (case fuel of
             0 \<Rightarrow> None
           | Suc n \<Rightarrow>
               if (case resume_key of Some rk \<Rightarrow> mg_composite_key entry \<le> rk | None \<Rightarrow> False)
               then page_loop n opts rid resume_key it (rc_track rid entry c) entries tot
               else if record_id (mg_composite_key entry) \<noteq> rid
               then page_loop n opts rid resume_key it c entries tot
               else if mg_entry_type entry = RangeDelete
               then page_loop n opts rid resume_key it (rc_track rid entry c) entries tot
               else if mg_is_tombstone entry
               then page_loop n opts rid resume_key it c entries tot
               else if rc_covers c (record_id (mg_composite_key entry)) (item_key (mg_composite_key entry)) (mg_sequence_number entry)
               then page_loop n opts rid resume_key it c entries tot
               else let tot = tot + entry_bytes entry; entries = entries @ [entry]
                    in if page_full opts tot (length entries) then Some (it, entries, tot)
                       else page_loop n opts rid resume_key it c entries tot))"

declare page_loop.simps [simp del]

definition page_token_of :: "merge_iterator \<Rightarrow> merge_entry list \<Rightarrow> nat \<Rightarrow> page_token option" where
  "page_token_of it entries tot =
     (if mi_is_exhausted it \<or> entries = [] then None
      else Some \<lparr>last_composite_key = mg_composite_key (last entries),
                 last_sequence_number = mg_sequence_number (last entries),
                 avg_item_size_bytes = (if entries \<noteq> [] \<and> tot > 0 then Some (of_nat (tot div length entries)) else None)\<rparr>)"

definition read_start :: "bytes \<Rightarrow> bytes option \<Rightarrow> composite_key flush_result" where
  "read_start rid start_key = (case start_key of Some sk \<Rightarrow> ck_new rid sk | None \<Rightarrow> min_key_for_record rid)"

definition read_stop :: "bytes \<Rightarrow> bytes option \<Rightarrow> composite_key flush_result" where
  "read_stop rid end_key = (case end_key of Some ek \<Rightarrow> ck_new rid ek | None \<Rightarrow> max_key_for_record rid)"

definition range_read ::
  "block_fetcher \<Rightarrow> bytes \<Rightarrow> bytes option \<Rightarrow> bytes option \<Rightarrow> range_read_options \<Rightarrow> memtable_list \<Rightarrow> level_state list
    \<Rightarrow> range_read_result flush_result option" where
  "range_read F rid start_key end_key opts l levels =
     (case (case resume_from opts of
              Some token \<Rightarrow> Inr (last_composite_key token)
            | None \<Rightarrow> read_start rid start_key) of
        Inl e \<Rightarrow> Some (Inl e)
      | Inr start \<Rightarrow>
     (case read_stop rid end_key of
        Inl e \<Rightarrow> Some (Inl e)
      | Inr stop \<Rightarrow>
     (let ms = memtable_sources start stop l
      in case level_sources F start stop (length ms) levels of
           Inl e \<Rightarrow> Some (Inl e)
         | Inr ss \<Rightarrow>
             (let it = mi_new (ms @ ss)
              in map_option (\<lambda>(it, entries, tot).
                   let token = page_token_of it entries tot
                   in Inr \<lparr>rr_entries = entries, rr_next_page_token = token, rr_total_bytes = tot, rr_is_partial = token \<noteq> None\<rparr>)
                 (page_loop (mi_left it) opts rid (map_option last_composite_key (resume_from opts)) it
                    (rc_add_from_memtable_list l rc_new) [] 0)))))"


section \<open>What is visible\<close>

text \<open>\<open>mem\<close> lists the entries of the memtables, \<open>base\<close> those of the SSTables.\<close>

definition visible :: "memtable_entry list \<Rightarrow> memtable_entry list \<Rightarrow> composite_key \<Rightarrow> memtable_entry \<Rightarrow> bool" where
  "visible mem base k e \<longleftrightarrow> e \<in> set (mem @ base) \<and> me_composite_key e = k
     \<and> (\<forall>x \<in> set (mem @ base). me_composite_key x = k \<longrightarrow> me_sequence_number x \<le> me_sequence_number e)
     \<and> me_entry_type e = Put \<and> \<not> history_covers mem k (me_sequence_number e)"

text \<open>The entries the components offer for a key: the answer of each memtable and the versions in the SSTables.\<close>

definition cand :: "memtable_list \<Rightarrow> memtable_entry list \<Rightarrow> composite_key \<Rightarrow> memtable_entry \<Rightarrow> bool" where
  "cand l base k e \<longleftrightarrow> (\<exists>m \<in> set (ml_active l # ml_frozen l). mt_get k m = Some e) \<or> e \<in> set base \<and> me_composite_key e = k"

definition below_memtables :: "memtable_entry list \<Rightarrow> memtable_entry list \<Rightarrow> bool" where
  "below_memtables base mem \<longleftrightarrow>
     (\<forall>b \<in> set base. \<forall>x \<in> set mem. me_sequence_number b < me_sequence_number x)
     \<and> (\<forall>a \<in> set base. \<forall>b \<in> set base. same_version a b \<longrightarrow> a = b)"

lemma ml_built_grow: "ml_built l hs \<Longrightarrow> \<forall>h \<in> set hs. sorted_wrt (\<lambda>a b. me_sequence_number a < me_sequence_number b) h"
proof (induction rule: ml_built.induct)
  case (insert l h hs e n s l')
  have "\<forall>x \<in> set h. me_sequence_number x < mt_next_sequence_number (ml_active l)"
    using ml_built_repr [OF insert.hyps(1)] by (auto simp: ml_repr_def)
  moreover have "s = mt_next_sequence_number (ml_active l)"
    using insert.hyps by (auto simp: ml_insert_def ml_with_active_def mt_insert_def mt_insert_prechecked_def Let_def split: if_splits)
  ultimately show ?case using insert.IH by (auto simp: sorted_wrt_append)
next
  case (prechecked l h hs e n s l')
  have "\<forall>x \<in> set h. me_sequence_number x < mt_next_sequence_number (ml_active l)"
    using ml_built_repr [OF prechecked.hyps(1)] by (auto simp: ml_repr_def)
  then show ?case using prechecked.IH prechecked.hyps(3) by (auto simp: sorted_wrt_append intro: less_le_trans)
next
  case (pop l hs p l')
  then show ?case by (auto dest: in_set_butlastD)
qed auto

lemma history_covers_concat: "history_covers (concat hs) k s \<longleftrightarrow> (\<exists>h \<in> set hs. history_covers h k s)"
  by (auto simp: history_covers_def)

lemma history_covers_older: "history_covers h k s \<Longrightarrow> s' \<le> s \<Longrightarrow> history_covers h k s'"
  by (auto simp: history_covers_def ts_covers_def intro: le_less_trans)

lemma grow_unique:
  assumes "sorted_wrt (\<lambda>a b. me_sequence_number a < me_sequence_number b) h" and "x \<in> set h" and "y \<in> set h"
    and "me_sequence_number x = me_sequence_number y"
  shows "x = y"
  using assms by (induction h) auto

lemma list_all2_partner:
  "list_all2 P xs ys \<Longrightarrow> (\<forall>x \<in> set xs. \<exists>y \<in> set ys. P x y) \<and> (\<forall>y \<in> set ys. \<exists>x \<in> set xs. P x y)"
  by (induction rule: list_all2_induct) auto

lemma memtable_partner:
  assumes "ml_repr l hs"
  shows "h \<in> set hs \<Longrightarrow> \<exists>m \<in> set (ml_active l # ml_frozen l). mt_repr m h"
    and "m \<in> set (ml_active l # ml_frozen l) \<Longrightarrow> \<exists>h \<in> set hs. mt_repr m h"
proof -
  have "list_all2 mt_repr (ml_active l # ml_frozen l) hs" using assms by (simp add: ml_repr_def)
  from list_all2_partner [OF this]
  show "h \<in> set hs \<Longrightarrow> \<exists>m \<in> set (ml_active l # ml_frozen l). mt_repr m h"
    and "m \<in> set (ml_active l # ml_frozen l) \<Longrightarrow> \<exists>h \<in> set hs. mt_repr m h" by blast+
qed

lemma visible_cand:
  assumes b: "ml_built l hs" and base: "below_memtables base (concat hs)"
  shows "visible (concat hs) base k e \<longleftrightarrow> cand l base k e \<and> (\<forall>x. cand l base k x \<longrightarrow> me_sequence_number x \<le> me_sequence_number e)
    \<and> me_entry_type e = Put \<and> \<not> history_covers (concat hs) k (me_sequence_number e)"
proof -
  note repr = ml_built_repr [OF b] and grow = ml_built_grow [OF b]
  have in_all: "x \<in> set (concat hs @ base) \<and> me_composite_key x = k" if cx: "cand l base k x" for x
  proof (cases "x \<in> set base \<and> me_composite_key x = k")
    case False
    then obtain m where "m \<in> set (ml_active l # ml_frozen l)" and g: "mt_get k m = Some x" using cx unfolding cand_def by blast
    then obtain h where h: "h \<in> set hs" "mt_repr m h" using memtable_partner(2) [OF repr] by blast
    from g have "newest k h = Some x" using mt_get_repr [OF h(2)] by (auto split: option.splits if_splits)
    then show ?thesis using newest_SomeD h(1) by fastforce
  qed auto
  show ?thesis
  proof
    assume v: "visible (concat hs) base k e"
    have "cand l base k e"
    proof (cases "e \<in> set base")
      case True
      then show ?thesis using v by (simp add: cand_def visible_def)
    next
      case False
      then obtain h where h: "h \<in> set hs" "e \<in> set h" using v by (auto simp: visible_def)
      obtain m where m: "m \<in> set (ml_active l # ml_frozen l)" "mt_repr m h" using memtable_partner(1) [OF repr h(1)] by blast
      have k: "me_composite_key e = k" using v by (simp add: visible_def)
      then obtain y where y: "newest k h = Some y" using newest_None [of k h] h(2) by (cases "newest k h") auto
      note yD = newest_SomeD [OF y]
      have "me_sequence_number y \<le> me_sequence_number e" using v yD h(1) by (auto simp: visible_def)
      then have "y = e" using yD h(2) k grow h(1) grow_unique [of h y e] by (metis order.antisym)
      moreover have "\<not> history_covers h k (me_sequence_number e)" using v h(1) by (auto simp: visible_def history_covers_concat)
      ultimately have "mt_get k m = Some e" using mt_get_repr [OF m(2), of k] y by simp
      then show ?thesis using m(1) by (auto simp: cand_def)
    qed
    then show "cand l base k e \<and> (\<forall>x. cand l base k x \<longrightarrow> me_sequence_number x \<le> me_sequence_number e)
      \<and> me_entry_type e = Put \<and> \<not> history_covers (concat hs) k (me_sequence_number e)"
      using v in_all by (auto simp: visible_def)
  next
    assume c: "cand l base k e \<and> (\<forall>x. cand l base k x \<longrightarrow> me_sequence_number x \<le> me_sequence_number e)
      \<and> me_entry_type e = Put \<and> \<not> history_covers (concat hs) k (me_sequence_number e)"
    have "me_sequence_number x \<le> me_sequence_number e" if x: "x \<in> set (concat hs @ base)" "me_composite_key x = k" for x
    proof (rule ccontr)
      assume n: "\<not> me_sequence_number x \<le> me_sequence_number e"
      then have "x \<notin> set base" using c x(2) by (auto simp: cand_def)
      then obtain h where h: "h \<in> set hs" "x \<in> set h" using x by auto
      obtain m where m: "m \<in> set (ml_active l # ml_frozen l)" "mt_repr m h" using memtable_partner(1) [OF repr h(1)] by blast
      obtain y where y: "newest k h = Some y" using newest_None [of k h] h(2) x(2) by (cases "newest k h") auto
      have "me_sequence_number x \<le> me_sequence_number y" using newest_SomeD [OF y] h(2) x(2) by blast
      then have lt: "me_sequence_number e < me_sequence_number y" using n by simp
      show False
      proof (cases "history_covers h k (me_sequence_number y)")
        case True
        then have "history_covers h k (me_sequence_number e)" using history_covers_older lt less_imp_le by blast
        then show False using c h(1) history_covers_concat by blast
      next
        case False
        then have "mt_get k m = Some y" using mt_get_repr [OF m(2), of k] y by simp
        then have "cand l base k y" using m(1) by (auto simp: cand_def)
        then show False using c lt by auto
      qed
    qed
    then show "visible (concat hs) base k e" using c in_all by (auto simp: visible_def)
  qed
qed

lemma first_get_newest:
  assumes "list_all2 mt_repr ms hs"
    and "sorted_wrt (\<lambda>newer older. \<forall>a \<in> set newer. \<forall>b \<in> set older. me_sequence_number b < me_sequence_number a) hs"
  shows "case first_get k ms of
      None \<Rightarrow> \<forall>m \<in> set ms. mt_get k m = None
    | Some e \<Rightarrow> (\<exists>m \<in> set ms. mt_get k m = Some e) \<and> (\<forall>m \<in> set ms. \<forall>x. mt_get k m = Some x \<longrightarrow> me_sequence_number x \<le> me_sequence_number e)"
  using assms
proof (induction ms hs rule: list_all2_induct)
  case (Cons m ms h hs)
  have got: "x \<in> set h'" if "mt_repr m' h'" "mt_get k m' = Some x" for m' h' x
    using that mt_get_repr [OF that(1), of k] newest_SomeD [of k h'] by (auto split: option.splits if_splits)
  show ?case
  proof (cases "mt_get k m")
    case None
    then show ?thesis using Cons by (auto split: option.splits)
  next
    case (Some e)
    have "me_sequence_number x \<le> me_sequence_number e" if x: "m' \<in> set ms" "mt_get k m' = Some x" for m' x
    proof -
      obtain h' where h': "h' \<in> set hs" "mt_repr m' h'" using list_all2_partner [OF Cons.hyps(2)] x(1) by blast
      have "x \<in> set h'" "e \<in> set h" using got [OF h'(2) x(2)] got [OF Cons.hyps(1) Some] by auto
      then show ?thesis using Cons.prems h'(1) by (auto intro: less_imp_le)
    qed
    then show ?thesis using Some by auto
  qed
qed simp

lemma ml_get_first: "ml_get k l = first_get k (ml_active l # ml_frozen l)"
  by (simp add: ml_get_def)

lemma any_covers_repr:
  "list_all2 mt_repr ms hs \<Longrightarrow> any_covers (record_id k) (item_key k) s ms \<longleftrightarrow> history_covers (concat hs) k s"
  by (induction rule: list_all2_induct) (auto simp: rti_covers_history history_covers_def)

lemma ml_covers_repr:
  assumes "ml_repr l hs"
  shows "ml_range_tombstone_covers l (record_id k) (item_key k) s \<longleftrightarrow> history_covers (concat hs) k s"
  using any_covers_repr [of "ml_active l # ml_frozen l" hs k s] assms
  by (simp add: ml_range_tombstone_covers_def ml_repr_def)

section \<open>The entries of the levels\<close>

definition level_repr :: "codecs \<Rightarrow> objects \<Rightarrow> level_state \<Rightarrow> memtable_entry list list \<Rightarrow> bool" where
  "level_repr E objs ls tables \<longleftrightarrow> list_all2 (handle_repr E objs) (ls_handles ls) tables
     \<and> (\<not> level_is_overlapping (ls_level ls) \<longrightarrow>
          sorted_wrt (\<lambda>a b. \<forall>x \<in> set a. \<forall>y \<in> set b. me_composite_key x < me_composite_key y) tables)"

definition levels_repr :: "codecs \<Rightarrow> objects \<Rightarrow> level_state list \<Rightarrow> memtable_entry list \<Rightarrow> bool" where
  "levels_repr E objs levels base \<longleftrightarrow>
     (\<exists>tss. list_all2 (level_repr E objs) levels tss \<and> base = concat (concat tss))"

text \<open>The levels hold the entries; no SSTable of them splits the versions of a key over two blocks.\<close>

definition level_holds :: "codecs \<Rightarrow> objects \<Rightarrow> level_state \<Rightarrow> memtable_entry list list \<Rightarrow> bool" where
  "level_holds E objs ls tables \<longleftrightarrow> list_all2 (handle_holds E objs) (ls_handles ls) tables
     \<and> (\<not> level_is_overlapping (ls_level ls) \<longrightarrow>
          sorted_wrt (\<lambda>a b. \<forall>x \<in> set a. \<forall>y \<in> set b. me_composite_key x < me_composite_key y) tables)"

definition levels_hold :: "codecs \<Rightarrow> objects \<Rightarrow> level_state list \<Rightarrow> memtable_entry list \<Rightarrow> bool" where
  "levels_hold E objs levels base \<longleftrightarrow> (\<exists>tss. list_all2 (level_holds E objs) levels tss \<and> base = concat (concat tss))"

definition unsplit_levels :: "codecs \<Rightarrow> objects \<Rightarrow> level_state list \<Rightarrow> bool" where
  "unsplit_levels E objs levels \<longleftrightarrow> (\<forall>ls \<in> set levels. \<forall>h \<in> set (ls_handles ls). unsplit E objs h)"

lemma list_all2_conj_left: "list_all2 (\<lambda>x y. P x y \<and> Q x) xs ys \<longleftrightarrow> list_all2 P xs ys \<and> (\<forall>x \<in> set xs. Q x)"
  by (auto simp: list_all2_conv_all_nth all_set_conv_all_nth)

lemma levels_repr_unsplit: "levels_repr E objs levels base \<longleftrightarrow> levels_hold E objs levels base \<and> unsplit_levels E objs levels"
proof -
  have "level_repr E objs = (\<lambda>ls tables. level_holds E objs ls tables \<and> (\<forall>h \<in> set (ls_handles ls). unsplit E objs h))"
    by (intro ext) (auto simp: level_repr_def level_holds_def handle_repr_unsplit [abs_def] list_all2_conj_left)
  then show ?thesis unfolding levels_repr_def levels_hold_def unsplit_levels_def by (auto simp: list_all2_conj_left)
qed

lemma handle_repr_bounds:
  assumes "handle_repr E objs h es" and "e \<in> set es"
  shows "sm_min_key (hn_meta h) \<le> as_bytes (me_composite_key e)" and "as_bytes (me_composite_key e) \<le> sm_max_key (hn_meta h)"
    and "may_contain_record h (me_rid e)"
proof -
  obtain bss where im: "handle_image E objs h bss" and es: "es = concat bss" using assms(1) by (auto simp: handle_repr_def)
  then have s: "sorted (map me_composite_key es)" by (simp add: handle_image_def ver_sorted_keys)
  have "sm_min_key (hn_meta h) = as_bytes (me_composite_key (hd es))" "sm_max_key (hn_meta h) = as_bytes (me_composite_key (last es))"
    using im es by (simp_all add: handle_image_def)
  with sorted_bounds [OF s assms(2)]
  show "sm_min_key (hn_meta h) \<le> as_bytes (me_composite_key e)" "as_bytes (me_composite_key e) \<le> sm_max_key (hn_meta h)"
    by (simp_all add: less_eq_composite_key_def)
  show "may_contain_record h (me_rid e)"
    using im assms(2) unfolding es handle_image_def sst_image_def may_contain_record_def by blast
qed

lemma handle_repr_ne: "handle_repr E objs h es \<Longrightarrow> es \<noteq> []"
proof
  assume "handle_repr E objs h es" "es = []"
  then obtain bss d ft fb ib dd where "sst_image E d ft fb ib dd bss" "concat bss = []" by (auto simp: handle_repr_def handle_image_def)
  then have "bss \<noteq> []" "[] \<notin> set bss" "concat bss = []" by (simp_all add: sst_image_def)
  then show False by (cases bss) auto
qed

lemma candidates_complete:
  assumes lv: "level_repr E objs ls tables"
  shows "\<exists>ixs. find_candidates_for_key k ls = map (\<lambda>i. ls_handles ls ! i) ixs \<and> set ixs \<subseteq> {..<length tables}
    \<and> (\<forall>i < length tables. k \<in> me_composite_key ` set (tables ! i) \<longrightarrow> i \<in> set ixs)"
proof -
  let ?hs = "ls_handles ls"
  have len: "length ?hs = length tables" and r: "\<And>j. j < length tables \<Longrightarrow> handle_repr E objs (?hs ! j) (tables ! j)"
    using lv by (auto simp: level_repr_def list_all2_conv_all_nth)
  show ?thesis
  proof (cases "level_is_overlapping (ls_level ls)")
    case True
    let ?is = "filter (\<lambda>i. may_contain_record (?hs ! i) (record_id k)) [0..<length ?hs]"
    have "find_candidates_for_key k ls = filter (\<lambda>h. may_contain_record h (record_id k)) (map (\<lambda>i. ?hs ! i) [0..<length ?hs])"
      using True by (simp add: find_candidates_for_key_def map_nth)
    also have "\<dots> = map (\<lambda>i. ?hs ! i) ?is" unfolding filter_map by (simp add: o_def)
    finally have "find_candidates_for_key k ls = map (\<lambda>i. ?hs ! i) ?is" .
    moreover have "may_contain_record (?hs ! i) (record_id k)" if "i < length tables" "k \<in> me_composite_key ` set (tables ! i)" for i
      using that handle_repr_bounds(3) [OF r [OF that(1)]] by auto
    ultimately show ?thesis using len by (intro exI [of _ ?is]) auto
  next
    case False
    let ?P = "\<lambda>h. sm_max_key (hn_meta h) < as_bytes k"
    have srt: "sorted_wrt (\<lambda>a b. \<forall>x \<in> set a. \<forall>y \<in> set b. me_composite_key x < me_composite_key y) tables"
      using lv False by (simp add: level_repr_def)
    have mx: "sm_max_key (hn_meta (?hs ! j)) = as_bytes (me_composite_key (last (tables ! j)))" "last (tables ! j) \<in> set (tables ! j)"
      if "j < length tables" for j
      using r [OF that] handle_repr_ne [OF r [OF that]] by (auto simp: handle_repr_def handle_image_def)
    have "sorted_wrt (\<lambda>a b. sm_max_key (hn_meta a) \<le> sm_max_key (hn_meta b)) ?hs"
      unfolding sorted_wrt_iff_nth_less
    proof (intro allI impI)
      fix p q assume "p < q" "q < length ?hs"
      then have pq: "p < q" "q < length tables" "p < length tables" using len by simp_all
      then have "me_composite_key (last (tables ! p)) < me_composite_key (last (tables ! q))"
        using srt mx(2) by (auto simp: sorted_wrt_iff_nth_less)
      then show "sm_max_key (hn_meta (?hs ! p)) \<le> sm_max_key (hn_meta (?hs ! q))"
        using mx(1) [OF pq(2)] mx(1) [OF pq(3)] by (simp add: less_composite_key_def)
    qed
    then have pp: "partition_point ?P ?hs = length (takeWhile ?P ?hs)" by (rule partition_point_sorted) auto
    let ?n = "partition_point ?P ?hs"
    let ?is = "if ?n < length ?hs \<and> sm_contains_key (hn_meta (?hs ! ?n)) k then [?n] else []"
    have "i \<in> set ?is" if i: "i < length tables" "k \<in> me_composite_key ` set (tables ! i)" for i
    proof -
      obtain e where e: "e \<in> set (tables ! i)" "me_composite_key e = k" using i(2) by blast
      note b = handle_repr_bounds [OF r [OF i(1)] e(1), unfolded e(2)]
      have lt: "?P (?hs ! j)" if "j < i" for j
      proof -
        have "me_composite_key (last (tables ! j)) < k"
          using srt that i(1) mx(2) [of j] e by (auto simp: sorted_wrt_iff_nth_less)
        then show ?thesis using mx(1) [of j] that i(1) by (simp add: less_composite_key_def)
      qed
      have "takeWhile ?P ?hs = take i ?hs" by (rule takeWhile_eq_take_P_nth) (use lt b(2) in auto)
      then have "?n = i" using pp i(1) len by simp
      then show ?thesis using i(1) len b(1,2) by (simp add: sm_contains_key_def)
    qed
    moreover have "find_candidates_for_key k ls = map (\<lambda>i. ?hs ! i) ?is" using False by (simp add: find_candidates_for_key_def Let_def)
    ultimately show ?thesis using len by (intro exI [of _ ?is]) auto
  qed
qed

text \<open>The best entry of a set: the merge entry of an element with the highest sequence number.\<close>

definition best_of :: "memtable_entry set \<Rightarrow> merge_entry option \<Rightarrow> bool" where
  "best_of S r \<longleftrightarrow> (case r of None \<Rightarrow> S = {} | Some m \<Rightarrow>
     \<exists>e \<in> S. m = mg_from_memtable_entry e \<and> (\<forall>x \<in> S. me_sequence_number x \<le> me_sequence_number e))"

lemma mg_simps [simp]:
  "mg_composite_key (mg_from_memtable_entry e) = me_composite_key e" "mg_sequence_number (mg_from_memtable_entry e) = me_sequence_number e"
  "mg_entry_type (mg_from_memtable_entry e) = me_entry_type e"
  by (simp_all add: mg_from_memtable_entry_def)

lemma best_of_better:
  assumes "best_of S b" and "e \<in> T" and "\<forall>x \<in> T. me_sequence_number x \<le> me_sequence_number e"
  shows "best_of (S \<union> T) (better b (mg_from_memtable_entry e))"
proof (cases b)
  case None
  then show ?thesis using assms by (auto simp: best_of_def better_def)
next
  case (Some m)
  then obtain y where y: "y \<in> S" "m = mg_from_memtable_entry y" "\<forall>x \<in> S. me_sequence_number x \<le> me_sequence_number y"
    using assms(1) by (auto simp: best_of_def)
  show ?thesis
  proof (cases "me_sequence_number e \<le> me_sequence_number y")
    case True
    then show ?thesis using Some y assms(2,3) by (fastforce simp: best_of_def better_def)
  next
    case False
    then show ?thesis using Some y assms(2,3) by (fastforce simp: best_of_def better_def)
  qed
qed

abbreviation with_key :: "composite_key \<Rightarrow> memtable_entry list \<Rightarrow> memtable_entry set" where
  "with_key k es \<equiv> {e \<in> set es. me_composite_key e = k}"

lemma find_newest:
  assumes "sorted_wrt ver_less es" and "find (\<lambda>e. me_composite_key e = k) es = Some e"
  shows "e \<in> with_key k es" and "\<forall>x \<in> with_key k es. me_sequence_number x \<le> me_sequence_number e"
proof -
  show "e \<in> with_key k es" using findD [OF assms(2)] by auto
  from assms show "\<forall>x \<in> with_key k es. me_sequence_number x \<le> me_sequence_number e"
  proof (induction es)
    case (Cons a es)
    show ?case
    proof (cases "me_composite_key a = k")
      case True
      then have "a = e" using Cons.prems(2) by simp
      have "me_sequence_number x < me_sequence_number a" if "x \<in> set es" "me_composite_key x = k" for x
        using Cons.prems(1) that True by (auto simp: ver_less_def)
      then show ?thesis using \<open>a = e\<close> by (auto intro: less_imp_le)
    next
      case False
      then show ?thesis using Cons by auto
    qed
  qed simp
qed

lemma handle_repr_sorted: "handle_repr E objs h es \<Longrightarrow> sorted_wrt ver_less es"
  by (auto simp: handle_repr_def handle_image_def)

lemma probe_handles_best:
  assumes "list_all2 (handle_repr E objs) hs tables" and "best_of S best"
  shows "\<exists>r. probe_handles (direct_fetcher E objs) k best hs = Inr r \<and> best_of (S \<union> with_key k (concat tables)) r"
  using assms
proof (induction hs tables arbitrary: S best rule: list_all2_induct)
  case (Cons h hs es tables)
  note g = handle_get_repr [OF Cons.hyps(1), of k]
  show ?case
  proof (cases "find (\<lambda>e. me_composite_key e = k) es")
    case None
    then have "with_key k (concat (es # tables)) = with_key k (concat tables)" by (auto simp: find_None_iff)
    then show ?thesis using Cons.IH [OF Cons.prems] g None by simp
  next
    case (Some e)
    note n = find_newest [OF handle_repr_sorted [OF Cons.hyps(1)] Some]
    have "with_key k (concat (es # tables)) = with_key k es \<union> with_key k (concat tables)" by auto
    then show ?thesis using Cons.IH [OF best_of_better [OF Cons.prems n]] g Some by (simp add: Un_assoc)
  qed
qed simp

lemma probe_levels_best:
  assumes "list_all2 (level_repr E objs) levels tss" and "best_of S best"
  shows "\<exists>r. probe_levels (direct_fetcher E objs) k best levels = Inr r \<and> best_of (S \<union> with_key k (concat (concat tss))) r"
  using assms
proof (induction levels tss arbitrary: S best rule: list_all2_induct)
  case (Cons ls lss tables tss)
  obtain ixs where ixs: "find_candidates_for_key k ls = map (\<lambda>i. ls_handles ls ! i) ixs" "set ixs \<subseteq> {..<length tables}"
      "\<forall>i < length tables. k \<in> me_composite_key ` set (tables ! i) \<longrightarrow> i \<in> set ixs"
    using candidates_complete [OF Cons.hyps(1)] by blast
  have "list_all2 (handle_repr E objs) (map (\<lambda>i. ls_handles ls ! i) ixs) (map (\<lambda>i. tables ! i) ixs)"
  proof -
    have "\<forall>i \<in> set ixs. handle_repr E objs (ls_handles ls ! i) (tables ! i)"
      using Cons.hyps(1) ixs(2) by (auto simp: level_repr_def list_all2_conv_all_nth)
    then show ?thesis by (simp add: list_all2_map1 list_all2_map2 list_all2_same)
  qed
  from probe_handles_best [OF this Cons.prems, of k] obtain r where
    r: "probe_handles (direct_fetcher E objs) k best (find_candidates_for_key k ls) = Inr r"
       "best_of (S \<union> with_key k (concat (map (\<lambda>i. tables ! i) ixs))) r"
    unfolding ixs(1) by blast
  have "with_key k (concat (map (\<lambda>i. tables ! i) ixs)) = with_key k (concat tables)"
  proof -
    have "e \<in> set (concat (map (\<lambda>i. tables ! i) ixs)) \<longleftrightarrow> e \<in> set (concat tables)" if "me_composite_key e = k" for e
      unfolding in_concat_nth [of e tables] using ixs(2,3) that by auto
    then show ?thesis by blast
  qed
  moreover have "with_key k (concat (concat (tables # tss))) = with_key k (concat tables) \<union> with_key k (concat (concat tss))" by auto
  ultimately show ?case using Cons.IH [of "S \<union> with_key k (concat tables)" r] r by (simp add: Un_assoc)
qed simp


section \<open>Point reads are correct\<close>

lemma tombstone_put: "mg_is_tombstone (mg_from_memtable_entry e) \<longleftrightarrow> me_entry_type e \<noteq> Put"
  by (cases "me_entry_type e") (simp_all add: mg_is_tombstone_def tombstone_type_def)

lemma concat_unique:
  assumes "sorted_wrt (\<lambda>newer older. \<forall>a \<in> set newer. \<forall>b \<in> set older. me_sequence_number b < me_sequence_number a) hs"
    and "\<forall>h \<in> set hs. sorted_wrt (\<lambda>a b. me_sequence_number a < me_sequence_number b) h"
    and "x \<in> set (concat hs)" and "y \<in> set (concat hs)" and "me_sequence_number x = me_sequence_number y"
  shows "x = y"
  using assms
proof (induction hs)
  case (Cons h hs)
  have lt: "me_sequence_number b < me_sequence_number a" if "a \<in> set h" "b \<in> set (concat hs)" for a b
    using Cons.prems(1) that by auto
  consider "x \<in> set h" "y \<in> set h" | "x \<in> set (concat hs)" "y \<in> set (concat hs)"
    | "x \<in> set h" "y \<in> set (concat hs)" | "x \<in> set (concat hs)" "y \<in> set h" using Cons.prems(3,4) by auto
  then show ?case
  proof cases
    case 1
    then show ?thesis using Cons.prems(2,5) grow_unique [of h] by simp
  next
    case 2
    then show ?thesis using Cons.IH Cons.prems by simp
  next
    case 3
    then show ?thesis using lt Cons.prems(5) by force
  next
    case 4
    then show ?thesis using lt Cons.prems(5) by force
  qed
qed simp

lemma mt_get_in_history:
  assumes "ml_repr l hs" and "m \<in> set (ml_active l # ml_frozen l)" and "mt_get k m = Some e"
  shows "e \<in> set (concat hs)" and "me_composite_key e = k"
proof -
  obtain h where h: "h \<in> set hs" "mt_repr m h" using memtable_partner(2) [OF assms(1,2)] by blast
  then have "newest k h = Some e" using mt_get_repr [OF h(2), of k] assms(3) by (auto split: option.splits if_splits)
  from newest_SomeD [OF this] h(1) show "e \<in> set (concat hs)" "me_composite_key e = k" by auto
qed

lemma cand_unique:
  assumes "ml_built l hs" and "below_memtables base (concat hs)" and "cand l base k x" and "cand l base k y"
    and "me_sequence_number x = me_sequence_number y"
  shows "x = y"
proof -
  note repr = ml_built_repr [OF assms(1)]
  have kind: "me_composite_key z = k \<and> (z \<in> set (concat hs) \<or> z \<in> set base)" if "cand l base k z" for z
    using that mt_get_in_history [OF repr] unfolding cand_def by blast
  have srt: "sorted_wrt (\<lambda>newer older. \<forall>a \<in> set newer. \<forall>b \<in> set older. me_sequence_number b < me_sequence_number a) hs"
    using repr by (simp add: ml_repr_def)
  have strict: "me_sequence_number b < me_sequence_number a" if "b \<in> set base" "a \<in> set (concat hs)" for a b
    using assms(2) that unfolding below_memtables_def by blast
  consider "x \<in> set (concat hs)" "y \<in> set (concat hs)" | "x \<in> set base" "y \<in> set base"
    | "x \<in> set base" "y \<in> set (concat hs)" | "x \<in> set (concat hs)" "y \<in> set base"
    using kind [OF assms(3)] kind [OF assms(4)] by blast
  then show ?thesis
  proof cases
    case 1
    then show ?thesis using concat_unique [OF srt ml_built_grow [OF assms(1)]] assms(5) by blast
  next
    case 2
    moreover have "me_composite_key x = me_composite_key y" using kind [OF assms(3)] kind [OF assms(4)] by simp
    ultimately show ?thesis using assms(2,5) unfolding below_memtables_def same_version_def by blast
  next
    case 3
    then show ?thesis using strict assms(5) by force
  next
    case 4
    then show ?thesis using strict assms(5) by force
  qed
qed

lemma visible_best:
  assumes "ml_built l hs" and "below_memtables base (concat hs)"
    and "cand l base k e" and "\<forall>x. cand l base k x \<longrightarrow> me_sequence_number x \<le> me_sequence_number e"
  shows "visible (concat hs) base k x \<longleftrightarrow>
    x = e \<and> me_entry_type e = Put \<and> \<not> history_covers (concat hs) k (me_sequence_number e)"
proof -
  have "x = e" if "cand l base k x" "\<forall>y. cand l base k y \<longrightarrow> me_sequence_number y \<le> me_sequence_number x"
    using cand_unique [OF assms(1,2) that(1) assms(3)] assms(3,4) that by (metis order.antisym)
  then show ?thesis using assms(3,4) unfolding visible_cand [OF assms(1,2)] by blast
qed

lemma point_read_visible:
  assumes "ml_built l hs" and "levels_repr E objs levels base" and "below_memtables base (concat hs)"
  shows "\<exists>r. point_read (direct_fetcher E objs) k l levels = Inr r
    \<and> (\<forall>g. r = Some g \<longleftrightarrow> (\<exists>e. visible (concat hs) base k e \<and> g = mg_from_memtable_entry e))"
proof -
  note repr = ml_built_repr [OF assms(1)]
  have fg: "case first_get k (ml_active l # ml_frozen l) of
      None \<Rightarrow> \<forall>m \<in> set (ml_active l # ml_frozen l). mt_get k m = None
    | Some e \<Rightarrow> (\<exists>m \<in> set (ml_active l # ml_frozen l). mt_get k m = Some e)
        \<and> (\<forall>m \<in> set (ml_active l # ml_frozen l). \<forall>x. mt_get k m = Some x \<longrightarrow> me_sequence_number x \<le> me_sequence_number e)"
    by (rule first_get_newest [of _ hs]) (use repr in \<open>simp_all add: ml_repr_def\<close>)
  show ?thesis
  proof (cases "ml_get k l")
    case (Some e)
    then have mem: "\<exists>m \<in> set (ml_active l # ml_frozen l). mt_get k m = Some e"
      and mx: "\<forall>m \<in> set (ml_active l # ml_frozen l). \<forall>x. mt_get k m = Some x \<longrightarrow> me_sequence_number x \<le> me_sequence_number e"
      using fg unfolding ml_get_first by simp_all
    have "e \<in> set (concat hs)" using mem mt_get_in_history(1) [OF repr] by blast
    then have c: "cand l base k e" "\<forall>x. cand l base k x \<longrightarrow> me_sequence_number x \<le> me_sequence_number e"
      using mem mx assms(3) by (auto simp: cand_def below_memtables_def intro: less_imp_le)
    show ?thesis
      using Some visible_best [OF assms(1,3) c] ml_covers_repr [OF repr, of k "me_sequence_number e"] tombstone_put [of e]
      by (auto simp: point_read_def Let_def)
  next
    case None
    then have no: "\<forall>m \<in> set (ml_active l # ml_frozen l). mt_get k m = None" using fg unfolding ml_get_first by simp
    obtain tss where tss: "list_all2 (level_repr E objs) levels tss" "base = concat (concat tss)"
      using assms(2) by (auto simp: levels_repr_def)
    have "best_of {} None" by (simp add: best_of_def)
    from probe_levels_best [OF tss(1) this, of k] obtain r where
      r: "probe_levels (direct_fetcher E objs) k None levels = Inr r" "best_of (with_key k base) r"
      unfolding tss(2) by auto
    have cand: "cand l base k x \<longleftrightarrow> x \<in> with_key k base" for x using no by (auto simp: cand_def)
    show ?thesis
    proof (cases r)
      case None
      then have "\<not> visible (concat hs) base k x" for x
        using r(2) cand visible_cand [OF assms(1,3), of k x] by (auto simp: best_of_def)
      then show ?thesis using \<open>ml_get k l = None\<close> r(1) None by (simp add: point_read_def)
    next
      case (Some m)
      then obtain e where e: "e \<in> with_key k base" "m = mg_from_memtable_entry e" "\<forall>x \<in> with_key k base. me_sequence_number x \<le> me_sequence_number e"
        using r(2) by (auto simp: best_of_def)
      have c: "cand l base k e" "\<forall>x. cand l base k x \<longrightarrow> me_sequence_number x \<le> me_sequence_number e"
        using e cand by auto
      show ?thesis
        using \<open>ml_get k l = None\<close> r(1) Some e(2) visible_best [OF assms(1,3) c] ml_covers_repr [OF repr, of k "me_sequence_number e"] tombstone_put [of e]
        by (auto simp: point_read_def)
    qed
  qed
qed

text \<open>C9: point reads. Whatever was inserted into the memtables, frozen and flushed, a point read over memtables and levels
  whose SSTables all keep the versions of each key in one block (\<open>unsplit_levels\<close>, which flushes do not ensure) returns the version with the highest sequence number of all,
  if it is a put and no range deletion still in a memtable covers it, and nothing otherwise; it does not fail. In
  particular a memtable that hides a covered version and falls back to an older one does not resurrect it.\<close>
theorem point_read_correct:
  assumes "ml_built l hs" and "levels_hold E objs levels base" and "unsplit_levels E objs levels" and "below_memtables base (concat hs)"
  shows "\<exists>r. point_read (direct_fetcher E objs) k l levels = Inr r
    \<and> (\<forall>g. r = Some g \<longleftrightarrow> (\<exists>e. visible (concat hs) base k e \<and> g = mg_from_memtable_entry e))"
  using point_read_visible [of l hs E objs levels base k] assms unfolding levels_repr_unsplit by blast

lemma one_entry_level:
  "\<exists>objs h. levels_repr sample_codecs objs [\<lparr>ls_level = L0, ls_handles = [h]\<rparr>] [sample_entry [5] [7] 1]"
proof -
  let ?es = "[sample_entry [5] [7] 1]"
  obtain info d where w: "sst_write sample_codecs sample_sst_config ''a.sst'' ?es [] = Inr (info, fs_put ''a.sst'' d [])" "length d < 2 ^ 32"
    using one_version_loop small_file by blast
  let ?objs = "fs_put ''a.sst'' d []"
  have small: "length d' < 2 ^ 32" if "fs_get ''a.sst'' ?objs = Inr d'" for d' using that w(2) by (simp add: fs.get_put)
  have ok: "\<forall>e \<in> set ?es. entry_ok e" "length ?es < 2 ^ 32" "sorted_wrt ver_less ?es" by (simp_all add: sample_entry_ok)
  obtain h where h: "handle_image sample_codecs ?objs h (chunk (block_size_target sample_sst_config) [] ?es)"
    using written_handle [OF sample_codecs_ok ok(1,2) w(1) small ok(3), of "from_sst_info info (1, 2) 1 0"]
    by (auto simp: from_sst_info_def)
  have "handle_repr sample_codecs ?objs h ?es"
    unfolding handle_repr_def
    by (intro exI [of _ "[?es]"]) (use h in \<open>auto simp: apart_def split: if_splits\<close>)
  then show ?thesis
    by (intro exI [of _ ?objs] exI [of _ h]) (auto simp: levels_repr_def level_repr_def intro!: exI [of _ "[[?es]]"])
qed

theorem point_read_correct_witness:
  "\<exists>objs levels. point_read (direct_fetcher sample_codecs objs) (CompositeKey [1, 0, 5])
     (ml_new (\<lambda>_. 1) 0 memtable_config_default 2) levels = Inr (Some (mg_from_memtable_entry (sample_entry [5] [7] 1)))"
proof -
  obtain objs h where lv: "levels_repr sample_codecs objs [\<lparr>ls_level = L0, ls_handles = [h]\<rparr>] [sample_entry [5] [7] 1]"
    using one_entry_level by blast
  have "visible (concat [[]]) [sample_entry [5] [7] 1] (CompositeKey [1, 0, 5]) (sample_entry [5] [7] 1)"
    by (simp add: visible_def history_covers_def sample_entry_def me_with_sequence_def)
  then have "\<exists>e. visible (concat [[]]) [sample_entry [5] [7] 1] (CompositeKey [1, 0, 5]) e
      \<and> mg_from_memtable_entry (sample_entry [5] [7] 1) = mg_from_memtable_entry e" by blast
  moreover have "below_memtables [sample_entry [5] [7] 1] (concat [[]])" by (simp add: below_memtables_def)
  moreover note point_read_correct [OF ml_built.new [of "\<lambda>_. 1" 0 memtable_config_default 2]
      lv [unfolded levels_repr_unsplit, THEN conjunct1] lv [unfolded levels_repr_unsplit, THEN conjunct2] this, of "CompositeKey [1, 0, 5]"]
  ultimately show ?thesis by metis
qed

end
