(* ===== verification/Range_Read.thy ===== *)
theory Range_Read
  imports Read_Path
begin

text \<open>
  Range reads are complete and paginate correctly. The deduplicated merge of the memtable scan and the SSTable scans is
  the list \<open>yields\<close>; a page is a prefix of its visible entries, and following the page tokens gives all of them
  once, in key order.
\<close>

section \<open>What an iterator yields\<close>

inductive yields :: "merge_iterator \<Rightarrow> merge_entry list \<Rightarrow> bool" where
  stop: "next_deduped it = Some (None, it) \<Longrightarrow> mi_is_exhausted it \<Longrightarrow> yields it []"
| step: "next_deduped it = Some (Some e, it') \<Longrightarrow> \<not> mi_is_exhausted it \<Longrightarrow> yields it' es \<Longrightarrow> yields it (e # es)"

inductive_cases yields_NilE: "yields it []"
inductive_cases yields_ConsE: "yields it (e # es)"

lemma head_item_Nil: "head_item i s = [] \<longleftrightarrow> rest_of s = []"
  by (cases "rest_of s") (simp_all add: head_item_def)

lemma exhausted_rest: "mi_inv it \<Longrightarrow> mi_is_exhausted it \<longleftrightarrow> all_rest it = []"
proof -
  assume "mi_inv it"
  then have "mset (mi_heap it) = mset (head_items (mi_sources it) [0..<length (mi_sources it)])" by (simp add: mi_inv_def)
  then have "mi_heap it = [] \<longleftrightarrow> head_items (mi_sources it) [0..<length (mi_sources it)] = []"
    by (metis mset_zero_iff)
  also have "\<dots> \<longleftrightarrow> (\<forall>i < length (mi_sources it). rest_of (mi_sources it ! i) = [])"
    by (auto simp: head_items_def head_item_Nil)
  also have "\<dots> \<longleftrightarrow> all_rest it = []" by (auto simp: all_rest_def all_set_conv_all_nth)
  finally show ?thesis by (simp add: mi_is_exhausted_def)
qed

lemma yields_newest:
  assumes "mi_inv it" and "sources_sorted it"
  shows "\<exists>es. yields it es \<and> newest_versions (mset (all_rest it)) es \<and> length es \<le> mi_left it"
  using assms
proof (induction "mi_left it" arbitrary: it rule: less_induct)
  case less
  from next_deduped_spec [OF less.prems] show ?case
  proof (elim disjE exE conjE)
    assume r: "all_rest it = []" "next_deduped it = Some (None, it)"
    then show ?thesis using exhausted_rest [OF less.prems(1)]
      by (intro exI [of _ "[]"]) (auto simp: newest_versions_def intro: yields.stop)
  next
    fix e it'
    assume e: "next_deduped it = Some (Some e, it')" "mi_inv it'" "sources_sorted it'" "e \<in> set (all_rest it)"
      "mset (all_rest it') = filter_mset (\<lambda>x. mg_composite_key x \<noteq> mg_composite_key e) (mset (all_rest it))"
      "\<forall>x \<in> set (all_rest it). vk e \<le> vk x"
    have "size (mset (all_rest it')) < size (mset (all_rest it))"
      unfolding e(5) using e(4) by (intro mset_subset_size) (auto simp: subset_mset.less_le multiset_filter_subset filter_mset_eq_conv)
    then have lt: "mi_left it' < mi_left it" by (simp add: mi_left_rest)
    from less.hyps [OF this e(2,3)] obtain es where
      es: "yields it' es" "newest_versions (mset (all_rest it')) es" "length es \<le> mi_left it'" by blast
    have "all_rest it \<noteq> []" using e(4) by auto
    then show ?thesis
      using es e newest_versions_Cons [of e "mset (all_rest it)" es] exhausted_rest [OF less.prems(1)] lt
      by (intro exI [of _ "e # es"]) (auto intro: yields.step)
  qed
qed

section \<open>One page\<close>

definition selected :: "bytes \<Rightarrow> composite_key option \<Rightarrow> rt_collector \<Rightarrow> merge_entry \<Rightarrow> bool" where
  "selected rid resume_key c e \<longleftrightarrow> (case resume_key of Some rk \<Rightarrow> rk < mg_composite_key e | None \<Rightarrow> True)
     \<and> record_id (mg_composite_key e) = rid \<and> \<not> mg_is_tombstone e
     \<and> \<not> rc_covers c (record_id (mg_composite_key e)) (item_key (mg_composite_key e)) (mg_sequence_number e)"

definition page_bytes :: "merge_entry list \<Rightarrow> nat" where
  "page_bytes es = sum_list (map entry_bytes es)"

lemma page_bytes_simps [simp]:
  "page_bytes [] = 0" "page_bytes (e # es) = entry_bytes e + page_bytes es" "page_bytes (es @ fs) = page_bytes es + page_bytes fs"
  by (simp_all add: page_bytes_def)

text \<open>\<open>cut opts es n\<close>: the page limits let \<open>n\<close> entries of \<open>es\<close> through, counting what the page holds already.\<close>

definition cut :: "range_read_options \<Rightarrow> nat \<Rightarrow> nat \<Rightarrow> merge_entry list \<Rightarrow> nat \<Rightarrow> bool" where
  "cut opts tot len es n \<longleftrightarrow> n \<le> length es
     \<and> (\<forall>m. 0 < m \<and> m < n \<longrightarrow> \<not> page_full opts (tot + page_bytes (take m es)) (len + m))
     \<and> (n < length es \<longrightarrow> 0 < n \<and> page_full opts (tot + page_bytes (take n es)) (len + n))"

lemma cut_Cons:
  assumes "\<not> page_full opts (tot + entry_bytes e) (Suc len)" and "cut opts (tot + entry_bytes e) (Suc len) es n"
  shows "cut opts tot len (e # es) (Suc n)"
proof -
  have "\<not> page_full opts (tot + page_bytes (take m (e # es))) (len + m)" if "0 < m" "m < Suc n" for m
  proof (cases m)
    case (Suc j)
    then show ?thesis using assms that by (cases j) (auto simp: cut_def add.assoc)
  qed (use that in simp)
  then show ?thesis using assms(2) by (auto simp: cut_def add.assoc)
qed

lemma page_loop_cut:
  assumes "yields it es" and "\<forall>e \<in> set es. mg_entry_type e \<noteq> RangeDelete" and "length es \<le> fuel"
  shows "\<exists>it' n. page_loop fuel opts rid rk it c entries tot
      = Some (it', entries @ take n (filter (selected rid rk c) es), tot + page_bytes (take n (filter (selected rid rk c) es)))
    \<and> cut opts tot (length entries) (filter (selected rid rk c) es) n
    \<and> (mi_is_exhausted it' \<longrightarrow> n = length (filter (selected rid rk c) es)) \<and> (\<not> mi_is_exhausted it' \<longrightarrow> 0 < n
        \<and> page_full opts (tot + page_bytes (take n (filter (selected rid rk c) es))) (length entries + n))"
  using assms
proof (induction es arbitrary: it fuel entries tot rule: list.induct)
  case Nil
  then show ?case by (auto elim!: yields_NilE simp: page_loop.simps [of fuel] cut_def)
next
  case (Cons e es)
  obtain it' where it': "next_deduped it = Some (Some e, it')" "yields it' es" using Cons.prems(1) by (rule yields_ConsE)
  obtain f where f: "fuel = Suc f" "length es \<le> f" using Cons.prems(3) by (cases fuel) auto
  have nr: "mg_entry_type e \<noteq> RangeDelete" "\<forall>e \<in> set es. mg_entry_type e \<noteq> RangeDelete" using Cons.prems(2) by auto
  note IH = Cons.IH [OF it'(2) nr(2) f(2)]
  show ?case
  proof (cases "selected rid rk c e")
    case False
    then have "page_loop fuel opts rid rk it c entries tot = page_loop f opts rid rk it' c entries tot"
      using nr(1) by (auto simp: page_loop.simps [of "Suc f"] it'(1) f(1) selected_def rc_track_def split: option.splits)
    then show ?thesis using IH [of entries tot] False by simp
  next
    case True
    let ?t = "tot + entry_bytes e"
    have step: "page_loop fuel opts rid rk it c entries tot
        = (if page_full opts ?t (Suc (length entries)) then Some (it', entries @ [e], ?t)
           else page_loop f opts rid rk it' c (entries @ [e]) ?t)"
      using True nr(1) by (auto simp: page_loop.simps [of "Suc f"] it'(1) f(1) selected_def Let_def split: option.splits)
    show ?thesis
    proof (cases "page_full opts ?t (Suc (length entries))")
      case full: True
      have "mi_is_exhausted it' \<longrightarrow> es = []" using it'(2) by (cases rule: yields.cases) auto
      then show ?thesis using step full True
        by (intro exI [of _ it'] exI [of _ "Suc 0"]) (auto simp: cut_def)
    next
      case False
      from IH [of "entries @ [e]" ?t] obtain it'' n where
        r: "page_loop f opts rid rk it' c (entries @ [e]) ?t
          = Some (it'', (entries @ [e]) @ take n (filter (selected rid rk c) es), ?t + page_bytes (take n (filter (selected rid rk c) es)))"
          "cut opts ?t (length (entries @ [e])) (filter (selected rid rk c) es) n"
          "mi_is_exhausted it'' \<longrightarrow> n = length (filter (selected rid rk c) es)"
          "\<not> mi_is_exhausted it'' \<longrightarrow> page_full opts (?t + page_bytes (take n (filter (selected rid rk c) es))) (length (entries @ [e]) + n)" by blast
      have "cut opts tot (length entries) (e # filter (selected rid rk c) es) (Suc n)"
        by (rule cut_Cons) (use False r(2) in simp_all)
      then show ?thesis using step False r True by (intro exI [of _ it''] exI [of _ "Suc n"]) (auto simp: add.assoc)
    qed
  qed
qed

section \<open>The sources of a range read\<close>

abbreviation version_key :: "memtable_entry \<Rightarrow> composite_key \<times> u64" where
  "version_key e \<equiv> (me_composite_key e, NOT (me_sequence_number e))"

lemma vk_mg [simp]: "vk (mg_from_memtable_entry e) = version_key e"
  by (simp add: vk_def)

lemma dedup_after_spec:
  assumes "sorted (map version_key es)" and "\<forall>k' x. k = Some k' \<longrightarrow> x \<in> set es \<longrightarrow> k' \<le> me_composite_key x"
  shows "sorted_wrt key_less (dedup_after k es) \<and> set (dedup_after k es) \<subseteq> set es
    \<and> (\<forall>e \<in> set (dedup_after k es). \<forall>k'. k = Some k' \<longrightarrow> k' < me_composite_key e)
    \<and> (\<forall>x \<in> set es. k = Some (me_composite_key x) \<or>
        (\<exists>e \<in> set (dedup_after k es). me_composite_key e = me_composite_key x \<and> me_sequence_number x \<le> me_sequence_number e))"
  using assms
proof (induction k es rule: dedup_after.induct)
  case (2 k e es)
  have le: "me_composite_key e \<le> me_composite_key x" if "x \<in> set es" for x using 2(3) that by auto
  have ge: "me_sequence_number x \<le> me_sequence_number e" if "x \<in> set es" "me_composite_key x = me_composite_key e" for x
    using 2(3) that by (auto simp: not_le_iff)
  show ?case
  proof (cases "k = Some (me_composite_key e)")
    case True
    then show ?thesis using 2(1) [OF True] 2(3,4) by auto
  next
    case False
    have IH: "sorted_wrt key_less (dedup_after (Some (me_composite_key e)) es)" "set (dedup_after (Some (me_composite_key e)) es) \<subseteq> set es"
      "\<forall>y \<in> set (dedup_after (Some (me_composite_key e)) es). me_composite_key e < me_composite_key y"
      "\<forall>x \<in> set es. me_composite_key e = me_composite_key x \<or>
        (\<exists>y \<in> set (dedup_after (Some (me_composite_key e)) es). me_composite_key y = me_composite_key x \<and> me_sequence_number x \<le> me_sequence_number y)"
      using 2(2) [OF False] 2(3) le by auto
    have "k' < me_composite_key e" if "k = Some k'" for k' using 2(4) that False by (auto simp: less_le)
    then have "k' < me_composite_key y" if "k = Some k'" "y \<in> set (e # dedup_after (Some (me_composite_key e)) es)" for k' y
      using that IH(3) by (auto intro: less_trans)
    moreover have "\<exists>y \<in> set (e # dedup_after (Some (me_composite_key e)) es).
        me_composite_key y = me_composite_key x \<and> me_sequence_number x \<le> me_sequence_number y" if "x \<in> set (e # es)" for x
      using that IH(4) ge by (cases "me_composite_key x = me_composite_key e") auto
    moreover have "\<forall>y \<in> set (dedup_after (Some (me_composite_key e)) es). key_less e y" using IH(3) by (simp add: key_less_def)
    ultimately show ?thesis using False IH(1,2) by auto
  qed
qed simp

lemma ml_scan_all_spec:
  assumes "ml_repr l hs"
  defines "ms \<equiv> ml_active l # ml_frozen l"
  shows "sorted_wrt key_less (ml_scan_all_with_tombstones a b l)"
    and "\<forall>e \<in> set (ml_scan_all_with_tombstones a b l). a \<le> me_composite_key e \<and> me_composite_key e < b \<and> (\<exists>m \<in> set ms. mt_get (me_composite_key e) m = Some e)"
    and "\<forall>m \<in> set ms. \<forall>k x. mt_get k m = Some x \<and> a \<le> k \<and> k < b \<longrightarrow>
          (\<exists>e \<in> set (ml_scan_all_with_tombstones a b l). me_composite_key e = k \<and> me_sequence_number x \<le> me_sequence_number e)"
proof -
  let ?all = "concat (map (mt_scan_with_tombstones a b) ms)"
  have S: "ml_scan_all_with_tombstones a b l = dedup_after None (sort_key version_key ?all)"
    by (simp add: ml_scan_all_with_tombstones_def dedup_keys_def sort_versions_def ms_def)
  have one: "set (mt_scan_with_tombstones a b m)
      = {e. (a \<le> me_composite_key e \<and> me_composite_key e < b) \<and> mt_get (me_composite_key e) m = Some e}" if m: "m \<in> set ms" for m
  proof -
    obtain h where "mt_repr m h" using memtable_partner(2) [OF assms(1)] m unfolding ms_def by blast
    then show ?thesis using mt_scan_with_tombstones_repr [of m h a b] by simp
  qed
  note d = dedup_after_spec [of "sort_key version_key ?all" None]
  show "sorted_wrt key_less (ml_scan_all_with_tombstones a b l)" using d unfolding S by simp
  show "\<forall>e \<in> set (ml_scan_all_with_tombstones a b l). a \<le> me_composite_key e \<and> me_composite_key e < b \<and> (\<exists>m \<in> set ms. mt_get (me_composite_key e) m = Some e)"
  proof
    fix e assume "e \<in> set (ml_scan_all_with_tombstones a b l)"
    then have "e \<in> set ?all" using d unfolding S by auto
    then obtain m where "m \<in> set ms" "e \<in> set (mt_scan_with_tombstones a b m)" by auto
    then show "a \<le> me_composite_key e \<and> me_composite_key e < b \<and> (\<exists>m \<in> set ms. mt_get (me_composite_key e) m = Some e)" using one by blast
  qed
  show "\<forall>m \<in> set ms. \<forall>k x. mt_get k m = Some x \<and> a \<le> k \<and> k < b \<longrightarrow>
          (\<exists>e \<in> set (ml_scan_all_with_tombstones a b l). me_composite_key e = k \<and> me_sequence_number x \<le> me_sequence_number e)"
  proof (intro ballI allI impI)
    fix m k x assume m: "m \<in> set ms" and x: "mt_get k m = Some x \<and> a \<le> k \<and> k < b"
    then have k: "me_composite_key x = k" using mt_get_in_history(2) [OF assms(1)] unfolding ms_def by blast
    then have "x \<in> set (mt_scan_with_tombstones a b m)" using one [OF m] x by simp
    then have "x \<in> set (sort_key version_key ?all)" using m by auto
    then show "\<exists>e \<in> set (ml_scan_all_with_tombstones a b l). me_composite_key e = k \<and> me_sequence_number x \<le> me_sequence_number e"
      using d k unfolding S by auto
  qed
qed

text \<open>The entries a list of sources holds, each source sorted.\<close>

definition hold :: "vec_source list \<Rightarrow> memtable_entry set \<Rightarrow> bool" where
  "hold ss E \<longleftrightarrow> (\<forall>s \<in> set ss. sorted (map vk (rest_of s))) \<and> set (concat (map rest_of ss)) = mg_from_memtable_entry ` E"

lemma hold_append: "hold ss A \<Longrightarrow> hold tt B \<Longrightarrow> hold (ss @ tt) (A \<union> B)"
  by (auto simp: hold_def)

lemma hold_single: "sorted (map version_key es) \<Longrightarrow> hold [vs_new (map mg_from_memtable_entry es) i] (set es)"
  by (simp add: hold_def o_def)

lemma hold_Nil [simp]: "hold [] E \<longleftrightarrow> E = {}"
  by (auto simp: hold_def)

lemma ver_sorted_version_key: "sorted_wrt ver_less es \<Longrightarrow> sorted (map version_key es)"
  unfolding sorted_map by (erule sorted_wrt_mono_rel [rotated]) (auto simp: ver_less_def not_le_iff)

lemma key_sorted_version_key: "sorted_wrt key_less es \<Longrightarrow> sorted (map version_key es)"
  unfolding sorted_map by (erule sorted_wrt_mono_rel [rotated]) (auto simp: key_less_def)

abbreviation between :: "composite_key \<Rightarrow> composite_key \<Rightarrow> memtable_entry list \<Rightarrow> memtable_entry set" where
  "between a b es \<equiv> {e \<in> set es. a \<le> me_composite_key e \<and> me_composite_key e < b}"

lemma handle_sources_hold:
  assumes "list_all2 (handle_repr E objs) hs tables"
  shows "\<exists>ss n'. handle_sources (direct_fetcher E objs) a b n hs = Inr (ss, n') \<and> hold ss (between a b (concat tables))"
  using assms
proof (induction hs tables arbitrary: n rule: list_all2_induct)
  case (Cons h hs es tables)
  let ?es = "filter (in_range a (Some b)) es"
  note scan = handle_scan_repr [OF Cons.hyps(1), of a "Some b"]
  have u: "between a b (concat (es # tables)) = set ?es \<union> between a b (concat tables)" by (auto simp: in_range_def)
  show ?case
  proof (cases "?es = []")
    case True
    then show ?thesis using Cons.IH [of n] scan unfolding u by simp
  next
    case False
    obtain ss n' where ss: "handle_sources (direct_fetcher E objs) a b (n + 1) hs = Inr (ss, n')" "hold ss (between a b (concat tables))"
      using Cons.IH [of "n + 1"] by blast
    have "hold [vs_new (map mg_from_memtable_entry ?es) n] (set ?es)"
      by (intro hold_single ver_sorted_version_key sorted_wrt_filter handle_repr_sorted [OF Cons.hyps(1)])
    from hold_append [OF this ss(2)] show ?thesis unfolding u using False scan ss(1) by (simp add: o_def)
  qed
qed simp

lemma range_candidates:
  assumes "list_all2 (handle_repr E objs) hs tables"
  shows "\<exists>tables'. list_all2 (handle_repr E objs) (filter (\<lambda>h. sm_overlaps_range (hn_meta h) (as_bytes a) (as_bytes b)) hs) tables'
    \<and> between a b (concat tables') = between a b (concat tables)"
  using assms
proof (induction hs tables rule: list_all2_induct)
  case (Cons h hs es tables)
  then obtain tables' where t: "list_all2 (handle_repr E objs) (filter (\<lambda>h. sm_overlaps_range (hn_meta h) (as_bytes a) (as_bytes b)) hs) tables'"
    "between a b (concat tables') = between a b (concat tables)" by blast
  show ?case
  proof (cases "sm_overlaps_range (hn_meta h) (as_bytes a) (as_bytes b)")
    case True
    then show ?thesis using t Cons.hyps(1) by (intro exI [of _ "es # tables'"]) auto
  next
    case False
    have "between a b es = {}"
    proof (rule ccontr)
      assume "between a b es \<noteq> {}"
      then obtain e where e: "e \<in> set es" "a \<le> me_composite_key e" "me_composite_key e < b" by blast
      note bd = handle_repr_bounds(1,2) [OF Cons.hyps(1) e(1)]
      have "as_bytes a \<le> sm_max_key (hn_meta h)" "sm_min_key (hn_meta h) \<le> as_bytes b"
        using e(2,3) bd by (auto simp: less_eq_composite_key_def less_composite_key_def)
      then show False using False by (auto simp: sm_overlaps_range_def)
    qed
    then show ?thesis using False t by (intro exI [of _ tables']) auto
  qed
qed simp

lemma level_sources_hold:
  assumes "list_all2 (level_repr E objs) levels tss"
  shows "\<exists>ss. level_sources (direct_fetcher E objs) a b n levels = Inr ss \<and> hold ss (between a b (concat (concat tss)))"
  using assms
proof (induction levels tss arbitrary: n rule: list_all2_induct)
  case (Cons ls lss tables tss)
  have "list_all2 (handle_repr E objs) (ls_handles ls) tables" using Cons.hyps(1) by (simp add: level_repr_def)
  from range_candidates [OF this, of a b] obtain tables' where
    t: "list_all2 (handle_repr E objs) (find_candidates_for_range a b ls) tables'" "between a b (concat tables') = between a b (concat tables)"
    by (auto simp: find_candidates_for_range_def)
  obtain ss n' where ss: "handle_sources (direct_fetcher E objs) a b n (find_candidates_for_range a b ls) = Inr (ss, n')"
    "hold ss (between a b (concat tables))" using handle_sources_hold [OF t(1), of a b n] unfolding t(2) by blast
  obtain ss' where ss': "level_sources (direct_fetcher E objs) a b n' lss = Inr ss'" "hold ss' (between a b (concat (concat tss)))"
    using Cons.IH by blast
  have "between a b (concat (concat (tables # tss))) = between a b (concat tables) \<union> between a b (concat (concat tss))" by auto
  then show ?case using ss(1) ss'(1) hold_append [OF ss(2) ss'(2)] by simp
qed simp

lemma memtable_sources_hold:
  assumes "ml_repr l hs"
  shows "hold (memtable_sources a b l) (set (ml_scan_all_with_tombstones a b l))"
  using hold_single [OF key_sorted_version_key [OF ml_scan_all_spec(1) [OF assms]]]
  by (auto simp: memtable_sources_def Let_def)


section \<open>A page is a prefix of what is visible\<close>

text \<open>\<open>listing\<close>: the visible entries of a record under the keys of a predicate, in key order.\<close>

definition listing :: "memtable_entry list \<Rightarrow> memtable_entry list \<Rightarrow> bytes \<Rightarrow> (composite_key \<Rightarrow> bool) \<Rightarrow> merge_entry list \<Rightarrow> bool" where
  "listing mem base rid P vs \<longleftrightarrow> sorted_wrt (\<lambda>a b. mg_composite_key a < mg_composite_key b) vs
     \<and> set vs = mg_from_memtable_entry ` {e. visible mem base (me_composite_key e) e
                 \<and> record_id (me_composite_key e) = rid \<and> P (me_composite_key e)}"

lemma any_covers_ex: "any_covers rid ik s ms \<longleftrightarrow> (\<exists>m \<in> set ms. rti_covers (mt_range_tombstones m) rid ik s)"
  by (induction ms) auto

lemma rc_covers_history:
  assumes "ml_repr l hs"
  shows "rc_covers (rc_add_from_memtable_list l rc_new) (record_id k) (item_key k) s \<longleftrightarrow> history_covers (concat hs) k s"
proof -
  let ?ms = "ml_active l # ml_frozen l"
  have "rc_covers (rc_add_from_memtable_list l rc_new) (record_id k) (item_key k) s
      \<longleftrightarrow> (\<exists>m \<in> set ?ms. \<exists>t \<in> set (rti_tombstones (mt_range_tombstones m)). ts_covers t (record_id k) (item_key k) s)"
    using rti.covers_fold [OF rti.ok_new, of "ml_all_range_tombstones l" "record_id k" "item_key k" s]
    by (auto simp: rc_covers_def rc_add_from_memtable_list_def rc_new_def rti.covers_new ml_all_range_tombstones_def)
  also have "\<dots> \<longleftrightarrow> (\<exists>m \<in> set ?ms. rti_covers (mt_range_tombstones m) (record_id k) (item_key k) s)"
  proof -
    have "rti_ok (mt_range_tombstones m)" if "m \<in> set ?ms" for m
      using memtable_partner(2) [OF assms that] by (auto simp: mt_repr_def)
    then show ?thesis using rti.covers_iff by blast
  qed
  also have "\<dots> \<longleftrightarrow> any_covers (record_id k) (item_key k) s ?ms" by (rule any_covers_ex [symmetric])
  also have "\<dots> \<longleftrightarrow> history_covers (concat hs) k s"
    by (rule any_covers_repr) (use assms in \<open>simp add: ml_repr_def\<close>)
  finally show ?thesis .
qed

lemma selected_listing:
  assumes b: "ml_built l hs" and low: "below_memtables base (concat hs)"
    and M: "set_mset M = mg_from_memtable_entry ` (set (ml_scan_all_with_tombstones start stop l) \<union> between start stop base)"
    and new: "newest_versions M es"
  shows "listing (concat hs) base rid (\<lambda>k. start \<le> k \<and> k < stop \<and> (case rk of None \<Rightarrow> True | Some r \<Rightarrow> r < k))
    (filter (selected rid rk (rc_add_from_memtable_list l rc_new)) es)"
proof -
  note repr = ml_built_repr [OF b]
  let ?S = "set (ml_scan_all_with_tombstones start stop l)"
  let ?sel = "selected rid rk (rc_add_from_memtable_list l rc_new)"
  have best: "\<exists>x. g = mg_from_memtable_entry x \<and> start \<le> me_composite_key x \<and> me_composite_key x < stop \<and> cand l base (me_composite_key x) x
      \<and> (\<forall>y. cand l base (me_composite_key x) y \<longrightarrow> me_sequence_number y \<le> me_sequence_number x)" if g: "g \<in> set es" for g
  proof -
    have "g \<in># M" and mx: "\<forall>x. x \<in># M \<and> mg_composite_key x = mg_composite_key g \<longrightarrow> mg_sequence_number x \<le> mg_sequence_number g"
      using new g by (auto simp: newest_versions_def)
    then obtain x where x: "g = mg_from_memtable_entry x" "x \<in> ?S \<union> between start stop base" using M by auto
    have in_r: "start \<le> me_composite_key x" "me_composite_key x < stop" and c: "cand l base (me_composite_key x) x"
      using x(2) ml_scan_all_spec(2) [OF repr] unfolding cand_def by blast+
    have "me_sequence_number y \<le> me_sequence_number x" if y: "cand l base (me_composite_key x) y" for y
    proof -
      have "\<exists>z \<in> ?S \<union> between start stop base. me_composite_key z = me_composite_key x \<and> me_sequence_number y \<le> me_sequence_number z"
        using y in_r ml_scan_all_spec(3) [OF repr, of start stop] unfolding cand_def by fastforce
      then obtain z where z: "z \<in> ?S \<union> between start stop base" "me_composite_key z = me_composite_key x"
        "me_sequence_number y \<le> me_sequence_number z" by blast
      have "mg_from_memtable_entry z \<in># M" using M z(1) by blast
      then have "me_sequence_number z \<le> me_sequence_number x" using mx z(2) x(1) by fastforce
      then show ?thesis using z(3) by simp
    qed
    then show ?thesis using x(1) in_r c by blast
  qed
  have vis: "?sel (mg_from_memtable_entry x) \<longleftrightarrow> visible (concat hs) base (me_composite_key x) x
      \<and> record_id (me_composite_key x) = rid \<and> (case rk of None \<Rightarrow> True | Some r \<Rightarrow> r < me_composite_key x)"
    if "cand l base (me_composite_key x) x" "\<forall>y. cand l base (me_composite_key x) y \<longrightarrow> me_sequence_number y \<le> me_sequence_number x" for x
    using visible_best [OF b low that, of x] by (auto simp: selected_def rc_covers_history [OF repr] tombstone_put split: option.splits)
  have "\<exists>g \<in> set es. g = mg_from_memtable_entry e" if v: "visible (concat hs) base (me_composite_key e) e"
      and r: "start \<le> me_composite_key e" "me_composite_key e < stop" for e
  proof -
    have c: "cand l base (me_composite_key e) e" and top_e: "\<forall>x. cand l base (me_composite_key e) x \<longrightarrow> me_sequence_number x \<le> me_sequence_number e"
      using v visible_cand [OF b low] by blast+
    obtain z where z: "z \<in> ?S \<union> between start stop base" "me_composite_key z = me_composite_key e"
      using c r ml_scan_all_spec(3) [OF repr, of start stop] unfolding cand_def by fastforce
    have "mg_composite_key (mg_from_memtable_entry z) \<in> mg_composite_key ` set_mset M"
      unfolding M by (intro imageI) (rule z(1))
    then have "me_composite_key e \<in> mg_composite_key ` set es" using z(2) new by (simp add: newest_versions_def)
    then obtain g where g: "g \<in> set es" "mg_composite_key g = me_composite_key e" by (metis imageE)
    obtain x where x: "g = mg_from_memtable_entry x" "cand l base (me_composite_key x) x"
      "\<forall>y. cand l base (me_composite_key x) y \<longrightarrow> me_sequence_number y \<le> me_sequence_number x" using best [OF g(1)] by blast
    have k: "me_composite_key x = me_composite_key e" using g(2) x(1) by simp
    have "x = e" using cand_unique [OF b low x(2), of e] c top_e x(2,3) k by (metis order.antisym)
    then show ?thesis using g(1) x(1) by blast
  qed
  then have "set (filter ?sel es) = mg_from_memtable_entry ` {e. visible (concat hs) base (me_composite_key e) e
      \<and> record_id (me_composite_key e) = rid \<and> start \<le> me_composite_key e \<and> me_composite_key e < stop
      \<and> (case rk of None \<Rightarrow> True | Some r \<Rightarrow> r < me_composite_key e)}" (is "_ = mg_from_memtable_entry ` ?V")
  proof (intro equalityI subsetI)
    fix g assume "g \<in> set (filter ?sel es)"
    then have g: "g \<in> set es" "?sel g" by auto
    obtain x where x: "g = mg_from_memtable_entry x" "start \<le> me_composite_key x" "me_composite_key x < stop" "cand l base (me_composite_key x) x"
      "\<forall>y. cand l base (me_composite_key x) y \<longrightarrow> me_sequence_number y \<le> me_sequence_number x" using best [OF g(1)] by blast
    then show "g \<in> mg_from_memtable_entry ` ?V" using vis [OF x(4,5)] g(2) by blast
  next
    fix g assume "g \<in> mg_from_memtable_entry ` ?V"
    then obtain e where e: "e \<in> ?V" "g = mg_from_memtable_entry e" by blast
    then have c: "cand l base (me_composite_key e) e" "\<forall>x. cand l base (me_composite_key e) x \<longrightarrow> me_sequence_number x \<le> me_sequence_number e"
      using visible_cand [OF b low] by blast+
    show "g \<in> set (filter ?sel es)"
      using e vis [OF c] \<open>\<And>e. \<lbrakk>visible (concat hs) base (me_composite_key e) e; start \<le> me_composite_key e; me_composite_key e < stop\<rbrakk> \<Longrightarrow> \<exists>g \<in> set es. g = mg_from_memtable_entry e\<close>
      by auto
  qed
  moreover have "sorted_wrt (\<lambda>a b. mg_composite_key a < mg_composite_key b) (filter ?sel es)"
    using new by (auto simp: newest_versions_def intro: sorted_wrt_filter)
  ultimately show ?thesis by (simp add: listing_def)
qed


lemma range_read_page:
  assumes b: "ml_built l hs" and lv: "levels_repr E objs levels base" and low: "below_memtables base (concat hs)"
    and start: "case resume_from opts of None \<Rightarrow> read_start rid sk = Inr start | Some t \<Rightarrow> start = last_composite_key t"
    and stop: "read_stop rid ek = Inr stop"
    and nodel: "\<forall>x \<in> set (concat hs @ base). start \<le> me_composite_key x \<and> me_composite_key x < stop \<longrightarrow> me_entry_type x \<noteq> RangeDelete"
  defines "rk \<equiv> map_option last_composite_key (resume_from opts)"
  shows "\<exists>vs n r. listing (concat hs) base rid (\<lambda>k. start \<le> k \<and> k < stop \<and> (case rk of None \<Rightarrow> True | Some r \<Rightarrow> r < k)) vs
    \<and> range_read (direct_fetcher E objs) rid sk ek opts l levels = Some (Inr r) \<and> rr_entries r = take n vs \<and> cut opts 0 0 vs n
    \<and> (case rr_next_page_token r of None \<Rightarrow> n = length vs
       | Some t \<Rightarrow> 0 < n \<and> vs \<noteq> [] \<and> last_composite_key t = mg_composite_key (last (take n vs)) \<and> page_full opts (page_bytes (take n vs)) n)"
proof -
  note repr = ml_built_repr [OF b]
  let ?ms = "memtable_sources start stop l" and ?c = "rc_add_from_memtable_list l rc_new"
  obtain tss where tss: "list_all2 (level_repr E objs) levels tss" "base = concat (concat tss)"
    using lv by (auto simp: levels_repr_def)
  obtain ss where ss: "level_sources (direct_fetcher E objs) start stop (length ?ms) levels = Inr ss" "hold ss (between start stop base)"
    using level_sources_hold [OF tss(1)] unfolding tss(2) by blast
  let ?it = "mi_new (?ms @ ss)"
  have h: "hold (?ms @ ss) (set (ml_scan_all_with_tombstones start stop l) \<union> between start stop base)"
    by (rule hold_append [OF memtable_sources_hold [OF repr] ss(2)])
  have M: "set_mset (mset (all_rest ?it)) = mg_from_memtable_entry ` (set (ml_scan_all_with_tombstones start stop l) \<union> between start stop base)"
    using h unfolding hold_def by simp
  have "sources_sorted ?it" using h by (simp add: hold_def sources_sorted_def mi_new_def)
  from yields_newest [OF mi_new_inv this] obtain es where
    es: "yields ?it es" "newest_versions (mset (all_rest ?it)) es" "length es \<le> mi_left ?it" by blast
  let ?vs = "filter (selected rid rk ?c) es"
  have lst: "listing (concat hs) base rid (\<lambda>k. start \<le> k \<and> k < stop \<and> (case rk of None \<Rightarrow> True | Some r \<Rightarrow> r < k)) ?vs"
    by (rule selected_listing [OF b low M es(2)])
  have "\<forall>e \<in> set es. mg_entry_type e \<noteq> RangeDelete"
  proof
    fix g assume "g \<in> set es"
    then have "g \<in> set_mset (mset (all_rest ?it))" using es(2) by (auto simp: newest_versions_def)
    then obtain x where x: "g = mg_from_memtable_entry x" "x \<in> set (ml_scan_all_with_tombstones start stop l) \<union> between start stop base"
      unfolding M by blast
    have "x \<in> set (concat hs @ base)"
      using x(2) ml_scan_all_spec(2) [OF repr, of start stop] mt_get_in_history(1) [OF repr] unfolding set_append by blast
    moreover have "start \<le> me_composite_key x" "me_composite_key x < stop"
      using x(2) ml_scan_all_spec(2) [OF repr, of start stop] by blast+
    ultimately show "mg_entry_type g \<noteq> RangeDelete" using nodel x(1) by simp
  qed
  from page_loop_cut [OF es(1) this es(3), of opts rid rk ?c "[]" 0] obtain it' n where
    p: "page_loop (mi_left ?it) opts rid rk ?it ?c [] 0 = Some (it', take n ?vs, page_bytes (take n ?vs))"
       "cut opts 0 0 ?vs n" "mi_is_exhausted it' \<longrightarrow> n = length ?vs" "\<not> mi_is_exhausted it' \<longrightarrow> 0 < n"
       "\<not> mi_is_exhausted it' \<longrightarrow> page_full opts (page_bytes (take n ?vs)) n" by auto
  have st: "(case resume_from opts of Some token \<Rightarrow> Inr (last_composite_key token) | None \<Rightarrow> read_start rid sk) = Inr start"
    using start by (simp split: option.splits)
  let ?t = "page_token_of it' (take n ?vs) (page_bytes (take n ?vs))"
  have r: "range_read (direct_fetcher E objs) rid sk ek opts l levels
    = Some (Inr \<lparr>rr_entries = take n ?vs, rr_next_page_token = ?t, rr_total_bytes = page_bytes (take n ?vs), rr_is_partial = ?t \<noteq> None\<rparr>)"
    using p(1) by (simp add: range_read_def st stop ss(1) Let_def rk_def)
  have "case ?t of None \<Rightarrow> n = length ?vs | Some t \<Rightarrow> 0 < n \<and> ?vs \<noteq> [] \<and> last_composite_key t = mg_composite_key (last (take n ?vs))
      \<and> page_full opts (page_bytes (take n ?vs)) n"
  proof (cases "mi_is_exhausted it' \<or> take n ?vs = []")
    case True
    then have "?t = None" by (simp add: page_token_of_def)
    moreover have "n = length ?vs"
    proof (cases "mi_is_exhausted it'")
      case True
      then show ?thesis using p(3) by blast
    next
      case False
      then have "0 < n" "take n ?vs = []" using p(4) \<open>mi_is_exhausted it' \<or> take n ?vs = []\<close> by blast+
      then have "?vs = []" unfolding take_eq_Nil by (metis less_not_refl)
      then show ?thesis using p(2) unfolding cut_def by (metis le_0_eq list.size(3))
    qed
    ultimately show ?thesis by (simp only: option.case)
  next
    case False
    then have "?vs \<noteq> []" by (metis take_Nil)
    then show ?thesis using False p(4,5) by (simp add: page_token_of_def del: take_eq_Nil filter_empty_conv)
  qed
  then show ?thesis using lst r p(2) by (intro exI [of _ ?vs] exI [of _ n]) (auto simp del: take_eq_Nil)
qed


section \<open>Following the page tokens\<close>

text \<open>A client that passes each page's token to the next request.\<close>

fun read_pages ::
  "nat \<Rightarrow> block_fetcher \<Rightarrow> bytes \<Rightarrow> bytes option \<Rightarrow> bytes option \<Rightarrow> range_read_options \<Rightarrow> memtable_list \<Rightarrow> level_state list
    \<Rightarrow> merge_entry list list option" where
  "read_pages 0 F rid sk ek opts l levels = None"
| "read_pages (Suc n) F rid sk ek opts l levels =
     (case range_read F rid sk ek opts l levels of
        Some (Inr r) \<Rightarrow>
          (case rr_next_page_token r of
             None \<Rightarrow> Some [rr_entries r]
           | Some t \<Rightarrow> map_option ((#) (rr_entries r)) (read_pages n F rid sk ek (opts\<lparr>resume_from := Some t\<rparr>) l levels))
      | _ \<Rightarrow> None)"

definition pages_ok :: "range_read_options \<Rightarrow> merge_entry list list \<Rightarrow> bool" where
  "pages_ok opts pages \<longleftrightarrow>
     (\<forall>p \<in> set pages. \<forall>m. 0 < m \<and> m < length p \<longrightarrow> \<not> page_full opts (page_bytes (take m p)) m)
     \<and> (\<forall>p \<in> set (butlast pages). p \<noteq> [] \<and> page_full opts (page_bytes p) (length p))"

lemma sorted_key_unique:
  fixes f :: "'a \<Rightarrow> 'b :: linorder"
  assumes "sorted_wrt (\<lambda>a b. f a < f b) xs" and "sorted_wrt (\<lambda>a b. f a < f b) ys" and "set xs = set ys"
  shows "xs = ys"
proof -
  have s: "sorted_wrt (<) (map f xs)" "sorted_wrt (<) (map f ys)" using assms(1,2) by (simp_all add: sorted_wrt_map)
  then have "map f xs = map f ys" using assms(3) by (intro strict_sorted_equal) simp_all
  moreover have "inj_on f (set xs)" using s(1) by (simp add: strict_sorted_iff distinct_map)
  ultimately show ?thesis using assms(3) by (intro map_inj_on [of f xs ys]) simp_all
qed

lemma sorted_drop:
  fixes f :: "'a \<Rightarrow> 'b :: linorder"
  assumes "sorted_wrt (\<lambda>a b. f a < f b) xs" and "0 < n" and "xs \<noteq> []"
  shows "set (drop n xs) = {x \<in> set xs. f (last (take n xs)) < f x}"
proof -
  have "take n xs \<noteq> []" using assms(2,3) by simp
  then have l: "last (take n xs) \<in> set (take n xs)" "\<forall>x \<in> set (take n xs). f x \<le> f (last (take n xs))"
  proof -
    have t: "sorted_wrt (\<lambda>a b. f a < f b) (butlast (take n xs) @ [last (take n xs)])"
      using assms(1) \<open>take n xs \<noteq> []\<close> by (simp add: sorted_wrt_take)
    then have "\<forall>x \<in> set (butlast (take n xs) @ [last (take n xs)]). f x \<le> f (last (take n xs))" by (auto simp: sorted_wrt_append intro: less_imp_le)
    then show "\<forall>x \<in> set (take n xs). f x \<le> f (last (take n xs))" unfolding append_butlast_last_id [OF \<open>take n xs \<noteq> []\<close>] .
  qed (rule last_in_set)
  have s: "\<forall>x \<in> set (take n xs). \<forall>y \<in> set (drop n xs). f x < f y"
    using assms(1) sorted_wrt_append [of "\<lambda>a b. f a < f b" "take n xs" "drop n xs"] by simp
  have "x \<in> set xs \<longleftrightarrow> x \<in> set (take n xs) \<or> x \<in> set (drop n xs)" for x by (metis Un_iff append_take_drop_id set_append)
  then show ?thesis using l s by (auto simp: not_less [symmetric])
qed

lemma listing_unique: "listing mem base rid P vs \<Longrightarrow> listing mem base rid P vs' \<Longrightarrow> vs = vs'"
  unfolding listing_def by (intro sorted_key_unique [of mg_composite_key]) auto

lemma listing_drop:
  assumes "listing mem base rid P vs" and "0 < n" and "vs \<noteq> []"
  shows "listing mem base rid (\<lambda>k. P k \<and> mg_composite_key (last (take n vs)) < k) (drop n vs)"
  using assms sorted_drop [of mg_composite_key vs n] by (auto simp: listing_def sorted_wrt_drop)

lemma cut_ok: "cut opts 0 0 vs n \<Longrightarrow> 0 < m \<Longrightarrow> m < length (take n vs) \<Longrightarrow> \<not> page_full opts (page_bytes (take m (take n vs))) m"
  by (auto simp: cut_def min.absorb1)

lemma read_pages_listing:
  assumes b: "ml_built l hs" and lv: "levels_repr E objs levels base" and low: "below_memtables base (concat hs)"
    and stop: "read_stop rid ek = Inr stop"
    and nodel: "\<forall>x \<in> set (concat hs @ base). start \<le> me_composite_key x \<and> me_composite_key x < stop \<longrightarrow> me_entry_type x \<noteq> RangeDelete"
    and "case resume_from opts of None \<Rightarrow> read_start rid sk = Inr start | Some t \<Rightarrow> start \<le> last_composite_key t"
    and "listing (concat hs) base rid (\<lambda>k. start \<le> k \<and> k < stop
        \<and> (case resume_from opts of None \<Rightarrow> True | Some t \<Rightarrow> last_composite_key t < k)) vs"
    and "length vs \<le> fuel"
  shows "\<exists>pages. read_pages (Suc fuel) (direct_fetcher E objs) rid sk ek opts l levels = Some pages \<and> concat pages = vs
    \<and> pages_ok opts pages \<and> pages \<noteq> []"
  using assms(6-8)
proof (induction fuel arbitrary: opts vs rule: less_induct)
  case (less fuel)
  let ?start = "case resume_from opts of None \<Rightarrow> start | Some t \<Rightarrow> last_composite_key t"
  let ?P = "\<lambda>k. start \<le> k \<and> k < stop \<and> (case resume_from opts of None \<Rightarrow> True | Some t \<Rightarrow> last_composite_key t < k)"
  have st: "start \<le> ?start" "case resume_from opts of None \<Rightarrow> read_start rid sk = Inr ?start | Some t \<Rightarrow> ?start = last_composite_key t"
    using less.prems(1) by (simp_all split: option.splits)
  have nd: "\<forall>x \<in> set (concat hs @ base). ?start \<le> me_composite_key x \<and> me_composite_key x < stop \<longrightarrow> me_entry_type x \<noteq> RangeDelete"
    using nodel st(1) by (auto dest: order_trans)
  have eqP: "(\<lambda>k. ?start \<le> k \<and> k < stop \<and> (case map_option last_composite_key (resume_from opts) of None \<Rightarrow> True | Some r \<Rightarrow> r < k)) = ?P"
    using less.prems(1) by (auto simp: fun_eq_iff split: option.splits)
  from range_read_page [OF b lv low st(2) stop nd, unfolded eqP] obtain vs' n r where
    r: "listing (concat hs) base rid ?P vs'" "range_read (direct_fetcher E objs) rid sk ek opts l levels = Some (Inr r)"
      "rr_entries r = take n vs'" "cut opts 0 0 vs' n"
      "case rr_next_page_token r of None \<Rightarrow> n = length vs'
       | Some t \<Rightarrow> 0 < n \<and> vs' \<noteq> [] \<and> last_composite_key t = mg_composite_key (last (take n vs')) \<and> page_full opts (page_bytes (take n vs')) n" by blast
  have vs: "vs' = vs" by (rule listing_unique [OF r(1) less.prems(2)])
  note r = r [unfolded vs]
  show ?case
  proof (cases "rr_next_page_token r")
    case None
    then show ?thesis using r cut_ok [OF r(4)] by (simp add: pages_ok_def)
  next
    case (Some t)
    let ?opts = "opts\<lparr>resume_from := Some t\<rparr>"
    have n: "0 < n" "vs \<noteq> []" "last_composite_key t = mg_composite_key (last (take n vs))" using r(5) Some by simp_all
    have n_le: "n \<le> length vs" using r(4) by (simp add: cut_def)
    have "last (take n vs) \<in> set vs" using n by (metis in_set_takeD last_in_set less_not_refl take_eq_Nil)
    then have P: "?P (last_composite_key t)" using r(1) n(3) by (auto simp: listing_def split: option.splits)
    have l: "listing (concat hs) base rid (\<lambda>k. start \<le> k \<and> k < stop
        \<and> (case resume_from ?opts of None \<Rightarrow> True | Some t \<Rightarrow> last_composite_key t < k)) (drop n vs)"
    proof -
      have "(\<lambda>k. ?P k \<and> mg_composite_key (last (take n vs)) < k)
          = (\<lambda>k. start \<le> k \<and> k < stop \<and> (case resume_from ?opts of None \<Rightarrow> True | Some t \<Rightarrow> last_composite_key t < k))"
        using P unfolding n(3) by (auto simp: fun_eq_iff n(3) split: option.splits)
      then show ?thesis using listing_drop [OF r(1) n(1,2)] by simp
    qed
    obtain f where f: "fuel = Suc f" "length (drop n vs) \<le> f" using less.prems(3) n by (cases fuel) auto
    from less.IH [of f ?opts "drop n vs"] f P l obtain pages where
      pages: "read_pages (Suc f) (direct_fetcher E objs) rid sk ek ?opts l levels = Some pages" "concat pages = drop n vs"
        "pages_ok ?opts pages" "pages \<noteq> []" by auto
    have pf: "page_full ?opts = page_full opts" by (simp add: page_full_def fun_eq_iff)
    have "page_full opts (page_bytes (take n vs)) (length (take n vs))" using r(5) Some n_le by (simp add: min.absorb2)
    moreover have "take n vs \<noteq> []" using n by simp
    ultimately have "pages_ok opts (take n vs # pages)"
      using pages(3,4) cut_ok [OF r(4)] unfolding pages_ok_def pf by auto
    then show ?thesis using r(2,3) Some pages f(1) by simp
  qed
qed


text \<open>C10: paginated range reads. Over memtables and SSTables with no range deletion among the keys of the range, and where every SSTable keeps the versions of each key in one block
  (otherwise a scan may start behind the newest version of its first key), repeating
  \<open>range_read\<close> with the token of the page before ends after at most one page more than there are visible entries, never
  fails, and the pages put together are exactly the visible entries of the record in the range, each once and in
  key order. Every page but the last is full by bytes or item count, and no page goes on after it is full.\<close>
theorem range_read_pages_complete:
  assumes b: "ml_built l hs" and lv: "levels_hold E objs levels base" "unsplit_levels E objs levels" and low: "below_memtables base (concat hs)"
    and ends: "read_start rid sk = Inr start" "read_stop rid ek = Inr stop" and first: "resume_from opts = None"
    and nodel: "\<forall>x \<in> set (concat hs @ base). start \<le> me_composite_key x \<and> me_composite_key x < stop \<longrightarrow> me_entry_type x \<noteq> RangeDelete"
  shows "\<exists>vs pages. listing (concat hs) base rid (\<lambda>k. start \<le> k \<and> k < stop) vs
    \<and> read_pages (Suc (length vs)) (direct_fetcher E objs) rid sk ek opts l levels = Some pages
    \<and> concat pages = vs \<and> pages_ok opts pages"
proof -
  have st: "case resume_from opts of None \<Rightarrow> read_start rid sk = Inr start | Some t \<Rightarrow> start = last_composite_key t"
    "case resume_from opts of None \<Rightarrow> read_start rid sk = Inr start | Some t \<Rightarrow> start \<le> last_composite_key t"
    using ends(1) first by simp_all
  have lr: "levels_repr E objs levels base" using lv by (simp add: levels_repr_unsplit)
  obtain vs where "listing (concat hs) base rid (\<lambda>k. start \<le> k \<and> k < stop) vs"
    using range_read_page [OF b lr low st(1) ends(2) nodel] first by auto
  then show ?thesis
    using read_pages_listing [OF b lr low ends(2) nodel st(2), of vs "length vs"] first by auto
qed

theorem range_read_pages_complete_witness:
  "\<exists>objs levels pages. read_pages 2 (direct_fetcher sample_codecs objs) [1] None None range_read_options_default
     (ml_new (\<lambda>_. 1) 0 memtable_config_default 2) levels = Some pages
     \<and> concat pages = [mg_from_memtable_entry (sample_entry [5] [7] 1)]"
proof -
  let ?e = "sample_entry [5] [7] 1" and ?l = "ml_new (\<lambda>_. 1) 0 memtable_config_default 2"
  obtain objs h where lv: "levels_repr sample_codecs objs [\<lparr>ls_level = L0, ls_handles = [h]\<rparr>] [?e]" using one_entry_level by blast
  have k: "me_composite_key ?e = CompositeKey [1, 0, 5]" "me_entry_type ?e = Put" by (simp_all add: sample_entry_def me_with_sequence_def)
  have b: "read_start [1] None = Inr (CompositeKey [1, 0])" "read_stop [1] None = Inr (CompositeKey [1, 0, 255])"
    by (simp_all add: read_start_def read_stop_def min_key_for_record_def max_key_for_record_def from_record_only_def
        ck_new_def validate_record_id_def validate_item_key_def MAX_RECORD_ID_LEN_def MAX_ITEM_KEY_LEN_def ck_encode_def SEPARATOR_def
        RANGE_TOMBSTONE_PREFIX_def)
  have nd: "\<forall>x \<in> set (concat [[]] @ [?e]). CompositeKey [1, 0] \<le> me_composite_key x \<and> me_composite_key x < CompositeKey [1, 0, 255] \<longrightarrow> me_entry_type x \<noteq> RangeDelete"
    using k by simp
  have low: "below_memtables [?e] (concat [[]])" by (simp add: below_memtables_def)
  have r: "resume_from range_read_options_default = None" by (simp add: range_read_options_default_def)
  obtain vs pages where vp: "listing (concat [[]]) [?e] [1] (\<lambda>k. CompositeKey [1, 0] \<le> k \<and> k < CompositeKey [1, 0, 255]) vs"
    "read_pages (Suc (length vs)) (direct_fetcher sample_codecs objs) [1] None None range_read_options_default ?l [\<lparr>ls_level = L0, ls_handles = [h]\<rparr>] = Some pages"
    "concat pages = vs" "pages_ok range_read_options_default pages"
    using range_read_pages_complete [OF ml_built.new lv [unfolded levels_repr_unsplit, THEN conjunct1] lv [unfolded levels_repr_unsplit, THEN conjunct2] low b r nd] by blast
  have "listing (concat [[]]) [?e] [1] (\<lambda>k. CompositeKey [1, 0] \<le> k \<and> k < CompositeKey [1, 0, 255]) [mg_from_memtable_entry ?e]"
  proof -
    have "{e. visible (concat [[]]) [?e] (me_composite_key e) e \<and> me_rid e = [1]
        \<and> CompositeKey [1, 0] \<le> me_composite_key e \<and> me_composite_key e < CompositeKey [1, 0, 255]} = {?e}"
      using k by (auto simp: visible_def history_covers_def less_eq_composite_key_def less_composite_key_def record_id_def SEPARATOR_def)
    then show ?thesis by (simp add: listing_def)
  qed
  from listing_unique [OF vp(1) this] have vs: "vs = [mg_from_memtable_entry ?e]" .
  then show ?thesis using vp(2,3) by (auto simp: numeral_2_eq_2)
qed

end
