(* ===== verification/Manifest_Manager.thy ===== *)
theory Manifest_Manager
  imports Manifest
begin

text \<open>
  \<^verbatim>\<open>manifest/manager.rs\<close>: a manager keeps the manifest it last saw and commits an update by a conditional put of
  the next manifest, retrying after a refresh when another manager took the number. The first part has the
  operations on a store nobody else touches meanwhile; the second interleaves any number of managers between
  the calls to the store. Operations that can fail after changing the manager return its state with the error.
\<close>

record manifest_manager =
  mm_current :: manifest
  mm_config :: manifest_config
  mm_namespace :: string
  mm_writer_epoch :: u64
  mm_compactor_epoch :: u64

definition MAX_CAS_RETRIES :: nat where
  "MAX_CAS_RETRIES = 5"

definition mm_new :: "u64 \<Rightarrow> string \<Rightarrow> manifest_config \<Rightarrow> manifest_manager" where
  "mm_new now namespace config = \<lparr>mm_current = mf_new_empty now namespace, mm_config = config, mm_namespace = namespace,
     mm_writer_epoch = 0, mm_compactor_epoch = 0\<rparr>"

definition mm_path :: "manifest_manager \<Rightarrow> manifest_id \<Rightarrow> string" where
  "mm_path mm i = manifest_path (base_path (mm_config mm)) (mm_namespace mm) i"

definition mm_prefix :: "manifest_manager \<Rightarrow> string" where
  "mm_prefix mm = manifest_prefix (base_path (mm_config mm)) (mm_namespace mm)"

section \<open>Loading\<close>

text \<open>The two branches of \<^verbatim>\<open>load_latest\<close>: the first manifest of a fresh namespace, and the newest one listed.\<close>

text \<open>The initial manifest: the conditional put, and the read of the manifest of a writer who was first.\<close>

definition mm_init_put ::
  "manifest_json \<Rightarrow> u64 \<Rightarrow> manifest_manager \<Rightarrow> objects \<Rightarrow> (manifest_manager option \<times> objects) flush_result" where
  "mm_init_put J now mm objs =
     (let m = mf_new_empty now (mm_namespace mm)
      in bind_res (mf_serialize J m) (\<lambda>data.
         case fs_conditional_put (mm_path mm 0) data objs of
           Inr objs' \<Rightarrow> Inr (Some (mm\<lparr>mm_current := m\<rparr>), objs')
         | Inl (PreconditionFailed _) \<Rightarrow> Inr (None, objs)
         | Inl e \<Rightarrow> Inl e))"

definition mm_init_get :: "manifest_json \<Rightarrow> manifest_manager \<Rightarrow> objects \<Rightarrow> manifest_manager flush_result" where
  "mm_init_get J mm objs =
     bind_res (fs_get (mm_path mm 0) objs) (\<lambda>stored.
     bind_res (mf_deserialize J stored) (\<lambda>m. Inr (mm\<lparr>mm_current := m\<rparr>)))"

definition mm_init :: "manifest_json \<Rightarrow> u64 \<Rightarrow> manifest_manager \<Rightarrow> objects \<Rightarrow> (manifest_manager \<times> objects) flush_result" where
  "mm_init J now mm objs =
     bind_res (mm_init_put J now mm objs) (\<lambda>(first, objs').
       case first of
         Some mm' \<Rightarrow> Inr (mm', objs')
       | None \<Rightarrow> bind_res (mm_init_get J mm objs') (\<lambda>mm'. Inr (mm', objs')))"

definition mm_read :: "manifest_json \<Rightarrow> string \<Rightarrow> manifest_manager \<Rightarrow> objects \<Rightarrow> manifest_manager flush_result" where
  "mm_read J last_path mm objs =
     bind_res (mid_from_path_string (path_file_name last_path)) (\<lambda>highest_id.
     bind_res (fs_get (mm_path mm highest_id) objs) (\<lambda>data.
     bind_res (mf_deserialize J data) (\<lambda>m.
       if mf_format_version m \<noteq> 1 then Inl (CorruptedData ''unsupported manifest format_version'')
       else Inr (mm\<lparr>mm_current := m\<rparr>))))"

definition mm_load_latest :: "manifest_json \<Rightarrow> u64 \<Rightarrow> manifest_manager \<Rightarrow> objects \<Rightarrow> (manifest_manager \<times> objects) flush_result" where
  "mm_load_latest J now mm objs =
     (let entries = fs_list_prefix (mm_prefix mm) objs
      in if entries = [] then mm_init J now mm objs
         else bind_res (mm_read J (last entries) mm objs) (\<lambda>mm'. Inr (mm', objs)))"

definition mm_load_specific :: "manifest_json \<Rightarrow> manifest_id \<Rightarrow> manifest_manager \<Rightarrow> objects \<Rightarrow> manifest_manager flush_result" where
  "mm_load_specific J i mm objs =
     bind_res (fs_get (mm_path mm i) objs) (\<lambda>data.
     bind_res (mf_deserialize J data) (\<lambda>m. Inr (mm\<lparr>mm_current := m\<rparr>)))"

section \<open>Validation\<close>

definition check_writer_epoch :: "manifest_manager \<Rightarrow> unit flush_result" where
  "check_writer_epoch mm =
     (if mf_writer_epoch (mm_current mm) > mm_writer_epoch mm
      then Inl (EpochFenced (mm_writer_epoch mm) (mf_writer_epoch (mm_current mm))) else Inr ())"

definition check_compactor_epoch :: "manifest_manager \<Rightarrow> unit flush_result" where
  "check_compactor_epoch mm =
     (if mf_compactor_epoch (mm_current mm) > mm_compactor_epoch mm
      then Inl (EpochFenced (mm_compactor_epoch mm) (mf_compactor_epoch (mm_current mm))) else Inr ())"

definition validate_epoch :: "manifest_update \<Rightarrow> manifest_manager \<Rightarrow> unit flush_result" where
  "validate_epoch u mm =
     (case mu_trigger u of
        Flush \<Rightarrow> check_writer_epoch mm
      | Compaction \<Rightarrow> check_compactor_epoch mm
      | GC \<Rightarrow> Inr ())"

definition listed :: "manifest \<Rightarrow> level \<Rightarrow> string \<Rightarrow> bool" where
  "listed m l i = list_ex (\<lambda>s. sm_id s = i) (sstables_at_level l m)"

definition validate_update :: "manifest_update \<Rightarrow> manifest_manager \<Rightarrow> unit flush_result" where
  "validate_update u mm =
     (if \<not> list_all (\<lambda>(l, i). listed (mm_current mm) l i) (mu_remove_sstables u)
      then Inl (InvalidArgument ''SSTable not found at level'')
      else if list_ex (\<lambda>(l, m). listed (mm_current mm) l (sm_id m)) (mu_add_sstables u)
      then Inl (InvalidArgument ''SSTable already exists at level'')
      else case mu_new_last_flushed_sequence u of
             None \<Rightarrow> Inr ()
           | Some seq \<Rightarrow> if seq < mf_last_flushed_sequence (mm_current mm)
                         then Inl (InvalidArgument ''last_flushed_sequence cannot decrease'') else Inr ())"

text \<open>What the retry checks again after its refresh.\<close>

definition revalidate :: "manifest_update \<Rightarrow> manifest_manager \<Rightarrow> unit flush_result" where
  "revalidate u mm =
     bind_res (validate_epoch u mm) (\<lambda>_.
       if \<not> list_all (\<lambda>(l, i). listed (mm_current mm) l i) (mu_remove_sstables u)
       then Inl (InvalidArgument ''SSTable was consumed by concurrent operation'') else Inr ())"

section \<open>Committing\<close>

definition should_snapshot_manifest :: "manifest_json \<Rightarrow> manifest_manager \<Rightarrow> manifest \<Rightarrow> bool" where
  "should_snapshot_manifest J mm m =
     (let i = mf_manifest_id m
      in if i > 0 \<and> unat (snapshot_interval (mm_config mm)) dvd unat i then True
         else case mf_serialize J m of
                Inr data \<Rightarrow> length data > max_manifest_size (mm_config mm)
              | Inl _ \<Rightarrow> False)"

text \<open>One attempt: apply, serialize, conditional put. Epoch acquisition does the same without the snapshot
  test.\<close>

definition mm_attempt ::
  "manifest_json \<Rightarrow> bool \<Rightarrow> u64 \<Rightarrow> manifest_update \<Rightarrow> manifest_manager \<Rightarrow> objects \<Rightarrow> (manifest_manager \<times> objects) flush_result" where
  "mm_attempt J snapshots now u mm objs =
     bind_res (mu_apply now u (mm_current mm)) (\<lambda>new_manifest.
       let to_write = (if snapshots \<and> should_snapshot_manifest J mm new_manifest
                       then new_manifest\<lparr>mf_is_snapshot := True\<rparr> else new_manifest)
       in bind_res (mf_serialize J to_write) (\<lambda>serialized.
          bind_res (fs_conditional_put (mm_path mm (mf_manifest_id to_write)) serialized objs) (\<lambda>objs'.
          Inr (mm\<lparr>mm_current := to_write\<rparr>, objs'))))"

fun update_loop ::
  "manifest_json \<Rightarrow> (nat \<Rightarrow> u64) \<Rightarrow> manifest_update \<Rightarrow> nat \<Rightarrow> manifest_manager \<Rightarrow> objects
    \<Rightarrow> unit flush_result \<times> manifest_manager \<times> objects" where
  "update_loop J clock u 0 mm objs = (Inl (InvalidArgument ''unreachable''), mm, objs)"
| "update_loop J clock u (Suc n) mm objs =
     (case mm_attempt J True (clock n) u mm objs of
        Inr (mm', objs') \<Rightarrow> (Inr (), mm', objs')
      | Inl (PreconditionFailed _) \<Rightarrow>
          if n = 0 then (Inl (ResourceExhausted ''manifest CAS'' ''exceeded CAS retries''), mm, objs)
          else (case mm_load_latest J (clock n) mm objs of
                  Inl e \<Rightarrow> (Inl e, mm, objs)
                | Inr (mm', objs') \<Rightarrow>
                    (case revalidate u mm' of
                       Inl e \<Rightarrow> (Inl e, mm', objs')
                     | Inr _ \<Rightarrow> update_loop J clock u n mm' objs'))
      | Inl e \<Rightarrow> (Inl e, mm, objs))"

definition mm_update ::
  "manifest_json \<Rightarrow> (nat \<Rightarrow> u64) \<Rightarrow> manifest_update \<Rightarrow> manifest_manager \<Rightarrow> objects
    \<Rightarrow> unit flush_result \<times> manifest_manager \<times> objects" where
  "mm_update J clock u mm objs =
     (case validate_epoch u mm of
        Inl e \<Rightarrow> (Inl e, mm, objs)
      | Inr _ \<Rightarrow>
          (case validate_update u mm of
             Inl e \<Rightarrow> (Inl e, mm, objs)
           | Inr _ \<Rightarrow> update_loop J clock u MAX_CAS_RETRIES mm objs))"

definition writer_epoch_update :: "manifest \<Rightarrow> manifest_update" where
  "writer_epoch_update m = \<lparr>mu_trigger = Flush, mu_add_sstables = [], mu_remove_sstables = [], mu_new_last_flushed_sequence = None,
     mu_writer_epoch = mf_writer_epoch m + 1, mu_compactor_epoch = mf_compactor_epoch m\<rparr>"

definition compactor_epoch_update :: "manifest \<Rightarrow> manifest_update" where
  "compactor_epoch_update m = \<lparr>mu_trigger = Compaction, mu_add_sstables = [], mu_remove_sstables = [], mu_new_last_flushed_sequence = None,
     mu_writer_epoch = mf_writer_epoch m, mu_compactor_epoch = mf_compactor_epoch m + 1\<rparr>"

definition acquire_writer_epoch ::
  "manifest_json \<Rightarrow> u64 \<Rightarrow> manifest_manager \<Rightarrow> objects \<Rightarrow> u64 flush_result \<times> manifest_manager \<times> objects" where
  "acquire_writer_epoch J now mm objs =
     (case mm_load_latest J now mm objs of
        Inl e \<Rightarrow> (Inl e, mm, objs)
      | Inr (mm, objs) \<Rightarrow>
          (let u = writer_epoch_update (mm_current mm)
           in case mm_attempt J False now u mm objs of
                Inl e \<Rightarrow> (Inl e, mm, objs)
              | Inr (mm', objs') \<Rightarrow> (Inr (mu_writer_epoch u), mm'\<lparr>mm_writer_epoch := mu_writer_epoch u\<rparr>, objs')))"

definition acquire_compactor_epoch ::
  "manifest_json \<Rightarrow> u64 \<Rightarrow> manifest_manager \<Rightarrow> objects \<Rightarrow> u64 flush_result \<times> manifest_manager \<times> objects" where
  "acquire_compactor_epoch J now mm objs =
     (case mm_load_latest J now mm objs of
        Inl e \<Rightarrow> (Inl e, mm, objs)
      | Inr (mm, objs) \<Rightarrow>
          (let u = compactor_epoch_update (mm_current mm)
           in case mm_attempt J False now u mm objs of
                Inl e \<Rightarrow> (Inl e, mm, objs)
              | Inr (mm', objs') \<Rightarrow> (Inr (mu_compactor_epoch u), mm'\<lparr>mm_compactor_epoch := mu_compactor_epoch u\<rparr>, objs')))"

section \<open>Pruning\<close>

fun snapshot_ids :: "manifest_json \<Rightarrow> manifest_manager \<Rightarrow> objects \<Rightarrow> string list \<Rightarrow> manifest_id list" where
  "snapshot_ids J mm objs [] = []"
| "snapshot_ids J mm objs (entry_path # es) =
     (case mid_from_path_string (path_file_name entry_path) of
        Inl _ \<Rightarrow> snapshot_ids J mm objs es
      | Inr i \<Rightarrow>
          (case bind_res (fs_get (mm_path mm i) objs) (mf_deserialize J) of
             Inl _ \<Rightarrow> snapshot_ids J mm objs es
           | Inr m \<Rightarrow> if mf_is_snapshot m then i # snapshot_ids J mm objs es else snapshot_ids J mm objs es))"

definition prunable :: "manifest_id \<Rightarrow> manifest_id \<Rightarrow> string \<Rightarrow> bool" where
  "prunable cutoff current_id entry_path =
     (case mid_from_path_string (path_file_name entry_path) of
        Inl _ \<Rightarrow> False
      | Inr i \<Rightarrow> i < cutoff \<and> i \<noteq> current_id)"

text \<open>\<^verbatim>\<open>chunks\<close> panics on a batch size of zero, which the model returns as an error.\<close>

definition prune_old_manifests :: "manifest_json \<Rightarrow> manifest_manager \<Rightarrow> objects \<Rightarrow> (nat \<times> objects) flush_result" where
  "prune_old_manifests J mm objs =
     (let entries = fs_list_prefix (mm_prefix mm) objs
      in if length entries \<le> 2 then Inr (0, objs)
         else let ids = sort (snapshot_ids J mm objs entries)
              in if length ids < 2 then Inr (0, objs)
                 else let cutoff = ids ! (length ids - 2);
                          to_delete = filter (prunable cutoff (mf_manifest_id (mm_current mm))) entries
                      in if pruning_batch_size (mm_config mm) = 0
                         then Inl (InvalidArgument ''chunk size must be non-zero'')
                         else Inr (length to_delete, fold fs_delete to_delete objs))"

end
