(* ===== verification/Manifest_Cluster.thy ===== *)
theory Manifest_Cluster
  imports Manifest_Manager "HOL-Library.Countable"
begin

text \<open>
  Several managers of one namespace on one store. Every call to the store is one step of one manager, so
  the steps of \<^verbatim>\<open>load_latest\<close>, \<^verbatim>\<open>update\<close> and the epoch acquisitions of different managers interleave in
  every way. The history lists the updates whose conditional put succeeded, in that order.
\<close>

section \<open>Managers between calls to the store\<close>

datatype task = Load | Retry manifest_update nat | Acquire_writer | Acquire_compactor

datatype phase = Idle | Listing task | Initing task | Beaten task | Reading task string | Trying manifest_update nat
  | Acquiring_writer | Acquiring_compactor

record proc =
  pr_mm :: manifest_manager
  pr_loaded :: bool
  pr_phase :: phase

fun after_load :: "task \<Rightarrow> manifest_manager \<Rightarrow> phase" where
  "after_load Load mm = Idle"
| "after_load (Retry u n) mm = (case revalidate u mm of Inl _ \<Rightarrow> Idle | Inr _ \<Rightarrow> Trying u n)"
| "after_load Acquire_writer mm = Acquiring_writer"
| "after_load Acquire_compactor mm = Acquiring_compactor"

type_synonym commit = "u64 \<times> manifest_update"

definition loaded_as :: "task \<Rightarrow> manifest_manager \<Rightarrow> proc \<Rightarrow> proc" where
  "loaded_as t mm p = p\<lparr>pr_mm := mm, pr_loaded := True, pr_phase := after_load t mm\<rparr>"

fun phase_step :: "manifest_json \<Rightarrow> u64 \<Rightarrow> phase \<Rightarrow> proc \<Rightarrow> objects \<Rightarrow> proc \<times> objects \<times> commit list" where
  "phase_step J now Idle p objs = (p, objs, [])"
| "phase_step J now (Listing t) p objs =
     (let entries = fs_list_prefix (mm_prefix (pr_mm p)) objs
      in (p\<lparr>pr_phase := (if entries = [] then Initing t else Reading t (last entries))\<rparr>, objs, []))"
| "phase_step J now (Initing t) p objs =
     (case mm_init_put J now (pr_mm p) objs of
        Inl _ \<Rightarrow> (p\<lparr>pr_phase := Idle\<rparr>, objs, [])
      | Inr (Some mm, objs') \<Rightarrow> (loaded_as t mm p, objs', [])
      | Inr (None, objs') \<Rightarrow> (p\<lparr>pr_phase := Beaten t\<rparr>, objs', []))"
| "phase_step J now (Beaten t) p objs =
     (case mm_init_get J (pr_mm p) objs of
        Inl _ \<Rightarrow> (p\<lparr>pr_phase := Idle\<rparr>, objs, [])
      | Inr mm \<Rightarrow> (loaded_as t mm p, objs, []))"
| "phase_step J now (Reading t path) p objs =
     (case mm_read J path (pr_mm p) objs of
        Inl _ \<Rightarrow> (p\<lparr>pr_phase := Idle\<rparr>, objs, [])
      | Inr mm \<Rightarrow> (loaded_as t mm p, objs, []))"
| "phase_step J now (Trying u n) p objs =
     (case mm_attempt J True now u (pr_mm p) objs of
        Inr (mm, objs') \<Rightarrow> (p\<lparr>pr_mm := mm, pr_phase := Idle\<rparr>, objs', [(now, u)])
      | Inl (PreconditionFailed _) \<Rightarrow> (p\<lparr>pr_phase := (if n \<le> 1 then Idle else Listing (Retry u (n - 1)))\<rparr>, objs, [])
      | Inl _ \<Rightarrow> (p\<lparr>pr_phase := Idle\<rparr>, objs, []))"
| "phase_step J now Acquiring_writer p objs =
     (let u = writer_epoch_update (mm_current (pr_mm p))
      in case mm_attempt J False now u (pr_mm p) objs of
           Inr (mm, objs') \<Rightarrow> (p\<lparr>pr_mm := mm\<lparr>mm_writer_epoch := mu_writer_epoch u\<rparr>, pr_phase := Idle\<rparr>, objs', [(now, u)])
         | Inl _ \<Rightarrow> (p\<lparr>pr_phase := Idle\<rparr>, objs, []))"
| "phase_step J now Acquiring_compactor p objs =
     (let u = compactor_epoch_update (mm_current (pr_mm p))
      in case mm_attempt J False now u (pr_mm p) objs of
           Inr (mm, objs') \<Rightarrow> (p\<lparr>pr_mm := mm\<lparr>mm_compactor_epoch := mu_compactor_epoch u\<rparr>, pr_phase := Idle\<rparr>, objs', [(now, u)])
         | Inl _ \<Rightarrow> (p\<lparr>pr_phase := Idle\<rparr>, objs, []))"

definition proc_step :: "manifest_json \<Rightarrow> u64 \<Rightarrow> proc \<Rightarrow> objects \<Rightarrow> proc \<times> objects \<times> commit list" where
  "proc_step J now p objs = phase_step J now (pr_phase p) p objs"

definition fresh_proc :: "u64 \<Rightarrow> string \<Rightarrow> manifest_config \<Rightarrow> proc" where
  "fresh_proc now ns config = \<lparr>pr_mm = mm_new now ns config, pr_loaded = False, pr_phase = Idle\<rparr>"

definition no_manifest :: "manifest_config \<Rightarrow> string \<Rightarrow> objects \<Rightarrow> bool" where
  "no_manifest config ns objs = (\<not> list_ex (starts_with (manifest_prefix (base_path config) ns)) (map fst objs))"

text \<open>An update starts on a loaded manager after its validation; manifest numbers do not wrap; other components
  write elsewhere in the store.\<close>

inductive cluster :: "manifest_json \<Rightarrow> manifest_config \<Rightarrow> string \<Rightarrow> objects \<Rightarrow> (nat \<Rightarrow> proc) \<Rightarrow> commit list \<Rightarrow> bool"
  for J config ns where
  start: "no_manifest config ns objs \<Longrightarrow> cluster J config ns objs (\<lambda>i. fresh_proc (now i) ns config) []"
| refresh: "\<lbrakk>cluster J config ns objs ps h; pr_phase (ps i) = Idle; t \<in> {Load, Acquire_writer, Acquire_compactor}\<rbrakk> \<Longrightarrow>
    cluster J config ns objs (ps(i := (ps i)\<lparr>pr_phase := Listing t\<rparr>)) h"
| update: "\<lbrakk>cluster J config ns objs ps h; pr_phase (ps i) = Idle; pr_loaded (ps i);
    validate_epoch u (pr_mm (ps i)) = Inr (); validate_update u (pr_mm (ps i)) = Inr ()\<rbrakk> \<Longrightarrow>
    cluster J config ns objs (ps(i := (ps i)\<lparr>pr_phase := Trying u MAX_CAS_RETRIES\<rparr>)) h"
| step: "\<lbrakk>cluster J config ns objs ps h; mf_manifest_id (mm_current (pr_mm (ps i))) \<noteq> - 1;
    proc_step J now (ps i) objs = (p, objs', c)\<rbrakk> \<Longrightarrow> cluster J config ns objs' (ps(i := p)) (h @ c)"
| put: "\<lbrakk>cluster J config ns objs ps h; \<not> starts_with (manifest_prefix (base_path config) ns) key\<rbrakk> \<Longrightarrow>
    cluster J config ns (fs_put key v objs) ps h"
| del: "\<lbrakk>cluster J config ns objs ps h; \<not> starts_with (manifest_prefix (base_path config) ns) key\<rbrakk> \<Longrightarrow>
    cluster J config ns (fs_delete key objs) ps h"

section \<open>The chain of manifests\<close>

definition commits :: "commit \<Rightarrow> manifest \<Rightarrow> manifest \<Rightarrow> bool" where
  "commits c m m' \<longleftrightarrow> (\<exists>m1. mu_apply (fst c) (snd c) m = Inr m1 \<and> (m' = m1 \<or> m' = m1\<lparr>mf_is_snapshot := True\<rparr>))"

inductive manifest_chain :: "string \<Rightarrow> manifest list \<Rightarrow> commit list \<Rightarrow> bool" for ns where
  nothing: "manifest_chain ns [] []"
| first: "manifest_chain ns [mf_new_empty now ns] []"
| extend: "\<lbrakk>manifest_chain ns ms h; ms \<noteq> []; commits c (last ms) m'\<rbrakk> \<Longrightarrow> manifest_chain ns (ms @ [m']) (h @ [c])"

definition json_ok :: "manifest_json \<Rightarrow> bool" where
  "json_ok J \<longleftrightarrow> (\<forall>m. \<exists>d. to_json J m = Some d \<and> from_json J d = Some m)"

lemma commits_id: "commits c m m' \<Longrightarrow> mf_manifest_id m' = mf_manifest_id m + 1 \<and> mf_format_version m' = mf_format_version m"
  by (auto simp: commits_def mu_apply_def Let_def mid_next_def split: option.splits if_splits)

lemma chain_ids:
  "manifest_chain ns ms h \<Longrightarrow> i < length ms \<Longrightarrow> mf_manifest_id (ms ! i) = of_nat i \<and> mf_format_version (ms ! i) = 1"
proof (induction arbitrary: i rule: manifest_chain.induct)
  case (first now)
  then show ?case by (simp add: mf_new_empty_def)
next
  case (extend ms h c m')
  have l: "mf_manifest_id (last ms) = of_nat (length ms - 1)" "mf_format_version (last ms) = 1"
    using extend.IH [of "length ms - 1"] extend.hyps(2) by (simp_all add: last_conv_nth)
  have "of_nat (length ms - 1) + 1 = (of_nat (length ms) :: u64)"
    using extend.hyps(2) by (cases ms) simp_all
  then have "mf_manifest_id m' = of_nat (length ms)" "mf_format_version m' = 1"
    using commits_id [OF extend.hyps(3)] l by simp_all
  then show ?case using extend.IH extend.prems by (cases "i < length ms") (auto simp: nth_append less_Suc_eq)
qed simp

lemma chain_length: "manifest_chain ns ms h \<Longrightarrow> length ms \<le> Suc (length h) \<and> (ms \<noteq> [] \<longrightarrow> length ms = Suc (length h))"
  by (induction rule: manifest_chain.induct) auto

section \<open>Paths of manifests\<close>

lemma digit_char_no_slash: "d < 10 \<Longrightarrow> digit_char d \<noteq> CHR ''/''"
proof
  assume "d < 10" "digit_char d = CHR ''/''"
  then have "(of_char (digit_char d) :: nat) = of_char (CHR ''/'')" by simp
  with \<open>d < 10\<close> show False by (simp add: digit_char_def)
qed

lemma dec_no_slash: "CHR ''/'' \<notin> set (dec n)"
proof (induction n rule: dec.induct)
  case (1 n)
  have "CHR ''/'' \<noteq> digit_char (n mod 10)" "n < 10 \<Longrightarrow> CHR ''/'' \<noteq> digit_char n"
    using digit_char_no_slash [of "n mod 10"] digit_char_no_slash [of n] by auto
  with 1 show ?case by (subst dec.simps) simp
qed

lemma mid_no_slash: "CHR ''/'' \<notin> set (mid_to_path_string i)"
  by (simp add: mid_to_path_string_def pad0_def dec_no_slash)

lemma mid_digits: "unat (i :: u64) < 2 ^ 64" "unat (i :: u64) < 10 ^ 20"
proof -
  show "unat i < 2 ^ 64" using unsigned_less [of i, where 'a = nat] by simp
  then show "unat i < 10 ^ 20" by simp
qed

lemma mid_roundtrip [simp]: "mid_from_path_string (mid_to_path_string i) = Inr i"
  using length_pad0 [OF mid_digits(2), of i] parse_u64_pad0 [OF mid_digits(1), of 20 i]
  by (simp add: mid_from_path_string_def mid_to_path_string_def)

lemma takeWhile_no: "x \<notin> set ys \<Longrightarrow> takeWhile (\<lambda>c. c \<noteq> x) (ys @ x # zs) = ys"
  by (subst takeWhile_append2) auto

lemma path_file_name_append: "CHR ''/'' \<notin> set f \<Longrightarrow> path_file_name (d @ ''/'' @ f) = f"
  using takeWhile_no [of "CHR ''/''" "rev f" "rev d"] by (simp add: path_file_name_def)

lemma manifest_file_name [simp]: "path_file_name (manifest_path b ns i) = mid_to_path_string i"
  using path_file_name_append [OF mid_no_slash, of "b @ ''/'' @ ns @ ''/manifests''" i] by (simp add: manifest_path_def)

lemma manifest_path_prefix: "manifest_path b ns i = manifest_prefix b ns @ mid_to_path_string i"
  by (simp add: manifest_path_def manifest_prefix_def)

lemma starts_manifest_path [simp]: "starts_with (manifest_prefix b ns) (manifest_path b ns i)"
  by (simp add: manifest_path_prefix starts_with_def)

lemma manifest_path_inject [simp]: "manifest_path b ns i = manifest_path b ns j \<longleftrightarrow> i = j"
proof
  assume "manifest_path b ns i = manifest_path b ns j"
  then have "mid_from_path_string (mid_to_path_string i) = mid_from_path_string (mid_to_path_string j)"
    by (simp add: manifest_path_prefix)
  then show "i = j" by simp
qed simp

lemma manifest_path_less: "manifest_path b ns i < manifest_path b ns j \<longleftrightarrow> i < j"
  using pad0_less [OF mid_digits(2) [of i] mid_digits(2) [of j]]
  by (simp add: manifest_path_prefix mid_to_path_string_def word_less_nat_alt)

lemma manifest_name_visible [simp]: "\<not> starts_with ''.tmp.'' (mid_to_path_string i)"
proof
  assume "starts_with ''.tmp.'' (mid_to_path_string i)"
  then obtain s where "mid_to_path_string i = CHR ''.'' # s" by (cases "mid_to_path_string i") (auto simp: starts_with_def)
  then have "parse_digits 0 (CHR ''.'' # s) = Some (unat i)"
    using parse_digits_pad0 [of 20 "unat i"] by (simp add: mid_to_path_string_def)
  then show False by (simp add: digit_val_def)
qed

section \<open>The invariant\<close>

definition chain_stored :: "manifest_json \<Rightarrow> manifest_config \<Rightarrow> string \<Rightarrow> manifest list \<Rightarrow> objects \<Rightarrow> bool" where
  "chain_stored J config ns ms objs \<longleftrightarrow> length ms \<le> 2 ^ 64
     \<and> (\<forall>k. starts_with (manifest_prefix (base_path config) ns) k \<longrightarrow>
          (map_of objs k \<noteq> None \<longleftrightarrow> (\<exists>i < length ms. k = manifest_path (base_path config) ns (of_nat i))))
     \<and> (\<forall>i < length ms. \<exists>d. map_of objs (manifest_path (base_path config) ns (of_nat i)) = Some d \<and> from_json J d = Some (ms ! i))"

definition manager_of :: "manifest_config \<Rightarrow> string \<Rightarrow> manifest_manager \<Rightarrow> bool" where
  "manager_of config ns mm \<longleftrightarrow> mm_config mm = config \<and> mm_namespace mm = ns"

fun phase_ok :: "manifest_config \<Rightarrow> string \<Rightarrow> nat \<Rightarrow> bool \<Rightarrow> phase \<Rightarrow> bool" where
  "phase_ok config ns n loaded (Reading t path) \<longleftrightarrow> (\<exists>i < n. path = manifest_path (base_path config) ns (of_nat i))"
| "phase_ok config ns n loaded (Beaten t) \<longleftrightarrow> 0 < n"
| "phase_ok config ns n loaded (Trying u k) \<longleftrightarrow> loaded"
| "phase_ok config ns n loaded Acquiring_writer \<longleftrightarrow> loaded"
| "phase_ok config ns n loaded Acquiring_compactor \<longleftrightarrow> loaded"
| "phase_ok config ns n loaded _ \<longleftrightarrow> True"

definition proc_ok :: "manifest_config \<Rightarrow> string \<Rightarrow> manifest list \<Rightarrow> proc \<Rightarrow> bool" where
  "proc_ok config ns ms p \<longleftrightarrow> manager_of config ns (pr_mm p)
     \<and> (pr_loaded p \<longrightarrow> (\<exists>i < length ms. mm_current (pr_mm p) = ms ! i))
     \<and> phase_ok config ns (length ms) (pr_loaded p) (pr_phase p)"

lemma manager_paths:
  "manager_of config ns mm \<Longrightarrow> mm_path mm i = manifest_path (base_path config) ns i"
  "manager_of config ns mm \<Longrightarrow> mm_prefix mm = manifest_prefix (base_path config) ns"
  by (auto simp: manager_of_def mm_path_def mm_prefix_def)

lemma of_nat_u64_inject: "i < 2 ^ 64 \<Longrightarrow> j < 2 ^ 64 \<Longrightarrow> (of_nat i :: u64) = of_nat j \<longleftrightarrow> i = j"
  using unat_of_nat_u64 by metis

lemma sorted_last: "sorted xs \<Longrightarrow> x \<in> set xs \<Longrightarrow> x \<le> last xs"
  by (cases xs rule: rev_cases) (auto simp: sorted_append)

lemma in_listing:
  "k \<in> set (fs_list_prefix p objs) \<longleftrightarrow> map_of objs k \<noteq> None \<and> starts_with p k \<and> \<not> starts_with ''.tmp.'' (path_file_name k)"
  using list_prefix_spec [of p objs] by (auto simp: map_of_eq_None_iff)

lemma listing_last:
  assumes "map_of objs (manifest_path b ns (of_nat n)) \<noteq> None" and "n < 2 ^ 64"
    and "\<And>k. starts_with (manifest_prefix b ns) k \<Longrightarrow> map_of objs k \<noteq> None \<Longrightarrow> \<exists>i \<le> n. k = manifest_path b ns (of_nat i)"
  shows "fs_list_prefix (manifest_prefix b ns) objs \<noteq> []
    \<and> last (fs_list_prefix (manifest_prefix b ns) objs) = manifest_path b ns (of_nat n)"
proof -
  let ?es = "fs_list_prefix (manifest_prefix b ns) objs" and ?p = "manifest_path b ns"
  have n: "?p (of_nat n) \<in> set ?es" using assms(1) by (simp add: in_listing)
  then have ne: "?es \<noteq> []" by (metis empty_iff empty_set)
  moreover have "sorted ?es" using list_prefix_spec by blast
  ultimately have mx: "\<forall>k \<in> set ?es. k \<le> last ?es" "last ?es \<in> set ?es" by (auto intro: sorted_last)
  then obtain i where i: "i \<le> n" "last ?es = ?p (of_nat i)" using assms(3) unfolding in_listing by blast
  have "\<not> ?p (of_nat i) < ?p (of_nat n)" using mx(1) n i(2) by (metis not_less)
  then have "\<not> (of_nat i :: u64) < of_nat n" by (simp add: manifest_path_less)
  moreover have "i < 2 ^ 64" using i(1) assms(2) by simp
  ultimately have "\<not> i < n" using assms(2) by (simp only: word_less_nat_alt unat_of_nat_u64 not_False_eq_True)
  then have "i = n" using i(1) by simp
  with i(2) ne show ?thesis by (simp only:) simp
qed

lemma chain_listing:
  assumes "chain_stored J config ns ms objs"
  shows "fs_list_prefix (manifest_prefix (base_path config) ns) objs = [] \<longleftrightarrow> ms = []"
    and "ms \<noteq> [] \<Longrightarrow> last (fs_list_prefix (manifest_prefix (base_path config) ns) objs)
       = manifest_path (base_path config) ns (of_nat (length ms - 1))"
proof -
  let ?p = "manifest_path (base_path config) ns" and ?es = "fs_list_prefix (manifest_prefix (base_path config) ns) objs"
  have len: "length ms \<le> 2 ^ 64"
    and keys: "starts_with (manifest_prefix (base_path config) ns) k \<Longrightarrow>
      map_of objs k \<noteq> None \<longleftrightarrow> (\<exists>i < length ms. k = ?p (of_nat i))" for k
    using assms by (simp_all add: chain_stored_def)
  have *: "?es \<noteq> [] \<and> last ?es = ?p (of_nat (length ms - 1))" if ne: "ms \<noteq> []"
  proof (rule listing_last)
    have "length ms - 1 < length ms" using ne by simp
    then show "map_of objs (?p (of_nat (length ms - 1))) \<noteq> None" using keys [OF starts_manifest_path] by blast
    show "length ms - 1 < 2 ^ 64" using len ne by (cases ms) simp_all
    show "\<exists>i \<le> length ms - 1. k = ?p (of_nat i)"
      if sw: "starts_with (manifest_prefix (base_path config) ns) k" and some: "map_of objs k \<noteq> None" for k
    proof -
      obtain i where "i < length ms" "k = ?p (of_nat i)" using keys [OF sw] some by blast
      then show ?thesis by (intro exI [of _ i]) simp
    qed
  qed
  then show "?es = [] \<longleftrightarrow> ms = []"
  proof -
    have "k \<notin> set ?es" if "ms = []" for k using keys [of k] that by (auto simp: in_listing)
    then have "?es = []" if "ms = []" using that by (cases ?es) auto
    then show ?thesis using * by blast
  qed
  show "ms \<noteq> [] \<Longrightarrow> last ?es = ?p (of_nat (length ms - 1))" using * by blast
qed

lemma chain_read:
  assumes "manifest_chain ns ms h" and "chain_stored J config ns ms objs" and "manager_of config ns mm" and "i < length ms"
  shows "mm_read J (manifest_path (base_path config) ns (of_nat i)) mm objs = Inr (mm\<lparr>mm_current := ms ! i\<rparr>)"
proof -
  obtain d where "map_of objs (manifest_path (base_path config) ns (of_nat i)) = Some d" "from_json J d = Some (ms ! i)"
    using assms(2,4) by (auto simp: chain_stored_def)
  then show ?thesis
    using chain_ids [OF assms(1,4)] by (simp add: mm_read_def manager_paths [OF assms(3)] fs_get_def mf_deserialize_def)
qed

lemma chain_load_latest:
  assumes "manifest_chain ns ms h" and "chain_stored J config ns ms objs" and "manager_of config ns mm" and "ms \<noteq> []"
  shows "mm_load_latest J now mm objs = Inr (mm\<lparr>mm_current := last ms\<rparr>, objs)"
  using chain_listing [OF assms(2)] chain_read [OF assms(1-3), of "length ms - 1"] assms(4)
  by (simp add: mm_load_latest_def manager_paths [OF assms(3)] last_conv_nth)

lemma chain_stored_put:
  assumes "chain_stored J config ns ms objs" and "length ms < 2 ^ 64" and "from_json J d = Some m"
  shows "chain_stored J config ns (ms @ [m]) (fs_put (manifest_path (base_path config) ns (of_nat (length ms))) d objs)"
  unfolding chain_stored_def
proof (intro conjI allI impI)
  let ?p = "manifest_path (base_path config) ns"
  show "length (ms @ [m]) \<le> 2 ^ 64" using assms(2) by simp
  show "map_of (fs_put (?p (of_nat (length ms))) d objs) k \<noteq> None \<longleftrightarrow> (\<exists>i < length (ms @ [m]). k = ?p (of_nat i))"
    if "starts_with (manifest_prefix (base_path config) ns) k" for k
  proof -
    have "map_of objs k \<noteq> None \<longleftrightarrow> (\<exists>i < length ms. k = ?p (of_nat i))"
      using that assms(1) by (simp add: chain_stored_def)
    then show ?thesis by (auto simp: fs_put_def update_conv' less_Suc_eq)
  qed
  show "\<exists>e. map_of (fs_put (?p (of_nat (length ms))) d objs) (?p (of_nat i)) = Some e \<and> from_json J e = Some ((ms @ [m]) ! i)"
    if "i < length (ms @ [m])" for i
  proof (cases "i = length ms")
    case True
    then show ?thesis using assms(3) by (simp add: fs_put_def update_conv')
  next
    case False
    with that have i: "i < length ms" by simp
    then have "(of_nat i :: u64) \<noteq> of_nat (length ms)" using assms(2) by (simp add: of_nat_u64_inject)
    with i show ?thesis using assms(1) by (simp add: chain_stored_def fs_put_def update_conv' nth_append)
  qed
qed

lemma chain_stored_other:
  assumes "chain_stored J config ns ms objs" and "\<not> starts_with (manifest_prefix (base_path config) ns) key"
    and "\<And>k. k \<noteq> key \<Longrightarrow> map_of objs' k = map_of objs k"
  shows "chain_stored J config ns ms objs'"
proof -
  have "map_of objs' k = map_of objs k" if "starts_with (manifest_prefix (base_path config) ns) k" for k
    using that assms(2,3) by metis
  then show ?thesis using assms(1) by (simp add: chain_stored_def)
qed

lemma chain_init_put:
  assumes "json_ok J" and "chain_stored J config ns ms objs" and "manager_of config ns mm"
    and "mm_init_put J now mm objs = Inr (first, objs')"
  shows "if ms = [] then first = Some (mm\<lparr>mm_current := mf_new_empty now ns\<rparr>) \<and> chain_stored J config ns [mf_new_empty now ns] objs'
    else first = None \<and> objs' = objs"
proof (cases "ms = []")
  case True
  obtain d where d: "to_json J (mf_new_empty now ns) = Some d" "from_json J d = Some (mf_new_empty now ns)"
    using assms(1) by (auto simp: json_ok_def)
  have "map_of objs (manifest_path (base_path config) ns 0) = None"
    using assms(2) True by (simp add: chain_stored_def)
  then have "first = Some (mm\<lparr>mm_current := mf_new_empty now ns\<rparr>)" "objs' = fs_put (manifest_path (base_path config) ns 0) d objs"
    using assms(3,4) d(1)
    by (auto simp: mm_init_put_def Let_def mf_serialize_def manager_paths [OF assms(3)] fs_conditional_put_def fs_put_def manager_of_def)
  then show ?thesis using True chain_stored_put [OF assms(2), of d] d(2) by auto
next
  case False
  then obtain d where "map_of objs (manifest_path (base_path config) ns 0) = Some d"
    using assms(2) by (auto simp: chain_stored_def dest: spec [of _ "0 :: nat"])
  with False assms(4) show ?thesis
    by (auto simp: mm_init_put_def Let_def manager_paths [OF assms(3)] fs_conditional_put_def)
qed

lemma chain_init_get:
  assumes "chain_stored J config ns ms objs" and "manager_of config ns mm" and "ms \<noteq> []"
  shows "mm_init_get J mm objs = Inr (mm\<lparr>mm_current := ms ! 0\<rparr>)"
proof -
  obtain d where "map_of objs (manifest_path (base_path config) ns 0) = Some d" "from_json J d = Some (ms ! 0)"
    using assms(1,3) by (auto simp: chain_stored_def dest: spec [of _ "0 :: nat"])
  then show ?thesis by (simp add: mm_init_get_def manager_paths [OF assms(2)] fs_get_def mf_deserialize_def)
qed

lemma chain_attempt:
  assumes J: "json_ok J" and ch: "manifest_chain ns ms h" and st: "chain_stored J config ns ms objs" and mm: "manager_of config ns mm"
    and i: "i < length ms" "mm_current mm = ms ! i" and nowrap: "mf_manifest_id (mm_current mm) \<noteq> - 1"
    and att: "mm_attempt J sn now u mm objs = Inr (mm', objs')"
  shows "\<exists>m. mm' = mm\<lparr>mm_current := m\<rparr> \<and> commits (now, u) (last ms) m \<and> chain_stored J config ns (ms @ [m]) objs'"
proof -
  let ?p = "manifest_path (base_path config) ns"
  obtain m1 where m1: "mu_apply now u (ms ! i) = Inr m1" using att by (auto simp: mm_attempt_def i(2))
  define m where "m = (if sn \<and> should_snapshot_manifest J mm m1 then m1\<lparr>mf_is_snapshot := True\<rparr> else m1)"
  obtain d where d: "to_json J m = Some d" and put: "fs_conditional_put (?p (mf_manifest_id m)) d objs = Inr objs'"
      and mm': "mm' = mm\<lparr>mm_current := m\<rparr>"
    using att by (auto simp: mm_attempt_def Let_def mf_serialize_def i(2) m1 m_def [symmetric] manager_paths [OF mm] split: option.splits)
  have c: "commits (now, u) (ms ! i) m" using m1 by (auto simp: commits_def m_def)
  have len: "length ms \<le> 2 ^ 64" using st by (simp add: chain_stored_def)
  have idi: "mf_manifest_id (ms ! i) = of_nat i" using chain_ids [OF ch i(1)] by simp
  have i1: "i + 1 < 2 ^ 64"
  proof (rule ccontr)
    assume "\<not> i + 1 < 2 ^ 64"
    then have "i = 2 ^ 64 - 1" using i(1) len by simp
    then have "(of_nat i :: u64) = - 1" by simp
    with nowrap idi i(2) show False by simp
  qed
  have idm: "mf_manifest_id m = of_nat (i + 1)" using commits_id [OF c] idi by simp
  have free: "map_of objs (?p (of_nat (i + 1))) = None" "objs' = fs_put (?p (of_nat (i + 1))) d objs"
    using put unfolding idm by (auto simp: fs_conditional_put_def fs_put_def split: option.splits)
  have "\<not> i + 1 < length ms" using st free(1) by (auto simp: chain_stored_def dest!: spec [of _ "i + 1"])
  then have il: "length ms = i + 1" using i(1) by simp
  then have "ms ! i = last ms" using i(1) by (subst last_conv_nth) auto
  moreover have "from_json J d = Some m" using J d by (auto simp: json_ok_def) (metis option.inject)
  ultimately show ?thesis using mm' c free(2) chain_stored_put [OF st, of d m] i1 il by auto
qed


lemma proc_ok_append: "proc_ok config ns ms p \<Longrightarrow> proc_ok config ns (ms @ ms') p"
proof -
  assume p: "proc_ok config ns ms p"
  have "phase_ok config ns (length (ms @ ms')) (pr_loaded p) (pr_phase p)"
    using p unfolding proc_ok_def by (cases "pr_phase p") (auto intro: trans_less_add1)
  moreover have "\<exists>i < length (ms @ ms'). mm_current (pr_mm p) = (ms @ ms') ! i" if "pr_loaded p"
  proof -
    obtain i where "i < length ms" "mm_current (pr_mm p) = ms ! i" using p \<open>pr_loaded p\<close> by (auto simp: proc_ok_def)
    then show ?thesis by (intro exI [of _ i]) (simp add: nth_append)
  qed
  ultimately show ?thesis using p by (simp add: proc_ok_def)
qed

lemma loaded_as_ok:
  "proc_ok config ns ms p \<Longrightarrow> i < length ms \<Longrightarrow> proc_ok config ns ms (loaded_as t ((pr_mm p)\<lparr>mm_current := ms ! i\<rparr>) p)"
  by (cases t) (auto simp: proc_ok_def loaded_as_def manager_of_def split: sum.splits)

lemma attempt_manager: "mm_attempt J sn now u mm objs = Inr (mm', objs') \<Longrightarrow> manager_of config ns mm' \<longleftrightarrow> manager_of config ns mm"
  by (auto simp: mm_attempt_def Let_def manager_of_def)

lemma proc_step_ok:
  assumes J: "json_ok J" and ch: "manifest_chain ns ms h" and st: "chain_stored J config ns ms objs" and p: "proc_ok config ns ms p"
    and nowrap: "mf_manifest_id (mm_current (pr_mm p)) \<noteq> - 1" and step: "proc_step J now p objs = (p', objs', c)"
  shows "\<exists>ms'. manifest_chain ns (ms @ ms') (h @ c) \<and> chain_stored J config ns (ms @ ms') objs' \<and> proc_ok config ns (ms @ ms') p'"
proof -
  have mm: "manager_of config ns (pr_mm p)" using p by (simp add: proc_ok_def)
  have idle: "proc_ok config ns ms (p\<lparr>pr_phase := Idle\<rparr>)" "\<And>t. proc_ok config ns ms (p\<lparr>pr_phase := Listing t\<rparr>)"
    using p by (simp_all add: proc_ok_def)
  have stay: ?thesis if "objs' = objs" "c = []" "proc_ok config ns ms p'"
    using that ch st by (intro exI [of _ "[]"]) simp
  have committed: ?thesis if at: "mm_attempt J sn now u (pr_mm p) objs = Inr (mm', objs')" and c: "c = [(now, u)]"
      and p': "pr_phase p' = Idle" "manager_of config ns (pr_mm p')" "mm_current (pr_mm p') = mm_current mm'" and l: "pr_loaded p"
      for sn u mm'
  proof -
    obtain i where i: "i < length ms" "mm_current (pr_mm p) = ms ! i" using p l by (auto simp: proc_ok_def)
    then have "ms \<noteq> []" by auto
    obtain m where m: "mm' = (pr_mm p)\<lparr>mm_current := m\<rparr>" "commits (now, u) (last ms) m" "chain_stored J config ns (ms @ [m]) objs'"
      using chain_attempt [OF J ch st mm i nowrap at] by blast
    have "proc_ok config ns (ms @ [m]) p'"
      using p' m(1) by (simp add: proc_ok_def) (metis lessI nth_append_length)
    then show ?thesis using m(3) manifest_chain.extend [OF ch \<open>ms \<noteq> []\<close> m(2)] c by (intro exI [of _ "[m]"]) simp
  qed
  show ?thesis
  proof (cases "pr_phase p")
    case Idle
    then show ?thesis using step stay p by (simp add: proc_step_def)
  next
    case (Listing t)
    let ?es = "fs_list_prefix (manifest_prefix (base_path config) ns) objs"
    have s: "p' = p\<lparr>pr_phase := (if ?es = [] then Initing t else Reading t (last ?es))\<rparr>" "objs' = objs" "c = []"
      using step Listing manager_paths(2) [OF mm] by (auto simp: proc_step_def Let_def)
    have "phase_ok config ns (length ms) (pr_loaded p) (if ?es = [] then Initing t else Reading t (last ?es))"
    proof (cases "ms = []")
      case False
      then have "length ms - 1 < length ms" by simp
      then have "\<exists>i < length ms. last ?es = manifest_path (base_path config) ns (of_nat i)"
        using chain_listing(2) [OF st False] by blast
      then show ?thesis by simp
    qed (simp add: chain_listing(1) [OF st])
    then show ?thesis using p s by (intro stay) (simp_all add: proc_ok_def)
  next
    case (Initing t)
    show ?thesis
    proof (cases "mm_init_put J now (pr_mm p) objs")
      case (Inl e)
      then show ?thesis using step Initing stay idle by (simp add: proc_step_def)
    next
      case (Inr r)
      obtain first objs1 where r: "r = (first, objs1)" by (cases r)
      note put = chain_init_put [OF J st mm Inr [unfolded r]]
      show ?thesis
      proof (cases "ms = []")
        case True
        let ?m = "mf_new_empty now ns"
        have e: "p' = loaded_as t ((pr_mm p)\<lparr>mm_current := ?m\<rparr>) p" "objs' = objs1" "c = []"
          using step Initing Inr r put True by (simp_all add: proc_step_def)
        have h: "h = []" using ch True by (cases rule: manifest_chain.cases) auto
        have "proc_ok config ns [?m] p'"
          using loaded_as_ok [of config ns "[?m]" p 0 t] proc_ok_append [OF p, of "[?m]"] True e(1) by simp
        then show ?thesis using put True h e manifest_chain.first by (intro exI [of _ "[?m]"]) auto
      next
        case False
        then have "p' = p\<lparr>pr_phase := Beaten t\<rparr>" "objs' = objs" "c = []"
          using step Initing Inr r put by (simp_all add: proc_step_def)
        then show ?thesis using p False by (intro stay) (simp_all add: proc_ok_def)
      qed
    qed
  next
    case (Beaten t)
    then have ne: "ms \<noteq> []" using p by (simp add: proc_ok_def)
    then show ?thesis
      using step Beaten chain_init_get [OF st mm ne] loaded_as_ok [OF p, of 0 t] by (intro stay) (auto simp: proc_step_def)
  next
    case (Reading t path)
    then obtain i where i: "i < length ms" "path = manifest_path (base_path config) ns (of_nat i)"
      using p by (auto simp: proc_ok_def)
    have "mm_read J path (pr_mm p) objs = Inr ((pr_mm p)\<lparr>mm_current := ms ! i\<rparr>)"
      unfolding i(2) by (rule chain_read [OF ch st mm i(1)])
    then show ?thesis using step Reading loaded_as_ok [OF p i(1), of t] by (intro stay) (auto simp: proc_step_def)
  next
    case (Trying u n)
    then have l: "pr_loaded p" using p by (simp add: proc_ok_def)
    show ?thesis
    proof (cases "mm_attempt J True now u (pr_mm p) objs")
      case (Inl e)
      then have "objs' = objs" "c = []" "p' = p\<lparr>pr_phase := Idle\<rparr> \<or> (\<exists>t. p' = p\<lparr>pr_phase := Listing t\<rparr>)"
        using step Trying by (auto simp: proc_step_def split: flush_error.splits if_splits)
      then show ?thesis using idle by (intro stay) auto
    next
      case (Inr r)
      then obtain mm1 objs1 where r: "mm_attempt J True now u (pr_mm p) objs = Inr (mm1, objs1)" by (cases r) auto
      then have "p' = p\<lparr>pr_mm := mm1, pr_phase := Idle\<rparr>" "objs' = objs1" "c = [(now, u)]"
        using step Trying by (simp_all add: proc_step_def)
      then show ?thesis using committed [of True u mm1] r l attempt_manager [OF r] mm by simp
    qed
  next
    case Acquiring_writer
    then have l: "pr_loaded p" using p by (simp add: proc_ok_def)
    let ?u = "writer_epoch_update (mm_current (pr_mm p))"
    show ?thesis
    proof (cases "mm_attempt J False now ?u (pr_mm p) objs")
      case (Inl e)
      then show ?thesis using step Acquiring_writer idle by (intro stay) (auto simp: proc_step_def Let_def)
    next
      case (Inr r)
      then obtain mm1 objs1 where r: "mm_attempt J False now ?u (pr_mm p) objs = Inr (mm1, objs1)" by (cases r) auto
      then have "p' = p\<lparr>pr_mm := mm1\<lparr>mm_writer_epoch := mu_writer_epoch ?u\<rparr>, pr_phase := Idle\<rparr>" "objs' = objs1" "c = [(now, ?u)]"
        using step Acquiring_writer by (simp_all add: proc_step_def Let_def)
      then show ?thesis using committed [of False ?u mm1] r l attempt_manager [OF r] mm by (simp add: manager_of_def)
    qed
  next
    case Acquiring_compactor
    then have l: "pr_loaded p" using p by (simp add: proc_ok_def)
    let ?u = "compactor_epoch_update (mm_current (pr_mm p))"
    show ?thesis
    proof (cases "mm_attempt J False now ?u (pr_mm p) objs")
      case (Inl e)
      then show ?thesis using step Acquiring_compactor idle by (intro stay) (auto simp: proc_step_def Let_def)
    next
      case (Inr r)
      then obtain mm1 objs1 where r: "mm_attempt J False now ?u (pr_mm p) objs = Inr (mm1, objs1)" by (cases r) auto
      then have "p' = p\<lparr>pr_mm := mm1\<lparr>mm_compactor_epoch := mu_compactor_epoch ?u\<rparr>, pr_phase := Idle\<rparr>" "objs' = objs1" "c = [(now, ?u)]"
        using step Acquiring_compactor by (simp_all add: proc_step_def Let_def)
      then show ?thesis using committed [of False ?u mm1] r l attempt_manager [OF r] mm by (simp add: manager_of_def)
    qed
  qed
qed


lemma no_manifest_stored: "no_manifest config ns objs \<Longrightarrow> chain_stored J config ns [] objs"
  by (auto simp: no_manifest_def chain_stored_def list_ex_iff map_of_eq_None_iff)

lemma cluster_chain:
  assumes "cluster J config ns objs ps h" and J: "json_ok J"
  shows "\<exists>ms. manifest_chain ns ms h \<and> chain_stored J config ns ms objs \<and> (\<forall>i. proc_ok config ns ms (ps i))"
  using assms(1)
proof (induction rule: cluster.induct)
  case (start objs now)
  have "proc_ok config ns [] (fresh_proc n ns config)" for n
    by (simp add: proc_ok_def fresh_proc_def manager_of_def mm_new_def)
  then show ?case using no_manifest_stored [OF start] manifest_chain.nothing by blast
next
  case (refresh objs ps h i t)
  then show ?case by (fastforce simp: proc_ok_def)
next
  case (update objs ps h i u)
  then show ?case by (fastforce simp: proc_ok_def)
next
  case (step objs ps h i now p objs' c)
  then obtain ms where ms: "manifest_chain ns ms h" "chain_stored J config ns ms objs" "\<forall>i. proc_ok config ns ms (ps i)" by blast
  obtain ms' where "manifest_chain ns (ms @ ms') (h @ c)" "chain_stored J config ns (ms @ ms') objs'" "proc_ok config ns (ms @ ms') p"
    using proc_step_ok [OF J ms(1,2) _ step.hyps(2,3)] ms(3) by blast
  then show ?case using proc_ok_append ms(3) by (intro exI [of _ "ms @ ms'"]) simp
next
  case (put objs ps h key v)
  then obtain ms where ms: "manifest_chain ns ms h" "chain_stored J config ns ms objs" "\<forall>i. proc_ok config ns ms (ps i)" by blast
  have "chain_stored J config ns ms (fs_put key v objs)"
    by (rule chain_stored_other [OF ms(2) put.hyps(2)]) (simp add: fs_put_def update_conv')
  then show ?case using ms by blast
next
  case (del objs ps h key)
  then obtain ms where ms: "manifest_chain ns ms h" "chain_stored J config ns ms objs" "\<forall>i. proc_ok config ns ms (ps i)" by blast
  have "chain_stored J config ns ms (fs_delete key objs)"
    by (rule chain_stored_other [OF ms(2) del.hyps(2)]) (simp add: fs_delete_def delete_conv')
  then show ?case using ms by blast
qed

text \<open>C11: no update is lost between concurrent managers. Whatever the interleaving of loads, retried updates and epoch
  acquisitions of any number of managers, the stored manifests are the empty manifest followed by one manifest for
  each update whose commit succeeded, in commit order, each obtained by applying that update to its predecessor;
  every manifest a manager has loaded is one of them, and a load at any moment gives the last one. The conditional
  put thus makes the retry loop linearizable, as long as no manifest is deleted.\<close>
theorem manifest_updates_linearizable:
  assumes "json_ok J" and "cluster J config ns objs ps h"
  shows "\<exists>ms. manifest_chain ns ms h
    \<and> (\<forall>i < length ms. \<exists>d. fs_get (manifest_path (base_path config) ns (of_nat i)) objs = Inr d \<and> mf_deserialize J d = Inr (ms ! i))
    \<and> (\<forall>i. pr_loaded (ps i) \<longrightarrow> mm_current (pr_mm (ps i)) \<in> set ms)
    \<and> (ms \<noteq> [] \<longrightarrow> (\<forall>i now. mm_load_latest J now (pr_mm (ps i)) objs = Inr ((pr_mm (ps i))\<lparr>mm_current := last ms\<rparr>, objs)))"
proof -
  obtain ms where ms: "manifest_chain ns ms h" "chain_stored J config ns ms objs" "\<forall>i. proc_ok config ns ms (ps i)"
    using cluster_chain [OF assms(2,1)] by blast
  have "\<exists>d. fs_get (manifest_path (base_path config) ns (of_nat i)) objs = Inr d \<and> mf_deserialize J d = Inr (ms ! i)"
    if "i < length ms" for i
    using ms(2) that by (fastforce simp: chain_stored_def fs_get_def mf_deserialize_def)
  moreover have "mm_current (pr_mm (ps i)) \<in> set ms" if "pr_loaded (ps i)" for i
  proof -
    obtain j where "j < length ms" "mm_current (pr_mm (ps i)) = ms ! j" using ms(3) \<open>pr_loaded (ps i)\<close> unfolding proc_ok_def by blast
    then show ?thesis by simp
  qed
  moreover have "mm_load_latest J now (pr_mm (ps i)) objs = Inr ((pr_mm (ps i))\<lparr>mm_current := last ms\<rparr>, objs)"
    if "ms \<noteq> []" for i now
    by (rule chain_load_latest [OF ms(1,2) _ that]) (use ms(3) in \<open>simp add: proc_ok_def\<close>)
  ultimately show ?thesis using ms(1) by blast
qed

text \<open>A serializer for the examples: the number of a manifest in an enumeration of all manifests, in unary.\<close>

definition meta_tuple :: "sst_meta \<Rightarrow> _" where
  "meta_tuple m = (sm_id m, (sm_size_bytes m, sm_entry_count m, sm_min_key m, sm_max_key m),
     (sm_bloom_filter_offset m, sm_bloom_filter_size m, sm_index_offset m, sm_index_size m),
     (sm_created_at_ms m, sm_sequence_range m, sm_record_id_count m), (sm_run_id m, sm_fragment_index m, sm_dedup_block_size m))"

definition blob_tuple :: "blob_file_meta \<Rightarrow> _" where
  "blob_tuple b = (bf_id b, bf_size_bytes b, bf_live_bytes b, bf_entry_count b, bf_referenced_by_ssts b)"

definition level_tuple :: "(level \<Rightarrow> 'a) \<Rightarrow> _" where
  "level_tuple f = (f L0, f L1, f L2, f L3)"

definition manifest_tuple :: "manifest \<Rightarrow> _" where
  "manifest_tuple m = ((mf_format_version m, mf_manifest_id m, mf_writer_epoch m, mf_compactor_epoch m),
     (mf_namespace m, mf_created_at_ms m, mf_last_flushed_sequence m),
     level_tuple (\<lambda>l. map_option (map meta_tuple) (mf_levels m l)), map blob_tuple (mf_blob_files m),
     level_tuple (mf_tombstone_compaction_watermarks m), mf_previous_manifest_id m, mf_is_snapshot m)"

lemma inj_meta_tuple: "inj meta_tuple"
  by (rule injI) (simp add: meta_tuple_def)

lemma inj_blob_tuple: "inj blob_tuple"
  by (rule injI) (simp add: blob_tuple_def)

lemma inj_level_tuple: "inj level_tuple"
proof (rule injI)
  fix f g :: "level \<Rightarrow> 'a" assume "level_tuple f = level_tuple g"
  then have "f l = g l" for l by (cases l) (simp_all add: level_tuple_def)
  then show "f = g" by (simp add: fun_eq_iff)
qed

lemma inj_manifest_tuple: "inj manifest_tuple"
proof (rule injI)
  fix m m' assume e: "manifest_tuple m = manifest_tuple m'"
  have "map_option (map meta_tuple) (mf_levels m l) = map_option (map meta_tuple) (mf_levels m' l)" for l
  proof -
    have "(\<lambda>l. map_option (map meta_tuple) (mf_levels m l)) = (\<lambda>l. map_option (map meta_tuple) (mf_levels m' l))"
      by (rule injD [OF inj_level_tuple]) (use e in \<open>simp add: manifest_tuple_def\<close>)
    then show ?thesis by (simp add: fun_eq_iff)
  qed
  then have "mf_levels m l = mf_levels m' l" for l
    using injD [OF option.inj_map [OF inj_mapI [OF inj_meta_tuple]]] by blast
  moreover have "mf_tombstone_compaction_watermarks m = mf_tombstone_compaction_watermarks m'"
    by (rule injD [OF inj_level_tuple]) (use e in \<open>simp add: manifest_tuple_def\<close>)
  moreover have "mf_blob_files m = mf_blob_files m'"
    by (rule injD [OF inj_mapI [OF inj_blob_tuple]]) (use e in \<open>simp add: manifest_tuple_def\<close>)
  ultimately show "m = m'" using e by (intro manifest.equality) (simp_all add: manifest_tuple_def fun_eq_iff)
qed

definition sample_json :: manifest_json where
  "sample_json = \<lparr>to_json = (\<lambda>m. Some (replicate (to_nat (manifest_tuple m)) 0)),
     from_json = (\<lambda>d. Some (the_inv manifest_tuple (from_nat (length d))))\<rparr>"

lemma sample_json_ok: "json_ok sample_json"
  by (simp add: json_ok_def sample_json_def the_inv_f_f [OF inj_manifest_tuple])


theorem manifest_updates_linearizable_witness:
  "\<exists>objs ps ms. cluster sample_json manifest_config_default ''ns'' objs ps [(7, writer_epoch_update (mf_new_empty 7 ''ns''))]
     \<and> manifest_chain ''ns'' ms [(7, writer_epoch_update (mf_new_empty 7 ''ns''))]
     \<and> mm_load_latest sample_json 9 (pr_mm (ps 0)) objs = Inr ((pr_mm (ps 0))\<lparr>mm_current := last ms\<rparr>, objs)"
proof -
  let ?J = sample_json and ?c = manifest_config_default and ?ns = "''ns''"
  let ?mm = "mm_new 7 ?ns ?c" and ?m = "mf_new_empty 7 ?ns" and ?u = "writer_epoch_update (mf_new_empty 7 ''ns'')"
  let ?p = "fresh_proc 7 ?ns ?c"
  let ?p1 = "?p\<lparr>pr_phase := Listing Acquire_writer\<rparr>" and ?p2 = "?p\<lparr>pr_phase := Initing Acquire_writer\<rparr>"
  let ?p3 = "?p\<lparr>pr_loaded := True, pr_phase := Acquiring_writer\<rparr>"
  obtain d where d: "to_json ?J ?m = Some d" by (simp add: sample_json_def)
  let ?o1 = "fs_put (manifest_path (base_path ?c) ?ns 0) d []"
  have mm: "mm_current ?mm = ?m" "mm_config ?mm = ?c" "mm_namespace ?mm = ?ns" "?mm\<lparr>mm_current := ?m\<rparr> = ?mm"
    by (simp_all add: mm_new_def)
  have p: "pr_mm ?p = ?mm" "pr_phase ?p = Idle" by (simp_all add: fresh_proc_def)
  have c0: "cluster ?J ?c ?ns [] (\<lambda>i. ?p) []"
    using cluster.start [of ?c ?ns "[]" ?J "\<lambda>i. 7"] by (simp add: no_manifest_def)
  have c1: "cluster ?J ?c ?ns [] ((\<lambda>i. ?p)(0 := ?p1)) []"
    using cluster.refresh [OF c0, where i = 0 and t = Acquire_writer] p by simp
  have c2: "cluster ?J ?c ?ns [] ((\<lambda>i. ?p)(0 := ?p2)) []"
    using cluster.step [OF c1, where i = 0 and now = 7 and p = ?p2 and objs' = "[]" and c = "[]"]
    by (simp add: proc_step_def p mm mf_new_empty_def fs_list_prefix_def collect_keys_def Let_def)
  have i: "mm_init_put ?J 7 ?mm [] = Inr (Some ?mm, ?o1)"
    by (simp add: mm_init_put_def mf_serialize_def d mm mm_path_def fs_conditional_put_def fs_put_def Let_def)
  have c3: "cluster ?J ?c ?ns ?o1 ((\<lambda>i. ?p)(0 := ?p3)) []"
    using cluster.step [OF c2, where i = 0 and now = 7 and p = ?p3 and objs' = ?o1 and c = "[]"]
    by (simp add: proc_step_def p mm i loaded_as_def fresh_proc_def) (simp add: mf_new_empty_def)
  obtain m1 where ap: "mu_apply 7 ?u ?m = Inr m1" and idm: "mf_manifest_id m1 = 1"
    by (simp add: mu_apply_def writer_epoch_update_def Let_def mf_new_empty_def mid_next_def)
  obtain d1 where d1: "to_json ?J m1 = Some d1" by (simp add: sample_json_def)
  let ?o2 = "fs_put (manifest_path (base_path ?c) ?ns 1) d1 ?o1"
  have at: "mm_attempt ?J False 7 ?u ?mm ?o1 = Inr (?mm\<lparr>mm_current := m1\<rparr>, ?o2)"
    by (simp add: mm_attempt_def mm ap mf_serialize_def d1 idm mm_path_def fs_conditional_put_def fs_put_def update_conv')
  let ?p4 = "?p\<lparr>pr_mm := ?mm\<lparr>mm_current := m1, mm_writer_epoch := mu_writer_epoch ?u\<rparr>, pr_loaded := True\<rparr>"
  have c4: "cluster ?J ?c ?ns ?o2 ((\<lambda>i. ?p)(0 := ?p4)) [(7, ?u)]"
    using cluster.step [OF c3, where i = 0 and now = 7 and p = ?p4 and objs' = ?o2 and c = "[(7, ?u)]"]
    by (simp add: proc_step_def p mm at fresh_proc_def Let_def) (simp add: mf_new_empty_def)
  then obtain objs ps where c: "cluster ?J ?c ?ns objs ps [(7, ?u)]" by blast
  obtain ms where ms: "manifest_chain ?ns ms [(7, ?u)]"
      "ms \<noteq> [] \<longrightarrow> (\<forall>i now. mm_load_latest ?J now (pr_mm (ps i)) objs = Inr ((pr_mm (ps i))\<lparr>mm_current := last ms\<rparr>, objs))"
    using manifest_updates_linearizable [OF sample_json_ok c] by (elim exE conjE) (rule that)
  moreover have "ms \<noteq> []" using ms(1) by (cases rule: manifest_chain.cases) auto
  ultimately show ?thesis using c by blast
qed


section \<open>Pruning\<close>

lemma map_of_delete_all: "map_of (fold fs_delete ks objs) k = (if k \<in> set ks then None else map_of objs k)"
  by (induction ks arbitrary: objs) (auto simp: fs_delete_def delete_conv')

lemma chain_snapshot_sticky:
  "manifest_chain ns ms h \<Longrightarrow> a \<le> b \<Longrightarrow> b < length ms \<Longrightarrow> mf_is_snapshot (ms ! a) \<Longrightarrow> mf_is_snapshot (ms ! b)"
proof (induction arbitrary: b rule: manifest_chain.induct)
  case (extend ms h c m')
  have c: "mf_is_snapshot (last ms) \<Longrightarrow> mf_is_snapshot m'"
    using extend.hyps(3) by (auto simp: commits_def mu_apply_def Let_def split: option.splits if_splits)
  show ?case
  proof (cases "b < length ms")
    case True
    then show ?thesis using extend.IH [of b] extend.prems by (simp add: nth_append)
  next
    case False
    then have b: "b = length ms" using extend.prems by simp
    show ?thesis
    proof (cases "a = length ms")
      case True
      then show ?thesis using extend.prems b by simp
    next
      case False
      then have "a \<le> length ms - 1" "a < length ms" using extend.prems b by simp_all
      then have "mf_is_snapshot (ms ! (length ms - 1))" using extend.IH [of "length ms - 1"] extend.prems extend.hyps(2) by (simp add: nth_append)
      then show ?thesis using c b extend.hyps(2) by (simp add: last_conv_nth)
    qed
  qed
qed (auto simp: mf_new_empty_def)

lemma snapshot_ids_chain:
  assumes "manager_of config ns pm" and "chain_stored J config ns ms objs"
    and "\<forall>e \<in> set es. \<exists>i < length ms. e = manifest_path (base_path config) ns (of_nat i)"
  shows "snapshot_ids J pm objs es = map (\<lambda>e. projr (mid_from_path_string (path_file_name e)))
    (filter (\<lambda>e. \<exists>i < length ms. e = manifest_path (base_path config) ns (of_nat i) \<and> mf_is_snapshot (ms ! i)) es)"
  using assms(3)
proof (induction es)
  case (Cons e es)
  then obtain i where i: "i < length ms" "e = manifest_path (base_path config) ns (of_nat i)" by auto
  obtain d where d: "map_of objs e = Some d" "from_json J d = Some (ms ! i)"
    using assms(2) i by (auto simp: chain_stored_def)
  have len: "length ms \<le> 2 ^ 64" using assms(2) by (simp add: chain_stored_def)
  have "(\<exists>j < length ms. e = manifest_path (base_path config) ns (of_nat j) \<and> mf_is_snapshot (ms ! j)) \<longleftrightarrow> mf_is_snapshot (ms ! i)"
  proof -
    have "j = i" if "j < length ms" "e = manifest_path (base_path config) ns (of_nat j)" for j
      using that i len by (simp add: of_nat_u64_inject)
    then show ?thesis using i by blast
  qed
  moreover have "mm_path pm (of_nat i) = e" using i(2) manager_paths [OF assms(1)] by simp
  ultimately show ?case using Cons i d by (simp add: fs_get_def mf_deserialize_def)
qed simp


lemma sorted_second_last:
  fixes a b :: "'a::linorder"
  assumes "sorted xs" and "a \<in> set xs" and "b \<in> set xs" and "a < b"
  shows "2 \<le> length xs" and "a \<le> xs ! (length xs - 2)"
proof -
  obtain i j where ij: "i < length xs" "xs ! i = a" "j < length xs" "xs ! j = b"
    using assms(2,3) by (auto simp: in_set_conv_nth)
  have "i < j"
  proof (rule ccontr)
    assume "\<not> i < j"
    then have "xs ! j \<le> xs ! i" using assms(1) ij by (intro sorted_nth_mono) simp_all
    with ij assms(4) show False by simp
  qed
  then show "2 \<le> length xs" using ij by simp
  have "xs ! i \<le> xs ! (length xs - 2)" by (rule sorted_nth_mono [OF assms(1)]) (use \<open>i < j\<close> ij in simp_all)
  then show "a \<le> xs ! (length xs - 2)" using ij by simp
qed

lemma prune_chain:
  assumes ch: "manifest_chain ns ms h" and st: "chain_stored J config ns ms objs" and pm: "manager_of config ns pm"
    and cur: "mm_current pm = last ms" and bs: "pruning_batch_size config \<noteq> 0"
    and a: "mf_is_snapshot (ms ! a)" "a + 2 \<le> length ms" and len: "3 \<le> length ms"
  obtains k objs' where "prune_old_manifests J pm objs = Inr (k, objs')"
    and "\<And>i. i + 2 < length ms \<Longrightarrow> map_of objs' (manifest_path (base_path config) ns (of_nat i)) = None"
    and "map_of objs' (manifest_path (base_path config) ns (of_nat (length ms - 1)))
       = map_of objs (manifest_path (base_path config) ns (of_nat (length ms - 1)))"
    and "\<And>k. map_of objs' k \<noteq> None \<Longrightarrow> map_of objs k \<noteq> None"
proof -
  let ?p = "manifest_path (base_path config) ns" and ?n = "length ms"
  let ?es = "fs_list_prefix (manifest_prefix (base_path config) ns) objs"
  let ?ids = "sort (snapshot_ids J pm objs ?es)"
  have l64: "?n \<le> 2 ^ 64" using st by (simp add: chain_stored_def)
  have es: "e \<in> set ?es \<longleftrightarrow> (\<exists>i < ?n. e = ?p (of_nat i))" for e
    using st by (auto simp: in_listing chain_stored_def)
  have un: "unat (of_nat i :: u64) = i" if "i < ?n" for i using that l64 by (intro unat_of_nat_u64) simp
  have ids: "x \<in> set ?ids \<longleftrightarrow> (\<exists>i < ?n. x = of_nat i \<and> mf_is_snapshot (ms ! i))" for x
  proof -
    have "snapshot_ids J pm objs ?es = map (\<lambda>e. projr (mid_from_path_string (path_file_name e)))
        (filter (\<lambda>e. \<exists>i < ?n. e = ?p (of_nat i) \<and> mf_is_snapshot (ms ! i)) ?es)"
      by (rule snapshot_ids_chain [OF pm st]) (simp add: es)
    then show ?thesis by (auto simp: es image_iff)
  qed
  have sn: "mf_is_snapshot (ms ! (?n - 2))" "mf_is_snapshot (ms ! (?n - 1))"
    by (rule chain_snapshot_sticky [OF ch _ _ a(1)], use a(2) len in simp_all)+
  have n: "?n - 2 < ?n" "?n - 1 < ?n" using len by simp_all
  have two: "(of_nat (?n - 2) :: u64) \<in> set ?ids" "(of_nat (?n - 1) :: u64) \<in> set ?ids"
    unfolding ids using sn n by blast+
  have "(of_nat (?n - 2) :: u64) < of_nat (?n - 1)" unfolding word_less_nat_alt un [OF n(1)] un [OF n(2)] using len by simp
  note cut = sorted_second_last [OF sorted_sort two this]
  define cutoff where "cutoff = ?ids ! (length ?ids - 2)"
  have "cutoff \<in> set ?ids" unfolding cutoff_def using cut(1) by (intro nth_mem) simp
  then obtain q where q: "q < ?n" "cutoff = of_nat q" unfolding ids by blast
  have ge: "?n - 2 \<le> q"
    using cut(2) unfolding cutoff_def [symmetric] q(2) word_le_nat_alt un [OF n(1)] un [OF q(1)] .
  have ci: "mf_manifest_id (mm_current pm) = of_nat (?n - 1)"
  proof -
    have "last ms = ms ! (?n - 1)" using len by (intro last_conv_nth) auto
    then show ?thesis using chain_ids [OF ch n(2)] unfolding cur by simp
  qed
  let ?del = "filter (prunable cutoff (mf_manifest_id (mm_current pm))) ?es"
  have pr: "prunable cutoff (mf_manifest_id (mm_current pm)) (?p (of_nat i)) \<longleftrightarrow> i < q \<and> i \<noteq> ?n - 1" if "i < ?n" for i
  proof -
    have "(of_nat i :: u64) < of_nat q \<longleftrightarrow> i < q" by (simp only: word_less_nat_alt un [OF that] un [OF q(1)])
    moreover have "(of_nat i :: u64) = of_nat (?n - 1) \<longleftrightarrow> i = ?n - 1" using un [OF that] un [OF n(2)] by metis
    ultimately show ?thesis unfolding prunable_def ci q(2) by (simp only: manifest_file_name mid_roundtrip sum.case)
  qed
  have "3 \<le> length ?es"
  proof -
    have "inj_on (\<lambda>i. ?p (of_nat i)) {..<?n}" by (rule inj_onI) (use un in \<open>simp, metis\<close>)
    moreover have "set ?es = (\<lambda>i. ?p (of_nat i)) ` {..<?n}" using es by auto
    ultimately have "card (set ?es) = ?n" by (simp add: card_image)
    then show ?thesis using card_length [of ?es] len by simp
  qed
  then have prune: "prune_old_manifests J pm objs = Inr (length ?del, fold fs_delete ?del objs)"
    using cut(1) pm bs unfolding prune_old_manifests_def manager_paths(2) [OF pm]
    by (simp add: Let_def cutoff_def manager_of_def)
  show ?thesis
  proof (rule that [OF prune])
    show "map_of (fold fs_delete ?del objs) (?p (of_nat i)) = None" if "i + 2 < ?n" for i
    proof -
      have "i < ?n" "i < q" "i \<noteq> ?n - 1" using that ge by simp_all
      then have "?p (of_nat i) \<in> set ?del" using pr es by auto
      then show ?thesis by (simp only: map_of_delete_all if_True)
    qed
    have "?p (of_nat (?n - 1)) \<notin> set ?del" using pr [OF n(2)] by simp
    then show "map_of (fold fs_delete ?del objs) (?p (of_nat (?n - 1))) = map_of objs (?p (of_nat (?n - 1)))"
      by (simp only: map_of_delete_all if_False)
    show "map_of objs k \<noteq> None" if "map_of (fold fs_delete ?del objs) k \<noteq> None" for k
      using that by (auto simp: map_of_delete_all split: if_splits)
  qed
qed


text \<open>Pruning breaks the exclusion of stale managers. A snapshot mark is copied into every later manifest, so once one
  was taken a prune deletes all manifests but the last two (and the pruner's own). A manager that is three or more
  manifests behind then finds the number after its own free again: its update is reported as committed, yet the
  next load still returns the manifest from before it and the update is lost.\<close>
lemma prune_loses_stale_update:
  assumes J: "json_ok J" and ch: "manifest_chain ns ms h" and st: "chain_stored J config ns ms objs"
    and pm: "manager_of config ns pm" "mm_current pm = last ms" and bs: "pruning_batch_size config \<noteq> 0"
    and a: "mf_is_snapshot (ms ! a)" "a + 2 \<le> length ms"
    and mm: "manager_of config ns mm" "mm_current mm = ms ! i" "i + 3 < length ms"
    and ok: "validate_epoch u mm = Inr ()" "validate_update u mm = Inr ()" "\<exists>m. mu_apply (clock 4) u (ms ! i) = Inr m"
  shows "\<exists>k objs1 mm' objs2. prune_old_manifests J pm objs = Inr (k, objs1)
    \<and> mm_update J clock u mm objs1 = (Inr (), mm', objs2)
    \<and> mm_load_latest J now mm' objs2 = Inr (mm'\<lparr>mm_current := last ms\<rparr>, objs2)"
proof -
  let ?p = "manifest_path (base_path config) ns" and ?n = "length ms"
  have l64: "?n \<le> 2 ^ 64"
    and keys: "\<And>k. starts_with (manifest_prefix (base_path config) ns) k \<Longrightarrow> map_of objs k \<noteq> None \<Longrightarrow> \<exists>i < ?n. k = ?p (of_nat i)"
    using st by (simp_all add: chain_stored_def)
  obtain k objs1 where pr: "prune_old_manifests J pm objs = Inr (k, objs1)"
      "\<And>i. i + 2 < ?n \<Longrightarrow> map_of objs1 (?p (of_nat i)) = None"
      "map_of objs1 (?p (of_nat (?n - 1))) = map_of objs (?p (of_nat (?n - 1)))"
      "\<And>k. map_of objs1 k \<noteq> None \<Longrightarrow> map_of objs k \<noteq> None"
    by (rule prune_chain [OF ch st pm bs a]) (use mm(3) in auto)
  obtain m1 where m1: "mu_apply (clock 4) u (ms ! i) = Inr m1" using ok(3) by blast
  define m where "m = (if should_snapshot_manifest J mm m1 then m1\<lparr>mf_is_snapshot := True\<rparr> else m1)"
  obtain d where d: "to_json J m = Some d" using J by (auto simp: json_ok_def)
  have "commits (clock 4, u) (ms ! i) m" using m1 by (auto simp: commits_def m_def)
  then have "mf_manifest_id m = of_nat (i + 1)" using commits_id chain_ids [OF ch, of i] mm(3) by fastforce
  then have at: "mm_attempt J True (clock 4) u mm objs1 = Inr (mm\<lparr>mm_current := m\<rparr>, fs_put (?p (of_nat (i + 1))) d objs1)"
    using pr(2) [of "i + 1"] mm(3)
    by (simp add: mm_attempt_def mm(2) m1 m_def [symmetric] Let_def mf_serialize_def d manager_paths [OF mm(1)] fs_conditional_put_def fs_put_def)
  let ?o = "fs_put (?p (of_nat (i + 1))) d objs1" and ?mm = "mm\<lparr>mm_current := m\<rparr>"
  have up: "mm_update J clock u mm objs1 = (Inr (), ?mm, ?o)"
    using at ok(1,2) by (simp add: mm_update_def MAX_CAS_RETRIES_def numeral_eq_Suc)
  obtain e where e: "map_of objs (?p (of_nat (?n - 1))) = Some e" "from_json J e = Some (ms ! (?n - 1))"
    using st mm(3) by (auto simp: chain_stored_def dest!: spec [of _ "?n - 1"])
  have n: "unat (of_nat (?n - 1) :: u64) = ?n - 1" "unat (of_nat (i + 1) :: u64) = i + 1"
    by (rule unat_of_nat_u64, use l64 mm(3) in simp)+
  have ne: "(of_nat (?n - 1) :: u64) \<noteq> of_nat (i + 1)"
  proof
    assume "(of_nat (?n - 1) :: u64) = of_nat (i + 1)"
    then have "?n - 1 = i + 1" using n by metis
    with mm(3) show False by simp
  qed
  have get: "map_of ?o (?p (of_nat (?n - 1))) = Some e"
    using pr(3) e(1) ne by (simp only: fs_put_def update_conv' fun_upd_apply manifest_path_inject if_False)
  have lst: "fs_list_prefix (manifest_prefix (base_path config) ns) ?o \<noteq> []
      \<and> last (fs_list_prefix (manifest_prefix (base_path config) ns) ?o) = ?p (of_nat (?n - 1))"
  proof (rule listing_last)
    show "map_of ?o (?p (of_nat (?n - 1))) \<noteq> None" using get by (simp only: option.distinct(2) not_False_eq_True)
    show "?n - 1 < 2 ^ 64" using l64 mm(3) by simp
    show "\<exists>j \<le> ?n - 1. key = ?p (of_nat j)"
      if sw: "starts_with (manifest_prefix (base_path config) ns) key" and some: "map_of ?o key \<noteq> None" for key
    proof (cases "key = ?p (of_nat (i + 1))")
      case True
      then show ?thesis using mm(3) by (intro exI [of _ "i + 1"]) simp
    next
      case False
      then have "map_of objs key \<noteq> None" using some pr(4) by (simp add: fs_put_def update_conv')
      then obtain j where "j < ?n" "key = ?p (of_nat j)" using keys [OF sw] by blast
      then show ?thesis by (intro exI [of _ j]) simp
    qed
  qed
  have mm': "manager_of config ns ?mm" using mm(1) by (simp add: manager_of_def)
  have "mm_load_latest J now ?mm ?o = Inr (?mm\<lparr>mm_current := last ms\<rparr>, ?o)"
  proof -
    have "fs_get (?p (of_nat (?n - 1))) ?o = Inr e" using get by (simp only: fs_get_def option.case)
    moreover have "last ms = ms ! (?n - 1)" by (rule last_conv_nth) (use mm(3) in auto)
    moreover have "mf_format_version (ms ! (?n - 1)) = 1" using chain_ids [OF ch, of "?n - 1"] mm(3) by simp
    ultimately show ?thesis
      using lst e(2) unfolding mm_load_latest_def mm_read_def manager_paths [OF mm'] Let_def
      by (simp only: if_False manifest_file_name mid_roundtrip bind_res.simps mf_deserialize_def option.case) simp
  qed
  with pr(1) up show ?thesis by blast
qed


lemma epoch_update_applies: "\<exists>m'. mu_apply now (writer_epoch_update m) m = Inr m'"
  by (simp add: mu_apply_def writer_epoch_update_def Let_def)

lemma snapshot_chain:
  "\<exists>ms h. manifest_chain ns ms h \<and> length ms = Suc n \<and> (\<forall>i < length ms. 0 < i \<longrightarrow> mf_is_snapshot (ms ! i))"
proof (induction n)
  case 0
  then show ?case using manifest_chain.first [of ns] by (intro exI [of _ "[mf_new_empty 0 ns]"] exI [of _ "[]"]) simp
next
  case (Suc n)
  then obtain ms h where ms: "manifest_chain ns ms h" "length ms = Suc n" "\<forall>i < length ms. 0 < i \<longrightarrow> mf_is_snapshot (ms ! i)"
    by blast
  obtain m' where "mu_apply 0 (writer_epoch_update (last ms)) (last ms) = Inr m'" using epoch_update_applies by blast
  then have "commits (0, writer_epoch_update (last ms)) (last ms) (m'\<lparr>mf_is_snapshot := True\<rparr>)" by (simp add: commits_def)
  moreover have "ms \<noteq> []" using ms(2) by auto
  ultimately have "manifest_chain ns (ms @ [m'\<lparr>mf_is_snapshot := True\<rparr>]) (h @ [(0, writer_epoch_update (last ms))])"
    using manifest_chain.extend [OF ms(1)] by blast
  moreover have "length (ms @ [m'\<lparr>mf_is_snapshot := True\<rparr>]) = Suc (Suc n)" using ms(2) by simp
  moreover have "\<forall>i < length (ms @ [m'\<lparr>mf_is_snapshot := True\<rparr>]). 0 < i \<longrightarrow> mf_is_snapshot ((ms @ [m'\<lparr>mf_is_snapshot := True\<rparr>]) ! i)"
    using ms(3) by (auto simp: nth_append less_Suc_eq)
  ultimately show ?case by blast
qed

lemma chain_storable:
  assumes "json_ok J" and "manifest_chain ns ms h" and "length ms \<le> 2 ^ 64"
  shows "\<exists>objs. chain_stored J config ns ms objs"
  using assms(2,3)
proof (induction rule: manifest_chain.induct)
  case nothing
  then show ?case by (intro exI [of _ "[]"]) (simp add: chain_stored_def)
next
  case (first now)
  have "chain_stored J config ns [] []" by (simp add: chain_stored_def)
  then show ?case using chain_stored_put [of J config ns "[]" "[]"] assms(1) unfolding json_ok_def by fastforce
next
  case (extend ms h c m')
  then obtain objs where "chain_stored J config ns ms objs" by auto
  then show ?case using chain_stored_put [of J config ns ms objs] assms(1) extend.prems unfolding json_ok_def by fastforce
qed

definition sample_gc :: manifest_update where
  "sample_gc = \<lparr>mu_trigger = GC, mu_add_sstables = [], mu_remove_sstables = [], mu_new_last_flushed_sequence = None,
     mu_writer_epoch = 0, mu_compactor_epoch = 0\<rparr>"

end
