(* ===== verification/Compaction.thy ===== *)
theory Compaction
  imports Range_Read Manifest_Cluster
begin

text \<open>
  \<^verbatim>\<open>compaction/scheduler.rs\<close> and \<^verbatim>\<open>compaction/executor.rs\<close>: the scheduler picks the SSTables to merge from the manifest, the
  executor merges them into fragments of the target level and commits the exchange to the manifest. The clock and
  the ULIDs are arguments. Errors after the first write leave orphaned objects behind, so the executor returns the
  store with its result; \<open>None\<close> is a panic of the merge iterator.
\<close>

section \<open>Scheduler\<close>

text \<open>The field \<^verbatim>\<open>level_size_ratio\<close>, a float no code reads, is left out; durations are in milliseconds.\<close>

record compaction_config =
  l0_compaction_trigger :: nat
  l0_slowdown_trigger :: nat
  l0_stop_trigger :: nat
  l1_max_bytes :: u64
  l2_max_bytes :: u64
  l3_max_bytes :: u64
  tombstone_ttl :: nat
  tombstone_gc_interval :: nat
  target_fragment_size :: u64

definition compaction_config_default :: compaction_config where
  "compaction_config_default = \<lparr>l0_compaction_trigger = 4, l0_slowdown_trigger = 8, l0_stop_trigger = 12,
     l1_max_bytes = 256 * 1024 * 1024, l2_max_bytes = 2560 * 1024 * 1024, l3_max_bytes = 25600 * 1024 * 1024,
     tombstone_ttl = 7 * 24 * 3600 * 1000, tombstone_gc_interval = 3600 * 1000, target_fragment_size = 64 * 1024 * 1024\<rparr>"

datatype compaction_type = L0ToL1 | LevelToLevel | TombstoneGC

record compaction_task =
  ct_task_type :: compaction_type
  ct_source_level :: level
  ct_target_level :: level
  ct_input_sstables :: "sst_meta list"
  ct_target_sstables :: "sst_meta list"

datatype write_stall_status = Normal | Slowdown nat u64 | Stopped nat

fun stall_is_normal :: "write_stall_status \<Rightarrow> bool" where
  "stall_is_normal Normal = True"
| "stall_is_normal _ = False"

fun stall_is_stopped :: "write_stall_status \<Rightarrow> bool" where
  "stall_is_stopped (Stopped _) = True"
| "stall_is_stopped _ = False"

fun stall_delay_ms :: "write_stall_status \<Rightarrow> u64" where
  "stall_delay_ms (Slowdown _ delay) = delay"
| "stall_delay_ms _ = 0"

fun stall_l0_count :: "write_stall_status \<Rightarrow> nat" where
  "stall_l0_count Normal = 0"
| "stall_l0_count (Slowdown n _) = n"
| "stall_l0_count (Stopped n) = n"

fun widen_range :: "bytes \<times> bytes \<Rightarrow> sst_meta list \<Rightarrow> bytes \<times> bytes" where
  "widen_range r [] = r"
| "widen_range (min_key, max_key) (s # ss) =
     widen_range (if sm_min_key s < min_key then sm_min_key s else min_key,
                  if sm_max_key s > max_key then sm_max_key s else max_key) ss"

definition combined_key_range :: "sst_meta list \<Rightarrow> (bytes \<times> bytes) option" where
  "combined_key_range ssts =
     (case ssts of [] \<Rightarrow> None | s # ss \<Rightarrow> Some (widen_range (sm_min_key s, sm_max_key s) ss))"

definition check_l0_trigger :: "compaction_config \<Rightarrow> manifest \<Rightarrow> compaction_task option" where
  "check_l0_trigger config m =
     (if l0_count m \<le> l0_compaction_trigger config then None
      else let l0_ssts = sstables_at_level L0 m
           in case combined_key_range l0_ssts of
                None \<Rightarrow> None
              | Some (min_key, max_key) \<Rightarrow>
                  Some \<lparr>ct_task_type = L0ToL1, ct_source_level = L0, ct_target_level = L1, ct_input_sstables = l0_ssts,
                        ct_target_sstables = find_overlapping L1 min_key max_key m\<rparr>)"

text \<open>\<^verbatim>\<open>min_by_key\<close>: the first of the elements with the least key.\<close>

fun min_by_key :: "('a \<Rightarrow> 'b :: linorder) \<Rightarrow> 'a list \<Rightarrow> 'a option" where
  "min_by_key f [] = None"
| "min_by_key f (x # xs) = (case min_by_key f xs of None \<Rightarrow> Some x | Some y \<Rightarrow> if f x \<le> f y then Some x else Some y)"

definition check_level_trigger :: "compaction_config \<Rightarrow> manifest \<Rightarrow> level \<Rightarrow> compaction_task option" where
  "check_level_trigger config m l =
     (case (case l of L1 \<Rightarrow> Some (l1_max_bytes config) | L2 \<Rightarrow> Some (l2_max_bytes config) | L3 \<Rightarrow> None | L0 \<Rightarrow> None) of
        None \<Rightarrow> None
      | Some max_bytes \<Rightarrow>
          if level_size_bytes l m \<le> max_bytes then None
          else case level_next l of
                 None \<Rightarrow> None
               | Some target_level \<Rightarrow>
                   (case min_by_key sm_created_at_ms (sstables_at_level l m) of
                      None \<Rightarrow> None
                    | Some input \<Rightarrow>
                        Some \<lparr>ct_task_type = LevelToLevel, ct_source_level = l, ct_target_level = target_level,
                              ct_input_sstables = [input],
                              ct_target_sstables = find_overlapping target_level (sm_min_key input) (sm_max_key input) m\<rparr>))"

definition check_triggers :: "compaction_config \<Rightarrow> manifest \<Rightarrow> compaction_task list" where
  "check_triggers config m =
     List.map_filter id [check_l0_trigger config m, check_level_trigger config m L1, check_level_trigger config m L2]"

definition sched_write_stall_status :: "compaction_config \<Rightarrow> manifest \<Rightarrow> write_stall_status" where
  "sched_write_stall_status config m =
     (let n = l0_count m
      in if n \<ge> l0_stop_trigger config then Stopped n
         else if n > l0_slowdown_trigger config then Slowdown n (of_nat (n - l0_slowdown_trigger config))
         else Normal)"

section \<open>Executor\<close>

record compaction_result =
  cr_output_sstables :: "sst_meta list"
  cr_removed_sstable_ids :: "string list"
  cr_trivial_moves :: nat
  cr_entries_written :: u64
  cr_entries_dropped :: u64
  cr_bytes_read :: u64
  cr_bytes_written :: u64

record compaction_executor =
  ce_sst_config :: sst_config
  ce_compaction_config :: compaction_config
  ce_namespace :: string

definition generate_sst_path :: "string \<Rightarrow> string \<Rightarrow> u32 \<Rightarrow> string" where
  "generate_sst_path ulid namespace l = ''flushdb/'' @ namespace @ ''/sstables/L'' @ dec (unat l) @ ''/'' @ ulid @ ''.sst''"

definition generate_run_fragment_path :: "string \<Rightarrow> u32 \<Rightarrow> string \<Rightarrow> u32 \<Rightarrow> string" where
  "generate_run_fragment_path namespace l run_id fragment_index =
     ''flushdb/'' @ namespace @ ''/sstables/L'' @ dec (unat l) @ ''/run-'' @ run_id @ ''/frag-'' @ pad0 4 (unat fragment_index) @ ''.sst''"

subsection \<open>Trivial moves\<close>

fun copy_inputs :: "string \<Rightarrow> level \<Rightarrow> level \<Rightarrow> sst_meta list \<Rightarrow> u64 \<Rightarrow> objects \<Rightarrow> u64 flush_result \<times> objects" where
  "copy_inputs namespace source target [] bytes_copied objs = (Inr bytes_copied, objs)"
| "copy_inputs namespace source target (input # inputs) bytes_copied objs =
     (case fs_get (sst_path namespace source input) objs of
        Inl e \<Rightarrow> (Inl e, objs)
      | Inr d \<Rightarrow> copy_inputs namespace source target inputs (bytes_copied + of_nat (length d))
                   (fs_put (sst_path namespace target input) d objs))"

definition move_update :: "compaction_task \<Rightarrow> (level \<times> sst_meta) list \<Rightarrow> manifest_manager \<Rightarrow> manifest_update" where
  "move_update task trivial_metas mm =
     \<lparr>mu_trigger = Compaction, mu_add_sstables = trivial_metas,
      mu_remove_sstables = map (\<lambda>m. (ct_source_level task, sm_id m)) (ct_input_sstables task),
      mu_new_last_flushed_sequence = None, mu_writer_epoch = mm_writer_epoch mm, mu_compactor_epoch = mm_compactor_epoch mm\<rparr>"

definition trivial_move ::
  "manifest_json \<Rightarrow> (nat \<Rightarrow> u64) \<Rightarrow> compaction_executor \<Rightarrow> compaction_task \<Rightarrow> (level \<times> sst_meta) list \<Rightarrow> manifest_manager \<Rightarrow> objects
    \<Rightarrow> compaction_result flush_result \<times> manifest_manager \<times> objects" where
  "trivial_move J clock ce task trivial_metas mm objs =
     (let source_paths = map (sst_path (ce_namespace ce) (ct_source_level task)) (ct_input_sstables task)
      in case copy_inputs (ce_namespace ce) (ct_source_level task) (ct_target_level task) (ct_input_sstables task) 0 objs of
           (Inl e, objs) \<Rightarrow> (Inl e, mm, objs)
         | (Inr bytes_copied, objs) \<Rightarrow>
             (case mm_update J clock (move_update task trivial_metas mm) mm objs of
                (Inl e, mm, objs) \<Rightarrow> (Inl e, mm, objs)
              | (Inr _, mm, objs) \<Rightarrow>
                  (Inr \<lparr>cr_output_sstables = map snd trivial_metas, cr_removed_sstable_ids = map sm_id (ct_input_sstables task),
                        cr_trivial_moves = length trivial_metas, cr_entries_written = 0, cr_entries_dropped = 0,
                        cr_bytes_read = bytes_copied, cr_bytes_written = bytes_copied\<rparr>,
                   mm, fold fs_delete source_paths objs)))"

subsection \<open>Reading the inputs\<close>

fun collect_blocks :: "block_fetcher \<Rightarrow> sst_handle \<Rightarrow> nat list \<Rightarrow> block_entry list flush_result" where
  "collect_blocks F h [] = Inr []"
| "collect_blocks F h (i # is) =
     bind_res (handle_get_block F h i) (\<lambda>entries. bind_res (collect_blocks F h is) (\<lambda>es. Inr (entries @ es)))"

definition collect_all_entries :: "block_fetcher \<Rightarrow> sst_handle \<Rightarrow> block_entry list flush_result" where
  "collect_all_entries F h = collect_blocks F h [0..<ib_block_count (hn_index_block h)]"

fun open_inputs :: "codecs \<Rightarrow> string \<Rightarrow> compaction_task \<Rightarrow> sst_meta list \<Rightarrow> block_fetcher \<Rightarrow> sst_meta list \<Rightarrow> sst_handle list flush_result" where
  "open_inputs E namespace task inputs F [] = Inr []"
| "open_inputs E namespace task inputs F (meta # metas) =
     (let l = (if list_ex (\<lambda>m. sm_id m = sm_id meta) inputs then ct_source_level task else ct_target_level task)
      in bind_res (handle_open E meta (sst_path namespace l meta) F) (\<lambda>h.
         bind_res (open_inputs E namespace task inputs F metas) (\<lambda>hs. Inr (h # hs))))"

fun input_sources :: "block_fetcher \<Rightarrow> nat \<Rightarrow> sst_handle list \<Rightarrow> (vec_source list \<times> nat) flush_result" where
  "input_sources F source_id [] = Inr ([], source_id)"
| "input_sources F source_id (h # hs) =
     bind_res (collect_all_entries F h) (\<lambda>entries.
     bind_res (input_sources F (source_id + 1) hs) (\<lambda>(ss, n).
     Inr (vs_new (map mg_from_block_entry entries) source_id # ss, n)))"

subsection \<open>Writing the fragments\<close>

record compaction_state =
  cs_fragment_index :: u32
  cs_output_metas :: "sst_meta list"
  cs_current_entries :: "memtable_entry list"
  cs_current_size :: u64
  cs_entries_written :: u64
  cs_entries_dropped :: u64
  cs_bytes_written :: u64
  cs_min_seq :: u64
  cs_max_seq :: u64
  cs_record_ids :: "bytes set"

definition cs_init :: compaction_state where
  "cs_init = \<lparr>cs_fragment_index = 0, cs_output_metas = [], cs_current_entries = [], cs_current_size = 0, cs_entries_written = 0,
     cs_entries_dropped = 0, cs_bytes_written = 0, cs_min_seq = - 1, cs_max_seq = 0, cs_record_ids = {}\<rparr>"

definition me_of_mg :: "merge_entry \<Rightarrow> memtable_entry" where
  "me_of_mg e = me_with_sequence (mg_composite_key e) (mg_value e) (mg_metadata e) token_none (mg_sequence_number e) (mg_entry_type e)"

definition cs_add :: "merge_entry \<Rightarrow> compaction_state \<Rightarrow> compaction_state" where
  "cs_add e cs =
     cs\<lparr>cs_min_seq := (if mg_sequence_number e < cs_min_seq cs then mg_sequence_number e else cs_min_seq cs),
        cs_max_seq := (if mg_sequence_number e > cs_max_seq cs then mg_sequence_number e else cs_max_seq cs),
        cs_record_ids := insert (record_id (mg_composite_key e)) (cs_record_ids cs),
        cs_current_entries := cs_current_entries cs @ [me_of_mg e],
        cs_current_size := cs_current_size cs + of_nat (entry_bytes e + 20),
        cs_entries_written := cs_entries_written cs + 1\<rparr>"

definition cs_emit ::
  "codecs \<Rightarrow> compaction_executor \<Rightarrow> u64 \<Rightarrow> string \<Rightarrow> (sst_meta \<Rightarrow> sst_meta) \<Rightarrow> compaction_state \<Rightarrow> objects
    \<Rightarrow> (compaction_state \<times> objects) flush_result" where
  "cs_emit E ce now path mark cs objs =
     bind_res (sst_write E (ce_sst_config ce) path (cs_current_entries cs) objs) (\<lambda>(info, objs).
       let meta = mark (from_sst_info info (cs_min_seq cs, cs_max_seq cs) (of_nat (card (cs_record_ids cs))) now)
       in Inr (cs\<lparr>cs_bytes_written := cs_bytes_written cs + si_file_size info, cs_output_metas := cs_output_metas cs @ [meta],
                  cs_current_entries := []\<rparr>, objs))"

definition fragment_mark :: "string \<Rightarrow> u32 \<Rightarrow> sst_meta \<Rightarrow> sst_meta" where
  "fragment_mark run_id i m = m\<lparr>sm_run_id := Some run_id, sm_fragment_index := Some i\<rparr>"

text \<open>The body of the merge loop for one entry, with the fragment boundary.\<close>

definition compact_entry ::
  "codecs \<Rightarrow> compaction_executor \<Rightarrow> level \<Rightarrow> u64 \<Rightarrow> string \<Rightarrow> merge_entry \<Rightarrow> compaction_state \<Rightarrow> objects
    \<Rightarrow> (compaction_state \<times> objects) flush_result" where
  "compact_entry E ce target now run_id e cs objs =
     (if level_is_bottom target \<and> mg_is_tombstone e
      then Inr (cs\<lparr>cs_entries_dropped := cs_entries_dropped cs + 1\<rparr>, objs)
      else let cs = cs_add e cs
           in if cs_current_size cs \<ge> target_fragment_size (ce_compaction_config ce)
              then let path = generate_run_fragment_path (ce_namespace ce) (ucast (level_as_u8 target)) run_id (cs_fragment_index cs)
                   in bind_res (cs_emit E ce now path (fragment_mark run_id (cs_fragment_index cs)) cs objs) (\<lambda>(cs, objs).
                      Inr (cs\<lparr>cs_fragment_index := cs_fragment_index cs + 1, cs_current_size := 0, cs_min_seq := - 1, cs_max_seq := 0,
                              cs_record_ids := {}\<rparr>, objs))
              else Inr (cs, objs))"

fun compact_loop ::
  "nat \<Rightarrow> codecs \<Rightarrow> compaction_executor \<Rightarrow> level \<Rightarrow> u64 \<Rightarrow> string \<Rightarrow> merge_iterator \<Rightarrow> compaction_state \<Rightarrow> objects
    \<Rightarrow> (compaction_state flush_result \<times> objects) option" where
  "compact_loop fuel E ce target now run_id it cs objs =
     (case next_deduped it of
        None \<Rightarrow> None
      | Some (None, _) \<Rightarrow> Some (Inr cs, objs)
      | Some (Some e, it) \<Rightarrow>
          (case fuel of
             0 \<Rightarrow> None
           | Suc n \<Rightarrow>
               (case compact_entry E ce target now run_id e cs objs of
                  Inl err \<Rightarrow> Some (Inl err, objs)
                | Inr (cs, objs) \<Rightarrow> compact_loop n E ce target now run_id it cs objs)))"

declare compact_loop.simps [simp del]

definition write_remaining ::
  "codecs \<Rightarrow> compaction_executor \<Rightarrow> level \<Rightarrow> u64 \<Rightarrow> string \<Rightarrow> string \<Rightarrow> compaction_state \<Rightarrow> objects
    \<Rightarrow> (compaction_state \<times> objects) flush_result" where
  "write_remaining E ce target now run_id ulid cs objs =
     (if cs_current_entries cs = [] then Inr (cs, objs)
      else if cs_fragment_index cs = 0
      then cs_emit E ce now (generate_sst_path ulid (ce_namespace ce) (ucast (level_as_u8 target))) (\<lambda>m. m) cs objs
      else cs_emit E ce now (generate_run_fragment_path (ce_namespace ce) (ucast (level_as_u8 target)) run_id (cs_fragment_index cs))
             (fragment_mark run_id (cs_fragment_index cs)) cs objs)"

subsection \<open>A whole compaction\<close>

definition merge_update :: "compaction_task \<Rightarrow> sst_meta list \<Rightarrow> manifest_manager \<Rightarrow> manifest_update" where
  "merge_update task outputs mm =
     \<lparr>mu_trigger = Compaction, mu_add_sstables = map (\<lambda>m. (ct_target_level task, m)) outputs,
      mu_remove_sstables = map (\<lambda>m. (ct_source_level task, sm_id m)) (ct_input_sstables task)
        @ map (\<lambda>m. (ct_target_level task, sm_id m)) (ct_target_sstables task),
      mu_new_last_flushed_sequence = None, mu_writer_epoch = mm_writer_epoch mm, mu_compactor_epoch = mm_compactor_epoch mm\<rparr>"

definition merge_move ::
  "codecs \<Rightarrow> manifest_json \<Rightarrow> (nat \<Rightarrow> u64) \<Rightarrow> compaction_executor \<Rightarrow> u64 \<Rightarrow> string \<Rightarrow> string \<Rightarrow> compaction_task \<Rightarrow> block_fetcher
    \<Rightarrow> manifest_manager \<Rightarrow> objects \<Rightarrow> (compaction_result flush_result \<times> manifest_manager \<times> objects) option" where
  "merge_move E J clock ce now run_id ulid task F mm objs =
     (let inputs = ct_input_sstables task; all_inputs = inputs @ ct_target_sstables task
      in case bind_res (open_inputs E (ce_namespace ce) task inputs F all_inputs) (\<lambda>handles.
              bind_res (input_sources F 0 (take (length inputs) handles)) (\<lambda>(ss, n).
              bind_res (input_sources F n (drop (length inputs) handles)) (\<lambda>(ss', _). Inr (ss @ ss')))) of
           Inl e \<Rightarrow> Some (Inl e, mm, objs)
         | Inr sources \<Rightarrow>
             (let it = mi_new sources
              in case compact_loop (mi_left it) E ce (ct_target_level task) now run_id it cs_init objs of
                   None \<Rightarrow> None
                 | Some (Inl e, objs) \<Rightarrow> Some (Inl e, mm, objs)
                 | Some (Inr cs, objs) \<Rightarrow>
                     (case write_remaining E ce (ct_target_level task) now run_id ulid cs objs of
                        Inl e \<Rightarrow> Some (Inl e, mm, objs)
                      | Inr (cs, objs) \<Rightarrow>
                          (case mm_update J clock (merge_update task (cs_output_metas cs) mm) mm objs of
                             (Inl e, mm, objs) \<Rightarrow> Some (Inl e, mm, objs)
                           | (Inr _, mm, objs) \<Rightarrow>
                               Some (Inr \<lparr>cr_output_sstables = cs_output_metas cs, cr_removed_sstable_ids = map sm_id all_inputs,
                                          cr_trivial_moves = 0, cr_entries_written = cs_entries_written cs,
                                          cr_entries_dropped = cs_entries_dropped cs,
                                          cr_bytes_read = sum_list (map sm_size_bytes all_inputs),
                                          cr_bytes_written = cs_bytes_written cs\<rparr>, mm, objs)))))"

text \<open>A task with no inputs and nothing to move falls through to the merge, which then writes nothing.\<close>

definition ce_execute ::
  "codecs \<Rightarrow> manifest_json \<Rightarrow> (nat \<Rightarrow> u64) \<Rightarrow> compaction_executor \<Rightarrow> u64 \<Rightarrow> string \<Rightarrow> string \<Rightarrow> compaction_task \<Rightarrow> block_fetcher
    \<Rightarrow> manifest_manager \<Rightarrow> objects \<Rightarrow> (compaction_result flush_result \<times> manifest_manager \<times> objects) option" where
  "ce_execute E J clock ce now run_id ulid task F mm objs =
     (let trivial = (ct_task_type task = LevelToLevel \<and> ct_target_sstables task = []);
          trivial_metas = (if trivial then map (\<lambda>m. (ct_target_level task, m\<lparr>sm_created_at_ms := now\<rparr>)) (ct_input_sstables task) else [])
      in if trivial_metas \<noteq> [] then Some (trivial_move J clock ce task trivial_metas mm objs)
         else merge_move E J clock ce now run_id ulid task F mm objs)"

end
