(* ===== verification/Level_Store.thy ===== *)
theory Level_Store
  imports Compaction
begin

text \<open>
  The levels of a namespace as the manifest describes them. \<open>store_ok\<close> ties a manifest and the object store to the tables
  of entries they stand for: every listed SSTable opens, holds its table, is the only one with its id, and newer
  versions of a key are never below older ones. \<^verbatim>\<open>recovery.rs\<close> opens such a store into handles; what the read path
  returns over them depends on the tables only. Flushes and compactions are shown to keep the relation.
\<close>

section \<open>Opening the levels (recovery.rs)\<close>

fun open_levels :: "codecs \<Rightarrow> string \<Rightarrow> block_fetcher \<Rightarrow> manifest \<Rightarrow> level list \<Rightarrow> level_state list flush_result" where
  "open_levels E namespace F m [] = Inr []"
| "open_levels E namespace F m (l # ls) =
     (let metas = sstables_at_level l m
      in bind_res (if metas = [] then Inr \<lparr>ls_level = l, ls_handles = []\<rparr> else level_open_all E l metas namespace F) (\<lambda>s.
         bind_res (open_levels E namespace F m ls) (\<lambda>ss. Inr (s # ss))))"

section \<open>Where an SSTable is stored\<close>

definition sst_location :: "string \<Rightarrow> level \<Rightarrow> string \<Rightarrow> string" where
  "sst_location ns l i = ''flushdb/'' @ ns @ ''/sstables/'' @ level_as_str l @ ''/'' @ i @ ''.sst''"

definition fragment_id :: "string \<Rightarrow> u32 \<Rightarrow> string" where
  "fragment_id r i = ''run-'' @ r @ ''/frag-'' @ pad0 4 (unat i)"

definition named :: "sst_meta \<Rightarrow> bool" where
  "named m \<longleftrightarrow> (case (sm_run_id m, sm_fragment_index m) of (Some r, Some i) \<Rightarrow> sm_id m = fragment_id r i | _ \<Rightarrow> True)"

lemma sst_path_location: "named m \<Longrightarrow> sst_path ns l m = sst_location ns l (sm_id m)"
  by (auto simp: named_def sst_path_def sst_location_def fragment_id_def split: option.splits)

lemma level_as_str_length [simp]: "length (level_as_str l) = 2"
  by (cases l) simp_all

lemma level_as_str_inject [simp]: "level_as_str l = level_as_str l' \<longleftrightarrow> l = l'"
  by (cases l; cases l') simp_all

lemma sst_location_inject [simp]: "sst_location ns l i = sst_location ns l' i' \<longleftrightarrow> l = l' \<and> i = i'"
  by (auto simp: sst_location_def append_eq_append_conv)

lemma set_pad0: "c \<in> set (pad0 w n) \<Longrightarrow> digit_val c \<noteq> None"
proof -
  have "\<forall>c \<in> set (dec n). digit_val c \<noteq> None" for n
  proof (induction n rule: dec.induct)
    case (1 n)
    then show ?case by (subst dec.simps) auto
  qed
  moreover have "digit_val CHR ''0'' \<noteq> None" by code_simp
  ultimately show "c \<in> set (pad0 w n) \<Longrightarrow> digit_val c \<noteq> None" by (auto simp: pad0_def)
qed

lemma no_digit: "digit_val CHR ''t'' = None" "digit_val CHR ''/'' = None" "digit_val CHR ''.'' = None"
  by code_simp+

lemma pad0_chars: "CHR ''t'' \<notin> set (pad0 w n)" "CHR ''/'' \<notin> set (pad0 w n)" "CHR ''.'' \<notin> set (pad0 w n)" "pad0 w n \<noteq> []"
  using set_pad0 no_digit by (metis, metis, metis) (simp add: pad0_def)

lemma location_not_manifest [simp]: "sst_location ns l i \<noteq> manifest_path b ns' j"
proof
  assume "sst_location ns l i = manifest_path b ns' j"
  then have "last (sst_location ns l i) = last (manifest_path b ns' j)" by simp
  moreover have "last (pad0 20 (unat j)) \<noteq> CHR ''t''" using pad0_chars(1,4) [of 20 "unat j"] last_in_set by metis
  ultimately show False using pad0_chars(4) [of 20 "unat j"] by (auto simp: sst_location_def manifest_path_def mid_to_path_string_def)
qed

lemma digit_chars: "digit_char 0 = CHR ''0''" "digit_char (Suc 0) = CHR ''1''" "digit_char 2 = CHR ''2''" "digit_char 3 = CHR ''3''"
  by code_simp+

lemma dec_level: "''L'' @ dec (unat (ucast (level_as_u8 l) :: u32)) = level_as_str l"
  by (cases l) (simp_all add: dec.simps digit_chars)

lemma generate_paths:
  "generate_sst_path ulid ns (ucast (level_as_u8 l)) = sst_location ns l ulid"
  "generate_run_fragment_path ns (ucast (level_as_u8 l)) r i = sst_location ns l (fragment_id r i)"
  by (simp_all add: generate_sst_path_def generate_run_fragment_path_def sst_location_def fragment_id_def dec_level [symmetric])


text \<open>ULIDs are letters and digits; only the path separators matter here.\<close>

definition ulid_ok :: "string \<Rightarrow> bool" where
  "ulid_ok s \<longleftrightarrow> CHR ''/'' \<notin> set s \<and> CHR ''.'' \<notin> set s"

lemma trim_sst: "CHR ''.'' \<notin> set s \<Longrightarrow> trim_end_matches ''.sst'' (s @ ''.sst'') = s"
proof -
  assume "CHR ''.'' \<notin> set s"
  then have "CHR ''.'' \<notin> set (take 4 (rev s))" by (auto dest: in_set_takeD)
  then have "take 4 (rev s) \<noteq> rev ''.sst''" by (metis list.set_intros(1) set_rev)
  then have "\<not> starts_with (rev ''.sst'') (rev s)" by (simp add: starts_with_def numeral_eq_Suc)
  then have "trim_end_matches ''.sst'' s = s" by (subst trim_end_matches.simps) simp
  then show ?thesis by (subst trim_end_matches.simps) (simp add: starts_with_def)
qed

lemma path_parent_append: "CHR ''/'' \<notin> set f \<Longrightarrow> path_parent (d @ ''/'' @ f) = Some d"
proof -
  assume "CHR ''/'' \<notin> set f"
  then have "dropWhile (\<lambda>c. c \<noteq> CHR ''/'') (rev f @ CHR ''/'' # rev d) = CHR ''/'' # rev d"
    by (subst dropWhile_append2) auto
  then show ?thesis by (simp add: path_parent_def)
qed

lemma file_name_last: "CHR ''/'' \<notin> set f \<Longrightarrow> path_file_name (d @ CHR ''/'' # f) = f"
  using path_file_name_append [of f d] by simp

lemma sst_id_location:
  "ulid_ok u \<Longrightarrow> sst_id_of_path (sst_location ns l u) = u"
  "ulid_ok r \<Longrightarrow> sst_id_of_path (sst_location ns l (fragment_id r i)) = fragment_id r i"
proof -
  let ?d = "''flushdb/'' @ ns @ ''/sstables/'' @ level_as_str l"
  have lv: "CHR ''/'' \<notin> set (level_as_str l)" "\<not> starts_with ''run-'' (level_as_str l)" by (cases l; simp add: starts_with_def)+
  show "sst_id_of_path (sst_location ns l u) = u" if u: "ulid_ok u"
  proof -
    have f: "CHR ''/'' \<notin> set (u @ ''.sst'')" using u by (simp add: ulid_ok_def)
    have p: "sst_location ns l u = ?d @ ''/'' @ (u @ ''.sst'')" by (simp add: sst_location_def)
    have "path_file_name ?d = level_as_str l"
      using path_file_name_append [OF lv(1), of "''flushdb/'' @ ns @ ''/sstables''"] by simp
    then show ?thesis
      using trim_sst [of u] u lv(2) unfolding sst_id_of_path_def Let_def p path_file_name_append [OF f] path_parent_append [OF f]
      by (simp add: ulid_ok_def)
  qed
  show "sst_id_of_path (sst_location ns l (fragment_id r i)) = fragment_id r i" if r: "ulid_ok r"
  proof -
    let ?e = "?d @ ''/'' @ ''run-'' @ r" and ?n = "''frag-'' @ pad0 4 (unat i)"
    have f: "CHR ''/'' \<notin> set (?n @ ''.sst'')" "CHR ''.'' \<notin> set ?n" using pad0_chars by simp_all
    have p: "sst_location ns l (fragment_id r i) = ?e @ ''/'' @ (?n @ ''.sst'')" by (simp add: sst_location_def fragment_id_def)
    have "path_file_name ?e = ''run-'' @ r"
      by (rule path_file_name_append) (use r in \<open>simp add: ulid_ok_def\<close>)
    then show ?thesis
      unfolding sst_id_of_path_def Let_def p path_file_name_append [OF f(1)] path_parent_append [OF f(1)] trim_sst [OF f(2)]
      by (simp add: starts_with_def fragment_id_def)
  qed
qed

lemma fragment_id_inject [simp]: "fragment_id r i = fragment_id r j \<longleftrightarrow> i = j"
  by (auto simp: fragment_id_def intro: unsigned_word_eqI dest: pad0_inject)

section \<open>What a store holds\<close>

definition meta_repr :: "codecs \<Rightarrow> objects \<Rightarrow> string \<Rightarrow> level \<Rightarrow> sst_meta \<Rightarrow> memtable_entry list \<Rightarrow> bool" where
  "meta_repr E objs ns l m es \<longleftrightarrow>
     (\<exists>h. handle_open E m (sst_path ns l m) (direct_fetcher E objs) = Inr h \<and> handle_repr E objs h es)"

definition table_less :: "memtable_entry list \<Rightarrow> memtable_entry list \<Rightarrow> bool" where
  "table_less a b \<longleftrightarrow> (\<forall>x \<in> set a. \<forall>y \<in> set b. me_composite_key x < me_composite_key y)"

type_synonym tables = "level \<Rightarrow> memtable_entry list list"

definition table_entries :: "tables \<Rightarrow> memtable_entry list" where
  "table_entries T = concat (concat (map T level_all))"

definition level_order :: "tables \<Rightarrow> bool" where
  "level_order T \<longleftrightarrow> (\<forall>l l'. level_as_u8 l < level_as_u8 l' \<longrightarrow>
     (\<forall>x \<in> set (concat (T l)). \<forall>y \<in> set (concat (T l')).
        me_composite_key x = me_composite_key y \<longrightarrow> me_sequence_number y < me_sequence_number x))"

definition store_ok :: "codecs \<Rightarrow> objects \<Rightarrow> string \<Rightarrow> manifest \<Rightarrow> tables \<Rightarrow> bool" where
  "store_ok E objs ns m T \<longleftrightarrow>
     (\<forall>l. list_all2 (meta_repr E objs ns l) (sstables_at_level l m) (T l))
     \<and> (\<forall>l. \<not> level_is_overlapping l \<longrightarrow> sorted_wrt table_less (T l))
     \<and> distinct (all_sstable_ids m) \<and> (\<forall>l. \<forall>s \<in> set (sstables_at_level l m). named s)
     \<and> level_order T \<and> (\<forall>e \<in> set (table_entries T). entry_ok e)"

text \<open>The same without the condition that no SSTable splits the versions of a key over two blocks, and that condition.\<close>

definition meta_holds :: "codecs \<Rightarrow> objects \<Rightarrow> string \<Rightarrow> level \<Rightarrow> sst_meta \<Rightarrow> memtable_entry list \<Rightarrow> bool" where
  "meta_holds E objs ns l m es \<longleftrightarrow>
     (\<exists>h. handle_open E m (sst_path ns l m) (direct_fetcher E objs) = Inr h \<and> handle_holds E objs h es)"

definition store_holds :: "codecs \<Rightarrow> objects \<Rightarrow> string \<Rightarrow> manifest \<Rightarrow> tables \<Rightarrow> bool" where
  "store_holds E objs ns m T \<longleftrightarrow>
     (\<forall>l. list_all2 (meta_holds E objs ns l) (sstables_at_level l m) (T l))
     \<and> (\<forall>l. \<not> level_is_overlapping l \<longrightarrow> sorted_wrt table_less (T l))
     \<and> distinct (all_sstable_ids m) \<and> (\<forall>l. \<forall>s \<in> set (sstables_at_level l m). named s)
     \<and> level_order T \<and> (\<forall>e \<in> set (table_entries T). entry_ok e)"

definition unsplit_meta :: "codecs \<Rightarrow> objects \<Rightarrow> string \<Rightarrow> level \<Rightarrow> sst_meta \<Rightarrow> bool" where
  "unsplit_meta E objs ns l m \<longleftrightarrow> (\<exists>h. handle_open E m (sst_path ns l m) (direct_fetcher E objs) = Inr h \<and> unsplit E objs h)"

definition unsplit_store :: "codecs \<Rightarrow> objects \<Rightarrow> string \<Rightarrow> manifest \<Rightarrow> bool" where
  "unsplit_store E objs ns m \<longleftrightarrow> (\<forall>l. \<forall>s \<in> set (sstables_at_level l m). unsplit_meta E objs ns l s)"

lemma store_ok_unsplit: "store_ok E objs ns m T \<longleftrightarrow> store_holds E objs ns m T \<and> unsplit_store E objs ns m"
proof -
  have "meta_repr E objs ns l = (\<lambda>s es. meta_holds E objs ns l s es \<and> unsplit_meta E objs ns l s)" for l
    by (intro ext) (auto simp: meta_repr_def meta_holds_def unsplit_meta_def handle_repr_unsplit)
  then have "list_all2 (meta_repr E objs ns l) ss tables \<longleftrightarrow> list_all2 (meta_holds E objs ns l) ss tables \<and> (\<forall>s \<in> set ss. unsplit_meta E objs ns l s)" for l ss tables
    by (simp add: list_all2_conj_left)
  then show ?thesis unfolding store_ok_def store_holds_def unsplit_store_def by (simp only:) blast
qed

lemma handle_open_fields: "handle_open E m p F = Inr h \<Longrightarrow> hn_meta h = m \<and> hn_path h = p"
  by (auto simp: handle_open_def Let_def)

lemma fs_get_range_cong: "fs_get p objs = fs_get p objs' \<Longrightarrow> fs_get_range p off n objs = fs_get_range p off n objs'"
  by (auto simp: fs_get_def fs_get_range_def split: option.splits)

lemma handle_open_cong:
  "fs_get p objs = fs_get p objs' \<Longrightarrow> handle_open E m p (direct_fetcher E objs) = handle_open E m p (direct_fetcher E objs')"
  using fs_get_range_cong [of p objs objs'] by (simp add: handle_open_def Let_def)

lemma handle_repr_cong: "fs_get (hn_path h) objs = fs_get (hn_path h) objs' \<Longrightarrow> handle_repr E objs h es \<longleftrightarrow> handle_repr E objs' h es"
  by (simp add: handle_repr_def handle_image_def)

lemma meta_repr_cong:
  assumes "fs_get (sst_path ns l m) objs = fs_get (sst_path ns l m) objs'"
  shows "meta_repr E objs ns l m es \<longleftrightarrow> meta_repr E objs' ns l m es"
  using handle_open_cong [OF assms] handle_repr_cong [of _ objs objs'] handle_open_fields assms unfolding meta_repr_def by metis

lemma meta_repr_bounds:
  assumes "meta_repr E objs ns l m es"
  shows "es \<noteq> []" and "sorted_wrt ver_less es" and "sm_min_key m = as_bytes (me_composite_key (hd es))"
    and "sm_max_key m = as_bytes (me_composite_key (last es))"
    and "\<forall>e \<in> set es. me_composite_key (hd es) \<le> me_composite_key e \<and> me_composite_key e \<le> me_composite_key (last es)"
proof -
  obtain h where h: "hn_meta h = m" "handle_repr E objs h es" using assms handle_open_fields unfolding meta_repr_def by blast
  show "es \<noteq> []" "sorted_wrt ver_less es" using handle_repr_ne [OF h(2)] handle_repr_sorted [OF h(2)] by auto
  show mm: "sm_min_key m = as_bytes (me_composite_key (hd es))" "sm_max_key m = as_bytes (me_composite_key (last es))"
    using h by (auto simp: handle_repr_def handle_image_def)
  show "\<forall>e \<in> set es. me_composite_key (hd es) \<le> me_composite_key e \<and> me_composite_key e \<le> me_composite_key (last es)"
    using handle_repr_bounds(1,2) [OF h(2)] mm h(1) by (auto simp: less_eq_composite_key_def)
qed

lemma open_handles_repr:
  assumes "list_all2 (meta_repr E objs ns l) metas tables"
  shows "\<exists>hs. open_handles E l ns (direct_fetcher E objs) metas = Inr hs \<and> list_all2 (handle_repr E objs) hs tables
    \<and> map hn_meta hs = metas"
  using assms
proof (induction metas tables rule: list_all2_induct)
  case (Cons m metas es tables)
  obtain h where h: "handle_open E m (sst_path ns l m) (direct_fetcher E objs) = Inr h" "handle_repr E objs h es"
    using Cons.hyps(1) by (auto simp: meta_repr_def)
  then show ?case using Cons.IH handle_open_fields [OF h(1)] by auto
qed simp

lemma tables_min_sorted:
  assumes "list_all2 (meta_repr E objs ns l) metas tables" and "sorted_wrt table_less tables"
  shows "sorted (map sm_min_key metas)"
proof -
  have "sm_min_key (metas ! i) \<le> sm_min_key (metas ! j)" if ij: "i < j" "j < length metas" for i j
  proof -
    have len: "length metas = length tables" using assms(1) by (rule list_all2_lengthD)
    have r: "meta_repr E objs ns l (metas ! i) (tables ! i)" "meta_repr E objs ns l (metas ! j) (tables ! j)"
      using assms(1) ij by (auto simp: list_all2_conv_all_nth)
    have "table_less (tables ! i) (tables ! j)" using assms(2) ij len by (simp add: sorted_wrt_iff_nth_less)
    moreover have "hd (tables ! i) \<in> set (tables ! i)" "hd (tables ! j) \<in> set (tables ! j)"
      using meta_repr_bounds(1) [OF r(1)] meta_repr_bounds(1) [OF r(2)] by simp_all
    ultimately have "me_composite_key (hd (tables ! i)) < me_composite_key (hd (tables ! j))" by (simp add: table_less_def)
    then show ?thesis using meta_repr_bounds(3) [OF r(1)] meta_repr_bounds(3) [OF r(2)] by (simp add: less_composite_key_def)
  qed
  then show ?thesis by (simp add: sorted_iff_nth_mono_less)
qed

lemma level_open_repr:
  assumes st: "store_ok E objs ns m T"
  shows "\<exists>s. (if sstables_at_level l m = [] then Inr \<lparr>ls_level = l, ls_handles = []\<rparr>
        else level_open_all E l (sstables_at_level l m) ns (direct_fetcher E objs)) = Inr s \<and> level_repr E objs s (T l)"
proof -
  let ?metas = "sstables_at_level l m"
  have r: "list_all2 (meta_repr E objs ns l) ?metas (T l)" and srt: "\<not> level_is_overlapping l \<longrightarrow> sorted_wrt table_less (T l)"
    using st by (simp_all add: store_ok_def)
  obtain hs where hs: "open_handles E l ns (direct_fetcher E objs) ?metas = Inr hs" "list_all2 (handle_repr E objs) hs (T l)"
    "map hn_meta hs = ?metas" using open_handles_repr [OF r] by blast
  have "sorted (map (\<lambda>h. sm_min_key (hn_meta h)) hs)" if "\<not> level_is_overlapping l"
  proof -
    have "sorted (map sm_min_key (map hn_meta hs))" using tables_min_sorted [OF r] srt that hs(3) by simp
    then show ?thesis by (simp add: o_def)
  qed
  then have keep: "\<not> level_is_overlapping l \<Longrightarrow> sort_key (\<lambda>h. sm_min_key (hn_meta h)) hs = hs" by (simp add: sort_key_id_if_sorted)
  show ?thesis
  proof (cases "?metas = []")
    case True
    then show ?thesis using r srt by (simp add: level_repr_def table_less_def [abs_def])
  next
    case False
    then show ?thesis using hs keep srt by (auto simp: level_open_all_def level_repr_def table_less_def [abs_def])
  qed
qed

lemma open_levels_repr:
  assumes "store_ok E objs ns m T"
  shows "\<exists>levels. open_levels E ns (direct_fetcher E objs) m level_all = Inr levels \<and> levels_repr E objs levels (table_entries T)"
proof -
  have "\<exists>levels. open_levels E ns (direct_fetcher E objs) m ls = Inr levels \<and> list_all2 (level_repr E objs) levels (map T ls)" for ls
  proof (induction ls)
    case (Cons l ls)
    obtain s where s: "(if sstables_at_level l m = [] then Inr \<lparr>ls_level = l, ls_handles = []\<rparr>
        else level_open_all E l (sstables_at_level l m) ns (direct_fetcher E objs)) = Inr s" "level_repr E objs s (T l)"
      using level_open_repr [OF assms] by blast
    obtain levels where levels: "open_levels E ns (direct_fetcher E objs) m ls = Inr levels" "list_all2 (level_repr E objs) levels (map T ls)"
      using Cons by blast
    have "open_levels E ns (direct_fetcher E objs) m (l # ls) = Inr (s # levels)"
      unfolding open_levels.simps Let_def s(1) by (simp add: levels(1))
    then show ?case using s(2) levels(2) by simp
  qed simp
  then show ?thesis unfolding levels_repr_def table_entries_def by blast
qed

section \<open>Reads depend on what is visible\<close>

definition same_visible :: "memtable_entry list \<Rightarrow> memtable_entry list \<Rightarrow> memtable_entry list \<Rightarrow> memtable_entry list \<Rightarrow> bool" where
  "same_visible mem base mem' base' \<longleftrightarrow>
     (\<forall>k. mg_from_memtable_entry ` {e. visible mem base k e} = mg_from_memtable_entry ` {e. visible mem' base' k e})"

lemma reads_agree:
  assumes "ml_built l hs" "levels_repr E objs levels base" "below_memtables base (concat hs)"
    and "ml_built l' hs'" "levels_repr E objs' levels' base'" "below_memtables base' (concat hs')"
    and "same_visible (concat hs) base (concat hs') base'"
  shows "point_read (direct_fetcher E objs) k l levels = point_read (direct_fetcher E objs') k l' levels'"
proof -
  obtain r where r: "point_read (direct_fetcher E objs) k l levels = Inr r"
    "\<forall>g. r = Some g \<longleftrightarrow> (\<exists>e. visible (concat hs) base k e \<and> g = mg_from_memtable_entry e)"
    using point_read_visible [OF assms(1-3)] by blast
  obtain r' where r': "point_read (direct_fetcher E objs') k l' levels' = Inr r'"
    "\<forall>g. r' = Some g \<longleftrightarrow> (\<exists>e. visible (concat hs') base' k e \<and> g = mg_from_memtable_entry e)"
    using point_read_visible [OF assms(4-6)] by blast
  have a: "r = Some g \<longleftrightarrow> g \<in> mg_from_memtable_entry ` {e. visible (concat hs) base k e}" for g
    unfolding r(2) [rule_format] image_iff by simp
  have b: "r' = Some g \<longleftrightarrow> g \<in> mg_from_memtable_entry ` {e. visible (concat hs') base' k e}" for g
    unfolding r'(2) [rule_format] image_iff by simp
  have same: "r = Some g \<longleftrightarrow> r' = Some g" for g
    unfolding a b using assms(7) [unfolded same_visible_def, rule_format, of k] by (rule arg_cong)
  have "r = r'" using same [of "the r"] same [of "the r'"] by (cases r; cases r') simp_all
  then show ?thesis using r(1) r'(1) by simp
qed

end
