(* ===== verification/Level_Exchange.thy ===== *)
theory Level_Exchange
  imports Level_Store
begin

text \<open>
  Exchanging tables between two adjacent levels. A task that fits the manifest names whole tables of a level and all
  tables of the next level that overlap them; replacing those by tables with the same versions, some of them left
  out, keeps \<open>store_ok\<close>, and keeping the newest version of every key keeps what is visible.
\<close>

section \<open>Splitting the tables of a level\<close>

definition part :: "(level \<times> string) set \<Rightarrow> manifest \<Rightarrow> tables \<Rightarrow> bool \<Rightarrow> tables" where
  "part rs m T b l = map snd (filter (\<lambda>(s, t). ((l, sm_id s) \<in> rs) = b) (zip (sstables_at_level l m) (T l)))"

lemma list_all2_zip_filter:
  assumes "list_all2 P xs ys"
  shows "list_all2 P (filter Q xs) (map snd (filter (\<lambda>(x, y). Q x) (zip xs ys)))"
  using assms by (induction rule: list_all2_induct) auto

lemma set_zip_filter:
  assumes "length xs = length ys"
  shows "set ys = set (map snd (filter (\<lambda>(x, y). Q x) (zip xs ys))) \<union> set (map snd (filter (\<lambda>(x, y). \<not> Q x) (zip xs ys)))"
  using assms by (induction xs ys rule: list_induct2) auto

lemma sorted_wrt_zip_filter:
  assumes "length xs = length ys" and "sorted_wrt R ys"
  shows "sorted_wrt R (map snd (filter Q (zip xs ys)))"
proof -
  have "sorted_wrt (\<lambda>a b. R (snd a) (snd b)) (zip xs ys)"
    using assms by (simp add: sorted_wrt_map [symmetric] map_snd_zip)
  then show ?thesis by (simp add: sorted_wrt_map sorted_wrt_filter)
qed

lemma zip_filter_apart:
  assumes "length xs = length ys" and "sorted_wrt R ys"
    and "a \<in> set (map snd (filter (\<lambda>(x, y). Q x) (zip xs ys)))" and "b \<in> set (map snd (filter (\<lambda>(x, y). \<not> Q x) (zip xs ys)))"
  shows "R a b \<or> R b a"
  using assms by (induction xs ys rule: list_induct2) (auto split: if_splits dest: set_zip_rightD)

definition symmetric_less :: "memtable_entry list \<Rightarrow> memtable_entry list \<Rightarrow> bool" where
  "symmetric_less a b \<longleftrightarrow> table_less a b \<or> table_less b a"

lemma pairwise_mset:
  assumes "\<And>x y. R x y \<Longrightarrow> R y x"
  shows "sorted_wrt R xs \<longleftrightarrow> (\<forall>x y. {#x, y#} \<subseteq># mset xs \<longrightarrow> R x y)"
proof (induction xs)
  case (Cons a xs)
  have "(\<forall>x y. {#x, y#} \<subseteq># add_mset a (mset xs) \<longrightarrow> R x y) \<longleftrightarrow>
      (\<forall>y \<in> set xs. R a y) \<and> (\<forall>x y. {#x, y#} \<subseteq># mset xs \<longrightarrow> R x y)"
  proof (intro iffI conjI ballI allI impI)
    fix y assume h: "\<forall>x y. {#x, y#} \<subseteq># add_mset a (mset xs) \<longrightarrow> R x y" and y: "y \<in> set xs"
    then have "{#a, y#} \<subseteq># add_mset a (mset xs)" by simp
    then show "R a y" using h by blast
  next
    fix x y assume h: "\<forall>x y. {#x, y#} \<subseteq># add_mset a (mset xs) \<longrightarrow> R x y" and xy: "{#x, y#} \<subseteq># mset xs"
    have "mset xs \<subseteq># add_mset a (mset xs)" by simp
    then show "R x y" using h xy subset_mset.order_trans by blast
  next
    fix x y
    assume h: "(\<forall>y \<in> set xs. R a y) \<and> (\<forall>x y. {#x, y#} \<subseteq># mset xs \<longrightarrow> R x y)" and xy: "{#x, y#} \<subseteq># add_mset a (mset xs)"
    consider "x = a" | "y = a" "x \<noteq> a" | "x \<noteq> a" "y \<noteq> a" by blast
    then show "R x y"
    proof cases
      case 1
      then have "{#y#} \<subseteq># mset xs" using xy by simp
      then show ?thesis using h 1 by simp
    next
      case 2
      then have "{#x#} \<subseteq># mset xs" using xy by (simp add: add_mset_commute)
      then show ?thesis using h 2 assms by simp
    next
      case 3
      have "{#x, y#} \<subseteq># mset xs"
      proof (rule mset_subset_eqI)
        show "count {#x, y#} b \<le> count (mset xs) b" for b using mset_subset_eq_count [OF xy, of b] 3 by (cases "b = a") auto
      qed
      then show ?thesis using h by blast
    qed
  qed
  then show ?case using Cons.IH by simp
qed simp


lemma sort_tables:
  assumes "list_all2 (meta_repr E objs ns l) metas ts" and "sorted (map sm_min_key metas)" and "sorted_wrt symmetric_less ts"
  shows "sorted_wrt table_less ts"
  unfolding sorted_wrt_iff_nth_less
proof (intro allI impI)
  fix i j assume ij: "i < j" "j < length ts"
  have len: "length metas = length ts" using assms(1) by (rule list_all2_lengthD)
  have r: "meta_repr E objs ns l (metas ! i) (ts ! i)" "meta_repr E objs ns l (metas ! j) (ts ! j)"
    using assms(1) ij by (auto simp: list_all2_conv_all_nth)
  have "sm_min_key (metas ! i) \<le> sm_min_key (metas ! j)" using assms(2) ij len by (simp add: sorted_iff_nth_mono_less)
  then have le: "me_composite_key (hd (ts ! i)) \<le> me_composite_key (hd (ts ! j))"
    using meta_repr_bounds(3) [OF r(1)] meta_repr_bounds(3) [OF r(2)] by (simp add: less_eq_composite_key_def)
  have hd: "hd (ts ! i) \<in> set (ts ! i)" "hd (ts ! j) \<in> set (ts ! j)"
    using meta_repr_bounds(1) [OF r(1)] meta_repr_bounds(1) [OF r(2)] by simp_all
  have "symmetric_less (ts ! i) (ts ! j)" using assms(3) ij by (simp add: sorted_wrt_iff_nth_less)
  moreover have "\<not> table_less (ts ! j) (ts ! i)"
  proof
    assume "table_less (ts ! j) (ts ! i)"
    then have "me_composite_key (hd (ts ! j)) < me_composite_key (hd (ts ! i))" using hd by (simp add: table_less_def)
    then show False using le by simp
  qed
  ultimately show "table_less (ts ! i) (ts ! j)" by (simp add: symmetric_less_def)
qed

lemma perm_tables:
  assumes "list_all2 (meta_repr E objs ns l) metas ts" and "sorted_wrt symmetric_less ts"
    and "mset metas' = mset metas" and "sorted (map sm_min_key metas')"
  shows "\<exists>ts'. list_all2 (meta_repr E objs ns l) metas' ts' \<and> sorted_wrt table_less ts' \<and> set ts' = set ts"
proof -
  obtain ts' where ts': "list_all2 (meta_repr E objs ns l) metas' ts'" "mset ts' = mset ts"
    using list_all2_reorder_left_invariance [OF assms(1) assms(3)] by blast
  have iff: "sorted_wrt symmetric_less xs \<longleftrightarrow> (\<forall>x y. {#x, y#} \<subseteq># mset xs \<longrightarrow> symmetric_less x y)" for xs
    by (rule pairwise_mset) (auto simp: symmetric_less_def)
  have "sorted_wrt symmetric_less ts'" using assms(2) ts'(2) by (simp add: iff)
  then have "sorted_wrt table_less ts'" by (rule sort_tables [OF ts'(1) assms(4)])
  then show ?thesis using ts' by (metis set_mset_mset)
qed

section \<open>Tasks\<close>

definition task_fits :: "manifest \<Rightarrow> compaction_task \<Rightarrow> bool" where
  "task_fits m task \<longleftrightarrow> level_next (ct_source_level task) = Some (ct_target_level task)
     \<and> (ct_source_level task = L0 \<longrightarrow> ct_input_sstables task = sstables_at_level L0 m)
     \<and> ct_input_sstables task = filter (\<lambda>s. s \<in> set (ct_input_sstables task)) (sstables_at_level (ct_source_level task) m)
     \<and> (\<exists>lo hi. ct_target_sstables task = find_overlapping (ct_target_level task) lo hi m
          \<and> (\<forall>s \<in> set (ct_input_sstables task). lo \<le> sm_min_key s \<and> sm_max_key s \<le> hi))"

definition removed :: "compaction_task \<Rightarrow> (level \<times> string) list" where
  "removed task = map (\<lambda>m. (ct_source_level task, sm_id m)) (ct_input_sstables task)
     @ map (\<lambda>m. (ct_target_level task, sm_id m)) (ct_target_sstables task)"

lemma widen_range_covers:
  "widen_range (lo, hi) ss = (lo', hi') \<Longrightarrow> lo' \<le> lo \<and> hi \<le> hi' \<and> (\<forall>s \<in> set ss. lo' \<le> sm_min_key s \<and> sm_max_key s \<le> hi')"
  by (induction ss arbitrary: lo hi) (auto split: if_splits, force+)

lemma combined_key_range_covers:
  "combined_key_range ss = Some (lo, hi) \<Longrightarrow> \<forall>s \<in> set ss. lo \<le> sm_min_key s \<and> sm_max_key s \<le> hi"
  using widen_range_covers by (cases ss) (force simp: combined_key_range_def)+

lemma min_by_key_in: "min_by_key f xs = Some x \<Longrightarrow> x \<in> set xs"
  by (induction xs arbitrary: x) (auto split: option.splits if_splits)

lemma filter_single: "distinct xs \<Longrightarrow> x \<in> set xs \<Longrightarrow> filter (\<lambda>s. s = x) xs = [x]"
  by (induction xs) (auto simp: filter_empty_conv)

lemma level_distinct:
  assumes "distinct (all_sstable_ids m)"
  shows "distinct (map sm_id (sstables_at_level l m))" and "distinct (sstables_at_level l m)"
  using assms by (cases l; auto simp: all_sstable_ids_def level_all_def distinct_map)+

lemma check_triggers_fit:
  assumes "distinct (all_sstable_ids m)" and "task \<in> set (check_triggers config m)"
  shows "task_fits m task"
proof -
  note d = level_distinct(2) [OF assms(1)]
  have l0: "task_fits m t" if "check_l0_trigger config m = Some t" for t
    using that combined_key_range_covers [of "sstables_at_level L0 m"]
    by (auto simp: check_l0_trigger_def Let_def task_fits_def split: if_splits option.splits) blast
  have lv: "task_fits m t" if "check_level_trigger config m l = Some t" for l t
    using that min_by_key_in [of sm_created_at_ms "sstables_at_level l m"] filter_single [OF d]
    by (cases l) (auto simp: check_level_trigger_def task_fits_def split: if_splits option.splits, (blast intro: order_refl)+)
  from assms(2) show ?thesis using l0 lv by (auto simp: check_triggers_def List.map_filter_def split: if_splits)
qed


lemma removed_iff:
  assumes "distinct (all_sstable_ids m)" and "task_fits m task" and "s \<in> set (sstables_at_level l m)"
  shows "(l, sm_id s) \<in> set (removed task) \<longleftrightarrow>
    l = ct_source_level task \<and> s \<in> set (ct_input_sstables task) \<or> l = ct_target_level task \<and> s \<in> set (ct_target_sstables task)"
proof -
  have "set (ct_input_sstables task) \<subseteq> set (sstables_at_level (ct_source_level task) m)"
    using assms(2) unfolding task_fits_def by (metis filter_is_subset)
  moreover have "set (ct_target_sstables task) \<subseteq> set (sstables_at_level (ct_target_level task) m)"
    using assms(2) unfolding task_fits_def find_overlapping_def by (metis filter_is_subset)
  moreover have "inj_on sm_id (set (sstables_at_level l m))" using level_distinct(1) [OF assms(1), of l] by (simp add: distinct_map)
  ultimately show ?thesis using assms(3) by (auto simp: removed_def dest: inj_onD)
qed

lemma part_member:
  assumes "store_ok E objs ns m T" and "e \<in> set (concat (part rs m T b l))"
  shows "\<exists>s t. s \<in> set (sstables_at_level l m) \<and> ((l, sm_id s) \<in> rs) = b \<and> meta_repr E objs ns l s t \<and> t \<in> set (part rs m T b l) \<and> e \<in> set t"
proof -
  obtain t where t: "t \<in> set (part rs m T b l)" "e \<in> set t" using assms(2) by auto
  then obtain s where s: "(s, t) \<in> set (zip (sstables_at_level l m) (T l))" "((l, sm_id s) \<in> rs) = b" by (auto simp: part_def)
  have "list_all2 (meta_repr E objs ns l) (sstables_at_level l m) (T l)" using assms(1) by (simp add: store_ok_def)
  then have "meta_repr E objs ns l s t" using s(1) by (auto simp: list_all2_iff)
  then show ?thesis using t s by (auto dest: set_zip_leftD)
qed

lemma store_lengths: "store_ok E objs ns m T \<Longrightarrow> length (sstables_at_level l m) = length (T l)"
  by (auto simp: store_ok_def dest: list_all2_lengthD)

lemma part_sub: "set (concat (part rs m T b l)) \<subseteq> set (concat (T l))"
  by (auto simp: part_def dest: set_zip_rightD)

lemma part_union:
  assumes "store_ok E objs ns m T"
  shows "set (concat (T l)) = set (concat (part rs m T True l)) \<union> set (concat (part rs m T False l))"
proof -
  have "set (T l) = set (part rs m T True l) \<union> set (part rs m T False l)"
    using set_zip_filter [OF store_lengths [OF assms], of l "\<lambda>s. (l, sm_id s) \<in> rs"] by (simp add: part_def)
  then show ?thesis by auto
qed

lemma part_apart:
  assumes "store_ok E objs ns m T" and "\<not> level_is_overlapping l"
    and "a \<in> set (part rs m T True l)" and "b \<in> set (part rs m T False l)"
  shows "symmetric_less a b"
proof -
  have "sorted_wrt table_less (T l)" using assms(1,2) by (simp add: store_ok_def)
  from zip_filter_apart [OF store_lengths [OF assms(1)] this, of a "\<lambda>s. (l, sm_id s) \<in> rs" b] assms(3,4)
  show ?thesis by (simp add: part_def symmetric_less_def)
qed

lemma part_keys_differ:
  assumes "store_ok E objs ns m T" and "\<not> level_is_overlapping l"
    and "x \<in> set (concat (part rs m T True l))" and "y \<in> set (concat (part rs m T False l))"
  shows "me_composite_key x \<noteq> me_composite_key y"
proof -
  obtain a b where ab: "a \<in> set (part rs m T True l)" "x \<in> set a" "b \<in> set (part rs m T False l)" "y \<in> set b" using assms(3,4) by auto
  then have "symmetric_less a b" using part_apart [OF assms(1,2)] by blast
  then show ?thesis using ab by (force simp: symmetric_less_def table_less_def)
qed

text \<open>The entries of the tables a task consumes.\<close>

definition consumed :: "compaction_task \<Rightarrow> manifest \<Rightarrow> tables \<Rightarrow> memtable_entry set" where
  "consumed task m T = set (concat (part (set (removed task)) m T True (ct_source_level task)))
     \<union> set (concat (part (set (removed task)) m T True (ct_target_level task)))"

definition remaining :: "compaction_task \<Rightarrow> manifest \<Rightarrow> tables \<Rightarrow> level \<Rightarrow> memtable_entry set" where
  "remaining task m T l = set (concat (part (set (removed task)) m T False l))"

lemma other_levels_kept:
  assumes "store_ok E objs ns m T" and "task_fits m task" and "l \<noteq> ct_source_level task" and "l \<noteq> ct_target_level task"
  shows "part (set (removed task)) m T True l = []"
proof (rule ccontr)
  assume "part (set (removed task)) m T True l \<noteq> []"
  then obtain s t where "(s, t) \<in> set (zip (sstables_at_level l m) (T l))" "(l, sm_id s) \<in> set (removed task)"
    by (auto simp: part_def filter_empty_conv)
  then show False using assms(3,4) by (auto simp: removed_def)
qed

lemma level_next_cases: "level_next a = Some b \<Longrightarrow> level_as_u8 a < level_as_u8 b \<and> \<not> level_is_overlapping b
    \<and> (\<forall>l. l = a \<or> l = b \<or> level_as_u8 l < level_as_u8 a \<or> level_as_u8 b < level_as_u8 l)"
proof -
  assume n: "level_next a = Some b"
  have "l = a \<or> l = b \<or> level_as_u8 l < level_as_u8 a \<or> level_as_u8 b < level_as_u8 l" for l
    using n by (cases a; cases l) auto
  then show ?thesis using n by (cases a) (auto simp: level_is_overlapping_def)
qed


lemma meta_repr_keys:
  "meta_repr E objs ns l m es \<Longrightarrow> e \<in> set es \<Longrightarrow> sm_min_key m \<le> as_bytes (me_composite_key e) \<and> as_bytes (me_composite_key e) \<le> sm_max_key m"
  using meta_repr_bounds(3-5) [of E objs ns l m es] by (auto simp: less_eq_composite_key_def)

lemma fit_levels:
  assumes "task_fits m task"
  shows "level_as_u8 (ct_source_level task) < level_as_u8 (ct_target_level task)" and "\<not> level_is_overlapping (ct_target_level task)"
    and "l = ct_source_level task \<or> l = ct_target_level task \<or> level_as_u8 l < level_as_u8 (ct_source_level task)
      \<or> level_as_u8 (ct_target_level task) < level_as_u8 l"
  using level_next_cases [of "ct_source_level task" "ct_target_level task"] assms unfolding task_fits_def by blast+

lemma consumedE:
  assumes "w \<in> consumed task m T"
  obtains "w \<in> set (concat (part (set (removed task)) m T True (ct_source_level task)))"
    | "w \<in> set (concat (part (set (removed task)) m T True (ct_target_level task)))"
  using assms by (auto simp: consumed_def)

lemma input_not_in_target:
  assumes st: "store_ok E objs ns m T" and fit: "task_fits m task"
    and w: "w \<in> set (concat (part (set (removed task)) m T True (ct_source_level task)))"
    and r: "r \<in> remaining task m T (ct_target_level task)"
  shows "me_composite_key w \<noteq> me_composite_key r"
proof
  assume k: "me_composite_key w = me_composite_key r"
  have d: "distinct (all_sstable_ids m)" using st by (simp add: store_ok_def)
  have lt: "ct_source_level task \<noteq> ct_target_level task" using fit_levels(1) [OF fit] by auto
  obtain lo hi where t: "ct_target_sstables task = find_overlapping (ct_target_level task) lo hi m"
    and i: "\<forall>s \<in> set (ct_input_sstables task). lo \<le> sm_min_key s \<and> sm_max_key s \<le> hi" using fit by (auto simp: task_fits_def)
  obtain s u where s: "s \<in> set (sstables_at_level (ct_source_level task) m)" "(ct_source_level task, sm_id s) \<in> set (removed task)"
    "meta_repr E objs ns (ct_source_level task) s u" "w \<in> set u" using part_member [OF st w] by auto
  obtain s' u' where s': "s' \<in> set (sstables_at_level (ct_target_level task) m)" "(ct_target_level task, sm_id s') \<notin> set (removed task)"
    "meta_repr E objs ns (ct_target_level task) s' u'" "r \<in> set u'" using part_member [OF st r [unfolded remaining_def]] by auto
  have "s \<in> set (ct_input_sstables task)" using s(2) removed_iff [OF d fit s(1)] lt by simp
  then have "lo \<le> as_bytes (me_composite_key w)" "as_bytes (me_composite_key w) \<le> hi"
    using i meta_repr_keys [OF s(3,4)] by (blast intro: order_trans)+
  moreover have "s' \<notin> set (ct_target_sstables task)" using s'(2) removed_iff [OF d fit s'(1)] by simp
  then have "sm_max_key s' < lo \<or> hi < sm_min_key s'" using s'(1) by (auto simp: t find_overlapping_def sm_overlaps_range_def)
  moreover have "sm_min_key s' \<le> as_bytes (me_composite_key r)" "as_bytes (me_composite_key r) \<le> sm_max_key s'"
    using meta_repr_keys [OF s'(3,4)] by simp_all
  ultimately show False unfolding k by (meson leD less_le_trans order_trans)
qed

lemma consumed_order:
  assumes st: "store_ok E objs ns m T" and fit: "task_fits m task"
    and w: "w \<in> consumed task m T" and r: "r \<in> remaining task m T l" and k: "me_composite_key w = me_composite_key r"
  shows "if level_as_u8 (ct_target_level task) < level_as_u8 l then me_sequence_number r < me_sequence_number w
    else me_sequence_number w < me_sequence_number r"
proof -
  let ?src = "ct_source_level task" and ?tgt = "ct_target_level task"
  have lv: "level_as_u8 ?src < level_as_u8 ?tgt" "\<not> level_is_overlapping ?tgt"
    "l = ?src \<or> l = ?tgt \<or> level_as_u8 l < level_as_u8 ?src \<or> level_as_u8 ?tgt < level_as_u8 l"
    using fit_levels [OF fit] by blast+
  have ord: "me_sequence_number y < me_sequence_number x"
    if "level_as_u8 a < level_as_u8 b" "x \<in> set (concat (T a))" "y \<in> set (concat (T b))" "me_composite_key x = me_composite_key y" for a b x y
    using st that unfolding store_ok_def level_order_def by blast
  have rT: "r \<in> set (concat (T l))" using r part_sub unfolding remaining_def by blast
  from w show ?thesis
  proof (cases rule: consumedE)
    case 1
    have wT: "w \<in> set (concat (T ?src))" using 1 part_sub by blast
    consider "level_as_u8 l < level_as_u8 ?src" | "l = ?src" | "l = ?tgt" | "level_as_u8 ?tgt < level_as_u8 l" using lv(3) by blast
    then show ?thesis
    proof cases
      case 1
      moreover have "\<not> level_as_u8 ?tgt < level_as_u8 l" using 1 lv(1) by (meson less_asym less_trans)
      ultimately show ?thesis using ord [OF 1 rT wT] k by simp
    next
      case 2
      show ?thesis
      proof (cases "?src = L0")
        case True
        obtain s u where s: "s \<in> set (sstables_at_level ?src m)" "(?src, sm_id s) \<notin> set (removed task)"
          using part_member [OF st r [unfolded remaining_def]] 2 by auto
        have "s \<in> set (ct_input_sstables task)" using s(1) True fit by (simp add: task_fits_def)
        then show ?thesis using s(2) by (simp add: removed_def)
      next
        case False
        then have "\<not> level_is_overlapping ?src" by (simp add: level_is_overlapping_def)
        then show ?thesis using part_keys_differ [OF st _ \<open>w \<in> set (concat (part _ m T True ?src))\<close>] r 2 k by (auto simp: remaining_def)
      qed
    next
      case 3
      then show ?thesis using input_not_in_target [OF st fit \<open>w \<in> set (concat (part _ m T True ?src))\<close>] r k by blast
    next
      case 4
      then show ?thesis using ord [of ?src l w r] wT rT k lv(1) by simp
    qed
  next
    case 2
    have wT: "w \<in> set (concat (T ?tgt))" using 2 part_sub by blast
    consider "level_as_u8 l < level_as_u8 ?tgt" | "l = ?tgt" | "level_as_u8 ?tgt < level_as_u8 l" using lv(1,3) by force
    then show ?thesis
    proof cases
      case 1
      then show ?thesis using ord [OF 1 rT wT] k less_not_sym [OF 1] by simp
    next
      case l: 2
      then show ?thesis using part_keys_differ [OF st lv(2) 2] r k by (auto simp: remaining_def)
    next
      case 3
      then show ?thesis using ord [OF 3 wT rT] k by simp
    qed
  qed
qed


section \<open>Keeping the newest versions keeps what is visible\<close>

definition newest_of :: "memtable_entry set \<Rightarrow> memtable_entry \<Rightarrow> bool" where
  "newest_of W w \<longleftrightarrow> w \<in> W \<and> (\<forall>x \<in> W. me_composite_key x = me_composite_key w \<longrightarrow> me_sequence_number x \<le> me_sequence_number w)"

definition newest_kept :: "bool \<Rightarrow> memtable_entry set \<Rightarrow> memtable_entry set \<Rightarrow> bool" where
  "newest_kept bottom W K \<longleftrightarrow>
     (\<forall>e \<in> K. \<exists>w. newest_of W w \<and> e = me_of_mg (mg_from_memtable_entry w))
     \<and> (\<forall>w. newest_of W w \<longrightarrow> me_of_mg (mg_from_memtable_entry w) \<in> K \<or> bottom \<and> me_entry_type w \<noteq> Put)"

lemma me_of_mg_simps [simp]:
  "me_composite_key (me_of_mg g) = mg_composite_key g" "me_sequence_number (me_of_mg g) = mg_sequence_number g"
  "me_entry_type (me_of_mg g) = mg_entry_type g" "mg_from_memtable_entry (me_of_mg g) = g"
  by (simp_all add: me_of_mg_def me_with_sequence_def mg_from_memtable_entry_def)

lemma newest_exists:
  assumes "finite W" and "w \<in> W"
  shows "\<exists>x. newest_of W x \<and> me_composite_key x = me_composite_key w"
proof -
  let ?S = "{x \<in> W. me_composite_key x = me_composite_key w}"
  have "finite (me_sequence_number ` ?S)" "me_sequence_number ` ?S \<noteq> {}" using assms by auto
  then have "Max (me_sequence_number ` ?S) \<in> me_sequence_number ` ?S" by (rule Max_in)
  then obtain x where x: "x \<in> ?S" "Max (me_sequence_number ` ?S) = me_sequence_number x" by blast
  have "\<forall>y \<in> ?S. me_sequence_number y \<le> me_sequence_number x"
    unfolding x(2) [symmetric] using \<open>finite (me_sequence_number ` ?S)\<close> by (intro ballI Max_ge) auto
  note x(1) this
  then show ?thesis by (auto simp: newest_of_def)
qed

lemma newest_keptD:
  assumes "newest_kept bottom W K"
  shows "e \<in> K \<Longrightarrow> \<exists>w. newest_of W w \<and> e = me_of_mg (mg_from_memtable_entry w)"
    and "newest_of W w \<Longrightarrow> me_of_mg (mg_from_memtable_entry w) \<in> K \<or> bottom \<and> me_entry_type w \<noteq> Put"
  using assms by (simp_all add: newest_kept_def)

lemma newest_kept_visible:
  assumes base: "set base = R \<union> W" "set base' = R \<union> K" and kept: "newest_kept bottom W K"
    and uniq: "\<forall>a \<in> set base. \<forall>b \<in> set base. same_version a b \<longrightarrow> a = b"
    and bot: "bottom \<longrightarrow> (\<forall>r \<in> R. \<forall>w \<in> W. me_composite_key r = me_composite_key w \<longrightarrow> me_sequence_number w < me_sequence_number r)"
    and low: "\<forall>b \<in> set base. \<forall>x \<in> set mem. me_sequence_number b < me_sequence_number x"
  shows "same_visible mem base mem base'"
  unfolding same_visible_def
proof
  fix k
  have fin: "finite W" using base(1) by (metis List.finite_set finite_Un)
  have old: "\<exists>w \<in> W. me_composite_key e = me_composite_key w \<and> me_sequence_number e = me_sequence_number w" if eK: "e \<in> K" for e
  proof -
    obtain w where "newest_of W w" "e = me_of_mg (mg_from_memtable_entry w)" using newest_keptD(1) [OF kept eK] by blast
    then show ?thesis by (intro bexI [of _ w]) (simp_all add: newest_of_def)
  qed
  show "mg_from_memtable_entry ` {e. visible mem base k e} = mg_from_memtable_entry ` {e. visible mem base' k e}"
  proof (intro equalityI subsetI; elim imageE CollectE)
    fix g e assume g: "g = mg_from_memtable_entry e" and v: "visible mem base k e"
    have mx: "me_sequence_number x \<le> me_sequence_number e" if "x \<in> set (mem @ base')" "me_composite_key x = k" for x
    proof (cases "x \<in> K")
      case True
      then obtain w where "w \<in> W" "me_composite_key x = me_composite_key w" "me_sequence_number x = me_sequence_number w" using old by blast
      then show ?thesis using v that base by (auto simp: visible_def)
    qed (use v that base in \<open>auto simp: visible_def\<close>)
    show "g \<in> mg_from_memtable_entry ` {e. visible mem base' k e}"
    proof (cases "e \<in> set mem \<union> R")
      case True
      then have "visible mem base' k e" using v mx base by (auto simp: visible_def)
      then show ?thesis using g by blast
    next
      case False
      then have "e \<in> W" using v base by (auto simp: visible_def)
      then have n: "newest_of W e" using v base by (auto simp: newest_of_def visible_def)
      then have "me_of_mg (mg_from_memtable_entry e) \<in> K" using newest_keptD(2) [OF kept n] v by (auto simp: visible_def)
      then have "visible mem base' k (me_of_mg (mg_from_memtable_entry e))" using v mx base by (auto simp: visible_def)
      then show ?thesis using g by (metis image_eqI me_of_mg_simps(4) mem_Collect_eq)
    qed
  next
    fix g e assume g: "g = mg_from_memtable_entry e" and v: "visible mem base' k e"
    show "g \<in> mg_from_memtable_entry ` {e. visible mem base k e}"
    proof (cases "e \<in> set mem \<union> R")
      case True
      have "me_sequence_number w \<le> me_sequence_number e" if w: "w \<in> W" "me_composite_key w = k" for w
      proof -
        obtain x where x: "newest_of W x" "me_composite_key x = k" using newest_exists [OF fin w(1)] w(2) by blast
        have wx: "me_sequence_number w \<le> me_sequence_number x" using x w by (simp add: newest_of_def)
        show ?thesis
        proof (cases "me_of_mg (mg_from_memtable_entry x) \<in> K")
          case True
          then have "me_of_mg (mg_from_memtable_entry x) \<in> set (mem @ base')" using base(2) by simp
          then have "me_sequence_number (me_of_mg (mg_from_memtable_entry x)) \<le> me_sequence_number e"
            using v x(2) unfolding visible_def by (metis me_of_mg_simps(1) mg_simps(1))
          then have "me_sequence_number x \<le> me_sequence_number e" by simp
          then show ?thesis using wx by simp
        next
          case False
          then have "bottom" using newest_keptD(2) [OF kept x(1)] by blast
          moreover have "me_composite_key e = k" using v by (simp add: visible_def)
          ultimately have "me_sequence_number w < me_sequence_number e" using True bot low w base(1) by auto
          then show ?thesis by simp
        qed
      qed
      then have "visible mem base k e" using v True base by (auto simp: visible_def)
      then show ?thesis using g by blast
    next
      case False
      then have "e \<in> K" using v base by (auto simp: visible_def)
      then obtain w where w: "newest_of W w" "e = me_of_mg (mg_from_memtable_entry w)" using newest_keptD(1) [OF kept] by blast
      have "visible mem base k w" using v w base by (auto simp: visible_def newest_of_def)
      then show ?thesis using g w(2) by auto
    qed
  qed
qed

lemma newest_kept_below:
  assumes base: "set base = R \<union> W" "set base' = R \<union> K" and kept: "newest_kept bottom W K"
    and apart: "\<forall>r \<in> R. \<forall>w \<in> W. me_composite_key r = me_composite_key w \<longrightarrow> me_sequence_number r \<noteq> me_sequence_number w"
    and low: "below_memtables base mem"
  shows "below_memtables base' mem"
proof -
  have old: "\<exists>w \<in> W. e = me_of_mg (mg_from_memtable_entry w)" if "e \<in> K" for e
    using newest_keptD(1) [OF kept that] unfolding newest_of_def by blast
  have "a = b" if a: "a \<in> R \<union> K" and b: "b \<in> R \<union> K" and v: "same_version a b" for a b
  proof -
    consider "a \<in> R" "b \<in> R" | "a \<in> R" "b \<in> K" | "a \<in> K" "b \<in> R" | "a \<in> K" "b \<in> K" using a b by blast
    then show ?thesis
    proof cases
      case 1
      then show ?thesis using low base(1) v by (auto simp: below_memtables_def)
    next
      case 4
      then obtain w w' where "w \<in> W" "w' \<in> W" "a = me_of_mg (mg_from_memtable_entry w)" "b = me_of_mg (mg_from_memtable_entry w')"
        using old by blast
      moreover from this have "same_version w w'" using v by (simp add: same_version_def)
      ultimately show ?thesis using low base(1) by (auto simp: below_memtables_def)
    qed (use old apart v in \<open>fastforce simp: same_version_def\<close>)+
  qed
  moreover have "me_sequence_number b < me_sequence_number x" if "b \<in> R \<union> K" "x \<in> set mem" for b x
    using that old low base(1) by (fastforce simp: below_memtables_def)
  ultimately show ?thesis using base(2) by (simp add: below_memtables_def)
qed


section \<open>The exchange\<close>

lemma set_table_entries: "set (table_entries T) = (\<Union>l. set (concat (T l)))"
proof -
  have "x \<in> set level_all" for x by (cases x) (simp_all add: level_all_def)
  then show ?thesis by (auto simp: table_entries_def)
qed

lemma table_entries_split:
  assumes "store_ok E objs ns m T" and "task_fits m task"
  shows "set (table_entries T) = (\<Union>l. remaining task m T l) \<union> consumed task m T"
proof -
  have "set (concat (part (set (removed task)) m T True l)) \<subseteq> consumed task m T" for l
    using other_levels_kept [OF assms, of l] by (cases "l = ct_source_level task \<or> l = ct_target_level task") (auto simp: consumed_def)
  then have c: "consumed task m T = (\<Union>l. set (concat (part (set (removed task)) m T True l)))"
    by (intro equalityI UN_least) (auto simp: consumed_def)
  show ?thesis unfolding set_table_entries c part_union [OF assms(1), of _ "set (removed task)"] UN_Un_distrib
    by (simp add: remaining_def Un_commute)
qed

lemma target_apart:
  assumes st: "store_ok E objs ns m T" and fit: "task_fits m task" and a: "a \<in> set (part (set (removed task)) m T False (ct_target_level task))"
  shows "(\<forall>w \<in> consumed task m T. \<forall>x \<in> set a. me_composite_key x < me_composite_key w)
    \<or> (\<forall>w \<in> consumed task m T. \<forall>x \<in> set a. me_composite_key w < me_composite_key x)"
proof -
  let ?src = "ct_source_level task" and ?tgt = "ct_target_level task" and ?rs = "set (removed task)"
  have d: "distinct (all_sstable_ids m)" using st by (simp add: store_ok_def)
  have ne: "?src \<noteq> ?tgt" using fit_levels(1) [OF fit] by auto
  obtain lo hi where t: "ct_target_sstables task = find_overlapping ?tgt lo hi m"
    and i: "\<forall>s \<in> set (ct_input_sstables task). lo \<le> sm_min_key s \<and> sm_max_key s \<le> hi" using fit by (auto simp: task_fits_def)
  have rep: "list_all2 (meta_repr E objs ns l) (sstables_at_level l m) (T l)" for l using st by (simp add: store_ok_def)
  obtain s where s: "(s, a) \<in> set (zip (sstables_at_level ?tgt m) (T ?tgt))" "(?tgt, sm_id s) \<notin> ?rs" using a by (auto simp: part_def)
  have sa: "meta_repr E objs ns ?tgt s a" "s \<in> set (sstables_at_level ?tgt m)" using rep [of ?tgt] s(1) by (auto simp: list_all2_iff dest: set_zip_leftD)
  then have out: "sm_max_key s < lo \<or> hi < sm_min_key s"
    using s(2) removed_iff [OF d fit sa(2)] by (auto simp: t find_overlapping_def sm_overlaps_range_def)
  have inp: "lo \<le> as_bytes (me_composite_key w) \<and> as_bytes (me_composite_key w) \<le> hi" if w: "w \<in> set (concat (part ?rs m T True ?src))" for w
  proof -
    obtain s' u where s': "s' \<in> set (sstables_at_level ?src m)" "(?src, sm_id s') \<in> ?rs" "meta_repr E objs ns ?src s' u" "w \<in> set u"
      using part_member [OF st w] by auto
    have "s' \<in> set (ct_input_sstables task)" using s'(2) removed_iff [OF d fit s'(1)] ne by simp
    then show ?thesis using i meta_repr_keys [OF s'(3,4)] by (blast intro: order_trans)
  qed
  have tgt: "\<exists>u s'. w \<in> set u \<and> symmetric_less u a \<and> meta_repr E objs ns ?tgt s' u \<and> lo \<le> sm_max_key s' \<and> sm_min_key s' \<le> hi"
    if w: "w \<in> set (concat (part ?rs m T True ?tgt))" for w
  proof -
    obtain s' u where s': "s' \<in> set (sstables_at_level ?tgt m)" "(?tgt, sm_id s') \<in> ?rs" "meta_repr E objs ns ?tgt s' u"
      "u \<in> set (part ?rs m T True ?tgt)" "w \<in> set u" using part_member [OF st w] by auto
    have "s' \<in> set (ct_target_sstables task)" using s'(2) removed_iff [OF d fit s'(1)] ne by simp
    then have "lo \<le> sm_max_key s'" "sm_min_key s' \<le> hi" by (auto simp: t find_overlapping_def sm_overlaps_range_def)
    then show ?thesis using part_apart [OF st fit_levels(2) [OF fit] s'(4) a] s' by blast
  qed
  have ka: "sm_min_key s \<le> as_bytes (me_composite_key x) \<and> as_bytes (me_composite_key x) \<le> sm_max_key s" if "x \<in> set a" for x
    by (rule meta_repr_keys [OF sa(1) that])
  have hd_last: "hd u \<in> set u \<and> last u \<in> set u \<and> sm_min_key s' = as_bytes (me_composite_key (hd u)) \<and> sm_max_key s' = as_bytes (me_composite_key (last u))"
    if "meta_repr E objs ns ?tgt s' u" for s' u using meta_repr_bounds(1,3,4) [OF that] by simp
  from out show ?thesis
  proof
    assume lt: "sm_max_key s < lo"
    have "me_composite_key x < me_composite_key w" if w: "w \<in> consumed task m T" and x: "x \<in> set a" for w x
      using w
    proof (cases rule: consumedE)
      case 1
      then show ?thesis using inp [OF 1] ka [OF x] lt unfolding less_composite_key_def by (meson le_less_trans less_le_trans)
    next
      case 2
      then obtain u s' where u: "w \<in> set u" "symmetric_less u a" "meta_repr E objs ns ?tgt s' u" "lo \<le> sm_max_key s'" using tgt by blast
      have "\<not> table_less u a"
      proof
        assume "table_less u a"
        then have "me_composite_key (last u) < me_composite_key x" using hd_last [OF u(3)] x by (auto simp: table_less_def)
        then have "sm_max_key s' < sm_max_key s" using hd_last [OF u(3)] ka [OF x] by (auto simp: less_composite_key_def)
        then show False using lt u(4) by (meson less_le_trans less_not_sym)
      qed
      then show ?thesis using u(1,2) x by (auto simp: symmetric_less_def table_less_def)
    qed
    then show ?thesis by blast
  next
    assume gt: "hi < sm_min_key s"
    have "me_composite_key w < me_composite_key x" if w: "w \<in> consumed task m T" and x: "x \<in> set a" for w x
      using w
    proof (cases rule: consumedE)
      case 1
      then show ?thesis using inp [OF 1] ka [OF x] gt unfolding less_composite_key_def by (meson le_less_trans less_le_trans)
    next
      case 2
      then obtain u s' where u: "w \<in> set u" "symmetric_less u a" "meta_repr E objs ns ?tgt s' u" "sm_min_key s' \<le> hi" using tgt by blast
      have "\<not> table_less a u"
      proof
        assume "table_less a u"
        then have "me_composite_key x < me_composite_key (hd u)" using hd_last [OF u(3)] x by (auto simp: table_less_def)
        then have "sm_min_key s < sm_min_key s'" using hd_last [OF u(3)] ka [OF x] by (auto simp: less_composite_key_def)
        then show False using gt u(4) by (meson le_less_trans less_not_sym)
      qed
      then show ?thesis using u(1,2) x by (auto simp: symmetric_less_def table_less_def)
    qed
    then show ?thesis by blast
  qed
qed


lemma distinct_filter_ids:
  "distinct (concat (map (\<lambda>l. map g (A l)) ls)) \<Longrightarrow> distinct (concat (map (\<lambda>l. map g (filter (P l) (A l))) ls))"
  by (induction ls) (auto simp: distinct_map_filter)

definition staying :: "compaction_task \<Rightarrow> manifest \<Rightarrow> level \<Rightarrow> sst_meta list" where
  "staying task m l = filter (\<lambda>s. (l, sm_id s) \<notin> set (removed task)) (sstables_at_level l m)"

text \<open>The manifest after the task: at the target level the outputs join what stays, sorted by their smallest key.\<close>

definition exchanged :: "compaction_task \<Rightarrow> sst_meta list \<Rightarrow> manifest \<Rightarrow> manifest \<Rightarrow> bool" where
  "exchanged task outs m m' \<longleftrightarrow> (\<forall>l. l \<noteq> ct_target_level task \<longrightarrow> sstables_at_level l m' = staying task m l)
     \<and> mset (sstables_at_level (ct_target_level task) m') = mset (staying task m (ct_target_level task)) + mset outs
     \<and> sorted (map sm_min_key (sstables_at_level (ct_target_level task) m'))"

lemma exchanged_ids:
  assumes "distinct (all_sstable_ids m)" and "exchanged task outs m m'" and "distinct (map sm_id outs)"
    and "\<forall>l. \<forall>s \<in> set (staying task m l). sm_id s \<notin> sm_id ` set outs"
  shows "distinct (all_sstable_ids m')"
proof -
  let ?F = "concat (map (\<lambda>l. map sm_id (staying task m l)) level_all)"
  have "distinct ?F" unfolding staying_def by (rule distinct_filter_ids) (use assms(1) in \<open>simp add: all_sstable_ids_def\<close>)
  moreover have "set ?F \<inter> sm_id ` set outs = {}"
  proof -
    have "sm_id s \<notin> sm_id ` set outs" if "s \<in> set (staying task m l)" for l s using assms(4) that by blast
    then have "\<forall>x \<in> set ?F. x \<notin> sm_id ` set outs" by auto
    then show ?thesis by blast
  qed
  ultimately have d: "distinct (?F @ map sm_id outs)" using assms(3) by simp
  have t: "mset (map sm_id (sstables_at_level (ct_target_level task) m'))
      = mset (map sm_id (staying task m (ct_target_level task))) + mset (map sm_id outs)"
    using assms(2) unfolding exchanged_def by (metis image_mset_union mset_map)
  have o: "l \<noteq> ct_target_level task \<Longrightarrow> sstables_at_level l m' = staying task m l" for l using assms(2) by (simp add: exchanged_def)
  have "mset (all_sstable_ids m') = mset (?F @ map sm_id outs)"
    using t o by (cases "ct_target_level task") (simp_all add: all_sstable_ids_def level_all_def)
  then show ?thesis using d mset_eq_imp_distinct_iff by blast
qed

lemma exchange_store_ok:
  assumes st: "store_ok E objs ns m T" and fit: "task_fits m task" and ex: "exchanged task outs m m'"
    and outs: "list_all2 (meta_repr E objs' ns (ct_target_level task)) outs ts" "\<forall>s \<in> set outs. named s" "distinct (map sm_id outs)"
      "\<forall>l. \<forall>s \<in> set (staying task m l). sm_id s \<notin> sm_id ` set outs"
    and ts: "sorted_wrt table_less ts" "\<forall>e \<in> set (concat ts). entry_ok e"
      "\<forall>e \<in> set (concat ts). \<exists>w \<in> consumed task m T. me_composite_key e = me_composite_key w \<and> me_sequence_number e = me_sequence_number w"
    and frame: "\<And>l s. s \<in> set (staying task m l) \<Longrightarrow> fs_get (sst_path ns l s) objs' = fs_get (sst_path ns l s) objs"
  shows "\<exists>T'. store_ok E objs' ns m' T' \<and> set (table_entries T') = (\<Union>l. remaining task m T l) \<union> set (concat ts)"
proof -
  let ?tgt = "ct_target_level task" and ?rs = "set (removed task)"
  let ?P = "part ?rs m T False"
  have rep: "list_all2 (meta_repr E objs' ns l) (staying task m l) (?P l)" for l
  proof -
    have "list_all2 (meta_repr E objs ns l) (sstables_at_level l m) (T l)" using st by (simp add: store_ok_def)
    from list_all2_zip_filter [OF this, of "\<lambda>s. (l, sm_id s) \<notin> ?rs"]
    have "list_all2 (meta_repr E objs ns l) (staying task m l) (?P l)" by (simp add: staying_def part_def)
    then show ?thesis by (rule list.rel_mono_strong) (use meta_repr_cong frame in metis)
  qed
  have srt: "sorted_wrt table_less (?P l)" if "\<not> level_is_overlapping l" for l
    unfolding part_def by (rule sorted_wrt_zip_filter [OF store_lengths [OF st]]) (use st that in \<open>simp add: store_ok_def\<close>)
  have sym: "sorted_wrt symmetric_less xs" if "sorted_wrt table_less xs" for xs
    using that by (rule sorted_wrt_mono_rel [rotated]) (simp add: symmetric_less_def)
  have "symmetric_less a b" if a: "a \<in> set (?P ?tgt)" and b: "b \<in> set ts" for a b
  proof -
    have "\<forall>y \<in> set b. \<exists>w \<in> consumed task m T. me_composite_key y = me_composite_key w" using ts(3) b by auto
    then show ?thesis using target_apart [OF st fit a] unfolding symmetric_less_def table_less_def by metis
  qed
  then have "sorted_wrt symmetric_less (?P ?tgt @ ts)"
    using sym [OF srt [OF fit_levels(2) [OF fit]]] sym [OF ts(1)] by (simp add: sorted_wrt_append)
  moreover have "list_all2 (meta_repr E objs' ns ?tgt) (staying task m ?tgt @ outs) (?P ?tgt @ ts)"
    using rep outs(1) by (rule list_all2_appendI)
  moreover have "mset (sstables_at_level ?tgt m') = mset (staying task m ?tgt @ outs)" "sorted (map sm_min_key (sstables_at_level ?tgt m'))"
    using ex by (simp_all add: exchanged_def)
  ultimately obtain ts' where ts': "list_all2 (meta_repr E objs' ns ?tgt) (sstables_at_level ?tgt m') ts'" "sorted_wrt table_less ts'"
    "set ts' = set (?P ?tgt @ ts)" using perm_tables by metis
  define T' where "T' = (\<lambda>l. if l = ?tgt then ts' else ?P l)"
  have origin: "set (concat (T' l)) = remaining task m T l \<union> (if l = ?tgt then set (concat ts) else {})" for l
    using ts'(3) by (auto simp: T'_def remaining_def)
  have "(\<Union>l. if l = ?tgt then X else {}) = X" for X :: "memtable_entry set" by (auto split: if_splits)
  then have ents: "set (table_entries T') = (\<Union>l. remaining task m T l) \<union> set (concat ts)"
    unfolding set_table_entries origin UN_Un_distrib by (simp only:)
  have "level_order T'"
    unfolding level_order_def
  proof (intro allI impI ballI)
    fix l l' x y assume lt: "level_as_u8 l < level_as_u8 l'" and x: "x \<in> set (concat (T' l))" and y: "y \<in> set (concat (T' l'))"
      and k: "me_composite_key x = me_composite_key y"
    have c: "if level_as_u8 ?tgt < level_as_u8 l then me_sequence_number r < me_sequence_number e else me_sequence_number e < me_sequence_number r"
      if e: "e \<in> set (concat ts)" and r: "r \<in> remaining task m T l" and "me_composite_key e = me_composite_key r" for e r l
      using ts(3) e consumed_order [OF st fit _ r] that(3) by (metis (no_types, lifting))
    have sub: "remaining task m T l \<subseteq> set (concat (T l))" for l using part_sub by (simp add: remaining_def)
    have lo: "level_order T" using st by (simp add: store_ok_def)
    consider "x \<in> remaining task m T l" "y \<in> remaining task m T l'" | "l = ?tgt" "x \<in> set (concat ts)" "y \<in> remaining task m T l'"
      | "l' = ?tgt" "y \<in> set (concat ts)" "x \<in> remaining task m T l"
      using x y lt unfolding origin by (auto split: if_splits)
    then show "me_sequence_number y < me_sequence_number x"
    proof cases
      case 1
      then show ?thesis using lo lt k sub unfolding level_order_def by blast
    next
      case 2
      then show ?thesis using c [OF 2(2,3) k] lt by simp
    next
      case 3
      then show ?thesis using c [OF 3(2,3) k [symmetric]] lt less_not_sym by simp
    qed
  qed
  moreover have "\<forall>l. list_all2 (meta_repr E objs' ns l) (sstables_at_level l m') (T' l)"
    using ts'(1) rep ex by (auto simp: T'_def exchanged_def)
  moreover have "\<forall>l. \<not> level_is_overlapping l \<longrightarrow> sorted_wrt table_less (T' l)" using ts'(2) srt by (simp add: T'_def)
  moreover have "distinct (all_sstable_ids m')" by (rule exchanged_ids [OF _ ex outs(3,4)]) (use st in \<open>simp add: store_ok_def\<close>)
  moreover have "\<forall>l. \<forall>s \<in> set (sstables_at_level l m'). named s"
  proof (intro allI ballI)
    fix l s assume "s \<in> set (sstables_at_level l m')"
    then have "s \<in> set (staying task m l) \<union> set outs"
      using ex unfolding exchanged_def by (cases "l = ?tgt") (metis set_append set_mset_mset mset_append, simp)
    then show "named s" using st outs(2) by (auto simp: staying_def store_ok_def)
  qed
  moreover have "\<forall>e \<in> set (table_entries T'). entry_ok e"
  proof -
    have "\<forall>e \<in> set (table_entries T). entry_ok e" using st by (simp add: store_ok_def)
    then show ?thesis unfolding ents table_entries_split [OF st fit] using ts(2) by blast
  qed
  ultimately show ?thesis using ents unfolding store_ok_def by blast
qed

end
