(* ===== verification/Compaction_Correct.thy ===== *)
theory Compaction_Correct
  imports Level_Exchange
begin

text \<open>
  A compaction succeeds, exchanges exactly the tables it was scheduled for and changes no read. The inputs are merged into
  the newest version of every key, tombstones are left out at the bottom level, and the fragments written are
  sorted and apart from the tables that stay.
\<close>

section \<open>Committing an update\<close>

lemma mm_update_commits:
  assumes J: "json_ok J" and "validate_epoch u mm = Inr ()" and "validate_update u mm = Inr ()"
    and a: "mu_apply (clock 4) u (mm_current mm) = Inr m'"
    and free: "\<exists>e. fs_get (mm_path mm (mf_manifest_id (mm_current mm) + 1)) objs = Inl e"
  shows "\<exists>b d. mm_update J clock u mm objs
    = (Inr (), mm\<lparr>mm_current := m'\<lparr>mf_is_snapshot := b\<rparr>\<rparr>, fs_put (mm_path mm (mf_manifest_id (mm_current mm) + 1)) d objs)"
proof -
  let ?w = "if should_snapshot_manifest J mm m' then m'\<lparr>mf_is_snapshot := True\<rparr> else m'"
  obtain d where d: "mf_serialize J ?w = Inr d" using J unfolding json_ok_def mf_serialize_def by (metis (no_types, lifting) option.simps(5))
  have i: "mf_manifest_id ?w = mf_manifest_id (mm_current mm) + 1"
    using a by (auto simp: mu_apply_def Let_def mid_next_def split: option.splits if_splits)
  have p: "fs_conditional_put (mm_path mm (mf_manifest_id ?w)) d objs = Inr (fs_put (mm_path mm (mf_manifest_id ?w)) d objs)"
    using free unfolding i fs.conditional_put_ok by simp
  have "mm_attempt J True (clock 4) u mm objs = Inr (mm\<lparr>mm_current := ?w\<rparr>, fs_put (mm_path mm (mf_manifest_id ?w)) d objs)"
    using a d p by (simp add: mm_attempt_def Let_def)
  then have "mm_update J clock u mm objs = (Inr (), mm\<lparr>mm_current := ?w\<rparr>, fs_put (mm_path mm (mf_manifest_id ?w)) d objs)"
    using assms(2,3) by (simp add: mm_update_def MAX_CAS_RETRIES_def eval_nat_numeral)
  then show ?thesis unfolding i
    by (intro exI [of _ "if should_snapshot_manifest J mm m' then True else mf_is_snapshot m'"] exI [of _ d])
      (cases "should_snapshot_manifest J mm m'"; simp)
qed

section \<open>Reading the inputs\<close>

lemma collect_all_repr:
  assumes "handle_repr E objs h es"
  shows "collect_all_entries (direct_fetcher E objs) h = Inr (map be_of es)"
proof -
  obtain bss where im: "handle_image E objs h bss" and es: "es = concat bss"
    using assms by (auto simp: handle_repr_def)
  then obtain d ft fb ib dd where d: "fs_get (hn_path h) objs = Inr d" and img: "sst_image E d ft fb ib dd bss"
      and h: "hn_footer h = ft" "hn_index_block h = ib"
    by (auto simp: handle_image_def)
  have len: "ib_block_count ib = length bss" using image_blocks(1) [OF img] by (simp add: ib_block_count_def)
  have blk: "handle_get_block (direct_fetcher E objs) h i = Inr (map be_of (bss ! i))" if "i < length bss" for i
    using fetch_image [OF d img that] that image_blocks(1) [OF img] by (simp add: handle_get_block_def h from_option_def ib_get_def)
  have col: "collect_blocks (direct_fetcher E objs) h is = Inr (concat (map (\<lambda>i. map be_of (bss ! i)) is))" if "set is \<subseteq> {..<length bss}" for "is"
    using that by (induction "is") (simp_all add: blk)
  have "collect_all_entries (direct_fetcher E objs) h = Inr (concat (map (\<lambda>i. map be_of (bss ! i)) [0..<length bss]))"
    unfolding collect_all_entries_def h len by (rule col) auto
  moreover have "map (\<lambda>i. map be_of (bss ! i)) [0..<length bss] = map (map be_of) bss"
    by (rule nth_equalityI) simp_all
  ultimately show ?thesis by (simp add: es map_concat)
qed

lemma input_sources_hold:
  assumes "list_all2 (handle_repr E objs) hs tables"
  shows "\<exists>ss n'. input_sources (direct_fetcher E objs) n hs = Inr (ss, n') \<and> hold ss (set (concat tables))"
  using assms
proof (induction hs tables arbitrary: n rule: list_all2_induct)
  case (Cons h hs es tables)
  obtain ss n' where ss: "input_sources (direct_fetcher E objs) (n + 1) hs = Inr (ss, n')" "hold ss (set (concat tables))"
    using Cons.IH [of "n + 1"] by blast
  have "hold [vs_new (map mg_from_memtable_entry es) n] (set es)"
    by (intro hold_single ver_sorted_version_key handle_repr_sorted [OF Cons.hyps(1)])
  from hold_append [OF this ss(2)] show ?case using ss(1) collect_all_repr [OF Cons.hyps(1)] by (simp add: o_def)
qed simp

lemma open_inputs_repr:
  assumes "list_all2 (\<lambda>m es. meta_repr E objs ns (if list_ex (\<lambda>x. sm_id x = sm_id m) inputs then ct_source_level task else ct_target_level task) m es) metas tables"
  shows "\<exists>hs. open_inputs E ns task inputs (direct_fetcher E objs) metas = Inr hs \<and> list_all2 (handle_repr E objs) hs tables"
  using assms
proof (induction metas tables rule: list_all2_induct)
  case (Cons m metas es tables)
  then obtain h where "handle_open E m (sst_path ns (if list_ex (\<lambda>x. sm_id x = sm_id m) inputs then ct_source_level task else ct_target_level task) m)
      (direct_fetcher E objs) = Inr h" "handle_repr E objs h es" by (auto simp: meta_repr_def)
  then show ?case using Cons.IH by (auto simp: Let_def)
qed simp

section \<open>Writing the fragments\<close>

definition small_writes :: "codecs \<Rightarrow> sst_config \<Rightarrow> memtable_entry set \<Rightarrow> bool" where
  "small_writes E config S \<longleftrightarrow> (\<forall>es path objs info objs' d. set es \<subseteq> S \<and> strictly_sorted es
     \<and> sst_write E config path es objs = Inr (info, objs') \<and> fs_get path objs' = Inr d \<longrightarrow> length d < 2 ^ 32)"

lemma small_writesD:
  "small_writes E config S \<Longrightarrow> set es \<subseteq> S \<Longrightarrow> strictly_sorted es \<Longrightarrow> sst_write E config path es objs = Inr (info, objs')
    \<Longrightarrow> fs_get path objs' = Inr d \<Longrightarrow> length d < 2 ^ 32"
  unfolding small_writes_def by blast

lemma small_writes_mono: "small_writes E config S \<Longrightarrow> S' \<subseteq> S \<Longrightarrow> small_writes E config S'"
  unfolding small_writes_def by (meson subset_trans)

lemma sst_write_path: "sst_write E config path es objs = Inr (info, objs') \<Longrightarrow> si_path info = path"
  by (auto simp: sst_write_def sst_finish_def Let_def split: if_splits)

lemma strictly_ver_sorted: "strictly_sorted es \<Longrightarrow> sorted_wrt ver_less es"
  unfolding strictly_sorted_def by (erule sorted_wrt_mono_rel [rotated]) (simp add: ver_less_def)

lemma write_table:
  assumes E: "codecs_ok E" "compress_total E (sst_compression config)" and es: "\<forall>e \<in> set es. entry_ok e" "length es < 2 ^ 32" "es \<noteq> []"
    and srt: "sorted_wrt ver_less es" "apart (chunk (block_size_target config) [] es)"
    and small: "\<And>info objs' d. sst_write E config (sst_location ns l i) es objs = Inr (info, objs') \<Longrightarrow> fs_get (sst_location ns l i) objs' = Inr d \<Longrightarrow> length d < 2 ^ 32"
    and id: "sst_id_of_path (sst_location ns l i) = i"
    and mark: "mark = (\<lambda>m. m) \<or> (\<exists>r j. mark = fragment_mark r j \<and> i = fragment_id r j)"
  shows "\<exists>info d. sst_write E config (sst_location ns l i) es objs = Inr (info, fs_put (sst_location ns l i) d objs)
    \<and> (\<forall>sr rc now. meta_repr E (fs_put (sst_location ns l i) d objs) ns l (mark (from_sst_info info sr rc now)) es
        \<and> named (mark (from_sst_info info sr rc now)) \<and> sm_id (mark (from_sst_info info sr rc now)) = i)"
proof -
  let ?p = "sst_location ns l i"
  obtain info objs' where w: "sst_write E config ?p es objs = Inr (info, objs')" using sst_write_total [OF E(2) es(2)] es(3) by fastforce
  obtain d where d: "objs' = fs_put ?p d objs" using sst_write_image [OF E(1) es(1,2) w] by blast
  have m: "sm_id (mark (from_sst_info info sr rc now)) = i \<and> named (mark (from_sst_info info sr rc now))
      \<and> sm_size_bytes (mark (from_sst_info info sr rc now)) = si_file_size info
      \<and> sm_min_key (mark (from_sst_info info sr rc now)) = as_bytes (si_min_key info)
      \<and> sm_max_key (mark (from_sst_info info sr rc now)) = as_bytes (si_max_key info)" for sr rc now
    using mark id sst_write_path [OF w] by (auto simp: from_sst_info_def fragment_mark_def named_def)
  have "meta_repr E (fs_put ?p d objs) ns l (mark (from_sst_info info sr rc now)) es" for sr rc now
  proof -
    let ?m = "mark (from_sst_info info sr rc now)"
    have "sst_path ns l ?m = ?p" using sst_path_location [of ?m ns l] m by simp
    moreover obtain h where "handle_open E ?m ?p (direct_fetcher E objs') = Inr h"
        "handle_image E objs' h (chunk (block_size_target config) [] es)"
      using written_handle [OF E(1) es(1,2) w small [OF w] srt(1), of ?m] m by blast
    moreover have "handle_repr E objs' h es" if "handle_image E objs' h (chunk (block_size_target config) [] es)" for h
      unfolding handle_repr_def using that srt(2) by (intro exI [of _ "chunk (block_size_target config) [] es"]) (simp add: concat_chunk)
    ultimately show ?thesis unfolding meta_repr_def d by metis
  qed
  then show ?thesis using w m unfolding d by blast
qed


text \<open>The ids a compaction may give to its outputs, and the state of the merge loop after writing the tables \<open>ts\<close>.\<close>

definition new_ids :: "string \<Rightarrow> string \<Rightarrow> string set" where
  "new_ids run_id ulid = insert ulid (range (fragment_id run_id))"

definition frame_except :: "string \<Rightarrow> level \<Rightarrow> string set \<Rightarrow> objects \<Rightarrow> objects \<Rightarrow> bool" where
  "frame_except ns l I objs objs' \<longleftrightarrow> (\<forall>p. (\<forall>i \<in> I. p \<noteq> sst_location ns l i) \<longrightarrow> fs_get p objs' = fs_get p objs)"

definition written :: "codecs \<Rightarrow> string \<Rightarrow> level \<Rightarrow> string list \<Rightarrow> sst_meta list \<Rightarrow> memtable_entry list list \<Rightarrow> objects \<Rightarrow> bool" where
  "written E ns l ids ms ts objs \<longleftrightarrow> list_all2 (meta_repr E objs ns l) ms ts \<and> map sm_id ms = ids \<and> distinct ids \<and> (\<forall>m \<in> set ms. named m)"

lemma written_snoc:
  assumes "written E ns l ids ms ts objs" and "i \<notin> set ids" and "meta_repr E (fs_put (sst_location ns l i) d objs) ns l m es"
    and "named m" and "sm_id m = i"
  shows "written E ns l (ids @ [i]) (ms @ [m]) (ts @ [es]) (fs_put (sst_location ns l i) d objs)"
proof -
  have "meta_repr E (fs_put (sst_location ns l i) d objs) ns l x t" if "x \<in> set ms" "meta_repr E objs ns l x t" for x t
  proof -
    have "named x" "sm_id x \<noteq> i" using assms(1,2) that(1) by (auto simp: written_def)
    then have "sst_path ns l x \<noteq> sst_location ns l i" by (simp add: sst_path_location)
    then show ?thesis using meta_repr_cong [of ns l x objs "fs_put (sst_location ns l i) d objs"] that(2) by (simp add: fs.get_put)
  qed
  then have "list_all2 (meta_repr E (fs_put (sst_location ns l i) d objs) ns l) ms ts"
    using assms(1) unfolding written_def by (auto elim!: list.rel_mono_strong)
  then show ?thesis using assms by (auto simp: written_def list_all2_appendI)
qed


definition kept :: "level \<Rightarrow> merge_entry list \<Rightarrow> memtable_entry list" where
  "kept target es = map me_of_mg (filter (\<lambda>e. \<not> (level_is_bottom target \<and> mg_is_tombstone e)) es)"

definition writable :: "codecs \<Rightarrow> sst_config \<Rightarrow> memtable_entry list \<Rightarrow> bool" where
  "writable E config es \<longleftrightarrow> codecs_ok E \<and> compress_total E (sst_compression config) \<and> strictly_sorted es \<and> length es < 2 ^ 32
     \<and> (\<forall>e \<in> set es. entry_ok e) \<and> small_writes E config (set es)"

lemma strictly_sorted_append: "strictly_sorted (xs @ ys) \<longleftrightarrow> strictly_sorted xs \<and> strictly_sorted ys \<and> table_less xs ys"
  by (auto simp: strictly_sorted_def table_less_def sorted_wrt_append)

lemma writable_part: "writable E config (xs @ es @ ys) \<Longrightarrow> writable E config es"
  by (auto simp: writable_def strictly_sorted_append elim!: small_writes_mono)

lemma write_part:
  assumes w: "writable E config es" "es \<noteq> []" and id: "sst_id_of_path (sst_location ns l i) = i"
    and mark: "mark = (\<lambda>m. m) \<or> (\<exists>r j. mark = fragment_mark r j \<and> i = fragment_id r j)"
  shows "\<exists>info d. sst_write E config (sst_location ns l i) es objs = Inr (info, fs_put (sst_location ns l i) d objs)
    \<and> (\<forall>sr rc now. meta_repr E (fs_put (sst_location ns l i) d objs) ns l (mark (from_sst_info info sr rc now)) es
        \<and> named (mark (from_sst_info info sr rc now)) \<and> sm_id (mark (from_sst_info info sr rc now)) = i)"
proof (rule write_table [OF _ _ _ _ w(2) _ _ _ id mark])
  show "sorted_wrt ver_less es" using w(1) strictly_ver_sorted by (simp add: writable_def)
  show "apart (chunk (block_size_target config) [] es)" using w(1) strictly_sorted_apart by (simp add: writable_def concat_chunk)
  show "length d < 2 ^ 32" if "sst_write E config (sst_location ns l i) es objs = Inr (info, objs')" "fs_get (sst_location ns l i) objs' = Inr d"
    for info objs' d using w(1) small_writesD [OF _ subset_refl _ that] by (simp add: writable_def)
qed (use w(1) in \<open>simp_all add: writable_def\<close>)

lemma of_nat_u32_inject: "i < 2 ^ 32 \<Longrightarrow> j < 2 ^ 32 \<Longrightarrow> (of_nat i :: u32) = of_nat j \<longleftrightarrow> i = j"
  by (auto simp: of_nat_inverse dest!: arg_cong [where f = unat])

abbreviation run_ids :: "string \<Rightarrow> nat \<Rightarrow> string list" where
  "run_ids r n \<equiv> map (\<lambda>i. fragment_id r (of_nat i)) [0..<n]"

lemma run_ids_fresh: "n < 2 ^ 32 \<Longrightarrow> fragment_id r (of_nat n) \<notin> set (run_ids r n)"
  by (auto simp: of_nat_u32_inject)

definition loop_ok :: "codecs \<Rightarrow> string \<Rightarrow> level \<Rightarrow> string \<Rightarrow> objects \<Rightarrow> memtable_entry list list \<Rightarrow> compaction_state \<Rightarrow> objects \<Rightarrow> bool" where
  "loop_ok E ns target run_id objs0 ts cs objs \<longleftrightarrow>
     written E ns target (run_ids run_id (length ts)) (cs_output_metas cs) ts objs \<and> [] \<notin> set ts
     \<and> cs_fragment_index cs = of_nat (length ts) \<and> frame_except ns target (range (fragment_id run_id)) objs0 objs"

lemma frame_put: "frame_except ns l I objs0 objs \<Longrightarrow> i \<in> I \<Longrightarrow> frame_except ns l I objs0 (fs_put (sst_location ns l i) d objs)"
  by (auto simp: frame_except_def fs.get_put)

lemma compact_entry_ok:
  assumes ok: "loop_ok E (ce_namespace ce) target run_id objs0 ts cs objs" and r: "ulid_ok run_id"
    and w: "writable E (ce_sst_config ce) (concat ts @ cs_current_entries cs @ kept target [e])" and n: "length ts < 2 ^ 32"
  shows "\<exists>cs' objs' ts'. compact_entry E ce target now run_id e cs objs = Inr (cs', objs')
    \<and> loop_ok E (ce_namespace ce) target run_id objs0 ts' cs' objs'
    \<and> concat ts' @ cs_current_entries cs' = concat ts @ cs_current_entries cs @ kept target [e]"
proof (cases "level_is_bottom target \<and> mg_is_tombstone e")
  case True
  then show ?thesis using ok by (intro exI [of _ "cs\<lparr>cs_entries_dropped := cs_entries_dropped cs + 1\<rparr>"] exI [of _ objs] exI [of _ ts])
      (auto simp: compact_entry_def kept_def loop_ok_def)
next
  case False
  let ?cs = "cs_add e cs" and ?ns = "ce_namespace ce"
  have k: "kept target [e] = [me_of_mg e]" using False by (simp add: kept_def)
  have c: "cs_current_entries ?cs = cs_current_entries cs @ kept target [e]" "cs_output_metas ?cs = cs_output_metas cs"
    "cs_fragment_index ?cs = cs_fragment_index cs" by (simp_all add: cs_add_def k)
  show ?thesis
  proof (cases "cs_current_size ?cs \<ge> target_fragment_size (ce_compaction_config ce)")
    case False': False
    then show ?thesis using False ok c
      by (intro exI [of _ ?cs] exI [of _ objs] exI [of _ ts]) (auto simp: compact_entry_def Let_def loop_ok_def)
  next
    case True
    let ?i = "fragment_id run_id (cs_fragment_index cs)" and ?mark = "fragment_mark run_id (cs_fragment_index cs)"
    let ?p = "sst_location ?ns target ?i"
    have "writable E (ce_sst_config ce) (cs_current_entries ?cs)"
      using writable_part [of E _ "concat ts" "cs_current_entries ?cs" "[]"] w by (simp add: c)
    moreover have "cs_current_entries ?cs \<noteq> []" by (simp add: c k)
    ultimately obtain info d where wr: "sst_write E (ce_sst_config ce) ?p (cs_current_entries ?cs) objs = Inr (info, fs_put ?p d objs)"
      and m: "\<And>sr rc now. meta_repr E (fs_put ?p d objs) ?ns target (?mark (from_sst_info info sr rc now)) (cs_current_entries ?cs)"
        "\<And>sr rc now. named (?mark (from_sst_info info sr rc now))" "\<And>sr rc now. sm_id (?mark (from_sst_info info sr rc now)) = ?i"
      using write_part [of E "ce_sst_config ce" "cs_current_entries ?cs" ?ns target ?i ?mark objs] sst_id_location(2) [OF r] by blast
    let ?m = "?mark (from_sst_info info (cs_min_seq ?cs, cs_max_seq ?cs) (of_nat (card (cs_record_ids ?cs))) now)"
    let ?cs' = "?cs\<lparr>cs_bytes_written := cs_bytes_written ?cs + si_file_size info, cs_output_metas := cs_output_metas cs @ [?m],
      cs_current_entries := [], cs_fragment_index := cs_fragment_index cs + 1, cs_current_size := 0, cs_min_seq := - 1, cs_max_seq := 0, cs_record_ids := {}\<rparr>"
    have step: "compact_entry E ce target now run_id e cs objs = Inr (?cs', fs_put ?p d objs)"
      using False True wr c by (auto simp: compact_entry_def Let_def cs_emit_def generate_paths)
    have "written E ?ns target (run_ids run_id (length ts) @ [?i]) (cs_output_metas cs @ [?m]) (ts @ [cs_current_entries ?cs]) (fs_put ?p d objs)"
      by (rule written_snoc [OF _ _ m]) (use ok run_ids_fresh [OF n, of run_id] in \<open>auto simp: loop_ok_def\<close>)
    then have "loop_ok E ?ns target run_id objs0 (ts @ [cs_current_entries ?cs]) ?cs' (fs_put ?p d objs)"
      using ok \<open>cs_current_entries ?cs \<noteq> []\<close> by (auto simp: loop_ok_def algebra_simps intro: frame_put)
    then show ?thesis using step c by (intro exI [of _ ?cs'] exI [of _ "fs_put ?p d objs"] exI [of _ "ts @ [cs_current_entries ?cs]"]) simp
  qed
qed


lemma concat_length_le: "[] \<notin> set ts \<Longrightarrow> length ts \<le> length (concat ts)"
proof (induction ts)
  case (Cons a ts)
  then have "1 \<le> length a" by (cases a) auto
  then show ?case using Cons by simp
qed simp

lemma compact_loop_ok:
  assumes "yields it es" and "length es \<le> fuel" and r: "ulid_ok run_id"
    and "loop_ok E (ce_namespace ce) target run_id objs0 ts cs objs"
    and "writable E (ce_sst_config ce) (concat ts @ cs_current_entries cs @ kept target es)"
  shows "\<exists>cs' objs' ts'. compact_loop fuel E ce target now run_id it cs objs = Some (Inr cs', objs')
    \<and> loop_ok E (ce_namespace ce) target run_id objs0 ts' cs' objs'
    \<and> concat ts' @ cs_current_entries cs' = concat ts @ cs_current_entries cs @ kept target es"
  using assms(1,2,4,5)
proof (induction es arbitrary: it fuel ts cs objs rule: list.induct)
  case Nil
  then have "compact_loop fuel E ce target now run_id it cs objs = Some (Inr cs, objs)"
    by (auto elim!: yields_NilE simp: compact_loop.simps [of fuel])
  then show ?case using Nil by (auto simp: kept_def)
next
  case (Cons e es)
  obtain it' where it': "next_deduped it = Some (Some e, it')" "yields it' es" using Cons.prems(1) by (rule yields_ConsE)
  obtain f where f: "fuel = Suc f" "length es \<le> f" using Cons.prems(2) by (cases fuel) auto
  have k: "kept target (e # es) = kept target [e] @ kept target es" by (simp add: kept_def)
  have w: "writable E (ce_sst_config ce) (concat ts @ cs_current_entries cs @ kept target [e])"
    using writable_part [of E _ "[]" "concat ts @ cs_current_entries cs @ kept target [e]" "kept target es"] Cons.prems(4) by (simp add: k)
  have n: "length ts < 2 ^ 32"
    using concat_length_le [of ts] Cons.prems(3,4) by (simp add: loop_ok_def writable_def)
  obtain cs1 objs1 ts1 where s: "compact_entry E ce target now run_id e cs objs = Inr (cs1, objs1)"
    "loop_ok E (ce_namespace ce) target run_id objs0 ts1 cs1 objs1"
    "concat ts1 @ cs_current_entries cs1 = concat ts @ cs_current_entries cs @ kept target [e]"
    using compact_entry_ok [OF Cons.prems(3) r w n] by blast
  have all: "concat ts1 @ cs_current_entries cs1 @ kept target es = concat ts @ cs_current_entries cs @ kept target (e # es)"
    using s(3) by (simp add: k)
  have "compact_loop fuel E ce target now run_id it cs objs = compact_loop f E ce target now run_id it' cs1 objs1"
    by (simp add: compact_loop.simps [of "Suc f"] f(1) it'(1) s(1))
  then show ?case using Cons.IH [OF it'(2) f(2) s(2)] Cons.prems(4) unfolding all by metis
qed

lemma write_remaining_ok:
  assumes ok: "loop_ok E (ce_namespace ce) target run_id objs0 ts cs objs" and r: "ulid_ok run_id" "ulid_ok ulid"
    and w: "writable E (ce_sst_config ce) (concat ts @ cs_current_entries cs)"
  shows "\<exists>cs' objs' ids ts'. write_remaining E ce target now run_id ulid cs objs = Inr (cs', objs')
    \<and> written E (ce_namespace ce) target ids (cs_output_metas cs') ts' objs' \<and> set ids \<subseteq> new_ids run_id ulid
    \<and> concat ts' = concat ts @ cs_current_entries cs \<and> frame_except (ce_namespace ce) target (new_ids run_id ulid) objs0 objs'"
proof (cases "cs_current_entries cs = []")
  case True
  then show ?thesis using ok
    by (intro exI [of _ cs] exI [of _ objs] exI [of _ "run_ids run_id (length ts)"] exI [of _ ts])
      (auto simp: write_remaining_def loop_ok_def new_ids_def frame_except_def)
next
  case False
  let ?ns = "ce_namespace ce"
  define i where "i = (if cs_fragment_index cs = 0 then ulid else fragment_id run_id (cs_fragment_index cs))"
  define mark where "mark = (if cs_fragment_index cs = 0 then (\<lambda>m. m) else fragment_mark run_id (cs_fragment_index cs))"
  have n: "length ts < 2 ^ 32" using concat_length_le [of ts] ok w by (simp add: loop_ok_def writable_def)
  then have z: "cs_fragment_index cs = 0 \<longleftrightarrow> ts = []"
    using ok of_nat_u32_inject [of "length ts" 0] by (auto simp: loop_ok_def)
  have fresh: "i \<notin> set (run_ids run_id (length ts))"
    using run_ids_fresh [OF n] ok z by (auto simp: i_def loop_ok_def)
  have "sst_id_of_path (sst_location ?ns target i) = i" using sst_id_location r by (simp add: i_def)
  moreover have "mark = (\<lambda>m. m) \<or> (\<exists>r j. mark = fragment_mark r j \<and> i = fragment_id r j)" by (auto simp: mark_def i_def)
  moreover have "writable E (ce_sst_config ce) (cs_current_entries cs)"
    using writable_part [of E _ "concat ts" "cs_current_entries cs" "[]"] w by simp
  ultimately obtain info d where wr: "sst_write E (ce_sst_config ce) (sst_location ?ns target i) (cs_current_entries cs) objs
        = Inr (info, fs_put (sst_location ?ns target i) d objs)"
    and m: "\<And>sr rc now. meta_repr E (fs_put (sst_location ?ns target i) d objs) ?ns target (mark (from_sst_info info sr rc now)) (cs_current_entries cs)"
      "\<And>sr rc now. named (mark (from_sst_info info sr rc now))" "\<And>sr rc now. sm_id (mark (from_sst_info info sr rc now)) = i"
    using write_part [of E "ce_sst_config ce" "cs_current_entries cs" ?ns target i mark objs] False by blast
  let ?objs = "fs_put (sst_location ?ns target i) d objs"
  let ?m = "mark (from_sst_info info (cs_min_seq cs, cs_max_seq cs) (of_nat (card (cs_record_ids cs))) now)"
  let ?cs = "cs\<lparr>cs_bytes_written := cs_bytes_written cs + si_file_size info, cs_output_metas := cs_output_metas cs @ [?m], cs_current_entries := []\<rparr>"
  have "write_remaining E ce target now run_id ulid cs objs = Inr (?cs, ?objs)"
    using False wr by (cases "cs_fragment_index cs = 0") (simp_all add: write_remaining_def cs_emit_def generate_paths i_def mark_def)
  moreover have "written E ?ns target (run_ids run_id (length ts) @ [i]) (cs_output_metas ?cs) (ts @ [cs_current_entries cs]) ?objs"
    using written_snoc [OF _ fresh m] ok by (simp add: loop_ok_def)
  moreover have "frame_except ?ns target (new_ids run_id ulid) objs0 ?objs"
    using ok by (auto simp: loop_ok_def frame_except_def new_ids_def fs.get_put i_def)
  moreover have "set (run_ids run_id (length ts) @ [i]) \<subseteq> new_ids run_id ulid" by (auto simp: new_ids_def i_def)
  ultimately show ?thesis by (intro exI conjI) (assumption | simp)+
qed


section \<open>The manifest update of a task\<close>

lemma add_sstables_off: "l \<noteq> t \<Longrightarrow> level_entry l (add_sstables (map (\<lambda>m. (t, m)) outs) ls) = level_entry l ls"
  by (induction outs arbitrary: ls) (simp_all add: Let_def)

lemma removed_distinct:
  assumes "distinct (all_sstable_ids m)" and "task_fits m task"
  shows "distinct (removed task)" and "\<forall>(l, i) \<in> set (removed task). i \<in> sm_id ` set (sstables_at_level l m)"
proof -
  let ?f = "filter (\<lambda>s. s \<in> set (ct_input_sstables task)) (sstables_at_level (ct_source_level task) m)"
  have i: "ct_input_sstables task = ?f" using assms(2) by (simp add: task_fits_def)
  obtain lo hi where t: "ct_target_sstables task = find_overlapping (ct_target_level task) lo hi m" using assms(2) by (auto simp: task_fits_def)
  have "distinct (map sm_id (ct_input_sstables task))" by (subst i) (rule distinct_map_filter [OF level_distinct(1) [OF assms(1)]])
  moreover have "distinct (map sm_id (ct_target_sstables task))"
    unfolding t find_overlapping_def by (rule distinct_map_filter [OF level_distinct(1) [OF assms(1)]])
  moreover have "ct_source_level task \<noteq> ct_target_level task" using fit_levels(1) [OF assms(2)] by auto
  ultimately show "distinct (removed task)" by (auto simp: removed_def distinct_map inj_on_def)
  have "set (ct_input_sstables task) \<subseteq> set (sstables_at_level (ct_source_level task) m)" by (subst i) auto
  moreover have "set (ct_target_sstables task) \<subseteq> set (sstables_at_level (ct_target_level task) m)" unfolding t find_overlapping_def by auto
  ultimately show "\<forall>(l, i) \<in> set (removed task). i \<in> sm_id ` set (sstables_at_level l m)" by (auto simp: removed_def)
qed

lemma update_exchanges:
  assumes st: "store_ok E objs ns m T" and fit: "task_fits m task"
    and u: "mu_remove_sstables u = removed task" "mu_add_sstables u = map (\<lambda>s. (ct_target_level task, s)) outs" "mu_new_last_flushed_sequence u = None"
  shows "\<exists>m'. mu_apply now u m = Inr m' \<and> exchanged task outs m m'"
proof -
  let ?tgt = "ct_target_level task"
  have d: "distinct (all_sstable_ids m)" using st by (simp add: store_ok_def)
  have ids: "ids_distinct (mf_levels m)" using level_distinct(1) [OF d] by (simp add: ids_distinct_def sstables_level_entry)
  note rm = remove_sstables_spec [OF ids, of "removed task"]
  have "\<exists>ls. remove_sstables (removed task) (mf_levels m) = Inr ls"
    using rm removed_distinct [OF d fit] by (simp add: sstables_level_entry)
  then obtain ls where ls: "remove_sstables (removed task) (mf_levels m) = Inr ls" by blast
  have e: "level_entry l ls = staying task m l" for l using rm ls by (simp add: staying_def sstables_level_entry)
  obtain m' where m': "mu_apply now u m = Inr m'" "mf_levels m' = add_sstables (mu_add_sstables u) ls"
    using ls u by (simp add: mu_apply_def Let_def)
  have "list_all2 (meta_repr E objs ns ?tgt) (sstables_at_level ?tgt m) (T ?tgt)" "sorted_wrt table_less (T ?tgt)"
    using st fit_levels(2) [OF fit] by (simp_all add: store_ok_def)
  then have "sorted (map sm_min_key (sstables_at_level ?tgt m))" by (rule tables_min_sorted)
  then have srt: "sorted (map sm_min_key (staying task m ?tgt))" unfolding staying_def by (rule sorted_filter)
  have "map snd (filter (\<lambda>a. fst a = ?tgt) (mu_add_sstables u)) = outs" unfolding u(2) by (simp add: filter_map o_def)
  then have "exchanged task outs m m'"
    using add_sstables_spec [of ?tgt "mu_add_sstables u" ls] srt fit_levels(2) [OF fit] add_sstables_off [of _ ?tgt outs ls]
    by (simp add: exchanged_def sstables_level_entry m'(2) e u(2))
  then show ?thesis using m'(1) by blast
qed

lemma task_update_commits:
  assumes J: "json_ok J" and st: "store_ok E objs0 ns (mm_current mm) T" and fit: "task_fits (mm_current mm) task"
    and u: "mu_trigger u = Compaction" "mu_remove_sstables u = removed task" "mu_add_sstables u = map (\<lambda>s. (ct_target_level task, s)) outs"
      "mu_new_last_flushed_sequence u = None"
    and ep: "check_compactor_epoch mm = Inr ()" and new: "\<forall>s \<in> set outs. sm_id s \<notin> sm_id ` set (sstables_at_level (ct_target_level task) (mm_current mm))"
    and free: "\<exists>e. fs_get (mm_path mm (mf_manifest_id (mm_current mm) + 1)) objs = Inl e"
  shows "\<exists>m' d. mm_update J clock u mm objs
    = (Inr (), mm\<lparr>mm_current := m'\<rparr>, fs_put (mm_path mm (mf_manifest_id (mm_current mm) + 1)) d objs)
    \<and> exchanged task outs (mm_current mm) m'"
proof -
  have d: "distinct (all_sstable_ids (mm_current mm))" using st by (simp add: store_ok_def)
  have "validate_epoch u mm = Inr ()" using u(1) ep by (simp add: validate_epoch_def)
  moreover have "validate_update u mm = Inr ()"
  proof -
    have "list_all (\<lambda>(l, i). listed (mm_current mm) l i) (mu_remove_sstables u)"
      using removed_distinct(2) [OF d fit] by (force simp: u listed_def list_all_iff list_ex_iff)
    moreover have "\<not> list_ex (\<lambda>(l, m). listed (mm_current mm) l (sm_id m)) (mu_add_sstables u)"
      using new unfolding u listed_def list_ex_iff by (auto simp: image_iff dest!: bspec)
    ultimately show ?thesis by (simp add: validate_update_def u(4))
  qed
  moreover obtain m' where m': "mu_apply (clock 4) u (mm_current mm) = Inr m'" "exchanged task outs (mm_current mm) m'"
    using update_exchanges [OF st fit u(2-4)] by blast
  ultimately obtain b d where "mm_update J clock u mm objs
      = (Inr (), mm\<lparr>mm_current := m'\<lparr>mf_is_snapshot := b\<rparr>\<rparr>, fs_put (mm_path mm (mf_manifest_id (mm_current mm) + 1)) d objs)"
    using mm_update_commits [OF J _ _ _ free] by blast
  moreover have "exchanged task outs (mm_current mm) (m'\<lparr>mf_is_snapshot := b\<rparr>)"
    using m'(2) by (simp add: exchanged_def sstables_at_level_def)
  ultimately show ?thesis by blast
qed


section \<open>Merging\<close>

lemma inputs_repr:
  assumes st: "store_ok E objs ns m T" and fit: "task_fits m task"
  shows "list_all2 (meta_repr E objs ns (ct_source_level task)) (ct_input_sstables task) (part (set (removed task)) m T True (ct_source_level task))"
    and "list_all2 (meta_repr E objs ns (ct_target_level task)) (ct_target_sstables task) (part (set (removed task)) m T True (ct_target_level task))"
proof -
  have d: "distinct (all_sstable_ids m)" using st by (simp add: store_ok_def)
  have rep: "list_all2 (meta_repr E objs ns l) (filter (\<lambda>s. (l, sm_id s) \<in> set (removed task)) (sstables_at_level l m))
      (part (set (removed task)) m T True l)" for l
    using list_all2_zip_filter [of "meta_repr E objs ns l" "sstables_at_level l m" "T l" "\<lambda>s. (l, sm_id s) \<in> set (removed task)"] st
    by (simp add: part_def store_ok_def)
  have ne: "ct_source_level task \<noteq> ct_target_level task" using fit_levels(1) [OF fit] by auto
  have "filter (\<lambda>s. (ct_source_level task, sm_id s) \<in> set (removed task)) (sstables_at_level (ct_source_level task) m)
      = filter (\<lambda>s. s \<in> set (ct_input_sstables task)) (sstables_at_level (ct_source_level task) m)"
    by (rule filter_cong [OF refl]) (use removed_iff [OF d fit] ne in simp)
  then show "list_all2 (meta_repr E objs ns (ct_source_level task)) (ct_input_sstables task) (part (set (removed task)) m T True (ct_source_level task))"
    using rep [of "ct_source_level task"] fit by (simp add: task_fits_def)
  obtain lo hi where t: "ct_target_sstables task = find_overlapping (ct_target_level task) lo hi m" using fit by (auto simp: task_fits_def)
  have "filter (\<lambda>s. (ct_target_level task, sm_id s) \<in> set (removed task)) (sstables_at_level (ct_target_level task) m)
      = filter (\<lambda>s. sm_overlaps_range s lo hi) (sstables_at_level (ct_target_level task) m)"
    by (rule filter_cong [OF refl]) (use removed_iff [OF d fit] ne in \<open>simp add: t find_overlapping_def\<close>)
  then show "list_all2 (meta_repr E objs ns (ct_target_level task)) (ct_target_sstables task) (part (set (removed task)) m T True (ct_target_level task))"
    using rep [of "ct_target_level task"] by (simp add: t find_overlapping_def)
qed

lemma inputs_apart:
  assumes d: "distinct (all_sstable_ids m)" and fit: "task_fits m task" and s: "s \<in> set (ct_target_sstables task)"
  shows "\<not> list_ex (\<lambda>x. sm_id x = sm_id s) (ct_input_sstables task)"
proof -
  let ?src = "ct_source_level task" and ?tgt = "ct_target_level task"
  have i: "set (ct_input_sstables task) \<subseteq> set (sstables_at_level ?src m)" "s \<in> set (sstables_at_level ?tgt m)"
    using fit s unfolding task_fits_def find_overlapping_def by (metis filter_is_subset, auto)
  have "sm_id ` set (sstables_at_level l m) \<inter> sm_id ` set (sstables_at_level l' m) = {}" if "l \<noteq> l'" for l l'
    using d that by (cases l; cases l') (auto simp: all_sstable_ids_def level_all_def)
  moreover have "?src \<noteq> ?tgt" using fit_levels(1) [OF fit] by auto
  ultimately have "sm_id ` set (sstables_at_level ?src m) \<inter> sm_id ` set (sstables_at_level ?tgt m) = {}" by blast
  then show ?thesis using i by (auto simp: list_ex_iff)
qed

lemma merge_sources:
  assumes st: "store_ok E objs ns m T" and fit: "task_fits m task"
  shows "\<exists>handles ss n ss' n'. open_inputs E ns task (ct_input_sstables task) (direct_fetcher E objs) (ct_input_sstables task @ ct_target_sstables task) = Inr handles
    \<and> input_sources (direct_fetcher E objs) 0 (take (length (ct_input_sstables task)) handles) = Inr (ss, n)
    \<and> input_sources (direct_fetcher E objs) n (drop (length (ct_input_sstables task)) handles) = Inr (ss', n')
    \<and> hold (ss @ ss') (consumed task m T)"
proof -
  let ?ins = "ct_input_sstables task" and ?outs = "ct_target_sstables task" and ?src = "ct_source_level task" and ?tgt = "ct_target_level task"
  let ?A = "part (set (removed task)) m T True ?src" and ?B = "part (set (removed task)) m T True ?tgt"
  have d: "distinct (all_sstable_ids m)" using st by (simp add: store_ok_def)
  let ?lv = "\<lambda>s. if list_ex (\<lambda>x. sm_id x = sm_id s) ?ins then ?src else ?tgt"
  note r = inputs_repr [OF st fit]
  have "list_all2 (\<lambda>s. meta_repr E objs ns (?lv s) s) ?ins ?A" using r(1) by (rule list.rel_mono_strong) (auto simp: list_ex_iff)
  moreover have "list_all2 (\<lambda>s. meta_repr E objs ns (?lv s) s) ?outs ?B"
    using r(2) by (rule list.rel_mono_strong) (use inputs_apart [OF d fit] in auto)
  ultimately have "list_all2 (\<lambda>s. meta_repr E objs ns (?lv s) s) (?ins @ ?outs) (?A @ ?B)" by (rule list_all2_appendI)
  from open_inputs_repr [OF this] obtain hs where hs: "open_inputs E ns task ?ins (direct_fetcher E objs) (?ins @ ?outs) = Inr hs"
    "list_all2 (handle_repr E objs) hs (?A @ ?B)" by blast
  have n: "length ?ins = length ?A" using r(1) by (rule list_all2_lengthD)
  have "list_all2 (handle_repr E objs) (take (length ?ins) hs) ?A" "list_all2 (handle_repr E objs) (drop (length ?ins) hs) ?B"
    using hs(2) list_all2_takeI [OF hs(2), of "length ?ins"] list_all2_dropI [OF hs(2), of "length ?ins"] by (simp_all add: n)
  from input_sources_hold [OF this(1), of 0] input_sources_hold [OF this(2)] obtain ss n' ss' n'' where
    s: "input_sources (direct_fetcher E objs) 0 (take (length ?ins) hs) = Inr (ss, n')" "hold ss (set (concat ?A))"
       "input_sources (direct_fetcher E objs) n' (drop (length ?ins) hs) = Inr (ss', n'')" "hold ss' (set (concat ?B))" by blast
  then show ?thesis using hs(1) hold_append [OF s(2,4)] unfolding consumed_def by blast
qed

lemma merge_newest_kept:
  assumes es: "newest_versions M es" "set_mset M = mg_from_memtable_entry ` W"
    and uniq: "\<forall>a \<in> W. \<forall>b \<in> W. same_version a b \<longrightarrow> a = b"
  shows "newest_kept (level_is_bottom target) W (set (kept target es))"
proof -
  have nw: "\<exists>w. newest_of W w \<and> e = mg_from_memtable_entry w" if e: "e \<in> set es" for e
  proof -
    have "e \<in># M" and mx: "\<forall>x. x \<in># M \<and> mg_composite_key x = mg_composite_key e \<longrightarrow> mg_sequence_number x \<le> mg_sequence_number e"
      using es(1) e by (auto simp: newest_versions_def)
    then obtain w where w: "w \<in> W" "e = mg_from_memtable_entry w" unfolding es(2) by blast
    then show ?thesis using mx by (intro exI [of _ w]) (auto simp: newest_of_def es(2))
  qed
  have "me_of_mg (mg_from_memtable_entry w) \<in> set (kept target es) \<or> level_is_bottom target \<and> me_entry_type w \<noteq> Put" if w: "newest_of W w" for w
  proof -
    have "mg_from_memtable_entry w \<in># M" using w by (simp add: newest_of_def es(2))
    then have "mg_composite_key (mg_from_memtable_entry w) \<in> mg_composite_key ` set_mset M" by (rule imageI)
    moreover have "mg_composite_key ` set es = mg_composite_key ` set_mset M" using es(1) by (simp add: newest_versions_def)
    ultimately obtain e where e: "e \<in> set es" "mg_composite_key e = me_composite_key w" by (metis image_iff mg_simps(1))
    then obtain x where x: "newest_of W x" "e = mg_from_memtable_entry x" using nw by blast
    then have "same_version w x" using w e(2) by (auto simp: newest_of_def same_version_def intro: order_antisym)
    then have "w = x" using uniq w x(1) by (auto simp: newest_of_def)
    moreover have "me_of_mg e \<in> set (kept target es)" if "me_entry_type x = Put"
      using e(1) x(2) that by (auto simp: kept_def mg_is_tombstone_def tombstone_type_def intro!: imageI)
    moreover have "me_of_mg e \<in> set (kept target es)" if "\<not> level_is_bottom target" using e(1) that by (simp add: kept_def)
    ultimately show ?thesis using x(2) by blast
  qed
  then show ?thesis using nw unfolding newest_kept_def by (auto simp: kept_def)
qed


lemma newest_versions_length: "newest_versions M es \<Longrightarrow> set_mset M = mg_from_memtable_entry ` set xs \<Longrightarrow> length es \<le> length xs"
proof -
  assume es: "newest_versions M es" and M: "set_mset M = mg_from_memtable_entry ` set xs"
  have "distinct (map mg_composite_key es)"
    using es by (auto simp: newest_versions_def sorted_wrt_map [symmetric] strict_sorted_iff)
  then have "length es = card (mg_composite_key ` set es)" by (metis distinct_card length_map set_map)
  also have "\<dots> = card (mg_composite_key ` mg_from_memtable_entry ` set xs)" using es M by (simp add: newest_versions_def)
  also have "\<dots> \<le> length xs" by (metis card_length image_image set_map length_map)
  finally show ?thesis .
qed

lemma kept_strictly_sorted: "newest_versions M es \<Longrightarrow> strictly_sorted (kept target es)"
  by (simp add: strictly_sorted_def kept_def newest_versions_def sorted_wrt_map sorted_wrt_filter)

lemma strictly_sorted_tables: "strictly_sorted (concat ts) \<Longrightarrow> sorted_wrt table_less ts"
proof (induction ts)
  case (Cons a ts)
  then have "strictly_sorted (concat ts)" "table_less a (concat ts)" by (simp_all add: strictly_sorted_append)
  then show ?case using Cons.IH by (auto simp: table_less_def)
qed simp

lemma entry_ok_kept: "entry_ok w \<Longrightarrow> entry_ok (me_of_mg (mg_from_memtable_entry w))"
  by (simp add: entry_ok_def me_of_mg_def me_with_sequence_def mg_from_memtable_entry_def)

lemma merge_writes:
  assumes E: "codecs_ok E" "compress_total E (sst_compression (ce_sst_config ce))"
    and st: "store_ok E objs (ce_namespace ce) m T" and fit: "task_fits m task"
    and uniq: "\<forall>a \<in> set (table_entries T). \<forall>b \<in> set (table_entries T). same_version a b \<longrightarrow> a = b"
    and sz: "length (table_entries T) < 2 ^ 32"
      "small_writes E (ce_sst_config ce) ((\<lambda>e. me_of_mg (mg_from_memtable_entry e)) ` set (table_entries T))"
    and ids: "ulid_ok run_id" "ulid_ok ulid" and h: "hold ss (consumed task m T)"
  shows "\<exists>cs1 objs1 cs objs' ids ts.
    compact_loop (mi_left (mi_new ss)) E ce (ct_target_level task) now run_id (mi_new ss) cs_init objs = Some (Inr cs1, objs1)
    \<and> write_remaining E ce (ct_target_level task) now run_id ulid cs1 objs1 = Inr (cs, objs')
    \<and> written E (ce_namespace ce) (ct_target_level task) ids (cs_output_metas cs) ts objs' \<and> set ids \<subseteq> new_ids run_id ulid
    \<and> frame_except (ce_namespace ce) (ct_target_level task) (new_ids run_id ulid) objs objs'
    \<and> strictly_sorted (concat ts) \<and> newest_kept (level_is_bottom (ct_target_level task)) (consumed task m T) (set (concat ts))"
proof -
  let ?it = "mi_new ss" and ?tgt = "ct_target_level task" and ?W = "consumed task m T" and ?ns = "ce_namespace ce"
  have W: "?W \<subseteq> set (table_entries T)" using table_entries_split [OF st fit] by blast
  have M: "set_mset (mset (all_rest ?it)) = mg_from_memtable_entry ` ?W" using h unfolding hold_def by simp
  have "sources_sorted ?it" using h by (simp add: hold_def sources_sorted_def mi_new_def)
  from yields_newest [OF mi_new_inv this] obtain es where
    es: "yields ?it es" "newest_versions (mset (all_rest ?it)) es" "length es \<le> mi_left ?it" by blast
  let ?K = "kept ?tgt es"
  have nk: "newest_kept (level_is_bottom ?tgt) ?W (set ?K)"
    by (rule merge_newest_kept [OF es(2) M]) (use uniq W in blast)
  have old: "\<exists>w \<in> set (table_entries T). e = me_of_mg (mg_from_memtable_entry w)" if "e \<in> set ?K" for e
    using newest_keptD(1) [OF nk that] W unfolding newest_of_def by blast
  have "finite ?W" using W finite_subset by blast
  then obtain xs where xs: "set xs = ?W" "distinct xs" using finite_distinct_list by blast
  have "length xs \<le> length (table_entries T)" using xs W by (metis card_length card_mono distinct_card finite_set order_trans)
  then have "length ?K < 2 ^ 32"
    using newest_versions_length [OF es(2), of xs] M xs(1) sz(1) length_filter_le [of _ es] unfolding kept_def by (metis (no_types, lifting) le_less_trans length_map order_trans)
  moreover have "\<forall>e \<in> set ?K. entry_ok e" using old st entry_ok_kept unfolding store_ok_def by blast
  moreover have "small_writes E (ce_sst_config ce) (set ?K)" by (rule small_writes_mono [OF sz(2)]) (use old in blast)
  ultimately have wr: "writable E (ce_sst_config ce) ?K" using E kept_strictly_sorted [OF es(2)] by (simp add: writable_def)
  have "loop_ok E ?ns ?tgt run_id objs [] cs_init objs" by (simp add: loop_ok_def written_def cs_init_def frame_except_def)
  moreover have c0: "cs_current_entries cs_init = []" by (simp add: cs_init_def)
  ultimately obtain cs1 objs1 ts1 where
    l: "compact_loop (mi_left ?it) E ce ?tgt now run_id ?it cs_init objs = Some (Inr cs1, objs1)"
       "loop_ok E ?ns ?tgt run_id objs ts1 cs1 objs1" "concat ts1 @ cs_current_entries cs1 = ?K"
    using compact_loop_ok [OF es(1,3) ids(1), of E ce ?tgt objs "[]" cs_init objs now] wr by fastforce
  from write_remaining_ok [OF l(2) ids, of now] obtain cs objs' "is" ts where
    r: "write_remaining E ce ?tgt now run_id ulid cs1 objs1 = Inr (cs, objs')" "written E ?ns ?tgt is (cs_output_metas cs) ts objs'"
       "set is \<subseteq> new_ids run_id ulid" "concat ts = ?K" "frame_except ?ns ?tgt (new_ids run_id ulid) objs objs'"
    using wr l(3) by auto
  then show ?thesis using l(1) nk kept_strictly_sorted [OF es(2)] by metis
qed

end
