(* ===== verification/Compaction_Safe.thy ===== *)
theory Compaction_Safe
  imports Compaction_Correct
begin

text \<open>
  The two ways a task is executed, a merge and a trivial move, both keep the store well formed and what is visible in it.
\<close>

definition harmless :: "tables \<Rightarrow> tables \<Rightarrow> bool" where
  "harmless T T' \<longleftrightarrow> (\<forall>mem. below_memtables (table_entries T) mem \<longrightarrow>
     same_visible mem (table_entries T) mem (table_entries T') \<and> below_memtables (table_entries T') mem)"

lemma same_entries_harmless:
  assumes "set (table_entries T') = set (table_entries T)"
  shows "harmless T T'"
  using assms by (simp add: harmless_def same_visible_def visible_def below_memtables_def)

lemma exchange_harmless:
  assumes st: "store_ok E objs ns m T" and fit: "task_fits m task"
    and e: "set (table_entries T') = (\<Union>l. remaining task m T l) \<union> K"
    and k: "newest_kept (level_is_bottom (ct_target_level task)) (consumed task m T) K"
  shows "harmless T T'"
  unfolding harmless_def
proof (intro allI impI conjI)
  fix mem assume low: "below_memtables (table_entries T) mem"
  let ?R = "\<Union>l. remaining task m T l" and ?W = "consumed task m T"
  note base = table_entries_split [OF st fit]
  have c: "\<forall>r \<in> ?R. \<forall>w \<in> ?W. me_composite_key r = me_composite_key w \<longrightarrow> me_sequence_number r \<noteq> me_sequence_number w"
  proof (intro ballI impI)
    fix r w assume "r \<in> ?R" and w: "w \<in> ?W" and eq: "me_composite_key r = me_composite_key w"
    then obtain l where "r \<in> remaining task m T l" by blast
    from consumed_order [OF st fit w this eq [symmetric]] show "me_sequence_number r \<noteq> me_sequence_number w" by (auto split: if_splits)
  qed
  show "below_memtables (table_entries T') mem" by (rule newest_kept_below [OF base e k c low])
  show "same_visible mem (table_entries T) mem (table_entries T')"
  proof (rule newest_kept_visible [OF base e k])
    show "\<forall>a \<in> set (table_entries T). \<forall>b \<in> set (table_entries T). same_version a b \<longrightarrow> a = b"
      "\<forall>b \<in> set (table_entries T). \<forall>x \<in> set mem. me_sequence_number b < me_sequence_number x"
      using low by (simp_all add: below_memtables_def)
    show "level_is_bottom (ct_target_level task) \<longrightarrow>
        (\<forall>r \<in> ?R. \<forall>w \<in> ?W. me_composite_key r = me_composite_key w \<longrightarrow> me_sequence_number w < me_sequence_number r)"
    proof (intro impI ballI)
      fix r w assume bot: "level_is_bottom (ct_target_level task)" and "r \<in> ?R" and w: "w \<in> ?W" and eq: "me_composite_key r = me_composite_key w"
      then obtain l where r: "r \<in> remaining task m T l" by blast
      have "\<not> level_as_u8 (ct_target_level task) < level_as_u8 l" using bot by (cases l) (auto simp: level_is_bottom_def)
      then show "me_sequence_number w < me_sequence_number r" using consumed_order [OF st fit w r eq [symmetric]] by simp
    qed
  qed
qed

text \<open>What executing a task needs: an unfenced compactor whose next manifest is not taken, and fresh ids.\<close>

definition may_commit :: "manifest_json \<Rightarrow> manifest_manager \<Rightarrow> objects \<Rightarrow> bool" where
  "may_commit J mm objs \<longleftrightarrow> json_ok J \<and> check_compactor_epoch mm = Inr ()
     \<and> (\<exists>e. fs_get (mm_path mm (mf_manifest_id (mm_current mm) + 1)) objs = Inl e)"

definition fresh_ids :: "manifest \<Rightarrow> string \<Rightarrow> string \<Rightarrow> bool" where
  "fresh_ids m run_id ulid \<longleftrightarrow> ulid_ok run_id \<and> ulid_ok ulid \<and> new_ids run_id ulid \<inter> set (all_sstable_ids m) = {}"

lemma listed_id: "s \<in> set (sstables_at_level l m) \<Longrightarrow> sm_id s \<in> set (all_sstable_ids m)"
  by (cases l) (auto simp: all_sstable_ids_def level_all_def)

lemma staying_listed: "s \<in> set (staying task m l) \<Longrightarrow> s \<in> set (sstables_at_level l m)"
  by (simp add: staying_def)

lemma store_named: "store_ok E objs ns m T \<Longrightarrow> s \<in> set (sstables_at_level l m) \<Longrightarrow> sst_path ns l s = sst_location ns l (sm_id s)"
  by (auto simp: store_ok_def intro: sst_path_location)

lemma merge_move_ok:
  assumes E: "codecs_ok E" "compress_total E (sst_compression (ce_sst_config ce))"
    and st: "store_ok E objs (ce_namespace ce) (mm_current mm) T" and fit: "task_fits (mm_current mm) task"
    and uniq: "\<forall>a \<in> set (table_entries T). \<forall>b \<in> set (table_entries T). same_version a b \<longrightarrow> a = b"
    and sz: "length (table_entries T) < 2 ^ 32"
      "small_writes E (ce_sst_config ce) ((\<lambda>e. me_of_mg (mg_from_memtable_entry e)) ` set (table_entries T))"
    and ids: "fresh_ids (mm_current mm) run_id ulid" and c: "may_commit J mm objs"
  shows "\<exists>res m' objs' T'. merge_move E J clock ce now run_id ulid task (direct_fetcher E objs) mm objs = Some (Inr res, mm\<lparr>mm_current := m'\<rparr>, objs')
    \<and> store_ok E objs' (ce_namespace ce) m' T' \<and> harmless T T'"
proof -
  let ?ns = "ce_namespace ce" and ?m = "mm_current mm" and ?tgt = "ct_target_level task" and ?N = "new_ids run_id ulid"
  let ?mp = "mm_path mm (mf_manifest_id ?m + 1)"
  have u: "ulid_ok run_id" "ulid_ok ulid" and fr: "?N \<inter> set (all_sstable_ids ?m) = {}" using ids by (simp_all add: fresh_ids_def)
  obtain hs ss n ss' n' where s: "open_inputs E ?ns task (ct_input_sstables task) (direct_fetcher E objs) (ct_input_sstables task @ ct_target_sstables task) = Inr hs"
    "input_sources (direct_fetcher E objs) 0 (take (length (ct_input_sstables task)) hs) = Inr (ss, n)"
    "input_sources (direct_fetcher E objs) n (drop (length (ct_input_sstables task)) hs) = Inr (ss', n')"
    "hold (ss @ ss') (consumed task ?m T)" using merge_sources [OF st fit] by blast
  obtain cs1 objs1 cs objs2 "is" ts where
    w: "compact_loop (mi_left (mi_new (ss @ ss'))) E ce ?tgt now run_id (mi_new (ss @ ss')) cs_init objs = Some (Inr cs1, objs1)"
      "write_remaining E ce ?tgt now run_id ulid cs1 objs1 = Inr (cs, objs2)"
      "written E ?ns ?tgt is (cs_output_metas cs) ts objs2" "set is \<subseteq> ?N" "frame_except ?ns ?tgt ?N objs objs2"
      "strictly_sorted (concat ts)" "newest_kept (level_is_bottom ?tgt) (consumed task ?m T) (set (concat ts))"
    using merge_writes [OF E st fit uniq sz u s(4), of now] by blast
  let ?outs = "cs_output_metas cs" and ?u = "merge_update task (cs_output_metas cs) mm"
  have wr: "list_all2 (meta_repr E objs2 ?ns ?tgt) ?outs ts" "map sm_id ?outs = is" "distinct (map sm_id ?outs)" "\<forall>s \<in> set ?outs. named s"
    using w(3) by (simp_all add: written_def)
  have oN: "sm_id ` set ?outs \<subseteq> ?N" using wr(2) w(4) by (metis set_map)
  have "?mp \<noteq> sst_location ?ns ?tgt i" for i unfolding mm_path_def by (metis location_not_manifest)
  then have "fs_get ?mp objs2 = fs_get ?mp objs" using w(5) unfolding frame_except_def by blast
  then have "\<exists>e. fs_get ?mp objs2 = Inl e" using c by (simp add: may_commit_def)
  moreover have nid: "sm_id s \<notin> sm_id ` set ?outs" if "s \<in> set (sstables_at_level l ?m)" for l s
    using oN fr listed_id [OF that] by blast
  then have "\<forall>s \<in> set ?outs. sm_id s \<notin> sm_id ` set (sstables_at_level ?tgt ?m)" by (metis image_iff)
  moreover have "mu_trigger ?u = Compaction" "mu_remove_sstables ?u = removed task" "mu_add_sstables ?u = map (\<lambda>s. (?tgt, s)) ?outs"
    "mu_new_last_flushed_sequence ?u = None" by (simp_all add: merge_update_def removed_def)
  ultimately obtain m' d where up: "mm_update J clock ?u mm objs2 = (Inr (), mm\<lparr>mm_current := m'\<rparr>, fs_put ?mp d objs2)" "exchanged task ?outs ?m m'"
    using task_update_commits [OF _ st fit, of J ?u ?outs objs2 clock] c unfolding may_commit_def by blast
  let ?objs = "fs_put ?mp d objs2"
  have mp: "fs_get (sst_location ?ns l i) ?objs = fs_get (sst_location ?ns l i) objs2" for l i by (simp add: fs.get_put mm_path_def)
  have "\<exists>T'. store_ok E ?objs ?ns m' T' \<and> set (table_entries T') = (\<Union>l. remaining task ?m T l) \<union> set (concat ts)"
  proof (rule exchange_store_ok [OF st fit up(2) _ wr(4,3)])
    show "list_all2 (meta_repr E ?objs ?ns ?tgt) ?outs ts"
      using wr(1) by (rule list.rel_mono_strong) (use meta_repr_cong mp wr(4) sst_path_location in metis)
    show "\<forall>l. \<forall>s \<in> set (staying task ?m l). sm_id s \<notin> sm_id ` set ?outs" using nid staying_listed by metis
    show "sorted_wrt table_less ts" by (rule strictly_sorted_tables [OF w(6)])
    have K: "\<exists>w \<in> consumed task ?m T. e = me_of_mg (mg_from_memtable_entry w)" if "e \<in> set (concat ts)" for e
      using newest_keptD(1) [OF w(7) that] unfolding newest_of_def by blast
    then show "\<forall>e \<in> set (concat ts). \<exists>w \<in> consumed task ?m T. me_composite_key e = me_composite_key w \<and> me_sequence_number e = me_sequence_number w"
      by fastforce
    have "\<forall>e \<in> consumed task ?m T. entry_ok e" using st table_entries_split [OF st fit] unfolding store_ok_def by blast
    then show "\<forall>e \<in> set (concat ts). entry_ok e" using K entry_ok_kept by metis
    fix l s assume s: "s \<in> set (staying task ?m l)"
    then have "sm_id s \<notin> ?N" using fr listed_id [OF staying_listed [OF s]] by blast
    then have "fs_get (sst_location ?ns l (sm_id s)) objs2 = fs_get (sst_location ?ns l (sm_id s)) objs"
      using w(5) unfolding frame_except_def by (metis sst_location_inject)
    then show "fs_get (sst_path ?ns l s) ?objs = fs_get (sst_path ?ns l s) objs" using store_named [OF st staying_listed [OF s]] mp by simp
  qed
  then obtain T' where T': "store_ok E ?objs ?ns m' T'" "set (table_entries T') = (\<Union>l. remaining task ?m T l) \<union> set (concat ts)" by blast
  have "\<exists>res. merge_move E J clock ce now run_id ulid task (direct_fetcher E objs) mm objs = Some (Inr res, mm\<lparr>mm_current := m'\<rparr>, ?objs)"
    using s w(1,2) up(1) by (simp add: merge_move_def Let_def)
  then show ?thesis using T'(1) exchange_harmless [OF st fit T'(2) w(7)] by blast
qed


section \<open>Trivial moves\<close>

lemma copy_inputs_ok:
  assumes "src \<noteq> tgt" and "\<forall>s \<in> set ins. named s \<and> (\<exists>d. fs_get (sst_location ns src (sm_id s)) objs = Inr d)"
  shows "\<exists>n objs'. copy_inputs ns src tgt ins b objs = (Inr n, objs')
    \<and> (\<forall>s \<in> set ins. fs_get (sst_location ns tgt (sm_id s)) objs' = fs_get (sst_location ns src (sm_id s)) objs)
    \<and> frame_except ns tgt (sm_id ` set ins) objs objs'"
  using assms(2)
proof (induction ins arbitrary: b objs)
  case (Cons s ins)
  obtain d where d: "fs_get (sst_location ns src (sm_id s)) objs = Inr d" using Cons.prems by auto
  have p: "sst_path ns l s = sst_location ns l (sm_id s)" for l using Cons.prems by (simp add: sst_path_location)
  let ?objs = "fs_put (sst_location ns tgt (sm_id s)) d objs"
  have g: "fs_get (sst_location ns src i) ?objs = fs_get (sst_location ns src i) objs" for i using assms(1) by (simp add: fs.get_put)
  obtain n objs' where ih: "copy_inputs ns src tgt ins (b + of_nat (length d)) ?objs = (Inr n, objs')"
    "\<forall>s \<in> set ins. fs_get (sst_location ns tgt (sm_id s)) objs' = fs_get (sst_location ns src (sm_id s)) objs"
    "frame_except ns tgt (sm_id ` set ins) ?objs objs'"
    using Cons.IH [of ?objs "b + of_nat (length d)"] Cons.prems by (auto simp: g)
  have "copy_inputs ns src tgt (s # ins) b objs = (Inr n, objs')" using ih(1) d by (simp add: p)
  moreover have "fs_get (sst_location ns tgt (sm_id s)) objs' = fs_get (sst_location ns src (sm_id s)) objs"
  proof (cases "sm_id s \<in> sm_id ` set ins")
    case True
    then show ?thesis using ih(2) by (metis imageE)
  next
    case False
    then have "fs_get (sst_location ns tgt (sm_id s)) objs' = fs_get (sst_location ns tgt (sm_id s)) ?objs"
      using ih(3) unfolding frame_except_def by (metis sst_location_inject)
    then show ?thesis using d by (simp add: fs.get_put)
  qed
  moreover have "frame_except ns tgt (sm_id ` set (s # ins)) objs objs'" using ih(3) by (auto simp: frame_except_def fs.get_put)
  ultimately show ?case using ih(2) by auto
qed (simp add: frame_except_def)

lemma fold_delete_frame: "p \<notin> set ps \<Longrightarrow> fs_get p (fold fs_delete ps objs) = fs_get p objs"
  by (induction ps arbitrary: objs) (auto simp: fs.get_delete)

lemma meta_repr_moved:
  assumes r: "meta_repr E objs ns l s es" and p: "fs_get (sst_path ns l' s') objs' = fs_get (sst_path ns l s) objs"
    and m: "sm_size_bytes s' = sm_size_bytes s" "sm_min_key s' = sm_min_key s" "sm_max_key s' = sm_max_key s"
  shows "meta_repr E objs' ns l' s' es"
proof -
  obtain h where h: "handle_open E s (sst_path ns l s) (direct_fetcher E objs) = Inr h" "handle_repr E objs h es"
    using r by (auto simp: meta_repr_def)
  have "fs_get_range (sst_path ns l' s') off n objs' = fs_get_range (sst_path ns l s) off n objs" if "\<exists>d. fs_get (sst_path ns l s) objs = Inr d" for off n
    using p that by (auto simp: fs_get_def fs_get_range_def split: option.splits)
  moreover have "\<exists>d. fs_get (sst_path ns l s) objs = Inr d"
    using h handle_open_fields [OF h(1)] by (auto simp: handle_repr_def handle_image_def)
  ultimately have "handle_open E s' (sst_path ns l' s') (direct_fetcher E objs') = Inr (h\<lparr>hn_meta := s', hn_path := sst_path ns l' s'\<rparr>)"
    using h(1) by (auto simp: handle_open_def Let_def m(1) direct_fetcher_def)
  moreover have "handle_repr E objs' (h\<lparr>hn_meta := s', hn_path := sst_path ns l' s'\<rparr>) es"
    using h(2) handle_open_fields [OF h(1)] m(2,3) p by (auto simp: handle_repr_def handle_image_def)
  ultimately show ?thesis unfolding meta_repr_def by blast
qed

lemma meta_repr_stored: "meta_repr E objs ns l s es \<Longrightarrow> \<exists>d. fs_get (sst_path ns l s) objs = Inr d"
  by (auto simp: meta_repr_def handle_repr_def handle_image_def dest!: handle_open_fields)


lemma named_created [simp]: "named (s\<lparr>sm_created_at_ms := now\<rparr>) \<longleftrightarrow> named s"
  by (simp add: named_def split: option.splits)

lemma list_all2_member: "list_all2 P xs ys \<Longrightarrow> x \<in> set xs \<Longrightarrow> \<exists>y \<in> set ys. P x y"
  by (induction rule: list_all2_induct) auto

lemma trivial_move_ok:
  assumes st: "store_ok E objs (ce_namespace ce) (mm_current mm) T" and fit: "task_fits (mm_current mm) task"
    and src: "ct_source_level task \<noteq> L0" "ct_target_sstables task = []" and c: "may_commit J mm objs"
    and outs: "outs = map (\<lambda>s. s\<lparr>sm_created_at_ms := now\<rparr>) (ct_input_sstables task)"
  shows "\<exists>res m' objs' T'. trivial_move J clock ce task (map (\<lambda>s. (ct_target_level task, s)) outs) mm objs = (Inr res, mm\<lparr>mm_current := m'\<rparr>, objs')
    \<and> store_ok E objs' (ce_namespace ce) m' T' \<and> harmless T T'"
proof -
  let ?ns = "ce_namespace ce" and ?m = "mm_current mm" and ?src = "ct_source_level task" and ?tgt = "ct_target_level task"
  let ?ins = "ct_input_sstables task" and ?ts = "part (set (removed task)) ?m T True ?src" and ?mp = "mm_path mm (mf_manifest_id ?m + 1)"
  have d: "distinct (all_sstable_ids ?m)" using st by (simp add: store_ok_def)
  have ne: "?src \<noteq> ?tgt" using fit_levels(1) [OF fit] by auto
  have sub: "set ?ins \<subseteq> set (sstables_at_level ?src ?m)" using fit unfolding task_fits_def by (metis filter_is_subset)
  note rep = inputs_repr [OF st fit]
  have nm: "named s" "\<exists>d. fs_get (sst_location ?ns ?src (sm_id s)) objs = Inr d" if s: "s \<in> set ?ins" for s
  proof -
    show "named s" using st sub s by (auto simp: store_ok_def)
    obtain t where "meta_repr E objs ?ns ?src s t" using list_all2_member [OF rep(1) s] by blast
    then show "\<exists>d. fs_get (sst_location ?ns ?src (sm_id s)) objs = Inr d"
      using meta_repr_stored sst_path_location [OF \<open>named s\<close>] by metis
  qed
  obtain n objs1 where cp: "copy_inputs ?ns ?src ?tgt ?ins 0 objs = (Inr n, objs1)"
    "\<forall>s \<in> set ?ins. fs_get (sst_location ?ns ?tgt (sm_id s)) objs1 = fs_get (sst_location ?ns ?src (sm_id s)) objs"
    "frame_except ?ns ?tgt (sm_id ` set ?ins) objs objs1" using copy_inputs_ok [OF ne, of ?ins ?ns objs 0] nm by blast
  let ?trivial = "map (\<lambda>s. (?tgt, s)) outs"
  let ?u = "move_update task ?trivial mm"
  have ids: "sm_id ` set outs = sm_id ` set ?ins" "map sm_id outs = map sm_id ?ins" by (auto simp: outs image_image o_def)
  have "?mp \<noteq> sst_location ?ns ?tgt i" for i unfolding mm_path_def by (metis location_not_manifest)
  then have "fs_get ?mp objs1 = fs_get ?mp objs" using cp(3) unfolding frame_except_def by blast
  then have "\<exists>e. fs_get ?mp objs1 = Inl e" using c by (simp add: may_commit_def)
  moreover have other: "sm_id s \<notin> sm_id ` set ?ins" if "s \<in> set (sstables_at_level l ?m)" "l \<noteq> ?src" for l s
  proof -
    have "sm_id ` set (sstables_at_level a ?m) \<inter> sm_id ` set (sstables_at_level b ?m) = {}" if "a \<noteq> b" for a b
      using d that by (cases a; cases b) (auto simp: all_sstable_ids_def level_all_def)
    from this [OF that(2)] show ?thesis using that(1) sub by blast
  qed
  have "\<forall>s \<in> set outs. sm_id s \<notin> sm_id ` set (sstables_at_level ?tgt ?m)" using other ne ids(1) by (metis image_iff)
  moreover have "mu_trigger ?u = Compaction" "mu_remove_sstables ?u = removed task" "mu_add_sstables ?u = map (\<lambda>s. (?tgt, s)) outs"
    "mu_new_last_flushed_sequence ?u = None" by (simp_all add: move_update_def removed_def src(2))
  ultimately obtain m' dd where up: "mm_update J clock ?u mm objs1 = (Inr (), mm\<lparr>mm_current := m'\<rparr>, fs_put ?mp dd objs1)" "exchanged task outs ?m m'"
    using task_update_commits [OF _ st fit, of J ?u outs objs1 clock] c unfolding may_commit_def by blast
  let ?ps = "map (sst_path ?ns ?src) ?ins"
  let ?objs = "fold fs_delete ?ps (fs_put ?mp dd objs1)"
  have ps: "set ?ps = sst_location ?ns ?src ` sm_id ` set ?ins" using nm(1) by (auto simp: sst_path_location image_image intro!: image_cong)
  have gt: "fs_get (sst_location ?ns l i) ?objs = fs_get (sst_location ?ns l i) objs1" if "l = ?src \<longrightarrow> i \<notin> sm_id ` set ?ins" for l i
  proof -
    have "sst_location ?ns l i \<notin> set ?ps" using that unfolding ps by auto
    then show ?thesis by (simp add: fold_delete_frame fs.get_put mm_path_def)
  qed
  have tgt: "part (set (removed task)) ?m T True ?tgt = []" using rep(2) src(2) by simp
  have stay: "sm_id s \<notin> sm_id ` set ?ins" if "s \<in> set (staying task ?m l)" for l s
  proof (cases "l = ?src")
    case True
    then show ?thesis using that by (auto simp: staying_def removed_def)
  qed (use other that staying_listed in blast)
  have "\<exists>T'. store_ok E ?objs ?ns m' T' \<and> set (table_entries T') = (\<Union>l. remaining task ?m T l) \<union> set (concat ?ts)"
  proof (rule exchange_store_ok [OF st fit up(2)])
    have "meta_repr E ?objs ?ns ?tgt (s\<lparr>sm_created_at_ms := now\<rparr>) t" if "s \<in> set ?ins" "meta_repr E objs ?ns ?src s t" for s t
    proof (rule meta_repr_moved [OF that(2)])
      show "fs_get (sst_path ?ns ?tgt (s\<lparr>sm_created_at_ms := now\<rparr>)) ?objs = fs_get (sst_path ?ns ?src s) objs"
        using cp(2) that(1) ne by (simp add: sst_path_location nm(1) gt)
    qed simp_all
    then show "list_all2 (meta_repr E ?objs ?ns ?tgt) outs ?ts"
      using rep(1) unfolding outs list.rel_map by (auto elim!: list.rel_mono_strong)
    show "\<forall>s \<in> set outs. named s" using nm(1) by (auto simp: outs)
    have "distinct (map sm_id (filter (\<lambda>s. s \<in> set ?ins) (sstables_at_level ?src ?m)))" by (rule distinct_map_filter [OF level_distinct(1) [OF d]])
    then show "distinct (map sm_id outs)" using fit unfolding ids(2) task_fits_def by metis
    show "\<forall>l. \<forall>s \<in> set (staying task ?m l). sm_id s \<notin> sm_id ` set outs" using stay unfolding ids(1) by blast
    have "sorted_wrt table_less (T ?src)" using st src(1) by (simp add: store_ok_def level_is_overlapping_def)
    then show "sorted_wrt table_less ?ts" unfolding part_def by (rule sorted_wrt_zip_filter [OF store_lengths [OF st]])
    have cons: "consumed task ?m T = set (concat ?ts)" by (simp add: consumed_def tgt)
    then show "\<forall>e \<in> set (concat ?ts). \<exists>w \<in> consumed task ?m T. me_composite_key e = me_composite_key w \<and> me_sequence_number e = me_sequence_number w" by blast
    show "\<forall>e \<in> set (concat ?ts). entry_ok e" using st table_entries_split [OF st fit] unfolding store_ok_def cons by blast
    fix l s assume s: "s \<in> set (staying task ?m l)"
    have "fs_get (sst_location ?ns l (sm_id s)) objs1 = fs_get (sst_location ?ns l (sm_id s)) objs"
      using cp(3) stay [OF s] unfolding frame_except_def by (metis sst_location_inject)
    then show "fs_get (sst_path ?ns l s) ?objs = fs_get (sst_path ?ns l s) objs"
      using store_named [OF st staying_listed [OF s]] gt stay [OF s] by simp
  qed
  then obtain T' where T': "store_ok E ?objs ?ns m' T'" "set (table_entries T') = (\<Union>l. remaining task ?m T l) \<union> set (concat ?ts)" by blast
  have "set (table_entries T') = set (table_entries T)" unfolding T'(2) table_entries_split [OF st fit] by (simp add: consumed_def tgt)
  moreover have "\<exists>res. trivial_move J clock ce task ?trivial mm objs = (Inr res, mm\<lparr>mm_current := m'\<rparr>, ?objs)"
    using cp(1) up(1) by (simp add: trivial_move_def Let_def)
  ultimately show ?thesis using T'(1) same_entries_harmless by blast
qed

section \<open>Executing a scheduled task\<close>

lemma scheduled_levels: "task \<in> set (check_triggers config m) \<Longrightarrow> ct_task_type task = LevelToLevel \<Longrightarrow> ct_source_level task \<noteq> L0"
  by (auto simp: check_triggers_def check_l0_trigger_def check_level_trigger_def Let_def List.map_filter_def split: if_splits option.splits)

lemma execute_ok:
  assumes E: "codecs_ok E" "compress_total E (sst_compression (ce_sst_config ce))"
    and st: "store_ok E objs (ce_namespace ce) (mm_current mm) T" and task: "task \<in> set (check_triggers config (mm_current mm))"
    and uniq: "\<forall>a \<in> set (table_entries T). \<forall>b \<in> set (table_entries T). same_version a b \<longrightarrow> a = b"
    and sz: "length (table_entries T) < 2 ^ 32"
      "small_writes E (ce_sst_config ce) ((\<lambda>e. me_of_mg (mg_from_memtable_entry e)) ` set (table_entries T))"
    and ids: "fresh_ids (mm_current mm) run_id ulid" and c: "may_commit J mm objs"
  shows "\<exists>res m' objs' T'. ce_execute E J clock ce now run_id ulid task (direct_fetcher E objs) mm objs = Some (Inr res, mm\<lparr>mm_current := m'\<rparr>, objs')
    \<and> store_ok E objs' (ce_namespace ce) m' T' \<and> harmless T T'"
proof -
  have d: "distinct (all_sstable_ids (mm_current mm))" using st by (simp add: store_ok_def)
  note fit = check_triggers_fit [OF d task]
  show ?thesis
  proof (cases "ct_task_type task = LevelToLevel \<and> ct_target_sstables task = [] \<and> ct_input_sstables task \<noteq> []")
    case True
    then show ?thesis using trivial_move_ok [OF st fit _ _ c refl, of clock now] scheduled_levels [OF task]
      by (auto simp: ce_execute_def Let_def o_def)
  next
    case False
    then have "ce_execute E J clock ce now run_id ulid task (direct_fetcher E objs) mm objs
        = merge_move E J clock ce now run_id ulid task (direct_fetcher E objs) mm objs" by (auto simp: ce_execute_def Let_def)
    then show ?thesis using merge_move_ok [OF E st fit uniq sz ids c, of clock now] by simp
  qed
qed


text \<open>C7: a compaction changes no read. Take any task the scheduler proposes for the current manifest of a well-formed store,
  an unfenced compactor whose next manifest number is free, and fresh output ids. Executing the task succeeds, commits a
  new manifest whose levels are again well formed, and reopening the levels from it gives, under the same memtables, the
  same answer for every key, although older versions, and at the bottom level tombstones, have been dropped. Hypotheses: no SSTable of the store splits the versions of
  a key over two blocks (where reads before the compaction may be stale and those after it are not), the
  codecs are correct and total, no SSTable written exceeds the 32-bit offsets of the format, and no memtable holds
  a version older than the SSTables.\<close>
theorem compaction_preserves_reads:
  assumes "codecs_ok E" and "compress_total E (sst_compression (ce_sst_config ce))"
    and st: "store_holds E objs (ce_namespace ce) (mm_current mm) T" "unsplit_store E objs (ce_namespace ce) (mm_current mm)"
    and task: "task \<in> set (check_triggers config (mm_current mm))"
    and b: "ml_built l hs" and low: "below_memtables (table_entries T) (concat hs)"
    and small: "length (table_entries T) < 2 ^ 32"
      "small_writes E (ce_sst_config ce) ((\<lambda>e. me_of_mg (mg_from_memtable_entry e)) ` set (table_entries T))"
    and may: "fresh_ids (mm_current mm) run_id ulid" "may_commit J mm objs"
  shows "\<exists>res m' objs' T' levels levels'.
    ce_execute E J clock ce now run_id ulid task (direct_fetcher E objs) mm objs = Some (Inr res, mm\<lparr>mm_current := m'\<rparr>, objs')
    \<and> store_holds E objs' (ce_namespace ce) m' T' \<and> unsplit_store E objs' (ce_namespace ce) m' \<and> below_memtables (table_entries T') (concat hs)
    \<and> open_levels E (ce_namespace ce) (direct_fetcher E objs) (mm_current mm) level_all = Inr levels
    \<and> open_levels E (ce_namespace ce) (direct_fetcher E objs') m' level_all = Inr levels'
    \<and> (\<forall>k. point_read (direct_fetcher E objs) k l levels = point_read (direct_fetcher E objs') k l levels')"
proof -
  have st': "store_ok E objs (ce_namespace ce) (mm_current mm) T" using st by (simp add: store_ok_unsplit)
  have uniq: "\<forall>a \<in> set (table_entries T). \<forall>b \<in> set (table_entries T). same_version a b \<longrightarrow> a = b" using low by (simp add: below_memtables_def)
  obtain res m' objs' T' where
    x: "ce_execute E J clock ce now run_id ulid task (direct_fetcher E objs) mm objs = Some (Inr res, mm\<lparr>mm_current := m'\<rparr>, objs')"
      "store_ok E objs' (ce_namespace ce) m' T'" "harmless T T'" using execute_ok [OF assms(1,2) st' task uniq small may, of clock now] by blast
  obtain levels where lv: "open_levels E (ce_namespace ce) (direct_fetcher E objs) (mm_current mm) level_all = Inr levels"
    "levels_repr E objs levels (table_entries T)" using open_levels_repr [OF st'] by blast
  obtain levels' where lv': "open_levels E (ce_namespace ce) (direct_fetcher E objs') m' level_all = Inr levels'"
    "levels_repr E objs' levels' (table_entries T')" using open_levels_repr [OF x(2)] by blast
  have h: "same_visible (concat hs) (table_entries T) (concat hs) (table_entries T')" "below_memtables (table_entries T') (concat hs)"
    using x(3) low by (simp_all add: harmless_def)
  have "point_read (direct_fetcher E objs) k l levels = point_read (direct_fetcher E objs') k l levels'" for k
    by (rule reads_agree [OF b lv(2) low b lv'(2) h(2,1)])
  then show ?thesis using x(1,2) lv(1) lv'(1) h(2) unfolding store_ok_unsplit by blast
qed


section \<open>A store with one SSTable\<close>

abbreviation one_entry :: memtable_entry where
  "one_entry \<equiv> sample_entry [5] [7] 1"

definition one_table_manifest :: "sst_meta \<Rightarrow> manifest" where
  "one_table_manifest s = (mf_new_empty 0 ''ns'')\<lparr>mf_levels := [L0 \<mapsto> [s]]\<rparr>"

lemma one_table_levels: "sstables_at_level l (one_table_manifest s) = (if l = L0 then [s] else [])"
  by (simp add: one_table_manifest_def sstables_at_level_def mf_new_empty_def)

definition one_table :: tables where
  "one_table l = (if l = L0 then [[one_entry]] else [])"

lemma one_table_entries: "table_entries one_table = [one_entry]"
  by (simp add: table_entries_def one_table_def level_all_def)

lemma sample_compress_total: "compress_total sample_codecs (sst_compression sample_sst_config)"
  by (simp add: compress_total_def sample_sst_config_def compress_block_def)

lemma one_entry_small: "small_writes sample_codecs sample_sst_config {one_entry}"
  unfolding small_writes_def
proof (intro allI impI; elim conjE)
  fix es path objs info objs' d
  assume sub: "set es \<subseteq> {one_entry}" and srt: "strictly_sorted es" and w: "sst_write sample_codecs sample_sst_config path es objs = Inr (info, objs')"
    and g: "fs_get path objs' = Inr d"
  have "es = [] \<or> es = [one_entry]"
  proof (cases es)
    case (Cons a es')
    then have "a = one_entry" "\<forall>x \<in> set es'. x = one_entry \<and> me_composite_key a < me_composite_key x"
      using sub srt by (auto simp: strictly_sorted_def)
    then show ?thesis using Cons by (cases es') auto
  qed simp
  moreover have "es \<noteq> []" using w by (auto simp: sst_write_def sst_finish_def ws_new_def)
  ultimately have es: "es = [one_entry]" by simp
  obtain info' d' where "sst_write sample_codecs sample_sst_config path [one_entry] objs = Inr (info', fs_put path d' objs)" "length d' < 2 ^ 32"
    using one_version_loop small_file by blast
  then show "length d < 2 ^ 32" using w g unfolding es by (simp add: fs.get_put)
qed

lemma one_table_store:
  "\<exists>s d. store_ok sample_codecs (fs_put (sst_location ''ns'' L0 ''a'') d []) ''ns'' (one_table_manifest s) one_table \<and> sm_id s = ''a''
     \<and> sm_min_key s \<le> sm_max_key s"
proof -
  let ?p = "sst_location ''ns'' L0 ''a''"
  have e: "entry_ok one_entry" by (simp add: sample_entry_ok)
  have "sst_id_of_path ?p = ''a''" by (rule sst_id_location(1)) (simp add: ulid_ok_def)
  moreover have "writable sample_codecs sample_sst_config [one_entry]"
    using one_entry_small sample_compress_total sample_codecs_ok e by (simp add: writable_def strictly_sorted_def)
  ultimately obtain info d where
    r: "\<forall>sr rc now. meta_repr sample_codecs (fs_put ?p d []) ''ns'' L0 (from_sst_info info sr rc now) [one_entry]
        \<and> named (from_sst_info info sr rc now) \<and> sm_id (from_sst_info info sr rc now) = ''a''"
    using write_part [of sample_codecs sample_sst_config "[one_entry]" "''ns''" L0 "''a''" "\<lambda>m. m" "[]"] by auto
  let ?s = "from_sst_info info (1, 1) 1 0"
  have m: "meta_repr sample_codecs (fs_put ?p d []) ''ns'' L0 ?s [one_entry]" "named ?s" "sm_id ?s = ''a''" using r by blast+
  have "store_ok sample_codecs (fs_put ?p d []) ''ns'' (one_table_manifest ?s) one_table"
    unfolding store_ok_def one_table_entries using m e
    by (auto simp: one_table_levels one_table_def all_sstable_ids_def level_all_def level_is_overlapping_def level_order_def)
  moreover have "sm_min_key ?s \<le> sm_max_key ?s" using meta_repr_bounds(3,4) [OF m(1)] by simp
  ultimately show ?thesis using m(3) by blast
qed

theorem compaction_preserves_reads_witness:
  "\<exists>objs mm task res mm' objs' levels'.
    ce_execute sample_codecs sample_json (\<lambda>_. 0) \<lparr>ce_sst_config = sample_sst_config, ce_compaction_config = compaction_config_default, ce_namespace = ''ns''\<rparr>
      0 ''R'' ''U'' task (direct_fetcher sample_codecs objs) mm objs = Some (Inr res, mm', objs')
    \<and> ct_source_level task = L0
    \<and> open_levels sample_codecs ''ns'' (direct_fetcher sample_codecs objs') (mm_current mm') level_all = Inr levels'"
proof -
  let ?ce = "\<lparr>ce_sst_config = sample_sst_config, ce_compaction_config = compaction_config_default, ce_namespace = ''ns''\<rparr>"
  obtain s d where st: "store_ok sample_codecs (fs_put (sst_location ''ns'' L0 ''a'') d []) ''ns'' (one_table_manifest s) one_table" "sm_id s = ''a''"
    using one_table_store by blast
  let ?objs = "fs_put (sst_location ''ns'' L0 ''a'') d []" and ?mm = "(mm_new 0 ''ns'' manifest_config_default)\<lparr>mm_current := one_table_manifest s\<rparr>"
  let ?task = "\<lparr>ct_task_type = L0ToL1, ct_source_level = L0, ct_target_level = L1, ct_input_sstables = [s], ct_target_sstables = []\<rparr>"
  have task: "?task \<in> set (check_triggers (compaction_config_default\<lparr>l0_compaction_trigger := 0\<rparr>) (mm_current ?mm))"
    by (simp add: check_triggers_def check_l0_trigger_def l0_count_def one_table_levels combined_key_range_def Let_def find_overlapping_def List.map_filter_def)
  have ids: "fresh_ids (mm_current ?mm) ''R'' ''U''"
    using st(2) by (auto simp: fresh_ids_def ulid_ok_def new_ids_def all_sstable_ids_def level_all_def one_table_levels fragment_id_def)
  have "mm_path ?mm i \<noteq> sst_location ''ns'' L0 ''a''" for i unfolding mm_path_def by (metis location_not_manifest)
  then have "\<exists>e. fs_get (mm_path ?mm (mf_manifest_id (mm_current ?mm) + 1)) ?objs = Inl e" by (simp add: fs.get_put) (simp add: fs_get_def)
  then have c: "may_commit sample_json ?mm ?objs"
    using sample_json_ok by (simp add: may_commit_def check_compactor_epoch_def mm_new_def one_table_manifest_def mf_new_empty_def)
  have one: "me_of_mg (mg_from_memtable_entry one_entry) = one_entry"
    by (simp add: me_of_mg_def mg_from_memtable_entry_def sample_entry_def me_with_sequence_def)
  have "\<exists>res m' objs' T' levels levels'.
    ce_execute sample_codecs sample_json (\<lambda>_. 0) ?ce 0 ''R'' ''U'' ?task (direct_fetcher sample_codecs ?objs) ?mm ?objs = Some (Inr res, ?mm\<lparr>mm_current := m'\<rparr>, objs')
    \<and> store_holds sample_codecs objs' (ce_namespace ?ce) m' T' \<and> unsplit_store sample_codecs objs' (ce_namespace ?ce) m' \<and> below_memtables (table_entries T') (concat [[]])
    \<and> open_levels sample_codecs (ce_namespace ?ce) (direct_fetcher sample_codecs ?objs) (mm_current ?mm) level_all = Inr levels
    \<and> open_levels sample_codecs (ce_namespace ?ce) (direct_fetcher sample_codecs objs') m' level_all = Inr levels'
    \<and> (\<forall>k. point_read (direct_fetcher sample_codecs ?objs) k (ml_new (\<lambda>_. 1) 0 memtable_config_default 2) levels
         = point_read (direct_fetcher sample_codecs objs') k (ml_new (\<lambda>_. 1) 0 memtable_config_default 2) levels')"
    by (rule compaction_preserves_reads [OF sample_codecs_ok _ _ _ task ml_built.new _ _ _ ids c, where T = one_table])
      (use st sample_compress_total one_entry_small one in \<open>simp_all add: store_ok_unsplit one_table_entries below_memtables_def\<close>)
  then obtain res m' objs' levels' where x: "ce_execute sample_codecs sample_json (\<lambda>_. 0) ?ce 0 ''R'' ''U'' ?task
      (direct_fetcher sample_codecs ?objs) ?mm ?objs = Some (Inr res, ?mm\<lparr>mm_current := m'\<rparr>, objs')"
    "open_levels sample_codecs ''ns'' (direct_fetcher sample_codecs objs') m' level_all = Inr levels'" by auto
  then have "open_levels sample_codecs ''ns'' (direct_fetcher sample_codecs objs') (mm_current (?mm\<lparr>mm_current := m'\<rparr>)) level_all = Inr levels'" by simp
  moreover have "ct_source_level ?task = L0" by simp
  ultimately show ?thesis using x(1) by blast
qed

end
