(* ===== verification/Flush_Pipeline.thy ===== *)
theory Flush_Pipeline
  imports Compaction_Safe
begin

text \<open>
  \<^verbatim>\<open>flush.rs\<close>: a frozen memtable becomes an SSTable of level zero, committed to the manifest. The clock and the ULID of the
  path are arguments. A flush of the oldest memtable keeps the store well formed and changes no read, as long as the
  memtable holds no range deletion.
\<close>

section \<open>Definitions\<close>

text \<open>Ages are in milliseconds.\<close>

record flush_config =
  fc_sst_config :: sst_config
  fc_max_frozen_count :: nat
  fc_flush_trigger_size :: nat
  fc_flush_trigger_age :: nat

definition flush_config_default :: flush_config where
  "flush_config_default = \<lparr>fc_sst_config = sst_config_default, fc_max_frozen_count = 3, fc_flush_trigger_size = 64 * 1024 * 1024,
     fc_flush_trigger_age = 300 * 1000\<rparr>"

record flush_output =
  fo_sst_info :: sst_info
  fo_sst_meta :: sst_meta
  fo_flushed_sequence_range :: "u64 \<times> u64"
  fo_generation_id :: u64
  fo_l0_count_after :: nat

record flush_pipeline =
  fp_config :: flush_config
  fp_namespace :: string

definition fp_new :: "flush_config \<Rightarrow> string \<Rightarrow> flush_pipeline" where
  "fp_new config namespace = \<lparr>fp_config = config, fp_namespace = namespace\<rparr>"

record flush_scan =
  fl_min_seq :: u64
  fl_max_seq :: u64
  fl_record_id_count :: u64
  fl_seen_records :: "bytes set"
  fl_entries :: "memtable_entry list"

definition fl_init :: flush_scan where
  "fl_init = \<lparr>fl_min_seq = - 1, fl_max_seq = 0, fl_record_id_count = 0, fl_seen_records = {}, fl_entries = []\<rparr>"

definition fl_node :: "skip_node \<Rightarrow> flush_scan \<Rightarrow> flush_scan" where
  "fl_node node s =
     (let r = record_id (sn_key node)
      in \<lparr>fl_min_seq = (if sn_sequence_number node < fl_min_seq s then sn_sequence_number node else fl_min_seq s),
          fl_max_seq = (if sn_sequence_number node > fl_max_seq s then sn_sequence_number node else fl_max_seq s),
          fl_record_id_count = (if r \<in> fl_seen_records s then fl_record_id_count s else fl_record_id_count s + 1),
          fl_seen_records = insert r (fl_seen_records s),
          fl_entries = fl_entries s @ [me_with_sequence (sn_key node) (sn_value node) (sn_metadata node) (sn_idempotency_key node)
            (sn_sequence_number node) (sn_entry_type node)]\<rparr>)"

definition flush_update :: "sst_meta \<Rightarrow> u64 \<Rightarrow> manifest_manager \<Rightarrow> manifest_update" where
  "flush_update meta max_seq mm =
     \<lparr>mu_trigger = Flush, mu_add_sstables = [(L0, meta)], mu_remove_sstables = [], mu_new_last_flushed_sequence = Some max_seq,
      mu_writer_epoch = mm_writer_epoch mm, mu_compactor_epoch = mm_compactor_epoch mm\<rparr>"

definition fp_flush ::
  "codecs \<Rightarrow> manifest_json \<Rightarrow> (nat \<Rightarrow> u64) \<Rightarrow> flush_pipeline \<Rightarrow> u64 \<Rightarrow> string \<Rightarrow> memtable \<Rightarrow> u64 \<Rightarrow> manifest_manager \<Rightarrow> objects
    \<Rightarrow> flush_output flush_result \<times> manifest_manager \<times> objects" where
  "fp_flush E J clock fp now ulid frozen generation_id mm objs =
     (if sl_len (mt_skiplist frozen) = 0 then (Inl (InvalidArgument ''cannot flush empty memtable''), mm, objs)
      else let s = fold fl_node (nodes_of (sl_iter (mt_skiplist frozen))) fl_init;
               path = generate_sst_path ulid (fp_namespace fp) 0
           in case sst_write E (fc_sst_config (fp_config fp)) path (fl_entries s) objs of
                Inl e \<Rightarrow> (Inl e, mm, objs)
              | Inr (info, objs) \<Rightarrow>
                  (let meta = from_sst_info info (fl_min_seq s, fl_max_seq s) (fl_record_id_count s) now
                   in case mm_update J clock (flush_update meta (fl_max_seq s) mm) mm objs of
                        (Inl e, mm, objs) \<Rightarrow> (Inl e, mm, objs)
                      | (Inr _, mm, objs) \<Rightarrow>
                          (Inr \<lparr>fo_sst_info = info, fo_sst_meta = meta, fo_flushed_sequence_range = (fl_min_seq s, fl_max_seq s),
                                fo_generation_id = generation_id, fo_l0_count_after = l0_count (mm_current mm)\<rparr>, mm, objs)))"

definition fp_should_freeze :: "nat \<Rightarrow> nat \<Rightarrow> memtable \<Rightarrow> bool" where
  "fp_should_freeze now max_age m \<longleftrightarrow> mt_should_freeze_by_size m \<or> mt_should_freeze_by_age now max_age m"

definition fp_check_backpressure :: "flush_pipeline \<Rightarrow> nat \<Rightarrow> unit flush_result" where
  "fp_check_backpressure fp frozen_count =
     (if frozen_count \<ge> fc_max_frozen_count (fp_config fp)
      then Inl (ResourceExhausted ''memtable'' ''too many frozen memtables'') else Inr ())"

section \<open>What is collected\<close>

lemma fl_node_entries: "fl_entries (fold fl_node ns s) = fl_entries s @ map node_to_entry ns"
  by (induction ns arbitrary: s) (simp_all add: fl_node_def Let_def node_to_entry_def)

lemma fl_node_max: "fl_max_seq (fold fl_node ns s) = fold max (map sn_sequence_number ns) (fl_max_seq s)"
  by (induction ns arbitrary: s) (auto simp: fl_node_def Let_def max_def intro!: arg_cong2 [where f = "fold max"])

lemma fold_max_spec: "(a :: 'a :: linorder) \<le> fold max xs a \<and> (\<forall>x \<in> set xs. x \<le> fold max xs a) \<and> fold max xs a \<in> insert a (set xs)"
proof -
  have "fold max xs a = Max (set (a # xs))" by (simp only: Max.set_eq_fold)
  then show ?thesis using Max_ge [of "set (a # xs)"] Max_in [of "set (a # xs)"] by simp
qed

lemma flush_scan_spec:
  assumes "mt_repr m es"
  shows "fl_entries (fold fl_node (nodes_of (sl_iter (mt_skiplist m))) fl_init) = versions es"
    and "\<forall>e \<in> set es. me_sequence_number e \<le> fl_max_seq (fold fl_node (nodes_of (sl_iter (mt_skiplist m))) fl_init)"
    and "es \<noteq> [] \<Longrightarrow> fl_max_seq (fold fl_node (nodes_of (sl_iter (mt_skiplist m))) fl_init) \<in> me_sequence_number ` set es"
    and "sl_len (mt_skiplist m) = length (versions es)"
proof -
  have ok: "sl_ok (mt_skiplist m)" "sl_entries (mt_skiplist m) = versions es" using assms by (simp_all add: mt_repr_def)
  obtain ns where ns: "sl_iter (mt_skiplist m) = Some ns" "map node_to_entry ns = versions es" using sl.iter_spec [OF ok(1)] ok(2) by auto
  show "fl_entries (fold fl_node (nodes_of (sl_iter (mt_skiplist m))) fl_init) = versions es"
    by (simp add: nodes_of_def ns fl_node_entries fl_init_def)
  have sq: "map sn_sequence_number ns = map me_sequence_number (versions es)"
    by (simp add: ns(2) [symmetric] o_def node_to_entry_def me_with_sequence_def)
  let ?m = "fold max (map me_sequence_number (versions es)) 0"
  have mx: "fl_max_seq (fold fl_node (nodes_of (sl_iter (mt_skiplist m))) fl_init) = ?m"
    by (simp add: nodes_of_def ns(1) fl_node_max sq fl_init_def)
  have sp: "\<forall>x \<in> set (versions es). me_sequence_number x \<le> ?m" "?m \<in> insert 0 (me_sequence_number ` set (versions es))"
    using fold_max_spec [of 0 "map me_sequence_number (versions es)"] by auto
  show le: "\<forall>e \<in> set es. me_sequence_number e \<le> fl_max_seq (fold fl_node (nodes_of (sl_iter (mt_skiplist m))) fl_init)"
    using sp(1) versions_complete unfolding mx same_version_def by metis
  show "fl_max_seq (fold fl_node (nodes_of (sl_iter (mt_skiplist m))) fl_init) \<in> me_sequence_number ` set es" if ne: "es \<noteq> []"
  proof (cases "?m = 0")
    case True
    obtain e where e: "e \<in> set es" using ne by (cases es) auto
    then have "me_sequence_number e \<le> 0" using le mx True by auto
    then have "me_sequence_number e = 0" by simp
    then show ?thesis unfolding mx True using e by (metis imageI)
  next
    case False
    then show ?thesis unfolding mx using sp(2) versions_sub [of es] by blast
  qed
  obtain ord where "sl_inv (mt_skiplist m) ord" using ok(1) by (auto simp: sl_ok_def)
  then show "sl_len (mt_skiplist m) = length (versions es)"
    using ok(2) sl_entries_view by (simp add: sl_inv_def view_def) (metis length_map)
qed


section \<open>Committing a flush\<close>

definition fits_offsets :: "codecs \<Rightarrow> sst_config \<Rightarrow> memtable_entry list \<Rightarrow> bool" where
  "fits_offsets E config es \<longleftrightarrow> length es < 2 ^ 32 \<and> (\<forall>path objs info objs' d.
     sst_write E config path es objs = Inr (info, objs') \<and> fs_get path objs' = Inr d \<longrightarrow> length d < 2 ^ 32)"

lemma fits_offsetsD:
  "fits_offsets E config es \<Longrightarrow> length es < 2 ^ 32"
  "fits_offsets E config es \<Longrightarrow> sst_write E config path es objs = Inr (info, objs') \<Longrightarrow> fs_get path objs' = Inr d \<Longrightarrow> length d < 2 ^ 32"
  unfolding fits_offsets_def by blast+

definition may_flush :: "manifest_json \<Rightarrow> manifest_manager \<Rightarrow> objects \<Rightarrow> bool" where
  "may_flush J mm objs \<longleftrightarrow> json_ok J \<and> check_writer_epoch mm = Inr ()
     \<and> (\<exists>e. fs_get (mm_path mm (mf_manifest_id (mm_current mm) + 1)) objs = Inl e)"

definition with_flushed :: "memtable_entry list \<Rightarrow> tables \<Rightarrow> tables" where
  "with_flushed es T = T(L0 := T L0 @ [es])"

lemma with_flushed_entries: "set (table_entries (with_flushed es T)) = set es \<union> set (table_entries T)"
  by (auto simp: table_entries_def with_flushed_def level_all_def)

lemma level_lt_L0: "level_as_u8 L0 < level_as_u8 l \<longleftrightarrow> l \<noteq> L0" "\<not> level_as_u8 l < level_as_u8 L0"
  by (cases l; simp)+

lemma with_flushed_order:
  assumes "level_order T" and "\<forall>b \<in> set (table_entries T). \<forall>x \<in> set es. me_sequence_number b < me_sequence_number x"
  shows "level_order (with_flushed es T)"
  unfolding level_order_def
proof (intro allI impI ballI)
  fix l l' x y
  assume lt: "level_as_u8 l < level_as_u8 l'" and x: "x \<in> set (concat (with_flushed es T l))" and y: "y \<in> set (concat (with_flushed es T l'))"
    and k: "me_composite_key x = me_composite_key y"
  have yT: "y \<in> set (concat (T l'))" using y lt level_lt_L0(2) by (auto simp: with_flushed_def split: if_splits)
  then have "y \<in> set (table_entries T)" by (auto simp: set_table_entries)
  then show "me_sequence_number y < me_sequence_number x"
  proof (cases "x \<in> set es")
    case True
    then show ?thesis using assms(2) \<open>y \<in> set (table_entries T)\<close> by blast
  next
    case False
    then have "x \<in> set (concat (T l))" using x by (auto simp: with_flushed_def split: if_splits)
    then show ?thesis using assms(1) lt yT k unfolding level_order_def by blast
  qed
qed

lemma flush_commits:
  assumes E: "codecs_ok E" "compress_total E (sst_compression (fc_sst_config (fp_config fp)))"
    and st: "store_ok E objs (fp_namespace fp) (mm_current mm) T"
    and m: "mt_repr frozen es" "es \<noteq> []" "\<forall>e \<in> set es. entry_ok e"
    and w: "fits_offsets E (fc_sst_config (fp_config fp)) (versions es)" "apart (chunk (block_size_target (fc_sst_config (fp_config fp))) [] (versions es))"
    and newer: "\<forall>b \<in> set (table_entries T). \<forall>x \<in> set es. me_sequence_number b < me_sequence_number x"
      "\<forall>x \<in> set es. mf_last_flushed_sequence (mm_current mm) \<le> me_sequence_number x"
    and u: "ulid_ok ulid" "ulid \<notin> set (all_sstable_ids (mm_current mm))" and c: "may_flush J mm objs"
  shows "\<exists>res m' objs'. fp_flush E J clock fp now ulid frozen g mm objs = (Inr res, mm\<lparr>mm_current := m'\<rparr>, objs')
    \<and> store_ok E objs' (fp_namespace fp) m' (with_flushed (versions es) T) \<and> mf_last_flushed_sequence m' \<in> me_sequence_number ` set es
    \<and> (\<forall>x \<in> set es. me_sequence_number x \<le> mf_last_flushed_sequence m')
    \<and> (\<forall>l. sstables_at_level l m' = sstables_at_level l (mm_current mm) @ (if l = L0 then [fo_sst_meta res] else []))
    \<and> sm_id (fo_sst_meta res) = ulid
    \<and> (\<forall>l. \<forall>s \<in> set (sstables_at_level l (mm_current mm)). fs_get (sst_path (fp_namespace fp) l s) objs' = fs_get (sst_path (fp_namespace fp) l s) objs)"
proof -
  let ?ns = "fp_namespace fp" and ?cfg = "fc_sst_config (fp_config fp)" and ?m = "mm_current mm" and ?p = "sst_location (fp_namespace fp) L0 ulid"
  let ?s = "fold fl_node (nodes_of (sl_iter (mt_skiplist frozen))) fl_init" and ?mp = "mm_path mm (mf_manifest_id (mm_current mm) + 1)"
  note sc = flush_scan_spec [OF m(1)]
  have ne: "versions es \<noteq> []" using versions_complete [of _ es] m(2) by (cases es) fastforce+
  have ok: "\<forall>e \<in> set (versions es). entry_ok e" using versions_sub [of es] m(3) by blast
  have "\<exists>info d. sst_write E ?cfg ?p (versions es) objs = Inr (info, fs_put ?p d objs)
    \<and> (\<forall>sr rc now. meta_repr E (fs_put ?p d objs) ?ns L0 (from_sst_info info sr rc now) (versions es)
        \<and> named (from_sst_info info sr rc now) \<and> sm_id (from_sst_info info sr rc now) = ulid)"
  proof (rule write_table [OF E ok fits_offsetsD(1) [OF w(1)] ne versions_sorted w(2), where mark = "\<lambda>m. m"])
    show "length d < 2 ^ 32" if "sst_write E ?cfg ?p (versions es) objs = Inr (info, objs')" "fs_get ?p objs' = Inr d" for info objs' d
      using fits_offsetsD(2) [OF w(1) that] .
  qed (use sst_id_location(1) [OF u(1)] in simp_all)
  then obtain info d where wr: "sst_write E ?cfg ?p (versions es) objs = Inr (info, fs_put ?p d objs)"
    and rep: "\<And>sr rc now. meta_repr E (fs_put ?p d objs) ?ns L0 (from_sst_info info sr rc now) (versions es)
        \<and> named (from_sst_info info sr rc now) \<and> sm_id (from_sst_info info sr rc now) = ulid" by blast
  let ?meta = "from_sst_info info (fl_min_seq ?s, fl_max_seq ?s) (fl_record_id_count ?s) now"
  let ?u = "flush_update ?meta (fl_max_seq ?s) mm"
  obtain x where x: "x \<in> set es" "fl_max_seq ?s = me_sequence_number x" using sc(3) [OF m(2)] by auto
  then have seq: "mf_last_flushed_sequence ?m \<le> fl_max_seq ?s" using newer(2) by simp
  have nl: "\<not> listed ?m L0 ulid" using u(2) listed_id [of _ L0 ?m] by (auto simp: listed_def list_ex_iff)
  have "validate_epoch ?u mm = Inr ()" "validate_update ?u mm = Inr ()"
    using c nl rep seq by (simp_all add: validate_epoch_def validate_update_def flush_update_def may_flush_def not_less)
  moreover obtain m' where m': "mu_apply (clock 4) ?u ?m = Inr m'" "mf_last_flushed_sequence m' = fl_max_seq ?s"
    "mf_levels m' = (mf_levels ?m)(L0 \<mapsto> sstables_at_level L0 ?m @ [?meta])"
    using seq by (simp add: mu_apply_def flush_update_def Let_def level_is_overlapping_def sstables_level_entry not_less)
  moreover have "?mp \<noteq> ?p" unfolding mm_path_def by (metis location_not_manifest)
  then have "\<exists>e. fs_get ?mp (fs_put ?p d objs) = Inl e" using c by (simp add: may_flush_def fs.get_put)
  ultimately obtain b dd where up: "mm_update J clock ?u mm (fs_put ?p d objs)
      = (Inr (), mm\<lparr>mm_current := m'\<lparr>mf_is_snapshot := b\<rparr>\<rparr>, fs_put ?mp dd (fs_put ?p d objs))"
    using mm_update_commits [of J ?u mm clock m' "fs_put ?p d objs"] c unfolding may_flush_def by blast
  let ?m' = "m'\<lparr>mf_is_snapshot := b\<rparr>" and ?objs = "fs_put ?mp dd (fs_put ?p d objs)"
  have lv: "sstables_at_level l ?m' = sstables_at_level l ?m @ (if l = L0 then [?meta] else [])" for l
    by (simp add: sstables_at_level_def m'(3))
  have mp: "fs_get (sst_location ?ns l i) ?objs = fs_get (sst_location ?ns l i) (fs_put ?p d objs)" for l i by (simp add: fs.get_put mm_path_def)
  have frame: "fs_get (sst_path ?ns l s) ?objs = fs_get (sst_path ?ns l s) objs" if s: "s \<in> set (sstables_at_level l ?m)" for l s
  proof -
    have "sm_id s \<noteq> ulid" using listed_id [OF s] u(2) by auto
    then show ?thesis by (simp add: store_named [OF st s] mp) (simp add: fs.get_put)
  qed
  have "\<exists>res. fp_flush E J clock fp now ulid frozen g mm objs = (Inr res, mm\<lparr>mm_current := ?m'\<rparr>, ?objs) \<and> fo_sst_meta res = ?meta"
    using ne sc(1,4) wr up generate_paths(1) [of ulid ?ns L0] by (simp add: fp_flush_def Let_def)
  moreover have "store_ok E ?objs ?ns ?m' (with_flushed (versions es) T)"
  proof -
    have "list_all2 (meta_repr E ?objs ?ns l) (sstables_at_level l ?m) (T l)" for l
      using st unfolding store_ok_def by (auto elim!: allE [of _ l] list.rel_mono_strong dest: meta_repr_cong [OF frame, THEN iffD2])
    moreover have "meta_repr E ?objs ?ns L0 ?meta (versions es)"
      using rep meta_repr_cong mp sst_path_location by metis
    ultimately have "\<forall>l. list_all2 (meta_repr E ?objs ?ns l) (sstables_at_level l ?m') (with_flushed (versions es) T l)"
      by (simp add: lv with_flushed_def list_all2_appendI)
    moreover have "distinct (all_sstable_ids ?m')"
      using st u(2) rep by (simp add: store_ok_def all_sstable_ids_def level_all_def lv)
    moreover have "level_order (with_flushed (versions es) T)"
      using st newer(1) versions_sub [of es] by (intro with_flushed_order) (auto simp: store_ok_def)
    moreover have "\<forall>l. \<not> level_is_overlapping l \<longrightarrow> sorted_wrt table_less (with_flushed (versions es) T l)"
      using st by (simp add: store_ok_def with_flushed_def level_is_overlapping_def)
    moreover have "\<forall>l. \<forall>s \<in> set (sstables_at_level l ?m'). named s" using st rep by (auto simp: lv store_ok_def)
    moreover have "\<forall>e \<in> set (table_entries (with_flushed (versions es) T)). entry_ok e"
      using st ok unfolding with_flushed_entries store_ok_def by blast
    ultimately show ?thesis unfolding store_ok_def by blast
  qed
  moreover have "mf_last_flushed_sequence ?m' \<in> me_sequence_number ` set es" "\<forall>x \<in> set es. me_sequence_number x \<le> mf_last_flushed_sequence ?m'"
    using sc(2) sc(3) [OF m(2)] by (simp_all add: m'(2))
  moreover have "sm_id ?meta = ulid" using rep by simp
  ultimately show ?thesis using lv frame by metis
qed


section \<open>A flush changes no read\<close>

lemma versions_set:
  assumes "sorted_wrt (\<lambda>a b. me_sequence_number a < me_sequence_number b) h"
  shows "set (versions h) = set h"
proof -
  have d: "distinct (map me_sequence_number h)" using assms by (simp add: sorted_wrt_map [symmetric] strict_sorted_iff)
  have "a = b" if "a \<in> set h" "b \<in> set h" "same_version a b" for a b
    using d that by (auto simp: distinct_map same_version_def dest: inj_onD)
  then show ?thesis using versions_sub [of h] versions_complete [of _ h] by blast
qed

lemma popped_repr:
  assumes "ml_built l (hs @ [h])" and "ml_pop_oldest_frozen_with_generation l = Inr (Some (g, frozen), l')"
  shows "mt_repr frozen h" and "ml_built l' hs"
proof -
  have f: "ml_frozen l \<noteq> []" "frozen = last (ml_frozen l)"
    using assms(2) by (auto simp: ml_pop_oldest_frozen_with_generation_def split: if_splits)
  have "list_all2 mt_repr (ml_active l # ml_frozen l) (hs @ [h])" using ml_built_repr [OF assms(1)] by (simp add: ml_repr_def)
  then have "mt_repr (last (ml_active l # ml_frozen l)) (last (hs @ [h]))"
    by (metis list_all2_conv_all_nth last_conv_nth list.discI snoc_eq_iff_butlast diff_less length_greater_0_conv zero_less_one)
  then show "mt_repr frozen h" using f by simp
  show "ml_built l' hs" using ml_built.pop [OF assms] by simp
qed

lemma moved_visible:
  assumes "set base' = set h \<union> set base" and "\<forall>e \<in> set h. me_entry_type e \<noteq> RangeDelete"
  shows "same_visible (concat (hs @ [h])) base (concat hs) base'"
proof -
  have "visible (concat (hs @ [h])) base k e \<longleftrightarrow> visible (concat hs) base' k e" for k e
    using assms by (auto simp: visible_def history_covers_def)
  then show ?thesis by (simp add: same_visible_def)
qed

lemma moved_below:
  assumes b: "ml_built l (hs @ [h])" and low: "below_memtables base (concat (hs @ [h]))" and base: "set base' = set h \<union> set base"
  shows "below_memtables base' (concat hs)"
proof -
  have r: "ml_repr l (hs @ [h])" by (rule ml_built_repr [OF b])
  then have 1: "\<forall>x \<in> set (concat hs). \<forall>y \<in> set h. me_sequence_number y < me_sequence_number x"
    by (auto simp: ml_repr_def sorted_wrt_append)
  have 2: "a = c" if "a \<in> set h" "c \<in> set h" "same_version a c" for a c
  proof -
    have "sorted_wrt (\<lambda>a b. me_sequence_number a < me_sequence_number b) h" using ml_built_grow [OF b] by simp
    then have "distinct (map me_sequence_number h)" by (simp add: sorted_wrt_map [symmetric] strict_sorted_iff)
    then show ?thesis using that by (auto simp: distinct_map same_version_def dest: inj_onD)
  qed
  have 3: "\<not> same_version a c" if "a \<in> set h" "c \<in> set base" for a c
  proof -
    have "a \<in> set (concat (hs @ [h]))" using that(1) by simp
    then have "me_sequence_number c < me_sequence_number a" using low that(2) unfolding below_memtables_def by blast
    then show ?thesis by (auto simp: same_version_def)
  qed
  have "same_version a c = same_version c a" for a c by (auto simp: same_version_def)
  then have "\<forall>a \<in> set base'. \<forall>c \<in> set base'. same_version a c \<longrightarrow> a = c"
    using low 2 3 unfolding below_memtables_def base by blast
  moreover have "\<forall>c \<in> set base. \<forall>x \<in> set (concat hs). me_sequence_number c < me_sequence_number x"
    using low unfolding below_memtables_def concat_append set_append by blast
  ultimately show ?thesis using 1 unfolding below_memtables_def base by blast
qed

lemma flush_opens:
  assumes E: "codecs_ok E" "compress_total E (sst_compression (fc_sst_config (fp_config fp)))"
    and b: "ml_built l (hs @ [h])" and pop: "ml_pop_oldest_frozen_with_generation l = Inr (Some (g, frozen), l')"
    and st: "store_ok E objs (fp_namespace fp) (mm_current mm) T" and low: "below_memtables (table_entries T) (concat (hs @ [h]))"
    and h: "h \<noteq> []" "\<forall>e \<in> set h. entry_ok e \<and> mf_last_flushed_sequence (mm_current mm) \<le> me_sequence_number e"
    and w: "fits_offsets E (fc_sst_config (fp_config fp)) (versions h)" "apart (chunk (block_size_target (fc_sst_config (fp_config fp))) [] (versions h))"
    and u: "ulid_ok ulid" "ulid \<notin> set (all_sstable_ids (mm_current mm))" and c: "may_flush J mm objs"
  shows "\<exists>res m' objs' T' levels levels'. fp_flush E J clock fp now ulid frozen g mm objs = (Inr res, mm\<lparr>mm_current := m'\<rparr>, objs')
    \<and> store_ok E objs' (fp_namespace fp) m' T' \<and> set (table_entries T') = set h \<union> set (table_entries T)
    \<and> below_memtables (table_entries T') (concat hs) \<and> l0_count m' = l0_count (mm_current mm) + 1
    \<and> mf_last_flushed_sequence m' = Max (me_sequence_number ` set h) \<and> (\<forall>x \<in> set (concat hs). mf_last_flushed_sequence m' < me_sequence_number x)
    \<and> open_levels E (fp_namespace fp) (direct_fetcher E objs) (mm_current mm) level_all = Inr levels \<and> levels_repr E objs levels (table_entries T)
    \<and> open_levels E (fp_namespace fp) (direct_fetcher E objs') m' level_all = Inr levels' \<and> levels_repr E objs' levels' (table_entries T')"
proof -
  note p = popped_repr [OF b pop]
  have newer: "\<forall>b \<in> set (table_entries T). \<forall>x \<in> set h. me_sequence_number b < me_sequence_number x" using low by (auto simp: below_memtables_def)
  obtain res m' objs' where f: "fp_flush E J clock fp now ulid frozen g mm objs = (Inr res, mm\<lparr>mm_current := m'\<rparr>, objs')"
    "store_ok E objs' (fp_namespace fp) m' (with_flushed (versions h) T)" "mf_last_flushed_sequence m' \<in> me_sequence_number ` set h"
    "\<forall>l. sstables_at_level l m' = sstables_at_level l (mm_current mm) @ (if l = L0 then [fo_sst_meta res] else [])"
    "\<forall>x \<in> set h. me_sequence_number x \<le> mf_last_flushed_sequence m'"
    using flush_commits [OF E st p(1) h(1) _ w newer _ u c, of clock now g] h(2) by blast
  let ?T' = "with_flushed (versions h) T"
  have e: "set (table_entries ?T') = set h \<union> set (table_entries T)"
    using versions_set [of h] ml_built_grow [OF b] by (simp add: with_flushed_entries)
  have bl: "below_memtables (table_entries ?T') (concat hs)" by (rule moved_below [OF b low e])
  moreover have "\<forall>x \<in> set (concat hs). mf_last_flushed_sequence m' < me_sequence_number x" using bl e f(3) by (auto simp: below_memtables_def)
  moreover have "l0_count m' = l0_count (mm_current mm) + 1" using f(4) by (simp add: l0_count_def)
  moreover have "mf_last_flushed_sequence m' = Max (me_sequence_number ` set h)" using f(3,5) by (intro Max_eqI [symmetric]) auto
  moreover note open_levels_repr [OF st] open_levels_repr [OF f(2)]
  ultimately show ?thesis using f(1,2) e by blast
qed

text \<open>C8: a flush changes no read. Flushing the oldest frozen memtable, when it holds an entry and no range deletion,
  succeeds for an unfenced writer whose next manifest number is free; the manifest then lists one more SSTable of level
  zero and records the greatest sequence number flushed, below all numbers left in the memtables; and point
  reads over the remaining memtables and the reopened levels answer as before for every key. Neither the SSTables of the store nor the new one may
  split the versions of a key over two blocks, where the lookup returns an old version; the new one does not when the memtable is
  cut into blocks between different keys.\<close>
theorem flush_preserves_reads:
  assumes E: "codecs_ok E" "compress_total E (sst_compression (fc_sst_config (fp_config fp)))"
    and b: "ml_built l (hs @ [h])" and pop: "ml_pop_oldest_frozen_with_generation l = Inr (Some (g, frozen), l')"
    and st: "store_holds E objs (fp_namespace fp) (mm_current mm) T" "unsplit_store E objs (fp_namespace fp) (mm_current mm)"
    and low: "below_memtables (table_entries T) (concat (hs @ [h]))"
    and h: "h \<noteq> []" "\<forall>e \<in> set h. entry_ok e \<and> me_entry_type e \<noteq> RangeDelete \<and> mf_last_flushed_sequence (mm_current mm) \<le> me_sequence_number e"
    and w: "fits_offsets E (fc_sst_config (fp_config fp)) (versions h)" "apart (chunk (block_size_target (fc_sst_config (fp_config fp))) [] (versions h))"
    and u: "ulid_ok ulid" "ulid \<notin> set (all_sstable_ids (mm_current mm))" and c: "may_flush J mm objs"
  shows "\<exists>res m' objs' T' levels levels'. fp_flush E J clock fp now ulid frozen g mm objs = (Inr res, mm\<lparr>mm_current := m'\<rparr>, objs')
    \<and> store_holds E objs' (fp_namespace fp) m' T' \<and> unsplit_store E objs' (fp_namespace fp) m' \<and> below_memtables (table_entries T') (concat hs)
    \<and> l0_count m' = l0_count (mm_current mm) + 1
    \<and> mf_last_flushed_sequence m' = Max (me_sequence_number ` set h) \<and> (\<forall>x \<in> set (concat hs). mf_last_flushed_sequence m' < me_sequence_number x)
    \<and> open_levels E (fp_namespace fp) (direct_fetcher E objs) (mm_current mm) level_all = Inr levels
    \<and> open_levels E (fp_namespace fp) (direct_fetcher E objs') m' level_all = Inr levels'
    \<and> (\<forall>k. point_read (direct_fetcher E objs) k l levels = point_read (direct_fetcher E objs') k l' levels')"
proof -
  have st': "store_ok E objs (fp_namespace fp) (mm_current mm) T" using st by (simp add: store_ok_unsplit)
  obtain res m' objs' T' levels levels' where f: "fp_flush E J clock fp now ulid frozen g mm objs = (Inr res, mm\<lparr>mm_current := m'\<rparr>, objs')"
    "store_ok E objs' (fp_namespace fp) m' T'" "set (table_entries T') = set h \<union> set (table_entries T)" "below_memtables (table_entries T') (concat hs)"
    "l0_count m' = l0_count (mm_current mm) + 1" "mf_last_flushed_sequence m' = Max (me_sequence_number ` set h)"
    "\<forall>x \<in> set (concat hs). mf_last_flushed_sequence m' < me_sequence_number x"
    "open_levels E (fp_namespace fp) (direct_fetcher E objs) (mm_current mm) level_all = Inr levels" "levels_repr E objs levels (table_entries T)"
    "open_levels E (fp_namespace fp) (direct_fetcher E objs') m' level_all = Inr levels'" "levels_repr E objs' levels' (table_entries T')"
    using flush_opens [OF E b pop st' low h(1) _ w u c, of clock now] h(2) by blast
  have v: "same_visible (concat (hs @ [h])) (table_entries T) (concat hs) (table_entries T')" by (rule moved_visible [OF f(3)]) (use h(2) in blast)
  have "point_read (direct_fetcher E objs) k l levels = point_read (direct_fetcher E objs') k l' levels'" for k
    by (rule reads_agree [OF b f(9) low popped_repr(2) [OF b pop] f(11,4) v])
  then show ?thesis using f(1,2,4-8,10) unfolding store_ok_unsplit by blast
qed

text \<open>C35: a flushed range deletion is forgotten. When the flushed memtable holds a range deletion that covers the newest version
  of a key, a put already in an SSTable, and no other range deletion in the memtables covers it, then a read of
  the key finds nothing before the flush and the deleted put after it: reads look for range tombstones in the memtables
  only.\<close>
theorem flush_forgets_range_delete:
  assumes E: "codecs_ok E" "compress_total E (sst_compression (fc_sst_config (fp_config fp)))"
    and b: "ml_built l (hs @ [h])" and pop: "ml_pop_oldest_frozen_with_generation l = Inr (Some (g, frozen), l')"
    and st: "store_ok E objs (fp_namespace fp) (mm_current mm) T" and low: "below_memtables (table_entries T) (concat (hs @ [h]))"
    and h: "h \<noteq> []" "\<forall>e \<in> set h. entry_ok e \<and> mf_last_flushed_sequence (mm_current mm) \<le> me_sequence_number e"
    and w: "fits_offsets E (fc_sst_config (fp_config fp)) (versions h)" "apart (chunk (block_size_target (fc_sst_config (fp_config fp))) [] (versions h))"
    and u: "ulid_ok ulid" "ulid \<notin> set (all_sstable_ids (mm_current mm))" and c: "may_flush J mm objs"
    and e: "visible [] (table_entries T) k e" "history_covers h k (me_sequence_number e)" "\<not> history_covers (concat hs) k (me_sequence_number e)"
      "\<forall>x \<in> set (concat (hs @ [h])). me_composite_key x \<noteq> k"
  shows "\<exists>res m' objs' levels levels'. fp_flush E J clock fp now ulid frozen g mm objs = (Inr res, mm\<lparr>mm_current := m'\<rparr>, objs')
    \<and> open_levels E (fp_namespace fp) (direct_fetcher E objs) (mm_current mm) level_all = Inr levels
    \<and> open_levels E (fp_namespace fp) (direct_fetcher E objs') m' level_all = Inr levels'
    \<and> point_read (direct_fetcher E objs) k l levels = Inr None
    \<and> point_read (direct_fetcher E objs') k l' levels' = Inr (Some (mg_from_memtable_entry e))"
proof -
  obtain res m' objs' T' levels levels' where f: "fp_flush E J clock fp now ulid frozen g mm objs = (Inr res, mm\<lparr>mm_current := m'\<rparr>, objs')"
    "set (table_entries T') = set h \<union> set (table_entries T)" "below_memtables (table_entries T') (concat hs)"
    "open_levels E (fp_namespace fp) (direct_fetcher E objs) (mm_current mm) level_all = Inr levels" "levels_repr E objs levels (table_entries T)"
    "open_levels E (fp_namespace fp) (direct_fetcher E objs') m' level_all = Inr levels'" "levels_repr E objs' levels' (table_entries T')"
    using flush_opens [OF E b pop st low h w u c, of clock now] by blast
  obtain r where r: "point_read (direct_fetcher E objs) k l levels = Inr r"
    "\<forall>g. r = Some g \<longleftrightarrow> (\<exists>e. visible (concat (hs @ [h])) (table_entries T) k e \<and> g = mg_from_memtable_entry e)"
    using point_read_visible [OF b f(5) low] by blast
  obtain r' where r': "point_read (direct_fetcher E objs') k l' levels' = Inr r'"
    "\<forall>g. r' = Some g \<longleftrightarrow> (\<exists>e. visible (concat hs) (table_entries T') k e \<and> g = mg_from_memtable_entry e)"
    using point_read_visible [OF popped_repr(2) [OF b pop] f(7,3)] by blast
  have uniq: "\<forall>x \<in> set (table_entries T). \<forall>y \<in> set (table_entries T). same_version x y \<longrightarrow> x = y" using low by (simp add: below_memtables_def)
  have "\<not> visible (concat (hs @ [h])) (table_entries T) k x" for x
  proof
    assume v: "visible (concat (hs @ [h])) (table_entries T) k x"
    then have x: "x \<in> set (table_entries T)" "me_composite_key x = k" using e(4) by (auto simp: visible_def)
    have "same_version x e" using e(1) v x by (auto simp: visible_def same_version_def intro: order_antisym)
    then have "x = e" using uniq x(1) e(1) by (auto simp: visible_def)
    then show False using v e(2) by (auto simp: visible_def history_covers_def)
  qed
  then have "r \<noteq> Some g" for g unfolding r(2) [rule_format] by blast
  then have "r = None" by (cases r) auto
  moreover have "visible (concat hs) (table_entries T') k e" using e f(2) by (auto simp: visible_def)
  then have "r' = Some (mg_from_memtable_entry e)" unfolding r'(2) [rule_format] by blast
  ultimately have "point_read (direct_fetcher E objs) k l levels = Inr None"
    "point_read (direct_fetcher E objs') k l' levels' = Inr (Some (mg_from_memtable_entry e))" using r(1) r'(1) by simp_all
  then show ?thesis using f(1,4,6) by blast
qed


section \<open>A memtable with one entry\<close>

definition one_frozen :: "memtable_entry \<Rightarrow> u64 \<Rightarrow> memtable_list \<Rightarrow> bool" where
  "one_frozen e s l \<longleftrightarrow> ml_built l [[], [e\<lparr>me_sequence_number := s\<rparr>]] \<and> (\<exists>g m l'. ml_pop_oldest_frozen_with_generation l = Inr (Some (g, m), l'))"

lemma one_frozen_exists:
  assumes "ck_ok (me_composite_key e)" and "s \<noteq> - 1"
  shows "\<exists>l. one_frozen e s l"
proof -
  let ?l = "ml_new (\<lambda>_. 1) 0 memtable_config_default s"
  obtain l1 where l1: "ml_insert 0 e ?l = Inr (s, l1)" "ml_frozen l1 = []" "ml_config l1 = memtable_config_default" "ml_frozen_generation_ids l1 = []"
    by (auto simp: ml_insert_def ml_new_def ml_with_active_def mt_insert_def mt_new_def dedup_contains_def mt_insert_prechecked_def
      memtable_config_default_def Let_def ml_check_dedup_def mt_check_dedup_def)
  have b1: "ml_built l1 [[e\<lparr>me_sequence_number := s\<rparr>]]"
    using ml_built.insert [OF ml_built.new assms(1) _ l1(1)] assms(2) by (simp add: ml_new_def)
  obtain l2 where l2: "ml_freeze_active_with_generation (\<lambda>_. 1) 0 7 l1 = Inr l2" "ml_frozen l2 \<noteq> []" "ml_frozen_generation_ids l2 \<noteq> []"
    using l1(2-4) by (simp add: ml_freeze_active_with_generation_def memtable_config_default_def Let_def)
  have "ml_built l2 [[], [e\<lparr>me_sequence_number := s\<rparr>]]" by (rule ml_built.freeze [OF b1 l2(1)])
  then show ?thesis using l2(2,3) by (auto simp: one_frozen_def ml_pop_oldest_frozen_with_generation_def)
qed

lemma one_entry_fits:
  assumes "\<exists>ws. write_loop sample_codecs sample_sst_config [e] (ws_new sample_sst_config) = Inr ws \<and> small_state ws"
  shows "fits_offsets sample_codecs sample_sst_config [e]"
proof -
  have "length d < 2 ^ 32" if "sst_write sample_codecs sample_sst_config path [e] objs = Inr (info, objs')" "fs_get path objs' = Inr d"
    for path objs info objs' d
  proof -
    obtain info' d' where "sst_write sample_codecs sample_sst_config path [e] objs = Inr (info', fs_put path d' objs)" "length d' < 2 ^ 32"
      using assms small_file by blast
    then show ?thesis using that by (simp add: fs.get_put)
  qed
  moreover have "length [e] < 2 ^ 32" by simp
  ultimately show ?thesis unfolding fits_offsets_def by blast
qed

lemma one_entry_apart: "apart (chunk n [] [e])"
  by (auto simp: apart_def split: if_splits)

abbreviation sample_pipeline :: flush_pipeline where
  "sample_pipeline \<equiv> \<lparr>fp_config = flush_config_default\<lparr>fc_sst_config := sample_sst_config\<rparr>, fp_namespace = ''ns''\<rparr>"

lemma empty_store: "store_ok E [] ns (mf_new_empty 0 ns) (\<lambda>_. [])"
  by (simp add: store_ok_def mf_new_empty_def sstables_at_level_def all_sstable_ids_def level_all_def level_order_def table_entries_def)

theorem flush_preserves_reads_witness:
  "\<exists>l g frozen l' res mm' objs'. ml_pop_oldest_frozen_with_generation l = Inr (Some (g, frozen), l')
    \<and> fp_flush sample_codecs sample_json (\<lambda>_. 0) sample_pipeline 0 ''U'' frozen g (mm_new 0 ''ns'' manifest_config_default) [] = (Inr res, mm', objs')
    \<and> l0_count (mm_current mm') = 1 \<and> mf_last_flushed_sequence (mm_current mm') = 1"
proof -
  let ?mm = "mm_new 0 ''ns'' manifest_config_default" and ?E = sample_codecs
  have k: "ck_ok (me_composite_key one_entry)" using sample_entry_ok [of "[5]" "[7]" 1] by (simp add: entry_ok_def)
  have s1: "one_entry\<lparr>me_sequence_number := 1\<rparr> = one_entry" by (simp add: sample_entry_def me_with_sequence_def)
  obtain l g frozen l' where b: "ml_built l ([[]] @ [[one_entry]])" and pop: "ml_pop_oldest_frozen_with_generation l = Inr (Some (g, frozen), l')"
    using one_frozen_exists [OF k, of 1] unfolding one_frozen_def s1 by auto
  have c: "may_flush sample_json ?mm []"
    using sample_json_ok by (simp add: may_flush_def check_writer_epoch_def mm_new_def mf_new_empty_def fs_get_def)
  have st: "store_ok ?E [] (fp_namespace sample_pipeline) (mm_current ?mm) (\<lambda>_. [])" using empty_store by (simp add: mm_new_def)
  have fit: "fits_offsets ?E (fc_sst_config (fp_config sample_pipeline)) (versions [one_entry])"
    using one_entry_fits [OF one_version_loop] by (simp add: ins_version_def)
  have "\<exists>res m' objs' T' levels levels'. fp_flush ?E sample_json (\<lambda>_. 0) sample_pipeline 0 ''U'' frozen g ?mm [] = (Inr res, ?mm\<lparr>mm_current := m'\<rparr>, objs')
    \<and> store_holds ?E objs' (fp_namespace sample_pipeline) m' T' \<and> unsplit_store ?E objs' (fp_namespace sample_pipeline) m' \<and> below_memtables (table_entries T') (concat [[]])
    \<and> l0_count m' = l0_count (mm_current ?mm) + 1
    \<and> mf_last_flushed_sequence m' = Max (me_sequence_number ` set [one_entry]) \<and> (\<forall>x \<in> set (concat [[]] :: memtable_entry list). mf_last_flushed_sequence m' < me_sequence_number x)
    \<and> open_levels ?E (fp_namespace sample_pipeline) (direct_fetcher ?E []) (mm_current ?mm) level_all = Inr levels
    \<and> open_levels ?E (fp_namespace sample_pipeline) (direct_fetcher ?E objs') m' level_all = Inr levels'
    \<and> (\<forall>k. point_read (direct_fetcher ?E []) k l levels = point_read (direct_fetcher ?E objs') k l' levels')"
    by (rule flush_preserves_reads [OF sample_codecs_ok _ b pop st [unfolded store_ok_unsplit, THEN conjunct1] st [unfolded store_ok_unsplit, THEN conjunct2] _ _ _ fit _ _ _ c])
      (use sample_compress_total sample_entry_ok [of "[5]" "[7]" 1] one_entry_apart in
        \<open>simp_all add: ins_version_def below_memtables_def table_entries_def level_all_def mm_new_def mf_new_empty_def ulid_ok_def all_sstable_ids_def
          sstables_at_level_def sample_entry_def me_with_sequence_def\<close>)
  moreover have "l0_count (mm_current ?mm) = 0" by (simp add: l0_count_def sstables_at_level_def mm_new_def mf_new_empty_def)
  moreover have "Max (me_sequence_number ` set [one_entry]) = 1" by (simp add: sample_entry_def me_with_sequence_def)
  ultimately obtain res m' objs' where "fp_flush ?E sample_json (\<lambda>_. 0) sample_pipeline 0 ''U'' frozen g ?mm [] = (Inr res, ?mm\<lparr>mm_current := m'\<rparr>, objs')"
    "l0_count (mm_current (?mm\<lparr>mm_current := m'\<rparr>)) = 1" "mf_last_flushed_sequence (mm_current (?mm\<lparr>mm_current := m'\<rparr>)) = 1" by auto
  then show ?thesis using pop by blast
qed


lemma range_delete_loop:
  "\<exists>ws. write_loop sample_codecs sample_sst_config [sample_range_delete 2] (ws_new sample_sst_config) = Inr ws \<and> small_state ws"
  by (simp add: write_steps sample_range_delete_def record_id_def SEPARATOR_def)


theorem flush_forgets_range_delete_witness:
  "\<exists>objs mm l g frozen l' res mm' objs' levels levels'. ml_pop_oldest_frozen_with_generation l = Inr (Some (g, frozen), l')
    \<and> fp_flush sample_codecs sample_json (\<lambda>_. 0) sample_pipeline 0 ''U'' frozen g mm objs = (Inr res, mm', objs')
    \<and> point_read (direct_fetcher sample_codecs objs) (CompositeKey [1, 0, 5]) l levels = Inr None
    \<and> point_read (direct_fetcher sample_codecs objs') (CompositeKey [1, 0, 5]) l' levels' = Inr (Some (mg_from_memtable_entry one_entry))"
proof -
  let ?E = sample_codecs and ?d = "sample_range_delete 2" and ?k = "CompositeKey [1, 0, 5]"
  obtain s d where st: "store_ok ?E (fs_put (sst_location ''ns'' L0 ''a'') d []) ''ns'' (one_table_manifest s) one_table" "sm_id s = ''a''"
    using one_table_store by blast
  let ?objs = "fs_put (sst_location ''ns'' L0 ''a'') d []" and ?mm = "(mm_new 0 ''ns'' manifest_config_default)\<lparr>mm_current := one_table_manifest s\<rparr>"
  have s2: "?d\<lparr>me_sequence_number := 2\<rparr> = ?d" by (simp add: sample_range_delete_def me_with_sequence_def)
  obtain l g frozen l' where b: "ml_built l ([[]] @ [[?d]])" and pop: "ml_pop_oldest_frozen_with_generation l = Inr (Some (g, frozen), l')"
    using one_frozen_exists [OF sample_ck_ok(2), of 2 2] unfolding one_frozen_def s2 by auto
  have "mm_path ?mm i \<noteq> sst_location ''ns'' L0 ''a''" for i unfolding mm_path_def by (metis location_not_manifest)
  then have "\<exists>e. fs_get (mm_path ?mm (mf_manifest_id (mm_current ?mm) + 1)) ?objs = Inl e" by (simp add: fs.get_put) (simp add: fs_get_def)
  then have c: "may_flush sample_json ?mm ?objs"
    using sample_json_ok by (simp add: may_flush_def check_writer_epoch_def mm_new_def one_table_manifest_def mf_new_empty_def)
  have fit: "fits_offsets ?E (fc_sst_config (fp_config sample_pipeline)) (versions [?d])"
    using one_entry_fits [OF range_delete_loop] by (simp add: ins_version_def)
  have ok: "entry_ok ?d" by (simp add: entry_ok_def sample_range_delete_def me_with_sequence_def sample_key ck_ok_def SEPARATOR_def)
  have q: "me_sequence_number ?d = 2" "me_sequence_number one_entry = 1" "me_composite_key one_entry = ?k" "me_entry_type one_entry = Put"
    "me_composite_key ?d = CompositeKey [1, 0, 255]" by (simp_all add: sample_range_delete_def sample_entry_def me_with_sequence_def)
  have cov: "history_covers [?d] ?k (me_sequence_number one_entry)"
    by (simp add: history_covers_def sample_entry_def sample_range_delete_def me_with_sequence_def ts_covers_def
        tombstone_of_def record_id_def item_key_def SEPARATOR_def)
  have fresh: "''U'' \<notin> set (all_sstable_ids (mm_current ?mm))" using st(2) by (simp add: all_sstable_ids_def level_all_def one_table_levels)
  have low: "below_memtables (table_entries one_table) (concat ([[]] @ [[?d]]))" by (simp add: below_memtables_def one_table_entries q)
  have vis: "visible [] (table_entries one_table) ?k one_entry" by (simp add: visible_def one_table_entries q history_covers_def)
  have "\<exists>res m' objs' levels levels'. fp_flush ?E sample_json (\<lambda>_. 0) sample_pipeline 0 ''U'' frozen g ?mm ?objs = (Inr res, ?mm\<lparr>mm_current := m'\<rparr>, objs')
    \<and> open_levels ?E (fp_namespace sample_pipeline) (direct_fetcher ?E ?objs) (mm_current ?mm) level_all = Inr levels
    \<and> open_levels ?E (fp_namespace sample_pipeline) (direct_fetcher ?E objs') m' level_all = Inr levels'
    \<and> point_read (direct_fetcher ?E ?objs) ?k l levels = Inr None
    \<and> point_read (direct_fetcher ?E objs') ?k l' levels' = Inr (Some (mg_from_memtable_entry one_entry))"
    by (rule flush_forgets_range_delete [OF sample_codecs_ok _ b pop _ low _ _ fit _ _ fresh c vis cov])
      (use st(1) sample_compress_total ok one_entry_apart in \<open>simp_all add: ins_version_def q ulid_ok_def one_table_manifest_def mf_new_empty_def history_covers_def\<close>)
  then obtain res m' objs' levels levels' where "fp_flush ?E sample_json (\<lambda>_. 0) sample_pipeline 0 ''U'' frozen g ?mm ?objs = (Inr res, ?mm\<lparr>mm_current := m'\<rparr>, objs')"
    "point_read (direct_fetcher ?E ?objs) ?k l levels = Inr None"
    "point_read (direct_fetcher ?E objs') ?k l' levels' = Inr (Some (mg_from_memtable_entry one_entry))" by blast
  then show ?thesis using pop by blast
qed

end
