(* ===== verification/Wal_Entry.thy ===== *)
theory Wal_Entry
  imports Flush_Types
begin

text \<open>
  The write-ahead log's entry format (\<^verbatim>\<open>flushdb-wal/src/entry.rs\<close>): a length prefix, a body of
  length-prefixed fields and a CRC. The checksum function of the crate \<^verbatim>\<open>crc32fast\<close> is the
  argument \<open>crc\<close> of every definition that uses it; nothing is assumed of it.
\<close>

record wal_entry =
  we_sequence_number :: u64
  we_entry_type :: entry_type
  we_namespace :: bytes
  we_record_id :: bytes
  we_item_key :: bytes
  we_item_value :: bytes
  we_item_metadata :: bytes
  we_idempotency_token :: idempotency_token

definition FIXED_BODY_OVERHEAD :: nat where "FIXED_BODY_OVERHEAD = 8 + 1 + 2 + 2 + 2 + 4 + 2 + 24"

definition body_size :: "wal_entry \<Rightarrow> nat" where
  "body_size e = FIXED_BODY_OVERHEAD + length (we_namespace e) + length (we_record_id e)
     + length (we_item_key e) + length (we_item_value e) + length (we_item_metadata e)"

definition total_size :: "wal_entry \<Rightarrow> nat" where
  "total_size e = 4 + body_size e + 4"

text \<open>The casts \<^verbatim>\<open>len() as u16\<close> and \<^verbatim>\<open>as u32\<close> keep the low bits.\<close>

definition encode_body :: "wal_entry \<Rightarrow> bytes" where
  "encode_body e =
     to_le_bytes 8 (we_sequence_number e) @ [entry_type_as_u8 (we_entry_type e)]
     @ to_le_bytes 2 (of_nat (length (we_namespace e)) :: u16) @ we_namespace e
     @ to_le_bytes 2 (of_nat (length (we_record_id e)) :: u16) @ we_record_id e
     @ to_le_bytes 2 (of_nat (length (we_item_key e)) :: u16) @ we_item_key e
     @ to_le_bytes 4 (of_nat (length (we_item_value e)) :: u32) @ we_item_value e
     @ to_le_bytes 2 (of_nat (length (we_item_metadata e)) :: u16) @ we_item_metadata e
     @ token_data (we_idempotency_token e)"

definition wal_encode :: "(bytes \<Rightarrow> u32) \<Rightarrow> wal_entry \<Rightarrow> bytes" where
  "wal_encode crc e =
     to_le_bytes 4 (of_nat (body_size e) :: u32) @ encode_body e @ to_le_bytes 4 (crc (encode_body e))"

definition read_entry_length :: "bytes \<Rightarrow> u32 flush_result" where
  "read_entry_length data =
     (if length data < 4 then Inl (CorruptedData ''WAL entry too short for length prefix'')
      else Inr (from_le_bytes (take 4 data)))"

definition validate_crc :: "(bytes \<Rightarrow> u32) \<Rightarrow> bytes \<Rightarrow> u32 \<Rightarrow> unit flush_result" where
  "validate_crc crc body expected =
     (if crc body \<noteq> expected then Inl (CrcMismatch expected (crc body)) else Inr ())"

definition read_var_u16 :: "bytes \<Rightarrow> nat \<Rightarrow> (bytes \<times> nat) flush_result" where
  "read_var_u16 body pos =
     (if pos + 2 > length body then Inl (CorruptedData ''WAL entry field length exceeds body'')
      else let len = unat (from_le_bytes [body ! pos, body ! (pos + 1)] :: u16);
               start = pos + 2; fin = start + len
           in if fin > length body then Inl (CorruptedData ''WAL entry field length exceeds body'')
              else Inr (slice_of start fin body, fin))"

definition read_var_u32 :: "bytes \<Rightarrow> nat \<Rightarrow> (bytes \<times> nat) flush_result" where
  "read_var_u32 body pos =
     (if pos + 4 > length body then Inl (CorruptedData ''WAL entry field length exceeds body'')
      else let len = unat (from_le_bytes [body ! pos, body ! (pos + 1), body ! (pos + 2), body ! (pos + 3)] :: u32);
               start = pos + 4; fin = start + len
           in if fin > length body then Inl (CorruptedData ''WAL entry field length exceeds body'')
              else Inr (slice_of start fin body, fin))"

definition decode_body :: "bytes \<Rightarrow> wal_entry flush_result" where
  "decode_body body =
     (if length body < FIXED_BODY_OVERHEAD then Inl (CorruptedData ''WAL entry body too short'')
      else
        let seq = from_le_bytes (slice_of 0 8 body) in
        bind_res (case entry_type_from_u8 (body ! 8) of
                    Inl _ \<Rightarrow> Inl (CorruptedData ''unknown WAL entry type'') | Inr ty \<Rightarrow> Inr ty) (\<lambda>ty.
        bind_res (read_var_u16 body 9) (\<lambda>(ns, p1).
        bind_res (read_var_u16 body p1) (\<lambda>(rid, p2).
        bind_res (read_var_u16 body p2) (\<lambda>(ik, p3).
        bind_res (read_var_u32 body p3) (\<lambda>(val, p4).
        bind_res (read_var_u16 body p4) (\<lambda>(md, p5).
          if p5 + 24 > length body then Inl (CorruptedData ''WAL entry field length exceeds body'')
          else bind_res (case token_from_bytes (slice_of p5 (p5 + 24) body) of
                           Inl _ \<Rightarrow> Inl (CorruptedData ''invalid idempotency token'') | Inr t \<Rightarrow> Inr t) (\<lambda>t.
            Inr \<lparr>we_sequence_number = seq, we_entry_type = ty, we_namespace = ns, we_record_id = rid,
                 we_item_key = ik, we_item_value = val, we_item_metadata = md,
                 we_idempotency_token = t\<rparr>))))))))"

definition from_memtable_entry :: "memtable_entry \<Rightarrow> bytes \<Rightarrow> wal_entry" where
  "from_memtable_entry e ns =
     \<lparr>we_sequence_number = me_sequence_number e, we_entry_type = me_entry_type e, we_namespace = ns,
      we_record_id = record_id (me_composite_key e), we_item_key = item_key (me_composite_key e),
      we_item_value = me_value e, we_item_metadata = me_metadata e,
      we_idempotency_token = me_idempotency_key e\<rparr>"

definition to_memtable_entry :: "wal_entry \<Rightarrow> memtable_entry flush_result" where
  "to_memtable_entry e =
     bind_res (ck_new (we_record_id e) (we_item_key e)) (\<lambda>k.
       Inr (me_with_sequence k (we_item_value e) (we_item_metadata e) (we_idempotency_token e)
              (we_sequence_number e) (we_entry_type e)))"

section \<open>Decoding what was encoded\<close>

text \<open>The field lengths that fit their prefixes.\<close>

definition wal_entry_fits :: "wal_entry \<Rightarrow> bool" where
  "wal_entry_fits e \<longleftrightarrow>
     length (we_namespace e) < 2 ^ 16 \<and> length (we_record_id e) < 2 ^ 16 \<and>
     length (we_item_key e) < 2 ^ 16 \<and> length (we_item_value e) < 2 ^ 32 \<and>
     length (we_item_metadata e) < 2 ^ 16 \<and> body_size e < 2 ^ 32 \<and>
     token_ok (we_idempotency_token e)"

lemma length_encode_body: "token_ok (we_idempotency_token e) \<Longrightarrow> length (encode_body e) = body_size e"
  by (simp add: encode_body_def body_size_def FIXED_BODY_OVERHEAD_def token_ok_def IDEMPOTENCY_TOKEN_SIZE_def)

lemma length_wal_encode: "token_ok (we_idempotency_token e) \<Longrightarrow> length (wal_encode crc e) = total_size e"
  by (simp add: wal_encode_def length_encode_body total_size_def)

lemma list2_nth: "length xs = 2 \<Longrightarrow> [xs ! 0, xs ! Suc 0] = xs"
  by (rule nth_equalityI) (auto simp: less_Suc_eq numeral_eq_Suc)

text \<open>Reading a field at its position: the bytes before it and after it do not matter. The length
  read is the length written modulo the width of the prefix.\<close>

lemma read_var_u16_hit [codec_simps]:
  assumes "length pre = pos" and "n < 2 ^ 16" and "n \<le> length (f @ post)"
  shows "read_var_u16 (pre @ to_le_bytes 2 (of_nat n :: u16) @ f @ post) pos =
    Inr (take n (f @ post), pos + 2 + n)"
proof -
  let ?w = "to_le_bytes 2 (of_nat n :: u16)"
  have "[?w ! 0, ?w ! Suc 0] = ?w" by (rule list2_nth) simp
  moreover have "unat (of_nat n :: u16) = n" using assms(2) by (simp add: unat_of_nat)
  ultimately show ?thesis using assms
    by (simp add: read_var_u16_def Let_def nth_append from_to_le_bytes slice_of_def)
qed

lemma read_var_u32_hit [codec_simps]:
  assumes "length pre = pos" and "n < 2 ^ 32" and "n \<le> length (f @ post)"
  shows "read_var_u32 (pre @ to_le_bytes 4 (of_nat n :: u32) @ f @ post) pos =
    Inr (take n (f @ post), pos + 4 + n)"
proof -
  let ?w = "to_le_bytes 4 (of_nat n :: u32)"
  have "[?w ! 0, ?w ! 1, ?w ! 2, ?w ! 3] = ?w" using list4_of_length [of ?w] by simp
  moreover have "unat (of_nat n :: u32) = n" using assms(2) by (simp add: unat_of_nat)
  moreover have "(pre @ ?w @ f @ post) ! (pos + i) = ?w ! i" if "i < 4" for i
    using that assms(1) by (simp add: nth_append)
  from this [of 0] this [of 1] this [of 2] this [of 3]
  have "[(pre @ ?w @ f @ post) ! pos, (pre @ ?w @ f @ post) ! (pos + 1),
      (pre @ ?w @ f @ post) ! (pos + 2), (pre @ ?w @ f @ post) ! (pos + 3)] = [?w ! 0, ?w ! 1, ?w ! 2, ?w ! 3]"
    by simp
  ultimately show ?thesis using assms
    unfolding read_var_u32_def Let_def by (simp add: from_to_le_bytes slice_of_def)
qed

text \<open>The decoder on an encoded body, for a metadata field read as \<open>md\<close> from the bytes \<open>mdf\<close> that
  follow its prefix.\<close>

lemma decode_body_fields:
  fixes seq :: u64
  assumes "length ns < 2 ^ 16" "length rid < 2 ^ 16" "length ik < 2 ^ 16" "length val < 2 ^ 32"
    and md: "m < 2 ^ 16" "m + 24 \<le> length rest"
  shows "decode_body (to_le_bytes 8 seq @ [entry_type_as_u8 ty]
      @ to_le_bytes 2 (of_nat (length ns) :: u16) @ ns
      @ to_le_bytes 2 (of_nat (length rid) :: u16) @ rid
      @ to_le_bytes 2 (of_nat (length ik) :: u16) @ ik
      @ to_le_bytes 4 (of_nat (length val) :: u32) @ val
      @ to_le_bytes 2 (of_nat m :: u16) @ rest) =
    Inr \<lparr>we_sequence_number = seq, we_entry_type = ty, we_namespace = ns, we_record_id = rid,
         we_item_key = ik, we_item_value = val, we_item_metadata = take m rest,
         we_idempotency_token = IdempotencyToken (slice_of m (m + 24) rest)\<rparr>"
    (is "decode_body ?b = _")
proof -
  let ?p0 = "to_le_bytes 8 seq @ [entry_type_as_u8 ty]"
  let ?p1 = "?p0 @ to_le_bytes 2 (of_nat (length ns) :: u16) @ ns"
  let ?p2 = "?p1 @ to_le_bytes 2 (of_nat (length rid) :: u16) @ rid"
  let ?p3 = "?p2 @ to_le_bytes 2 (of_nat (length ik) :: u16) @ ik"
  let ?p4 = "?p3 @ to_le_bytes 4 (of_nat (length val) :: u32) @ val"
  have r1: "read_var_u16 ?b 9 = Inr (ns, length ?p1)"
    using read_var_u16_hit [of ?p0 9 "length ns" ns] assms(1) by simp
  have r2: "read_var_u16 ?b (length ?p1) = Inr (rid, length ?p2)"
    using read_var_u16_hit [of ?p1 "length ?p1" "length rid" rid] assms(2) by simp
  have r3: "read_var_u16 ?b (length ?p2) = Inr (ik, length ?p3)"
    using read_var_u16_hit [of ?p2 "length ?p2" "length ik" ik] assms(3) by simp
  have r4: "read_var_u32 ?b (length ?p3) = Inr (val, length ?p4)"
    using read_var_u32_hit [of ?p3 "length ?p3" "length val" val] assms(4) by simp
  have r5: "read_var_u16 ?b (length ?p4) = Inr (take m rest, length ?p4 + 2 + m)"
    using read_var_u16_hit [of ?p4 "length ?p4" m "[]" rest] md by simp
  have tok: "slice_of (length ?p4 + 2 + m) (length ?p4 + 2 + m + 24) ?b = slice_of m (m + 24) rest"
  proof -
    let ?q = "?p4 @ to_le_bytes 2 (of_nat m :: u16)"
    have "slice_of (length ?q + m) (length ?q + m + 24) (?q @ rest) = slice_of m (m + 24) rest"
      by (simp del: length_append append_assoc)
    then show ?thesis by (simp only: append_assoc length_append length_to_le_bytes add.assoc)
  qed
  have len: "\<not> length ?b < FIXED_BODY_OVERHEAD" "\<not> length ?p4 + 2 + m + 24 > length ?b"
    using md(2) by (simp_all add: FIXED_BODY_OVERHEAD_def)
  have tokok: "token_from_bytes (slice_of m (m + 24) rest) = Inr (IdempotencyToken (slice_of m (m + 24) rest))"
    using md(2) by (simp add: token_from_bytes_def IDEMPOTENCY_TOKEN_SIZE_def)
  have seq: "slice_of 0 8 ?b = to_le_bytes 8 seq" and ty: "?b ! 8 = entry_type_as_u8 ty"
    by (simp_all add: slice_of_def nth_append)
  show ?thesis
    unfolding decode_body_def Let_def
    by (simp only: len seq ty r1 r2 r3 r4 r5 tok tokok if_False bind_res.simps prod.case
        entry_type_from_as_u8 sum.case from_to_le_bytes [of 8 seq]) (simp add: from_to_le_bytes)
qed

lemma decode_encode_body:
  assumes "wal_entry_fits e"
  shows "decode_body (encode_body e) = Inr e"
proof -
  have t: "length (token_data (we_idempotency_token e)) = 24"
    using assms by (simp add: wal_entry_fits_def token_ok_def IDEMPOTENCY_TOKEN_SIZE_def)
  have "decode_body (encode_body e) = Inr
     \<lparr>we_sequence_number = we_sequence_number e, we_entry_type = we_entry_type e,
      we_namespace = we_namespace e, we_record_id = we_record_id e, we_item_key = we_item_key e,
      we_item_value = we_item_value e,
      we_item_metadata = take (length (we_item_metadata e)) (we_item_metadata e @ token_data (we_idempotency_token e)),
      we_idempotency_token = IdempotencyToken (slice_of (length (we_item_metadata e))
        (length (we_item_metadata e) + 24) (we_item_metadata e @ token_data (we_idempotency_token e)))\<rparr>"
    unfolding encode_body_def
    by (rule decode_body_fields) (use assms t in \<open>simp_all add: wal_entry_fits_def\<close>)
  then show ?thesis using t by simp
qed

text \<open>An entry whose fields fit their length prefixes is decoded from its encoded body
  unchanged, and the length prefix is the length of the body.\<close>

lemma wal_entry_roundtrip:
  assumes "wal_entry_fits e"
  shows "decode_body (encode_body e) = Inr e
    \<and> read_entry_length (wal_encode crc e) = Inr (of_nat (length (encode_body e)))
    \<and> validate_crc crc (encode_body e) (crc (encode_body e)) = Inr ()"
  using assms
  by (simp add: decode_encode_body read_entry_length_def validate_crc_def wal_encode_def
      wal_entry_fits_def length_encode_body from_to_le_bytes)

definition sample_wal_entry :: wal_entry where
  "sample_wal_entry = \<lparr>we_sequence_number = 7, we_entry_type = Put, we_namespace = [110], we_record_id = [114],
     we_item_key = [1, 0], we_item_value = [42], we_item_metadata = [], we_idempotency_token = token_none\<rparr>"

lemma sample_wal_entry_fits: "wal_entry_fits sample_wal_entry"
  by (simp add: wal_entry_fits_def sample_wal_entry_def body_size_def FIXED_BODY_OVERHEAD_def)

text \<open>The metadata length is cut to 16 bits without a check: an entry with exactly 65536 bytes
  of metadata is encoded with length prefix 0, and decoding its body, whose checksum is right,
  succeeds with empty metadata and with the first 24 metadata bytes as its idempotency token.\<close>

lemma wal_metadata_truncated:
  assumes "length (we_namespace e) < 2 ^ 16" "length (we_record_id e) < 2 ^ 16"
    "length (we_item_key e) < 2 ^ 16" "length (we_item_value e) < 2 ^ 32"
    and "length (we_item_metadata e) = 2 ^ 16"
  shows "decode_body (encode_body e) =
    Inr (e\<lparr>we_item_metadata := [],
           we_idempotency_token := IdempotencyToken (take 24 (we_item_metadata e))\<rparr>)"
proof -
  have m: "(of_nat (length (we_item_metadata e)) :: u16) = of_nat 0"
    unfolding assms(5) by simp
  have "decode_body (encode_body e) = Inr
     \<lparr>we_sequence_number = we_sequence_number e, we_entry_type = we_entry_type e,
      we_namespace = we_namespace e, we_record_id = we_record_id e, we_item_key = we_item_key e,
      we_item_value = we_item_value e,
      we_item_metadata = take 0 (we_item_metadata e @ token_data (we_idempotency_token e)),
      we_idempotency_token = IdempotencyToken (slice_of 0 (0 + 24) (we_item_metadata e @ token_data (we_idempotency_token e)))\<rparr>"
    unfolding encode_body_def m
    by (rule decode_body_fields) (use assms in simp_all)
  then show ?thesis using assms(5) by (simp add: slice_of_def)
qed

lemma wal_memtable_roundtrip:
  assumes "ck_ok (me_composite_key e)" and "rid_ok (record_id (me_composite_key e))"
    and "length (item_key (me_composite_key e)) \<le> MAX_ITEM_KEY_LEN"
  shows "to_memtable_entry (from_memtable_entry e ns) = Inr e"
proof -
  have "ck_new (record_id (me_composite_key e)) (item_key (me_composite_key e)) = Inr (me_composite_key e)"
    using assms ck_collapse [OF assms(1)] by (simp add: ck_new_eq_Inr)
  then show ?thesis
    by (simp add: to_memtable_entry_def from_memtable_entry_def me_with_sequence_def)
qed

end
