(* ===== verification/Wal_Segment.thy ===== *)
theory Wal_Segment
  imports Wal_Entry Decimal
begin

text \<open>
  WAL segment files (\<^verbatim>\<open>flushdb-wal/src/config.rs\<close>, \<^verbatim>\<open>segment_header.rs\<close>, \<^verbatim>\<open>segment_reader.rs\<close>):
  file names, the 32-byte header and the reader that walks the entries of a file read into memory.
  The reader's loop ends because every entry it accepts moves the position forward inside the file.
  The main results are that a file cut off anywhere is read as the entries it holds completely,
  and that zero padding after the last entry is ignored.
\<close>

section \<open>File names (config.rs)\<close>

definition SEGMENT_FILE_PREFIX :: string where "SEGMENT_FILE_PREFIX = ''segment-''"
definition SEGMENT_FILE_EXTENSION :: string where "SEGMENT_FILE_EXTENSION = ''.wal''"
definition SEGMENT_NUMBER_WIDTH :: nat where "SEGMENT_NUMBER_WIDTH = 12"
definition SEGMENT_HEADER_SIZE :: nat where "SEGMENT_HEADER_SIZE = 32"
definition WAL_MAGIC :: bytes where "WAL_MAGIC = [70, 87, 65, 76]"
definition WAL_VERSION :: u8 where "WAL_VERSION = 1"

definition segment_filename :: "u64 \<Rightarrow> string" where
  "segment_filename n = SEGMENT_FILE_PREFIX @ pad0 SEGMENT_NUMBER_WIDTH (unat n) @ SEGMENT_FILE_EXTENSION"

definition strip_prefix :: "'a list \<Rightarrow> 'a list \<Rightarrow> 'a list option" where
  "strip_prefix p s = (if take (length p) s = p then Some (drop (length p) s) else None)"

definition strip_suffix :: "'a list \<Rightarrow> 'a list \<Rightarrow> 'a list option" where
  "strip_suffix p s = map_option rev (strip_prefix (rev p) (rev s))"

definition parse_segment_number :: "string \<Rightarrow> u64 option" where
  "parse_segment_number filename =
     Option.bind (strip_prefix SEGMENT_FILE_PREFIX filename) (\<lambda>rest.
     Option.bind (strip_suffix SEGMENT_FILE_EXTENSION rest) (\<lambda>number_str.
       if length number_str \<noteq> SEGMENT_NUMBER_WIDTH then None
       else map_option of_nat (parse_u64 number_str)))"

lemma strip_prefix_hit [simp]: "strip_prefix p (p @ s) = Some s"
  by (simp add: strip_prefix_def)

lemma strip_suffix_hit [simp]: "strip_suffix p (s @ p) = Some s"
  by (simp add: strip_suffix_def)

lemma parse_segment_filename:
  assumes "unat n < 10 ^ 12"
  shows "parse_segment_number (segment_filename n) = Some n"
proof -
  have "unat n < 2 ^ 64" using unsigned_less [of n] by simp
  with assms show ?thesis
    by (simp add: parse_segment_number_def segment_filename_def SEGMENT_NUMBER_WIDTH_def length_pad0 parse_u64_pad0)
qed

text \<open>A segment number below \<open>10\<^sup>1\<^sup>2\<close> is found again by parsing its file name; from
  \<open>10\<^sup>1\<^sup>2\<close> on the name is longer than the parser accepts, so the file would not be discovered.\<close>

lemma segment_filename_roundtrip:
  "parse_segment_number (segment_filename n) = (if unat n < 10 ^ 12 then Some n else None)"
proof (cases "unat n < 10 ^ 12")
  case True
  then show ?thesis by (simp add: parse_segment_filename)
next
  case False
  have "length (pad0 12 (unat n)) \<noteq> 12"
  proof
    assume "length (pad0 12 (unat n)) = 12"
    then have "unat n < (0 + 1) * 10 ^ 12"
      using parse_digits_bounds [OF parse_digits_pad0 [of 12 "unat n"]] by simp
    with False show False by simp
  qed
  with False show ?thesis
    by (simp add: parse_segment_number_def segment_filename_def SEGMENT_NUMBER_WIDTH_def)
qed

section \<open>Segment headers\<close>

record segment_header =
  sh_segment_number :: u64
  sh_starting_sequence_number :: u64
  sh_created_at_ms :: u64

definition sh_encode :: "segment_header \<Rightarrow> bytes" where
  "sh_encode h = WAL_MAGIC @ [WAL_VERSION] @ [0] @ [0, 0] @ to_le_bytes 8 (sh_segment_number h)
     @ to_le_bytes 8 (sh_starting_sequence_number h) @ to_le_bytes 8 (sh_created_at_ms h)"

definition sh_decode :: "bytes \<Rightarrow> segment_header flush_result" where
  "sh_decode data =
     (if length data < SEGMENT_HEADER_SIZE then Inl (CorruptedData ''segment header too short'')
      else if slice_of 0 4 data \<noteq> WAL_MAGIC then Inl (CorruptedData ''invalid WAL segment magic'')
      else if data ! 4 \<noteq> WAL_VERSION then Inl (CorruptedData ''unsupported WAL segment version'')
      else Inr \<lparr>sh_segment_number = from_le_bytes (slice_of 8 16 data),
                sh_starting_sequence_number = from_le_bytes (slice_of 16 24 data),
                sh_created_at_ms = from_le_bytes (slice_of 24 32 data)\<rparr>)"

lemma length_sh_encode [simp]: "length (sh_encode h) = 32"
  by (simp add: sh_encode_def WAL_MAGIC_def)

lemma sh_decode_encode [codec_simps]: "sh_decode (sh_encode h @ rest) = Inr h"
  by (simp add: sh_decode_def sh_encode_def SEGMENT_HEADER_SIZE_def WAL_MAGIC_def slice_of_def from_to_le_bytes)

section \<open>The segment reader\<close>

record segment_reader =
  sr_data :: bytes
  sr_header :: segment_header
  sr_position :: nat

definition sr_open :: "bytes \<Rightarrow> segment_reader flush_result" where
  "sr_open data =
     (if length data < SEGMENT_HEADER_SIZE
      then Inl (CorruptedData ''segment file too short for header'')
      else bind_res (sh_decode data) (\<lambda>h.
        Inr \<lparr>sr_data = data, sr_header = h, sr_position = SEGMENT_HEADER_SIZE\<rparr>))"

definition is_tail_corruption :: "bytes \<Rightarrow> nat \<Rightarrow> bool" where
  "is_tail_corruption data start =
     (if start \<ge> length data then True
      else let remaining = drop start data in length remaining < 8 \<or> list_all (\<lambda>b. b = 0) remaining)"

definition next_entry ::
  "(bytes \<Rightarrow> u32) \<Rightarrow> segment_reader \<Rightarrow> (wal_entry option \<times> segment_reader) flush_result" where
  "next_entry crc r =
     (let remaining = drop (sr_position r) (sr_data r) in
      if length remaining < 4 then Inr (None, r)
      else bind_res (read_entry_length remaining) (\<lambda>len.
        let entry_length = unat len in
        if entry_length = 0 then Inr (None, r)
        else let needed = 4 + entry_length + 4 in
        if length remaining < needed then Inr (None, r)
        else
          let body = slice_of 4 (4 + entry_length) remaining;
              crc_offset = 4 + entry_length;
              expected_crc = from_le_bytes (slice_of crc_offset (crc_offset + 4) remaining)
          in case validate_crc crc body expected_crc of
               Inr _ \<Rightarrow> bind_res (decode_body body) (\<lambda>e.
                 Inr (Some e, r\<lparr>sr_position := sr_position r + needed\<rparr>))
             | Inl crc_err \<Rightarrow>
                 if is_tail_corruption (sr_data r) (sr_position r + needed) then Inr (None, r)
                 else Inl crc_err))"

lemma next_entry_progress:
  assumes "next_entry crc r = Inr (Some e, r')"
  shows "sr_position r < sr_position r' \<and> sr_position r' \<le> length (sr_data r) \<and> sr_data r' = sr_data r"
  using assms
  by (auto simp: next_entry_def Let_def split: if_splits sum.splits)

text \<open>\<^verbatim>\<open>SegmentReader::entries()\<close>: the items the iterator yields, with \<open>done\<close> set after the first
  error or the end.\<close>

function segment_entries :: "(bytes \<Rightarrow> u32) \<Rightarrow> segment_reader \<Rightarrow> wal_entry flush_result list" where
  "segment_entries crc r =
     (case next_entry crc r of
        Inr (Some e, r') \<Rightarrow> Inr e # segment_entries crc r'
      | Inr (None, r') \<Rightarrow> []
      | Inl err \<Rightarrow> [Inl err])"
  by pat_completeness auto
termination
  by (relation "measure (\<lambda>(crc, r). length (sr_data r) - sr_position r)")
    (auto dest!: next_entry_progress)

declare segment_entries.simps [simp del]

section \<open>Reading a well-formed, truncated or padded segment\<close>

lemma next_entry_hit:
  assumes "sr_data r = pre @ wal_encode crc e @ rest" and "sr_position r = length pre" and "wal_entry_fits e"
  shows "next_entry crc r = Inr (Some e, r\<lparr>sr_position := sr_position r + total_size e\<rparr>)"
proof -
  let ?b = "encode_body e"
  have len: "length ?b = body_size e" "body_size e < 2 ^ 32" "0 < body_size e"
    using assms(3) by (auto simp: wal_entry_fits_def length_encode_body body_size_def FIXED_BODY_OVERHEAD_def)
  then have "unat (of_nat (body_size e) :: u32) = body_size e" by (simp add: unat_of_nat)
  then show ?thesis
    using len decode_encode_body [OF assms(3)]
    by (simp add: next_entry_def Let_def assms(1,2) wal_encode_def read_entry_length_def from_to_le_bytes
        validate_crc_def total_size_def)
qed

lemma next_entry_cut:
  assumes "sr_data r = pre @ take m (wal_encode crc e)" and "sr_position r = length pre"
    and "wal_entry_fits e" and "m < total_size e"
  shows "next_entry crc r = Inr (None, r)"
proof -
  have len: "length (encode_body e) = body_size e" "body_size e < 2 ^ 32"
    using assms(3) by (auto simp: wal_entry_fits_def length_encode_body)
  then have w: "unat (of_nat (body_size e) :: u32) = body_size e" by (simp add: unat_of_nat)
  have "take 4 (take m (wal_encode crc e)) = to_le_bytes 4 (of_nat (body_size e) :: u32)" if "4 \<le> m"
    using that by (simp add: wal_encode_def min_def)
  then show ?thesis
    using assms w len
    by (simp add: next_entry_def Let_def read_entry_length_def from_to_le_bytes total_size_def
        length_wal_encode [unfolded total_size_def] wal_entry_fits_def)
qed

text \<open>The entries that lie completely within the first \<open>m\<close> bytes.\<close>

fun whole_entries :: "nat \<Rightarrow> wal_entry list \<Rightarrow> wal_entry list" where
  "whole_entries m [] = []"
| "whole_entries m (e # es) =
     (if total_size e \<le> m then e # whole_entries (m - total_size e) es else [])"

definition segment_file :: "(bytes \<Rightarrow> u32) \<Rightarrow> segment_header \<Rightarrow> wal_entry list \<Rightarrow> bytes" where
  "segment_file crc h es = sh_encode h @ concat (map (wal_encode crc) es)"

lemma segment_entries_truncated:
  assumes "\<forall>e \<in> set es. wal_entry_fits e"
    and "sr_data r = pre @ take m (concat (map (wal_encode crc) es))" and "sr_position r = length pre"
  shows "segment_entries crc r = map Inr (whole_entries m es)"
  using assms
proof (induction es arbitrary: r pre m)
  case Nil
  then show ?case by (simp add: segment_entries.simps [of crc r] next_entry_def)
next
  case (Cons e es)
  then have tok: "token_ok (we_idempotency_token e)" by (simp add: wal_entry_fits_def)
  show ?case
  proof (cases "total_size e \<le> m")
    case True
    let ?rest = "take (m - total_size e) (concat (map (wal_encode crc) es))"
    let ?r = "r\<lparr>sr_position := sr_position r + total_size e\<rparr>"
    have data: "sr_data r = pre @ wal_encode crc e @ ?rest"
      using Cons.prems(2) True by (simp add: length_wal_encode [OF tok])
    have hit: "next_entry crc r = Inr (Some e, ?r)"
      by (rule next_entry_hit [OF data Cons.prems(3)]) (use Cons.prems(1) in simp)
    have "segment_entries crc ?r = map Inr (whole_entries (m - total_size e) es)"
      by (rule Cons.IH [where pre = "pre @ wal_encode crc e"])
        (use Cons.prems data length_wal_encode [OF tok] in simp_all)
    with hit True show ?thesis by (simp add: segment_entries.simps [of crc r])
  next
    case False
    then have "sr_data r = pre @ take m (wal_encode crc e)"
      using Cons.prems(2) by (simp add: length_wal_encode [OF tok])
    from next_entry_cut [OF this Cons.prems(3)] False Cons.prems(1)
    show ?thesis by (simp add: segment_entries.simps [of crc r])
  qed
qed

lemma whole_entries_all: "sum_list (map total_size es) \<le> m \<Longrightarrow> whole_entries m es = es"
  by (induction es arbitrary: m) auto

lemma whole_entries_prefix: "\<exists>k. whole_entries m es = take k es"
proof (induction es arbitrary: m)
  case (Cons e es)
  then obtain k where "whole_entries (m - total_size e) es = take k es" by blast
  then show ?case
    by (cases "total_size e \<le> m") (auto intro: exI [of _ "Suc k"] exI [of _ 0])
qed simp

lemma length_concat_encode:
  "\<forall>e \<in> set es. wal_entry_fits e \<Longrightarrow>
     length (concat (map (wal_encode crc) es)) = sum_list (map total_size es)"
  by (induction es) (auto simp: length_wal_encode wal_entry_fits_def)

lemma sr_open_segment:
  assumes "32 \<le> length data" and "take 32 data = sh_encode h"
  shows "sr_open data = Inr \<lparr>sr_data = data, sr_header = h, sr_position = 32\<rparr>"
proof -
  have "data = sh_encode h @ drop 32 data" using assms(2) by (metis append_take_drop_id)
  then have "sh_decode data = Inr h" using sh_decode_encode by metis
  with assms show ?thesis by (simp add: sr_open_def SEGMENT_HEADER_SIZE_def)
qed

text \<open>C33: crash safety of the log file. Cut a segment file after any number of bytes that leaves
  its header: it opens, and reading it gives without error exactly the entries that were written
  completely, a prefix of the entries appended. In particular the uncut file gives them all.\<close>

theorem segment_truncation_safe:
  assumes "\<forall>e \<in> set es. wal_entry_fits e" and "SEGMENT_HEADER_SIZE \<le> n"
  shows "\<exists>r. sr_open (take n (segment_file crc h es)) = Inr r \<and> sr_header r = h
    \<and> segment_entries crc r = map Inr (whole_entries (n - SEGMENT_HEADER_SIZE) es)
    \<and> (\<exists>k. whole_entries (n - SEGMENT_HEADER_SIZE) es = take k es)
    \<and> (n \<ge> length (segment_file crc h es) \<longrightarrow> whole_entries (n - SEGMENT_HEADER_SIZE) es = es)"
proof -
  let ?data = "take n (segment_file crc h es)"
  let ?r = "\<lparr>sr_data = ?data, sr_header = h, sr_position = 32\<rparr>"
  have n: "32 \<le> n" using assms(2) by (simp add: SEGMENT_HEADER_SIZE_def)
  have data: "?data = sh_encode h @ take (n - 32) (concat (map (wal_encode crc) es))"
    using n by (simp add: segment_file_def)
  have "sr_open ?data = Inr ?r" by (rule sr_open_segment) (simp_all add: data)
  moreover have "segment_entries crc ?r = map Inr (whole_entries (n - 32) es)"
    by (rule segment_entries_truncated [where pre = "sh_encode h"]) (use assms data in simp_all)
  moreover have "whole_entries (n - 32) es = es" if "n \<ge> length (segment_file crc h es)"
    by (rule whole_entries_all) (use that assms in \<open>simp add: segment_file_def length_concat_encode\<close>)
  ultimately show ?thesis using whole_entries_prefix [of "n - 32" es] by (auto simp: SEGMENT_HEADER_SIZE_def)
qed

theorem segment_truncation_safe_witness:
  "\<exists>r. sr_open (take 90 (segment_file (\<lambda>_. 0)
      \<lparr>sh_segment_number = 1, sh_starting_sequence_number = 7, sh_created_at_ms = 0\<rparr>
      [sample_wal_entry, sample_wal_entry])) = Inr r
    \<and> segment_entries (\<lambda>_. 0) r = [Inr sample_wal_entry]"
proof -
  have w: "whole_entries (90 - SEGMENT_HEADER_SIZE) [sample_wal_entry, sample_wal_entry] = [sample_wal_entry]"
    by (simp add: SEGMENT_HEADER_SIZE_def total_size_def body_size_def FIXED_BODY_OVERHEAD_def sample_wal_entry_def)
  have "\<forall>e \<in> set [sample_wal_entry, sample_wal_entry]. wal_entry_fits e" "SEGMENT_HEADER_SIZE \<le> 90"
    by (simp_all add: sample_wal_entry_fits SEGMENT_HEADER_SIZE_def)
  from segment_truncation_safe [OF this] w show ?thesis by fastforce
qed

lemma next_entry_zeros:
  assumes "sr_data r = pre @ replicate z 0" and "sr_position r = length pre"
  shows "next_entry crc r = Inr (None, r)"
proof -
  have z: "(from_le_bytes (replicate 4 0) :: u32) = 0" by (simp add: numeral_eq_Suc)
  have "take 4 (replicate z (0 :: u8)) = replicate 4 0" if "4 \<le> z" using that by (simp add: min_def)
  with z show ?thesis using assms by (simp add: next_entry_def Let_def read_entry_length_def)
qed

lemma segment_entries_padded:
  assumes "\<forall>e \<in> set es. wal_entry_fits e"
    and "sr_data r = pre @ concat (map (wal_encode crc) es) @ replicate z 0" and "sr_position r = length pre"
  shows "segment_entries crc r = map Inr es"
  using assms
proof (induction es arbitrary: r pre)
  case Nil
  then show ?case by (simp add: segment_entries.simps [of crc r] next_entry_zeros)
next
  case (Cons e es)
  let ?r = "r\<lparr>sr_position := sr_position r + total_size e\<rparr>"
  have tok: "token_ok (we_idempotency_token e)" using Cons.prems by (simp add: wal_entry_fits_def)
  have hit: "next_entry crc r = Inr (Some e, ?r)"
    by (rule next_entry_hit) (use Cons.prems in simp_all)
  have "segment_entries crc ?r = map Inr es"
    by (rule Cons.IH [where pre = "pre @ wal_encode crc e"])
      (use Cons.prems length_wal_encode [OF tok] in simp_all)
  with hit show ?case by (simp add: segment_entries.simps [of crc r])
qed

text \<open>A checksum failure is treated as the torn end of the log exactly when nothing that could
  be an entry follows it (fewer than 8 bytes or only zeros); otherwise it is reported as a
  mid-segment corruption. The reader never returns an entry whose checksum does not match.\<close>

lemma next_entry_checksum_failure:
  assumes "sr_data r = pre @ to_le_bytes 4 (of_nat (length body) :: u32) @ body @ to_le_bytes 4 stored @ rest"
    and "sr_position r = length pre" and "0 < length body" and "length body < 2 ^ 32"
    and "crc body \<noteq> stored"
  shows "next_entry crc r =
    (if length rest < 8 \<or> list_all (\<lambda>b. b = 0) rest then Inr (None, r)
     else Inl (CrcMismatch stored (crc body)))"
proof -
  have "unat (of_nat (length body) :: u32) = length body" using assms(4) by (simp add: unat_of_nat)
  then show ?thesis
    using assms
    by (auto simp: next_entry_def Let_def read_entry_length_def from_to_le_bytes validate_crc_def
        is_tail_corruption_def list_all_iff)
qed

end
