(* ===== verification/Wal_Writer.thy ===== *)
theory Wal_Writer
  imports Wal_Segment
begin

text \<open>
  The write and replay sides of the log of one partition: \<^verbatim>\<open>segment_writer.rs\<close>,
  \<^verbatim>\<open>wal_writer.rs\<close> and \<^verbatim>\<open>wal_reader.rs\<close>. The partition directory is an association list from
  file names to contents, in the order \<^verbatim>\<open>read_dir\<close> yields them; the only file-system failures are
  a missing file and a file that already exists. The checksum and the wall clock are arguments.
  The abstract log is a list of segments, each a header and the entries appended to it;
  \<open>wal_repr\<close> relates a directory to it and \<open>log_chain\<close> orders the sequence numbers.
\<close>

section \<open>The partition directory\<close>

type_synonym wal_dir = "(string \<times> bytes) list"

definition read_file :: "wal_dir \<Rightarrow> string \<Rightarrow> bytes flush_result" where
  "read_file dir name =
     (case map_of dir name of None \<Rightarrow> Inl (Io ''not found'') | Some data \<Rightarrow> Inr data)"

definition create_new :: "wal_dir \<Rightarrow> string \<Rightarrow> bytes \<Rightarrow> wal_dir flush_result" where
  "create_new dir name data =
     (if map_of dir name = None then Inr (dir @ [(name, data)]) else Inl (Io ''already exists''))"

text \<open>Writing through an open handle: if the file was unlinked meanwhile the directory is unchanged.\<close>

definition write_all :: "wal_dir \<Rightarrow> string \<Rightarrow> bytes \<Rightarrow> wal_dir" where
  "write_all dir name data = map (\<lambda>(n, d). (n, if n = name then d @ data else d)) dir"

definition remove_file :: "wal_dir \<Rightarrow> string \<Rightarrow> wal_dir flush_result" where
  "remove_file dir name =
     (if map_of dir name = None then Inl (Io ''not found'')
      else Inr (filter (\<lambda>(n, d). n \<noteq> name) dir))"

section \<open>Configuration (config.rs)\<close>

datatype fsync_mode = Sync | BatchSync

text \<open>Durations are in microseconds.\<close>

record wal_config =
  segment_size_target :: u64
  max_wal_size :: u64
  max_total_wal_bytes :: u64
  segment_max_age :: nat
  cfg_fsync_mode :: fsync_mode
  group_commit_interval :: nat
  group_commit_max_bytes :: nat
  batch_sync_interval :: nat

definition wal_config_default :: wal_config where
  "wal_config_default = \<lparr>segment_size_target = 33554432, max_wal_size = 268435456,
     max_total_wal_bytes = 536870912, segment_max_age = 300000000, cfg_fsync_mode = Sync,
     group_commit_interval = 200, group_commit_max_bytes = 262144, batch_sync_interval = 10000\<rparr>"

section \<open>The segment writer\<close>

record segment_writer =
  sw_segment_number :: u64
  sw_current_size :: u64
  sw_entry_count :: u64
  sw_path :: string

definition sw_create :: "u64 \<Rightarrow> wal_dir \<Rightarrow> u64 \<Rightarrow> u64 \<Rightarrow> (segment_writer \<times> wal_dir) flush_result" where
  "sw_create now dir segment_number starting_sequence =
     (let path = segment_filename segment_number;
          header = \<lparr>sh_segment_number = segment_number,
                    sh_starting_sequence_number = starting_sequence, sh_created_at_ms = now\<rparr>
      in bind_res (create_new dir path []) (\<lambda>dir1.
           Inr (\<lparr>sw_segment_number = segment_number, sw_current_size = of_nat SEGMENT_HEADER_SIZE,
                 sw_entry_count = 0, sw_path = path\<rparr>,
                write_all dir1 path (sh_encode header))))"

definition sw_append ::
  "(bytes \<Rightarrow> u32) \<Rightarrow> wal_dir \<Rightarrow> segment_writer \<Rightarrow> wal_entry \<Rightarrow> u64 \<times> segment_writer \<times> wal_dir" where
  "sw_append crc dir w e =
     (let offset = sw_current_size w; encoded = wal_encode crc e
      in (offset,
          w\<lparr>sw_current_size := sw_current_size w + of_nat (length encoded),
            sw_entry_count := sw_entry_count w + 1\<rparr>,
          write_all dir (sw_path w) encoded))"

definition sw_append_batch ::
  "(bytes \<Rightarrow> u32) \<Rightarrow> wal_dir \<Rightarrow> segment_writer \<Rightarrow> wal_entry list \<Rightarrow> segment_writer \<times> wal_dir" where
  "sw_append_batch crc dir w es =
     (let buf = fold (\<lambda>e buf. buf @ wal_encode crc e) es []
      in (w\<lparr>sw_current_size := sw_current_size w + of_nat (length buf),
            sw_entry_count := sw_entry_count w + of_nat (length es)\<rparr>,
          write_all dir (sw_path w) buf))"

section \<open>The log writer\<close>

record wal_writer =
  ww_config :: wal_config
  ww_current_writer :: segment_writer
  ww_next_sequence_number :: u64
  ww_segment_numbers :: "u64 list"

definition discover_segments :: "wal_dir \<Rightarrow> u64 list" where
  "discover_segments dir = sort (List.map_filter (\<lambda>(n, d). parse_segment_number n) dir)"

definition reader_open :: "wal_dir \<Rightarrow> u64 \<Rightarrow> segment_reader flush_result" where
  "reader_open dir n = bind_res (read_file dir (segment_filename n)) sr_open"

text \<open>The inner loop of \<^verbatim>\<open>WalWriter::open\<close>: the highest sequence number before the first error.\<close>

fun highest_in :: "u64 option \<Rightarrow> wal_entry flush_result list \<Rightarrow> u64 option" where
  "highest_in h [] = h"
| "highest_in h (Inr e # rs) =
     (let s = we_sequence_number e
      in highest_in (Some (case h of None \<Rightarrow> s | Some h' \<Rightarrow> max h' s)) rs)"
| "highest_in h (Inl _ # rs) = h"

fun scan_highest :: "(bytes \<Rightarrow> u32) \<Rightarrow> wal_dir \<Rightarrow> u64 list \<Rightarrow> (u64 option) flush_result" where
  "scan_highest crc dir [] = Inr None"
| "scan_highest crc dir (n # ns) =
     bind_res (reader_open dir n) (\<lambda>r.
       case highest_in None (segment_entries crc r) of
         None \<Rightarrow> scan_highest crc dir ns
       | Some h \<Rightarrow> Inr (Some h))"

definition ww_open :: "(bytes \<Rightarrow> u32) \<Rightarrow> u64 \<Rightarrow> wal_config \<Rightarrow> wal_dir \<Rightarrow> (wal_writer \<times> wal_dir) flush_result" where
  "ww_open crc now config dir =
     (let segment_numbers = discover_segments dir
      in if segment_numbers = [] then
           bind_res (sw_create now dir 1 1) (\<lambda>(writer, dir1).
             Inr (\<lparr>ww_config = config, ww_current_writer = writer, ww_next_sequence_number = 1,
                   ww_segment_numbers = [1]\<rparr>, dir1))
         else
           bind_res (scan_highest crc dir (rev segment_numbers)) (\<lambda>highest_seq.
             let next_seq = (case highest_seq of None \<Rightarrow> 1 | Some s \<Rightarrow> s + 1);
                 new_seg_num = last segment_numbers + 1
             in bind_res (sw_create now dir new_seg_num next_seq) (\<lambda>(writer, dir1).
                  Inr (\<lparr>ww_config = config, ww_current_writer = writer, ww_next_sequence_number = next_seq,
                        ww_segment_numbers = segment_numbers @ [new_seg_num]\<rparr>, dir1))))"

definition ww_rotate :: "u64 \<Rightarrow> wal_dir \<Rightarrow> wal_writer \<Rightarrow> (wal_writer \<times> wal_dir) flush_result" where
  "ww_rotate now dir w =
     (let new_seg_num = sw_segment_number (ww_current_writer w) + 1
      in bind_res (sw_create now dir new_seg_num (ww_next_sequence_number w)) (\<lambda>(new_writer, dir1).
           Inr (w\<lparr>ww_current_writer := new_writer,
                  ww_segment_numbers := ww_segment_numbers w @ [new_seg_num]\<rparr>, dir1)))"

definition rotate_if_full :: "u64 \<Rightarrow> wal_dir \<Rightarrow> wal_writer \<Rightarrow> (wal_writer \<times> wal_dir) flush_result" where
  "rotate_if_full now dir w =
     (if segment_size_target (ww_config w) \<le> sw_current_size (ww_current_writer w)
      then ww_rotate now dir w else Inr (w, dir))"

definition ww_append ::
  "(bytes \<Rightarrow> u32) \<Rightarrow> u64 \<Rightarrow> wal_dir \<Rightarrow> wal_writer \<Rightarrow> wal_entry \<Rightarrow> (wal_writer \<times> wal_dir) flush_result" where
  "ww_append crc now dir w e =
     (let e1 = e\<lparr>we_sequence_number := ww_next_sequence_number w\<rparr>;
          w1 = w\<lparr>ww_next_sequence_number := ww_next_sequence_number w + 1\<rparr>
      in case sw_append crc dir (ww_current_writer w1) e1 of
           (_, sw, dir1) \<Rightarrow> rotate_if_full now dir1 (w1\<lparr>ww_current_writer := sw\<rparr>))"

fun assign_sequences :: "u64 \<Rightarrow> wal_entry list \<Rightarrow> wal_entry list \<times> u64" where
  "assign_sequences s [] = ([], s)"
| "assign_sequences s (e # es) =
     (case assign_sequences (s + 1) es of (es', s') \<Rightarrow> (e\<lparr>we_sequence_number := s\<rparr> # es', s'))"

definition ww_append_batch ::
  "(bytes \<Rightarrow> u32) \<Rightarrow> u64 \<Rightarrow> wal_dir \<Rightarrow> wal_writer \<Rightarrow> wal_entry list \<Rightarrow> (wal_writer \<times> wal_dir) flush_result" where
  "ww_append_batch crc now dir w es =
     (case assign_sequences (ww_next_sequence_number w) es of (es1, next) \<Rightarrow>
        case sw_append_batch crc dir (ww_current_writer w) es1 of (sw, dir1) \<Rightarrow>
          rotate_if_full now dir1
            (w\<lparr>ww_next_sequence_number := next, ww_current_writer := sw\<rparr>))"

definition ww_remove_segment :: "wal_dir \<Rightarrow> wal_writer \<Rightarrow> u64 \<Rightarrow> (wal_writer \<times> wal_dir) flush_result" where
  "ww_remove_segment dir w n =
     (if n = sw_segment_number (ww_current_writer w)
      then Inl (InvalidArgument ''cannot remove the active segment'')
      else bind_res (remove_file dir (segment_filename n)) (\<lambda>dir1.
        Inr (w\<lparr>ww_segment_numbers := filter (\<lambda>m. m \<noteq> n) (ww_segment_numbers w)\<rparr>, dir1)))"

definition ww_total_size :: "wal_dir \<Rightarrow> wal_writer \<Rightarrow> u64" where
  "ww_total_size dir w =
     fold (\<lambda>n total. case map_of dir (segment_filename n) of
             Some data \<Rightarrow> total + of_nat (length data) | None \<Rightarrow> total) (ww_segment_numbers w) 0"

section \<open>Replay (wal\_reader.rs)\<close>

fun collect_res :: "'a flush_result list \<Rightarrow> 'a list flush_result" where
  "collect_res [] = Inr []"
| "collect_res (r # rs) = bind_res r (\<lambda>x. bind_res (collect_res rs) (\<lambda>xs. Inr (x # xs)))"

fun replay_all :: "(bytes \<Rightarrow> u32) \<Rightarrow> wal_dir \<Rightarrow> u64 list \<Rightarrow> wal_entry list flush_result" where
  "replay_all crc dir [] = Inr []"
| "replay_all crc dir (n # ns) =
     bind_res (reader_open dir n) (\<lambda>r.
     bind_res (collect_res (segment_entries crc r)) (\<lambda>es.
     bind_res (replay_all crc dir ns) (\<lambda>rest. Inr (es @ rest))))"

text \<open>The test that lets a segment be skipped: the next segment opens and starts at or below the bound.\<close>

definition skip_segment :: "wal_dir \<Rightarrow> u64 \<Rightarrow> u64 list \<Rightarrow> bool" where
  "skip_segment dir min_sequence later =
     (case later of [] \<Rightarrow> False
      | n' # _ \<Rightarrow> (case reader_open dir n' of
                    Inr r \<Rightarrow> sh_starting_sequence_number (sr_header r) \<le> min_sequence
                  | Inl _ \<Rightarrow> False))"

fun replay_from :: "(bytes \<Rightarrow> u32) \<Rightarrow> wal_dir \<Rightarrow> u64 \<Rightarrow> u64 list \<Rightarrow> wal_entry list flush_result" where
  "replay_from crc dir min_sequence [] = Inr []"
| "replay_from crc dir min_sequence (n # ns) =
     (if skip_segment dir min_sequence ns then replay_from crc dir min_sequence ns
      else bind_res (reader_open dir n) (\<lambda>r.
        bind_res (collect_res (segment_entries crc r)) (\<lambda>es.
        bind_res (replay_from crc dir min_sequence ns) (\<lambda>rest.
          Inr (filter (\<lambda>e. min_sequence \<le> we_sequence_number e) es @ rest)))))"

text \<open>Opening a reader fails when the partition directory does not exist (\<open>None\<close>). The recovery
  functions are called on a directory that exists: \<^verbatim>\<open>WalWriter::open\<close> creates it, and the recovery of
  a partition returns early when there is none.\<close>

definition wal_reader_open :: "wal_dir option \<Rightarrow> u64 list flush_result" where
  "wal_reader_open partition_dir =
     (case partition_dir of
        None \<Rightarrow> Inl (Io ''WAL directory does not exist'')
      | Some dir \<Rightarrow> Inr (sort (List.map_filter (\<lambda>(n, d). parse_segment_number n) dir)))"

definition wal_recover :: "(bytes \<Rightarrow> u32) \<Rightarrow> wal_dir \<Rightarrow> wal_entry list flush_result" where
  "wal_recover crc dir = bind_res (wal_reader_open (Some dir)) (replay_all crc dir)"

definition wal_recover_from :: "(bytes \<Rightarrow> u32) \<Rightarrow> wal_dir \<Rightarrow> u64 \<Rightarrow> wal_entry list flush_result" where
  "wal_recover_from crc dir min_sequence =
     bind_res (wal_reader_open (Some dir)) (replay_from crc dir min_sequence)"

section \<open>The streaming reader\<close>

record wal_entry_iterator =
  it_segment_numbers :: "u64 list"
  it_segment_index :: nat
  it_current_reader :: "segment_reader option"
  it_min_sequence :: "u64 option"
  it_done :: bool

definition wal_iter_new :: "u64 list \<Rightarrow> u64 option \<Rightarrow> wal_entry_iterator" where
  "wal_iter_new segs m = \<lparr>it_segment_numbers = segs, it_segment_index = 0, it_current_reader = None,
     it_min_sequence = m, it_done = False\<rparr>"

definition it_left :: "wal_entry_iterator \<Rightarrow> nat" where
  "it_left it = length (it_segment_numbers it) - it_segment_index it"

function open_next_segment :: "wal_dir \<Rightarrow> wal_entry_iterator \<Rightarrow> (bool \<times> wal_entry_iterator) flush_result" where
  "open_next_segment dir it =
     (if it_segment_index it < length (it_segment_numbers it) then
        (if (case it_min_sequence it of
               Some m \<Rightarrow> skip_segment dir m (drop (Suc (it_segment_index it)) (it_segment_numbers it))
             | None \<Rightarrow> False)
         then open_next_segment dir (it\<lparr>it_segment_index := it_segment_index it + 1\<rparr>)
         else bind_res (reader_open dir (it_segment_numbers it ! it_segment_index it)) (\<lambda>r.
           Inr (True, it\<lparr>it_current_reader := Some r, it_segment_index := it_segment_index it + 1\<rparr>)))
      else Inr (False, it))"
  by pat_completeness auto
termination
  by (relation "measure (\<lambda>(dir, it). it_left it)") (auto simp: it_left_def)

declare open_next_segment.simps [simp del]

lemma open_next_segment_left:
  "open_next_segment dir it = Inr (True, it') \<Longrightarrow> it_left it' < it_left it \<and> it_current_reader it' \<noteq> None
     \<and> it_min_sequence it' = it_min_sequence it \<and> it_done it' = it_done it
     \<and> it_segment_numbers it' = it_segment_numbers it"
proof (induction dir it arbitrary: it' rule: open_next_segment.induct)
  case (1 dir it)
  from "1.prems" "1.IH" show ?case
    by (subst (asm) open_next_segment.simps) (force simp: it_left_def split: if_splits)
qed

definition reader_left :: "segment_reader option \<Rightarrow> nat" where
  "reader_left r = (case r of None \<Rightarrow> 0 | Some r \<Rightarrow> Suc (length (sr_data r) - sr_position r))"

function wal_iter_next ::
  "(bytes \<Rightarrow> u32) \<Rightarrow> wal_dir \<Rightarrow> wal_entry_iterator \<Rightarrow> wal_entry flush_result option \<times> wal_entry_iterator" where
  "wal_iter_next crc dir it =
     (if it_done it then (None, it)
      else case it_current_reader it of
        None \<Rightarrow>
          (case open_next_segment dir it of
             Inr (True, it1) \<Rightarrow> wal_iter_next crc dir it1
           | Inr (False, it1) \<Rightarrow> (None, it1)
           | Inl err \<Rightarrow> (Some (Inl err), it\<lparr>it_done := True\<rparr>))
      | Some reader \<Rightarrow>
          (case next_entry crc reader of
             Inr (Some e, reader') \<Rightarrow>
               (let it1 = it\<lparr>it_current_reader := Some reader'\<rparr>
                in if (case it_min_sequence it of Some m \<Rightarrow> we_sequence_number e < m | None \<Rightarrow> False)
                   then wal_iter_next crc dir it1 else (Some (Inr e), it1))
           | Inr (None, reader') \<Rightarrow> wal_iter_next crc dir (it\<lparr>it_current_reader := None\<rparr>)
           | Inl err \<Rightarrow> (Some (Inl err), it\<lparr>it_done := True\<rparr>)))"
  by pat_completeness auto
termination
  by (relation "measures [\<lambda>(crc, dir, it). it_left it, \<lambda>(crc, dir, it). reader_left (it_current_reader it)]")
    (auto simp: reader_left_def it_left_def [of "wal_entry_iterator.it_current_reader_update f i" for f i]
      dest!: open_next_segment_left next_entry_progress simp flip: it_left_def)

declare wal_iter_next.simps [simp del]

text \<open>What the items still to come amount to, in terms of the batch functions.\<close>

definition it_keep :: "u64 option \<Rightarrow> wal_entry \<Rightarrow> bool" where
  "it_keep m e = (case m of Some m \<Rightarrow> m \<le> we_sequence_number e | None \<Rightarrow> True)"

definition it_replay :: "(bytes \<Rightarrow> u32) \<Rightarrow> wal_dir \<Rightarrow> u64 option \<Rightarrow> u64 list \<Rightarrow> wal_entry list flush_result" where
  "it_replay crc dir m segs =
     (case m of Some m \<Rightarrow> replay_from crc dir m segs | None \<Rightarrow> replay_all crc dir segs)"

definition it_pending :: "(bytes \<Rightarrow> u32) \<Rightarrow> wal_dir \<Rightarrow> wal_entry_iterator \<Rightarrow> wal_entry list flush_result" where
  "it_pending crc dir it =
     (let m = it_min_sequence it;
          later = it_replay crc dir m (drop (it_segment_index it) (it_segment_numbers it))
      in if it_done it then Inr []
         else case it_current_reader it of
           None \<Rightarrow> later
         | Some r \<Rightarrow> bind_res (collect_res (segment_entries crc r)) (\<lambda>es.
                      bind_res later (\<lambda>rest. Inr (filter (it_keep m) es @ rest))))"

lemma it_keep_simps:
  "it_keep None = (\<lambda>_. True)" "it_keep (Some m) = (\<lambda>e. m \<le> we_sequence_number e)"
  by (auto simp: it_keep_def)

lemma it_replay_simps:
  "it_replay crc dir m [] = Inr []"
  "it_replay crc dir m (n # ns) =
     (if (case m of Some m \<Rightarrow> skip_segment dir m ns | None \<Rightarrow> False) then it_replay crc dir m ns
      else bind_res (reader_open dir n) (\<lambda>r.
        bind_res (collect_res (segment_entries crc r)) (\<lambda>es.
        bind_res (it_replay crc dir m ns) (\<lambda>rest. Inr (filter (it_keep m) es @ rest)))))"
  by (simp_all add: it_replay_def it_keep_simps split: option.split)

lemma open_next_segment_pending:
  assumes "it_current_reader it = None" and "\<not> it_done it"
  shows "it_pending crc dir it =
    (case open_next_segment dir it of
       Inr (True, it1) \<Rightarrow> it_pending crc dir it1
     | Inr (False, it1) \<Rightarrow> Inr []
     | Inl err \<Rightarrow> Inl err)"
  using assms
proof (induction dir it rule: open_next_segment.induct)
  case (1 dir it)
  let ?i = "it_segment_index it" and ?segs = "it_segment_numbers it"
  show ?case
  proof (cases "?i < length ?segs")
    case False
    then show ?thesis
      using "1.prems" by (simp add: open_next_segment.simps [of dir it] it_pending_def it_replay_simps)
  next
    case True
    then have d: "drop ?i ?segs = ?segs ! ?i # drop (Suc ?i) ?segs" by (simp add: Cons_nth_drop_Suc)
    show ?thesis
    proof (cases "case it_min_sequence it of Some m \<Rightarrow> skip_segment dir m (drop (Suc ?i) ?segs) | None \<Rightarrow> False")
      case skip: True
      then have "it_pending crc dir it = it_pending crc dir (it\<lparr>it_segment_index := ?i + 1\<rparr>)"
        using "1.prems" by (simp add: it_pending_def d it_replay_simps Let_def)
      then show ?thesis
        using "1.IH" [OF True skip] "1.prems" skip True
        by (simp add: open_next_segment.simps [of dir it])
    next
      case noskip: False
      then show ?thesis
        using "1.prems" True
        by (cases "reader_open dir (?segs ! ?i)")
          (simp_all add: open_next_segment.simps [of dir it] it_pending_def d it_replay_simps)
    qed
  qed
qed

lemma collect_segment_entries:
  "collect_res (segment_entries crc r) =
     (case next_entry crc r of
        Inr (Some e, r') \<Rightarrow> bind_res (collect_res (segment_entries crc r')) (\<lambda>es. Inr (e # es))
      | Inr (None, r') \<Rightarrow> Inr []
      | Inl err \<Rightarrow> Inl err)"
  by (subst segment_entries.simps) (auto split: sum.splits prod.splits option.splits)

lemma bind_res_assoc: "bind_res (bind_res m f) g = bind_res m (\<lambda>x. bind_res (f x) g)"
  by (cases m) simp_all

lemma wal_iter_next_pending:
  "it_pending crc dir it =
    (case wal_iter_next crc dir it of
       (None, it1) \<Rightarrow> Inr []
     | (Some (Inr e), it1) \<Rightarrow> bind_res (it_pending crc dir it1) (\<lambda>es. Inr (e # es))
     | (Some (Inl err), it1) \<Rightarrow> Inl err)"
proof (induction crc dir it rule: wal_iter_next.induct)
  case (1 crc dir it)
  show ?case
  proof (cases "it_done it")
    case True
    then show ?thesis by (simp add: wal_iter_next.simps [of crc dir it] it_pending_def)
  next
    case nd: False
    show ?thesis
    proof (cases "it_current_reader it")
      case None
      show ?thesis
        using "1.IH"(1) [OF nd None] nd None
        by (subst open_next_segment_pending [OF None nd], subst wal_iter_next.simps)
          (auto split: sum.splits prod.splits bool.splits)
    next
      case (Some r)
      let ?m = "it_min_sequence it"
      let ?later = "it_replay crc dir ?m (drop (it_segment_index it) (it_segment_numbers it))"
      have pend: "it_pending crc dir it = bind_res (collect_res (segment_entries crc r)) (\<lambda>es.
          bind_res ?later (\<lambda>rest. Inr (filter (it_keep ?m) es @ rest)))"
        using nd Some by (simp add: it_pending_def Let_def)
      show ?thesis
      proof (cases "next_entry crc r")
        case (Inl err)
        then show ?thesis
          by (simp add: pend collect_segment_entries [of crc r] wal_iter_next.simps [of crc dir it] nd Some)
      next
        case (Inr p)
        obtain oe r' where p: "p = (oe, r')" by (cases p)
        show ?thesis
        proof (cases oe)
          case None
          have "it_pending crc dir (it\<lparr>it_current_reader := None\<rparr>) = ?later"
            using nd by (simp add: it_pending_def Let_def)
          moreover have "bind_res ?later Inr = ?later" by (cases ?later) simp_all
          ultimately show ?thesis
            using "1.IH"(2) [OF nd Some Inr p [symmetric] None] Inr p None
            by (simp add: pend collect_segment_entries [of crc r] wal_iter_next.simps [of crc dir it] nd Some)
        next
          case e: (Some e)
          let ?it1 = "it\<lparr>it_current_reader := Some r'\<rparr>"
          have k: "it_keep ?m e \<longleftrightarrow> \<not> (case ?m of Some m \<Rightarrow> we_sequence_number e < m | None \<Rightarrow> False)"
            by (auto simp: it_keep_def split: option.splits)
          have pend1: "it_pending crc dir ?it1 = bind_res (collect_res (segment_entries crc r')) (\<lambda>es.
              bind_res ?later (\<lambda>rest. Inr (filter (it_keep ?m) es @ rest)))"
            using nd by (simp add: it_pending_def Let_def)
          show ?thesis
            using "1.IH"(3) [OF nd Some Inr p [symmetric] e refl] Inr p e
            by (cases "it_keep ?m e")
              (simp_all add: pend pend1 collect_segment_entries [of crc r] wal_iter_next.simps [of crc dir it]
                nd Some bind_res_assoc k)
        qed
      qed
    qed
  qed
qed

lemma wal_iter_next_progress:
  "wal_iter_next crc dir it = (Some (Inr e), it1) \<Longrightarrow>
     ((it_left it1, reader_left (it_current_reader it1)), (it_left it, reader_left (it_current_reader it)))
       \<in> less_than <*lex*> less_than"
proof (induction crc dir it arbitrary: rule: wal_iter_next.induct)
  case (1 crc dir it)
  have left: "it_left (it\<lparr>it_current_reader := x\<rparr>) = it_left it" for x by (simp add: it_left_def)
  have nd: "\<not> it_done it" using "1.prems" by (auto simp: wal_iter_next.simps [of crc dir it])
  show ?case
  proof (cases "it_current_reader it")
    case None
    then show ?thesis
      using "1.prems" "1.IH"(1) [OF nd None] nd
      by (subst (asm) wal_iter_next.simps)
        (fastforce split: sum.splits bool.splits dest: open_next_segment_left)
  next
    case (Some r)
    then show ?thesis
      using "1.prems" "1.IH"(2,3) [OF nd Some] nd left
      by (subst (asm) wal_iter_next.simps)
        (fastforce simp: reader_left_def Let_def split: sum.splits prod.splits option.splits if_splits
          dest: next_entry_progress)
  qed
qed

text \<open>Everything the iterator yields.\<close>

function wal_iter_items :: "(bytes \<Rightarrow> u32) \<Rightarrow> wal_dir \<Rightarrow> wal_entry_iterator \<Rightarrow> wal_entry flush_result list" where
  "wal_iter_items crc dir it =
     (case wal_iter_next crc dir it of
        (None, _) \<Rightarrow> []
      | (Some (Inr e), it1) \<Rightarrow> Inr e # wal_iter_items crc dir it1
      | (Some (Inl err), it1) \<Rightarrow> [Inl err])"
  by pat_completeness auto
termination
  by (relation "inv_image (less_than <*lex*> less_than)
        (\<lambda>(crc, dir, it). (it_left it, reader_left (it_current_reader it)))")
    (auto dest: wal_iter_next_progress [OF sym] simp del: in_lex_prod)

declare wal_iter_items.simps [simp del]

lemma wal_iter_items_pending: "collect_res (wal_iter_items crc dir it) = it_pending crc dir it"
proof (induction crc dir it rule: wal_iter_items.induct)
  case (1 crc dir it)
  then show ?case
    by (subst wal_iter_items.simps, subst wal_iter_next_pending)
      (auto split: prod.splits option.splits sum.splits)
qed

text \<open>Streaming and batch replay agree. Collecting the items of \<open>iter\<close> (resp. \<open>iter_from\<close>)
  over any directory, up to the first error, gives exactly what \<open>replay_all\<close> (resp.
  \<open>replay_from\<close>) returns, with the same error in the same cases.\<close>

lemma wal_iter_replay:
  "collect_res (wal_iter_items crc dir (wal_iter_new segs None)) = replay_all crc dir segs
   \<and> collect_res (wal_iter_items crc dir (wal_iter_new segs (Some m))) = replay_from crc dir m segs"
  by (simp add: wal_iter_items_pending it_pending_def wal_iter_new_def it_replay_def)

end
