(* ===== verification/Wal_Log.thy ===== *)
theory Wal_Log
  imports Wal_Writer
begin

text \<open>
  What the log files mean. A partition's log is a list of segments (a header and its entries);
  \<open>wal_repr\<close> says that a directory reads as a log, \<open>log_chain\<close> that sequence numbers are consecutive
  within a segment and grow across segments, \<open>wal_inv\<close> is the writer's invariant. Every operation
  of the writer is shown to act on the abstract log as intended, and replay to return it.
\<close>

type_synonym wal_log = "(segment_header \<times> wal_entry list) list"

definition reads_as :: "(bytes \<Rightarrow> u32) \<Rightarrow> bytes \<Rightarrow> segment_header \<Rightarrow> wal_entry list \<Rightarrow> bool" where
  "reads_as crc data h es \<longleftrightarrow>
     (\<exists>r. sr_open data = Inr r \<and> sr_header r = h \<and> segment_entries crc r = map Inr es)"

definition seg_no :: "segment_header \<times> wal_entry list \<Rightarrow> u64" where
  "seg_no s = sh_segment_number (fst s)"

definition seg_start :: "segment_header \<times> wal_entry list \<Rightarrow> nat" where
  "seg_start s = unat (sh_starting_sequence_number (fst s))"

definition seg_ok :: "(bytes \<Rightarrow> u32) \<Rightarrow> wal_dir \<Rightarrow> segment_header \<times> wal_entry list \<Rightarrow> bool" where
  "seg_ok crc dir s \<longleftrightarrow> (\<exists>data. map_of dir (segment_filename (seg_no s)) = Some data
     \<and> reads_as crc data (fst s) (snd s))"

definition wal_repr :: "(bytes \<Rightarrow> u32) \<Rightarrow> wal_dir \<Rightarrow> wal_log \<Rightarrow> bool" where
  "wal_repr crc dir log \<longleftrightarrow>
     distinct (map fst dir) \<and> discover_segments dir = map seg_no log \<and> distinct (map seg_no log)
     \<and> (\<forall>s \<in> set log. seg_ok crc dir s)"

fun log_chain :: "nat \<Rightarrow> wal_log \<Rightarrow> nat \<Rightarrow> bool" where
  "log_chain lo [] hi = (lo \<le> hi)"
| "log_chain lo (s # log) hi =
     (lo \<le> seg_start s
      \<and> map (unat \<circ> we_sequence_number) (snd s) = [seg_start s ..< seg_start s + length (snd s)]
      \<and> log_chain (seg_start s + length (snd s)) log hi)"

definition log_entries :: "wal_log \<Rightarrow> wal_entry list" where
  "log_entries log = concat (map snd log)"

definition wal_inv :: "(bytes \<Rightarrow> u32) \<Rightarrow> wal_dir \<Rightarrow> wal_writer \<Rightarrow> wal_log \<Rightarrow> bool" where
  "wal_inv crc dir w log \<longleftrightarrow>
     wal_repr crc dir log \<and> log_chain 0 log (unat (ww_next_sequence_number w)) \<and> log \<noteq> []
     \<and> (\<forall>s \<in> set log. seg_no s \<in> set (ww_segment_numbers w))
     \<and> sw_segment_number (ww_current_writer w) = seg_no (last log)
     \<and> sw_path (ww_current_writer w) = segment_filename (seg_no (last log))
     \<and> map_of dir (segment_filename (seg_no (last log))) = Some (segment_file crc (fst (last log)) (snd (last log)))
     \<and> (\<forall>e \<in> set (snd (last log)). wal_entry_fits e)
     \<and> seg_start (last log) + length (snd (last log)) = unat (ww_next_sequence_number w)"

section \<open>Replay returns the log\<close>

lemma wal_reader_open_discover: "wal_reader_open (Some dir) = Inr (discover_segments dir)"
  by (simp add: wal_reader_open_def discover_segments_def)

lemma wal_recover_discover: "wal_recover crc dir = replay_all crc dir (discover_segments dir)"
  by (simp add: wal_recover_def wal_reader_open_discover)

lemma wal_recover_from_discover:
  "wal_recover_from crc dir min_sequence = replay_from crc dir min_sequence (discover_segments dir)"
  by (simp add: wal_recover_from_def wal_reader_open_discover)

lemma reads_as_cut:
  assumes "\<forall>e \<in> set es. wal_entry_fits e" and "32 \<le> n"
  shows "reads_as crc (take n (segment_file crc h es)) h (whole_entries (n - 32) es)"
proof -
  let ?data = "take n (segment_file crc h es)"
  let ?r = "\<lparr>sr_data = ?data, sr_header = h, sr_position = 32\<rparr>"
  have data: "?data = sh_encode h @ take (n - 32) (concat (map (wal_encode crc) es))"
    using assms(2) by (simp add: segment_file_def)
  have "sr_open ?data = Inr ?r" by (rule sr_open_segment) (simp_all add: data)
  moreover have "segment_entries crc ?r = map Inr (whole_entries (n - 32) es)"
    by (rule segment_entries_truncated [where pre = "sh_encode h"]) (use assms data in simp_all)
  ultimately show ?thesis by (auto simp: reads_as_def)
qed

lemma reads_as_file:
  assumes "\<forall>e \<in> set es. wal_entry_fits e"
  shows "reads_as crc (segment_file crc h es) h es"
proof -
  have "length (segment_file crc h es) = 32 + sum_list (map total_size es)"
    using assms by (simp add: segment_file_def length_concat_encode)
  then show ?thesis
    using reads_as_cut [OF assms, of "32 + sum_list (map total_size es)" crc h] by (simp add: whole_entries_all)
qed

lemma collect_res_Inr [simp]: "collect_res (map Inr xs) = Inr xs"
  by (induction xs) simp_all

lemma reader_open_repr:
  assumes "wal_repr crc dir log" and "s \<in> set log"
  obtains r where "reader_open dir (seg_no s) = Inr r" and "sr_header r = fst s"
    and "segment_entries crc r = map Inr (snd s)"
  using assms by (fastforce simp: wal_repr_def seg_ok_def reads_as_def reader_open_def read_file_def)

lemma replay_all_repr:
  assumes "wal_repr crc dir log" and "set part \<subseteq> set log"
  shows "replay_all crc dir (map seg_no part) = Inr (log_entries part)"
  using assms(2)
proof (induction part)
  case (Cons s part)
  then obtain r where "reader_open dir (seg_no s) = Inr r" "segment_entries crc r = map Inr (snd s)"
    using reader_open_repr [OF assms(1)] by (metis list.set_intros(1) subsetD)
  with Cons show ?case by (simp add: log_entries_def)
qed (simp add: log_entries_def)

lemma log_chain_le: "log_chain lo log hi \<Longrightarrow> lo \<le> hi"
  by (induction lo log hi rule: log_chain.induct) simp_all

lemma segment_seq_bounds:
  assumes "map (unat \<circ> we_sequence_number) es = [a ..< b]" and "e \<in> set es"
  shows "a \<le> unat (we_sequence_number e) \<and> unat (we_sequence_number e) < b"
proof -
  have "unat (we_sequence_number e) \<in> set (map (unat \<circ> we_sequence_number) es)"
    using assms(2) by simp
  then show ?thesis unfolding assms(1) by simp
qed

lemma log_chain_seqs:
  "log_chain lo log hi \<Longrightarrow> e \<in> set (log_entries log) \<Longrightarrow>
     lo \<le> unat (we_sequence_number e) \<and> unat (we_sequence_number e) < hi"
proof (induction lo log hi rule: log_chain.induct)
  case (2 lo s log hi)
  let ?m = "seg_start s + length (snd s)"
  have hi: "?m \<le> hi" using "2.prems"(1) by (auto dest: log_chain_le)
  show ?case
  proof (cases "e \<in> set (snd s)")
    case True
    then show ?thesis using "2.prems"(1) hi segment_seq_bounds [OF _ True] by fastforce
  next
    case False
    then show ?thesis using "2" by (auto simp: log_entries_def)
  qed
qed (simp add: log_entries_def)

lemma log_chain_starts:
  "log_chain lo log hi \<Longrightarrow> s \<in> set log \<Longrightarrow> lo \<le> seg_start s \<and> seg_start s + length (snd s) \<le> hi"
  by (induction lo log hi rule: log_chain.induct) (auto dest: log_chain_le)

lemma replay_from_repr:
  assumes "wal_repr crc dir log" and "set part \<subseteq> set log" and "log_chain lo part hi"
  shows "replay_from crc dir m (map seg_no part)
    = Inr (filter (\<lambda>e. m \<le> we_sequence_number e) (log_entries part))"
  using assms(2,3)
proof (induction part arbitrary: lo)
  case (Cons s part)
  have IH: "replay_from crc dir m (map seg_no part)
      = Inr (filter (\<lambda>e. m \<le> we_sequence_number e) (log_entries part))"
    using Cons by auto
  show ?case
  proof (cases "skip_segment dir m (map seg_no part)")
    case True
    then obtain s' rest where part: "part = s' # rest" by (cases part) (auto simp: skip_segment_def)
    obtain r where r: "reader_open dir (seg_no s') = Inr r" "sr_header r = fst s'"
      using reader_open_repr [OF assms(1)] Cons.prems(1) part by (metis list.set_intros subsetD)
    have "sh_starting_sequence_number (fst s') \<le> m" using True r by (simp add: skip_segment_def part)
    then have "seg_start s' \<le> unat m" by (simp add: seg_start_def word_le_nat_alt)
    moreover have "seg_start s + length (snd s) \<le> seg_start s'" using Cons.prems(2) part by simp
    moreover have "unat (we_sequence_number e) < seg_start s + length (snd s)" if "e \<in> set (snd s)" for e
      using segment_seq_bounds [OF _ that] Cons.prems(2) by fastforce
    ultimately have "filter (\<lambda>e. m \<le> we_sequence_number e) (snd s) = []"
      by (fastforce simp: filter_empty_conv word_le_nat_alt)
    with True IH show ?thesis by (simp add: log_entries_def)
  next
    case False
    obtain r where "reader_open dir (seg_no s) = Inr r" "segment_entries crc r = map Inr (snd s)"
      using reader_open_repr [OF assms(1)] Cons.prems(1) by (metis list.set_intros(1) subsetD)
    with False IH show ?thesis by (simp add: log_entries_def)
  qed
qed (simp add: log_entries_def)

section \<open>Creating a segment\<close>

lemma map_of_write_all:
  "map_of (write_all dir name data) n = map_option (\<lambda>d. if n = name then d @ data else d) (map_of dir n)"
  by (induction dir) (auto simp: write_all_def)

lemma fst_write_all [simp]: "map fst (write_all dir name data) = map fst dir"
  by (simp add: write_all_def comp_def split_def)

lemma map_filter_fst: "List.map_filter (\<lambda>(n, d). f n) xs = List.map_filter f (map fst xs)"
  by (induction xs) (auto simp: List.map_filter_simps split: option.split)

lemma discover_write_all [simp]: "discover_segments (write_all dir name data) = discover_segments dir"
  by (simp add: discover_segments_def map_filter_fst)

lemma sort_snoc: "\<forall>x \<in> set xs. x \<le> a \<Longrightarrow> sort (xs @ [a]) = sort xs @ [a]" for a :: "'a :: linorder"
  by (rule properties_for_sort) (simp_all add: sorted_append)

lemma map_filter_append: "List.map_filter f (xs @ ys) = List.map_filter f xs @ List.map_filter f ys"
  by (induction xs) (auto simp: List.map_filter_simps split: option.splits)

lemma set_discover: "set (discover_segments dir) = {n. \<exists>f \<in> set (map fst dir). parse_segment_number f = Some n}"
  by (auto simp: discover_segments_def List.map_filter_def image_iff split: prod.splits) force+

lemma seg_ok_cong:
  "map_of dir' (segment_filename (seg_no s)) = map_of dir (segment_filename (seg_no s)) \<Longrightarrow>
     seg_ok crc dir' s = seg_ok crc dir s"
  by (simp add: seg_ok_def)

lemma seg_file_in:
  assumes "wal_repr crc dir log" and "s \<in> set log"
  shows "segment_filename (seg_no s) \<in> set (map fst dir)"
proof -
  obtain data where "map_of dir (segment_filename (seg_no s)) = Some data"
    using assms by (auto simp: wal_repr_def seg_ok_def)
  then show ?thesis by (force dest: map_of_SomeD)
qed

lemma sw_create_repr:
  fixes s0 now :: u64
  assumes repr: "wal_repr crc dir log" and n: "unat n < 10 ^ 12" and gt: "\<forall>s \<in> set log. seg_no s < n"
  defines "h \<equiv> \<lparr>sh_segment_number = n, sh_starting_sequence_number = s0, sh_created_at_ms = now\<rparr>"
  shows "\<exists>dir'. sw_create now dir n s0 = Inr (\<lparr>sw_segment_number = n, sw_current_size = 32,
             sw_entry_count = 0, sw_path = segment_filename n\<rparr>, dir')
    \<and> wal_repr crc dir' (log @ [(h, [])])
    \<and> map_of dir' (segment_filename n) = Some (segment_file crc h [])
    \<and> (\<forall>f. f \<noteq> segment_filename n \<longrightarrow> map_of dir' f = map_of dir f)"
proof -
  let ?f = "segment_filename n"
  let ?dir = "write_all (dir @ [(?f, [])]) ?f (sh_encode h)"
  have p: "parse_segment_number ?f = Some n" by (rule parse_segment_filename [OF n])
  have d: "discover_segments dir = map seg_no log" and dist: "distinct (map fst dir)"
    using repr by (auto simp: wal_repr_def)
  have "n \<notin> set (discover_segments dir)" using gt d by auto
  then have new: "?f \<notin> set (map fst dir)" using p set_discover [of dir] by blast
  then have none: "map_of dir ?f = None" by (simp add: map_of_eq_None_iff)
  have create: "sw_create now dir n s0 = Inr (\<lparr>sw_segment_number = n, sw_current_size = 32,
             sw_entry_count = 0, sw_path = ?f\<rparr>, ?dir)"
    using none by (simp add: sw_create_def create_new_def h_def SEGMENT_HEADER_SIZE_def Let_def)
  have other: "\<forall>f. f \<noteq> ?f \<longrightarrow> map_of ?dir f = map_of dir f"
    by (auto simp: map_of_write_all map_add_def option.map_ident split: option.splits)
  have cur: "map_of ?dir ?f = Some (segment_file crc h [])"
    using none by (simp add: map_of_write_all map_add_def segment_file_def)
  have "discover_segments ?dir = discover_segments dir @ [n]"
  proof -
    have "set (List.map_filter (\<lambda>(n, d). parse_segment_number n) dir) = set (discover_segments dir)"
      by (simp add: discover_segments_def)
    then have "\<forall>x \<in> set (List.map_filter (\<lambda>(n, d). parse_segment_number n) dir). x \<le> n"
      using gt by (auto simp: d less_imp_le)
    then show ?thesis
      using p by (simp add: discover_segments_def [of "dir @ _"] discover_segments_def [of dir]
          map_filter_append List.map_filter_simps sort_snoc)
  qed
  moreover have nf: "seg_no s \<noteq> n \<and> segment_filename (seg_no s) \<noteq> ?f" if "s \<in> set log" for s
    using seg_file_in [OF repr that] new by (metis (no_types))
  moreover have "seg_ok crc ?dir s" if s: "s \<in> set log" for s
  proof -
    have "map_of ?dir (segment_filename (seg_no s)) = map_of dir (segment_filename (seg_no s))"
      using nf [OF s] other by blast
    from seg_ok_cong [OF this] show ?thesis using repr s by (simp add: wal_repr_def)
  qed
  moreover have "seg_ok crc ?dir (h, [])"
    using cur reads_as_file [of "[]" crc h] by (simp add: seg_ok_def seg_no_def h_def)
  moreover have "seg_no (h, []) = n" by (simp add: seg_no_def h_def)
  moreover have "n \<notin> seg_no ` set log" using gt by auto
  ultimately have "wal_repr crc ?dir (log @ [(h, [])])"
    using repr new dist by (auto simp: wal_repr_def)
  with create cur other show ?thesis by blast
qed

section \<open>Appending\<close>

lemma segment_filename_inject [simp]: "segment_filename m = segment_filename n \<longleftrightarrow> m = n"
  by (auto simp: segment_filename_def word_unat_eq_iff dest!: pad0_inject)

lemma log_chain_snoc:
  "log_chain lo (log @ [s]) hi \<longleftrightarrow>
     (\<exists>mid. log_chain lo log mid \<and> log_chain mid [s] hi)"
  by (induction lo log hi rule: log_chain.induct) (auto intro: order_refl)

lemma assign_sequences_spec:
  "unat s + length es < 2 ^ 64 \<Longrightarrow>
     (case assign_sequences s es of (es', s') \<Rightarrow>
        unat s' = unat s + length es \<and> length es' = length es
        \<and> map (unat \<circ> we_sequence_number) es' = [unat s ..< unat s + length es]
        \<and> map (we_sequence_number_update (\<lambda>_. 0)) es' = map (we_sequence_number_update (\<lambda>_. 0)) es
        \<and> ((\<forall>e \<in> set es'. wal_entry_fits e) \<longleftrightarrow> (\<forall>e \<in> set es. wal_entry_fits e)))"
proof (induction es arbitrary: s)
  case (Cons e es)
  have s1: "unat (s + 1) = unat s + 1" using Cons.prems by (subst unat_add_lem [THEN iffD1]) simp_all
  have fit: "wal_entry_fits (e\<lparr>we_sequence_number := s\<rparr>) = wal_entry_fits e"
    by (simp add: wal_entry_fits_def body_size_def)
  have upt: "[unat s ..< unat s + length (e # es)] = unat s # [unat (s + 1) ..< unat (s + 1) + length es]"
    by (simp add: s1 upt_conv_Cons del: upt_Suc)
  show ?case
    using Cons.IH [of "s + 1"] Cons.prems s1 fit unfolding upt by (auto split: prod.splits simp del: upt_Suc)
qed simp

lemma fold_encode: "fold (\<lambda>e buf. buf @ wal_encode crc e) es acc = acc @ concat (map (wal_encode crc) es)"
  by (induction es arbitrary: acc) simp_all

lemma append_last_repr:
  assumes inv: "wal_inv crc dir w log" and fits: "\<forall>e \<in> set es. wal_entry_fits e"
  defines "log' \<equiv> butlast log @ [(fst (last log), snd (last log) @ es)]"
    and "dir' \<equiv> write_all dir (sw_path (ww_current_writer w)) (concat (map (wal_encode crc) es))"
  shows "wal_repr crc dir' log'
    \<and> map_of dir' (segment_filename (seg_no (last log'))) = Some (segment_file crc (fst (last log')) (snd (last log')))"
proof -
  let ?f = "segment_filename (seg_no (last log))"
  have path: "sw_path (ww_current_writer w) = ?f" and repr: "wal_repr crc dir log" and ne: "log \<noteq> []"
    and fl: "map_of dir ?f = Some (segment_file crc (fst (last log)) (snd (last log)))"
    and old: "\<forall>e \<in> set (snd (last log)). wal_entry_fits e"
    using inv by (auto simp: wal_inv_def)
  have log: "log = butlast log @ [last log]" using ne by simp
  have last': "seg_no (last log') = seg_no (last log)" by (simp add: log'_def seg_no_def)
  have nos: "map seg_no log' = map seg_no log"
    by (subst log) (simp add: log'_def seg_no_def)
  have cur: "map_of dir' ?f = Some (segment_file crc (fst (last log)) (snd (last log) @ es))"
    using fl by (simp add: dir'_def map_of_write_all path segment_file_def)
  have "seg_no s \<noteq> seg_no (last log)" if "s \<in> set (butlast log)" for s
  proof -
    have "distinct (map seg_no (butlast log) @ [seg_no (last log)])"
      using repr log by (metis wal_repr_def list.map(1,2) map_append)
    with that show ?thesis by (auto simp: image_iff)
  qed
  then have "seg_ok crc dir' s" if "s \<in> set (butlast log)" for s
    using that repr in_set_butlastD [OF that]
    by (subst seg_ok_cong [of _ _ dir]) (auto simp: wal_repr_def dir'_def map_of_write_all path option.map_ident)
  moreover have "reads_as crc (segment_file crc (fst (last log)) (snd (last log) @ es)) (fst (last log)) (snd (last log) @ es)"
    by (rule reads_as_file) (use old fits in auto)
  then have "seg_ok crc dir' (last log')"
    using cur last' by (simp add: seg_ok_def) (simp add: log'_def)
  ultimately have "\<forall>s \<in> set log'. seg_ok crc dir' s" by (auto simp: log'_def)
  then show ?thesis
    using repr nos cur last' by (simp add: wal_repr_def dir'_def log'_def)
qed

lemma wal_repr_sorted: "wal_repr crc dir log \<Longrightarrow> sorted_wrt (<) (map seg_no log)"
  by (auto simp: wal_repr_def strict_sorted_iff discover_segments_def dest!: sym [of "sort _"])

text \<open>A segment that is deleted disappears from the log; what is left still reads as a log.\<close>

lemma log_chain_lower: "log_chain mid log hi \<Longrightarrow> lo \<le> mid \<Longrightarrow> log_chain lo log hi"
  by (cases log) auto

lemma log_chain_filter: "log_chain lo log hi \<Longrightarrow> log_chain lo (filter P log) hi"
  by (induction lo log hi rule: log_chain.induct) (auto elim: log_chain_lower)

lemma discover_remove:
  assumes "distinct (map fst dir)" and "map_of dir f = Some d" and "parse_segment_number f = Some n"
  shows "discover_segments (filter (\<lambda>(k, d). k \<noteq> f) dir) = remove1 n (discover_segments dir)"
proof -
  have in_dir: "(f, d) \<in> set dir" using assms(2) by (rule map_of_SomeD)
  let ?p = "\<lambda>(n, d). parse_segment_number n" and ?rest = "filter (\<lambda>(k, d). k \<noteq> f) dir"
  have "mset (List.map_filter ?p dir) = add_mset n (mset (List.map_filter ?p ?rest))"
    using assms(1) in_dir
  proof (induction dir)
    case (Cons x dir)
    have "filter (\<lambda>(k, d). k \<noteq> f) dir = dir" if "fst x = f"
      using Cons.prems(1) that by (auto simp: filter_id_conv) (metis fst_conv image_eqI)
    with Cons show ?case
      by (cases "fst x = f") (auto simp: List.map_filter_simps assms(3) split: option.splits prod.splits)
  qed simp
  then have "sort (List.map_filter ?p ?rest) = remove1 n (sort (List.map_filter ?p dir))"
    by (intro properties_for_sort) (simp_all add: sorted_remove1)
  then show ?thesis by (simp add: discover_segments_def)
qed

lemma map_of_remove: "map_of (filter (\<lambda>(k, d). k \<noteq> f) dir) g = (if g = f then None else map_of dir g)"
  by (induction dir) auto

lemma seg_no_le_last:
  assumes "wal_repr crc dir log" and "s \<in> set log"
  shows "seg_no s \<le> seg_no (last log)"
proof -
  obtain xs x where log: "log = xs @ [x]" using assms(2) by (cases log rule: rev_cases) auto
  then show ?thesis
    using wal_repr_sorted [OF assms(1)] assms(2) by (auto simp: sorted_wrt_append less_imp_le)
qed

lemma discover_remove_other:
  assumes "parse_segment_number f = None"
  shows "discover_segments (filter (\<lambda>(k, d). k \<noteq> f) dir) = discover_segments dir"
proof -
  have "List.map_filter (\<lambda>(n, d). parse_segment_number n) (filter (\<lambda>(k, d). k \<noteq> f) dir)
      = List.map_filter (\<lambda>(n, d). parse_segment_number n) dir"
    using assms by (induction dir) (auto simp: List.map_filter_simps split: option.splits)
  then show ?thesis by (simp add: discover_segments_def)
qed

lemma wal_repr_remove:
  assumes repr: "wal_repr crc dir log" and top: "\<forall>s \<in> set log. unat (seg_no s) < 10 ^ 12"
    and d: "map_of dir (segment_filename n) = Some d"
  shows "wal_repr crc (filter (\<lambda>(k, d). k \<noteq> segment_filename n) dir) (filter (\<lambda>s. seg_no s \<noteq> n) log)"
proof -
  let ?dir = "filter (\<lambda>(k, d). k \<noteq> segment_filename n) dir" and ?log = "filter (\<lambda>s. seg_no s \<noteq> n) log"
  have nos: "discover_segments ?dir = map seg_no ?log"
  proof (cases "unat n < 10 ^ 12")
    case True
    have "discover_segments ?dir = remove1 n (map seg_no log)"
      using discover_remove [OF _ d parse_segment_filename [OF True]] repr by (simp add: wal_repr_def)
    also have "\<dots> = map seg_no ?log"
      using repr by (simp add: wal_repr_def distinct_remove1_removeAll removeAll_filter_not_eq filter_map comp_def eq_commute)
    finally show ?thesis .
  next
    case False
    have "?log = log" using top False by (auto simp: filter_id_conv)
    moreover have "discover_segments ?dir = discover_segments dir"
      using False by (intro discover_remove_other) (simp add: segment_filename_roundtrip)
    ultimately show ?thesis using repr by (simp add: wal_repr_def)
  qed
  have "seg_ok crc ?dir s" if "s \<in> set ?log" for s
    using that repr seg_ok_cong [of ?dir s dir crc] by (auto simp: wal_repr_def map_of_remove)
  with repr nos show ?thesis by (auto simp: wal_repr_def distinct_map_filter)
qed

lemma wal_inv_remove:
  assumes inv: "wal_inv crc dir w log" and n: "n \<noteq> seg_no (last log)" "unat (seg_no (last log)) < 10 ^ 12"
  shows "wal_inv crc (case remove_file dir (segment_filename n) of Inr dir' \<Rightarrow> dir' | Inl _ \<Rightarrow> dir) w
    (filter (\<lambda>s. seg_no s \<noteq> n) log)"
proof (cases "map_of dir (segment_filename n)")
  case None
  then have "\<forall>s \<in> set log. seg_no s \<noteq> n" using inv by (auto simp: wal_inv_def wal_repr_def seg_ok_def)
  then have "filter (\<lambda>s. seg_no s \<noteq> n) log = log" by (simp add: filter_id_conv)
  with None inv show ?thesis by (simp add: remove_file_def)
next
  case (Some d)
  let ?log = "filter (\<lambda>s. seg_no s \<noteq> n) log"
  have repr: "wal_repr crc dir log" and ne: "log \<noteq> []" using inv by (auto simp: wal_inv_def)
  have "\<forall>s \<in> set log. unat (seg_no s) < 10 ^ 12"
    using seg_no_le_last [OF repr] n(2) by (fastforce simp: word_le_nat_alt)
  from wal_repr_remove [OF repr this Some]
  have "wal_repr crc (filter (\<lambda>(k, d). k \<noteq> segment_filename n) dir) ?log" .
  moreover have "last ?log = last log" "?log \<noteq> []"
    using n(1) ne by (cases log rule: rev_cases; simp)+
  ultimately show ?thesis
    using inv n(1) Some by (auto simp: wal_inv_def remove_file_def map_of_remove intro: log_chain_filter)
qed

lemma ww_rotate_inv:
  assumes inv: "wal_inv crc dir w log" and room: "unat (seg_no (last log)) + 1 < 10 ^ 12"
  shows "\<exists>w' dir' h. ww_rotate now dir w = Inr (w', dir') \<and> wal_inv crc dir' w' (log @ [(h, [])])
    \<and> ww_next_sequence_number w' = ww_next_sequence_number w \<and> ww_config w' = ww_config w
    \<and> sh_segment_number h = seg_no (last log) + 1"
proof -
  let ?n = "seg_no (last log) + 1"
  have repr: "wal_repr crc dir log" and cur: "sw_segment_number (ww_current_writer w) = seg_no (last log)"
    using inv by (auto simp: wal_inv_def)
  have n: "unat ?n = unat (seg_no (last log)) + 1"
    using room by (subst unat_add_lem [THEN iffD1]) simp_all
  have gt: "\<forall>s \<in> set log. seg_no s < ?n"
    using seg_no_le_last [OF repr] by (fastforce simp: word_less_nat_alt word_le_nat_alt n)
  from sw_create_repr [OF repr _ gt, where ?s0.0 = "ww_next_sequence_number w" and now = now] room n
  obtain dir' where c: "sw_create now dir ?n (ww_next_sequence_number w) = Inr
        (\<lparr>sw_segment_number = ?n, sw_current_size = 32, sw_entry_count = 0, sw_path = segment_filename ?n\<rparr>, dir')"
    and r: "wal_repr crc dir' (log @ [(\<lparr>sh_segment_number = ?n,
        sh_starting_sequence_number = ww_next_sequence_number w, sh_created_at_ms = now\<rparr>, [])])"
    and f: "map_of dir' (segment_filename ?n) = Some (segment_file crc \<lparr>sh_segment_number = ?n,
        sh_starting_sequence_number = ww_next_sequence_number w, sh_created_at_ms = now\<rparr> [])"
    by auto
  let ?h = "\<lparr>sh_segment_number = ?n, sh_starting_sequence_number = ww_next_sequence_number w, sh_created_at_ms = now\<rparr>"
  let ?w = "w\<lparr>ww_current_writer := \<lparr>sw_segment_number = ?n, sw_current_size = 32, sw_entry_count = 0,
      sw_path = segment_filename ?n\<rparr>, ww_segment_numbers := ww_segment_numbers w @ [?n]\<rparr>"
  have "wal_inv crc dir' ?w (log @ [(?h, [])])"
    using inv r f by (auto simp: wal_inv_def seg_no_def seg_start_def log_chain_snoc)
  moreover have "ww_rotate now dir w = Inr (?w, dir')" using c cur by (simp add: ww_rotate_def Let_def)
  ultimately show ?thesis by (intro exI [of _ ?w] exI [of _ dir'] exI [of _ ?h]) simp
qed

text \<open>The log with a batch added to its last segment.\<close>

definition log_append :: "wal_log \<Rightarrow> wal_entry list \<Rightarrow> wal_log" where
  "log_append log es = butlast log @ [(fst (last log), snd (last log) @ es)]"

lemma log_entries_append: "log \<noteq> [] \<Longrightarrow> log_entries (log_append log es) = log_entries log @ es"
  by (cases log rule: rev_cases) (simp_all add: log_append_def log_entries_def)

lemma ww_append_batch_inv:
  assumes inv: "wal_inv crc dir w log" and fits: "\<forall>e \<in> set es. wal_entry_fits e"
    and seq: "unat (ww_next_sequence_number w) + length es < 2 ^ 64"
    and room: "unat (seg_no (last log)) + 1 < 10 ^ 12"
  shows "\<exists>w' dir' log'. ww_append_batch crc now dir w es = Inr (w', dir') \<and> wal_inv crc dir' w' log'
    \<and> log_entries log' = log_entries log @ fst (assign_sequences (ww_next_sequence_number w) es)
    \<and> unat (ww_next_sequence_number w') = unat (ww_next_sequence_number w) + length es
    \<and> unat (seg_no (last log')) \<le> unat (seg_no (last log)) + 1"
proof -
  obtain es' nxt where a: "assign_sequences (ww_next_sequence_number w) es = (es', nxt)" by fastforce
  with assign_sequences_spec [OF seq] fits
  have nx: "unat nxt = unat (ww_next_sequence_number w) + length es" and l: "length es' = length es"
    and sq: "map (unat \<circ> we_sequence_number) es' = [unat (ww_next_sequence_number w) ..< unat (ww_next_sequence_number w) + length es]"
    and ft: "\<forall>e \<in> set es'. wal_entry_fits e" by auto
  let ?s = "last log"
  have ne: "log \<noteq> []" and top: "seg_start ?s + length (snd ?s) = unat (ww_next_sequence_number w)"
    and chain: "log_chain 0 (butlast log @ [?s]) (unat (ww_next_sequence_number w))"
    and old: "\<forall>e \<in> set (snd ?s). wal_entry_fits e"
    using inv by (auto simp: wal_inv_def)
  obtain sw dir1 where b: "sw_append_batch crc dir (ww_current_writer w) es' = (sw, dir1)" by fastforce
  then have sw: "sw_segment_number sw = sw_segment_number (ww_current_writer w)" "sw_path sw = sw_path (ww_current_writer w)"
    and dir1: "dir1 = write_all dir (sw_path (ww_current_writer w)) (concat (map (wal_encode crc) es'))"
    by (auto simp: sw_append_batch_def Let_def fold_encode)
  let ?w = "w\<lparr>ww_next_sequence_number := nxt, ww_current_writer := sw\<rparr>"
  let ?log = "log_append log es'"
  let ?t = "(fst ?s, snd ?s @ es')"
  obtain mid where mid: "log_chain 0 (butlast log) mid" "mid \<le> seg_start ?s"
      "map (unat \<circ> we_sequence_number) (snd ?s) = [seg_start ?s ..< seg_start ?s + length (snd ?s)]"
    using chain by (auto simp: log_chain_snoc)
  have st: "seg_start ?t = seg_start ?s" by (simp add: seg_start_def)
  have "map (unat \<circ> we_sequence_number) (snd ?t) = [seg_start ?t ..< seg_start ?t + length (snd ?t)]"
    using mid(3) sq l top upt_add_eq_append [of "seg_start ?s" "seg_start ?s + length (snd ?s)" "length es"]
    unfolding st by (simp flip: add.assoc)
  then have "log_chain mid [?t] (unat nxt)" using mid(2) nx l top unfolding st [symmetric] by simp
  then have "log_chain 0 ?log (unat nxt)" using mid(1) by (auto simp: log_append_def log_chain_snoc)
  moreover have "map seg_no ?log = map seg_no log"
    using ne by (cases log rule: rev_cases) (simp_all add: log_append_def seg_no_def)
  moreover have "seg_no (last ?log) = seg_no ?s" "seg_start (last ?log) = seg_start ?s"
    by (simp_all add: log_append_def seg_no_def seg_start_def)
  ultimately have inv1: "wal_inv crc dir1 ?w ?log"
    using inv append_last_repr [OF inv ft] sw nx l top old ft
    by (auto simp: wal_inv_def dir1 simp flip: log_append_def) (auto simp: log_append_def dest: in_set_butlastD)
  have same: "seg_no (last ?log) = seg_no ?s" by (simp add: log_append_def seg_no_def)
  have ents: "log_entries ?log = log_entries log @ es'" by (rule log_entries_append [OF ne])
  show ?thesis
  proof (cases "segment_size_target (ww_config ?w) \<le> sw_current_size (ww_current_writer ?w)")
    case False
    then have "ww_append_batch crc now dir w es = Inr (?w, dir1)"
      by (simp add: ww_append_batch_def a b rotate_if_full_def)
    with inv1 ents nx same a show ?thesis by (auto intro!: exI [of _ ?log])
  next
    case True
    have rm: "unat (seg_no (last ?log)) + 1 < 10 ^ 12" using room same by simp
    from ww_rotate_inv [OF inv1 rm, of now] obtain w' dir' h where
      r: "ww_rotate now dir1 ?w = Inr (w', dir')" "wal_inv crc dir' w' (?log @ [(h, [])])"
        "ww_next_sequence_number w' = nxt" "sh_segment_number h = seg_no ?s + 1"
      using same by auto
    have "ww_append_batch crc now dir w es = Inr (w', dir')"
      using True r(1) by (simp add: ww_append_batch_def a b rotate_if_full_def)
    moreover have "log_entries (?log @ [(h, [])]) = log_entries log @ es'"
      using ents by (simp add: log_entries_def)
    moreover have "unat (seg_no (last (?log @ [(h, [])]))) \<le> unat (seg_no ?s) + 1"
      using room r(4) by (simp add: seg_no_def [of "(h, [])"] unat_word_ariths)
    ultimately show ?thesis using r nx a
      by (intro exI [of _ w'] exI [of _ dir'] exI [of _ "?log @ [(h, [])]"]) simp
  qed
qed

lemma ww_append_is_batch: "ww_append crc now dir w e = ww_append_batch crc now dir w [e]"
  by (simp add: ww_append_def ww_append_batch_def sw_append_def sw_append_batch_def Let_def)

section \<open>Opening\<close>

lemma ww_open_fresh:
  "\<exists>w dir h. ww_open crc now config [] = Inr (w, dir) \<and> wal_inv crc dir w [(h, [])]
     \<and> ww_next_sequence_number w = 1 \<and> ww_config w = config \<and> sh_segment_number h = 1
     \<and> dom (map_of dir) = {sw_path (ww_current_writer w)}"
proof -
  let ?h = "\<lparr>sh_segment_number = 1, sh_starting_sequence_number = 1, sh_created_at_ms = now\<rparr>"
  have e: "discover_segments [] = []" by (simp add: discover_segments_def List.map_filter_simps)
  then have "wal_repr crc [] []" by (simp add: wal_repr_def)
  from sw_create_repr [OF this, of 1, where ?s0.0 = 1 and now = now] obtain dir' where
    c: "sw_create now [] 1 1 = Inr (\<lparr>sw_segment_number = 1, sw_current_size = 32, sw_entry_count = 0,
        sw_path = segment_filename 1\<rparr>, dir')"
    and r: "wal_repr crc dir' [(?h, [])]" and f: "map_of dir' (segment_filename 1) = Some (segment_file crc ?h [])"
    and other: "\<forall>f. f \<noteq> segment_filename 1 \<longrightarrow> map_of dir' f = None"
    by auto
  then have "dom (map_of dir') = {segment_filename 1}" by auto
  with c r f show ?thesis by (auto simp: ww_open_def e wal_inv_def seg_no_def seg_start_def)
qed




section \<open>Write, crash, recover\<close>

fun ww_run ::
  "(bytes \<Rightarrow> u32) \<Rightarrow> u64 \<Rightarrow> wal_dir \<Rightarrow> wal_writer \<Rightarrow> wal_entry list list \<Rightarrow> (wal_writer \<times> wal_dir) flush_result" where
  "ww_run crc now dir w [] = Inr (w, dir)"
| "ww_run crc now dir w (es # batches) =
     bind_res (ww_append_batch crc now dir w es) (\<lambda>(w', dir'). ww_run crc now dir' w' batches)"

lemma assign_sequences_append:
  "fst (assign_sequences s (xs @ ys)) = fst (assign_sequences s xs) @ fst (assign_sequences (s + of_nat (length xs)) ys)"
  by (induction xs arbitrary: s) (auto simp: split_def add.assoc add.commute [of 1])

lemma ww_run_inv:
  assumes "wal_inv crc dir w log" and "\<forall>e \<in> set (concat batches). wal_entry_fits e"
    and "unat (ww_next_sequence_number w) + length (concat batches) < 2 ^ 64"
    and "unat (seg_no (last log)) + length batches < 10 ^ 12"
  shows "\<exists>w' dir' log'. ww_run crc now dir w batches = Inr (w', dir') \<and> wal_inv crc dir' w' log'
    \<and> log_entries log' = log_entries log @ fst (assign_sequences (ww_next_sequence_number w) (concat batches))"
  using assms
proof (induction batches arbitrary: dir w log)
  case Nil
  then show ?case by auto
next
  case (Cons es batches)
  from ww_append_batch_inv [OF Cons.prems(1), of es now] Cons.prems obtain w1 dir1 log1 where
    s: "ww_append_batch crc now dir w es = Inr (w1, dir1)" "wal_inv crc dir1 w1 log1"
      "log_entries log1 = log_entries log @ fst (assign_sequences (ww_next_sequence_number w) es)"
      "unat (ww_next_sequence_number w1) = unat (ww_next_sequence_number w) + length es"
      "unat (seg_no (last log1)) \<le> unat (seg_no (last log)) + 1"
    by auto
  have n1: "ww_next_sequence_number w1 = ww_next_sequence_number w + of_nat (length es)"
    using s(4) Cons.prems(3) by (simp add: word_unat_eq_iff unat_word_ariths unat_of_nat)
  have "\<forall>e \<in> set (concat batches). wal_entry_fits e"
    "unat (ww_next_sequence_number w1) + length (concat batches) < 2 ^ 64"
    "unat (seg_no (last log1)) + length batches < 10 ^ 12"
    using Cons.prems s by auto
  from Cons.IH [OF s(2) this] show ?case using s n1 by (auto simp: assign_sequences_append)
qed

lemma wal_recover_repr: "wal_repr crc dir log \<Longrightarrow> wal_recover crc dir = Inr (log_entries log)"
  using replay_all_repr [OF _ order_refl] by (metis wal_recover_discover wal_repr_def)

lemma wal_recover_from_repr:
  "wal_repr crc dir log \<Longrightarrow> log_chain lo log hi \<Longrightarrow>
     wal_recover_from crc dir m = Inr (filter (\<lambda>e. m \<le> we_sequence_number e) (log_entries log))"
  using replay_from_repr [OF _ order_refl] by (metis wal_recover_from_discover wal_repr_def)

text \<open>C21: whatever batches are appended to a fresh log, the writer succeeds, rotating as needed,
  and recovery returns every entry exactly once, in the order of appending, numbered 1, 2, 3
  and so on; recovery from a bound returns exactly the entries at or above it, so skipping
  whole segments by the header of the next one loses nothing.\<close>

theorem wal_write_recover:
  assumes "\<forall>e \<in> set (concat batches). wal_entry_fits e" and "length (concat batches) < 2 ^ 64 - 1"
    and "length batches < 10 ^ 12 - 1"
  shows "\<exists>w0 dir0 w dir. ww_open crc now config [] = Inr (w0, dir0)
    \<and> ww_run crc now dir0 w0 batches = Inr (w, dir)
    \<and> wal_recover crc dir = Inr (fst (assign_sequences 1 (concat batches)))
    \<and> (\<forall>m. wal_recover_from crc dir m =
         Inr (filter (\<lambda>e. m \<le> we_sequence_number e) (fst (assign_sequences 1 (concat batches)))))"
proof -
  obtain w0 dir0 h where o: "ww_open crc now config [] = Inr (w0, dir0)" "wal_inv crc dir0 w0 [(h, [])]"
      "ww_next_sequence_number w0 = 1" "sh_segment_number h = 1"
    using ww_open_fresh by blast
  have "unat (ww_next_sequence_number w0) + length (concat batches) < 2 ^ 64"
    "unat (seg_no (last [(h, [] :: wal_entry list)])) + length batches < 10 ^ 12"
    using assms(2,3) o by (auto simp: seg_no_def)
  from ww_run_inv [OF o(2) assms(1) this, of now] o(3) obtain w dir log where
    r: "ww_run crc now dir0 w0 batches = Inr (w, dir)" and inv: "wal_inv crc dir w log"
    and e: "log_entries log = fst (assign_sequences 1 (concat batches))"
    by (auto simp: log_entries_def)
  have "wal_repr crc dir log" "log_chain 0 log (unat (ww_next_sequence_number w))"
    using inv by (auto simp: wal_inv_def)
  with o r e show ?thesis by (auto simp: wal_recover_repr wal_recover_from_repr)
qed

theorem wal_write_recover_witness:
  "\<exists>w0 dir0 w dir. ww_open (\<lambda>_. 0) 0 wal_config_default [] = Inr (w0, dir0)
    \<and> ww_run (\<lambda>_. 0) 0 dir0 w0 [[sample_wal_entry], [sample_wal_entry]] = Inr (w, dir)
    \<and> wal_recover (\<lambda>_. 0) dir = Inr [sample_wal_entry\<lparr>we_sequence_number := 1\<rparr>, sample_wal_entry\<lparr>we_sequence_number := 2\<rparr>]"
proof -
  have "\<forall>e \<in> set (concat [[sample_wal_entry], [sample_wal_entry]]). wal_entry_fits e"
    "length (concat [[sample_wal_entry], [sample_wal_entry]]) < 2 ^ 64 - 1"
    "length [[sample_wal_entry], [sample_wal_entry]] < 10 ^ 12 - 1"
    by (simp_all add: sample_wal_entry_fits)
  from wal_write_recover [OF this, of "\<lambda>_. 0" 0 wal_config_default] show ?thesis by auto
qed

text \<open>A crash that leaves only the first \<open>n\<close> bytes of a file.\<close>

definition cut_file :: "nat \<Rightarrow> string \<Rightarrow> wal_dir \<Rightarrow> wal_dir" where
  "cut_file n name dir = map (\<lambda>(m, d). (m, if m = name then take n d else d)) dir"

lemma map_of_cut_file: "map_of (cut_file n name dir) m = map_option (\<lambda>d. if m = name then take n d else d) (map_of dir m)"
  by (induction dir) (auto simp: cut_file_def)

lemma fst_cut_file: "map fst (cut_file n name dir) = map fst dir"
  by (simp add: cut_file_def comp_def split_def)






lemma replay_all_error:
  "n \<in> set ns \<Longrightarrow> reader_open dir n = Inl err \<Longrightarrow> \<exists>e. replay_all crc dir ns = Inl e"
proof (induction ns)
  case (Cons a ns)
  show ?case
  proof (cases "a = n")
    case False
    then have "\<exists>e. replay_all crc dir ns = Inl e" using Cons by auto
    then show ?thesis
      by (cases "reader_open dir a"; cases "collect_res (segment_entries crc (projr (reader_open dir a)))") auto
  qed (use Cons in simp)
qed simp

text \<open>C38: a crash while a new segment is created, before the 32 bytes of its header are on disk,
  is not survived: recovery and opening both fail with \<open>CorruptedData\<close> or an earlier error, although every earlier
  segment is intact.\<close>

theorem wal_torn_header_blocks:
  assumes "wal_inv crc dir w log" and "n < 32"
  shows "let dir1 = cut_file n (sw_path (ww_current_writer w)) dir
         in ww_open crc now config dir1 = Inl (CorruptedData ''segment file too short for header'')
            \<and> (\<exists>e. wal_recover crc dir1 = Inl e)"
proof -
  let ?f = "segment_filename (seg_no (last log))"
  let ?dir1 = "cut_file n ?f dir"
  have path: "sw_path (ww_current_writer w) = ?f" and ne: "log \<noteq> []"
    and fl: "map_of dir ?f = Some (segment_file crc (fst (last log)) (snd (last log)))"
    and disc: "discover_segments dir = map seg_no log"
    using assms(1) by (auto simp: wal_inv_def wal_repr_def)
  have d: "discover_segments ?dir1 = map seg_no (butlast log) @ [seg_no (last log)]"
    using disc ne by (cases log rule: rev_cases) (simp_all add: discover_segments_def map_filter_fst fst_cut_file)
  have bad: "reader_open ?dir1 (seg_no (last log)) = Inl (CorruptedData ''segment file too short for header'')"
    using fl assms(2) by (simp add: reader_open_def read_file_def map_of_cut_file sr_open_def SEGMENT_HEADER_SIZE_def min_less_iff_disj)
  have "ww_open crc now config ?dir1 = Inl (CorruptedData ''segment file too short for header'')"
    by (simp add: ww_open_def d bad)
  moreover have "\<exists>e. wal_recover crc ?dir1 = Inl e"
    unfolding wal_recover_discover by (rule replay_all_error [OF _ bad]) (simp add: d)
  ultimately show ?thesis by (simp add: path)
qed

theorem wal_torn_header_blocks_witness:
  "\<exists>w0 dir0. ww_open (\<lambda>_. 0) 0 wal_config_default [] = Inr (w0, dir0)
     \<and> ww_open (\<lambda>_. 0) 0 wal_config_default (cut_file 31 (sw_path (ww_current_writer w0)) dir0)
         = Inl (CorruptedData ''segment file too short for header'')"
proof -
  obtain w0 dir0 h where o: "ww_open (\<lambda>_. 0) 0 wal_config_default [] = Inr (w0, dir0)"
      "wal_inv (\<lambda>_. 0) dir0 w0 [(h, [])]"
    using ww_open_fresh by blast
  with wal_torn_header_blocks [OF o(2), of 31 0 wal_config_default] show ?thesis by (auto simp: Let_def)
qed

end
