(* ===== verification/Dirty_Tracker.thy ===== *)
theory Dirty_Tracker
  imports Flush_Types "HOL-Library.AList"
begin

text \<open>
  \<^verbatim>\<open>dirty_tracker.rs\<close>: which memtable generations still have unflushed writes in which log segment.
  The two hash maps are association lists with distinct keys (their iteration order is the list
  order; every result the code exposes is sorted); an \<^verbatim>\<open>Instant\<close> is a number of microseconds and
  the clock is an argument. The abstract view is the relation between segments and generations.
\<close>

record dirty_tracker =
  dt_dirty_maps :: "(u64 \<times> (u64 \<times> u64) list) list"
  dt_segment_created_at :: "(u64 \<times> nat) list"

definition dt_new :: dirty_tracker where
  "dt_new = \<lparr>dt_dirty_maps = [], dt_segment_created_at = []\<rparr>"

definition dt_record_write :: "nat \<Rightarrow> dirty_tracker \<Rightarrow> u64 \<Rightarrow> u64 \<Rightarrow> u64 \<Rightarrow> dirty_tracker" where
  "dt_record_write now t segment_number generation_id sequence_number =
     (let created = (if map_of (dt_segment_created_at t) segment_number = None
                     then AList.update segment_number now (dt_segment_created_at t)
                     else dt_segment_created_at t);
          gen_map = (case map_of (dt_dirty_maps t) segment_number of None \<Rightarrow> [] | Some m \<Rightarrow> m);
          current = (case map_of gen_map generation_id of None \<Rightarrow> 0 | Some c \<Rightarrow> c);
          current' = (if sequence_number > current then sequence_number else current)
      in \<lparr>dt_dirty_maps = AList.update segment_number (AList.update generation_id current' gen_map) (dt_dirty_maps t),
          dt_segment_created_at = created\<rparr>)"

text \<open>The loop of \<^verbatim>\<open>mark_generation_flushed\<close> over the keys, with the segments found newly clean.\<close>

fun flush_generation ::
  "u64 \<Rightarrow> (u64 \<times> (u64 \<times> u64) list) list \<Rightarrow> (u64 \<times> (u64 \<times> u64) list) list \<times> u64 list" where
  "flush_generation g [] = ([], [])"
| "flush_generation g ((seg_num, gen_map) # rest) =
     (let was_present = map_of gen_map g \<noteq> None;
          gen_map' = AList.delete g gen_map
      in case flush_generation g rest of (rest', newly_clean) \<Rightarrow>
           ((seg_num, gen_map') # rest',
            if was_present \<and> gen_map' = [] then seg_num # newly_clean else newly_clean))"

definition dt_mark_generation_flushed :: "dirty_tracker \<Rightarrow> u64 \<Rightarrow> u64 list \<times> dirty_tracker" where
  "dt_mark_generation_flushed t g =
     (case flush_generation g (dt_dirty_maps t) of (maps, newly_clean) \<Rightarrow>
        (sort newly_clean, t\<lparr>dt_dirty_maps := maps\<rparr>))"

definition dt_is_segment_clean :: "dirty_tracker \<Rightarrow> u64 \<Rightarrow> bool" where
  "dt_is_segment_clean t n =
     (case map_of (dt_dirty_maps t) n of None \<Rightarrow> True | Some gen_map \<Rightarrow> gen_map = [])"

definition dt_deletable_segments :: "dirty_tracker \<Rightarrow> u64 list" where
  "dt_deletable_segments t = sort (map fst (filter (\<lambda>(n, gen_map). gen_map = []) (dt_dirty_maps t)))"

definition dt_dirty_generation_ids :: "dirty_tracker \<Rightarrow> u64 \<Rightarrow> u64 list" where
  "dt_dirty_generation_ids t n =
     (case map_of (dt_dirty_maps t) n of None \<Rightarrow> [] | Some gen_map \<Rightarrow> sort (map fst gen_map))"

definition dt_all_dirty_segments :: "dirty_tracker \<Rightarrow> u64 list" where
  "dt_all_dirty_segments t = sort (map fst (filter (\<lambda>(n, gen_map). gen_map \<noteq> []) (dt_dirty_maps t)))"

definition dt_is_dirty :: "dirty_tracker \<Rightarrow> u64 \<Rightarrow> bool" where
  "dt_is_dirty t n = (case map_of (dt_dirty_maps t) n of None \<Rightarrow> False | Some m \<Rightarrow> m \<noteq> [])"

definition dt_segments_older_than :: "nat \<Rightarrow> dirty_tracker \<Rightarrow> nat \<Rightarrow> u64 list" where
  "dt_segments_older_than now t max_age =
     sort (map fst (filter (\<lambda>(n, created_at). now - created_at > max_age \<and> dt_is_dirty t n)
       (dt_segment_created_at t)))"

fun min_by_key :: "('a \<Rightarrow> 'k::linorder) \<Rightarrow> 'a list \<Rightarrow> 'a option" where
  "min_by_key f [] = None"
| "min_by_key f (x # xs) =
     (case min_by_key f xs of None \<Rightarrow> Some x | Some y \<Rightarrow> if f x \<le> f y then Some x else Some y)"

definition dt_oldest_pinned_segment :: "dirty_tracker \<Rightarrow> u64 option" where
  "dt_oldest_pinned_segment t =
     map_option fst (min_by_key snd (filter (\<lambda>(n, _). dt_is_dirty t n) (dt_segment_created_at t)))"

definition dt_remove_segment :: "dirty_tracker \<Rightarrow> u64 \<Rightarrow> dirty_tracker" where
  "dt_remove_segment t n =
     \<lparr>dt_dirty_maps = AList.delete n (dt_dirty_maps t),
      dt_segment_created_at = AList.delete n (dt_segment_created_at t)\<rparr>"

definition dt_needs_age_flush :: "nat \<Rightarrow> dirty_tracker \<Rightarrow> nat \<Rightarrow> bool" where
  "dt_needs_age_flush now t max_age =
     list_ex (\<lambda>(n, created_at). now - created_at > max_age \<and> dt_is_dirty t n) (dt_segment_created_at t)"

definition dt_needs_size_flush :: "u64 \<Rightarrow> u64 \<Rightarrow> bool" where
  "dt_needs_size_flush total_wal_size threshold = (total_wal_size > threshold)"

section \<open>The relation the tracker stands for\<close>

definition dt_ok :: "dirty_tracker \<Rightarrow> bool" where
  "dt_ok t \<longleftrightarrow> distinct (map fst (dt_dirty_maps t)) \<and> distinct (map fst (dt_segment_created_at t))
     \<and> (\<forall>(n, m) \<in> set (dt_dirty_maps t). distinct (map fst m) \<and> map_of (dt_segment_created_at t) n \<noteq> None)"

definition dt_gens :: "dirty_tracker \<Rightarrow> u64 \<Rightarrow> u64 set" where
  "dt_gens t n = (case map_of (dt_dirty_maps t) n of None \<Rightarrow> {} | Some m \<Rightarrow> dom (map_of m))"

definition dt_pairs :: "dirty_tracker \<Rightarrow> (u64 \<times> u64) set" where
  "dt_pairs t = {(n, g). g \<in> dt_gens t n}"

lemma dt_new_ok [simp]: "dt_ok dt_new" "dt_pairs dt_new = {}"
  by (simp_all add: dt_ok_def dt_new_def dt_pairs_def dt_gens_def)

lemma dt_gens_record_write:
  "dt_gens (dt_record_write now t n g s) m = (if m = n then insert g (dt_gens t n) else dt_gens t m)"
  by (simp add: dt_gens_def dt_record_write_def Let_def update_conv' split: option.split)

lemma dt_gens_remove: "dt_gens (dt_remove_segment t n) m = (if m = n then {} else dt_gens t m)"
  by (simp add: dt_gens_def dt_remove_segment_def delete_conv')

lemma dt_is_segment_clean_gens: "dt_is_segment_clean t n \<longleftrightarrow> dt_gens t n = {}"
  by (simp add: dt_is_segment_clean_def dt_gens_def split: option.split)

lemma map_of_flush_generation:
  "map_of (fst (flush_generation g maps)) n = map_option (AList.delete g) (map_of maps n)"
  by (induction g maps rule: flush_generation.induct) (auto simp: Let_def split: prod.splits)

lemma fst_flush_generation [simp]: "map fst (fst (flush_generation g maps)) = map fst maps"
  by (induction g maps rule: flush_generation.induct) (auto simp: Let_def split: prod.splits)

lemma set_flush_generation:
  "distinct (map fst maps) \<Longrightarrow>
     n \<in> set (snd (flush_generation g maps)) \<longleftrightarrow>
       (\<exists>m. map_of maps n = Some m \<and> g \<in> dom (map_of m) \<and> AList.delete g m = [])"
proof (induction maps)
  case (Cons p maps)
  obtain k m where p: "p = (k, m)" by (cases p)
  obtain maps' clean where f: "flush_generation g maps = (maps', clean)" by (cases "flush_generation g maps")
  have k: "map_of maps k = None" using Cons.prems p by (simp add: map_of_eq_None_iff)
  show ?case
    using Cons.IH Cons.prems k
    by (cases "n = k") (auto simp: p f Let_def simp del: map_of_eq_Some_iff)
qed simp

lemma dt_gens_mark: "dt_gens (snd (dt_mark_generation_flushed t g)) n = dt_gens t n - {g}"
  using map_of_flush_generation [of g "dt_dirty_maps t" n]
  by (auto simp: dt_gens_def dt_mark_generation_flushed_def delete_conv' split: prod.splits option.splits if_splits)

lemma alist_Nil_iff: "m = [] \<longleftrightarrow> dom (map_of m) = {}"
  by (cases m) auto

lemma dt_mark_newly_clean:
  assumes "dt_ok t"
  shows "n \<in> set (fst (dt_mark_generation_flushed t g)) \<longleftrightarrow> dt_gens t n = {g}"
proof -
  have "n \<in> set (fst (dt_mark_generation_flushed t g)) \<longleftrightarrow> n \<in> set (snd (flush_generation g (dt_dirty_maps t)))"
    by (simp add: dt_mark_generation_flushed_def split: prod.split)
  also have "\<dots> \<longleftrightarrow> (\<exists>m. map_of (dt_dirty_maps t) n = Some m \<and> g \<in> dom (map_of m) \<and> dom (map_of m) - {g} = {})"
    using assms by (subst set_flush_generation) (auto simp: dt_ok_def alist_Nil_iff delete_conv')
  also have "\<dots> \<longleftrightarrow> dt_gens t n = {g}"
    unfolding dt_gens_def by (cases "map_of (dt_dirty_maps t) n") auto
  finally show ?thesis .
qed

lemma dt_ok_iff:
  "dt_ok t \<longleftrightarrow> distinct (map fst (dt_dirty_maps t)) \<and> distinct (map fst (dt_segment_created_at t))
     \<and> (\<forall>n m. map_of (dt_dirty_maps t) n = Some m \<longrightarrow>
          distinct (map fst m) \<and> map_of (dt_segment_created_at t) n \<noteq> None)"
  by (auto simp: dt_ok_def)

lemma dt_ok_record_write: "dt_ok t \<Longrightarrow> dt_ok (dt_record_write now t n g s)"
  by (auto simp: dt_ok_iff dt_record_write_def Let_def update_conv' distinct_update
      simp del: map_of_eq_Some_iff split: option.splits if_splits)

lemma dt_ok_mark: "dt_ok t \<Longrightarrow> dt_ok (snd (dt_mark_generation_flushed t g))"
  by (auto simp: dt_ok_iff dt_mark_generation_flushed_def split_def distinct_delete map_of_flush_generation
      simp del: map_of_eq_Some_iff)

lemma dt_ok_remove: "dt_ok t \<Longrightarrow> dt_ok (dt_remove_segment t n)"
  by (auto simp: dt_ok_iff dt_remove_segment_def delete_conv' distinct_delete)

section \<open>The contract the log manager relies on\<close>

locale segment_tracker =
  fixes ok :: "'t \<Rightarrow> bool" and pairs :: "'t \<Rightarrow> (u64 \<times> u64) set"
    and record_write :: "nat \<Rightarrow> 't \<Rightarrow> u64 \<Rightarrow> u64 \<Rightarrow> u64 \<Rightarrow> 't"
    and mark_flushed :: "'t \<Rightarrow> u64 \<Rightarrow> u64 list \<times> 't"
    and is_clean :: "'t \<Rightarrow> u64 \<Rightarrow> bool" and remove :: "'t \<Rightarrow> u64 \<Rightarrow> 't"
  assumes pairs_record: "pairs (record_write now t n g s) = insert (n, g) (pairs t)"
    and pairs_mark: "pairs (snd (mark_flushed t g)) = {(n, h) \<in> pairs t. h \<noteq> g}"
    and newly_clean: "ok t \<Longrightarrow> set (fst (mark_flushed t g)) = {n. {h. (n, h) \<in> pairs t} = {g}}"
    and clean_iff: "is_clean t n \<longleftrightarrow> (\<forall>g. (n, g) \<notin> pairs t)"
    and pairs_remove: "pairs (remove t n) = {(m, g) \<in> pairs t. m \<noteq> n}"
    and ok_record: "ok t \<Longrightarrow> ok (record_write now t n g s)"
    and ok_mark: "ok t \<Longrightarrow> ok (snd (mark_flushed t g))"
    and ok_remove: "ok t \<Longrightarrow> ok (remove t n)"
begin

lemma newly_clean_clean:
  assumes "ok t" and "n \<in> set (fst (mark_flushed t g))"
  shows "is_clean (snd (mark_flushed t g)) n"
  using newly_clean [OF assms(1), of g] assms(2) by (auto simp: clean_iff pairs_mark)

lemma newly_clean_was_dirty:
  assumes "ok t" and "n \<in> set (fst (mark_flushed t g))"
  shows "\<not> is_clean t n"
  using newly_clean [OF assms(1), of g] assms(2) by (auto simp: clean_iff)

lemma mark_keeps_dirty: "(n, h) \<in> pairs t \<Longrightarrow> h \<noteq> g \<Longrightarrow> \<not> is_clean (snd (mark_flushed t g)) n"
  by (auto simp: clean_iff pairs_mark)

lemma remove_clean: "is_clean t n \<Longrightarrow> pairs (remove t n) = pairs t"
  by (auto simp: clean_iff pairs_remove)

end

interpretation dt: segment_tracker dt_ok dt_pairs dt_record_write dt_mark_generation_flushed
    dt_is_segment_clean dt_remove_segment
  by unfold_locales
    (auto simp: dt_pairs_def dt_gens_record_write dt_gens_mark dt_mark_newly_clean dt_is_segment_clean_gens
      dt_gens_remove dt_ok_record_write dt_ok_mark dt_ok_remove split: if_splits)

end
