(* ===== verification/Wal_Manager.thy ===== *)
theory Wal_Manager
  imports Wal_Log Dirty_Tracker
begin

text \<open>
  \<^verbatim>\<open>group_commit.rs\<close> and \<^verbatim>\<open>wal_manager.rs\<close>. The commit loop is a task of its own: it takes pending
  commits from a bounded channel, writes them as one batch and answers their notifiers. The manager
  submits, then reads the shared segment number and records the write in the dirty tracker, so a
  commit may run between the two: the step relation \<open>wm_step\<close> has one rule for each atomic part.
  Each notifier is a number, the answers sent are a list; what has reached the disk is a separate
  map from names to contents that only a sync changes. How many passes the collecting loop makes
  before its interval has elapsed is an argument.
\<close>

section \<open>Group commit\<close>

datatype pending_commit = Single wal_entry nat | Batch "wal_entry list" nat

fun into_parts :: "pending_commit \<Rightarrow> wal_entry list \<times> nat list \<times> nat" where
  "into_parts (Single e i) = ([e], [i], total_size e)"
| "into_parts (Batch es i) = (es, [i], sum_list (map total_size es))"

definition pc_entries :: "pending_commit \<Rightarrow> wal_entry list" where
  "pc_entries p = fst (into_parts p)"

definition pc_notifiers :: "pending_commit \<Rightarrow> nat list" where
  "pc_notifiers p = fst (snd (into_parts p))"

record group_commit =
  gc_queue :: "pending_commit list"
  gc_writer :: wal_writer
  gc_dir :: wal_dir
  gc_durable :: "string \<Rightarrow> bytes option"
  gc_current_segment :: u64
  gc_has_unsynced :: bool
  gc_acks :: "(nat \<times> unit flush_result) list"
  gc_stopped :: "unit flush_result option"

definition CHANNEL_CAPACITY :: nat where "CHANNEL_CAPACITY = 4096"

text \<open>The inner loop that fills a batch: stop on size, on elapsed time, or on an empty channel.\<close>

fun collect_batch ::
  "nat \<Rightarrow> nat \<Rightarrow> wal_entry list \<times> nat list \<times> nat \<Rightarrow> pending_commit list \<Rightarrow>
     wal_entry list \<times> nat list \<times> pending_commit list" where
  "collect_batch max_bytes passes (entries, notifiers, batch_bytes) queue =
     (if batch_bytes \<ge> max_bytes then (entries, notifiers, queue)
      else case passes of
        0 \<Rightarrow> (entries, notifiers, queue)
      | Suc passes' \<Rightarrow>
          (case queue of
             [] \<Rightarrow> (entries, notifiers, [])
           | pending # rest \<Rightarrow>
               (case into_parts pending of (next_entries, next_notifiers, next_bytes) \<Rightarrow>
                  collect_batch max_bytes passes'
                    (entries @ next_entries, notifiers @ next_notifiers, batch_bytes + next_bytes) rest)))"

declare collect_batch.simps [simp del]

definition sync_file :: "string \<Rightarrow> wal_dir \<Rightarrow> (string \<Rightarrow> bytes option) \<Rightarrow> string \<Rightarrow> bytes option" where
  "sync_file name dir durable = durable(name := map_of dir name)"

text \<open>One turn of \<^verbatim>\<open>commit_loop\<close> with a first pending commit received. A rotation syncs the segment it
  leaves; in \<open>Sync\<close> mode the active segment is synced before the notifiers are answered.\<close>

definition commit_turn :: "(bytes \<Rightarrow> u32) \<Rightarrow> wal_config \<Rightarrow> u64 \<Rightarrow> nat \<Rightarrow> group_commit \<Rightarrow> group_commit" where
  "commit_turn crc config now passes s =
     (case gc_queue s of
        [] \<Rightarrow> s
      | first # rest \<Rightarrow>
          (case collect_batch (group_commit_max_bytes config) passes (into_parts first) rest of
             (entries, notifiers, queue) \<Rightarrow>
               (let do_fsync = (cfg_fsync_mode config = Sync);
                    path = sw_path (ww_current_writer (gc_writer s))
                in case ww_append_batch crc now (gc_dir s) (gc_writer s) entries of
                     Inr (writer, dir) \<Rightarrow>
                       (let path' = sw_path (ww_current_writer writer);
                            durable1 = (if path' \<noteq> path then sync_file path dir (gc_durable s) else gc_durable s);
                            durable2 = (if do_fsync then sync_file path' dir durable1 else durable1)
                        in s\<lparr>gc_queue := queue, gc_writer := writer, gc_dir := dir, gc_durable := durable2,
                             gc_current_segment := sw_segment_number (ww_current_writer writer),
                             gc_has_unsynced := (if do_fsync then gc_has_unsynced s else True),
                             gc_acks := gc_acks s @ map (\<lambda>i. (i, Inr ())) notifiers\<rparr>)
                   | Inl e \<Rightarrow>
                       s\<lparr>gc_queue := queue,
                         gc_dir := snd (sw_append_batch crc (gc_dir s) (ww_current_writer (gc_writer s))
                           (fst (assign_sequences (ww_next_sequence_number (gc_writer s)) entries))),
                         gc_acks := gc_acks s @ map (\<lambda>i. (i, Inl (Io ''group commit failed''))) notifiers,
                         gc_stopped := Some (Inl e)\<rparr>)))"

text \<open>The timer of \<open>BatchSync\<close> mode, and the end of the loop when the channel is closed.\<close>

definition do_sync :: "group_commit \<Rightarrow> group_commit" where
  "do_sync s = s\<lparr>gc_durable := sync_file (sw_path (ww_current_writer (gc_writer s))) (gc_dir s) (gc_durable s),
                 gc_has_unsynced := False\<rparr>"

definition gc_close :: "group_commit \<Rightarrow> group_commit" where
  "gc_close s = (if gc_has_unsynced s then do_sync s else s)\<lparr>gc_stopped := Some (Inr ())\<rparr>"

section \<open>The manager\<close>

record wal_manager =
  wm_config :: wal_config
  wm_gc :: group_commit
  wm_dirty_tracker :: dirty_tracker
  wm_submitted :: "u64 option"

text \<open>\<open>wm_submitted\<close> is the generation of an append that has been submitted and not yet recorded.\<close>

text \<open>When the log is opened, the files that were there are on disk; the new segment is not, because
  \<^verbatim>\<open>SegmentWriter::create\<close> writes its header and does not sync it.\<close>

definition gc_init :: "wal_writer \<Rightarrow> wal_dir \<Rightarrow> (string \<Rightarrow> bytes option) \<Rightarrow> group_commit" where
  "gc_init w dir durable = \<lparr>gc_queue = [], gc_writer = w, gc_dir = dir, gc_durable = durable,
     gc_current_segment = sw_segment_number (ww_current_writer w), gc_has_unsynced = False,
     gc_acks = [], gc_stopped = None\<rparr>"

definition wm_open :: "(bytes \<Rightarrow> u32) \<Rightarrow> u64 \<Rightarrow> wal_config \<Rightarrow> wal_dir \<Rightarrow> wal_manager flush_result" where
  "wm_open crc now config dir =
     bind_res (ww_open crc now config dir) (\<lambda>(w, dir').
       Inr \<lparr>wm_config = config, wm_gc = gc_init w dir' (map_of dir), wm_dirty_tracker = dt_new, wm_submitted = None\<rparr>)"

text \<open>\<^verbatim>\<open>submit\<close> and \<^verbatim>\<open>submit_batch\<close>: an empty batch is answered at once, a stopped loop has dropped its
  receiver.\<close>

definition gc_submit :: "pending_commit \<Rightarrow> group_commit \<Rightarrow> group_commit flush_result" where
  "gc_submit p s =
     (case p of
        Batch [] i \<Rightarrow> Inr (s\<lparr>gc_acks := gc_acks s @ [(i, Inr ())]\<rparr>)
      | _ \<Rightarrow> (if gc_stopped s \<noteq> None then Inl (Io ''group commit loop has shut down'')
             else Inr (s\<lparr>gc_queue := gc_queue s @ [p]\<rparr>)))"

definition wm_submit :: "pending_commit \<Rightarrow> u64 \<Rightarrow> wal_manager \<Rightarrow> wal_manager flush_result" where
  "wm_submit p generation_id m =
     bind_res (gc_submit p (wm_gc m)) (\<lambda>gc. Inr (m\<lparr>wm_gc := gc, wm_submitted := Some generation_id\<rparr>))"

definition wm_record :: "nat \<Rightarrow> wal_manager \<Rightarrow> wal_manager" where
  "wm_record now m =
     (case wm_submitted m of
        None \<Rightarrow> m
      | Some g \<Rightarrow> m\<lparr>wm_dirty_tracker := dt_record_write now (wm_dirty_tracker m) (gc_current_segment (wm_gc m)) g 0,
                    wm_submitted := None\<rparr>)"

definition wm_wal_size :: "wal_manager \<Rightarrow> u64" where
  "wm_wal_size m =
     fold (\<lambda>(n, d) total. if parse_segment_number n \<noteq> None then total + of_nat (length d) else total)
       (gc_dir (wm_gc m)) 0"

definition wm_append_if_not_full :: "wal_entry \<Rightarrow> nat \<Rightarrow> u64 \<Rightarrow> wal_manager \<Rightarrow> wal_manager flush_result" where
  "wm_append_if_not_full e i generation_id m =
     (if wm_wal_size m > max_wal_size (wm_config m)
      then Inl (ResourceExhausted ''WAL'' ''WAL size exceeds limit'')
      else wm_submit (Single e i) generation_id m)"

definition wm_mark_generation_flushed :: "u64 \<Rightarrow> wal_manager \<Rightarrow> u64 list \<times> wal_manager" where
  "wm_mark_generation_flushed g m =
     (case dt_mark_generation_flushed (wm_dirty_tracker m) g of (clean, t) \<Rightarrow> (clean, m\<lparr>wm_dirty_tracker := t\<rparr>))"

fun cleanup_loop :: "u64 \<Rightarrow> dirty_tracker \<Rightarrow> wal_dir \<Rightarrow> u64 list \<Rightarrow> dirty_tracker \<times> wal_dir" where
  "cleanup_loop current t dir [] = (t, dir)"
| "cleanup_loop current t dir (n # ns) =
     (if n = current then cleanup_loop current t dir ns
      else if \<not> dt_is_segment_clean t n then cleanup_loop current t dir ns
      else case remove_file dir (segment_filename n) of
             Inr dir' \<Rightarrow> cleanup_loop current (dt_remove_segment t n) dir' ns
           | Inl _ \<Rightarrow> cleanup_loop current (dt_remove_segment t n) dir ns)"

definition wm_cleanup_segments :: "u64 list \<Rightarrow> wal_manager \<Rightarrow> wal_manager" where
  "wm_cleanup_segments ns m =
     (case cleanup_loop (gc_current_segment (wm_gc m)) (wm_dirty_tracker m) (gc_dir (wm_gc m)) ns of
        (t, dir) \<Rightarrow> m\<lparr>wm_dirty_tracker := t, wm_gc := (wm_gc m)\<lparr>gc_dir := dir\<rparr>\<rparr>)"

definition wm_is_backpressured :: "wal_manager \<Rightarrow> bool" where
  "wm_is_backpressured m = (wm_wal_size m > max_wal_size (wm_config m))"

record flush_triggers =
  ft_age_triggered_segments :: "u64 list"
  ft_size_pressure :: bool
  ft_oldest_pinned_generation :: "u64 option"
  ft_backpressure :: bool

definition wm_flush_triggers :: "nat \<Rightarrow> wal_manager \<Rightarrow> flush_triggers" where
  "wm_flush_triggers now m =
     (let t = wm_dirty_tracker m; total_size = wm_wal_size m
      in \<lparr>ft_age_triggered_segments = dt_segments_older_than now t (segment_max_age (wm_config m)),
          ft_size_pressure = (total_size > max_total_wal_bytes (wm_config m)),
          ft_oldest_pinned_generation =
            Option.bind (dt_oldest_pinned_segment t) (\<lambda>seg.
              case dt_dirty_generation_ids t seg of [] \<Rightarrow> None | g # _ \<Rightarrow> Some g),
          ft_backpressure = (total_size > max_wal_size (wm_config m))\<rparr>)"

section \<open>Interleavings\<close>

text \<open>The entries of the segment files that a call deletes, read from the directory before it.\<close>

definition segment_file_entries :: "(bytes \<Rightarrow> u32) \<Rightarrow> wal_dir \<Rightarrow> u64 \<Rightarrow> wal_entry list" where
  "segment_file_entries crc dir n =
     (case bind_res (reader_open dir n) (\<lambda>r. collect_res (segment_entries crc r)) of Inr es \<Rightarrow> es | Inl _ \<Rightarrow> [])"

definition deleted_entries :: "(bytes \<Rightarrow> u32) \<Rightarrow> wal_dir \<Rightarrow> wal_dir \<Rightarrow> wal_entry list" where
  "deleted_entries crc dir dir' =
     concat (map (segment_file_entries crc dir)
       (filter (\<lambda>n. map_of dir' (segment_filename n) = None) (discover_segments dir)))"

text \<open>The steps of a manager and its commit loop, with two ghost lists: the commits submitted so far
  and the entries of the segments reclaimed so far. The manager's methods take the manager
  exclusively, so an append that has been submitted is recorded before the next call; only the
  commit loop runs in between. Deleting a segment that is not the active one and a turn of the
  commit loop touch different files, so a cleanup is one step. \<open>shutdown\<close> is the end of the loop: the
  channel is closed, and the loop leaves when it has drained it.\<close>

inductive wm_step ::
  "(bytes \<Rightarrow> u32) \<Rightarrow> pending_commit list \<times> wal_entry list \<times> wal_manager \<Rightarrow>
     pending_commit list \<times> wal_entry list \<times> wal_manager \<Rightarrow> bool" for crc where
  submit: "\<lbrakk>wm_submitted m = None; length (gc_queue (wm_gc m)) < CHANNEL_CAPACITY;
            wm_submit p g m = Inr m'; pc_entries p \<noteq> []\<rbrakk> \<Longrightarrow> wm_step crc (ps, gone, m) (ps @ [p], gone, m')"
| record_write: "wm_submitted m = Some g \<Longrightarrow> wm_step crc (ps, gone, m) (ps, gone, wm_record now m)"
| commit: "\<lbrakk>gc_stopped (wm_gc m) = None; gc_queue (wm_gc m) \<noteq> []\<rbrakk> \<Longrightarrow>
     wm_step crc (ps, gone, m) (ps, gone, m\<lparr>wm_gc := commit_turn crc (wm_config m) now passes (wm_gc m)\<rparr>)"
| timer: "\<lbrakk>gc_stopped (wm_gc m) = None; cfg_fsync_mode (wm_config m) = BatchSync; gc_has_unsynced (wm_gc m)\<rbrakk> \<Longrightarrow>
     wm_step crc (ps, gone, m) (ps, gone, m\<lparr>wm_gc := do_sync (wm_gc m)\<rparr>)"
| mark_flushed: "wm_submitted m = None \<Longrightarrow> wm_step crc (ps, gone, m) (ps, gone, snd (wm_mark_generation_flushed g m))"
| cleanup: "\<lbrakk>wm_submitted m = None; m' = wm_cleanup_segments ns m\<rbrakk> \<Longrightarrow>
     wm_step crc (ps, gone, m) (ps, gone @ deleted_entries crc (gc_dir (wm_gc m)) (gc_dir (wm_gc m')), m')"
| shutdown: "\<lbrakk>wm_submitted m = None; gc_stopped (wm_gc m) = None; gc_queue (wm_gc m) = []\<rbrakk> \<Longrightarrow>
     wm_step crc (ps, gone, m) (ps, gone, m\<lparr>wm_gc := gc_close (wm_gc m)\<rparr>)"

inductive wm_reach ::
  "(bytes \<Rightarrow> u32) \<Rightarrow> wal_config \<Rightarrow> pending_commit list \<Rightarrow> wal_entry list \<Rightarrow> wal_manager \<Rightarrow> bool" for crc config where
  init: "wm_open crc now config [] = Inr m \<Longrightarrow> wm_reach crc config [] [] m"
| step: "\<lbrakk>wm_reach crc config ps gone m; wm_step crc (ps, gone, m) (ps', gone', m')\<rbrakk> \<Longrightarrow> wm_reach crc config ps' gone' m'"

section \<open>Commits are in order, complete and durable before they are answered\<close>

lemma collect_batch_prefix:
  "collect_batch mx k (es, ns, b) q = (es', ns', q') \<Longrightarrow>
     \<exists>t. q = t @ q' \<and> es' = es @ concat (map pc_entries t) \<and> ns' = ns @ concat (map pc_notifiers t)"
proof (induction k arbitrary: es ns b q)
  case 0
  then show ?case by (auto simp: collect_batch.simps [of mx 0] split: if_splits intro: exI [of _ "[]"])
next
  case (Suc k)
  show ?case
  proof (cases "b \<ge> mx \<or> q = []")
    case True
    then show ?thesis
      using Suc.prems by (auto simp: collect_batch.simps [of mx "Suc k"] split: if_splits intro: exI [of _ "[]"])
  next
    case False
    then obtain p rest where q: "q = p # rest" by (cases q) auto
    obtain pe pn pb where p: "into_parts p = (pe, pn, pb)" by (cases "into_parts p")
    have "collect_batch mx k (es @ pe, ns @ pn, b + pb) rest = (es', ns', q')"
      using Suc.prems False by (simp add: collect_batch.simps [of mx "Suc k"] q p)
    from Suc.IH [OF this] obtain t where
      "rest = t @ q'" "es' = (es @ pe) @ concat (map pc_entries t)" "ns' = (ns @ pn) @ concat (map pc_notifiers t)"
      by blast
    then show ?thesis
      by (intro exI [of _ "p # t"]) (simp add: q pc_entries_def [of p] pc_notifiers_def [of p] p)
  qed
qed

lemma ww_append_batch_frame:
  assumes "ww_append_batch crc now dir w es = Inr (w', dir')"
    and "name \<noteq> sw_path (ww_current_writer w)" and "name \<noteq> sw_path (ww_current_writer w')"
  shows "map_of dir' name = map_of dir name"
proof -
  have o: "map_option (\<lambda>d. d) x = x" for x :: "bytes option" by (cases x) auto
  show ?thesis
    using assms
    by (auto simp: ww_append_batch_def sw_append_batch_def rotate_if_full_def ww_rotate_def sw_create_def
        create_new_def Let_def map_of_write_all map_add_def o
        split: prod.splits if_splits option.splits)
qed

text \<open>On the files \<open>names\<close> the disk holds what was written: always for the segments left behind, for
  the active one when a commit has been answered and no write waits for the timer.\<close>

definition durable_ok :: "string set \<Rightarrow> wal_config \<Rightarrow> group_commit \<Rightarrow> bool" where
  "durable_ok names config s \<longleftrightarrow>
     (\<forall>name \<in> names. name \<noteq> sw_path (ww_current_writer (gc_writer s))
         \<or> gc_acks s \<noteq> [] \<and> (cfg_fsync_mode config = Sync \<or> \<not> gc_has_unsynced s)
        \<longrightarrow> gc_durable s name = map_of (gc_dir s) name)"

definition committed_entries :: "pending_commit list \<Rightarrow> wal_entry list" where
  "committed_entries done = fst (assign_sequences 1 (concat (map pc_entries done)))"

definition gc_inv ::
  "(bytes \<Rightarrow> u32) \<Rightarrow> wal_config \<Rightarrow> pending_commit list \<Rightarrow> wal_entry list \<Rightarrow> pending_commit list \<Rightarrow> group_commit \<Rightarrow> bool" where
  "gc_inv crc config ps gone done s \<longleftrightarrow>
     ps = done @ gc_queue s
     \<and> (gc_stopped s = None \<or> gc_stopped s = Some (Inr ()) \<and> gc_queue s = [] \<and> \<not> gc_has_unsynced s)
     \<and> gc_acks s = map (\<lambda>i. (i, Inr ())) (concat (map pc_notifiers done))
     \<and> gc_current_segment s = sw_segment_number (ww_current_writer (gc_writer s))
     \<and> durable_ok (dom (map_of (gc_dir s))) config s
     \<and> set gone \<subseteq> set (committed_entries done)
     \<and> (\<exists>log. wal_inv crc (gc_dir s) (gc_writer s) log
          \<and> log_entries log = filter (\<lambda>e. e \<notin> set gone) (committed_entries done)
          \<and> unat (ww_next_sequence_number (gc_writer s)) = 1 + length (concat (map pc_entries done))
          \<and> unat (seg_no (last log)) \<le> 1 + length done)"

definition commits_bounded :: "pending_commit list \<Rightarrow> bool" where
  "commits_bounded ps \<longleftrightarrow> (\<forall>e \<in> set (concat (map pc_entries ps)). wal_entry_fits e)
     \<and> length (concat (map pc_entries ps)) < 2 ^ 64 - 1 \<and> length ps < 10 ^ 12 - 2"

lemma durable_ok_commit:
  assumes "durable_ok names config s" and "ww_append_batch crc now (gc_dir s) (gc_writer s) es = Inr (w', dir')"
    and "names' \<subseteq> names \<union> {sw_path (ww_current_writer (gc_writer s)), sw_path (ww_current_writer w')}"
    and "gc_writer s' = w'" and "gc_dir s' = dir'"
    and "gc_has_unsynced s' = (if cfg_fsync_mode config = Sync then gc_has_unsynced s else True)"
    and "gc_durable s' =
      (let path = sw_path (ww_current_writer (gc_writer s)); path' = sw_path (ww_current_writer w');
           durable1 = (if path' \<noteq> path then sync_file path dir' (gc_durable s) else gc_durable s)
       in if cfg_fsync_mode config = Sync then sync_file path' dir' durable1 else durable1)"
  shows "durable_ok names' config s'"
  using assms ww_append_batch_frame [OF assms(2)]
  by (auto simp: durable_ok_def sync_file_def Let_def split: if_splits)

lemma ww_append_batch_dom:
  assumes "ww_append_batch crc now dir w es = Inr (w', dir')"
  shows "dom (map_of dir') \<subseteq> dom (map_of dir) \<union> {sw_path (ww_current_writer w), sw_path (ww_current_writer w')}"
  using ww_append_batch_frame [OF assms] by (fastforce simp: dom_def)

text \<open>The committed entries carry distinct sequence numbers, so a list of some of them says which.\<close>

lemma distinct_committed:
  assumes "length (concat (map pc_entries done)) < 2 ^ 64 - 1"
  shows "distinct (committed_entries done)"
proof -
  have "map (unat \<circ> we_sequence_number) (committed_entries done)
      = [unat (1 :: u64) ..< unat (1 :: u64) + length (concat (map pc_entries done))]"
    using assms assign_sequences_spec [of 1 "concat (map pc_entries done)"] by (auto simp: committed_entries_def simp del: upt_Suc split: prod.splits)
  then show ?thesis by (metis distinct_map distinct_upt)
qed

lemma distinct_log_entries_filter:
  "distinct (log_entries log) \<Longrightarrow>
     log_entries (filter P log) = filter (\<lambda>e. e \<notin> set (log_entries (filter (\<lambda>s. \<not> P s) log))) (log_entries log)"
proof (induction log)
  case (Cons s log)
  let ?g = "set (log_entries (filter (\<lambda>s. \<not> P s) log))"
  have sub: "?g \<subseteq> set (log_entries log)" by (auto simp: log_entries_def)
  have dj: "set (snd s) \<inter> set (log_entries log) = {}" using Cons.prems by (simp add: log_entries_def)
  have "filter (\<lambda>e. e \<notin> ?g) (snd s) = snd s" using sub dj by (auto simp: filter_id_conv)
  moreover have "filter (\<lambda>e. e \<notin> set (snd s) \<and> e \<notin> ?g) (log_entries log) = filter (\<lambda>e. e \<notin> ?g) (log_entries log)"
    using dj by (intro filter_cong) auto
  moreover have "filter (\<lambda>e. e \<notin> set (snd s) \<and> e \<notin> ?g) (snd s) = []" by (simp add: filter_empty_conv)
  moreover have "log_entries (x # xs) = snd x @ log_entries xs" for x :: "segment_header \<times> wal_entry list" and xs
    by (simp add: log_entries_def)
  ultimately show ?case using Cons by (cases "P s") simp_all
qed (simp add: log_entries_def)

lemma cleanup_loop_spec:
  "cleanup_loop current t dir ns = (t', dir') \<Longrightarrow>
     dt_pairs t' = dt_pairs t
     \<and> (\<forall>f. map_of dir' f =
          (if \<exists>n \<in> set ns. f = segment_filename n \<and> n \<noteq> current \<and> dt_is_segment_clean t n then None
           else map_of dir f))"
proof (induction current t dir ns arbitrary: t' dir' rule: cleanup_loop.induct)
  case (2 current t dir n ns)
  have rm: "map_of (filter (\<lambda>(k, d). k \<noteq> a) dir) f = (if f = a then None else map_of dir f)" for a f
    by (induction dir) auto
  show ?case
  proof (cases "n \<noteq> current \<and> dt_is_segment_clean t n")
    case False
    then show ?thesis using "2.prems" "2.IH"(1,2) by (auto split: if_splits)
  next
    case True
    define dir1 where "dir1 = (case remove_file dir (segment_filename n) of Inr d \<Rightarrow> d | Inl _ \<Rightarrow> dir)"
    have d1: "map_of dir1 f = (if f = segment_filename n then None else map_of dir f)" for f
      by (auto simp: dir1_def remove_file_def rm)
    have pairs: "dt_pairs (dt_remove_segment t n) = dt_pairs t" using True dt.remove_clean by blast
    then have clean: "dt_is_segment_clean (dt_remove_segment t n) = dt_is_segment_clean t"
      by (auto simp: dt.clean_iff)
    have "cleanup_loop current (dt_remove_segment t n) dir1 ns = (t', dir')"
      using "2.prems" True by (auto simp: dir1_def split: sum.splits)
    then have "dt_pairs t' = dt_pairs (dt_remove_segment t n) \<and>
        (\<forall>f. map_of dir' f = (if \<exists>n' \<in> set ns. f = segment_filename n' \<and> n' \<noteq> current
            \<and> dt_is_segment_clean (dt_remove_segment t n) n' then None else map_of dir1 f))"
      using True "2.IH"(3,4) by (cases "remove_file dir (segment_filename n)") (auto simp: dir1_def)
    then show ?thesis unfolding pairs clean d1 using True by auto
  qed
qed simp

text \<open>What cleanup does to the log: the segments whose files it deletes are gone, nothing else.\<close>

lemma cleanup_loop_inv:
  assumes "wal_inv crc dir w log" and "current = seg_no (last log)" and "unat (seg_no (last log)) < 10 ^ 12"
    and "cleanup_loop current t dir ns = (t', dir')"
  shows "wal_inv crc dir' w (filter (\<lambda>s. map_of dir' (segment_filename (seg_no s)) \<noteq> None) log)"
  using assms
proof (induction current t dir ns arbitrary: log t' dir' rule: cleanup_loop.induct)
  case (1 current t dir)
  then have "filter (\<lambda>s. map_of dir (segment_filename (seg_no s)) \<noteq> None) log = log"
    by (fastforce simp: filter_id_conv wal_inv_def wal_repr_def seg_ok_def)
  with 1 show ?case by simp
next
  case (2 current t dir n ns)
  show ?case
  proof (cases "n \<noteq> current \<and> dt_is_segment_clean t n")
    case False
    then show ?thesis using "2.prems" "2.IH"(1,2) by (auto split: if_splits)
  next
    case True
    define dir1 where "dir1 = (case remove_file dir (segment_filename n) of Inr d \<Rightarrow> d | Inl _ \<Rightarrow> dir)"
    let ?log = "filter (\<lambda>s. seg_no s \<noteq> n) log" and ?kept = "\<lambda>s. map_of dir' (segment_filename (seg_no s)) \<noteq> None"
    have loop: "cleanup_loop current (dt_remove_segment t n) dir1 ns = (t', dir')"
      using "2.prems"(4) True by (auto simp: dir1_def split: sum.splits)
    have "last ?log = last log"
      using "2.prems"(1,2) True by (cases log rule: rev_cases) (auto simp: wal_inv_def)
    moreover have "wal_inv crc dir1 w ?log"
      unfolding dir1_def using wal_inv_remove [OF "2.prems"(1) _ "2.prems"(3)] "2.prems"(2) True by simp
    ultimately have ih: "wal_inv crc dir1 w ?log" "current = seg_no (last ?log)" "unat (seg_no (last ?log)) < 10 ^ 12"
      using "2.prems"(2,3) by simp_all
    have "wal_inv crc dir' w (filter ?kept ?log)"
    proof (cases "remove_file dir (segment_filename n)")
      case (Inl e)
      then show ?thesis using "2.IH"(3) [of e ?log t' dir'] True loop ih by (simp add: dir1_def)
    next
      case (Inr d)
      then show ?thesis using "2.IH"(4) [of d ?log t' dir'] True loop ih by (simp add: dir1_def)
    qed
    moreover have "map_of dir1 (segment_filename n) = None"
      by (auto simp: dir1_def remove_file_def map_of_remove)
    then have "map_of dir' (segment_filename n) = None" using cleanup_loop_spec [OF loop] by simp
    then have "filter ?kept ?log = filter ?kept log" by (auto intro!: filter_cong)
    ultimately show ?thesis by simp
  qed
qed

lemma segment_file_entries_repr:
  assumes "wal_repr crc dir log" and "s \<in> set log"
  shows "segment_file_entries crc dir (seg_no s) = snd s"
proof -
  obtain r where "reader_open dir (seg_no s) = Inr r" "segment_entries crc r = map Inr (snd s)"
    by (rule reader_open_repr [OF assms])
  then show ?thesis by (simp add: segment_file_entries_def)
qed

lemma deleted_entries_repr:
  assumes "wal_repr crc dir log"
  shows "deleted_entries crc dir dir' = log_entries (filter (\<lambda>s. map_of dir' (segment_filename (seg_no s)) = None) log)"
proof -
  have "deleted_entries crc dir dir' = concat (map (\<lambda>s. segment_file_entries crc dir (seg_no s))
      (filter (\<lambda>s. map_of dir' (segment_filename (seg_no s)) = None) log))"
    using assms by (simp add: deleted_entries_def wal_repr_def filter_map comp_def)
  also have "\<dots> = log_entries (filter (\<lambda>s. map_of dir' (segment_filename (seg_no s)) = None) log)"
    using segment_file_entries_repr [OF assms] by (auto simp: log_entries_def intro!: arg_cong [of _ _ concat])
  finally show ?thesis .
qed

lemma cleanup_inv:
  assumes inv: "gc_inv crc config ps gone done (wm_gc m)" and bnd: "commits_bounded ps"
  shows "gc_inv crc config ps
    (gone @ deleted_entries crc (gc_dir (wm_gc m)) (gc_dir (wm_gc (wm_cleanup_segments ns m)))) done
    (wm_gc (wm_cleanup_segments ns m))"
proof -
  let ?s = "wm_gc m" and ?all = "committed_entries done"
  obtain t dir where cl: "cleanup_loop (gc_current_segment ?s) (wm_dirty_tracker m) (gc_dir ?s) ns = (t, dir)" by fastforce
  then have s': "wm_gc (wm_cleanup_segments ns m) = ?s\<lparr>gc_dir := dir\<rparr>" by (simp add: wm_cleanup_segments_def)
  obtain log where log: "wal_inv crc (gc_dir ?s) (gc_writer ?s) log" "log_entries log = filter (\<lambda>e. e \<notin> set gone) ?all"
      "unat (ww_next_sequence_number (gc_writer ?s)) = 1 + length (concat (map pc_entries done))"
      "unat (seg_no (last log)) \<le> 1 + length done"
    using inv by (auto simp: gc_inv_def)
  define kept where "kept s \<longleftrightarrow> map_of dir (segment_filename (seg_no s)) \<noteq> None" for s :: "segment_header \<times> wal_entry list"
  have cur: "gc_current_segment ?s = seg_no (last log)" and repr: "wal_repr crc (gc_dir ?s) log"
    using inv log(1) by (auto simp: gc_inv_def wal_inv_def)
  have bound: "unat (seg_no (last log)) < 10 ^ 12" "length (concat (map pc_entries done)) < 2 ^ 64 - 1"
    using log(4) bnd inv by (auto simp: gc_inv_def commits_bounded_def)
  have inv': "wal_inv crc dir (gc_writer ?s) (filter kept log)"
    using cleanup_loop_inv [OF log(1) cur bound(1) cl] by (simp add: kept_def [abs_def])
  have gone': "deleted_entries crc (gc_dir ?s) dir = log_entries (filter (\<lambda>s. \<not> kept s) log)"
    using deleted_entries_repr [OF repr] by (simp add: kept_def)
  have "distinct (log_entries log)" using distinct_committed [OF bound(2)] log(2) by simp
  from distinct_log_entries_filter [OF this, of kept]
  have ents: "log_entries (filter kept log) = filter (\<lambda>e. e \<notin> set (gone @ deleted_entries crc (gc_dir ?s) dir)) ?all"
    unfolding gone' log(2) by (simp add: conj_commute)
  have "set (log_entries (filter (\<lambda>s. \<not> kept s) log)) \<subseteq> set (log_entries log)" by (auto simp: log_entries_def)
  then have sub: "set (gone @ deleted_entries crc (gc_dir ?s) dir) \<subseteq> set ?all"
    using inv unfolding gone' log(2) by (auto simp: gc_inv_def)
  have "map_of dir f = map_of (gc_dir ?s) f" if "f \<in> dom (map_of dir)" for f
    using that conjunct2 [OF cleanup_loop_spec [OF cl], THEN spec, of f] by (auto split: if_splits)
  moreover from this have "f \<in> dom (map_of (gc_dir ?s))" if "f \<in> dom (map_of dir)" for f
    using that by (simp add: domIff)
  ultimately have "durable_ok (dom (map_of dir)) config (?s\<lparr>gc_dir := dir\<rparr>)"
    using inv by (simp add: gc_inv_def durable_ok_def)
  moreover have "last (filter kept log) = last log"
    using inv' log(1) by (cases log rule: rev_cases) (auto simp: wal_inv_def kept_def)
  ultimately show ?thesis
    using inv inv' ents sub log(3,4) unfolding s' by (auto simp: gc_inv_def intro!: exI [of _ "filter kept log"])
qed

lemma commit_turn_inv:
  assumes inv: "gc_inv crc config ps gone done s" and bnd: "commits_bounded ps" and q: "gc_queue s \<noteq> []"
  shows "\<exists>done'. gc_inv crc config ps gone done' (commit_turn crc config now passes s)"
proof -
  obtain p rest where queue: "gc_queue s = p # rest" using q by (cases "gc_queue s") auto
  obtain es ns q' where c: "collect_batch (group_commit_max_bytes config) passes (into_parts p) rest = (es, ns, q')"
    by (metis prod_cases3)
  obtain pe pn pb where p: "into_parts p = (pe, pn, pb)" by (cases "into_parts p")
  obtain t where t: "rest = t @ q'" "es = pe @ concat (map pc_entries t)" "ns = pn @ concat (map pc_notifiers t)"
    using collect_batch_prefix c unfolding p by blast
  let ?done = "done @ p # t"
  have es: "es = concat (map pc_entries (p # t))" and ns: "ns = concat (map pc_notifiers (p # t))"
    using t by (simp_all add: pc_entries_def pc_notifiers_def p)
  have ps: "ps = ?done @ q'" using inv queue t by (simp add: gc_inv_def)
  obtain log where log: "wal_inv crc (gc_dir s) (gc_writer s) log"
      "log_entries log = filter (\<lambda>e. e \<notin> set gone) (committed_entries done)"
      "unat (ww_next_sequence_number (gc_writer s)) = 1 + length (concat (map pc_entries done))"
      "unat (seg_no (last log)) \<le> 1 + length done"
    using inv by (auto simp: gc_inv_def)
  have fits: "\<forall>e \<in> set es. wal_entry_fits e"
    and len: "unat (ww_next_sequence_number (gc_writer s)) + length es < 2 ^ 64"
    and room: "unat (seg_no (last log)) + 1 < 10 ^ 12"
    using bnd log unfolding commits_bounded_def ps es by auto
  from ww_append_batch_inv [OF log(1) fits len room, of now] obtain w' dir' log' where
    a: "ww_append_batch crc now (gc_dir s) (gc_writer s) es = Inr (w', dir')" "wal_inv crc dir' w' log'"
      "log_entries log' = log_entries log @ fst (assign_sequences (ww_next_sequence_number (gc_writer s)) es)"
      "unat (ww_next_sequence_number w') = unat (ww_next_sequence_number (gc_writer s)) + length es"
      "unat (seg_no (last log')) \<le> unat (seg_no (last log)) + 1"
    by auto
  let ?s = "commit_turn crc config now passes s"
  note turn = commit_turn_def [of crc config now passes s, unfolded queue list.case c prod.case a(1) sum.case Let_def]
  have "ww_next_sequence_number (gc_writer s) = 1 + of_nat (length (concat (map pc_entries done)))"
    using log(3) len by (simp add: word_unat_eq_iff unat_word_ariths unat_of_nat)
  then have all: "committed_entries ?done
      = committed_entries done @ fst (assign_sequences (ww_next_sequence_number (gc_writer s)) es)"
    using es by (simp add: committed_entries_def assign_sequences_append)
  have "length (concat (map pc_entries ?done)) < 2 ^ 64 - 1" using bnd unfolding commits_bounded_def ps by simp
  from distinct_committed [OF this] have "set (fst (assign_sequences (ww_next_sequence_number (gc_writer s)) es)) \<inter> set gone = {}"
    using inv unfolding all by (auto simp: gc_inv_def)
  then have "filter (\<lambda>e. e \<notin> set gone) (fst (assign_sequences (ww_next_sequence_number (gc_writer s)) es))
      = fst (assign_sequences (ww_next_sequence_number (gc_writer s)) es)"
    by (auto simp: filter_id_conv)
  then have ents: "log_entries log' = filter (\<lambda>e. e \<notin> set gone) (committed_entries ?done)"
    unfolding all a(3) log(2) by simp
  have "durable_ok (dom (map_of dir')) config ?s"
    by (rule durable_ok_commit [OF _ a(1) ww_append_batch_dom [OF a(1)]]) (use inv in \<open>simp_all add: turn gc_inv_def Let_def\<close>)
  moreover have "gc_acks ?s = map (\<lambda>i. (i, Inr ())) (concat (map pc_notifiers ?done))"
    using inv ns by (simp add: turn gc_inv_def)
  moreover have "set gone \<subseteq> set (committed_entries ?done)" using inv unfolding all by (auto simp: gc_inv_def)
  moreover have "unat (seg_no (last log')) \<le> 1 + length ?done" using a(5) log(4) by simp
  moreover have "unat (ww_next_sequence_number w') = 1 + length (concat (map pc_entries ?done))"
    using a(4) log(3) es by simp
  ultimately have "gc_inv crc config ps gone ?done ?s"
    using inv a(2) ents ps q by (auto simp: gc_inv_def turn)
  then show ?thesis by blast
qed

lemma do_sync_inv: "gc_inv crc config ps gone done s \<Longrightarrow> gc_inv crc config ps gone done (do_sync s)"
  by (auto simp: gc_inv_def do_sync_def durable_ok_def sync_file_def)

lemma gc_close_inv:
  "gc_inv crc config ps gone done s \<Longrightarrow> gc_queue s = [] \<Longrightarrow> gc_inv crc config ps gone done (gc_close s)"
  using do_sync_inv [of crc config ps gone "done" s]
  by (auto simp: gc_inv_def gc_close_def durable_ok_def do_sync_def)

lemma gc_submit_inv:
  assumes "gc_inv crc config ps gone done s" and "gc_submit p s = Inr s'" and "pc_entries p \<noteq> []"
  shows "gc_inv crc config (ps @ [p]) gone done s'"
proof -
  have "s' = s\<lparr>gc_queue := gc_queue s @ [p]\<rparr> \<and> gc_stopped s = None"
    using assms by (auto simp: gc_submit_def gc_inv_def pc_entries_def split: pending_commit.splits list.splits if_splits)
  with assms(1) show ?thesis by (simp add: gc_inv_def durable_ok_def)
qed

lemma commits_bounded_prefix: "commits_bounded (ps @ qs) \<Longrightarrow> commits_bounded ps"
  by (auto simp: commits_bounded_def)

inductive_cases wm_stepE: "wm_step crc (ps, gone, m) (ps', gone', m')"

lemma wm_step_mono: "wm_step crc (ps, gone, m) (ps', gone', m') \<Longrightarrow> (\<exists>qs. ps' = ps @ qs) \<and> wm_config m' = wm_config m"
  by (auto elim!: wm_stepE simp: wm_submit_def wm_record_def wm_mark_generation_flushed_def wm_cleanup_segments_def
      split: option.splits prod.splits)

lemma wm_reach_inv:
  assumes "wm_reach crc config ps gone m" and "commits_bounded ps"
  shows "wm_config m = config \<and> (\<exists>done. gc_inv crc config ps gone done (wm_gc m))"
  using assms
proof (induction rule: wm_reach.induct)
  case (init now m)
  obtain w dir h where o: "ww_open crc now config [] = Inr (w, dir)" "wal_inv crc dir w [(h, [])]"
      "ww_next_sequence_number w = 1" "sh_segment_number h = 1" "dom (map_of dir) = {sw_path (ww_current_writer w)}"
    using ww_open_fresh by blast
  then have m: "m = \<lparr>wm_config = config, wm_gc = gc_init w dir (map_of []), wm_dirty_tracker = dt_new, wm_submitted = None\<rparr>"
    using init by (simp add: wm_open_def)
  have "\<exists>log. wal_inv crc dir w log \<and> log_entries log = [] \<and> unat (seg_no (last log)) \<le> 1"
    using o by (intro exI [of _ "[(h, [])]"]) (simp add: seg_no_def log_entries_def)
  then have "gc_inv crc config [] [] [] (gc_init w dir (map_of []))"
    using o(3,5) by (simp add: gc_inv_def gc_init_def durable_ok_def committed_entries_def)
  with m show ?case by auto
next
  case (step ps gone m ps' gone' m')
  have "commits_bounded ps" using step wm_step_mono commits_bounded_prefix by blast
  with step.IH obtain don where cfg: "wm_config m = config" and inv: "gc_inv crc config ps gone don (wm_gc m)" by auto
  have "\<exists>done. gc_inv crc config ps' gone' done (wm_gc m')"
    using step.hyps(2)
  proof cases
    case (submit p g)
    then show ?thesis using inv by (fastforce simp: wm_submit_def dest: gc_submit_inv)
  next
    case (record_write g now)
    then show ?thesis using inv by (auto simp: wm_record_def)
  next
    case (commit now passes)
    then show ?thesis using commit_turn_inv [OF inv] step.prems cfg by auto
  next
    case timer
    then show ?thesis using inv by (auto intro: do_sync_inv)
  next
    case (mark_flushed g)
    then show ?thesis using inv by (auto simp: wm_mark_generation_flushed_def split: prod.splits)
  next
    case (cleanup ns)
    then show ?thesis using cleanup_inv [OF inv] step.prems by blast
  next
    case shutdown
    then show ?thesis using gc_close_inv [OF inv] by auto
  qed
  with cfg step.hyps(2) show ?case using wm_step_mono by fastforce
qed

text \<open>C12: group commit, under every interleaving of submissions, recordings, commit turns, timer
  syncs, flush marks, segment cleanups and the shutdown, on a log opened on an empty directory, for
  commits whose entries have encodable sizes and whose numbers stay below the bounds of the log.
  The commit loop never fails and stops only when its queue is drained; the commits answered are
  exactly a prefix of those submitted, in order, each answered \<open>Ok\<close> once; and recovery returns
  exactly the entries of the answered commits, in the order of submission with consecutive sequence
  numbers, less those whose segment file a cleanup has deleted (which files that is, is C32; that it
  can be a file with unflushed entries is C37). Once a commit has been answered, in \<open>Sync\<close> mode
  every log file is on disk as it was written, so the answered commits survive a crash; in
  \<open>BatchSync\<close> mode this holds whenever no write is waiting for the timer, and after the shutdown.\<close>

theorem group_commit_durable:
  assumes "wm_reach crc config ps gone m" and "commits_bounded ps"
  shows "\<exists>done. ps = done @ gc_queue (wm_gc m)
    \<and> (gc_stopped (wm_gc m) = None
       \<or> gc_stopped (wm_gc m) = Some (Inr ()) \<and> gc_queue (wm_gc m) = [] \<and> \<not> gc_has_unsynced (wm_gc m))
    \<and> gc_acks (wm_gc m) = map (\<lambda>i. (i, Inr ())) (concat (map pc_notifiers done))
    \<and> set gone \<subseteq> set (committed_entries done)
    \<and> wal_recover crc (gc_dir (wm_gc m)) = Inr (filter (\<lambda>e. e \<notin> set gone) (committed_entries done))
    \<and> (done \<noteq> [] \<and> (cfg_fsync_mode config = Sync \<or> \<not> gc_has_unsynced (wm_gc m))
         \<longrightarrow> map_of (gc_dir (wm_gc m)) \<subseteq>\<^sub>m gc_durable (wm_gc m))"
proof -
  obtain don where inv: "gc_inv crc config ps gone don (wm_gc m)" using wm_reach_inv [OF assms] by blast
  then obtain log where "wal_repr crc (gc_dir (wm_gc m)) log"
      "log_entries log = filter (\<lambda>e. e \<notin> set gone) (committed_entries don)"
    by (auto simp: gc_inv_def wal_inv_def)
  then have rec: "wal_recover crc (gc_dir (wm_gc m)) = Inr (filter (\<lambda>e. e \<notin> set gone) (committed_entries don))"
    by (simp add: wal_recover_repr)
  have "gc_acks (wm_gc m) \<noteq> []" if "don \<noteq> []"
    using inv that by (cases don; cases "hd don") (auto simp: gc_inv_def pc_notifiers_def)
  then have "map_of (gc_dir (wm_gc m)) \<subseteq>\<^sub>m gc_durable (wm_gc m)"
    if "don \<noteq> []" "cfg_fsync_mode config = Sync \<or> \<not> gc_has_unsynced (wm_gc m)"
    using inv that by (auto simp: gc_inv_def durable_ok_def map_le_def)
  with inv rec show ?thesis by (intro exI [of _ don]) (auto simp: gc_inv_def)
qed

theorem group_commit_durable_witness:
  "\<exists>m. wm_reach (\<lambda>_. 0) wal_config_default [Single sample_wal_entry 7] [] m
     \<and> gc_acks (wm_gc m) = [(7, Inr ())] \<and> gc_stopped (wm_gc m) = Some (Inr ())
     \<and> wal_recover (\<lambda>_. 0) (gc_dir (wm_gc m)) = Inr [sample_wal_entry\<lparr>we_sequence_number := 1\<rparr>]
     \<and> map_of (gc_dir (wm_gc m)) \<subseteq>\<^sub>m gc_durable (wm_gc m)"
proof -
  let ?p = "Single sample_wal_entry 7" and ?crc = "\<lambda>_ :: bytes. 0 :: u32"
  obtain m0 where m0: "wm_open ?crc 0 wal_config_default [] = Inr m0"
    using ww_open_fresh [of ?crc 0 wal_config_default] by (auto simp: wm_open_def)
  then have f0: "wm_submitted m0 = None" "gc_queue (wm_gc m0) = []" "gc_stopped (wm_gc m0) = None"
      "wm_config m0 = wal_config_default"
    by (auto simp: wm_open_def gc_init_def)
  let ?m1 = "m0\<lparr>wm_gc := (wm_gc m0)\<lparr>gc_queue := [?p]\<rparr>, wm_submitted := Some 0\<rparr>"
  let ?m2 = "?m1\<lparr>wm_gc := commit_turn ?crc wal_config_default 0 0 (wm_gc ?m1)\<rparr>"
  let ?m3 = "wm_record 0 ?m2"
  let ?m4 = "?m3\<lparr>wm_gc := gc_close (wm_gc ?m3)\<rparr>"
  have bnd: "commits_bounded [?p]"
    using sample_wal_entry_fits by (simp add: commits_bounded_def pc_entries_def)
  have 1: "wm_step ?crc ([], [], m0) ([] @ [?p], [], ?m1)"
    by (rule wm_step.submit [where g = 0])
      (use f0 in \<open>simp_all add: CHANNEL_CAPACITY_def wm_submit_def gc_submit_def pc_entries_def\<close>)
  have 2: "wm_step ?crc ([?p], [], ?m1) ([?p], [], ?m2)"
    using wm_step.commit [of ?m1 ?crc "[?p]" "[]" 0 0] f0 by simp
  have 3: "wm_step ?crc ([?p], [], ?m2) ([?p], [], ?m3)" by (rule wm_step.record_write [of _ 0]) simp
  have "wm_reach ?crc wal_config_default [?p] [] ?m1"
    using wm_reach.step [OF wm_reach.init [OF m0] 1] by simp
  from wm_reach.step [OF wm_reach.step [OF this 2] 3] have r3: "wm_reach ?crc wal_config_default [?p] [] ?m3" .
  have q: "gc_queue (wm_gc ?m3) = []"
    by (auto simp: commit_turn_def collect_batch.simps wm_record_def Let_def split: sum.splits prod.splits)
  have "gc_stopped (wm_gc ?m2) \<noteq> Some (Inr ())"
    using f0(3) by (auto simp: commit_turn_def Let_def split: sum.splits prod.splits list.splits)
  then have "gc_stopped (wm_gc ?m3) = None"
    using wm_reach_inv [OF r3 bnd] by (auto simp: gc_inv_def wm_record_def)
  then have "wm_step ?crc ([?p], [], ?m3) ([?p], [], ?m4)"
    using q by (intro wm_step.shutdown) (simp_all add: wm_record_def)
  with r3 have r4: "wm_reach ?crc wal_config_default [?p] [] ?m4" by (rule wm_reach.step)
  have "gc_queue (wm_gc ?m4) = []" "gc_stopped (wm_gc ?m4) = Some (Inr ())"
    using q by (simp_all add: gc_close_def do_sync_def)
  with group_commit_durable [OF r4 bnd] show ?thesis
    by (intro exI [of _ ?m4])
      (use r4 in \<open>auto simp: pc_notifiers_def pc_entries_def committed_entries_def wal_config_default_def\<close>)
qed

section \<open>Reclaiming segments\<close>

text \<open>C32: reclaiming the log after the flush of a generation. Exactly the files of those segments
  disappear whose only recorded generation was the flushed one and that are not the active segment;
  every other file is untouched, and the tracker forgets exactly the flushed generation.\<close>

theorem cleanup_after_flush:
  assumes "dt_ok (wm_dirty_tracker m)"
  shows "let (clean, m1) = wm_mark_generation_flushed g m; m2 = wm_cleanup_segments clean m1
     in (\<forall>f. map_of (gc_dir (wm_gc m2)) f =
           (if \<exists>n. f = segment_filename n \<and> n \<noteq> gc_current_segment (wm_gc m) \<and> dt_gens (wm_dirty_tracker m) n = {g}
            then None else map_of (gc_dir (wm_gc m)) f))
        \<and> dt_pairs (wm_dirty_tracker m2) = {(n, h) \<in> dt_pairs (wm_dirty_tracker m). h \<noteq> g}"
proof -
  let ?t = "wm_dirty_tracker m"
  obtain clean t1 where mk: "dt_mark_generation_flushed ?t g = (clean, t1)" by fastforce
  obtain t2 dir2 where cl: "cleanup_loop (gc_current_segment (wm_gc m)) t1 (gc_dir (wm_gc m)) clean = (t2, dir2)"
    by fastforce
  have m1: "n \<in> set clean \<longleftrightarrow> dt_gens ?t n = {g}" for n
    using dt_mark_newly_clean [OF assms, of n g] mk by simp
  have c1: "dt_is_segment_clean t1 n" if "n \<in> set clean" for n
    using dt.newly_clean_clean [OF assms, of n g] that mk by simp
  have p1: "dt_pairs t1 = {(n, h) \<in> dt_pairs ?t. h \<noteq> g}" using dt.pairs_mark [of ?t g] mk by simp
  from cleanup_loop_spec [OF cl] p1 m1 c1 show ?thesis
    by (auto simp: wm_mark_generation_flushed_def wm_cleanup_segments_def mk cl)
qed

theorem cleanup_after_flush_witness:
  "\<forall>w. let m = \<lparr>wm_config = wal_config_default, wm_gc = (gc_init w [(segment_filename 1, [1]), (segment_filename 2, [2])] (\<lambda>_. None))
             \<lparr>gc_current_segment := 2\<rparr>, wm_dirty_tracker = dt_record_write 0 dt_new 1 5 0, wm_submitted = None\<rparr>;
          (clean, m1) = wm_mark_generation_flushed 5 m
      in map_of (gc_dir (wm_gc (wm_cleanup_segments clean m1))) (segment_filename 1) = None
         \<and> map_of (gc_dir (wm_gc (wm_cleanup_segments clean m1))) (segment_filename 2) = Some [2]"
proof
  fix w
  let ?t = "dt_record_write 0 dt_new 1 5 0"
  let ?m = "\<lparr>wm_config = wal_config_default, wm_gc = (gc_init w [(segment_filename 1, [1]), (segment_filename 2, [2])] (\<lambda>_. None))
             \<lparr>gc_current_segment := 2\<rparr>, wm_dirty_tracker = ?t, wm_submitted = None\<rparr>"
  have "dt_ok ?t" by (rule dt_ok_record_write) simp
  moreover have "dt_gens ?t 1 = {5}" "dt_gens ?t 2 = {}"
    by (simp_all add: dt_gens_record_write) (simp_all add: dt_gens_def dt_new_def)
  ultimately show "let m = ?m; (clean, m1) = wm_mark_generation_flushed 5 m
      in map_of (gc_dir (wm_gc (wm_cleanup_segments clean m1))) (segment_filename 1) = None
         \<and> map_of (gc_dir (wm_gc (wm_cleanup_segments clean m1))) (segment_filename 2) = Some [2]"
    using cleanup_after_flush [of ?m 5] by (auto simp: Let_def gc_init_def split: prod.splits)
qed

section \<open>Recording after the commit: a lost write\<close>

text \<open>An append whose commit turn runs between the submission and the recording.\<close>

definition append_commit_record :: "wal_config \<Rightarrow> wal_entry \<Rightarrow> nat \<Rightarrow> u64 \<Rightarrow> wal_manager \<Rightarrow> wal_manager flush_result" where
  "append_commit_record config e i g m =
     bind_res (wm_submit (Single e i) g m) (\<lambda>m1.
       Inr (wm_record 0 (m1\<lparr>wm_gc := commit_turn (\<lambda>_. 0) config 0 0 (wm_gc m1)\<rparr>)))"

lemma append_commit_record_reach:
  assumes "wm_reach (\<lambda>_. 0) config ps gone m" and "wm_config m = config" and "wm_submitted m = None"
    and "gc_queue (wm_gc m) = []" and "append_commit_record config e i g m = Inr m'"
  shows "wm_reach (\<lambda>_. 0) config (ps @ [Single e i]) gone m'"
proof -
  obtain m1 where m1: "wm_submit (Single e i) g m = Inr m1"
    and m': "m' = wm_record 0 (m1\<lparr>wm_gc := commit_turn (\<lambda>_. 0) config 0 0 (wm_gc m1)\<rparr>)"
    using assms(5) by (auto simp: append_commit_record_def)
  have f: "wm_config m1 = config" "wm_submitted m1 = Some g" "gc_stopped (wm_gc m1) = None" "gc_queue (wm_gc m1) \<noteq> []"
    using m1 assms(2) by (auto simp: wm_submit_def gc_submit_def split: if_splits)
  have "wm_reach (\<lambda>_. 0) config (ps @ [Single e i]) gone m1"
    by (rule wm_reach.step [OF assms(1)], rule wm_step.submit [OF assms(3) _ m1])
      (simp_all add: assms(4) CHANNEL_CAPACITY_def pc_entries_def)
  then have "wm_reach (\<lambda>_. 0) config (ps @ [Single e i]) gone (m1\<lparr>wm_gc := commit_turn (\<lambda>_. 0) config 0 0 (wm_gc m1)\<rparr>)"
    by (rule wm_reach.step) (use wm_step.commit [of m1, OF f(3,4)] f(1) in metis)
  then show ?thesis unfolding m'
    by (rule wm_reach.step) (rule wm_step.record_write [of _ g], simp add: f(2))
qed

definition race_config :: wal_config where
  "race_config = wal_config_default\<lparr>segment_size_target := 100\<rparr>"

definition race_header :: "u64 \<Rightarrow> u64 \<Rightarrow> bytes" where
  "race_header n s = sh_encode \<lparr>sh_segment_number = n, sh_starting_sequence_number = s, sh_created_at_ms = 0\<rparr>"

definition race_entry :: "u64 \<Rightarrow> bytes" where
  "race_entry s = wal_encode (\<lambda>_. 0) (sample_wal_entry\<lparr>we_sequence_number := s\<rparr>)"

definition race_writer :: "u64 \<Rightarrow> u64 \<Rightarrow> u64 \<Rightarrow> u64 \<Rightarrow> u64 list \<Rightarrow> wal_writer" where
  "race_writer n sz cnt s segs = \<lparr>ww_config = race_config,
     ww_current_writer = \<lparr>sw_segment_number = n, sw_current_size = sz, sw_entry_count = cnt, sw_path = segment_filename n\<rparr>,
     ww_next_sequence_number = s, ww_segment_numbers = segs\<rparr>"

lemma length_race_entry: "length (race_entry s) = 58"
  using length_wal_encode [of "sample_wal_entry\<lparr>we_sequence_number := s\<rparr>"]
  by (simp add: race_entry_def sample_wal_entry_def total_size_def body_size_def FIXED_BODY_OVERHEAD_def)

lemma race_open:
  "ww_open (\<lambda>_. 0) 0 race_config [] = Inr (race_writer 1 32 0 1 [1], [(segment_filename 1, race_header 1 1)])"
  by (simp add: ww_open_def discover_segments_def List.map_filter_simps sw_create_def create_new_def write_all_def
      race_writer_def race_header_def SEGMENT_HEADER_SIZE_def Let_def)

lemma race_append1:
  "ww_append_batch (\<lambda>_. 0) 0 [(segment_filename 1, race_header 1 1)] (race_writer 1 32 0 1 [1]) [sample_wal_entry]
   = Inr (race_writer 1 90 1 2 [1], [(segment_filename 1, race_header 1 1 @ race_entry 1)])"
  using length_race_entry [of 1]
  by (simp add: ww_append_batch_def sw_append_batch_def rotate_if_full_def write_all_def race_writer_def
      race_entry_def race_config_def Let_def)

lemma race_append2:
  "ww_append_batch (\<lambda>_. 0) 0 [(segment_filename 1, race_header 1 1 @ race_entry 1)] (race_writer 1 90 1 2 [1]) [sample_wal_entry]
   = Inr (race_writer 2 32 0 3 [1, 2],
       [(segment_filename 1, race_header 1 1 @ race_entry 1 @ race_entry 2), (segment_filename 2, race_header 2 3)])"
  using length_race_entry [of 2]
  by (simp add: ww_append_batch_def sw_append_batch_def rotate_if_full_def ww_rotate_def sw_create_def create_new_def
      write_all_def race_writer_def race_entry_def race_header_def race_config_def SEGMENT_HEADER_SIZE_def Let_def)

definition race_gc :: "wal_writer \<Rightarrow> wal_dir \<Rightarrow> (string \<Rightarrow> bytes option) \<Rightarrow> nat list \<Rightarrow> group_commit" where
  "race_gc w dir durable acks = \<lparr>gc_queue = [], gc_writer = w, gc_dir = dir, gc_durable = durable,
     gc_current_segment = sw_segment_number (ww_current_writer w), gc_has_unsynced = False,
     gc_acks = map (\<lambda>i. (i, Inr ())) acks, gc_stopped = None\<rparr>"

lemma race_step:
  assumes "ww_append_batch (\<lambda>_. 0) 0 dir w [sample_wal_entry] = Inr (w', dir')"
  shows "\<exists>d. append_commit_record race_config sample_wal_entry i g
      \<lparr>wm_config = race_config, wm_gc = race_gc w dir durable acks, wm_dirty_tracker = t, wm_submitted = None\<rparr>
    = Inr \<lparr>wm_config = race_config, wm_gc = race_gc w' dir' d (acks @ [i]),
        wm_dirty_tracker = dt_record_write 0 t (sw_segment_number (ww_current_writer w')) g 0, wm_submitted = None\<rparr>"
  using assms
  by (simp add: append_commit_record_def wm_submit_def gc_submit_def wm_record_def commit_turn_def
      collect_batch.simps race_gc_def Let_def race_config_def wal_config_default_def)

text \<open>C37: the manager reads the segment number after the commit may already have happened, so a write
  that makes the log rotate is recorded under the next segment. There is a run in which the write of
  generation 2 is answered \<open>Ok\<close> and recoverable, generation 2 is never flushed, and yet flushing
  generation 1 and reclaiming the segments it frees deletes the file that holds the write:
  recovery then returns nothing.\<close>

theorem unflushed_write_reclaimed:
  "\<exists>m m1 clean. wm_reach (\<lambda>_. 0) race_config [Single sample_wal_entry 1, Single sample_wal_entry 2] [] m
     \<and> dt_pairs (wm_dirty_tracker m) = {(1, 1), (2, 2)}
     \<and> gc_acks (wm_gc m) = [(1, Inr ()), (2, Inr ())]
     \<and> wal_recover (\<lambda>_. 0) (gc_dir (wm_gc m))
         = Inr [sample_wal_entry\<lparr>we_sequence_number := 1\<rparr>, sample_wal_entry\<lparr>we_sequence_number := 2\<rparr>]
     \<and> wm_mark_generation_flushed 1 m = (clean, m1)
     \<and> wal_recover (\<lambda>_. 0) (gc_dir (wm_gc (wm_cleanup_segments clean m1))) = Inr []"
proof -
  let ?crc = "\<lambda>_ :: bytes. 0 :: u32" and ?e = sample_wal_entry
  let ?d1 = "[(segment_filename 1, race_header 1 1)]" and ?d2 = "[(segment_filename 1, race_header 1 1 @ race_entry 1)]"
  let ?d3 = "[(segment_filename 1, race_header 1 1 @ race_entry 1 @ race_entry 2), (segment_filename 2, race_header 2 3)]"
  define m0 where "m0 = \<lparr>wm_config = race_config, wm_gc = race_gc (race_writer 1 32 0 1 [1]) ?d1 Map.empty [],
      wm_dirty_tracker = dt_new, wm_submitted = None\<rparr>"
  have "wm_open ?crc 0 race_config [] = Inr m0"
    by (simp add: wm_open_def race_open gc_init_def race_gc_def m0_def)
  then have r0: "wm_reach ?crc race_config [] [] m0" by (rule wm_reach.init)
  let ?t1 = "dt_record_write 0 dt_new 1 1 0" and ?t2 = "dt_record_write 0 (dt_record_write 0 dt_new 1 1 0) 2 2 0"
  obtain x1 where s1: "append_commit_record race_config ?e 1 1 m0 = Inr \<lparr>wm_config = race_config,
      wm_gc = race_gc (race_writer 1 90 1 2 [1]) ?d2 x1 [1], wm_dirty_tracker = ?t1, wm_submitted = None\<rparr>"
    using race_step [OF race_append1, of 1 1 Map.empty "[]" dt_new] by (auto simp: m0_def race_writer_def)
  have r1: "wm_reach ?crc race_config [Single ?e 1] [] \<lparr>wm_config = race_config,
      wm_gc = race_gc (race_writer 1 90 1 2 [1]) ?d2 x1 [1], wm_dirty_tracker = ?t1, wm_submitted = None\<rparr>"
    using append_commit_record_reach [OF r0 _ _ _ s1] by (simp add: m0_def race_gc_def)
  obtain x2 where s2: "append_commit_record race_config ?e 2 2 \<lparr>wm_config = race_config,
      wm_gc = race_gc (race_writer 1 90 1 2 [1]) ?d2 x1 [1], wm_dirty_tracker = ?t1, wm_submitted = None\<rparr>
    = Inr \<lparr>wm_config = race_config, wm_gc = race_gc (race_writer 2 32 0 3 [1, 2]) ?d3 x2 [1, 2],
        wm_dirty_tracker = ?t2, wm_submitted = None\<rparr>"
    using race_step [OF race_append2, of 2 2 x1 "[1]" ?t1] by (auto simp: race_writer_def)
  define m where "m = \<lparr>wm_config = race_config, wm_gc = race_gc (race_writer 2 32 0 3 [1, 2]) ?d3 x2 [1, 2],
        wm_dirty_tracker = ?t2, wm_submitted = None\<rparr>"
  have r: "wm_reach ?crc race_config [Single ?e 1, Single ?e 2] [] m"
    using append_commit_record_reach [OF r1 _ _ _ s2] by (simp add: m_def race_gc_def)
  have "commits_bounded [Single ?e 1, Single ?e 2]"
    using sample_wal_entry_fits by (simp add: commits_bounded_def pc_entries_def)
  from wm_reach_inv [OF r this] have rec: "wal_recover ?crc (gc_dir (wm_gc m))
      = Inr [?e\<lparr>we_sequence_number := 1\<rparr>, ?e\<lparr>we_sequence_number := 2\<rparr>]"
    by (auto simp: gc_inv_def wal_inv_def m_def race_gc_def wal_recover_repr pc_entries_def committed_entries_def)
  have mark: "wm_mark_generation_flushed 1 m = ([1], m\<lparr>wm_dirty_tracker := snd (dt_mark_generation_flushed ?t2 1)\<rparr>)"
    by (simp add: wm_mark_generation_flushed_def dt_mark_generation_flushed_def m_def dt_record_write_def dt_new_def Let_def)
  have "gc_dir (wm_gc (wm_cleanup_segments [1] (m\<lparr>wm_dirty_tracker := snd (dt_mark_generation_flushed ?t2 1)\<rparr>)))
      = [(segment_filename 2, race_header 2 3)]"
    by (simp add: wm_cleanup_segments_def dt_mark_generation_flushed_def m_def dt_record_write_def dt_new_def Let_def
        race_gc_def race_writer_def dt_is_segment_clean_def remove_file_def)
  moreover have "wal_recover ?crc [(segment_filename 2, race_header 2 3)] = Inr []"
  proof -
    let ?h = "\<lparr>sh_segment_number = 2, sh_starting_sequence_number = 3, sh_created_at_ms = 0\<rparr>"
    have "reads_as ?crc (segment_file ?crc ?h []) ?h []" by (rule reads_as_file) simp
    then have "wal_repr ?crc [(segment_filename 2, race_header 2 3)] [(?h, [])]"
      by (simp add: wal_repr_def discover_segments_def List.map_filter_simps parse_segment_filename seg_ok_def
          seg_no_def race_header_def segment_file_def)
    from wal_recover_repr [OF this] show ?thesis by (simp add: log_entries_def)
  qed
  moreover have "dt_pairs ?t2 = {(1, 1), (2, 2)}" by (auto simp: dt.pairs_record)
  moreover have "gc_acks (wm_gc m) = [(1, Inr ()), (2, Inr ())]" by (simp add: m_def race_gc_def)
  ultimately show ?thesis using r rec mark by (auto simp: m_def)
qed

end
