(* ===== verification/Recovery.thy ===== *)
theory Recovery
  imports Flush_Pipeline Wal_Manager
begin

text \<open>
  \<^verbatim>\<open>recovery.rs\<close>: loading the latest manifest, opening its levels and replaying the log into a fresh memtable. Replay inserts
  through \<open>ml_insert\<close>, which numbers the entries anew from the flushed number on, skips entries whose token it has seen, and
  starts at the flushed number itself, so the last flushed entry is replayed when its segment is still there.
\<close>

section \<open>Definitions\<close>

record recovery_config =
  rc_manifest_config :: manifest_config
  rc_memtable_config :: memtable_config

definition recovery_config_default :: recovery_config where
  "recovery_config_default = \<lparr>rc_manifest_config = manifest_config_default, rc_memtable_config = memtable_config_default\<rparr>"

record recovery_result =
  rr_manifest_manager :: manifest_manager
  rr_levels :: "level_state list"
  rr_memtable_list :: memtable_list
  rr_next_sequence_number :: u64
  rr_wal_entries_replayed :: nat

record replay_state =
  rs_max_wal_sequence :: u64
  rs_memtable_list :: memtable_list
  rs_wal_entries_replayed :: nat

fun replay_entries :: "nat \<Rightarrow> wal_entry list \<Rightarrow> replay_state \<Rightarrow> replay_state flush_result" where
  "replay_entries n [] s = Inr s"
| "replay_entries n (wal_entry # rest) s =
     (let seq = we_sequence_number wal_entry;
          s = (if seq > rs_max_wal_sequence s then s\<lparr>rs_max_wal_sequence := seq\<rparr> else s)
      in bind_res (to_memtable_entry wal_entry) (\<lambda>e.
         case ml_insert n e (rs_memtable_list s) of
           Inr (_, l) \<Rightarrow> replay_entries n rest (s\<lparr>rs_memtable_list := l, rs_wal_entries_replayed := rs_wal_entries_replayed s + 1\<rparr>)
         | Inl (DuplicateToken _) \<Rightarrow> replay_entries n rest s
         | Inl err \<Rightarrow> Inl err))"

text \<open>The log directory is \<open>None\<close> when it does not exist; \<open>F\<close> gives the block fetcher over the store the manifest load leaves.\<close>

definition recover ::
  "codecs \<Rightarrow> manifest_json \<Rightarrow> (bytes \<Rightarrow> u32) \<Rightarrow> nat \<Rightarrow> rng \<Rightarrow> nat \<Rightarrow> u64 \<Rightarrow> wal_dir option \<Rightarrow> string \<Rightarrow> recovery_config
    \<Rightarrow> (objects \<Rightarrow> block_fetcher) \<Rightarrow> objects \<Rightarrow> recovery_result flush_result \<times> objects" where
  "recover E J crc n r t now wal_dir namespace config F objs =
     (case mm_load_latest J now (mm_new now namespace (rc_manifest_config config)) objs of
        Inl e \<Rightarrow> (Inl e, objs)
      | Inr (mm, objs) \<Rightarrow>
          (bind_res (open_levels E namespace (F objs) (mm_current mm) level_all) (\<lambda>levels.
             let flushed = mf_last_flushed_sequence (mm_current mm);
                 s = \<lparr>rs_max_wal_sequence = flushed, rs_memtable_list = ml_new r t (rc_memtable_config config) (flushed + 1),
                      rs_wal_entries_replayed = 0\<rparr>
             in bind_res (case wal_dir of
                            None \<Rightarrow> Inr s
                          | Some dir \<Rightarrow> bind_res (wal_recover_from crc dir flushed) (\<lambda>es. replay_entries n es s)) (\<lambda>s.
                Inr \<lparr>rr_manifest_manager = mm, rr_levels = levels, rr_memtable_list = rs_memtable_list s,
                     rr_next_sequence_number = rs_max_wal_sequence s + 1, rr_wal_entries_replayed = rs_wal_entries_replayed s\<rparr>)),
           objs))"

section \<open>What replay does\<close>

text \<open>The entries of a log segment as the engine wrote them, all insertable: valid keys and tokens that occur once.\<close>

definition replayable :: "wal_entry list \<Rightarrow> bool" where
  "replayable es \<longleftrightarrow> (\<forall>e \<in> set es. \<exists>x. to_memtable_entry e = Inr x)
     \<and> distinct (filter (\<lambda>t. \<not> token_is_none t) (map we_idempotency_token es))"

fun renumber :: "u64 \<Rightarrow> memtable_entry list \<Rightarrow> memtable_entry list" where
  "renumber s [] = []"
| "renumber s (e # es) = e\<lparr>me_sequence_number := s\<rparr> # renumber (s + 1) es"

definition entries_of :: "wal_entry list \<Rightarrow> memtable_entry list" where
  "entries_of es = map (\<lambda>e. projr (to_memtable_entry e)) es"

lemma to_memtable_entry_fields:
  assumes "to_memtable_entry e = Inr x"
  shows "ck_ok (me_composite_key x)" and "me_idempotency_key x = we_idempotency_token e" and "me_sequence_number x = we_sequence_number e"
    and "me_entry_type x = we_entry_type e"
  using assms by (auto simp: to_memtable_entry_def me_with_sequence_def ck_new_eq_Inr split: if_splits)

lemma ml_insert_fresh:
  assumes r: "ml_repr l (h # hs)" and t: "token_is_none (me_idempotency_key e) \<or> me_idempotency_key e \<notin> me_idempotency_key ` set (concat (h # hs))"
  shows "\<exists>l'. ml_insert n e l = Inr (mt_next_sequence_number (ml_active l), l')
    \<and> mt_next_sequence_number (ml_active l') = mt_next_sequence_number (ml_active l) + 1"
proof -
  have rep: "mt_repr (ml_active l) h" "list_all2 mt_repr (ml_frozen l) hs" "\<not> mt_frozen (ml_active l)" using r by (simp_all add: ml_repr_def)
  have "\<not> mt_check_dedup (ml_active l) (me_idempotency_key e)" "token_is_none (me_idempotency_key e) \<or> \<not> any_check_dedup (ml_frozen l) (me_idempotency_key e)"
    using t mt_check_dedup_repr [OF rep(1)] any_check_dedup_repr [OF rep(2)] by auto
  then show ?thesis using rep(3)
    by (auto simp: ml_insert_def ml_with_active_def mt_insert_def mt_insert_prechecked_def mt_check_dedup_def mt_insert_inner_def Let_def)
qed


lemma replay_entries_ok:
  assumes "ml_built (rs_memtable_list s) [h]" and "replayable es"
    and "\<forall>e \<in> set es. token_is_none (we_idempotency_token e) \<or> we_idempotency_token e \<notin> me_idempotency_key ` set h"
    and "unat (mt_next_sequence_number (ml_active (rs_memtable_list s))) + length es < 2 ^ 64"
  shows "\<exists>s'. replay_entries n es s = Inr s'
    \<and> ml_built (rs_memtable_list s') [h @ renumber (mt_next_sequence_number (ml_active (rs_memtable_list s))) (entries_of es)]
    \<and> mt_next_sequence_number (ml_active (rs_memtable_list s')) = mt_next_sequence_number (ml_active (rs_memtable_list s)) + of_nat (length es)
    \<and> rs_max_wal_sequence s' = fold max (map we_sequence_number es) (rs_max_wal_sequence s)
    \<and> rs_wal_entries_replayed s' = rs_wal_entries_replayed s + length es"
  using assms
proof (induction es arbitrary: s h)
  case Nil
  then show ?case by (simp add: entries_of_def)
next
  case (Cons e es)
  let ?l = "rs_memtable_list s" and ?c = "mt_next_sequence_number (ml_active (rs_memtable_list s))"
  let ?m = "max (we_sequence_number e) (rs_max_wal_sequence s)"
  obtain x where x: "to_memtable_entry e = Inr x" using Cons.prems(2) by (auto simp: replayable_def)
  note f = to_memtable_entry_fields [OF x]
  have tok: "token_is_none (me_idempotency_key x) \<or> me_idempotency_key x \<notin> me_idempotency_key ` set (concat [h])"
    using Cons.prems(3) f(2) by auto
  obtain l' where l': "ml_insert n x ?l = Inr (?c, l')" "mt_next_sequence_number (ml_active l') = ?c + 1"
    using ml_insert_fresh [OF ml_built_repr [OF Cons.prems(1)] tok] by blast
  have c: "unat ?c + 1 < 2 ^ 64" using Cons.prems(4) by simp
  then have "?c \<noteq> - 1" by (auto simp: unsigned_minus_1_eq_mask mask_eq_exp_minus_1)
  have uc: "unat (?c + 1) = unat ?c + 1" using c by (subst unat_add_lem [THEN iffD1]) simp_all
  have b': "ml_built l' [h @ [x\<lparr>me_sequence_number := ?c\<rparr>]]" by (rule ml_built.insert [OF Cons.prems(1) f(1) \<open>?c \<noteq> - 1\<close> l'(1)])
  let ?s = "(s\<lparr>rs_max_wal_sequence := ?m\<rparr>)\<lparr>rs_memtable_list := l', rs_wal_entries_replayed := rs_wal_entries_replayed s + 1\<rparr>"
  have step: "replay_entries n (e # es) s = replay_entries n es ?s"
    using x l' by (cases "rs_max_wal_sequence s < we_sequence_number e") (auto simp: Let_def max_def not_less dest: leD)
  have p: "replayable es" "\<forall>y \<in> set es. token_is_none (we_idempotency_token y) \<or> we_idempotency_token y \<notin> me_idempotency_key ` set (h @ [x\<lparr>me_sequence_number := ?c\<rparr>])"
  proof -
    show "replayable es" using Cons.prems(2) by (auto simp: replayable_def split: if_splits)
    have "token_is_none (we_idempotency_token y) \<or> we_idempotency_token y \<noteq> we_idempotency_token e" if "y \<in> set es" for y
    proof (cases "token_is_none (we_idempotency_token e)")
      case False
      then have "we_idempotency_token e \<notin> we_idempotency_token ` set es" using Cons.prems(2) by (auto simp: replayable_def)
      then show ?thesis using that by (metis imageI)
    qed auto
    then show "\<forall>y \<in> set es. token_is_none (we_idempotency_token y) \<or> we_idempotency_token y \<notin> me_idempotency_key ` set (h @ [x\<lparr>me_sequence_number := ?c\<rparr>])"
      using Cons.prems(3) f(2) by auto
  qed
  have "\<exists>s'. replay_entries n es ?s = Inr s'
    \<and> ml_built (rs_memtable_list s') [(h @ [x\<lparr>me_sequence_number := ?c\<rparr>]) @ renumber (?c + 1) (entries_of es)]
    \<and> mt_next_sequence_number (ml_active (rs_memtable_list s')) = ?c + 1 + of_nat (length es)
    \<and> rs_max_wal_sequence s' = fold max (map we_sequence_number es) ?m
    \<and> rs_wal_entries_replayed s' = rs_wal_entries_replayed s + 1 + length es"
    using Cons.IH [of ?s "h @ [x\<lparr>me_sequence_number := ?c\<rparr>]"] b' p Cons.prems(4) l'(2) uc by simp
  then show ?case unfolding step by (simp add: entries_of_def x algebra_simps)
qed

lemma recover_ok:
  assumes load: "mm_load_latest J now (mm_new now ns (rc_manifest_config config)) objs = Inr (mm, objs')"
    and st: "store_ok E objs' ns (mm_current mm) T"
    and log: "wal_repr crc dir log" "log_chain lo log hi"
    and es: "es = filter (\<lambda>e. mf_last_flushed_sequence (mm_current mm) \<le> we_sequence_number e) (log_entries log)" "replayable es"
    and c: "unat (mf_last_flushed_sequence (mm_current mm)) + 1 + length es < 2 ^ 64"
  shows "\<exists>rr. recover E J crc n r t now (Some dir) ns config (direct_fetcher E) objs = (Inr rr, objs')
    \<and> rr_manifest_manager rr = mm \<and> levels_repr E objs' (rr_levels rr) (table_entries T)
    \<and> ml_built (rr_memtable_list rr) [renumber (mf_last_flushed_sequence (mm_current mm) + 1) (entries_of es)]
    \<and> mt_next_sequence_number (ml_active (rr_memtable_list rr)) = mf_last_flushed_sequence (mm_current mm) + 1 + of_nat (length es)
    \<and> rr_next_sequence_number rr = fold max (map we_sequence_number es) (mf_last_flushed_sequence (mm_current mm)) + 1
    \<and> rr_wal_entries_replayed rr = length es"
proof -
  let ?f = "mf_last_flushed_sequence (mm_current mm)"
  obtain levels where lv: "open_levels E ns (direct_fetcher E objs') (mm_current mm) level_all = Inr levels" "levels_repr E objs' levels (table_entries T)"
    using open_levels_repr [OF st] by blast
  let ?s = "\<lparr>rs_max_wal_sequence = ?f, rs_memtable_list = ml_new r t (rc_memtable_config config) (?f + 1), rs_wal_entries_replayed = 0\<rparr>"
  have nx: "mt_next_sequence_number (ml_active (rs_memtable_list ?s)) = ?f + 1" by (simp add: ml_new_def)
  have "unat (?f + 1) = unat ?f + 1" using c by (subst unat_add_lem [THEN iffD1]) simp_all
  then obtain s' where s': "replay_entries n es ?s = Inr s'" "ml_built (rs_memtable_list s') [renumber (?f + 1) (entries_of es)]"
    "mt_next_sequence_number (ml_active (rs_memtable_list s')) = ?f + 1 + of_nat (length es)"
    "rs_max_wal_sequence s' = fold max (map we_sequence_number es) ?f" "rs_wal_entries_replayed s' = length es"
    using replay_entries_ok [of ?s "[]" es n] ml_built.new es(2) c nx by auto
  have "wal_recover_from crc dir ?f = Inr es" using wal_recover_from_repr [OF log] es(1) by simp
  then show ?thesis using load lv s' by (simp add: recover_def Let_def)
qed


section \<open>Renumbering changes no read\<close>

text \<open>Two lists of entries that differ in their sequence numbers only, in the same order, all above those of \<open>base\<close>.\<close>

definition alike :: "memtable_entry list \<Rightarrow> memtable_entry list \<Rightarrow> memtable_entry list \<Rightarrow> bool" where
  "alike base xs ys \<longleftrightarrow> length xs = length ys
     \<and> (\<forall>i < length xs. ys ! i = (xs ! i)\<lparr>me_sequence_number := me_sequence_number (ys ! i)\<rparr>)
     \<and> (\<forall>i < length xs. \<forall>j < length xs. me_sequence_number (xs ! i) \<le> me_sequence_number (xs ! j) \<longleftrightarrow> me_sequence_number (ys ! i) \<le> me_sequence_number (ys ! j))
     \<and> (\<forall>b \<in> set base. \<forall>x \<in> set xs \<union> set ys. me_sequence_number b < me_sequence_number x)"

definition payload :: "merge_entry \<Rightarrow> merge_entry" where
  "payload g = g\<lparr>mg_sequence_number := 0\<rparr>"

abbreviation content :: "memtable_entry \<Rightarrow> merge_entry" where
  "content e \<equiv> payload (mg_from_memtable_entry e)"

lemma content_eq: "content a = content b \<longleftrightarrow> me_composite_key a = me_composite_key b \<and> me_value a = me_value b
    \<and> me_metadata a = me_metadata b \<and> me_entry_type a = me_entry_type b"
  by (auto simp: payload_def mg_from_memtable_entry_def)

definition hits :: "memtable_entry \<Rightarrow> composite_key \<Rightarrow> bool" where
  "hits e k \<longleftrightarrow> me_entry_type e = RangeDelete \<and> rt_record_id (tombstone_of e) = record_id k \<and> rt_start_key (tombstone_of e) \<le> item_key k
     \<and> (rt_end_key (tombstone_of e) = [] \<or> item_key k < rt_end_key (tombstone_of e))"

lemma history_covers_hits: "history_covers es k s \<longleftrightarrow> (\<exists>t \<in> set es. hits t k \<and> s < me_sequence_number t)"
  by (auto simp: history_covers_def hits_def ts_covers_def tombstone_of_def Let_def)

lemma alike_at:
  assumes "alike base xs ys" and "i < length xs"
  shows "me_composite_key (ys ! i) = me_composite_key (xs ! i)" and "me_entry_type (ys ! i) = me_entry_type (xs ! i)"
    and "content (ys ! i) = content (xs ! i)" and "hits (ys ! i) = hits (xs ! i)"
proof -
  define y where "y = ys ! i"
  have e: "y = (xs ! i)\<lparr>me_sequence_number := me_sequence_number y\<rparr>" using assms by (simp add: alike_def y_def)
  show "me_composite_key (ys ! i) = me_composite_key (xs ! i)" "me_entry_type (ys ! i) = me_entry_type (xs ! i)" "content (ys ! i) = content (xs ! i)"
    unfolding y_def [symmetric] content_eq by (subst e; simp)+
  show "hits (ys ! i) = hits (xs ! i)" unfolding y_def [symmetric] by (subst e) (simp add: hits_def tombstone_of_def Let_def fun_eq_iff)
qed

lemma alike_sym: "alike base xs ys \<Longrightarrow> alike base ys xs"
proof -
  assume a: "alike base xs ys"
  have "xs ! i = (ys ! i)\<lparr>me_sequence_number := me_sequence_number (xs ! i)\<rparr>" if "i < length xs" for i
  proof -
    have "ys ! i = (xs ! i)\<lparr>me_sequence_number := me_sequence_number (ys ! i)\<rparr>" using a that by (simp add: alike_def)
    then show ?thesis by (metis (no_types, lifting) memtable_entry.surjective memtable_entry.update_convs(5))
  qed
  then show ?thesis using a by (auto simp: alike_def)
qed

lemma alike_visible:
  assumes a: "alike base xs ys" and v: "visible xs base k e"
  shows "\<exists>e'. visible ys base k e' \<and> content e' = content e"
proof -
  have len: "length xs = length ys" using a by (simp add: alike_def)
  have iso: "me_sequence_number (ys ! i) \<le> me_sequence_number (ys ! j) \<longleftrightarrow> me_sequence_number (xs ! i) \<le> me_sequence_number (xs ! j)"
    if "i < length xs" "j < length xs" for i j using a that by (simp add: alike_def)
  have lo: "me_sequence_number b < me_sequence_number x" "me_sequence_number b < me_sequence_number y"
    if "b \<in> set base" "x \<in> set xs" "y \<in> set ys" for b x y using a that unfolding alike_def by blast+
  have vm: "me_composite_key e = k" "me_entry_type e = Put" "\<not> history_covers xs k (me_sequence_number e)" "e \<in> set xs \<or> e \<in> set base"
    and mx: "\<And>x. x \<in> set xs \<or> x \<in> set base \<Longrightarrow> me_composite_key x = k \<Longrightarrow> me_sequence_number x \<le> me_sequence_number e"
    using v by (auto simp: visible_def)
  show ?thesis
  proof (cases "e \<in> set xs")
    case True
    then obtain i where i: "i < length xs" "e = xs ! i" by (metis in_set_conv_nth)
    let ?e = "ys ! i"
    have "me_sequence_number y \<le> me_sequence_number ?e" if y: "y \<in> set ys" "me_composite_key y = k" for y
    proof -
      obtain j where j: "j < length xs" "y = ys ! j" using y(1) len by (metis in_set_conv_nth)
      then have "me_sequence_number (xs ! j) \<le> me_sequence_number e" using mx [of "xs ! j"] y(2) alike_at(1) [OF a j(1)] by simp
      then show ?thesis using iso [OF j(1) i(1)] i(2) j(2) by simp
    qed
    moreover have "me_sequence_number b \<le> me_sequence_number ?e" if "b \<in> set base" for b
      using lo(2) [OF that True, of ?e] i(1) len by simp
    moreover have "\<not> history_covers ys k (me_sequence_number ?e)"
    proof
      assume "history_covers ys k (me_sequence_number ?e)"
      then obtain j where j: "j < length xs" "hits (ys ! j) k" "me_sequence_number ?e < me_sequence_number (ys ! j)"
        unfolding history_covers_hits len by (metis in_set_conv_nth)
      then have "hits (xs ! j) k" "me_sequence_number e < me_sequence_number (xs ! j)"
        using alike_at(4) [OF a j(1)] iso [OF j(1) i(1)] i(2) by (simp_all add: not_le [symmetric])
      then show False using vm(3) j(1) unfolding history_covers_hits by (metis nth_mem)
    qed
    ultimately have "visible ys base k ?e"
      using alike_at(1,2) [OF a i(1)] vm(1,2) i len by (auto simp: visible_def)
    then show ?thesis using alike_at(3) [OF a i(1)] i(2) by metis
  next
    case False
    then have b: "e \<in> set base" using vm(4) by blast
    have no: "me_composite_key (xs ! i) \<noteq> k" if i: "i < length xs" for i
    proof
      assume "me_composite_key (xs ! i) = k"
      then have "me_sequence_number (xs ! i) \<le> me_sequence_number e" using mx i by simp
      moreover have "me_sequence_number e < me_sequence_number (xs ! i)" using lo(1) [OF b, of "xs ! i" "ys ! i"] i len by simp
      ultimately show False by simp
    qed
    have "\<not> history_covers ys k (me_sequence_number e)"
    proof
      assume "history_covers ys k (me_sequence_number e)"
      then obtain j where j: "j < length xs" "hits (ys ! j) k" unfolding history_covers_hits len by (metis in_set_conv_nth)
      then have "hits (xs ! j) k" "me_sequence_number e < me_sequence_number (xs ! j)"
        using alike_at(4) [OF a j(1)] lo(1) [OF b, of "xs ! j" "ys ! j"] len by simp_all
      then show False using vm(3) j(1) unfolding history_covers_hits by (metis nth_mem)
    qed
    moreover have "me_composite_key y \<noteq> k" if "y \<in> set ys" for y
      using that no alike_at(1) [OF a] len by (metis in_set_conv_nth)
    ultimately have "visible ys base k e" using vm(1,2) b mx by (auto simp: visible_def)
    then show ?thesis by blast
  qed
qed


lemma renumber_length [simp]: "length (renumber s es) = length es"
  by (induction s es rule: renumber.induct) simp_all

lemma renumber_nth: "i < length es \<Longrightarrow> renumber s es ! i = (es ! i)\<lparr>me_sequence_number := s + of_nat i\<rparr>"
  by (induction s es arbitrary: i rule: renumber.induct) (auto simp: nth_Cons algebra_simps split: nat.splits)

lemma unat_plus_nat: "unat (s :: u64) + i < 2 ^ 64 \<Longrightarrow> unat (s + of_nat i) = unat s + i"
  by (simp add: unat_word_ariths(1) unat_of_nat)

lemma renumber_alike:
  assumes "sorted_wrt (\<lambda>a b. me_sequence_number a < me_sequence_number b) xs" and c: "unat s + length xs < 2 ^ 64"
    and "\<forall>b \<in> set base. me_sequence_number b < s" and "\<forall>b \<in> set base. \<forall>x \<in> set xs. me_sequence_number b < me_sequence_number x"
  shows "alike base xs (renumber s xs)"
proof -
  have u: "unat (me_sequence_number (renumber s xs ! i)) = unat s + i" if "i < length xs" for i
    using that c by (simp add: renumber_nth unat_plus_nat)
  have o: "me_sequence_number (xs ! i) \<le> me_sequence_number (xs ! j) \<longleftrightarrow> i \<le> j" if "i < length xs" "j < length xs" for i j
    using assms(1) that unfolding sorted_wrt_iff_nth_less by (metis less_imp_le linorder_neqE_nat not_le order_refl)
  have "me_sequence_number b < me_sequence_number y" if b: "b \<in> set base" and y: "y \<in> set (renumber s xs)" for b y
  proof -
    obtain i where i: "i < length xs" "y = renumber s xs ! i" using y by (metis in_set_conv_nth renumber_length)
    have "unat (me_sequence_number b) < unat s" using assms(3) b by (simp add: word_less_nat_alt)
    then show ?thesis using u [OF i(1)] i(2) by (simp add: word_less_nat_alt)
  qed
  moreover have "me_sequence_number (xs ! i) \<le> me_sequence_number (xs ! j) \<longleftrightarrow> me_sequence_number (renumber s xs ! i) \<le> me_sequence_number (renumber s xs ! j)"
    if "i < length xs" "j < length xs" for i j
  proof -
    have "me_sequence_number (renumber s xs ! i) \<le> me_sequence_number (renumber s xs ! j) \<longleftrightarrow> i \<le> j"
      unfolding word_le_nat_alt u [OF that(1)] u [OF that(2)] by simp
    then show ?thesis using o [OF that] by simp
  qed
  ultimately show ?thesis using assms(4) by (auto simp: alike_def renumber_nth)
qed

text \<open>The last flushed entry, replayed: the SSTables hold its content, or nothing visible for a deleted key.\<close>

definition flushed_as :: "memtable_entry list \<Rightarrow> memtable_entry \<Rightarrow> bool" where
  "flushed_as base x \<longleftrightarrow> me_entry_type x \<noteq> RangeDelete
     \<and> (me_entry_type x = Put \<longrightarrow> (\<exists>b \<in> set base. content b = content x
          \<and> (\<forall>c \<in> set base. me_composite_key c = me_composite_key x \<longrightarrow> me_sequence_number c \<le> me_sequence_number b)))
     \<and> (me_entry_type x = Delete \<longrightarrow> (\<forall>b \<in> set base. me_composite_key b = me_composite_key x \<longrightarrow>
          (\<exists>c \<in> set base. me_composite_key c = me_composite_key x \<and> me_sequence_number b \<le> me_sequence_number c \<and> me_entry_type c \<noteq> Put)))"

lemma replayed_visible:
  assumes f: "flushed_as base x" and uniq: "\<forall>a \<in> set base. \<forall>b \<in> set base. same_version a b \<longrightarrow> a = b"
    and lo: "\<forall>b \<in> set base. me_sequence_number b < s" and hi: "\<forall>y \<in> set ys. s < me_sequence_number y"
  shows "(\<exists>e. visible (x\<lparr>me_sequence_number := s\<rparr> # ys) base k e \<and> content e = p) \<longleftrightarrow> (\<exists>e. visible ys base k e \<and> content e = p)"
proof -
  let ?x = "x\<lparr>me_sequence_number := s\<rparr>"
  have cov: "history_covers (?x # ys) k q = history_covers ys k q" for q using f by (simp add: flushed_as_def history_covers_def)
  have lt: "\<forall>b \<in> set base. \<forall>y \<in> set ys. me_sequence_number b < me_sequence_number y" using lo hi by (meson less_trans)
  have all: "history_covers ys k q \<longleftrightarrow> (\<exists>y \<in> set ys. hits y k)" if "q \<le> s" for q
    using hi that unfolding history_covers_hits by (meson le_less_trans)
  show ?thesis
  proof (cases "me_composite_key x = k \<and> (\<forall>y \<in> set ys. me_composite_key y \<noteq> k)")
    case False
    have "visible (?x # ys) base k e \<longleftrightarrow> visible ys base k e" for e
    proof (cases "me_composite_key x = k")
      case True
      then obtain y where y: "y \<in> set ys" "me_composite_key y = k" using False by blast
      then have "s < me_sequence_number y" using hi by blast
      moreover have "\<not> me_sequence_number y \<le> s" using calculation by simp
      ultimately show ?thesis using y unfolding visible_def cov
        by (auto simp: intro: order_trans [OF less_imp_le])
    qed (auto simp: visible_def cov)
    then show ?thesis by simp
  next
    case True
    have vx: "visible (?x # ys) base k e \<longleftrightarrow> e = ?x \<and> me_entry_type x = Put \<and> \<not> (\<exists>y \<in> set ys. hits y k)" for e
    proof -
      have "e \<in> set base \<Longrightarrow> \<not> visible (?x # ys) base k e" using lo True by (force simp: visible_def)
      moreover have "visible (?x # ys) base k ?x \<longleftrightarrow> me_entry_type x = Put \<and> \<not> (\<exists>y \<in> set ys. hits y k)"
        using True lo all [of s] unfolding visible_def cov by (auto intro: less_imp_le)
      moreover have "visible (?x # ys) base k e \<Longrightarrow> e = ?x \<or> e \<in> set base" using True by (auto simp: visible_def)
      ultimately show ?thesis by blast
    qed
    have vb: "visible ys base k e \<longleftrightarrow> e \<in> set base \<and> me_composite_key e = k \<and> me_entry_type e = Put
        \<and> (\<forall>c \<in> set base. me_composite_key c = k \<longrightarrow> me_sequence_number c \<le> me_sequence_number e) \<and> \<not> (\<exists>y \<in> set ys. hits y k)" for e
      using True all [of "me_sequence_number e"] lo unfolding visible_def by (auto intro: less_imp_le)
    have same: "a = c" if "a \<in> set base" "c \<in> set base" "me_composite_key a = k" "me_composite_key c = k"
        "me_sequence_number a \<le> me_sequence_number c" "me_sequence_number c \<le> me_sequence_number a" for a c
      using uniq that by (simp add: same_version_def)
    show ?thesis
    proof (cases "me_entry_type x")
      case Put
      then obtain b where b: "b \<in> set base" "content b = content x" "\<forall>c \<in> set base. me_composite_key c = k \<longrightarrow> me_sequence_number c \<le> me_sequence_number b"
        using f True by (auto simp: flushed_as_def)
      have k: "me_composite_key b = k" "me_entry_type b = Put" "content ?x = content x" using b(2) True Put by (simp_all add: content_eq)
      have "visible ys base k e \<longleftrightarrow> e = b \<and> \<not> (\<exists>y \<in> set ys. hits y k)" for e
        unfolding vb using b(1,3) k(1,2) same by blast
      then show ?thesis unfolding vx using Put k(3) b(2) by auto
    next
      case Delete
      then have d: "\<forall>b \<in> set base. me_composite_key b = k \<longrightarrow>
          (\<exists>c \<in> set base. me_composite_key c = k \<and> me_sequence_number b \<le> me_sequence_number c \<and> me_entry_type c \<noteq> Put)"
        using f True by (simp add: flushed_as_def)
      have "\<not> visible ys base k e" for e unfolding vb using d same by blast
      then show ?thesis unfolding vx using Delete by simp
    qed (use f in \<open>simp add: flushed_as_def\<close>)
  qed
qed


section \<open>Recovery changes no read\<close>

lemma chronological:
  assumes "ml_built l hs"
  shows "sorted_wrt (\<lambda>a b. me_sequence_number a < me_sequence_number b) (concat (rev hs))"
proof -
  have g: "\<forall>h \<in> set hs. sorted_wrt (\<lambda>a b. me_sequence_number a < me_sequence_number b) h" by (rule ml_built_grow [OF assms])
  have "sorted_wrt (\<lambda>newer older. \<forall>a \<in> set newer. \<forall>b \<in> set older. me_sequence_number b < me_sequence_number a) hs"
    using ml_built_repr [OF assms] by (simp add: ml_repr_def)
  then show ?thesis using g
  proof (induction hs)
    case (Cons h hs)
    then show ?case by (auto simp: sorted_wrt_append)
  qed simp
qed

definition loggable :: "memtable_entry \<Rightarrow> bool" where
  "loggable e \<longleftrightarrow> ck_ok (me_composite_key e) \<and> rid_ok (record_id (me_composite_key e)) \<and> length (item_key (me_composite_key e)) \<le> MAX_ITEM_KEY_LEN"

lemma logged_entries:
  assumes "\<forall>e \<in> set xs. loggable e"
  shows "entries_of (map (\<lambda>e. from_memtable_entry e ns) xs) = xs"
    and "distinct (filter (\<lambda>t. \<not> token_is_none t) (map me_idempotency_key xs)) \<Longrightarrow> replayable (map (\<lambda>e. from_memtable_entry e ns) xs)"
proof -
  have r: "to_memtable_entry (from_memtable_entry e ns) = Inr e" if "e \<in> set xs" for e
    using assms that wal_memtable_roundtrip by (simp add: loggable_def)
  show "entries_of (map (\<lambda>e. from_memtable_entry e ns) xs) = xs" by (simp add: entries_of_def o_def r map_idI)
  show "replayable (map (\<lambda>e. from_memtable_entry e ns) xs)" if "distinct (filter (\<lambda>t. \<not> token_is_none t) (map me_idempotency_key xs))"
    using that r by (auto simp: replayable_def o_def from_memtable_entry_def)
qed

text \<open>Log entries that are the memtable entries up to their numbers, as after a recovery, which numbers the entries of the memtable anew.\<close>

definition unnumbered :: "wal_entry \<Rightarrow> wal_entry" where
  "unnumbered w = w\<lparr>we_sequence_number := 0\<rparr>"

lemma unnumbered_logged:
  assumes "map unnumbered es = map (\<lambda>e. unnumbered (from_memtable_entry e ns)) xs"
  shows "\<exists>ys. es = map (\<lambda>e. from_memtable_entry e ns) ys \<and> map (\<lambda>e. e\<lparr>me_sequence_number := 0\<rparr>) ys = map (\<lambda>e. e\<lparr>me_sequence_number := 0\<rparr>) xs"
  using assms
proof (induction xs arbitrary: es)
  case (Cons x xs)
  then obtain w ws where w: "es = w # ws" "unnumbered w = unnumbered (from_memtable_entry x ns)" "map unnumbered ws = map (\<lambda>e. unnumbered (from_memtable_entry e ns)) xs"
    by (cases es) auto
  obtain ys where ys: "ws = map (\<lambda>e. from_memtable_entry e ns) ys" "map (\<lambda>e. e\<lparr>me_sequence_number := 0\<rparr>) ys = map (\<lambda>e. e\<lparr>me_sequence_number := 0\<rparr>) xs"
    using Cons.IH [OF w(3)] by blast
  have "w = from_memtable_entry (x\<lparr>me_sequence_number := we_sequence_number w\<rparr>) ns"
    using w(2) by (cases w) (simp add: unnumbered_def from_memtable_entry_def)
  then show ?case using w(1) ys by (intro exI [of _ "x\<lparr>me_sequence_number := we_sequence_number w\<rparr> # ys"]) simp
qed simp

lemma renumber_cong:
  "map (\<lambda>e. e\<lparr>me_sequence_number := 0\<rparr>) ys = map (\<lambda>e. e\<lparr>me_sequence_number := 0\<rparr>) xs \<Longrightarrow> renumber s ys = renumber s xs"
proof (induction xs arbitrary: s ys)
  case (Cons x xs)
  then obtain y ys' where y: "ys = y # ys'" "y\<lparr>me_sequence_number := 0\<rparr> = x\<lparr>me_sequence_number := 0\<rparr>"
    "map (\<lambda>e. e\<lparr>me_sequence_number := 0\<rparr>) ys' = map (\<lambda>e. e\<lparr>me_sequence_number := 0\<rparr>) xs" by (cases ys) auto
  have "y\<lparr>me_sequence_number := s\<rparr> = (y\<lparr>me_sequence_number := 0\<rparr>)\<lparr>me_sequence_number := s\<rparr>" by simp
  also have "\<dots> = x\<lparr>me_sequence_number := s\<rparr>" by (subst y(2)) simp
  finally show ?case by (simp add: y(1) Cons.IH [OF y(3)])
qed simp

lemma logged_up_to_numbers:
  assumes es: "map unnumbered es = map (\<lambda>e. unnumbered (from_memtable_entry e ns)) xs"
    and ok: "\<forall>e \<in> set xs. loggable e" "distinct (filter (\<lambda>t. \<not> token_is_none t) (map me_idempotency_key xs))"
  shows "renumber s (entries_of es) = renumber s xs" "replayable es" "length es = length xs"
proof -
  obtain ys where ys: "es = map (\<lambda>e. from_memtable_entry e ns) ys" "map (\<lambda>e. e\<lparr>me_sequence_number := 0\<rparr>) ys = map (\<lambda>e. e\<lparr>me_sequence_number := 0\<rparr>) xs"
    using unnumbered_logged [OF es] by blast
  have keys: "map me_composite_key ys = map me_composite_key xs" "map me_idempotency_key ys = map me_idempotency_key xs"
    using arg_cong [OF ys(2), of "map me_composite_key"] arg_cong [OF ys(2), of "map me_idempotency_key"] by (simp_all add: o_def)
  have "me_composite_key ` set ys = me_composite_key ` set xs" by (metis keys(1) image_set)
  then have l: "\<forall>e \<in> set ys. loggable e" using ok(1) unfolding loggable_def by (metis (no_types, lifting) imageE imageI)
  show "renumber s (entries_of es) = renumber s xs" unfolding ys(1) logged_entries(1) [OF l] by (rule renumber_cong [OF ys(2)])
  show "replayable es" unfolding ys(1) by (rule logged_entries(2) [OF l]) (simp add: keys(2) ok(2))
  show "length es = length xs" using es by (metis length_map)
qed

lemma recovered_visible:
  assumes srt: "sorted_wrt (\<lambda>a b. me_sequence_number a < me_sequence_number b) xs"
    and pre: "pre = [] \<or> (\<exists>x. pre = [x] \<and> flushed_as base x)"
    and uniq: "\<forall>a \<in> set base. \<forall>b \<in> set base. same_version a b \<longrightarrow> a = b"
    and lo: "\<forall>b \<in> set base. me_sequence_number b \<le> f" and hi: "\<forall>x \<in> set xs. f < me_sequence_number x"
    and c: "unat f + 1 + length (pre @ xs) < 2 ^ 64"
  shows "(\<exists>e. visible xs base k e \<and> content e = p) \<longleftrightarrow> (\<exists>e. visible (renumber (f + 1) (pre @ xs)) base k e \<and> content e = p)"
proof -
  have u: "unat (f + 1) = unat f + 1" using unat_plus_nat [of f 1] c by simp
  have f1: "\<forall>b \<in> set base. me_sequence_number b < f + 1" using lo u by (simp add: word_less_nat_alt word_le_nat_alt less_Suc_eq_le)
  have bx: "\<forall>b \<in> set base. \<forall>x \<in> set xs. me_sequence_number b < me_sequence_number x" using lo hi by (meson le_less_trans)
  have al: "(\<exists>e. visible xs base k e \<and> content e = p) \<longleftrightarrow> (\<exists>e. visible (renumber s xs) base k e \<and> content e = p)"
    if "unat s + length xs < 2 ^ 64" "\<forall>b \<in> set base. me_sequence_number b < s" for s
  proof -
    have a: "alike base xs (renumber s xs)" by (rule renumber_alike [OF srt that bx])
    show ?thesis using alike_visible [OF a] alike_visible [OF alike_sym [OF a]] by metis
  qed
  show ?thesis
  proof (cases "pre = []")
    case True
    then show ?thesis using al [of "f + 1"] c f1 u by simp
  next
    case False
    then obtain x where x: "pre = [x]" "flushed_as base x" using pre by blast
    have u2: "unat (f + 1 + 1) = unat f + 2" using unat_plus_nat [of f 2] c x(1) by (simp add: add.assoc)
    have "s1 < me_sequence_number y" if s1: "s1 = f + 1" and y: "y \<in> set (renumber (f + 1 + 1) xs)" for y s1
    proof -
      obtain i where i: "i < length xs" "y = renumber (f + 1 + 1) xs ! i" using y by (metis in_set_conv_nth renumber_length)
      have "unat (me_sequence_number y) = unat f + 2 + i" using i u2 unat_plus_nat [of "f + 1 + 1" i] c x(1) by (simp add: renumber_nth)
      then show ?thesis using u s1 by (simp add: word_less_nat_alt)
    qed
    then have hi': "\<forall>y \<in> set (renumber (f + 1 + 1) xs). f + 1 < me_sequence_number y" by blast
    have "\<forall>b \<in> set base. me_sequence_number b < f + 1 + 1" using lo u2 by (fastforce simp: word_less_nat_alt word_le_nat_alt)
    then have "(\<exists>e. visible xs base k e \<and> content e = p) \<longleftrightarrow> (\<exists>e. visible (renumber (f + 1 + 1) xs) base k e \<and> content e = p)"
      using al [of "f + 1 + 1"] c u2 x(1) by simp
    also have "\<dots> \<longleftrightarrow> (\<exists>e. visible (renumber (f + 1) (pre @ xs)) base k e \<and> content e = p)"
      using replayed_visible [OF x(2) uniq f1 hi', of k p] x(1) by simp
    finally show ?thesis .
  qed
qed

lemma same_payload:
  assumes "\<forall>g. r = Some g \<longleftrightarrow> (\<exists>e. visible mem base k e \<and> g = mg_from_memtable_entry e)"
    and "\<forall>g. r' = Some g \<longleftrightarrow> (\<exists>e. visible mem' base' k e \<and> g = mg_from_memtable_entry e)"
    and "\<And>p. (\<exists>e. visible mem base k e \<and> content e = p) \<longleftrightarrow> (\<exists>e. visible mem' base' k e \<and> content e = p)"
  shows "map_option payload r = map_option payload r'"
proof -
  have opt: "map_option payload q = Some p \<longleftrightarrow> (\<exists>g. q = Some g \<and> payload g = p)" for q p by (cases q) auto
  have a: "map_option payload r = Some p \<longleftrightarrow> (\<exists>e. visible mem base k e \<and> content e = p)" for p
    unfolding opt assms(1) [rule_format] by blast
  have b: "map_option payload r' = Some p \<longleftrightarrow> (\<exists>e. visible mem' base' k e \<and> content e = p)" for p
    unfolding opt assms(2) [rule_format] by blast
  have "map_option payload r = Some p \<longleftrightarrow> map_option payload r' = Some p" for p unfolding a b by (rule assms(3))
  then show ?thesis by (metis option.exhaust)
qed


text \<open>C6: recovery after a crash changes no read. Let the memtables and SSTables be as in a running engine, no SSTable splitting the versions of a key, the numbers of the memtables above the flushed number and
  those of the SSTables not above it. Suppose further that the entries of the log numbered from the flushed number on are, in order and up to their numbers, those of the memtables, perhaps after
  the last flushed entry, and that no two of them have the same token. (The log numbers its entries itself: after it has started over, or after a flush of
  renumbered entries, the entries found by number are not those of the memtables, and writes are lost.) Then recovery loads the latest manifest, opens
  its levels, replays the log into one memtable and succeeds; for every key a point read over the recovered state returns the same value
  and metadata as before the crash, although the replayed entries are numbered anew. The counter of the memtable is past all
  replayed entries; the next sequence number is one past the greatest number in the log.\<close>
theorem recovery_preserves_reads:
  assumes load: "mm_load_latest J now (mm_new now ns (rc_manifest_config config)) objs = Inr (mm, objs)"
    and st: "store_holds E objs ns (mm_current mm) T" "unsplit_store E objs ns (mm_current mm)"
    and levels: "open_levels E ns (direct_fetcher E objs) (mm_current mm) level_all = Inr levels"
    and b: "ml_built l hs" and low: "below_memtables (table_entries T) (concat hs)"
    and f: "f = mf_last_flushed_sequence (mm_current mm)" "\<forall>x \<in> set (table_entries T). me_sequence_number x \<le> f" "\<forall>x \<in> set (concat hs). f < me_sequence_number x"
    and log: "wal_repr crc dir log" "log_chain lo log hi" "es = filter (\<lambda>e. f \<le> we_sequence_number e) (log_entries log)"
      "map unnumbered es = map (\<lambda>e. unnumbered (from_memtable_entry e ns')) (pre @ concat (rev hs))"
    and pre: "pre = [] \<or> (\<exists>x. pre = [x] \<and> flushed_as (table_entries T) x)"
    and ok: "\<forall>e \<in> set (pre @ concat (rev hs)). loggable e" "distinct (filter (\<lambda>t. \<not> token_is_none t) (map me_idempotency_key (pre @ concat (rev hs))))"
    and c: "unat f + 1 + length (pre @ concat (rev hs)) < 2 ^ 64"
  shows "\<exists>rr. recover E J crc n r t now (Some dir) ns config (direct_fetcher E) objs = (Inr rr, objs)
    \<and> mt_next_sequence_number (ml_active (rr_memtable_list rr)) = f + 1 + of_nat (length (pre @ concat (rev hs)))
    \<and> rr_next_sequence_number rr = fold max (map we_sequence_number es) f + 1
    \<and> (\<forall>k. \<exists>v v'. point_read (direct_fetcher E objs) k l levels = Inr v
        \<and> point_read (direct_fetcher E objs) k (rr_memtable_list rr) (rr_levels rr) = Inr v' \<and> map_option payload v = map_option payload v')"
proof -
  let ?xs = "concat (rev hs)" and ?base = "table_entries T"
  have st': "store_ok E objs ns (mm_current mm) T" using st by (simp add: store_ok_unsplit)
  have lv: "levels_repr E objs levels ?base" using open_levels_repr [OF st'] levels by simp
  note le = logged_up_to_numbers [OF log(4) ok]
  obtain rr where rr: "recover E J crc n r t now (Some dir) ns config (direct_fetcher E) objs = (Inr rr, objs)"
    "levels_repr E objs (rr_levels rr) ?base" "ml_built (rr_memtable_list rr) [renumber (f + 1) (pre @ ?xs)]"
    "mt_next_sequence_number (ml_active (rr_memtable_list rr)) = f + 1 + of_nat (length (pre @ ?xs))"
    "rr_next_sequence_number rr = fold max (map we_sequence_number es) f + 1"
    using recover_ok [OF load st' log(1,2) log(3) [unfolded f(1)] le(2), of n r t] c unfolding f(1) [symmetric] le(1,3) by blast
  have uniq: "\<forall>a \<in> set ?base. \<forall>b \<in> set ?base. same_version a b \<longrightarrow> a = b" using low by (simp add: below_memtables_def)
  have vis: "(\<exists>e. visible ?xs ?base k e \<and> content e = p) \<longleftrightarrow> (\<exists>e. visible (renumber (f + 1) (pre @ ?xs)) ?base k e \<and> content e = p)" for k p
    by (rule recovered_visible [OF chronological [OF b] pre uniq f(2) _ c]) (use f(3) in simp)
  have "visible (concat hs) ?base k e \<longleftrightarrow> visible ?xs ?base k e" for k e by (simp add: visible_def history_covers_def)
  note vis' = vis [folded this]
  have low': "below_memtables ?base (concat [renumber (f + 1) (pre @ ?xs)])"
  proof -
    have "me_sequence_number x < me_sequence_number y" if x: "x \<in> set ?base" and y: "y \<in> set (renumber (f + 1) (pre @ ?xs))" for x y
    proof -
      obtain i where i: "i < length (pre @ ?xs)" "y = renumber (f + 1) (pre @ ?xs) ! i" using y by (metis in_set_conv_nth renumber_length)
      have "me_sequence_number y = f + of_nat (1 + i)" using i by (simp add: renumber_nth)
      then have "unat (me_sequence_number y) = unat f + (1 + i)" using unat_plus_nat [of f "1 + i"] c i(1) by simp
      then show ?thesis using f(2) x by (auto simp: word_less_nat_alt word_le_nat_alt)
    qed
    then show ?thesis using uniq by (simp add: below_memtables_def)
  qed
  have "\<exists>v v'. point_read (direct_fetcher E objs) k l levels = Inr v
        \<and> point_read (direct_fetcher E objs) k (rr_memtable_list rr) (rr_levels rr) = Inr v' \<and> map_option payload v = map_option payload v'" for k
  proof -
    obtain v where v: "point_read (direct_fetcher E objs) k l levels = Inr v"
      "\<forall>g. v = Some g \<longleftrightarrow> (\<exists>e. visible (concat hs) ?base k e \<and> g = mg_from_memtable_entry e)" using point_read_visible [OF b lv low] by blast
    obtain v' where v': "point_read (direct_fetcher E objs) k (rr_memtable_list rr) (rr_levels rr) = Inr v'"
      "\<forall>g. v' = Some g \<longleftrightarrow> (\<exists>e. visible (concat [renumber (f + 1) (pre @ ?xs)]) ?base k e \<and> g = mg_from_memtable_entry e)"
      using point_read_visible [OF rr(3,2) low'] by blast
    have "map_option payload v = map_option payload v'" by (rule same_payload [OF v(2) v'(2)]) (use vis' in simp)
    then show ?thesis using v(1) v'(1) by blast
  qed
  then show ?thesis using rr(1,4,5) by metis
qed


section \<open>A log that starts over\<close>

lemma assign_sequences_bound:
  "unat s + length es < 2 ^ 64 \<Longrightarrow> e \<in> set (fst (assign_sequences s es)) \<Longrightarrow> unat (we_sequence_number e) < unat s + length es"
proof (induction es arbitrary: s)
  case (Cons x es)
  have u: "unat (s + 1) = unat s + 1" using unat_plus_nat [of s 1] Cons.prems(1) by simp
  from Cons.prems(2) have "we_sequence_number e = s \<or> e \<in> set (fst (assign_sequences (s + 1) es))" by (auto split: prod.splits)
  then show ?case using Cons.IH [of "s + 1"] Cons.prems(1) u by auto
qed simp

lemma fresh_log:
  assumes "\<forall>e \<in> set (concat batches). wal_entry_fits e" and "length (concat batches) < 2 ^ 64 - 1" and "length batches < 10 ^ 12 - 1"
  shows "\<exists>w0 dir0 w dir log hi. ww_open crc now config [] = Inr (w0, dir0) \<and> ww_run crc now dir0 w0 batches = Inr (w, dir)
    \<and> wal_repr crc dir log \<and> log_chain 0 log hi \<and> log_entries log = fst (assign_sequences 1 (concat batches))"
proof -
  obtain w0 dir0 h where o: "ww_open crc now config [] = Inr (w0, dir0)" "wal_inv crc dir0 w0 [(h, [])]"
      "ww_next_sequence_number w0 = 1" "sh_segment_number h = 1"
    using ww_open_fresh by blast
  have "unat (ww_next_sequence_number w0) + length (concat batches) < 2 ^ 64"
    "unat (seg_no (last [(h, [] :: wal_entry list)])) + length batches < 10 ^ 12"
    using assms(2,3) o by (auto simp: seg_no_def)
  from ww_run_inv [OF o(2) assms(1) this, of now] o(3) obtain w dir log where
    r: "ww_run crc now dir0 w0 batches = Inr (w, dir)" and inv: "wal_inv crc dir w log"
    and e: "log_entries log = fst (assign_sequences 1 (concat batches))"
    by (auto simp: log_entries_def)
  then show ?thesis using o(1) unfolding wal_inv_def by blast
qed

text \<open>A log that starts over is not replayed. When a namespace with a flushed sequence number is opened with an empty local directory,
  the log numbers its entries from one again; as long as no more entries are logged than that number, recovery succeeds and
  replays none of them: acknowledged writes are lost.\<close>
lemma recovery_ignores_restarted_log:
  assumes load: "mm_load_latest J now (mm_new now ns (rc_manifest_config config)) objs = Inr (mm, objs)"
    and st: "store_ok E objs ns (mm_current mm) T"
    and "\<forall>e \<in> set (concat batches). wal_entry_fits e" and "length batches < 10 ^ 12 - 1"
    and f: "length (concat batches) < unat (mf_last_flushed_sequence (mm_current mm))" "unat (mf_last_flushed_sequence (mm_current mm)) + 1 < 2 ^ 64"
  shows "\<exists>w0 dir0 w dir rr. ww_open crc now wal_config [] = Inr (w0, dir0) \<and> ww_run crc now dir0 w0 batches = Inr (w, dir)
    \<and> recover E J crc n r t now (Some dir) ns config (direct_fetcher E) objs = (Inr rr, objs)
    \<and> rr_wal_entries_replayed rr = 0 \<and> (\<forall>k. ml_get k (rr_memtable_list rr) = None)"
proof -
  let ?f = "mf_last_flushed_sequence (mm_current mm)"
  obtain w0 dir0 w dir log hi where w: "ww_open crc now wal_config [] = Inr (w0, dir0)" "ww_run crc now dir0 w0 batches = Inr (w, dir)"
    "wal_repr crc dir log" "log_chain 0 log hi" "log_entries log = fst (assign_sequences 1 (concat batches))"
    using fresh_log [OF assms(3) _ assms(4), of crc now wal_config] f by auto
  have "\<not> ?f \<le> we_sequence_number e" if "e \<in> set (log_entries log)" for e
    using assign_sequences_bound [of 1 "concat batches" e] that f unfolding w(5) by (simp add: word_le_nat_alt)
  then have es: "[] = filter (\<lambda>e. ?f \<le> we_sequence_number e) (log_entries log)" by (simp add: filter_empty_conv)
  obtain rr where rr: "recover E J crc n r t now (Some dir) ns config (direct_fetcher E) objs = (Inr rr, objs)"
    "ml_built (rr_memtable_list rr) [[]]" "rr_wal_entries_replayed rr = 0"
    using recover_ok [OF load st w(3,4) es, of n r t] f(2) by (auto simp: replayable_def entries_of_def)
  have "mt_repr (ml_active (rr_memtable_list rr)) []" "ml_frozen (rr_memtable_list rr) = []"
    using ml_built_repr [OF rr(2)] by (auto simp: ml_repr_def)
  then have "ml_get k (rr_memtable_list rr) = None" for k by (simp add: ml_get_def mt_get_repr newest_def)
  then show ?thesis using w(1,2) rr(1,3) by blast
qed


section \<open>Examples\<close>

definition sample_mark :: manifest_update where
  "sample_mark = \<lparr>mu_trigger = Flush, mu_add_sstables = [], mu_remove_sstables = [], mu_new_last_flushed_sequence = Some 7,
     mu_writer_epoch = 0, mu_compactor_epoch = 0\<rparr>"

lemma empty_levels_store: "mf_levels m = mf_levels (mf_new_empty 0 ns) \<Longrightarrow> store_ok E objs ns m (\<lambda>_. [])"
  by (simp add: store_ok_def mf_new_empty_def sstables_at_level_def all_sstable_ids_def level_all_def level_order_def table_entries_def)

lemma loaded_sample:
  assumes "manifest_chain ''ns'' ms h" and "ms \<noteq> []" and "length ms \<le> 2 ^ 64"
  shows "\<exists>objs. mm_load_latest sample_json 0 (mm_new 0 ''ns'' manifest_config_default) objs
    = Inr ((mm_new 0 ''ns'' manifest_config_default)\<lparr>mm_current := last ms\<rparr>, objs)"
proof -
  have "manager_of manifest_config_default ''ns'' (mm_new 0 ''ns'' manifest_config_default)" by (simp add: manager_of_def mm_new_def)
  then show ?thesis using chain_storable [OF sample_json_ok assms(1,3), of manifest_config_default] chain_load_latest [OF assms(1) _ _ assms(2)] by blast
qed

lemma one_entry_logged:
  "loggable one_entry" "wal_entry_fits (from_memtable_entry one_entry [110])"
  "fst (assign_sequences 1 [from_memtable_entry one_entry [110]]) = [from_memtable_entry one_entry [110]]"
  using sample_entry_ok [of "[5]" "[7]" 1]
  by (simp_all add: loggable_def entry_ok_def rid_ok_def sample_entry_def me_with_sequence_def from_memtable_entry_def sample_key MAX_RECORD_ID_LEN_def
      MAX_ITEM_KEY_LEN_def SEPARATOR_def wal_entry_fits_def body_size_def FIXED_BODY_OVERHEAD_def)

theorem recovery_preserves_reads_witness:
  "\<exists>dir objs rr g. recover sample_codecs sample_json (\<lambda>_. 0) 0 (\<lambda>_. 1) 0 0 (Some dir) ''ns'' recovery_config_default (direct_fetcher sample_codecs) objs
      = (Inr rr, objs)
    \<and> point_read (direct_fetcher sample_codecs objs) (CompositeKey [1, 0, 5]) (rr_memtable_list rr) (rr_levels rr) = Inr (Some g)
    \<and> mg_value g = [7] \<and> rr_next_sequence_number rr = 2"
proof -
  let ?E = sample_codecs and ?k = "CompositeKey [1, 0, 5]" and ?c = recovery_config_default
  obtain objs where ld: "mm_load_latest sample_json 0 (mm_new 0 ''ns'' manifest_config_default) objs
      = Inr ((mm_new 0 ''ns'' manifest_config_default)\<lparr>mm_current := mf_new_empty 0 ''ns''\<rparr>, objs)"
    using loaded_sample [OF manifest_chain.first [of "''ns''" 0]] by auto
  let ?mm = "(mm_new 0 ''ns'' manifest_config_default)\<lparr>mm_current := mf_new_empty 0 ''ns''\<rparr>"
  have load: "mm_load_latest sample_json 0 (mm_new 0 ''ns'' (rc_manifest_config ?c)) objs = Inr (?mm, objs)" using ld by (simp add: recovery_config_default_def)
  have st: "store_ok ?E objs ''ns'' (mm_current ?mm) (\<lambda>_. [])" by (rule empty_levels_store) simp
  obtain levels where lv: "open_levels ?E ''ns'' (direct_fetcher ?E objs) (mm_current ?mm) level_all = Inr levels"
    "levels_repr ?E objs levels (table_entries (\<lambda>_. []))" using open_levels_repr [OF st] by blast
  let ?e = "from_memtable_entry one_entry [110]"
  have "\<forall>e \<in> set (concat [[?e]]). wal_entry_fits e" using one_entry_logged(2) by simp
  from fresh_log [OF this, of "\<lambda>_. 0" 0 wal_config_default] obtain dir log hi where
    log: "wal_repr (\<lambda>_. 0) dir log" "log_chain 0 log hi" "log_entries log = [?e]" using one_entry_logged(3) by auto
  have k: "ck_ok (me_composite_key one_entry)" using one_entry_logged(1) by (simp add: loggable_def)
  let ?l0 = "ml_new (\<lambda>_. 1) 0 memtable_config_default 1"
  obtain l where "ml_insert 0 one_entry ?l0 = Inr (1, l)"
    using ml_insert_fresh [OF ml_built_repr [OF ml_built.new [of "\<lambda>_. 1" 0 memtable_config_default 1]], of one_entry 0] by (auto simp: ml_new_def)
  from ml_built.insert [OF ml_built.new k _ this] have b: "ml_built l [[one_entry]]"
    by (simp add: ml_new_def sample_entry_def me_with_sequence_def)
  have q: "me_sequence_number one_entry = 1" "we_sequence_number ?e = 1" by (simp_all add: sample_entry_def me_with_sequence_def from_memtable_entry_def)
  have te: "table_entries (\<lambda>_. []) = []" by (simp add: table_entries_def)
  have low: "below_memtables (table_entries (\<lambda>_. [])) (concat [[one_entry]])" by (simp add: below_memtables_def te)
  have "\<exists>rr. recover ?E sample_json (\<lambda>_. 0) 0 (\<lambda>_. 1) 0 0 (Some dir) ''ns'' ?c (direct_fetcher ?E) objs = (Inr rr, objs)
    \<and> mt_next_sequence_number (ml_active (rr_memtable_list rr)) = 0 + 1 + of_nat (length ([] @ concat (rev [[one_entry]])))
    \<and> rr_next_sequence_number rr = fold max (map we_sequence_number [?e]) 0 + 1
    \<and> (\<forall>k. \<exists>v v'. point_read (direct_fetcher ?E objs) k l levels = Inr v
        \<and> point_read (direct_fetcher ?E objs) k (rr_memtable_list rr) (rr_levels rr) = Inr v' \<and> map_option payload v = map_option payload v')"
    by (rule recovery_preserves_reads [OF load st [unfolded store_ok_unsplit, THEN conjunct1] st [unfolded store_ok_unsplit, THEN conjunct2] lv(1) b low _ _ _ log(1,2),
        where ns' = "[110]" and pre = "[]" and f = 0])
      (use log(3) q one_entry_logged(1) te in \<open>simp_all add: mf_new_empty_def\<close>)
  then obtain rr where rr: "recover ?E sample_json (\<lambda>_. 0) 0 (\<lambda>_. 1) 0 0 (Some dir) ''ns'' ?c (direct_fetcher ?E) objs = (Inr rr, objs)"
    "rr_next_sequence_number rr = 2"
    "\<exists>v v'. point_read (direct_fetcher ?E objs) ?k l levels = Inr v
        \<and> point_read (direct_fetcher ?E objs) ?k (rr_memtable_list rr) (rr_levels rr) = Inr v' \<and> map_option payload v = map_option payload v'"
    using q by auto
  obtain v where v: "point_read (direct_fetcher ?E objs) ?k l levels = Inr v"
    "\<forall>g. v = Some g \<longleftrightarrow> (\<exists>e. visible (concat [[one_entry]]) (table_entries (\<lambda>_. [])) ?k e \<and> g = mg_from_memtable_entry e)"
    using point_read_visible [OF b lv(2) low] by blast
  have "visible (concat [[one_entry]]) (table_entries (\<lambda>_. [])) ?k one_entry"
    by (simp add: visible_def te history_covers_def sample_entry_def me_with_sequence_def)
  then have "v = Some (mg_from_memtable_entry one_entry)" unfolding v(2) [rule_format] by blast
  then obtain g where g: "point_read (direct_fetcher ?E objs) ?k (rr_memtable_list rr) (rr_levels rr) = Inr (Some g)" "content one_entry = payload g"
    using rr(3) v(1) by (auto dest: sym [of "Some _"])
  have "mg_value g = [7]" using arg_cong [OF g(2), of mg_value] by (simp add: payload_def mg_from_memtable_entry_def sample_entry_def me_with_sequence_def)
  then show ?thesis using rr(1,2) g(1) by blast
qed

end
