(* ===== verification/Block_Cache.thy ===== *)
theory Block_Cache
  imports Level_Store
begin

text \<open>
  \<^verbatim>\<open>cache/block_cache.rs\<close>, \<^verbatim>\<open>cache/budget.rs\<close>, \<^verbatim>\<open>cache/caching_fetcher.rs\<close> and \<^verbatim>\<open>cache/coalescing.rs\<close>. The concurrent cache behind the block
  cache is a library: its operations are the record \<open>moka\<close> over a state of any type, and \<open>moka_ok\<close> says what it documents, that
  an entry found was inserted under the key and not invalidated since; entries may vanish at any time. A fetcher with a cache
  threads the state of the cache.
\<close>

section \<open>Read budget\<close>

record read_budget =
  rb_remaining :: u32
  rb_initial :: u32
  rb_exhausted :: bool

definition rb_new :: "u32 \<Rightarrow> read_budget" where
  "rb_new budget = \<lparr>rb_remaining = budget, rb_initial = budget, rb_exhausted = False\<rparr>"

definition try_spend :: "read_budget \<Rightarrow> bool \<times> read_budget" where
  "try_spend b = (if rb_remaining b > 0 then (True, b\<lparr>rb_remaining := rb_remaining b - 1\<rparr>) else (False, b\<lparr>rb_exhausted := True\<rparr>))"

definition rb_spend :: "u32 \<Rightarrow> read_budget \<Rightarrow> read_budget" where
  "rb_spend n b = (if n \<ge> rb_remaining b then b\<lparr>rb_remaining := 0, rb_exhausted := True\<rparr> else b\<lparr>rb_remaining := rb_remaining b - n\<rparr>)"

definition rb_used :: "read_budget \<Rightarrow> u32" where
  "rb_used b = rb_initial b - rb_remaining b"

section \<open>The block cache\<close>

record block_cache_key =
  bk_sst_id :: string
  bk_block_offset :: u64

record cached_block =
  cb_entries :: "block_entry list"
  cb_size_bytes :: u32

definition cached_entry_size :: "block_entry \<Rightarrow> nat" where
  "cached_entry_size e =
     length (as_bytes (be_composite_key e))
       + (case be_value e of Inline v \<Rightarrow> length v | BlobRef i _ _ \<Rightarrow> length i + 12)
       + length (be_metadata e) + 40"

definition cb_new :: "block_entry list \<Rightarrow> cached_block" where
  "cb_new entries =
     (let sz = sum_list (map cached_entry_size entries)
      in \<lparr>cb_entries = entries, cb_size_bytes = (if sz < 2 ^ 32 then of_nat sz else - 1)\<rparr>)"

record cache_config =
  block_cache_capacity_bytes :: u64
  pinned_metadata_capacity :: nat
  enable_continuity_tracking :: bool
  get_budget_per_read :: u32

definition cache_config_default :: cache_config where
  "cache_config_default = \<lparr>block_cache_capacity_bytes = 268435456, pinned_metadata_capacity = 1000, enable_continuity_tracking = True,
     get_budget_per_read = 8\<rparr>"

record 'c moka =
  mk_get :: "block_cache_key \<Rightarrow> 'c \<Rightarrow> cached_block option \<times> 'c"
  mk_insert :: "block_cache_key \<Rightarrow> cached_block \<Rightarrow> 'c \<Rightarrow> 'c"
  mk_invalidate_if :: "(block_cache_key \<Rightarrow> bool) \<Rightarrow> 'c \<Rightarrow> 'c"

definition bc_invalidate :: "'c moka \<Rightarrow> block_cache_key \<Rightarrow> 'c \<Rightarrow> 'c" where
  "bc_invalidate M key c = mk_invalidate_if M (\<lambda>k. k = key) c"

definition bc_invalidate_sst :: "'c moka \<Rightarrow> string \<Rightarrow> 'c \<Rightarrow> 'c" where
  "bc_invalidate_sst M sst_id c = mk_invalidate_if M (\<lambda>k. bk_sst_id k = sst_id) c"

section \<open>The caching fetcher\<close>

definition strip_suffix :: "string \<Rightarrow> string \<Rightarrow> string option" where
  "strip_suffix suf s = (if length suf \<le> length s \<and> drop (length s - length suf) s = suf then Some (take (length s - length suf) s) else None)"

definition sst_id_from_path :: "string \<Rightarrow> string" where
  "sst_id_from_path path = (case strip_suffix ''.sst'' (path_file_name path) of Some i \<Rightarrow> i | None \<Rightarrow> path)"

definition cache_key :: "string \<Rightarrow> u64 \<Rightarrow> block_cache_key" where
  "cache_key path offset = \<lparr>bk_sst_id = sst_id_from_path path, bk_block_offset = offset\<rparr>"

definition caching_fetch_block ::
  "'c moka \<Rightarrow> block_fetcher \<Rightarrow> string \<Rightarrow> u64 \<Rightarrow> u32 \<Rightarrow> compression_type \<Rightarrow> 'c \<Rightarrow> block_entry list flush_result \<times> 'c" where
  "caching_fetch_block M F path offset sz compression c =
     (let key = cache_key path offset
      in case mk_get M key c of
           (Some cached, c) \<Rightarrow> (Inr (cb_entries cached), c)
         | (None, c) \<Rightarrow>
             (case fetch_block F path offset sz compression of
                Inl e \<Rightarrow> (Inl e, c)
              | Inr entries \<Rightarrow> (Inr entries, mk_insert M key (cb_new entries) c)))"

definition fetch_block_budgeted ::
  "'c moka \<Rightarrow> block_fetcher \<Rightarrow> string \<Rightarrow> u64 \<Rightarrow> u32 \<Rightarrow> compression_type \<Rightarrow> read_budget \<Rightarrow> 'c
    \<Rightarrow> block_entry list flush_result \<times> read_budget \<times> 'c" where
  "fetch_block_budgeted M F path offset sz compression b c =
     (let key = cache_key path offset
      in case mk_get M key c of
           (Some cached, c) \<Rightarrow> (Inr (cb_entries cached), b, c)
         | (None, c) \<Rightarrow>
             (case try_spend b of
                (False, b) \<Rightarrow> (Inl (ResourceExhausted ''GET budget'' ''read budget exhausted''), b, c)
              | (True, b) \<Rightarrow>
                  (case fetch_block F path offset sz compression of
                     Inl e \<Rightarrow> (Inl e, b, c)
                   | Inr entries \<Rightarrow> (Inr entries, b, mk_insert M key (cb_new entries) c))))"

definition get_budgeted ::
  "'c moka \<Rightarrow> block_fetcher \<Rightarrow> sst_handle \<Rightarrow> composite_key \<Rightarrow> read_budget \<Rightarrow> 'c
    \<Rightarrow> block_entry option flush_result \<times> read_budget \<times> 'c" where
  "get_budgeted M F h key b c =
     (if \<not> may_contain_record h (record_id key) then (Inr None, b, c)
      else case find_block_for_key h key of
             None \<Rightarrow> (Inr None, b, c)
           | Some e \<Rightarrow>
               (case fetch_block_budgeted M F (hn_path h) (ie_block_offset e) (ie_block_size e) (ft_compression_type (hn_footer h)) b c of
                  (Inl err, b, c) \<Rightarrow> (Inl err, b, c)
                | (Inr entries, b, c) \<Rightarrow> (Inr (best_version key None entries), b, c)))"

section \<open>The coalescing fetcher\<close>

record block_request =
  br_block_index :: nat
  br_block_offset :: u64
  br_block_size :: u32

definition is_adjacent :: "block_request \<Rightarrow> block_request \<Rightarrow> bool" where
  "is_adjacent a b \<longleftrightarrow> br_block_offset a + ucast (br_block_size a) = br_block_offset b"

text \<open>The requests served from the cache, and the others in order.\<close>

fun split_cached ::
  "'c moka \<Rightarrow> string \<Rightarrow> block_request list \<Rightarrow> 'c \<Rightarrow> (nat \<times> block_entry list) list \<times> block_request list \<times> 'c" where
  "split_cached M path [] c = ([], [], c)"
| "split_cached M path (r # rs) c =
     (case mk_get M (cache_key path (br_block_offset r)) c of
        (Some cached, c) \<Rightarrow> (case split_cached M path rs c of (hits, misses, c) \<Rightarrow> ((br_block_index r, cb_entries cached) # hits, misses, c))
      | (None, c) \<Rightarrow> (case split_cached M path rs c of (hits, misses, c) \<Rightarrow> (hits, r # misses, c)))"

fun group_runs :: "block_request list \<Rightarrow> block_request list \<Rightarrow> block_request list list" where
  "group_runs current [] = [current]"
| "group_runs current (r # rs) =
     (if is_adjacent (last current) r then group_runs (current @ [r]) rs else current # group_runs [r] rs)"

fun split_run ::
  "codecs \<Rightarrow> 'c moka \<Rightarrow> string \<Rightarrow> compression_type \<Rightarrow> u64 \<Rightarrow> bytes \<Rightarrow> block_request list \<Rightarrow> 'c
    \<Rightarrow> (nat \<times> block_entry list) list flush_result \<times> 'c" where
  "split_run E M path compression merged_offset raw [] c = (Inr [], c)"
| "split_run E M path compression merged_offset raw (r # rs) c =
     (let local_offset = unat (br_block_offset r - merged_offset); local_end = local_offset + unat (br_block_size r)
      in if local_end > length raw then (Inl (CorruptedData ''block extends beyond fetched data''), c)
         else case decode_block E (slice_of local_offset local_end raw) compression of
                Inl e \<Rightarrow> (Inl e, c)
              | Inr entries \<Rightarrow>
                  (case split_run E M path compression merged_offset raw rs (mk_insert M (cache_key path (br_block_offset r)) (cb_new entries) c) of
                     (Inl e, c) \<Rightarrow> (Inl e, c)
                   | (Inr bs, c) \<Rightarrow> (Inr ((br_block_index r, entries) # bs), c)))"

definition fetch_run ::
  "codecs \<Rightarrow> 'c moka \<Rightarrow> block_fetcher \<Rightarrow> string \<Rightarrow> compression_type \<Rightarrow> block_request list \<Rightarrow> 'c
    \<Rightarrow> (nat \<times> block_entry list) list flush_result \<times> 'c" where
  "fetch_run E M F path compression g c =
     (case g of
        [r] \<Rightarrow>
          (case caching_fetch_block M F path (br_block_offset r) (br_block_size r) compression c of
             (Inl e, c) \<Rightarrow> (Inl e, c)
           | (Inr entries, c) \<Rightarrow> (Inr [(br_block_index r, entries)], c))
      | _ \<Rightarrow>
          (let merged_offset = br_block_offset (hd g);
               merged_end = br_block_offset (last g) + ucast (br_block_size (last g));
               total = merged_end - merged_offset
           in if total \<ge> 2 ^ 32 then (Inl (CorruptedData ''coalesced range too large''), c)
              else case fetch_raw_block F path merged_offset (ucast total) of
                     Inl e \<Rightarrow> (Inl e, c)
                   | Inr raw \<Rightarrow> split_run E M path compression merged_offset raw g c))"

fun fetch_runs ::
  "codecs \<Rightarrow> 'c moka \<Rightarrow> block_fetcher \<Rightarrow> string \<Rightarrow> compression_type \<Rightarrow> block_request list list \<Rightarrow> 'c
    \<Rightarrow> (nat \<times> block_entry list) list flush_result \<times> 'c" where
  "fetch_runs E M F path compression [] c = (Inr [], c)"
| "fetch_runs E M F path compression (g # gs) c =
     (case fetch_run E M F path compression g c of
        (Inl e, c) \<Rightarrow> (Inl e, c)
      | (Inr bs, c) \<Rightarrow>
          (case fetch_runs E M F path compression gs c of
             (Inl e, c) \<Rightarrow> (Inl e, c)
           | (Inr bs', c) \<Rightarrow> (Inr (bs @ bs'), c)))"

definition coalescing_fetch_blocks ::
  "codecs \<Rightarrow> 'c moka \<Rightarrow> block_fetcher \<Rightarrow> string \<Rightarrow> compression_type \<Rightarrow> block_request list \<Rightarrow> 'c
    \<Rightarrow> (nat \<times> block_entry list) list flush_result \<times> 'c" where
  "coalescing_fetch_blocks E M F path compression requests c =
     (if requests = [] then (Inr [], c)
      else case split_cached M path (sort_key br_block_offset requests) c of
             (hits, [], c) \<Rightarrow> (Inr (sort_key fst hits), c)
           | (hits, r # misses, c) \<Rightarrow>
               (case fetch_runs E M F path compression (group_runs [r] misses) c of
                  (Inl e, c) \<Rightarrow> (Inl e, c)
                | (Inr bs, c) \<Rightarrow> (Inr (sort_key fst (hits @ bs)), c)))"

section \<open>What the cache library promises\<close>

definition moka_ok :: "'c moka \<Rightarrow> bool" where
  "moka_ok M \<longleftrightarrow>
     (\<forall>k k' c b. fst (mk_get M k' (snd (mk_get M k c))) = Some b \<longrightarrow> fst (mk_get M k' c) = Some b)
     \<and> (\<forall>k v k' c b. fst (mk_get M k' (mk_insert M k v c)) = Some b \<longrightarrow> (if k' = k then b = v else fst (mk_get M k' c) = Some b))
     \<and> (\<forall>P k' c b. fst (mk_get M k' (mk_invalidate_if M P c)) = Some b \<longrightarrow> \<not> P k' \<and> fst (mk_get M k' c) = Some b)"

definition full_moka :: "(block_cache_key \<Rightarrow> cached_block option) moka" where
  "full_moka = \<lparr>mk_get = (\<lambda>k c. (c k, c)), mk_insert = (\<lambda>k v c. c(k \<mapsto> v)), mk_invalidate_if = (\<lambda>P c k. if P k then None else c k)\<rparr>"

lemma full_moka_ok: "moka_ok full_moka"
  by (simp add: moka_ok_def full_moka_def)


lemma moka_okD:
  assumes "moka_ok M"
  shows "fst (mk_get M k' (snd (mk_get M k c))) = Some b \<Longrightarrow> fst (mk_get M k' c) = Some b"
    and "fst (mk_get M k' (mk_insert M k v c)) = Some b \<Longrightarrow> if k' = k then b = v else fst (mk_get M k' c) = Some b"
    and "fst (mk_get M k' (mk_invalidate_if M P c)) = Some b \<Longrightarrow> \<not> P k' \<and> fst (mk_get M k' c) = Some b"
  using assms unfolding moka_ok_def by blast+

section \<open>Coherent caches are transparent\<close>

text \<open>The requests \<open>R\<close> made of the store, no two with one cache key; every cached block is what the store holds.\<close>

type_synonym request = "string \<times> u64 \<times> u32 \<times> compression_type"

definition distinct_keys :: "request set \<Rightarrow> bool" where
  "distinct_keys R \<longleftrightarrow> (\<forall>(p, o1, s, k) \<in> R. \<forall>(p', o', s', k') \<in> R. cache_key p o1 = cache_key p' o' \<longrightarrow> (p, o1, s, k) = (p', o', s', k'))"

definition coherent :: "'c moka \<Rightarrow> block_fetcher \<Rightarrow> request set \<Rightarrow> 'c \<Rightarrow> bool" where
  "coherent M F R c \<longleftrightarrow> (\<forall>(p, o1, s, k) \<in> R. \<forall>b. fst (mk_get M (cache_key p o1) c) = Some b \<longrightarrow> fetch_block F p o1 s k = Inr (cb_entries b))"

lemma coherentD: "coherent M F R c \<Longrightarrow> (p, o1, s, k) \<in> R \<Longrightarrow> fst (mk_get M (cache_key p o1) c) = Some b \<Longrightarrow> fetch_block F p o1 s k = Inr (cb_entries b)"
  unfolding coherent_def by blast

lemma coherent_weaken: "coherent M F R c \<Longrightarrow> (\<And>k b. fst (mk_get M k c') = Some b \<Longrightarrow> fst (mk_get M k c) = Some b) \<Longrightarrow> coherent M F R c'"
  unfolding coherent_def by blast

lemma coherent_get: "moka_ok M \<Longrightarrow> coherent M F R c \<Longrightarrow> coherent M F R (snd (mk_get M k c))"
  by (erule coherent_weaken) (rule moka_okD(1))

lemma coherent_invalidate: "moka_ok M \<Longrightarrow> coherent M F R c \<Longrightarrow> coherent M F R (mk_invalidate_if M P c)"
  by (erule coherent_weaken) (rule moka_okD(3) [THEN conjunct2])

lemma coherent_insert:
  assumes M: "moka_ok M" and R: "distinct_keys R" and c: "coherent M F R c" and r: "(p, o1, s, k) \<in> R" and f: "fetch_block F p o1 s k = Inr es"
  shows "coherent M F R (mk_insert M (cache_key p o1) (cb_new es) c)"
  unfolding coherent_def
proof (clarify)
  fix p' o' s' k' b
  assume r': "(p', o', s', k') \<in> R" and g: "fst (mk_get M (cache_key p' o') (mk_insert M (cache_key p o1) (cb_new es) c)) = Some b"
  show "fetch_block F p' o' s' k' = Inr (cb_entries b)"
  proof (cases "cache_key p' o' = cache_key p o1")
    case True
    then have "(p', o', s', k') = (p, o1, s, k)" using R r r' unfolding distinct_keys_def by blast
    moreover have "b = cb_new es" using moka_okD(2) [OF M g] True by simp
    ultimately show ?thesis using f by (simp add: cb_new_def Let_def)
  next
    case False
    then show ?thesis using moka_okD(2) [OF M g] coherentD [OF c r'] by simp
  qed
qed

lemma caching_fetch_transparent:
  assumes M: "moka_ok M" and R: "distinct_keys R" and c: "coherent M F R c" and r: "(p, o1, s, k) \<in> R"
  shows "fst (caching_fetch_block M F p o1 s k c) = fetch_block F p o1 s k" and "coherent M F R (snd (caching_fetch_block M F p o1 s k c))"
proof -
  obtain g c1 where g: "mk_get M (cache_key p o1) c = (g, c1)" by fastforce
  have c1: "coherent M F R c1" using coherent_get [OF M c, of "cache_key p o1"] g by simp
  show "fst (caching_fetch_block M F p o1 s k c) = fetch_block F p o1 s k"
    using coherentD [OF c r] g by (cases g) (auto simp: caching_fetch_block_def Let_def split: sum.splits)
  show "coherent M F R (snd (caching_fetch_block M F p o1 s k c))"
    using coherent_insert [OF M R c1 r] c1 g by (cases g) (auto simp: caching_fetch_block_def Let_def split: sum.splits)
qed

lemma get_budgeted_ok:
  assumes M: "moka_ok M" and R: "distinct_keys R" and c: "coherent M F R c" and b: "0 < rb_remaining b"
    and r: "\<forall>e. find_block_for_key h key = Some e \<longrightarrow> (hn_path h, ie_block_offset e, ie_block_size e, ft_compression_type (hn_footer h)) \<in> R"
  shows "\<exists>b' c'. get_budgeted M F h key b c = (handle_get F h key, b', c') \<and> coherent M F R c'
    \<and> \<not> (rb_exhausted b' \<and> \<not> rb_exhausted b) \<and> rb_remaining b' \<in> {rb_remaining b, rb_remaining b - 1}"
proof (cases "may_contain_record h (record_id key)")
  case False
  then show ?thesis using c by (simp add: get_budgeted_def handle_get_def)
next
  case True
  show ?thesis
  proof (cases "find_block_for_key h key")
    case None
    then show ?thesis using c True by (simp add: get_budgeted_def handle_get_def)
  next
    case (Some e)
    let ?k = "cache_key (hn_path h) (ie_block_offset e)"
    have rR: "(hn_path h, ie_block_offset e, ie_block_size e, ft_compression_type (hn_footer h)) \<in> R" using r Some by blast
    obtain g c1 where g: "mk_get M ?k c = (g, c1)" by fastforce
    have c1: "coherent M F R c1" using coherent_get [OF M c, of ?k] g by simp
    show ?thesis
    proof (cases g)
      case (Some cb)
      then have "fetch_block F (hn_path h) (ie_block_offset e) (ie_block_size e) (ft_compression_type (hn_footer h)) = Inr (cb_entries cb)"
        using coherentD [OF c rR] g by simp
      then show ?thesis using g Some True \<open>find_block_for_key h key = _\<close> c1
        by (simp add: get_budgeted_def handle_get_def fetch_block_budgeted_def Let_def)
    next
      case None
      then show ?thesis
        using g True \<open>find_block_for_key h key = _\<close> c1 b coherent_insert [OF M R c1 rR]
        by (cases "fetch_block F (hn_path h) (ie_block_offset e) (ie_block_size e) (ft_compression_type (hn_footer h))")
          (simp_all add: get_budgeted_def handle_get_def fetch_block_budgeted_def try_spend_def Let_def)
    qed
  qed
qed

text \<open>C29: the block cache is transparent to a lookup with budget left. When the blocks cached are those the store holds and no two
  requests share a cache key, a budgeted lookup with at least one fetch left returns what the handle returns without
  a cache, and leaves the cache coherent and at most one fetch spent.\<close>
theorem get_budgeted_transparent:
  assumes M: "moka_ok M" and R: "distinct_keys R" and c: "coherent M F R c" and b: "0 < rb_remaining b"
    and r: "\<forall>e. find_block_for_key h key = Some e \<longrightarrow> (hn_path h, ie_block_offset e, ie_block_size e, ft_compression_type (hn_footer h)) \<in> R"
  shows "\<exists>b' c'. get_budgeted M F h key b c = (handle_get F h key, b', c') \<and> coherent M F R c'
    \<and> \<not> (rb_exhausted b' \<and> \<not> rb_exhausted b) \<and> rb_remaining b' \<in> {rb_remaining b, rb_remaining b - 1}"
  using assms by (rule get_budgeted_ok)

theorem get_budgeted_transparent_witness:
  "\<exists>objs h c'. get_budgeted full_moka (direct_fetcher sample_codecs objs) h (CompositeKey [1, 0, 5]) (rb_new 8) Map.empty
     = (handle_get (direct_fetcher sample_codecs objs) h (CompositeKey [1, 0, 5]), c')
     \<and> levels_repr sample_codecs objs [\<lparr>ls_level = L0, ls_handles = [h]\<rparr>] [sample_entry [5] [7] 1]"
proof -
  let ?key = "CompositeKey [1, 0, 5]"
  obtain objs h where lv: "levels_repr sample_codecs objs [\<lparr>ls_level = L0, ls_handles = [h]\<rparr>] [sample_entry [5] [7] 1]"
    using one_entry_level by blast
  let ?R = "{(hn_path h, ie_block_offset e, ie_block_size e, ft_compression_type (hn_footer h)) |e. find_block_for_key h ?key = Some e} :: request set"
  have R: "distinct_keys ?R" by (auto simp: distinct_keys_def)
  have c: "coherent full_moka (direct_fetcher sample_codecs objs) ?R Map.empty" by (auto simp: coherent_def full_moka_def)
  have b: "0 < rb_remaining (rb_new 8)" by (simp add: rb_new_def)
  have "\<forall>e. find_block_for_key h ?key = Some e
      \<longrightarrow> (hn_path h, ie_block_offset e, ie_block_size e, ft_compression_type (hn_footer h)) \<in> ?R" by blast
  from get_budgeted_transparent [OF full_moka_ok R c b this] lv show ?thesis by blast
qed


section \<open>Colliding keys\<close>

lemma sst_id_fragment: "sst_id_from_path (sst_location ns l (fragment_id r i)) = ''frag-'' @ pad0 4 (unat i)"
proof -
  have f: "CHR ''/'' \<notin> set (''frag-'' @ pad0 4 (unat i) @ ''.sst'')" using pad0_chars by simp
  have p: "sst_location ns l (fragment_id r i) = (''flushdb/'' @ ns @ ''/sstables/'' @ level_as_str l @ ''/run-'' @ r) @ ''/'' @ (''frag-'' @ pad0 4 (unat i) @ ''.sst'')"
    by (simp add: sst_location_def fragment_id_def)
  show ?thesis unfolding sst_id_from_path_def p path_file_name_append [OF f] by (simp add: strip_suffix_def)
qed

text \<open>C36: fragments of different runs collide in the block cache. The cache key of a block is the last part of its path and its
  offset, and fragments of every run are named by their index alone. Once a block of a fragment has been fetched and the
  cache still holds it, fetching the block at the same offset of the fragment with that index in any other run, at any level
  and of any namespace sharing the cache, returns the entries of the first fragment, whatever the store holds.\<close>
theorem block_cache_collision:
  assumes M: "moka_ok M" and f: "caching_fetch_block M F (sst_location ns l (fragment_id r i)) o1 s k c = (Inr es, c1)"
    and held: "fst (mk_get M (cache_key (sst_location ns l (fragment_id r i)) o1) c1) \<noteq> None"
  shows "fst (caching_fetch_block M F' (sst_location ns' l' (fragment_id r' i)) o1 s' k' c1) = Inr es"
proof -
  let ?k = "cache_key (sst_location ns l (fragment_id r i)) o1"
  have same: "cache_key (sst_location ns' l' (fragment_id r' i)) o1 = ?k" by (simp add: cache_key_def sst_id_fragment)
  obtain b where b: "fst (mk_get M ?k c1) = Some b" using held by blast
  have "cb_entries b = es"
  proof (cases "mk_get M ?k c")
    case (Pair g c0)
    show ?thesis
    proof (cases g)
      case None
      then have "c1 = mk_insert M ?k (cb_new es) c0" using f Pair by (auto simp: caching_fetch_block_def Let_def split: sum.splits)
      then have "b = cb_new es" using moka_okD(2) [OF M, of ?k ?k "cb_new es" c0 b] b by simp
      then show ?thesis by (simp add: cb_new_def Let_def)
    next
      case (Some b0)
      then have "es = cb_entries b0" "c1 = snd (mk_get M ?k c)" using f Pair by (auto simp: caching_fetch_block_def Let_def)
      moreover have "fst (mk_get M ?k c) = Some b" using moka_okD(1) [OF M, of ?k ?k c b] b calculation(2) by simp
      ultimately show ?thesis using Some Pair by simp
    qed
  qed
  moreover obtain c2 where "mk_get M ?k c1 = (Some b, c2)" using b by (metis prod.collapse)
  ultimately show ?thesis by (simp add: caching_fetch_block_def Let_def same)
qed

definition constant_fetcher :: "block_entry list \<Rightarrow> block_fetcher" where
  "constant_fetcher es = \<lparr>fetch_block = (\<lambda>_ _ _ _. Inr es), fetch_raw_block = (\<lambda>_ _ _. Inr [])\<rparr>"

theorem block_cache_collision_witness:
  "\<exists>c1. caching_fetch_block full_moka (constant_fetcher [be_of (sample_entry [5] [7] 1)]) (sst_location ''ns'' L1 (fragment_id ''A'' 0)) 64 100 NoCompression Map.empty
      = (Inr [be_of (sample_entry [5] [7] 1)], c1)
    \<and> fst (caching_fetch_block full_moka (constant_fetcher [be_of (sample_entry [6] [8] 2)]) (sst_location ''ns'' L1 (fragment_id ''B'' 0)) 64 100 NoCompression c1)
      = Inr [be_of (sample_entry [5] [7] 1)]"
proof -
  let ?es = "[be_of (sample_entry [5] [7] 1)]" and ?p = "sst_location ''ns'' L1 (fragment_id ''A'' 0)"
  let ?c = "[cache_key ?p 64 \<mapsto> cb_new ?es]"
  have f: "caching_fetch_block full_moka (constant_fetcher ?es) ?p 64 100 NoCompression Map.empty = (Inr ?es, ?c)"
    by (simp add: caching_fetch_block_def full_moka_def constant_fetcher_def Let_def)
  have "fst (mk_get full_moka (cache_key ?p 64) ?c) \<noteq> None" by (simp add: full_moka_def)
  from block_cache_collision [OF full_moka_ok f this] f show ?thesis by blast
qed

section \<open>Coalesced fetches\<close>

definition entries_at :: "codecs \<Rightarrow> compression_type \<Rightarrow> bytes \<Rightarrow> block_request \<Rightarrow> block_entry list flush_result" where
  "entries_at E k d r = decode_block E (slice_of (unat (br_block_offset r)) (unat (br_block_offset r) + unat (br_block_size r)) d) k"

definition request_fits :: "bytes \<Rightarrow> block_request \<Rightarrow> bool" where
  "request_fits d r \<longleftrightarrow> 0 < unat (br_block_size r) \<and> unat (br_block_offset r) + unat (br_block_size r) \<le> length d"

lemma unat_size: "unat (ucast (s :: u32) :: u64) = unat s"
  by (simp add: unsigned_ucast_eq take_bit_nat_eq_self order_less_le_trans [OF unsigned_less])

lemma unat_down: "unat (w :: u64) < 2 ^ 32 \<Longrightarrow> unat (ucast w :: u32) = unat w"
  by (simp add: unsigned_ucast_eq take_bit_nat_eq_self)

lemma direct_fetch_at:
  assumes "fs_get p objs = Inr d" and "request_fits d r"
  shows "fetch_block (direct_fetcher E objs) p (br_block_offset r) (br_block_size r) k = entries_at E k d r"
proof -
  have "unat (br_block_offset r) < length d" using assms(2) by (simp add: request_fits_def)
  from fs.get_range_found [OF assms(1) this, of "ucast (br_block_size r)"] show ?thesis
    by (simp add: direct_fetcher_def entries_at_def unat_size)
qed

definition run :: "block_request list \<Rightarrow> bool" where
  "run g \<longleftrightarrow> g \<noteq> [] \<and> (\<forall>i. Suc i < length g \<longrightarrow> is_adjacent (g ! i) (g ! Suc i))"

lemma run_snoc: "run g \<Longrightarrow> is_adjacent (last g) r \<Longrightarrow> run (g @ [r])"
  by (auto simp: run_def nth_append last_conv_nth less_Suc_eq split: if_splits) (metis diff_Suc_1 One_nat_def)

lemma group_runs_spec: "run current \<Longrightarrow> concat (group_runs current rs) = current @ rs \<and> (\<forall>g \<in> set (group_runs current rs). run g)"
  by (induction current rs rule: group_runs.induct) (auto simp: run_snoc, simp_all add: run_def)


lemma run_span:
  assumes g: "run g" and fit: "\<forall>r \<in> set g. request_fits d r" and len: "length d < 2 ^ 32" and r: "r \<in> set g"
  shows "unat (br_block_offset (hd g)) \<le> unat (br_block_offset r)"
    and "unat (br_block_offset r) + unat (br_block_size r) \<le> unat (br_block_offset (last g)) + unat (br_block_size (last g))"
proof -
  let ?o = "\<lambda>i. unat (br_block_offset (g ! i))" and ?e = "\<lambda>i. unat (br_block_offset (g ! i)) + unat (br_block_size (g ! i))"
  have e: "?e i \<le> length d" if "i < length g" for i using fit that by (simp add: request_fits_def)
  have step: "?o (Suc i) = ?e i" if "Suc i < length g" for i
  proof -
    have "br_block_offset (g ! Suc i) = br_block_offset (g ! i) + ucast (br_block_size (g ! i))"
      using g that by (simp add: run_def is_adjacent_def)
    moreover have "?e i < 2 ^ 64" using e [of i] that len by simp
    ultimately show ?thesis by (simp add: unat_word_ariths(1) unat_size)
  qed
  have mono: "i \<le> j \<Longrightarrow> j < length g \<Longrightarrow> ?o i \<le> ?o j \<and> ?e i \<le> ?e j" for i j
  proof (induction j)
    case (Suc j)
    show ?case
    proof (cases "i = Suc j")
      case False
      then have "?o i \<le> ?o j \<and> ?e i \<le> ?e j" using Suc by simp
      then show ?thesis using step [OF Suc.prems(2)] by linarith
    qed simp
  qed simp
  obtain j where j: "j < length g" "r = g ! j" using r by (metis in_set_conv_nth)
  have ne: "g \<noteq> []" using g by (simp add: run_def)
  show "unat (br_block_offset (hd g)) \<le> unat (br_block_offset r)" using mono [of 0 j] j by (simp add: hd_conv_nth [OF ne])
  show "unat (br_block_offset r) + unat (br_block_size r) \<le> unat (br_block_offset (last g)) + unat (br_block_size (last g))"
    using mono [of j "length g - 1"] j ne by (simp add: last_conv_nth [OF ne])
qed

lemma slice_slice: "c + b \<le> e \<Longrightarrow> slice_of a b (slice_of c e xs) = slice_of (c + a) (c + b) xs"
  by (simp add: slice_of_def drop_take min_def add.commute)

definition served :: "'c moka \<Rightarrow> block_fetcher \<Rightarrow> request set \<Rightarrow> (block_request \<Rightarrow> block_entry list) \<Rightarrow> block_request list
    \<Rightarrow> (nat \<times> block_entry list) list flush_result \<times> 'c \<Rightarrow> bool" where
  "served M F R bl rs res \<longleftrightarrow> fst res = Inr (map (\<lambda>r. (br_block_index r, bl r)) rs) \<and> coherent M F R (snd res)"

lemma split_run_ok:
  assumes M: "moka_ok M" and R: "distinct_keys R" and p: "fs_get p objs = Inr d"
    and raw: "raw = slice_of lo hi d" "lo = unat merged" "hi \<le> length d"
    and rs: "\<forall>r \<in> set rs. lo \<le> unat (br_block_offset r) \<and> unat (br_block_offset r) + unat (br_block_size r) \<le> hi \<and> request_fits d r
      \<and> (p, br_block_offset r, br_block_size r, k) \<in> R \<and> entries_at E k d r = Inr (bl r)"
    and c: "coherent M (direct_fetcher E objs) R c"
  shows "served M (direct_fetcher E objs) R bl rs (split_run E M p k merged raw rs c)"
  using rs c
proof (induction rs arbitrary: c)
  case Nil
  then show ?case by (simp add: served_def)
next
  case (Cons r rs)
  let ?o = "unat (br_block_offset r)" and ?s = "unat (br_block_size r)"
  have r: "lo \<le> ?o" "?o + ?s \<le> hi" "request_fits d r" "(p, br_block_offset r, br_block_size r, k) \<in> R" "entries_at E k d r = Inr (bl r)"
    using Cons.prems(1) by simp_all
  have lo: "unat (br_block_offset r - merged) = ?o - lo" using r(1) raw(2) by (simp add: unat_sub word_le_nat_alt)
  have len: "length raw = hi - lo" using raw(1,3) by simp
  have le: "?o - lo + ?s \<le> length raw" using r(1,2) len by simp
  have sl: "slice_of (?o - lo) (?o - lo + ?s) raw = slice_of ?o (?o + ?s) d"
    using slice_slice [of lo "?o - lo + ?s" hi "?o - lo" d] r(1,2) raw(1) by simp
  have dec: "decode_block E (slice_of (?o - lo) (?o - lo + ?s) raw) k = Inr (bl r)" using r(5) by (simp add: sl entries_at_def)
  let ?c = "mk_insert M (cache_key p (br_block_offset r)) (cb_new (bl r)) c"
  have "fetch_block (direct_fetcher E objs) p (br_block_offset r) (br_block_size r) k = Inr (bl r)" using direct_fetch_at [OF p r(3)] r(5) by simp
  then have "coherent M (direct_fetcher E objs) R ?c" by (rule coherent_insert [OF M R Cons.prems(2) r(4)])
  then have "served M (direct_fetcher E objs) R bl rs (split_run E M p k merged raw rs ?c)" using Cons.IH Cons.prems(1) by simp
  then show ?case using le dec by (auto simp: served_def Let_def lo split: prod.splits sum.splits)
qed

lemma fetch_run_ok:
  assumes M: "moka_ok M" and R: "distinct_keys R" and p: "fs_get p objs = Inr d" "length d < 2 ^ 32" and g: "run g"
    and rs: "\<forall>r \<in> set g. request_fits d r \<and> (p, br_block_offset r, br_block_size r, k) \<in> R \<and> entries_at E k d r = Inr (bl r)"
    and c: "coherent M (direct_fetcher E objs) R c"
  shows "served M (direct_fetcher E objs) R bl g (fetch_run E M (direct_fetcher E objs) p k g c)"
proof (cases "\<exists>r. g = [r]")
  case True
  then obtain r where r: "g = [r]" by blast
  note t = caching_fetch_transparent [OF M R c, of p "br_block_offset r" "br_block_size r" k]
  have "fetch_block (direct_fetcher E objs) p (br_block_offset r) (br_block_size r) k = Inr (bl r)" using direct_fetch_at [OF p(1), of r E k] rs r by simp
  then show ?thesis using t rs r by (auto simp: served_def fetch_run_def split: prod.splits sum.splits)
next
  case False
  have ne: "g \<noteq> []" using g by (simp add: run_def)
  let ?F = "direct_fetcher E objs"
  let ?lo = "br_block_offset (hd g)" and ?fin = "br_block_offset (last g) + ucast (br_block_size (last g)) :: u64"
  let ?hi = "unat (br_block_offset (last g)) + unat (br_block_size (last g))"
  have fit: "\<forall>r \<in> set g. request_fits d r" using rs by blast
  have hl: "hd g \<in> set g" "last g \<in> set g" using ne by simp_all
  have hi: "?hi \<le> length d" using fit hl by (simp add: request_fits_def)
  have lo: "unat ?lo + unat (br_block_size (hd g)) \<le> ?hi" using run_span(2) [OF g fit p(2) hl(1)] .
  have ue: "unat ?fin = ?hi" using hi p(2) by (simp add: unat_word_ariths(1) unat_size)
  have tot: "unat (?fin - ?lo) = ?hi - unat ?lo" using ue lo by (simp add: unat_sub word_le_nat_alt)
  have small: "?hi - unat ?lo < 2 ^ 32" using hi p(2) by simp
  have "\<not> ?fin - ?lo \<ge> 2 ^ 32" using tot small by (simp add: word_le_nat_alt)
  moreover have uc: "unat (ucast (ucast (?fin - ?lo) :: u32) :: u64) = ?hi - unat ?lo"
    unfolding unat_size using unat_down [of "?fin - ?lo"] small tot by simp
  have "unat ?lo < length d" using bspec [OF fit hl(1)] by (simp add: request_fits_def)
  from fs.get_range_found [OF p(1) this, of "ucast (ucast (?fin - ?lo) :: u32)"]
  have "fetch_raw_block ?F p ?lo (ucast (?fin - ?lo)) = Inr (slice_of (unat ?lo) ?hi d)"
    unfolding uc using lo by (simp add: direct_fetcher_def)
  moreover have "served M ?F R bl g (split_run E M p k ?lo (slice_of (unat ?lo) ?hi d) g c)"
    by (rule split_run_ok [OF M R p(1) refl refl hi _ c]) (use rs run_span [OF g fit p(2)] in blast)
  moreover have "fetch_run E M ?F p k g c = (if ?fin - ?lo \<ge> 2 ^ 32 then (Inl (CorruptedData ''coalesced range too large''), c)
      else case fetch_raw_block ?F p ?lo (ucast (?fin - ?lo)) of Inl e \<Rightarrow> (Inl e, c) | Inr raw \<Rightarrow> split_run E M p k ?lo raw g c)"
    using False ne unfolding fetch_run_def Let_def by (cases g rule: remdups_adj.cases) auto
  ultimately show ?thesis by simp
qed


lemma fetch_runs_ok:
  assumes M: "moka_ok M" and R: "distinct_keys R" and p: "fs_get p objs = Inr d" "length d < 2 ^ 32" and "\<forall>g \<in> set gs. run g"
    and "\<forall>r \<in> set (concat gs). request_fits d r \<and> (p, br_block_offset r, br_block_size r, k) \<in> R \<and> entries_at E k d r = Inr (bl r)"
    and "coherent M (direct_fetcher E objs) R c"
  shows "served M (direct_fetcher E objs) R bl (concat gs) (fetch_runs E M (direct_fetcher E objs) p k gs c)"
  using assms(5-7)
proof (induction gs arbitrary: c)
  case Nil
  then show ?case by (simp add: served_def)
next
  case (Cons g gs)
  obtain x c1 where x: "fetch_run E M (direct_fetcher E objs) p k g c = (x, c1)" by fastforce
  have "served M (direct_fetcher E objs) R bl g (x, c1)"
    unfolding x [symmetric] by (rule fetch_run_ok [OF M R p]) (use Cons.prems in auto)
  then have s: "x = Inr (map (\<lambda>r. (br_block_index r, bl r)) g)" "coherent M (direct_fetcher E objs) R c1" by (simp_all add: served_def)
  have "served M (direct_fetcher E objs) R bl (concat gs) (fetch_runs E M (direct_fetcher E objs) p k gs c1)"
    by (rule Cons.IH) (use Cons.prems s(2) in auto)
  then show ?case using x s(1) by (auto simp: served_def split: prod.splits sum.splits)
qed

lemma split_cached_ok:
  assumes M: "moka_ok M"
    and "\<forall>r \<in> set rs. (p, br_block_offset r, br_block_size r, k) \<in> R \<and> fetch_block F p (br_block_offset r) (br_block_size r) k = Inr (bl r)"
    and "coherent M F R c" and "split_cached M p rs c = (hits, misses, c')"
  shows "mset hits + mset (map (\<lambda>r. (br_block_index r, bl r)) misses) = mset (map (\<lambda>r. (br_block_index r, bl r)) rs)
    \<and> set misses \<subseteq> set rs \<and> coherent M F R c'"
  using assms(2-4)
proof (induction rs arbitrary: c hits misses c')
  case (Cons r rs)
  obtain g c1 where g: "mk_get M (cache_key p (br_block_offset r)) c = (g, c1)" by fastforce
  obtain hs ms c2 where t: "split_cached M p rs c1 = (hs, ms, c2)" by (cases "split_cached M p rs c1") auto
  have c1: "coherent M F R c1" using coherent_get [OF M Cons.prems(2), of "cache_key p (br_block_offset r)"] g by simp
  have ih: "mset hs + mset (map (\<lambda>r. (br_block_index r, bl r)) ms) = mset (map (\<lambda>r. (br_block_index r, bl r)) rs)
    \<and> set ms \<subseteq> set rs \<and> coherent M F R c2" by (rule Cons.IH [OF _ c1 t]) (use Cons.prems(1) in simp)
  show ?case
  proof (cases g)
    case None
    then show ?thesis using Cons.prems(3) g t ih by auto
  next
    case (Some b)
    have "cb_entries b = bl r" using coherentD [OF Cons.prems(2), of p "br_block_offset r" "br_block_size r" k b] Cons.prems(1) g Some by simp
    then show ?thesis using Cons.prems(3) g t ih Some by auto
  qed
qed simp

lemma sort_key_unique:
  assumes "mset xs = mset ys" and "distinct (map fst ys)"
  shows "sort_key fst xs = sort_key fst ys"
proof (rule properties_for_sort_key)
  show "mset (sort_key fst ys) = mset xs" using assms(1) by simp
  show "filter (\<lambda>x. fst q = fst x) (sort_key fst ys) = filter (\<lambda>x. fst q = fst x) xs" if q: "q \<in> set (sort_key fst ys)" for q
  proof -
    define k where "k = fst q"
    have one: "\<exists>a. filter (\<lambda>x. k = fst x) zs = [a]" if z: "mset zs = mset ys" for zs
    proof -
      have d: "distinct (map fst zs)" using assms(2) z mset_eq_imp_distinct_iff mset_map by metis
      have "k \<in> fst ` set zs" using q mset_eq_setD [OF z] by (simp add: k_def)
      then obtain i where i: "i < length zs" "fst (zs ! i) = k" by (metis imageE in_set_conv_nth)
      have "length (filter (\<lambda>x. k = fst x) zs) = 1"
      proof -
        have "{j. j < length zs \<and> k = fst (zs ! j)} = {i}" using d i by (auto simp: distinct_conv_nth)
        then show ?thesis by (simp add: length_filter_conv_card)
      qed
      then show ?thesis by (simp add: length_Suc_conv)
    qed
    obtain a b where ab: "filter (\<lambda>x. k = fst x) (sort_key fst ys) = [a]" "filter (\<lambda>x. k = fst x) xs = [b]"
      using one [of "sort_key fst ys"] one [OF assms(1)] by auto
    have "mset (filter (\<lambda>x. k = fst x) (sort_key fst ys)) = mset (filter (\<lambda>x. k = fst x) xs)" using assms(1) by simp
    then have "mset [a] = mset [b]" unfolding ab .
    then show ?thesis using ab by (simp add: k_def)
  qed
qed simp

text \<open>C30: coalescing changes nothing. Fetching a set of blocks of one file at once, from the cache where possible and joining adjacent
  misses into one read, returns for every requested block, in the order of the block numbers, exactly the entries a separate
  read of that block gives, and leaves the cache coherent.\<close>
theorem coalesced_fetch_exact:
  assumes M: "moka_ok M" and R: "distinct_keys R" and p: "fs_get p objs = Inr d" "length d < 2 ^ 32"
    and rs: "\<forall>r \<in> set rs. request_fits d r \<and> (p, br_block_offset r, br_block_size r, k) \<in> R
      \<and> fetch_block (direct_fetcher E objs) p (br_block_offset r) (br_block_size r) k = Inr (bl r)" "distinct (map br_block_index rs)"
    and c: "coherent M (direct_fetcher E objs) R c"
  shows "fst (coalescing_fetch_blocks E M (direct_fetcher E objs) p k rs c) = Inr (sort_key fst (map (\<lambda>r. (br_block_index r, bl r)) rs))
    \<and> coherent M (direct_fetcher E objs) R (snd (coalescing_fetch_blocks E M (direct_fetcher E objs) p k rs c))"
proof (cases "rs = []")
  case True
  then show ?thesis using c by (simp add: coalescing_fetch_blocks_def)
next
  case False
  let ?F = "direct_fetcher E objs" and ?rs = "sort_key br_block_offset rs" and ?f = "\<lambda>r. (br_block_index r, bl r)"
  obtain hits misses c1 where s: "split_cached M p ?rs c = (hits, misses, c1)" by (cases "split_cached M p ?rs c") auto
  have sp: "mset hits + mset (map ?f misses) = mset (map ?f ?rs) \<and> set misses \<subseteq> set ?rs \<and> coherent M ?F R c1"
    by (rule split_cached_ok [OF M _ c s, of k]) (use rs(1) in simp)
  have dist: "distinct (map fst (map ?f rs))" using rs(2) by (simp add: o_def)
  have srt: "sort_key fst xs = sort_key fst (map ?f rs)" if "mset xs = mset hits + mset (map ?f misses)" for xs
    by (rule sort_key_unique [OF _ dist]) (use that sp in simp)
  show ?thesis
  proof (cases misses)
    case Nil
    then show ?thesis using False s sp srt [of hits] by (simp add: coalescing_fetch_blocks_def)
  next
    case (Cons m ms)
    have gr: "concat (group_runs [m] ms) = misses" "\<forall>g \<in> set (group_runs [m] ms). run g"
      using group_runs_spec [of "[m]" ms] Cons by (simp_all add: run_def)
    obtain x c2 where x: "fetch_runs E M ?F p k (group_runs [m] ms) c1 = (x, c2)" by fastforce
    have "served M ?F R bl (concat (group_runs [m] ms)) (x, c2)"
      unfolding x [symmetric]
    proof (rule fetch_runs_ok [OF M R p gr(2)])
      show "\<forall>r \<in> set (concat (group_runs [m] ms)). request_fits d r \<and> (p, br_block_offset r, br_block_size r, k) \<in> R \<and> entries_at E k d r = Inr (bl r)"
      proof
        fix r assume "r \<in> set (concat (group_runs [m] ms))"
        then have "r \<in> set rs" using gr(1) sp by auto
        then have a: "request_fits d r" "(p, br_block_offset r, br_block_size r, k) \<in> R" "fetch_block ?F p (br_block_offset r) (br_block_size r) k = Inr (bl r)"
          using rs(1) by blast+
        then show "request_fits d r \<and> (p, br_block_offset r, br_block_size r, k) \<in> R \<and> entries_at E k d r = Inr (bl r)"
          using direct_fetch_at [OF p(1) a(1), of E k] by metis
      qed
    qed (use sp in blast)
    then have "x = Inr (map ?f misses)" "coherent M ?F R c2" using gr(1) by (simp_all add: served_def)
    then show ?thesis using False s x Cons srt [of "hits @ map ?f misses"] by (simp add: coalescing_fetch_blocks_def)
  qed
qed

lemma small_block:
  "\<exists>b. decode_block sample_codecs b NoCompression = Inr [be_of (sample_entry [5] [6] 1)] \<and> 0 < length b \<and> length b < 200"
proof -
  let ?e = "sample_entry [5] [6] 1"
  have r: "bb_repr (fold bb_add [?e] (bb_new 0)) [?e]" by (rule fold_bb_add_repr [OF bb_new_repr, unfolded append_Nil])
  obtain fb where fb: "bb_finish sample_codecs NoCompression (fold bb_add [?e] (bb_new 0)) = Inr fb" "0 < length (fb_data fb)" "length (fb_data fb) < 200"
    by (simp add: write_steps)
  have "decode_block sample_codecs (fb_data fb) NoCompression = Inr (map be_of [?e])"
    by (rule decode_finished_block [OF sample_codecs_ok r _ fb(1)]) (simp add: sample_entry_ok)
  then show ?thesis using fb(2,3) by auto
qed

theorem coalesced_fetch_exact_witness:
  "\<exists>b e. let F = direct_fetcher sample_codecs [(''a.sst'', b @ b)]; n = length b
     in fst (coalescing_fetch_blocks sample_codecs full_moka F ''a.sst'' NoCompression
          [\<lparr>br_block_index = 1, br_block_offset = of_nat n, br_block_size = of_nat n\<rparr>, \<lparr>br_block_index = 0, br_block_offset = 0, br_block_size = of_nat n\<rparr>]
          Map.empty) = Inr [(0, [be_of e]), (1, [be_of e])]"
proof -
  obtain b where b: "decode_block sample_codecs b NoCompression = Inr [be_of (sample_entry [5] [6] 1)]" "0 < length b" "length b < 200"
    using small_block by blast
  let ?n = "length b" and ?e = "be_of (sample_entry [5] [6] 1)" and ?F = "direct_fetcher sample_codecs [(''a.sst'', b @ b)]"
  let ?r1 = "\<lparr>br_block_index = 1, br_block_offset = of_nat ?n, br_block_size = of_nat ?n\<rparr>"
    and ?r0 = "\<lparr>br_block_index = 0, br_block_offset = 0, br_block_size = of_nat ?n\<rparr>"
  let ?R = "{(''a.sst'', br_block_offset r, br_block_size r, NoCompression) |r. r \<in> {?r0, ?r1}} :: request set"
  have n: "unat (of_nat ?n :: u64) = ?n" "unat (of_nat ?n :: u32) = ?n" using b(3) by (simp_all add: unat_of_nat take_bit_nat_eq_self)
  have g: "fs_get ''a.sst'' [(''a.sst'', b @ b)] = Inr (b @ b)" by (simp add: fs_get_def)
  have fit: "request_fits (b @ b) r" if "r \<in> {?r0, ?r1}" for r using that b(2) n by (auto simp: request_fits_def)
  have ent: "entries_at sample_codecs NoCompression (b @ b) r = Inr [?e]" if "r \<in> {?r0, ?r1}" for r
    using that b(1) n by (auto simp: entries_at_def slice_of_def)
  have R: "distinct_keys ?R" using b(2) n by (auto simp: distinct_keys_def cache_key_def)
  have c: "coherent full_moka ?F ?R Map.empty" by (auto simp: coherent_def full_moka_def)
  have "fst (coalescing_fetch_blocks sample_codecs full_moka ?F ''a.sst'' NoCompression [?r1, ?r0] Map.empty)
      = Inr (sort_key fst (map (\<lambda>r. (br_block_index r, [?e])) [?r1, ?r0]))"
  proof (rule coalesced_fetch_exact [OF full_moka_ok R g _ _ _ c, THEN conjunct1])
    show "\<forall>r \<in> set [?r1, ?r0]. request_fits (b @ b) r \<and> (''a.sst'', br_block_offset r, br_block_size r, NoCompression) \<in> ?R
        \<and> fetch_block ?F ''a.sst'' (br_block_offset r) (br_block_size r) NoCompression = Inr [?e]"
    proof
      fix r assume "r \<in> set [?r1, ?r0]"
      then have r: "r \<in> {?r0, ?r1}" by auto
      then show "request_fits (b @ b) r \<and> (''a.sst'', br_block_offset r, br_block_size r, NoCompression) \<in> ?R
        \<and> fetch_block ?F ''a.sst'' (br_block_offset r) (br_block_size r) NoCompression = Inr [?e]"
        using fit [OF r] ent [OF r] direct_fetch_at [OF g fit [OF r]] by auto
    qed
  qed (use b(3) in simp_all)
  then show ?thesis unfolding Let_def by (intro exI [of _ b] exI [of _ "sample_entry [5] [6] 1"]) (simp add: sort_key_def insort_key_def)
qed

end
