(* ===== verification/Metadata_Cache.thy ===== *)
theory Metadata_Cache
  imports Block_Cache
begin

text \<open>
  \<^verbatim>\<open>cache/pinned_metadata.rs\<close>, \<^verbatim>\<open>cache/eviction.rs\<close>, \<^verbatim>\<open>cache/continuity.rs\<close>, \<^verbatim>\<open>cache/pagination.rs\<close> and the cached opening of SSTables in
  \<^verbatim>\<open>sstable_handle.rs\<close>. Hash maps are association lists whose order is the order of iteration. The size kept by the metadata cache is
  shown to be the sum of the sizes of its entries, opening through it to be transparent, the tracker to stay within its bounds
  and its intervals to cover exactly the keys marked.
\<close>

section \<open>Pinned metadata\<close>

record pinned_metadata =
  pm_bloom_filter :: filter_block
  pm_index_block :: index_block
  pm_footer :: sst_footer
  pm_estimated_size_bytes :: u64

definition pm_new :: "filter_block \<Rightarrow> index_block \<Rightarrow> sst_footer \<Rightarrow> pinned_metadata" where
  "pm_new bloom idx footer =
     (let bloom_size = length (fb_serialize bloom); index_size = ib_block_count idx * 50; footer_size = 80
      in \<lparr>pm_bloom_filter = bloom, pm_index_block = idx, pm_footer = footer,
          pm_estimated_size_bytes = of_nat (bloom_size + index_size + footer_size)\<rparr>)"

record pinned_metadata_cache =
  pn_entries :: "(string \<times> pinned_metadata) list"
  pn_total_size_bytes :: u64
  pn_max_entries :: nat

definition pn_new :: "cache_config \<Rightarrow> pinned_metadata_cache" where
  "pn_new config = \<lparr>pn_entries = [], pn_total_size_bytes = 0, pn_max_entries = pinned_metadata_capacity config\<rparr>"

definition pn_pin :: "string \<Rightarrow> pinned_metadata \<Rightarrow> pinned_metadata_cache \<Rightarrow> pinned_metadata_cache" where
  "pn_pin sst_id metadata p =
     (case map_of (pn_entries p) sst_id of
        Some existing \<Rightarrow>
          p\<lparr>pn_total_size_bytes := pn_total_size_bytes p - pm_estimated_size_bytes existing + pm_estimated_size_bytes metadata,
            pn_entries := AList.update sst_id metadata (pn_entries p)\<rparr>
      | None \<Rightarrow>
          if length (pn_entries p) \<ge> pn_max_entries p then p
          else p\<lparr>pn_total_size_bytes := pn_total_size_bytes p + pm_estimated_size_bytes metadata,
                 pn_entries := AList.update sst_id metadata (pn_entries p)\<rparr>)"

definition pn_get :: "string \<Rightarrow> pinned_metadata_cache \<Rightarrow> pinned_metadata option" where
  "pn_get sst_id p = map_of (pn_entries p) sst_id"

definition pn_release :: "string \<Rightarrow> pinned_metadata_cache \<Rightarrow> bool \<times> pinned_metadata_cache" where
  "pn_release sst_id p =
     (case map_of (pn_entries p) sst_id of
        Some removed \<Rightarrow>
          (True, p\<lparr>pn_entries := AList.delete sst_id (pn_entries p),
                   pn_total_size_bytes := pn_total_size_bytes p - pm_estimated_size_bytes removed\<rparr>)
      | None \<Rightarrow> (False, p))"

definition pn_release_batch :: "string list \<Rightarrow> pinned_metadata_cache \<Rightarrow> pinned_metadata_cache" where
  "pn_release_batch sst_ids p = fold (\<lambda>sst_id p. snd (pn_release sst_id p)) sst_ids p"

definition pn_contains :: "string \<Rightarrow> pinned_metadata_cache \<Rightarrow> bool" where
  "pn_contains sst_id p \<longleftrightarrow> map_of (pn_entries p) sst_id \<noteq> None"

definition open_with_cache ::
  "codecs \<Rightarrow> sst_meta \<Rightarrow> string \<Rightarrow> block_fetcher \<Rightarrow> pinned_metadata_cache \<Rightarrow> sst_handle flush_result \<times> pinned_metadata_cache" where
  "open_with_cache E meta path F pinned =
     (case pn_get (sm_id meta) pinned of
        Some cached \<Rightarrow>
          (Inr \<lparr>hn_meta = meta, hn_path = path, hn_footer = pm_footer cached, hn_bloom_filter = pm_bloom_filter cached,
                hn_index_block = pm_index_block cached\<rparr>, pinned)
      | None \<Rightarrow>
          (case handle_open E meta path F of
             Inl e \<Rightarrow> (Inl e, pinned)
           | Inr h \<Rightarrow> (Inr h, pn_pin (sm_id (hn_meta h)) (pm_new (hn_bloom_filter h) (hn_index_block h) (hn_footer h)) pinned)))"

section \<open>Eviction\<close>

definition evict_sstable :: "'c moka \<Rightarrow> string \<Rightarrow> 'c \<Rightarrow> pinned_metadata_cache \<Rightarrow> 'c \<times> pinned_metadata_cache" where
  "evict_sstable M sst_id c pinned = (bc_invalidate_sst M sst_id c, snd (pn_release sst_id pinned))"

definition evict_sstables :: "'c moka \<Rightarrow> string list \<Rightarrow> 'c \<Rightarrow> pinned_metadata_cache \<Rightarrow> 'c \<times> pinned_metadata_cache" where
  "evict_sstables M sst_ids c pinned = (fold (bc_invalidate_sst M) sst_ids c, pn_release_batch sst_ids pinned)"

definition evict_compaction_result ::
  "'c moka \<Rightarrow> compaction_result \<Rightarrow> 'c \<Rightarrow> pinned_metadata_cache \<Rightarrow> 'c \<times> pinned_metadata_cache" where
  "evict_compaction_result M result c pinned = evict_sstables M (cr_removed_sstable_ids result) c pinned"

section \<open>Continuity tracking\<close>

record continuity_interval =
  iv_start_key :: bytes
  iv_end_key :: bytes
  iv_manifest_id :: manifest_id

record continuity_tracker =
  cy_intervals :: "(bytes \<times> continuity_interval list) list"
  cy_enabled :: bool
  cy_max_records :: nat
  cy_max_intervals_per_record :: nat

definition cy_new :: "cache_config \<Rightarrow> continuity_tracker" where
  "cy_new config = \<lparr>cy_intervals = [], cy_enabled = enable_continuity_tracking config, cy_max_records = 10000, cy_max_intervals_per_record = 100\<rparr>"

definition key_in_range :: "bytes \<Rightarrow> continuity_interval \<Rightarrow> bool" where
  "key_in_range key i \<longleftrightarrow> (iv_start_key i = [] \<or> key \<ge> iv_start_key i) \<and> (iv_end_key i = [] \<or> key < iv_end_key i)"

definition overlaps_or_adjacent :: "continuity_interval \<Rightarrow> continuity_interval \<Rightarrow> bool" where
  "overlaps_or_adjacent a b \<longleftrightarrow>
     (iv_end_key a = [] \<or> iv_start_key b = [] \<or> iv_end_key a \<ge> iv_start_key b)
     \<and> (iv_end_key b = [] \<or> iv_start_key a = [] \<or> iv_end_key b \<ge> iv_start_key a)"

definition merged_bounds :: "continuity_interval \<Rightarrow> continuity_interval \<Rightarrow> bytes \<times> bytes" where
  "merged_bounds a b =
     (if iv_start_key a = [] \<or> iv_start_key b = [] then [] else if iv_start_key a \<le> iv_start_key b then iv_start_key a else iv_start_key b,
      if iv_end_key a = [] \<or> iv_end_key b = [] then [] else if iv_end_key a \<ge> iv_end_key b then iv_end_key a else iv_end_key b)"

definition merge_step :: "continuity_interval \<Rightarrow> continuity_interval list \<Rightarrow> continuity_interval list" where
  "merge_step i merged =
     (if merged \<noteq> [] \<and> overlaps_or_adjacent (last merged) i
      then (case merged_bounds (last merged) i of (s, e) \<Rightarrow>
              butlast merged @ [\<lparr>iv_start_key = s, iv_end_key = e, iv_manifest_id = max (iv_manifest_id (last merged)) (iv_manifest_id i)\<rparr>])
      else merged @ [i])"

text \<open>The comparison puts empty start keys first, as the order of byte strings does.\<close>

definition merge_intervals :: "continuity_interval list \<Rightarrow> continuity_interval list" where
  "merge_intervals is = (if length is \<le> 1 then is else fold merge_step (sort_key iv_start_key is) [])"

definition enforce_max_intervals_per_record :: "bytes \<Rightarrow> continuity_tracker \<Rightarrow> continuity_tracker" where
  "enforce_max_intervals_per_record rid t =
     (case map_of (cy_intervals t) rid of
        None \<Rightarrow> t
      | Some is \<Rightarrow>
          if length is \<le> cy_max_intervals_per_record t then t
          else t\<lparr>cy_intervals := AList.update rid (drop (length is - cy_max_intervals_per_record t) (sort_key iv_manifest_id is)) (cy_intervals t)\<rparr>)"

definition oldest_manifest :: "continuity_interval list \<Rightarrow> manifest_id" where
  "oldest_manifest is = (case min_by_key iv_manifest_id is of None \<Rightarrow> 0 | Some i \<Rightarrow> iv_manifest_id i)"

lemma min_by_key_member: "min_by_key f xs = Some x \<Longrightarrow> x \<in> set xs"
  by (induction xs arbitrary: x) (auto split: option.splits if_splits)

lemma min_by_key_exists: "n < length xs \<Longrightarrow> \<exists>x. min_by_key f xs = Some x"
  by (cases xs) (auto split: option.splits)

lemma length_delete_less: "k \<in> fst ` set xs \<Longrightarrow> length (AList.delete k xs) < length xs"
  by (induction xs) (auto simp: le_imp_less_Suc length_delete_le)

function drop_oldest_records :: "nat \<Rightarrow> (bytes \<times> continuity_interval list) list \<Rightarrow> (bytes \<times> continuity_interval list) list" where
  "drop_oldest_records n rs =
     (if length rs > n
      then case min_by_key (\<lambda>(_, is). oldest_manifest is) rs of
             Some (key, _) \<Rightarrow> drop_oldest_records n (AList.delete key rs)
           | None \<Rightarrow> rs
      else rs)"
  by auto
termination
  by (relation "measure (\<lambda>(n, rs). length rs)") (auto dest!: min_by_key_member intro!: length_delete_less intro: rev_image_eqI)

declare drop_oldest_records.simps [simp del]

definition enforce_max_records :: "continuity_tracker \<Rightarrow> continuity_tracker" where
  "enforce_max_records t =
     (if length (cy_intervals t) \<le> cy_max_records t then t
      else t\<lparr>cy_intervals := drop_oldest_records (cy_max_records t) (cy_intervals t)\<rparr>)"

definition mark_range_complete :: "bytes \<Rightarrow> bytes \<Rightarrow> bytes \<Rightarrow> manifest_id \<Rightarrow> continuity_tracker \<Rightarrow> continuity_tracker" where
  "mark_range_complete rid start_key end_key manifest_id t =
     (if \<not> cy_enabled t then t
      else let is = (case map_of (cy_intervals t) rid of None \<Rightarrow> [] | Some is \<Rightarrow> is);
               is = merge_intervals (is @ [\<lparr>iv_start_key = start_key, iv_end_key = end_key, iv_manifest_id = manifest_id\<rparr>])
           in enforce_max_records (enforce_max_intervals_per_record rid (t\<lparr>cy_intervals := AList.update rid is (cy_intervals t)\<rparr>)))"

definition is_known_absent :: "bytes \<Rightarrow> bytes \<Rightarrow> manifest_id \<Rightarrow> continuity_tracker \<Rightarrow> bool" where
  "is_known_absent rid key current_manifest_id t =
     (if \<not> cy_enabled t then False
      else case map_of (cy_intervals t) rid of
             None \<Rightarrow> False
           | Some is \<Rightarrow> \<exists>i \<in> set is. iv_manifest_id i = current_manifest_id \<and> key_in_range key i)"

definition invalidate_for_record :: "bytes \<Rightarrow> continuity_tracker \<Rightarrow> continuity_tracker" where
  "invalidate_for_record rid t = t\<lparr>cy_intervals := AList.delete rid (cy_intervals t)\<rparr>"

definition invalidate_before_manifest :: "manifest_id \<Rightarrow> continuity_tracker \<Rightarrow> continuity_tracker" where
  "invalidate_before_manifest m t =
     t\<lparr>cy_intervals := filter (\<lambda>(_, is). is \<noteq> []) (map (\<lambda>(r, is). (r, filter (\<lambda>i. iv_manifest_id i \<ge> m) is)) (cy_intervals t))\<rparr>"

definition invalidate_all :: "continuity_tracker \<Rightarrow> continuity_tracker" where
  "invalidate_all t = t\<lparr>cy_intervals := []\<rparr>"

definition total_interval_count :: "continuity_tracker \<Rightarrow> nat" where
  "total_interval_count t = sum_list (map (\<lambda>(_, is). length is) (cy_intervals t))"

section \<open>Size estimates\<close>

record running_average =
  ra_total_bytes :: u64
  ra_total_items :: u64

type_synonym size_estimator = "(string \<times> running_average) list"

definition record_items :: "string \<Rightarrow> nat \<Rightarrow> nat \<Rightarrow> size_estimator \<Rightarrow> size_estimator" where
  "record_items namespace total_bytes item_count s =
     (let avg = (case map_of s namespace of None \<Rightarrow> \<lparr>ra_total_bytes = 0, ra_total_items = 0\<rparr> | Some a \<Rightarrow> a)
      in AList.update namespace \<lparr>ra_total_bytes = ra_total_bytes avg + of_nat total_bytes,
           ra_total_items = ra_total_items avg + of_nat item_count\<rparr> s)"

definition estimate_avg_item_size :: "string \<Rightarrow> size_estimator \<Rightarrow> nat option" where
  "estimate_avg_item_size namespace s =
     (case map_of s namespace of
        None \<Rightarrow> None
      | Some avg \<Rightarrow> if ra_total_items avg = 0 then None else Some (unat (ra_total_bytes avg div ra_total_items avg)))"

text \<open>\<open>None\<close> is the panic of the division by an average of zero.\<close>

definition estimate_item_count :: "string \<Rightarrow> nat \<Rightarrow> size_estimator \<Rightarrow> nat option" where
  "estimate_item_count namespace page_size s =
     (let avg = (case estimate_avg_item_size namespace s of None \<Rightarrow> 1024 | Some a \<Rightarrow> a)
      in if avg = 0 then None else Some (max (page_size div avg) 1))"

definition se_reset :: "string \<Rightarrow> size_estimator \<Rightarrow> size_estimator" where
  "se_reset namespace s = AList.delete namespace s"

section \<open>Accounting of the metadata cache\<close>

definition pn_ok :: "pinned_metadata_cache \<Rightarrow> bool" where
  "pn_ok p \<longleftrightarrow> distinct (map fst (pn_entries p)) \<and> length (pn_entries p) \<le> pn_max_entries p
     \<and> pn_total_size_bytes p = sum_list (map (\<lambda>(_, m). pm_estimated_size_bytes m) (pn_entries p))"

lemma sum_update_new:
  fixes f :: "'b \<Rightarrow> 'c :: ab_group_add"
  shows "map_of xs k = None \<Longrightarrow> sum_list (map (\<lambda>(_, v). f v) (AList.update k w xs)) = sum_list (map (\<lambda>(_, v). f v) xs) + f w"
  by (induction xs) (auto split: if_splits simp: add.assoc)

lemma sum_update_old:
  fixes f :: "'b \<Rightarrow> 'c :: ab_group_add"
  shows "map_of xs k = Some v \<Longrightarrow> sum_list (map (\<lambda>(_, v). f v) (AList.update k w xs)) = sum_list (map (\<lambda>(_, v). f v) xs) - f v + f w"
  by (induction xs) (auto split: if_splits simp: algebra_simps)

lemma sum_delete:
  fixes f :: "'b \<Rightarrow> 'c :: ab_group_add"
  shows "distinct (map fst xs) \<Longrightarrow> map_of xs k = Some v \<Longrightarrow> sum_list (map (\<lambda>(_, v). f v) (AList.delete k xs)) = sum_list (map (\<lambda>(_, v). f v) xs) - f v"
proof (induction xs)
  case (Cons x xs)
  show ?case
  proof (cases "fst x = k")
    case True
    then have "AList.delete k xs = xs" using Cons.prems(1) by (intro delete_id) auto
    then show ?thesis using Cons.prems True by (auto split: prod.splits)
  next
    case False
    then show ?thesis using Cons by (auto split: prod.splits simp: algebra_simps)
  qed
qed simp

lemma length_update: "length (AList.update k w xs) = (if map_of xs k = None then Suc (length xs) else length xs)"
  by (induction xs) auto

lemma pn_pin_ok: "pn_ok p \<Longrightarrow> pn_ok (pn_pin i m p)"
  by (auto simp: pn_ok_def pn_pin_def distinct_update length_update sum_update_new sum_update_old split: option.splits)

lemma pn_release_ok: "pn_ok p \<Longrightarrow> pn_ok (snd (pn_release i p))"
  using length_delete_le [of i "pn_entries p"]
  by (auto simp: pn_ok_def pn_release_def distinct_delete sum_delete split: option.splits)

lemma pn_release_batch_ok: "pn_ok p \<Longrightarrow> pn_ok (pn_release_batch is p)"
  unfolding pn_release_batch_def by (induction "is" arbitrary: p) (simp_all add: pn_release_ok)

lemma open_with_cache_ok: "pn_ok p \<Longrightarrow> pn_ok (snd (open_with_cache E m path F p))"
  by (auto simp: open_with_cache_def pn_pin_ok split: option.splits sum.splits)

inductive pn_reach :: "cache_config \<Rightarrow> pinned_metadata_cache \<Rightarrow> bool" for config where
  new: "pn_reach config (pn_new config)"
| pin: "pn_reach config p \<Longrightarrow> pn_reach config (pn_pin i m p)"
| release: "pn_reach config p \<Longrightarrow> pn_reach config (snd (pn_release i p))"
| release_batch: "pn_reach config p \<Longrightarrow> pn_reach config (pn_release_batch is p)"
| open_cached: "pn_reach config p \<Longrightarrow> pn_reach config (snd (open_with_cache E m path F p))"

lemma pn_max_entries_keep [simp]:
  "pn_max_entries (pn_pin i m p) = pn_max_entries p" "pn_max_entries (snd (pn_release i p)) = pn_max_entries p"
  "pn_max_entries (pn_release_batch is p) = pn_max_entries p" "pn_max_entries (snd (open_with_cache E s path F p)) = pn_max_entries p"
proof -
  show a: "pn_max_entries (pn_pin i m p) = pn_max_entries p" for i m by (simp add: pn_pin_def split: option.splits)
  show r: "pn_max_entries (snd (pn_release i p)) = pn_max_entries p" for i p by (simp add: pn_release_def split: option.splits)
  show "pn_max_entries (pn_release_batch is p) = pn_max_entries p"
    unfolding pn_release_batch_def by (induction "is" arbitrary: p) (simp_all add: r)
  show "pn_max_entries (snd (open_with_cache E s path F p)) = pn_max_entries p"
    by (simp add: open_with_cache_def a split: option.splits sum.splits)
qed

text \<open>C40: the metadata cache is well formed. In every state the cache can reach by pinning, releasing and opening SSTables
  through it, no id is pinned twice, no more SSTables are pinned than the capacity allows, and the recorded size is the sum of
  the sizes of the pinned entries, so that no subtraction on release goes below zero.\<close>
theorem pinned_cache_well_formed:
  assumes "pn_reach config p"
  shows "distinct (map fst (pn_entries p)) \<and> length (pn_entries p) \<le> pinned_metadata_capacity config
    \<and> pn_total_size_bytes p = sum_list (map (\<lambda>(_, m). pm_estimated_size_bytes m) (pn_entries p))"
proof -
  have "pn_ok p \<and> pn_max_entries p = pinned_metadata_capacity config"
    using assms by induction (simp_all add: pn_pin_ok pn_release_ok pn_release_batch_ok open_with_cache_ok, simp_all add: pn_new_def pn_ok_def)
  then show ?thesis by (simp add: pn_ok_def)
qed

theorem pinned_cache_well_formed_witness:
  "\<forall>fb ib ft. length (pn_entries (pn_pin ''a'' \<lparr>pm_bloom_filter = fb, pm_index_block = ib, pm_footer = ft, pm_estimated_size_bytes = 7\<rparr> (pn_new cache_config_default))) \<le> 1000"
  using pinned_cache_well_formed [OF pn_reach.pin [OF pn_reach.new [of cache_config_default]]] by (simp only: cache_config_default_def cache_config.simps) blast

section \<open>Opening through the metadata cache\<close>

text \<open>Every pinned entry is what opening the SSTable with that id reads.\<close>

definition pinned_faithful :: "codecs \<Rightarrow> block_fetcher \<Rightarrow> (sst_meta \<times> string) set \<Rightarrow> pinned_metadata_cache \<Rightarrow> bool" where
  "pinned_faithful E F S p \<longleftrightarrow> (\<forall>(meta, path) \<in> S. \<forall>m. pn_get (sm_id meta) p = Some m \<longrightarrow>
     handle_open E meta path F = Inr \<lparr>hn_meta = meta, hn_path = path, hn_footer = pm_footer m, hn_bloom_filter = pm_bloom_filter m,
       hn_index_block = pm_index_block m\<rparr>)"

lemma pinned_faithfulD:
  "pinned_faithful E F S p \<Longrightarrow> (meta, path) \<in> S \<Longrightarrow> pn_get (sm_id meta) p = Some m \<Longrightarrow>
     handle_open E meta path F = Inr \<lparr>hn_meta = meta, hn_path = path, hn_footer = pm_footer m, hn_bloom_filter = pm_bloom_filter m,
       hn_index_block = pm_index_block m\<rparr>"
  unfolding pinned_faithful_def by blast

lemma pn_get_pin: "pn_get k (pn_pin i m p) = Some x \<Longrightarrow> (k = i \<and> x = m) \<or> pn_get k p = Some x"
  by (auto simp: pn_get_def pn_pin_def update_conv' split: option.splits if_splits)

lemma pn_get_release: "pn_get k (snd (pn_release i p)) = Some x \<Longrightarrow> pn_get k p = Some x"
  by (auto simp: pn_get_def pn_release_def delete_conv' split: option.splits if_splits)

text \<open>Two SSTables with one id have the same metadata.\<close>

definition one_file_per_id :: "codecs \<Rightarrow> block_fetcher \<Rightarrow> (sst_meta \<times> string) set \<Rightarrow> bool" where
  "one_file_per_id E F S \<longleftrightarrow> (\<forall>(meta, path) \<in> S. \<forall>(meta', path') \<in> S. sm_id meta = sm_id meta' \<longrightarrow>
     map_sum id (\<lambda>h. h\<lparr>hn_meta := meta', hn_path := path'\<rparr>) (handle_open E meta path F) = handle_open E meta' path' F)"

lemma open_with_cache_transparent:
  assumes u: "one_file_per_id E F S" and p: "pinned_faithful E F S p" and m: "(meta, path) \<in> S"
  shows "fst (open_with_cache E meta path F p) = handle_open E meta path F" and "pinned_faithful E F S (snd (open_with_cache E meta path F p))"
proof -
  show "fst (open_with_cache E meta path F p) = handle_open E meta path F"
    using pinned_faithfulD [OF p m] by (auto simp: open_with_cache_def split: option.splits sum.splits)
  show "pinned_faithful E F S (snd (open_with_cache E meta path F p))"
  proof (cases "pn_get (sm_id meta) p")
    case Some
    then show ?thesis using p by (simp add: open_with_cache_def)
  next
    case None
    show ?thesis
    proof (cases "handle_open E meta path F")
      case Inl
      then show ?thesis using p None by (simp add: open_with_cache_def)
    next
      case (Inr h)
      let ?m = "pm_new (hn_bloom_filter h) (hn_index_block h) (hn_footer h)"
      have new: "handle_open E meta' path' F = Inr \<lparr>hn_meta = meta', hn_path = path', hn_footer = pm_footer ?m, hn_bloom_filter = pm_bloom_filter ?m,
          hn_index_block = pm_index_block ?m\<rparr>" if a: "(meta', path') \<in> S" and i: "sm_id meta' = sm_id meta" for meta' path'
      proof -
        have "map_sum id (\<lambda>h. h\<lparr>hn_meta := meta', hn_path := path'\<rparr>) (handle_open E meta path F) = handle_open E meta' path' F"
          using u m a i unfolding one_file_per_id_def by fastforce
        then show ?thesis using Inr by (cases h) (simp add: pm_new_def Let_def)
      qed
      show ?thesis
        unfolding pinned_faithful_def
      proof (clarify)
        fix meta' path' x
        assume a: "(meta', path') \<in> S" and g: "pn_get (sm_id meta') (snd (open_with_cache E meta path F p)) = Some x"
        have "pn_get (sm_id meta') (pn_pin (sm_id meta) ?m p) = Some x" using g None Inr handle_open_fields [OF Inr] by (simp add: open_with_cache_def)
        then consider "sm_id meta' = sm_id meta" "x = ?m" | "pn_get (sm_id meta') p = Some x" using pn_get_pin by blast
        then show "handle_open E meta' path' F = Inr \<lparr>hn_meta = meta', hn_path = path', hn_footer = pm_footer x, hn_bloom_filter = pm_bloom_filter x,
            hn_index_block = pm_index_block x\<rparr>"
          using new [OF a] pinned_faithfulD [OF p a] by cases simp_all
      qed
    qed
  qed
qed

section \<open>What the tracker knows\<close>

lemma key_in_merged:
  assumes "overlaps_or_adjacent a b" and "merged_bounds a b = (s, e)"
  shows "key_in_range k \<lparr>iv_start_key = s, iv_end_key = e, iv_manifest_id = m\<rparr> \<longleftrightarrow> key_in_range k a \<or> key_in_range k b"
  using assms unfolding overlaps_or_adjacent_def merged_bounds_def key_in_range_def
  by (auto split: if_splits)

lemma merge_steps_cover:
  "(\<exists>i \<in> set (fold merge_step is acc). key_in_range k i) \<longleftrightarrow> (\<exists>i \<in> set acc. key_in_range k i) \<or> (\<exists>i \<in> set is. key_in_range k i)"
proof (induction "is" arbitrary: acc)
  case (Cons i "is")
  have "(\<exists>x \<in> set (merge_step i acc). key_in_range k x) \<longleftrightarrow> (\<exists>x \<in> set acc. key_in_range k x) \<or> key_in_range k i"
  proof (cases "acc \<noteq> [] \<and> overlaps_or_adjacent (last acc) i")
    case True
    have "set acc = insert (last acc) (set (butlast acc))" using True by (metis append_butlast_last_id empty_set list.simps(15) set_append sup_commute insert_is_Un)
    moreover obtain s e where b: "merged_bounds (last acc) i = (s, e)" by fastforce
    moreover note key_in_merged [OF conjunct2 [OF True] b]
    ultimately show ?thesis using True by (auto simp: merge_step_def)
  next
    case False
    then show ?thesis by (auto simp: merge_step_def)
  qed
  then show ?case using Cons.IH by auto
qed simp

lemma merge_intervals_exact: "(\<exists>i \<in> set (merge_intervals is). key_in_range k i) \<longleftrightarrow> (\<exists>i \<in> set is. key_in_range k i)"
  by (simp add: merge_intervals_def merge_steps_cover)

definition cy_ok :: "continuity_tracker \<Rightarrow> bool" where
  "cy_ok t \<longleftrightarrow> distinct (map fst (cy_intervals t)) \<and> length (cy_intervals t) \<le> cy_max_records t
     \<and> (\<forall>(r, is) \<in> set (cy_intervals t). length is \<le> cy_max_intervals_per_record t)"

lemma drop_oldest_bound: "length (drop_oldest_records n rs) \<le> n"
proof (induction n rs rule: drop_oldest_records.induct)
  case (1 n rs)
  show ?case
  proof (cases "length rs > n")
    case True
    then obtain x where "min_by_key (\<lambda>(_, is). oldest_manifest is) rs = Some x" using min_by_key_exists by blast
    then show ?thesis using 1 [OF True] by (cases x) (subst drop_oldest_records.simps, simp)
  qed (subst drop_oldest_records.simps, simp)
qed

lemma drop_oldest_subset: "set (drop_oldest_records n rs) \<subseteq> set rs \<and> (distinct (map fst rs) \<longrightarrow> distinct (map fst (drop_oldest_records n rs)))"
proof (induction n rs rule: drop_oldest_records.induct)
  case (1 n rs)
  have d: "set (AList.delete k rs) \<subseteq> set rs" for k by (auto simp: AList.delete_eq)
  show ?case
  proof (cases "length rs > n")
    case True
    then obtain k is' where x: "min_by_key (\<lambda>(_, is). oldest_manifest is) rs = Some (k, is')" using min_by_key_exists [OF True] by (metis surj_pair)
    then show ?thesis using 1 [OF True x refl] d [of k] distinct_delete [of rs k] True by (subst (1 2) drop_oldest_records.simps) auto
  qed (subst (1 2) drop_oldest_records.simps, simp)
qed

lemma set_update: "distinct (map fst xs) \<Longrightarrow> set (AList.update k v xs) = insert (k, v) {x \<in> set xs. fst x \<noteq> k}"
  by (induction xs) (auto simp: image_iff)

lemma enforce_max_intervals_ok:
  assumes "distinct (map fst (cy_intervals t))" and "\<forall>(r, is) \<in> set (cy_intervals t). r \<noteq> rid \<longrightarrow> length is \<le> cy_max_intervals_per_record t"
  shows "\<forall>(r, is) \<in> set (cy_intervals (enforce_max_intervals_per_record rid t)). length is \<le> cy_max_intervals_per_record t"
    and "distinct (map fst (cy_intervals (enforce_max_intervals_per_record rid t)))"
proof -
  have k: "map_of (cy_intervals t) rid = Some is" if "(rid, is) \<in> set (cy_intervals t)" for "is" using map_of_is_SomeI [OF assms(1) that] .
  have none: "(rid, is) \<notin> set (cy_intervals t)" if "map_of (cy_intervals t) rid = None" for "is" using k that by auto
  show "distinct (map fst (cy_intervals (enforce_max_intervals_per_record rid t)))"
    using assms(1) by (simp add: enforce_max_intervals_per_record_def distinct_update split: option.splits)
  show "\<forall>(r, is) \<in> set (cy_intervals (enforce_max_intervals_per_record rid t)). length is \<le> cy_max_intervals_per_record t"
  proof (clarify)
    fix r "is" assume m: "(r, is) \<in> set (cy_intervals (enforce_max_intervals_per_record rid t))"
    consider "(r, is) \<in> set (cy_intervals t)" "r \<noteq> rid" | "(rid, is) \<in> set (cy_intervals t)" "length is \<le> cy_max_intervals_per_record t"
      | is' where "is = drop (length is' - cy_max_intervals_per_record t) (sort_key iv_manifest_id is')"
      using m none k by (auto simp: enforce_max_intervals_per_record_def set_update [OF assms(1)] split: option.splits if_splits)
    then show "length is \<le> cy_max_intervals_per_record t" using assms(2) by cases auto
  qed
qed

lemma enforce_limits_keep [simp]:
  "cy_max_intervals_per_record (enforce_max_records t) = cy_max_intervals_per_record t" "cy_max_records (enforce_max_records t) = cy_max_records t"
  "cy_max_intervals_per_record (enforce_max_intervals_per_record r t) = cy_max_intervals_per_record t"
  "cy_max_records (enforce_max_intervals_per_record r t) = cy_max_records t"
  by (simp_all add: enforce_max_records_def enforce_max_intervals_per_record_def split: option.splits)

lemma enforce_max_records_ok:
  assumes "distinct (map fst (cy_intervals t))" and "\<forall>(r, is) \<in> set (cy_intervals t). length is \<le> cy_max_intervals_per_record t"
  shows "cy_ok (enforce_max_records t)"
  using assms drop_oldest_bound [of "cy_max_records t" "cy_intervals t"] drop_oldest_subset [of "cy_max_records t" "cy_intervals t"]
  by (auto simp: cy_ok_def enforce_max_records_def)

lemma mark_range_ok:
  assumes "cy_ok t"
  shows "cy_ok (mark_range_complete r s e m t)"
proof (cases "cy_enabled t")
  case True
  define is' where "is' = merge_intervals ((case map_of (cy_intervals t) r of None \<Rightarrow> [] | Some is \<Rightarrow> is)
    @ [\<lparr>iv_start_key = s, iv_end_key = e, iv_manifest_id = m\<rparr>])"
  let ?t = "t\<lparr>cy_intervals := AList.update r is' (cy_intervals t)\<rparr>"
  have d: "distinct (map fst (cy_intervals ?t))" using assms by (simp add: cy_ok_def distinct_update)
  have "\<forall>(x, is) \<in> set (cy_intervals ?t). x \<noteq> r \<longrightarrow> length is \<le> cy_max_intervals_per_record ?t"
    using assms by (auto simp: cy_ok_def set_update)
  note ok = enforce_max_intervals_ok [OF d this]
  have "mark_range_complete r s e m t = enforce_max_records (enforce_max_intervals_per_record r ?t)"
    using True by (simp add: mark_range_complete_def Let_def is'_def)
  then show ?thesis using enforce_max_records_ok [OF ok(2)] ok(1) by simp
next
  case False
  then show ?thesis using assms by (simp add: mark_range_complete_def)
qed

lemma invalidate_ok:
  assumes "cy_ok t"
  shows "cy_ok (invalidate_for_record r t)" and "cy_ok (invalidate_before_manifest m t)" and "cy_ok (invalidate_all t)"
proof -
  show "cy_ok (invalidate_for_record r t)"
  proof -
    have "set (AList.delete r (cy_intervals t)) \<subseteq> set (cy_intervals t)" by (auto simp: AList.delete_eq)
    then show ?thesis using assms length_delete_le [of r "cy_intervals t"] by (auto simp: cy_ok_def invalidate_for_record_def distinct_delete)
  qed
  show "cy_ok (invalidate_all t)" by (simp add: cy_ok_def invalidate_all_def)
  let ?f = "\<lambda>(r, is). (r, filter (\<lambda>i. iv_manifest_id i \<ge> m) is)"
  have "map fst (map ?f (cy_intervals t)) = map fst (cy_intervals t)" by (auto simp: o_def split: prod.splits)
  then have "distinct (map fst (filter (\<lambda>(_, is). is \<noteq> []) (map ?f (cy_intervals t))))" using assms by (metis cy_ok_def distinct_map_filter)
  moreover have "length (filter (\<lambda>(_, is). is \<noteq> []) (map ?f (cy_intervals t))) \<le> cy_max_records t"
    by (rule order_trans [OF length_filter_le]) (use assms in \<open>simp add: cy_ok_def\<close>)
  moreover have "length (filter (\<lambda>i. iv_manifest_id i \<ge> m) is) \<le> cy_max_intervals_per_record t" if "(r, is) \<in> set (cy_intervals t)" for r "is"
    by (rule order_trans [OF length_filter_le]) (use assms that in \<open>auto simp: cy_ok_def\<close>)
  ultimately show "cy_ok (invalidate_before_manifest m t)" by (auto simp: cy_ok_def invalidate_before_manifest_def)
qed

inductive cy_reach :: "cache_config \<Rightarrow> continuity_tracker \<Rightarrow> bool" for config where
  new: "cy_reach config (cy_new config)"
| mark: "cy_reach config t \<Longrightarrow> cy_reach config (mark_range_complete r s e m t)"
| invalidate_record: "cy_reach config t \<Longrightarrow> cy_reach config (invalidate_for_record r t)"
| invalidate_before: "cy_reach config t \<Longrightarrow> cy_reach config (invalidate_before_manifest m t)"
| invalidate_all: "cy_reach config t \<Longrightarrow> cy_reach config (invalidate_all t)"

lemma cy_limits_keep [simp]:
  "cy_max_records (mark_range_complete r s e m t) = cy_max_records t"
  "cy_max_intervals_per_record (mark_range_complete r s e m t) = cy_max_intervals_per_record t"
  by (simp_all add: mark_range_complete_def Let_def)

lemma continuity_bounded:
  assumes "cy_reach config t"
  shows "length (cy_intervals t) \<le> 10000 \<and> (\<forall>(r, is) \<in> set (cy_intervals t). length is \<le> 100)"
proof -
  have "cy_ok t \<and> cy_max_records t = 10000 \<and> cy_max_intervals_per_record t = 100"
    using assms
  proof induction
    case new
    show ?case by (simp add: cy_new_def cy_ok_def)
  qed (simp_all add: mark_range_ok invalidate_ok, simp_all add: invalidate_for_record_def invalidate_before_manifest_def invalidate_all_def)
  then show ?thesis by (auto simp: cy_ok_def)
qed

text \<open>Adjacent ranges read under different manifests are joined under the newer one: keys of the older range, whose
  absence was established under the older manifest only, count as absent under the newer one.\<close>

lemma continuity_overclaims:
  assumes "cy_enabled t" and "map_of (cy_intervals t) r = None" and "Suc (length (cy_intervals t)) \<le> cy_max_records t" and "2 \<le> cy_max_intervals_per_record t"
    and k: "s \<le> k" "k < mid" "m1 < m2" "mid \<le> e"
  shows "\<not> is_known_absent r k m2 (mark_range_complete r s mid m1 t)
    \<and> is_known_absent r k m2 (mark_range_complete r mid e m2 (mark_range_complete r s mid m1 t))"
proof -
  let ?i1 = "\<lparr>iv_start_key = s, iv_end_key = mid, iv_manifest_id = m1\<rparr>"
  let ?i2 = "\<lparr>iv_start_key = mid, iv_end_key = e, iv_manifest_id = m2\<rparr>"
  have mid: "mid \<noteq> []" using k(2) by auto
  have e: "e \<noteq> []" using k(4) mid by (metis Nil_le order_antisym)
  have t1: "mark_range_complete r s mid m1 t = t\<lparr>cy_intervals := AList.update r [?i1] (cy_intervals t)\<rparr>"
    using assms(1-4) by (simp add: mark_range_complete_def merge_intervals_def enforce_max_intervals_per_record_def enforce_max_records_def
        update_conv' length_update)
  have sm: "s \<le> mid" using k(1,2) by simp
  have mg: "merge_intervals [?i1, ?i2] = [\<lparr>iv_start_key = s, iv_end_key = e, iv_manifest_id = m2\<rparr>]"
    using sm mid e k by (auto simp: merge_intervals_def merge_step_def overlaps_or_adjacent_def merged_bounds_def max_def)
  have "mark_range_complete r mid e m2 (mark_range_complete r s mid m1 t)
      = t\<lparr>cy_intervals := AList.update r [\<lparr>iv_start_key = s, iv_end_key = e, iv_manifest_id = m2\<rparr>] (AList.update r [?i1] (cy_intervals t))\<rparr>"
    unfolding t1 using assms(1-4) by (simp add: mark_range_complete_def mg enforce_max_intervals_per_record_def enforce_max_records_def
        update_conv' length_update)
  then show ?thesis using assms(1) k less_le_trans [OF k(2,4)] by (simp add: t1 is_known_absent_def update_conv' key_in_range_def)
qed

section \<open>What the estimator counts\<close>

text \<open>A page always holds an item; the estimate panics when the items recorded have less than one byte on average.\<close>

lemma estimate_item_count_cases:
  "estimate_item_count ns n s = None \<longleftrightarrow> estimate_avg_item_size ns s = Some 0"
  "estimate_item_count ns n s = Some c \<Longrightarrow> 1 \<le> c"
  by (auto simp: estimate_item_count_def Let_def split: option.splits if_splits)

lemma empty_items_panic: "estimate_item_count ns n (record_items ns 0 1 []) = None"
  by (simp add: estimate_item_count_def estimate_avg_item_size_def record_items_def)

end
