(* ===== verification/Engine.thy ===== *)
theory Engine
  imports Recovery Metadata_Cache
begin

text \<open>
  \<^verbatim>\<open>engine.rs\<close>: the state of an open namespace and every operation on it, composed of the components as the code composes them. An
  operation takes the engine to a result and the engine after it; \<open>None\<close> stands for a merge that panics, which is excluded where
  results are claimed. What the operations take from outside (clocks, random heights, ULIDs, the schedule of the commit loop) is indexed
  by a counter of the engine. The store is part of the state.
\<close>

section \<open>Configuration and state\<close>

record engine_config =
  ec_memtable_config :: memtable_config
  ec_wal_config :: wal_config
  ec_flush_config :: flush_config
  ec_compaction_config :: compaction_config
  ec_manifest_config :: manifest_config
  ec_cache_config :: cache_config
  ec_namespace :: string

record put_batch_item =
  pb_item_key :: bytes
  pb_value :: bytes
  pb_metadata :: bytes
  pb_idempotency_token :: idempotency_token

record 'c env =
  ev_codecs :: codecs
  ev_json :: manifest_json
  ev_crc :: "bytes \<Rightarrow> u32"
  ev_moka :: "'c moka"
  ev_node_size :: nat
  ev_rng :: "nat \<Rightarrow> rng"
  ev_now :: "nat \<Rightarrow> nat"
  ev_ms :: "nat \<Rightarrow> u64"
  ev_clock :: "nat \<Rightarrow> nat \<Rightarrow> u64"
  ev_ulid :: "nat \<Rightarrow> string"
  ev_run_id :: "nat \<Rightarrow> string"
  ev_early :: "nat \<Rightarrow> bool"
  ev_passes :: "nat \<Rightarrow> nat"

record 'c engine =
  en_memtable_list :: memtable_list
  en_wal_manager :: wal_manager
  en_manifest_manager :: manifest_manager
  en_flush_pipeline :: flush_pipeline
  en_compaction_scheduler :: compaction_config
  en_compaction_executor :: compaction_executor
  en_levels :: "level_state list"
  en_block_cache :: 'c
  en_pinned_metadata :: pinned_metadata_cache
  en_continuity_tracker :: continuity_tracker
  en_size_estimator :: size_estimator
  en_config :: engine_config
  en_next_sequence :: u64
  en_generation_counter :: u64
  en_pending_deletions :: "string list"
  en_objects :: objects
  en_tick :: nat

type_synonym ('c, 'a) engine_op = "'c engine \<Rightarrow> ('a flush_result \<times> 'c engine) option"

definition eret :: "'a \<Rightarrow> ('c, 'a) engine_op" where
  "eret x e = Some (Inr x, e)"

definition eraise :: "flush_error \<Rightarrow> ('c, 'a) engine_op" where
  "eraise err e = Some (Inl err, e)"

definition elift :: "'a flush_result \<Rightarrow> ('c, 'a) engine_op" where
  "elift r e = Some (r, e)"

text \<open>Sequencing with the \<^verbatim>\<open>?\<close> operator: an error ends the operation and keeps the state it left.\<close>

definition ebind :: "('c, 'a) engine_op \<Rightarrow> ('a \<Rightarrow> ('c, 'b) engine_op) \<Rightarrow> ('c, 'b) engine_op" where
  "ebind m f e = (case m e of None \<Rightarrow> None | Some (Inl err, e) \<Rightarrow> Some (Inl err, e) | Some (Inr x, e) \<Rightarrow> f x e)"

definition eupdate :: "('c engine \<Rightarrow> 'c engine) \<Rightarrow> ('c, unit) engine_op" where
  "eupdate f e = Some (Inr (), f e)"

definition next_tick :: "'c engine \<Rightarrow> 'c engine" where
  "next_tick e = e\<lparr>en_tick := Suc (en_tick e)\<rparr>"

text \<open>The caching fetcher over the store, for operations that take any fetcher. They see the blocks cached when they start; what
  they fetch themselves is not kept, as the cache may drop any block at any time.\<close>

definition cached_view :: "'c moka \<Rightarrow> 'c \<Rightarrow> block_fetcher \<Rightarrow> block_fetcher" where
  "cached_view M c F = F\<lparr>fetch_block := \<lambda>path offset sz compression. fst (caching_fetch_block M F path offset sz compression c)\<rparr>"

definition en_fetcher :: "'c env \<Rightarrow> 'c engine \<Rightarrow> block_fetcher" where
  "en_fetcher ev e = cached_view (ev_moka ev) (en_block_cache e) (direct_fetcher (ev_codecs ev) (en_objects e))"

section \<open>Opening\<close>

definition engine_open ::
  "'c env \<Rightarrow> engine_config \<Rightarrow> 'c \<Rightarrow> wal_dir \<Rightarrow> objects \<Rightarrow> 'c engine flush_result \<times> objects" where
  "engine_open ev config c0 dir objs =
     (let E = ev_codecs ev; J = ev_json ev; ns = ec_namespace config;
          rc = \<lparr>rc_manifest_config = ec_manifest_config config, rc_memtable_config = ec_memtable_config config\<rparr>
      in case recover E J (ev_crc ev) (ev_node_size ev) (ev_rng ev 0) (ev_now ev 0) (ev_ms ev 0) (Some dir) ns rc
                (\<lambda>objs. cached_view (ev_moka ev) c0 (direct_fetcher E objs)) objs of
           (Inl err, objs) \<Rightarrow> (Inl err, objs)
         | (Inr rr, objs) \<Rightarrow>
             (case acquire_writer_epoch J (ev_ms ev 0) (rr_manifest_manager rr) objs of
                (Inl err, mm, objs) \<Rightarrow> (Inl err, objs)
              | (Inr _, mm, objs) \<Rightarrow>
                  (bind_res (wm_open (ev_crc ev) (ev_ms ev 0) (ec_wal_config config) dir) (\<lambda>wm.
                     Inr \<lparr>en_memtable_list = rr_memtable_list rr, en_wal_manager = wm, en_manifest_manager = mm,
                          en_flush_pipeline = fp_new (ec_flush_config config) ns,
                          en_compaction_scheduler = ec_compaction_config config,
                          en_compaction_executor = \<lparr>ce_sst_config = fc_sst_config (ec_flush_config config),
                            ce_compaction_config = ec_compaction_config config, ce_namespace = ns\<rparr>,
                          en_levels = rr_levels rr, en_block_cache = c0, en_pinned_metadata = pn_new (ec_cache_config config),
                          en_continuity_tracker = cy_new (ec_cache_config config), en_size_estimator = [], en_config = config,
                          en_next_sequence = rr_next_sequence_number rr, en_generation_counter = 0, en_pending_deletions = [],
                          en_objects = objs, en_tick = 1\<rparr>), objs)))"

section \<open>Status\<close>

definition engine_write_stall_status :: "'c engine \<Rightarrow> write_stall_status" where
  "engine_write_stall_status e = sched_write_stall_status (en_compaction_scheduler e) (mm_current (en_manifest_manager e))"

definition engine_l0_count :: "'c engine \<Rightarrow> nat" where
  "engine_l0_count e = l0_count (mm_current (en_manifest_manager e))"

definition level_sizes :: "'c engine \<Rightarrow> (level \<times> u64) list" where
  "level_sizes e = map (\<lambda>l. (l, level_size_bytes l (mm_current (en_manifest_manager e)))) level_all"

definition manifest_version :: "'c engine \<Rightarrow> manifest_id" where
  "manifest_version e = mf_manifest_id (mm_current (en_manifest_manager e))"

definition check_write_stall :: "('c, unit) engine_op" where
  "check_write_stall e =
     (case engine_write_stall_status e of
        Stopped _ \<Rightarrow> eraise (ResourceExhausted ''L0 SSTables'' ''write stalled'') e
      | _ \<Rightarrow>
          if ml_is_memory_backpressured (en_memtable_list e) then eraise (ResourceExhausted ''memtable_memory'' ''memtable memory exceeds limit'') e
          else eret () e)"

section \<open>Compaction\<close>

fun reopen_handles ::
  "codecs \<Rightarrow> level \<Rightarrow> string \<Rightarrow> block_fetcher \<Rightarrow> sst_meta list \<Rightarrow> pinned_metadata_cache \<Rightarrow> sst_handle list flush_result \<times> pinned_metadata_cache" where
  "reopen_handles E l namespace F [] pinned = (Inr [], pinned)"
| "reopen_handles E l namespace F (meta # metas) pinned =
     (case open_with_cache E meta (sst_path namespace l meta) F pinned of
        (Inl e, pinned) \<Rightarrow> (Inl e, pinned)
      | (Inr h, pinned) \<Rightarrow>
          (case reopen_handles E l namespace F metas pinned of
             (Inl e, pinned) \<Rightarrow> (Inl e, pinned)
           | (Inr hs, pinned) \<Rightarrow> (Inr (h # hs), pinned)))"

text \<open>The levels rebuilt so far are kept when an SSTable cannot be opened.\<close>

fun reopen_levels ::
  "codecs \<Rightarrow> string \<Rightarrow> block_fetcher \<Rightarrow> manifest \<Rightarrow> level list \<Rightarrow> pinned_metadata_cache
    \<Rightarrow> unit flush_result \<times> level_state list \<times> pinned_metadata_cache" where
  "reopen_levels E namespace F m [] pinned = (Inr (), [], pinned)"
| "reopen_levels E namespace F m (l # ls) pinned =
     (let metas = sstables_at_level l m
      in case (if metas = [] then (Inr [], pinned) else reopen_handles E l namespace F metas pinned) of
           (Inl e, pinned) \<Rightarrow> (Inl e, [], pinned)
         | (Inr handles, pinned) \<Rightarrow>
             (case reopen_levels E namespace F m ls pinned of (r, lss, pinned) \<Rightarrow>
                (r, \<lparr>ls_level = l, ls_handles = (if level_is_overlapping l then handles else sort_key (\<lambda>h. sm_min_key (hn_meta h)) handles)\<rparr> # lss,
                 pinned)))"

definition rebuild_levels :: "'c env \<Rightarrow> ('c, unit) engine_op" where
  "rebuild_levels ev e =
     (case reopen_levels (ev_codecs ev) (ec_namespace (en_config e)) (en_fetcher ev e) (mm_current (en_manifest_manager e)) level_all
             (en_pinned_metadata e) of
        (r, levels, pinned) \<Rightarrow> Some (r, e\<lparr>en_levels := levels, en_pinned_metadata := pinned\<rparr>))"

definition run_task :: "'c env \<Rightarrow> compaction_task \<Rightarrow> ('c, compaction_result) engine_op" where
  "run_task ev task e =
     (let t = en_tick e
      in case ce_execute (ev_codecs ev) (ev_json ev) (ev_clock ev t) (en_compaction_executor e) (ev_ms ev t) (ev_run_id ev t) (ev_ulid ev t) task
                (en_fetcher ev e) (en_manifest_manager e) (en_objects e) of
           None \<Rightarrow> None
         | Some (r, mm, objs) \<Rightarrow> Some (r, next_tick (e\<lparr>en_manifest_manager := mm, en_objects := objs\<rparr>)))"

definition after_compaction :: "'c env \<Rightarrow> compaction_result \<Rightarrow> 'c engine \<Rightarrow> 'c engine" where
  "after_compaction ev result e =
     (case evict_compaction_result (ev_moka ev) result (en_block_cache e) (en_pinned_metadata e) of
        (c, pinned) \<Rightarrow>
          e\<lparr>en_block_cache := c, en_pinned_metadata := pinned,
            en_continuity_tracker := invalidate_before_manifest (manifest_version e) (en_continuity_tracker e)\<rparr>)"

definition engine_compact :: "'c env \<Rightarrow> compaction_task \<Rightarrow> ('c, compaction_result) engine_op" where
  "engine_compact ev task =
     ebind (run_task ev task) (\<lambda>result.
     ebind (eupdate (\<lambda>e. e\<lparr>en_pending_deletions := en_pending_deletions e @ cr_removed_sstable_ids result\<rparr>)) (\<lambda>_.
     ebind (rebuild_levels ev) (\<lambda>_.
     ebind (eupdate (after_compaction ev result)) (\<lambda>_.
     eret result))))"

fun compact_tasks :: "'c env \<Rightarrow> compaction_task list \<Rightarrow> ('c, compaction_result list) engine_op" where
  "compact_tasks ev [] = eret []"
| "compact_tasks ev (task # tasks) =
     ebind (engine_compact ev task) (\<lambda>result. ebind (compact_tasks ev tasks) (\<lambda>results. eret (result # results)))"

definition maybe_compact :: "'c env \<Rightarrow> ('c, compaction_result list) engine_op" where
  "maybe_compact ev e = compact_tasks ev (check_triggers (en_compaction_scheduler e) (mm_current (en_manifest_manager e))) e"

section \<open>Flushing\<close>

definition pop_frozen :: "('c, u64 \<times> memtable) engine_op" where
  "pop_frozen e =
     (case ml_pop_oldest_frozen_with_generation (en_memtable_list e) of
        Inl err \<Rightarrow> eraise err e
      | Inr (None, l) \<Rightarrow> eraise (InvalidArgument ''no frozen memtables to flush'') (e\<lparr>en_memtable_list := l\<rparr>)
      | Inr (Some p, l) \<Rightarrow> eret p (e\<lparr>en_memtable_list := l\<rparr>))"

definition run_flush :: "'c env \<Rightarrow> u64 \<times> memtable \<Rightarrow> ('c, flush_output) engine_op" where
  "run_flush ev p e =
     (let t = en_tick e
      in case fp_flush (ev_codecs ev) (ev_json ev) (ev_clock ev t) (en_flush_pipeline e) (ev_ms ev t) (ev_ulid ev t) (snd p) (fst p)
                (en_manifest_manager e) (en_objects e) of
           (r, mm, objs) \<Rightarrow> Some (r, next_tick (e\<lparr>en_manifest_manager := mm, en_objects := objs\<rparr>)))"

definition clean_wal :: "u64 \<Rightarrow> 'c engine \<Rightarrow> 'c engine" where
  "clean_wal generation_id e =
     (case wm_mark_generation_flushed generation_id (en_wal_manager e) of
        (deletable, wm) \<Rightarrow> e\<lparr>en_wal_manager := wm_cleanup_segments deletable wm\<rparr>)"

definition open_flushed :: "'c env \<Rightarrow> sst_meta \<Rightarrow> ('c, sst_handle) engine_op" where
  "open_flushed ev meta e =
     (case open_with_cache (ev_codecs ev) meta (sst_path (ec_namespace (en_config e)) L0 meta) (en_fetcher ev e) (en_pinned_metadata e) of
        (r, pinned) \<Rightarrow> Some (r, e\<lparr>en_pinned_metadata := pinned\<rparr>))"

definition push_l0 :: "sst_handle \<Rightarrow> level_state list \<Rightarrow> level_state list" where
  "push_l0 h levels =
     (case (if levels = [] then map (\<lambda>l. \<lparr>ls_level = l, ls_handles = []\<rparr>) level_all else levels) of
        l0 # rest \<Rightarrow> l0\<lparr>ls_handles := ls_handles l0 @ [h]\<rparr> # rest
      | [] \<Rightarrow> [])"

definition flush_frozen :: "'c env \<Rightarrow> ('c, flush_output) engine_op" where
  "flush_frozen ev =
     ebind pop_frozen (\<lambda>p.
     ebind (run_flush ev p) (\<lambda>result.
     ebind (eupdate (clean_wal (fst p))) (\<lambda>_.
     ebind (open_flushed ev (fo_sst_meta result)) (\<lambda>h.
     ebind (eupdate (\<lambda>e. e\<lparr>en_levels := push_l0 h (en_levels e)\<rparr>)) (\<lambda>_.
     ebind (maybe_compact ev) (\<lambda>_.
     eret result))))))"

definition has_frozen :: "'c engine \<Rightarrow> bool" where
  "has_frozen e \<longleftrightarrow> ml_frozen (en_memtable_list e) \<noteq> []"

definition maybe_flush :: "'c env \<Rightarrow> ('c, flush_output option) engine_op" where
  "maybe_flush ev e = (if has_frozen e then ebind (flush_frozen ev) (\<lambda>r. eret (Some r)) e else eret None e)"

definition freeze_active :: "'c env \<Rightarrow> ('c, unit) engine_op" where
  "freeze_active ev e =
     (case ml_freeze_active_with_generation (ev_rng ev (en_tick e)) (ev_now ev (en_tick e)) (en_generation_counter e) (en_memtable_list e) of
        Inl err \<Rightarrow> eraise err e
      | Inr l \<Rightarrow> eret () (next_tick (e\<lparr>en_memtable_list := l, en_generation_counter := en_generation_counter e + 1\<rparr>)))"

section \<open>Loops over the frozen memtables\<close>

text \<open>Only popping and freezing change the list of memtables during a flush.\<close>

definition keeps_memtables :: "('c, 'a) engine_op \<Rightarrow> bool" where
  "keeps_memtables m \<longleftrightarrow> (\<forall>e r e'. m e = Some (r, e') \<longrightarrow> en_memtable_list e' = en_memtable_list e)"

lemma keeps_memtablesD: "keeps_memtables m \<Longrightarrow> m e = Some (r, e') \<Longrightarrow> en_memtable_list e' = en_memtable_list e"
  unfolding keeps_memtables_def by blast

lemma ebind_cases:
  assumes "ebind m f e = Some (r, e')"
  obtains (error) err where "m e = Some (Inl err, e')" "r = Inl err"
  | (go) x e1 where "m e = Some (Inr x, e1)" "f x e1 = Some (r, e')"
  using assms by (auto simp: ebind_def split: option.splits sum.splits prod.splits)

lemma keeps_ebind: "keeps_memtables m \<Longrightarrow> (\<And>x. keeps_memtables (f x)) \<Longrightarrow> keeps_memtables (ebind m f)"
  unfolding keeps_memtables_def [of "ebind m f"]
proof (intro allI impI)
  fix e r e' assume m: "keeps_memtables m" and f: "\<And>x. keeps_memtables (f x)" and b: "ebind m f e = Some (r, e')"
  from b show "en_memtable_list e' = en_memtable_list e"
  proof (cases rule: ebind_cases)
    case error
    then show ?thesis by (simp add: keeps_memtablesD [OF m])
  next
    case go
    then show ?thesis using keeps_memtablesD [OF m go(1)] keeps_memtablesD [OF f go(2)] by simp
  qed
qed

lemma keeps_eret: "keeps_memtables (eret x)"
  by (simp add: keeps_memtables_def eret_def)

lemma keeps_eupdate: "(\<And>e. en_memtable_list (f e) = en_memtable_list e) \<Longrightarrow> keeps_memtables (eupdate f)"
  by (auto simp: keeps_memtables_def eupdate_def)

lemma keeps_run_task: "keeps_memtables (run_task ev task)"
  by (auto simp: keeps_memtables_def run_task_def next_tick_def Let_def split: option.splits)

lemma keeps_rebuild: "keeps_memtables (rebuild_levels ev)"
  by (auto simp: keeps_memtables_def rebuild_levels_def split: prod.splits)

lemma keeps_compact: "keeps_memtables (engine_compact ev task)"
  unfolding engine_compact_def
  by (intro keeps_ebind keeps_run_task keeps_eupdate keeps_rebuild keeps_eret) (auto simp: after_compaction_def split: prod.splits)

lemma keeps_compact_tasks: "keeps_memtables (compact_tasks ev tasks)"
  by (induction tasks) (auto intro!: keeps_ebind keeps_compact keeps_eret)

lemma keeps_maybe_compact: "keeps_memtables (maybe_compact ev)"
  using keeps_compact_tasks by (fastforce simp: keeps_memtables_def maybe_compact_def)

lemma keeps_run_flush: "keeps_memtables (run_flush ev p)"
  by (auto simp: keeps_memtables_def run_flush_def next_tick_def Let_def split: prod.splits)

lemma keeps_open_flushed: "keeps_memtables (open_flushed ev meta)"
  by (auto simp: keeps_memtables_def open_flushed_def split: prod.splits)

definition flush_popped :: "'c env \<Rightarrow> u64 \<times> memtable \<Rightarrow> ('c, flush_output) engine_op" where
  "flush_popped ev p =
     ebind (run_flush ev p) (\<lambda>result.
     ebind (eupdate (clean_wal (fst p))) (\<lambda>_.
     ebind (open_flushed ev (fo_sst_meta result)) (\<lambda>h.
     ebind (eupdate (\<lambda>e. e\<lparr>en_levels := push_l0 h (en_levels e)\<rparr>)) (\<lambda>_.
     ebind (maybe_compact ev) (\<lambda>_.
     eret result)))))"

lemma flush_frozen_split: "flush_frozen ev = ebind pop_frozen (flush_popped ev)"
  by (simp add: flush_frozen_def flush_popped_def [abs_def])

lemma keeps_flush_popped: "keeps_memtables (flush_popped ev p)"
  unfolding flush_popped_def
  by (intro keeps_ebind keeps_run_flush keeps_eupdate keeps_open_flushed keeps_maybe_compact keeps_eret) (auto simp: clean_wal_def split: prod.splits)

lemma pop_frozen_SomeD:
  assumes "pop_frozen e = Some (Inr p, e')"
  shows "ml_pop_oldest_frozen_with_generation (en_memtable_list e) = Inr (Some p, en_memtable_list e')" and "e' = e\<lparr>en_memtable_list := en_memtable_list e'\<rparr>"
  using assms by (auto simp: pop_frozen_def eraise_def eret_def split: sum.splits option.splits prod.splits)

lemma pop_frozen_shorter:
  assumes "pop_frozen e = Some (Inr p, e')"
  shows "length (ml_frozen (en_memtable_list e)) = Suc (length (ml_frozen (en_memtable_list e')))"
proof -
  let ?l = "en_memtable_list e"
  have "ml_frozen ?l \<noteq> [] \<and> ml_frozen (en_memtable_list e') = butlast (ml_frozen ?l)"
    using pop_frozen_SomeD(1) [OF assms, symmetric] by (auto simp: ml_pop_oldest_frozen_with_generation_def split: if_splits)
  then show ?thesis by (cases "ml_frozen ?l" rule: rev_cases) simp_all
qed

lemma flush_frozen_shorter:
  assumes "flush_frozen ev e = Some (Inr x, e')"
  shows "length (ml_frozen (en_memtable_list e)) = Suc (length (ml_frozen (en_memtable_list e')))"
  using assms unfolding flush_frozen_split
proof (cases rule: ebind_cases)
  case (go p e1)
  then show ?thesis using pop_frozen_shorter [OF go(1)] keeps_memtablesD [OF keeps_flush_popped go(2)] by simp
qed simp

function flush_all :: "'c env \<Rightarrow> ('c, unit) engine_op" where
  "flush_all ev e =
     (if has_frozen e
      then case flush_frozen ev e of
             None \<Rightarrow> None
           | Some (Inl err, e) \<Rightarrow> Some (Inl err, e)
           | Some (Inr _, e) \<Rightarrow> flush_all ev e
      else eret () e)"
  by auto
termination
  by (relation "measure (\<lambda>(ev, e). length (ml_frozen (en_memtable_list e)))") (auto dest: flush_frozen_shorter)

declare flush_all.simps [simp del]

function flush_while :: "'c env \<Rightarrow> bool \<Rightarrow> ('c, unit) engine_op" where
  "flush_while ev should_flush e =
     (if has_frozen e \<and> (should_flush \<or> ml_is_memory_backpressured (en_memtable_list e))
      then case flush_frozen ev e of
             None \<Rightarrow> None
           | Some (Inl err, e) \<Rightarrow> Some (Inl err, e)
           | Some (Inr _, e) \<Rightarrow> flush_while ev False e
      else eret () e)"
  by auto
termination
  by (relation "measure (\<lambda>(ev, b, e). length (ml_frozen (en_memtable_list e)))") (auto dest: flush_frozen_shorter)

declare flush_while.simps [simp del]

definition engine_close :: "'c env \<Rightarrow> ('c, unit) engine_op" where
  "engine_close ev e =
     (if mt_entry_count (ml_active (en_memtable_list e)) > 0
      then ebind (freeze_active ev) (\<lambda>_. ebind (flush_frozen ev) (\<lambda>_. flush_all ev)) e
      else flush_all ev e)"

definition age_reached :: "'c env \<Rightarrow> 'c engine \<Rightarrow> bool" where
  "age_reached ev e \<longleftrightarrow>
     mt_should_freeze_by_age (ev_now ev (en_tick e)) (fc_flush_trigger_age (ec_flush_config (en_config e))) (ml_active (en_memtable_list e))"

text \<open>Maintenance ends with pending work of the cache library, which changes nothing the model keeps.\<close>

definition run_maintenance :: "'c env \<Rightarrow> ('c, unit) engine_op" where
  "run_maintenance ev e =
     ebind (if mt_entry_count (ml_active (en_memtable_list e)) > 0 \<and> age_reached ev e then freeze_active ev else eret ()) (\<lambda>_. flush_all ev) e"

definition maybe_freeze_and_flush :: "'c env \<Rightarrow> ('c, unit) engine_op" where
  "maybe_freeze_and_flush ev e =
     (if mt_should_freeze_by_size (ml_active (en_memtable_list e)) \<or> age_reached ev e
      then ebind (freeze_active ev) (\<lambda>_. ebind (flush_frozen ev) (\<lambda>_. eret ())) e
      else eret () e)"

definition enforce_batch_memtable_limits :: "'c env \<Rightarrow> ('c, unit) engine_op" where
  "enforce_batch_memtable_limits ev e =
     (let should_freeze_active = mt_entry_count (ml_active (en_memtable_list e)) > 0
            \<and> (mt_should_freeze_by_size (ml_active (en_memtable_list e)) \<or> age_reached ev e \<or> ml_is_memory_backpressured (en_memtable_list e))
      in ebind (if should_freeze_active then freeze_active ev else eret ()) (\<lambda>_. flush_while ev should_freeze_active) e)"

section \<open>Writes\<close>

definition string_bytes :: "string \<Rightarrow> bytes" where
  "string_bytes s = map of_char s"

text \<open>Handing a commit to the log and waiting for its notification: the commit loop runs once, before or after the manager has noted the segment.\<close>

definition log_commit :: "'c env \<Rightarrow> (nat \<Rightarrow> pending_commit) \<Rightarrow> ('c, unit) engine_op" where
  "log_commit ev commit e =
     (let wm = en_wal_manager e; i = length (gc_acks (wm_gc wm)); t = en_tick e
      in case wm_submit (commit i) (en_generation_counter e) wm of
           Inl err \<Rightarrow> eraise err e
         | Inr wm \<Rightarrow>
             (let wm = (if ev_early ev t then wm_record (ev_now ev t) wm else wm);
                  wm = wm\<lparr>wm_gc := commit_turn (ev_crc ev) (wm_config wm) (ev_ms ev t) (ev_passes ev t) (wm_gc wm)\<rparr>;
                  wm = wm_record (ev_now ev t) wm;
                  r = (case map_of (gc_acks (wm_gc wm)) i of Some r \<Rightarrow> r | None \<Rightarrow> Inl (Io ''WAL durability notification channel closed''))
              in elift r (next_tick (e\<lparr>en_wal_manager := wm\<rparr>))))"

definition insert_entry :: "'c env \<Rightarrow> memtable_entry \<Rightarrow> ('c, unit) engine_op" where
  "insert_entry ev entry e =
     (case ml_insert (ev_node_size ev) entry (en_memtable_list e) of
        Inl err \<Rightarrow> eraise err e
      | Inr (_, l) \<Rightarrow> eret () (e\<lparr>en_memtable_list := l\<rparr>))"

definition insert_prechecked :: "'c env \<Rightarrow> memtable_entry \<Rightarrow> ('c, unit) engine_op" where
  "insert_prechecked ev entry e =
     (case ml_insert_prechecked (ev_node_size ev) entry (en_memtable_list e) of
        Inl err \<Rightarrow> eraise err e
      | Inr (_, l) \<Rightarrow> eret () (e\<lparr>en_memtable_list := l\<rparr>))"

definition forget_record :: "bytes \<Rightarrow> 'c engine \<Rightarrow> 'c engine" where
  "forget_record rid e = e\<lparr>en_continuity_tracker := invalidate_for_record rid (en_continuity_tracker e)\<rparr>"

text \<open>What \<^verbatim>\<open>put\<close>, \<^verbatim>\<open>delete\<close> and \<^verbatim>\<open>delete_range\<close> do once the entry is built.\<close>

definition write_entry :: "'c env \<Rightarrow> bytes \<Rightarrow> (u64 \<Rightarrow> memtable_entry) \<Rightarrow> ('c, u64) engine_op" where
  "write_entry ev rid mk e =
     (let seq = en_next_sequence e; entry = mk seq; ns = string_bytes (ec_namespace (en_config e))
      in ebind (log_commit ev (Single (from_memtable_entry entry ns))) (\<lambda>_.
         ebind (eupdate (\<lambda>e. e\<lparr>en_next_sequence := en_next_sequence e + 1\<rparr>)) (\<lambda>_.
         ebind (insert_entry ev entry) (\<lambda>_.
         ebind (eupdate (forget_record rid)) (\<lambda>_.
         ebind (maybe_freeze_and_flush ev) (\<lambda>_.
         eret seq))))) e)"

definition engine_put ::
  "'c env \<Rightarrow> bytes \<Rightarrow> bytes \<Rightarrow> bytes \<Rightarrow> bytes \<Rightarrow> idempotency_token option \<Rightarrow> ('c, u64) engine_op" where
  "engine_put ev rid ik val metadata tok =
     ebind check_write_stall (\<lambda>_.
     ebind (elift (ck_new rid ik)) (\<lambda>key.
     let token = (case tok of None \<Rightarrow> token_none | Some t \<Rightarrow> t)
     in ebind (\<lambda>e. elift (ml_check_dedup (en_memtable_list e) token) e) (\<lambda>_.
        write_entry ev rid (\<lambda>seq. me_with_sequence key val metadata token seq Put))))"

definition engine_delete :: "'c env \<Rightarrow> bytes \<Rightarrow> bytes \<Rightarrow> ('c, u64) engine_op" where
  "engine_delete ev rid ik =
     ebind check_write_stall (\<lambda>_.
     ebind (elift (ck_new rid ik)) (\<lambda>key.
     write_entry ev rid (\<lambda>seq. me_with_sequence key [] [] token_none seq Delete)))"

definition engine_delete_range :: "'c env \<Rightarrow> bytes \<Rightarrow> bytes \<Rightarrow> bytes \<Rightarrow> ('c, u64) engine_op" where
  "engine_delete_range ev rid start_key end_key =
     ebind check_write_stall (\<lambda>_.
     ebind (elift (range_tombstone_key rid start_key)) (\<lambda>key.
     write_entry ev rid (\<lambda>seq. me_with_sequence key end_key [] token_none seq RangeDelete)))"

text \<open>The items of a batch that are logged: a token that is in the memtables or occurred earlier in the batch drops its item.\<close>

fun batch_entries ::
  "memtable_list \<Rightarrow> bytes \<Rightarrow> bytes \<Rightarrow> u64 \<Rightarrow> idempotency_token set \<Rightarrow> put_batch_item list \<Rightarrow> (memtable_entry list \<times> wal_entry list \<times> u64) flush_result" where
  "batch_entries l ns rid next_seq seen [] = Inr ([], [], next_seq)"
| "batch_entries l ns rid next_seq seen (item # items) =
     (let t = pb_idempotency_token item
      in if \<not> token_is_none t \<and> t \<in> seen then batch_entries l ns rid next_seq seen items
         else let seen = (if token_is_none t then seen else insert t seen)
              in case (if token_is_none t then Inr () else ml_check_dedup l t) of
                   Inl (DuplicateToken _) \<Rightarrow> batch_entries l ns rid next_seq seen items
                 | Inl err \<Rightarrow> Inl err
                 | Inr _ \<Rightarrow>
                     bind_res (ck_new rid (pb_item_key item)) (\<lambda>key.
                     let entry = me_with_sequence key (pb_value item) (pb_metadata item) t next_seq Put;
                         wal = \<lparr>we_sequence_number = me_sequence_number entry, we_entry_type = Put, we_namespace = ns, we_record_id = rid,
                           we_item_key = pb_item_key item, we_item_value = pb_value item, we_item_metadata = pb_metadata item,
                           we_idempotency_token = t\<rparr>
                     in bind_res (batch_entries l ns rid (next_seq + 1) seen items) (\<lambda>(es, ws, n). Inr (entry # es, wal # ws, n))))"

fun insert_batch :: "'c env \<Rightarrow> memtable_entry list \<Rightarrow> ('c, unit) engine_op" where
  "insert_batch ev [] = eret ()"
| "insert_batch ev (entry # entries) =
     ebind (insert_prechecked ev entry) (\<lambda>_. ebind (enforce_batch_memtable_limits ev) (\<lambda>_. insert_batch ev entries))"

definition engine_put_batch :: "'c env \<Rightarrow> bytes \<Rightarrow> put_batch_item list \<Rightarrow> ('c, nat) engine_op" where
  "engine_put_batch ev rid items =
     (if items = [] then eret 0
      else ebind check_write_stall (\<lambda>_ e.
        case batch_entries (en_memtable_list e) (string_bytes (ec_namespace (en_config e))) rid (en_next_sequence e) {} items of
          Inl err \<Rightarrow> eraise err e
        | Inr (entries, wal_entries, next_seq) \<Rightarrow>
            if entries = [] then eret 0 e
            else ebind (log_commit ev (Batch wal_entries)) (\<lambda>_.
                 ebind (eupdate (\<lambda>e. e\<lparr>en_next_sequence := next_seq\<rparr>)) (\<lambda>_.
                 ebind (insert_batch ev entries) (\<lambda>_.
                 ebind (eupdate (forget_record rid)) (\<lambda>_.
                 eret (length entries))))) e))"

section \<open>Reads\<close>

text \<open>One level; the flag tells whether the budget ran out, which ends the search of the level.\<close>

fun probe_budgeted ::
  "'c moka \<Rightarrow> block_fetcher \<Rightarrow> composite_key \<Rightarrow> merge_entry option \<Rightarrow> sst_handle list \<Rightarrow> read_budget \<Rightarrow> 'c
    \<Rightarrow> merge_entry option flush_result \<times> read_budget \<times> 'c" where
  "probe_budgeted M F key best [] b c = (Inr best, b, c)"
| "probe_budgeted M F key best (h # hs) b c =
     (case get_budgeted M F h key b c of
        (Inr None, b, c) \<Rightarrow> probe_budgeted M F key best hs b c
      | (Inr (Some be), b, c) \<Rightarrow> probe_budgeted M F key (better best (mg_from_block_entry be)) hs b c
      | (Inl (ResourceExhausted _ _), b, c) \<Rightarrow> (Inr best, b, c)
      | (Inl e, b, c) \<Rightarrow> (Inl e, b, c))"

fun probe_levels_budgeted ::
  "'c moka \<Rightarrow> block_fetcher \<Rightarrow> composite_key \<Rightarrow> merge_entry option \<Rightarrow> level_state list \<Rightarrow> read_budget \<Rightarrow> 'c
    \<Rightarrow> merge_entry option flush_result \<times> read_budget \<times> 'c" where
  "probe_levels_budgeted M F key best [] b c = (Inr best, b, c)"
| "probe_levels_budgeted M F key best (ls # lss) b c =
     (case probe_budgeted M F key best (find_candidates_for_key key ls) b c of
        (Inl e, b, c) \<Rightarrow> (Inl e, b, c)
      | (Inr best, b, c) \<Rightarrow> if rb_exhausted b then (Inr best, b, c) else probe_levels_budgeted M F key best lss b c)"

definition engine_get :: "'c env \<Rightarrow> bytes \<Rightarrow> bytes \<Rightarrow> 'c engine \<Rightarrow> get_result option flush_result \<times> 'c engine" where
  "engine_get ev rid ik e =
     (case ck_new rid ik of
        Inl err \<Rightarrow> (Inl err, e)
      | Inr key \<Rightarrow>
          if is_known_absent rid ik (manifest_version e) (en_continuity_tracker e) then (Inr None, e)
          else let b = rb_new (get_budget_per_read (ec_cache_config (en_config e))); l = en_memtable_list e
               in case ml_get key l of
                    Some entry \<Rightarrow>
                      (let m = mg_from_memtable_entry entry
                       in (if mg_is_tombstone m then Inr None
                           else if ml_range_tombstone_covers l (record_id key) (item_key key) (me_sequence_number entry) then Inr None
                           else Inr (Some (gr_from_merge_entry m)), e))
                  | None \<Rightarrow>
                      (case probe_levels_budgeted (ev_moka ev) (direct_fetcher (ev_codecs ev) (en_objects e)) key None (en_levels e) b (en_block_cache e) of
                         (r, _, c) \<Rightarrow>
                           (bind_res r (\<lambda>best.
                              case best of
                                None \<Rightarrow> Inr None
                              | Some entry \<Rightarrow>
                                  if mg_is_tombstone entry then Inr None
                                  else if ml_range_tombstone_covers l (record_id key) (item_key key) (mg_sequence_number entry) then Inr None
                                  else Inr (Some (gr_from_merge_entry entry))),
                            e\<lparr>en_block_cache := c\<rparr>)))"

definition engine_scan ::
  "'c env \<Rightarrow> bytes \<Rightarrow> bytes option \<Rightarrow> bytes option \<Rightarrow> range_read_options \<Rightarrow> 'c engine \<Rightarrow> range_read_result flush_result option" where
  "engine_scan ev rid start_key end_key options e =
     range_read (en_fetcher ev e) rid start_key end_key options (en_memtable_list e) (en_levels e)"

definition engine_multi_get :: "'c env \<Rightarrow> bytes \<Rightarrow> bytes list \<Rightarrow> 'c engine \<Rightarrow> get_result option list flush_result" where
  "engine_multi_get ev rid keys e =
     bind_res (multi_get (en_fetcher ev e) rid keys (en_memtable_list e) (en_levels e)) (\<lambda>rs. Inr (map (map_option gr_from_merge_entry) rs))"

section \<open>Deferred deletion\<close>

definition schedule_deletion :: "string list \<Rightarrow> 'c engine \<Rightarrow> 'c engine" where
  "schedule_deletion sst_ids e = e\<lparr>en_pending_deletions := en_pending_deletions e @ sst_ids\<rparr>"

text \<open>Deleting an object that is not there is not an error of the file store.\<close>

fun delete_objects :: "string list \<Rightarrow> objects \<Rightarrow> nat \<times> objects" where
  "delete_objects [] objs = (0, objs)"
| "delete_objects (path # paths) objs =
     (case delete_objects paths (fs_delete path objs) of (n, objs) \<Rightarrow> (Suc n, objs))"

definition run_deletion :: "'c engine \<Rightarrow> nat \<times> 'c engine" where
  "run_deletion e =
     (case delete_objects (en_pending_deletions e) (en_objects e) of (n, objs) \<Rightarrow> (n, e\<lparr>en_pending_deletions := [], en_objects := objs\<rparr>))"

end
