(* ===== verification/Engine_Correct.thy ===== *)
theory Engine_Correct
  imports Engine
begin

text \<open>
  What the operations of \<^verbatim>\<open>engine.rs\<close> guarantee: closing drains the memtables after as many flushes as there are frozen memtables,
  reads through cache and budget return what the components hold, a write is logged, durable and read back, a flush changes
  no read, and what a failed flush loses.
\<close>

section \<open>Draining\<close>

primrec flush_times :: "nat \<Rightarrow> 'c env \<Rightarrow> ('c, unit) engine_op" where
  "flush_times 0 ev = eret ()"
| "flush_times (Suc n) ev = ebind (flush_frozen ev) (\<lambda>_. flush_times n ev)"

lemma flush_all_times: "flush_all ev e = flush_times (length (ml_frozen (en_memtable_list e))) ev e"
proof (induction ev e rule: flush_all.induct)
  case (1 ev e)
  show ?case
  proof (cases "has_frozen e")
    case True
    then obtain n where n: "length (ml_frozen (en_memtable_list e)) = Suc n" by (cases "ml_frozen (en_memtable_list e)") (auto simp: has_frozen_def)
    show ?thesis
    proof (cases "\<exists>x e1. flush_frozen ev e = Some (Inr x, e1)")
      case True
      then obtain x e1 where x: "flush_frozen ev e = Some (Inr x, e1)" by blast
      then have "length (ml_frozen (en_memtable_list e1)) = n" using flush_frozen_shorter [OF x] n by simp
      then show ?thesis using 1 [OF \<open>has_frozen e\<close> x refl] x n \<open>has_frozen e\<close> by (simp add: flush_all.simps [of ev e] ebind_def)
    next
      case False
      then show ?thesis using n \<open>has_frozen e\<close>
        by (auto simp: flush_all.simps [of ev e] ebind_def split: option.splits sum.splits)
    qed
  next
    case False
    then show ?thesis by (simp add: flush_all.simps [of ev e] has_frozen_def)
  qed
qed

lemma pop_frozen_active:
  assumes "pop_frozen e = Some (Inr p, e')"
  shows "ml_active (en_memtable_list e') = ml_active (en_memtable_list e)"
  using pop_frozen_SomeD(1) [OF assms, symmetric] by (auto simp: ml_pop_oldest_frozen_with_generation_def split: if_splits)

lemma flush_frozen_active:
  assumes "flush_frozen ev e = Some (Inr x, e')"
  shows "ml_active (en_memtable_list e') = ml_active (en_memtable_list e)"
  using assms unfolding flush_frozen_split
proof (cases rule: ebind_cases)
  case (go p e1)
  then show ?thesis using pop_frozen_active [OF go(1)] keeps_memtablesD [OF keeps_flush_popped go(2)] by simp
qed simp

lemma flush_all_drained:
  "flush_all ev e = Some (Inr u, e') \<Longrightarrow> ml_frozen (en_memtable_list e') = [] \<and> ml_active (en_memtable_list e') = ml_active (en_memtable_list e)"
proof (induction ev e rule: flush_all.induct)
  case (1 ev e)
  show ?case
  proof (cases "has_frozen e")
    case True
    then obtain x e1 where x: "flush_frozen ev e = Some (Inr x, e1)"
      using 1(2) by (auto simp: flush_all.simps [of ev e] split: option.splits sum.splits)
    then have "flush_all ev e1 = Some (Inr u, e')" using 1(2) True by (simp add: flush_all.simps [of ev e])
    then show ?thesis using 1(1) [OF True x refl] flush_frozen_active [OF x] by simp
  next
    case False
    then show ?thesis using 1(2) by (simp add: flush_all.simps [of ev e] has_frozen_def eret_def)
  qed
qed

lemma freeze_active_empties:
  assumes "freeze_active ev e = Some (Inr u, e')"
  shows "mt_entry_count (ml_active (en_memtable_list e')) = 0"
  using assms by (auto simp: freeze_active_def eraise_def eret_def next_tick_def ml_freeze_active_with_generation_def Let_def mt_entry_count_def mt_new_def sl_new_def sl_with_arena_def
      split: sum.splits if_splits)

lemma engine_close_drained:
  assumes "engine_close ev e = Some (Inr u, e')"
  shows "ml_frozen (en_memtable_list e') = [] \<and> mt_entry_count (ml_active (en_memtable_list e')) = 0"
proof (cases "mt_entry_count (ml_active (en_memtable_list e)) > 0")
  case True
  then have "ebind (freeze_active ev) (\<lambda>_. ebind (flush_frozen ev) (\<lambda>_. flush_all ev)) e = Some (Inr u, e')"
    using assms by (simp add: engine_close_def)
  then obtain x e1 y e2 where "freeze_active ev e = Some (Inr x, e1)" "flush_frozen ev e1 = Some (Inr y, e2)" "flush_all ev e2 = Some (Inr u, e')"
    by (auto elim!: ebind_cases)
  then show ?thesis using freeze_active_empties flush_frozen_active flush_all_drained by metis
next
  case False
  then show ?thesis using assms flush_all_drained [of ev e u e'] by (simp add: engine_close_def)
qed

text \<open>C27: closing terminates and drains. The loop over the frozen memtables ends after at most as many flushes as there are frozen
  memtables, each flush taking one off the list whatever compactions it triggers; and when closing succeeds no frozen memtable
  is left and the active one is empty.\<close>
theorem close_drains:
  "flush_all ev e = flush_times (length (ml_frozen (en_memtable_list e))) ev e
   \<and> (engine_close ev e = Some (Inr (), e') \<longrightarrow> ml_frozen (en_memtable_list e') = [] \<and> mt_entry_count (ml_active (en_memtable_list e')) = 0)"
  using flush_all_times engine_close_drained by blast

section \<open>Reads through cache and budget\<close>

definition point_requests :: "level_state list \<Rightarrow> request set" where
  "point_requests levels = {(hn_path h, ie_block_offset x, ie_block_size x, ft_compression_type (hn_footer h)) |h x.
     \<exists>ls k. ls \<in> set levels \<and> h \<in> set (ls_handles ls) \<and> find_block_for_key h k = Some x}"

lemma probe_budgeted_ok:
  assumes M: "moka_ok M" and R: "distinct_keys R"
    and "\<forall>h \<in> set hs. \<forall>x. find_block_for_key h key = Some x \<longrightarrow> (hn_path h, ie_block_offset x, ie_block_size x, ft_compression_type (hn_footer h)) \<in> R"
    and "coherent M F R c" and "length hs \<le> unat (rb_remaining b)" and "\<not> rb_exhausted b" and "probe_handles F key best hs = Inr r"
  shows "\<exists>b' c'. probe_budgeted M F key best hs b c = (Inr r, b', c') \<and> coherent M F R c' \<and> \<not> rb_exhausted b'
    \<and> unat (rb_remaining b) \<le> unat (rb_remaining b') + length hs"
  using assms(3-)
proof (induction hs arbitrary: b c best)
  case Nil
  then show ?case by simp
next
  case (Cons h hs)
  have b0: "0 < rb_remaining b" using Cons.prems(3) by (simp add: word_less_nat_alt)
  obtain g where g: "handle_get F h key = Inr g" using Cons.prems(5) by (cases "handle_get F h key") auto
  have hreq: "\<forall>x. find_block_for_key h key = Some x \<longrightarrow> (hn_path h, ie_block_offset x, ie_block_size x, ft_compression_type (hn_footer h)) \<in> R"
    using Cons.prems(1) by simp
  obtain b1 c1 where t: "get_budgeted M F h key b c = (Inr g, b1, c1)" "coherent M F R c1" "\<not> (rb_exhausted b1 \<and> \<not> rb_exhausted b)"
    "rb_remaining b1 \<in> {rb_remaining b, rb_remaining b - 1}"
    using get_budgeted_ok [OF M R Cons.prems(2) b0 hreq] g by auto
  have u: "unat (rb_remaining b) \<le> unat (rb_remaining b1) + 1" "length hs \<le> unat (rb_remaining b1)"
    using t(4) b0 Cons.prems(3) by (auto simp: unat_minus_one word_gt_0)
  let ?best = "case g of None \<Rightarrow> best | Some be \<Rightarrow> better best (mg_from_block_entry be)"
  have "probe_handles F key ?best hs = Inr r" using Cons.prems(5) g by simp
  from Cons.IH [OF _ t(2) u(2) _ this] obtain b2 c2 where
    "probe_budgeted M F key ?best hs b1 c1 = (Inr r, b2, c2)" "coherent M F R c2" "\<not> rb_exhausted b2" "unat (rb_remaining b1) \<le> unat (rb_remaining b2) + length hs"
    using Cons.prems(1,4) t(3) by auto
  then show ?case using t(1) u(1) by (cases g) auto
qed

lemma find_candidates_subset: "set (find_candidates_for_key key ls) \<subseteq> set (ls_handles ls)"
  by (auto simp: find_candidates_for_key_def Let_def)

lemma probe_levels_budgeted_ok:
  assumes M: "moka_ok M" and R: "distinct_keys R"
    and "point_requests lss \<subseteq> R" and "coherent M F R c" and "sum_list (map (\<lambda>ls. length (find_candidates_for_key key ls)) lss) \<le> unat (rb_remaining b)"
    and "\<not> rb_exhausted b" and "probe_levels F key best lss = Inr r"
  shows "\<exists>b' c'. probe_levels_budgeted M F key best lss b c = (Inr r, b', c') \<and> coherent M F R c'"
  using assms(3-)
proof (induction lss arbitrary: b c best)
  case Nil
  then show ?case by simp
next
  case (Cons ls lss)
  obtain x where x: "probe_handles F key best (find_candidates_for_key key ls) = Inr x" "probe_levels F key x lss = Inr r"
    using Cons.prems(5) by (cases "probe_handles F key best (find_candidates_for_key key ls)") auto
  have "\<forall>h \<in> set (find_candidates_for_key key ls). \<forall>y. find_block_for_key h key = Some y
      \<longrightarrow> (hn_path h, ie_block_offset y, ie_block_size y, ft_compression_type (hn_footer h)) \<in> R"
    using Cons.prems(1) find_candidates_subset [of key ls] by (fastforce simp: point_requests_def)
  from probe_budgeted_ok [OF M R this Cons.prems(2) _ Cons.prems(4) x(1)] Cons.prems(3) obtain b1 c1 where
    p: "probe_budgeted M F key best (find_candidates_for_key key ls) b c = (Inr x, b1, c1)" "coherent M F R c1" "\<not> rb_exhausted b1"
      "unat (rb_remaining b) \<le> unat (rb_remaining b1) + length (find_candidates_for_key key ls)" by auto
  have "point_requests lss \<subseteq> R" using Cons.prems(1) by (fastforce simp: point_requests_def)
  from Cons.IH [OF this p(2) _ p(3) x(2)] p Cons.prems(3) show ?case by auto
qed

lemma engine_get_point_read:
  assumes key: "ck_new rid ik = Inr key" and absent: "\<not> is_known_absent rid ik (manifest_version e) (en_continuity_tracker e)"
    and M: "moka_ok (ev_moka ev)" and R: "distinct_keys (point_requests (en_levels e))"
    and c: "coherent (ev_moka ev) (direct_fetcher (ev_codecs ev) (en_objects e)) (point_requests (en_levels e)) (en_block_cache e)"
    and b: "sum_list (map (\<lambda>ls. length (find_candidates_for_key key ls)) (en_levels e)) \<le> unat (get_budget_per_read (ec_cache_config (en_config e)))"
    and r: "point_read (direct_fetcher (ev_codecs ev) (en_objects e)) key (en_memtable_list e) (en_levels e) = Inr r"
  shows "\<exists>c'. engine_get ev rid ik e = (Inr (map_option gr_from_merge_entry r), e\<lparr>en_block_cache := c'\<rparr>)
    \<and> coherent (ev_moka ev) (direct_fetcher (ev_codecs ev) (en_objects e)) (point_requests (en_levels e)) c'"
proof (cases "ml_get key (en_memtable_list e)")
  case (Some entry)
  then have "engine_get ev rid ik e = (Inr (map_option gr_from_merge_entry r), e)"
    using key absent r by (auto simp: engine_get_def point_read_def Let_def split: if_splits)
  then show ?thesis using c by (intro exI [of _ "en_block_cache e"]) simp
next
  case None
  let ?F = "direct_fetcher (ev_codecs ev) (en_objects e)" and ?b = "rb_new (get_budget_per_read (ec_cache_config (en_config e)))"
  obtain best where best: "probe_levels ?F key None (en_levels e) = Inr best"
    using r None by (cases "probe_levels ?F key None (en_levels e)") (auto simp: point_read_def)
  have "sum_list (map (\<lambda>ls. length (find_candidates_for_key key ls)) (en_levels e)) \<le> unat (rb_remaining ?b)" "\<not> rb_exhausted ?b"
    using b by (simp_all add: rb_new_def)
  from probe_levels_budgeted_ok [OF M R subset_refl c this best] obtain b' c' where
    "probe_levels_budgeted (ev_moka ev) ?F key None (en_levels e) ?b (en_block_cache e) = (Inr best, b', c')"
    "coherent (ev_moka ev) ?F (point_requests (en_levels e)) c'" by blast
  then show ?thesis
    using key absent None best r by (intro exI [of _ c']) (auto simp: engine_get_def point_read_def Let_def split: option.splits if_splits)
qed

text \<open>C4: reads of an engine are correct. When no two blocks the levels refer to share a cache key, the cached blocks are those of the
  store, the read budget covers the SSTables that may hold the key, no SSTable splits the versions of a key over two blocks (flushes do not ensure this), and the continuity tracker does not
  report the key as absent, \<^verbatim>\<open>get\<close> does not fail and returns the put with the highest sequence
  number over memtables and levels unless a range deletion in a memtable covers it, whatever part of the blocks
  is cached; only the cache changes, and it stays coherent.\<close>
theorem engine_get_correct:
  assumes "ck_new rid ik = Inr key" and "\<not> is_known_absent rid ik (manifest_version e) (en_continuity_tracker e)"
    and "moka_ok (ev_moka ev)" and "distinct_keys (point_requests (en_levels e))"
    and "coherent (ev_moka ev) (direct_fetcher (ev_codecs ev) (en_objects e)) (point_requests (en_levels e)) (en_block_cache e)"
    and "sum_list (map (\<lambda>ls. length (find_candidates_for_key key ls)) (en_levels e)) \<le> unat (get_budget_per_read (ec_cache_config (en_config e)))"
    and m: "ml_built (en_memtable_list e) hs" "levels_hold (ev_codecs ev) (en_objects e) (en_levels e) base" "unsplit_levels (ev_codecs ev) (en_objects e) (en_levels e)"
      "below_memtables base (concat hs)"
  shows "\<exists>r c'. engine_get ev rid ik e = (Inr r, e\<lparr>en_block_cache := c'\<rparr>)
    \<and> (\<forall>g. r = Some g \<longleftrightarrow> (\<exists>x. visible (concat hs) base key x \<and> g = gr_from_merge_entry (mg_from_memtable_entry x)))
    \<and> coherent (ev_moka ev) (direct_fetcher (ev_codecs ev) (en_objects e)) (point_requests (en_levels e)) c'"
proof -
  obtain r where r: "point_read (direct_fetcher (ev_codecs ev) (en_objects e)) key (en_memtable_list e) (en_levels e) = Inr r"
    "\<forall>g. r = Some g \<longleftrightarrow> (\<exists>x. visible (concat hs) base key x \<and> g = mg_from_memtable_entry x)"
    using point_read_visible [OF m(1) _ m(4)] m(2,3) unfolding levels_repr_unsplit by blast
  have "map_option gr_from_merge_entry r = Some g \<longleftrightarrow> (\<exists>x. visible (concat hs) base key x \<and> g = gr_from_merge_entry (mg_from_memtable_entry x))" for g
  proof -
    have "map_option gr_from_merge_entry r = Some g \<longleftrightarrow> (\<exists>m. r = Some m \<and> g = gr_from_merge_entry m)" by auto
    then show ?thesis unfolding r(2) [rule_format] by blast
  qed
  then show ?thesis using engine_get_point_read [OF assms(1-6) r(1)] by blast
qed

section \<open>Logging a commit\<close>

text \<open>The log between two writes: nothing queued or unrecorded, one answer per commit so far, the synced files as far as the mode
  promises, and the directory holding the entries of \<open>log\<close>.\<close>

definition log_idle :: "(bytes \<Rightarrow> u32) \<Rightarrow> wal_manager \<Rightarrow> wal_log \<Rightarrow> bool" where
  "log_idle crc wm log \<longleftrightarrow> gc_queue (wm_gc wm) = [] \<and> gc_stopped (wm_gc wm) = None \<and> wm_submitted wm = None
     \<and> map fst (gc_acks (wm_gc wm)) = [0..<length (gc_acks (wm_gc wm))]
     \<and> durable_ok UNIV (wm_config wm) (wm_gc wm) \<and> wal_inv crc (gc_dir (wm_gc wm)) (gc_writer (wm_gc wm)) log"

definition log_room :: "wal_manager \<Rightarrow> wal_log \<Rightarrow> wal_entry list \<Rightarrow> bool" where
  "log_room wm log ws \<longleftrightarrow> (\<forall>w \<in> set ws. wal_entry_fits w) \<and> unat (ww_next_sequence_number (gc_writer (wm_gc wm))) + length ws < 2 ^ 64
     \<and> unat (seg_no (last log)) + 1 < 10 ^ 12"

lemma log_idle_durable:
  assumes "log_idle crc wm log" and "gc_acks (wm_gc wm) \<noteq> []" and "cfg_fsync_mode (wm_config wm) = Sync"
  shows "gc_durable (wm_gc wm) = map_of (gc_dir (wm_gc wm))"
  using assms by (auto simp: log_idle_def durable_ok_def)

lemma wm_record_simps [simp]:
  "wm_gc (wm_record t wm) = wm_gc wm" "wm_config (wm_record t wm) = wm_config wm" "wm_submitted (wm_record t wm) = None"
  by (auto simp: wm_record_def split: option.splits)

lemma collect_batch_alone: "collect_batch mx k p [] = (fst p, fst (snd p), [])"
  by (cases p) (auto simp: collect_batch.simps [of mx k] split: nat.splits)

lemma commit_turn_alone:
  assumes q: "gc_queue s = [p]" and st: "gc_stopped s = None" and d: "durable_ok UNIV config s" and inv: "wal_inv crc (gc_dir s) (gc_writer s) log"
    and p: "pc_notifiers p = [i]"
    and room: "\<forall>w \<in> set (pc_entries p). wal_entry_fits w" "unat (ww_next_sequence_number (gc_writer s)) + length (pc_entries p) < 2 ^ 64" "unat (seg_no (last log)) + 1 < 10 ^ 12"
  shows "\<exists>log'. gc_queue (commit_turn crc config now k s) = [] \<and> gc_stopped (commit_turn crc config now k s) = None
    \<and> gc_acks (commit_turn crc config now k s) = gc_acks s @ [(i, Inr ())] \<and> durable_ok UNIV config (commit_turn crc config now k s)
    \<and> wal_inv crc (gc_dir (commit_turn crc config now k s)) (gc_writer (commit_turn crc config now k s)) log'
    \<and> log_entries log' = log_entries log @ fst (assign_sequences (ww_next_sequence_number (gc_writer s)) (pc_entries p))
    \<and> unat (ww_next_sequence_number (gc_writer (commit_turn crc config now k s))) = unat (ww_next_sequence_number (gc_writer s)) + length (pc_entries p)
    \<and> unat (seg_no (last log')) \<le> unat (seg_no (last log)) + 1"
proof -
  have c: "collect_batch (group_commit_max_bytes config) k (into_parts p) [] = (pc_entries p, [i], [])"
    using p by (simp add: collect_batch_alone pc_entries_def pc_notifiers_def)
  from ww_append_batch_inv [OF inv room, of now] obtain w' dir' log' where
    a: "ww_append_batch crc now (gc_dir s) (gc_writer s) (pc_entries p) = Inr (w', dir')" "wal_inv crc dir' w' log'"
      "log_entries log' = log_entries log @ fst (assign_sequences (ww_next_sequence_number (gc_writer s)) (pc_entries p))"
      "unat (ww_next_sequence_number w') = unat (ww_next_sequence_number (gc_writer s)) + length (pc_entries p)"
      "unat (seg_no (last log')) \<le> unat (seg_no (last log)) + 1" by auto
  note turn = commit_turn_def [of crc config now k s, unfolded q list.case c prod.case a(1) sum.case Let_def]
  have "durable_ok UNIV config (commit_turn crc config now k s)"
    by (rule durable_ok_commit [OF d a(1)]) (simp_all add: turn Let_def)
  then show ?thesis using a st by (intro exI [of _ log']) (simp add: turn)
qed

lemma log_commit_ok:
  assumes idle: "log_idle (ev_crc ev) (en_wal_manager e) log" and p: "\<And>i. pc_notifiers (commit i) = [i]" "\<And>i. pc_entries (commit i) = ws" "ws \<noteq> []"
    and room: "log_room (en_wal_manager e) log ws"
  shows "\<exists>wm' log'. log_commit ev commit e = Some (Inr (), next_tick (e\<lparr>en_wal_manager := wm'\<rparr>))
    \<and> log_idle (ev_crc ev) wm' log' \<and> wm_config wm' = wm_config (en_wal_manager e)
    \<and> log_entries log' = log_entries log @ fst (assign_sequences (ww_next_sequence_number (gc_writer (wm_gc (en_wal_manager e)))) ws)
    \<and> unat (ww_next_sequence_number (gc_writer (wm_gc wm'))) = unat (ww_next_sequence_number (gc_writer (wm_gc (en_wal_manager e)))) + length ws
    \<and> unat (seg_no (last log')) \<le> unat (seg_no (last log)) + 1 \<and> gc_acks (wm_gc wm') \<noteq> []"
proof -
  let ?wm = "en_wal_manager e" and ?t = "en_tick e"
  let ?gc = "wm_gc ?wm" and ?i = "length (gc_acks (wm_gc ?wm))"
  let ?g = "?gc\<lparr>gc_queue := [commit ?i]\<rparr>" and ?c = "commit_turn (ev_crc ev) (wm_config ?wm) (ev_ms ev ?t) (ev_passes ev ?t)"
  have i: "gc_queue ?gc = []" "gc_stopped ?gc = None" "wm_submitted ?wm = None" "map fst (gc_acks ?gc) = [0..<?i]" "durable_ok UNIV (wm_config ?wm) ?gc"
    "wal_inv (ev_crc ev) (gc_dir ?gc) (gc_writer ?gc) log" using idle by (simp_all add: log_idle_def)
  have "commit ?i \<noteq> Batch [] j" for j using p(2) [of ?i] p(3) by (auto simp: pc_entries_def)
  then have sub: "gc_submit (commit ?i) ?gc = Inr ?g" using i(1,2) by (auto simp: gc_submit_def split: pending_commit.splits list.splits)
  have "durable_ok UNIV (wm_config ?wm) ?g" using i(5) by (simp add: durable_ok_def)
  from commit_turn_alone [of ?g "commit ?i" "wm_config ?wm" "ev_crc ev" log ?i "ev_ms ev ?t" "ev_passes ev ?t"] this i(2,6) p room
  obtain log' where l: "gc_queue (?c ?g) = []" "gc_stopped (?c ?g) = None" "gc_acks (?c ?g) = gc_acks ?gc @ [(?i, Inr ())]"
    "durable_ok UNIV (wm_config ?wm) (?c ?g)" "wal_inv (ev_crc ev) (gc_dir (?c ?g)) (gc_writer (?c ?g)) log'"
    "log_entries log' = log_entries log @ fst (assign_sequences (ww_next_sequence_number (gc_writer ?gc)) ws)"
    "unat (ww_next_sequence_number (gc_writer (?c ?g))) = unat (ww_next_sequence_number (gc_writer ?gc)) + length ws"
    "unat (seg_no (last log')) \<le> unat (seg_no (last log)) + 1" by (auto simp: log_room_def)
  define wm1 where "wm1 = ?wm\<lparr>wm_gc := ?g, wm_submitted := Some (en_generation_counter e)\<rparr>"
  define wm2 where "wm2 = (if ev_early ev ?t then wm_record (ev_now ev ?t) wm1 else wm1)"
  define wm3 where "wm3 = wm_record (ev_now ev ?t) (wm2\<lparr>wm_gc := ?c (wm_gc wm2)\<rparr>)"
  have w2: "wm_gc wm2 = ?g" "wm_config wm2 = wm_config ?wm" by (simp_all add: wm2_def wm1_def)
  have w3: "wm_gc wm3 = ?c ?g" "wm_config wm3 = wm_config ?wm" "wm_submitted wm3 = None" by (simp_all add: wm3_def w2)
  have "map_of (gc_acks ?gc @ [(?i, Inr ())]) ?i = Some (Inr ())"
  proof -
    have "?i \<notin> fst ` set (gc_acks ?gc)" using i(4) by (metis atLeastLessThan_iff less_irrefl set_map set_upt)
    then have "map_of (gc_acks ?gc) ?i = None" by (simp add: map_of_eq_None_iff)
    then show ?thesis by (simp add: map_add_def)
  qed
  then have "log_commit ev commit e = Some (Inr (), next_tick (e\<lparr>en_wal_manager := wm3\<rparr>))"
    using sub w2(2) l(3) unfolding log_commit_def Let_def wm_submit_def
    by (simp add: wm1_def [symmetric] wm2_def [symmetric] w2 elift_def wm3_def l(3))
  moreover have "log_idle (ev_crc ev) wm3 log'" using l i(4) by (simp add: log_idle_def w3)
  ultimately show ?thesis using l(3,6-8) w3 by (intro exI [of _ wm3] exI [of _ log']) simp
qed

section \<open>The state of an engine\<close>

text \<open>The memtables hold the histories \<open>hs\<close>, the store the tables \<open>T\<close> of the current manifest, the levels are those of the manifest, the sequence numbers
  of the SSTables are below those of the memtables, and metadata is pinned only for SSTables of the manifest.\<close>

definition engine_ok :: "'c env \<Rightarrow> 'c engine \<Rightarrow> memtable_entry list list \<Rightarrow> tables \<Rightarrow> bool" where
  "engine_ok ev e hs T \<longleftrightarrow>
     ml_built (en_memtable_list e) hs
     \<and> store_ok (ev_codecs ev) (en_objects e) (ec_namespace (en_config e)) (mm_current (en_manifest_manager e)) T
     \<and> open_levels (ev_codecs ev) (ec_namespace (en_config e)) (direct_fetcher (ev_codecs ev) (en_objects e)) (mm_current (en_manifest_manager e)) level_all
         = Inr (en_levels e)
     \<and> below_memtables (table_entries T) (concat hs)
     \<and> (\<forall>b \<in> set (table_entries T). me_sequence_number b < mt_next_sequence_number (ml_active (en_memtable_list e)))
     \<and> fp_namespace (en_flush_pipeline e) = ec_namespace (en_config e)
     \<and> fst ` set (pn_entries (en_pinned_metadata e)) \<subseteq> set (all_sstable_ids (mm_current (en_manifest_manager e)))"

definition engine_reads :: "'c env \<Rightarrow> 'c engine \<Rightarrow> composite_key \<Rightarrow> merge_entry option flush_result" where
  "engine_reads ev e k = point_read (direct_fetcher (ev_codecs ev) (en_objects e)) k (en_memtable_list e) (en_levels e)"

lemma engine_ok_levels:
  assumes "engine_ok ev e hs T"
  shows "levels_repr (ev_codecs ev) (en_objects e) (en_levels e) (table_entries T)"
  using assms open_levels_repr unfolding engine_ok_def by (metis sum.inject(2))

lemma engine_reads_visible:
  assumes "engine_ok ev e hs T"
  shows "\<exists>r. engine_reads ev e k = Inr r \<and> (\<forall>g. r = Some g \<longleftrightarrow> (\<exists>x. visible (concat hs) (table_entries T) k x \<and> g = mg_from_memtable_entry x))"
  unfolding engine_reads_def by (rule point_read_visible) (use assms engine_ok_levels in \<open>auto simp: engine_ok_def\<close>)

section \<open>Writing an entry\<close>

text \<open>The active memtable has room for the entry below its threshold, and is young enough.\<close>

definition stays_active :: "'c env \<Rightarrow> 'c engine \<Rightarrow> memtable_entry \<Rightarrow> bool" where
  "stays_active ev e entry \<longleftrightarrow>
     (let m = ml_active (en_memtable_list e)
      in mt_approximate_memory_usage m + approximate_entry_size (ev_node_size ev) entry < size_threshold (mt_config m)
         \<and> \<not> mt_should_freeze_by_age (ev_now ev (Suc (en_tick e))) (fc_flush_trigger_age (ec_flush_config (en_config e))) m)"

lemma skip_insert_allocates:
  "ar_total_allocated (sl_arena (skip_insert n e s)) \<le> ar_total_allocated (sl_arena s) + approximate_entry_size n e"
proof (cases "sl_insert n e s")
  case (Some s')
  obtain height r where r: "random_height (sl_rng s) = (height, r)" by fastforce
  have "sl_arena s' = sl_arena s \<or> sl_arena s' = snd (arena_allocate (approximate_entry_size n e) (sl_arena s))"
    using Some unfolding sl_insert_def r Let_def prod.case by (simp add: bind_eq_Some_conv del: descend.simps split: option.splits if_splits) auto
  then show ?thesis using Some by (auto simp: skip_insert_def arena_allocate_def)
qed (simp add: skip_insert_def)

lemma ml_insert_allocates:
  assumes "ml_insert n e l = Inr (s, l')"
  shows "mt_approximate_memory_usage (ml_active l') \<le> mt_approximate_memory_usage (ml_active l) + approximate_entry_size n e"
    and "mt_config (ml_active l') = mt_config (ml_active l)" "mt_created_at (ml_active l') = mt_created_at (ml_active l)"
proof -
  have sz: "approximate_entry_size n (e\<lparr>me_sequence_number := q\<rparr>) = approximate_entry_size n e" for q by (simp add: approximate_entry_size_def)
  note skip_insert_allocates [of n "e\<lparr>me_sequence_number := mt_next_sequence_number (ml_active l)\<rparr>" "mt_skiplist (ml_active l)", unfolded sz]
  then show "mt_approximate_memory_usage (ml_active l') \<le> mt_approximate_memory_usage (ml_active l) + approximate_entry_size n e"
    "mt_config (ml_active l') = mt_config (ml_active l)" "mt_created_at (ml_active l') = mt_created_at (ml_active l)"
    using assms by (auto simp: ml_insert_def ml_with_active_def mt_insert_def mt_insert_prechecked_def mt_insert_inner_def mt_approximate_memory_usage_def Let_def
        split: if_splits)
qed

lemma write_entry_ok:
  assumes m: "ml_built (en_memtable_list e) (h # hs)" "mt_next_sequence_number (ml_active (en_memtable_list e)) \<noteq> - 1"
    and x: "entry = mk (en_next_sequence e)" "ck_ok (me_composite_key entry)"
      "token_is_none (me_idempotency_key entry) \<or> me_idempotency_key entry \<notin> me_idempotency_key ` set (concat (h # hs))" "stays_active ev e entry"
    and w: "we = from_memtable_entry entry (string_bytes (ec_namespace (en_config e)))" "log_idle (ev_crc ev) (en_wal_manager e) log" "log_room (en_wal_manager e) log [we]"
  shows "\<exists>l' wm' log'. write_entry ev rid mk e = Some (Inr (en_next_sequence e), forget_record rid (e\<lparr>en_wal_manager := wm', en_tick := Suc (en_tick e),
      en_next_sequence := en_next_sequence e + 1, en_memtable_list := l'\<rparr>))
    \<and> ml_built l' ((h @ [entry\<lparr>me_sequence_number := mt_next_sequence_number (ml_active (en_memtable_list e))\<rparr>]) # hs)
    \<and> mt_next_sequence_number (ml_active l') = mt_next_sequence_number (ml_active (en_memtable_list e)) + 1
    \<and> log_idle (ev_crc ev) wm' log' \<and> wm_config wm' = wm_config (en_wal_manager e)
    \<and> log_entries log' = log_entries log @ [we\<lparr>we_sequence_number := ww_next_sequence_number (gc_writer (wm_gc (en_wal_manager e)))\<rparr>] \<and> gc_acks (wm_gc wm') \<noteq> []"
proof -
  let ?c = "mt_next_sequence_number (ml_active (en_memtable_list e))"
  have p: "pc_notifiers (Single we i) = [i]" "pc_entries (Single we i) = [we]" for i by (simp_all add: pc_notifiers_def pc_entries_def)
  from log_commit_ok [of ev e log "Single we" "[we]", OF w(2) p _ w(3)] obtain wm' log' where
    l: "log_commit ev (Single we) e = Some (Inr (), next_tick (e\<lparr>en_wal_manager := wm'\<rparr>))" "log_idle (ev_crc ev) wm' log'"
      "wm_config wm' = wm_config (en_wal_manager e)"
      "log_entries log' = log_entries log @ [we\<lparr>we_sequence_number := ww_next_sequence_number (gc_writer (wm_gc (en_wal_manager e)))\<rparr>]" "gc_acks (wm_gc wm') \<noteq> []" by auto
  obtain l' where i: "ml_insert (ev_node_size ev) entry (en_memtable_list e) = Inr (?c, l')" "mt_next_sequence_number (ml_active l') = ?c + 1"
    using ml_insert_fresh [OF ml_built_repr [OF m(1)] x(3)] by blast
  have b: "ml_built l' ((h @ [entry\<lparr>me_sequence_number := ?c\<rparr>]) # hs)" by (rule ml_built.insert [OF m(1) x(2) m(2) i(1)])
  let ?e = "forget_record rid (e\<lparr>en_wal_manager := wm', en_tick := Suc (en_tick e), en_next_sequence := en_next_sequence e + 1, en_memtable_list := l'\<rparr>)"
  have q: "maybe_freeze_and_flush ev ?e = Some (Inr (), ?e)"
    using x(4) ml_insert_allocates [OF i(1)]
    by (auto simp: maybe_freeze_and_flush_def age_reached_def stays_active_def forget_record_def eret_def mt_should_freeze_by_size_def mt_should_freeze_by_age_def Let_def)
  have "write_entry ev rid mk e = Some (Inr (en_next_sequence e), ?e)"
    unfolding write_entry_def Let_def x(1) [symmetric] w(1) [symmetric]
    using q by (simp add: ebind_def l(1) eupdate_def insert_entry_def next_tick_def i(1) eret_def)
  then show ?thesis using b i(2) l(2-5) by blast
qed

lemma tombstone_sequence: "rt_sequence_number (tombstone_of e) = me_sequence_number e"
  by (simp add: tombstone_of_def Let_def)

lemma newest_put_visible:
  assumes x: "me_entry_type x = Put" "\<forall>y \<in> set (concat (h # hs)). me_sequence_number y < me_sequence_number x"
    and base: "\<forall>b \<in> set base. me_sequence_number b < me_sequence_number x"
  shows "visible (concat ((h @ [x]) # hs)) base (me_composite_key x) x"
    and "k \<noteq> me_composite_key x \<Longrightarrow> visible (concat ((h @ [x]) # hs)) base k y \<longleftrightarrow> visible (concat (h # hs)) base k y"
proof -
  have c: "history_covers (concat ((h @ [x]) # hs)) k s \<longleftrightarrow> history_covers (concat (h # hs)) k s" for k s
    using x(1) by (auto simp: history_covers_def)
  have "\<not> history_covers (concat (h # hs)) k (me_sequence_number x)" for k
    using x(2) unfolding history_covers_def ts_covers_def by (metis less_asym tombstone_sequence)
  then show "visible (concat ((h @ [x]) # hs)) base (me_composite_key x) x"
    unfolding visible_def c using x base by (auto intro: less_imp_le)
  show "visible (concat ((h @ [x]) # hs)) base k y \<longleftrightarrow> visible (concat (h # hs)) base k y" if "k \<noteq> me_composite_key x"
    unfolding visible_def c using that by auto
qed

lemma memtable_dedup_free:
  assumes "ml_built l hs"
  shows "ml_check_dedup l t = Inr () \<longleftrightarrow> token_is_none t \<or> t \<notin> me_idempotency_key ` set (concat hs)"
proof -
  obtain h hs' where hs: "hs = h # hs'" "mt_repr (ml_active l) h" "list_all2 mt_repr (ml_frozen l) hs'"
    using ml_built_repr [OF assms] by (rule ml_repr_Cons)
  then show ?thesis using mt_check_dedup_repr [OF hs(2)] any_check_dedup_repr [OF hs(3)] by (auto simp: ml_check_dedup_def)
qed

lemma written_engine_ok:
  assumes "engine_ok ev e (h # hs) T" and "ml_built l' ((h @ [x]) # hs)" and x: "me_sequence_number x = mt_next_sequence_number (ml_active (en_memtable_list e))"
    and "mt_next_sequence_number (ml_active (en_memtable_list e)) \<noteq> - 1"
    and "mt_next_sequence_number (ml_active l') = mt_next_sequence_number (ml_active (en_memtable_list e)) + 1"
  shows "engine_ok ev (forget_record rid (e\<lparr>en_wal_manager := wm', en_tick := t, en_next_sequence := n, en_memtable_list := l'\<rparr>)) ((h @ [x]) # hs) T"
  using assms plus_one_greater [OF assms(4)] by (auto simp: engine_ok_def forget_record_def below_memtables_def less_imp_le)

lemma forget_record_absent: "\<not> is_known_absent rid ik m (en_continuity_tracker (forget_record rid e))"
  by (simp add: is_known_absent_def forget_record_def invalidate_for_record_def delete_conv')

lemma memtable_hit:
  assumes m: "ml_built (en_memtable_list e) hs" and v: "visible (concat hs) [] key x" and key: "ck_new rid ik = Inr key"
    and a: "\<not> is_known_absent rid ik (manifest_version e) (en_continuity_tracker e)"
  shows "engine_get ev rid ik e = (Inr (Some (gr_from_merge_entry (mg_from_memtable_entry x))), e)"
proof -
  let ?F = "direct_fetcher (ev_codecs ev) (en_objects e)"
  have "levels_repr (ev_codecs ev) (en_objects e) [] []" by (simp add: levels_repr_def)
  from point_read_visible [OF m this, of key] v have r: "point_read ?F key (en_memtable_list e) [] = Inr (Some (mg_from_memtable_entry x))"
    by (auto simp: below_memtables_def)
  then obtain y where "ml_get key (en_memtable_list e) = Some y" by (cases "ml_get key (en_memtable_list e)") (auto simp: point_read_def)
  then show ?thesis using r key a by (auto simp: engine_get_def point_read_def Let_def split: if_splits)
qed

lemma engine_reads_cong:
  assumes "engine_ok ev e hs T" and "engine_ok ev e' hs' T'" 
    and v: "mg_from_memtable_entry ` Collect (visible (concat hs) (table_entries T) k) = mg_from_memtable_entry ` Collect (visible (concat hs') (table_entries T') k)"
  shows "engine_reads ev e k = engine_reads ev e' k"
proof -
  obtain r where r: "engine_reads ev e k = Inr r" "\<forall>g. r = Some g \<longleftrightarrow> (\<exists>x. visible (concat hs) (table_entries T) k x \<and> g = mg_from_memtable_entry x)"
    using engine_reads_visible [OF assms(1)] by blast
  obtain r' where r': "engine_reads ev e' k = Inr r'" "\<forall>g. r' = Some g \<longleftrightarrow> (\<exists>x. visible (concat hs') (table_entries T') k x \<and> g = mg_from_memtable_entry x)"
    using engine_reads_visible [OF assms(2)] by blast
  have "r = Some g \<longleftrightarrow> g \<in> mg_from_memtable_entry ` Collect (visible (concat hs) (table_entries T) k)"
    "r' = Some g \<longleftrightarrow> g \<in> mg_from_memtable_entry ` Collect (visible (concat hs') (table_entries T') k)" for g
    unfolding r(2) [rule_format] r'(2) [rule_format] by blast+
  then have "r = Some g \<longleftrightarrow> r' = Some g" for g using v by simp
  then have "r = r'" by (metis option.exhaust)
  then show ?thesis using r(1) r'(1) by simp
qed

text \<open>C1: a put is logged, durable and read back. For an engine in a well-formed state that is not stalled, a valid key, a token not in
  the memtables and a log with room, a put that does not fill the memtable returns the engine's next sequence number; the log holds one more entry,
  with the log's own number, and in \<open>Sync\<close> mode it is on disk; \<^verbatim>\<open>get\<close> of the key returns the value and metadata just written, whatever is
  cached and however many SSTables hold the key; reads of other keys are as before and the state is well formed again.\<close>
theorem put_logged_and_read:
  assumes ok: "engine_ok ev e (h # hs) T" and stall: "check_write_stall e = Some (Inr (), e)" and key: "ck_new rid ik = Inr key"
    and t: "t = (case tok of None \<Rightarrow> token_none | Some t \<Rightarrow> t)" "token_is_none t \<or> t \<notin> me_idempotency_key ` set (concat (h # hs))"
    and c: "mt_next_sequence_number (ml_active (en_memtable_list e)) \<noteq> - 1"
    and entry: "entry = me_with_sequence key v md t (en_next_sequence e) Put" "stays_active ev e entry"
    and w: "we = from_memtable_entry entry (string_bytes (ec_namespace (en_config e)))" "log_idle (ev_crc ev) (en_wal_manager e) log" "log_room (en_wal_manager e) log [we]"
  shows "\<exists>e' log' x. engine_put ev rid ik v md tok e = Some (Inr (en_next_sequence e), e')
    \<and> log_idle (ev_crc ev) (en_wal_manager e') log'
    \<and> log_entries log' = log_entries log @ [we\<lparr>we_sequence_number := ww_next_sequence_number (gc_writer (wm_gc (en_wal_manager e)))\<rparr>]
    \<and> (cfg_fsync_mode (wm_config (en_wal_manager e)) = Sync \<longrightarrow> gc_durable (wm_gc (en_wal_manager e')) = map_of (gc_dir (wm_gc (en_wal_manager e'))))
    \<and> engine_get ev rid ik e' = (Inr (Some \<lparr>gr_key = key, gr_value = v, gr_metadata = md,
        gr_sequence_number = mt_next_sequence_number (ml_active (en_memtable_list e))\<rparr>), e')
    \<and> engine_ok ev e' ((h @ [x]) # hs) T \<and> en_next_sequence e' = en_next_sequence e + 1
    \<and> (\<forall>k. k \<noteq> key \<longrightarrow> engine_reads ev e' k = engine_reads ev e k)"
proof -
  let ?c = "mt_next_sequence_number (ml_active (en_memtable_list e))"
  define x where "x = entry\<lparr>me_sequence_number := ?c\<rparr>"
  have m: "ml_built (en_memtable_list e) (h # hs)" using ok by (simp add: engine_ok_def)
  have f: "me_composite_key entry = key" "me_idempotency_key entry = t" "ck_ok key" using entry(1) key by (auto simp: me_with_sequence_def ck_new_eq_Inr)
  obtain l' wm' log' where l: "write_entry ev rid (\<lambda>seq. me_with_sequence key v md t seq Put) e = Some (Inr (en_next_sequence e),
      forget_record rid (e\<lparr>en_wal_manager := wm', en_tick := Suc (en_tick e), en_next_sequence := en_next_sequence e + 1, en_memtable_list := l'\<rparr>))"
      "ml_built l' ((h @ [x]) # hs)" "mt_next_sequence_number (ml_active l') = ?c + 1" "log_idle (ev_crc ev) wm' log'" "wm_config wm' = wm_config (en_wal_manager e)"
      "log_entries log' = log_entries log @ [we\<lparr>we_sequence_number := ww_next_sequence_number (gc_writer (wm_gc (en_wal_manager e)))\<rparr>]" "gc_acks (wm_gc wm') \<noteq> []"
    using write_entry_ok [OF m c, of entry "\<lambda>seq. me_with_sequence key v md t seq Put" ev we log rid] f t(2) entry w unfolding x_def by auto
  let ?e = "forget_record rid (e\<lparr>en_wal_manager := wm', en_tick := Suc (en_tick e), en_next_sequence := en_next_sequence e + 1, en_memtable_list := l'\<rparr>)"
  have ok': "engine_ok ev ?e ((h @ [x]) # hs) T" by (rule written_engine_ok [OF ok l(2) _ c l(3)]) (simp add: x_def)
  have "ml_check_dedup (en_memtable_list e) t = Inr ()"
    using memtable_dedup_free [OF m] t(2) by simp
  then have put: "engine_put ev rid ik v md tok e = Some (Inr (en_next_sequence e), ?e)"
    using stall key l(1) unfolding engine_put_def Let_def t(1) [symmetric] by (simp add: ebind_def elift_def)
  have newer: "\<forall>y \<in> set (concat (h # hs)). me_sequence_number y < me_sequence_number x"
    using ml_built_repr [OF m] by (simp add: ml_repr_def x_def)
  have xf: "me_entry_type x = Put" "me_composite_key x = key" using entry(1) f by (simp_all add: x_def me_with_sequence_def)
  have vis: "visible (concat ((h @ [x]) # hs)) [] key x" using newest_put_visible(1) [OF xf(1) newer, of "[]"] xf(2) by simp
  have "ml_built (en_memtable_list ?e) ((h @ [x]) # hs)" using l(2) by (simp add: forget_record_def)
  then have "engine_get ev rid ik ?e = (Inr (Some (gr_from_merge_entry (mg_from_memtable_entry x))), ?e)"
    by (rule memtable_hit [OF _ vis key forget_record_absent])
  moreover have "gr_from_merge_entry (mg_from_memtable_entry x) = \<lparr>gr_key = key, gr_value = v, gr_metadata = md, gr_sequence_number = ?c\<rparr>"
    using entry(1) by (simp add: x_def gr_from_merge_entry_def mg_from_memtable_entry_def me_with_sequence_def)
  moreover have "engine_reads ev ?e k = engine_reads ev e k" if "k \<noteq> key" for k
  proof (rule engine_reads_cong [OF ok' ok])
    have "\<forall>b \<in> set (table_entries T). me_sequence_number b < me_sequence_number x" using ok by (simp add: engine_ok_def x_def)
    then have "visible (concat ((h @ [x]) # hs)) (table_entries T) k = visible (concat (h # hs)) (table_entries T) k"
      using newest_put_visible(2) [OF xf(1) newer] that xf(2) by blast
    then show "mg_from_memtable_entry ` Collect (visible (concat ((h @ [x]) # hs)) (table_entries T) k)
        = mg_from_memtable_entry ` Collect (visible (concat (h # hs)) (table_entries T) k)" by simp
  qed
  moreover have "gc_durable (wm_gc wm') = map_of (gc_dir (wm_gc wm'))" if "cfg_fsync_mode (wm_config (en_wal_manager e)) = Sync"
    using log_idle_durable [OF l(4) l(7)] l(5) that by simp
  ultimately show ?thesis
    using put ok' l(4,6) by (intro exI [of _ ?e] exI [of _ log'] exI [of _ x]) (simp add: forget_record_def)
qed

section \<open>A flush in the engine\<close>

lemma handle_open_raw: "fetch_raw_block F = fetch_raw_block F' \<Longrightarrow> handle_open E m p F = handle_open E m p F'"
  by (simp add: handle_open_def)

lemma handle_open_view: "handle_open E m p (en_fetcher ev e) = handle_open E m p (direct_fetcher (ev_codecs ev) (en_objects e))"
  by (rule handle_open_raw) (simp add: en_fetcher_def cached_view_def)

lemma open_handles_frame:
  "\<forall>s \<in> set metas. fs_get (sst_path ns l s) objs = fs_get (sst_path ns l s) objs'
    \<Longrightarrow> open_handles E l ns (direct_fetcher E objs) metas = open_handles E l ns (direct_fetcher E objs') metas"
proof (induction metas)
  case (Cons m metas)
  then show ?case using handle_open_cong [of "sst_path ns l m" objs objs' E m] by simp
qed simp

lemma open_handles_snoc:
  "open_handles E l ns F (metas @ [m]) = bind_res (open_handles E l ns F metas) (\<lambda>hs. bind_res (handle_open E m (sst_path ns l m) F) (\<lambda>h. Inr (hs @ [h])))"
proof (induction metas)
  case (Cons s metas)
  then show ?case by (cases "handle_open E s (sst_path ns l s) F"; cases "open_handles E l ns F metas"; cases "handle_open E m (sst_path ns l m) F") simp_all
qed (cases "handle_open E m (sst_path ns l m) F", simp_all)

definition open_one :: "codecs \<Rightarrow> string \<Rightarrow> block_fetcher \<Rightarrow> manifest \<Rightarrow> level \<Rightarrow> level_state flush_result" where
  "open_one E ns F m l = (if sstables_at_level l m = [] then Inr \<lparr>ls_level = l, ls_handles = []\<rparr> else level_open_all E l (sstables_at_level l m) ns F)"

lemma open_levels_one:
  "open_levels E ns F m ls = Inr levels \<longleftrightarrow> list_all2 (\<lambda>l s. open_one E ns F m l = Inr s) ls levels"
  by (induction ls arbitrary: levels) (auto simp: open_one_def Let_def list_all2_Cons1 split: if_splits)

lemma open_one_handles:
  "open_one E ns F m L0 = map_sum id (\<lambda>hs. \<lparr>ls_level = L0, ls_handles = hs\<rparr>) (open_handles E L0 ns F (sstables_at_level L0 m))"
  by (cases "open_handles E L0 ns F (sstables_at_level L0 m)") (auto simp: open_one_def level_open_all_def level_is_overlapping_def)

lemma flushed_levels:
  assumes lv: "open_levels E ns (direct_fetcher E objs) m level_all = Inr levels"
    and m': "\<forall>l. sstables_at_level l m' = sstables_at_level l m @ (if l = L0 then [meta] else [])"
    and frame: "\<forall>l. \<forall>s \<in> set (sstables_at_level l m). fs_get (sst_path ns l s) objs' = fs_get (sst_path ns l s) objs"
    and h: "handle_open E meta (sst_path ns L0 meta) (direct_fetcher E objs') = Inr h"
  shows "open_levels E ns (direct_fetcher E objs') m' level_all = Inr (push_l0 h levels)"
proof -
  have hs: "open_handles E l ns (direct_fetcher E objs') (sstables_at_level l m) = open_handles E l ns (direct_fetcher E objs) (sstables_at_level l m)" for l
    by (rule open_handles_frame) (use frame in simp)
  have other: "open_one E ns (direct_fetcher E objs') m' l = open_one E ns (direct_fetcher E objs) m l" if "l \<noteq> L0" for l
    using m' hs [of l] that by (simp add: open_one_def level_open_all_def)
  obtain s0 rest where s: "levels = s0 # rest" "open_one E ns (direct_fetcher E objs) m L0 = Inr s0"
    "list_all2 (\<lambda>l s. open_one E ns (direct_fetcher E objs) m l = Inr s) [L1, L2, L3] rest"
    using lv unfolding open_levels_one level_all_def list_all2_Cons1 by blast
  obtain hs0 where hs0: "open_handles E L0 ns (direct_fetcher E objs) (sstables_at_level L0 m) = Inr hs0" "s0 = \<lparr>ls_level = L0, ls_handles = hs0\<rparr>"
    using s(2) by (cases "open_handles E L0 ns (direct_fetcher E objs) (sstables_at_level L0 m)") (simp_all add: open_one_handles)
  have "open_one E ns (direct_fetcher E objs') m' L0 = Inr (s0\<lparr>ls_handles := ls_handles s0 @ [h]\<rparr>)"
    using m' hs [of L0] hs0 h by (simp add: open_one_handles open_handles_snoc)
  moreover have "list_all2 (\<lambda>l s. open_one E ns (direct_fetcher E objs') m' l = Inr s) [L1, L2, L3] rest"
    using s(3) other by (simp add: list_all2_Cons1)
  ultimately show ?thesis unfolding open_levels_one by (simp add: level_all_def s(1) push_l0_def)
qed

text \<open>The flush leaves every level within the limits that trigger a compaction.\<close>

definition no_compaction_due :: "compaction_config \<Rightarrow> manifest \<Rightarrow> bool" where
  "no_compaction_due config m \<longleftrightarrow> l0_count m + 1 \<le> l0_compaction_trigger config
     \<and> level_size_bytes L1 m \<le> l1_max_bytes config \<and> level_size_bytes L2 m \<le> l2_max_bytes config"

lemma no_tasks:
  assumes "no_compaction_due config m" and "\<forall>l. sstables_at_level l m' = sstables_at_level l m @ (if l = L0 then [meta] else [])"
  shows "check_triggers config m' = []"
proof -
  have "l0_count m' \<le> l0_compaction_trigger config" "level_size_bytes L1 m' \<le> l1_max_bytes config" "level_size_bytes L2 m' \<le> l2_max_bytes config"
    using assms by (simp_all add: no_compaction_due_def l0_count_def level_size_bytes_def)
  then show ?thesis by (simp add: check_triggers_def check_l0_trigger_def check_level_trigger_def List.map_filter_def)
qed

lemma pop_built:
  assumes "ml_built l (hs @ [h])" and "hs \<noteq> []"
  shows "\<exists>g frozen l'. ml_pop_oldest_frozen_with_generation l = Inr (Some (g, frozen), l') \<and> ml_active l' = ml_active l"
proof -
  have r: "ml_repr l (hs @ [h])" by (rule ml_built_repr [OF assms(1)])
  then have "Suc (length (ml_frozen l)) = Suc (length hs)" unfolding ml_repr_def by (metis length_Cons length_append_singleton list_all2_lengthD)
  then have "ml_frozen l \<noteq> []" "ml_frozen_generation_ids l \<noteq> []" using assms(2) r by (auto simp: ml_repr_def)
  then show ?thesis by (simp add: ml_pop_oldest_frozen_with_generation_def)
qed

lemma pinned_ids: "fst ` set (pn_entries (pn_pin i m p)) \<subseteq> insert i (fst ` set (pn_entries p))"
  by (auto simp: pn_pin_def dom_update split: option.splits)

lemma flush_generation: "fp_flush E J clock fp now ulid frozen g mm objs = (Inr res, mm', objs') \<Longrightarrow> fo_generation_id res = g"
  by (auto simp: fp_flush_def Let_def split: if_splits sum.splits prod.splits)

lemma flush_popped_ok:
  assumes f: "fp_flush (ev_codecs ev) (ev_json ev) (ev_clock ev (en_tick e)) (en_flush_pipeline e) (ev_ms ev (en_tick e)) (ev_ulid ev (en_tick e)) frozen g
      (en_manifest_manager e) (en_objects e) = (Inr res, mm', objs')"
    and h: "pn_get (sm_id (fo_sst_meta res)) (en_pinned_metadata e) = None"
      "handle_open (ev_codecs ev) (fo_sst_meta res) (sst_path (ec_namespace (en_config e)) L0 (fo_sst_meta res)) (direct_fetcher (ev_codecs ev) objs') = Inr h"
    and c: "check_triggers (en_compaction_scheduler e) (mm_current mm') = []"
  shows "\<exists>t. flush_popped ev (g, frozen) e = Some (Inr res, (clean_wal g e)\<lparr>en_tick := t, en_manifest_manager := mm', en_objects := objs', en_levels := push_l0 h (en_levels e),
      en_pinned_metadata := pn_pin (sm_id (fo_sst_meta res)) (pm_new (hn_bloom_filter h) (hn_index_block h) (hn_footer h)) (en_pinned_metadata e)\<rparr>)"
proof -
  let ?c = "case wm_mark_generation_flushed g (en_wal_manager e) of (deletable, wm) \<Rightarrow> wm_cleanup_segments deletable wm"
  have cw: "clean_wal g e' = e'\<lparr>en_wal_manager := ?c\<rparr>" if "en_wal_manager e' = en_wal_manager e" for e' :: "'a engine"
    using that by (simp add: clean_wal_def split: prod.splits)
  have hm: "sm_id (hn_meta h) = sm_id (fo_sst_meta res)" using handle_open_fields [OF h(2)] by simp
  have "flush_popped ev (g, frozen) e = Some (Inr res, (clean_wal g e)\<lparr>en_tick := Suc (en_tick e), en_manifest_manager := mm', en_objects := objs', en_levels := push_l0 h (en_levels e),
      en_pinned_metadata := pn_pin (sm_id (fo_sst_meta res)) (pm_new (hn_bloom_filter h) (hn_index_block h) (hn_footer h)) (en_pinned_metadata e)\<rparr>)"
    unfolding flush_popped_def ebind_def run_flush_def Let_def snd_conv fst_conv f
    by (simp add: next_tick_def eupdate_def cw open_flushed_def open_with_cache_def h hm handle_open_view maybe_compact_def c eret_def)
  then show ?thesis by blast
qed

text \<open>C5: a flush in the engine changes no read. For an engine in a well-formed state (whose SSTables split no key's versions) with a frozen memtable that holds an entry and no range deletion and is
  cut into blocks between different keys, an unfenced writer whose next manifest number is free, a fresh id, and level sizes after the flush at which no compaction is due,
  \<^verbatim>\<open>flush_frozen\<close> succeeds: the oldest frozen memtable leaves the list, its SSTable is opened and joins level zero of the state, the levels
  are again those the manifest describes, the greatest sequence number flushed is recorded, below all numbers left in the memtables, the log is cleaned up, and every key reads as before.\<close>
theorem engine_flush_preserves_reads:
  assumes ok: "engine_ok ev e (hs @ [h]) T" "hs \<noteq> []"
    and E: "codecs_ok (ev_codecs ev)" "cfg = fc_sst_config (fp_config (en_flush_pipeline e))" "compress_total (ev_codecs ev) (sst_compression cfg)"
    and h: "h \<noteq> []" "\<forall>x \<in> set h. entry_ok x \<and> me_entry_type x \<noteq> RangeDelete \<and> mf_last_flushed_sequence (mm_current (en_manifest_manager e)) \<le> me_sequence_number x"
    and w: "fits_offsets (ev_codecs ev) cfg (versions h)" "apart (chunk (block_size_target cfg) [] (versions h))"
    and u: "ulid_ok (ev_ulid ev (en_tick e))" "ev_ulid ev (en_tick e) \<notin> set (all_sstable_ids (mm_current (en_manifest_manager e)))"
    and c: "may_flush (ev_json ev) (en_manifest_manager e) (en_objects e)" "no_compaction_due (en_compaction_scheduler e) (mm_current (en_manifest_manager e))"
  shows "\<exists>res e' T'. flush_frozen ev e = Some (Inr res, e') \<and> engine_ok ev e' hs T'
    \<and> mf_last_flushed_sequence (mm_current (en_manifest_manager e')) = Max (me_sequence_number ` set h)
    \<and> (\<forall>x \<in> set (concat hs). mf_last_flushed_sequence (mm_current (en_manifest_manager e')) < me_sequence_number x)
    \<and> en_wal_manager e' = en_wal_manager (clean_wal (fo_generation_id res) e)
    \<and> (\<forall>k. engine_reads ev e' k = engine_reads ev e k)"
proof -
  let ?E = "ev_codecs ev" and ?ns = "ec_namespace (en_config e)" and ?mm = "en_manifest_manager e" and ?l = "en_memtable_list e"
  have o: "ml_built ?l (hs @ [h])" "store_ok ?E (en_objects e) ?ns (mm_current ?mm) T" "fp_namespace (en_flush_pipeline e) = ?ns"
    "open_levels ?E ?ns (direct_fetcher ?E (en_objects e)) (mm_current ?mm) level_all = Inr (en_levels e)" "below_memtables (table_entries T) (concat (hs @ [h]))"
    "fst ` set (pn_entries (en_pinned_metadata e)) \<subseteq> set (all_sstable_ids (mm_current ?mm))" using ok(1) by (simp_all add: engine_ok_def)
  obtain g frozen l' where pop: "ml_pop_oldest_frozen_with_generation ?l = Inr (Some (g, frozen), l')" "ml_active l' = ml_active ?l"
    using pop_built [OF o(1) ok(2)] by blast
  note p = popped_repr [OF o(1) pop(1)]
  have newer: "\<forall>b \<in> set (table_entries T). \<forall>x \<in> set h. me_sequence_number b < me_sequence_number x" using o(5) by (auto simp: below_memtables_def)
  let ?e1 = "e\<lparr>en_memtable_list := l'\<rparr>"
  obtain res m' objs' where f: "fp_flush ?E (ev_json ev) (ev_clock ev (en_tick e)) (en_flush_pipeline e) (ev_ms ev (en_tick e)) (ev_ulid ev (en_tick e)) frozen g ?mm (en_objects e)
      = (Inr res, ?mm\<lparr>mm_current := m'\<rparr>, objs')"
    "store_ok ?E objs' ?ns m' (with_flushed (versions h) T)" "mf_last_flushed_sequence m' \<in> me_sequence_number ` set h"
    "\<forall>l. sstables_at_level l m' = sstables_at_level l (mm_current ?mm) @ (if l = L0 then [fo_sst_meta res] else [])" "sm_id (fo_sst_meta res) = ev_ulid ev (en_tick e)"
    "\<forall>l. \<forall>s \<in> set (sstables_at_level l (mm_current ?mm)). fs_get (sst_path ?ns l s) objs' = fs_get (sst_path ?ns l s) (en_objects e)"
    "\<forall>x \<in> set h. me_sequence_number x \<le> mf_last_flushed_sequence m'"
    using flush_commits [OF E(1) _ _ p(1) h(1) _ _ _ newer _ u c(1), of "en_flush_pipeline e" "ev_clock ev (en_tick e)" "ev_ms ev (en_tick e)" g] E(2,3) h(2) w o(2)
    unfolding o(3) by auto
  let ?T' = "with_flushed (versions h) T"
  obtain h' where h': "handle_open ?E (fo_sst_meta res) (sst_path ?ns L0 (fo_sst_meta res)) (direct_fetcher ?E objs') = Inr h'"
  proof -
    have "list_all2 (meta_repr ?E objs' ?ns L0) (sstables_at_level L0 m') (?T' L0)" using f(2) by (simp add: store_ok_def)
    then obtain es where "meta_repr ?E objs' ?ns L0 (fo_sst_meta res) es" using f(4) by (auto simp: list_all2_append1 list_all2_Cons1)
    then show ?thesis using that by (auto simp: meta_repr_def)
  qed
  have pn: "pn_get (sm_id (fo_sst_meta res)) (en_pinned_metadata ?e1) = None"
    using o(6) u(2) f(5) by (auto simp: pn_get_def map_of_eq_None_iff)
  have tasks: "check_triggers (en_compaction_scheduler ?e1) (mm_current (?mm\<lparr>mm_current := m'\<rparr>)) = []" using no_tasks [OF c(2) f(4)] by simp
  obtain t where fl: "flush_popped ev (g, frozen) ?e1 = Some (Inr res, (clean_wal g ?e1)\<lparr>en_tick := t, en_manifest_manager := ?mm\<lparr>mm_current := m'\<rparr>, en_objects := objs',
      en_levels := push_l0 h' (en_levels ?e1), en_pinned_metadata := pn_pin (sm_id (fo_sst_meta res)) (pm_new (hn_bloom_filter h') (hn_index_block h') (hn_footer h')) (en_pinned_metadata ?e1)\<rparr>)"
    using flush_popped_ok [of ev ?e1 frozen g res "?mm\<lparr>mm_current := m'\<rparr>" objs' h', OF _ pn _ tasks] f(1) h' by auto
  let ?e' = "(clean_wal g ?e1)\<lparr>en_tick := t, en_manifest_manager := ?mm\<lparr>mm_current := m'\<rparr>, en_objects := objs',
      en_levels := push_l0 h' (en_levels ?e1), en_pinned_metadata := pn_pin (sm_id (fo_sst_meta res)) (pm_new (hn_bloom_filter h') (hn_index_block h') (hn_footer h')) (en_pinned_metadata ?e1)\<rparr>"
  have e: "set (table_entries ?T') = set h \<union> set (table_entries T)" using versions_set [of h] ml_built_grow [OF o(1)] by (simp add: with_flushed_entries)
  have low: "below_memtables (table_entries ?T') (concat hs)" by (rule moved_below [OF o(1,5) e])
  have "\<forall>b \<in> set (table_entries ?T'). me_sequence_number b < mt_next_sequence_number (ml_active l')"
    unfolding e pop(2) using ok(1) ml_built_repr [OF o(1)] by (auto simp: engine_ok_def ml_repr_def)
  moreover have "fst ` set (pn_entries (en_pinned_metadata ?e')) \<subseteq> set (all_sstable_ids m')"
  proof -
    have "set (all_sstable_ids m') = insert (sm_id (fo_sst_meta res)) (set (all_sstable_ids (mm_current ?mm)))"
      using f(4) by (auto simp: all_sstable_ids_def level_all_def)
    then show ?thesis using o(6) pinned_ids [of "sm_id (fo_sst_meta res)" _ "en_pinned_metadata e"] by (simp add: subset_insertI2 order_trans [OF pinned_ids] insert_mono)
  qed
  ultimately have ok': "engine_ok ev ?e' hs ?T'"
    using p(2) f(2) flushed_levels [OF o(4) f(4,6) h'] low o(3) by (simp add: engine_ok_def clean_wal_def split: prod.splits)
  have "flush_frozen ev e = Some (Inr res, ?e')"
    unfolding flush_frozen_split ebind_def using fl by (simp add: pop_frozen_def pop(1) eret_def)
  moreover have "engine_reads ev ?e' k = engine_reads ev e k" for k
    by (rule engine_reads_cong [OF ok' ok(1)]) (use moved_visible [OF e, of hs] h(2) in \<open>simp add: same_visible_def\<close>)
  moreover have "mf_last_flushed_sequence m' = Max (me_sequence_number ` set h)" using f(3,7) by (intro Max_eqI [symmetric]) auto
  moreover have "\<forall>x \<in> set (concat hs). mf_last_flushed_sequence m' < me_sequence_number x" using low e f(3) by (auto simp: below_memtables_def)
  moreover have "en_wal_manager ?e' = en_wal_manager (clean_wal (fo_generation_id res) e)"
    using flush_generation [OF f(1)] by (simp add: clean_wal_def split: prod.splits)
  ultimately show ?thesis using ok' by (intro exI [of _ res] exI [of _ ?e'] exI [of _ ?T']) (simp add: clean_wal_def split: prod.splits)
qed

section \<open>A flush that fails\<close>

text \<open>C34: a failed flush hides acknowledged writes. The memtable is taken off the list before it is written: when the flush then fails, whatever
  the error, the engine keeps running without it, and a key whose only version was in that memtable, returned before, is not found
  any more.\<close>
theorem failed_flush_hides_writes:
  assumes ok: "engine_ok ev e (hs @ [h]) T" "ml_pop_oldest_frozen_with_generation (en_memtable_list e) = Inr (Some (g, frozen), l')"
    and f: "fp_flush (ev_codecs ev) (ev_json ev) (ev_clock ev (en_tick e)) (en_flush_pipeline e) (ev_ms ev (en_tick e)) (ev_ulid ev (en_tick e)) frozen g
      (en_manifest_manager e) (en_objects e) = (Inl err, mm', objs')" "levels_repr (ev_codecs ev) objs' (en_levels e) (table_entries T)"
    and x: "visible (concat (hs @ [h])) (table_entries T) k x" "\<forall>y \<in> set (concat hs @ table_entries T). me_composite_key y \<noteq> k"
  shows "\<exists>e'. flush_frozen ev e = Some (Inl err, e') \<and> engine_reads ev e k = Inr (Some (mg_from_memtable_entry x)) \<and> engine_reads ev e' k = Inr None"
proof -
  let ?e' = "next_tick (e\<lparr>en_memtable_list := l', en_manifest_manager := mm', en_objects := objs'\<rparr>)"
  have o: "ml_built (en_memtable_list e) (hs @ [h])" "below_memtables (table_entries T) (concat (hs @ [h]))" using ok(1) by (simp_all add: engine_ok_def)
  have "flush_frozen ev e = Some (Inl err, ?e')"
    unfolding flush_frozen_split ebind_def
    by (simp add: pop_frozen_def ok(2) eret_def flush_popped_def ebind_def run_flush_def f(1) Let_def)
  moreover obtain r where r: "engine_reads ev e k = Inr r" "\<forall>g. r = Some g \<longleftrightarrow> (\<exists>x. visible (concat (hs @ [h])) (table_entries T) k x \<and> g = mg_from_memtable_entry x)"
    using engine_reads_visible [OF ok(1)] by blast
  then have "engine_reads ev e k = Inr (Some (mg_from_memtable_entry x))" using x(1) by auto
  moreover have "below_memtables (table_entries T) (concat hs)" using o(2) by (auto simp: below_memtables_def)
  from point_read_visible [OF popped_repr(2) [OF o(1) ok(2)] f(2) this, of k] obtain r' where
    r': "engine_reads ev ?e' k = Inr r'" "\<forall>g. r' = Some g \<longleftrightarrow> (\<exists>x. visible (concat hs) (table_entries T) k x \<and> g = mg_from_memtable_entry x)"
    by (auto simp: engine_reads_def next_tick_def)
  have "\<not> visible (concat hs) (table_entries T) k y" for y using x(2) by (auto simp: visible_def)
  then have "r' = None" using r'(2) by (cases r') auto
  ultimately show ?thesis using r'(1) by auto
qed

section \<open>Sample engines\<close>

definition sample_env :: "(block_cache_key \<Rightarrow> cached_block option) env" where
  "sample_env = \<lparr>ev_codecs = sample_codecs, ev_json = sample_json, ev_crc = (\<lambda>_. 0), ev_moka = full_moka, ev_node_size = 0, ev_rng = (\<lambda>_ _. 1),
     ev_now = (\<lambda>_. 0), ev_ms = (\<lambda>_. 0), ev_clock = (\<lambda>_ _. 0), ev_ulid = (\<lambda>_. ''U''), ev_run_id = (\<lambda>_. ''R''), ev_early = (\<lambda>_. False), ev_passes = (\<lambda>_. 0)\<rparr>"

definition sample_engine_config :: engine_config where
  "sample_engine_config = \<lparr>ec_memtable_config = memtable_config_default, ec_wal_config = wal_config_default,
     ec_flush_config = fp_config sample_pipeline, ec_compaction_config = compaction_config_default, ec_manifest_config = manifest_config_default,
     ec_cache_config = cache_config_default, ec_namespace = ''ns''\<rparr>"

definition sample_engine ::
  "memtable_list \<Rightarrow> wal_manager \<Rightarrow> manifest_manager \<Rightarrow> level_state list \<Rightarrow> objects \<Rightarrow> (block_cache_key \<Rightarrow> cached_block option) engine" where
  "sample_engine l wm mm levels objs = \<lparr>en_memtable_list = l, en_wal_manager = wm, en_manifest_manager = mm, en_flush_pipeline = sample_pipeline,
     en_compaction_scheduler = compaction_config_default,
     en_compaction_executor = \<lparr>ce_sst_config = sample_sst_config, ce_compaction_config = compaction_config_default, ce_namespace = ''ns''\<rparr>,
     en_levels = levels, en_block_cache = Map.empty, en_pinned_metadata = pn_new cache_config_default, en_continuity_tracker = cy_new cache_config_default,
     en_size_estimator = [], en_config = sample_engine_config, en_next_sequence = 1, en_generation_counter = 0, en_pending_deletions = [],
     en_objects = objs, en_tick = 0\<rparr>"

definition empty_levels :: "level_state list" where
  "empty_levels = map (\<lambda>l. \<lparr>ls_level = l, ls_handles = []\<rparr>) level_all"

lemma empty_manifest_levels: "sstables_at_level l (mf_new_empty now ns\<lparr>mf_writer_epoch := n\<rparr>) = []" "sstables_at_level l (mf_new_empty now ns) = []"
  by (simp_all add: sstables_at_level_def mf_new_empty_def)

lemma sample_engine_ok:
  assumes "ml_built l hs" and "\<forall>l. sstables_at_level l (mm_current mm) = []"
  shows "engine_ok sample_env (sample_engine l wm mm empty_levels objs) hs (\<lambda>_. [])"
  using assms
  by (simp add: engine_ok_def sample_engine_def sample_env_def sample_engine_config_def store_ok_def all_sstable_ids_def level_all_def level_order_def
      table_entries_def below_memtables_def empty_levels_def pn_new_def)

lemma opened_log:
  "\<exists>wm log. wm_open (\<lambda>_. 0) 0 wal_config_default [] = Inr wm \<and> log_idle (\<lambda>_. 0) wm log \<and> (\<forall>w. wal_entry_fits w \<longrightarrow> log_room wm log [w])"
proof -
  obtain w dir h where w: "ww_open (\<lambda>_. 0) 0 wal_config_default [] = Inr (w, dir)" "wal_inv (\<lambda>_. 0) dir w [(h, [])]"
    "ww_next_sequence_number w = 1" "sh_segment_number h = 1" "dom (map_of dir) = {sw_path (ww_current_writer w)}" using ww_open_fresh by blast
  let ?wm = "\<lparr>wm_config = wal_config_default, wm_gc = gc_init w dir Map.empty, wm_dirty_tracker = dt_new, wm_submitted = None\<rparr>"
  have "wm_open (\<lambda>_. 0) 0 wal_config_default [] = Inr ?wm" using w(1) by (simp add: wm_open_def)
  moreover have "log_idle (\<lambda>_. 0) ?wm [(h, [])]" using w(2,5) by (auto simp: log_idle_def gc_init_def durable_ok_def)
  moreover have "log_room ?wm [(h, [])] [x]" if "wal_entry_fits x" for x using that w(3,4) by (simp add: log_room_def gc_init_def seg_no_def)
  ultimately show ?thesis by blast
qed

theorem close_drains_witness:
  "\<exists>wm e. wm_open (\<lambda>_. 0) 0 wal_config_default [] = Inr wm \<and> ml_frozen (en_memtable_list e) = [] \<and> mt_entry_count (ml_active (en_memtable_list e)) = 0
    \<and> engine_close sample_env (sample_engine (ml_new (\<lambda>_. 1) 0 memtable_config_default 1) wm (mm_new 0 ''ns'' manifest_config_default) empty_levels []) = Some (Inr (), e)"
proof -
  obtain wm where wm: "wm_open (\<lambda>_. 0) 0 wal_config_default [] = Inr wm" using opened_log by blast
  let ?e = "sample_engine (ml_new (\<lambda>_. 1) 0 memtable_config_default 1) wm (mm_new 0 ''ns'' manifest_config_default) empty_levels []"
  have "engine_close sample_env ?e = Some (Inr (), ?e)"
    by (simp add: engine_close_def sample_engine_def ml_new_def mt_new_def mt_entry_count_def sl_new_def sl_with_arena_def flush_all.simps has_frozen_def eret_def)
  then show ?thesis using close_drains [of sample_env ?e ?e] wm by blast
qed

lemma one_block_requests:
  assumes "levels_repr E objs [\<lparr>ls_level = L0, ls_handles = [h]\<rparr>] [e]"
  shows "distinct_keys (point_requests [\<lparr>ls_level = L0, ls_handles = [h]\<rparr>])"
proof -
  have "handle_repr E objs h [e]" using assms by (auto simp: levels_repr_def level_repr_def list_all2_Cons1)
  then obtain bss where b: "handle_image E objs h bss" "concat bss = [e]" unfolding handle_repr_def by metis
  then obtain d ft fb dd where img: "sst_image E d ft fb (hn_index_block h) dd bss" and srt: "sorted_wrt ver_less (concat bss)" by (auto simp: handle_image_def)
  have "[] \<notin> set bss" using img by (simp add: sst_image_def)
  then have "bss = [[e]]" using b(2) by (cases bss; cases "tl bss") (auto simp: append_eq_Cons_conv)
  then have "x = ib_entries (hn_index_block h) ! 0" if "find_block_for_key h k = Some x" for k x
    using that image_find_block_index(1) [OF img ver_sorted_keys [OF srt]] by (auto simp: find_block_for_key_def find_block_def last_block_def)
  then show ?thesis by (auto simp: distinct_keys_def point_requests_def)
qed

theorem engine_get_correct_witness:
  "\<exists>wm objs levels e'. engine_get sample_env [1] [5] (sample_engine (ml_new (\<lambda>_. 1) 0 memtable_config_default 2) wm (mm_new 0 ''ns'' manifest_config_default) levels objs)
    = (Inr (Some (gr_from_merge_entry (mg_from_memtable_entry one_entry))), e')"
proof -
  obtain objs h where lv: "levels_repr sample_codecs objs [\<lparr>ls_level = L0, ls_handles = [h]\<rparr>] [one_entry]" using one_entry_level by blast
  obtain wm where "wm_open (\<lambda>_. 0) 0 wal_config_default [] = Inr wm" using opened_log by blast
  let ?lv = "[\<lparr>ls_level = L0, ls_handles = [h]\<rparr>]" and ?key = "CompositeKey [1, 0, 5]"
  let ?e = "sample_engine (ml_new (\<lambda>_. 1) 0 memtable_config_default 2) wm (mm_new 0 ''ns'' manifest_config_default) ?lv objs"
  have ev: "ev_codecs sample_env = sample_codecs" "ev_moka sample_env = full_moka" by (simp_all add: sample_env_def)
  have en: "en_levels ?e = ?lv" "en_objects ?e = objs" "en_block_cache ?e = Map.empty" "en_memtable_list ?e = ml_new (\<lambda>_. 1) 0 memtable_config_default 2"
    by (simp_all add: sample_engine_def)
  have key: "ck_new [1] [5] = Inr ?key" by (simp add: ck_new_eq_Inr rid_ok_def SEPARATOR_def MAX_ITEM_KEY_LEN_def MAX_RECORD_ID_LEN_def)
  have absent: "\<not> is_known_absent [1] [5] (manifest_version ?e) (en_continuity_tracker ?e)" by (simp add: sample_engine_def cy_new_def is_known_absent_def)
  have coh: "coherent full_moka F R Map.empty" for F R by (auto simp: coherent_def full_moka_def)
  have "length (find_candidates_for_key ?key \<lparr>ls_level = L0, ls_handles = [h]\<rparr>) \<le> 1"
    by (auto simp: find_candidates_for_key_def level_is_overlapping_def intro: order_trans [OF length_filter_le])
  then have bud: "sum_list (map (\<lambda>ls. length (find_candidates_for_key ?key ls)) (en_levels ?e)) \<le> unat (get_budget_per_read (ec_cache_config (en_config ?e)))"
    by (simp add: en(1)) (simp add: sample_engine_def sample_engine_config_def cache_config_default_def)
  have vis: "visible (concat [[]]) [one_entry] ?key one_entry" by (simp add: visible_def history_covers_def sample_entry_def me_with_sequence_def)
  obtain r c' where r: "engine_get sample_env [1] [5] ?e = (Inr r, ?e\<lparr>en_block_cache := c'\<rparr>)"
    "\<forall>g. r = Some g \<longleftrightarrow> (\<exists>x. visible (concat [[]]) [one_entry] ?key x \<and> g = gr_from_merge_entry (mg_from_memtable_entry x))"
    using engine_get_correct [OF key absent _ _ _ bud, of sample_env "[[]]" "[one_entry]", unfolded ev en] full_moka_ok one_block_requests [OF lv] coh lv [unfolded levels_repr_unsplit]
      ml_built.new [of "\<lambda>_. 1" 0 memtable_config_default 2] by (auto simp: below_memtables_def)
  have "r = Some (gr_from_merge_entry (mg_from_memtable_entry one_entry))" unfolding r(2) [rule_format] using vis by blast
  then show ?thesis using r(1) by blast
qed

theorem put_logged_and_read_witness:
  "\<exists>wm e'. wm_open (\<lambda>_. 0) 0 wal_config_default [] = Inr wm
    \<and> engine_put sample_env [1] [5] [7] [8] None (sample_engine (ml_new (\<lambda>_. 1) 0 memtable_config_default 1) wm (mm_new 0 ''ns'' manifest_config_default) empty_levels [])
       = Some (Inr 1, e')
    \<and> engine_get sample_env [1] [5] e' = (Inr (Some \<lparr>gr_key = CompositeKey [1, 0, 5], gr_value = [7], gr_metadata = [8], gr_sequence_number = 1\<rparr>), e')"
proof -
  obtain wm log where wm: "wm_open (\<lambda>_. 0) 0 wal_config_default [] = Inr wm" "log_idle (\<lambda>_. 0) wm log" "\<forall>w. wal_entry_fits w \<longrightarrow> log_room wm log [w]"
    using opened_log by blast
  let ?l = "ml_new (\<lambda>_. 1) 0 memtable_config_default 1" and ?key = "CompositeKey [1, 0, 5]"
  let ?e = "sample_engine ?l wm (mm_new 0 ''ns'' manifest_config_default) empty_levels []"
  let ?x = "me_with_sequence ?key [7] [8] token_none 1 Put"
  have key: "ck_new [1] [5] = Inr ?key" by (simp add: ck_new_eq_Inr rid_ok_def SEPARATOR_def MAX_ITEM_KEY_LEN_def MAX_RECORD_ID_LEN_def)
  have ok: "engine_ok sample_env ?e ([] # []) (\<lambda>_. [])" by (rule sample_engine_ok [OF ml_built.new]) (simp add: mm_new_def empty_manifest_levels)
  have usage: "mt_approximate_memory_usage (ml_active ?l) = 0" "mt_config (ml_active ?l) = memtable_config_default" "mt_created_at (ml_active ?l) = 0" "ml_frozen ?l = []"
    "ml_config ?l = memtable_config_default"
    by (simp_all add: ml_new_def mt_new_def mt_approximate_memory_usage_def sl_new_def sl_with_arena_def arena_new_def arena_with_block_size_def)
  have stall: "check_write_stall ?e = Some (Inr (), ?e)"
    using usage by (simp add: check_write_stall_def engine_write_stall_status_def sched_write_stall_status_def l0_count_def mm_new_def empty_manifest_levels
      compaction_config_default_def ml_is_memory_backpressured_def ml_total_memory_usage_def memtable_config_default_def eret_def sample_engine_def Let_def)
  have quiet: "stays_active sample_env ?e ?x"
    using usage by (simp add: stays_active_def sample_engine_def sample_env_def approximate_entry_size_def me_with_sequence_def memtable_config_default_def
      mt_should_freeze_by_age_def sample_engine_config_def flush_config_default_def Let_def)
  have fit: "wal_entry_fits (from_memtable_entry ?x (string_bytes (ec_namespace (en_config ?e))))"
    by (simp add: wal_entry_fits_def from_memtable_entry_def me_with_sequence_def string_bytes_def sample_engine_def sample_engine_config_def body_size_def
      FIXED_BODY_OVERHEAD_def record_id_def item_key_def SEPARATOR_def)
  have "\<exists>e' log' x. engine_put sample_env [1] [5] [7] [8] None ?e = Some (Inr (en_next_sequence ?e), e')
    \<and> log_idle (ev_crc sample_env) (en_wal_manager e') log'
    \<and> log_entries log' = log_entries log @ [(from_memtable_entry ?x (string_bytes (ec_namespace (en_config ?e))))\<lparr>we_sequence_number := ww_next_sequence_number (gc_writer (wm_gc (en_wal_manager ?e)))\<rparr>]
    \<and> (cfg_fsync_mode (wm_config (en_wal_manager ?e)) = Sync \<longrightarrow> gc_durable (wm_gc (en_wal_manager e')) = map_of (gc_dir (wm_gc (en_wal_manager e'))))
    \<and> engine_get sample_env [1] [5] e' = (Inr (Some \<lparr>gr_key = ?key, gr_value = [7], gr_metadata = [8],
        gr_sequence_number = mt_next_sequence_number (ml_active (en_memtable_list ?e))\<rparr>), e')
    \<and> engine_ok sample_env e' (([] @ [x]) # []) (\<lambda>_. []) \<and> en_next_sequence e' = en_next_sequence ?e + 1
    \<and> (\<forall>k. k \<noteq> ?key \<longrightarrow> engine_reads sample_env e' k = engine_reads sample_env ?e k)"
    by (rule put_logged_and_read [OF ok stall key, where t = token_none and entry = ?x])
      (use quiet fit wm in \<open>simp_all add: sample_engine_def sample_env_def ml_new_def\<close>)
  then show ?thesis using wm(1) by (auto simp: sample_engine_def ml_new_def)
qed

lemma one_frozen_list:
  "\<exists>l g frozen l'. ml_built l ([[]] @ [[one_entry]]) \<and> ml_pop_oldest_frozen_with_generation l = Inr (Some (g, frozen), l')"
proof -
  have k: "ck_ok (me_composite_key one_entry)" using sample_entry_ok [of "[5]" "[7]" 1] by (simp add: entry_ok_def)
  have "one_entry\<lparr>me_sequence_number := 1\<rparr> = one_entry" by (simp add: sample_entry_def me_with_sequence_def)
  then show ?thesis using one_frozen_exists [OF k, of 1] unfolding one_frozen_def by auto
qed

theorem engine_flush_preserves_reads_witness:
  "\<exists>l wm res e'. ml_built l [[], [one_entry]]
    \<and> flush_frozen sample_env (sample_engine l wm (mm_new 0 ''ns'' manifest_config_default) empty_levels []) = Some (Inr res, e')
    \<and> engine_reads sample_env e' (CompositeKey [1, 0, 5]) = engine_reads sample_env (sample_engine l wm (mm_new 0 ''ns'' manifest_config_default) empty_levels []) (CompositeKey [1, 0, 5])"
proof -
  obtain l g frozen l' where b: "ml_built l ([[]] @ [[one_entry]])" using one_frozen_list by blast
  obtain wm where "wm_open (\<lambda>_. 0) 0 wal_config_default [] = Inr wm" using opened_log by blast
  let ?mm = "mm_new 0 ''ns'' manifest_config_default"
  let ?e = "sample_engine l wm ?mm empty_levels []"
  have ok: "engine_ok sample_env ?e ([[]] @ [[one_entry]]) (\<lambda>_. [])" by (rule sample_engine_ok [OF b]) (simp add: mm_new_def empty_manifest_levels)
  have ne: "[[]] \<noteq> ([] :: memtable_entry list list)" by simp
  have c: "may_flush sample_json ?mm []"
    using sample_json_ok by (simp add: may_flush_def check_writer_epoch_def mm_new_def mf_new_empty_def fs_get_def)
  have fit: "fits_offsets sample_codecs sample_sst_config (versions [one_entry])" using one_entry_fits [OF one_version_loop] by (simp add: ins_version_def)
  have quiet: "no_compaction_due compaction_config_default (mm_current ?mm)"
    by (simp add: no_compaction_due_def l0_count_def level_size_bytes_def mm_new_def empty_manifest_levels compaction_config_default_def)
  have "\<exists>res e' T'. flush_frozen sample_env ?e = Some (Inr res, e') \<and> engine_ok sample_env e' [[]] T'
    \<and> mf_last_flushed_sequence (mm_current (en_manifest_manager e')) = Max (me_sequence_number ` set [one_entry])
    \<and> (\<forall>x \<in> set (concat [[]] :: memtable_entry list). mf_last_flushed_sequence (mm_current (en_manifest_manager e')) < me_sequence_number x)
    \<and> en_wal_manager e' = en_wal_manager (clean_wal (fo_generation_id res) ?e)
    \<and> (\<forall>k. engine_reads sample_env e' k = engine_reads sample_env ?e k)"
    by (rule engine_flush_preserves_reads [OF ok ne, where cfg = sample_sst_config])
      (use sample_codecs_ok sample_compress_total sample_entry_ok [of "[5]" "[7]" 1] fit one_entry_apart c quiet in
        \<open>simp_all add: sample_env_def sample_engine_def ins_version_def ulid_ok_def all_sstable_ids_def level_all_def mm_new_def empty_manifest_levels\<close>,
       simp_all add: mf_new_empty_def sample_entry_def me_with_sequence_def)
  moreover have "ml_built l [[], [one_entry]]" using b by simp
  ultimately show ?thesis by blast
qed

abbreviation fenced_manager :: manifest_manager where
  "fenced_manager \<equiv> (mm_new 0 ''ns'' manifest_config_default)\<lparr>mm_current := (mf_new_empty 0 ''ns'')\<lparr>mf_writer_epoch := 1\<rparr>\<rparr>"

lemma fenced_flush:
  assumes "mt_repr frozen [one_entry]"
  shows "\<exists>objs'. fp_flush sample_codecs sample_json clock sample_pipeline now ulid frozen g fenced_manager [] = (Inl (EpochFenced 0 1), fenced_manager, objs')"
proof -
  note sc = flush_scan_spec [OF assms]
  have v: "versions [one_entry] = [one_entry]" by (simp add: ins_version_def)
  have fe: "fl_entries (fold fl_node (nodes_of (sl_iter (mt_skiplist frozen))) fl_init) = [one_entry]" "sl_len (mt_skiplist frozen) \<noteq> 0"
    using sc(1,4) unfolding v by simp_all
  have cfg: "fc_sst_config (fp_config sample_pipeline) = sample_sst_config" "fp_namespace sample_pipeline = ''ns''" by simp_all
  obtain info d where w: "sst_write sample_codecs sample_sst_config (generate_sst_path ulid ''ns'' 0) [one_entry] [] = Inr (info, fs_put (generate_sst_path ulid ''ns'' 0) d [])"
    using one_version_loop small_file by blast
  have "mm_update sample_json clock (flush_update m q fenced_manager) fenced_manager objs = (Inl (EpochFenced 0 1), fenced_manager, objs)" for m q objs
    by (simp add: mm_update_def validate_epoch_def flush_update_def check_writer_epoch_def) (simp add: mm_new_def)
  then show ?thesis unfolding fp_flush_def Let_def fe(1) cfg w using fe(2) by simp
qed

theorem failed_flush_hides_writes_witness:
  "\<exists>l wm e'. flush_frozen sample_env (sample_engine l wm fenced_manager empty_levels []) = Some (Inl (EpochFenced 0 1), e')
    \<and> engine_reads sample_env (sample_engine l wm fenced_manager empty_levels []) (CompositeKey [1, 0, 5]) = Inr (Some (mg_from_memtable_entry one_entry))
    \<and> engine_reads sample_env e' (CompositeKey [1, 0, 5]) = Inr None"
proof -
  obtain l g frozen l' where b: "ml_built l ([[]] @ [[one_entry]])" "ml_pop_oldest_frozen_with_generation l = Inr (Some (g, frozen), l')" using one_frozen_list by blast
  obtain wm where "wm_open (\<lambda>_. 0) 0 wal_config_default [] = Inr wm" using opened_log by blast
  let ?e = "sample_engine l wm fenced_manager empty_levels []" and ?k = "CompositeKey [1, 0, 5]"
  have ok: "engine_ok sample_env ?e ([[]] @ [[one_entry]]) (\<lambda>_. [])" by (rule sample_engine_ok [OF b(1)]) (simp add: empty_manifest_levels)
  obtain objs' where f: "fp_flush sample_codecs sample_json (\<lambda>_. 0) sample_pipeline 0 ''U'' frozen g fenced_manager [] = (Inl (EpochFenced 0 1), fenced_manager, objs')"
    using fenced_flush [OF popped_repr(1) [OF b]] by blast
  have lv: "levels_repr sample_codecs objs' empty_levels []"
    by (simp add: levels_repr_def empty_levels_def level_all_def) (intro exI [of _ "[[], [], [], []]"], simp add: level_repr_def)
  have vis: "visible (concat ([[]] @ [[one_entry]])) (table_entries (\<lambda>_. [])) ?k one_entry"
    by (simp add: visible_def history_covers_def table_entries_def level_all_def sample_entry_def me_with_sequence_def)
  have "\<exists>e'. flush_frozen sample_env ?e = Some (Inl (EpochFenced 0 1), e') \<and> engine_reads sample_env ?e ?k = Inr (Some (mg_from_memtable_entry one_entry))
    \<and> engine_reads sample_env e' ?k = Inr None"
    by (rule failed_flush_hides_writes [OF ok _ _ _ vis, of g frozen l' _ fenced_manager objs'])
      (use b(2) f lv in \<open>simp_all add: sample_env_def sample_engine_def table_entries_def level_all_def\<close>)
  then show ?thesis by blast
qed

end
