(* ===== verification/Namespace_Config.thy ===== *)
theory Namespace_Config
  imports Engine_Correct Complex_Main
begin

text \<open>
  \<^verbatim>\<open>namespace_config.rs\<close> and \<^verbatim>\<open>partition_router.rs\<close>: the configuration of a namespace, its checks, the engine configuration made
  from it, and the routing of a record to one of its partitions. A Rust string is the list of the bytes of its UTF-8 encoding.
  \<open>None\<close> stands for a panic. The hash functions and the logarithm that turns a false-positive rate into bits per key are parameters.
\<close>

section \<open>Floating point numbers\<close>

text \<open>Every finite \<^verbatim>\<open>f64\<close> is a rational number; a comparison with NaN is false.\<close>

datatype f64 = NaN | NegInf | Finite rat | PosInf

fun f64_le :: "f64 \<Rightarrow> f64 \<Rightarrow> bool" where
  "f64_le NaN _ = False"
| "f64_le _ NaN = False"
| "f64_le NegInf _ = True"
| "f64_le _ PosInf = True"
| "f64_le (Finite a) (Finite b) = (a \<le> b)"
| "f64_le _ _ = False"

section \<open>Configuration\<close>

datatype partition_key_strategy =
    Simple
  | Composite string "nat list"
  | Prefix nat
  | CustomHash string

datatype consistency_scope = Local | Global
datatype consistency_target = ReadYourWrites | Eventual
datatype write_consistency = One | Quorum | AllReplicas
datatype storage_layer_type = S3 | Cache

record storage_layer_config =
  layer_consistency_scope :: consistency_scope
  layer_consistency_target :: consistency_target
  layer_default_ttl_ms :: "u64 option"

record storage_layer =
  layer_id :: string
  layer_type :: storage_layer_type
  layer_config :: storage_layer_config

record namespace_config =
  nc_name :: string
  nc_partition_key_strategy :: partition_key_strategy
  nc_partition_count :: u32
  nc_s3_path_prefix :: string
  nc_persistence :: "storage_layer list"
  nc_memtable_size_threshold :: u64
  nc_compaction_strategy :: string
  nc_bloom_filter_fp_rate :: f64
  nc_default_page_size_bytes :: u32
  nc_max_page_size_bytes :: u32
  nc_target_latency_slo_ms :: u64
  nc_max_latency_slo_ms :: u64
  nc_write_consistency :: write_consistency
  nc_replication_factor :: u32
  nc_wal_fsync_mode :: string
  nc_wal_group_commit_interval_us :: u64
  nc_wal_batch_sync_interval_ms :: u64

definition default_s3_path_prefix :: "string \<Rightarrow> string" where
  "default_s3_path_prefix name = ''flushdb/'' @ name"

definition serde_default_s3_path_prefix :: string where
  "serde_default_s3_path_prefix = ''flushdb/default''"

definition default_bloom_fp :: f64 where
  "default_bloom_fp = Finite (1 / 100)"

definition parse_fsync_mode :: "string \<Rightarrow> fsync_mode flush_result" where
  "parse_fsync_mode mode =
     (if mode = ''sync'' then Inr Sync else if mode = ''batch_sync'' then Inr BatchSync
      else Inl (InvalidArgument (''wal_fsync_mode: must be sync or batch_sync, got '' @ mode)))"

text \<open>\<^verbatim>\<open>u32::is_power_of_two\<close>.\<close>

definition is_power_of_two :: "u32 \<Rightarrow> bool" where
  "is_power_of_two w \<longleftrightarrow> w \<in> set (map (\<lambda>k. 2 ^ k) [0..<32])"

definition validate_strategy :: "namespace_config \<Rightarrow> unit flush_result" where
  "validate_strategy c =
     (case nc_partition_key_strategy c of
        Composite _ field_indices \<Rightarrow>
          if field_indices = [] then Inl (InvalidArgument ''field_indices: must have at least one field index'') else Inr ()
      | Prefix len \<Rightarrow> if len = 0 then Inl (InvalidArgument ''prefix_length: must be > 0'') else Inr ()
      | Simple \<Rightarrow> Inr ()
      | CustomHash _ \<Rightarrow> Inr ())"

definition nc_validate :: "namespace_config \<Rightarrow> unit flush_result" where
  "nc_validate c =
     (if nc_name c = [] then Inl (InvalidArgument ''name: must not be empty'')
      else if CHR ''/'' \<in> set (nc_name c) \<or> CHR 0x00 \<in> set (nc_name c) then Inl (InvalidArgument ''name: must not contain / or null bytes'')
      else if nc_partition_count c = 0 then Inl (InvalidArgument ''partition_count: must be > 0'')
      else if \<not> is_power_of_two (nc_partition_count c) then Inl (InvalidArgument ''partition_count: must be a power of 2'')
      else if f64_le (nc_bloom_filter_fp_rate c) (Finite 0) \<or> f64_le (Finite 1) (nc_bloom_filter_fp_rate c)
      then Inl (InvalidArgument ''bloom_filter_fp_rate: must be in (0.0, 1.0)'')
      else if nc_default_page_size_bytes c > nc_max_page_size_bytes c
      then Inl (InvalidArgument ''default_page_size_bytes: must be <= max_page_size_bytes'')
      else if nc_target_latency_slo_ms c > nc_max_latency_slo_ms c
      then Inl (InvalidArgument ''target_latency_slo_ms: must be <= max_latency_slo_ms'')
      else bind_res (parse_fsync_mode (nc_wal_fsync_mode c)) (\<lambda>_.
        if nc_wal_batch_sync_interval_ms c = 0 then Inl (InvalidArgument ''wal_batch_sync_interval_ms: must be > 0'')
        else validate_strategy c))"

definition nc_with_strategy :: "string \<Rightarrow> partition_key_strategy \<Rightarrow> u32 \<Rightarrow> namespace_config flush_result" where
  "nc_with_strategy name strategy partition_count =
     (let config = \<lparr>nc_name = name, nc_partition_key_strategy = strategy, nc_partition_count = partition_count,
        nc_s3_path_prefix = default_s3_path_prefix name, nc_persistence = [], nc_memtable_size_threshold = 67108864,
        nc_compaction_strategy = ''LEVELED'', nc_bloom_filter_fp_rate = default_bloom_fp, nc_default_page_size_bytes = 2097152,
        nc_max_page_size_bytes = 8388608, nc_target_latency_slo_ms = 10, nc_max_latency_slo_ms = 500, nc_write_consistency = Quorum,
        nc_replication_factor = 3, nc_wal_fsync_mode = ''sync'', nc_wal_group_commit_interval_us = 200, nc_wal_batch_sync_interval_ms = 10\<rparr>
      in bind_res (nc_validate config) (\<lambda>_. Inr config))"

definition nc_new :: "string \<Rightarrow> u32 \<Rightarrow> namespace_config flush_result" where
  "nc_new name partition_count = nc_with_strategy name Simple partition_count"

text \<open>The fsync mode is expected to have been validated.\<close>

definition nc_engine_config :: "(f64 \<Rightarrow> u32) \<Rightarrow> namespace_config \<Rightarrow> engine_config option" where
  "nc_engine_config fp_rate_to_bits c =
     (case parse_fsync_mode (nc_wal_fsync_mode c) of
        Inl _ \<Rightarrow> None
      | Inr mode \<Rightarrow> Some
          \<lparr>ec_memtable_config = memtable_config_default\<lparr>size_threshold := unat (nc_memtable_size_threshold c)\<rparr>,
           ec_wal_config = wal_config_default\<lparr>cfg_fsync_mode := mode, group_commit_interval := unat (nc_wal_group_commit_interval_us c),
             batch_sync_interval := unat (nc_wal_batch_sync_interval_ms c) * 1000\<rparr>,
           ec_flush_config = flush_config_default\<lparr>fc_sst_config := sst_config_default\<lparr>bloom_bits_per_key := fp_rate_to_bits (nc_bloom_filter_fp_rate c)\<rparr>\<rparr>,
           ec_compaction_config = compaction_config_default,
           ec_manifest_config = manifest_config_default\<lparr>base_path := nc_s3_path_prefix c\<rparr>,
           ec_cache_config = cache_config_default, ec_namespace = nc_name c\<rparr>)"

definition nc_can_update_from :: "namespace_config \<Rightarrow> namespace_config \<Rightarrow> unit flush_result" where
  "nc_can_update_from c other =
     (if nc_name c \<noteq> nc_name other then Inl (InvalidArgument ''name is immutable'')
      else if nc_partition_key_strategy c \<noteq> nc_partition_key_strategy other
      then Inl (InvalidArgument ''partition_key_strategy is immutable: cannot change after creation'')
      else if nc_partition_count c \<noteq> nc_partition_count other then Inl (InvalidArgument ''partition_count is immutable'')
      else Inr ())"

section \<open>Routing\<close>

text \<open>What the router uses of \<^verbatim>\<open>str\<close>: characters start at bytes that are no continuation bytes.\<close>

definition is_continuation :: "char \<Rightarrow> bool" where
  "is_continuation c \<longleftrightarrow> 128 \<le> (of_char c :: nat) \<and> (of_char c :: nat) < 192"

definition is_char_boundary :: "string \<Rightarrow> nat \<Rightarrow> bool" where
  "is_char_boundary s n \<longleftrightarrow> n = length s \<or> n < length s \<and> \<not> is_continuation (s ! n)"

function utf8_chars :: "string \<Rightarrow> string list" where
  "utf8_chars [] = []"
| "utf8_chars (c # cs) = (c # takeWhile is_continuation cs) # utf8_chars (dropWhile is_continuation cs)"
  by pat_completeness auto
termination
  by (relation "measure length") (auto simp: le_imp_less_Suc length_dropWhile_le)

function split_on :: "string \<Rightarrow> string \<Rightarrow> string \<Rightarrow> string list" where
  "split_on d acc s =
     (if s = [] \<or> d = [] then [acc]
      else if take (length d) s = d then acc # split_on d [] (drop (length d) s)
      else split_on d (acc @ [hd s]) (tl s))"
  by auto
termination
  by (relation "measure (\<lambda>(d, acc, s). length s)") auto

declare split_on.simps [simp del]

definition str_split :: "string \<Rightarrow> string \<Rightarrow> string list" where
  "str_split d s = (if d = [] then [''''] @ utf8_chars s @ [''''] else split_on d [] s)"

fun str_join :: "string \<Rightarrow> string list \<Rightarrow> string" where
  "str_join d [] = []"
| "str_join d [s] = s"
| "str_join d (s # ss) = s @ d @ str_join d ss"

record local_partition_router =
  lr_strategy :: partition_key_strategy
  lr_partition_count :: u32
  lr_partition_mask :: u32

definition router_new :: "namespace_config \<Rightarrow> local_partition_router" where
  "router_new c = \<lparr>lr_strategy = nc_partition_key_strategy c, lr_partition_count = nc_partition_count c,
     lr_partition_mask = nc_partition_count c - 1\<rparr>"

text \<open>A string is hashed as its bytes, followed by the byte \<^verbatim>\<open>0xFF\<close> where the standard library's \<^verbatim>\<open>Hash\<close> feeds the hasher.\<close>

definition route :: "(bytes \<Rightarrow> u32) \<Rightarrow> (bytes \<Rightarrow> u64) \<Rightarrow> local_partition_router \<Rightarrow> string \<Rightarrow> u32 flush_result option" where
  "route crc fnv r rid =
     (case lr_strategy r of
        Simple \<Rightarrow> Some (Inr (crc (string_bytes rid) AND lr_partition_mask r))
      | Composite delimiter field_indices \<Rightarrow>
          (let fields = str_split delimiter rid; max_index = (if field_indices = [] then 0 else Max (set field_indices))
           in if length fields \<le> max_index then Some (Inl (InvalidArgument ''record_id: too few fields''))
              else Some (Inr (crc (string_bytes (str_join delimiter (map (\<lambda>i. fields ! i) field_indices))) AND lr_partition_mask r)))
      | Prefix len \<Rightarrow>
          (let n = min len (length rid)
           in if is_char_boundary rid n then Some (Inr (crc (string_bytes (take n rid)) AND lr_partition_mask r)) else None)
      | CustomHash hash_name \<Rightarrow>
          if hash_name = ''crc32'' then Some (Inr (crc (string_bytes rid) AND lr_partition_mask r))
          else if hash_name = ''fnv'' then Some (Inr (ucast (fnv (string_bytes rid @ [255])) AND lr_partition_mask r))
          else Some (Inl (InvalidArgument (''hash_name: unknown hash function: '' @ hash_name))))"

section \<open>What a router promises\<close>

locale partition_router =
  fixes rt :: "'r \<Rightarrow> string \<Rightarrow> u32 flush_result option" and covers :: "'r \<Rightarrow> nat \<Rightarrow> bool"
  assumes in_range: "covers r n \<Longrightarrow> rt r rid = Some (Inr p) \<Longrightarrow> unat p < n"
begin

lemma partition_found:
  assumes "covers r (length ps)" and "rt r rid = Some (Inr p)"
  shows "ps ! unat p \<in> set ps" and "unat p < length ps"
  using in_range [OF assms] by simp_all

end

definition masks :: "local_partition_router \<Rightarrow> nat \<Rightarrow> bool" where
  "masks r n \<longleftrightarrow> (\<exists>k < 32. n = 2 ^ k \<and> lr_partition_mask r = 2 ^ k - 1)"

lemma and_mask_less:
  assumes "k < 32"
  shows "unat (h AND (2 ^ k - 1) :: u32) < 2 ^ k"
proof -
  have "h AND (2 ^ k - 1) = take_bit k h" by (simp add: take_bit_eq_mask mask_eq_exp_minus_1)
  moreover have "unat (take_bit k h) < 2 ^ k" by (simp add: unsigned_take_bit_eq)
  ultimately show ?thesis by simp
qed

interpretation lr: partition_router "route crc fnv" masks for crc :: "bytes \<Rightarrow> u32" and fnv
proof
  fix r n rid p
  assume "masks r n" and "route crc fnv r rid = Some (Inr p)"
  then obtain k h where "k < 32" "n = 2 ^ k" "p = h AND (2 ^ k - 1)"
    by (auto simp: masks_def route_def Let_def split: partition_key_strategy.splits if_splits)
  then show "unat p < n" using and_mask_less by simp
qed

lemma unat_exp_eq: "k < 32 \<Longrightarrow> unat (2 ^ k :: u32) = 2 ^ k"
  using unsigned_of_nat [of "2 ^ k", where 'a = nat and 'b = 32] by (simp add: take_bit_nat_eq_self power_strict_increasing)

lemma router_new_masks:
  assumes "nc_validate c = Inr ()"
  shows "masks (router_new c) (unat (nc_partition_count c))"
proof -
  have "is_power_of_two (nc_partition_count c)" using assms by (auto simp: nc_validate_def split: if_splits)
  then obtain k where k: "k < 32" "nc_partition_count c = 2 ^ k" by (auto simp: is_power_of_two_def)
  then have "unat (nc_partition_count c) = 2 ^ k" by (simp add: unat_exp_eq)
  then show ?thesis using k by (auto simp: masks_def router_new_def)
qed

end
