(* ===== verification/Partition.thy ===== *)
theory Partition
  imports Namespace_Config
begin

text \<open>
  \<^verbatim>\<open>partition.rs\<close>: one partition of a namespace, an engine behind a life cycle. Partitions share the object store; an operation
  runs the engine on the store of the moment and hands the store back.
\<close>

section \<open>State\<close>

datatype partition_state = Starting | Active | Frozen | Draining | Stopped

record 'c partition =
  pt_partition_id :: u32
  pt_namespace :: string
  pt_engine :: "'c engine"
  pt_state :: partition_state
  pt_wal_dir :: string
  pt_created_at :: nat

type_synonym ('c, 'a) partition_op = "'c partition \<Rightarrow> ('a flush_result \<times> 'c partition) option"

definition on_engine :: "('c, 'a) engine_op \<Rightarrow> ('c, 'a) partition_op" where
  "on_engine f p = map_option (\<lambda>(r, e). (r, p\<lparr>pt_engine := e\<rparr>)) (f (pt_engine p))"

definition partition_dir :: "string \<Rightarrow> u32 \<Rightarrow> string" where
  "partition_dir namespace i = namespace @ ''/partition-'' @ pad0 4 (unat i)"

text \<open>The directory is named below the server's data directory; \<open>dir\<close> is what it holds.\<close>

definition partition_open ::
  "'c env \<Rightarrow> (f64 \<Rightarrow> u32) \<Rightarrow> 'c \<Rightarrow> nat \<Rightarrow> wal_dir \<Rightarrow> u32 \<Rightarrow> string \<Rightarrow> namespace_config \<Rightarrow> objects \<Rightarrow> ('c partition flush_result \<times> objects) option" where
  "partition_open ev bits c0 now dir i namespace config objs =
     (case nc_engine_config bits config of
        None \<Rightarrow> None
      | Some ec \<Rightarrow> Some
          (case engine_open ev (ec\<lparr>ec_namespace := ''partition-'' @ pad0 4 (unat i)\<rparr>) c0 dir objs of
             (Inl err, objs) \<Rightarrow> (Inl err, objs)
           | (Inr e, objs) \<Rightarrow>
               (Inr \<lparr>pt_partition_id = i, pt_namespace = namespace, pt_engine = e, pt_state = Active,
                  pt_wal_dir = partition_dir namespace i, pt_created_at = now\<rparr>, objs)))"

section \<open>Life cycle\<close>

definition partition_freeze :: "('c, unit) partition_op" where
  "partition_freeze p =
     (if pt_state p \<noteq> Active then Some (Inl (InvalidArgument ''cannot freeze partition''), p)
      else Some (Inr (), p\<lparr>pt_state := Frozen\<rparr>))"

definition partition_drain :: "'c env \<Rightarrow> ('c, unit) partition_op" where
  "partition_drain ev p =
     (if pt_state p \<noteq> Frozen then Some (Inl (InvalidArgument ''cannot drain partition''), p)
      else on_engine (engine_close ev) (p\<lparr>pt_state := Draining\<rparr>))"

definition partition_stop :: "'c env \<Rightarrow> ('c, unit) partition_op" where
  "partition_stop ev p =
     (case on_engine (engine_close ev) p of
        None \<Rightarrow> None
      | Some (Inl err, p) \<Rightarrow> Some (Inl err, p)
      | Some (Inr _, p) \<Rightarrow> Some (Inr (), p\<lparr>pt_state := Stopped\<rparr>))"

definition is_writable :: "'c partition \<Rightarrow> bool" where
  "is_writable p \<longleftrightarrow> pt_state p = Active"

definition is_readable :: "'c partition \<Rightarrow> bool" where
  "is_readable p \<longleftrightarrow> pt_state p = Active \<or> pt_state p = Frozen"

definition check_writable :: "'c partition \<Rightarrow> unit flush_result" where
  "check_writable p = (if \<not> is_writable p then Inl (ResourceExhausted ''partition'' ''partition is not accepting writes'') else Inr ())"

definition check_readable :: "'c partition \<Rightarrow> unit flush_result" where
  "check_readable p = (if \<not> is_readable p then Inl (ResourceExhausted ''partition'' ''partition is not accepting reads'') else Inr ())"

section \<open>Writes and reads\<close>

definition guarded :: "unit flush_result \<Rightarrow> ('c, 'a) partition_op \<Rightarrow> ('c, 'a) partition_op" where
  "guarded check f p = (case check of Inl err \<Rightarrow> Some (Inl err, p) | Inr _ \<Rightarrow> f p)"

definition partition_put :: "'c env \<Rightarrow> bytes \<Rightarrow> bytes \<Rightarrow> bytes \<Rightarrow> bytes \<Rightarrow> idempotency_token \<Rightarrow> ('c, u64) partition_op" where
  "partition_put ev rid ik val metadata tok p = guarded (check_writable p) (on_engine (engine_put ev rid ik val metadata (Some tok))) p"

definition partition_put_batch :: "'c env \<Rightarrow> bytes \<Rightarrow> put_batch_item list \<Rightarrow> ('c, nat) partition_op" where
  "partition_put_batch ev rid items p = guarded (check_writable p) (on_engine (engine_put_batch ev rid items)) p"

definition partition_delete :: "'c env \<Rightarrow> bytes \<Rightarrow> bytes \<Rightarrow> ('c, u64) partition_op" where
  "partition_delete ev rid ik p = guarded (check_writable p) (on_engine (engine_delete ev rid ik)) p"

definition partition_delete_range :: "'c env \<Rightarrow> bytes \<Rightarrow> bytes \<Rightarrow> bytes \<Rightarrow> ('c, u64) partition_op" where
  "partition_delete_range ev rid start_key end_key p = guarded (check_writable p) (on_engine (engine_delete_range ev rid start_key end_key)) p"

definition partition_get :: "'c env \<Rightarrow> bytes \<Rightarrow> bytes \<Rightarrow> ('c, get_result option) partition_op" where
  "partition_get ev rid ik p = guarded (check_readable p) (on_engine (\<lambda>e. Some (engine_get ev rid ik e))) p"

definition partition_scan ::
  "'c env \<Rightarrow> bytes \<Rightarrow> bytes option \<Rightarrow> bytes option \<Rightarrow> range_read_options \<Rightarrow> ('c, range_read_result) partition_op" where
  "partition_scan ev rid start_key end_key options p =
     guarded (check_readable p) (on_engine (\<lambda>e. map_option (\<lambda>r. (r, e)) (engine_scan ev rid start_key end_key options e))) p"

definition partition_multi_get :: "'c env \<Rightarrow> bytes \<Rightarrow> bytes list \<Rightarrow> ('c, get_result option list) partition_op" where
  "partition_multi_get ev rid keys p =
     guarded (check_readable p) (on_engine (\<lambda>e. Some (engine_multi_get ev rid keys e, e))) p"

section \<open>Maintenance\<close>

definition partition_run_maintenance :: "'c env \<Rightarrow> ('c, unit) partition_op" where
  "partition_run_maintenance ev = on_engine (ebind (run_maintenance ev) (\<lambda>_. ebind (maybe_compact ev) (\<lambda>_. eret ())))"

definition partition_maybe_flush :: "'c env \<Rightarrow> ('c, flush_output option) partition_op" where
  "partition_maybe_flush ev = on_engine (maybe_flush ev)"

definition partition_maybe_compact :: "'c env \<Rightarrow> ('c, compaction_result list) partition_op" where
  "partition_maybe_compact ev = on_engine (maybe_compact ev)"

section \<open>Steps\<close>

inductive partition_step :: "'c env \<Rightarrow> 'c partition \<Rightarrow> 'c partition \<Rightarrow> bool" for ev where
  freeze: "partition_freeze p = Some (r, p') \<Longrightarrow> partition_step ev p p'"
| drain: "partition_drain ev p = Some (r, p') \<Longrightarrow> partition_step ev p p'"
| stop: "partition_stop ev p = Some (r, p') \<Longrightarrow> partition_step ev p p'"
| put: "partition_put ev rid ik val metadata tok p = Some (n, p') \<Longrightarrow> partition_step ev p p'"
| put_batch: "partition_put_batch ev rid items p = Some (m, p') \<Longrightarrow> partition_step ev p p'"
| delete: "partition_delete ev rid ik p = Some (n, p') \<Longrightarrow> partition_step ev p p'"
| delete_range: "partition_delete_range ev rid sk ek p = Some (n, p') \<Longrightarrow> partition_step ev p p'"
| get: "partition_get ev rid ik p = Some (g, p') \<Longrightarrow> partition_step ev p p'"
| scan: "partition_scan ev rid s t options p = Some (rr, p') \<Longrightarrow> partition_step ev p p'"
| multi_get: "partition_multi_get ev rid keys p = Some (gs, p') \<Longrightarrow> partition_step ev p p'"
| run_maintenance: "partition_run_maintenance ev p = Some (r, p') \<Longrightarrow> partition_step ev p p'"
| maybe_flush: "partition_maybe_flush ev p = Some (fo, p') \<Longrightarrow> partition_step ev p p'"
| maybe_compact: "partition_maybe_compact ev p = Some (crs, p') \<Longrightarrow> partition_step ev p p'"

fun rank :: "partition_state \<Rightarrow> nat" where
  "rank Starting = 0" | "rank Active = 1" | "rank Frozen = 2" | "rank Draining = 3" | "rank Stopped = 4"

lemma on_engine_SomeD: "on_engine f p = Some (r, p') \<Longrightarrow> \<exists>e. f (pt_engine p) = Some (r, e) \<and> p' = p\<lparr>pt_engine := e\<rparr>"
  by (auto simp: on_engine_def)

lemma on_engine_state: "on_engine f p = Some (r, p') \<Longrightarrow> pt_state p' = pt_state p"
  by (auto dest: on_engine_SomeD)

lemma guarded_state: "guarded c (on_engine f) p = Some (r, p') \<Longrightarrow> pt_state p' = pt_state p"
  by (auto simp: guarded_def dest: on_engine_state split: sum.splits)

lemmas partition_op_defs = partition_put_def partition_put_batch_def partition_delete_def partition_delete_range_def
  partition_get_def partition_scan_def partition_multi_get_def

lemma stop_ranks:
  assumes "partition_stop ev p = Some (r, p')"
  shows "rank (pt_state p) \<le> rank (pt_state p')"
proof -
  obtain r0 p0 where o: "on_engine (engine_close ev) p = Some (r0, p0)" using assms by (auto simp: partition_stop_def split: option.splits)
  show ?thesis
  proof (cases r0)
    case (Inl err)
    then show ?thesis using assms o on_engine_state [OF o] by (simp add: partition_stop_def)
  next
    case (Inr u)
    then show ?thesis using assms o by (cases "pt_state p") (auto simp: partition_stop_def)
  qed
qed

lemma step_ranks: "partition_step ev p p' \<Longrightarrow> rank (pt_state p) \<le> rank (pt_state p')"
proof (induction rule: partition_step.induct)
  case (freeze p r p')
  then show ?case by (auto simp: partition_freeze_def split: if_splits)
next
  case (drain p r p')
  then show ?case by (auto simp: partition_drain_def split: if_splits dest: on_engine_state)
next
  case (stop p r p')
  then show ?case by (rule stop_ranks)
qed (auto simp: partition_op_defs partition_run_maintenance_def partition_maybe_flush_def partition_maybe_compact_def dest: guarded_state on_engine_state)

section \<open>Drained partitions\<close>

definition drained :: "'c engine \<Rightarrow> bool" where
  "drained e \<longleftrightarrow> ml_frozen (en_memtable_list e) = [] \<and> mt_entry_count (ml_active (en_memtable_list e)) = 0"

definition closed_for_good :: "'c partition \<Rightarrow> bool" where
  "closed_for_good p \<longleftrightarrow> drained (pt_engine p) \<and> (pt_state p = Draining \<or> pt_state p = Stopped)"

lemma drained_flush_all: "drained e \<Longrightarrow> flush_all ev e = Some (Inr (), e)"
  by (simp add: drained_def flush_all.simps has_frozen_def eret_def)

lemma drained_close: "drained e \<Longrightarrow> engine_close ev e = Some (Inr (), e)"
  by (simp add: engine_close_def drained_flush_all) (simp add: drained_def)

lemma drained_keeps: "drained e \<Longrightarrow> keeps_memtables f \<Longrightarrow> f e = Some (r, e') \<Longrightarrow> drained e'"
  using keeps_memtablesD [of f e r e'] by (simp add: drained_def)

lemma drained_maintenance:
  assumes "drained e" and "ebind (run_maintenance ev) (\<lambda>_. ebind (maybe_compact ev) (\<lambda>_. eret ())) e = Some (r, e')"
  shows "drained e'"
proof -
  have "run_maintenance ev e = Some (Inr (), e)" using assms(1) drained_flush_all [OF assms(1)]
    by (simp add: run_maintenance_def ebind_def drained_def eret_def)
  then have "ebind (maybe_compact ev) (\<lambda>_. eret ()) e = Some (r, e')" using assms(2) by (simp add: ebind_def)
  then show ?thesis by (rule drained_keeps [OF assms(1) keeps_ebind [OF keeps_maybe_compact keeps_eret]])
qed

lemma closed_refuses:
  assumes "closed_for_good p"
  shows "check_writable p = Inl (ResourceExhausted ''partition'' ''partition is not accepting writes'')"
    and "check_readable p = Inl (ResourceExhausted ''partition'' ''partition is not accepting reads'')"
  using assms by (auto simp: closed_for_good_def check_writable_def check_readable_def is_writable_def is_readable_def)

lemma closed_step: "partition_step ev p p' \<Longrightarrow> closed_for_good p \<Longrightarrow> closed_for_good p'"
proof (induction rule: partition_step.induct)
  case (freeze p r p')
  then show ?case by (auto simp: partition_freeze_def closed_for_good_def split: if_splits)
next
  case (drain p r p')
  then show ?case by (auto simp: partition_drain_def closed_for_good_def split: if_splits)
next
  case (stop p r p')
  then show ?case by (auto simp: partition_stop_def closed_for_good_def on_engine_def drained_close)
next
  case (run_maintenance p r p')
  then show ?case
    by (auto simp: partition_run_maintenance_def closed_for_good_def dest!: on_engine_SomeD intro: drained_maintenance)
next
  case (maybe_flush p fo p')
  then show ?case
    by (auto simp: partition_maybe_flush_def closed_for_good_def maybe_flush_def has_frozen_def drained_def eret_def dest!: on_engine_SomeD)
next
  case (maybe_compact p crs p')
  then show ?case
    by (auto simp: partition_maybe_compact_def closed_for_good_def dest!: on_engine_SomeD intro: drained_keeps [OF _ keeps_maybe_compact])
qed (simp_all add: partition_op_defs closed_refuses guarded_def)

lemma on_engine_close_drains: "on_engine (engine_close ev) p = Some (Inr u, q) \<Longrightarrow> drained (pt_engine q) \<and> pt_state q = pt_state p"
  by (auto simp: on_engine_def drained_def dest: engine_close_drained)

lemma drain_closes:
  assumes "partition_drain ev p = Some (Inr (), q) \<or> partition_stop ev p = Some (Inr (), q)"
  shows "closed_for_good q"
  using assms
proof
  assume "partition_drain ev p = Some (Inr (), q)"
  then have "on_engine (engine_close ev) (p\<lparr>pt_state := Draining\<rparr>) = Some (Inr (), q)" by (simp add: partition_drain_def split: if_splits)
  from on_engine_close_drains [OF this] show ?thesis by (simp add: closed_for_good_def)
next
  assume "partition_stop ev p = Some (Inr (), q)"
  then obtain u p0 where "on_engine (engine_close ev) p = Some (Inr u, p0)" "q = p0\<lparr>pt_state := Stopped\<rparr>"
    by (auto simp: partition_stop_def split: option.splits sum.splits)
  then show ?thesis using on_engine_close_drains [of ev p u p0] by (simp add: closed_for_good_def)
qed

text \<open>C18: the life cycle of a partition only moves forward, and draining is final. Whatever operations run, the state never goes back;
  and after \<^verbatim>\<open>drain\<close> or \<^verbatim>\<open>stop\<close> has succeeded no write is left in memory, none is accepted any more, and no later operation,
  maintenance included, puts anything into the memtables again.\<close>
theorem partition_drained_for_good:
  "((partition_step ev)\<^sup>*\<^sup>* p p' \<longrightarrow> rank (pt_state p) \<le> rank (pt_state p'))
   \<and> ((partition_drain ev p = Some (Inr (), q) \<or> partition_stop ev p = Some (Inr (), q)) \<and> (partition_step ev)\<^sup>*\<^sup>* q q' \<longrightarrow>
        ml_frozen (en_memtable_list (pt_engine q')) = [] \<and> mt_entry_count (ml_active (en_memtable_list (pt_engine q'))) = 0
      \<and> partition_put_batch ev rid items q' = Some (Inl (ResourceExhausted ''partition'' ''partition is not accepting writes''), q')
      \<and> partition_delete_range ev rid sk ek q' = Some (Inl (ResourceExhausted ''partition'' ''partition is not accepting writes''), q'))"
proof (intro conjI [of "_ \<longrightarrow> _"] impI)
  assume "(partition_step ev)\<^sup>*\<^sup>* p p'"
  then show "rank (pt_state p) \<le> rank (pt_state p')" by (induction rule: rtranclp_induct) (auto dest: step_ranks)
next
  assume a: "(partition_drain ev p = Some (Inr (), q) \<or> partition_stop ev p = Some (Inr (), q)) \<and> (partition_step ev)\<^sup>*\<^sup>* q q'"
  then have "(partition_step ev)\<^sup>*\<^sup>* q q'" by blast
  then have "closed_for_good q'" by (induction rule: rtranclp_induct) (use a in \<open>auto intro: drain_closes closed_step\<close>)
  then show "ml_frozen (en_memtable_list (pt_engine q')) = [] \<and> mt_entry_count (ml_active (en_memtable_list (pt_engine q'))) = 0
      \<and> partition_put_batch ev rid items q' = Some (Inl (ResourceExhausted ''partition'' ''partition is not accepting writes''), q')
      \<and> partition_delete_range ev rid sk ek q' = Some (Inl (ResourceExhausted ''partition'' ''partition is not accepting writes''), q')"
    by (simp add: partition_op_defs closed_refuses guarded_def) (simp add: closed_for_good_def drained_def)
qed

theorem partition_drained_for_good_witness:
  "\<exists>wm q. partition_drain sample_env \<lparr>pt_partition_id = 0, pt_namespace = ''ns'',
        pt_engine = sample_engine (ml_new (\<lambda>_. 1) 0 memtable_config_default 1) wm (mm_new 0 ''ns'' manifest_config_default) empty_levels [],
        pt_state = Frozen, pt_wal_dir = ''d'', pt_created_at = 0\<rparr> = Some (Inr (), q)
     \<and> partition_put_batch sample_env [1] [] q = Some (Inl (ResourceExhausted ''partition'' ''partition is not accepting writes''), q)"
proof -
  obtain wm where "wm_open (\<lambda>_. 0) 0 wal_config_default [] = Inr wm" using opened_log by blast
  let ?e = "sample_engine (ml_new (\<lambda>_. 1) 0 memtable_config_default 1) wm (mm_new 0 ''ns'' manifest_config_default) empty_levels []"
  let ?p = "\<lparr>pt_partition_id = 0, pt_namespace = ''ns'', pt_engine = ?e, pt_state = Frozen, pt_wal_dir = ''d'', pt_created_at = 0\<rparr>"
  have "drained ?e"
    by (simp add: drained_def sample_engine_def ml_new_def mt_new_def mt_entry_count_def sl_new_def sl_with_arena_def)
  then have d: "partition_drain sample_env ?p = Some (Inr (), ?p\<lparr>pt_state := Draining\<rparr>)"
    by (simp add: partition_drain_def on_engine_def drained_close)
  then show ?thesis
    using partition_drained_for_good [of sample_env ?p _ "?p\<lparr>pt_state := Draining\<rparr>" "?p\<lparr>pt_state := Draining\<rparr>" "[1]" "[]"] by blast
qed

end
