(* ===== verification/Version_Generator.thy ===== *)
theory Version_Generator
  imports Flush_Types
begin

text \<open>
  \<^verbatim>\<open>version_generator.rs\<close>: the versions the server hands out. One atomic word packs the millisecond and the next sequence number;
  a call reads the clock, loads the word, and installs its successor by compare-and-exchange. Calls of several threads interleave
  between these two moments: a step relation with the loaded word of each thread. A call that has used up the sequence
  numbers of a millisecond spins until the clock has passed it and starts over, which is an attempt without a version.
\<close>

definition TIMESTAMP_SHIFT :: nat where "TIMESTAMP_SHIFT = 16"
definition SEQ_MASK :: u64 where "SEQ_MASK = 0xFFFF"

definition pack :: "u64 \<Rightarrow> u16 \<Rightarrow> u64" where
  "pack ms next_seq = push_bit TIMESTAMP_SHIFT ms OR ucast next_seq"

definition unpack :: "u64 \<Rightarrow> u64 \<times> u16" where
  "unpack state = (drop_bit TIMESTAMP_SHIFT state, ucast (state AND SEQ_MASK))"

record version_generator =
  vg_node_id :: u16
  vg_state :: u64

definition vg_new :: "u16 \<Rightarrow> version_generator" where
  "vg_new n = \<lparr>vg_node_id = n, vg_state = pack 0 0\<rparr>"

definition compare_exchange :: "u64 \<Rightarrow> u64 \<Rightarrow> ordered_key \<Rightarrow> version_generator \<Rightarrow> ordered_key option \<times> version_generator" where
  "compare_exchange state new_state key g =
     (if vg_state g = state then (Some key, g\<lparr>vg_state := new_state\<rparr>) else (None, g))"

text \<open>One turn of the loop of \<^verbatim>\<open>next_version\<close> after the clock showed \<open>current_ms\<close> and \<open>state\<close> was loaded; without a version the loop goes on.\<close>

definition next_version_turn :: "u64 \<Rightarrow> u64 \<Rightarrow> version_generator \<Rightarrow> ordered_key option \<times> version_generator" where
  "next_version_turn current_ms state g =
     (case unpack state of (last_ts, next_seq) \<Rightarrow>
        if current_ms > last_ts then compare_exchange state (pack current_ms 1) (OrderedKey current_ms (vg_node_id g) 0) g
        else if next_seq = - 1 then (None, g)
        else compare_exchange state (state + 1) (OrderedKey last_ts (vg_node_id g) next_seq) g)"

text \<open>The loop of a call that no other call interferes with, over the successive readings of the clock.\<close>

fun next_version :: "u64 list \<Rightarrow> version_generator \<Rightarrow> ordered_key option \<times> version_generator" where
  "next_version [] g = (None, g)"
| "next_version (ms # clock) g =
     (case next_version_turn ms (vg_state g) g of
        (Some k, g) \<Rightarrow> (Some k, g)
      | (None, g) \<Rightarrow> next_version clock g)"

section \<open>Interleaved calls\<close>

record vg_system =
  vs_gen :: version_generator
  vs_loaded :: "nat \<Rightarrow> (u64 \<times> u64) option"
  vs_issued :: "ordered_key list"

definition vs_init :: "u16 \<Rightarrow> vg_system" where
  "vs_init n = \<lparr>vs_gen = vg_new n, vs_loaded = (\<lambda>_. None), vs_issued = []\<rparr>"

definition vs_load :: "nat \<Rightarrow> u64 \<Rightarrow> vg_system \<Rightarrow> vg_system" where
  "vs_load t ms s = s\<lparr>vs_loaded := (vs_loaded s)(t \<mapsto> (ms, vg_state (vs_gen s)))\<rparr>"

definition vs_turn :: "nat \<Rightarrow> u64 \<Rightarrow> u64 \<Rightarrow> vg_system \<Rightarrow> vg_system" where
  "vs_turn t ms st s =
     (case next_version_turn ms st (vs_gen s) of (r, g) \<Rightarrow>
        s\<lparr>vs_gen := g, vs_loaded := (vs_loaded s)(t := None),
          vs_issued := vs_issued s @ (case r of None \<Rightarrow> [] | Some k \<Rightarrow> [k])\<rparr>)"

text \<open>The clock is below \<open>2\<^sup>4\<^sup>8\<close> milliseconds, the room the packing leaves for it.\<close>

inductive vg_step :: "vg_system \<Rightarrow> vg_system \<Rightarrow> bool" where
  load: "vs_loaded s t = None \<Longrightarrow> unat ms < 2 ^ 48 \<Longrightarrow> vg_step s (vs_load t ms s)"
| turn: "vs_loaded s t = Some (ms, st) \<Longrightarrow> vg_step s (vs_turn t ms st s)"

inductive vg_reachable :: "u16 \<Rightarrow> vg_system \<Rightarrow> bool" for n where
  init: "vg_reachable n (vs_init n)"
| step: "vg_reachable n s \<Longrightarrow> vg_step s s' \<Longrightarrow> vg_reachable n s'"

inductive_cases vg_stepE: "vg_step s s'"

section \<open>The packed word as a number\<close>

lemma unat_pack:
  assumes "unat ms < 2 ^ 48"
  shows "unat (pack ms q) = unat ms * 65536 + unat q"
proof -
  have q: "unat q < 65536" using unsigned_less [of q] by simp
  have "push_bit 16 ms AND ucast q = (0 :: u64)"
    by (rule bit_word_eqI) (auto simp: bit_and_iff bit_push_bit_iff bit_ucast_iff dest: bit_imp_le_length)
  then have "pack ms q = push_bit 16 ms + ucast q"
    by (simp add: pack_def TIMESTAMP_SHIFT_def disjunctive_add_eq_or)
  moreover have "push_bit 16 ms = ms * 65536" by (simp add: push_bit_eq_mult)
  moreover have "unat (ms * 65536) = unat ms * 65536" using assms by (simp add: unat_word_ariths)
  moreover have "unat (ucast q :: u64) = unat q" using q by (simp add: unsigned_ucast_eq take_bit_nat_eq_self)
  ultimately show ?thesis using assms q by (simp add: unat_word_ariths)
qed

lemma unpack_nat: "unat (fst (unpack st)) = unat st div 65536" "unat (snd (unpack st)) = unat st mod 65536"
proof -
  show "unat (fst (unpack st)) = unat st div 65536"
    by (simp add: unpack_def TIMESTAMP_SHIFT_def drop_bit_eq_div unat_div)
  have "st AND 0xFFFF = take_bit 16 st" by (simp add: take_bit_eq_mask mask_eq_exp_minus_1)
  then show "unat (snd (unpack st)) = unat st mod 65536"
    by (simp add: unpack_def SEQ_MASK_def unsigned_ucast_eq take_bit_eq_mod unat_mod)
qed

section \<open>Versions increase\<close>

definition version_number :: "ordered_key \<Rightarrow> nat" where
  "version_number k = unat (timestamp_ms k) * 65536 + unat (ok_sequence k)"

lemma version_number_less:
  assumes "version_number a < version_number b" and "ok_node_id a = ok_node_id b"
  shows "a < b"
proof -
  have "unat (ok_sequence a) < 65536" "unat (ok_sequence b) < 65536" using unsigned_less [of "ok_sequence a"] unsigned_less [of "ok_sequence b"] by simp_all
  then have "unat (timestamp_ms a) < unat (timestamp_ms b) \<or> unat (timestamp_ms a) = unat (timestamp_ms b) \<and> unat (ok_sequence a) < unat (ok_sequence b)"
    using assms(1) unfolding version_number_def by linarith
  then show ?thesis using assms(2) by (auto simp: less_ordered_key_def word_less_nat_alt word_eq_iff_unsigned [where ?'a = nat])
qed

lemma turn_issues:
  assumes "next_version_turn ms st g = (Some k, g')" and ms: "unat ms < 2 ^ 48"
  shows "ok_node_id k = vg_node_id g \<and> vg_node_id g' = vg_node_id g \<and> unat (vg_state g) \<le> version_number k
    \<and> unat (vg_state g') = Suc (version_number k)"
proof (cases "ms > fst (unpack st)")
  case True
  then have "vg_state g = st" "k = OrderedKey ms (vg_node_id g) 0" "g' = g\<lparr>vg_state := pack ms 1\<rparr>"
    using assms(1) by (auto simp: next_version_turn_def compare_exchange_def split: prod.splits if_splits)
  moreover have "unat st < unat ms * 65536" using True unpack_nat(1) [of st] by (simp add: word_less_nat_alt)
  ultimately show ?thesis by (simp add: version_number_def unat_pack [OF ms])
next
  case False
  then have g: "vg_state g = st" "k = OrderedKey (fst (unpack st)) (vg_node_id g) (snd (unpack st))" "g' = g\<lparr>vg_state := st + 1\<rparr>" "snd (unpack st) \<noteq> - 1"
    using assms(1) by (auto simp: next_version_turn_def compare_exchange_def split: prod.splits if_splits)
  then have n: "version_number k = unat st" by (simp add: version_number_def unpack_nat)
  have "st \<noteq> - 1" using g(4) by (auto simp: unpack_def SEQ_MASK_def)
  then have "unat (st + 1) = Suc (unat st)" 
    by (metis add.commute add_eq_0_iff unatSuc word_neq_0_conv)
  then show ?thesis using g n by simp
qed

lemma turn_fails:
  assumes "next_version_turn ms st g = (None, g')"
  shows "g' = g \<and> (vg_state g \<noteq> st \<or> snd (unpack st) = - 1 \<and> ms \<le> fst (unpack st))"
  using assms by (auto simp: next_version_turn_def compare_exchange_def split: prod.splits if_splits)

definition vs_inv :: "u16 \<Rightarrow> vg_system \<Rightarrow> bool" where
  "vs_inv n s \<longleftrightarrow> vg_node_id (vs_gen s) = n \<and> (\<forall>k \<in> set (vs_issued s). ok_node_id k = n \<and> version_number k < unat (vg_state (vs_gen s)))
     \<and> sorted_wrt (\<lambda>a b. version_number a < version_number b) (vs_issued s) \<and> (\<forall>t ms st. vs_loaded s t = Some (ms, st) \<longrightarrow> unat ms < 2 ^ 48)"

lemma vs_inv_turn:
  assumes "vs_inv n s" and "vs_loaded s t = Some (ms, st)"
  shows "vs_inv n (vs_turn t ms st s)"
proof -
  obtain r g where t: "next_version_turn ms st (vs_gen s) = (r, g)" by force
  have ms: "unat ms < 2 ^ 48" using assms by (auto simp: vs_inv_def)
  show ?thesis
  proof (cases r)
    case None
    then show ?thesis using assms t turn_fails [of ms st "vs_gen s" g] by (auto simp: vs_turn_def vs_inv_def)
  next
    case (Some k)
    then have "ok_node_id k = n" "vg_node_id g = n" "unat (vg_state (vs_gen s)) \<le> version_number k" "unat (vg_state g) = Suc (version_number k)"
      using turn_issues [of ms st "vs_gen s" k g] t ms assms(1) by (auto simp: vs_inv_def)
    then show ?thesis using assms t Some by (force simp: vs_turn_def vs_inv_def sorted_wrt_append)
  qed
qed

lemma vs_inv_reachable: "vg_reachable n s \<Longrightarrow> vs_inv n s"
proof (induction rule: vg_reachable.induct)
  case init
  then show ?case by (simp add: vs_inv_def vs_init_def vg_new_def)
next
  case (step s s')
  from step.hyps(2) step.IH show ?case
    by (cases rule: vg_step.cases) (auto simp: vs_inv_turn, auto simp: vs_inv_def vs_load_def split: if_splits)
qed

lemma next_version_returns:
  "\<exists>ms \<in> set clock. fst (unpack (vg_state g)) < ms \<Longrightarrow> \<exists>k g'. next_version clock g = (Some k, g')"
proof (induction clock)
  case (Cons ms clock)
  obtain r g' where t: "next_version_turn ms (vg_state g) g = (r, g')" by force
  show ?case
  proof (cases r)
    case None
    with t turn_fails [of ms "vg_state g" g g'] have "g' = g" "ms \<le> fst (unpack (vg_state g))" by auto
    then show ?thesis using Cons None t by auto
  qed (use t in simp)
qed simp

text \<open>C17: the versions of a node are unique and grow. However the calls of any number of threads interleave, and even when the clock goes
  back, every version issued is greater than all issued before it, also by the bytes it is stored as. A turn of a call that
  returns no version has been overtaken by another call or has used up the sequence numbers of a millisecond that has not
  passed, and a call left alone returns once the clock has passed the millisecond of the last version.\<close>
theorem versions_increase:
  assumes "vg_reachable n s"
  shows "sorted_wrt (<) (vs_issued s) \<and> distinct (vs_issued s) \<and> sorted_wrt (<) (map ordered_key_to_bytes (vs_issued s))
    \<and> (\<forall>ms st. fst (next_version_turn ms st (vs_gen s)) = None
        \<longrightarrow> vg_state (vs_gen s) \<noteq> st \<or> snd (unpack st) = - 1 \<and> ms \<le> fst (unpack st))
    \<and> (\<forall>clock. (\<exists>ms \<in> set clock. fst (unpack (vg_state (vs_gen s))) < ms) \<longrightarrow> fst (next_version clock (vs_gen s)) \<noteq> None)"
proof -
  have inv: "vs_inv n s" by (rule vs_inv_reachable [OF assms])
  then have "\<And>a b. a \<in> set (vs_issued s) \<Longrightarrow> b \<in> set (vs_issued s) \<Longrightarrow> version_number a < version_number b \<Longrightarrow> a < b"
    by (intro version_number_less) (auto simp: vs_inv_def)
  then have s: "sorted_wrt (<) (vs_issued s)" 
    by (rule sorted_wrt_mono_rel [where P = "\<lambda>a b. version_number a < version_number b"]) (use inv in \<open>auto simp: vs_inv_def\<close>)
  then have "sorted_wrt (<) (map ordered_key_to_bytes (vs_issued s))" using ordered_key_bytes_order by (simp add: sorted_wrt_map)
  moreover have "distinct (vs_issued s)" using s by (simp add: strict_sorted_iff)
  moreover have "\<forall>ms st. fst (next_version_turn ms st (vs_gen s)) = None
      \<longrightarrow> vg_state (vs_gen s) \<noteq> st \<or> snd (unpack st) = - 1 \<and> ms \<le> fst (unpack st)"
    using turn_fails [of _ _ "vs_gen s"] by (metis prod.collapse)
  ultimately show ?thesis using s next_version_returns [of _ "vs_gen s"] by fastforce
qed

text \<open>Two threads load the word of a fresh generator in the same millisecond: one gets a version, the other starts over.\<close>

theorem versions_increase_witness:
  "\<exists>s. vg_reachable 7 s \<and> vs_issued s = [OrderedKey 5 7 0, OrderedKey 5 7 1] \<and> sorted_wrt (<) (vs_issued s)"
proof -
  let ?s0 = "vs_init 7"
  let ?s1 = "vs_load 1 5 ?s0"
  let ?s2 = "vs_load 2 5 ?s1"
  let ?s3 = "vs_turn 1 5 0 ?s2"
  let ?s4 = "vs_turn 2 5 0 ?s3"
  let ?s5 = "vs_load 2 5 ?s4"
  let ?s6 = "vs_turn 2 5 (vg_state (vs_gen ?s5)) ?s5"
  note defs = vs_init_def vs_load_def vs_turn_def vg_new_def next_version_turn_def compare_exchange_def unpack_def pack_def TIMESTAMP_SHIFT_def SEQ_MASK_def
  have r0: "vg_reachable 7 ?s0" by (rule vg_reachable.init)
  have r1: "vg_reachable 7 ?s1" by (rule vg_reachable.step [OF r0 vg_step.load]) (simp_all add: defs)
  have r2: "vg_reachable 7 ?s2" by (rule vg_reachable.step [OF r1 vg_step.load]) (simp_all add: defs)
  have r3: "vg_reachable 7 ?s3" by (rule vg_reachable.step [OF r2 vg_step.turn]) (simp_all add: defs)
  have r4: "vg_reachable 7 ?s4" by (rule vg_reachable.step [OF r3 vg_step.turn]) (simp_all add: defs)
  have r5: "vg_reachable 7 ?s5" by (rule vg_reachable.step [OF r4 vg_step.load]) (simp_all add: defs)
  have r6: "vg_reachable 7 ?s6" by (rule vg_reachable.step [OF r5 vg_step.turn]) (simp_all add: defs)
  moreover have "vs_issued ?s6 = [OrderedKey 5 7 0, OrderedKey 5 7 1]" by (simp add: defs)
  ultimately show ?thesis using versions_increase [OF r6] by blast
qed

end
