(* ===== verification/Namespace_Manager.thy ===== *)
theory Namespace_Manager
  imports Partition Version_Generator "HOL-Library.AList"
begin

text \<open>
  \<^verbatim>\<open>namespace_manager.rs\<close>: the namespaces of a server, their partitions, and the dispatch of requests to them. The write lock of a
  partition makes its operations take turns, so an operation is one step on the state of the manager. The object store is
  shared by all partitions and the local directories by successive openings of a partition; both are handed to the partition an operation runs on
  and taken back from it. A reference to a partition is its index. \<^verbatim>\<open>DashMap\<close> iterates in no particular order: here in the
  order of the association list.
\<close>

section \<open>State\<close>

record 'c namespace_state =
  ns_config :: namespace_config
  ns_router :: local_partition_router
  ns_partitions :: "'c partition list"

record 'c namespace_manager =
  nm_namespaces :: "(string \<times> 'c namespace_state) list"
  nm_backend :: objects
  nm_dirs :: "string \<Rightarrow> wal_dir"
  nm_version_gen :: version_generator

text \<open>What the server takes from outside: the environment of each engine, the hash functions of the router, the bits per key of a
  false-positive rate, an empty block cache and the clock.\<close>

record 'c server_env =
  sv_engine :: "string \<Rightarrow> u32 \<Rightarrow> 'c env"
  sv_crc :: "bytes \<Rightarrow> u32"
  sv_fnv :: "bytes \<Rightarrow> u64"
  sv_bits :: "f64 \<Rightarrow> u32"
  sv_cache :: 'c
  sv_now :: nat

type_synonym ('c, 'a) manager_op = "'c namespace_manager \<Rightarrow> ('a flush_result \<times> 'c namespace_manager) option"

definition nm_new :: "objects \<Rightarrow> (string \<Rightarrow> wal_dir) \<Rightarrow> version_generator \<Rightarrow> 'c namespace_manager" where
  "nm_new backend dirs version_gen = \<lparr>nm_namespaces = [], nm_backend = backend, nm_dirs = dirs, nm_version_gen = version_gen\<rparr>"

definition engine_dir :: "'c engine \<Rightarrow> wal_dir" where
  "engine_dir e = gc_dir (wm_gc (en_wal_manager e))"

definition no_namespace :: "string \<Rightarrow> flush_error" where
  "no_namespace namespace = NotFound (''namespace: '' @ namespace)"

section \<open>Running an operation on a partition\<close>

definition with_store :: "objects \<Rightarrow> 'c partition \<Rightarrow> 'c partition" where
  "with_store objs p = p\<lparr>pt_engine := (pt_engine p)\<lparr>en_objects := objs\<rparr>\<rparr>"

definition put_partition :: "string \<Rightarrow> 'c namespace_state \<Rightarrow> nat \<Rightarrow> 'c partition \<Rightarrow> 'c namespace_manager \<Rightarrow> 'c namespace_manager" where
  "put_partition namespace st i p m =
     m\<lparr>nm_namespaces := AList.update namespace (st\<lparr>ns_partitions := (ns_partitions st)[i := p]\<rparr>) (nm_namespaces m),
       nm_backend := en_objects (pt_engine p),
       nm_dirs := (nm_dirs m)(pt_wal_dir p := engine_dir (pt_engine p))\<rparr>"

definition run_at :: "'c server_env \<Rightarrow> ('c env \<Rightarrow> ('c, 'a) partition_op) \<Rightarrow> string \<Rightarrow> nat \<Rightarrow> ('c, 'a) manager_op" where
  "run_at sv f namespace i m =
     (case map_of (nm_namespaces m) namespace of
        None \<Rightarrow> Some (Inl (no_namespace namespace), m)
      | Some st \<Rightarrow>
          map_option (\<lambda>(r, p). (r, put_partition namespace st i p m))
            (f (sv_engine sv namespace (of_nat i)) (with_store (nm_backend m) (ns_partitions st ! i))))"

fun run_each :: "'c server_env \<Rightarrow> ('c env \<Rightarrow> ('c, 'a) partition_op) \<Rightarrow> (string \<times> nat) list \<Rightarrow> ('c, unit) manager_op" where
  "run_each sv f [] m = Some (Inr (), m)"
| "run_each sv f ((namespace, i) # rest) m =
     (case run_at sv f namespace i m of
        None \<Rightarrow> None
      | Some (Inl err, m) \<Rightarrow> Some (Inl err, m)
      | Some (Inr _, m) \<Rightarrow> run_each sv f rest m)"

section \<open>Namespaces\<close>

fun open_partitions ::
  "'c server_env \<Rightarrow> namespace_config \<Rightarrow> nat list \<Rightarrow> (string \<Rightarrow> wal_dir) \<Rightarrow> objects \<Rightarrow> ('c partition list flush_result \<times> (string \<Rightarrow> wal_dir) \<times> objects) option" where
  "open_partitions sv config [] dirs objs = Some (Inr [], dirs, objs)"
| "open_partitions sv config (i # is) dirs objs =
     (let dir = partition_dir (nc_name config) (of_nat i)
      in case partition_open (sv_engine sv (nc_name config) (of_nat i)) (sv_bits sv) (sv_cache sv) (sv_now sv) (dirs dir) (of_nat i)
                (nc_name config) config objs of
           None \<Rightarrow> None
         | Some (Inl err, objs) \<Rightarrow> Some (Inl err, dirs, objs)
         | Some (Inr p, objs) \<Rightarrow>
             (case open_partitions sv config is (dirs(dir := engine_dir (pt_engine p))) objs of
                None \<Rightarrow> None
              | Some (Inl err, dirs, objs) \<Rightarrow> Some (Inl err, dirs, objs)
              | Some (Inr ps, dirs, objs) \<Rightarrow> Some (Inr (p # ps), dirs, objs)))"

definition create_namespace :: "'c server_env \<Rightarrow> namespace_config \<Rightarrow> ('c, unit) manager_op" where
  "create_namespace sv config m =
     (case nc_validate config of
        Inl err \<Rightarrow> Some (Inl err, m)
      | Inr _ \<Rightarrow>
          if map_of (nm_namespaces m) (nc_name config) \<noteq> None
          then Some (Inl (InvalidArgument (''namespace already exists: '' @ nc_name config)), m)
          else (case open_partitions sv config [0..<unat (nc_partition_count config)] (nm_dirs m) (nm_backend m) of
                  None \<Rightarrow> None
                | Some (Inl err, dirs, objs) \<Rightarrow> Some (Inl err, m\<lparr>nm_backend := objs, nm_dirs := dirs\<rparr>)
                | Some (Inr partitions, dirs, objs) \<Rightarrow>
                    (let state = \<lparr>ns_config = config, ns_router = router_new config, ns_partitions = partitions\<rparr>
                     in Some (Inr (), m\<lparr>nm_namespaces := AList.update (nc_name config) state (nm_namespaces m),
                          nm_backend := objs, nm_dirs := dirs\<rparr>))))"

definition get_namespace_config :: "string \<Rightarrow> 'c namespace_manager \<Rightarrow> namespace_config flush_result" where
  "get_namespace_config namespace m =
     (case map_of (nm_namespaces m) namespace of None \<Rightarrow> Inl (no_namespace namespace) | Some st \<Rightarrow> Inr (ns_config st))"

definition update_namespace_config :: "namespace_config \<Rightarrow> ('c, unit) manager_op" where
  "update_namespace_config config m =
     (case map_of (nm_namespaces m) (nc_name config) of
        None \<Rightarrow> Some (Inl (no_namespace (nc_name config)), m)
      | Some st \<Rightarrow>
          (case nc_can_update_from (ns_config st) config of
             Inl err \<Rightarrow> Some (Inl err, m)
           | Inr _ \<Rightarrow> Some (Inr (), m\<lparr>nm_namespaces := AList.update (nc_name config) (st\<lparr>ns_config := config\<rparr>) (nm_namespaces m)\<rparr>)))"

definition delete_namespace :: "'c server_env \<Rightarrow> string \<Rightarrow> ('c, unit) manager_op" where
  "delete_namespace sv namespace m =
     (case map_of (nm_namespaces m) namespace of
        None \<Rightarrow> Some (Inl (no_namespace namespace), m)
      | Some st \<Rightarrow>
          (case run_each sv partition_stop (map (Pair namespace) [0..<length (ns_partitions st)]) m of
             None \<Rightarrow> None
           | Some (Inl err, m) \<Rightarrow> Some (Inl err, m)
           | Some (Inr _, m) \<Rightarrow> Some (Inr (), m\<lparr>nm_namespaces := AList.delete namespace (nm_namespaces m)\<rparr>)))"

definition list_namespaces :: "'c namespace_manager \<Rightarrow> string list" where
  "list_namespaces m = sort (map fst (nm_namespaces m))"

definition namespace_exists :: "string \<Rightarrow> 'c namespace_manager \<Rightarrow> bool" where
  "namespace_exists namespace m \<longleftrightarrow> map_of (nm_namespaces m) namespace \<noteq> None"

section \<open>Dispatch\<close>

definition resolve_partition :: "'c server_env \<Rightarrow> string \<Rightarrow> string \<Rightarrow> 'c namespace_manager \<Rightarrow> nat flush_result option" where
  "resolve_partition sv namespace rid m =
     (case map_of (nm_namespaces m) namespace of
        None \<Rightarrow> Some (Inl (no_namespace namespace))
      | Some st \<Rightarrow>
          (case route (sv_crc sv) (sv_fnv sv) (ns_router st) rid of
             None \<Rightarrow> None
           | Some (Inl err) \<Rightarrow> Some (Inl err)
           | Some (Inr partition_id) \<Rightarrow>
               if unat partition_id < length (ns_partitions st) then Some (Inr (unat partition_id))
               else Some (Inl (InvalidArgument ''partition index out of bounds''))))"

definition dispatch :: "'c server_env \<Rightarrow> string \<Rightarrow> string \<Rightarrow> ('c env \<Rightarrow> ('c, 'a) partition_op) \<Rightarrow> ('c, 'a) manager_op" where
  "dispatch sv namespace rid f m =
     (case resolve_partition sv namespace rid m of
        None \<Rightarrow> None
      | Some (Inl err) \<Rightarrow> Some (Inl err, m)
      | Some (Inr i) \<Rightarrow> run_at sv f namespace i m)"

definition nm_put :: "'c server_env \<Rightarrow> string \<Rightarrow> string \<Rightarrow> bytes \<Rightarrow> bytes \<Rightarrow> bytes \<Rightarrow> idempotency_token \<Rightarrow> ('c, u64) manager_op" where
  "nm_put sv namespace rid ik val metadata tok = dispatch sv namespace rid (\<lambda>ev. partition_put ev (string_bytes rid) ik val metadata tok)"

definition nm_put_batch :: "'c server_env \<Rightarrow> string \<Rightarrow> string \<Rightarrow> put_batch_item list \<Rightarrow> ('c, nat) manager_op" where
  "nm_put_batch sv namespace rid items = dispatch sv namespace rid (\<lambda>ev. partition_put_batch ev (string_bytes rid) items)"

definition nm_delete :: "'c server_env \<Rightarrow> string \<Rightarrow> string \<Rightarrow> bytes \<Rightarrow> ('c, u64) manager_op" where
  "nm_delete sv namespace rid ik = dispatch sv namespace rid (\<lambda>ev. partition_delete ev (string_bytes rid) ik)"

definition nm_delete_range :: "'c server_env \<Rightarrow> string \<Rightarrow> string \<Rightarrow> bytes \<Rightarrow> bytes \<Rightarrow> ('c, u64) manager_op" where
  "nm_delete_range sv namespace rid start_key end_key =
     dispatch sv namespace rid (\<lambda>ev. partition_delete_range ev (string_bytes rid) start_key end_key)"

definition nm_get :: "'c server_env \<Rightarrow> string \<Rightarrow> string \<Rightarrow> bytes \<Rightarrow> ('c, get_result option) manager_op" where
  "nm_get sv namespace rid ik = dispatch sv namespace rid (\<lambda>ev. partition_get ev (string_bytes rid) ik)"

definition nm_scan ::
  "'c server_env \<Rightarrow> string \<Rightarrow> string \<Rightarrow> bytes option \<Rightarrow> bytes option \<Rightarrow> range_read_options \<Rightarrow> ('c, range_read_result) manager_op" where
  "nm_scan sv namespace rid start_key end_key options =
     dispatch sv namespace rid (\<lambda>ev. partition_scan ev (string_bytes rid) start_key end_key options)"

definition nm_multi_get :: "'c server_env \<Rightarrow> string \<Rightarrow> string \<Rightarrow> bytes list \<Rightarrow> ('c, get_result option list) manager_op" where
  "nm_multi_get sv namespace rid keys = dispatch sv namespace rid (\<lambda>ev. partition_multi_get ev (string_bytes rid) keys)"

section \<open>Background work\<close>

definition all_partitions :: "'c namespace_manager \<Rightarrow> (string \<times> nat) list" where
  "all_partitions m = concat (map (\<lambda>(namespace, st). map (Pair namespace) [0..<length (ns_partitions st)]) (nm_namespaces m))"

definition nm_run_maintenance :: "'c server_env \<Rightarrow> ('c, unit) manager_op" where
  "nm_run_maintenance sv m = run_each sv partition_run_maintenance (all_partitions m) m"

definition nm_flush_all :: "'c server_env \<Rightarrow> ('c, unit) manager_op" where
  "nm_flush_all sv m = run_each sv partition_maybe_flush (all_partitions m) m"

definition nm_stop_all :: "'c server_env \<Rightarrow> ('c, unit) manager_op" where
  "nm_stop_all sv m = run_each sv partition_stop (all_partitions m) m"

section \<open>Versions and status\<close>

text \<open>\<open>clock\<close> are the readings of the clock during the call; a call that never returns is \<open>None\<close>.\<close>

definition nm_next_version :: "u64 list \<Rightarrow> 'c namespace_manager \<Rightarrow> (ordered_key \<times> 'c namespace_manager) option" where
  "nm_next_version clock m =
     (case next_version clock (nm_version_gen m) of
        (None, _) \<Rightarrow> None
      | (Some k, g) \<Rightarrow> Some (k, m\<lparr>nm_version_gen := g\<rparr>))"

definition namespace_count :: "'c namespace_manager \<Rightarrow> nat" where
  "namespace_count m = length (nm_namespaces m)"

definition nm_partition_count :: "string \<Rightarrow> 'c namespace_manager \<Rightarrow> u32 flush_result" where
  "nm_partition_count namespace m = bind_res (get_namespace_config namespace m) (\<lambda>config. Inr (nc_partition_count config))"

definition total_partition_count :: "'c namespace_manager \<Rightarrow> nat" where
  "total_partition_count m = sum_list (map (\<lambda>(_, st). length (ns_partitions st)) (nm_namespaces m))"

end
