(* ===== verification/Engine_Open.thy ===== *)
theory Engine_Open
  imports Engine_Correct
begin

text \<open>
  Opening an engine on a store without a manifest for its namespace and an empty log directory: the first manifest is written, the writer epoch
  taken, a log segment created, and the engine starts well formed and empty.
\<close>

lemma no_segments: "wal_recover_from crc [] s = Inr []"
  by (simp add: wal_recover_from_discover discover_segments_def List.map_filter_simps)

lemma fresh_levels: "open_levels E ns F (mf_new_empty now ns) level_all = Inr empty_levels"
  by (simp add: level_all_def empty_levels_def empty_manifest_levels)

lemma fresh_init:
  assumes "json_ok J" and "chain_stored J config ns [] objs" and "manager_of config ns mm"
  shows "\<exists>objs'. mm_load_latest J now mm objs = Inr (mm\<lparr>mm_current := mf_new_empty now ns\<rparr>, objs') \<and> chain_stored J config ns [mf_new_empty now ns] objs'"
proof -
  obtain d where d: "to_json J (mf_new_empty now ns) = Some d" "from_json J d = Some (mf_new_empty now ns)" using assms(1) by (auto simp: json_ok_def)
  have "map_of objs (manifest_path (base_path config) ns 0) = None" using assms(2) by (simp add: chain_stored_def)
  moreover have "fs_list_prefix (manifest_prefix (base_path config) ns) objs = []" using chain_listing [OF assms(2)] by simp
  ultimately have l: "mm_load_latest J now mm objs = Inr (mm\<lparr>mm_current := mf_new_empty now ns\<rparr>, fs_put (manifest_path (base_path config) ns 0) d objs)"
    using assms(3) d(1)
    by (simp add: mm_load_latest_def mm_init_def mm_init_put_def mf_serialize_def manager_paths [OF assms(3)] fs_conditional_put_def fs_put_def manager_of_def Let_def)
  then show ?thesis using chain_stored_put [OF assms(2), of d] d(2) by auto
qed

lemma fresh_epoch:
  assumes "json_ok J" and "chain_stored J config ns [mf_new_empty t ns] objs" and "manager_of config ns mm"
  shows "\<exists>mm' objs' m. acquire_writer_epoch J now mm objs = (Inr 1, mm', objs') \<and> mm_current mm' = m \<and> (\<forall>l. sstables_at_level l m = [])
    \<and> mm_writer_epoch mm' = 1 \<and> mf_writer_epoch m = 1 \<and> mf_last_flushed_sequence m = 0"
proof -
  let ?m0 = "mf_new_empty t ns" and ?p = "manifest_path (base_path config) ns"
  have ch: "manifest_chain ns [?m0] []" by (rule manifest_chain.first)
  have l: "mm_load_latest J now mm objs = Inr (mm\<lparr>mm_current := ?m0\<rparr>, objs)" using chain_load_latest [OF ch assms(2,3)] by simp
  define u where "u = writer_epoch_update ?m0"
  obtain m where m: "mu_apply now u ?m0 = Inr m" using epoch_update_applies unfolding u_def by blast
  have f: "mf_manifest_id m = 1" "\<forall>l. sstables_at_level l m = []" "mf_writer_epoch m = 1" "mf_last_flushed_sequence m = 0" "mu_writer_epoch u = 1"
    using m by (auto simp: u_def mu_apply_def writer_epoch_update_def mf_new_empty_def mid_next_def sstables_at_level_def Let_def)
  obtain d where d: "to_json J m = Some d" using assms(1) by (auto simp: json_ok_def)
  have "?p 1 \<noteq> ?p 0" by simp
  then have free: "map_of objs (?p 1) = None" using assms(2)
    by (cases "map_of objs (?p 1)") (auto simp: chain_stored_def dest!: spec [of _ "?p 1"])
  have "mm_attempt J False now u (mm\<lparr>mm_current := ?m0\<rparr>) objs = Inr (mm\<lparr>mm_current := m\<rparr>, fs_put (?p 1) d objs)"
    using m d free f(1) assms(3) by (simp add: mm_attempt_def mf_serialize_def fs_conditional_put_def fs_put_def mm_path_def manager_of_def)
  then show ?thesis using l f by (simp add: acquire_writer_epoch_def u_def Let_def)
qed

lemma engine_open_fresh:
  assumes J: "json_ok (ev_json ev)" and none: "no_manifest (ec_manifest_config config) (ec_namespace config) objs"
  shows "\<exists>e objs'. engine_open ev config c0 [] objs = (Inr e, objs') \<and> engine_ok ev e ([] # []) (\<lambda>_. [])
    \<and> en_memtable_list e = ml_new (ev_rng ev 0) (ev_now ev 0) (ec_memtable_config config) 1 \<and> en_config e = config \<and> en_next_sequence e = 1
    \<and> en_objects e = objs' \<and> en_block_cache e = c0 \<and> en_levels e = empty_levels
    \<and> en_compaction_scheduler e = ec_compaction_config config \<and> en_tick e = 1 \<and> (\<forall>l. sstables_at_level l (mm_current (en_manifest_manager e)) = [])
    \<and> (\<exists>lg. log_idle (ev_crc ev) (en_wal_manager e) lg \<and> (\<forall>ws. (\<forall>w \<in> set ws. wal_entry_fits w) \<and> length ws < 10 \<longrightarrow> log_room (en_wal_manager e) lg ws))"
proof -
  let ?ns = "ec_namespace config" and ?mc = "ec_manifest_config config" and ?now = "ev_ms ev 0" and ?J = "ev_json ev"
  obtain objs1 where l: "mm_load_latest ?J ?now (mm_new ?now ?ns ?mc) objs = Inr ((mm_new ?now ?ns ?mc)\<lparr>mm_current := mf_new_empty ?now ?ns\<rparr>, objs1)"
    "chain_stored ?J ?mc ?ns [mf_new_empty ?now ?ns] objs1"
    using fresh_init [OF J no_manifest_stored [OF none], of "mm_new ?now ?ns ?mc" ?now] by (auto simp: manager_of_def mm_new_def)
  let ?mm = "(mm_new ?now ?ns ?mc)\<lparr>mm_current := mf_new_empty ?now ?ns\<rparr>"
  obtain mm objs2 m where a: "acquire_writer_epoch ?J ?now ?mm objs1 = (Inr 1, mm, objs2)" "mm_current mm = m" "\<forall>l. sstables_at_level l m = []"
    using fresh_epoch [OF J l(2), of ?mm ?now] by (auto simp: manager_of_def mm_new_def)
  obtain w dir h where w: "ww_open (ev_crc ev) ?now (ec_wal_config config) [] = Inr (w, dir)" "wal_inv (ev_crc ev) dir w [(h, [])]"
    "ww_next_sequence_number w = 1" "sh_segment_number h = 1" "dom (map_of dir) = {sw_path (ww_current_writer w)}" using ww_open_fresh by blast
  let ?wm = "\<lparr>wm_config = ec_wal_config config, wm_gc = gc_init w dir Map.empty, wm_dirty_tracker = dt_new, wm_submitted = None\<rparr>"
  have idle: "log_idle (ev_crc ev) ?wm [(h, [])]" using w(2,5) by (auto simp: log_idle_def gc_init_def durable_ok_def)
  have room: "log_room ?wm [(h, [])] ws" if "\<forall>w \<in> set ws. wal_entry_fits w" "length ws < 10" for ws
    using that w(3,4) by (simp add: log_room_def gc_init_def seg_no_def)
  let ?l = "ml_new (ev_rng ev 0) (ev_now ev 0) (ec_memtable_config config) 1"
  have r: "recover (ev_codecs ev) ?J (ev_crc ev) (ev_node_size ev) (ev_rng ev 0) (ev_now ev 0) ?now (Some []) ?ns
      \<lparr>rc_manifest_config = ?mc, rc_memtable_config = ec_memtable_config config\<rparr> F objs
    = (Inr \<lparr>rr_manifest_manager = ?mm, rr_levels = empty_levels, rr_memtable_list = ?l, rr_next_sequence_number = 1, rr_wal_entries_replayed = 0\<rparr>, objs1)" for F
    by (simp add: recover_def l(1) fresh_levels no_segments Let_def) (simp add: mf_new_empty_def)
  obtain e where e: "engine_open ev config c0 [] objs = (Inr e, objs2)" "en_memtable_list e = ?l" "en_config e = config" "en_next_sequence e = 1"
    "en_objects e = objs2" "en_block_cache e = c0" "en_levels e = empty_levels" "en_manifest_manager e = mm" "fp_namespace (en_flush_pipeline e) = ?ns"
    "en_pinned_metadata e = pn_new (ec_cache_config config)" "en_compaction_scheduler e = ec_compaction_config config" "en_tick e = 1" "en_wal_manager e = ?wm"
    by (simp add: engine_open_def r a(1) wm_open_def w(1) Let_def fp_new_def)
  have "engine_ok ev e ([] # []) (\<lambda>_. [])"
    using a(2,3) ml_built.new [of "ev_rng ev 0" "ev_now ev 0" "ec_memtable_config config" 1]
    by (simp add: engine_ok_def e(2-) store_ok_def all_sstable_ids_def level_all_def level_order_def table_entries_def below_memtables_def empty_levels_def pn_new_def)
  then show ?thesis using e a(2,3) idle room by (intro exI [of _ e] exI [of _ objs2]) auto
qed

end
