(* ===== verification/Manager_Correct.thy ===== *)
theory Manager_Correct
  imports Namespace_Manager Engine_Open
begin

text \<open>
  The manager keeps its namespaces well formed: as many partitions as configured, each under its own number, and a router that
  addresses exactly these; and a record goes to the same partition as long as its namespace exists.
\<close>

section \<open>What partition operations keep\<close>

definition same_identity :: "'c partition \<Rightarrow> 'c partition \<Rightarrow> bool" where
  "same_identity p p' \<longleftrightarrow> pt_partition_id p' = pt_partition_id p \<and> pt_namespace p' = pt_namespace p \<and> pt_wal_dir p' = pt_wal_dir p"

definition keeps_identity :: "('c env \<Rightarrow> ('c, 'a) partition_op) \<Rightarrow> bool" where
  "keeps_identity f \<longleftrightarrow> (\<forall>ev p r p'. f ev p = Some (r, p') \<longrightarrow> same_identity p p')"

lemma keeps_on_engine: "keeps_identity (\<lambda>ev. on_engine (f ev))"
  by (auto simp: keeps_identity_def same_identity_def dest!: on_engine_SomeD)

lemma keeps_guarded: "keeps_identity (\<lambda>ev p. guarded (c p) (on_engine (f ev)) p)"
  by (auto simp: keeps_identity_def same_identity_def guarded_def dest!: on_engine_SomeD split: sum.splits)

lemma keeps_stop: "keeps_identity partition_stop"
  by (auto simp: keeps_identity_def same_identity_def partition_stop_def on_engine_def split: option.splits sum.splits)

lemma keeps_identities:
  "keeps_identity (\<lambda>ev. partition_put ev rid ik val metadata tok)" "keeps_identity (\<lambda>ev. partition_put_batch ev rid items)"
  "keeps_identity (\<lambda>ev. partition_delete ev rid ik)" "keeps_identity (\<lambda>ev. partition_delete_range ev rid sk ek)"
  "keeps_identity (\<lambda>ev. partition_get ev rid ik)" "keeps_identity (\<lambda>ev. partition_scan ev rid s t options)"
  "keeps_identity (\<lambda>ev. partition_multi_get ev rid keys)" "keeps_identity partition_run_maintenance" "keeps_identity partition_maybe_flush"
  unfolding partition_op_defs [abs_def] partition_run_maintenance_def [abs_def] partition_maybe_flush_def [abs_def]
  by (rule keeps_guarded keeps_on_engine)+

section \<open>Well-formed managers\<close>

definition namespace_ok :: "string \<Rightarrow> 'c namespace_state \<Rightarrow> bool" where
  "namespace_ok n st \<longleftrightarrow> nc_name (ns_config st) = n \<and> unat (nc_partition_count (ns_config st)) = length (ns_partitions st)
     \<and> masks (ns_router st) (length (ns_partitions st)) \<and> lr_strategy (ns_router st) = nc_partition_key_strategy (ns_config st)
     \<and> (\<forall>i < length (ns_partitions st). pt_partition_id (ns_partitions st ! i) = of_nat i \<and> pt_namespace (ns_partitions st ! i) = n
          \<and> pt_wal_dir (ns_partitions st ! i) = partition_dir n (of_nat i))"

definition manager_ok :: "'c namespace_manager \<Rightarrow> bool" where
  "manager_ok m \<longleftrightarrow> distinct (map fst (nm_namespaces m)) \<and> (\<forall>n st. map_of (nm_namespaces m) n = Some st \<longrightarrow> namespace_ok n st)"

text \<open>Namespaces that exist before and after keep their router and the number of their partitions.\<close>

definition routers_kept :: "'c namespace_manager \<Rightarrow> 'c namespace_manager \<Rightarrow> bool" where
  "routers_kept m m' \<longleftrightarrow> (\<forall>n st st'. map_of (nm_namespaces m) n = Some st \<and> map_of (nm_namespaces m') n = Some st'
     \<longrightarrow> ns_router st' = ns_router st \<and> length (ns_partitions st') = length (ns_partitions st))"

definition good_step :: "'c namespace_manager \<Rightarrow> 'c namespace_manager \<Rightarrow> bool" where
  "good_step m m' \<longleftrightarrow> (manager_ok m \<longrightarrow> manager_ok m') \<and> routers_kept m m'"

lemma good_step_refl: "good_step m m"
  by (auto simp: good_step_def routers_kept_def)

lemma manager_okI:
  assumes "distinct (map fst (nm_namespaces m'))" and "\<And>n st. map_of (nm_namespaces m') n = Some st \<Longrightarrow> namespace_ok n st"
  shows "manager_ok m'"
  using assms by (simp add: manager_ok_def)

text \<open>The names stay the same while partitions are operated on, which also makes sequences of such steps good.\<close>

definition names_kept :: "'c namespace_manager \<Rightarrow> 'c namespace_manager \<Rightarrow> bool" where
  "names_kept m m' \<longleftrightarrow> dom (map_of (nm_namespaces m')) = dom (map_of (nm_namespaces m))"

lemma put_partition_good:
  assumes st: "map_of (nm_namespaces m) n = Some st" and p: "i < length (ns_partitions st) \<longrightarrow> same_identity (ns_partitions st ! i) p"
  shows "good_step m (put_partition n st i p m)" and "names_kept m (put_partition n st i p m)"
proof -
  have ns: "namespace_ok n (st\<lparr>ns_partitions := (ns_partitions st)[i := p]\<rparr>)" if "namespace_ok n st"
    using that p by (cases "i < length (ns_partitions st)") (auto simp: namespace_ok_def same_identity_def nth_list_update)
  have "manager_ok (put_partition n st i p m)" if "manager_ok m"
  proof (rule manager_okI)
    show "distinct (map fst (nm_namespaces (put_partition n st i p m)))" using that by (simp add: manager_ok_def put_partition_def distinct_update)
    show "namespace_ok n' st'" if "map_of (nm_namespaces (put_partition n st i p m)) n' = Some st'" for n' st'
      using that \<open>manager_ok m\<close> ns st by (auto simp: manager_ok_def put_partition_def update_conv' split: if_splits)
  qed
  then show "good_step m (put_partition n st i p m)"
    using st by (auto simp: good_step_def routers_kept_def put_partition_def update_conv')
  show "names_kept m (put_partition n st i p m)" using st by (auto simp: names_kept_def put_partition_def update_conv')
qed

lemma run_at_good:
  assumes "keeps_identity f" and "run_at sv f n i m = Some (r, m')"
  shows "good_step m m'" and "names_kept m m'"
proof -
  have "good_step m m' \<and> names_kept m m'"
  proof (cases "map_of (nm_namespaces m) n")
    case None
    then show ?thesis using assms(2) by (auto simp: run_at_def good_step_refl names_kept_def)
  next
    case (Some st)
    then obtain p where p: "f (sv_engine sv n (of_nat i)) (with_store (nm_backend m) (ns_partitions st ! i)) = Some (r, p)" "m' = put_partition n st i p m"
      using assms(2) by (auto simp: run_at_def)
    then have "same_identity (ns_partitions st ! i) p" using assms(1) by (fastforce simp: keeps_identity_def same_identity_def with_store_def)
    then show ?thesis using put_partition_good [OF Some] p(2) by blast
  qed
  then show "good_step m m'" and "names_kept m m'" by simp_all
qed

lemma good_step_trans:
  assumes "good_step m m1" and "names_kept m m1" and "good_step m1 m'"
  shows "good_step m m'"
proof -
  have "ns_router st' = ns_router st \<and> length (ns_partitions st') = length (ns_partitions st)"
    if a: "map_of (nm_namespaces m) n = Some st" "map_of (nm_namespaces m') n = Some st'" for n st st'
  proof -
    obtain st1 where "map_of (nm_namespaces m1) n = Some st1" using a(1) assms(2) unfolding names_kept_def by blast
    then show ?thesis using a assms(1,3) by (fastforce simp: good_step_def routers_kept_def)
  qed
  then show ?thesis using assms(1,3) by (auto simp: good_step_def routers_kept_def)
qed

lemma run_each_good:
  assumes "keeps_identity f"
  shows "run_each sv f xs m = Some (r, m') \<Longrightarrow> good_step m m' \<and> names_kept m m'"
proof (induction xs arbitrary: m)
  case Nil
  then show ?case by (simp add: good_step_refl names_kept_def)
next
  case (Cons x rest)
  obtain namespace i where x: "x = (namespace, i)" by force
  then obtain r1 m1 where s: "run_at sv f namespace i m = Some (r1, m1)" using Cons.prems by (auto split: option.splits)
  note g = run_at_good [OF assms s]
  show ?case
  proof (cases r1)
    case (Inl err)
    then show ?thesis using Cons.prems s g x by simp
  next
    case (Inr y)
    then have "good_step m1 m' \<and> names_kept m1 m'" using Cons s x by simp
    then show ?thesis using g good_step_trans [OF g] by (simp add: names_kept_def)
  qed
qed

section \<open>Creating, updating and deleting namespaces\<close>

definition opened_as :: "string \<Rightarrow> nat \<Rightarrow> 'c partition \<Rightarrow> bool" where
  "opened_as n i p \<longleftrightarrow> pt_partition_id p = of_nat i \<and> pt_namespace p = n \<and> pt_wal_dir p = partition_dir n (of_nat i)"

lemma partition_open_as:
  assumes "partition_open ev bits c0 now dir (of_nat i) n config objs = Some (Inr p, objs')"
  shows "opened_as n i p"
  using assms by (auto simp: partition_open_def opened_as_def split: option.splits sum.splits prod.splits)

lemma open_partitions_as:
  "open_partitions sv config is dirs objs = Some (Inr ps, dirs', objs') \<Longrightarrow> list_all2 (opened_as (nc_name config)) is ps"
proof (induction "is" arbitrary: ps dirs objs)
  case (Cons i "is")
  then obtain p objs1 ps1 where "ps = p # ps1"
    "partition_open (sv_engine sv (nc_name config) (of_nat i)) (sv_bits sv) (sv_cache sv) (sv_now sv) (dirs (partition_dir (nc_name config) (of_nat i)))
      (of_nat i) (nc_name config) config objs = Some (Inr p, objs1)"
    "open_partitions sv config is (dirs(partition_dir (nc_name config) (of_nat i) := engine_dir (pt_engine p))) objs1 = Some (Inr ps1, dirs', objs')"
    by (auto simp: Let_def split: option.splits sum.splits prod.splits)
  then show ?case using Cons.IH partition_open_as by auto
qed simp

lemma created_ok:
  assumes "nc_validate config = Inr ()" and "list_all2 (opened_as (nc_name config)) [0..<unat (nc_partition_count config)] ps"
  shows "namespace_ok (nc_name config) \<lparr>ns_config = config, ns_router = router_new config, ns_partitions = ps\<rparr>"
  using assms(2) router_new_masks [OF assms(1)] by (auto simp: namespace_ok_def list_all2_conv_all_nth opened_as_def) (simp add: router_new_def)

lemma create_good:
  assumes "create_namespace sv config m = Some (r, m')"
  shows "good_step m m'"
proof (cases "nm_namespaces m' = nm_namespaces m")
  case True
  then show ?thesis by (auto simp: good_step_def manager_ok_def routers_kept_def)
next
  case False
  then obtain ps dirs objs where c: "nc_validate config = Inr ()" "map_of (nm_namespaces m) (nc_name config) = None"
    "open_partitions sv config [0..<unat (nc_partition_count config)] (nm_dirs m) (nm_backend m) = Some (Inr ps, dirs, objs)"
    "nm_namespaces m' = AList.update (nc_name config) \<lparr>ns_config = config, ns_router = router_new config, ns_partitions = ps\<rparr> (nm_namespaces m)"
    using assms by (auto simp: create_namespace_def Let_def split: sum.splits option.splits prod.splits if_splits)
  note ok = created_ok [OF c(1) open_partitions_as [OF c(3)]]
  have "manager_ok m'" if "manager_ok m"
  proof (rule manager_okI)
    show "distinct (map fst (nm_namespaces m'))" using that by (simp add: manager_ok_def c(4) distinct_update)
    show "namespace_ok n st" if "map_of (nm_namespaces m') n = Some st" for n st
      using that \<open>manager_ok m\<close> ok by (auto simp: manager_ok_def c(4) update_conv' split: if_splits)
  qed
  moreover have "routers_kept m m'" using c(2) by (auto simp: routers_kept_def c(4) update_conv' split: if_splits)
  ultimately show ?thesis by (simp add: good_step_def)
qed

lemma update_good:
  assumes "update_namespace_config config m = Some (r, m')"
  shows "good_step m m'"
proof (cases "nm_namespaces m' = nm_namespaces m")
  case True
  then show ?thesis by (auto simp: good_step_def manager_ok_def routers_kept_def)
next
  case False
  then obtain st where c: "map_of (nm_namespaces m) (nc_name config) = Some st" "nc_can_update_from (ns_config st) config = Inr ()"
    "nm_namespaces m' = AList.update (nc_name config) (st\<lparr>ns_config := config\<rparr>) (nm_namespaces m)"
    using assms by (auto simp: update_namespace_config_def split: sum.splits option.splits)
  have ok: "namespace_ok (nc_name config) (st\<lparr>ns_config := config\<rparr>)" if "namespace_ok (nc_name config) st"
    using that c(2) by (auto simp: namespace_ok_def nc_can_update_from_def split: if_splits)
  have "manager_ok m'" if "manager_ok m"
  proof (rule manager_okI)
    show "distinct (map fst (nm_namespaces m'))" using that by (simp add: manager_ok_def c(3) distinct_update)
    show "namespace_ok n st'" if "map_of (nm_namespaces m') n = Some st'" for n st'
      using that \<open>manager_ok m\<close> ok c(1) by (auto simp: manager_ok_def c(3) update_conv' split: if_splits)
  qed
  moreover have "routers_kept m m'" using c(1) by (auto simp: routers_kept_def c(3) update_conv' split: if_splits)
  ultimately show ?thesis by (simp add: good_step_def)
qed

lemma delete_good:
  assumes "delete_namespace sv n m = Some (r, m')"
  shows "good_step m m'"
proof (cases "map_of (nm_namespaces m) n")
  case None
  then show ?thesis using assms by (simp add: delete_namespace_def good_step_refl)
next
  case (Some st)
  then obtain r1 m1 where s: "run_each sv partition_stop (map (Pair n) [0..<length (ns_partitions st)]) m = Some (r1, m1)"
    using assms by (auto simp: delete_namespace_def split: option.splits)
  note g = run_each_good [OF keeps_stop s]
  show ?thesis
  proof (cases r1)
    case (Inl err)
    then show ?thesis using assms Some s g by (simp add: delete_namespace_def)
  next
    case (Inr u)
    then have m': "m' = m1\<lparr>nm_namespaces := AList.delete n (nm_namespaces m1)\<rparr>" using assms Some s by (simp add: delete_namespace_def)
    have "good_step m1 m'" unfolding m'
      by (auto simp: good_step_def manager_ok_def routers_kept_def distinct_delete delete_conv' split: if_splits)
    then show ?thesis using good_step_trans g by blast
  qed
qed

section \<open>Reachable managers\<close>

inductive nm_step :: "'c server_env \<Rightarrow> 'c namespace_manager \<Rightarrow> 'c namespace_manager \<Rightarrow> bool" for sv where
  create: "create_namespace sv config m = Some (u, m') \<Longrightarrow> nm_step sv m m'"
| update: "update_namespace_config config m = Some (u, m') \<Longrightarrow> nm_step sv m m'"
| remove: "delete_namespace sv n m = Some (u, m') \<Longrightarrow> nm_step sv m m'"
| put: "nm_put sv n rid ik val metadata tok m = Some (w, m') \<Longrightarrow> nm_step sv m m'"
| put_batch: "nm_put_batch sv n rid items m = Some (k, m') \<Longrightarrow> nm_step sv m m'"
| delete: "nm_delete sv n rid ik m = Some (w, m') \<Longrightarrow> nm_step sv m m'"
| delete_range: "nm_delete_range sv n rid sk ek m = Some (w, m') \<Longrightarrow> nm_step sv m m'"
| get: "nm_get sv n rid ik m = Some (g, m') \<Longrightarrow> nm_step sv m m'"
| scan: "nm_scan sv n rid s t options m = Some (rr, m') \<Longrightarrow> nm_step sv m m'"
| multi_get: "nm_multi_get sv n rid keys m = Some (gs, m') \<Longrightarrow> nm_step sv m m'"
| maintenance: "nm_run_maintenance sv m = Some (u, m') \<Longrightarrow> nm_step sv m m'"
| flush_all: "nm_flush_all sv m = Some (u, m') \<Longrightarrow> nm_step sv m m'"
| stop_all: "nm_stop_all sv m = Some (u, m') \<Longrightarrow> nm_step sv m m'"
| version: "nm_next_version clock m = Some (v, m') \<Longrightarrow> nm_step sv m m'"

inductive nm_reachable :: "'c server_env \<Rightarrow> 'c namespace_manager \<Rightarrow> bool" for sv where
  init: "nm_reachable sv (nm_new backend dirs g)"
| step: "nm_reachable sv m \<Longrightarrow> nm_step sv m m' \<Longrightarrow> nm_reachable sv m'"

lemma dispatch_good:
  assumes "keeps_identity f" and "dispatch sv n rid f m = Some (r, m')"
  shows "good_step m m'"
  using assms(2) run_at_good(1) [OF assms(1)] by (auto simp: dispatch_def good_step_refl split: option.splits sum.splits)

lemmas nm_op_defs = nm_put_def nm_put_batch_def nm_delete_def nm_delete_range_def nm_get_def nm_scan_def nm_multi_get_def

lemma nm_step_good: "nm_step sv m m' \<Longrightarrow> good_step m m'"
proof (induction rule: nm_step.induct)
  case (version clock m v m')
  then have "nm_namespaces m' = nm_namespaces m" by (auto simp: nm_next_version_def split: prod.splits option.splits)
  then show ?case by (auto simp: good_step_def manager_ok_def routers_kept_def)
next
  case (maintenance m u m')
  then show ?case using run_each_good [OF keeps_identities(8), of sv "all_partitions m" m u m'] by (simp add: nm_run_maintenance_def)
next
  case (flush_all m u m')
  then show ?case using run_each_good [OF keeps_identities(9), of sv "all_partitions m" m u m'] by (simp add: nm_flush_all_def)
next
  case (stop_all m u m')
  then show ?case using run_each_good [OF keeps_stop, of sv "all_partitions m" m u m'] by (simp add: nm_stop_all_def)
qed (auto simp: nm_op_defs intro: create_good update_good delete_good dispatch_good [OF keeps_identities(1)] dispatch_good [OF keeps_identities(2)]
  dispatch_good [OF keeps_identities(3)] dispatch_good [OF keeps_identities(4)] dispatch_good [OF keeps_identities(5)]
  dispatch_good [OF keeps_identities(6)] dispatch_good [OF keeps_identities(7)])

lemma reachable_ok: "nm_reachable sv m \<Longrightarrow> manager_ok m"
proof (induction rule: nm_reachable.induct)
  case (init backend dirs g)
  then show ?case by (simp add: manager_ok_def nm_new_def)
next
  case (step m m')
  then show ?case using nm_step_good by (auto simp: good_step_def)
qed

lemma resolve_found:
  assumes "namespace_ok n st" and "map_of (nm_namespaces m) n = Some st"
  shows "resolve_partition sv n rid m = map_option (map_sum id unat) (route (sv_crc sv) (sv_fnv sv) (ns_router st) rid)"
proof -
  have "unat p < length (ns_partitions st)" if "route (sv_crc sv) (sv_fnv sv) (ns_router st) rid = Some (Inr p)" for p
    using lr.partition_found(2) [OF _ that, of "ns_partitions st"] assms(1) by (simp add: namespace_ok_def)
  then show ?thesis using assms(2) by (simp add: resolve_partition_def split: option.splits sum.splits)
qed

text \<open>C15: every record has one partition. In every state of a manager reached by its operations, resolving a record of an existing
  namespace gives what the router gives and never an index out of bounds; the partition found is open under that number, namespace and
  directory; and no single operation, failed ones and changes of the configuration included, moves a record of a namespace
  that still exists to another partition.\<close>
theorem routing_stable:
  assumes "nm_reachable sv m" and "map_of (nm_namespaces m) n = Some st"
  shows "resolve_partition sv n rid m = map_option (map_sum id unat) (route (sv_crc sv) (sv_fnv sv) (ns_router st) rid)
    \<and> (\<forall>i. resolve_partition sv n rid m = Some (Inr i) \<longrightarrow> i < length (ns_partitions st)
         \<and> pt_partition_id (ns_partitions st ! i) = of_nat i \<and> pt_namespace (ns_partitions st ! i) = n
         \<and> pt_wal_dir (ns_partitions st ! i) = partition_dir n (of_nat i))
    \<and> (\<forall>m'. nm_step sv m m' \<and> namespace_exists n m' \<longrightarrow> resolve_partition sv n rid m' = resolve_partition sv n rid m)"
proof -
  have ok: "namespace_ok n st" using reachable_ok [OF assms(1)] assms(2) by (simp add: manager_ok_def)
  note r = resolve_found [OF ok assms(2)]
  have "i < length (ns_partitions st)" if "resolve_partition sv n rid m = Some (Inr i)" for i
    using that assms(2) by (auto simp: resolve_partition_def split: option.splits sum.splits if_splits)
  then have "\<forall>i. resolve_partition sv n rid m = Some (Inr i) \<longrightarrow> i < length (ns_partitions st) \<and> opened_as n i (ns_partitions st ! i)"
    using ok by (auto simp: namespace_ok_def opened_as_def)
  moreover have "resolve_partition sv n rid m' = resolve_partition sv n rid m" if s: "nm_step sv m m'" and e: "namespace_exists n m'" for m'
  proof -
    obtain st' where st': "map_of (nm_namespaces m') n = Some st'" using e by (auto simp: namespace_exists_def)
    have "namespace_ok n st'" using reachable_ok [OF nm_reachable.step [OF assms(1) s]] st' by (simp add: manager_ok_def)
    moreover have "ns_router st' = ns_router st" using nm_step_good [OF s] assms(2) st' by (auto simp: good_step_def routers_kept_def)
    ultimately show ?thesis using resolve_found [OF _ st'] r by simp
  qed
  ultimately show ?thesis using r by (simp add: opened_as_def)
qed

section \<open>A server with one namespace\<close>

definition sample_server :: "(block_cache_key \<Rightarrow> cached_block option) server_env" where
  "sample_server = \<lparr>sv_engine = (\<lambda>_ _. sample_env), sv_crc = (\<lambda>_. 0), sv_fnv = (\<lambda>_. 0), sv_bits = (\<lambda>_. 10), sv_cache = Map.empty, sv_now = 0\<rparr>"

definition sample_config :: namespace_config where
  "sample_config = projr (nc_new ''ns'' 1)"

lemma sample_config_valid: "nc_validate sample_config = Inr ()" "nc_name sample_config = ''ns''" "nc_partition_count sample_config = 1"
    "nc_partition_key_strategy sample_config = Simple" "nc_default_page_size_bytes sample_config = 2097152"
    "nc_engine_config b sample_config = Some
       \<lparr>ec_memtable_config = memtable_config_default\<lparr>size_threshold := 67108864\<rparr>,
        ec_wal_config = wal_config_default\<lparr>cfg_fsync_mode := Sync, group_commit_interval := 200, batch_sync_interval := 10000\<rparr>,
        ec_flush_config = flush_config_default\<lparr>fc_sst_config := sst_config_default\<lparr>bloom_bits_per_key := b (Finite (1 / 100))\<rparr>\<rparr>,
        ec_compaction_config = compaction_config_default, ec_manifest_config = manifest_config_default\<lparr>base_path := ''flushdb/ns''\<rparr>,
        ec_cache_config = cache_config_default, ec_namespace = ''ns''\<rparr>"
  by (simp_all add: sample_config_def nc_new_def nc_with_strategy_def nc_validate_def is_power_of_two_def upt_conv_Cons default_bloom_fp_def
      parse_fsync_mode_def validate_strategy_def nc_engine_config_def default_s3_path_prefix_def)

lemma sample_created:
  "\<exists>m' p. create_namespace sample_server sample_config (nm_new [] (\<lambda>_. []) g) = Some (Inr (), m')
     \<and> map_of (nm_namespaces m') ''ns'' = Some \<lparr>ns_config = sample_config, ns_router = router_new sample_config, ns_partitions = [p]\<rparr>
     \<and> pt_state p = Active \<and> engine_ok sample_env (pt_engine p) ([] # []) (\<lambda>_. []) \<and> en_objects (pt_engine p) = nm_backend m'
     \<and> en_memtable_list (pt_engine p) = ml_new (\<lambda>_. 1) 0 (memtable_config_default\<lparr>size_threshold := 67108864\<rparr>) 1
     \<and> en_next_sequence (pt_engine p) = 1 \<and> en_block_cache (pt_engine p) = Map.empty \<and> en_levels (pt_engine p) = empty_levels \<and> nm_version_gen m' = g
     \<and> en_config (pt_engine p) = (the (nc_engine_config (\<lambda>_. 10) sample_config))\<lparr>ec_namespace := ''partition-'' @ pad0 4 0\<rparr>
     \<and> check_write_stall (pt_engine p) = Some (Inr (), pt_engine p)
     \<and> (\<exists>lg. log_idle (\<lambda>_. 0) (en_wal_manager (pt_engine p)) lg
           \<and> (\<forall>ws. (\<forall>w \<in> set ws. wal_entry_fits w) \<and> length ws < 10 \<longrightarrow> log_room (en_wal_manager (pt_engine p)) lg ws))"
proof -
  let ?ec = "(the (nc_engine_config (\<lambda>_. 10) sample_config))\<lparr>ec_namespace := ''partition-'' @ pad0 4 0\<rparr>"
  obtain e objs where e: "engine_open sample_env ?ec Map.empty [] [] = (Inr e, objs)" "engine_ok sample_env e ([] # []) (\<lambda>_. [])"
    "en_memtable_list e = ml_new (\<lambda>_. 1) 0 (memtable_config_default\<lparr>size_threshold := 67108864\<rparr>) 1" "en_next_sequence e = 1" "en_objects e = objs"
    "en_block_cache e = Map.empty" "en_levels e = empty_levels" "en_config e = ?ec" "en_compaction_scheduler e = compaction_config_default"
    "\<forall>l. sstables_at_level l (mm_current (en_manifest_manager e)) = []"
    "\<exists>lg. log_idle (\<lambda>_. 0) (en_wal_manager e) lg \<and> (\<forall>ws. (\<forall>w \<in> set ws. wal_entry_fits w) \<and> length ws < 10 \<longrightarrow> log_room (en_wal_manager e) lg ws)"
    using engine_open_fresh [of sample_env ?ec "[]" Map.empty] sample_json_ok by (auto simp: sample_env_def no_manifest_def sample_config_valid(6))
  have "\<not> ml_is_memory_backpressured (en_memtable_list e)"
    by (simp add: e(3) ml_is_memory_backpressured_def ml_total_memory_usage_def ml_new_def mt_new_def mt_approximate_memory_usage_def sl_new_def sl_with_arena_def
        arena_new_def arena_with_block_size_def memtable_config_default_def Let_def)
  then have stall: "check_write_stall e = Some (Inr (), e)"
    using e(9,10) by (simp add: check_write_stall_def engine_write_stall_status_def sched_write_stall_status_def l0_count_def compaction_config_default_def eret_def)
  let ?p = "\<lparr>pt_partition_id = 0, pt_namespace = ''ns'', pt_engine = e, pt_state = Active, pt_wal_dir = partition_dir ''ns'' 0, pt_created_at = 0\<rparr>"
  have p: "partition_open sample_env (\<lambda>_. 10) Map.empty 0 [] 0 ''ns'' sample_config [] = Some (Inr ?p, objs)"
    using e(1) by (simp add: partition_open_def sample_config_valid(6))
  have "open_partitions sample_server sample_config [0] (\<lambda>_. []) [] = Some (Inr [?p], (\<lambda>_. [])(partition_dir ''ns'' 0 := engine_dir e), objs)"
    using p by (simp add: sample_server_def sample_config_valid(2))
  then show ?thesis using e(2-8,11) stall
    by (simp add: create_namespace_def sample_config_valid(1-3) nm_new_def)
qed

theorem routing_stable_witness:
  "\<exists>m. nm_reachable sample_server m \<and> namespace_exists ''ns'' m \<and> resolve_partition sample_server ''ns'' ''a'' m = Some (Inr 0)"
proof -
  let ?m = "nm_new [] (\<lambda>_. []) (vg_new 1) :: (block_cache_key \<Rightarrow> cached_block option) namespace_manager"
  obtain m' p where c: "create_namespace sample_server sample_config ?m = Some (Inr (), m')"
    "map_of (nm_namespaces m') ''ns'' = Some \<lparr>ns_config = sample_config, ns_router = router_new sample_config, ns_partitions = [p]\<rparr>"
    using sample_created [of "vg_new 1"] by blast
  have r: "nm_reachable sample_server m'" by (rule nm_reachable.step [OF nm_reachable.init nm_step.create [OF c(1)]])
  have "resolve_partition sample_server ''ns'' ''a'' m' = Some (Inr 0)"
    using routing_stable [OF r c(2), of "''a''"] by (simp add: route_def router_new_def sample_config_valid sample_server_def)
  then show ?thesis using r c(2) by (auto simp: namespace_exists_def)
qed

end
