(* ===== verification/Conversions.thy ===== *)
theory Conversions
  imports Namespace_Config
begin

text \<open>
  \<^verbatim>\<open>conversions.rs\<close> and the messages of \<^verbatim>\<open>flushdb.proto\<close>: what the request handlers accept, how it becomes engine arguments, and how
  engine results and errors become responses.
\<close>

section \<open>Messages\<close>

record proto_idempotency_token =
  pit_generation_time :: u64
  pit_token :: bytes

record proto_ordered_key =
  pok_timestamp_ms :: u64
  pok_node_id :: u32
  pok_sequence :: u32

record proto_item =
  pi_key :: bytes
  pi_value :: bytes
  pi_metadata :: bytes
  pi_chunk :: u32

record proto_match_range =
  mr_start_key :: bytes
  mr_end_key :: bytes
  mr_start_inclusive :: bool
  mr_end_inclusive :: bool

datatype proto_predicate = ProtoMatchKeys "bytes list" | ProtoMatchRange proto_match_range | ProtoMatchAll bool

record proto_selection =
  sel_page_size_bytes :: u32
  sel_item_limit :: u32
  sel_exclude_values :: bool
  sel_page_token :: bytes

datatype parsed_predicate =
    MatchKeys "bytes list"
  | MatchRange (range_start: "bytes option") (range_end: "bytes option") bool bool
  | MatchAll

section \<open>Tokens and versions\<close>

definition proto_to_idempotency_token :: "proto_idempotency_token option \<Rightarrow> idempotency_token flush_result" where
  "proto_to_idempotency_token proto =
     (case proto of
        None \<Rightarrow> Inr token_none
      | Some tok \<Rightarrow>
          if pit_generation_time tok = 0 \<and> pit_token tok = [] then Inr token_none
          else if length (pit_token tok) \<noteq> 16 then Inl (InvalidArgument ''idempotency token must be exactly 16 bytes'')
          else Inr (token_from_parts (pit_generation_time tok) (pit_token tok)))"

definition idempotency_token_to_proto :: "idempotency_token \<Rightarrow> proto_idempotency_token" where
  "idempotency_token_to_proto t = \<lparr>pit_generation_time = generation_time t, pit_token = token_bytes t\<rparr>"

definition ordered_key_to_proto :: "ordered_key \<Rightarrow> proto_ordered_key" where
  "ordered_key_to_proto k = \<lparr>pok_timestamp_ms = timestamp_ms k, pok_node_id = ucast (ok_node_id k), pok_sequence = ucast (ok_sequence k)\<rparr>"

definition proto_to_ordered_key :: "proto_ordered_key \<Rightarrow> ordered_key flush_result" where
  "proto_to_ordered_key p =
     (if pok_node_id p > 65535 then Inl (InvalidArgument ''node_id exceeds u16 maximum of 65535'')
      else if pok_sequence p > 65535 then Inl (InvalidArgument ''sequence exceeds u16 maximum of 65535'')
      else Inr (OrderedKey (pok_timestamp_ms p) (ucast (pok_node_id p)) (ucast (pok_sequence p))))"

section \<open>Predicates and selections\<close>

text \<open>The outer option is the message, the inner one its alternative.\<close>

definition parse_predicate :: "proto_predicate option option \<Rightarrow> parsed_predicate flush_result" where
  "parse_predicate predicate =
     (case predicate of
        None \<Rightarrow> Inl (InvalidArgument ''must specify a predicate'')
      | Some None \<Rightarrow> Inl (InvalidArgument ''must specify a predicate'')
      | Some (Some (ProtoMatchKeys keys)) \<Rightarrow>
          if keys = [] then Inl (InvalidArgument ''match_keys.keys: must specify at least one key'') else Inr (MatchKeys keys)
      | Some (Some (ProtoMatchRange mr)) \<Rightarrow>
          if mr_start_key mr \<noteq> [] \<and> mr_end_key mr \<noteq> [] \<and> mr_start_key mr > mr_end_key mr
          then Inl (InvalidArgument ''match_range: start_key must be <= end_key'')
          else Inr (MatchRange
            (if mr_start_key mr = [] then None
             else if mr_start_inclusive mr then Some (mr_start_key mr) else Some (mr_start_key mr @ [0]))
            (if mr_end_key mr = [] then None
             else if mr_end_inclusive mr then Some (mr_end_key mr @ [0]) else Some (mr_end_key mr))
            True False)
      | Some (Some (ProtoMatchAll _)) \<Rightarrow> Inr MatchAll)"

definition parse_selection :: "proto_selection option \<Rightarrow> namespace_config \<Rightarrow> (range_read_options \<times> bool) flush_result" where
  "parse_selection selection config =
     (case selection of
        None \<Rightarrow> Inr (\<lparr>page_size_bytes = unat (nc_default_page_size_bytes config), item_limit = None, resume_from = None\<rparr>, False)
      | Some sel \<Rightarrow>
          (let page_size = (if sel_page_size_bytes sel = 0 then unat (nc_default_page_size_bytes config)
                            else min (unat (sel_page_size_bytes sel)) (unat (nc_max_page_size_bytes config)));
               limit = (if sel_item_limit sel = 0 then None else Some (unat (sel_item_limit sel)))
           in bind_res (if sel_page_token sel = [] then Inr None else bind_res (pt_decode (sel_page_token sel)) (\<lambda>t. Inr (Some t))) (\<lambda>resume.
              Inr (\<lparr>page_size_bytes = page_size, item_limit = limit, resume_from = resume\<rparr>, sel_exclude_values sel))))"

section \<open>Results\<close>

definition get_result_to_proto_item :: "get_result \<Rightarrow> proto_item" where
  "get_result_to_proto_item r = \<lparr>pi_key = item_key (gr_key r), pi_value = gr_value r, pi_metadata = gr_metadata r, pi_chunk = 0\<rparr>"

definition merge_entry_to_proto_item :: "merge_entry \<Rightarrow> proto_item" where
  "merge_entry_to_proto_item e = \<lparr>pi_key = item_key (mg_composite_key e), pi_value = mg_value e, pi_metadata = mg_metadata e, pi_chunk = 0\<rparr>"

definition blank_values :: "bool \<Rightarrow> proto_item list \<Rightarrow> proto_item list" where
  "blank_values exclude items = (if exclude then map (\<lambda>i. i\<lparr>pi_value := []\<rparr>) items else items)"

definition format_get_response :: "get_result option list \<Rightarrow> bool \<Rightarrow> proto_item list" where
  "format_get_response results exclude_values =
     blank_values exclude_values (map get_result_to_proto_item (concat (map (\<lambda>r. case r of None \<Rightarrow> [] | Some g \<Rightarrow> [g]) results)))"

definition format_scan_response :: "range_read_result \<Rightarrow> bool \<Rightarrow> proto_item list \<times> bytes" where
  "format_scan_response result exclude_values =
     (blank_values exclude_values (map merge_entry_to_proto_item (filter mg_is_put (rr_entries result))),
      case rr_next_page_token result of Some token \<Rightarrow> pt_encode token | None \<Rightarrow> [])"

section \<open>Errors\<close>

datatype status_code = InvalidArgumentCode | NotFoundCode | AlreadyExists | FailedPrecondition | ResourceExhaustedCode | Aborted | Internal

text \<open>The message of a status is the text of the error.\<close>

type_synonym status = "status_code \<times> flush_error"

definition flush_error_to_status :: "flush_error \<Rightarrow> status" where
  "flush_error_to_status err =
     ((case err of
         NotFound _ \<Rightarrow> NotFoundCode
       | InvalidKey _ \<Rightarrow> InvalidArgumentCode
       | KeyTooLong _ _ _ \<Rightarrow> InvalidArgumentCode
       | InvalidArgument _ \<Rightarrow> InvalidArgumentCode
       | DuplicateToken _ \<Rightarrow> AlreadyExists
       | PreconditionFailed _ \<Rightarrow> FailedPrecondition
       | ResourceExhausted _ _ \<Rightarrow> ResourceExhaustedCode
       | EpochFenced _ _ \<Rightarrow> Aborted
       | CorruptedData _ \<Rightarrow> Internal
       | CrcMismatch _ _ \<Rightarrow> Internal
       | Io _ \<Rightarrow> Internal), err)"

section \<open>Validation of requests\<close>

definition validate_namespace :: "string \<Rightarrow> unit flush_result" where
  "validate_namespace namespace = (if namespace = [] then Inl (InvalidArgument ''namespace: must not be empty'') else Inr ())"

definition validate_request_id :: "string \<Rightarrow> unit flush_result" where
  "validate_request_id rid =
     (if rid = [] then Inl (InvalidArgument ''record_id: must not be empty'')
      else if CHR 0x00 \<in> set rid then Inl (InvalidArgument ''record_id: must not contain null bytes'')
      else if length rid > MAX_RECORD_ID_LEN then Inl (InvalidArgument ''record_id: length exceeds maximum'')
      else Inr ())"

fun validate_item_lengths :: "proto_item list \<Rightarrow> unit flush_result" where
  "validate_item_lengths [] = Inr ()"
| "validate_item_lengths (i # is) =
     (if length (pi_key i) > MAX_ITEM_KEY_LEN then Inl (InvalidArgument ''item key length exceeds maximum'') else validate_item_lengths is)"

definition validate_items :: "proto_item list \<Rightarrow> unit flush_result" where
  "validate_items items = (if items = [] then Inl (InvalidArgument ''items: must not be empty'') else validate_item_lengths items)"

section \<open>Canonical ranges\<close>

text \<open>The keys a range predicate asks for, and those of the half-open range handed to the engine.\<close>

definition asked_for :: "proto_match_range \<Rightarrow> bytes \<Rightarrow> bool" where
  "asked_for mr k \<longleftrightarrow>
     (mr_start_key mr = [] \<or> mr_start_key mr < k \<or> mr_start_inclusive mr \<and> mr_start_key mr = k)
   \<and> (mr_end_key mr = [] \<or> k < mr_end_key mr \<or> mr_end_inclusive mr \<and> k = mr_end_key mr)"

definition in_bounds :: "bytes option \<Rightarrow> bytes option \<Rightarrow> bytes \<Rightarrow> bool" where
  "in_bounds start stop k \<longleftrightarrow> (case start of None \<Rightarrow> True | Some s \<Rightarrow> s \<le> k) \<and> (case stop of None \<Rightarrow> True | Some t \<Rightarrow> k < t)"

text \<open>Appending a zero byte gives the least string above.\<close>

lemma less_snoc_zero: "k < s @ [0 :: u8] \<longleftrightarrow> k \<le> s"
proof (induction s arbitrary: k)
  case Nil
  then show ?case by (cases k) auto
next
  case (Cons b s)
  then show ?case by (cases k) (auto simp: list_le_def)
qed

lemma snoc_zero_le: "s @ [0 :: u8] \<le> k \<longleftrightarrow> s < k"
  using less_snoc_zero [of k s] by (simp add: not_less [symmetric] linorder_not_le)

lemma parse_range_exact:
  assumes "parse_predicate (Some (Some (ProtoMatchRange mr))) = Inr (MatchRange start stop si ei)"
  shows "in_bounds start stop k \<longleftrightarrow> asked_for mr k"
  using assms by (auto simp: parse_predicate_def in_bounds_def asked_for_def less_snoc_zero snoc_zero_le split: if_splits)

lemma parse_range_ok:
  "(\<exists>p. parse_predicate (Some (Some (ProtoMatchRange mr))) = Inr p)
     \<longleftrightarrow> mr_start_key mr = [] \<or> mr_end_key mr = [] \<or> mr_start_key mr \<le> mr_end_key mr"
  by (auto simp: parse_predicate_def not_less)

section \<open>Round trips\<close>

lemma ordered_key_proto_roundtrip: "proto_to_ordered_key (ordered_key_to_proto k) = Inr k"
proof -
  have "unat w < 65536" for w :: u16 using unsigned_less [of w] by simp
  then have "unat (ok_node_id k) \<le> 65535" "unat (ok_sequence k) \<le> 65535" by (simp_all add: less_Suc_eq_le [symmetric])
  then have "\<not> (ucast (ok_node_id k) :: u32) > 65535" "\<not> (ucast (ok_sequence k) :: u32) > 65535"
    by (simp_all add: word_less_nat_alt unsigned_ucast_eq take_bit_nat_eq_self)
  moreover have "ucast (ucast w :: u32) = w" for w :: u16
    by (rule bit_word_eqI) (auto simp: bit_ucast_iff)
  ultimately show ?thesis by (simp add: proto_to_ordered_key_def ordered_key_to_proto_def)
qed

lemma token_proto_roundtrip:
  assumes "token_ok t"
  shows "proto_to_idempotency_token (Some (idempotency_token_to_proto t)) = Inr t"
proof -
  obtain d where t: "t = IdempotencyToken d" by (cases t)
  then have d: "length d = 24" using assms by (simp add: token_ok_def IDEMPOTENCY_TOKEN_SIZE_def)
  then have l: "length (drop 8 d) = 16" "length (take 8 d) = 8" by simp_all
  have "to_be_bytes 8 (from_be_bytes (take 8 d) :: u64) = take 8 d"
    using l(2) by (simp add: to_be_bytes_def from_be_bytes_def to_from_le_bytes)
  then show ?thesis using l t
    by (auto simp: proto_to_idempotency_token_def idempotency_token_to_proto_def generation_time_def token_bytes_def token_from_parts_def
        GENERATION_TIME_SIZE_def)
qed

end
