(* ===== verification/Engine_Batch.thy ===== *)
theory Engine_Batch
  imports Engine_Correct
begin

text \<open>
  \<^verbatim>\<open>Engine::put_batch\<close>, the write path of the server: which items of a batch are written, under which sequence numbers, and what is
  read afterwards when the batch does not fill the memtable.
\<close>

section \<open>The items of a batch that count\<close>

text \<open>An item is dropped when its token is one of \<open>D\<close> or occurred earlier in the batch.\<close>

fun accepted :: "idempotency_token set \<Rightarrow> put_batch_item list \<Rightarrow> put_batch_item list" where
  "accepted D [] = []"
| "accepted D (item # items) =
     (let t = pb_idempotency_token item
      in if token_is_none t then item # accepted D items
         else if t \<in> D then accepted D items
         else item # accepted (insert t D) items)"

fun batch_rows :: "bytes \<Rightarrow> u64 \<Rightarrow> put_batch_item list \<Rightarrow> memtable_entry list" where
  "batch_rows rid n [] = []"
| "batch_rows rid n (item # items) =
     me_with_sequence (CompositeKey (rid @ SEPARATOR # pb_item_key item)) (pb_value item) (pb_metadata item) (pb_idempotency_token item) n Put
       # batch_rows rid (n + 1) items"

lemma length_batch_rows [simp]: "length (batch_rows rid n items) = length items"
  by (induction items arbitrary: n) auto

lemma batch_rows_nth:
  "j < length items \<Longrightarrow> batch_rows rid n items ! j =
     me_with_sequence (CompositeKey (rid @ SEPARATOR # pb_item_key (items ! j))) (pb_value (items ! j)) (pb_metadata (items ! j))
       (pb_idempotency_token (items ! j)) (n + of_nat j) Put"
proof (induction items arbitrary: n j)
  case (Cons i "is")
  then show ?case by (cases j) (simp_all add: add.assoc)
qed simp

lemma batch_row_tokens: "me_idempotency_key ` set (batch_rows rid n items) = pb_idempotency_token ` set items"
  by (induction items arbitrary: n) (simp_all add: me_with_sequence_def)

lemma accepted_subset: "set (accepted D items) \<subseteq> set items"
  by (induction items arbitrary: D) (auto simp: Let_def)

lemma length_accepted: "length (accepted D items) \<le> length items"
proof (induction items arbitrary: D)
  case (Cons i items)
  then show ?case by (auto simp: Let_def le_SucI)
qed simp

lemma accepted_none: "\<forall>i \<in> set items. \<not> token_is_none (pb_idempotency_token i) \<and> pb_idempotency_token i \<in> D \<Longrightarrow> accepted D items = []"
  by (induction items) (auto simp: Let_def)

lemma accepted_covers:
  "i \<in> set items \<Longrightarrow> token_is_none (pb_idempotency_token i) \<or> pb_idempotency_token i \<in> D
     \<or> pb_idempotency_token i \<in> pb_idempotency_token ` set (accepted D items)"
proof (induction items arbitrary: D)
  case (Cons a items)
  show ?case
  proof (cases "i = a")
    case False
    then show ?thesis using Cons.prems Cons.IH [of D] Cons.IH [of "insert (pb_idempotency_token a) D"] by (auto simp: Let_def)
  qed (simp add: Let_def)
qed simp

lemma batch_entries_rows:
  assumes valid: "\<forall>i \<in> set items. \<exists>k. ck_new rid (pb_item_key i) = Inr k"
    and dup: "\<And>t. ml_check_dedup l t = Inr () \<longleftrightarrow> token_is_none t \<or> t \<notin> D"
  shows "batch_entries l ns rid n seen items =
    (let rows = batch_rows rid n (accepted (D \<union> seen) items) in Inr (rows, map (\<lambda>e. from_memtable_entry e ns) rows, n + of_nat (length rows)))"
  using valid
proof (induction items arbitrary: n seen)
  case (Cons i items)
  let ?t = "pb_idempotency_token i"
  have d: "ml_check_dedup l ?t = (if token_is_none ?t \<or> ?t \<notin> D then Inr () else Inl (DuplicateToken ''''))"
    using dup [of ?t] by (auto simp: ml_check_dedup_def split: if_splits)
  obtain k where k: "ck_new rid (pb_item_key i) = Inr k" using Cons.prems by auto
  then have ck: "k = CompositeKey (rid @ SEPARATOR # pb_item_key i)" "ck_ok k" "record_id k = rid" "item_key k = pb_item_key i"
    by (auto simp: ck_new_eq_Inr rid_ok_def)
  have w: "\<lparr>we_sequence_number = n, we_entry_type = Put, we_namespace = ns, we_record_id = rid, we_item_key = pb_item_key i,
      we_item_value = pb_value i, we_item_metadata = pb_metadata i, we_idempotency_token = ?t\<rparr>
    = from_memtable_entry (me_with_sequence k (pb_value i) (pb_metadata i) ?t n Put) ns"
    using ck by (simp add: from_memtable_entry_def me_with_sequence_def)
  have IH: "batch_entries l ns rid m s items =
    (let rows = batch_rows rid m (accepted (D \<union> s) items) in Inr (rows, map (\<lambda>e. from_memtable_entry e ns) rows, m + of_nat (length rows)))" for m s
    using Cons by simp
  consider "token_is_none ?t" | "\<not> token_is_none ?t" "?t \<in> D \<union> seen" | "\<not> token_is_none ?t" "?t \<notin> D \<union> seen" by blast
  then show ?case
  proof cases
    case 1
    then show ?thesis using d k ck(1) w IH [of "n + 1" seen] by (simp add: Let_def me_with_sequence_def add.assoc)
  next
    case 2
    then have "D \<union> insert ?t seen = D \<union> seen \<or> ?t \<in> seen" "accepted (D \<union> seen) (i # items) = accepted (D \<union> seen) items" by (auto simp: Let_def)
    moreover have "accepted (D \<union> insert ?t seen) items = accepted (D \<union> seen) items" using 2 by (metis Un_insert_right insert_absorb)
    ultimately show ?thesis using 2 d IH [of n seen] IH [of n "insert ?t seen"] by (auto simp: Let_def)
  next
    case 3
    then show ?thesis using d k ck(1) w IH [of "n + 1" "insert ?t seen"] by (simp add: Let_def me_with_sequence_def add.assoc)
  qed
qed simp

section \<open>Inserting a batch\<close>

text \<open>The entries fit into the active memtable below its threshold and into the memory limit, and the memtable is young enough.\<close>

definition batch_fits :: "'c env \<Rightarrow> 'c engine \<Rightarrow> memtable_entry list \<Rightarrow> bool" where
  "batch_fits ev e es \<longleftrightarrow>
     (let l = en_memtable_list e; total = sum_list (map (approximate_entry_size (ev_node_size ev)) es)
      in mt_approximate_memory_usage (ml_active l) + total < size_threshold (mt_config (ml_active l))
         \<and> ml_total_memory_usage l + total < memtable_memory_limit (ml_config l)
         \<and> \<not> mt_should_freeze_by_age (ev_now ev (en_tick e)) (fc_flush_trigger_age (ec_flush_config (en_config e))) (ml_active l))"

lemma total_memory_sum: "ml_total_memory_usage l = mt_approximate_memory_usage (ml_active l) + sum_list (map mt_approximate_memory_usage (ml_frozen l))"
proof -
  have "fold (\<lambda>m total. total + mt_approximate_memory_usage m) ms a = a + sum_list (map mt_approximate_memory_usage ms)" for ms a
    by (induction ms arbitrary: a) simp_all
  then show ?thesis by (simp add: ml_total_memory_usage_def)
qed

lemma prechecked_insert:
  assumes "ml_repr l (h # hs)" and "mt_next_sequence_number (ml_active l) \<le> me_sequence_number x"
  shows "\<exists>m. ml_insert_prechecked n x l = Inr (me_sequence_number x, l\<lparr>ml_active := m\<rparr>) \<and> mt_next_sequence_number m = me_sequence_number x + 1
    \<and> mt_approximate_memory_usage m \<le> mt_approximate_memory_usage (ml_active l) + approximate_entry_size n x
    \<and> mt_config m = mt_config (ml_active l) \<and> mt_created_at m = mt_created_at (ml_active l)"
proof -
  have "\<not> mt_frozen (ml_active l)" using assms(1) by (simp add: ml_repr_def)
  then show ?thesis using assms(2) skip_insert_allocates [of n x "mt_skiplist (ml_active l)"]
    by (auto simp: ml_insert_prechecked_def ml_with_active_def mt_insert_with_assigned_sequence_def mt_insert_inner_def mt_approximate_memory_usage_def Let_def)
qed

lemma enforce_limits_idle:
  assumes "mt_approximate_memory_usage (ml_active (en_memtable_list e)) < size_threshold (mt_config (ml_active (en_memtable_list e)))"
    and "ml_total_memory_usage (en_memtable_list e) < memtable_memory_limit (ml_config (en_memtable_list e))" and "\<not> age_reached ev e"
  shows "enforce_batch_memtable_limits ev e = Some (Inr (), e)"
  using assms by (simp add: enforce_batch_memtable_limits_def mt_should_freeze_by_size_def ml_is_memory_backpressured_def ebind_def eret_def flush_while.simps)

lemma insert_batch_ok:
  assumes "ml_built (en_memtable_list e) (h # hs)" and "mt_next_sequence_number (ml_active (en_memtable_list e)) \<le> n"
    and "unat n + length items < 2 ^ 64" and "batch_fits ev e (batch_rows rid n items)"
  shows "\<exists>l'. insert_batch ev (batch_rows rid n items) e = Some (Inr (), e\<lparr>en_memtable_list := l'\<rparr>) \<and> ml_built l' ((h @ batch_rows rid n items) # hs)
    \<and> (items \<noteq> [] \<longrightarrow> mt_next_sequence_number (ml_active l') = n + of_nat (length items)) \<and> \<not> ml_is_memory_backpressured l'"
  using assms
proof (induction items arbitrary: e h n)
  case Nil
  then show ?case by (intro exI [of _ "en_memtable_list e"]) (simp add: eret_def batch_fits_def ml_is_memory_backpressured_def Let_def)
next
  case (Cons i items)
  let ?l = "en_memtable_list e" and ?rest = "batch_rows rid (n + 1) items" and ?sz = "approximate_entry_size (ev_node_size ev)"
  define x where "x = me_with_sequence (CompositeKey (rid @ SEPARATOR # pb_item_key i)) (pb_value i) (pb_metadata i) (pb_idempotency_token i) n Put"
  have rows: "batch_rows rid n (i # items) = x # ?rest" and sx: "me_sequence_number x = n" "ck_ok (me_composite_key x)" by (simp_all add: x_def me_with_sequence_def)
  obtain m where m: "ml_insert_prechecked (ev_node_size ev) x ?l = Inr (n, ?l\<lparr>ml_active := m\<rparr>)" "mt_next_sequence_number m = n + 1"
    "mt_approximate_memory_usage m \<le> mt_approximate_memory_usage (ml_active ?l) + ?sz x" "mt_config m = mt_config (ml_active ?l)"
    "mt_created_at m = mt_created_at (ml_active ?l)"
    using prechecked_insert [OF ml_built_repr [OF Cons.prems(1)], of x "ev_node_size ev"] Cons.prems(2) sx(1) by auto
  let ?e = "e\<lparr>en_memtable_list := ?l\<lparr>ml_active := m\<rparr>\<rparr>"
  have n1: "n \<noteq> - 1" "unat (n + 1) = Suc (unat n)"
  proof -
    have "unat n + 1 < 2 ^ 64" using Cons.prems(3) by simp
    then show "unat (n + 1) = Suc (unat n)" by (simp add: unat_word_ariths)
    then show "n \<noteq> - 1" by auto
  qed
  have b: "ml_built (en_memtable_list ?e) ((h @ [x]) # hs)"
    using ml_built.prechecked [OF Cons.prems(1) sx(2), of "ev_node_size ev" n "?l\<lparr>ml_active := m\<rparr>"] Cons.prems(2) sx(1) n1(1) m(1) by simp
  have fit: "batch_fits ev ?e ?rest"
    using Cons.prems(4) m(3-5) unfolding rows by (auto simp: batch_fits_def total_memory_sum mt_should_freeze_by_age_def Let_def)
  then have idle: "enforce_batch_memtable_limits ev ?e = Some (Inr (), ?e)"
    by (intro enforce_limits_idle) (auto simp: batch_fits_def Let_def age_reached_def)
  obtain l' where l': "insert_batch ev ?rest ?e = Some (Inr (), ?e\<lparr>en_memtable_list := l'\<rparr>)" "ml_built l' (((h @ [x]) @ ?rest) # hs)"
    "items \<noteq> [] \<longrightarrow> mt_next_sequence_number (ml_active l') = n + 1 + of_nat (length items)" "\<not> ml_is_memory_backpressured l'"
    using Cons.IH [OF b, of "n + 1"] m(2) Cons.prems(3) n1(2) fit by auto
  have nx: "items = [] \<Longrightarrow> mt_next_sequence_number (ml_active l') = n + 1" using l'(1) m(2)
    by (auto simp: eret_def dest!: arg_cong [where f = en_memtable_list])
  have "insert_batch ev (x # ?rest) e = Some (Inr (), e\<lparr>en_memtable_list := l'\<rparr>)"
    using m(1) idle l'(1) by (simp add: insert_prechecked_def ebind_def eret_def)
  then show ?case unfolding rows using l'(2-4) nx by (cases items) (auto simp: add.assoc)
qed

section \<open>What is read after a batch\<close>

lemma row_number:
  assumes "unat n + k \<le> 2 ^ 64" and "j < k"
  shows "unat (n + of_nat j :: u64) = unat n + j"
proof -
  have "unat n + j < 2 ^ 64" using assms by simp
  moreover have "unat (of_nat j :: u64) = j" using calculation by (simp add: unsigned_of_nat take_bit_nat_eq_self)
  ultimately show ?thesis by (simp add: unat_word_ariths)
qed

lemma rows_in:
  assumes "y \<in> set (batch_rows rid n items)"
  obtains j where "j < length items" and "y = batch_rows rid n items ! j"
  using assms unfolding in_set_conv_nth by auto

lemma rows_put: "y \<in> set (batch_rows rid n items) \<Longrightarrow> me_entry_type y = Put"
  by (erule rows_in) (simp add: batch_rows_nth me_with_sequence_def)

lemma history_covers_puts:
  assumes "\<forall>y \<in> set rows. me_entry_type y = Put"
  shows "history_covers (concat ((h @ rows) # hs)) k s \<longleftrightarrow> history_covers (concat (h # hs)) k s"
  using assms by (auto simp: history_covers_def)

lemma set_grown: "set (concat ((h @ rows) # hs)) = set (concat (h # hs)) \<union> set rows"
  by auto

lemma batch_row_visible:
  assumes old: "\<forall>y \<in> set (concat (h # hs) @ base). me_sequence_number y < n" and room: "unat n + length items \<le> 2 ^ 64" and j: "j < length items"
    and latest: "\<forall>i. j < i \<and> i < length items \<longrightarrow> pb_item_key (items ! i) \<noteq> pb_item_key (items ! j)"
  shows "visible (concat ((h @ batch_rows rid n items) # hs)) base (CompositeKey (rid @ SEPARATOR # pb_item_key (items ! j))) (batch_rows rid n items ! j)"
proof -
  let ?rows = "batch_rows rid n items" and ?x = "batch_rows rid n items ! j"
  have x: "me_composite_key ?x = CompositeKey (rid @ SEPARATOR # pb_item_key (items ! j))" "me_entry_type ?x = Put" "me_sequence_number ?x = n + of_nat j"
    using j by (simp_all add: batch_rows_nth me_with_sequence_def)
  have mem: "?x \<in> set ?rows" using j by (metis length_batch_rows nth_mem)
  have big: "n \<le> me_sequence_number ?x" using row_number [OF room j] by (simp add: x(3) word_le_nat_alt)
  have le: "me_sequence_number y \<le> me_sequence_number ?x" if y: "y \<in> set ?rows" "me_composite_key y = me_composite_key ?x" for y
  proof -
    obtain i where i: "i < length items" "y = ?rows ! i" using y(1) by (rule rows_in)
    then have "pb_item_key (items ! i) = pb_item_key (items ! j)" using y(2) x(1) by (simp add: batch_rows_nth me_with_sequence_def)
    then have "i \<le> j" using latest i(1) by (meson leI)
    then show ?thesis using i j row_number [OF room i(1)] row_number [OF room j] by (simp add: batch_rows_nth me_with_sequence_def word_le_nat_alt)
  qed
  have puts: "\<forall>y \<in> set ?rows. me_entry_type y = Put" using rows_put by blast
  have "\<not> history_covers (concat (h # hs)) k (me_sequence_number ?x)" for k
    using old big unfolding history_covers_def ts_covers_def by (metis UnI1 less_asym order_less_le_trans set_append tombstone_sequence)
  moreover have "me_sequence_number y \<le> me_sequence_number ?x" if "y \<in> set (concat (h # hs)) \<union> set base" for y
    using old big that by (metis less_le_trans order.strict_implies_order set_append)
  ultimately show ?thesis
    unfolding visible_def history_covers_puts [OF puts] set_append set_grown using x mem le by (metis UnE UnI1 UnI2)
qed

lemma batch_other_visible:
  assumes "k \<notin> me_composite_key ` set (batch_rows rid n items)"
  shows "visible (concat ((h @ batch_rows rid n items) # hs)) base k y \<longleftrightarrow> visible (concat (h # hs)) base k y"
proof -
  have puts: "\<forall>y \<in> set (batch_rows rid n items). me_entry_type y = Put" using rows_put by blast
  have "me_composite_key x \<noteq> k" if "x \<in> set (batch_rows rid n items)" for x using assms that by blast
  then show ?thesis unfolding visible_def history_covers_puts [OF puts] set_append set_grown by blast
qed

lemma batch_engine_ok:
  assumes ok: "engine_ok ev e (h # hs) T" and b: "ml_built l' ((h @ batch_rows rid n items) # hs)"
    and n: "mt_next_sequence_number (ml_active (en_memtable_list e)) \<le> n" "unat n + length items < 2 ^ 64" "items \<noteq> []"
      "mt_next_sequence_number (ml_active l') = n + of_nat (length items)"
  shows "engine_ok ev (forget_record rid (e\<lparr>en_wal_manager := wm', en_tick := t, en_next_sequence := q, en_memtable_list := l'\<rparr>)) ((h @ batch_rows rid n items) # hs) T"
proof -
  have base: "\<forall>b \<in> set (table_entries T). me_sequence_number b < n" using ok n(1) by (auto simp: engine_ok_def intro: less_le_trans)
  have le: "n \<le> me_sequence_number y" if "y \<in> set (batch_rows rid n items)" for y
    using that n(2) by (elim rows_in) (simp add: batch_rows_nth me_with_sequence_def word_le_nat_alt row_number [where k = "length items"])
  have "n < n + of_nat (length items)" using n(2,3) row_number [of n "Suc (length items)" "length items"] by (simp add: word_less_nat_alt)
  then have top: "\<forall>b \<in> set (table_entries T). me_sequence_number b < mt_next_sequence_number (ml_active l')" using base n(4) by (auto intro: less_trans)
  have "below_memtables (table_entries T) (concat (h # hs))" using ok by (simp add: engine_ok_def)
  moreover have "me_sequence_number b < me_sequence_number y" if "b \<in> set (table_entries T)" "y \<in> set (batch_rows rid n items)" for b y
    using base le that by (meson less_le_trans)
  ultimately have "below_memtables (table_entries T) (concat ((h @ batch_rows rid n items) # hs))"
    unfolding below_memtables_def set_grown by blast
  then show ?thesis using ok b top by (simp add: engine_ok_def forget_record_def)
qed

lemma batch_logged:
  assumes ok: "engine_ok ev e (h # hs) T" and stall: "check_write_stall e = Some (Inr (), e)"
    and valid: "\<forall>i \<in> set items. \<exists>k. ck_new rid (pb_item_key i) = Inr k"
    and acc: "acc = accepted (me_idempotency_key ` set (concat (h # hs))) items" "acc \<noteq> []"
    and n: "n = en_next_sequence e" "mt_next_sequence_number (ml_active (en_memtable_list e)) \<le> n" "unat n + length items < 2 ^ 64"
    and fits: "batch_fits ev (next_tick e) (batch_rows rid n acc)"
    and ws: "ws = map (\<lambda>x. from_memtable_entry x (string_bytes (ec_namespace (en_config e)))) (batch_rows rid n acc)"
      "log_idle (ev_crc ev) (en_wal_manager e) log" "log_room (en_wal_manager e) log ws"
  shows "\<exists>l' wm' log'. engine_put_batch ev rid items e = Some (Inr (length acc),
        forget_record rid (e\<lparr>en_wal_manager := wm', en_tick := Suc (en_tick e), en_next_sequence := n + of_nat (length acc), en_memtable_list := l'\<rparr>))
    \<and> ml_built l' ((h @ batch_rows rid n acc) # hs) \<and> mt_next_sequence_number (ml_active l') = n + of_nat (length acc)
    \<and> \<not> ml_is_memory_backpressured l'
    \<and> log_idle (ev_crc ev) wm' log' \<and> wm_config wm' = wm_config (en_wal_manager e)
    \<and> log_entries log' = log_entries log @ fst (assign_sequences (ww_next_sequence_number (gc_writer (wm_gc (en_wal_manager e)))) ws) \<and> gc_acks (wm_gc wm') \<noteq> []"
proof -
  let ?rows = "batch_rows rid n acc" and ?ns = "string_bytes (ec_namespace (en_config e))"
  have m: "ml_built (en_memtable_list e) (h # hs)" using ok by (simp add: engine_ok_def)
  have items: "items \<noteq> []" using acc by auto
  have len: "unat n + length acc < 2 ^ 64" using n(3) length_accepted [of _ items] unfolding acc(1) by (meson add_left_mono le_less_trans)
  have p: "pc_notifiers (Batch ws i) = [i]" "pc_entries (Batch ws i) = ws" for i by (simp_all add: pc_notifiers_def pc_entries_def)
  have "ws \<noteq> []" using acc(2) length_batch_rows [of rid n acc] unfolding ws(1) by (metis length_0_conv map_is_Nil_conv)
  from log_commit_ok [of ev e log "Batch ws" ws, OF ws(2) p this ws(3)] obtain wm' log' where
    l: "log_commit ev (Batch ws) e = Some (Inr (), next_tick (e\<lparr>en_wal_manager := wm'\<rparr>))" "log_idle (ev_crc ev) wm' log'"
      "wm_config wm' = wm_config (en_wal_manager e)"
      "log_entries log' = log_entries log @ fst (assign_sequences (ww_next_sequence_number (gc_writer (wm_gc (en_wal_manager e)))) ws)" "gc_acks (wm_gc wm') \<noteq> []" by auto
  let ?e = "(next_tick (e\<lparr>en_wal_manager := wm'\<rparr>))\<lparr>en_next_sequence := n + of_nat (length acc)\<rparr>"
  have "batch_fits ev ?e ?rows" using fits by (simp add: batch_fits_def next_tick_def)
  then obtain l' where i: "insert_batch ev ?rows ?e = Some (Inr (), ?e\<lparr>en_memtable_list := l'\<rparr>)" "ml_built l' ((h @ ?rows) # hs)"
    "mt_next_sequence_number (ml_active l') = n + of_nat (length acc)" "\<not> ml_is_memory_backpressured l'"
    using insert_batch_ok [of ?e h hs n acc ev rid] m n(2) len acc(2) by (auto simp: next_tick_def)
  have "batch_entries (en_memtable_list e) ?ns rid n {} items = Inr (?rows, ws, n + of_nat (length acc))"
    using batch_entries_rows [OF valid, of "en_memtable_list e" "me_idempotency_key ` set (concat (h # hs))" ?ns n "{}"] memtable_dedup_free [OF m]
    unfolding ws(1) acc(1) by (simp add: Let_def)
  moreover have "?rows \<noteq> []" using acc(2) length_batch_rows [of rid n acc] by (metis length_0_conv)
  ultimately have "engine_put_batch ev rid items e = Some (Inr (length acc), forget_record rid (?e\<lparr>en_memtable_list := l'\<rparr>))"
    using items stall i(1) l(1) unfolding n(1) by (simp add: engine_put_batch_def ebind_def eupdate_def eret_def)
  then show ?thesis using i(2-4) l(2-5) by (intro exI [of _ l'] exI [of _ wm'] exI [of _ log']) (simp add: next_tick_def)
qed

lemma batch_ignored:
  assumes "ml_built (en_memtable_list e) hs" and "check_write_stall e = Some (Inr (), e)"
    and "\<forall>i \<in> set items. \<exists>k. ck_new rid (pb_item_key i) = Inr k"
    and "accepted (me_idempotency_key ` set (concat hs)) items = []"
  shows "engine_put_batch ev rid items e = Some (Inr 0, e)"
  using batch_entries_rows [OF assms(3), of "en_memtable_list e" "me_idempotency_key ` set (concat hs)" _ _ "{}"] memtable_dedup_free [OF assms(1)] assms(2,4)
  by (simp add: engine_put_batch_def ebind_def eret_def Let_def)

lemma memtable_multi_hit:
  assumes m: "ml_built (en_memtable_list e) hs" and v: "visible (concat hs) [] key x" and key: "ck_new rid ik = Inr key"
  shows "engine_multi_get ev rid [ik] e = Inr [Some (gr_from_merge_entry (mg_from_memtable_entry x))]"
proof -
  let ?F = "direct_fetcher (ev_codecs ev) (en_objects e)" and ?l = "en_memtable_list e"
  have "levels_repr (ev_codecs ev) (en_objects e) [] []" by (simp add: levels_repr_def)
  from point_read_visible [OF m this, of key] v have r: "point_read ?F key ?l [] = Inr (Some (mg_from_memtable_entry x))"
    by (auto simp: below_memtables_def)
  then obtain y where y: "ml_get key ?l = Some y" by (cases "ml_get key ?l") (auto simp: point_read_def)
  have "point_read F key ?l levels = point_read ?F key ?l []" for F levels using y by (simp add: point_read_def)
  then show ?thesis using r key by (simp add: engine_multi_get_def)
qed

lemma put_batch_ok:
  assumes ok: "engine_ok ev e (h # hs) T" and stall: "check_write_stall e = Some (Inr (), e)"
    and valid: "\<forall>i \<in> set items. \<exists>k. ck_new rid (pb_item_key i) = Inr k"
    and acc: "acc = accepted (me_idempotency_key ` set (concat (h # hs))) items" "acc \<noteq> []"
    and n: "n = en_next_sequence e" "mt_next_sequence_number (ml_active (en_memtable_list e)) \<le> n" "unat n + length items < 2 ^ 64"
    and fits: "batch_fits ev (next_tick e) (batch_rows rid n acc)"
    and ws: "ws = map (\<lambda>x. from_memtable_entry x (string_bytes (ec_namespace (en_config e)))) (batch_rows rid n acc)"
      "log_idle (ev_crc ev) (en_wal_manager e) log" "log_room (en_wal_manager e) log ws"
  shows "\<exists>e' log'. engine_put_batch ev rid items e = Some (Inr (length acc), e')
    \<and> engine_ok ev e' ((h @ batch_rows rid n acc) # hs) T \<and> log_idle (ev_crc ev) (en_wal_manager e') log'
    \<and> log_entries log' = log_entries log @ fst (assign_sequences (ww_next_sequence_number (gc_writer (wm_gc (en_wal_manager e)))) ws)
    \<and> (cfg_fsync_mode (wm_config (en_wal_manager e)) = Sync \<longrightarrow> gc_durable (wm_gc (en_wal_manager e')) = map_of (gc_dir (wm_gc (en_wal_manager e'))))
    \<and> (\<forall>j < length acc. (\<forall>i. j < i \<and> i < length acc \<longrightarrow> pb_item_key (acc ! i) \<noteq> pb_item_key (acc ! j)) \<longrightarrow>
         (\<exists>g. g = \<lparr>gr_key = CompositeKey (rid @ SEPARATOR # pb_item_key (acc ! j)), gr_value = pb_value (acc ! j),
           gr_metadata = pb_metadata (acc ! j), gr_sequence_number = n + of_nat j\<rparr>
           \<and> engine_get ev rid (pb_item_key (acc ! j)) e' = (Inr (Some g), e') \<and> engine_multi_get ev rid [pb_item_key (acc ! j)] e' = Inr [Some g]))
    \<and> (\<forall>k. k \<notin> me_composite_key ` set (batch_rows rid n acc) \<longrightarrow> engine_reads ev e' k = engine_reads ev e k)
    \<and> ((\<forall>i \<in> set items. \<not> token_is_none (pb_idempotency_token i)) \<longrightarrow> engine_put_batch ev rid items e' = Some (Inr 0, e'))
    \<and> en_objects e' = en_objects e \<and> en_levels e' = en_levels e \<and> en_block_cache e' = en_block_cache e"
proof -
  let ?rows = "batch_rows rid n acc"
  obtain l' wm' log' where l: "engine_put_batch ev rid items e = Some (Inr (length acc),
        forget_record rid (e\<lparr>en_wal_manager := wm', en_tick := Suc (en_tick e), en_next_sequence := n + of_nat (length acc), en_memtable_list := l'\<rparr>))"
      "ml_built l' ((h @ ?rows) # hs)" "mt_next_sequence_number (ml_active l') = n + of_nat (length acc)"
      "\<not> ml_is_memory_backpressured l'" "log_idle (ev_crc ev) wm' log'" "wm_config wm' = wm_config (en_wal_manager e)"
      "log_entries log' = log_entries log @ fst (assign_sequences (ww_next_sequence_number (gc_writer (wm_gc (en_wal_manager e)))) ws)" "gc_acks (wm_gc wm') \<noteq> []"
    using batch_logged [OF assms] by blast
  let ?e = "forget_record rid (e\<lparr>en_wal_manager := wm', en_tick := Suc (en_tick e), en_next_sequence := n + of_nat (length acc), en_memtable_list := l'\<rparr>)"
  have len: "unat n + length acc < 2 ^ 64" using n(3) length_accepted [of _ items] unfolding acc(1) by (meson add_left_mono le_less_trans)
  have ok': "engine_ok ev ?e ((h @ ?rows) # hs) T" by (rule batch_engine_ok [OF ok l(2) n(2) len acc(2) l(3)])
  have ml: "en_memtable_list ?e = l'" by (simp add: forget_record_def)
  have old: "\<forall>y \<in> set (concat (h # hs)). me_sequence_number y < n"
    using ok ml_built_repr [of "en_memtable_list e" "h # hs"] n(2) by (auto simp: engine_ok_def ml_repr_def intro: less_le_trans)
  have s: "check_write_stall ?e = Some (Inr (), ?e)"
    using stall l(4) by (auto simp: check_write_stall_def engine_write_stall_status_def forget_record_def eraise_def eret_def split: write_stall_status.splits if_splits)
  have "\<exists>g. g = \<lparr>gr_key = CompositeKey (rid @ SEPARATOR # pb_item_key (acc ! j)), gr_value = pb_value (acc ! j),
      gr_metadata = pb_metadata (acc ! j), gr_sequence_number = n + of_nat j\<rparr>
      \<and> engine_get ev rid (pb_item_key (acc ! j)) ?e = (Inr (Some g), ?e) \<and> engine_multi_get ev rid [pb_item_key (acc ! j)] ?e = Inr [Some g]"
    if j: "j < length acc" "\<forall>i. j < i \<and> i < length acc \<longrightarrow> pb_item_key (acc ! i) \<noteq> pb_item_key (acc ! j)" for j
  proof -
    have v: "visible (concat ((h @ ?rows) # hs)) [] (CompositeKey (rid @ SEPARATOR # pb_item_key (acc ! j))) (?rows ! j)"
      using batch_row_visible [of h hs "[]" n acc j rid] old len j by simp
    have "acc ! j \<in> set items" using accepted_subset [of _ items] j(1) unfolding acc(1) by (metis nth_mem subsetD)
    then have k: "ck_new rid (pb_item_key (acc ! j)) = Inr (CompositeKey (rid @ SEPARATOR # pb_item_key (acc ! j)))" using valid by (auto simp: ck_new_eq_Inr)
    have "engine_get ev rid (pb_item_key (acc ! j)) ?e = (Inr (Some (gr_from_merge_entry (mg_from_memtable_entry (?rows ! j)))), ?e)"
      by (rule memtable_hit [OF _ v k forget_record_absent]) (simp add: ml l(2))
    moreover have "engine_multi_get ev rid [pb_item_key (acc ! j)] ?e = Inr [Some (gr_from_merge_entry (mg_from_memtable_entry (?rows ! j)))]"
      by (rule memtable_multi_hit [OF _ v k]) (simp add: ml l(2))
    ultimately show ?thesis using j(1) by (simp add: batch_rows_nth me_with_sequence_def gr_from_merge_entry_def mg_from_memtable_entry_def)
  qed
  moreover have "engine_reads ev ?e k = engine_reads ev e k" if "k \<notin> me_composite_key ` set ?rows" for k
    by (rule engine_reads_cong [OF ok' ok]) (simp only: batch_other_visible [OF that, abs_def])
  moreover have "gc_durable (wm_gc wm') = map_of (gc_dir (wm_gc wm'))" if "cfg_fsync_mode (wm_config (en_wal_manager e)) = Sync"
    using log_idle_durable [OF l(5) l(8)] l(6) that by simp
  moreover have "engine_put_batch ev rid items ?e = Some (Inr 0, ?e)"
    if t: "\<forall>i \<in> set items. \<not> token_is_none (pb_idempotency_token i)"
  proof (rule batch_ignored [OF _ s valid])
    show "ml_built (en_memtable_list ?e) ((h @ ?rows) # hs)" by (simp add: ml l(2))
    let ?D = "me_idempotency_key ` set (concat (h # hs))"
    have "pb_idempotency_token i \<in> ?D \<union> pb_idempotency_token ` set acc" if "i \<in> set items" for i
      using accepted_covers [OF that, of ?D] t that unfolding acc(1) by auto
    then show "accepted (me_idempotency_key ` set (concat ((h @ ?rows) # hs))) items = []"
      unfolding set_grown image_Un batch_row_tokens using t by (intro accepted_none) simp
  qed
  ultimately show ?thesis using l(1,5,7) ok' by (intro exI [of _ ?e] exI [of _ log']) (simp add: forget_record_def)
qed

text \<open>C13: a batch is logged, durable and read back, and a repeated batch of items with tokens changes nothing. For an engine in a well-formed state that is not stalled, valid keys and a log
  with room, a batch that does not fill the memtable writes exactly the items whose token is neither in the memtables nor earlier in the
  batch, numbered from the engine's next sequence number; one group of log entries holds them, on disk in \<open>Sync\<close> mode; \<^verbatim>\<open>get\<close>
  returns the last item written under each key, and reads of other keys are as before. Sent again, a batch all of whose items carry tokens writes nothing and
  leaves the engine as it is; items without a token are written again.\<close>
theorem put_batch_logged_and_read:
  assumes ok: "engine_ok ev e (h # hs) T" and stall: "check_write_stall e = Some (Inr (), e)"
    and valid: "\<forall>i \<in> set items. \<exists>k. ck_new rid (pb_item_key i) = Inr k"
    and acc: "acc = accepted (me_idempotency_key ` set (concat (h # hs))) items" "acc \<noteq> []"
    and n: "n = en_next_sequence e" "mt_next_sequence_number (ml_active (en_memtable_list e)) \<le> n" "unat n + length items < 2 ^ 64"
    and fits: "batch_fits ev (next_tick e) (batch_rows rid n acc)"
    and ws: "ws = map (\<lambda>x. from_memtable_entry x (string_bytes (ec_namespace (en_config e)))) (batch_rows rid n acc)"
      "log_idle (ev_crc ev) (en_wal_manager e) log" "log_room (en_wal_manager e) log ws"
  shows "\<exists>e' log'. engine_put_batch ev rid items e = Some (Inr (length acc), e')
    \<and> engine_ok ev e' ((h @ batch_rows rid n acc) # hs) T \<and> log_idle (ev_crc ev) (en_wal_manager e') log'
    \<and> log_entries log' = log_entries log @ fst (assign_sequences (ww_next_sequence_number (gc_writer (wm_gc (en_wal_manager e)))) ws)
    \<and> (cfg_fsync_mode (wm_config (en_wal_manager e)) = Sync \<longrightarrow> gc_durable (wm_gc (en_wal_manager e')) = map_of (gc_dir (wm_gc (en_wal_manager e'))))
    \<and> (\<forall>j < length acc. (\<forall>i. j < i \<and> i < length acc \<longrightarrow> pb_item_key (acc ! i) \<noteq> pb_item_key (acc ! j)) \<longrightarrow>
         (\<exists>g. g = \<lparr>gr_key = CompositeKey (rid @ SEPARATOR # pb_item_key (acc ! j)), gr_value = pb_value (acc ! j),
           gr_metadata = pb_metadata (acc ! j), gr_sequence_number = n + of_nat j\<rparr>
           \<and> engine_get ev rid (pb_item_key (acc ! j)) e' = (Inr (Some g), e') \<and> engine_multi_get ev rid [pb_item_key (acc ! j)] e' = Inr [Some g]))
    \<and> (\<forall>k. k \<notin> me_composite_key ` set (batch_rows rid n acc) \<longrightarrow> engine_reads ev e' k = engine_reads ev e k)
    \<and> ((\<forall>i \<in> set items. \<not> token_is_none (pb_idempotency_token i)) \<longrightarrow> engine_put_batch ev rid items e' = Some (Inr 0, e'))"
  using put_batch_ok [OF assms] by blast

lemma opened_log_room:
  "\<exists>wm log. wm_open (\<lambda>_. 0) 0 wal_config_default [] = Inr wm \<and> log_idle (\<lambda>_. 0) wm log
     \<and> (\<forall>ws. (\<forall>w \<in> set ws. wal_entry_fits w) \<and> length ws < 10 \<longrightarrow> log_room wm log ws)"
proof -
  obtain w dir h where w: "ww_open (\<lambda>_. 0) 0 wal_config_default [] = Inr (w, dir)" "wal_inv (\<lambda>_. 0) dir w [(h, [])]"
    "ww_next_sequence_number w = 1" "sh_segment_number h = 1" "dom (map_of dir) = {sw_path (ww_current_writer w)}" using ww_open_fresh by blast
  let ?wm = "\<lparr>wm_config = wal_config_default, wm_gc = gc_init w dir Map.empty, wm_dirty_tracker = dt_new, wm_submitted = None\<rparr>"
  have "wm_open (\<lambda>_. 0) 0 wal_config_default [] = Inr ?wm" using w(1) by (simp add: wm_open_def)
  moreover have "log_idle (\<lambda>_. 0) ?wm [(h, [])]" using w(2,5) by (auto simp: log_idle_def gc_init_def durable_ok_def)
  moreover have "log_room ?wm [(h, [])] ws" if "\<forall>w \<in> set ws. wal_entry_fits w" "length ws < 10" for ws
    using that w(3,4) by (simp add: log_room_def gc_init_def seg_no_def)
  ultimately show ?thesis by blast
qed

abbreviation sample_items :: "put_batch_item list" where
  "sample_items \<equiv> [\<lparr>pb_item_key = [5], pb_value = [7], pb_metadata = [], pb_idempotency_token = IdempotencyToken (replicate 24 1)\<rparr>,
     \<lparr>pb_item_key = [5], pb_value = [9], pb_metadata = [8], pb_idempotency_token = IdempotencyToken (replicate 24 2)\<rparr>]"

theorem put_batch_logged_and_read_witness:
  "\<exists>wm e'. engine_put_batch sample_env [1] sample_items (sample_engine (ml_new (\<lambda>_. 1) 0 memtable_config_default 1) wm (mm_new 0 ''ns'' manifest_config_default) empty_levels [])
       = Some (Inr 2, e')
    \<and> engine_get sample_env [1] [5] e' = (Inr (Some \<lparr>gr_key = CompositeKey [1, 0, 5], gr_value = [9], gr_metadata = [8], gr_sequence_number = 2\<rparr>), e')"
proof -
  obtain wm log where wm: "wm_open (\<lambda>_. 0) 0 wal_config_default [] = Inr wm" "log_idle (\<lambda>_. 0) wm log" "\<forall>ws. (\<forall>w \<in> set ws. wal_entry_fits w) \<and> length ws < 10 \<longrightarrow> log_room wm log ws"
    using opened_log_room by blast
  let ?l = "ml_new (\<lambda>_. 1) 0 memtable_config_default 1"
  let ?e = "sample_engine ?l wm (mm_new 0 ''ns'' manifest_config_default) empty_levels []"
  have ok: "engine_ok sample_env ?e ([] # []) (\<lambda>_. [])" by (rule sample_engine_ok [OF ml_built.new]) (simp add: mm_new_def empty_manifest_levels)
  have usage: "mt_approximate_memory_usage (ml_active ?l) = 0" "mt_config (ml_active ?l) = memtable_config_default" "mt_created_at (ml_active ?l) = 0" "ml_frozen ?l = []"
    "ml_config ?l = memtable_config_default" "mt_next_sequence_number (ml_active ?l) = 1"
    by (simp_all add: ml_new_def mt_new_def mt_approximate_memory_usage_def sl_new_def sl_with_arena_def arena_new_def arena_with_block_size_def)
  have stall: "check_write_stall ?e = Some (Inr (), ?e)"
    using usage by (simp add: check_write_stall_def engine_write_stall_status_def sched_write_stall_status_def l0_count_def mm_new_def empty_manifest_levels
      compaction_config_default_def ml_is_memory_backpressured_def ml_total_memory_usage_def memtable_config_default_def eret_def sample_engine_def Let_def)
  have valid: "\<forall>i \<in> set sample_items. \<exists>k. ck_new [1] (pb_item_key i) = Inr k"
    by (simp add: ck_new_eq_Inr rid_ok_def SEPARATOR_def MAX_ITEM_KEY_LEN_def MAX_RECORD_ID_LEN_def)
  have acc: "sample_items = accepted (me_idempotency_key ` set (concat ([] # []))) sample_items"
    by (simp add: token_is_none_def IDEMPOTENCY_TOKEN_SIZE_def numeral_eq_Suc)
  have e: "en_next_sequence ?e = 1" "en_memtable_list ?e = ?l" "en_wal_manager ?e = wm" "en_config ?e = sample_engine_config" by (simp_all add: sample_engine_def)
  have limits: "size_threshold memtable_config_default = 67108864" "memtable_memory_limit memtable_config_default = 268435456"
    by (simp_all add: memtable_config_default_def Let_def)
  have fits: "batch_fits sample_env (next_tick ?e) (batch_rows [1] 1 sample_items)"
    using usage by (simp add: batch_fits_def next_tick_def sample_engine_def limits sample_env_def approximate_entry_size_def me_with_sequence_def
      mt_should_freeze_by_age_def sample_engine_config_def flush_config_default_def total_memory_sum Let_def)
  let ?ws = "map (\<lambda>x. from_memtable_entry x (string_bytes (ec_namespace (en_config ?e)))) (batch_rows [1] 1 sample_items)"
  have fit: "\<forall>w \<in> set ?ws. wal_entry_fits w"
    by (simp add: wal_entry_fits_def from_memtable_entry_def me_with_sequence_def string_bytes_def sample_engine_def sample_engine_config_def body_size_def
      FIXED_BODY_OVERHEAD_def record_id_def item_key_def SEPARATOR_def token_ok_def IDEMPOTENCY_TOKEN_SIZE_def)
  then have room: "log_room (en_wal_manager ?e) log ?ws" using wm(3) [rule_format, of ?ws] unfolding e(3) by simp
  have idle: "log_idle (ev_crc sample_env) (en_wal_manager ?e) log" using wm(2) unfolding e(3) by (simp add: sample_env_def)
  obtain e' where p: "engine_put_batch sample_env [1] sample_items ?e = Some (Inr (length sample_items), e')"
    and g: "\<forall>j < length sample_items. (\<forall>i. j < i \<and> i < length sample_items \<longrightarrow> pb_item_key (sample_items ! i) \<noteq> pb_item_key (sample_items ! j)) \<longrightarrow>
         engine_get sample_env [1] (pb_item_key (sample_items ! j)) e' = (Inr (Some \<lparr>gr_key = CompositeKey ([1] @ SEPARATOR # pb_item_key (sample_items ! j)),
           gr_value = pb_value (sample_items ! j), gr_metadata = pb_metadata (sample_items ! j), gr_sequence_number = 1 + of_nat j\<rparr>), e')"
    using put_batch_logged_and_read [OF ok stall valid acc _ e(1) [symmetric] _ _ fits refl idle room] usage(6) unfolding e by auto
  have "engine_get sample_env [1] [5] e' = (Inr (Some \<lparr>gr_key = CompositeKey [1, 0, 5], gr_value = [9], gr_metadata = [8], gr_sequence_number = 2\<rparr>), e')"
    using g [THEN spec, of 1] by (auto simp: SEPARATOR_def)
  then show ?thesis using p by (auto simp: numeral_2_eq_2)
qed

end
