(* ===== verification/Service.thy ===== *)
theory Service
  imports Manager_Correct Conversions Engine_Batch
begin

text \<open>
  \<^verbatim>\<open>handlers/write.rs\<close> and \<^verbatim>\<open>handlers/read.rs\<close>: the four requests of the service. A handler takes a request and the state of the server to a response or a
  status and the state after it. The stream of a scan is the list of what is sent on it to a client that reads it to the end.
\<close>

section \<open>Requests\<close>

record put_items_request =
  pr_idempotency_token :: "proto_idempotency_token option"
  pr_namespace :: string
  pr_id :: string
  pr_items :: "proto_item list"

record delete_items_request =
  dr_idempotency_token :: "proto_idempotency_token option"
  dr_namespace :: string
  dr_id :: string
  dr_predicate :: "proto_predicate option option"

record get_items_request =
  gq_namespace :: string
  gq_id :: string
  gq_predicate :: "proto_predicate option option"
  gq_selection :: "proto_selection option"

record scan_items_request =
  sq_namespace :: string
  sq_id :: string
  sq_predicate :: "proto_predicate option option"

type_synonym ('c, 'a) handler = "'c namespace_manager \<Rightarrow> ((status + 'a) \<times> 'c namespace_manager) option"

text \<open>\<^verbatim>\<open>map_err(flush_error_to_status)?\<close> on a check, and on an operation of the manager.\<close>

definition checked :: "'b flush_result \<Rightarrow> ('b \<Rightarrow> ('c, 'a) handler) \<Rightarrow> ('c, 'a) handler" where
  "checked r f m = (case r of Inl err \<Rightarrow> Some (Inl (flush_error_to_status err), m) | Inr x \<Rightarrow> f x m)"

definition performed :: "('c, 'b) manager_op \<Rightarrow> ('b \<Rightarrow> ('c, 'a) handler) \<Rightarrow> ('c, 'a) handler" where
  "performed op f m =
     (case op m of None \<Rightarrow> None | Some (Inl err, m) \<Rightarrow> Some (Inl (flush_error_to_status err), m) | Some (Inr x, m) \<Rightarrow> f x m)"

definition answer_version :: "u64 list \<Rightarrow> ('c, proto_ordered_key) handler" where
  "answer_version clock m = map_option (\<lambda>(version, m). (Inr (ordered_key_to_proto version), m)) (nm_next_version clock m)"

section \<open>Writes\<close>

definition batch_items :: "idempotency_token \<Rightarrow> proto_item list \<Rightarrow> put_batch_item list" where
  "batch_items base_token items = map (\<lambda>(index, item). \<lparr>pb_item_key = pi_key item, pb_value = pi_value item, pb_metadata = pi_metadata item,
     pb_idempotency_token = derive_for_index base_token (of_nat index)\<rparr>) (enumerate 0 items)"

definition handle_put_items :: "'c server_env \<Rightarrow> u64 list \<Rightarrow> put_items_request \<Rightarrow> ('c, proto_ordered_key) handler" where
  "handle_put_items sv clock req =
     checked (validate_namespace (pr_namespace req)) (\<lambda>_.
     checked (validate_request_id (pr_id req)) (\<lambda>_.
     checked (validate_items (pr_items req)) (\<lambda>_.
     checked (proto_to_idempotency_token (pr_idempotency_token req)) (\<lambda>base_token.
     performed (nm_put_batch sv (pr_namespace req) (pr_id req) (batch_items base_token (pr_items req))) (\<lambda>_.
     answer_version clock)))))"

fun delete_keys :: "'c server_env \<Rightarrow> string \<Rightarrow> string \<Rightarrow> bytes list \<Rightarrow> ('c, unit) manager_op" where
  "delete_keys sv namespace rid [] m = Some (Inr (), m)"
| "delete_keys sv namespace rid (key # keys) m =
     (case nm_delete sv namespace rid key m of
        None \<Rightarrow> None
      | Some (Inl err, m) \<Rightarrow> Some (Inl err, m)
      | Some (Inr _, m) \<Rightarrow> delete_keys sv namespace rid keys m)"

definition handle_delete_items :: "'c server_env \<Rightarrow> u64 list \<Rightarrow> delete_items_request \<Rightarrow> ('c, proto_ordered_key) handler" where
  "handle_delete_items sv clock req =
     checked (validate_namespace (dr_namespace req)) (\<lambda>_.
     checked (validate_request_id (dr_id req)) (\<lambda>_.
     checked (parse_predicate (dr_predicate req)) (\<lambda>predicate.
     case predicate of
       MatchAll \<Rightarrow> performed (nm_delete_range sv (dr_namespace req) (dr_id req) [] []) (\<lambda>_. answer_version clock)
     | MatchRange start_key end_key _ _ \<Rightarrow>
         performed (nm_delete_range sv (dr_namespace req) (dr_id req) (case start_key of None \<Rightarrow> [] | Some s \<Rightarrow> s) (case end_key of None \<Rightarrow> [] | Some t \<Rightarrow> t))
           (\<lambda>_. answer_version clock)
     | MatchKeys keys \<Rightarrow> performed (delete_keys sv (dr_namespace req) (dr_id req) keys) (\<lambda>_. answer_version clock))))"

section \<open>Reads\<close>

definition handle_get_items :: "'c server_env \<Rightarrow> get_items_request \<Rightarrow> ('c, proto_item list \<times> bytes) handler" where
  "handle_get_items sv req =
     checked (validate_namespace (gq_namespace req)) (\<lambda>_.
     checked (validate_request_id (gq_id req)) (\<lambda>_.
     checked (parse_predicate (gq_predicate req)) (\<lambda>predicate m.
     checked (get_namespace_config (gq_namespace req) m) (\<lambda>config.
     checked (parse_selection (gq_selection req) config) (\<lambda>(options, exclude_values).
     case predicate of
       MatchKeys keys \<Rightarrow>
         performed (nm_multi_get sv (gq_namespace req) (gq_id req) keys) (\<lambda>results m. Some (Inr (format_get_response results exclude_values, []), m))
     | MatchRange start_key end_key _ _ \<Rightarrow>
         performed (nm_scan sv (gq_namespace req) (gq_id req) start_key end_key options) (\<lambda>result m. Some (Inr (format_scan_response result exclude_values), m))
     | MatchAll \<Rightarrow>
         performed (nm_scan sv (gq_namespace req) (gq_id req) None None options) (\<lambda>result m. Some (Inr (format_scan_response result exclude_values), m)))) m)))"

type_synonym stream = "(status + proto_item list) list"

definition scan_match_keys :: "'c server_env \<Rightarrow> string \<Rightarrow> string \<Rightarrow> bytes list \<Rightarrow> 'c namespace_manager \<Rightarrow> (stream \<times> 'c namespace_manager) option" where
  "scan_match_keys sv namespace rid keys m =
     (case nm_multi_get sv namespace rid keys m of
        None \<Rightarrow> None
      | Some (Inl e, m) \<Rightarrow> Some ([Inl (flush_error_to_status e)], m)
      | Some (Inr results, m) \<Rightarrow>
          (let items = format_get_response results False in Some (if items = [] then [] else [Inr items], m)))"

text \<open>The loop over the pages; \<open>None\<close> is too little fuel or a panic.\<close>

fun scan_range ::
  "nat \<Rightarrow> 'c server_env \<Rightarrow> string \<Rightarrow> string \<Rightarrow> bytes option \<Rightarrow> bytes option \<Rightarrow> nat \<Rightarrow> page_token option \<Rightarrow> 'c namespace_manager
    \<Rightarrow> (stream \<times> 'c namespace_manager) option" where
  "scan_range 0 sv namespace rid start_key end_key default_page_size resume m = None"
| "scan_range (Suc n) sv namespace rid start_key end_key default_page_size resume m =
     (case nm_scan sv namespace rid start_key end_key \<lparr>page_size_bytes = default_page_size, item_limit = None, resume_from = resume\<rparr> m of
        None \<Rightarrow> None
      | Some (Inl e, m) \<Rightarrow> Some ([Inl (flush_error_to_status e)], m)
      | Some (Inr result, m) \<Rightarrow>
          (let items = fst (format_scan_response result False)
           in if items = [] \<and> rr_next_page_token result = None then Some ([], m)
              else let sent = (if items = [] then [] else [Inr items])
                   in case rr_next_page_token result of
                        None \<Rightarrow> Some (sent, m)
                      | Some token \<Rightarrow>
                          map_option (\<lambda>(rest, m). (sent @ rest, m)) (scan_range n sv namespace rid start_key end_key default_page_size (Some token) m)))"

definition handle_scan_items :: "nat \<Rightarrow> 'c server_env \<Rightarrow> scan_items_request \<Rightarrow> ('c, stream) handler" where
  "handle_scan_items fuel sv req =
     checked (validate_namespace (sq_namespace req)) (\<lambda>_.
     checked (validate_request_id (sq_id req)) (\<lambda>_.
     checked (parse_predicate (sq_predicate req)) (\<lambda>predicate m.
     checked (get_namespace_config (sq_namespace req) m) (\<lambda>config m.
     map_option (\<lambda>(stream, m). (Inr stream, m))
       (case predicate of
          MatchKeys keys \<Rightarrow> scan_match_keys sv (sq_namespace req) (sq_id req) keys m
        | MatchRange start_key end_key _ _ \<Rightarrow>
            scan_range fuel sv (sq_namespace req) (sq_id req) start_key end_key (unat (nc_default_page_size_bytes config)) None m
        | MatchAll \<Rightarrow> scan_range fuel sv (sq_namespace req) (sq_id req) None None (unat (nc_default_page_size_bytes config)) None m)) m)))"

section \<open>Operations on the partition of a record\<close>

text \<open>The record is served by an active partition of the namespace, whose engine on the current store is \<open>e\<close>.\<close>

definition serves :: "'c server_env \<Rightarrow> 'c namespace_manager \<Rightarrow> string \<Rightarrow> string \<Rightarrow> nat \<Rightarrow> 'c namespace_state \<Rightarrow> 'c engine \<Rightarrow> bool" where
  "serves sv m namespace rid i st e \<longleftrightarrow> map_of (nm_namespaces m) namespace = Some st \<and> resolve_partition sv namespace rid m = Some (Inr i)
     \<and> pt_state (ns_partitions st ! i) = Active \<and> e = (pt_engine (ns_partitions st ! i))\<lparr>en_objects := nm_backend m\<rparr>"

definition with_engine :: "string \<Rightarrow> nat \<Rightarrow> 'c namespace_state \<Rightarrow> 'c engine \<Rightarrow> 'c namespace_manager \<Rightarrow> 'c namespace_manager" where
  "with_engine namespace i st e m = put_partition namespace st i ((ns_partitions st ! i)\<lparr>pt_engine := e\<rparr>) m"

lemma dispatch_serves:
  assumes "serves sv m namespace rid i st e" and "f (sv_engine sv namespace (of_nat i)) e = Some (r, e')"
  shows "dispatch sv namespace rid (\<lambda>ev. on_engine (f ev)) m = Some (r, with_engine namespace i st e' m)"
  using assms by (simp add: serves_def dispatch_def run_at_def on_engine_def with_store_def with_engine_def)

lemma resolve_range:
  assumes "resolve_partition sv namespace rid m = Some (Inr i)" and "map_of (nm_namespaces m) namespace = Some st"
  shows "i < length (ns_partitions st)"
  using assms by (auto simp: resolve_partition_def split: option.splits sum.splits if_splits)

lemma with_engine_serves:
  assumes s: "serves sv m namespace rid i st e"
  shows "serves sv (with_engine namespace i st e' m) namespace rid i (st\<lparr>ns_partitions := (ns_partitions st)[i := (ns_partitions st ! i)\<lparr>pt_engine := e'\<rparr>]\<rparr>) e'"
proof -
  have "i < length (ns_partitions st)" using s resolve_range by (auto simp: serves_def)
  then show ?thesis using s
    by (auto simp: serves_def with_engine_def put_partition_def update_conv' resolve_partition_def split: option.splits sum.splits)
qed

end
