(* ===== verification/Service_Correct.thy ===== *)
theory Service_Correct
  imports Service
begin

text \<open>
  What a client of the service gets: a repeated put is answered and written once, what was put is read back, and the stream of a scan
  has exactly the items asked for.
\<close>

section \<open>Scans\<close>

lemma append_le_left: "(r @ xs \<le> r @ ys) \<longleftrightarrow> (xs :: u8 list) \<le> ys" and append_less_left: "(r @ xs < r @ ys) \<longleftrightarrow> (xs :: u8 list) < ys"
  by (induction r) simp_all

lemma bounds_exact:
  assumes k: "ck_ok k" "record_id k = r" and a: "read_start r start = Inr a" and b: "read_stop r stop = Inr b"
  shows "(a \<le> k \<and> k < b) \<longleftrightarrow> in_bounds start stop (item_key k) \<and> (stop = None \<longrightarrow> item_key k < [255])"
proof -
  have kb: "as_bytes k = r @ SEPARATOR # item_key k" using ck_collapse [OF k(1)] k(2) by (metis composite_key.sel)
  have "a \<le> k \<longleftrightarrow> (case start of None \<Rightarrow> True | Some s \<Rightarrow> s \<le> item_key k)"
    using a by (auto simp: read_start_def ck_new_eq_Inr min_key_eq_Inr less_eq_composite_key_def kb append_le_left split: option.splits)
  moreover have "k < b \<longleftrightarrow> (case stop of None \<Rightarrow> item_key k < [255] | Some t \<Rightarrow> item_key k < t)"
    using b by (auto simp: read_stop_def ck_new_eq_Inr max_key_eq_Inr less_composite_key_def kb append_less_left RANGE_TOMBSTONE_PREFIX_def split: option.splits)
  ultimately show ?thesis by (auto simp: in_bounds_def split: option.splits)
qed

lemma engine_keys_ok:
  assumes "engine_ok ev e hs T" and "visible (concat hs) (table_entries T) k x"
  shows "ck_ok (me_composite_key x)"
proof -
  have "x \<in> set (concat hs) \<or> x \<in> set (table_entries T)" using assms(2) by (auto simp: visible_def)
  moreover have "ck_ok (me_composite_key x)" if "x \<in> set (concat hs)"
  proof -
    have r: "list_all2 mt_repr (ml_active (en_memtable_list e) # ml_frozen (en_memtable_list e)) hs"
      using assms(1) ml_built_repr by (auto simp: engine_ok_def ml_repr_def)
    obtain h where "h \<in> set hs" "x \<in> set h" using \<open>x \<in> set (concat hs)\<close> by auto
    then show ?thesis using list_all2_partner [OF r] by (auto simp: mt_repr_def)
  qed
  ultimately show ?thesis using assms(1) by (auto simp: engine_ok_def store_ok_def entry_ok_def)
qed

text \<open>Scans through a cache whose blocks are those of the store.\<close>

definition block_requests :: "level_state list \<Rightarrow> request set" where
  "block_requests levels = {(hn_path h, ie_block_offset x, ie_block_size x, ft_compression_type (hn_footer h)) |h x.
     \<exists>ls i. ls \<in> set levels \<and> h \<in> set (ls_handles ls) \<and> ib_get (hn_index_block h) i = Some x}"

lemma cached_fetch:
  assumes "coherent M F R c" and "(p, off, sz, k) \<in> R"
  shows "fetch_block (cached_view M c F) p off sz k = fetch_block F p off sz k"
  using coherentD [OF assms] by (auto simp: cached_view_def caching_fetch_block_def Let_def prod_eq_iff split: prod.splits option.splits sum.splits)

lemma scan_blocks_cong: "(\<And>i. get i = get' i) \<Longrightarrow> scan_blocks get first s lo hi is = scan_blocks get' first s lo hi is"
  by (metis ext)

lemma handle_scan_view:
  assumes "coherent M F (block_requests levels) c" and "ls \<in> set levels" and "h \<in> set (ls_handles ls)"
  shows "handle_scan (cached_view M c F) h lo hi = handle_scan F h lo hi"
proof -
  have "handle_get_block (cached_view M c F) h i = handle_get_block F h i" for i
  proof (cases "ib_get (hn_index_block h) i")
    case (Some x)
    then have "(hn_path h, ie_block_offset x, ie_block_size x, ft_compression_type (hn_footer h)) \<in> block_requests levels"
      using assms(2,3) unfolding block_requests_def by blast
    then show ?thesis using cached_fetch [OF assms(1)] Some by (simp add: handle_get_block_def from_option_def)
  qed (simp add: handle_get_block_def from_option_def)
  then show ?thesis by (simp add: handle_scan_def cong: scan_blocks_cong)
qed

lemma handle_sources_view:
  assumes "\<forall>h \<in> set hs. handle_scan F' h a (Some b) = handle_scan F h a (Some b)"
  shows "handle_sources F' a b n hs = handle_sources F a b n hs"
  using assms by (induction hs arbitrary: n) (simp_all cong: if_cong)

lemma range_candidates_subset: "set (find_candidates_for_range a b ls) \<subseteq> set (ls_handles ls)"
  by (auto simp: find_candidates_for_range_def)

lemma level_sources_view:
  assumes "coherent M F (block_requests levels) c" and "set lss \<subseteq> set levels"
  shows "level_sources (cached_view M c F) a b n lss = level_sources F a b n lss"
  using assms(2)
proof (induction lss arbitrary: n)
  case (Cons ls lss)
  have "handle_sources (cached_view M c F) a b n (find_candidates_for_range a b ls) = handle_sources F a b n (find_candidates_for_range a b ls)"
    using Cons.prems range_candidates_subset [of a b ls] by (intro handle_sources_view ballI handle_scan_view [OF assms(1), of ls]) auto
  moreover have "level_sources (cached_view M c F) a b k lss = level_sources F a b k lss" for k using Cons by simp
  ultimately show ?case by simp
qed simp

lemma range_read_view:
  assumes "coherent M F (block_requests levels) c"
  shows "range_read (cached_view M c F) rid sk ek opts l levels = range_read F rid sk ek opts l levels"
  unfolding range_read_def level_sources_view [OF assms order_refl] ..

lemma read_pages_view:
  assumes "coherent M F (block_requests levels) c"
  shows "read_pages n (cached_view M c F) rid sk ek opts l levels = read_pages n F rid sk ek opts l levels"
  by (induction n arbitrary: opts) (simp_all add: range_read_view [OF assms] split: option.splits sum.splits)

lemma nm_scan_serves:
  assumes "serves sv m namespace rid i st e" and "engine_scan (sv_engine sv namespace (of_nat i)) (string_bytes rid) sk ek opts e = Some r"
  shows "nm_scan sv namespace rid sk ek opts m = Some (r, with_engine namespace i st e m)"
proof -
  let ?f = "\<lambda>ev e. map_option (\<lambda>r. (r, e)) (engine_scan ev (string_bytes rid) sk ek opts e)"
  have "check_readable (with_store (nm_backend m) (ns_partitions st ! i)) = Inr ()"
    using assms(1) by (simp add: serves_def check_readable_def is_readable_def with_store_def)
  then have "nm_scan sv namespace rid sk ek opts m = dispatch sv namespace rid (\<lambda>ev. on_engine (?f ev)) m"
    using assms(1) by (simp add: nm_scan_def dispatch_def run_at_def serves_def partition_scan_def guarded_def)
  then show ?thesis using dispatch_serves [OF assms(1), of ?f] assms(2) by simp
qed

lemma scan_range_pages:
  assumes "serves sv m namespace rid i st e" and ev: "ev = sv_engine sv namespace (of_nat i)"
    and "read_pages n (en_fetcher ev e) (string_bytes rid) sk ek \<lparr>page_size_bytes = sz, item_limit = None, resume_from = resume\<rparr> (en_memtable_list e) (en_levels e) = Some pages"
  shows "\<exists>its m' st'. scan_range n sv namespace rid sk ek sz resume m = Some (map Inr its, m') \<and> serves sv m' namespace rid i st' e
    \<and> concat its = map merge_entry_to_proto_item (filter mg_is_put (concat pages)) \<and> [] \<notin> set its"
  using assms(1,3)
proof (induction n arbitrary: m st resume pages)
  case (Suc n)
  let ?opts = "\<lparr>page_size_bytes = sz, item_limit = None, resume_from = resume\<rparr>"
  obtain r where r: "range_read (en_fetcher ev e) (string_bytes rid) sk ek ?opts (en_memtable_list e) (en_levels e) = Some (Inr r)"
    using Suc.prems(2) by (auto split: option.splits sum.splits)
  then have s: "nm_scan sv namespace rid sk ek ?opts m = Some (Inr r, with_engine namespace i st e m)"
    using nm_scan_serves [OF Suc.prems(1)] by (simp add: engine_scan_def ev)
  note srv = with_engine_serves [OF Suc.prems(1), of e]
  let ?items = "map merge_entry_to_proto_item (filter mg_is_put (rr_entries r))"
  have f: "fst (format_scan_response r False) = ?items" by (simp add: format_scan_response_def blank_values_def)
  show ?case
  proof (cases "rr_next_page_token r")
    case None
    then have "pages = [rr_entries r]" using Suc.prems(2) r by simp
    then show ?thesis using s None srv f
      by (intro exI [of _ "if ?items = [] then [] else [?items]"] exI [of _ "with_engine namespace i st e m"] exI) (auto simp: Let_def)
  next
    case (Some t)
    then obtain ps where ps: "pages = rr_entries r # ps"
      "read_pages n (en_fetcher ev e) (string_bytes rid) sk ek (?opts\<lparr>resume_from := Some t\<rparr>) (en_memtable_list e) (en_levels e) = Some ps"
      using Suc.prems(2) r by auto
    from Suc.IH [OF srv, of "Some t" ps] ps(2) obtain its m' st' where
      i: "scan_range n sv namespace rid sk ek sz (Some t) (with_engine namespace i st e m) = Some (map Inr its, m')" "serves sv m' namespace rid i st' e"
        "concat its = map merge_entry_to_proto_item (filter mg_is_put (concat ps))" "[] \<notin> set its" by auto
    then show ?thesis using s Some f ps(1)
      by (intro exI [of _ "(if ?items = [] then [] else [?items]) @ its"] exI [of _ m'] exI [of _ st']) (auto simp: Let_def)
  qed
qed simp

text \<open>C3: the stream of a scan. For a record served by an active partition with an engine in a well-formed state (whose SSTables keep all versions of a key in one block), a block cache whose
  entries for the blocks of the open SSTables are what the store holds, a range predicate with usable bounds and no range deletion among the keys of the range, the scan ends after at most one page more
  than there are items, no part of the stream is an error or empty, and the parts together are exactly the visible items of the record
  whose key the predicate asks for, with inclusive and exclusive bounds as given, each once and in key order. Without an end key, item keys from \<^verbatim>\<open>0xFF\<close> on are not part of it.\<close>
theorem scan_stream_complete:
  assumes s: "serves sv m (sq_namespace req) (sq_id req) i st e" and ev: "ev = sv_engine sv (sq_namespace req) (of_nat i)"
    and ok: "engine_ok ev e hs T" and cache: "coherent (ev_moka ev) (direct_fetcher (ev_codecs ev) (en_objects e)) (block_requests (en_levels e)) (en_block_cache e)"
    and req: "sq_predicate req = Some (Some (ProtoMatchRange mr))" "validate_namespace (sq_namespace req) = Inr ()" "validate_request_id (sq_id req) = Inr ()"
    and p: "parse_predicate (sq_predicate req) = Inr (MatchRange start stop si ei)"
    and b: "read_start (string_bytes (sq_id req)) start = Inr a" "read_stop (string_bytes (sq_id req)) stop = Inr z"
    and nodel: "\<forall>x \<in> set (concat hs @ table_entries T). a \<le> me_composite_key x \<and> me_composite_key x < z \<longrightarrow> me_entry_type x \<noteq> RangeDelete"
  shows "\<exists>vs its m'. listing (concat hs) (table_entries T) (string_bytes (sq_id req))
        (\<lambda>k. asked_for mr (item_key k) \<and> (mr_end_key mr = [] \<longrightarrow> item_key k < [255])) vs
    \<and> handle_scan_items (Suc (length vs)) sv req m = Some (Inr (map Inr its), m')
    \<and> concat its = map merge_entry_to_proto_item vs \<and> [] \<notin> set its"
proof -
  let ?rid = "string_bytes (sq_id req)" and ?base = "table_entries T" and ?sz = "unat (nc_default_page_size_bytes (ns_config st))"
  let ?opts = "\<lparr>page_size_bytes = ?sz, item_limit = None, resume_from = None\<rparr>"
  note lv = engine_ok_levels [OF ok]
  have m: "ml_built (en_memtable_list e) hs" "below_memtables ?base (concat hs)" using ok by (simp_all add: engine_ok_def)
  obtain vs where vs: "listing (concat hs) ?base ?rid (\<lambda>k. a \<le> k \<and> k < z) vs"
    using range_read_page [OF m(1) lv m(2) _ b(2) nodel, where opts = ?opts and sk = start] b(1) by auto
  obtain pages where pages: "read_pages (Suc (length vs)) (en_fetcher ev e) ?rid start stop ?opts (en_memtable_list e) (en_levels e) = Some pages" "concat pages = vs"
    using read_pages_listing [OF m(1) lv m(2) b(2) nodel, where opts = ?opts and sk = start and vs = vs and fuel = "length vs"] b(1) vs
    unfolding en_fetcher_def read_pages_view [OF cache] by auto
  obtain its m' where its: "scan_range (Suc (length vs)) sv (sq_namespace req) (sq_id req) start stop ?sz None m = Some (map Inr its, m')"
    "concat its = map merge_entry_to_proto_item (filter mg_is_put vs)" "[] \<notin> set its"
    using scan_range_pages [OF s ev pages(1)] unfolding pages(2) by blast
  have "\<forall>v \<in> set vs. mg_is_put v" using vs by (auto simp: listing_def visible_def mg_is_put_def mg_from_memtable_entry_def)
  then have puts: "filter mg_is_put vs = vs" by simp
  have none: "stop = None \<longleftrightarrow> mr_end_key mr = []" using p unfolding req(1) by (auto simp: parse_predicate_def split: if_splits)
  have same: "(a \<le> me_composite_key x \<and> me_composite_key x < z) \<longleftrightarrow> asked_for mr (item_key (me_composite_key x)) \<and> (mr_end_key mr = [] \<longrightarrow> item_key (me_composite_key x) < [255])"
    if "visible (concat hs) ?base (me_composite_key x) x" "record_id (me_composite_key x) = ?rid" for x
    using bounds_exact [OF engine_keys_ok [OF ok that(1)] that(2) b] parse_range_exact [OF p [unfolded req(1)], of "item_key (me_composite_key x)"] none by simp
  then have "{x. visible (concat hs) ?base (me_composite_key x) x \<and> record_id (me_composite_key x) = ?rid \<and> (a \<le> me_composite_key x \<and> me_composite_key x < z)}
    = {x. visible (concat hs) ?base (me_composite_key x) x \<and> record_id (me_composite_key x) = ?rid
        \<and> (asked_for mr (item_key (me_composite_key x)) \<and> (mr_end_key mr = [] \<longrightarrow> item_key (me_composite_key x) < [255]))}"
    by (intro Collect_cong) blast
  then have "listing (concat hs) ?base ?rid (\<lambda>k. asked_for mr (item_key k) \<and> (mr_end_key mr = [] \<longrightarrow> item_key k < [255])) vs"
    using vs unfolding listing_def by simp
  moreover have "get_namespace_config (sq_namespace req) m = Inr (ns_config st)" using s by (simp add: serves_def get_namespace_config_def)
  then have "handle_scan_items (Suc (length vs)) sv req m = Some (Inr (map Inr its), m')"
    using its(1) p req(2,3) by (simp add: handle_scan_items_def checked_def)
  ultimately show ?thesis using its(2,3) puts by (intro exI [of _ vs] exI [of _ its] exI [of _ m']) simp
qed

section \<open>Puts\<close>

lemma string_bytes_zero: "0 \<in> set (string_bytes s) \<longleftrightarrow> CHR 0x00 \<in> set s"
proof -
  have "(of_char c :: u8) = 0 \<longleftrightarrow> c = CHR 0x00" for c
  proof
    assume "(of_char c :: u8) = 0"
    then have "(of_nat (of_char c) :: u8) = 0" by (simp add: of_nat_of_char)
    then have "take_bit 8 (of_char c :: nat) = 0" by (simp add: word_of_nat_eq_0_iff dvd_eq_mod_eq_0 take_bit_eq_mod)
    moreover have "(of_char c :: nat) < 256" using of_char_mod_256 [of c, where 'a = nat] by (metis mod_less_divisor zero_less_numeral)
    ultimately have "(of_char c :: nat) = of_char (CHR 0x00)" by (simp add: take_bit_nat_eq_self)
    then show "c = CHR 0x00" by (simp only: of_char_eq_iff)
  qed simp
  then show ?thesis by (auto simp: string_bytes_def image_iff)
qed

lemma request_keys_valid:
  assumes "validate_request_id rid = Inr ()" and "validate_items items = Inr ()"
  shows "\<forall>i \<in> set (batch_items tok items). \<exists>k. ck_new (string_bytes rid) (pb_item_key i) = Inr k"
proof -
  have r: "rid_ok (string_bytes rid)"
    using assms(1) by (auto simp: validate_request_id_def rid_ok_def SEPARATOR_def string_bytes_zero split: if_splits) (simp_all add: string_bytes_def)
  have "validate_item_lengths is = Inr () \<Longrightarrow> \<forall>i \<in> set is. length (pi_key i) \<le> MAX_ITEM_KEY_LEN" for "is"
    by (induction "is") (auto split: if_splits)
  then have "\<forall>i \<in> set items. length (pi_key i) \<le> MAX_ITEM_KEY_LEN" using assms(2) by (simp add: validate_items_def split: if_splits)
  then show ?thesis using r by (auto simp: batch_items_def ck_new_eq_Inr dest!: in_set_enumerate_eq [THEN iffD1])
qed

lemma nm_put_batch_serves:
  assumes "serves sv m namespace rid i st e" and "engine_put_batch (sv_engine sv namespace (of_nat i)) (string_bytes rid) items e = Some (r, e')"
  shows "nm_put_batch sv namespace rid items m = Some (r, with_engine namespace i st e' m)"
proof -
  let ?f = "\<lambda>ev. engine_put_batch ev (string_bytes rid) items"
  have "check_writable (with_store (nm_backend m) (ns_partitions st ! i)) = Inr ()"
    using assms(1) by (simp add: serves_def check_writable_def is_writable_def with_store_def)
  then have "nm_put_batch sv namespace rid items m = dispatch sv namespace rid (\<lambda>ev. on_engine (?f ev)) m"
    using assms(1) by (simp add: nm_put_batch_def dispatch_def run_at_def serves_def partition_put_batch_def guarded_def)
  then show ?thesis using dispatch_serves [OF assms(1), of ?f] assms(2) by simp
qed

lemma nm_multi_get_serves:
  assumes "serves sv m namespace rid i st e"
  shows "nm_multi_get sv namespace rid keys m = Some (engine_multi_get (sv_engine sv namespace (of_nat i)) (string_bytes rid) keys e, with_engine namespace i st e m)"
proof -
  let ?f = "\<lambda>ev e. Some (engine_multi_get ev (string_bytes rid) keys e, e)"
  have "check_readable (with_store (nm_backend m) (ns_partitions st ! i)) = Inr ()"
    using assms(1) by (simp add: serves_def check_readable_def is_readable_def with_store_def)
  then have "nm_multi_get sv namespace rid keys m = dispatch sv namespace rid (\<lambda>ev. on_engine (?f ev)) m"
    using assms(1) by (simp add: nm_multi_get_def dispatch_def run_at_def serves_def partition_multi_get_def guarded_def)
  then show ?thesis using dispatch_serves [OF assms(1), of ?f] by simp
qed

text \<open>Writing back the engine a partition already has changes nothing.\<close>

lemma with_engine_again:
  assumes "serves sv m namespace rid i st e"
  shows "with_engine namespace i (st\<lparr>ns_partitions := (ns_partitions st)[i := (ns_partitions st ! i)\<lparr>pt_engine := e'\<rparr>]\<rparr>) e' (with_engine namespace i st e' m)
    = with_engine namespace i st e' m"
proof -
  have "i < length (ns_partitions st)" using assms resolve_range by (auto simp: serves_def)
  then show ?thesis by (simp add: with_engine_def put_partition_def update_triv update_conv')
qed

lemma serves_version: "serves sv (m\<lparr>nm_version_gen := g\<rparr>) namespace rid i st e \<longleftrightarrow> serves sv m namespace rid i st e"
  by (simp add: serves_def resolve_partition_def)

lemma with_engine_version: "with_engine namespace i st e (m\<lparr>nm_version_gen := g\<rparr>) = (with_engine namespace i st e m)\<lparr>nm_version_gen := g\<rparr>"
  by (simp add: with_engine_def put_partition_def)

lemma handle_put_serves:
  assumes "serves sv m (pr_namespace req) (pr_id req) i st e"
    and "validate_namespace (pr_namespace req) = Inr ()" "validate_request_id (pr_id req) = Inr ()" "validate_items (pr_items req) = Inr ()"
    and "proto_to_idempotency_token (pr_idempotency_token req) = Inr tok"
    and "engine_put_batch (sv_engine sv (pr_namespace req) (of_nat i)) (string_bytes (pr_id req)) (batch_items tok (pr_items req)) e = Some (Inr k, e')"
    and "next_version clock (nm_version_gen m) = (Some v, g)"
  shows "handle_put_items sv clock req m = Some (Inr (ordered_key_to_proto v), (with_engine (pr_namespace req) i st e' m)\<lparr>nm_version_gen := g\<rparr>)"
proof -
  have "nm_version_gen (with_engine (pr_namespace req) i st e' m) = nm_version_gen m" by (simp add: with_engine_def put_partition_def)
  then show ?thesis using nm_put_batch_serves [OF assms(1,6)] assms(2-5,7)
    by (simp add: handle_put_items_def checked_def performed_def answer_version_def nm_next_version_def)
qed

lemma derived_tokens:
  assumes "proto_to_idempotency_token p = Inr tok" and "generation_time tok \<noteq> 0"
  shows "\<forall>i \<in> set (batch_items tok items). \<not> token_is_none (pb_idempotency_token i)"
proof -
  have none: "generation_time t = 0" if "token_is_none t" for t
    using that by (simp add: generation_time_def token_is_none_def IDEMPOTENCY_TOKEN_SIZE_def GENERATION_TIME_SIZE_def from_be_bytes_def numeral_eq_Suc)
  have ok: "token_ok tok"
    using assms(1) by (auto simp: proto_to_idempotency_token_def token_ok_def token_none_def token_from_parts_def IDEMPOTENCY_TOKEN_SIZE_def split: option.splits if_splits)
  have "\<not> token_is_none tok" using none assms(2) by blast
  then have "\<not> token_is_none (derive_for_index tok k)" for k
    using derive_for_index_injective [OF ok, of k k] none assms(2) by metis
  then show ?thesis by (auto simp: batch_items_def)
qed

lemma get_key_serves:
  assumes "serves sv m namespace rid i st e" and "validate_namespace namespace = Inr ()" "validate_request_id rid = Inr ()"
    and "engine_multi_get (sv_engine sv namespace (of_nat i)) (string_bytes rid) [k] e = Inr [Some g]"
  shows "handle_get_items sv \<lparr>gq_namespace = namespace, gq_id = rid, gq_predicate = Some (Some (ProtoMatchKeys [k])), gq_selection = None\<rparr> m
    = Some (Inr ([get_result_to_proto_item g], []), with_engine namespace i st e m)"
proof -
  have "get_namespace_config namespace m = Inr (ns_config st)" using assms(1) by (simp add: serves_def get_namespace_config_def)
  then show ?thesis using nm_multi_get_serves [OF assms(1), of "[k]"] assms(2-4)
    by (simp add: handle_get_items_def checked_def performed_def parse_predicate_def parse_selection_def format_get_response_def blank_values_def)
qed

lemma put_items_ok:
  assumes s: "serves sv m (pr_namespace req) (pr_id req) i st e" and ev: "ev = sv_engine sv (pr_namespace req) (of_nat i)"
    and req: "validate_namespace (pr_namespace req) = Inr ()" "validate_request_id (pr_id req) = Inr ()" "validate_items (pr_items req) = Inr ()"
      "proto_to_idempotency_token (pr_idempotency_token req) = Inr tok" "generation_time tok \<noteq> 0"
    and rid: "rid = string_bytes (pr_id req)" and items: "items = batch_items tok (pr_items req)"
    and ok: "engine_ok ev e (h # hs) T" and stall: "check_write_stall e = Some (Inr (), e)"
    and acc: "acc = accepted (me_idempotency_key ` set (concat (h # hs))) items" "acc \<noteq> []"
    and n: "n = en_next_sequence e" "mt_next_sequence_number (ml_active (en_memtable_list e)) \<le> n" "unat n + length items < 2 ^ 64"
    and fits: "batch_fits ev (next_tick e) (batch_rows rid n acc)"
    and ws: "ws = map (\<lambda>x. from_memtable_entry x (string_bytes (ec_namespace (en_config e)))) (batch_rows rid n acc)"
      "log_idle (ev_crc ev) (en_wal_manager e) lg" "log_room (en_wal_manager e) lg ws"
    and v: "next_version clock (nm_version_gen m) = (Some v, g)" "next_version clock' g = (Some v', g')"
  shows "\<exists>m1 e' st'. handle_put_items sv clock req m = Some (Inr (ordered_key_to_proto v), m1)
    \<and> handle_put_items sv clock' req m1 = Some (Inr (ordered_key_to_proto v'), m1\<lparr>nm_version_gen := g'\<rparr>)
    \<and> serves sv m1 (pr_namespace req) (pr_id req) i st' e' \<and> engine_ok ev e' ((h @ batch_rows rid n acc) # hs) T
    \<and> en_objects e' = en_objects e \<and> en_levels e' = en_levels e \<and> en_block_cache e' = en_block_cache e
    \<and> (\<forall>j < length acc. (\<forall>k. j < k \<and> k < length acc \<longrightarrow> pb_item_key (acc ! k) \<noteq> pb_item_key (acc ! j)) \<longrightarrow>
         handle_get_items sv \<lparr>gq_namespace = pr_namespace req, gq_id = pr_id req, gq_predicate = Some (Some (ProtoMatchKeys [pb_item_key (acc ! j)])), gq_selection = None\<rparr> m1
         = Some (Inr ([\<lparr>pi_key = pb_item_key (acc ! j), pi_value = pb_value (acc ! j), pi_metadata = pb_metadata (acc ! j), pi_chunk = 0\<rparr>], []), m1))"
proof -
  let ?ns = "pr_namespace req"
  have valid: "\<forall>i \<in> set items. \<exists>k. ck_new rid (pb_item_key i) = Inr k" using request_keys_valid [OF req(2,3)] unfolding rid items by blast
  have tokens: "\<forall>i \<in> set items. \<not> token_is_none (pb_idempotency_token i)" using derived_tokens [OF req(4,5)] unfolding items by blast
  obtain e' where e': "engine_put_batch ev rid items e = Some (Inr (length acc), e')" "engine_ok ev e' ((h @ batch_rows rid n acc) # hs) T"
    "\<forall>j < length acc. (\<forall>i. j < i \<and> i < length acc \<longrightarrow> pb_item_key (acc ! i) \<noteq> pb_item_key (acc ! j)) \<longrightarrow>
       engine_multi_get ev rid [pb_item_key (acc ! j)] e' = Inr [Some \<lparr>gr_key = CompositeKey (rid @ SEPARATOR # pb_item_key (acc ! j)), gr_value = pb_value (acc ! j),
           gr_metadata = pb_metadata (acc ! j), gr_sequence_number = n + of_nat j\<rparr>]"
    "engine_put_batch ev rid items e' = Some (Inr 0, e')" "en_objects e' = en_objects e" "en_levels e' = en_levels e" "en_block_cache e' = en_block_cache e"
    using put_batch_ok [OF ok stall valid acc n fits ws] tokens by blast
  let ?m = "with_engine ?ns i st e' m" and ?st = "st\<lparr>ns_partitions := (ns_partitions st)[i := (ns_partitions st ! i)\<lparr>pt_engine := e'\<rparr>]\<rparr>"
  let ?m1 = "?m\<lparr>nm_version_gen := g\<rparr>"
  have p1: "handle_put_items sv clock req m = Some (Inr (ordered_key_to_proto v), ?m1)"
    using handle_put_serves [OF s req(1-4) _ v(1)] e'(1) unfolding ev rid items by simp
  have s1: "serves sv ?m1 ?ns (pr_id req) i ?st e'" using with_engine_serves [OF s, of e'] by (simp only: serves_version)
  have again: "with_engine ?ns i ?st e' ?m1 = ?m1" unfolding with_engine_version with_engine_again [OF s] ..
  have p2: "handle_put_items sv clock' req ?m1 = Some (Inr (ordered_key_to_proto v'), ?m1\<lparr>nm_version_gen := g'\<rparr>)"
    using handle_put_serves [OF s1 req(1-4), of 0 e' clock' v' g'] e'(4) v(2) again unfolding ev rid items by simp
  have "rid_ok rid" using valid acc accepted_subset unfolding acc(1) by (metis accepted.simps(1) ck_new_eq_Inr list.set_intros(1) neq_Nil_conv)
  then have item: "item_key (CompositeKey (rid @ SEPARATOR # k)) = k" for k by (simp add: rid_ok_def)
  have "handle_get_items sv \<lparr>gq_namespace = ?ns, gq_id = pr_id req, gq_predicate = Some (Some (ProtoMatchKeys [pb_item_key (acc ! j)])), gq_selection = None\<rparr> ?m1
      = Some (Inr ([\<lparr>pi_key = pb_item_key (acc ! j), pi_value = pb_value (acc ! j), pi_metadata = pb_metadata (acc ! j), pi_chunk = 0\<rparr>], []), ?m1)"
    if "j < length acc" "\<forall>k. j < k \<and> k < length acc \<longrightarrow> pb_item_key (acc ! k) \<noteq> pb_item_key (acc ! j)" for j
    using get_key_serves [OF s1 req(1,2), of "pb_item_key (acc ! j)"] e'(3) that again unfolding ev rid
    by (simp add: get_result_to_proto_item_def item [unfolded rid])
  then show ?thesis using p1 p2 s1 e'(2,5-7) by blast
qed

text \<open>C2: a put request can be repeated as long as it fills no memtable. For a record served by an active partition whose engine is well formed, not stalled and has room in its log, a request with a token of
  non-zero generation time, with an item not seen before, and whose items leave the memtable below its limits (\<open>batch_fits\<close>), is answered with a version and its items are read back by key,
  the last one under each key; sent again, as a client does that has seen no answer, it is answered with the next version and nothing else of the server changes: no item is
  written twice. (A batch that fills the memtable is flushed on the way and its tokens are forgotten; a token with generation time zero may give an item the empty token, which is not looked up.)\<close>
theorem put_items_idempotent:
  assumes "serves sv m (pr_namespace req) (pr_id req) i st e" and "ev = sv_engine sv (pr_namespace req) (of_nat i)"
    and "validate_namespace (pr_namespace req) = Inr ()" "validate_request_id (pr_id req) = Inr ()" "validate_items (pr_items req) = Inr ()"
      "proto_to_idempotency_token (pr_idempotency_token req) = Inr tok" "generation_time tok \<noteq> 0"
    and "rid = string_bytes (pr_id req)" and "items = batch_items tok (pr_items req)"
    and "engine_ok ev e (h # hs) T" and "check_write_stall e = Some (Inr (), e)"
    and "acc = accepted (me_idempotency_key ` set (concat (h # hs))) items" "acc \<noteq> []"
    and "n = en_next_sequence e" "mt_next_sequence_number (ml_active (en_memtable_list e)) \<le> n" "unat n + length items < 2 ^ 64"
    and "batch_fits ev (next_tick e) (batch_rows rid n acc)"
    and "ws = map (\<lambda>x. from_memtable_entry x (string_bytes (ec_namespace (en_config e)))) (batch_rows rid n acc)"
      "log_idle (ev_crc ev) (en_wal_manager e) lg" "log_room (en_wal_manager e) lg ws"
    and "next_version clock (nm_version_gen m) = (Some v, g)" "next_version clock' g = (Some v', g')"
  shows "\<exists>m1. handle_put_items sv clock req m = Some (Inr (ordered_key_to_proto v), m1)
    \<and> handle_put_items sv clock' req m1 = Some (Inr (ordered_key_to_proto v'), m1\<lparr>nm_version_gen := g'\<rparr>)
    \<and> (\<forall>j < length acc. (\<forall>k. j < k \<and> k < length acc \<longrightarrow> pb_item_key (acc ! k) \<noteq> pb_item_key (acc ! j)) \<longrightarrow>
         handle_get_items sv \<lparr>gq_namespace = pr_namespace req, gq_id = pr_id req, gq_predicate = Some (Some (ProtoMatchKeys [pb_item_key (acc ! j)])), gq_selection = None\<rparr> m1
         = Some (Inr ([\<lparr>pi_key = pb_item_key (acc ! j), pi_value = pb_value (acc ! j), pi_metadata = pb_metadata (acc ! j), pi_chunk = 0\<rparr>], []), m1))"
  using put_items_ok [OF assms] by blast

section \<open>A request to a fresh server\<close>

abbreviation sample_token :: idempotency_token where
  "sample_token \<equiv> token_from_parts 9 (replicate 16 1)"

abbreviation sample_request :: put_items_request where
  "sample_request \<equiv> \<lparr>pr_idempotency_token = Some \<lparr>pit_generation_time = 9, pit_token = replicate 16 1\<rparr>, pr_namespace = ''ns'', pr_id = ''a'',
     pr_items = [\<lparr>pi_key = [5], pi_value = [7], pi_metadata = [8], pi_chunk = 0\<rparr>]\<rparr>"

abbreviation sample_batch :: "put_batch_item list" where
  "sample_batch \<equiv> [\<lparr>pb_item_key = [5], pb_value = [7], pb_metadata = [8], pb_idempotency_token = sample_token\<rparr>]"

lemma sample_token_time: "generation_time sample_token = 9"
  by (simp add: generation_time_def token_from_parts_def GENERATION_TIME_SIZE_def from_to_be_bytes)

lemma sample_request_valid:
  "validate_namespace (pr_namespace sample_request) = Inr ()" "validate_request_id (pr_id sample_request) = Inr ()" "validate_items (pr_items sample_request) = Inr ()"
  "proto_to_idempotency_token (pr_idempotency_token sample_request) = Inr sample_token" "generation_time sample_token \<noteq> 0"
  "[97] = string_bytes (pr_id sample_request)" "sample_batch = batch_items sample_token (pr_items sample_request)"
  "sample_batch = accepted (me_idempotency_key ` set (concat ([] # []))) sample_batch" "sample_batch \<noteq> []"
  by (simp_all add: validate_namespace_def validate_request_id_def validate_items_def proto_to_idempotency_token_def MAX_RECORD_ID_LEN_def MAX_ITEM_KEY_LEN_def
      string_bytes_def batch_items_def derive_for_index_def sample_token_time Let_def)

lemma sample_serving:
  "\<exists>m st e lg. serves sample_server m ''ns'' ''a'' 0 st e \<and> engine_ok sample_env e ([] # []) (\<lambda>_. []) \<and> check_write_stall e = Some (Inr (), e)
     \<and> 1 = en_next_sequence e \<and> mt_next_sequence_number (ml_active (en_memtable_list e)) \<le> 1 \<and> batch_fits sample_env (next_tick e) (batch_rows [97] 1 sample_batch)
     \<and> log_idle (ev_crc sample_env) (en_wal_manager e) lg
     \<and> log_room (en_wal_manager e) lg (map (\<lambda>x. from_memtable_entry x (string_bytes (ec_namespace (en_config e)))) (batch_rows [97] 1 sample_batch))
     \<and> nm_version_gen m = vg_new 1 \<and> en_block_cache e = Map.empty \<and> en_levels e = empty_levels"
proof -
  obtain m :: "(block_cache_key \<Rightarrow> cached_block option) namespace_manager" and p lg where c: "map_of (nm_namespaces m) ''ns'' = Some \<lparr>ns_config = sample_config, ns_router = router_new sample_config, ns_partitions = [p]\<rparr>"
    "pt_state p = Active" "engine_ok sample_env (pt_engine p) ([] # []) (\<lambda>_. [])" "en_objects (pt_engine p) = nm_backend m"
    "en_memtable_list (pt_engine p) = ml_new (\<lambda>_. 1) 0 (memtable_config_default\<lparr>size_threshold := 67108864\<rparr>) 1" "en_next_sequence (pt_engine p) = 1"
    "en_block_cache (pt_engine p) = Map.empty" "en_levels (pt_engine p) = empty_levels" "nm_version_gen m = vg_new 1"
    "en_config (pt_engine p) = (the (nc_engine_config (\<lambda>_. 10) sample_config))\<lparr>ec_namespace := ''partition-'' @ pad0 4 0\<rparr>"
    "check_write_stall (pt_engine p) = Some (Inr (), pt_engine p)" "log_idle (\<lambda>_. 0) (en_wal_manager (pt_engine p)) lg"
    "\<forall>ws. (\<forall>w \<in> set ws. wal_entry_fits w) \<and> length ws < 10 \<longrightarrow> log_room (en_wal_manager (pt_engine p)) lg ws"
    using sample_created [of "vg_new 1"] by blast
  let ?e = "pt_engine p" and ?ml = "ml_new (\<lambda>_. 1) 0 (memtable_config_default\<lparr>size_threshold := 67108864\<rparr>) 1"
  have self: "(pt_engine p)\<lparr>en_objects := nm_backend m\<rparr> = pt_engine p" using c(4) by simp
  have "resolve_partition sample_server ''ns'' ''a'' m = Some (Inr 0)"
    using c(1) by (simp add: resolve_partition_def route_def router_new_def sample_config_valid sample_server_def)
  then have "serves sample_server m ''ns'' ''a'' 0 \<lparr>ns_config = sample_config, ns_router = router_new sample_config, ns_partitions = [p]\<rparr> ?e"
    using c(1,2) self by (simp add: serves_def)
  moreover have usage: "mt_approximate_memory_usage (ml_active ?ml) = 0" "mt_config (ml_active ?ml) = memtable_config_default\<lparr>size_threshold := 67108864\<rparr>"
    "mt_created_at (ml_active ?ml) = 0" "ml_frozen ?ml = []" "ml_config ?ml = memtable_config_default\<lparr>size_threshold := 67108864\<rparr>" "mt_next_sequence_number (ml_active ?ml) = 1"
    by (simp_all add: ml_new_def mt_new_def mt_approximate_memory_usage_def sl_new_def sl_with_arena_def arena_new_def arena_with_block_size_def)
  have limit: "memtable_memory_limit memtable_config_default = 268435456" by (simp add: memtable_config_default_def Let_def)
  have cfg: "fc_flush_trigger_age (ec_flush_config (en_config ?e)) = 300000" "length (ec_namespace (en_config ?e)) = 14"
    unfolding c(10) sample_config_valid(6) by (simp_all add: flush_config_default_def length_pad0)
  have fits: "batch_fits sample_env (next_tick ?e) (batch_rows [97] 1 sample_batch)"
    using usage limit by (simp add: batch_fits_def next_tick_def c(5) cfg sample_env_def approximate_entry_size_def me_with_sequence_def
      mt_should_freeze_by_age_def total_memory_sum Let_def)
  let ?ws = "map (\<lambda>x. from_memtable_entry x (string_bytes (ec_namespace (en_config ?e)))) (batch_rows [97] 1 sample_batch)"
  have "\<forall>w \<in> set ?ws. wal_entry_fits w"
    by (simp add: wal_entry_fits_def from_memtable_entry_def me_with_sequence_def string_bytes_def cfg body_size_def
      FIXED_BODY_OVERHEAD_def record_id_def item_key_def SEPARATOR_def token_ok_def IDEMPOTENCY_TOKEN_SIZE_def token_from_parts_def)
  then have room: "log_room (en_wal_manager ?e) lg ?ws" using c(13) [rule_format, of ?ws] by simp
  have "log_idle (ev_crc sample_env) (en_wal_manager ?e) lg" using c(12) by (simp add: sample_env_def)
  ultimately show ?thesis using c(3,6-9,11) fits room usage(6) unfolding c(5) [symmetric]
    by (intro exI [of _ m] exI [of _ "\<lparr>ns_config = sample_config, ns_router = router_new sample_config, ns_partitions = [p]\<rparr>"] exI [of _ ?e] exI [of _ lg]) simp
qed

lemma sample_versions:
  "next_version [5] (vg_new 1) = (Some (OrderedKey 5 1 0), \<lparr>vg_node_id = 1, vg_state = 327681\<rparr>)"
  "next_version [5] \<lparr>vg_node_id = 1, vg_state = 327681\<rparr> = (Some (OrderedKey 5 1 1), \<lparr>vg_node_id = 1, vg_state = 327682\<rparr>)"
  by (simp_all add: vg_new_def next_version_turn_def compare_exchange_def unpack_def pack_def TIMESTAMP_SHIFT_def SEQ_MASK_def)

lemma sample_at: "sample_env = sv_engine sample_server n (of_nat 0)" by (simp add: sample_server_def)

theorem put_items_idempotent_witness:
  "\<exists>m m1. handle_put_items sample_server [5] sample_request m = Some (Inr (ordered_key_to_proto (OrderedKey 5 1 0)), m1)
    \<and> handle_put_items sample_server [5] sample_request m1
        = Some (Inr (ordered_key_to_proto (OrderedKey 5 1 1)), m1\<lparr>nm_version_gen := \<lparr>vg_node_id = 1, vg_state = 327682\<rparr>\<rparr>)
    \<and> handle_get_items sample_server \<lparr>gq_namespace = ''ns'', gq_id = ''a'', gq_predicate = Some (Some (ProtoMatchKeys [[5]])), gq_selection = None\<rparr> m1
        = Some (Inr ([\<lparr>pi_key = [5], pi_value = [7], pi_metadata = [8], pi_chunk = 0\<rparr>], []), m1)"
proof -
  obtain m st e lg where c: "serves sample_server m ''ns'' ''a'' 0 st e" "engine_ok sample_env e ([] # []) (\<lambda>_. [])" "check_write_stall e = Some (Inr (), e)"
    "1 = en_next_sequence e" "mt_next_sequence_number (ml_active (en_memtable_list e)) \<le> 1" "batch_fits sample_env (next_tick e) (batch_rows [97] 1 sample_batch)"
    "log_idle (ev_crc sample_env) (en_wal_manager e) lg"
    "log_room (en_wal_manager e) lg (map (\<lambda>x. from_memtable_entry x (string_bytes (ec_namespace (en_config e)))) (batch_rows [97] 1 sample_batch))"
    "nm_version_gen m = vg_new 1" using sample_serving by blast
  have len: "unat (1 :: u64) + length sample_batch < 2 ^ 64" by simp
  have s: "serves sample_server m (pr_namespace sample_request) (pr_id sample_request) 0 st e" using c(1) by simp
  have v: "next_version [5] (nm_version_gen m) = (Some (OrderedKey 5 1 0), \<lparr>vg_node_id = 1, vg_state = 327681\<rparr>)" unfolding c(9) by (rule sample_versions)
  show ?thesis
    using put_items_idempotent [OF s sample_at sample_request_valid(1-7) c(2,3) sample_request_valid(8,9) c(4,5) len c(6) refl c(7,8) v sample_versions(2)] by fastforce
qed

abbreviation sample_scan :: scan_items_request where
  "sample_scan \<equiv> \<lparr>sq_namespace = ''ns'', sq_id = ''a'', sq_predicate = Some (Some (ProtoMatchRange
     \<lparr>mr_start_key = [4], mr_end_key = [5], mr_start_inclusive = False, mr_end_inclusive = True\<rparr>))\<rparr>"

theorem scan_stream_complete_witness:
  "\<exists>m its m'. handle_scan_items 2 sample_server sample_scan m = Some (Inr (map Inr its), m')
    \<and> concat its = [\<lparr>pi_key = [5], pi_value = [7], pi_metadata = [8], pi_chunk = 0\<rparr>]"
proof -
  obtain m st e lg where c: "serves sample_server m ''ns'' ''a'' 0 st e" "engine_ok sample_env e ([] # []) (\<lambda>_. [])" "check_write_stall e = Some (Inr (), e)"
    "1 = en_next_sequence e" "mt_next_sequence_number (ml_active (en_memtable_list e)) \<le> 1" "batch_fits sample_env (next_tick e) (batch_rows [97] 1 sample_batch)"
    "log_idle (ev_crc sample_env) (en_wal_manager e) lg"
    "log_room (en_wal_manager e) lg (map (\<lambda>x. from_memtable_entry x (string_bytes (ec_namespace (en_config e)))) (batch_rows [97] 1 sample_batch))"
    "nm_version_gen m = vg_new 1" "en_block_cache e = Map.empty" using sample_serving by blast
  let ?rows = "batch_rows [97] 1 sample_batch" and ?r = "me_with_sequence (CompositeKey [97, 0, 5]) [7] [8] sample_token 1 Put"
  have len: "unat (1 :: u64) + length sample_batch < 2 ^ 64" by simp
  have s: "serves sample_server m (pr_namespace sample_request) (pr_id sample_request) 0 st e" using c(1) by simp
  have v: "next_version [5] (nm_version_gen m) = (Some (OrderedKey 5 1 0), \<lparr>vg_node_id = 1, vg_state = 327681\<rparr>)" unfolding c(9) by (rule sample_versions)
  obtain m1 e' st' where p: "serves sample_server m1 ''ns'' ''a'' 0 st' e'" "engine_ok sample_env e' (([] @ ?rows) # []) (\<lambda>_. [])" "en_block_cache e' = Map.empty"
    using put_items_ok [OF s sample_at sample_request_valid(1-7) c(2,3) sample_request_valid(8,9) c(4,5) len c(6) refl c(7,8) v sample_versions(2)] c(10) by auto
  have rows: "?rows = [?r]" by (simp add: SEPARATOR_def)
  have cache: "coherent (ev_moka sample_env) (direct_fetcher (ev_codecs sample_env) (en_objects e')) (block_requests (en_levels e')) (en_block_cache e')"
    by (auto simp: coherent_def p(3) sample_env_def full_moka_def)
  have s': "serves sample_server m1 (sq_namespace sample_scan) (sq_id sample_scan) 0 st' e'" using p(1) by simp
  let ?mr = "\<lparr>mr_start_key = [4], mr_end_key = [5], mr_start_inclusive = False, mr_end_inclusive = True\<rparr>"
  have q: "sq_predicate sample_scan = Some (Some (ProtoMatchRange ?mr))" "validate_namespace (sq_namespace sample_scan) = Inr ()"
      "validate_request_id (sq_id sample_scan) = Inr ()" "parse_predicate (sq_predicate sample_scan) = Inr (MatchRange (Some [4, 0]) (Some [5, 0]) True False)"
      "read_start (string_bytes (sq_id sample_scan)) (Some [4, 0]) = Inr (CompositeKey [97, 0, 4, 0])"
      "read_stop (string_bytes (sq_id sample_scan)) (Some [5, 0]) = Inr (CompositeKey [97, 0, 5, 0])"
    by (simp_all add: validate_namespace_def validate_request_id_def parse_predicate_def string_bytes_def read_start_def read_stop_def ck_new_def MAX_RECORD_ID_LEN_def
        MAX_ITEM_KEY_LEN_def SEPARATOR_def ck_encode_def)
  have none: "table_entries (\<lambda>_. []) = []" by (simp add: table_entries_def)
  have nodel: "\<forall>x \<in> set (concat (([] @ ?rows) # []) @ table_entries (\<lambda>_. [])). CompositeKey [97, 0, 4, 0] \<le> me_composite_key x
      \<and> me_composite_key x < CompositeKey [97, 0, 5, 0] \<longrightarrow> me_entry_type x \<noteq> RangeDelete"
    unfolding rows none by (simp add: me_with_sequence_def)
  obtain vs its m' where s: "listing (concat (([] @ ?rows) # [])) (table_entries (\<lambda>_. [])) (string_bytes (sq_id sample_scan))
        (\<lambda>k. asked_for ?mr (item_key k) \<and> (mr_end_key ?mr = [] \<longrightarrow> item_key k < [255])) vs"
    "handle_scan_items (Suc (length vs)) sample_server sample_scan m1 = Some (Inr (map Inr its), m')" "concat its = map merge_entry_to_proto_item vs"
    using scan_stream_complete [OF s' sample_at p(2) cache q nodel] by blast
  have "visible [?r] [] (me_composite_key x) x \<and> record_id (me_composite_key x) = [97] \<and> asked_for ?mr (item_key (me_composite_key x)) \<longleftrightarrow> x = ?r" for x
    by (auto simp: visible_def history_covers_def me_with_sequence_def record_id_def item_key_def SEPARATOR_def asked_for_def)
  then have "set vs = {mg_from_memtable_entry ?r}" using s(1) unfolding rows none listing_def by (simp add: string_bytes_def)
  moreover have "sorted_wrt (\<lambda>a b. mg_composite_key a < mg_composite_key b) vs" using s(1) by (simp add: listing_def)
  ultimately have vs: "vs = [mg_from_memtable_entry ?r]" by (cases vs rule: remdups_adj.cases) auto
  have item: "merge_entry_to_proto_item (mg_from_memtable_entry ?r) = \<lparr>pi_key = [5], pi_value = [7], pi_metadata = [8], pi_chunk = 0\<rparr>"
    by (simp add: merge_entry_to_proto_item_def mg_from_memtable_entry_def me_with_sequence_def item_key_def SEPARATOR_def)
  have n: "Suc (length vs) = 2" unfolding vs by simp
  have "concat its = [\<lparr>pi_key = [5], pi_value = [7], pi_metadata = [8], pi_chunk = 0\<rparr>]" unfolding s(3) vs by (simp only: list.map item)
  with s(2) [unfolded n] show ?thesis by blast
qed

end
