(* ===== verification/S3_Backend.thy ===== *)
theory S3_Backend
  imports Namespace_Config
begin

text \<open>
  \<^verbatim>\<open>s3_backend.rs\<close>: the object store on S3. Keys are spread over numbered prefixes by their checksum, values above a threshold are uploaded in
  parts, and a listing asks every prefix page by page. The SDK is the record \<open>s3_client\<close> of the requests the backend sends, over a
  state of the service of any type; \<open>s3_ok\<close> says what the service documents of them: strongly consistent reads, a conditional write that fails
  with status 412 when the key exists, a read of a missing key that fails with \<open>NoSuchKey\<close> and one past the end with status 416, an upload that becomes the
  concatenation of its parts, listings in key order. A request may also fail for a reason of its own, such as a lost connection (\<open>unavailable\<close>); one that fails may have been carried out.
\<close>

section \<open>The client\<close>

text \<open>What the backend looks at in an error: whether the service answered, which error it reports, and the HTTP status.\<close>

datatype service_error = NoSuchKey | OtherServiceError
datatype sdk_error = ServiceError service_error u16 string | OtherSdkError string

record list_response =
  lo_contents :: "string option list"
  lo_is_truncated :: "bool option"
  lo_next_continuation_token :: "string option"

type_synonym ('s, 'a) request = "'s \<Rightarrow> (sdk_error + 'a) \<times> 's"

record 's s3_client =
  cl_put_object :: "string \<Rightarrow> string \<Rightarrow> bytes \<Rightarrow> string option \<Rightarrow> ('s, unit) request"
  cl_get_object :: "string \<Rightarrow> string \<Rightarrow> string option \<Rightarrow> ('s, string + bytes) request"
  cl_delete_object :: "string \<Rightarrow> string \<Rightarrow> ('s, unit) request"
  cl_create_multipart_upload :: "string \<Rightarrow> string \<Rightarrow> ('s, string option) request"
  cl_upload_part :: "string \<Rightarrow> string \<Rightarrow> string \<Rightarrow> u32 \<Rightarrow> bytes \<Rightarrow> ('s, string option) request"
  cl_complete_multipart_upload :: "string \<Rightarrow> string \<Rightarrow> string \<Rightarrow> (string \<times> u32) list \<Rightarrow> ('s, unit) request"
  cl_abort_multipart_upload :: "string \<Rightarrow> string \<Rightarrow> string \<Rightarrow> ('s, unit) request"
  cl_list_objects_v2 :: "string \<Rightarrow> string \<Rightarrow> string option \<Rightarrow> ('s, list_response) request"

section \<open>Errors\<close>

fun sdk_error_text :: "sdk_error \<Rightarrow> string" where
  "sdk_error_text (ServiceError _ _ txt) = txt"
| "sdk_error_text (OtherSdkError txt) = txt"

definition map_sdk_error_generic :: "sdk_error \<Rightarrow> flush_error" where
  "map_sdk_error_generic err = Io (sdk_error_text err)"

definition map_get_error :: "string \<Rightarrow> sdk_error \<Rightarrow> flush_error" where
  "map_get_error key err =
     (case err of
        ServiceError NoSuchKey _ _ \<Rightarrow> NotFound key
      | _ \<Rightarrow> Io (sdk_error_text err))"

definition map_get_range_error :: "string \<Rightarrow> sdk_error \<Rightarrow> flush_error" where
  "map_get_range_error key err =
     (case err of
        ServiceError NoSuchKey _ _ \<Rightarrow> NotFound key
      | ServiceError _ status _ \<Rightarrow>
          if status = 416 then InvalidArgument ''range extends beyond object'' else Io (sdk_error_text err)
      | _ \<Rightarrow> Io (sdk_error_text err))"

definition map_conditional_put_error :: "sdk_error \<Rightarrow> flush_error" where
  "map_conditional_put_error err =
     (case err of
        ServiceError _ status _ \<Rightarrow> if status = 412 then PreconditionFailed ''key already exists'' else Io (sdk_error_text err)
      | _ \<Rightarrow> Io (sdk_error_text err))"

text \<open>\<^verbatim>\<open>.send().await.map_err(...)?\<close>.\<close>

definition sent :: "(sdk_error \<Rightarrow> flush_error) \<Rightarrow> (sdk_error + 'a) \<times> 's \<Rightarrow> 'a flush_result \<times> 's" where
  "sent f = map_prod (map_sum f id) id"

section \<open>The backend\<close>

definition MULTIPART_THRESHOLD :: nat where "MULTIPART_THRESHOLD = 16 * 1024 * 1024"
definition MULTIPART_PART_SIZE :: nat where "MULTIPART_PART_SIZE = 16 * 1024 * 1024"

record s3_backend =
  s3_bucket :: string
  s3_prefix_count :: u32

definition s3_new :: "string \<Rightarrow> s3_backend" where
  "s3_new bucket = \<lparr>s3_bucket = bucket, s3_prefix_count = 128\<rparr>"

definition with_prefix_count :: "string \<Rightarrow> u32 \<Rightarrow> s3_backend flush_result" where
  "with_prefix_count bucket prefix_count =
     (if bucket = [] then Inl (InvalidArgument ''bucket name must not be empty'')
      else if prefix_count = 0 then Inl (InvalidArgument ''prefix_count must be greater than 0'')
      else if \<not> is_power_of_two prefix_count then Inl (InvalidArgument (''prefix_count must be a power of 2, got '' @ dec (unat prefix_count)))
      else Inr \<lparr>s3_bucket = bucket, s3_prefix_count = prefix_count\<rparr>)"

definition shard_of :: "(bytes \<Rightarrow> u32) \<Rightarrow> s3_backend \<Rightarrow> string \<Rightarrow> u32" where
  "shard_of crc b logical_key = crc (string_bytes logical_key) mod s3_prefix_count b"

definition shard_key :: "(bytes \<Rightarrow> u32) \<Rightarrow> s3_backend \<Rightarrow> string \<Rightarrow> string" where
  "shard_key crc b logical_key = pad0 3 (unat (shard_of crc b logical_key)) @ ''/'' @ logical_key"

definition put_simple :: "'s s3_client \<Rightarrow> s3_backend \<Rightarrow> string \<Rightarrow> bytes \<Rightarrow> 's \<Rightarrow> unit flush_result \<times> 's" where
  "put_simple cl b sharded_key v s = sent map_sdk_error_generic (cl_put_object cl (s3_bucket b) sharded_key v None s)"

text \<open>The loop over the parts; the first part that fails aborts the upload.\<close>

function upload_parts ::
  "'s s3_client \<Rightarrow> s3_backend \<Rightarrow> string \<Rightarrow> bytes \<Rightarrow> string \<Rightarrow> nat \<Rightarrow> u32 \<Rightarrow> (string \<times> u32) list \<Rightarrow> 's \<Rightarrow> (string \<times> u32) list flush_result \<times> 's" where
  "upload_parts cl b sharded_key v upload_id offset part_number completed_parts s =
     (if offset < length v then
        let stop = min (offset + MULTIPART_PART_SIZE) (length v)
        in case cl_upload_part cl (s3_bucket b) sharded_key upload_id part_number (slice_of offset stop v) s of
             (Inr etag, s) \<Rightarrow>
               upload_parts cl b sharded_key v upload_id stop (part_number + 1) (completed_parts @ [(case etag of None \<Rightarrow> [] | Some t \<Rightarrow> t, part_number)]) s
           | (Inl err, s) \<Rightarrow> (Inl (map_sdk_error_generic err), snd (cl_abort_multipart_upload cl (s3_bucket b) sharded_key upload_id s))
      else (Inr completed_parts, s))"
  by auto
termination
  by (relation "measure (\<lambda>(cl, b, k, v, u, offset, n, ps, s). length v - offset)") (auto simp: MULTIPART_PART_SIZE_def)

declare upload_parts.simps [simp del]

text \<open>When the completion fails the abort request is built and dropped, so nothing is sent.\<close>

definition put_multipart :: "'s s3_client \<Rightarrow> s3_backend \<Rightarrow> string \<Rightarrow> bytes \<Rightarrow> 's \<Rightarrow> unit flush_result \<times> 's" where
  "put_multipart cl b sharded_key v s =
     (case cl_create_multipart_upload cl (s3_bucket b) sharded_key s of
        (Inl err, s) \<Rightarrow> (Inl (map_sdk_error_generic err), s)
      | (Inr None, s) \<Rightarrow> (Inl (Io ''S3 CreateMultipartUpload returned no upload_id''), s)
      | (Inr (Some upload_id), s) \<Rightarrow>
          (case upload_parts cl b sharded_key v upload_id 0 1 [] s of
             (Inl e, s) \<Rightarrow> (Inl e, s)
           | (Inr completed_parts, s) \<Rightarrow>
               sent map_sdk_error_generic (cl_complete_multipart_upload cl (s3_bucket b) sharded_key upload_id completed_parts s)))"

definition s3_put :: "(bytes \<Rightarrow> u32) \<Rightarrow> 's s3_client \<Rightarrow> s3_backend \<Rightarrow> string \<Rightarrow> bytes \<Rightarrow> 's \<Rightarrow> unit flush_result \<times> 's" where
  "s3_put crc cl b key v s =
     (let sharded_key = shard_key crc b key
      in if length v \<le> MULTIPART_THRESHOLD then put_simple cl b sharded_key v s else put_multipart cl b sharded_key v s)"

definition collected :: "(string + bytes) flush_result \<times> 's \<Rightarrow> bytes flush_result \<times> 's" where
  "collected = map_prod (\<lambda>r. bind_res r (map_sum Io id)) id"

definition s3_get :: "(bytes \<Rightarrow> u32) \<Rightarrow> 's s3_client \<Rightarrow> s3_backend \<Rightarrow> string \<Rightarrow> 's \<Rightarrow> bytes flush_result \<times> 's" where
  "s3_get crc cl b key s = collected (sent (map_get_error key) (cl_get_object cl (s3_bucket b) (shard_key crc b key) None s))"

definition range_header :: "nat \<Rightarrow> nat \<Rightarrow> string" where
  "range_header a z = ''bytes='' @ dec a @ ''-'' @ dec z"

definition s3_get_range :: "(bytes \<Rightarrow> u32) \<Rightarrow> 's s3_client \<Rightarrow> s3_backend \<Rightarrow> string \<Rightarrow> u64 \<Rightarrow> u64 \<Rightarrow> 's \<Rightarrow> bytes flush_result \<times> 's" where
  "s3_get_range crc cl b key offset len s =
     (if len = 0 then (Inr [], s)
      else collected (sent (map_get_range_error key)
        (cl_get_object cl (s3_bucket b) (shard_key crc b key) (Some (range_header (unat offset) (unat (offset + len - 1)))) s)))"

definition s3_delete :: "(bytes \<Rightarrow> u32) \<Rightarrow> 's s3_client \<Rightarrow> s3_backend \<Rightarrow> string \<Rightarrow> 's \<Rightarrow> unit flush_result \<times> 's" where
  "s3_delete crc cl b key s = sent map_sdk_error_generic (cl_delete_object cl (s3_bucket b) (shard_key crc b key) s)"

definition s3_conditional_put :: "(bytes \<Rightarrow> u32) \<Rightarrow> 's s3_client \<Rightarrow> s3_backend \<Rightarrow> string \<Rightarrow> bytes \<Rightarrow> 's \<Rightarrow> unit flush_result \<times> 's" where
  "s3_conditional_put crc cl b key v s =
     sent map_conditional_put_error (cl_put_object cl (s3_bucket b) (shard_key crc b key) v (Some ''*'') s)"

subsection \<open>Listing\<close>

definition stripped_keys :: "string \<Rightarrow> string option list \<Rightarrow> string list" where
  "stripped_keys strip contents = List.map_filter (\<lambda>key. Option.bind key (strip_prefix strip)) contents"

text \<open>The loop over the pages of one prefix; \<open>None\<close> is too little fuel.\<close>

fun list_pages ::
  "nat \<Rightarrow> 's s3_client \<Rightarrow> s3_backend \<Rightarrow> string \<Rightarrow> string \<Rightarrow> string list \<Rightarrow> string option \<Rightarrow> 's \<Rightarrow> (string list flush_result \<times> 's) option" where
  "list_pages 0 cl b s3_prefix strip keys continuation_token s = None"
| "list_pages (Suc n) cl b s3_prefix strip keys continuation_token s =
     (case cl_list_objects_v2 cl (s3_bucket b) s3_prefix continuation_token s of
        (Inl err, s) \<Rightarrow> Some (Inl (map_sdk_error_generic err), s)
      | (Inr resp, s) \<Rightarrow>
          (let keys = keys @ stripped_keys strip (lo_contents resp)
           in if lo_is_truncated resp = Some True
              then (case lo_next_continuation_token resp of
                      None \<Rightarrow> Some (Inr keys, s)
                    | Some token \<Rightarrow> list_pages n cl b s3_prefix strip keys (Some token) s)
              else Some (Inr keys, s)))"

definition list_single_shard :: "nat \<Rightarrow> 's s3_client \<Rightarrow> s3_backend \<Rightarrow> string \<Rightarrow> nat \<Rightarrow> 's \<Rightarrow> (string list flush_result \<times> 's) option" where
  "list_single_shard fuel cl b logical_prefix shard_index s =
     list_pages fuel cl b (pad0 3 shard_index @ ''/'' @ logical_prefix) (pad0 3 shard_index @ ''/'') [] None s"

fun list_shards :: "nat \<Rightarrow> 's s3_client \<Rightarrow> s3_backend \<Rightarrow> string \<Rightarrow> nat list \<Rightarrow> 's \<Rightarrow> (string list flush_result list \<times> 's) option" where
  "list_shards fuel cl b prefix [] s = Some ([], s)"
| "list_shards fuel cl b prefix (i # order) s =
     (case list_single_shard fuel cl b prefix i s of
        None \<Rightarrow> None
      | Some (r, s) \<Rightarrow> map_option (\<lambda>(rs, s). (r # rs, s)) (list_shards fuel cl b prefix order s))"

fun extend_all :: "string list flush_result list \<Rightarrow> string list flush_result" where
  "extend_all [] = Inr []"
| "extend_all (r # rs) = bind_res r (\<lambda>keys. bind_res (extend_all rs) (\<lambda>rest. Inr (keys @ rest)))"

text \<open>The prefixes are asked concurrently and answer in any \<open>order\<close>.\<close>

definition s3_list_prefix :: "nat \<Rightarrow> nat list \<Rightarrow> 's s3_client \<Rightarrow> s3_backend \<Rightarrow> string \<Rightarrow> 's \<Rightarrow> (string list flush_result \<times> 's) option" where
  "s3_list_prefix fuel order cl b prefix s = map_option (\<lambda>(rs, s). (map_sum id sort (extend_all rs), s)) (list_shards fuel cl b prefix order s)"

section \<open>What the service documents\<close>

text \<open>The objects of the bucket, the parts of the uploads that are open, and what a continuation token still has to list.\<close>

record 's s3_view =
  vw_object :: "'s \<Rightarrow> string \<Rightarrow> bytes option"
  vw_parts :: "'s \<Rightarrow> string \<Rightarrow> string \<Rightarrow> (u32 \<Rightarrow> (string \<times> bytes) option) option"
  vw_rest :: "'s \<Rightarrow> string \<Rightarrow> string option \<Rightarrow> string list \<Rightarrow> bool"

text \<open>A request is answered when it succeeds or fails with one of the errors that say something about the key.\<close>

fun unavailable :: "sdk_error \<Rightarrow> bool" where
  "unavailable (ServiceError NoSuchKey _ _) \<longleftrightarrow> False"
| "unavailable (ServiceError OtherServiceError status _) \<longleftrightarrow> status \<noteq> 412 \<and> status \<noteq> 416"
| "unavailable (OtherSdkError _) \<longleftrightarrow> True"

definition answered :: "(sdk_error + 'a) \<times> 's \<Rightarrow> bool" where
  "answered x = (case fst x of Inl err \<Rightarrow> \<not> unavailable err | Inr _ \<Rightarrow> True)"

definition put_law :: "'s s3_client \<Rightarrow> string \<Rightarrow> 's s3_view \<Rightarrow> bool" where
  "put_law cl bk V \<longleftrightarrow> (\<forall>k v s r s'. cl_put_object cl bk k v None s = (r, s') \<longrightarrow>
     vw_object V s' = (vw_object V s)(k \<mapsto> v) \<or> r \<noteq> Inr () \<and> vw_object V s' = vw_object V s)"

text \<open>A conditional write that is retried after its answer was lost is refused because of itself.\<close>

definition conditional_law :: "'s s3_client \<Rightarrow> string \<Rightarrow> 's s3_view \<Rightarrow> bool" where
  "conditional_law cl bk V \<longleftrightarrow> (\<forall>k v s r s'. cl_put_object cl bk k v (Some ''*'') s = (r, s') \<longrightarrow>
     (vw_object V s k = None \<and> vw_object V s' = (vw_object V s)(k \<mapsto> v) \<or> r \<noteq> Inr () \<and> vw_object V s' = vw_object V s)
     \<and> (\<forall>err txt. r = Inl (ServiceError err 412 txt) \<longrightarrow> vw_object V s' k \<noteq> None)
     \<and> (answered (r, s') \<and> vw_object V s k \<noteq> None \<longrightarrow> (\<exists>err txt. r = Inl (ServiceError err 412 txt))))"

definition get_law :: "'s s3_client \<Rightarrow> string \<Rightarrow> 's s3_view \<Rightarrow> bool" where
  "get_law cl bk V \<longleftrightarrow> (\<forall>k range s r s'. cl_get_object cl bk k range s = (r, s') \<longrightarrow> vw_object V s' = vw_object V s
     \<and> (\<forall>st txt. r = Inl (ServiceError NoSuchKey st txt) \<longrightarrow> vw_object V s k = None)
     \<and> (answered (r, s') \<and> vw_object V s k = None \<longrightarrow> (\<exists>st txt. r = Inl (ServiceError NoSuchKey st txt)))
     \<and> (\<forall>d. range = None \<and> r = Inr (Inr d) \<longrightarrow> vw_object V s k = Some d)
     \<and> (range = None \<and> answered (r, s') \<and> vw_object V s k \<noteq> None \<longrightarrow> (\<exists>body. r = Inr body))
     \<and> (\<forall>a z. range = Some (range_header a z) \<and> a \<le> z \<longrightarrow>
          (\<forall>d. r = Inr (Inr d) \<longrightarrow> (\<exists>x. vw_object V s k = Some x \<and> a < length x \<and> d = slice_of a (Suc z) x))
        \<and> (\<forall>txt. r = Inl (ServiceError OtherServiceError 416 txt) \<longrightarrow> (\<exists>x. vw_object V s k = Some x \<and> length x \<le> a))
        \<and> (\<forall>x. answered (r, s') \<and> vw_object V s k = Some x \<longrightarrow>
             (if length x \<le> a then \<exists>txt. r = Inl (ServiceError OtherServiceError 416 txt) else \<exists>body. r = Inr body))))"

definition delete_law :: "'s s3_client \<Rightarrow> string \<Rightarrow> 's s3_view \<Rightarrow> bool" where
  "delete_law cl bk V \<longleftrightarrow> (\<forall>k s r s'. cl_delete_object cl bk k s = (r, s') \<longrightarrow>
     vw_object V s' = (vw_object V s)(k := None) \<or> r \<noteq> Inr () \<and> vw_object V s' = vw_object V s)"

definition create_law :: "'s s3_client \<Rightarrow> string \<Rightarrow> 's s3_view \<Rightarrow> bool" where
  "create_law cl bk V \<longleftrightarrow> (\<forall>k s r s'. cl_create_multipart_upload cl bk k s = (r, s') \<longrightarrow> vw_object V s' = vw_object V s
     \<and> (\<forall>u. r = Inr (Some u) \<longrightarrow> vw_parts V s' k u = Some Map.empty))"

definition part_law :: "'s s3_client \<Rightarrow> string \<Rightarrow> 's s3_view \<Rightarrow> bool" where
  "part_law cl bk V \<longleftrightarrow> (\<forall>k u n d s r s'. cl_upload_part cl bk k u n d s = (r, s') \<longrightarrow> vw_object V s' = vw_object V s
     \<and> (\<forall>ps tag. vw_parts V s k u = Some ps \<and> r = Inr tag \<longrightarrow> vw_parts V s' k u = Some (ps(n \<mapsto> (case tag of None \<Rightarrow> [] | Some t \<Rightarrow> t, d)))))"

definition complete_law :: "'s s3_client \<Rightarrow> string \<Rightarrow> 's s3_view \<Rightarrow> bool" where
  "complete_law cl bk V \<longleftrightarrow> (\<forall>k u cps s r s' ps. cl_complete_multipart_upload cl bk k u cps s = (r, s') \<and> vw_parts V s k u = Some ps \<longrightarrow>
     distinct (map snd cps) \<and> (\<forall>(t, n) \<in> set cps. \<exists>d. ps n = Some (t, d))
       \<and> vw_object V s' = (vw_object V s)(k \<mapsto> concat (map (\<lambda>(t, n). snd (the (ps n))) cps))
     \<or> r \<noteq> Inr () \<and> vw_object V s' = vw_object V s)"

definition abort_law :: "'s s3_client \<Rightarrow> string \<Rightarrow> 's s3_view \<Rightarrow> bool" where
  "abort_law cl bk V \<longleftrightarrow> (\<forall>k u s. vw_object V (snd (cl_abort_multipart_upload cl bk k u s)) = vw_object V s)"

definition multipart_law :: "'s s3_client \<Rightarrow> string \<Rightarrow> 's s3_view \<Rightarrow> bool" where
  "multipart_law cl bk V \<longleftrightarrow> create_law cl bk V \<and> part_law cl bk V \<and> complete_law cl bk V \<and> abort_law cl bk V"

definition list_law :: "'s s3_client \<Rightarrow> string \<Rightarrow> 's s3_view \<Rightarrow> bool" where
  "list_law cl bk V \<longleftrightarrow> (\<forall>s. finite (dom (vw_object V s)))
   \<and> (\<forall>s p l. sorted l \<and> distinct l \<and> set l = {k \<in> dom (vw_object V s). starts_with p k} \<longrightarrow> vw_rest V s p None l)
   \<and> (\<forall>s p t l r s'. vw_rest V s p t l \<and> cl_list_objects_v2 cl bk p t s = (r, s') \<longrightarrow> vw_object V s' = vw_object V s
        \<and> (\<forall>resp. r = Inr resp \<longrightarrow> (\<exists>page rest. l = page @ rest \<and> lo_contents resp = map Some page
             \<and> (if rest = [] then lo_is_truncated resp \<noteq> Some True
                else page \<noteq> [] \<and> lo_is_truncated resp = Some True
                   \<and> (\<exists>t'. lo_next_continuation_token resp = Some t' \<and> vw_rest V s' p (Some t') rest)))))"

definition s3_ok :: "'s s3_client \<Rightarrow> string \<Rightarrow> 's s3_view \<Rightarrow> bool" where
  "s3_ok cl bk V \<longleftrightarrow> put_law cl bk V \<and> conditional_law cl bk V \<and> get_law cl bk V \<and> delete_law cl bk V \<and> multipart_law cl bk V \<and> list_law cl bk V"

section \<open>Uploads\<close>

lemma createD:
  assumes "multipart_law cl bk V" and "cl_create_multipart_upload cl bk k s = (r, s')"
  shows "vw_object V s' = vw_object V s" "r = Inr (Some u) \<Longrightarrow> vw_parts V s' k u = Some Map.empty"
  using assms by (auto simp: multipart_law_def create_law_def)

lemma upload_partD:
  assumes "multipart_law cl bk V" and "cl_upload_part cl bk k u n d s = (r, s')"
  shows "vw_object V s' = vw_object V s"
    "vw_parts V s k u = Some ps \<Longrightarrow> r = Inr tag \<Longrightarrow> vw_parts V s' k u = Some (ps(n \<mapsto> (case tag of None \<Rightarrow> [] | Some t \<Rightarrow> t, d)))"
  using assms by (auto simp: multipart_law_def part_law_def)

lemma completeD:
  assumes "multipart_law cl bk V" and "cl_complete_multipart_upload cl bk k u cps s = (r, s')" and "vw_parts V s k u = Some ps"
  shows "distinct (map snd cps) \<and> vw_object V s' = (vw_object V s)(k \<mapsto> concat (map (\<lambda>(t, n). snd (the (ps n))) cps))
    \<or> r \<noteq> Inr () \<and> vw_object V s' = vw_object V s"
  using assms(1) [unfolded multipart_law_def complete_law_def, THEN conjunct2, THEN conjunct2, THEN conjunct1, rule_format, OF conjI [OF assms(2,3)]] by blast

lemma abortD: "multipart_law cl bk V \<Longrightarrow> vw_object V (snd (cl_abort_multipart_upload cl bk k u s)) = vw_object V s"
  by (simp add: multipart_law_def abort_law_def)

definition uploaded :: "(string \<times> u32) list \<Rightarrow> bytes list \<Rightarrow> u32 \<Rightarrow> (string \<times> bytes) option" where
  "uploaded ps ds = map_of (rev (zip (map snd ps) (zip (map fst ps) ds)))"

lemma uploaded_snoc: "length ds = length ps \<Longrightarrow> uploaded (ps @ [(t, n)]) (ds @ [d]) = (uploaded ps ds)(n \<mapsto> (t, d))"
  by (simp add: uploaded_def)

lemma uploaded_whole:
  assumes "length ds = length ps" and "distinct (map snd ps)"
  shows "concat (map (\<lambda>(t, n). snd (the (uploaded ps ds n))) ps) = concat ds"
proof -
  let ?z = "zip (map snd ps) (zip (map fst ps) ds)"
  have d: "distinct (map fst ?z)" using assms by simp
  have "snd (the (uploaded ps ds (snd (ps ! i)))) = ds ! i" if "i < length ps" for i
  proof -
    have "(snd (ps ! i), fst (ps ! i), ds ! i) \<in> set (rev ?z)" using that assms(1) by (force simp: set_zip)
    then have "map_of (rev ?z) (snd (ps ! i)) = Some (fst (ps ! i), ds ! i)" using d by (intro map_of_is_SomeI) (simp_all add: rev_map [symmetric])
    then show ?thesis by (simp add: uploaded_def)
  qed
  then have "map (\<lambda>(t, n). snd (the (uploaded ps ds n))) ps = ds" using assms(1) by (intro nth_equalityI) (simp_all add: case_prod_beta)
  then show ?thesis by simp
qed

lemma take_slice: "a \<le> z \<Longrightarrow> take a xs @ slice_of a z xs = take z xs"
  by (simp add: slice_of_def take_add [symmetric])

lemma upload_parts_ok:
  assumes law: "multipart_law cl (s3_bucket b) V"
    and "upload_parts cl b k v u off n ps s = (r, s')" and "vw_parts V s k u = Some (uploaded ps ds)"
    and "length ds = length ps" and "concat ds = take off v" and "off \<le> length v"
  shows "vw_object V s' = vw_object V s
    \<and> (\<forall>ps'. r = Inr ps' \<longrightarrow> (\<exists>ds'. vw_parts V s' k u = Some (uploaded ps' ds') \<and> length ds' = length ps' \<and> concat ds' = v))"
  using assms
proof (induction cl b k v u off n ps s arbitrary: ds rule: upload_parts.induct)
  case (1 cl b k v u off n ps s)
  note law = 1(2) and up = 1(3) [unfolded upload_parts.simps [of cl b k v u off n ps s]] and now = 1(4-)
  show ?case
  proof (cases "off < length v")
    case True
    let ?stop = "min (off + MULTIPART_PART_SIZE) (length v)"
    obtain r1 s1 where part: "cl_upload_part cl (s3_bucket b) k u n (slice_of off ?stop v) s = (r1, s1)" by fastforce
    have o: "vw_object V s1 = vw_object V s" by (rule upload_partD [OF law part])
    show ?thesis
    proof (cases r1)
      case (Inl err)
      then have "vw_object V s' = vw_object V s1 \<and> (\<exists>e. r = Inl e)" using up True part abortD [OF law] by (auto simp: Let_def)
      then show ?thesis using o by auto
    next
      case (Inr tag)
      let ?t = "case tag of None \<Rightarrow> [] | Some t \<Rightarrow> t" and ?d = "slice_of off ?stop v"
      have p: "vw_parts V s1 k u = Some (uploaded (ps @ [(?t, n)]) (ds @ [?d]))"
        unfolding uploaded_snoc [OF now(2)] by (rule upload_partD(2) [OF law part now(1) Inr])
      have rec: "upload_parts cl b k v u ?stop (n + 1) (ps @ [(?t, n)]) s1 = (r, s')" using up True part Inr by (simp add: Let_def)
      have "concat (ds @ [?d]) = take ?stop v" using take_slice [of off ?stop v] now(3,4) by (simp add: MULTIPART_PART_SIZE_def)
      then show ?thesis using 1(1) [OF True refl part [symmetric] Inr law rec p] now(2) o by simp
    qed
  qed (use up now in auto)
qed

lemma put_multipart_ok:
  assumes law: "multipart_law cl (s3_bucket b) V" and p: "put_multipart cl b k v s = (r, s')"
  shows "vw_object V s' = (vw_object V s)(k \<mapsto> v) \<or> r \<noteq> Inr () \<and> vw_object V s' = vw_object V s"
proof -
  obtain r1 s1 where c: "cl_create_multipart_upload cl (s3_bucket b) k s = (r1, s1)" by fastforce
  note o1 = createD(1) [OF law c]
  have u1: "vw_parts V s1 k u = Some (uploaded [] [])" if "r1 = Inr (Some u)" for u using createD(2) [OF law c that] by (simp add: uploaded_def)
  consider e where "r1 = Inl e" | "r1 = Inr None" | u where "r1 = Inr (Some u)" by (metis option.exhaust sum.exhaust)
  then show ?thesis
  proof cases
    case 3
    obtain r2 s2 where l: "upload_parts cl b k v u 0 1 [] s1 = (r2, s2)" by fastforce
    note up = upload_parts_ok [OF law l u1 [OF 3]]
    show ?thesis
    proof (cases r2)
      case (Inr ps)
      then obtain ds where ds: "vw_parts V s2 k u = Some (uploaded ps ds)" "length ds = length ps" "concat ds = v" using up by auto
      obtain r3 s3 where f: "cl_complete_multipart_upload cl (s3_bucket b) k u ps s2 = (r3, s3)" by fastforce
      have "distinct (map snd ps) \<and> vw_object V s3 = (vw_object V s2)(k \<mapsto> concat (map (\<lambda>(t, n). snd (the (uploaded ps ds n))) ps))
          \<or> r3 \<noteq> Inr () \<and> vw_object V s3 = vw_object V s2" by (rule completeD [OF law f ds(1)])
      then have "vw_object V s3 = (vw_object V s2)(k \<mapsto> v) \<or> r3 \<noteq> Inr () \<and> vw_object V s3 = vw_object V s2"
        using uploaded_whole [OF ds(2)] ds(3) by auto
      then show ?thesis using p c 3 l Inr f up o1 by (cases r3) (auto simp: put_multipart_def sent_def)
    qed (use p c 3 l up o1 in \<open>auto simp: put_multipart_def\<close>)
  qed (use p c o1 in \<open>auto simp: put_multipart_def\<close>)
qed

section \<open>Sharded keys\<close>

definition logical :: "(bytes \<Rightarrow> u32) \<Rightarrow> s3_backend \<Rightarrow> 's s3_view \<Rightarrow> 's \<Rightarrow> string \<Rightarrow> bytes option" where
  "logical crc b V s k = vw_object V s (shard_key crc b k)"

text \<open>The bucket holds nothing but objects of the backend.\<close>

definition only_shards :: "(bytes \<Rightarrow> u32) \<Rightarrow> s3_backend \<Rightarrow> 's s3_view \<Rightarrow> 's \<Rightarrow> bool" where
  "only_shards crc b V s \<longleftrightarrow> (\<forall>raw. vw_object V s raw \<noteq> None \<longrightarrow> (\<exists>k. raw = shard_key crc b k))"

lemma digits_no_slash: "parse_digits acc xs = Some n \<Longrightarrow> CHR ''/'' \<notin> set xs"
  by (induction acc xs rule: parse_digits.induct) (auto simp: digit_val_def Let_def split: option.splits if_splits)

lemma pad0_no_slash [simp]: "CHR ''/'' \<notin> set (pad0 w n)"
  by (rule digits_no_slash [OF parse_digits_pad0])

lemma split_first: "c \<notin> set xs \<Longrightarrow> c \<notin> set ys \<Longrightarrow> xs @ c # us = ys @ c # vs \<longleftrightarrow> xs = ys \<and> us = vs"
proof (induction xs arbitrary: ys)
  case Nil
  then show ?case by (cases ys) auto
next
  case (Cons x xs)
  then show ?case by (cases ys) auto
qed

lemma starts_with_append: "starts_with p s \<longleftrightarrow> (\<exists>t. s = p @ t)"
  unfolding starts_with_def by (metis append_eq_conv_conj append_take_drop_id)

lemma shard_prefix: "starts_with (pad0 3 i @ ''/'' @ p) (shard_key crc b k) \<longleftrightarrow> i = unat (shard_of crc b k) \<and> starts_with p k"
  by (auto simp: starts_with_append shard_key_def split_first dest: pad0_inject)

lemma shard_strip: "strip_prefix (pad0 3 i @ ''/'') (shard_key crc b k) = (if i = unat (shard_of crc b k) then Some k else None)"
proof -
  have "starts_with (pad0 3 i @ ''/'') (shard_key crc b k) \<longleftrightarrow> i = unat (shard_of crc b k)"
    using shard_prefix [of i "[]" crc b k] by (simp add: starts_with_append)
  moreover have "drop (length (pad0 3 (unat (shard_of crc b k)) @ ''/'')) (shard_key crc b k) = k" by (simp add: shard_key_def)
  ultimately show ?thesis unfolding strip_prefix_def starts_with_def by simp
qed

lemma shard_key_inject: "shard_key crc b k = shard_key crc b k' \<longleftrightarrow> k = k'"
  by (auto simp: shard_key_def split_first)

lemma logical_update:
  assumes "only_shards crc b V s" and "vw_object V s' = (vw_object V s)(shard_key crc b k := x)"
  shows "logical crc b V s' = (logical crc b V s)(k := x)" "only_shards crc b V s'"
  using assms by (auto simp: logical_def only_shards_def fun_eq_iff shard_key_inject)

lemma logical_same:
  assumes "vw_object V s' = vw_object V s"
  shows "logical crc b V s' = logical crc b V s" "only_shards crc b V s' = only_shards crc b V s"
  using assms by (simp_all add: logical_def only_shards_def fun_eq_iff)

section \<open>Listings\<close>

lemma stripped_page: "stripped_keys strip (map Some page) = List.map_filter (strip_prefix strip) page"
  by (induction page) (simp_all add: stripped_keys_def List.map_filter_simps split: option.split)

lemma list_pages_ok:
  assumes law: "list_law cl (s3_bucket b) V" and "vw_rest V s p t l" and "length l < fuel"
  shows "\<exists>r s'. list_pages fuel cl b p strip keys t s = Some (r, s') \<and> vw_object V s' = vw_object V s
    \<and> (\<forall>ks. r = Inr ks \<longrightarrow> ks = keys @ List.map_filter (strip_prefix strip) l)"
  using assms(2,3)
proof (induction fuel arbitrary: s t l keys)
  case (Suc n)
  obtain r1 s1 where q: "cl_list_objects_v2 cl (s3_bucket b) p t s = (r1, s1)" by fastforce
  note page = law [unfolded list_law_def, THEN conjunct2, THEN conjunct2, rule_format, OF conjI [OF Suc.prems(1) q]]
  show ?case
  proof (cases r1)
    case (Inr resp)
    then obtain page rest where l: "l = page @ rest" "lo_contents resp = map Some page"
      "if rest = [] then lo_is_truncated resp \<noteq> Some True
       else page \<noteq> [] \<and> lo_is_truncated resp = Some True \<and> (\<exists>t'. lo_next_continuation_token resp = Some t' \<and> vw_rest V s1 p (Some t') rest)"
      using page by blast
    show ?thesis
    proof (cases "rest = []")
      case True
      then show ?thesis using q Inr l page by (simp add: stripped_page)
    next
      case False
      then obtain t' where t': "lo_next_continuation_token resp = Some t'" "vw_rest V s1 p (Some t') rest" using l(3) by auto
      have "length rest < n" using Suc.prems(2) l False by (auto simp: neq_Nil_conv)
      from Suc.IH [OF t'(2) this, of "keys @ List.map_filter (strip_prefix strip) page"] show ?thesis
        using q Inr l False t'(1) page by (auto simp: stripped_page map_filter_append)
    qed
  qed (use q page in auto)
qed simp

definition keys_in :: "(bytes \<Rightarrow> u32) \<Rightarrow> s3_backend \<Rightarrow> 's s3_view \<Rightarrow> string \<Rightarrow> nat set \<Rightarrow> 's \<Rightarrow> string set" where
  "keys_in crc b V p I s = {k. logical crc b V s k \<noteq> None \<and> starts_with p k \<and> unat (shard_of crc b k) \<in> I}"

lemma set_map_filter: "set (List.map_filter f xs) = {y. \<exists>x \<in> set xs. f x = Some y}"
  by (auto simp: List.map_filter_def image_iff) (metis option.sel)

lemma distinct_map_filter:
  assumes "distinct xs" and "\<And>x x' y. x \<in> set xs \<Longrightarrow> x' \<in> set xs \<Longrightarrow> f x = Some y \<Longrightarrow> f x' = Some y \<Longrightarrow> x = x'"
  shows "distinct (List.map_filter f xs)"
  using assms by (induction xs) (auto simp: List.map_filter_simps set_map_filter split: option.splits)

lemma list_single_shard_ok:
  assumes law: "list_law cl (s3_bucket b) V" and only: "only_shards crc b V s" and fuel: "card (dom (vw_object V s)) < fuel"
  shows "\<exists>r s'. list_single_shard fuel cl b p i s = Some (r, s') \<and> vw_object V s' = vw_object V s
    \<and> (\<forall>ks. r = Inr ks \<longrightarrow> set ks = keys_in crc b V p {i} s \<and> distinct ks)"
proof -
  let ?P = "{k \<in> dom (vw_object V s). starts_with (pad0 3 i @ ''/'' @ p) k}" and ?strip = "pad0 3 i @ ''/''"
  have fin: "finite (dom (vw_object V s))" using law by (simp add: list_law_def)
  let ?l = "sorted_list_of_set ?P"
  have l: "set ?l = ?P" "distinct ?l" "sorted ?l" using fin by simp_all
  have rest: "vw_rest V s (pad0 3 i @ ''/'' @ p) None ?l" using law l by (simp add: list_law_def)
  have "length ?l \<le> card (dom (vw_object V s))" using fin by (simp add: card_mono)
  then have "length ?l < fuel" using fuel by simp
  note pages = list_pages_ok [OF law rest this, of ?strip "[]"]
  have found: "raw \<in> ?P \<longleftrightarrow> (\<exists>k. raw = shard_key crc b k \<and> k \<in> keys_in crc b V p {i} s)" for raw
    using only shard_prefix [of i p crc b] by (fastforce simp: only_shards_def keys_in_def logical_def dom_def)
  have "set (List.map_filter (strip_prefix ?strip) ?l) = keys_in crc b V p {i} s"
  proof -
    have "(\<exists>raw \<in> ?P. strip_prefix ?strip raw = Some k) \<longleftrightarrow> k \<in> keys_in crc b V p {i} s" for k
    proof
      assume k: "k \<in> keys_in crc b V p {i} s"
      then have "strip_prefix ?strip (shard_key crc b k) = Some k" unfolding shard_strip by (simp add: keys_in_def)
      moreover have "shard_key crc b k \<in> ?P" unfolding found using k by blast
      ultimately show "\<exists>raw \<in> ?P. strip_prefix ?strip raw = Some k" by blast
    next
      assume "\<exists>raw \<in> ?P. strip_prefix ?strip raw = Some k"
      then obtain raw where raw: "raw \<in> ?P" "strip_prefix ?strip raw = Some k" by (elim bexE)
      from raw(1) obtain k' where "raw = shard_key crc b k'" "k' \<in> keys_in crc b V p {i} s" unfolding found by blast
      then show "k \<in> keys_in crc b V p {i} s" using raw(2) by (simp add: shard_strip split: if_splits)
    qed
    then show ?thesis unfolding set_map_filter l(1) by blast
  qed
  moreover have "distinct (List.map_filter (strip_prefix ?strip) ?l)"
    by (rule distinct_map_filter [OF l(2)]) (auto simp: strip_prefix_def split: if_splits, metis append_take_drop_id)
  ultimately show ?thesis using pages unfolding list_single_shard_def by auto
qed

lemma list_shards_ok:
  assumes law: "list_law cl (s3_bucket b) V" and "only_shards crc b V s" and "card (dom (vw_object V s)) < fuel" and "distinct order"
  shows "\<exists>rs s'. list_shards fuel cl b p order s = Some (rs, s') \<and> vw_object V s' = vw_object V s
    \<and> (\<forall>ks. extend_all rs = Inr ks \<longrightarrow> set ks = keys_in crc b V p (set order) s \<and> distinct ks)"
  using assms(2-)
proof (induction order arbitrary: s)
  case Nil
  then show ?case by (simp add: keys_in_def)
next
  case (Cons i order)
  obtain r s1 where one: "list_single_shard fuel cl b p i s = Some (r, s1)" "vw_object V s1 = vw_object V s"
    "\<forall>ks. r = Inr ks \<longrightarrow> set ks = keys_in crc b V p {i} s \<and> distinct ks"
    using list_single_shard_ok [OF law Cons.prems(1,2)] by blast
  have same: "keys_in crc b V p I s1 = keys_in crc b V p I s" for I using logical_same(1) [OF one(2)] by (simp add: keys_in_def)
  obtain rs s2 where more: "list_shards fuel cl b p order s1 = Some (rs, s2)" "vw_object V s2 = vw_object V s1"
    "\<forall>ks. extend_all rs = Inr ks \<longrightarrow> set ks = keys_in crc b V p (set order) s \<and> distinct ks"
    using Cons.IH [of s1] Cons.prems one(2) logical_same(2) [OF one(2)] unfolding same by auto
  have "keys_in crc b V p (set (i # order)) s = keys_in crc b V p {i} s \<union> keys_in crc b V p (set order) s" by (auto simp: keys_in_def)
  moreover have "keys_in crc b V p {i} s \<inter> keys_in crc b V p (set order) s = {}" using Cons.prems(3) by (auto simp: keys_in_def)
  ultimately show ?case using one more by (intro exI [of _ "r # rs"] exI [of _ s2]) auto
qed

lemma list_prefix_ok:
  assumes law: "list_law cl (s3_bucket b) V" and only: "only_shards crc b V s" and fuel: "card (dom (vw_object V s)) < fuel"
    and order: "mset order = mset [0..<unat (s3_prefix_count b)]" and b: "s3_prefix_count b \<noteq> 0"
  shows "\<exists>r s'. s3_list_prefix fuel order cl b p s = Some (r, s') \<and> vw_object V s' = vw_object V s
    \<and> (\<forall>ks. r = Inr ks \<longrightarrow> sorted ks \<and> distinct ks \<and> set ks = {k. logical crc b V s k \<noteq> None \<and> starts_with p k})"
proof -
  have o: "distinct order" "set order = {0..<unat (s3_prefix_count b)}"
    using order by (metis distinct_upt mset_eq_imp_distinct_iff, metis order atLeastLessThan_upt mset_eq_setD)
  have "unat (shard_of crc b k) \<in> set order" for k
    unfolding o(2) shard_of_def using b by (simp add: unat_mod unat_gt_0)
  then have all: "keys_in crc b V p (set order) s = {k. logical crc b V s k \<noteq> None \<and> starts_with p k}" by (auto simp: keys_in_def)
  obtain rs s' where rs: "list_shards fuel cl b p order s = Some (rs, s')" "vw_object V s' = vw_object V s"
    "\<forall>ks. extend_all rs = Inr ks \<longrightarrow> set ks = {k. logical crc b V s k \<noteq> None \<and> starts_with p k} \<and> distinct ks"
    using list_shards_ok [OF law only fuel o(1), of p] unfolding all by blast
  then show ?thesis by (cases "extend_all rs") (simp_all add: s3_list_prefix_def)
qed

section \<open>The backend is an object store\<close>

lemma s3_put_ok:
  assumes ok: "s3_ok cl (s3_bucket b) V" and only: "only_shards crc b V s" and p: "s3_put crc cl b k v s = (r, s')"
  shows "only_shards crc b V s' \<and> (logical crc b V s' = (logical crc b V s)(k \<mapsto> v) \<or> r \<noteq> Inr () \<and> logical crc b V s' = logical crc b V s)"
proof -
  have "vw_object V s' = (vw_object V s)(shard_key crc b k \<mapsto> v) \<or> r \<noteq> Inr () \<and> vw_object V s' = vw_object V s"
  proof (cases "length v \<le> MULTIPART_THRESHOLD")
    case True
    obtain r1 where "cl_put_object cl (s3_bucket b) (shard_key crc b k) v None s = (r1, s')" "r = Inr () \<Longrightarrow> r1 = Inr ()"
      using p True by (cases "cl_put_object cl (s3_bucket b) (shard_key crc b k) v None s") (auto simp: s3_put_def put_simple_def sent_def map_sum_def split: sum.splits)
    moreover have "put_law cl (s3_bucket b) V" using ok by (simp add: s3_ok_def)
    ultimately show ?thesis unfolding put_law_def by blast
  next
    case False
    then show ?thesis using put_multipart_ok [of cl b V "shard_key crc b k" v s r s'] p ok by (simp add: s3_put_def s3_ok_def Let_def)
  qed
  then show ?thesis using logical_update [OF only] logical_same only by metis
qed

lemma s3_conditional_put_ok:
  assumes ok: "s3_ok cl (s3_bucket b) V" and only: "only_shards crc b V s" and p: "s3_conditional_put crc cl b k v s = (r, s')"
  shows "only_shards crc b V s'
    \<and> (logical crc b V s k = None \<and> logical crc b V s' = (logical crc b V s)(k \<mapsto> v) \<or> r \<noteq> Inr () \<and> logical crc b V s' = logical crc b V s)
    \<and> (\<forall>msg. r = Inl (PreconditionFailed msg) \<longrightarrow> logical crc b V s' k \<noteq> None)
    \<and> (answered (cl_put_object cl (s3_bucket b) (shard_key crc b k) v (Some ''*'') s) \<and> logical crc b V s k \<noteq> None
         \<longrightarrow> r = Inl (PreconditionFailed ''key already exists''))"
proof -
  obtain r1 where c: "cl_put_object cl (s3_bucket b) (shard_key crc b k) v (Some ''*'') s = (r1, s')" "r = map_sum map_conditional_put_error id r1"
    using p by (cases "cl_put_object cl (s3_bucket b) (shard_key crc b k) v (Some ''*'') s") (auto simp: s3_conditional_put_def sent_def)
  have "conditional_law cl (s3_bucket b) V" using ok by (simp add: s3_ok_def)
  note law = this [unfolded conditional_law_def, rule_format, OF c(1)]
  have "r1 = Inr ()" if "r = Inr ()" using c(2) that by (cases r1) simp_all
  moreover have "\<exists>err txt. r1 = Inl (ServiceError err 412 txt)" if "r = Inl (PreconditionFailed msg)" for msg
    using c(2) that by (auto simp: map_conditional_put_error_def map_sum_def split: sum.splits sdk_error.splits if_splits)
  moreover have "r = Inl (PreconditionFailed ''key already exists'')" if "\<exists>err txt. r1 = Inl (ServiceError err 412 txt)"
    using c(2) that by (auto simp: map_conditional_put_error_def)
  ultimately have "only_shards crc b V s'"
    "logical crc b V s k = None \<and> logical crc b V s' = (logical crc b V s)(k \<mapsto> v) \<or> r \<noteq> Inr () \<and> logical crc b V s' = logical crc b V s"
    "\<forall>msg. r = Inl (PreconditionFailed msg) \<longrightarrow> logical crc b V s' k \<noteq> None"
    "answered (r1, s') \<and> logical crc b V s k \<noteq> None \<longrightarrow> r = Inl (PreconditionFailed ''key already exists'')"
    using law logical_update [OF only] logical_same only unfolding logical_def by metis+
  then show ?thesis unfolding c(1) by blast
qed

lemma s3_delete_ok:
  assumes ok: "s3_ok cl (s3_bucket b) V" and only: "only_shards crc b V s" and p: "s3_delete crc cl b k s = (r, s')"
  shows "only_shards crc b V s' \<and> (logical crc b V s' = (logical crc b V s)(k := None) \<or> r \<noteq> Inr () \<and> logical crc b V s' = logical crc b V s)"
proof -
  obtain r1 where c: "cl_delete_object cl (s3_bucket b) (shard_key crc b k) s = (r1, s')" "r = map_sum map_sdk_error_generic id r1"
    using p by (cases "cl_delete_object cl (s3_bucket b) (shard_key crc b k) s") (auto simp: s3_delete_def sent_def)
  have "delete_law cl (s3_bucket b) V" using ok by (simp add: s3_ok_def)
  note law = this [unfolded delete_law_def, rule_format, OF c(1)]
  have "r1 = Inr ()" if "r = Inr ()" using c(2) that by (cases r1) simp_all
  then show ?thesis using law logical_update [OF only] logical_same only by metis
qed

text \<open>What a read of the service says about the object, with and without a range.\<close>

lemma getD:
  assumes "s3_ok cl bk V" and "cl_get_object cl bk k rg s = (r, s')"
  shows "vw_object V s' = vw_object V s" "r = Inl (ServiceError NoSuchKey st txt) \<Longrightarrow> vw_object V s k = None"
    "answered (r, s') \<Longrightarrow> vw_object V s k = None \<Longrightarrow> \<exists>st txt. r = Inl (ServiceError NoSuchKey st txt)"
  using assms by (auto simp: s3_ok_def get_law_def)

lemma get_wholeD:
  assumes "s3_ok cl bk V" and "cl_get_object cl bk k None s = (r, s')"
  shows "r = Inr (Inr d) \<Longrightarrow> vw_object V s k = Some d" "answered (r, s') \<Longrightarrow> vw_object V s k \<noteq> None \<Longrightarrow> \<exists>body. r = Inr body"
  using assms unfolding s3_ok_def get_law_def by blast+

lemma get_rangedD:
  assumes "s3_ok cl bk V" and "cl_get_object cl bk k (Some (range_header a z)) s = (r, s')" and "a \<le> z"
  shows "r = Inr (Inr d) \<Longrightarrow> \<exists>x. vw_object V s k = Some x \<and> a < length x \<and> d = slice_of a (Suc z) x"
    "r = Inl (ServiceError OtherServiceError 416 txt) \<Longrightarrow> \<exists>x. vw_object V s k = Some x \<and> length x \<le> a"
    "answered (r, s') \<Longrightarrow> vw_object V s k = Some x \<Longrightarrow> if length x \<le> a then \<exists>txt. r = Inl (ServiceError OtherServiceError 416 txt) else \<exists>body. r = Inr body"
  using assms unfolding s3_ok_def get_law_def by blast+

lemma collected_cases:
  "bind_res (map_sum f id r1) (map_sum Io id) = Inr d \<longleftrightarrow> r1 = Inr (Inr d)"
  "r1 = Inr body \<Longrightarrow> (\<exists>d. body = Inr d \<and> bind_res (map_sum f id r1) (map_sum Io id) = Inr d) \<or> (\<exists>msg. bind_res (map_sum f id r1) (map_sum Io id) = Inl (Io msg))"
  by (cases r1; auto simp: map_sum_def split: sum.splits)+

lemma s3_get_ok:
  assumes ok: "s3_ok cl (s3_bucket b) V" and p: "s3_get crc cl b k s = (r, s')"
  shows "logical crc b V s' = logical crc b V s \<and> (\<forall>d. r = Inr d \<longrightarrow> logical crc b V s k = Some d) \<and> (\<forall>x. r = Inl (NotFound x) \<longrightarrow> logical crc b V s k = None)
    \<and> (answered (cl_get_object cl (s3_bucket b) (shard_key crc b k) None s) \<longrightarrow>
         (case logical crc b V s k of None \<Rightarrow> r = Inl (NotFound k) | Some d \<Rightarrow> r = Inr d \<or> (\<exists>msg. r = Inl (Io msg))))"
proof -
  obtain r1 where c: "cl_get_object cl (s3_bucket b) (shard_key crc b k) None s = (r1, s')" "r = bind_res (map_sum (map_get_error k) id r1) (map_sum Io id)"
    using p by (cases "cl_get_object cl (s3_bucket b) (shard_key crc b k) None s") (auto simp: s3_get_def sent_def collected_def)
  note g = getD [OF ok c(1)] and w = get_wholeD [OF ok c(1)]
  have miss: "r = Inl (NotFound x) \<longleftrightarrow> x = k \<and> (\<exists>st txt. r1 = Inl (ServiceError NoSuchKey st txt))" for x
    unfolding c(2) by (cases r1) (auto simp: map_get_error_def map_sum_def split: sum.splits sdk_error.splits service_error.splits)
  have body: "r = Inr d \<longleftrightarrow> r1 = Inr (Inr d)" for d unfolding c(2) by (rule collected_cases(1))
  have "r = Inr d \<or> (\<exists>msg. r = Inl (Io msg))" if "answered (r1, s')" "vw_object V s (shard_key crc b k) = Some d" for d
    using w(2) [OF that(1)] that(2) w(1) collected_cases(2) [of r1 _ "map_get_error k"] unfolding c(2) by fastforce
  then show ?thesis using logical_same(1) [OF g(1)] g(2,3) w(1) miss body unfolding c(1) logical_def by (auto split: option.split)
qed

lemma range_end:
  fixes off len :: u64
  assumes "len \<noteq> 0" and "unat off + unat len \<le> 2 ^ 64"
  shows "unat off \<le> unat (off + len - 1)" "Suc (unat (off + len - 1)) = unat off + unat len"
proof -
  have "0 < unat len" using assms(1) by (simp add: unat_gt_0)
  then have "unat (len - 1) = unat len - 1" using assms(1) by (simp add: unat_minus_one)
  moreover have "off + len - 1 = off + (len - 1)" by simp
  moreover have "unat off + unat (len - 1) < 2 ^ LENGTH(64)" using assms(2) \<open>0 < unat len\<close> calculation(1) by simp
  ultimately have "unat (off + len - 1) = unat off + (unat len - 1)" using unat_add_lem [of off "len - 1"] by (simp only: add_diff_eq)
  then show "unat off \<le> unat (off + len - 1)" "Suc (unat (off + len - 1)) = unat off + unat len" using \<open>0 < unat len\<close> by simp_all
qed

lemma s3_get_range_ok:
  assumes ok: "s3_ok cl (s3_bucket b) V" and p: "s3_get_range crc cl b k off len s = (r, s')" and len: "len \<noteq> 0" "unat off + unat len \<le> 2 ^ 64"
  shows "logical crc b V s' = logical crc b V s
    \<and> (\<forall>d. r = Inr d \<longrightarrow> (\<exists>x. logical crc b V s k = Some x \<and> unat off < length x \<and> d = slice_of (unat off) (unat off + unat len) x))
    \<and> (\<forall>x. r = Inl (NotFound x) \<longrightarrow> logical crc b V s k = None)
    \<and> (\<forall>msg. r = Inl (InvalidArgument msg) \<longrightarrow> (\<exists>x. logical crc b V s k = Some x \<and> length x \<le> unat off))
    \<and> (answered (cl_get_object cl (s3_bucket b) (shard_key crc b k) (Some (range_header (unat off) (unat (off + len - 1)))) s) \<longrightarrow>
         (case logical crc b V s k of None \<Rightarrow> r = Inl (NotFound k)
          | Some x \<Rightarrow> if length x \<le> unat off then r = Inl (InvalidArgument ''range extends beyond object'')
              else r = Inr (slice_of (unat off) (unat off + unat len) x) \<or> (\<exists>msg. r = Inl (Io msg))))"
proof -
  note z = range_end [OF len]
  let ?rg = "Some (range_header (unat off) (unat (off + len - 1)))"
  obtain r1 where c: "cl_get_object cl (s3_bucket b) (shard_key crc b k) ?rg s = (r1, s')" "r = bind_res (map_sum (map_get_range_error k) id r1) (map_sum Io id)"
    using p len(1) by (cases "cl_get_object cl (s3_bucket b) (shard_key crc b k) ?rg s") (auto simp: s3_get_range_def sent_def collected_def)
  note g = getD [OF ok c(1)] and w = get_rangedD [OF ok c(1) z(1), unfolded z(2)]
  have miss: "r = Inl (NotFound x) \<longleftrightarrow> x = k \<and> (\<exists>st txt. r1 = Inl (ServiceError NoSuchKey st txt))" for x
    unfolding c(2) by (cases r1) (auto simp: map_get_range_error_def map_sum_def split: sum.splits sdk_error.splits service_error.splits if_splits)
  have beyond: "r = Inl (InvalidArgument msg) \<longleftrightarrow> msg = ''range extends beyond object'' \<and> (\<exists>txt. r1 = Inl (ServiceError OtherServiceError 416 txt))" for msg
    unfolding c(2) by (cases r1) (auto simp: map_get_range_error_def map_sum_def split: sum.splits sdk_error.splits service_error.splits if_splits)
  have body: "r = Inr d \<longleftrightarrow> r1 = Inr (Inr d)" for d unfolding c(2) by (rule collected_cases(1))
  have "r = Inr (slice_of (unat off) (unat off + unat len) x) \<or> (\<exists>msg. r = Inl (Io msg))"
    if "answered (r1, s')" "vw_object V s (shard_key crc b k) = Some x" "\<not> length x \<le> unat off" for x
    using w(3) [OF that(1,2)] that(2,3) w(1) collected_cases(2) [of r1 _ "map_get_range_error k"] unfolding c(2) by fastforce
  then show ?thesis using logical_same(1) [OF g(1)] g(2,3) w miss beyond body unfolding c(1) logical_def by (auto split: option.split)
qed

lemma s3_get_empty: "s3_get_range crc cl b k off 0 s = (Inr [], s)"
  by (simp add: s3_get_range_def)

text \<open>C16: the S3 backend is an object store. On a service that keeps what it documents and a bucket that holds only objects of the backend, and with any checksum
  spreading the keys: a write, in one piece or in parts, a conditional write and a deletion that succeed have taken effect on their key and no other, and one that fails
  has taken effect or changed nothing; a conditional write succeeds only when the key was free, and is reported as a conflict when the service answers and the key is taken, and then only;
  a read gives the object, or the bytes of it that lie in a range that does not wrap, and when the service answers it reports a missing key as such and a range past the end as invalid, and then only;
  a listing ends within the pages there are, and lists, in whatever order the prefixes answer, every key with the prefix once and in order. An empty range is answered without a request,
  also for a missing key.\<close>
theorem s3_backend_refines:
  assumes ok: "s3_ok cl (s3_bucket b) V" and n: "s3_prefix_count b \<noteq> 0" and only: "only_shards crc b V s" and L: "L = logical crc b V"
  shows "(case s3_put crc cl b k v s of (r, s') \<Rightarrow> only_shards crc b V s' \<and> (L s' = (L s)(k \<mapsto> v) \<or> r \<noteq> Inr () \<and> L s' = L s))
   \<and> (case s3_conditional_put crc cl b k v s of (r, s') \<Rightarrow> only_shards crc b V s'
        \<and> (L s k = None \<and> L s' = (L s)(k \<mapsto> v) \<or> r \<noteq> Inr () \<and> L s' = L s) \<and> (\<forall>msg. r = Inl (PreconditionFailed msg) \<longrightarrow> L s' k \<noteq> None)
        \<and> (answered (cl_put_object cl (s3_bucket b) (shard_key crc b k) v (Some ''*'') s) \<and> L s k \<noteq> None \<longrightarrow> r = Inl (PreconditionFailed ''key already exists'')))
   \<and> (case s3_delete crc cl b k s of (r, s') \<Rightarrow> only_shards crc b V s' \<and> (L s' = (L s)(k := None) \<or> r \<noteq> Inr () \<and> L s' = L s))
   \<and> (case s3_get crc cl b k s of (r, s') \<Rightarrow> L s' = L s \<and> (\<forall>d. r = Inr d \<longrightarrow> L s k = Some d) \<and> (\<forall>x. r = Inl (NotFound x) \<longrightarrow> L s k = None)
        \<and> (answered (cl_get_object cl (s3_bucket b) (shard_key crc b k) None s) \<longrightarrow>
             (case L s k of None \<Rightarrow> r = Inl (NotFound k) | Some d \<Rightarrow> r = Inr d \<or> (\<exists>msg. r = Inl (Io msg)))))
   \<and> (case s3_get_range crc cl b k off len s of (r, s') \<Rightarrow> len \<noteq> 0 \<and> unat off + unat len \<le> 2 ^ 64 \<longrightarrow> L s' = L s
        \<and> (\<forall>d. r = Inr d \<longrightarrow> (\<exists>x. L s k = Some x \<and> unat off < length x \<and> d = slice_of (unat off) (unat off + unat len) x))
        \<and> (\<forall>x. r = Inl (NotFound x) \<longrightarrow> L s k = None) \<and> (\<forall>msg. r = Inl (InvalidArgument msg) \<longrightarrow> (\<exists>x. L s k = Some x \<and> length x \<le> unat off))
        \<and> (answered (cl_get_object cl (s3_bucket b) (shard_key crc b k) (Some (range_header (unat off) (unat (off + len - 1)))) s) \<longrightarrow>
             (case L s k of None \<Rightarrow> r = Inl (NotFound k)
              | Some x \<Rightarrow> if length x \<le> unat off then r = Inl (InvalidArgument ''range extends beyond object'')
                  else r = Inr (slice_of (unat off) (unat off + unat len) x) \<or> (\<exists>msg. r = Inl (Io msg)))))
   \<and> s3_get_range crc cl b k off 0 s = (Inr [], s)
   \<and> (mset order = mset [0..<unat (s3_prefix_count b)] \<longrightarrow>
        (\<exists>r s'. s3_list_prefix (Suc (card (dom (vw_object V s)))) order cl b p s = Some (r, s') \<and> L s' = L s
           \<and> (\<forall>ks. r = Inr ks \<longrightarrow> sorted ks \<and> distinct ks \<and> set ks = {x. L s x \<noteq> None \<and> starts_with p x})))"
proof (unfold L, intro conjI)
  show "mset order = mset [0..<unat (s3_prefix_count b)] \<longrightarrow>
        (\<exists>r s'. s3_list_prefix (Suc (card (dom (vw_object V s)))) order cl b p s = Some (r, s') \<and> logical crc b V s' = logical crc b V s
           \<and> (\<forall>ks. r = Inr ks \<longrightarrow> sorted ks \<and> distinct ks \<and> set ks = {x. logical crc b V s x \<noteq> None \<and> starts_with p x}))"
  proof
    assume o: "mset order = mset [0..<unat (s3_prefix_count b)]"
    have law: "list_law cl (s3_bucket b) V" using ok by (simp add: s3_ok_def)
    obtain r s' where "s3_list_prefix (Suc (card (dom (vw_object V s)))) order cl b p s = Some (r, s')" "vw_object V s' = vw_object V s"
      "\<forall>ks. r = Inr ks \<longrightarrow> sorted ks \<and> distinct ks \<and> set ks = {x. logical crc b V s x \<noteq> None \<and> starts_with p x}"
      using list_prefix_ok [OF law only lessI o n, of p] by (elim exE conjE) (rule that)
    then show "\<exists>r s'. s3_list_prefix (Suc (card (dom (vw_object V s)))) order cl b p s = Some (r, s') \<and> logical crc b V s' = logical crc b V s
           \<and> (\<forall>ks. r = Inr ks \<longrightarrow> sorted ks \<and> distinct ks \<and> set ks = {x. logical crc b V s x \<noteq> None \<and> starts_with p x})"
      using logical_same(1) by (intro exI [of _ r] exI [of _ s']) simp
  qed
qed ((rule s3_get_empty | split prod.split, intro allI impI, (elim conjE)?,
    (rule s3_put_ok [OF ok only] | rule s3_conditional_put_ok [OF ok only] | rule s3_delete_ok [OF ok only] | rule s3_get_ok [OF ok] | rule s3_get_range_ok [OF ok]), assumption+)+)

section \<open>A service in memory\<close>

type_synonym sim = "objects \<times> (string \<times> string \<Rightarrow> (u32 \<Rightarrow> (string \<times> bytes) option) option)"

definition parse_range :: "string \<Rightarrow> (nat \<times> nat) option" where
  "parse_range h =
     (let t = drop 6 h
      in case (parse_digits 0 (takeWhile (\<lambda>c. c \<noteq> CHR ''-'') t), parse_digits 0 (tl (dropWhile (\<lambda>c. c \<noteq> CHR ''-'') t))) of
           (Some a, Some z) \<Rightarrow> Some (a, z) | _ \<Rightarrow> None)"

definition sim_keys :: "string \<Rightarrow> string option \<Rightarrow> objects \<Rightarrow> string list" where
  "sim_keys p t objs = filter (\<lambda>k. case t of None \<Rightarrow> True | Some x \<Rightarrow> x < k) (sort (remdups (filter (starts_with p) (map fst objs))))"

definition sim_client :: "sim s3_client" where
  "sim_client =
     \<lparr>cl_put_object = (\<lambda>bk k v inm (objs, ups).
        if inm = Some ''*'' \<and> map_of objs k \<noteq> None then (Inl (ServiceError OtherServiceError 412 ''PreconditionFailed''), objs, ups)
        else (Inr (), AList.update k v objs, ups)),
      cl_get_object = (\<lambda>bk k range (objs, ups).
        (case map_of objs k of
           None \<Rightarrow> Inl (ServiceError NoSuchKey 404 ''NoSuchKey'')
         | Some d \<Rightarrow>
             (case range of
                None \<Rightarrow> Inr (Inr d)
              | Some h \<Rightarrow>
                  (case parse_range h of
                     None \<Rightarrow> Inr (Inr d)
                   | Some (a, z) \<Rightarrow> if length d \<le> a then Inl (ServiceError OtherServiceError 416 ''InvalidRange'') else Inr (Inr (slice_of a (Suc z) d)))), objs, ups)),
      cl_delete_object = (\<lambda>bk k (objs, ups). (Inr (), AList.delete k objs, ups)),
      cl_create_multipart_upload = (\<lambda>bk k (objs, ups). (Inr (Some ''U''), objs, ups((k, ''U'') \<mapsto> Map.empty))),
      cl_upload_part = (\<lambda>bk k u n d (objs, ups).
        (case ups (k, u) of
           None \<Rightarrow> (Inl (ServiceError OtherServiceError 404 ''NoSuchUpload''), objs, ups)
         | Some ps \<Rightarrow> (Inr (Some ''E''), objs, ups((k, u) \<mapsto> ps(n \<mapsto> (''E'', d)))))),
      cl_complete_multipart_upload = (\<lambda>bk k u cps (objs, ups).
        (case ups (k, u) of
           None \<Rightarrow> (Inl (ServiceError OtherServiceError 404 ''NoSuchUpload''), objs, ups)
         | Some ps \<Rightarrow>
             if distinct (map snd cps) \<and> (\<forall>(t, n) \<in> set cps. map_option fst (ps n) = Some t)
             then (Inr (), AList.update k (concat (map (\<lambda>(t, n). snd (the (ps n))) cps)) objs, ups((k, u) := None))
             else (Inl (ServiceError OtherServiceError 400 ''InvalidPart''), objs, ups))),
      cl_abort_multipart_upload = (\<lambda>bk k u (objs, ups). (Inr (), objs, ups((k, u) := None))),
      cl_list_objects_v2 = (\<lambda>bk p t (objs, ups).
        let page = take 1000 (sim_keys p t objs); rest = drop 1000 (sim_keys p t objs)
        in (Inr \<lparr>lo_contents = map Some page, lo_is_truncated = Some (rest \<noteq> []),
              lo_next_continuation_token = (if rest = [] then None else Some (last page))\<rparr>, objs, ups))\<rparr>"

definition sim_view :: "sim s3_view" where
  "sim_view = \<lparr>vw_object = (\<lambda>(objs, ups). map_of objs), vw_parts = (\<lambda>(objs, ups) k u. ups (k, u)), vw_rest = (\<lambda>(objs, ups) p t l. l = sim_keys p t objs)\<rparr>"

lemma parse_range_header: "parse_range (range_header a z) = Some (a, z)"
proof -
  have "parse_digits acc xs = Some n \<Longrightarrow> CHR ''-'' \<notin> set xs" for acc xs n
    by (induction acc xs rule: parse_digits.induct) (auto simp: digit_val_def Let_def split: option.splits if_splits)
  then have "CHR ''-'' \<notin> set (dec a)" using parse_digits_dec by blast
  then have "takeWhile (\<lambda>c. c \<noteq> CHR ''-'') (dec a @ CHR ''-'' # dec z) = dec a" "dropWhile (\<lambda>c. c \<noteq> CHR ''-'') (dec a @ CHR ''-'' # dec z) = CHR ''-'' # dec z"
    by (simp_all add: takeWhile_append dropWhile_append)
  then show ?thesis by (simp add: parse_range_def range_header_def Let_def)
qed

lemma after_last: "sorted_wrt (<) (page @ rest) \<Longrightarrow> page \<noteq> [] \<Longrightarrow> filter (\<lambda>k. last page < k) (page @ rest) = rest" for page :: "'a::linorder list"
  by (cases page rule: rev_cases) (auto simp: sorted_wrt_append filter_empty_conv filter_id_conv dest: less_asym)

lemma sim_keys_beyond: "x \<in> set (sim_keys p t objs) \<Longrightarrow> case t of None \<Rightarrow> True | Some y \<Rightarrow> y < x"
  by (simp add: sim_keys_def)

lemma sim_keys_sorted: "sorted_wrt (<) (sim_keys p t objs)"
  unfolding sim_keys_def by (intro sorted_wrt_filter) (simp add: strict_sorted_iff)

lemma sim_keys_step: "(case t of None \<Rightarrow> True | Some y \<Rightarrow> y < x) \<Longrightarrow> sim_keys p (Some x) objs = filter (\<lambda>k. x < k) (sim_keys p t objs)"
  by (cases t) (auto simp: sim_keys_def intro!: filter_cong [OF refl])

lemma sim_keys_after:
  assumes "drop n (sim_keys p t objs) \<noteq> []" and "0 < n"
  shows "sim_keys p (Some (last (take n (sim_keys p t objs)))) objs = drop n (sim_keys p t objs)"
proof -
  let ?l = "sim_keys p t objs" and ?x = "last (take n (sim_keys p t objs))"
  have ne: "take n ?l \<noteq> []" using assms by auto
  then have "?x \<in> set ?l" by (meson in_set_takeD last_in_set)
  then have after: "case t of None \<Rightarrow> True | Some y \<Rightarrow> y < ?x" by (rule sim_keys_beyond)
  have "sim_keys p (Some ?x) objs = filter (\<lambda>k. ?x < k) ?l"
    by (rule sim_keys_step [OF after])
  then show ?thesis using after_last [of "take n ?l" "drop n ?l"] sim_keys_sorted [of p t objs] ne by simp
qed

lemma sim_ok: "s3_ok sim_client bk sim_view"
proof -
  have "put_law sim_client bk sim_view" by (auto simp: put_law_def sim_client_def sim_view_def update_conv')
  moreover have "conditional_law sim_client bk sim_view"
    by (auto simp: conditional_law_def sim_client_def sim_view_def update_conv' answered_def split: if_splits)
  moreover have "get_law sim_client bk sim_view"
    by (auto simp: get_law_def sim_client_def sim_view_def parse_range_header split: option.splits if_splits)
  moreover have "delete_law sim_client bk sim_view" by (auto simp: delete_law_def sim_client_def sim_view_def delete_conv')
  moreover have "create_law sim_client bk sim_view" by (auto simp: create_law_def sim_client_def sim_view_def)
  moreover have "part_law sim_client bk sim_view" by (auto simp: part_law_def sim_client_def sim_view_def split: option.splits)
  moreover have "complete_law sim_client bk sim_view"
    by (auto simp: complete_law_def sim_client_def sim_view_def update_conv' split: if_splits)
  moreover have "abort_law sim_client bk sim_view" by (auto simp: abort_law_def sim_client_def sim_view_def)
  moreover have "list_law sim_client bk sim_view"
  proof -
    have first: "l = sim_keys p None objs" if "sorted l" "distinct l" "set l = {k \<in> dom (map_of objs). starts_with p k}" for l p objs
      using that by (intro sorted_distinct_set_unique) (auto simp: sim_keys_def dom_map_of_conv_image_fst)
    have page: "\<exists>page rest. sim_keys p t objs = page @ rest \<and> lo_contents resp = map Some page
        \<and> (if rest = [] then lo_is_truncated resp \<noteq> Some True
           else page \<noteq> [] \<and> lo_is_truncated resp = Some True \<and> (\<exists>t'. lo_next_continuation_token resp = Some t' \<and> rest = sim_keys p (Some t') objs))"
      if "cl_list_objects_v2 sim_client bk p t (objs, ups) = (Inr resp, s')" for p t objs ups resp s'
      using sim_keys_after [of 1000 p t objs] that
      by (intro exI [of _ "take 1000 (sim_keys p t objs)"] exI [of _ "drop 1000 (sim_keys p t objs)"]) (auto simp: sim_client_def Let_def)
    have same: "snd (cl_list_objects_v2 sim_client bk p t s) = s" for p t s by (cases s) (simp add: sim_client_def Let_def)
    show ?thesis unfolding list_law_def
    proof (intro conjI allI impI)
      show "finite (dom (vw_object sim_view s))" for s by (cases s) (simp add: sim_view_def finite_dom_map_of)
      show "vw_rest sim_view s p None l" if "sorted l \<and> distinct l \<and> set l = {k \<in> dom (vw_object sim_view s). starts_with p k}" for s p l
        using that first by (cases s) (simp add: sim_view_def)
      fix s p t l r s'
      assume q: "vw_rest sim_view s p t l \<and> cl_list_objects_v2 sim_client bk p t s = (r, s')"
      then have s': "s' = s" using same [of p t s] by simp
      then show "vw_object sim_view s' = vw_object sim_view s" by simp
      obtain objs ups where s: "s = (objs, ups)" by (cases s)
      then have l: "l = sim_keys p t objs" using q by (simp add: sim_view_def)
      fix resp
      assume "r = Inr resp"
      then have c: "cl_list_objects_v2 sim_client bk p t (objs, ups) = (Inr resp, s')" using q s by simp
      show "\<exists>page rest. l = page @ rest \<and> lo_contents resp = map Some page
          \<and> (if rest = [] then lo_is_truncated resp \<noteq> Some True
             else page \<noteq> [] \<and> lo_is_truncated resp = Some True \<and> (\<exists>t'. lo_next_continuation_token resp = Some t' \<and> vw_rest sim_view s' p (Some t') rest))"
        unfolding l s' s sim_view_def s3_view.simps prod.case by (rule page [OF c])
    qed
  qed
  ultimately show ?thesis by (simp add: s3_ok_def multipart_law_def)
qed

theorem s3_backend_refines_witness:
  "\<exists>s'. s3_put (\<lambda>_. 5) sim_client (s3_new ''bkt'') ''k'' [1] ([], \<lambda>_. None) = (Inr (), s')
    \<and> logical (\<lambda>_. 5) (s3_new ''bkt'') sim_view s' = [''k'' \<mapsto> [1]]
    \<and> (\<exists>r s''. s3_list_prefix 2 [0..<128] sim_client (s3_new ''bkt'') ''k'' s' = Some (r, s'') \<and> (\<forall>ks. r = Inr ks \<longrightarrow> ks = [''k'']))"
proof -
  let ?b = "s3_new ''bkt''" and ?L = "logical (\<lambda>_. 5) (s3_new ''bkt'') sim_view" and ?s = "([], \<lambda>_. None) :: sim"
  let ?s' = "([(shard_key (\<lambda>_. 5) ?b ''k'', [1])], \<lambda>_. None) :: sim"
  have n: "s3_prefix_count ?b \<noteq> 0" "unat (s3_prefix_count ?b) = 128" by (simp_all add: s3_new_def)
  have o: "only_shards (\<lambda>_. 5) ?b sim_view ?s" by (simp add: only_shards_def sim_view_def)
  have p: "s3_put (\<lambda>_. 5) sim_client ?b ''k'' [1] ?s = (Inr (), ?s')"
    by (simp add: s3_put_def put_simple_def sent_def sim_client_def MULTIPART_THRESHOLD_def Let_def)
  have w: "only_shards (\<lambda>_. 5) ?b sim_view ?s'" "?L ?s' = (?L ?s)(''k'' \<mapsto> [1])"
    using s3_backend_refines [OF sim_ok n(1) o refl, of "''k''" "[1]"] unfolding p by auto
  have e: "?L ?s = Map.empty" by (simp add: logical_def sim_view_def fun_eq_iff)
  have c: "Suc (card (dom (vw_object sim_view ?s'))) = 2" by (simp add: sim_view_def)
  obtain r s'' where l: "s3_list_prefix 2 [0..<128] sim_client ?b ''k'' ?s' = Some (r, s'')"
    "\<forall>ks. r = Inr ks \<longrightarrow> sorted ks \<and> distinct ks \<and> set ks = {x. ?L ?s' x \<noteq> None \<and> starts_with ''k'' x}"
    using s3_backend_refines [OF sim_ok n(1) w(1) refl, where order = "[0..<128]" and p = "''k''", THEN conjunct2, THEN conjunct2, THEN conjunct2,
      THEN conjunct2, THEN conjunct2, THEN conjunct2, unfolded c n(2), rule_format, OF refl] by (elim exE conjE) (rule that)
  have "{x. ?L ?s' x \<noteq> None \<and> starts_with ''k'' x} = {''k''}" unfolding w(2) e by (auto simp: starts_with_def)
  then have "ks = [''k'']" if "r = Inr ks" for ks using l(2) that by (cases ks rule: remdups_adj.cases) auto
  then show ?thesis using p w(2) e l(1) by (intro exI [of _ ?s']) auto
qed

end
