(* ===== verification/Server.thy ===== *)
theory Server
  imports Manager_Correct
begin

text \<open>
  \<^verbatim>\<open>config.rs\<close>, the constructor of \<^verbatim>\<open>server.rs\<close> and the startup in \<^verbatim>\<open>main.rs\<close>: the configuration read from the environment or a file, and the namespaces
  created from it before requests are served. The environment is an argument; the parser of socket addresses and that of the JSON file are parameters;
  \<open>None\<close> stands for a panic.
\<close>

section \<open>Strings\<close>





section \<open>Configuration\<close>

record 'a server_config =
  sc_grpc_listen_addr :: 'a
  sc_metrics_listen_addr :: 'a
  sc_node_id :: u16
  sc_data_dir :: string
  sc_s3_bucket :: "string option"
  sc_default_partition_count :: u32
  sc_default_memtable_size_mb :: u64
  sc_default_wal_fsync_mode :: string
  sc_default_wal_group_commit_interval_us :: u64
  sc_default_wal_batch_sync_interval_ms :: u64
  sc_log_level :: string
  sc_log_format :: string
  sc_maintenance_interval_ms :: u64
  sc_stats_interval_ms :: u64
  sc_default_namespaces :: "(string \<times> u32) list"


definition validate_default_wal_fsync_mode :: "string \<Rightarrow> unit flush_result" where
  "validate_default_wal_fsync_mode mode =
     (if mode = ''sync'' \<or> mode = ''batch_sync'' then Inr ()
      else Inl (InvalidArgument (''default_wal_fsync_mode: must be sync or batch_sync, got '' @ mode)))"

definition sc_validate :: "'a server_config \<Rightarrow> unit flush_result" where
  "sc_validate c =
     bind_res (validate_default_wal_fsync_mode (sc_default_wal_fsync_mode c)) (\<lambda>_.
       if sc_default_wal_batch_sync_interval_ms c = 0 then Inl (InvalidArgument ''default_wal_batch_sync_interval_ms: must be > 0'') else Inr ())"






text \<open>The content of the file, or why it cannot be read, and the deserializer.\<close>

definition from_file :: "(string \<Rightarrow> 'a server_config option) \<Rightarrow> string flush_result \<Rightarrow> 'a server_config flush_result" where
  "from_file parse_json body =
     bind_res body (\<lambda>txt.
     bind_res (case parse_json txt of None \<Rightarrow> Inl (InvalidArgument ''invalid config JSON'') | Some c \<Rightarrow> Inr c) (\<lambda>c.
     bind_res (sc_validate c) (\<lambda>_. Inr c)))"

section \<open>Startup\<close>







text \<open>A turn of the maintenance loop, whose errors are dropped, and the end of the server.\<close>

definition maintenance_turn :: "'c server_env \<Rightarrow> 'c namespace_manager \<Rightarrow> 'c namespace_manager option" where
  "maintenance_turn sv m = map_option snd (nm_run_maintenance sv m)"

section \<open>Startup does not panic\<close>


lemma from_file_valid: "from_file parse_json body = Inr c \<Longrightarrow> sc_validate c = Inr ()"
  by (auto simp: from_file_def)











section \<open>A start\<close>










end
