(* ===== verification/Engine_Delete.thy ===== *)
theory Engine_Delete
  imports Engine_Correct
begin

text \<open>
  \<^verbatim>\<open>Engine::delete\<close> and \<^verbatim>\<open>Engine::delete_range\<close>: both write one entry, a tombstone under the key or a range tombstone under a key of its own, and what they
  delete is no longer read, wherever its versions are.
\<close>

section \<open>What a tombstone hides\<close>

text \<open>The keys a deletion entry hides: its own, and for a range deletion those of its range.\<close>

definition hides :: "memtable_entry \<Rightarrow> composite_key \<Rightarrow> bool" where
  "hides x k \<longleftrightarrow> k = me_composite_key x \<or> me_entry_type x = RangeDelete \<and> rt_record_id (tombstone_of x) = record_id k
     \<and> rt_start_key (tombstone_of x) \<le> item_key k \<and> (rt_end_key (tombstone_of x) = [] \<or> item_key k < rt_end_key (tombstone_of x))"

lemma tombstone_hides:
  assumes x: "me_entry_type x \<noteq> Put" "\<forall>y \<in> set (concat (h # hs)). me_sequence_number y < me_sequence_number x"
    and base: "\<forall>b \<in> set base. me_sequence_number b < me_sequence_number x"
  shows "visible (concat ((h @ [x]) # hs)) base k y \<longleftrightarrow> visible (concat (h # hs)) base k y \<and> \<not> hides x k"
proof -
  let ?mem = "concat (h # hs)"
  have mem: "set (concat ((h @ [x]) # hs)) = insert x (set ?mem)" by auto
  have older: "me_sequence_number z < me_sequence_number x" if "z \<in> set ?mem \<union> set base" for z using x(2) base that by auto
  have c: "history_covers (concat ((h @ [x]) # hs)) k s
      \<longleftrightarrow> history_covers ?mem k s \<or> me_entry_type x = RangeDelete \<and> ts_covers (tombstone_of x) (record_id k) (item_key k) s" for s
    unfolding history_covers_def mem by auto
  show ?thesis
  proof (cases "y \<in> set ?mem \<union> set base")
    case True
    then have s: "me_sequence_number y < me_sequence_number x" by (rule older)
    then have "me_entry_type x = RangeDelete \<and> ts_covers (tombstone_of x) (record_id k) (item_key k) (me_sequence_number y) \<longleftrightarrow> hides x k \<and> (k \<noteq> me_composite_key x
        \<or> me_entry_type x = RangeDelete \<and> ts_covers (tombstone_of x) (record_id k) (item_key k) (me_sequence_number y))"
      by (auto simp: hides_def ts_covers_def tombstone_sequence)
    moreover have "k = me_composite_key x \<Longrightarrow> hides x k" by (simp add: hides_def)
    ultimately show ?thesis using True s unfolding visible_def c set_append mem by auto
  next
    case False
    then show ?thesis using x(1) unfolding visible_def c set_append mem by auto
  qed
qed

section \<open>Deleting\<close>

text \<open>The two operations write an entry under the key; a deletion has no token.\<close>

definition deletion :: "'c env \<Rightarrow> ('c, u64) engine_op \<Rightarrow> bytes \<Rightarrow> composite_key \<Rightarrow> (u64 \<Rightarrow> memtable_entry) \<Rightarrow> bool" where
  "deletion ev del rid key mk \<longleftrightarrow>
     (\<exists>ik. ck_new rid ik = Inr key \<and> del = engine_delete ev rid ik \<and> mk = (\<lambda>seq. me_with_sequence key [] [] token_none seq Delete))
   \<or> (\<exists>sk ek. range_tombstone_key rid sk = Inr key \<and> del = engine_delete_range ev rid sk ek \<and> mk = (\<lambda>seq. me_with_sequence key ek [] token_none seq RangeDelete))"

lemma deletion_entry:
  assumes "deletion ev del rid key mk"
  shows "ck_ok key" "me_composite_key (mk n) = key" "me_idempotency_key (mk n) = token_none" "me_entry_type (mk n) \<noteq> Put"
    "check_write_stall e = Some (Inr (), e) \<Longrightarrow> del e = write_entry ev rid mk e"
  using assms by (auto simp: deletion_def me_with_sequence_def engine_delete_def engine_delete_range_def ebind_def elift_def)

text \<open>C14: a deletion is logged and hides what it deletes. For an engine in a well-formed state that is not stalled and a log with room, \<^verbatim>\<open>delete\<close> and \<^verbatim>\<open>delete_range\<close> return the next
  sequence number and log one entry, on disk in \<open>Sync\<close> mode; afterwards the key, or every key of the record from the start to before the end of the range, reads as absent, also when
  its versions are in SSTables, and every other key reads as before. The key under which a range deletion is itself stored, the start key behind a byte \<^verbatim>\<open>0xFF\<close>, reads as absent too.\<close>
theorem deletes_hide:
  assumes ok: "engine_ok ev e (h # hs) T" and stall: "check_write_stall e = Some (Inr (), e)" and del: "deletion ev del rid key mk"
    and c: "mt_next_sequence_number (ml_active (en_memtable_list e)) \<noteq> - 1"
    and entry: "entry = mk (en_next_sequence e)" "stays_active ev e entry"
    and w: "we = from_memtable_entry entry (string_bytes (ec_namespace (en_config e)))" "log_idle (ev_crc ev) (en_wal_manager e) log" "log_room (en_wal_manager e) log [we]"
  shows "\<exists>e' log' x. del e = Some (Inr (en_next_sequence e), e')
    \<and> log_idle (ev_crc ev) (en_wal_manager e') log'
    \<and> log_entries log' = log_entries log @ [we\<lparr>we_sequence_number := ww_next_sequence_number (gc_writer (wm_gc (en_wal_manager e)))\<rparr>]
    \<and> (cfg_fsync_mode (wm_config (en_wal_manager e)) = Sync \<longrightarrow> gc_durable (wm_gc (en_wal_manager e')) = map_of (gc_dir (wm_gc (en_wal_manager e'))))
    \<and> engine_ok ev e' ((h @ [x]) # hs) T \<and> en_next_sequence e' = en_next_sequence e + 1
    \<and> (\<forall>k. engine_reads ev e' k = (if hides entry k then Inr None else engine_reads ev e k))"
proof -
  let ?c = "mt_next_sequence_number (ml_active (en_memtable_list e))"
  define x where "x = entry\<lparr>me_sequence_number := ?c\<rparr>"
  have m: "ml_built (en_memtable_list e) (h # hs)" using ok by (simp add: engine_ok_def)
  note d = deletion_entry [OF del]
  have f: "ck_ok (me_composite_key entry)" "token_is_none (me_idempotency_key entry)" using d(1-3) by (simp_all add: entry(1))
  obtain l' wm' log' where l: "write_entry ev rid mk e = Some (Inr (en_next_sequence e),
      forget_record rid (e\<lparr>en_wal_manager := wm', en_tick := Suc (en_tick e), en_next_sequence := en_next_sequence e + 1, en_memtable_list := l'\<rparr>))"
      "ml_built l' ((h @ [x]) # hs)" "mt_next_sequence_number (ml_active l') = ?c + 1" "log_idle (ev_crc ev) wm' log'" "wm_config wm' = wm_config (en_wal_manager e)"
      "log_entries log' = log_entries log @ [we\<lparr>we_sequence_number := ww_next_sequence_number (gc_writer (wm_gc (en_wal_manager e)))\<rparr>]" "gc_acks (wm_gc wm') \<noteq> []"
    using write_entry_ok [OF m c, of entry mk ev we log rid] entry f w unfolding x_def by auto
  let ?e = "forget_record rid (e\<lparr>en_wal_manager := wm', en_tick := Suc (en_tick e), en_next_sequence := en_next_sequence e + 1, en_memtable_list := l'\<rparr>)"
  have ok': "engine_ok ev ?e ((h @ [x]) # hs) T" by (rule written_engine_ok [OF ok l(2) _ c l(3)]) (simp add: x_def)
  have newer: "\<forall>y \<in> set (concat (h # hs)). me_sequence_number y < me_sequence_number x" "\<forall>b \<in> set (table_entries T). me_sequence_number b < me_sequence_number x"
    using ml_built_repr [OF m] ok by (simp_all add: ml_repr_def x_def engine_ok_def)
  have hid: "hides x k \<longleftrightarrow> hides entry k" for k by (simp add: hides_def x_def tombstone_of_def Let_def)
  have "me_entry_type x \<noteq> Put" using d(4) by (simp add: x_def entry(1))
  note vis = tombstone_hides [OF this newer, unfolded hid]
  have "engine_reads ev ?e k = (if hides entry k then Inr None else engine_reads ev e k)" for k
  proof (cases "hides entry k")
    case True
    obtain r where "engine_reads ev ?e k = Inr r" "\<forall>g. r = Some g \<longleftrightarrow> (\<exists>z. visible (concat ((h @ [x]) # hs)) (table_entries T) k z \<and> g = mg_from_memtable_entry z)"
      using engine_reads_visible [OF ok'] by blast
    then show ?thesis using True unfolding vis by (cases r) simp_all
  next
    case False
    then have "visible (concat ((h @ [x]) # hs)) (table_entries T) k = visible (concat (h # hs)) (table_entries T) k" unfolding vis by simp
    then show ?thesis using engine_reads_cong [OF ok' ok, of k] False by simp
  qed
  moreover have "gc_durable (wm_gc wm') = map_of (gc_dir (wm_gc wm'))" if "cfg_fsync_mode (wm_config (en_wal_manager e)) = Sync"
    using log_idle_durable [OF l(4) l(7)] l(5) that by simp
  ultimately show ?thesis using d(5) [OF stall] l(1,4,6) ok' by (intro exI [of _ ?e] exI [of _ log'] exI [of _ x]) (simp add: forget_record_def)
qed

lemma range_delete_hides:
  assumes "range_tombstone_key rid sk = Inr key"
  shows "hides (me_with_sequence key ek [] token_none n RangeDelete) k \<longleftrightarrow> k = key \<or> record_id k = rid \<and> sk \<le> item_key k \<and> (ek = [] \<or> item_key k < ek)"
proof -
  have k: "record_id key = rid" "item_key key = RANGE_TOMBSTONE_PREFIX # sk" using assms by (auto simp: range_tombstone_key_eq_Inr rid_ok_def)
  show ?thesis by (auto simp: hides_def me_with_sequence_def tombstone_of_def k Let_def)
qed

theorem deletes_hide_witness:
  "\<exists>wm e'. wm_open (\<lambda>_. 0) 0 wal_config_default [] = Inr wm
    \<and> engine_delete_range sample_env [1] [4] [] (sample_engine (ml_new (\<lambda>_. 1) 0 memtable_config_default 1) wm (mm_new 0 ''ns'' manifest_config_default) empty_levels [])
       = Some (Inr 1, e')
    \<and> engine_reads sample_env e' (CompositeKey [1, 0, 5]) = Inr None"
proof -
  obtain wm log where wm: "wm_open (\<lambda>_. 0) 0 wal_config_default [] = Inr wm" "log_idle (\<lambda>_. 0) wm log" "\<forall>w. wal_entry_fits w \<longrightarrow> log_room wm log [w]"
    using opened_log by blast
  let ?l = "ml_new (\<lambda>_. 1) 0 memtable_config_default 1" and ?key = "CompositeKey [1, 0, 255, 4]"
  let ?e = "sample_engine ?l wm (mm_new 0 ''ns'' manifest_config_default) empty_levels []"
  let ?x = "me_with_sequence ?key [] [] token_none 1 RangeDelete"
  have key: "range_tombstone_key [1] [4] = Inr ?key"
    by (simp add: range_tombstone_key_eq_Inr rid_ok_def SEPARATOR_def RANGE_TOMBSTONE_PREFIX_def MAX_ITEM_KEY_LEN_def MAX_RECORD_ID_LEN_def)
  then have d: "deletion sample_env (engine_delete_range sample_env [1] [4] []) [1] ?key (\<lambda>seq. me_with_sequence ?key [] [] token_none seq RangeDelete)"
    by (auto simp: deletion_def)
  have ok: "engine_ok sample_env ?e ([] # []) (\<lambda>_. [])" by (rule sample_engine_ok [OF ml_built.new]) (simp add: mm_new_def empty_manifest_levels)
  have usage: "mt_approximate_memory_usage (ml_active ?l) = 0" "mt_config (ml_active ?l) = memtable_config_default" "mt_created_at (ml_active ?l) = 0" "ml_frozen ?l = []"
    "ml_config ?l = memtable_config_default"
    by (simp_all add: ml_new_def mt_new_def mt_approximate_memory_usage_def sl_new_def sl_with_arena_def arena_new_def arena_with_block_size_def)
  have stall: "check_write_stall ?e = Some (Inr (), ?e)"
    using usage by (simp add: check_write_stall_def engine_write_stall_status_def sched_write_stall_status_def l0_count_def mm_new_def empty_manifest_levels
      compaction_config_default_def ml_is_memory_backpressured_def ml_total_memory_usage_def memtable_config_default_def eret_def sample_engine_def Let_def)
  have quiet: "stays_active sample_env ?e ?x"
    using usage by (simp add: stays_active_def sample_engine_def sample_env_def approximate_entry_size_def me_with_sequence_def memtable_config_default_def
      mt_should_freeze_by_age_def sample_engine_config_def flush_config_default_def Let_def)
  have fit: "wal_entry_fits (from_memtable_entry ?x (string_bytes (ec_namespace (en_config ?e))))"
    by (simp add: wal_entry_fits_def from_memtable_entry_def me_with_sequence_def string_bytes_def sample_engine_def sample_engine_config_def body_size_def
      FIXED_BODY_OVERHEAD_def record_id_def item_key_def SEPARATOR_def)
  have n: "en_next_sequence ?e = 1" "mt_next_sequence_number (ml_active (en_memtable_list ?e)) = 1" by (simp_all add: sample_engine_def ml_new_def)
  have lg: "log_idle (ev_crc sample_env) (en_wal_manager ?e) log" "log_room (en_wal_manager ?e) log [from_memtable_entry ?x (string_bytes (ec_namespace (en_config ?e)))]"
    using wm fit by (simp_all add: sample_engine_def sample_env_def)
  obtain e' where e': "engine_delete_range sample_env [1] [4] [] ?e = Some (Inr 1, e')" "\<forall>k. engine_reads sample_env e' k = (if hides ?x k then Inr None else engine_reads sample_env ?e k)"
    using deletes_hide [OF ok stall d, of ?x, OF _ _ quiet refl lg] unfolding n by auto
  have "hides ?x (CompositeKey [1, 0, 5])" unfolding range_delete_hides [OF key] by (simp add: record_id_def item_key_def SEPARATOR_def)
  then show ?thesis using wm(1) e' by auto
qed

end
