(* ===== verification/Spec2Isabelle.thy ===== *)
theory Spec2Isabelle
  imports Service_Correct S3_Backend Server Engine_Delete
begin

text \<open>
  FlushDB, a storage engine with a write-ahead log on local disk and sorted tables on an object store, and the server that offers it
  by namespace and record. This library models the crates \<^verbatim>\<open>flushdb-types\<close>, \<^verbatim>\<open>flushdb-wal\<close>, \<^verbatim>\<open>flushdb-engine\<close> and
  \<^verbatim>\<open>flushdb-server\<close> under \<^verbatim>\<open>src/crates\<close>, one theory per component, and proves what makes them correct, from the bytes on disk up to the
  answers a client gets.

  \<^bold>\<open>How the parts work together.\<close> A request (\<^verbatim>\<open>server/handlers\<close>) is checked and converted (\<^verbatim>\<open>conversions.rs\<close>), routed by its namespace and record id
  to a partition (\<^verbatim>\<open>namespace_manager.rs\<close>, \<^verbatim>\<open>partition_router.rs\<close>, \<^verbatim>\<open>partition.rs\<close>) and carried out by that partition's engine (\<^verbatim>\<open>engine.rs\<close>). A write is
  logged by the group-commit task (\<^verbatim>\<open>wal_manager.rs\<close>, \<^verbatim>\<open>group_commit.rs\<close>) and put into the active memtable; a full memtable is frozen, written as an
  SSTable (\<^verbatim>\<open>flush.rs\<close>) and committed to the manifest (\<^verbatim>\<open>manifest/\<close>) by a conditional put, after which its log segments are deleted.
  Compactions (\<^verbatim>\<open>compaction/\<close>) move tables down the levels. A read asks the memtables and then the levels through block and metadata caches
  (\<^verbatim>\<open>read_path.rs\<close>, \<^verbatim>\<open>cache/\<close>); a restart loads the manifest and replays the log (\<^verbatim>\<open>recovery.rs\<close>).

  \<^bold>\<open>The theories.\<close>
  \<^item> \<open>Prelude\<close>, \<open>Decimal\<close>: machine integers as words, byte order, results as sums, slices, list and map lemmas, zero-padded numbers.
  \<^item> \<open>Flush_Types\<close>: the types of \<^verbatim>\<open>flushdb-types\<close>; composite keys and versions are instances of \<open>linorder\<close>. \<open>Storage\<close>: the trait
    \<^verbatim>\<open>StorageBackend\<close> as the locale \<open>object_store\<close>, interpreted on \<^verbatim>\<open>LocalFsBackend\<close>. \<open>S3_Backend\<close>: \<^verbatim>\<open>s3_backend.rs\<close> over a client with the documented laws of the service.
  \<^item> \<open>Wal_Entry\<close>, \<open>Wal_Segment\<close>, \<open>Wal_Writer\<close>, \<open>Wal_Log\<close>: formats, writer and reader of the log, and what a directory of segments means. \<open>Dirty_Tracker\<close>,
    \<open>Wal_Manager\<close>: the tracker of unflushed segments (locale \<open>segment_tracker\<close>) and the commit loop as a step relation.
  \<^item> \<open>Range_Tombstone\<close>, \<open>Skip_List\<close>, \<open>Skip_List_Correct\<close>, \<open>Memtable\<close>, \<open>Memtable_List\<close>: the memtables, with the locales \<open>tombstone_index\<close> and
    \<open>version_store\<close> as the contracts of their two indexes.
  \<^item> \<open>Varint\<close>, \<open>Sst_Block\<close>, \<open>Sst_Filter\<close>, \<open>Sst_Index\<close>, \<open>Sst_File\<close>, \<open>Sst_Correct\<close>, \<open>Sst_Handle\<close>: SSTables, from variable-length integers to open handles and levels.
  \<^item> \<open>Merge_Iterator\<close> (locale \<open>merge_source\<close>), \<open>Page_Token\<close>, \<open>Read_Path\<close>, \<open>Range_Read\<close>: point reads, range reads and pages.
  \<^item> \<open>Manifest\<close>, \<open>Manifest_Manager\<close>, \<open>Manifest_Cluster\<close>: the manifest and any number of managers that interleave on one store.
  \<^item> \<open>Level_Store\<close>, \<open>Level_Exchange\<close>, \<open>Flush_Pipeline\<close>, \<open>Compaction\<close>, \<open>Compaction_Correct\<close>, \<open>Compaction_Safe\<close>, \<open>Recovery\<close>: how tables come, move and are found again.
  \<^item> \<open>Block_Cache\<close>, \<open>Metadata_Cache\<close>: caches, budgets, coalesced fetches, continuity and page-size estimates.
  \<^item> \<open>Engine\<close>, \<open>Engine_Correct\<close>, \<open>Engine_Batch\<close>, \<open>Engine_Delete\<close>, \<open>Engine_Open\<close>: the operations of \<^verbatim>\<open>engine.rs\<close> and what they guarantee.
  \<^item> \<open>Version_Generator\<close>, \<open>Namespace_Config\<close> (locale \<open>partition_router\<close>), \<open>Partition\<close>, \<open>Namespace_Manager\<close>, \<open>Manager_Correct\<close>, \<open>Conversions\<close>, \<open>Service\<close>,
    \<open>Service_Correct\<close>, \<open>Server\<close>: the server.

  \<^bold>\<open>How code becomes definitions.\<close> A struct is a record, an enum a datatype, an integer a word of its width or a natural number where the code has a length. A method is a function
  from the state to a result and the new state; errors are the values of \<open>flush_error\<close> in the left of a sum. An outer \<open>None\<close>
  is a panic, or too little fuel where a loop is given fuel. Concurrency is modelled where the code has it: the commit loop and its clients, the managers of a manifest,
  the calls of the version generator and the life of a partition are step relations, and their invariants hold in every reachable state.

  \<^bold>\<open>What is shown.\<close>
  \<^item> Formats: what the encoders write the decoders read, for blocks, tables and page tokens; a log cut anywhere after a segment header is read up to the last whole entry; the Bloom filter
    reports a record exactly when its probe positions are positions of records added, so it has no false negatives.
  \<^item> Structures: the skip list is the sorted list of versions, the merge iterator the sorted merge without duplicates, the tombstone index the set of its intervals.
  \<^item> Durability: answered commits are a prefix of those submitted and are recovered exactly, less what segment cleanups delete, under every interleaving with marks, cleanups and the shutdown; recovery after a crash reads as before it
    when the log holds the entries of the memtables (up to their numbers) without repeated tokens; manifest updates of concurrent managers are linear.
  \<^item> Reads: point reads give the newest visible put over memtables and tables, through caches with a budget too; pages cover a range without range deletions exactly, each visible item once; flushes without range deletions and compactions change no read.
    All of these suppose SSTables that keep the versions of a key in one block (\<open>unsplit\<close>, \<open>unsplit_levels\<close>, \<open>unsplit_store\<close>, part of \<open>engine_ok\<close>). A compaction writes such tables; a flush does when the memtable is cut into blocks between
    different keys (\<open>apart\<close>), which the code does not ensure: \<open>handle_scan_stale\<close> and the lookup lemmas of \<open>Sst_Handle\<close> show the stale answers otherwise.
  \<^item> The engine: a put, single or in a batch, is logged, read back and changes no other read; a deletion is logged and hides what it deletes, wherever its versions are, and besides only the key a range deletion is stored under; closing drains the memtables.
  \<^item> The server: a repeated put request that fills no memtable changes nothing but the version; the stream of a scan ends and is exactly what was asked for, except that without an end key it leaves out item keys from \<^verbatim>\<open>0xFF\<close> on; a record has one partition for good; versions grow under
    every interleaving; a drained partition stays drained; the S3 backend refines the object store, with the errors of the trait when the service answers; an accepted configuration starts and serves its default namespaces, unless a partition fails to open or a checked multiplication overflows.
  \<^item> Errors: what goes wrong is stated as well, where the code loses or hides data: torn segment headers, a failed flush, range deletions after a flush, colliding cache keys,
    a segment deleted with unflushed writes.

  \<^bold>\<open>Bounds and fuel.\<close> Walks along the skip list take the number of nodes as fuel, the merge loop of a page the number of entries left in its sources, reading pages and the stream of a scan one more than the number of
  items, listing a shard one more than the number of objects; each is proved to be enough. Loops over input are recursion on the list or on a measure. The loop of the version generator takes
  the readings of the clock and is shown to return once the clock has moved on. Sequence numbers, generations and manifest numbers are words; hypotheses such as \<open>n + length items < 2 ^ 64\<close> say where they must not wrap.

  \<^bold>\<open>Parameters.\<close> Code outside the repository is an argument: the checksums, the compressors (\<open>codecs\<close>), serde's JSON (\<open>manifest_json\<close>), the moka cache (\<open>moka\<close>), the random
  numbers, clocks and ULIDs, the FNV hash, the AWS client (\<open>s3_client\<close>), the parser of socket addresses and the floating-point logarithm that sizes the Bloom filter. What is assumed of them is stated as a predicate with an instance
  that satisfies it: \<open>codecs_ok\<close>, \<open>json_ok\<close>, \<open>moka_ok\<close>, \<open>s3_ok\<close>.

  \<^bold>\<open>Not modelled.\<close> Sockets, signals, tasks and the gRPC framework (\<^verbatim>\<open>server.rs\<close>, \<^verbatim>\<open>main.rs\<close>), tracing and metrics (\<^verbatim>\<open>observability.rs\<close>), the generated protocol crate, the demo client
  with its benchmarks and the test utilities: input and output, or not part of the database. Failures of the local file system other than a missing or an existing file, accessors without logic, \<^verbatim>\<open>Debug\<close>
  and \<^verbatim>\<open>Display\<close>, cache statistics. Blocks fetched by scans and compactions are not added to the modelled cache. Operations of the namespace manager are atomic steps, because each holds the lock of its partition.
\<close>

end
